(* ===== verification/Prelude.thy ===== *)
theory Prelude
  imports Main "HOL-Library.Word"
begin

text \<open>
  Shared vocabulary of the development.

  \<^item> \<open>err\<close>: what can stop a piece of kernel or user code: a call of \<open>panic\<close>, a read or write
    outside an array (undefined behaviour of the C program), a loop that never ends, or a process
    that goes to sleep until another one wakes it up.
  \<^item> \<open>rbind\<close>: sequencing of steps that may fail; the first failure is the result.
  \<^item> \<open>for_each\<close>: a counted \<open>for\<close> loop whose body may \<open>break\<close>; \<open>for_links\<close>: a \<open>for\<close> loop
    that follows links until it meets \<open>-1\<close>, with a fuel after which it is taken to be endless.
  \<^item> \<open>arr_get\<close>, \<open>arr_set\<close>, \<open>arr_mod\<close>: array accesses at a C \<open>int\<close> index, checked.
\<close>

named_theorems bind_simps "evaluation of sequenced fallible steps"

datatype err = Panic string | OutOfBounds | Hang | Sleeps

type_synonym 'a res = "err + 'a"

type_synonym byte = "8 word"

subsection \<open>Sequencing\<close>

definition rbind :: "'a res \<Rightarrow> ('a \<Rightarrow> 'b res) \<Rightarrow> 'b res" where
  "rbind m f = (case m of Inl e \<Rightarrow> Inl e | Inr x \<Rightarrow> f x)"

lemma rbind_Inr [simp, bind_simps]: "rbind (Inr x) f = f x"
  by (simp add: rbind_def)

lemma rbind_Inl [simp, bind_simps]: "rbind (Inl e) f = Inl e"
  by (simp add: rbind_def)

lemma rbind_eq_Inr [bind_simps]:
  "rbind m f = Inr y \<longleftrightarrow> (\<exists>x. m = Inr x \<and> f x = Inr y)"
  by (cases m) auto

lemma rbind_assoc: "rbind (rbind m f) g = rbind m (\<lambda>x. rbind (f x) g)"
  by (cases m) auto

lemma rbind_if: "rbind (if b then m else n) f = (if b then rbind m f else rbind n f)"
  by simp

lemma rbind_cong [fundef_cong]:
  "m = m' \<Longrightarrow> (\<And>x. m' = Inr x \<Longrightarrow> f x = f' x) \<Longrightarrow> rbind m f = rbind m' f'"
  by (cases m') auto

text \<open>The failure-free runs: \<open>ok m P\<close> says that \<open>m\<close> returns a value satisfying \<open>P\<close>.\<close>

definition ok :: "'a res \<Rightarrow> ('a \<Rightarrow> bool) \<Rightarrow> bool" where
  "ok m P \<longleftrightarrow> (\<exists>x. m = Inr x \<and> P x)"

lemma ok_Inr [simp]: "ok (Inr x) P \<longleftrightarrow> P x"
  by (simp add: ok_def)

lemma ok_Inl [simp]: "\<not> ok (Inl e) P"
  by (simp add: ok_def)

lemma ok_rbind: "ok m P \<Longrightarrow> (\<And>x. P x \<Longrightarrow> ok (f x) Q) \<Longrightarrow> ok (rbind m f) Q"
  by (auto simp: ok_def)

lemma ok_mono: "ok m P \<Longrightarrow> (\<And>x. P x \<Longrightarrow> Q x) \<Longrightarrow> ok m Q"
  by (auto simp: ok_def)

lemma ok_conj: "ok m P \<Longrightarrow> ok m Q \<Longrightarrow> ok m (\<lambda>x. P x \<and> Q x)"
  by (auto simp: ok_def)

lemma ok_not_Inl: "ok m P \<Longrightarrow> m \<noteq> Inl e"
  by (auto simp: ok_def)

subsection \<open>Arrays at a C index\<close>

definition in_range :: "int \<Rightarrow> 'a list \<Rightarrow> bool" where
  "in_range i xs \<longleftrightarrow> 0 \<le> i \<and> i < int (length xs)"

definition arr_get :: "'a list \<Rightarrow> int \<Rightarrow> 'a res" where
  "arr_get xs i = (if in_range i xs then Inr (xs ! nat i) else Inl OutOfBounds)"

definition arr_set :: "'a list \<Rightarrow> int \<Rightarrow> 'a \<Rightarrow> 'a list res" where
  "arr_set xs i v = (if in_range i xs then Inr (xs[nat i := v]) else Inl OutOfBounds)"

definition arr_mod :: "'a list \<Rightarrow> int \<Rightarrow> ('a \<Rightarrow> 'a) \<Rightarrow> 'a list res" where
  "arr_mod xs i f = rbind (arr_get xs i) (\<lambda>x. arr_set xs i (f x))"

lemma in_range_int [simp]: "in_range (int i) xs \<longleftrightarrow> i < length xs"
  by (simp add: in_range_def)

lemma in_range_update [simp]: "in_range i (xs[k := v]) \<longleftrightarrow> in_range i xs"
  by (simp add: in_range_def)

lemma in_range_cong: "length xs = length ys \<Longrightarrow> in_range i xs \<longleftrightarrow> in_range i ys"
  by (simp add: in_range_def)

lemma arr_get_ok [simp]: "in_range i xs \<Longrightarrow> arr_get xs i = Inr (xs ! nat i)"
  by (simp add: arr_get_def)

lemma arr_set_ok [simp]: "in_range i xs \<Longrightarrow> arr_set xs i v = Inr (xs[nat i := v])"
  by (simp add: arr_set_def)

lemma arr_mod_ok [simp]: "in_range i xs \<Longrightarrow> arr_mod xs i f = Inr (xs[nat i := f (xs ! nat i)])"
  by (simp add: arr_mod_def)

lemma arr_out [simp]:
  "\<not> in_range i xs \<Longrightarrow> arr_get xs i = Inl OutOfBounds"
  "\<not> in_range i xs \<Longrightarrow> arr_set xs i v = Inl OutOfBounds"
  "\<not> in_range i xs \<Longrightarrow> arr_mod xs i f = Inl OutOfBounds"
  by (simp_all add: arr_get_def arr_set_def arr_mod_def)

subsection \<open>Counted loops with \<open>break\<close>\<close>

text \<open>
  \<open>for_each body xs s\<close> runs \<open>body\<close> on the elements of \<open>xs\<close> in order. The body returns the new
  state and whether it left the loop by \<open>break\<close>; \<open>continue\<close> and falling through are both
  \<open>False\<close>.
\<close>

fun for_each :: "('a \<Rightarrow> 's \<Rightarrow> ('s \<times> bool) res) \<Rightarrow> 'a list \<Rightarrow> 's \<Rightarrow> 's res" where
  "for_each body [] s = Inr s"
| "for_each body (x # xs) s =
     rbind (body x s) (\<lambda>(s', brk). if brk then Inr s' else for_each body xs s')"

text \<open>The two results of a loop body that does not fail.\<close>

definition cont :: "'s \<Rightarrow> ('s \<times> bool) res" where
  "cont s = Inr (s, False)"

definition brk :: "'s \<Rightarrow> ('s \<times> bool) res" where
  "brk s = Inr (s, True)"

definition cont_res :: "'s res \<Rightarrow> ('s \<times> bool) res" where
  "cont_res m = rbind m cont"

lemma cont_res_Inr [simp]: "cont_res (Inr s) = Inr (s, False)"
  by (simp add: cont_res_def cont_def)

lemma cont_res_Inl [simp]: "cont_res (Inl e) = Inl e"
  by (simp add: cont_res_def)

lemma for_each_inv':
  assumes "for_each body xs s = Inr s'" and "I s" and "\<And>x s s' b. x \<in> set xs \<Longrightarrow> I s \<Longrightarrow> body x s = Inr (s', b) \<Longrightarrow> I s'"
  shows "I s'"
  using assms
proof (induction xs arbitrary: s)
  case Nil
  then show ?case by simp
next
  case (Cons x xs)
  from Cons.prems(1) obtain s1 b where b: "body x s = Inr (s1, b)" "(if b then Inr s1 else for_each body xs s1) = Inr s'"
    by (auto simp: rbind_eq_Inr)
  have "I s1" by (rule Cons.prems(3) [OF _ Cons.prems(2) b(1)]) simp
  then show ?case using Cons.IH [of s1] b(2) Cons.prems(3) by (auto split: if_splits)
qed

lemma for_each_append:
  "(\<And>x s s' b. x \<in> set xs \<Longrightarrow> body x s = Inr (s', b) \<Longrightarrow> \<not> b) \<Longrightarrow>
   for_each body (xs @ ys) s = rbind (for_each body xs s) (for_each body ys)"
proof (induction xs arbitrary: s)
  case Nil
  then show ?case by simp
next
  case (Cons x xs)
  show ?case
  proof (cases "body x s")
    case (Inl e)
    then show ?thesis by simp
  next
    case (Inr r)
    then obtain s' b where r: "body x s = Inr (s', b)" by (cases r) auto
    with Cons.prems have "\<not> b" by auto
    moreover have "for_each body (xs @ ys) s' = rbind (for_each body xs s') (for_each body ys)"
      by (rule Cons.IH) (use Cons.prems in auto)
    ultimately show ?thesis using r by simp
  qed
qed

text \<open>An invariant of the body is an invariant of the loop, and the loop does not fail.\<close>

lemma for_each_inv:
  assumes "I s" and "\<And>x s. x \<in> set xs \<Longrightarrow> I s \<Longrightarrow> ok (body x s) (\<lambda>(s', b). I s')"
  shows "ok (for_each body xs s) I"
  using assms
proof (induction xs arbitrary: s)
  case Nil
  then show ?case by simp
next
  case (Cons x xs)
  from Cons.prems obtain s' b where b: "body x s = Inr (s', b)" "I s'"
    by (fastforce simp: ok_def)
  then show ?case using Cons.IH [of s'] Cons.prems by auto
qed

text \<open>
  The clipping idiom of the drawing code: skip while the coordinate is below the low bound,
  stop at the first one above the high bound. Such a loop acts exactly on the counters in range.
\<close>

lemma for_each_clip:
  "for_each (\<lambda>i s. if y + int i < lo then cont s
                   else if hi \<le> y + int i then brk s
                   else cont_res (act i s)) [a..<b] s =
   for_each (\<lambda>i s. cont_res (act i s))
     (filter (\<lambda>i. lo \<le> y + int i \<and> y + int i < hi) [a..<b]) s"
proof (induction "b - a" arbitrary: a s)
  case 0
  then show ?case by simp
next
  case (Suc n)
  then have ab: "[a..<b] = a # [Suc a..<b]" and n: "n = b - Suc a"
    by (simp_all add: upt_conv_Cons)
  show ?case
  proof (cases "hi \<le> y + int a")
    case True
    then have "filter (\<lambda>i. lo \<le> y + int i \<and> y + int i < hi) [a..<b] = []"
      by (auto simp: filter_empty_conv)
    moreover have "filter (\<lambda>i. lo \<le> y + int i \<and> y + int i < hi) [Suc a..<b] = []"
      using True by (auto simp: filter_empty_conv)
    ultimately show ?thesis
      using True Suc(1)[OF n] by (simp add: ab cont_def brk_def)
  next
    case False
    then show ?thesis
      using Suc(1)[OF n]
      by (auto simp: ab cont_def cont_res_def rbind_assoc intro!: arg_cong2 [where f = rbind])
  qed
qed

text \<open>A loop that only sets array cells whose indices are distinct and in range.\<close>

lemma for_each_pointwise:
  assumes "distinct (map ix xs)" and "\<And>x. x \<in> set xs \<Longrightarrow> in_range (ix x) buf"
  shows "\<exists>buf'. for_each (\<lambda>x b. cont_res (arr_mod b (ix x) (f x))) xs buf = Inr buf' \<and>
           length buf' = length buf \<and>
           (\<forall>k < length buf.
              (\<forall>x \<in> set xs. ix x \<noteq> int k) \<longrightarrow> buf' ! k = buf ! k) \<and>
           (\<forall>x \<in> set xs. buf' ! nat (ix x) = f x (buf ! nat (ix x)))"
  using assms
proof (induction xs arbitrary: buf)
  case Nil
  then show ?case by simp
next
  case (Cons x xs)
  let ?b = "buf[nat (ix x) := f x (buf ! nat (ix x))]"
  have rx: "in_range (ix x) buf" using Cons.prems by simp
  obtain buf' where b': "for_each (\<lambda>x b. cont_res (arr_mod b (ix x) (f x))) xs ?b = Inr buf'"
      "length buf' = length ?b"
      "\<forall>k < length ?b. (\<forall>x \<in> set xs. ix x \<noteq> int k) \<longrightarrow> buf' ! k = ?b ! k"
      "\<forall>x \<in> set xs. buf' ! nat (ix x) = f x (?b ! nat (ix x))"
    using Cons.IH [of ?b] Cons.prems by auto
  have other: "nat (ix x) \<noteq> nat (ix z)" if "z \<in> set xs" for z
  proof -
    from that have "ix x \<noteq> ix z" using Cons.prems(1) by auto
    moreover have "in_range (ix z) buf" using that Cons.prems(2) by simp
    ultimately show ?thesis using rx by (simp add: in_range_def eq_nat_nat_iff)
  qed
  have same: "buf' ! nat (ix x) = f x (buf ! nat (ix x))"
  proof -
    have "int (nat (ix x)) = ix x" using rx by (simp add: in_range_def)
    then have "\<forall>z \<in> set xs. ix z \<noteq> int (nat (ix x))"
      using Cons.prems(1) by (metis distinct.simps(2) image_eqI list.simps(9) set_map)
    moreover have "nat (ix x) < length buf" using rx by (auto simp: in_range_def)
    ultimately show ?thesis using b'(3) by simp
  qed
  have "for_each (\<lambda>x b. cont_res (arr_mod b (ix x) (f x))) (x # xs) buf = Inr buf'"
    using b'(1) rx by simp
  moreover have "\<forall>k < length buf. (\<forall>z \<in> set (x # xs). ix z \<noteq> int k) \<longrightarrow> buf' ! k = buf ! k"
    using b'(3) rx by (auto simp: in_range_def)
  moreover have "\<forall>z \<in> set (x # xs). buf' ! nat (ix z) = f z (buf ! nat (ix z))"
    using b'(4) same other by auto
  ultimately show ?case using b'(2) by auto
qed

subsection \<open>Loops along links\<close>

text \<open>
  \<open>for (p = start; p != -1; p = step p) body\<close>. The fuel bounds the number of cells visited; a
  loop that would visit more is reported as \<open>Hang\<close>. The result is the state and the value of
  \<open>p\<close> when the loop was left.
\<close>

fun for_links :: "nat \<Rightarrow> ('s \<Rightarrow> int \<Rightarrow> int res) \<Rightarrow> (int \<Rightarrow> 's \<Rightarrow> ('s \<times> bool) res) \<Rightarrow>
    int \<Rightarrow> 's \<Rightarrow> ('s \<times> int) res" where
  "for_links fuel step body p s =
     (if p = -1 then Inr (s, p)
      else (case fuel of
              0 \<Rightarrow> Inl Hang
            | Suc fuel' \<Rightarrow>
                rbind (body p s) (\<lambda>(s', brk).
                  if brk then Inr (s', p)
                  else rbind (step s' p) (\<lambda>q. for_links fuel' step body q s'))))"

declare for_links.simps [simp del]

text \<open>Its list counterpart: the cells of the list in order.\<close>

fun for_cells :: "(int \<Rightarrow> 's \<Rightarrow> ('s \<times> bool) res) \<Rightarrow> nat list \<Rightarrow> 's \<Rightarrow> ('s \<times> int) res" where
  "for_cells body [] s = Inr (s, -1)"
| "for_cells body (a # as) s =
     rbind (body (int a) s) (\<lambda>(s', brk).
       if brk then Inr (s', int a) else for_cells body as s')"

lemma for_cells_inv:
  assumes "I s" and "\<And>a s. a \<in> set as \<Longrightarrow> I s \<Longrightarrow> ok (body (int a) s) (\<lambda>(s', b). I s')"
  shows "ok (for_cells body as s) (\<lambda>(s', p). I s')"
  using assms
proof (induction as arbitrary: s)
  case Nil
  then show ?case by simp
next
  case (Cons a as)
  from Cons.prems obtain s' b where b: "body (int a) s = Inr (s', b)" "I s'"
    by (fastforce simp: ok_def)
  then show ?case using Cons.IH [of s'] Cons.prems by auto
qed

text \<open>A search: the body leaves the state alone until it acts on a cell and stops.\<close>

lemma scan_down:
  assumes "\<And>i. i \<in> set as \<Longrightarrow> \<not> P i \<Longrightarrow> body (int i) s = cont s"
    and "\<And>i. i \<in> set as \<Longrightarrow> P i \<Longrightarrow> body (int i) s = rbind (act i) brk"
  shows "for_cells body as s =
    (case List.find P as of None \<Rightarrow> Inr (s, -1) | Some i \<Rightarrow> rbind (act i) (\<lambda>s'. Inr (s', int i)))"
  using assms
proof (induction as)
  case Nil
  then show ?case by simp
next
  case (Cons a as)
  then show ?case by (cases "P a") (simp_all add: cont_def brk_def rbind_assoc)
qed

end
