(* ===== verification/Links.thy ===== *)
theory Links
  imports Prelude
begin

text \<open>
  Doubly linked lists threaded through an array by index, with \<open>-1\<close> for "none": the kernel's
  \<open>windowlist\<close> (window_manager.c) and a window's \<open>widgets\<close> (user_window.c) are both kept so.
  \<open>dseg\<close> is the segment predicate, \<open>dll\<close> the representation relation between the cells and the
  list of the indices from head to tail. The locale \<open>link_cell\<close> is the interface a cell type
  offers (two link fields that are read and written independently); its lemmas are the
  effects of the pointer updates on the represented list, proved once for both users.
\<close>

subsection \<open>Segments\<close>

definition headi :: "nat list \<Rightarrow> int \<Rightarrow> int" where
  "headi xs d = (case xs of [] \<Rightarrow> d | a # _ \<Rightarrow> int a)"

definition lasti :: "nat list \<Rightarrow> int \<Rightarrow> int" where
  "lasti xs d = (if xs = [] then d else int (last xs))"

lemma headi_simps [simp]: "headi [] d = d" "headi (a # as) d = int a"
  by (simp_all add: headi_def)

lemma lasti_simps [simp]: "lasti [] d = d" "lasti (a # as) d = lasti as (int a)"
  "lasti (as @ [a]) d = int a"
  by (simp_all add: lasti_def)

lemma headi_append: "headi (xs @ ys) d = headi xs (headi ys d)"
  by (cases xs) simp_all

lemma lasti_append: "lasti (xs @ ys) d = lasti ys (lasti xs d)"
  by (cases ys) (simp_all add: lasti_def)

lemma headi_minus1: "headi xs (-1) = -1 \<longleftrightarrow> xs = []"
  by (cases xs) simp_all

lemma lasti_minus1: "lasti xs (-1) = -1 \<longleftrightarrow> xs = []"
  by (simp add: lasti_def)

text \<open>\<open>dseg nx pv p xs q\<close>: the cells \<open>xs\<close> are linked in order, \<open>p\<close> before and \<open>q\<close> after.\<close>

fun dseg :: "(nat \<Rightarrow> int) \<Rightarrow> (nat \<Rightarrow> int) \<Rightarrow> int \<Rightarrow> nat list \<Rightarrow> int \<Rightarrow> bool" where
  "dseg nx pv p [] q = True"
| "dseg nx pv p (a # as) q = (pv a = p \<and> nx a = headi as q \<and> dseg nx pv (int a) as q)"

lemma dseg_append:
  "dseg nx pv p (xs @ ys) q \<longleftrightarrow>
     dseg nx pv p xs (headi ys q) \<and> dseg nx pv (lasti xs p) ys q"
  by (induction xs arbitrary: p) (auto simp: headi_append)

lemma dseg_frame:
  "a \<notin> set xs \<Longrightarrow> dseg (nx(a := v)) pv p xs q = dseg nx pv p xs q"
  "a \<notin> set xs \<Longrightarrow> dseg nx (pv(a := v)) p xs q = dseg nx pv p xs q"
  by (induction xs arbitrary: p) auto

text \<open>Redirecting the two ends of a segment.\<close>

lemma dseg_next_last:
  "dseg nx pv p xs q \<Longrightarrow> distinct xs \<Longrightarrow> xs \<noteq> [] \<Longrightarrow>
   dseg (nx(last xs := q')) pv p xs q'"
proof (induction xs arbitrary: p)
  case Nil
  then show ?case by simp
next
  case (Cons a as)
  show ?case
  proof (cases "as = []")
    case True
    with Cons.prems show ?thesis by simp
  next
    case False
    have "dseg (nx(last as := q')) pv (int a) as q'"
      by (rule Cons.IH) (use Cons.prems False in auto)
    moreover have "(nx(last as := q')) a = nx a" using False Cons.prems by auto
    moreover have "headi as q' = headi as q" using False by (cases as) auto
    moreover have "last (a # as) = last as" using False by simp
    ultimately show ?thesis using Cons.prems(1) by (simp only: dseg.simps)
  qed
qed

lemma dseg_prev_first:
  "dseg nx pv p (a # as) q \<Longrightarrow> a \<notin> set as \<Longrightarrow> dseg nx (pv(a := p')) p' (a # as) q"
  by (simp add: dseg_frame)

subsection \<open>Traversals\<close>

lemma for_links_seg:
  assumes "I s" and "dseg nx pv p xs (-1)" and "length xs \<le> fuel"
    and body: "\<And>a s. a \<in> set xs \<Longrightarrow> I s \<Longrightarrow> (case body (int a) s of Inl e \<Rightarrow> True | Inr (s', b) \<Rightarrow> b \<or> I s')"
    and step: "\<And>a s. a \<in> set xs \<Longrightarrow> I s \<Longrightarrow> step s (int a) = Inr (nx a)"
  shows "for_links fuel step body (headi xs (-1)) s = for_cells body xs s"
  using assms
proof (induction xs arbitrary: p s fuel)
  case Nil
  then show ?case by (simp add: for_links.simps)
next
  case (Cons a as)
  obtain f where f: "fuel = Suc f" using Cons.prems(3) by (cases fuel) auto
  show ?case
  proof (cases "body (int a) s")
    case (Inl e)
    then show ?thesis by (simp add: f for_links.simps [of "Suc f"])
  next
    case (Inr r)
    then obtain s' b where r: "body (int a) s = Inr (s', b)" by (cases r) auto
    show ?thesis
    proof (cases b)
      case True
      then show ?thesis using r by (simp add: f for_links.simps [of "Suc f"])
    next
      case False
      then have I: "I s'" using Cons.prems(4) [of a s] Cons.prems(1) r by simp
      then have "step s' (int a) = Inr (headi as (-1))"
        using Cons.prems(2,5) by simp
      moreover have "for_links f step body (headi as (-1)) s' = for_cells body as s'"
        by (rule Cons.IH [OF I, where p = "int a"]) (use Cons.prems f in auto)
      ultimately show ?thesis using r False by (simp add: f for_links.simps [of "Suc f"])
    qed
  qed
qed

text \<open>
  A self-linked cell is a trap: with a body that neither fails nor breaks, the loop that enters
  it never ends, whatever the fuel.
\<close>

lemma for_links_self_loop:
  assumes "I s" and "p \<noteq> -1" and "\<And>s. I s \<Longrightarrow> step s p = Inr p"
    and "\<And>s. I s \<Longrightarrow> \<exists>s'. body p s = Inr (s', False) \<and> I s'"
  shows "for_links fuel step body p s = Inl Hang"
  using assms(1)
proof (induction fuel arbitrary: s)
  case 0
  then show ?case using assms(2) by (simp add: for_links.simps)
next
  case (Suc f)
  then obtain s' where "body p s = Inr (s', False)" "I s'" using assms(4) by blast
  then show ?case using Suc.IH assms(2,3) by (simp add: for_links.simps [of "Suc f"])
qed

text \<open>
  Why a fuel of the array's length is enough for a loop that only reads: the cells visited are
  determined by the links, so a loop that runs out of fuel \<open>N\<close> over \<open>N\<close> cells has met one of
  them twice and goes round for ever.
\<close>

fun walk :: "(int \<Rightarrow> int) \<Rightarrow> nat \<Rightarrow> int \<Rightarrow> int" where
  "walk nx 0 p = p"
| "walk nx (Suc n) p = walk nx n (nx p)"

lemma walk_add: "walk nx (m + n) p = walk nx n (walk nx m p)"
  by (induction m arbitrary: p) auto

lemma walk_cycle:
  assumes "\<And>k. k \<le> N \<Longrightarrow> walk nx k p \<in> int ` {..<N}"
  shows "walk nx n p \<in> int ` {..<N}"
proof -
  have "\<not> inj_on (\<lambda>k. walk nx k p) {..N}"
  proof
    assume inj: "inj_on (\<lambda>k. walk nx k p) {..N}"
    have "(\<lambda>k. walk nx k p) ` {..N} \<subseteq> int ` {..<N}" using assms by auto
    then have "card ((\<lambda>k. walk nx k p) ` {..N}) \<le> card (int ` {..<N})"
      by (intro card_mono) auto
    moreover have "card ((\<lambda>k. walk nx k p) ` {..N}) = Suc N"
      using inj by (simp add: card_image)
    moreover have "card (int ` {..<N}) = N" by (simp add: card_image)
    ultimately show False by simp
  qed
  then obtain i j where "i \<le> N" "j \<le> N" "i \<noteq> j" "walk nx i p = walk nx j p"
    by (auto simp: inj_on_def)
  then obtain i j where ij: "i < j" "j \<le> N" "walk nx i p = walk nx j p"
    by (metis linorder_neqE_nat)
  define d where "d = j - i"
  have d: "0 < d" "walk nx (i + d) p = walk nx i p" using ij by (auto simp: d_def)
  have again: "walk nx (i + d + m) p = walk nx (i + m) p" for m
    using d(2) by (simp add: walk_add)
  show ?thesis
  proof (induction n rule: less_induct)
    case (less n)
    show ?case
    proof (cases "n \<le> N")
      case True
      then show ?thesis using assms by simp
    next
      case False
      then have "n = i + d + (n - (i + d))" using ij by (auto simp: d_def)
      then have "walk nx n p = walk nx (i + (n - (i + d))) p" using again by metis
      moreover have "i + (n - (i + d)) < n" using d(1) False ij by (auto simp: d_def)
      ultimately show ?thesis using less by metis
    qed
  qed
qed

lemma for_links_walk:
  assumes "\<And>k. k < fuel \<Longrightarrow> walk nx k p \<noteq> -1"
    and "\<And>k. k < fuel \<Longrightarrow> step (walk nx k p) = Inr (walk nx (Suc k) p)"
    and "\<And>q s. \<exists>s'. body q s = Inr (s', False)"
    and "walk nx fuel p \<noteq> -1"
  shows "for_links fuel (\<lambda>_. step) body p s = Inl Hang"
  using assms
proof (induction fuel arbitrary: p s)
  case 0
  then show ?case by (simp add: for_links.simps)
next
  case (Suc f)
  obtain s' where "body p s = Inr (s', False)" using Suc.prems(3) by blast
  moreover have "p \<noteq> -1" using Suc.prems(1) [of 0] by simp
  moreover have "step p = Inr (nx p)" using Suc.prems(2) [of 0] by simp
  moreover have "for_links f (\<lambda>_. step) body (nx p) s' = Inl Hang"
  proof (rule Suc.IH)
    show "walk nx k (nx p) \<noteq> -1" if "k < f" for k
      using Suc.prems(1) [of "Suc k"] that by simp
    show "step (walk nx k (nx p)) = Inr (walk nx (Suc k) (nx p))" if "k < f" for k
      using Suc.prems(2) [of "Suc k"] that by simp
    show "\<exists>s'. body q s = Inr (s', False)" for q s by (rule Suc.prems(3))
    show "walk nx f (nx p) \<noteq> -1" using Suc.prems(4) by simp
  qed
  ultimately show ?case by (simp add: for_links.simps [of "Suc f"])
qed

subsection \<open>The represented list\<close>

text \<open>
  \<open>dll N nx pv ids\<close>: among the cells \<open>0..<N\<close>, those of \<open>ids\<close> are linked in this order between
  two \<open>-1\<close> ends, and every other cell is free, which the code marks by linking it to itself.
\<close>

definition dll :: "nat \<Rightarrow> (nat \<Rightarrow> int) \<Rightarrow> (nat \<Rightarrow> int) \<Rightarrow> nat list \<Rightarrow> bool" where
  "dll N nx pv ids \<longleftrightarrow> distinct ids \<and> set ids \<subseteq> {..<N} \<and> dseg nx pv (-1) ids (-1) \<and>
     (\<forall>i<N. i \<notin> set ids \<longrightarrow> nx i = int i \<and> pv i = int i)"

lemma dll_distinct: "dll N nx pv ids \<Longrightarrow> distinct ids"
  by (simp add: dll_def)

lemma dll_bound: "dll N nx pv ids \<Longrightarrow> i \<in> set ids \<Longrightarrow> i < N"
  by (auto simp: dll_def)

lemma dll_length: "dll N nx pv ids \<Longrightarrow> length ids \<le> N"
  using card_mono [of "{..<N}" "set ids"] by (auto simp: dll_def distinct_card)

lemma dll_at:
  "dll N nx pv (xs @ w # ys) \<Longrightarrow> pv w = lasti xs (-1) \<and> nx w = headi ys (-1)"
  by (simp add: dll_def dseg_append)

lemma headi_in: "headi ys d = int a \<Longrightarrow> d < 0 \<Longrightarrow> a \<in> set ys"
  by (cases ys) auto

text \<open>Read backwards, the list is linked by the other field.\<close>

lemma headi_rev [simp]: "headi (rev xs) d = lasti xs d"
  by (cases xs rule: rev_cases) simp_all

lemma lasti_rev [simp]: "lasti (rev xs) d = headi xs d"
  by (cases xs) simp_all

lemma dseg_rev: "dseg nx pv p xs q \<Longrightarrow> dseg pv nx q (rev xs) p"
  by (induction xs arbitrary: p) (auto simp: dseg_append)

lemma dll_rev: "dll N nx pv ids \<Longrightarrow> dll N pv nx (rev ids)"
  using dseg_rev by (auto simp: dll_def)

text \<open>A cell is free exactly if both its links point to itself: the test of the allocators.\<close>

lemma dll_free_iff:
  assumes "dll N nx pv ids" and "i < N"
  shows "pv i = int i \<and> nx i = int i \<longleftrightarrow> i \<notin> set ids"
proof
  show "pv i = int i \<and> nx i = int i" if "i \<notin> set ids"
    using assms that by (simp add: dll_def)
next
  assume self: "pv i = int i \<and> nx i = int i"
  show "i \<notin> set ids"
  proof
    assume "i \<in> set ids"
    then obtain xs ys where ids: "ids = xs @ i # ys" by (meson split_list)
    with assms(1) self have "headi ys (-1) = int i" by (metis dll_at)
    then have "i \<in> set ys" by (rule headi_in) simp
    then show False using dll_distinct [OF assms(1)] ids by simp
  qed
qed

text \<open>Linking a free cell in at the tail.\<close>

lemma dll_append:
  assumes "dll N nx pv ids" and "i < N" and "i \<notin> set ids"
  shows "dll N (if ids = [] then nx(i := -1) else nx(i := -1, last ids := int i))
               (pv(i := lasti ids (-1))) (ids @ [i])"
proof (cases "ids = []")
  case True
  then show ?thesis using assms by (auto simp: dll_def)
next
  case False
  have seg: "dseg nx pv (-1) ids (-1)" and d: "distinct ids" using assms by (simp_all add: dll_def)
  let ?nx = "nx(i := -1, last ids := int i)" and ?pv = "pv(i := lasti ids (-1))"
  have "dseg (nx(i := -1)) ?pv (-1) ids (-1)" using seg assms(3) by (simp add: dseg_frame)
  then have "dseg ?nx ?pv (-1) ids (int i)" by (rule dseg_next_last) (use d False in auto)
  moreover have "i \<noteq> last ids" using assms(3) False by auto
  ultimately have "dseg ?nx ?pv (-1) (ids @ [i]) (-1)"
    using False by (simp add: dseg_append)
  moreover have "last ids \<in> set ids" using False by simp
  ultimately show ?thesis using assms False by (auto simp: dll_def)
qed

text \<open>Taking a cell out: its neighbours are linked to each other.\<close>

definition nx_without :: "(nat \<Rightarrow> int) \<Rightarrow> nat list \<Rightarrow> nat list \<Rightarrow> nat \<Rightarrow> int" where
  "nx_without nx xs ys = (if xs = [] then nx else nx(last xs := headi ys (-1)))"

definition pv_without :: "(nat \<Rightarrow> int) \<Rightarrow> nat list \<Rightarrow> nat list \<Rightarrow> nat \<Rightarrow> int" where
  "pv_without pv xs ys = (if ys = [] then pv else pv(hd ys := lasti xs (-1)))"

lemma dseg_unlink:
  assumes "dll N nx pv (xs @ w # ys)"
  shows "dseg (nx_without nx xs ys) (pv_without pv xs ys) (-1) (xs @ ys) (-1)"
proof -
  have d: "distinct (xs @ w # ys)" using assms by (simp add: dll_def)
  have sx: "dseg nx pv (-1) xs (int w)" and sy: "dseg nx pv (int w) ys (-1)"
    using assms by (simp_all add: dll_def dseg_append)
  have ny: "hd ys \<notin> set xs" if "ys \<noteq> []" using d that by (cases ys) auto
  have nx: "last xs \<notin> set ys" if "xs \<noteq> []" using d that by (cases xs rule: rev_cases) auto
  have "dseg (nx_without nx xs ys) pv (-1) xs (headi ys (-1))"
  proof (cases "xs = []")
    case False
    then have "dseg (nx(last xs := headi ys (-1))) pv (-1) xs (headi ys (-1))"
      using sx d by (auto intro: dseg_next_last)
    then show ?thesis using False by (simp add: nx_without_def)
  qed simp
  then have x: "dseg (nx_without nx xs ys) (pv_without pv xs ys) (-1) xs (headi ys (-1))"
    using ny by (cases "ys = []") (simp_all add: pv_without_def dseg_frame)
  have "dseg nx (pv_without pv xs ys) (lasti xs (-1)) ys (-1)"
  proof (cases ys)
    case (Cons a as)
    then show ?thesis using sy d by (simp add: pv_without_def dseg_frame)
  qed simp
  then have "dseg (nx_without nx xs ys) (pv_without pv xs ys) (lasti xs (-1)) ys (-1)"
    using nx by (cases "xs = []") (simp_all add: nx_without_def dseg_frame)
  with x show ?thesis by (simp add: dseg_append)
qed

lemma dll_remove:
  assumes "dll N nx pv (xs @ w # ys)"
  shows "dll N ((nx_without nx xs ys)(w := int w)) ((pv_without pv xs ys)(w := int w)) (xs @ ys)"
proof -
  have d: "distinct (xs @ w # ys)" "set (xs @ w # ys) \<subseteq> {..<N}" using assms by (simp_all add: dll_def)
  have "dseg ((nx_without nx xs ys)(w := int w)) ((pv_without pv xs ys)(w := int w)) (-1) (xs @ ys) (-1)"
    using dseg_unlink [OF assms] d(1) by (simp add: dseg_frame)
  moreover have "nx_without nx xs ys i = nx i \<and> pv_without pv xs ys i = pv i"
    if "i \<notin> set (xs @ ys)" for i
  proof -
    have "xs \<noteq> [] \<Longrightarrow> i \<noteq> last xs" and "ys \<noteq> [] \<Longrightarrow> i \<noteq> hd ys" using that by auto
    then show ?thesis by (simp add: nx_without_def pv_without_def)
  qed
  moreover have "nx i = int i \<and> pv i = int i" if "i < N" "i \<notin> set (xs @ ys)" "i \<noteq> w" for i
    using assms that by (simp add: dll_def)
  ultimately show ?thesis using d unfolding dll_def by (simp add: disjoint_iff)
qed

text \<open>Moving a cell to the tail.\<close>

lemma dll_to_tail:
  assumes "dll N nx pv (xs @ w # ys)" and "xs @ ys \<noteq> []"
  shows "dll N ((nx_without nx xs ys)(w := -1, last (xs @ ys) := int w))
               ((pv_without pv xs ys)(w := lasti (xs @ ys) (-1))) (xs @ ys @ [w])"
proof -
  have w: "w < N" "w \<notin> set (xs @ ys)" using assms(1) by (auto simp: dll_def)
  show ?thesis using dll_append [OF dll_remove [OF assms(1)] w] assms(2)
    by (cases xs) simp_all
qed

subsection \<open>Cells that carry links\<close>

definition links_of :: "('c \<Rightarrow> int) \<Rightarrow> 'c list \<Rightarrow> nat \<Rightarrow> int" where
  "links_of g cs = (\<lambda>i. g (cs ! i))"

lemma links_of_upd: "k < length cs \<Longrightarrow> links_of g (cs[k := c]) = (links_of g cs)(k := g c)"
  by (auto simp: links_of_def fun_eq_iff nth_list_update)

lemma links_of_same: "g c = g (cs ! k) \<Longrightarrow> links_of g (cs[k := c]) = links_of g cs"
  by (cases "k < length cs")
    (auto simp: links_of_def fun_eq_iff nth_list_update list_update_beyond)

definition cells_rep :: "('c \<Rightarrow> int) \<Rightarrow> ('c \<Rightarrow> int) \<Rightarrow> 'c list \<Rightarrow> nat list \<Rightarrow> bool" where
  "cells_rep gn gp cs ids \<longleftrightarrow> dll (length cs) (links_of gn cs) (links_of gp cs) ids"


text \<open>
  The pointer updates of the list operations, over the setters of a cell type: \<open>cells_append\<close>
  links cell \<open>i\<close> in after the tail \<open>t\<close>, \<open>cells_unlink\<close> joins the neighbours of \<open>i\<close>, \<open>cells_free\<close>
  marks \<open>i\<close> free.
\<close>

definition cells_append :: "(int \<Rightarrow> 'c \<Rightarrow> 'c) \<Rightarrow> (int \<Rightarrow> 'c \<Rightarrow> 'c) \<Rightarrow> 'c list \<Rightarrow> int \<Rightarrow> nat \<Rightarrow> 'c list" where
  "cells_append sn sp cs t i =
     (let cs1 = cs[i := sn (-1) (sp t (cs ! i))]
      in if t = -1 then cs1 else cs1[nat t := sn (int i) (cs1 ! nat t)])"

definition cells_unlink :: "('c \<Rightarrow> int) \<Rightarrow> ('c \<Rightarrow> int) \<Rightarrow> (int \<Rightarrow> 'c \<Rightarrow> 'c) \<Rightarrow> (int \<Rightarrow> 'c \<Rightarrow> 'c) \<Rightarrow>
    'c list \<Rightarrow> nat \<Rightarrow> 'c list" where
  "cells_unlink gn gp sn sp cs i =
     (let p = gp (cs ! i); n = gn (cs ! i);
          cs1 = (if p \<noteq> -1 then cs[nat p := sn n (cs ! nat p)] else cs)
      in if n \<noteq> -1 then cs1[nat n := sp p (cs1 ! nat n)] else cs1)"

definition cells_free :: "(int \<Rightarrow> 'c \<Rightarrow> 'c) \<Rightarrow> (int \<Rightarrow> 'c \<Rightarrow> 'c) \<Rightarrow> 'c list \<Rightarrow> nat \<Rightarrow> 'c list" where
  "cells_free sn sp cs i = cs[i := sn (int i) (sp (int i) (cs ! i))]"

lemma length_cells [simp]:
  "length (cells_append sn sp cs t i) = length cs"
  "length (cells_unlink gn gp sn sp cs i) = length cs"
  "length (cells_free sn sp cs i) = length cs"
  by (simp_all add: cells_append_def cells_unlink_def cells_free_def Let_def)

text \<open>The interface of a cell: two link fields and a payload the link updates leave alone.\<close>

locale link_cell =
  fixes get_next :: "'c \<Rightarrow> int" and get_prev :: "'c \<Rightarrow> int"
    and set_next :: "int \<Rightarrow> 'c \<Rightarrow> 'c" and set_prev :: "int \<Rightarrow> 'c \<Rightarrow> 'c"
    and payload :: "'c \<Rightarrow> 'p"
  assumes next_set_next: "get_next (set_next v c) = v"
    and next_set_prev: "get_next (set_prev v c) = get_next c"
    and prev_set_prev: "get_prev (set_prev v c) = v"
    and prev_set_next: "get_prev (set_next v c) = get_prev c"
    and payload_set_next: "payload (set_next v c) = payload c"
    and payload_set_prev: "payload (set_prev v c) = payload c"
begin

lemmas laws = next_set_next next_set_prev prev_set_prev prev_set_next payload_set_next payload_set_prev

lemma links_update:
  "k < length cs \<Longrightarrow> links_of get_next (cs[k := set_next v (cs ! k)]) = (links_of get_next cs)(k := v)"
  "k < length cs \<Longrightarrow> links_of get_prev (cs[k := set_prev v (cs ! k)]) = (links_of get_prev cs)(k := v)"
  "links_of get_next (cs[k := set_prev v (cs ! k)]) = links_of get_next cs"
  "links_of get_prev (cs[k := set_next v (cs ! k)]) = links_of get_prev cs"
  by (simp_all add: links_of_upd links_of_same laws)

lemma links_append:
  assumes "dll (length cs) nx pv ids" and "i < length cs"
  shows "links_of get_next (cells_append set_next set_prev cs (lasti ids (-1)) i) =
           (if ids = [] then (links_of get_next cs)(i := -1)
            else (links_of get_next cs)(i := -1, last ids := int i))"
    and "links_of get_prev (cells_append set_next set_prev cs (lasti ids (-1)) i) =
           (links_of get_prev cs)(i := lasti ids (-1))"
proof -
  have "last ids < length cs" if "ids \<noteq> []" using dll_bound [OF assms(1)] that by simp
  then show "links_of get_next (cells_append set_next set_prev cs (lasti ids (-1)) i) =
           (if ids = [] then (links_of get_next cs)(i := -1)
            else (links_of get_next cs)(i := -1, last ids := int i))"
    and "links_of get_prev (cells_append set_next set_prev cs (lasti ids (-1)) i) =
           (links_of get_prev cs)(i := lasti ids (-1))"
    using assms(2)
    by (auto simp: cells_append_def Let_def lasti_def links_update links_of_upd laws)
qed

lemma rep_append:
  assumes "cells_rep get_next get_prev cs ids" and "i < length cs" and "i \<notin> set ids"
  shows "cells_rep get_next get_prev (cells_append set_next set_prev cs (lasti ids (-1)) i) (ids @ [i])"
  using dll_append [of "length cs" _ _ ids i] links_append assms
  by (simp add: cells_rep_def)

lemma links_unlink:
  assumes "cells_rep get_next get_prev cs (xs @ w # ys)"
  shows "links_of get_next (cells_unlink get_next get_prev set_next set_prev cs w) =
           nx_without (links_of get_next cs) xs ys"
    and "links_of get_prev (cells_unlink get_next get_prev set_next set_prev cs w) =
           pv_without (links_of get_prev cs) xs ys"
proof -
  have dll: "dll (length cs) (links_of get_next cs) (links_of get_prev cs) (xs @ w # ys)"
    using assms by (simp add: cells_rep_def)
  have at: "get_prev (cs ! w) = lasti xs (-1)" "get_next (cs ! w) = headi ys (-1)"
    using dll_at [OF dll] by (simp_all add: links_of_def)
  have b: "last xs < length cs" if "xs \<noteq> []" using dll_bound [OF dll] that by simp
  have c: "hd ys < length cs" if "ys \<noteq> []" using dll_bound [OF dll] that by simp
  have h: "headi ys (-1) = (if ys = [] then -1 else int (hd ys))" by (cases ys) auto
  show "links_of get_next (cells_unlink get_next get_prev set_next set_prev cs w) =
           nx_without (links_of get_next cs) xs ys"
    using b c by (auto simp: cells_unlink_def Let_def at h lasti_def nx_without_def links_update)
  show "links_of get_prev (cells_unlink get_next get_prev set_next set_prev cs w) =
           pv_without (links_of get_prev cs) xs ys"
    using b c by (auto simp: cells_unlink_def Let_def at h lasti_def pv_without_def links_update)
qed

lemma rep_remove:
  assumes "cells_rep get_next get_prev cs (xs @ w # ys)"
  shows "cells_rep get_next get_prev
           (cells_free set_next set_prev (cells_unlink get_next get_prev set_next set_prev cs w) w)
           (xs @ ys)"
proof -
  have "w < length cs" using assms by (auto simp: cells_rep_def dll_def)
  then show ?thesis using dll_remove [of "length cs"] links_unlink [OF assms] assms
    by (simp add: cells_rep_def cells_free_def links_of_upd laws)
qed

lemma rep_to_tail:
  assumes "cells_rep get_next get_prev cs (xs @ w # ys)" and "xs @ ys \<noteq> []"
  shows "cells_rep get_next get_prev
           (cells_append set_next set_prev (cells_unlink get_next get_prev set_next set_prev cs w)
              (lasti (xs @ ys) (-1)) w) (xs @ ys @ [w])"
proof -
  let ?u = "cells_unlink get_next get_prev set_next set_prev cs w"
  have dll: "dll (length cs) (links_of get_next cs) (links_of get_prev cs) (xs @ w # ys)"
    using assms(1) by (simp add: cells_rep_def)
  have w: "w < length ?u" using dll by (auto simp: dll_def)
  have "dll (length ?u) ((nx_without (links_of get_next cs) xs ys)(w := int w))
          ((pv_without (links_of get_prev cs) xs ys)(w := int w)) (xs @ ys)"
    using dll_remove [OF dll] by simp
  from links_append [OF this w] show ?thesis
    using dll_to_tail [OF dll assms(2)] links_unlink [OF assms(1)] assms(2)
    by (cases "xs = []") (simp_all add: cells_rep_def)
qed

lemma payload_cells:
  "map payload (cells_append set_next set_prev cs t i) = map payload cs"
  "map payload (cells_unlink get_next get_prev set_next set_prev cs i) = map payload cs"
  "map payload (cells_free set_next set_prev cs i) = map payload cs"
proof -
  have upd: "map payload (cs[k := set_next v (cs ! k)]) = map payload cs"
    "map payload (cs[k := set_prev v (cs ! k)]) = map payload cs" for cs k v
    by (cases "k < length cs"; simp add: map_update laws list_update_same_conv list_update_beyond)+
  have both: "map payload (cs[k := set_next v (set_prev u (cs ! k))]) = map payload cs" for k v u
    by (cases "k < length cs"; simp add: map_update laws list_update_same_conv list_update_beyond)
  show "map payload (cells_append set_next set_prev cs t i) = map payload cs"
    by (simp add: cells_append_def Let_def upd both)
  show "map payload (cells_unlink get_next get_prev set_next set_prev cs i) = map payload cs"
    by (simp add: cells_unlink_def Let_def upd)
  show "map payload (cells_free set_next set_prev cs i) = map payload cs"
    by (simp add: cells_free_def both)
qed

end

end
