(* ===== verification/Queues.thy ===== *)
theory Queues
  imports Prelude
begin

text \<open>
  The two bounded first-in first-out buffers of the kernel: the message queue of a window
  (window_manager.h \<open>msg_buf\<close>; \<open>initMessageQueue\<close>, \<open>dispatchMessage\<close>, \<open>getMessage\<close> of
  window_manager.c) and the byte ring of a pipe (pipe.c). Both are interpretations of the
  locale \<open>bounded_queue\<close>, whose lemmas give the behaviour over any sequence of operations.
\<close>

subsection \<open>The contract of a bounded queue\<close>

datatype 'a qop = Enq 'a | Deq

text \<open>
  Running a sequence of operations: the final queue, the elements accepted by the enqueues in
  order, and the elements handed out by the dequeues in order.
\<close>

fun qrun :: "('q \<Rightarrow> 'a \<Rightarrow> ('q \<times> bool) res) \<Rightarrow> ('q \<Rightarrow> ('q \<times> 'a option) res) \<Rightarrow> 'a qop list \<Rightarrow> 'q \<Rightarrow>
    ('q \<times> 'a list \<times> 'a list) res" where
  "qrun enq deq [] q = Inr (q, [], [])"
| "qrun enq deq (Enq x # ops) q =
     rbind (enq q x) (\<lambda>(q1, taken).
     rbind (qrun enq deq ops q1) (\<lambda>(q2, acc, outs).
     Inr (q2, (if taken then x # acc else acc), outs)))"
| "qrun enq deq (Deq # ops) q =
     rbind (deq q) (\<lambda>(q1, r).
     rbind (qrun enq deq ops q1) (\<lambda>(q2, acc, outs).
     Inr (q2, acc, (case r of None \<Rightarrow> outs | Some x \<Rightarrow> x # outs))))"

text \<open>The same sequence on a list as the abstract queue of capacity \<open>cap\<close>: an element is taken exactly if there is room, and given exactly if there is one.\<close>

fun fifo_run :: "nat \<Rightarrow> 'a qop list \<Rightarrow> 'a list \<Rightarrow> 'a list \<times> 'a list \<times> 'a list" where
  "fifo_run cap [] q = (q, [], [])"
| "fifo_run cap (Enq x # ops) q =
     (if length q < cap then let (q', acc, outs) = fifo_run cap ops (q @ [x]) in (q', x # acc, outs) else fifo_run cap ops q)"
| "fifo_run cap (Deq # ops) [] = fifo_run cap ops []"
| "fifo_run cap (Deq # ops) (x # q) = (let (q', acc, outs) = fifo_run cap ops q in (q', acc, x # outs))"

locale bounded_queue =
  fixes enq :: "'q \<Rightarrow> 'a \<Rightarrow> ('q \<times> bool) res"
    and deq :: "'q \<Rightarrow> ('q \<times> 'a option) res"
    and inv :: "'q \<Rightarrow> bool" and contents :: "'q \<Rightarrow> 'a list" and cap :: nat
  assumes bound: "inv q \<Longrightarrow> length (contents q) \<le> cap"
    and enq_room: "inv q \<Longrightarrow> length (contents q) < cap \<Longrightarrow>
      \<exists>q'. enq q x = Inr (q', True) \<and> inv q' \<and> contents q' = contents q @ [x]"
    and enq_full: "inv q \<Longrightarrow> length (contents q) = cap \<Longrightarrow> enq q x = Inr (q, False)"
    and deq_some: "inv q \<Longrightarrow> contents q = x # xs \<Longrightarrow>
      \<exists>q'. deq q = Inr (q', Some x) \<and> inv q' \<and> contents q' = xs"
    and deq_none: "inv q \<Longrightarrow> contents q = [] \<Longrightarrow> deq q = Inr (q, None)"
begin

lemma enq_ok: "inv q \<Longrightarrow> \<exists>q' b. enq q x = Inr (q', b) \<and> inv q' \<and>
    contents q' = contents q @ (if b then [x] else [])"
  using enq_room [of q x] enq_full [of q x] bound [of q] by (cases "length (contents q) < cap") force+

lemma deq_ok: "inv q \<Longrightarrow> \<exists>q' r. deq q = Inr (q', r) \<and> inv q' \<and>
    contents q = (case r of None \<Rightarrow> contents q' | Some x \<Rightarrow> x # contents q')"
  using deq_some [of q] deq_none [of q] by (cases "contents q") force+

text \<open>No operation of any sequence fails, and what comes out is what went in, in order.\<close>

lemma fifo:
  "inv q \<Longrightarrow> ok (qrun enq deq ops q)
     (\<lambda>(q', acc, outs). inv q' \<and> contents q @ acc = outs @ contents q')"
proof (induction ops arbitrary: q)
  case Nil
  then show ?case by simp
next
  case (Cons op ops)
  show ?case
  proof (cases op)
    case (Enq x)
    obtain q1 b where e: "enq q x = Inr (q1, b)" "inv q1" "contents q1 = contents q @ (if b then [x] else [])"
      using enq_ok [OF Cons.prems, of x] by blast
    then show ?thesis using Cons.IH [OF e(2)] Enq by (auto simp: ok_def split: if_splits)
  next
    case Deq
    obtain q1 r where d: "deq q = Inr (q1, r)" "inv q1"
      "contents q = (case r of None \<Rightarrow> contents q1 | Some x \<Rightarrow> x # contents q1)"
      using deq_ok [OF Cons.prems] by blast
    then show ?thesis using Cons.IH [OF d(2)] Deq by (auto simp: ok_def split: option.splits)
  qed
qed

text \<open>Every run does what the abstract queue does.\<close>

lemma refines:
  "inv q \<Longrightarrow> ok (qrun enq deq ops q) (\<lambda>(q', acc, outs). inv q' \<and> fifo_run cap ops (contents q) = (contents q', acc, outs))"
proof (induction ops arbitrary: q)
  case (Cons op ops)
  show ?case
  proof (cases op)
    case (Enq x)
    show ?thesis
    proof (cases "length (contents q) < cap")
      case True
      then obtain q1 where e: "enq q x = Inr (q1, True)" "inv q1" "contents q1 = contents q @ [x]" using enq_room [OF Cons.prems] by blast
      then show ?thesis using Cons.IH [OF e(2)] Enq True by (auto simp: ok_def)
    next
      case False
      then have "enq q x = Inr (q, False)" using enq_full [OF Cons.prems] bound [OF Cons.prems] by simp
      then show ?thesis using Cons.IH [OF Cons.prems] Enq False by (auto simp: ok_def)
    qed
  next
    case Deq
    show ?thesis
    proof (cases "contents q")
      case Nil
      then show ?thesis using Cons.IH [OF Cons.prems] Deq deq_none [OF Cons.prems] by (auto simp: ok_def)
    next
      case (Cons x xs)
      then obtain q1 where d: "deq q = Inr (q1, Some x)" "inv q1" "contents q1 = xs" using deq_some [OF Cons.prems] by blast
      then show ?thesis using Cons.IH [OF d(2)] Deq Cons by (auto simp: ok_def)
    qed
  qed
qed simp

text \<open>An empty queue accepts every element until it is full: nothing is lost within capacity.\<close>

lemma enq_all:
  "inv q \<Longrightarrow> length (contents q) + length xs \<le> cap \<Longrightarrow>
   ok (qrun enq deq (map Enq xs) q) (\<lambda>(q', acc, outs). acc = xs \<and> contents q' = contents q @ xs)"
proof (induction xs arbitrary: q)
  case Nil
  then show ?case by simp
next
  case (Cons x xs)
  obtain q1 where e: "enq q x = Inr (q1, True)" "inv q1" "contents q1 = contents q @ [x]"
    using enq_room [of q x] Cons.prems by auto
  then show ?case using Cons.IH [OF e(2)] Cons.prems by (auto simp: ok_def)
qed

end

text \<open>Rings: the cells \<open>(front + k) mod n\<close> of an array.\<close>

lemma ring_upd_other:
  assumes "k < c" and "c < n" and "length xs = n"
  shows "(xs[(f + c) mod n := v]) ! ((f + k) mod n) = xs ! ((f + k) mod n)"
proof -
  have "(f + c) mod n \<noteq> (f + k) mod n"
  proof
    assume eq: "(f + c) mod n = (f + k) mod n"
    have "n dvd (f + c) - (f + k)" by (rule mod_eq_dvd_iff_nat [THEN iffD1, OF _ eq]) (use assms in simp)
    then have "n dvd c - k" by simp
    then show False using assms(1,2) by (auto dest: dvd_imp_le)
  qed
  then show ?thesis by simp
qed

definition ring :: "'a list \<Rightarrow> nat \<Rightarrow> nat \<Rightarrow> 'a list" where
  "ring xs f c = map (\<lambda>k. xs ! ((f + k) mod length xs)) [0..<c]"

lemma length_ring [simp]: "length (ring xs f c) = c"
  by (simp add: ring_def)

lemma ring_enq:
  assumes "c < length xs"
  shows "ring (xs[(f + c) mod length xs := v]) f (Suc c) = ring xs f c @ [v]"
proof -
  have "(f + c) mod length xs < length xs" by (rule mod_less_divisor) (use assms in linarith)
  then show ?thesis using assms by (auto simp: ring_def ring_upd_other)
qed

lemma ring_deq: "ring xs f (Suc c) = xs ! (f mod length xs) # ring xs (Suc f) c"
  by (simp add: ring_def upt_conv_Cons map_Suc_upt [symmetric] o_def del: upt_Suc)

lemma ring_mod: "ring xs (f mod length xs) c = ring xs f c"
  by (simp add: ring_def mod_add_left_eq)

subsection \<open>Messages and the message queue of a window\<close>

text \<open>
  \<open>message\<close> (msg.h): the array \<open>params[10]\<close> is only accessed at the constant indices 0, 1 and
  2, and is a function from indices. \<open>msg_buf\<close> keeps \<open>front\<close>, \<open>rear\<close> and \<open>cnt\<close> as C ints.
\<close>

record message =
  msg_type :: int
  params :: "nat \<Rightarrow> int"

record msg_buf =
  mb_data :: "message list"
  mb_front :: int
  mb_rear :: int
  mb_cnt :: int

definition MSG_BUF_SIZE :: int where
  "MSG_BUF_SIZE = 50"

definition initMessageQueue :: "msg_buf \<Rightarrow> msg_buf" where
  "initMessageQueue buf = buf\<lparr>mb_front := 0, mb_rear := 0, mb_cnt := 0\<rparr>"

definition dispatchMessage :: "msg_buf \<Rightarrow> message \<Rightarrow> (msg_buf \<times> int) res" where
  "dispatchMessage buf msg =
     (if mb_cnt buf \<ge> MSG_BUF_SIZE then Inr (buf, 1)
      else rbind (arr_set (mb_data buf) (mb_rear buf) msg) (\<lambda>d.
        let buf1 = buf\<lparr>mb_cnt := mb_cnt buf + 1, mb_data := d, mb_rear := mb_rear buf + 1\<rparr>
        in Inr (if mb_rear buf1 \<ge> MSG_BUF_SIZE then buf1\<lparr>mb_rear := 0\<rparr> else buf1, 0)))"

text \<open>
  \<open>getMessage\<close> tests \<open>cnt\<close> before it takes \<open>wmlock\<close>; \<open>getMessage_locked\<close> is the part that
  runs under the lock.
\<close>

definition getMessage_locked :: "msg_buf \<Rightarrow> (msg_buf \<times> message) res" where
  "getMessage_locked buf =
     rbind (arr_get (mb_data buf) (mb_front buf)) (\<lambda>m.
       let buf1 = buf\<lparr>mb_cnt := mb_cnt buf - 1, mb_front := mb_front buf + 1\<rparr>
       in Inr (if mb_front buf1 \<ge> MSG_BUF_SIZE then buf1\<lparr>mb_front := 0\<rparr> else buf1, m))"

definition getMessage :: "msg_buf \<Rightarrow> message \<Rightarrow> (msg_buf \<times> message \<times> int) res" where
  "getMessage buf result =
     (if mb_cnt buf = 0 then Inr (buf, result, 1)
      else rbind (getMessage_locked buf) (\<lambda>(buf1, m). Inr (buf1, m, 0)))"

definition mb_inv :: "msg_buf \<Rightarrow> bool" where
  "mb_inv b \<longleftrightarrow> length (mb_data b) = 50 \<and> 0 \<le> mb_front b \<and> mb_front b < 50 \<and>
     0 \<le> mb_cnt b \<and> mb_cnt b \<le> 50 \<and> mb_rear b = (mb_front b + mb_cnt b) mod 50"

definition mb_contents :: "msg_buf \<Rightarrow> message list" where
  "mb_contents b = ring (mb_data b) (nat (mb_front b)) (nat (mb_cnt b))"

lemma wrap_succ:
  assumes "0 < n"
  shows "(if x mod n + 1 \<ge> n then 0 else x mod n + 1) = (x + 1) mod (n :: int)"
proof -
  have "x mod n < n" "0 \<le> x mod n" using assms by simp_all
  moreover have "(x + 1) mod n = (x mod n + 1) mod n" by (simp add: mod_add_left_eq)
  ultimately show ?thesis by (cases "x mod n + 1 = n") (simp_all add: mod_pos_pos_trivial)
qed

lemma mb_inv_init: "length (mb_data b) = 50 \<Longrightarrow> mb_inv (initMessageQueue b)"
  by (simp add: mb_inv_def initMessageQueue_def)

lemma mb_contents_init [simp]: "mb_contents (initMessageQueue b) = []"
  by (simp add: mb_contents_def initMessageQueue_def ring_def)

lemma mb_length: "mb_inv b \<Longrightarrow> length (mb_contents b) = nat (mb_cnt b)"
  by (simp add: mb_contents_def)

lemma mb_data_length: "mb_inv b \<Longrightarrow> length (mb_data b) = 50"
  by (simp add: mb_inv_def)

lemma dispatch_room:
  assumes "mb_inv b" and "mb_cnt b < 50"
  shows "\<exists>b'. dispatchMessage b m = Inr (b', 0) \<and> mb_inv b' \<and> mb_contents b' = mb_contents b @ [m]"
proof -
  let ?f = "nat (mb_front b)" and ?c = "nat (mb_cnt b)"
  have r: "mb_rear b = int ((?f + ?c) mod 50)"
    using assms by (simp add: mb_inv_def zmod_int)
  then have rr: "in_range (mb_rear b) (mb_data b)" using assms by (auto simp: mb_inv_def in_range_def)
  define b' where "b' = b\<lparr>mb_cnt := mb_cnt b + 1, mb_data := (mb_data b)[nat (mb_rear b) := m],
      mb_rear := (if mb_rear b + 1 \<ge> 50 then 0 else mb_rear b + 1)\<rparr>"
  have "dispatchMessage b m = Inr (b', 0)"
    using assms rr by (simp add: dispatchMessage_def MSG_BUF_SIZE_def Let_def b'_def)
  moreover have "mb_rear b' = (mb_front b + (mb_cnt b + 1)) mod 50"
    using wrap_succ [of 50 "mb_front b + mb_cnt b"] assms(1)
    by (simp add: b'_def mb_inv_def add.assoc split: if_splits)
  then have "mb_inv b'" using assms by (simp add: mb_inv_def b'_def)
  moreover have "mb_contents b' = mb_contents b @ [m]"
  proof -
    have "nat (mb_rear b) = (?f + ?c) mod 50" by (simp only: r nat_int)
    then have "mb_data b' = (mb_data b)[(?f + ?c) mod 50 := m]" by (simp add: b'_def)
    moreover have "nat (mb_cnt b') = Suc ?c" "mb_front b' = mb_front b"
      using assms(1) by (auto simp: b'_def mb_inv_def)
    ultimately show ?thesis using ring_enq [of ?c "mb_data b" ?f m] assms
      by (simp add: mb_contents_def mb_inv_def)
  qed
  ultimately show ?thesis by blast
qed

lemma dispatch_full: "mb_cnt b \<ge> 50 \<Longrightarrow> dispatchMessage b m = Inr (b, 1)"
  by (simp add: dispatchMessage_def MSG_BUF_SIZE_def)

lemma get_some:
  assumes "mb_inv b" and "mb_contents b = m # ms"
  shows "\<exists>b'. getMessage b r = Inr (b', m, 0) \<and> mb_inv b' \<and> mb_contents b' = ms"
proof -
  let ?f = "nat (mb_front b)"
  have c: "0 < mb_cnt b" using mb_length [OF assms(1)] assms(2) by simp
  then have cs: "nat (mb_cnt b) = Suc (nat (mb_cnt b - 1))" by simp
  have rr: "in_range (mb_front b) (mb_data b)" using assms by (simp add: mb_inv_def in_range_def)
  define b' where "b' = b\<lparr>mb_cnt := mb_cnt b - 1,
      mb_front := (if mb_front b + 1 \<ge> 50 then 0 else mb_front b + 1)\<rparr>"
  have len: "length (mb_data b) = 50" "?f < 50" using assms(1) by (auto simp: mb_inv_def)
  have cont: "mb_contents b = mb_data b ! ?f # ring (mb_data b) (Suc ?f) (nat (mb_cnt b - 1))"
    using len by (simp add: mb_contents_def cs ring_deq)
  then have "getMessage b r = Inr (b', m, 0)"
    using assms(2) rr c
    by (simp add: getMessage_def getMessage_locked_def MSG_BUF_SIZE_def Let_def b'_def)
  moreover have "mb_inv b'"
  proof -
    have f': "mb_front b' = (mb_front b + 1) mod 50"
      using wrap_succ [of 50 "mb_front b"] assms(1) by (auto simp: b'_def mb_inv_def)
    then have "mb_rear b' = (mb_front b' + mb_cnt b') mod 50"
      using assms(1) by (simp add: b'_def mb_inv_def mod_add_left_eq)
    then show ?thesis using assms(1) c f' by (simp add: mb_inv_def b'_def)
  qed
  moreover have "mb_contents b' = ms"
  proof -
    have "ring (mb_data b) (nat (mb_front b')) (nat (mb_cnt b')) =
          ring (mb_data b) (Suc ?f mod length (mb_data b)) (nat (mb_cnt b - 1))"
    proof (cases "mb_front b + 1 \<ge> 50")
      case True
      then have "?f = 49" using len by linarith
      then show ?thesis using True len by (simp add: b'_def)
    next
      case False
      then have "nat (mb_front b + 1) = Suc ?f" "Suc ?f < 50"
        using assms(1) by (simp_all add: mb_inv_def nat_add_distrib)
      then show ?thesis using False len by (simp add: b'_def)
    qed
    then show ?thesis using cont assms(2) by (simp add: mb_contents_def b'_def ring_mod)
  qed
  ultimately show ?thesis by blast
qed

lemma get_none: "mb_inv b \<Longrightarrow> mb_contents b = [] \<Longrightarrow> getMessage b r = Inr (b, r, 1)"
  using mb_length [of b] by (simp add: getMessage_def mb_inv_def)

text \<open>The queue of messages meets the contract.\<close>

definition mb_enq :: "msg_buf \<Rightarrow> message \<Rightarrow> (msg_buf \<times> bool) res" where
  "mb_enq b m = rbind (dispatchMessage b m) (\<lambda>(b', r). Inr (b', r = 0))"

definition mb_deq :: "msg_buf \<Rightarrow> (msg_buf \<times> message option) res" where
  "mb_deq b = rbind (getMessage b \<lparr>msg_type = 0, params = (\<lambda>_. 0)\<rparr>)
     (\<lambda>(b', m, r). Inr (b', if r = 0 then Some m else None))"

interpretation mq: bounded_queue mb_enq mb_deq mb_inv mb_contents 50
proof unfold_locales
  fix b m ms
  assume inv: "mb_inv b"
  show "length (mb_contents b) \<le> 50" using inv by (auto simp: mb_length mb_inv_def)
  show "\<exists>b'. mb_enq b m = Inr (b', True) \<and> mb_inv b' \<and> mb_contents b' = mb_contents b @ [m]"
    if "length (mb_contents b) < 50"
    using dispatch_room [OF inv, of m] that inv by (force simp: mb_enq_def mb_length)
  show "mb_enq b m = Inr (b, False)" if "length (mb_contents b) = 50"
    using dispatch_full [of b m] that inv by (simp add: mb_enq_def mb_length)
  show "\<exists>b'. mb_deq b = Inr (b', Some m) \<and> mb_inv b' \<and> mb_contents b' = ms"
    if "mb_contents b = m # ms"
    using get_some [OF inv that, of "\<lparr>msg_type = 0, params = (\<lambda>_. 0)\<rparr>"]
    by (force simp: mb_deq_def)
  show "mb_deq b = Inr (b, None)" if "mb_contents b = []"
    using get_none [OF inv that] by (simp add: mb_deq_def)
qed

subsection \<open>Pipes\<close>

text \<open>
  \<open>struct pipe\<close> with its free-running 32-bit counters. A call of \<open>pipewrite\<close> or \<open>piperead\<close> holds
  \<open>p->lock\<close> except while it sleeps, so it is a sequence of critical sections; the functions
  below are one critical section each, from the point where the lock is taken (at entry or on
  return from \<open>sleep\<close>) to the return or the next \<open>sleep\<close>. \<open>killed\<close> is the value of
  \<open>myproc()->killed\<close> there, and the bytes passed to the writer are those still to be written.
\<close>

type_synonym u32 = "32 word"

record pipe =
  p_data :: "byte list"
  nread :: u32
  nwrite :: u32
  readopen :: int
  writeopen :: int

definition PIPESIZE :: u32 where
  "PIPESIZE = 512"

datatype pipe_chan = ChanRead | ChanWrite  \<comment> \<open>the addresses of \<open>nread\<close> and \<open>nwrite\<close>\<close>

datatype write_stop = WDone | WFail | WSleep "byte list"

datatype read_stop = RDone "byte list" | RFail | RSleep

fun pipewrite :: "bool \<Rightarrow> byte list \<Rightarrow> pipe \<Rightarrow> (pipe \<times> write_stop) res" where
  "pipewrite killed [] p = Inr (p, WDone)"
| "pipewrite killed (c # cs) p =
     (if nwrite p = nread p + PIPESIZE
      then (if readopen p = 0 \<or> killed then Inr (p, WFail) else Inr (p, WSleep (c # cs)))
      else rbind (arr_set (p_data p) (uint (nwrite p mod PIPESIZE)) c) (\<lambda>d.
             pipewrite killed cs (p\<lparr>p_data := d, nwrite := nwrite p + 1\<rparr>)))"

text \<open>The channels woken by a critical section of the writer: the readers, unless it fails.\<close>

definition pipewrite_wakes :: "write_stop \<Rightarrow> pipe_chan list" where
  "pipewrite_wakes st = (case st of WFail \<Rightarrow> [] | _ \<Rightarrow> [ChanRead])"

fun piperead_copy :: "nat \<Rightarrow> pipe \<Rightarrow> (pipe \<times> byte list) res" where
  "piperead_copy 0 p = Inr (p, [])"
| "piperead_copy (Suc n) p =
     (if nread p = nwrite p then Inr (p, [])
      else rbind (arr_get (p_data p) (uint (nread p mod PIPESIZE))) (\<lambda>c.
           rbind (piperead_copy n (p\<lparr>nread := nread p + 1\<rparr>)) (\<lambda>(p', cs).
           Inr (p', c # cs))))"

definition piperead :: "bool \<Rightarrow> int \<Rightarrow> pipe \<Rightarrow> (pipe \<times> read_stop) res" where
  "piperead killed n p =
     (if nread p = nwrite p \<and> writeopen p \<noteq> 0
      then (if killed then Inr (p, RFail) else Inr (p, RSleep))
      else rbind (piperead_copy (nat n) p) (\<lambda>(p', cs). Inr (p', RDone cs)))"

definition piperead_wakes :: "read_stop \<Rightarrow> pipe_chan list" where
  "piperead_wakes st = (case st of RDone _ \<Rightarrow> [ChanWrite] | _ \<Rightarrow> [])"

text \<open>\<open>pipeclose\<close>: the pipe, whether its page is freed, and the channel woken.\<close>

definition pipeclose :: "pipe \<Rightarrow> int \<Rightarrow> pipe \<times> bool \<times> pipe_chan list" where
  "pipeclose p writable =
     (let (p1, w) = (if writable \<noteq> 0 then (p\<lparr>writeopen := 0\<rparr>, [ChanRead])
                     else (p\<lparr>readopen := 0\<rparr>, [ChanWrite]))
      in (p1, readopen p1 = 0 \<and> writeopen p1 = 0, w))"

definition pipe_inv :: "pipe \<Rightarrow> bool" where
  "pipe_inv p \<longleftrightarrow> length (p_data p) = 512 \<and> unat (nwrite p - nread p) \<le> 512"

definition pipe_contents :: "pipe \<Rightarrow> byte list" where
  "pipe_contents p = ring (p_data p) (unat (nread p)) (unat (nwrite p - nread p))"

lemma word_mod_512: "uint (w mod PIPESIZE) = int (unat w mod 512)"
  by (simp add: PIPESIZE_def uint_mod_distrib zmod_int)

lemma unat_add_mod_512: "unat (a + b :: u32) mod 512 = (unat a + unat b) mod 512"
proof -
  have "unat (a + b) mod 512 = (unat a + unat b) mod 2 ^ 32 mod 512"
    by (simp add: unat_word_ariths)
  also have "\<dots> = (unat a + unat b) mod 512" by (rule mod_mod_cancel) simp
  finally show ?thesis .
qed

lemma pipe_index: "unat (nwrite p) mod 512 = (unat (nread p) + unat (nwrite p - nread p)) mod 512"
  using unat_add_mod_512 [of "nread p" "nwrite p - nread p"] by simp

lemma pipe_full_iff:
  "unat (nwrite p - nread p) \<le> 512 \<Longrightarrow> nwrite p = nread p + PIPESIZE \<longleftrightarrow> unat (nwrite p - nread p) = 512"
proof -
  have "nwrite p = nread p + PIPESIZE \<longleftrightarrow> nwrite p - nread p = 512"
    by (auto simp: PIPESIZE_def algebra_simps)
  also have "\<dots> \<longleftrightarrow> unat (nwrite p - nread p) = unat (512 :: u32)"
    by (metis word_unat_eq_iff)
  finally show ?thesis by simp
qed

lemma pipe_empty_iff: "nread p = nwrite p \<longleftrightarrow> unat (nwrite p - nread p) = 0"
  by (auto simp: unat_eq_0)

lemma length_pipe_contents [simp]: "length (pipe_contents p) = unat (nwrite p - nread p)"
  by (simp add: pipe_contents_def)

text \<open>One byte in.\<close>

lemma pipe_put:
  fixes p :: pipe and c :: byte
  assumes "pipe_inv p" and "length (pipe_contents p) < 512"
  defines "p' \<equiv> p\<lparr>p_data := (p_data p)[unat (nwrite p) mod 512 := c], nwrite := nwrite p + 1\<rparr>"
  shows "nwrite p \<noteq> nread p + PIPESIZE"
    and "arr_set (p_data p) (uint (nwrite p mod PIPESIZE)) c = Inr (p_data p')"
    and "pipe_inv p'" and "pipe_contents p' = pipe_contents p @ [c]"
proof -
  have u: "unat (nwrite p - nread p) < 512" using assms(2) by simp
  then have e: "unat (nwrite p + 1 - nread p) = Suc (unat (nwrite p - nread p))"
  proof -
    have "nwrite p + 1 - nread p = (nwrite p - nread p) + 1" by simp
    then show ?thesis using u by (simp only: unat_word_ariths) simp
  qed
  show "nwrite p \<noteq> nread p + PIPESIZE" using pipe_full_iff [of p] u by auto
  show "arr_set (p_data p) (uint (nwrite p mod PIPESIZE)) c = Inr (p_data p')"
    using assms(1) by (simp add: word_mod_512 pipe_inv_def p'_def)
  show "pipe_inv p'" using assms(1) u e by (simp add: pipe_inv_def p'_def)
  show "pipe_contents p' = pipe_contents p @ [c]"
    using ring_enq [of "unat (nwrite p - nread p)" "p_data p" "unat (nread p)" c] assms(1) u
    by (simp add: pipe_contents_def p'_def e pipe_inv_def pipe_index)
qed

text \<open>One byte out.\<close>

lemma pipe_take:
  fixes p :: pipe
  assumes "pipe_inv p" and "pipe_contents p \<noteq> []"
  shows "nread p \<noteq> nwrite p"
    and "arr_get (p_data p) (uint (nread p mod PIPESIZE)) = Inr (hd (pipe_contents p))"
    and "pipe_inv (p\<lparr>nread := nread p + 1\<rparr>)"
    and "pipe_contents (p\<lparr>nread := nread p + 1\<rparr>) = tl (pipe_contents p)"
proof -
  define d where "d = unat (nwrite p - nread p)"
  have pos: "0 < d" using assms(2) by (metis d_def length_pipe_contents length_greater_0_conv)
  have e: "d = Suc (unat (nwrite p - (nread p + 1)))"
  proof -
    have "nwrite p - nread p \<noteq> 0" using pos by (auto simp: d_def)
    then have "unat (nwrite p - nread p - 1) = d - 1" by (simp add: d_def unat_minus_one)
    then have "unat (nwrite p - (nread p + 1)) = d - 1" by (simp only: diff_diff_add)
    then show ?thesis using pos by linarith
  qed
  have len: "length (p_data p) = 512" using assms(1) by (simp add: pipe_inv_def)
  have cont: "pipe_contents p = p_data p ! (unat (nread p) mod 512) #
      ring (p_data p) (Suc (unat (nread p))) (unat (nwrite p - (nread p + 1)))"
    using len ring_deq [of "p_data p" "unat (nread p)" "unat (nwrite p - (nread p + 1))"]
    unfolding pipe_contents_def d_def [symmetric] e [symmetric] by (simp add: e)
  show "nread p \<noteq> nwrite p" using pos by (auto simp: d_def)
  show "arr_get (p_data p) (uint (nread p mod PIPESIZE)) = Inr (hd (pipe_contents p))"
    using len by (simp add: word_mod_512 cont)
  show "pipe_inv (p\<lparr>nread := nread p + 1\<rparr>)"
    using assms(1) e by (simp add: pipe_inv_def d_def)
  have "unat (nread p + 1) mod 512 = Suc (unat (nread p)) mod 512"
    using unat_add_mod_512 [of "nread p" 1] by simp
  then have "ring (p_data p) (unat (nread p + 1)) n = ring (p_data p) (Suc (unat (nread p))) n" for n
    using len ring_mod [of "p_data p"] by metis
  then show "pipe_contents (p\<lparr>nread := nread p + 1\<rparr>) = tl (pipe_contents p)"
    by (simp add: cont) (simp add: pipe_contents_def)
qed

lemma pipe_put_eq:
  assumes "pipe_inv p" and "length (pipe_contents p) < 512"
  shows "\<exists>p'. pipewrite killed (c # cs) p = pipewrite killed cs p' \<and> pipe_inv p' \<and>
    pipe_contents p' = pipe_contents p @ [c] \<and> readopen p' = readopen p \<and> writeopen p' = writeopen p"
  using pipe_put(1) [OF assms] pipe_put(2-4) [where c = c, OF assms]
  by (intro exI [of _ "p\<lparr>p_data := (p_data p)[unat (nwrite p) mod 512 := c], nwrite := nwrite p + 1\<rparr>"])
    simp

text \<open>
  A critical section of the writer appends what fits; it is done if that is everything, and
  otherwise sleeps, or fails if nobody can read any more.
\<close>

lemma pipewrite_spec:
  "pipe_inv p \<Longrightarrow>
   \<exists>p'. pipewrite killed cs p = Inr (p',
       if length (pipe_contents p) + length cs \<le> 512 then WDone
       else if readopen p = 0 \<or> killed then WFail
       else WSleep (drop (512 - length (pipe_contents p)) cs)) \<and>
     pipe_inv p' \<and> pipe_contents p' = pipe_contents p @ take (512 - length (pipe_contents p)) cs \<and>
     readopen p' = readopen p \<and> writeopen p' = writeopen p"
proof (induction cs arbitrary: p)
  case Nil
  then show ?case by (auto simp: pipe_inv_def)
next
  case (Cons c cs)
  show ?case
  proof (cases "length (pipe_contents p) < 512")
    case True
    obtain p1 where p1: "pipewrite killed (c # cs) p = pipewrite killed cs p1" "pipe_inv p1"
      "pipe_contents p1 = pipe_contents p @ [c]" "readopen p1 = readopen p" "writeopen p1 = writeopen p"
      using pipe_put_eq [OF Cons.prems True] by blast
    have "512 - length (pipe_contents p) = Suc (512 - length (pipe_contents p1))"
      unfolding p1(3) using True by simp
    then show ?thesis using Cons.IH [OF p1(2)] p1 by (auto simp del: length_pipe_contents)
  next
    case False
    then have "nwrite p = nread p + PIPESIZE"
      using pipe_full_iff [of p] Cons.prems by (simp add: pipe_inv_def)
    then show ?thesis using False Cons.prems by auto
  qed
qed

lemma piperead_copy_spec:
  "pipe_inv p \<Longrightarrow>
   \<exists>p'. piperead_copy n p = Inr (p', take n (pipe_contents p)) \<and> pipe_inv p' \<and>
     pipe_contents p' = drop n (pipe_contents p) \<and>
     readopen p' = readopen p \<and> writeopen p' = writeopen p"
proof (induction n arbitrary: p)
  case 0
  then show ?case by simp
next
  case (Suc n)
  show ?case
  proof (cases "pipe_contents p")
    case Nil
    then have "unat (nwrite p - nread p) = 0" by (metis length_pipe_contents list.size(3))
    then have "nread p = nwrite p" by (simp add: pipe_empty_iff)
    then show ?thesis using Nil Suc.prems by simp
  next
    case (Cons c cs)
    then have ne: "pipe_contents p \<noteq> []" by simp
    note t = pipe_take [OF Suc.prems ne]
    obtain p' where "piperead_copy n (p\<lparr>nread := nread p + 1\<rparr>) = Inr (p', take n cs)"
      "pipe_inv p'" "pipe_contents p' = drop n cs" "readopen p' = readopen p" "writeopen p' = writeopen p"
      using Suc.IH [OF t(3)] t(4) Cons by auto
    then show ?thesis using t(1,2) Cons by simp
  qed
qed

text \<open>Byte by byte, a pipe meets the contract of a bounded queue of 512 bytes.\<close>

definition pipe_enq :: "pipe \<Rightarrow> byte \<Rightarrow> (pipe \<times> bool) res" where
  "pipe_enq p c = rbind (pipewrite False [c] p) (\<lambda>(p', st). Inr (p', st = WDone))"

definition pipe_deq :: "pipe \<Rightarrow> (pipe \<times> byte option) res" where
  "pipe_deq p = rbind (piperead_copy 1 p) (\<lambda>(p', cs).
     Inr (p', case cs of [] \<Rightarrow> None | c # _ \<Rightarrow> Some c))"

interpretation pq: bounded_queue pipe_enq pipe_deq pipe_inv pipe_contents 512
proof unfold_locales
  fix p c cs
  assume inv: "pipe_inv p"
  show "length (pipe_contents p) \<le> 512" using inv by (simp add: pipe_inv_def)
  show "\<exists>p'. pipe_enq p c = Inr (p', True) \<and> pipe_inv p' \<and> pipe_contents p' = pipe_contents p @ [c]"
    if "length (pipe_contents p) < 512"
    using pipe_put_eq [OF inv that, of False c "[]"] by (force simp: pipe_enq_def)
  show "pipe_enq p c = Inr (p, False)" if "length (pipe_contents p) = 512"
    using pipe_full_iff [of p] that inv by (simp add: pipe_enq_def pipe_inv_def)
  show "\<exists>p'. pipe_deq p = Inr (p', Some c) \<and> pipe_inv p' \<and> pipe_contents p' = cs"
    if "pipe_contents p = c # cs"
    using piperead_copy_spec [OF inv, of 1] that by (force simp: pipe_deq_def)
  show "pipe_deq p = Inr (p, None)" if "pipe_contents p = []"
  proof -
    have "nread p = nwrite p" using that by (metis length_pipe_contents list.size(3) pipe_empty_iff)
    then show ?thesis by (simp add: pipe_deq_def)
  qed
qed

text \<open>
  Sessions: a writer with bytes still to write and readers, in any order of their critical
  sections. \<open>SWrite\<close> runs the writer until it is done or sleeps; \<open>SRead n\<close> is a \<open>read\<close> of \<open>n\<close>
  bytes, which hands nothing out while it sleeps.
\<close>

datatype pipe_turn = SWrite | SRead int

fun pipe_session :: "pipe_turn list \<Rightarrow> pipe \<Rightarrow> byte list \<Rightarrow> (pipe \<times> byte list \<times> byte list) res" where
  "pipe_session [] p pending = Inr (p, pending, [])"
| "pipe_session (SWrite # ts) p pending =
     rbind (pipewrite False pending p) (\<lambda>(p1, st).
       case st of
         WDone \<Rightarrow> pipe_session ts p1 []
       | WSleep rest \<Rightarrow> pipe_session ts p1 rest
       | WFail \<Rightarrow> Inl (Panic ''write failed''))"
| "pipe_session (SRead n # ts) p pending =
     rbind (piperead False n p) (\<lambda>(p1, st).
       case st of
         RDone cs \<Rightarrow> rbind (pipe_session ts p1 pending) (\<lambda>(p2, rest, out). Inr (p2, rest, cs @ out))
       | _ \<Rightarrow> pipe_session ts p1 pending)"

lemma piperead_spec:
  assumes "pipe_inv p"
  shows "\<exists>p' st. piperead False n p = Inr (p', st) \<and> pipe_inv p' \<and> readopen p' = readopen p \<and>
    writeopen p' = writeopen p \<and> st \<noteq> RFail \<and>
    (st = RSleep \<longrightarrow> p' = p \<and> pipe_contents p = []) \<and>
    (\<forall>cs. st = RDone cs \<longrightarrow> cs = take (nat n) (pipe_contents p) \<and> pipe_contents p' = drop (nat n) (pipe_contents p))"
proof (cases "nread p = nwrite p \<and> writeopen p \<noteq> 0")
  case True
  then have "pipe_contents p = []" by (simp add: pipe_contents_def ring_def)
  then show ?thesis using True assms by (simp add: piperead_def)
next
  case False
  then show ?thesis using piperead_copy_spec [OF assms, of "nat n"] by (auto simp: piperead_def)
qed

lemma pipe_session_step:
  "pipe_inv p \<Longrightarrow> readopen p \<noteq> 0 \<Longrightarrow>
   ok (pipe_session ts p pending) (\<lambda>(p', rest, out). pipe_inv p' \<and> readopen p' \<noteq> 0 \<and>
     pipe_contents p @ pending = out @ pipe_contents p' @ rest)"
proof (induction ts arbitrary: p pending)
  case Nil
  then show ?case by simp
next
  case (Cons t ts)
  show ?case
  proof (cases t)
    case SWrite
    let ?k = "512 - length (pipe_contents p)"
    obtain p1 where w: "pipewrite False pending p = Inr (p1,
         if length (pipe_contents p) + length pending \<le> 512 then WDone else WSleep (drop ?k pending))"
      and p1: "pipe_inv p1" "pipe_contents p1 = pipe_contents p @ take ?k pending" "readopen p1 = readopen p"
      using pipewrite_spec [OF Cons.prems(1), of False pending] Cons.prems(2) by auto
    let ?rest = "if length (pipe_contents p) + length pending \<le> 512 then [] else drop ?k pending"
    have "take ?k pending @ ?rest = pending" by simp
    then have "pipe_contents p @ pending = pipe_contents p1 @ ?rest" by (simp add: p1(2))
    moreover have "pipe_session (t # ts) p pending = pipe_session ts p1 ?rest"
      using w SWrite by simp
    ultimately show ?thesis using Cons.IH [OF p1(1), of ?rest] p1(3) Cons.prems(2) by simp
  next
    case (SRead n)
    obtain p1 st where r: "piperead False n p = Inr (p1, st)" "pipe_inv p1" "readopen p1 = readopen p"
      "st \<noteq> RFail" "st = RSleep \<longrightarrow> p1 = p"
      "\<forall>cs. st = RDone cs \<longrightarrow> cs = take (nat n) (pipe_contents p) \<and> pipe_contents p1 = drop (nat n) (pipe_contents p)"
      using piperead_spec [OF Cons.prems(1), of n] by blast
    have IH: "ok (pipe_session ts p1 pending) (\<lambda>(p', rest, out). pipe_inv p' \<and> readopen p' \<noteq> 0 \<and>
        pipe_contents p1 @ pending = out @ pipe_contents p' @ rest)"
      using Cons.IH r(2,3) Cons.prems(2) by simp
    show ?thesis
    proof (cases st)
      case (RDone cs)
      then have "cs @ pipe_contents p1 = pipe_contents p" using r(6) by simp
      then have "pipe_contents p @ pending = cs @ (pipe_contents p1 @ pending)" by simp
      with IH RDone r(1) SRead show ?thesis by (auto simp: ok_def)
    next
      case RSleep
      with IH r SRead show ?thesis by simp
    qed (use r in simp)
  qed
qed

lemma pipe_round:
  assumes "pipe_inv p" and "readopen p \<noteq> 0" and "pipe_contents p = []"
  shows "\<exists>p'. pipe_session (SWrite # SRead 512 # ts) p pending =
      rbind (pipe_session ts p' (drop 512 pending)) (\<lambda>(p2, rest, out). Inr (p2, rest, take 512 pending @ out)) \<and>
    pipe_inv p' \<and> readopen p' \<noteq> 0 \<and> pipe_contents p' = []
    \<or> pending = [] \<and> pipe_session (SWrite # SRead 512 # ts) p pending = pipe_session ts p []"
proof -
  obtain p1 where w: "pipewrite False pending p =
       Inr (p1, if length pending \<le> 512 then WDone else WSleep (drop 512 pending))"
    and p1: "pipe_inv p1" "pipe_contents p1 = take 512 pending" "readopen p1 = readopen p"
    using pipewrite_spec [OF assms(1), of False pending] assms by auto
  have w': "pipe_session (SWrite # SRead 512 # ts) p pending = pipe_session (SRead 512 # ts) p1 (drop 512 pending)"
    using w by simp
  obtain p2 st where r: "piperead False 512 p1 = Inr (p2, st)" "pipe_inv p2" "readopen p2 = readopen p1"
    "st \<noteq> RFail" "st = RSleep \<longrightarrow> p2 = p1 \<and> pipe_contents p1 = []"
    "\<forall>cs. st = RDone cs \<longrightarrow> cs = take (nat 512) (pipe_contents p1) \<and> pipe_contents p2 = drop (nat 512) (pipe_contents p1)"
    using piperead_spec [OF p1(1), of 512] by blast
  show ?thesis
  proof (cases st)
    case (RDone cs)
    then have "cs = take 512 pending" "pipe_contents p2 = []" using r(6) p1(2) by simp_all
    then show ?thesis using w' r(1,2,3) RDone p1(3) assms(2) by auto
  next
    case RSleep
    then have "pending = []" using r(5) p1(2) by simp
    moreover have "p1 = p" using w \<open>pending = []\<close> by simp
    ultimately show ?thesis using w' r(1,5) RSleep by auto
  qed (use r in simp)
qed

text \<open>Enough rounds deliver everything.\<close>

lemma pipe_rounds:
  "pipe_inv p \<Longrightarrow> readopen p \<noteq> 0 \<Longrightarrow> pipe_contents p = [] \<Longrightarrow> length pending \<le> 512 * k \<Longrightarrow>
   ok (pipe_session (concat (replicate k [SWrite, SRead 512])) p pending)
     (\<lambda>(p', rest, out). rest = [] \<and> out = pending)"
proof (induction k arbitrary: p pending)
  case 0
  then show ?case by simp
next
  case (Suc k)
  let ?ts = "concat (replicate k [SWrite, SRead 512])"
  have eq: "concat (replicate (Suc k) [SWrite, SRead 512]) = SWrite # SRead 512 # ?ts" by simp
  from pipe_round [OF Suc.prems(1-3), of ?ts pending] show ?case
  proof (elim exE disjE conjE)
    fix p'
    assume p': "pipe_session (SWrite # SRead 512 # ?ts) p pending =
        rbind (pipe_session ?ts p' (drop 512 pending)) (\<lambda>(p2, rest, out). Inr (p2, rest, take 512 pending @ out))"
      "pipe_inv p'" "readopen p' \<noteq> 0" "pipe_contents p' = []"
    have "length (drop 512 pending) \<le> 512 * k" using Suc.prems(4) by simp
    from Suc.IH [OF p'(2-4) this] show ?case unfolding eq p'(1) by (auto simp: ok_def)
  next
    assume "pending = []" and "pipe_session (SWrite # SRead 512 # ?ts) p pending = pipe_session ?ts p []"
    then show ?case using Suc.IH [OF Suc.prems(1-3), of "[]"] unfolding eq by simp
  qed
qed

subsection \<open>Properties\<close>

definition new_pipe :: pipe where
  "new_pipe = \<lparr>p_data = replicate 512 0, nread = 0, nwrite = 0, readopen = 1, writeopen = 1\<rparr>"

lemma pipe_inv_new [simp]: "pipe_inv new_pipe" "pipe_contents new_pipe = []" "readopen new_pipe = 1"
  by (simp_all add: new_pipe_def pipe_inv_def pipe_contents_def ring_def)

text \<open>
  C29 (pipe_stream): whatever the order in which the critical sections of a writer and of readers
  of a pipe run, none of them fails or leaves the ring's bounds, and the bytes handed to the
  readers, followed by those in the pipe and those the writer still has, are exactly the bytes
  that were in the pipe followed by those to be written: nothing lost, duplicated or reordered,
  also when the 32-bit counters wrap around.
\<close>

theorem pipe_stream:
  assumes "pipe_inv p" and "readopen p \<noteq> 0"
  shows "ok (pipe_session ts p pending) (\<lambda>(p', rest, out).
    pipe_inv p' \<and> pipe_contents p @ pending = out @ pipe_contents p' @ rest)"
  using pipe_session_step [OF assms] by (rule ok_mono) auto

theorem pipe_stream_witness:
  "pipe_inv new_pipe \<and> readopen new_pipe \<noteq> 0 \<and>
   ok (pipe_session [SWrite, SRead 2] new_pipe [1, 2, 3]) (\<lambda>(p', rest, out).
     pipe_inv p' \<and> pipe_contents new_pipe @ [1, 2, 3] = out @ pipe_contents p' @ rest)"
  using pipe_stream [of new_pipe "[SWrite, SRead 2]" "[1, 2, 3]"] by simp

text \<open>
  (pipe_delivers): a write of any length to an empty pipe is delivered whole by alternating
  the writer with reads of the ring's size, and the number of rounds needed is the length over
  512, rounded up.
\<close>

theorem pipe_delivers:
  assumes "pipe_inv p" and "readopen p \<noteq> 0" and "pipe_contents p = []" and "length pending \<le> 512 * k"
  shows "ok (pipe_session (concat (replicate k [SWrite, SRead 512])) p pending)
    (\<lambda>(p', rest, out). rest = [] \<and> out = pending)"
  using assms by (rule pipe_rounds)

theorem pipe_delivers_witness:
  "pipe_contents new_pipe = [] \<and> length [7, 8] \<le> 512 * 1 \<and>
   ok (pipe_session (concat (replicate 1 [SWrite, SRead 512])) new_pipe [7, 8])
     (\<lambda>(p', rest, out). rest = [] \<and> out = [7, 8])"
  using pipe_delivers [of new_pipe "[7, 8]" 1] by simp

text \<open>
  C30 (message_queue_fifo): over any sequence of \<open>dispatchMessage\<close> and \<open>getMessage\<close> calls on an initialised window queue, the messages
  accepted, those handed out and those left are exactly the ones of a first-in first-out list of capacity 50: a message is refused
  exactly when 50 are queued, and a call finds none exactly when none is queued. So what was accepted is what was handed out
  followed by what is queued, in the order of dispatch.
\<close>

theorem message_queue_fifo:
  assumes "length (mb_data b) = 50"
  shows "ok (qrun mb_enq mb_deq ops (initMessageQueue b)) (\<lambda>(b', acc, outs).
    fifo_run 50 ops [] = (mb_contents b', acc, outs) \<and> acc = outs @ mb_contents b' \<and> length (mb_contents b') \<le> 50)"
proof -
  have i: "mb_inv (initMessageQueue b)" by (rule mb_inv_init [OF assms])
  from mq.fifo [OF i, of ops] mq.refines [OF i, of ops] show ?thesis by (auto simp: ok_def mq.bound)
qed

definition some_msg :: "int \<Rightarrow> message" where
  "some_msg k = \<lparr>msg_type = k, params = (\<lambda>_. 0)\<rparr>"

definition zero_buf :: msg_buf where
  "zero_buf = \<lparr>mb_data = replicate 50 (some_msg 0), mb_front = 0, mb_rear = 0, mb_cnt = 0\<rparr>"

theorem message_queue_fifo_witness:
  "\<exists>b'. qrun mb_enq mb_deq [Enq (some_msg 4), Enq (some_msg 5), Deq, Deq, Deq] (initMessageQueue zero_buf) = Inr (b', [some_msg 4, some_msg 5], [some_msg 4, some_msg 5])"
proof -
  have h: "length (mb_data zero_buf) = 50" by (simp add: zero_buf_def)
  show ?thesis using message_queue_fifo [OF h, of "[Enq (some_msg 4), Enq (some_msg 5), Deq, Deq, Deq]"] by (auto simp: ok_def simp del: qrun.simps)
qed

text \<open>
  (getMessage_race): \<open>getMessage\<close> tests \<open>cnt\<close> before taking the lock, so two processes that poll
  the popup queue while it holds one message can both pass the test; after their two locked
  parts the count is \<open>-1\<close>, and a further call hands out a stale slot although nothing was
  dispatched.
\<close>

theorem getMessage_race:
  assumes "mb_inv b" and "mb_cnt b = 1"
  shows "mb_cnt b \<noteq> 0 \<and>
    (\<exists>b1 m1 b2 m2 b3 m3. getMessage_locked b = Inr (b1, m1) \<and> getMessage_locked b1 = Inr (b2, m2) \<and>
       mb_cnt b2 = -1 \<and> getMessage b2 r = Inr (b3, m3, 0))"
proof -
  have step: "\<exists>b' m. getMessage_locked b = Inr (b', m) \<and> mb_cnt b' = mb_cnt b - 1 \<and>
      0 \<le> mb_front b' \<and> mb_front b' < 50 \<and> length (mb_data b') = 50"
    if "0 \<le> mb_front b" "mb_front b < 50" "length (mb_data b) = 50" for b
    using that by (simp add: getMessage_locked_def in_range_def MSG_BUF_SIZE_def Let_def)
  have inv: "0 \<le> mb_front b" "mb_front b < 50" "length (mb_data b) = 50" using assms(1) by (simp_all add: mb_inv_def)
  obtain b1 m1 where b1: "getMessage_locked b = Inr (b1, m1)" "mb_cnt b1 = 0" "0 \<le> mb_front b1"
      "mb_front b1 < 50" "length (mb_data b1) = 50"
    using step [OF inv] assms(2) by auto
  obtain b2 m2 where b2: "getMessage_locked b1 = Inr (b2, m2)" "mb_cnt b2 = -1" "0 \<le> mb_front b2"
      "mb_front b2 < 50" "length (mb_data b2) = 50"
    using step [OF b1(3-5)] b1(2) by auto
  obtain b3 m3 where "getMessage_locked b2 = Inr (b3, m3)" using step [OF b2(3-5)] by auto
  then have "getMessage b2 r = Inr (b3, m3, 0)" using b2(2) by (simp add: getMessage_def)
  then show ?thesis using b1(1) b2(1,2) assms(2) by auto
qed

definition one_buf :: msg_buf where
  "one_buf = zero_buf\<lparr>mb_rear := 1, mb_cnt := 1\<rparr>"

theorem getMessage_race_witness:
  "mb_inv one_buf \<and> mb_cnt one_buf = 1 \<and> mb_cnt one_buf \<noteq> 0 \<and>
   (\<exists>b1 m1 b2 m2 b3 m3. getMessage_locked one_buf = Inr (b1, m1) \<and> getMessage_locked b1 = Inr (b2, m2) \<and>
      mb_cnt b2 = -1 \<and> getMessage b2 (some_msg 0) = Inr (b3, m3, 0))"
proof -
  have h: "mb_inv one_buf" "mb_cnt one_buf = 1"
    by (simp_all add: one_buf_def zero_buf_def mb_inv_def)
  show ?thesis using h getMessage_race [OF h] by blast
qed

end
