(* ===== verification/Windows.thy ===== *)
theory Windows
  imports Links Queues "HOL-Library.Signed_Division"
begin

text \<open>
  The window manager's data (window_manager.h and the static variables of window_manager.c)
  and its window list: rectangles, the array \<open>windowlist\<close> whose used slots are linked from
  \<open>windowlisthead\<close> (bottom) to \<open>windowlisttail\<close> (top, focused), allocation, linking, unlinking
  and raising of slots. \<open>wm_rep\<close> relates the state to the stack of slot numbers from bottom
  to top; the lemmas show each operation against that stack.
\<close>

subsection \<open>Integer helpers and rectangles\<close>

definition min_c :: "int \<Rightarrow> int \<Rightarrow> int" where
  "min_c x y = (if x < y then x else y)"

definition max_c :: "int \<Rightarrow> int \<Rightarrow> int" where
  "max_c x y = (if x > y then x else y)"

definition clamp :: "int \<Rightarrow> int \<Rightarrow> int \<Rightarrow> int" where
  "clamp x l r = min_c r (max_c l x)"

record win_rect =
  xmin :: int
  xmax :: int
  ymin :: int
  ymax :: int

definition isInRect :: "int \<Rightarrow> int \<Rightarrow> int \<Rightarrow> int \<Rightarrow> int \<Rightarrow> int \<Rightarrow> bool" where
  "isInRect x0 y0 x1 y1 x y \<longleftrightarrow> x \<ge> x0 \<and> x \<le> x1 \<and> y \<ge> y0 \<and> y \<le> y1"

definition createRectByCoord :: "win_rect \<Rightarrow> int \<Rightarrow> int \<Rightarrow> int \<Rightarrow> int \<Rightarrow> win_rect" where
  "createRectByCoord r x0 y0 x1 y1 = r\<lparr>xmin := x0, xmax := x1, ymin := y0, ymax := y1\<rparr>"

definition createRectBySize :: "win_rect \<Rightarrow> int \<Rightarrow> int \<Rightarrow> int \<Rightarrow> int \<Rightarrow> win_rect" where
  "createRectBySize r x0 y0 w h = r\<lparr>xmin := x0, xmax := x0 + w, ymin := y0, ymax := y0 + h\<rparr>"

definition moveRect :: "win_rect \<Rightarrow> int \<Rightarrow> int \<Rightarrow> win_rect" where
  "moveRect r dx dy = r\<lparr>xmin := xmin r + dx, xmax := xmax r + dx, ymin := ymin r + dy, ymax := ymax r + dy\<rparr>"

subsection \<open>The state\<close>

definition MAX_WINDOW_CNT :: nat where
  "MAX_WINDOW_CNT = 50"

definition MAX_TITLE_LEN :: nat where
  "MAX_TITLE_LEN = 50"

definition TITLE_HEIGHT :: int where "TITLE_HEIGHT = 28"
definition DOCK_HEIGHT :: int where "DOCK_HEIGHT = 36"
definition DOCK_PROGRAM_NORMAL_WIDTH :: int where "DOCK_PROGRAM_NORMAL_WIDTH = 160"
definition START_ICON_WIDTH :: int where "START_ICON_WIDTH = 72"
definition SHOW_DESKTOP_ICON_WIDTH :: int where "SHOW_DESKTOP_ICON_WIDTH = 10"

lemmas wm_consts = MAX_WINDOW_CNT_def MAX_TITLE_LEN_def TITLE_HEIGHT_def DOCK_HEIGHT_def
  DOCK_PROGRAM_NORMAL_WIDTH_def START_ICON_WIDTH_def SHOW_DESKTOP_ICON_WIDTH_def

text \<open>Pointers (\<open>proc\<close>, \<open>window_buf\<close>) are addresses.\<close>

record kernel_window =
  position :: win_rect
  window_buf :: int
  kw_msg_buf :: msg_buf
  title :: "byte list"
  minimized :: int
  hasTitleBar :: int

record win_slot =
  slot_proc :: int
  wnd :: kernel_window
  slot_next :: int
  slot_prev :: int

record popup_slot =
  pop_proc :: int
  pop_wnd :: kernel_window
  caller :: int

record wm =
  windowlist :: "win_slot list"
  windowlisthead :: int
  windowlisttail :: int
  desktopId :: int
  popupwindow :: popup_slot
  mouseShape :: int
  clickedOnTitle :: int
  clickedOnContent :: int
  clickedOnPopup :: int
  mouse_x :: int
  mouse_y :: int
  last_x :: int
  last_y :: int
  SCREEN_WIDTH :: int
  SCREEN_HEIGHT :: int

text \<open>The part of the user's \<open>struct window\<close> that the kernel reads and writes.\<close>

record window =
  initialPosition :: win_rect
  w_hasTitleBar :: int
  w_window_buf :: int
  w_width :: int
  w_height :: int
  scrollOffsetX :: int
  scrollOffsetY :: int
  handler :: int

definition get_slot :: "wm \<Rightarrow> int \<Rightarrow> win_slot res" where
  "get_slot s i = arr_get (windowlist s) i"

definition mod_slot :: "wm \<Rightarrow> int \<Rightarrow> (win_slot \<Rightarrow> win_slot) \<Rightarrow> wm res" where
  "mod_slot s i f = rbind (arr_mod (windowlist s) i f) (\<lambda>l. Inr (s\<lparr>windowlist := l\<rparr>))"

definition upd_wnd :: "(kernel_window \<Rightarrow> kernel_window) \<Rightarrow> win_slot \<Rightarrow> win_slot" where
  "upd_wnd f c = c\<lparr>wnd := f (wnd c)\<rparr>"

text \<open>\<open>dispatchMessage(&windowlist[i].wnd.msg_buf, m)\<close> and the same for the popup.\<close>

definition post :: "wm \<Rightarrow> int \<Rightarrow> message \<Rightarrow> wm res" where
  "post s i m = rbind (get_slot s i) (\<lambda>c.
     rbind (dispatchMessage (kw_msg_buf (wnd c)) m) (\<lambda>(b, r).
     mod_slot s i (upd_wnd (\<lambda>w. w\<lparr>kw_msg_buf := b\<rparr>))))"

definition upd_popup :: "(kernel_window \<Rightarrow> kernel_window) \<Rightarrow> wm \<Rightarrow> wm" where
  "upd_popup f s = s\<lparr>popupwindow := (popupwindow s)\<lparr>pop_wnd := f (pop_wnd (popupwindow s))\<rparr>\<rparr>"

definition post_popup :: "wm \<Rightarrow> message \<Rightarrow> wm res" where
  "post_popup s m = rbind (dispatchMessage (kw_msg_buf (pop_wnd (popupwindow s))) m) (\<lambda>(b, r).
     Inr (upd_popup (\<lambda>w. w\<lparr>kw_msg_buf := b\<rparr>) s))"

subsection \<open>The window list\<close>

definition findNextAvailableWindowId :: "wm \<Rightarrow> int res" where
  "findNextAvailableWindowId s =
     rbind (for_each (\<lambda>i r. rbind (get_slot s (int i)) (\<lambda>c.
              if slot_prev c = int i \<and> slot_next c = int i then brk (int i) else cont r))
            [0..<MAX_WINDOW_CNT] (-1)) Inr"

definition addToWindowList :: "wm \<Rightarrow> int \<Rightarrow> wm res" where
  "addToWindowList s idx =
     rbind (mod_slot s idx (\<lambda>c. c\<lparr>slot_prev := windowlisttail s\<rparr>)) (\<lambda>s1.
     rbind (mod_slot s1 idx (\<lambda>c. c\<lparr>slot_next := -1\<rparr>)) (\<lambda>s2.
     rbind (if windowlisttail s2 \<noteq> -1
            then mod_slot s2 (windowlisttail s2) (\<lambda>c. c\<lparr>slot_next := idx\<rparr>)
            else Inr s2) (\<lambda>s3.
     Inr (s3\<lparr>windowlisttail := idx\<rparr>))))"

definition removeFromWindowList :: "wm \<Rightarrow> int \<Rightarrow> wm res" where
  "removeFromWindowList s idx =
     rbind (if windowlisttail s = idx
            then rbind (get_slot s (windowlisttail s)) (\<lambda>c. Inr (s\<lparr>windowlisttail := slot_prev c\<rparr>))
            else Inr s) (\<lambda>s1.
     rbind (get_slot s1 idx) (\<lambda>c1.
     rbind (if slot_prev c1 \<noteq> -1
            then mod_slot s1 (slot_prev c1) (\<lambda>c. c\<lparr>slot_next := slot_next c1\<rparr>)
            else Inr s1) (\<lambda>s2.
     rbind (get_slot s2 idx) (\<lambda>c2.
     if slot_next c2 \<noteq> -1
     then mod_slot s2 (slot_next c2) (\<lambda>c. c\<lparr>slot_prev := slot_prev c2\<rparr>)
     else Inr s2))))"

definition focusWindow :: "wm \<Rightarrow> int \<Rightarrow> wm res" where
  "focusWindow s winId =
     (if winId = -1 \<or> winId = windowlisttail s then Inr s
      else rbind
        (if winId = windowlisthead s then
           rbind (get_slot s winId) (\<lambda>c.
             let newhead = slot_next c
             in rbind (mod_slot s newhead (\<lambda>c. c\<lparr>slot_prev := -1\<rparr>)) (\<lambda>s1.
                Inr (s1\<lparr>windowlisthead := newhead\<rparr>)))
         else
           rbind (get_slot s winId) (\<lambda>c.
             let prevWin = slot_prev c; nextWin = slot_next c
             in rbind (mod_slot s prevWin (\<lambda>c. c\<lparr>slot_next := nextWin\<rparr>)) (\<lambda>s1.
                mod_slot s1 nextWin (\<lambda>c. c\<lparr>slot_prev := prevWin\<rparr>))))
        (\<lambda>s2. addToWindowList s2 winId))"

definition moveFocusWindow :: "wm \<Rightarrow> int \<Rightarrow> int \<Rightarrow> wm res" where
  "moveFocusWindow s dx dy =
     rbind (get_slot s (windowlisttail s)) (\<lambda>c.
       if hasTitleBar (wnd c) \<noteq> 0
       then mod_slot s (windowlisttail s) (upd_wnd (\<lambda>w. w\<lparr>position := moveRect (position w) dx dy\<rparr>))
       else Inr s)"

text \<open>
  The traversals from the bottom up and from the top down; the fuel is the number of cells
  the loop may visit (the callers pass the number of slots).
\<close>

definition up_from_head :: "nat \<Rightarrow> (int \<Rightarrow> 'a \<Rightarrow> ('a \<times> bool) res) \<Rightarrow> ('a \<Rightarrow> wm) \<Rightarrow> wm \<Rightarrow> 'a \<Rightarrow> ('a \<times> int) res" where
  "up_from_head fuel body state s a =
     for_links fuel (\<lambda>a p. rbind (get_slot (state a) p) (\<lambda>c. Inr (slot_next c))) body (windowlisthead s) a"

definition down_from_tail :: "nat \<Rightarrow> (int \<Rightarrow> 'a \<Rightarrow> ('a \<times> bool) res) \<Rightarrow> ('a \<Rightarrow> wm) \<Rightarrow> wm \<Rightarrow> 'a \<Rightarrow> ('a \<times> int) res" where
  "down_from_tail fuel body state s a =
     for_links fuel (\<lambda>a p. rbind (get_slot (state a) p) (\<lambda>c. Inr (slot_prev c))) body (windowlisttail s) a"

definition getWindowCount :: "nat \<Rightarrow> wm \<Rightarrow> int res" where
  "getWindowCount fuel s =
     rbind (up_from_head fuel (\<lambda>p n. cont (if p \<noteq> desktopId s then n + 1 else n)) (\<lambda>_. s) s 0)
       (\<lambda>(n, p). Inr n)"

subsection \<open>The stack of windows\<close>

interpretation slots: link_cell slot_next slot_prev "\<lambda>v c. c\<lparr>slot_next := v\<rparr>" "\<lambda>v c. c\<lparr>slot_prev := v\<rparr>"
    "\<lambda>c. (slot_proc c, wnd c)"
  by unfold_locales simp_all

abbreviation "slots_append \<equiv> cells_append (\<lambda>v c :: win_slot. c\<lparr>slot_next := v\<rparr>) (\<lambda>v c. c\<lparr>slot_prev := v\<rparr>)"
abbreviation "slots_unlink \<equiv> cells_unlink slot_next slot_prev (\<lambda>v c :: win_slot. c\<lparr>slot_next := v\<rparr>) (\<lambda>v c. c\<lparr>slot_prev := v\<rparr>)"
abbreviation "slots_free \<equiv> cells_free (\<lambda>v c :: win_slot. c\<lparr>slot_next := v\<rparr>) (\<lambda>v c. c\<lparr>slot_prev := v\<rparr>)"

definition wm_rep :: "wm \<Rightarrow> nat list \<Rightarrow> bool" where
  "wm_rep s ids \<longleftrightarrow> length (windowlist s) = 50 \<and> cells_rep slot_next slot_prev (windowlist s) ids \<and>
     windowlisthead s = headi ids (-1) \<and> windowlisttail s = lasti ids (-1)"

text \<open>What the slots carry besides links: the state without its list structure.\<close>

abbreviation slot_data :: "win_slot \<Rightarrow> int \<times> kernel_window" where
  "slot_data \<equiv> (\<lambda>c. (slot_proc c, wnd c))"

definition wm_rest :: "wm \<Rightarrow> wm" where
  "wm_rest s = s\<lparr>windowlist := [], windowlisthead := 0, windowlisttail := 0\<rparr>"

definition same_wnds :: "wm \<Rightarrow> wm \<Rightarrow> bool" where
  "same_wnds s s' \<longleftrightarrow> map slot_data (windowlist s') = map slot_data (windowlist s) \<and> wm_rest s' = wm_rest s"

lemma same_wnds_refl [simp]: "same_wnds s s"
  by (simp add: same_wnds_def)

lemma same_wnds_trans: "same_wnds s s' \<Longrightarrow> same_wnds s' s'' \<Longrightarrow> same_wnds s s''"
  by (simp add: same_wnds_def)

lemma same_wndsI:
  "map slot_data l = map slot_data (windowlist s) \<Longrightarrow>
   same_wnds s (s\<lparr>windowlist := l, windowlisthead := h, windowlisttail := t\<rparr>)"
  by (simp add: same_wnds_def wm_rest_def)

lemma wm_rest_eq: "wm_rest s' = wm_rest s \<Longrightarrow>
  desktopId s' = desktopId s \<and> popupwindow s' = popupwindow s \<and> mouseShape s' = mouseShape s \<and>
  clickedOnTitle s' = clickedOnTitle s \<and> clickedOnContent s' = clickedOnContent s \<and>
  clickedOnPopup s' = clickedOnPopup s \<and> mouse_x s' = mouse_x s \<and> mouse_y s' = mouse_y s \<and>
  last_x s' = last_x s \<and> last_y s' = last_y s \<and>
  SCREEN_WIDTH s' = SCREEN_WIDTH s \<and> SCREEN_HEIGHT s' = SCREEN_HEIGHT s"
  unfolding wm_rest_def by (cases s, cases s') simp

lemma same_wnds_rest:
  assumes "same_wnds s s'"
  shows "desktopId s' = desktopId s" "popupwindow s' = popupwindow s"
    "clickedOnTitle s' = clickedOnTitle s" "clickedOnContent s' = clickedOnContent s"
    "clickedOnPopup s' = clickedOnPopup s" "mouse_x s' = mouse_x s" "mouse_y s' = mouse_y s"
    "SCREEN_WIDTH s' = SCREEN_WIDTH s" "SCREEN_HEIGHT s' = SCREEN_HEIGHT s"
proof -
  have "wm_rest s' = wm_rest s" using assms by (simp add: same_wnds_def)
  from wm_rest_eq [OF this] show "desktopId s' = desktopId s" "popupwindow s' = popupwindow s"
    "clickedOnTitle s' = clickedOnTitle s" "clickedOnContent s' = clickedOnContent s"
    "clickedOnPopup s' = clickedOnPopup s" "mouse_x s' = mouse_x s" "mouse_y s' = mouse_y s"
    "SCREEN_WIDTH s' = SCREEN_WIDTH s" "SCREEN_HEIGHT s' = SCREEN_HEIGHT s" by simp_all
qed

lemma same_wnds_slot:
  assumes "same_wnds s s'" and "i < length (windowlist s)"
  shows "wnd (windowlist s' ! i) = wnd (windowlist s ! i)"
    and "slot_proc (windowlist s' ! i) = slot_proc (windowlist s ! i)"
proof -
  have eq: "map slot_data (windowlist s') = map slot_data (windowlist s)" using assms(1) by (simp add: same_wnds_def)
  then have "length (windowlist s') = length (windowlist s)" by (metis length_map)
  then have "slot_data (windowlist s' ! i) = slot_data (windowlist s ! i)"
    using arg_cong [OF eq, of "\<lambda>xs. xs ! i"] assms(2) by simp
  then show "wnd (windowlist s' ! i) = wnd (windowlist s ! i)"
    and "slot_proc (windowlist s' ! i) = slot_proc (windowlist s ! i)" by simp_all
qed

lemma same_wnds_length: "same_wnds s s' \<Longrightarrow> length (windowlist s') = length (windowlist s)"
  unfolding same_wnds_def by (metis length_map)

text \<open>The C updates, evaluated: each is an update of the array by the operations of \<open>Links\<close>.\<close>

lemma mod_slot_ok [simp]:
  "in_range i (windowlist s) \<Longrightarrow>
   mod_slot s i f = Inr (s\<lparr>windowlist := (windowlist s)[nat i := f (windowlist s ! nat i)]\<rparr>)"
  by (simp add: mod_slot_def)

lemma get_slot_ok [simp]: "in_range i (windowlist s) \<Longrightarrow> get_slot s i = Inr (windowlist s ! nat i)"
  by (simp add: get_slot_def)

lemma slot_out [simp]:
  "\<not> in_range i (windowlist s) \<Longrightarrow> mod_slot s i f = Inl OutOfBounds"
  "\<not> in_range i (windowlist s) \<Longrightarrow> get_slot s i = Inl OutOfBounds"
  by (simp_all add: mod_slot_def get_slot_def)

lemma add_eval:
  assumes "i < length (windowlist s)" and "windowlisttail s = -1 \<or> in_range (windowlisttail s) (windowlist s)"
  shows "addToWindowList s (int i) =
    Inr (s\<lparr>windowlist := slots_append (windowlist s) (windowlisttail s) i, windowlisttail := int i\<rparr>)"
proof -
  have r: "(c :: win_slot)\<lparr>slot_prev := t, slot_next := n\<rparr> = c\<lparr>slot_next := n, slot_prev := t\<rparr>" for c t n
    by simp
  show ?thesis using assms by (auto simp: addToWindowList_def cells_append_def Let_def in_range_def)
qed

lemma unlink_eval:
  assumes "i < length (windowlist s)"
    and "slot_prev (windowlist s ! i) = -1 \<or> in_range (slot_prev (windowlist s ! i)) (windowlist s)"
    and "slot_next (windowlist s ! i) = -1 \<or> in_range (slot_next (windowlist s ! i)) (windowlist s)"
    and "slot_prev (windowlist s ! i) \<noteq> int i"
  shows "removeFromWindowList s (int i) = Inr (s\<lparr>windowlist := slots_unlink (windowlist s) i,
           windowlisttail := (if windowlisttail s = int i then slot_prev (windowlist s ! i) else windowlisttail s)\<rparr>)"
  using assms by (auto simp: removeFromWindowList_def cells_unlink_def Let_def in_range_def eq_nat_nat_iff nth_list_update)

text \<open>Facts about a represented state.\<close>

lemma rep_dll: "wm_rep s ids \<Longrightarrow> dll 50 (links_of slot_next (windowlist s)) (links_of slot_prev (windowlist s)) ids"
  unfolding wm_rep_def cells_rep_def by metis

lemma rep_length: "wm_rep s ids \<Longrightarrow> length (windowlist s) = 50"
  by (simp add: wm_rep_def)

lemma rep_bound: "wm_rep s ids \<Longrightarrow> i \<in> set ids \<Longrightarrow> i < 50"
  using dll_bound [OF rep_dll] by blast

lemma rep_in_range: "wm_rep s ids \<Longrightarrow> i \<in> set ids \<Longrightarrow> in_range (int i) (windowlist s)"
  using rep_bound rep_length by simp

lemma rep_distinct: "wm_rep s ids \<Longrightarrow> distinct ids"
  using dll_distinct [OF rep_dll] .

lemma rep_at:
  assumes "wm_rep s (xs @ w # ys)"
  shows "slot_prev (windowlist s ! w) = lasti xs (-1)" and "slot_next (windowlist s ! w) = headi ys (-1)"
  using dll_at [OF rep_dll [OF assms]] by (simp_all add: links_of_def)

lemma lasti_range: "(\<And>i. i \<in> set xs \<Longrightarrow> i < n) \<Longrightarrow> lasti xs (-1) = -1 \<or> (0 \<le> lasti xs (-1) \<and> lasti xs (-1) < int n)"
  by (cases xs rule: rev_cases) auto

lemma headi_range: "(\<And>i. i \<in> set xs \<Longrightarrow> i < n) \<Longrightarrow> headi xs (-1) = -1 \<or> (0 \<le> headi xs (-1) \<and> headi xs (-1) < int n)"
  by (cases xs) auto

lemma rep_ends_range:
  assumes "wm_rep s (xs @ w # ys)"
  shows "lasti xs (-1) = -1 \<or> in_range (lasti xs (-1)) (windowlist s)"
    and "headi ys (-1) = -1 \<or> in_range (headi ys (-1)) (windowlist s)"
    and "lasti xs (-1) \<noteq> int w" and "headi ys (-1) \<noteq> int w"
proof -
  have b: "\<And>i. i \<in> set xs \<Longrightarrow> i < 50" "\<And>i. i \<in> set ys \<Longrightarrow> i < 50" using rep_bound [OF assms] by auto
  have d: "w \<notin> set xs" "w \<notin> set ys" using rep_distinct [OF assms] by auto
  show "lasti xs (-1) = -1 \<or> in_range (lasti xs (-1)) (windowlist s)"
    using lasti_range [of xs 50] b(1) rep_length [OF assms] by (auto simp: in_range_def)
  show "headi ys (-1) = -1 \<or> in_range (headi ys (-1)) (windowlist s)"
    using headi_range [of ys 50] b(2) rep_length [OF assms] by (auto simp: in_range_def)
  show "lasti xs (-1) \<noteq> int w" using d(1) by (cases xs rule: rev_cases) auto
  show "headi ys (-1) \<noteq> int w" using d(2) by (cases ys) auto
qed

lemma rep_tail_eq:
  assumes "wm_rep s (xs @ w # ys)"
  shows "windowlisttail s = int w \<longleftrightarrow> ys = []" and "windowlisthead s = int w \<longleftrightarrow> xs = []"
proof -
  have d: "distinct (xs @ w # ys)" by (rule rep_distinct [OF assms])
  show "windowlisttail s = int w \<longleftrightarrow> ys = []"
    using assms d by (cases ys rule: rev_cases) (auto simp: wm_rep_def lasti_append)
  show "windowlisthead s = int w \<longleftrightarrow> xs = []"
    using assms d by (cases xs) (auto simp: wm_rep_def headi_append)
qed

text \<open>The effect of each list operation on the stack.\<close>

lemma add_spec:
  assumes "wm_rep s ids" and "i < 50" and "i \<notin> set ids"
  shows "\<exists>s'. addToWindowList (s\<lparr>windowlisthead := headi (ids @ [i]) (-1)\<rparr>) (int i) = Inr s' \<and>
    wm_rep s' (ids @ [i]) \<and> same_wnds s s'"
proof -
  have len: "length (windowlist s) = 50" and t: "windowlisttail s = lasti ids (-1)"
    using assms(1) by (simp_all add: wm_rep_def)
  have tr: "windowlisttail s = -1 \<or> in_range (windowlisttail s) (windowlist s)"
    using lasti_range [of ids 50] rep_bound [OF assms(1)] len t by (auto simp: in_range_def)
  let ?l = "slots_append (windowlist s) (lasti ids (-1)) i"
  have "cells_rep slot_next slot_prev ?l (ids @ [i])"
    by (rule slots.rep_append) (use assms len in \<open>simp_all add: wm_rep_def\<close>)
  moreover have "map slot_data ?l = map slot_data (windowlist s)" by (rule slots.payload_cells)
  ultimately show ?thesis using add_eval [of i "s\<lparr>windowlisthead := headi (ids @ [i]) (-1)\<rparr>"] assms(2) len tr t
    by (simp add: wm_rep_def same_wnds_def wm_rest_def)
qed

lemma remove_spec:
  assumes "wm_rep s (xs @ w # ys)"
  shows "removeFromWindowList s (int w) =
    Inr (s\<lparr>windowlist := slots_unlink (windowlist s) w, windowlisttail := lasti (xs @ ys) (-1)\<rparr>)"
proof -
  have w: "w < length (windowlist s)" using rep_bound [OF assms] rep_length [OF assms] by simp
  have t: "(if windowlisttail s = int w then lasti xs (-1) else windowlisttail s) = lasti (xs @ ys) (-1)"
  proof (cases "ys = []")
    case False
    then have "windowlisttail s = lasti ys (-1)"
      using assms by (cases ys rule: rev_cases) (simp_all add: wm_rep_def lasti_append)
    then show ?thesis using False rep_tail_eq(1) [OF assms]
      by (cases ys rule: rev_cases) (simp_all add: lasti_append)
  qed (simp add: rep_tail_eq(1) [OF assms])
  show ?thesis
    using unlink_eval [OF w] rep_ends_range [OF assms] t unfolding rep_at [OF assms] by simp
qed

lemma focus_spec:
  assumes "wm_rep s (xs @ w # ys)"
  shows "\<exists>s'. focusWindow s (int w) = Inr s' \<and> wm_rep s' (xs @ ys @ [w]) \<and> same_wnds s s'"
proof (cases "ys = []")
  case True
  then have "focusWindow s (int w) = Inr s" using rep_tail_eq(1) [OF assms] by (simp add: focusWindow_def)
  then show ?thesis using assms True by simp
next
  case False
  have len: "length (windowlist s) = 50" and w: "w < 50" using assms rep_bound rep_length by auto
  have t: "windowlisttail s = lasti (xs @ ys) (-1)" "windowlisttail s \<noteq> int w"
    using assms False rep_tail_eq(1) [OF assms]
    by (cases ys rule: rev_cases; simp add: wm_rep_def lasti_append)+
  have tr: "windowlisttail s = -1 \<or> in_range (windowlisttail s) (windowlist s)"
    using lasti_range [of "xs @ ys" 50] rep_bound [OF assms] len t(1) by (auto simp: in_range_def)
  let ?u = "slots_unlink (windowlist s) w"
  let ?h = "headi (xs @ ys) (-1)"
  have "focusWindow s (int w) = addToWindowList (s\<lparr>windowlist := ?u, windowlisthead := ?h\<rparr>) (int w)"
  proof (cases "xs = []")
    case True
    then show ?thesis
      using False rep_ends_range [OF assms] rep_tail_eq(2) [OF assms] t(2) w len rep_at [OF assms]
      by (cases ys) (simp_all add: focusWindow_def cells_unlink_def Let_def)
  next
    case xs: False
    then have h: "windowlisthead s = ?h" "windowlisthead s \<noteq> int w" "lasti xs (-1) \<noteq> -1"
      using assms rep_tail_eq(2) [OF assms] by (auto simp: wm_rep_def headi_append lasti_def neq_Nil_conv)
    have hy: "headi ys (-1) \<noteq> -1" using False by (cases ys) auto
    have s: "s\<lparr>windowlist := l, windowlisthead := ?h\<rparr> = s\<lparr>windowlist := l\<rparr>" for l
      by (simp add: h(1) [symmetric])
    show ?thesis
      using h hy rep_ends_range [OF assms] t(2) w len rep_at [OF assms]
      unfolding s by (simp add: focusWindow_def cells_unlink_def Let_def)
  qed
  moreover have "addToWindowList (s\<lparr>windowlist := ?u, windowlisthead := ?h\<rparr>) (int w) =
      Inr (s\<lparr>windowlist := slots_append ?u (windowlisttail s) w, windowlisthead := ?h, windowlisttail := int w\<rparr>)"
    using add_eval [of w "s\<lparr>windowlist := ?u, windowlisthead := ?h\<rparr>"] w len tr by (simp add: in_range_def)
  moreover have "cells_rep slot_next slot_prev (slots_append ?u (lasti (xs @ ys) (-1)) w) (xs @ ys @ [w])"
    by (rule slots.rep_to_tail) (use assms False in \<open>simp_all add: wm_rep_def\<close>)
  moreover have "map slot_data (slots_append ?u (windowlisttail s) w) = map slot_data (windowlist s)"
    by (simp add: slots.payload_cells)
  moreover have "?h = headi (xs @ ys @ [w]) (-1)" using False by (simp add: headi_append neq_Nil_conv) (metis headi_simps(2) list.exhaust)
  moreover have "lasti (xs @ ys @ [w]) (-1) = int w" by (simp add: lasti_append)
  ultimately show ?thesis using len t(1) by (simp add: wm_rep_def same_wnds_def wm_rest_def)
qed

text \<open>The allocator returns the least free slot.\<close>

definition least_free :: "nat list \<Rightarrow> nat option" where
  "least_free ids = List.find (\<lambda>i. i \<notin> set ids) [0..<50]"

lemma find_loop:
  assumes "\<And>i. i \<in> set is \<Longrightarrow> body i r = (if P i then brk (int i) else cont r)"
  shows "for_each body is r = Inr (case List.find P is of None \<Rightarrow> r | Some i \<Rightarrow> int i)"
  using assms by (induction "is") (auto simp: brk_def cont_def)

lemma findNext_spec:
  assumes "wm_rep s ids"
  shows "findNextAvailableWindowId s = Inr (case least_free ids of None \<Rightarrow> -1 | Some i \<Rightarrow> int i)"
proof -
  have "for_each (\<lambda>i r. rbind (get_slot s (int i)) (\<lambda>c.
              if slot_prev c = int i \<and> slot_next c = int i then brk (int i) else cont r))
            [0..<50] (-1) = Inr (case List.find (\<lambda>i. i \<notin> set ids) [0..<50] of None \<Rightarrow> -1 | Some i \<Rightarrow> int i)"
  proof (rule find_loop)
    fix i assume "i \<in> set [0..<50]"
    then have i: "i < 50" by simp
    then show "rbind (get_slot s (int i)) (\<lambda>c. if slot_prev c = int i \<and> slot_next c = int i then brk (int i) else cont (-1))
        = (if i \<notin> set ids then brk (int i) else cont (-1))"
      using dll_free_iff [OF rep_dll [OF assms] i] rep_length [OF assms] by (simp add: links_of_def)
  qed
  then show ?thesis by (simp add: findNextAvailableWindowId_def MAX_WINDOW_CNT_def least_free_def)
qed

lemma least_free_Some:
  "least_free ids = Some i \<Longrightarrow> i < 50 \<and> i \<notin> set ids \<and> (\<forall>j<i. j \<in> set ids)"
  by (auto simp: least_free_def find_Some_iff)

lemma least_free_None:
  assumes "wm_rep s ids"
  shows "least_free ids = None \<longleftrightarrow> length ids = 50"
proof -
  have d: "distinct ids" by (rule rep_distinct [OF assms])
  have sub: "set ids \<subseteq> {..<50}" using rep_bound [OF assms] by auto
  have "least_free ids = None \<longleftrightarrow> {..<50} \<subseteq> set ids" by (auto simp: least_free_def find_None_iff)
  also have "\<dots> \<longleftrightarrow> length ids = 50"
    using sub distinct_card [OF d] card_subset_eq [OF _ sub] by fastforce
  finally show ?thesis .
qed

text \<open>The traversals follow the stack.\<close>

lemma up_spec:
  assumes "wm_rep (state a) ids" and "windowlisthead s = windowlisthead (state a)" and "50 \<le> fuel"
    and "\<And>i b b' k. i \<in> set ids \<Longrightarrow> wm_rep (state b) ids \<Longrightarrow> body (int i) b = Inr (b', k) \<Longrightarrow> \<not> k \<Longrightarrow> wm_rep (state b') ids"
  shows "up_from_head fuel body state s a = for_cells body ids a"
proof -
  let ?nx = "links_of slot_next (windowlist (state a))" and ?pv = "links_of slot_prev (windowlist (state a))"
  have dll: "dll 50 ?nx ?pv ids" by (rule rep_dll [OF assms(1)])
  have nx: "slot_next (windowlist t ! i) = ?nx i" if "wm_rep t ids" "i \<in> set ids" for t i
  proof -
    obtain xs ys where ids: "ids = xs @ i # ys" using \<open>i \<in> set ids\<close> by (meson split_list)
    show ?thesis using rep_at(2) [of t xs i ys] rep_at(2) [of "state a" xs i ys] that(1) assms(1)
      by (simp add: ids links_of_def)
  qed
  have "for_links fuel (\<lambda>a p. rbind (get_slot (state a) p) (\<lambda>c. Inr (slot_next c))) body (headi ids (-1)) a
      = for_cells body ids a"
  proof (rule for_links_seg [where I = "\<lambda>b. wm_rep (state b) ids" and nx = ?nx and pv = ?pv and p = "-1"])
    show "dseg ?nx ?pv (-1) ids (-1)" using dll by (simp add: dll_def)
    show "length ids \<le> fuel" using dll_length [OF dll] assms(3) by simp
    show "case body (int i) b of Inl e \<Rightarrow> True | Inr (s', k) \<Rightarrow> k \<or> wm_rep (state s') ids"
      if "i \<in> set ids" "wm_rep (state b) ids" for i b
      using assms(4) [OF that] by (cases "body (int i) b") fastforce+
    show "rbind (get_slot (state b) (int i)) (\<lambda>c. Inr (slot_next c)) = Inr (?nx i)"
      if "i \<in> set ids" "wm_rep (state b) ids" for i b
      using rep_in_range [OF that(2,1)] nx [OF that(2,1)] by simp
  qed (rule assms(1))
  then show ?thesis using assms(1,2) by (simp add: up_from_head_def wm_rep_def)
qed

text \<open>From the top down, for a loop that leaves the state alone until it breaks.\<close>

lemma down_spec:
  assumes "wm_rep s ids" and "50 \<le> fuel" and "\<And>i. i \<in> set ids \<Longrightarrow> body (int i) s = cont s \<or> (\<exists>r. body (int i) s = r \<and> (\<forall>s'. r \<noteq> Inr (s', False)))"
  shows "down_from_tail fuel body (\<lambda>t. t) s s = for_cells body (rev ids) s"
proof -
  let ?nx = "links_of slot_next (windowlist s)" and ?pv = "links_of slot_prev (windowlist s)"
  have dll: "dll 50 ?pv ?nx (rev ids)" by (rule dll_rev [OF rep_dll [OF assms(1)]])
  have "for_links fuel (\<lambda>a p. rbind (get_slot a p) (\<lambda>c. Inr (slot_prev c))) body (headi (rev ids) (-1)) s
      = for_cells body (rev ids) s"
  proof (rule for_links_seg [where I = "\<lambda>b. b = s" and nx = ?pv and pv = ?nx and p = "-1"])
    show "dseg ?pv ?nx (-1) (rev ids) (-1)" using dll by (simp add: dll_def)
    show "length (rev ids) \<le> fuel" using dll_length [OF dll] assms(2) by simp
    show "case body (int i) b of Inl e \<Rightarrow> True | Inr (s', k) \<Rightarrow> k \<or> s' = s"
      if "i \<in> set (rev ids)" "b = s" for i b
      using assms(3) [of i] that by (auto simp: cont_def split: sum.splits)
    show "rbind (get_slot b (int i)) (\<lambda>c. Inr (slot_prev c)) = Inr (?pv i)"
      if "i \<in> set (rev ids)" "b = s" for i b
      using rep_in_range [OF assms(1)] that by (simp add: links_of_def)
  qed simp
  then show ?thesis using assms(1) by (simp add: down_from_tail_def wm_rep_def)
qed

lemma count_cells:
  "for_cells (\<lambda>p n. cont (if p \<noteq> d then n + 1 else n)) ids (n :: int) =
   Inr (n + int (length (filter (\<lambda>i. int i \<noteq> d) ids)), -1)"
  by (induction ids arbitrary: n) (simp_all add: cont_def)

lemma getWindowCount_spec:
  assumes "wm_rep s ids" and "50 \<le> fuel"
  shows "getWindowCount fuel s = Inr (int (length (filter (\<lambda>i. int i \<noteq> desktopId s) ids)))"
proof -
  have "up_from_head fuel (\<lambda>p n. cont (if p \<noteq> desktopId s then n + 1 else n)) (\<lambda>_. s) s (0 :: int) =
      for_cells (\<lambda>p n. cont (if p \<noteq> desktopId s then n + 1 else n)) ids 0"
    by (rule up_spec) (use assms in auto)
  then show ?thesis by (simp add: getWindowCount_def count_cells)
qed

end
