(* ===== verification/WindowManager.thy ===== *)
theory WindowManager
  imports Windows
begin

text \<open>
  The window manager's operations (window_manager.c): start-up, mouse and keyboard events
  (\<open>wmHandleMessage\<close>), creation, closing, minimising and raising of windows and of the popup,
  and the system calls around them. They run under \<open>wmlock\<close> and are modelled as one step each, except
  the polling of a queue, which tests before it takes the lock and is two steps.

  A message that is a local variable of the C code is uninitialised where the code does not
  assign it: \<open>junk n\<close> stands for the former contents of the stack slot of the declaration in
  line \<open>n\<close>.
\<close>

subsection \<open>Start-up\<close>

definition free_slot :: "int \<Rightarrow> win_slot \<Rightarrow> win_slot" where
  "free_slot i c = c\<lparr>slot_next := i, slot_prev := i\<rparr>"

definition wmInit :: "wm \<Rightarrow> wm res" where
  "wmInit s0 =
     (let s1 = s0\<lparr>mouseShape := 0,
                  mouse_x := SCREEN_WIDTH s0 sdiv 2, mouse_y := SCREEN_HEIGHT s0 sdiv 2,
                  last_x := SCREEN_WIDTH s0 sdiv 2, last_y := SCREEN_HEIGHT s0 sdiv 2,
                  windowlisthead := -1, windowlisttail := -1\<rparr>
      in rbind (for_each (\<lambda>i s. cont_res (mod_slot s (int i) (free_slot (int i)))) [0..<MAX_WINDOW_CNT] s1)
           (\<lambda>s2. Inr (s2\<lparr>popupwindow := (popupwindow s2)\<lparr>caller := -1\<rparr>,
                          clickedOnTitle := 0, clickedOnContent := 0, clickedOnPopup := 0\<rparr>)))"

subsection \<open>Messages\<close>

definition M_KEY_UP :: int where "M_KEY_UP = 1"
definition M_KEY_DOWN :: int where "M_KEY_DOWN = 2"
definition M_MOUSE_MOVE :: int where "M_MOUSE_MOVE = 3"
definition M_MOUSE_DOWN :: int where "M_MOUSE_DOWN = 4"
definition M_MOUSE_UP :: int where "M_MOUSE_UP = 5"
definition M_MOUSE_LEFT_CLICK :: int where "M_MOUSE_LEFT_CLICK = 6"
definition M_MOUSE_RIGHT_CLICK :: int where "M_MOUSE_RIGHT_CLICK = 7"
definition M_MOUSE_DBCLICK :: int where "M_MOUSE_DBCLICK = 8"
definition WM_WINDOW_CLOSE :: int where "WM_WINDOW_CLOSE = 100"
definition WM_WINDOW_MINIMIZE :: int where "WM_WINDOW_MINIMIZE = 101"
definition WM_WINDOW_MAXIMIZE :: int where "WM_WINDOW_MAXIMIZE = 102"

lemmas msg_codes = M_KEY_UP_def M_KEY_DOWN_def M_MOUSE_MOVE_def M_MOUSE_DOWN_def M_MOUSE_UP_def
  M_MOUSE_LEFT_CLICK_def M_MOUSE_RIGHT_CLICK_def M_MOUSE_DBCLICK_def
  WM_WINDOW_CLOSE_def WM_WINDOW_MINIMIZE_def WM_WINDOW_MAXIMIZE_def

definition MOUSE_SPEED_X :: int where "MOUSE_SPEED_X = 1"
definition MOUSE_SPEED_Y :: int where "MOUSE_SPEED_Y = -1"

definition plain_msg :: "message \<Rightarrow> int \<Rightarrow> message" where
  "plain_msg m t = m\<lparr>msg_type := t\<rparr>"

definition point_msg :: "message \<Rightarrow> int \<Rightarrow> int \<Rightarrow> int \<Rightarrow> message" where
  "point_msg m t x y = m\<lparr>msg_type := t, params := (params m)(0 := x, 1 := y)\<rparr>"

text \<open>The mouse position relative to the focused window, sent to it.\<close>

definition post_to_focus :: "message \<Rightarrow> wm \<Rightarrow> message \<Rightarrow> wm res" where
  "post_to_focus m0 s msg =
     rbind (get_slot s (windowlisttail s)) (\<lambda>c.
       post s (windowlisttail s)
         (point_msg m0 (msg_type msg) (mouse_x s - xmin (position (wnd c))) (mouse_y s - ymin (position (wnd c)))))"

text \<open>The three parts of the dock: the bar of a program, the show-desktop area, the start icon.\<close>

definition dock_pick :: "(nat \<Rightarrow> message) \<Rightarrow> int \<Rightarrow> int \<Rightarrow> int \<Rightarrow> wm \<times> int \<Rightarrow> ((wm \<times> int) \<times> bool) res" where
  "dock_pick junk x barWidth p st =
     (let t = fst st; xStart = snd st
      in if p \<noteq> desktopId t then
           if x > xStart + 1 \<and> x \<le> xStart + barWidth - 1 then
             rbind (get_slot t p) (\<lambda>c.
             rbind (if minimized (wnd c) \<noteq> 0
                    then post t p (plain_msg (junk 279) WM_WINDOW_MAXIMIZE)
                    else focusWindow t p) (\<lambda>t'.
             brk (t', xStart)))
           else cont (t, xStart + barWidth)
         else cont (t, xStart))"

definition dock_minimize :: "(nat \<Rightarrow> message) \<Rightarrow> int \<Rightarrow> wm \<Rightarrow> (wm \<times> bool) res" where
  "dock_minimize junk p t =
     (if p \<noteq> desktopId t
      then rbind (get_slot t p) (\<lambda>c.
             if minimized (wnd c) = 0
             then cont_res (post t p (plain_msg (junk 301) WM_WINDOW_MINIMIZE))
             else cont t)
      else cont t)"

definition handleDesktopDockClick :: "(nat \<Rightarrow> message) \<Rightarrow> wm \<Rightarrow> int \<Rightarrow> message \<Rightarrow> wm res" where
  "handleDesktopDockClick junk s x msg =
     rbind (getWindowCount MAX_WINDOW_CNT s) (\<lambda>windowCount.
     rbind
       (if windowCount > 0 then
          let barWidth = min_c ((SCREEN_WIDTH s - START_ICON_WIDTH - SHOW_DESKTOP_ICON_WIDTH) sdiv (windowCount + 1))
                               DOCK_PROGRAM_NORMAL_WIDTH
          in rbind (up_from_head MAX_WINDOW_CNT (dock_pick junk x barWidth) fst s (s, START_ICON_WIDTH + 5))
               (\<lambda>(st, p). Inr (fst st))
        else Inr s) (\<lambda>s1.
     rbind
       (if x \<ge> SCREEN_WIDTH s1 - SHOW_DESKTOP_ICON_WIDTH
        then rbind (up_from_head MAX_WINDOW_CNT (dock_minimize junk) (\<lambda>t. t) s1 s1) (\<lambda>(t, p). Inr t)
        else Inr s1) (\<lambda>s2.
     if x \<le> START_ICON_WIDTH \<and> msg_type msg = M_MOUSE_LEFT_CLICK \<and> caller (popupwindow s2) \<noteq> desktopId s2
     then post s2 (desktopId s2) (point_msg (junk 312) (msg_type msg) (mouse_x s2) (mouse_y s2))
     else Inr s2)))"

subsection \<open>Mouse and keyboard events\<close>

definition wm_track :: "wm \<Rightarrow> message \<Rightarrow> wm" where
  "wm_track s msg =
     (let s1 = s\<lparr>last_x := mouse_x s, last_y := mouse_y s\<rparr>;
          s2 = (if params msg 0 > - SCREEN_WIDTH s1 \<and> params msg 0 < SCREEN_WIDTH s1 then
                  if params msg 1 > - SCREEN_HEIGHT s1 \<and> params msg 0 < SCREEN_HEIGHT s1
                  then s1\<lparr>mouse_x := mouse_x s1 + params msg 0 * MOUSE_SPEED_X,
                          mouse_y := mouse_y s1 + params msg 1 * MOUSE_SPEED_Y\<rparr>
                  else s1
                else s1);
          s3 = (if mouse_x s2 > SCREEN_WIDTH s2 then s2\<lparr>mouse_x := SCREEN_WIDTH s2\<rparr> else s2);
          s4 = (if mouse_y s3 > SCREEN_HEIGHT s3 then s3\<lparr>mouse_y := SCREEN_HEIGHT s3\<rparr> else s3);
          s5 = (if mouse_x s4 < 0 then s4\<lparr>mouse_x := 0\<rparr> else s4)
      in if mouse_y s5 < 0 then s5\<lparr>mouse_y := 0\<rparr> else s5)"

definition wm_mouse_move :: "(nat \<Rightarrow> message) \<Rightarrow> wm \<Rightarrow> message \<Rightarrow> wm res" where
  "wm_mouse_move junk s0 msg =
     (let s = wm_track s0 msg
      in if clickedOnTitle s \<noteq> 0
         then moveFocusWindow (s\<lparr>mouseShape := 1\<rparr>) (mouse_x s - last_x s) (mouse_y s - last_y s)
         else if clickedOnContent s \<noteq> 0 then post_to_focus (junk 326) s msg
         else Inr s)"

definition hits :: "wm \<Rightarrow> int \<Rightarrow> win_slot \<Rightarrow> bool" where
  "hits s p c \<longleftrightarrow> p \<noteq> desktopId s \<and> minimized (wnd c) \<noteq> 1 \<and>
     isInRect (xmin (position (wnd c))) (ymin (position (wnd c)) - TITLE_HEIGHT)
       (xmax (position (wnd c))) (ymax (position (wnd c))) (mouse_x s) (mouse_y s)"

definition wm_focus_hit :: "wm \<Rightarrow> wm res" where
  "wm_focus_hit s =
     rbind (down_from_tail MAX_WINDOW_CNT
       (\<lambda>p t. rbind (get_slot t p) (\<lambda>c.
          if hits t p c then rbind (focusWindow t p) brk else cont t)) (\<lambda>t. t) s s) (\<lambda>(t, p).
     if p = -1 then focusWindow t (desktopId t) else Inr t)"

text \<open>The two parts of a press on the focused window, whose rectangle is \<open>r\<close>: title bar and content.\<close>

definition press_title :: "(nat \<Rightarrow> message) \<Rightarrow> wm \<Rightarrow> win_rect \<Rightarrow> wm res" where
  "press_title junk s r =
     (if isInRect (xmin r) (ymin r - TITLE_HEIGHT) (xmax r) (ymin r) (mouse_x s) (mouse_y s) then
        if mouse_x s + 30 > xmax r
        then post s (windowlisttail s) (plain_msg (junk 326) WM_WINDOW_CLOSE)
        else if mouse_x s + 60 > xmax r \<and> mouse_x s + 30 \<le> xmax r
        then post s (windowlisttail s) (plain_msg (junk 326) WM_WINDOW_MINIMIZE)
        else Inr (s\<lparr>clickedOnTitle := 1\<rparr>)
      else Inr s)"

definition press_content :: "(nat \<Rightarrow> message) \<Rightarrow> wm \<Rightarrow> win_rect \<Rightarrow> message \<Rightarrow> wm res" where
  "press_content junk s r msg =
     (if isInRect (xmin r) (ymin r) (xmax r) (ymax r) (mouse_x s) (mouse_y s)
      then let s2 = s\<lparr>clickedOnContent := 1\<rparr>; pr = position (pop_wnd (popupwindow s2))
           in post s2 (windowlisttail s2)
                (point_msg (junk 326) (msg_type msg) (mouse_x s2 - xmin pr) (mouse_y s2 - ymin pr))
      else Inr s)"

definition wm_press_focused :: "(nat \<Rightarrow> message) \<Rightarrow> wm \<Rightarrow> message \<Rightarrow> wm res" where
  "wm_press_focused junk s msg =
     rbind (get_slot s (windowlisttail s)) (\<lambda>c.
     rbind (press_title junk s (position (wnd c))) (\<lambda>s1.
     press_content junk s1 (position (wnd c)) msg))"

definition in_popup :: "wm \<Rightarrow> bool" where
  "in_popup s \<longleftrightarrow> caller (popupwindow s) \<noteq> -1 \<and>
     (let r = position (pop_wnd (popupwindow s))
      in isInRect (xmin r) (ymin r) (xmax r) (ymax r) (mouse_x s) (mouse_y s))"

definition wm_mouse_down :: "(nat \<Rightarrow> message) \<Rightarrow> wm \<Rightarrow> message \<Rightarrow> wm res" where
  "wm_mouse_down junk s msg =
     (if in_popup s then Inr (s\<lparr>clickedOnPopup := 1\<rparr>)
      else rbind (post_popup s (plain_msg (junk 371) WM_WINDOW_CLOSE)) (\<lambda>s1.
           rbind (wm_focus_hit s1) (\<lambda>s2.
           wm_press_focused junk s2 msg)))"

definition wm_mouse_up :: "(nat \<Rightarrow> message) \<Rightarrow> wm \<Rightarrow> message \<Rightarrow> wm res" where
  "wm_mouse_up junk s msg =
     (let s1 = (if clickedOnPopup s \<noteq> 0 then s\<lparr>clickedOnPopup := 0\<rparr> else s)
      in rbind (if clickedOnContent s1 \<noteq> 0
                then post_to_focus (junk 326) (s1\<lparr>clickedOnContent := 0\<rparr>) msg
                else Inr s1) (\<lambda>s2.
         let s3 = (if clickedOnTitle s2 \<noteq> 0 then s2\<lparr>clickedOnTitle := 0\<rparr> else s2)
         in Inr (s3\<lparr>mouseShape := 0\<rparr>)))"

definition wm_mouse_click :: "(nat \<Rightarrow> message) \<Rightarrow> wm \<Rightarrow> message \<Rightarrow> wm res" where
  "wm_mouse_click junk s msg =
     rbind
       (if clickedOnPopup s \<noteq> 0 then
          let s1 = s\<lparr>clickedOnPopup := 0\<rparr>; pr = position (pop_wnd (popupwindow s1))
          in post_popup s1
               (point_msg (junk 326) (msg_type msg) (mouse_x s1 - xmin pr) (mouse_y s1 - ymin pr))
        else if clickedOnContent s \<noteq> 0 then
          let s1 = s\<lparr>clickedOnContent := 0\<rparr>
          in if windowlisttail s1 = desktopId s1 \<and> mouse_y s1 \<ge> SCREEN_HEIGHT s1 - DOCK_HEIGHT \<and>
                mouse_y s1 \<le> SCREEN_HEIGHT s1
             then handleDesktopDockClick junk s1 (mouse_x s1) msg
             else post_to_focus (junk 326) s1 msg
        else Inr s) (\<lambda>s2. wm_mouse_up junk s2 msg)"

definition wmHandleMessage :: "(nat \<Rightarrow> message) \<Rightarrow> wm \<Rightarrow> message \<Rightarrow> wm res" where
  "wmHandleMessage junk s msg =
     (if msg_type msg = M_MOUSE_MOVE then wm_mouse_move junk s msg
      else if msg_type msg = M_MOUSE_DOWN then wm_mouse_down junk s msg
      else if msg_type msg = M_MOUSE_LEFT_CLICK \<or> msg_type msg = M_MOUSE_RIGHT_CLICK \<or>
              msg_type msg = M_MOUSE_DBCLICK then wm_mouse_click junk s msg
      else if msg_type msg = M_MOUSE_UP then wm_mouse_up junk s msg
      else if msg_type msg = M_KEY_DOWN \<or> msg_type msg = M_KEY_UP then post s (windowlisttail s) msg
      else Inr s)"

subsection \<open>Creating, closing, minimising, raising\<close>

text \<open>The requested position if it lies on the screen and has the window's size.\<close>

definition fits_screen :: "wm \<Rightarrow> window \<Rightarrow> bool" where
  "fits_screen s w \<longleftrightarrow>
     (let r = initialPosition w
      in xmin r \<ge> 0 \<and> xmax r \<le> SCREEN_WIDTH s \<and> ymin r \<ge> 0 \<and> ymax r \<le> SCREEN_HEIGHT s \<and>
         xmax r - xmin r = w_width w \<and> ymax r - ymin r = w_height w)"

text \<open>\<open>memmove(title, arg, len)\<close> with \<open>len\<close> capped at the size of the array.\<close>

definition copy_title :: "byte list \<Rightarrow> byte list \<Rightarrow> byte list" where
  "copy_title arg old =
     (let len = (if length arg \<ge> MAX_TITLE_LEN then MAX_TITLE_LEN else length arg)
      in take len arg @ drop len old)"

definition createWindow :: "wm \<Rightarrow> int \<Rightarrow> window \<Rightarrow> byte list \<Rightarrow> (wm \<times> window \<times> int) res" where
  "createWindow s myproc w arg =
     rbind (findNextAvailableWindowId s) (\<lambda>winId.
     if winId = -1 then Inr (s, w, 1)
     else
       let s1 = (if windowlisthead s = -1 then s\<lparr>windowlisthead := winId\<rparr> else s)
       in rbind (addToWindowList s1 winId) (\<lambda>s2.
       let s3 = (if desktopId s2 = -1 then s2\<lparr>desktopId := winId\<rparr> else s2);
           r = initialPosition w;
           place = (\<lambda>p. if fits_screen s3 w
                       then createRectByCoord p (xmin r) (ymin r) (xmax r) (ymax r)
                       else createRectByCoord p
                              (SCREEN_WIDTH s3 sdiv 2 - w_width w sdiv 2) (SCREEN_HEIGHT s3 sdiv 2 - w_height w sdiv 2)
                              (SCREEN_WIDTH s3 sdiv 2 + w_width w sdiv 2) (SCREEN_HEIGHT s3 sdiv 2 + w_height w sdiv 2))
       in rbind (mod_slot s3 winId (\<lambda>c. c\<lparr>slot_proc := myproc,
             wnd := (wnd c)\<lparr>position := place (position (wnd c)), window_buf := w_window_buf w,
                           minimized := 0, hasTitleBar := w_hasTitleBar w,
                           kw_msg_buf := initMessageQueue (kw_msg_buf (wnd c)),
                           title := copy_title arg (title (wnd c))\<rparr>\<rparr>)) (\<lambda>s4.
          Inr (s4, w\<lparr>handler := winId\<rparr>, 0))))"

definition createPopupWindow :: "wm \<Rightarrow> int \<Rightarrow> window \<Rightarrow> int \<Rightarrow> wm \<times> window \<times> int" where
  "createPopupWindow s myproc w clr =
     (if caller (popupwindow s) \<noteq> -1 then (s, w, 1)
      else
        let r = initialPosition w;
            place = (\<lambda>p. if fits_screen s w then createRectByCoord p (xmin r) (ymin r) (xmax r) (ymax r) else p);
            kw = pop_wnd (popupwindow s)
        in (s\<lparr>popupwindow := \<lparr>pop_proc = myproc,
               pop_wnd = kw\<lparr>position := place (position kw), window_buf := w_window_buf w, minimized := 0,
                            hasTitleBar := w_hasTitleBar w, kw_msg_buf := initMessageQueue (kw_msg_buf kw)\<rparr>,
               caller = clr\<rparr>\<rparr>, w\<lparr>handler := clr\<rparr>, 0))"

definition closePopupWindow :: "wm \<Rightarrow> window \<Rightarrow> wm \<times> window \<times> int" where
  "closePopupWindow s w =
     (let kw = pop_wnd (popupwindow s)
      in (s\<lparr>popupwindow := (popupwindow s)\<lparr>caller := -1,
             pop_wnd := kw\<lparr>kw_msg_buf := initMessageQueue (kw_msg_buf kw),
                           title := replicate MAX_TITLE_LEN 0\<rparr>\<rparr>\<rparr>, w\<lparr>handler := -1\<rparr>, 0))"

definition closeWindow :: "wm \<Rightarrow> window \<Rightarrow> (wm \<times> window \<times> int) res" where
  "closeWindow s w =
     (let winId = handler w
      in rbind (removeFromWindowList s winId) (\<lambda>s1.
         rbind (mod_slot s1 winId (\<lambda>c. c\<lparr>slot_prev := winId, slot_next := winId\<rparr>)) (\<lambda>s2.
         rbind (mod_slot s2 winId (upd_wnd (\<lambda>k. k\<lparr>kw_msg_buf := initMessageQueue (kw_msg_buf k),
                                                   title := replicate MAX_TITLE_LEN 0\<rparr>))) (\<lambda>s3.
         rbind (if winId = windowlisttail s3
                then rbind (get_slot s3 winId) (\<lambda>c. focusWindow s3 (slot_prev c))
                else Inr s3) (\<lambda>s4.
         Inr (s4, w\<lparr>handler := -1\<rparr>, 0))))))"

definition minimizeWindow :: "wm \<Rightarrow> window \<Rightarrow> (wm \<times> int) res" where
  "minimizeWindow s w =
     (let winId = handler w
      in rbind (mod_slot s winId (upd_wnd (\<lambda>k. k\<lparr>minimized := 1\<rparr>))) (\<lambda>s1.
         rbind (if winId = windowlisttail s1
                then rbind (get_slot s1 winId) (\<lambda>c. focusWindow s1 (slot_prev c))
                else Inr s1) (\<lambda>s2. Inr (s2, 0))))"

definition maximizeWindow :: "wm \<Rightarrow> window \<Rightarrow> (wm \<times> int) res" where
  "maximizeWindow s w =
     (let winId = handler w
      in rbind (mod_slot s winId (upd_wnd (\<lambda>k. k\<lparr>minimized := 0\<rparr>))) (\<lambda>s1.
         rbind (focusWindow s1 winId) (\<lambda>s2. Inr (s2, 0))))"

text \<open>\<open>turnoffScreen\<close> up to the clearing of the frame buffer.\<close>

definition turnoffScreen :: "(nat \<Rightarrow> message) \<Rightarrow> wm \<Rightarrow> wm res" where
  "turnoffScreen junk s =
     rbind (up_from_head MAX_WINDOW_CNT
       (\<lambda>p t. cont_res (post t p (plain_msg (junk 770) WM_WINDOW_CLOSE))) (\<lambda>t. t) s s) (\<lambda>(t, p). Inr t)"

subsection \<open>System calls\<close>

text \<open>
  The arguments are those fetched by \<open>argint\<close> and \<open>argptr\<close>, whose results the code ignores; a
  handle \<open>h\<close> comes from the user program unchecked.

  The polls \<open>sys_GUI_getMessage\<close> and \<open>sys_GUI_getPopupMessage\<close> test owner and count without \<open>wmlock\<close>. What is below under
  their names are these tests: they return 1 (\<open>None\<close>), or go on to take the lock for a queue. \<open>take_message\<close> is the section under
  the lock, behind which the call copies the message and returns 0. Between the two, anything else can happen.
\<close>

datatype poll = WindowQueue int | PopupQueue

definition sys_GUI_getMessage :: "wm \<Rightarrow> int \<Rightarrow> int \<Rightarrow> poll option res" where
  "sys_GUI_getMessage s myproc h =
     rbind (get_slot s h) (\<lambda>c.
     if myproc \<noteq> slot_proc c then Inr None
     else if mb_cnt (kw_msg_buf (wnd c)) = 0 then Inr None
     else Inr (Some (WindowQueue h)))"

definition sys_GUI_getPopupMessage :: "wm \<Rightarrow> poll option" where
  "sys_GUI_getPopupMessage s =
     (if caller (popupwindow s) = -1 then None
      else if mb_cnt (kw_msg_buf (pop_wnd (popupwindow s))) = 0 then None
      else Some PopupQueue)"

definition take_message :: "wm \<Rightarrow> poll \<Rightarrow> (wm \<times> message) res" where
  "take_message s q = (case q of
     WindowQueue h \<Rightarrow>
       rbind (get_slot s h) (\<lambda>c.
       rbind (getMessage_locked (kw_msg_buf (wnd c))) (\<lambda>(b, m).
       rbind (mod_slot s h (upd_wnd (\<lambda>k. k\<lparr>kw_msg_buf := b\<rparr>))) (\<lambda>s1. Inr (s1, m))))
   | PopupQueue \<Rightarrow>
       rbind (getMessage_locked (kw_msg_buf (pop_wnd (popupwindow s)))) (\<lambda>(b, m).
       Inr (upd_popup (\<lambda>k. k\<lparr>kw_msg_buf := b\<rparr>) s, m)))"

text \<open>
  One step of the window manager: an event from the devices, a system call, or one of the two steps of a poll. Beside the window
  manager stand the polls of processes that have made the first step and not the second.
\<close>

datatype wm_op =
    Event message
  | CreateWindow int window "byte list"
  | CreatePopup int window int
  | ClosePopup window
  | CloseWindow window
  | MinimizeWindow window
  | MaximizeWindow window
  | GetMessage int int
  | GetPopupMessage int
  | TakeMessage int
  | TurnoffScreen

type_synonym wm_polls = "wm \<times> (int \<Rightarrow> poll option)"

definition wm_step :: "(nat \<Rightarrow> message) \<Rightarrow> wm_op \<Rightarrow> wm_polls \<Rightarrow> wm_polls res" where
  "wm_step junk op sp = (let (s, pd) = sp; same = (\<lambda>s'. Inr (s', pd)) in case op of
     Event m \<Rightarrow> rbind (wmHandleMessage junk s m) same
   | CreateWindow p w t \<Rightarrow> rbind (createWindow s p w t) (\<lambda>(s', w', r). same s')
   | CreatePopup p w c \<Rightarrow> same (fst (createPopupWindow s p w c))
   | ClosePopup w \<Rightarrow> same (fst (closePopupWindow s w))
   | CloseWindow w \<Rightarrow> rbind (closeWindow s w) (\<lambda>(s', w', r). same s')
   | MinimizeWindow w \<Rightarrow> rbind (minimizeWindow s w) (\<lambda>(s', r). same s')
   | MaximizeWindow w \<Rightarrow> rbind (maximizeWindow s w) (\<lambda>(s', r). same s')
   | GetMessage p h \<Rightarrow> rbind (sys_GUI_getMessage s p h) (\<lambda>q. Inr (s, pd(p := q)))
   | GetPopupMessage p \<Rightarrow> Inr (s, pd(p := sys_GUI_getPopupMessage s))
   | TakeMessage p \<Rightarrow> (case pd p of
         None \<Rightarrow> Inr (s, pd)
       | Some q \<Rightarrow> rbind (take_message s q) (\<lambda>(s', m). Inr (s', pd(p := None))))
   | TurnoffScreen \<Rightarrow> rbind (turnoffScreen junk s) same)"

end
