(* ===== verification/WM_Correct.thy ===== *)
theory WM_Correct
  imports WindowManager
begin

text \<open>
  Correctness of the window manager: its well-formedness \<open>wm_ok\<close> (the list is a stack of distinct
  slots that holds the desktop, every message queue is a proper ring, titles fill their
  arrays), preservation by every event and system call, and what each does to the stack and to
  the message queues. The lemmas are stated over the stack of slot numbers, bottom to top.
\<close>

subsection \<open>Well-formedness\<close>

definition wnd_ok :: "kernel_window \<Rightarrow> bool" where
  "wnd_ok w \<longleftrightarrow> mb_inv (kw_msg_buf w) \<and> length (title w) = 50"

definition wm_bufs :: "wm \<Rightarrow> bool" where
  "wm_bufs s \<longleftrightarrow> (\<forall>c \<in> set (windowlist s). wnd_ok (wnd c)) \<and> wnd_ok (pop_wnd (popupwindow s))"

definition wm_ok :: "wm \<Rightarrow> nat list \<Rightarrow> bool" where
  "wm_ok s ids \<longleftrightarrow> wm_rep s ids \<and> wm_bufs s \<and> desktopId s \<in> int ` set ids"

definition popup_inbox :: "wm \<Rightarrow> message list" where
  "popup_inbox s = mb_contents (kw_msg_buf (pop_wnd (popupwindow s)))"

definition inbox :: "wm \<Rightarrow> nat \<Rightarrow> message list" where
  "inbox s i = mb_contents (kw_msg_buf (wnd (windowlist s ! i)))"

text \<open>What a dispatch does to the contents of a queue.\<close>

definition enqueue :: "message \<Rightarrow> message list \<Rightarrow> message list" where
  "enqueue m xs = (if length xs < 50 then xs @ [m] else xs)"

lemma dispatch_spec:
  assumes "mb_inv b"
  shows "\<exists>b' r. dispatchMessage b m = Inr (b', r) \<and> mb_inv b' \<and> mb_contents b' = enqueue m (mb_contents b)"
proof (cases "mb_cnt b < 50")
  case True
  then have "length (mb_contents b) < 50" using mb_length [OF assms] assms by (simp add: mb_inv_def)
  then show ?thesis using dispatch_room [OF assms True, of m] by (auto simp: enqueue_def)
next
  case False
  then have "\<not> length (mb_contents b) < 50" using mb_length [OF assms] by simp
  then show ?thesis using dispatch_full [of b m] False assms by (auto simp: enqueue_def)
qed

subsection \<open>Updates of one window\<close>

definition upd_at :: "wm \<Rightarrow> nat \<Rightarrow> (kernel_window \<Rightarrow> kernel_window) \<Rightarrow> wm" where
  "upd_at s i f = s\<lparr>windowlist := (windowlist s)[i := upd_wnd f (windowlist s ! i)]\<rparr>"

lemma upd_at_rep [simp]: "wm_rep (upd_at s i f) ids = wm_rep s ids"
  by (simp add: wm_rep_def upd_at_def cells_rep_def links_of_same upd_wnd_def)

lemma upd_at_bufs:
  assumes "wm_bufs s" and "i < length (windowlist s)" and "wnd_ok (wnd (windowlist s ! i)) \<Longrightarrow> wnd_ok (f (wnd (windowlist s ! i)))"
  shows "wm_bufs (upd_at s i f)"
  using assms by (auto simp: wm_bufs_def upd_at_def upd_wnd_def dest!: set_update_subset_insert [THEN subsetD])

lemma upd_at_rest [simp]:
  "desktopId (upd_at s i f) = desktopId s" "popupwindow (upd_at s i f) = popupwindow s"
  "windowlisttail (upd_at s i f) = windowlisttail s" "windowlisthead (upd_at s i f) = windowlisthead s"
  "wm_rest (upd_at s i f) = wm_rest s" "length (windowlist (upd_at s i f)) = length (windowlist s)"
  by (simp_all add: upd_at_def wm_rest_def)

lemma upd_at_wnd: "i < length (windowlist s) \<Longrightarrow>
  wnd (windowlist (upd_at s i f) ! j) = (if j = i then f (wnd (windowlist s ! i)) else wnd (windowlist s ! j))"
  by (simp add: upd_at_def upd_wnd_def)

lemma mod_wnd_eval: "i < length (windowlist s) \<Longrightarrow> mod_slot s (int i) (upd_wnd f) = Inr (upd_at s i f)"
  by (simp add: upd_at_def)

lemma same_wnds_bufs:
  assumes "same_wnds s s'" and "wm_bufs s"
  shows "wm_bufs s'"
proof -
  have "wnd_ok (wnd c)" if "c \<in> set (windowlist s')" for c
  proof -
    obtain i where i: "i < length (windowlist s')" "windowlist s' ! i = c"
      using \<open>c \<in> set (windowlist s')\<close> by (auto simp: in_set_conv_nth)
    then have "i < length (windowlist s)" using same_wnds_length [OF assms(1)] by simp
    then show ?thesis using same_wnds_slot(1) [OF assms(1)] assms(2) i by (auto simp: wm_bufs_def)
  qed
  moreover have "popupwindow s' = popupwindow s" using same_wnds_rest [OF assms(1)] by simp
  ultimately show ?thesis using assms(2) by (simp add: wm_bufs_def)
qed

text \<open>Fields that do not concern the list or the windows.\<close>

definition same_stack :: "wm \<Rightarrow> wm \<Rightarrow> bool" where
  "same_stack s s' \<longleftrightarrow> windowlist s' = windowlist s \<and> windowlisthead s' = windowlisthead s \<and>
     windowlisttail s' = windowlisttail s \<and> popupwindow s' = popupwindow s \<and> desktopId s' = desktopId s"

lemma same_stack_ok: "same_stack s s' \<Longrightarrow> wm_ok s' ids = wm_ok s ids"
  by (simp add: same_stack_def wm_ok_def wm_rep_def wm_bufs_def)

lemma wm_ok_simps [simp]:
  "wm_ok (s\<lparr>mouseShape := a\<rparr>) ids = wm_ok s ids"
  "wm_ok (s\<lparr>clickedOnTitle := a\<rparr>) ids = wm_ok s ids"
  "wm_ok (s\<lparr>clickedOnContent := a\<rparr>) ids = wm_ok s ids"
  "wm_ok (s\<lparr>clickedOnPopup := a\<rparr>) ids = wm_ok s ids"
  "wm_ok (s\<lparr>mouse_x := a\<rparr>) ids = wm_ok s ids"
  "wm_ok (s\<lparr>mouse_y := a\<rparr>) ids = wm_ok s ids"
  "wm_ok (s\<lparr>last_x := a\<rparr>) ids = wm_ok s ids"
  "wm_ok (s\<lparr>last_y := a\<rparr>) ids = wm_ok s ids"
  by (simp_all add: wm_ok_def wm_rep_def wm_bufs_def)

lemma ok_rep: "wm_ok s ids \<Longrightarrow> wm_rep s ids"
  by (simp add: wm_ok_def)

lemma ok_len: "wm_ok s ids \<Longrightarrow> length (windowlist s) = 50"
  using rep_length [OF ok_rep] .

lemma ok_bufs: "wm_ok s ids \<Longrightarrow> wm_bufs s"
  by (simp add: wm_ok_def)

lemma wm_ok_same:
  assumes "wm_ok s ids" and "same_wnds s s'" and "wm_rep s' ids'" and "set ids' = set ids"
  shows "wm_ok s' ids'"
proof -
  have "wm_bufs s'" by (rule same_wnds_bufs [OF assms(2) ok_bufs [OF assms(1)]])
  moreover have "desktopId s' = desktopId s" using same_wnds_rest [OF assms(2)] by simp
  ultimately show ?thesis using assms(1,3,4) by (simp add: wm_ok_def)
qed

lemma wm_ok_upd:
  assumes "wm_ok s ids" and "i < 50" and "\<And>w. wnd_ok w \<Longrightarrow> wnd_ok (f w)"
  shows "wm_ok (upd_at s i f) ids"
  using assms(1) upd_at_bufs [OF ok_bufs [OF assms(1)], of i f] assms(2,3) ok_len [OF assms(1)]
  by (simp add: wm_ok_def)

lemma ok_wnd: "wm_ok s ids \<Longrightarrow> i < 50 \<Longrightarrow> wnd_ok (wnd (windowlist s ! i))"
  using ok_bufs [of s ids] ok_len [of s ids] by (simp add: wm_bufs_def)

lemma ok_range: "wm_ok s ids \<Longrightarrow> i \<in> set ids \<Longrightarrow> in_range (int i) (windowlist s)"
  using rep_in_range [OF ok_rep] .

lemma ok_bound: "wm_ok s ids \<Longrightarrow> i \<in> set ids \<Longrightarrow> i < 50"
  using rep_bound [OF ok_rep] .

lemma ok_nonempty: "wm_ok s ids \<Longrightarrow> ids \<noteq> []"
  by (auto simp: wm_ok_def)

lemma ok_tail:
  assumes "wm_ok s ids"
  shows "windowlisttail s = int (last ids) \<and> last ids \<in> set ids"
proof -
  have "windowlisttail s = lasti ids (-1)" using ok_rep [OF assms] by (simp add: wm_rep_def)
  then show ?thesis using ok_nonempty [OF assms] by (simp add: lasti_def)
qed

subsection \<open>Posting messages\<close>

lemma post_eval:
  assumes "wm_ok s ids" and "i < 50"
  shows "\<exists>b. post s (int i) m = Inr (upd_at s i (\<lambda>w. w\<lparr>kw_msg_buf := b\<rparr>)) \<and> mb_inv b \<and>
    mb_contents b = enqueue m (inbox s i)"
proof -
  have r: "i < length (windowlist s)" using assms(2) ok_len [OF assms(1)] by simp
  obtain b k where "dispatchMessage (kw_msg_buf (wnd (windowlist s ! i))) m = Inr (b, k)" "mb_inv b"
    "mb_contents b = enqueue m (inbox s i)"
    using dispatch_spec ok_wnd [OF assms] by (fastforce simp: wnd_ok_def inbox_def)
  then show ?thesis using r mod_wnd_eval [OF r] by (auto simp: post_def)
qed

lemma post_spec:
  assumes "wm_ok s ids" and "i < 50"
  shows "\<exists>s'. post s (int i) m = Inr s' \<and> wm_ok s' ids \<and> wm_rest s' = wm_rest s \<and>
    windowlisttail s' = windowlisttail s \<and>
    (\<forall>j<50. inbox s' j = (if j = i then enqueue m (inbox s i) else inbox s j)) \<and>
    (\<forall>j<50. position (wnd (windowlist s' ! j)) = position (wnd (windowlist s ! j)) \<and>
       minimized (wnd (windowlist s' ! j)) = minimized (wnd (windowlist s ! j)))"
proof -
  have r: "i < length (windowlist s)" using assms(2) ok_len [OF assms(1)] by simp
  obtain b where b: "post s (int i) m = Inr (upd_at s i (\<lambda>w. w\<lparr>kw_msg_buf := b\<rparr>))" "mb_inv b"
    "mb_contents b = enqueue m (inbox s i)"
    using post_eval [OF assms] by blast
  moreover have "wm_ok (upd_at s i (\<lambda>w. w\<lparr>kw_msg_buf := b\<rparr>)) ids"
    by (rule wm_ok_upd [OF assms]) (use b(2) in \<open>simp add: wnd_ok_def\<close>)
  ultimately show ?thesis using r by (simp add: inbox_def upd_at_wnd)
qed

lemma post_popup_spec:
  assumes "wm_ok s ids"
  shows "\<exists>s'. post_popup s m = Inr s' \<and> wm_ok s' ids \<and> windowlist s' = windowlist s \<and>
    windowlisttail s' = windowlisttail s \<and> windowlisthead s' = windowlisthead s \<and> desktopId s' = desktopId s \<and>
    mouse_x s' = mouse_x s \<and> mouse_y s' = mouse_y s \<and> SCREEN_WIDTH s' = SCREEN_WIDTH s \<and>
    SCREEN_HEIGHT s' = SCREEN_HEIGHT s \<and> clickedOnTitle s' = clickedOnTitle s \<and>
    clickedOnContent s' = clickedOnContent s \<and> clickedOnPopup s' = clickedOnPopup s \<and>
    caller (popupwindow s') = caller (popupwindow s) \<and> position (pop_wnd (popupwindow s')) = position (pop_wnd (popupwindow s)) \<and>
    popup_inbox s' = enqueue m (popup_inbox s)"
proof -
  have "mb_inv (kw_msg_buf (pop_wnd (popupwindow s)))" using assms by (simp add: wm_ok_def wm_bufs_def wnd_ok_def)
  from dispatch_spec [OF this, of m] obtain b k where
    "dispatchMessage (kw_msg_buf (pop_wnd (popupwindow s))) m = Inr (b, k)" "mb_inv b" "mb_contents b = enqueue m (popup_inbox s)"
    unfolding popup_inbox_def by blast
  then show ?thesis using assms
    by (auto simp: popup_inbox_def post_popup_def upd_popup_def wm_ok_def wm_bufs_def wnd_ok_def wm_rep_def)
qed

subsection \<open>Raising windows\<close>

definition raise :: "nat \<Rightarrow> nat list \<Rightarrow> nat list" where
  "raise w ids = remove1 w ids @ [w]"

lemma raise_split: "w \<notin> set xs \<Longrightarrow> raise w (xs @ w # ys) = xs @ ys @ [w]"
  by (simp add: raise_def remove1_append)

lemma set_raise: "w \<in> set ids \<Longrightarrow> distinct ids \<Longrightarrow> set (raise w ids) = set ids"
  by (auto simp: raise_def)

lemma raise_id [simp]: "ids \<noteq> [] \<Longrightarrow> distinct ids \<Longrightarrow> raise (last ids) ids = ids"
  by (cases ids rule: rev_cases) (simp_all add: raise_def remove1_append)

lemma focus_ok:
  assumes "wm_ok s ids" and "w \<in> set ids"
  shows "\<exists>s'. focusWindow s (int w) = Inr s' \<and> wm_ok s' (raise w ids) \<and> same_wnds s s'"
proof -
  obtain xs ys where ids: "ids = xs @ w # ys" using assms(2) by (meson split_list)
  have d: "distinct ids" by (rule rep_distinct [OF ok_rep [OF assms(1)]])
  obtain s' where s': "focusWindow s (int w) = Inr s'" "wm_rep s' (xs @ ys @ [w])" "same_wnds s s'"
    using focus_spec ok_rep [OF assms(1)] ids by blast
  have "raise w ids = xs @ ys @ [w]" using d ids by (simp add: raise_split)
  then show ?thesis using s' wm_ok_same [OF assms(1) s'(3)] set_raise [OF assms(2) d] by metis
qed

subsection \<open>Searching the stack from the top\<close>

text \<open>The window a press of the mouse goes to: the topmost visible one hit, or the desktop.\<close>

definition hit_at :: "wm \<Rightarrow> nat \<Rightarrow> bool" where
  "hit_at s i \<longleftrightarrow> hits s (int i) (windowlist s ! i)"

definition target :: "wm \<Rightarrow> nat list \<Rightarrow> nat" where
  "target s ids = (case List.find (hit_at s) (rev ids) of Some i \<Rightarrow> i | None \<Rightarrow> nat (desktopId s))"

lemma target_in: "wm_ok s ids \<Longrightarrow> target s ids \<in> set ids"
  by (auto simp: target_def wm_ok_def find_Some_iff split: option.split)
    (metis nth_mem set_rev length_rev)

lemma focus_hit_spec:
  assumes "wm_ok s ids"
  shows "\<exists>s'. wm_focus_hit s = Inr s' \<and> wm_ok s' (raise (target s ids) ids) \<and> same_wnds s s'"
proof -
  let ?body = "\<lambda>p t. rbind (get_slot t p) (\<lambda>c. if hits t p c then rbind (focusWindow t p) brk else cont t)"
  have body: "?body (int i) s = (if hit_at s i then rbind (focusWindow s (int i)) brk else cont s)"
    if "i \<in> set ids" for i
    using ok_range [OF assms that] by (simp add: hit_at_def)
  have "down_from_tail MAX_WINDOW_CNT ?body (\<lambda>t. t) s s = for_cells ?body (rev ids) s"
  proof (rule down_spec [OF ok_rep [OF assms]])
    show "50 \<le> MAX_WINDOW_CNT" by (simp add: MAX_WINDOW_CNT_def)
    show "?body (int i) s = cont s \<or> (\<exists>r. ?body (int i) s = r \<and> (\<forall>s'. r \<noteq> Inr (s', False)))"
      if "i \<in> set ids" for i
      using body [OF that] by (cases "focusWindow s (int i)") (simp_all add: brk_def)
  qed
  also have "\<dots> = (case List.find (hit_at s) (rev ids) of None \<Rightarrow> Inr (s, -1)
      | Some i \<Rightarrow> rbind (focusWindow s (int i)) (\<lambda>s'. Inr (s', int i)))"
    by (rule scan_down) (use body in auto)
  finally have loop: "down_from_tail MAX_WINDOW_CNT ?body (\<lambda>t. t) s s = \<dots>" .
  have "wm_focus_hit s = focusWindow s (int (target s ids))"
  proof (cases "List.find (hit_at s) (rev ids)")
    case None
    moreover have "desktopId s = int (nat (desktopId s))" using assms by (auto simp: wm_ok_def)
    ultimately show ?thesis unfolding wm_focus_hit_def loop by (simp add: target_def)
  next
    case (Some i)
    then show ?thesis unfolding wm_focus_hit_def loop
      by (cases "focusWindow s (int i)") (simp_all add: target_def)
  qed
  then show ?thesis using focus_ok [OF assms target_in [OF assms]] by simp
qed

subsection \<open>Each event preserves well-formedness\<close>

lemma post_ok: "wm_ok s ids \<Longrightarrow> i \<in> set ids \<Longrightarrow> ok (post s (int i) m) (\<lambda>s'. wm_ok s' ids)"
  using post_spec [of s ids i m] ok_bound [of s ids i] by (auto simp: ok_def)

lemma post_tail_ok: "wm_ok s ids \<Longrightarrow> ok (post s (windowlisttail s) m) (\<lambda>s'. wm_ok s' ids)"
  using post_ok [of s ids "last ids" m] ok_tail [of s ids] by simp

lemma post_to_focus_ok: "wm_ok s ids \<Longrightarrow> ok (post_to_focus m0 s msg) (\<lambda>s'. wm_ok s' ids)"
  using post_tail_ok [of s ids] ok_range [of s ids "last ids"] ok_tail [of s ids]
  by (simp add: post_to_focus_def)

lemma moveFocus_ok: "wm_ok s ids \<Longrightarrow> ok (moveFocusWindow s dx dy) (\<lambda>s'. wm_ok s' ids)"
proof -
  assume okw: "wm_ok s ids"
  let ?i = "last ids"
  have t: "windowlisttail s = int ?i" "?i < 50" "?i < length (windowlist s)"
    using ok_tail [OF okw] ok_bound [OF okw] ok_len [OF okw] by auto
  have "wm_ok (upd_at s ?i (\<lambda>w. w\<lparr>position := moveRect (position w) dx dy\<rparr>)) ids"
    by (rule wm_ok_upd [OF okw t(2)]) (simp add: wnd_ok_def)
  then show ?thesis using okw mod_wnd_eval [OF t(3)] t by (simp add: moveFocusWindow_def)
qed

lemma track_ok [simp]: "wm_ok (wm_track s msg) ids = wm_ok s ids"
  by (simp add: wm_track_def Let_def)

lemma mouse_move_ok: "wm_ok s ids \<Longrightarrow> ok (wm_mouse_move junk s msg) (\<lambda>s'. wm_ok s' ids)"
  by (simp add: wm_mouse_move_def Let_def moveFocus_ok post_to_focus_ok)

lemma press_ok:
  assumes "wm_ok s ids"
  shows "ok (wm_press_focused junk s msg) (\<lambda>s'. wm_ok s' ids)"
proof -
  have r: "in_range (windowlisttail s) (windowlist s)" using ok_tail [OF assms] ok_range [OF assms] by simp
  have title: "ok (press_title junk s r) (\<lambda>s'. wm_ok s' ids)" for r
    using post_tail_ok [OF assms] assms by (simp add: press_title_def)
  have content: "ok (press_content junk s1 r msg) (\<lambda>s'. wm_ok s' ids)" if "wm_ok s1 ids" for s1 r
    using post_tail_ok [of "s1\<lparr>clickedOnContent := 1\<rparr>" ids] that by (simp add: press_content_def Let_def)
  show ?thesis
    unfolding wm_press_focused_def get_slot_ok [OF r] rbind_Inr
    by (rule ok_rbind [OF title]) (rule content)
qed

text \<open>Well-formed with the same windows, in some order.\<close>

definition wm_perm :: "nat list \<Rightarrow> wm \<Rightarrow> bool" where
  "wm_perm ids s \<longleftrightarrow> (\<exists>ids'. wm_ok s ids' \<and> set ids' = set ids)"

lemma wm_permI: "wm_ok s ids' \<Longrightarrow> set ids' = set ids \<Longrightarrow> wm_perm ids s"
  by (auto simp: wm_perm_def)

lemma wm_perm_refl: "wm_ok s ids \<Longrightarrow> wm_perm ids s"
  by (auto simp: wm_perm_def)

lemma ok_perm: "ok m (\<lambda>s. wm_ok s ids) \<Longrightarrow> ok m (wm_perm ids)"
  by (auto simp: ok_def intro: wm_perm_refl)

lemma focus_perm: "wm_ok s ids' \<Longrightarrow> set ids' = set ids \<Longrightarrow> w \<in> set ids \<Longrightarrow> ok (focusWindow s (int w)) (wm_perm ids)"
proof -
  assume a: "wm_ok s ids'" "set ids' = set ids" "w \<in> set ids"
  then obtain s' where s': "focusWindow s (int w) = Inr s'" "wm_ok s' (raise w ids')" using focus_ok by blast
  have "set (raise w ids') = set ids" using a set_raise [OF _ rep_distinct [OF ok_rep [OF a(1)]]] by simp
  then show ?thesis using s' by (simp add: wm_permI)
qed

lemma post_perm: "wm_ok s ids' \<Longrightarrow> set ids' = set ids \<Longrightarrow> w \<in> set ids \<Longrightarrow> ok (post s (int w) m) (wm_perm ids)"
  using post_ok [of s ids' w m] by (auto elim!: ok_mono intro: wm_permI)

lemma post_rep: "post s i m = Inr s' \<Longrightarrow> wm_rep s ids \<Longrightarrow> wm_rep s' ids"
proof -
  assume p: "post s i m = Inr s'" and r: "wm_rep s ids"
  show "wm_rep s' ids"
  proof (cases "in_range i (windowlist s)")
    case True
    then have i: "i = int (nat i)" "nat i < length (windowlist s)" by (auto simp: in_range_def)
    obtain b where "s' = upd_at s (nat i) (\<lambda>w. w\<lparr>kw_msg_buf := b\<rparr>)"
      using p True mod_wnd_eval [OF i(2)] i(1) by (auto simp: post_def rbind_eq_Inr upd_at_def)
    then show ?thesis using r by simp
  qed (use p in \<open>simp add: post_def\<close>)
qed

lemma dock_pick_ok:
  assumes "i \<in> set ids" and "wm_perm ids (fst b)"
  shows "ok (dock_pick junk x w (int i) b) (\<lambda>(b', k). wm_perm ids (fst b'))"
proof -
  obtain t y where b: "b = (t, y)" by (cases b)
  obtain ids' where t: "wm_ok t ids'" "set ids' = set ids" using assms(2) b by (auto simp: wm_perm_def)
  have "ok (rbind m (\<lambda>t'. brk (t', y))) (\<lambda>(b', k). wm_perm ids (fst b'))" if "ok m (wm_perm ids)" for m
    by (rule ok_rbind [OF that]) (simp add: brk_def)
  then have "ok (rbind (post t (int i) m) (\<lambda>t'. brk (t', y))) (\<lambda>(b', k). wm_perm ids (fst b'))"
    and "ok (rbind (focusWindow t (int i)) (\<lambda>t'. brk (t', y))) (\<lambda>(b', k). wm_perm ids (fst b'))" for m
    using focus_perm [OF t assms(1)] post_perm [OF t assms(1)] by blast+
  then show ?thesis using ok_range [OF t(1), of i] t(2) assms b by (simp add: dock_pick_def Let_def cont_def)
qed

lemma dock_switch_ok:
  assumes "wm_ok s ids"
  shows "ok (up_from_head MAX_WINDOW_CNT (dock_pick junk x w) fst s (s, x0)) (\<lambda>(b, p). wm_perm ids (fst b))"
proof -
  have "up_from_head MAX_WINDOW_CNT (dock_pick junk x w) fst s (s, x0) = for_cells (dock_pick junk x w) ids (s, x0)"
  proof (rule up_spec)
    show "wm_rep (fst b') ids" if "wm_rep (fst b) ids" "dock_pick junk x w (int i) b = Inr (b', k)" "\<not> k" for i b b' k
      using that by (auto simp: dock_pick_def Let_def cont_def brk_def rbind_eq_Inr split: if_splits)
  qed (use ok_rep [OF assms] in \<open>simp_all add: MAX_WINDOW_CNT_def\<close>)
  moreover have "ok (for_cells (dock_pick junk x w) ids (s, x0)) (\<lambda>(b, p). wm_perm ids (fst b))"
    by (rule for_cells_inv) (use assms in \<open>simp_all add: wm_perm_refl dock_pick_ok\<close>)
  ultimately show ?thesis by simp
qed

text \<open>A loop that posts to some of the windows.\<close>

lemma post_each_ok:
  assumes "wm_ok s ids"
    and body: "\<And>p t. in_range p (windowlist t) \<Longrightarrow> body p t = cont t \<or> body p t = cont_res (post t p m)"
  shows "ok (up_from_head MAX_WINDOW_CNT body (\<lambda>t. t) s s) (\<lambda>(t, p). wm_ok t ids)"
proof -
  have "up_from_head MAX_WINDOW_CNT body (\<lambda>t. t) s s = for_cells body ids s"
  proof (rule up_spec)
    show "wm_rep b' ids" if "i \<in> set ids" "wm_rep b ids" "body (int i) b = Inr (b', k)" for i b b' k
    proof -
      have "wm_rep b' ids" if "cont_res (post b (int i) m) = Inr (b', k)"
        using that \<open>wm_rep b ids\<close> post_rep [of b "int i" m b' ids] by (auto simp: cont_res_def cont_def rbind_eq_Inr)
      then show ?thesis using body [OF rep_in_range [OF that(2,1)]] that(2,3) by (auto simp: cont_def)
    qed
  qed (use ok_rep [OF assms(1)] in \<open>simp_all add: MAX_WINDOW_CNT_def\<close>)
  moreover have "ok (for_cells body ids s) (\<lambda>(t, p). wm_ok t ids)"
  proof (rule for_cells_inv)
    show "ok (body (int i) t) (\<lambda>(t', k). wm_ok t' ids)" if i: "i \<in> set ids" and t: "wm_ok t ids" for i t
      using body [OF ok_range [OF t i]] post_ok [OF t i, of m] t by (auto simp: ok_def cont_def)
  qed (rule assms(1))
  ultimately show ?thesis by simp
qed

lemma dock_minimize_ok:
  assumes "wm_perm ids s"
  shows "ok (up_from_head MAX_WINDOW_CNT (dock_minimize junk) (\<lambda>t. t) s s) (\<lambda>(t, p). wm_perm ids t)"
proof -
  obtain ids' where i: "wm_ok s ids'" "set ids' = set ids" using assms by (auto simp: wm_perm_def)
  have "ok (up_from_head MAX_WINDOW_CNT (dock_minimize junk) (\<lambda>t. t) s s) (\<lambda>(t, p). wm_ok t ids')"
    by (rule post_each_ok [OF i(1)]) (auto simp: dock_minimize_def)
  then show ?thesis by (rule ok_mono) (use i(2) in \<open>auto intro: wm_permI\<close>)
qed

lemma post_desktop_ok:
  assumes "wm_perm ids s"
  shows "ok (post s (desktopId s) m) (wm_perm ids)"
proof -
  obtain ids' where i: "wm_ok s ids'" "set ids' = set ids" using assms by (auto simp: wm_perm_def)
  then obtain d where "desktopId s = int d" "d \<in> set ids" by (auto simp: wm_ok_def)
  then show ?thesis using post_perm [OF i] by simp
qed

lemma dock_click_ok:
  assumes "wm_ok s ids"
  shows "ok (handleDesktopDockClick junk s x msg) (wm_perm ids)"
proof -
  obtain n where n: "getWindowCount MAX_WINDOW_CNT s = Inr n"
    using getWindowCount_spec [OF ok_rep [OF assms]] by (simp add: MAX_WINDOW_CNT_def)
  have s: "wm_perm ids s" by (rule wm_perm_refl [OF assms])
  show ?thesis
    unfolding handleDesktopDockClick_def n rbind_Inr Let_def
    by (intro ok_rbind [where P = "wm_perm ids"])
      (auto intro!: ok_rbind [OF dock_switch_ok [OF assms]] ok_rbind [OF dock_minimize_ok] post_desktop_ok simp: s)
qed

lemma mouse_up_ok:
  assumes "wm_ok s ids"
  shows "ok (wm_mouse_up junk s msg) (\<lambda>s'. wm_ok s' ids)"
  unfolding wm_mouse_up_def Let_def
  by (rule ok_rbind [where P = "\<lambda>s'. wm_ok s' ids"]) (auto intro!: post_to_focus_ok simp: assms)

lemma mouse_click_ok:
  assumes "wm_ok s ids"
  shows "ok (wm_mouse_click junk s msg) (wm_perm ids)"
  unfolding wm_mouse_click_def Let_def
proof (rule ok_rbind [where P = "wm_perm ids"])
  have popup: "ok (post_popup (s\<lparr>clickedOnPopup := 0\<rparr>) m) (wm_perm ids)" for m
    using post_popup_spec [of "s\<lparr>clickedOnPopup := 0\<rparr>" ids m] assms by (auto simp: ok_def intro: wm_perm_refl)
  have focus: "ok (post_to_focus m0 (s\<lparr>clickedOnContent := 0\<rparr>) msg) (wm_perm ids)" for m0
    by (rule ok_mono [OF post_to_focus_ok wm_perm_refl]) (use assms in auto)
  show "ok (if clickedOnPopup s \<noteq> 0
     then post_popup (s\<lparr>clickedOnPopup := 0\<rparr>) (point_msg (junk 326) (msg_type msg)
        (mouse_x (s\<lparr>clickedOnPopup := 0\<rparr>) - xmin (position (pop_wnd (popupwindow (s\<lparr>clickedOnPopup := 0\<rparr>)))))
        (mouse_y (s\<lparr>clickedOnPopup := 0\<rparr>) - ymin (position (pop_wnd (popupwindow (s\<lparr>clickedOnPopup := 0\<rparr>))))))
     else if clickedOnContent s \<noteq> 0
     then if windowlisttail (s\<lparr>clickedOnContent := 0\<rparr>) = desktopId (s\<lparr>clickedOnContent := 0\<rparr>) \<and>
             mouse_y (s\<lparr>clickedOnContent := 0\<rparr>) \<ge> SCREEN_HEIGHT (s\<lparr>clickedOnContent := 0\<rparr>) - DOCK_HEIGHT \<and>
             mouse_y (s\<lparr>clickedOnContent := 0\<rparr>) \<le> SCREEN_HEIGHT (s\<lparr>clickedOnContent := 0\<rparr>)
          then handleDesktopDockClick junk (s\<lparr>clickedOnContent := 0\<rparr>) (mouse_x (s\<lparr>clickedOnContent := 0\<rparr>)) msg
          else post_to_focus (junk 326) (s\<lparr>clickedOnContent := 0\<rparr>) msg
     else Inr s) (wm_perm ids)"
    using popup focus dock_click_ok [of "s\<lparr>clickedOnContent := 0\<rparr>" ids] wm_perm_refl [OF assms] assms by auto
next
  show "ok (wm_mouse_up junk s2 msg) (wm_perm ids)" if s2: "wm_perm ids s2" for s2
  proof -
    obtain ids' where i: "wm_ok s2 ids'" "set ids' = set ids" using s2 by (auto simp: wm_perm_def)
    show ?thesis by (rule ok_mono [OF mouse_up_ok [OF i(1)]]) (rule wm_permI [OF _ i(2)])
  qed
qed

lemma mouse_down_ok:
  assumes "wm_ok s ids"
  shows "ok (wm_mouse_down junk s msg) (wm_perm ids)"
proof (cases "in_popup s")
  case True
  then show ?thesis using assms by (simp add: wm_mouse_down_def wm_perm_refl)
next
  case False
  obtain s1 where s1: "post_popup s (plain_msg (junk 371) WM_WINDOW_CLOSE) = Inr s1" "wm_ok s1 ids"
    using post_popup_spec [OF assms] by blast
  obtain s2 where s2: "wm_focus_hit s1 = Inr s2" "wm_ok s2 (raise (target s1 ids) ids)"
    using focus_hit_spec [OF s1(2)] by blast
  have "set (raise (target s1 ids) ids) = set ids"
    using set_raise [OF target_in [OF s1(2)] rep_distinct [OF ok_rep [OF s1(2)]]] .
  then show ?thesis using False s1 s2 ok_mono [OF press_ok [OF s2(2)] wm_permI]
    by (simp add: wm_mouse_down_def)
qed

lemma handle_ok:
  assumes "wm_ok s ids"
  shows "ok (wmHandleMessage junk s msg) (wm_perm ids)"
proof -
  have "ok (wm_mouse_move junk s msg) (wm_perm ids)" "ok (wm_mouse_up junk s msg) (wm_perm ids)"
    "ok (post s (windowlisttail s) msg) (wm_perm ids)"
    using mouse_move_ok mouse_up_ok post_tail_ok assms by (blast intro: ok_perm)+
  then show ?thesis using mouse_down_ok [OF assms] mouse_click_ok [OF assms] wm_perm_refl [OF assms]
    by (simp add: wmHandleMessage_def)
qed

subsection \<open>Where a press of the mouse goes\<close>

text \<open>
  The messages a press sends to the focused window, whose rectangle is \<open>r\<close>; \<open>pr\<close> is the rectangle
  of the popup. In the title bar the last 30 pixels close, the 30 before them minimise.
\<close>

definition title_msgs :: "(nat \<Rightarrow> message) \<Rightarrow> wm \<Rightarrow> win_rect \<Rightarrow> message list" where
  "title_msgs junk s r =
     (if isInRect (xmin r) (ymin r - 28) (xmax r) (ymin r) (mouse_x s) (mouse_y s)
      then (if mouse_x s + 30 > xmax r then [plain_msg (junk 326) WM_WINDOW_CLOSE]
            else if mouse_x s + 60 > xmax r then [plain_msg (junk 326) WM_WINDOW_MINIMIZE] else [])
      else [])"

definition content_msgs :: "(nat \<Rightarrow> message) \<Rightarrow> wm \<Rightarrow> win_rect \<Rightarrow> win_rect \<Rightarrow> message \<Rightarrow> message list" where
  "content_msgs junk s r pr msg =
     (if isInRect (xmin r) (ymin r) (xmax r) (ymax r) (mouse_x s) (mouse_y s)
      then [point_msg (junk 326) (msg_type msg) (mouse_x s - xmin pr) (mouse_y s - ymin pr)] else [])"

definition press_msgs :: "(nat \<Rightarrow> message) \<Rightarrow> wm \<Rightarrow> win_rect \<Rightarrow> win_rect \<Rightarrow> message \<Rightarrow> message list" where
  "press_msgs junk s r pr msg = title_msgs junk s r @ content_msgs junk s r pr msg"

text \<open>The messages \<open>ms\<close> were sent to window \<open>i\<close>, and none to the others.\<close>

definition delivered :: "wm \<Rightarrow> nat \<Rightarrow> message list \<Rightarrow> wm \<Rightarrow> bool" where
  "delivered s i ms s' \<longleftrightarrow>
     (\<forall>j<50. inbox s' j = (if j = i then fold enqueue ms (inbox s j) else inbox s j))"

lemma delivered_none: "(\<And>j. inbox s' j = inbox s j) \<Longrightarrow> delivered s i [] s'"
  by (simp add: delivered_def)

lemma delivered_trans: "delivered s i ms s1 \<Longrightarrow> delivered s1 i ms' s2 \<Longrightarrow> delivered s i (ms @ ms') s2"
  by (simp add: delivered_def)

lemma inbox_simps [simp]:
  "inbox (s\<lparr>clickedOnTitle := a\<rparr>) i = inbox s i"
  "inbox (s\<lparr>clickedOnContent := a\<rparr>) i = inbox s i"
  by (simp_all add: inbox_def)

lemma same_wnds_inbox: "same_wnds s s' \<Longrightarrow> i < length (windowlist s) \<Longrightarrow> inbox s' i = inbox s i"
  by (simp add: inbox_def same_wnds_slot)

definition same_view :: "wm \<Rightarrow> wm \<Rightarrow> bool" where
  "same_view s s' \<longleftrightarrow> windowlisttail s' = windowlisttail s \<and> popupwindow s' = popupwindow s \<and>
     mouse_x s' = mouse_x s \<and> mouse_y s' = mouse_y s"

lemma post_tail_spec:
  assumes "wm_ok s ids"
  shows "ok (post s (windowlisttail s) m)
    (\<lambda>s'. wm_ok s' ids \<and> same_view s s' \<and> delivered s (last ids) [m] s')"
proof -
  have i: "windowlisttail s = int (last ids)" "last ids < 50" using ok_tail [OF assms] ok_bound [OF assms] by auto
  obtain s1 where s1: "post s (windowlisttail s) m = Inr s1" "wm_ok s1 ids" "wm_rest s1 = wm_rest s"
      "windowlisttail s1 = windowlisttail s"
      "\<forall>j<50. inbox s1 j = (if j = last ids then enqueue m (inbox s (last ids)) else inbox s j)"
    using post_spec [OF assms i(2), of m] i(1) by auto
  have "same_view s s1"
    using wm_rest_eq [OF s1(3)] s1(4) by (simp add: same_view_def)
  then show ?thesis using s1 by (simp add: delivered_def)
qed

lemma press_spec:
  assumes "wm_ok s ids"
  shows "ok (wm_press_focused junk s msg) (\<lambda>s'. wm_ok s' ids \<and>
    delivered s (last ids) (press_msgs junk s (position (wnd (windowlist s ! last ids)))
      (position (pop_wnd (popupwindow s))) msg) s' \<and> popupwindow s' = popupwindow s)"
proof -
  let ?i = "last ids" and ?r = "position (wnd (windowlist s ! last ids))"
  let ?pr = "position (pop_wnd (popupwindow s))"
  have i: "windowlisttail s = int ?i" using ok_tail [OF assms] by simp
  have r: "in_range (windowlisttail s) (windowlist s)"
    using ok_tail [OF assms] ok_range [OF assms] by simp
  have quiet: "same_view s (s\<lparr>clickedOnTitle := 1\<rparr>)" "same_view s s" by (simp_all add: same_view_def)
  have title: "ok (press_title junk s ?r)
      (\<lambda>s1. wm_ok s1 ids \<and> same_view s s1 \<and> delivered s ?i (title_msgs junk s ?r) s1)"
    using post_tail_spec [OF assms] quiet delivered_none [of "s\<lparr>clickedOnTitle := 1\<rparr>" s] delivered_none [of s s] assms
    by (simp add: press_title_def title_msgs_def TITLE_HEIGHT_def)
  have content: "ok (press_content junk s1 ?r msg)
      (\<lambda>s'. wm_ok s' ids \<and> delivered s1 ?i (content_msgs junk s ?r ?pr msg) s' \<and> popupwindow s' = popupwindow s)"
    if v: "wm_ok s1 ids" "same_view s s1" for s1
  proof -
    have o: "wm_ok (s1\<lparr>clickedOnContent := 1\<rparr>) ids" using v(1) by simp
    have p: "ok (post (s1\<lparr>clickedOnContent := 1\<rparr>) (windowlisttail (s1\<lparr>clickedOnContent := 1\<rparr>)) m)
        (\<lambda>s'. wm_ok s' ids \<and> delivered s1 ?i [m] s' \<and> popupwindow s' = popupwindow s)" for m
      by (rule ok_mono [OF post_tail_spec [OF o]]) (use v(2) in \<open>simp add: delivered_def same_view_def\<close>)
    have vs: "mouse_x s1 = mouse_x s" "mouse_y s1 = mouse_y s" "popupwindow s1 = popupwindow s"
      using v(2) by (simp_all add: same_view_def)
    show ?thesis
    proof (cases "isInRect (xmin ?r) (ymin ?r) (xmax ?r) (ymax ?r) (mouse_x s) (mouse_y s)")
      case True
      have "content_msgs junk s ?r ?pr msg =
          [point_msg (junk 326) (msg_type msg) (mouse_x s - xmin ?pr) (mouse_y s - ymin ?pr)]"
        using True by (simp only: content_msgs_def if_True)
      moreover have "press_content junk s1 ?r msg =
          post (s1\<lparr>clickedOnContent := 1\<rparr>) (windowlisttail (s1\<lparr>clickedOnContent := 1\<rparr>))
            (point_msg (junk 326) (msg_type msg) (mouse_x s - xmin ?pr) (mouse_y s - ymin ?pr))"
        using True by (simp add: press_content_def Let_def vs)
      ultimately show ?thesis using p by metis
    next
      case False
      then have "content_msgs junk s ?r ?pr msg = []" by (simp only: content_msgs_def if_False)
      moreover have "press_content junk s1 ?r msg = Inr s1" using False by (simp add: press_content_def vs)
      ultimately show ?thesis using v(1) vs(3) delivered_none [of s1 s1] by simp
    qed
  qed
  have c: "windowlist s ! nat (windowlisttail s) = windowlist s ! ?i" by (simp add: i)
  have "ok (wm_press_focused junk s msg) (\<lambda>s'. wm_ok s' ids \<and>
      delivered s ?i (title_msgs junk s ?r @ content_msgs junk s ?r ?pr msg) s' \<and> popupwindow s' = popupwindow s)"
    unfolding wm_press_focused_def get_slot_ok [OF r] rbind_Inr c
  proof (rule ok_rbind [OF title])
    fix s1 assume "wm_ok s1 ids \<and> same_view s s1 \<and> delivered s ?i (title_msgs junk s ?r) s1"
    then show "ok (press_content junk s1 ?r msg) (\<lambda>s'. wm_ok s' ids \<and>
        delivered s ?i (title_msgs junk s ?r @ content_msgs junk s ?r ?pr msg) s' \<and> popupwindow s' = popupwindow s)"
      by (intro ok_mono [OF content]) (auto intro: delivered_trans)
  qed
  then show ?thesis by (simp add: press_msgs_def)
qed

lemma mouse_down_spec:
  assumes "wm_ok s ids" and "\<not> in_popup s"
  shows "ok (wm_mouse_down junk s msg) (\<lambda>s'. wm_ok s' (raise (target s ids) ids) \<and>
    delivered s (target s ids) (press_msgs junk s (position (wnd (windowlist s ! target s ids)))
      (position (pop_wnd (popupwindow s))) msg) s' \<and>
    popup_inbox s' = enqueue (plain_msg (junk 371) WM_WINDOW_CLOSE) (popup_inbox s))"
proof -
  obtain s1 where s1: "post_popup s (plain_msg (junk 371) WM_WINDOW_CLOSE) = Inr s1" "wm_ok s1 ids"
      "windowlist s1 = windowlist s" "desktopId s1 = desktopId s" "mouse_x s1 = mouse_x s" "mouse_y s1 = mouse_y s"
      "position (pop_wnd (popupwindow s1)) = position (pop_wnd (popupwindow s))"
      "popup_inbox s1 = enqueue (plain_msg (junk 371) WM_WINDOW_CLOSE) (popup_inbox s)"
    using post_popup_spec [OF assms(1)] by blast
  have "hit_at s1 = hit_at s" using s1(3-6) by (simp add: fun_eq_iff hit_at_def hits_def)
  then have t: "target s1 ids = target s ids" using s1(4) by (simp add: target_def split: option.split)
  let ?t = "target s ids"
  obtain s2 where s2: "wm_focus_hit s1 = Inr s2" "wm_ok s2 (raise ?t ids)" "same_wnds s1 s2"
    using focus_hit_spec [OF s1(2)] t by auto
  have tb: "?t < 50" using target_in [OF assms(1)] ok_bound [OF assms(1)] by blast
  have in12: "inbox s2 j = inbox s j" if "j < 50" for j
    using same_wnds_inbox [OF s2(3)] that s1(3) ok_len [OF s1(2)] by (simp add: inbox_def)
  have "position (wnd (windowlist s2 ! ?t)) = position (wnd (windowlist s ! ?t))"
    using same_wnds_slot(1) [OF s2(3), of ?t] tb ok_len [OF s1(2)] s1(3) by simp
  then have pm: "press_msgs junk s2 (position (wnd (windowlist s2 ! ?t))) (position (pop_wnd (popupwindow s2))) msg =
      press_msgs junk s (position (wnd (windowlist s ! ?t))) (position (pop_wnd (popupwindow s))) msg"
    using same_wnds_rest [OF s2(3)] s1(5-7) by (simp add: press_msgs_def title_msgs_def content_msgs_def)
  have "last (raise ?t ids) = ?t" by (simp add: raise_def)
  then have "ok (wm_press_focused junk s2 msg) (\<lambda>s'. wm_ok s' (raise ?t ids) \<and>
      delivered s2 ?t (press_msgs junk s (position (wnd (windowlist s ! ?t))) (position (pop_wnd (popupwindow s))) msg) s' \<and>
      popup_inbox s' = enqueue (plain_msg (junk 371) WM_WINDOW_CLOSE) (popup_inbox s))"
    using press_spec [OF s2(2), of junk msg] pm same_wnds_rest(2) [OF s2(3)] s1(8)
    by (auto simp: popup_inbox_def elim!: ok_mono)
  then show ?thesis using s1(1) s2(1) assms(2) in12
    by (auto simp: wm_mouse_down_def delivered_def elim!: ok_mono)
qed

end
