(* ===== verification/WM_Safety.thy ===== *)
theory WM_Safety
  imports WM_Correct
begin

text \<open>
  Creation, closing, minimising and raising of windows against the stack of slots, the reachable
  states of the window manager, and the properties of the window manager as a whole.
\<close>

subsection \<open>Start-up\<close>

lemma bufs_at: "wm_bufs s \<Longrightarrow> i < length (windowlist s) \<Longrightarrow> wnd_ok (wnd (windowlist s ! i))"
  by (simp add: wm_bufs_def)

lemma for_each_slots:
  "for_each (\<lambda>i s. cont_res (mod_slot s (int i) (f i))) is s =
   rbind (for_each (\<lambda>i l. cont_res (arr_mod l (int i) (f i))) is (windowlist s)) (\<lambda>l. Inr (s\<lparr>windowlist := l\<rparr>))"
proof (induction "is" arbitrary: s)
  case Nil
  then show ?case by simp
next
  case (Cons i "is")
  then show ?case by (cases "in_range (int i) (windowlist s)") simp_all
qed

lemma wmInit_spec:
  assumes "length (windowlist s) = 50" and "wm_bufs s" and "desktopId s = -1"
  shows "ok (wmInit s) (\<lambda>s'. wm_rep s' [] \<and> wm_bufs s' \<and> desktopId s' = -1 \<and>
    SCREEN_WIDTH s' = SCREEN_WIDTH s \<and> SCREEN_HEIGHT s' = SCREEN_HEIGHT s)"
proof -
  let ?f = "\<lambda>i. free_slot (int i)"
  have "distinct (map int [0..<50])" by (simp add: distinct_map)
  from for_each_pointwise [OF this, of "windowlist s" ?f] obtain l where
    l: "for_each (\<lambda>i l. cont_res (arr_mod l (int i) (?f i))) [0..<50] (windowlist s) = Inr l"
      "length l = 50" "\<forall>i<50. l ! i = free_slot (int i) (windowlist s ! i)"
    using assms(1) by auto
  have "cells_rep slot_next slot_prev l []"
    using l(2,3) by (simp add: cells_rep_def dll_def links_of_def free_slot_def)
  moreover have "\<forall>c \<in> set l. wnd_ok (wnd c)"
    using l(2,3) assms(1) bufs_at [OF assms(2)] by (auto simp: in_set_conv_nth free_slot_def)
  ultimately show ?thesis using assms l(1,2)
    by (simp add: wmInit_def Let_def MAX_WINDOW_CNT_def for_each_slots wm_rep_def wm_bufs_def)
qed

subsection \<open>Creation\<close>

lemma wm_bufs_slot:
  assumes "wm_bufs s" and "wnd_ok (wnd (windowlist s ! i)) \<Longrightarrow> wnd_ok (wnd c)" and "i < length (windowlist s)"
  shows "wm_bufs (s\<lparr>windowlist := (windowlist s)[i := c]\<rparr>)"
  using assms by (auto simp: wm_bufs_def dest!: set_update_subset_insert [THEN subsetD])

lemma length_copy_title: "length old = 50 \<Longrightarrow> length (copy_title arg old) = 50"
  by (simp add: copy_title_def MAX_TITLE_LEN_def Let_def min_def)

text \<open>The rectangle a new window gets.\<close>

definition placed :: "wm \<Rightarrow> window \<Rightarrow> win_rect" where
  "placed s w =
     (if fits_screen s w then initialPosition w
      else let cx = SCREEN_WIDTH s sdiv 2; cy = SCREEN_HEIGHT s sdiv 2
           in \<lparr>xmin = cx - w_width w sdiv 2, xmax = cx + w_width w sdiv 2,
               ymin = cy - w_height w sdiv 2, ymax = cy + w_height w sdiv 2\<rparr>)"

lemma createRect_eq: "createRectByCoord (r :: win_rect) a b c d = \<lparr>xmin = a, xmax = c, ymin = b, ymax = d\<rparr>"
  by (cases r) (simp add: createRectByCoord_def)

lemma create_full:
  "wm_rep s ids \<Longrightarrow> least_free ids = None \<Longrightarrow> createWindow s p w t = Inr (s, w, 1)"
  by (simp add: createWindow_def findNext_spec)

lemma create_spec:
  assumes "wm_rep s ids" and "wm_bufs s" and "least_free ids = Some i"
  shows "\<exists>s'. createWindow s p w t = Inr (s', w\<lparr>handler := int i\<rparr>, 0) \<and> wm_rep s' (ids @ [i]) \<and> wm_bufs s' \<and>
    desktopId s' = (if desktopId s = -1 then int i else desktopId s) \<and> popupwindow s' = popupwindow s \<and>
    inbox s' i = [] \<and> slot_proc (windowlist s' ! i) = p \<and> position (wnd (windowlist s' ! i)) = placed s w \<and>
    minimized (wnd (windowlist s' ! i)) = 0 \<and> title (wnd (windowlist s' ! i)) = copy_title t (title (wnd (windowlist s ! i))) \<and>
    (\<forall>j<50. j \<noteq> i \<longrightarrow> wnd (windowlist s' ! j) = wnd (windowlist s ! j) \<and> slot_proc (windowlist s' ! j) = slot_proc (windowlist s ! j))"
proof -
  have i: "i < 50" "i \<notin> set ids" using least_free_Some [OF assms(3)] by auto
  have h: "(if windowlisthead s = -1 then s\<lparr>windowlisthead := int i\<rparr> else s) = s\<lparr>windowlisthead := headi (ids @ [i]) (-1)\<rparr>"
    using assms(1) by (cases ids) (auto simp: wm_rep_def)
  obtain s2 where s2: "addToWindowList (s\<lparr>windowlisthead := headi (ids @ [i]) (-1)\<rparr>) (int i) = Inr s2"
      "wm_rep s2 (ids @ [i])" "same_wnds s s2"
    using add_spec [OF assms(1) i] by blast
  let ?s3 = "if desktopId s2 = -1 then s2\<lparr>desktopId := int i\<rparr> else s2"
  let ?kw = "wnd (windowlist s ! i)"
  define c where "c = (windowlist s2 ! i)\<lparr>slot_proc := p,
             wnd := ?kw\<lparr>position := placed s w, window_buf := w_window_buf w,
                           minimized := 0, hasTitleBar := w_hasTitleBar w,
                           kw_msg_buf := initMessageQueue (kw_msg_buf ?kw),
                           title := copy_title t (title ?kw)\<rparr>\<rparr>"
  let ?s4 = "?s3\<lparr>windowlist := (windowlist s2)[i := c]\<rparr>"
  have len: "length (windowlist s2) = 50" "length (windowlist s) = 50"
    using rep_length [OF s2(2)] rep_length [OF assms(1)] by auto
  have kw: "wnd (windowlist s2 ! i) = ?kw" using same_wnds_slot(1) [OF s2(3)] i len by simp
  have rest: "desktopId s2 = desktopId s" "popupwindow s2 = popupwindow s" "SCREEN_WIDTH s2 = SCREEN_WIDTH s"
    "SCREEN_HEIGHT s2 = SCREEN_HEIGHT s" using same_wnds_rest [OF s2(3)] by auto
  have b2: "wm_bufs s2" by (rule same_wnds_bufs [OF s2(3) assms(2)])
  have ok_kw: "wnd_ok ?kw" using bufs_at [OF assms(2)] len i by simp
  have ok_c: "wnd_ok (wnd c)"
    using ok_kw by (simp add: c_def wnd_ok_def mb_inv_init mb_data_length length_copy_title)
  have place: "(if fits_screen ?s3 w
                then createRectByCoord q (xmin (initialPosition w)) (ymin (initialPosition w)) (xmax (initialPosition w)) (ymax (initialPosition w))
                else createRectByCoord q
                       (SCREEN_WIDTH ?s3 sdiv 2 - w_width w sdiv 2) (SCREEN_HEIGHT ?s3 sdiv 2 - w_height w sdiv 2)
                       (SCREEN_WIDTH ?s3 sdiv 2 + w_width w sdiv 2) (SCREEN_HEIGHT ?s3 sdiv 2 + w_height w sdiv 2)) = placed s w" for q
  proof -
    have "fits_screen ?s3 w = fits_screen s w" using rest by (simp add: fits_screen_def)
    then show ?thesis using rest by (simp add: placed_def createRect_eq Let_def)
  qed
  have eval: "createWindow s p w t = Inr (?s4, w\<lparr>handler := int i\<rparr>, 0)"
    unfolding createWindow_def findNext_spec [OF assms(1)] assms(3) option.case rbind_Inr Let_def
    using i len by (simp only: h s2(1) rbind_Inr place) (simp add: kw c_def)
  have "wm_rep ?s4 (ids @ [i]) = wm_rep s2 (ids @ [i])"
    by (simp add: wm_rep_def cells_rep_def links_of_same c_def)
  then have "wm_rep ?s4 (ids @ [i])" using s2(2) by simp
  moreover have "wm_bufs ?s4" using wm_bufs_slot [OF b2, of i c] ok_c i len by (simp add: wm_bufs_def)
  moreover have "\<forall>j<50. j \<noteq> i \<longrightarrow> wnd (windowlist ?s4 ! j) = wnd (windowlist s ! j) \<and>
      slot_proc (windowlist ?s4 ! j) = slot_proc (windowlist s ! j)"
    using same_wnds_slot [OF s2(3)] len by simp
  moreover have "inbox ?s4 i = [] \<and> slot_proc (windowlist ?s4 ! i) = p \<and> position (wnd (windowlist ?s4 ! i)) = placed s w \<and>
      minimized (wnd (windowlist ?s4 ! i)) = 0 \<and> title (wnd (windowlist ?s4 ! i)) = copy_title t (title ?kw)"
    using i len by (simp add: inbox_def c_def)
  ultimately show ?thesis using eval rest by (intro exI [of _ ?s4]) simp
qed

subsection \<open>Closing\<close>

lemma close_spec:
  assumes "wm_rep s (xs @ w # ys)" and "wm_bufs s" and "handler wd = int w"
  shows "\<exists>s'. closeWindow s wd = Inr (s', wd\<lparr>handler := -1\<rparr>, 0) \<and>
    length (windowlist s') = 50 \<and> cells_rep slot_next slot_prev (windowlist s') (xs @ ys) \<and>
    windowlisthead s' = windowlisthead s \<and> windowlisttail s' = lasti (xs @ ys) (-1) \<and>
    wm_bufs s' \<and> desktopId s' = desktopId s \<and> popupwindow s' = popupwindow s \<and> inbox s' w = [] \<and>
    (\<forall>j<50. j \<noteq> w \<longrightarrow> wnd (windowlist s' ! j) = wnd (windowlist s ! j) \<and> slot_proc (windowlist s' ! j) = slot_proc (windowlist s ! j))"
proof -
  have w: "w < 50" "length (windowlist s) = 50" using rep_bound [OF assms(1)] rep_length [OF assms(1)] by auto
  define l where "l = slots_free (slots_unlink (windowlist s) w) w"
  define f where "f = upd_wnd (\<lambda>k. k\<lparr>kw_msg_buf := initMessageQueue (kw_msg_buf k), title := replicate MAX_TITLE_LEN 0\<rparr>)"
  define s3 where "s3 = s\<lparr>windowlist := l[w := f (l ! w)], windowlisttail := lasti (xs @ ys) (-1)\<rparr>"
  have len: "length l = 50" using w by (simp add: l_def)
  have rep: "cells_rep slot_next slot_prev l (xs @ ys)"
    unfolding l_def by (rule slots.rep_remove) (use assms(1) in \<open>simp add: wm_rep_def\<close>)
  have l_eq: "(slots_unlink (windowlist s) w)[w := (slots_unlink (windowlist s) w ! w)\<lparr>slot_prev := int w, slot_next := int w\<rparr>] = l"
    by (simp add: l_def cells_free_def)
  have "lasti (xs @ ys) (-1) \<noteq> int w"
  proof -
    have "w \<notin> set (xs @ ys)" using rep_distinct [OF assms(1)] by auto
    then show ?thesis by (cases "xs @ ys" rule: rev_cases) auto
  qed
  then have "closeWindow s wd = Inr (s3, wd\<lparr>handler := -1\<rparr>, 0)"
    using w len by (simp add: closeWindow_def Let_def assms(3) remove_spec [OF assms(1)] l_eq f_def s3_def)
  moreover have "cells_rep slot_next slot_prev (windowlist s3) (xs @ ys)"
    using rep by (simp add: s3_def f_def upd_wnd_def cells_rep_def links_of_same)
  moreover have data: "map slot_data l = map slot_data (windowlist s)"
    by (simp add: l_def slots.payload_cells)
  then have sw: "same_wnds s (s\<lparr>windowlist := l\<rparr>)" by (simp add: same_wnds_def wm_rest_def)
  then have at: "wnd (l ! j) = wnd (windowlist s ! j) \<and> slot_proc (l ! j) = slot_proc (windowlist s ! j)" if "j < 50" for j
    using same_wnds_slot [OF sw] that w by simp
  moreover have b: "wm_bufs (s\<lparr>windowlist := l\<rparr>)" by (rule same_wnds_bufs [OF sw assms(2)])
  have "wnd_ok (wnd (l ! w))" using b len w by (simp add: wm_bufs_def)
  then have "wnd_ok (wnd (f (l ! w)))" by (simp add: f_def upd_wnd_def wnd_ok_def mb_inv_init mb_data_length MAX_TITLE_LEN_def)
  then have "wm_bufs s3"
    using wm_bufs_slot [OF b, of w "f (l ! w)"] len w by (simp add: wm_bufs_def s3_def)
  moreover have "inbox s3 w = []" using len w by (simp add: s3_def inbox_def f_def upd_wnd_def)
  ultimately show ?thesis using len w by (intro exI [of _ s3]) (simp add: s3_def)
qed

text \<open>Closing the bottom window leaves \<open>windowlisthead\<close> on a slot that is linked to itself.\<close>

lemma count_hangs:
  assumes "windowlisthead s = int w" and "w < length (windowlist s)" and "slot_next (windowlist s ! w) = int w"
  shows "getWindowCount fuel s = Inl Hang"
proof -
  have "up_from_head fuel (\<lambda>p n. cont (if p \<noteq> desktopId s then n + 1 else n)) (\<lambda>_. s) s (0 :: int) = Inl Hang"
    unfolding up_from_head_def assms(1)
    by (rule for_links_self_loop [where I = "\<lambda>_. True"]) (use assms in \<open>auto simp: cont_def\<close>)
  then show ?thesis by (simp add: getWindowCount_def)
qed

lemma close_head_hangs:
  assumes "wm_rep s (w # ys)" and "wm_bufs s" and "handler wd = int w"
  shows "ok (closeWindow s wd) (\<lambda>(s', wd', r). r = 0 \<and> (\<forall>fuel. getWindowCount fuel s' = Inl Hang))"
proof -
  have w: "w < 50" "windowlisthead s = int w" using assms(1) rep_bound [OF assms(1)] by (auto simp: wm_rep_def)
  obtain s' where s': "closeWindow s wd = Inr (s', wd\<lparr>handler := -1\<rparr>, 0)" "length (windowlist s') = 50"
    "cells_rep slot_next slot_prev (windowlist s') ys" "windowlisthead s' = windowlisthead s"
    using close_spec [of s "[]" w ys wd] assms by auto
  have "w \<notin> set ys" using rep_distinct [OF assms(1)] by simp
  then have "slot_next (windowlist s' ! w) = int w"
    using s'(2,3) w(1) by (simp add: cells_rep_def dll_def links_of_def)
  then show ?thesis using s' w count_hangs [of s' w] by simp
qed

subsection \<open>Every operation preserves well-formedness\<close>

lemma perm_obtain: "wm_perm ids s \<Longrightarrow> (\<And>ids'. wm_ok s ids' \<Longrightarrow> set ids' = set ids \<Longrightarrow> thesis) \<Longrightarrow> thesis"
  by (auto simp: wm_perm_def)

lemma focus_prev_ok:
  assumes "wm_ok s ids" and "w \<in> set ids"
  shows "ok (rbind (get_slot s (int w)) (\<lambda>c. focusWindow s (slot_prev c))) (wm_perm ids)"
proof -
  obtain xs ys where ids: "ids = xs @ w # ys" using assms(2) by (meson split_list)
  have p: "slot_prev (windowlist s ! w) = lasti xs (-1)" using rep_at(1) ok_rep [OF assms(1)] ids by blast
  have "ok (focusWindow s (lasti xs (-1))) (wm_perm ids)"
  proof (cases "xs = []")
    case True
    then show ?thesis using assms(1) by (simp add: focusWindow_def wm_perm_refl)
  next
    case False
    then have "lasti xs (-1) = int (last xs)" "last xs \<in> set ids" using ids by (simp_all add: lasti_def)
    then show ?thesis using focus_perm [OF assms(1) refl] by metis
  qed
  then show ?thesis using ok_range [OF assms] p by simp
qed

lemma minimize_ok:
  assumes "wm_ok s ids" and "w \<in> set ids" and "handler wd = int w"
  shows "ok (minimizeWindow s wd) (\<lambda>(s', r). wm_perm ids s')"
proof -
  let ?s1 = "upd_at s w (\<lambda>k. k\<lparr>minimized := 1\<rparr>)"
  have w: "w < 50" "w < length (windowlist s)" using ok_bound [OF assms(1,2)] ok_len [OF assms(1)] by auto
  have s1: "wm_ok ?s1 ids" by (rule wm_ok_upd [OF assms(1) w(1)]) (simp add: wnd_ok_def)
  have "ok (if int w = windowlisttail ?s1
            then rbind (get_slot ?s1 (int w)) (\<lambda>c. focusWindow ?s1 (slot_prev c)) else Inr ?s1) (wm_perm ids)"
    using focus_prev_ok [OF s1 assms(2)] wm_perm_refl [OF s1] by auto
  then have "ok (rbind (if int w = windowlisttail ?s1
            then rbind (get_slot ?s1 (int w)) (\<lambda>c. focusWindow ?s1 (slot_prev c)) else Inr ?s1) (\<lambda>s2. Inr (s2, 0)))
            (\<lambda>(s', r). wm_perm ids s')"
    by (rule ok_rbind) simp
  then show ?thesis unfolding minimizeWindow_def Let_def assms(3) mod_wnd_eval [OF w(2)] rbind_Inr .
qed

lemma maximize_spec:
  assumes "wm_ok s ids" and "w \<in> set ids" and "handler wd = int w"
  shows "\<exists>s'. maximizeWindow s wd = Inr (s', 0) \<and> wm_ok s' (raise w ids) \<and> minimized (wnd (windowlist s' ! w)) = 0"
proof -
  let ?s1 = "upd_at s w (\<lambda>k. k\<lparr>minimized := 0\<rparr>)"
  have w: "w < 50" "w < length (windowlist s)" using ok_bound [OF assms(1,2)] ok_len [OF assms(1)] by auto
  have s1: "wm_ok ?s1 ids" by (rule wm_ok_upd [OF assms(1) w(1)]) (simp add: wnd_ok_def)
  obtain s2 where s2: "focusWindow ?s1 (int w) = Inr s2" "wm_ok s2 (raise w ids)" "same_wnds ?s1 s2"
    using focus_ok [OF s1 assms(2)] by blast
  have "minimized (wnd (windowlist s2 ! w)) = 0"
    using same_wnds_slot(1) [OF s2(3), of w] w by (simp add: upd_at_wnd)
  then show ?thesis using s2 unfolding maximizeWindow_def Let_def assms(3) mod_wnd_eval [OF w(2)] by simp
qed

lemma locked_ok:
  assumes "mb_inv b" and "0 < mb_cnt b"
  shows "ok (getMessage_locked b) (\<lambda>(b', m). mb_inv b')"
proof -
  obtain m ms where c: "mb_contents b = m # ms" using mb_length [OF assms(1)] assms(2) by (cases "mb_contents b") auto
  obtain b' where "getMessage b m = Inr (b', m, 0)" "mb_inv b'" using get_some [OF assms(1) c] by blast
  then show ?thesis using assms(2) by (auto simp: getMessage_def rbind_eq_Inr)
qed

lemma take_window_ok:
  assumes "wm_ok s ids" and "w \<in> set ids" and "0 < mb_cnt (kw_msg_buf (wnd (windowlist s ! w)))"
  shows "ok (take_message s (WindowQueue (int w))) (\<lambda>(s', m). wm_ok s' ids \<and> popupwindow s' = popupwindow s \<and>
    (\<forall>j<50. slot_proc (windowlist s' ! j) = slot_proc (windowlist s ! j)) \<and>
    (\<forall>j<50. j \<noteq> w \<longrightarrow> windowlist s' ! j = windowlist s ! j))"
proof -
  have w: "w < 50" "w < length (windowlist s)" using ok_bound [OF assms(1,2)] ok_len [OF assms(1)] by auto
  obtain b m where b: "getMessage_locked (kw_msg_buf (wnd (windowlist s ! w))) = Inr (b, m)" "mb_inv b"
    using locked_ok ok_wnd [OF assms(1) w(1)] assms(3) by (fastforce simp: ok_def wnd_ok_def)
  have "wm_ok (upd_at s w (\<lambda>k. k\<lparr>kw_msg_buf := b\<rparr>)) ids"
    by (rule wm_ok_upd [OF assms(1) w(1)]) (use b(2) in \<open>simp add: wnd_ok_def\<close>)
  then show ?thesis using w b(1) mod_wnd_eval [OF w(2)]
    by (auto simp: take_message_def upd_at_def upd_wnd_def nth_list_update)
qed

lemma take_popup_ok:
  assumes "wm_ok s ids" and "0 < mb_cnt (kw_msg_buf (pop_wnd (popupwindow s)))"
  shows "ok (take_message s PopupQueue) (\<lambda>(s', m). wm_ok s' ids \<and> windowlist s' = windowlist s)"
proof -
  have "mb_inv (kw_msg_buf (pop_wnd (popupwindow s)))" using ok_bufs [OF assms(1)] by (simp add: wm_bufs_def wnd_ok_def)
  from locked_ok [OF this assms(2)] show ?thesis using assms(1)
    by (auto simp: take_message_def ok_def upd_popup_def wm_ok_def wm_bufs_def wnd_ok_def wm_rep_def)
qed

lemma create_popup_ok: "wm_ok s ids \<Longrightarrow> wm_ok (fst (createPopupWindow s p w c)) ids"
  by (auto simp: createPopupWindow_def Let_def wm_ok_def wm_bufs_def wnd_ok_def wm_rep_def mb_inv_init mb_data_length)

lemma close_popup_ok: "wm_ok s ids \<Longrightarrow> wm_ok (fst (closePopupWindow s w)) ids"
  by (auto simp: closePopupWindow_def Let_def wm_ok_def wm_bufs_def wnd_ok_def wm_rep_def mb_inv_init mb_data_length MAX_TITLE_LEN_def)

lemma create_ok:
  assumes "wm_ok s ids"
  shows "ok (createWindow s p w t) (\<lambda>(s', w', r). \<exists>ids'. wm_ok s' ids' \<and> set ids \<subseteq> set ids' \<and> popupwindow s' = popupwindow s \<and>
    (\<forall>j\<in>set ids. wnd (windowlist s' ! j) = wnd (windowlist s ! j) \<and> slot_proc (windowlist s' ! j) = slot_proc (windowlist s ! j)))"
proof (cases "least_free ids")
  case None
  then show ?thesis using create_full [OF ok_rep [OF assms]] assms by auto
next
  case (Some i)
  obtain s' where s': "createWindow s p w t = Inr (s', w\<lparr>handler := int i\<rparr>, 0)" "wm_rep s' (ids @ [i])" "wm_bufs s'"
    "desktopId s' = (if desktopId s = -1 then int i else desktopId s)" "popupwindow s' = popupwindow s"
    "\<forall>j<50. j \<noteq> i \<longrightarrow> wnd (windowlist s' ! j) = wnd (windowlist s ! j) \<and> slot_proc (windowlist s' ! j) = slot_proc (windowlist s ! j)"
    using create_spec [OF ok_rep [OF assms] ok_bufs [OF assms] Some] by blast
  have "desktopId s \<in> int ` set ids" using assms by (simp add: wm_ok_def)
  then have "wm_ok s' (ids @ [i])" using s'(2-4) by (auto simp: wm_ok_def)
  moreover have "j < 50" "j \<noteq> i" if "j \<in> set ids" for j
    using that ok_bound [OF assms] least_free_Some [OF Some] by auto
  ultimately show ?thesis using s'(1,5,6) by (auto intro!: exI [of _ "ids @ [i]"])
qed

lemma close_ok:
  assumes "wm_ok s ids" and "w \<in> set ids" and "handler wd = int w"
    and "int w \<noteq> windowlisthead s" and "int w \<noteq> desktopId s"
  shows "ok (closeWindow s wd) (\<lambda>(s', wd', r). wm_ok s' (remove1 w ids) \<and> r = 0 \<and> handler wd' = -1 \<and> inbox s' w = [] \<and>
    popupwindow s' = popupwindow s \<and>
    (\<forall>j<50. j \<noteq> w \<longrightarrow> wnd (windowlist s' ! j) = wnd (windowlist s ! j) \<and> slot_proc (windowlist s' ! j) = slot_proc (windowlist s ! j)))"
proof -
  obtain xs ys where ids: "ids = xs @ w # ys" using assms(2) by (meson split_list)
  have rep: "wm_rep s (xs @ w # ys)" using ok_rep [OF assms(1)] ids by simp
  have xs: "xs \<noteq> []" using rep_tail_eq(2) [OF rep] assms(4) by metis
  obtain s' where s': "closeWindow s wd = Inr (s', wd\<lparr>handler := -1\<rparr>, 0)" "length (windowlist s') = 50"
    "cells_rep slot_next slot_prev (windowlist s') (xs @ ys)" "windowlisthead s' = windowlisthead s"
    "windowlisttail s' = lasti (xs @ ys) (-1)" "wm_bufs s'" "desktopId s' = desktopId s" "inbox s' w = []"
    "popupwindow s' = popupwindow s"
    "\<forall>j<50. j \<noteq> w \<longrightarrow> wnd (windowlist s' ! j) = wnd (windowlist s ! j) \<and> slot_proc (windowlist s' ! j) = slot_proc (windowlist s ! j)"
    using close_spec [OF rep ok_bufs [OF assms(1)] assms(3)] by blast
  have "windowlisthead s' = headi (xs @ ys) (-1)" using s'(4) rep xs by (cases xs) (simp_all add: wm_rep_def)
  then have "wm_rep s' (xs @ ys)" using s' by (simp add: wm_rep_def)
  moreover have "w \<notin> set xs" using rep_distinct [OF rep] by simp
  then have "remove1 w ids = xs @ ys" by (simp add: ids remove1_append)
  moreover have "desktopId s' \<in> int ` set (xs @ ys)" using assms(1,5) s'(7) ids by (auto simp: wm_ok_def)
  ultimately show ?thesis using s' by (simp add: wm_ok_def)
qed

subsection \<open>Only a poll takes a message out of a queue\<close>

text \<open>
  What can happen between the two steps of a poll: no slot changes its owner, no count goes down, and the caller of the popup stays.
\<close>

definition grows :: "wm \<Rightarrow> wm \<Rightarrow> bool" where
  "grows s s' \<longleftrightarrow> length (windowlist s') = length (windowlist s) \<and>
     (\<forall>i<length (windowlist s). slot_proc (windowlist s' ! i) = slot_proc (windowlist s ! i) \<and>
        mb_cnt (kw_msg_buf (wnd (windowlist s ! i))) \<le> mb_cnt (kw_msg_buf (wnd (windowlist s' ! i)))) \<and>
     caller (popupwindow s') = caller (popupwindow s) \<and>
     mb_cnt (kw_msg_buf (pop_wnd (popupwindow s))) \<le> mb_cnt (kw_msg_buf (pop_wnd (popupwindow s')))"

lemma grows_same: "windowlist s' = windowlist s \<Longrightarrow> popupwindow s' = popupwindow s \<Longrightarrow> grows s s'"
  by (simp add: grows_def)

lemma grows_trans: "grows s s1 \<Longrightarrow> grows s1 s2 \<Longrightarrow> grows s s2"
  unfolding grows_def by (metis order_trans)

lemma grows_from: "windowlist s1 = windowlist s0 \<Longrightarrow> popupwindow s1 = popupwindow s0 \<Longrightarrow> grows s1 s \<Longrightarrow> grows s0 s"
  by (simp add: grows_def)

lemma grows_slot:
  assumes "slot_proc c = slot_proc (windowlist s ! i)"
    and "mb_cnt (kw_msg_buf (wnd (windowlist s ! i))) \<le> mb_cnt (kw_msg_buf (wnd c))"
  shows "grows s (s\<lparr>windowlist := (windowlist s)[i := c]\<rparr>)"
  using assms by (cases "i < length (windowlist s)") (auto simp: grows_def nth_list_update)

text \<open>\<open>returns m Q\<close>: if \<open>m\<close> returns, then with a result satisfying \<open>Q\<close>.\<close>

definition returns :: "'a res \<Rightarrow> ('a \<Rightarrow> bool) \<Rightarrow> bool" where
  "returns m Q \<longleftrightarrow> (\<forall>x. m = Inr x \<longrightarrow> Q x)"

lemma returns_simps [simp]: "returns (Inr x) Q = Q x" "returns (Inl e) Q"
  by (auto simp: returns_def)

lemma returns_rbind: "returns m P \<Longrightarrow> (\<And>x. P x \<Longrightarrow> returns (f x) Q) \<Longrightarrow> returns (rbind m f) Q"
  by (cases m) simp_all

lemma returns_any: "returns m (\<lambda>_. True)"
  by (simp add: returns_def)

lemma returns_if: "(b \<Longrightarrow> returns m Q) \<Longrightarrow> (\<not> b \<Longrightarrow> returns n Q) \<Longrightarrow> returns (if b then m else n) Q"
  by simp

lemma returns_mono: "returns m P \<Longrightarrow> (\<And>x. P x \<Longrightarrow> Q x) \<Longrightarrow> returns m Q"
  by (simp add: returns_def)

lemma returns_get: "(\<And>x. returns (f x) Q) \<Longrightarrow> returns (rbind m f) Q"
  by (cases m) simp_all

lemma returns_links:
  assumes "\<And>p b. I b \<Longrightarrow> returns (body p b) (\<lambda>(b', k). I b')" and "I b"
  shows "returns (for_links fuel nx body p b) (\<lambda>(b', q). I b')"
  using assms(2)
proof (induction fuel arbitrary: p b)
  case 0
  then show ?case by (simp add: for_links.simps)
next
  case (Suc f)
  have "returns (if k then Inr (b', p) else rbind (nx b' p) (\<lambda>q. for_links f nx body q b')) (\<lambda>(b', q). I b')"
    if "I b'" for b' k
    using Suc.IH [OF that] that by (cases "nx b' p") simp_all
  then have "returns (rbind (body p b) (\<lambda>(b', k). if k then Inr (b', p) else rbind (nx b' p) (\<lambda>q. for_links f nx body q b'))) (\<lambda>(b', q). I b')"
    by (intro returns_rbind [OF assms(1) [OF Suc.prems]]) (simp add: split_beta)
  then show ?case using Suc.prems by (simp add: for_links.simps [of "Suc f"])
qed

lemma mod_slot_grows:
  assumes "grows s0 s" and "\<And>c. slot_proc (f c) = slot_proc c" and "\<And>c. mb_cnt (kw_msg_buf (wnd (f c))) = mb_cnt (kw_msg_buf (wnd c))"
  shows "returns (mod_slot s i f) (grows s0)"
  using grows_trans [OF assms(1) grows_slot] assms(2,3) by (cases "in_range i (windowlist s)") simp_all

lemma dispatch_cnt: "returns (dispatchMessage b m) (\<lambda>(b', r). mb_cnt b \<le> mb_cnt b')"
  by (auto simp: dispatchMessage_def returns_def Let_def rbind_eq_Inr split: if_splits)

lemma post_grows:
  assumes "grows s0 s"
  shows "returns (post s i m) (grows s0)"
proof (cases "in_range i (windowlist s)")
  case True
  have "returns (mod_slot s i (upd_wnd (\<lambda>w. w\<lparr>kw_msg_buf := b\<rparr>))) (grows s0)"
    if "mb_cnt (kw_msg_buf (wnd (windowlist s ! nat i))) \<le> mb_cnt b" for b
    using True grows_trans [OF assms grows_slot] that by (simp add: upd_wnd_def)
  then show ?thesis using True
    by (auto simp: post_def intro!: returns_rbind [OF dispatch_cnt])
qed (simp add: post_def)

lemma post_popup_grows:
  assumes "grows s0 s"
  shows "returns (post_popup s m) (grows s0)"
proof -
  have "grows s (upd_popup (\<lambda>w. w\<lparr>kw_msg_buf := b\<rparr>) s)" if "mb_cnt (kw_msg_buf (pop_wnd (popupwindow s))) \<le> mb_cnt b" for b
    using that by (simp add: grows_def upd_popup_def)
  then show ?thesis using grows_trans [OF assms] by (auto simp: post_popup_def intro!: returns_rbind [OF dispatch_cnt])
qed

lemma grows_fields [simp]:
  "grows s0 (s\<lparr>windowlisthead := a\<rparr>) = grows s0 s"
  "grows s0 (s\<lparr>windowlisttail := a\<rparr>) = grows s0 s"
  "grows s0 (s\<lparr>mouseShape := a\<rparr>) = grows s0 s"
  "grows s0 (s\<lparr>clickedOnTitle := a\<rparr>) = grows s0 s"
  "grows s0 (s\<lparr>clickedOnContent := a\<rparr>) = grows s0 s"
  "grows s0 (s\<lparr>clickedOnPopup := a\<rparr>) = grows s0 s"
  "grows s0 (s\<lparr>mouse_x := a\<rparr>) = grows s0 s"
  "grows s0 (s\<lparr>mouse_y := a\<rparr>) = grows s0 s"
  "grows s0 (s\<lparr>last_x := a\<rparr>) = grows s0 s"
  "grows s0 (s\<lparr>last_y := a\<rparr>) = grows s0 s"
  by (simp_all add: grows_def)

text \<open>Growth through a piece of the code: the rules below follow its sequencing.\<close>

lemma grows_bind:
  "returns m (grows s0) \<Longrightarrow> (\<And>s. grows s0 s \<Longrightarrow> returns (f s) Q) \<Longrightarrow> returns (rbind m f) Q"
  by (rule returns_rbind)

lemma grows_slot_bind: "(\<And>c. returns (f c) Q) \<Longrightarrow> returns (rbind (m :: win_slot res) f) Q"
  by (rule returns_get)

lemmas growth = grows_bind grows_slot_bind post_grows post_popup_grows mod_slot_grows returns_if

lemma add_grows: "grows s0 s \<Longrightarrow> returns (addToWindowList s i) (grows s0)"
  by (auto simp: addToWindowList_def intro!: growth)

lemma focus_grows: "grows s0 s \<Longrightarrow> returns (focusWindow s i) (grows s0)"
  by (auto simp: focusWindow_def Let_def intro!: growth add_grows)

lemma move_grows: "grows s0 s \<Longrightarrow> returns (moveFocusWindow s dx dy) (grows s0)"
  by (auto simp: moveFocusWindow_def upd_wnd_def intro!: growth)

lemma to_focus_grows: "grows s0 s \<Longrightarrow> returns (post_to_focus m s msg) (grows s0)"
  by (auto simp: post_to_focus_def intro!: growth)

lemma track_grows [simp]: "grows s0 (wm_track s m) = grows s0 s"
  by (simp add: wm_track_def Let_def)

lemma cont_grows: "returns m (grows s0) \<Longrightarrow> returns (cont_res m) (\<lambda>(s, k). grows s0 s)"
  by (auto simp: cont_res_def cont_def intro!: grows_bind)

lemma dock_grows:
  assumes "grows s0 s"
  shows "returns (handleDesktopDockClick junk s x msg) (grows s0)"
proof -
  have pick: "returns (dock_pick junk x w p b) (\<lambda>(b', k). grows s0 (fst b'))" if "grows s0 (fst b)" for w p b
    using that by (auto simp: dock_pick_def Let_def brk_def cont_def intro!: growth focus_grows)
  have mini: "returns (dock_minimize junk p t) (\<lambda>(t', k). grows s0 t')" if "grows s0 t" for p t
    using that by (auto simp: dock_minimize_def cont_def intro!: growth cont_grows)
  have "returns (up_from_head n (dock_pick junk x w) fst s b) (\<lambda>(b', q). grows s0 (fst b'))" if "grows s0 (fst b)" for n w b
    unfolding up_from_head_def by (rule returns_links) (rule pick, assumption, rule that)
  then have one: "returns (rbind (up_from_head n (dock_pick junk x w) fst s (s, y)) (\<lambda>(st, p). Inr (fst st))) (grows s0)" for n w y
    using assms by (intro returns_rbind [where P = "\<lambda>(b', q). grows s0 (fst b')"]) auto
  have "returns (up_from_head n (dock_minimize junk) (\<lambda>t. t) t t) (\<lambda>(t', q). grows s0 t')" if "grows s0 t" for n t
    unfolding up_from_head_def by (rule returns_links) (rule mini, assumption, rule that)
  then have two: "returns (rbind (up_from_head n (dock_minimize junk) (\<lambda>t. t) t t) (\<lambda>(t', p). Inr t')) (grows s0)"
    if "grows s0 t" for n t
    using that by (intro returns_rbind [where P = "\<lambda>(t', q). grows s0 t'"]) auto
  show ?thesis unfolding handleDesktopDockClick_def Let_def
    by (rule returns_get) (auto intro!: growth one two assms)
qed

lemma hit_grows: "grows s0 s \<Longrightarrow> returns (wm_focus_hit s) (grows s0)"
proof -
  assume s: "grows s0 s"
  have body: "returns (rbind (get_slot t p) (\<lambda>c. if hits t p c then rbind (focusWindow t p) brk else cont t)) (\<lambda>(t', k). grows s0 t')"
    if "grows s0 t" for p t
    using that by (auto simp: brk_def cont_def intro!: growth focus_grows)
  have "returns (down_from_tail n (\<lambda>p t. rbind (get_slot t p) (\<lambda>c. if hits t p c then rbind (focusWindow t p) brk else cont t)) (\<lambda>t. t) s s)
      (\<lambda>(t', q). grows s0 t')" for n
    unfolding down_from_tail_def by (rule returns_links) (rule body, assumption, rule s)
  then show ?thesis unfolding wm_focus_hit_def
    by (rule returns_rbind) (auto intro!: growth focus_grows)
qed

lemma handle_grows: "grows s0 s \<Longrightarrow> returns (wmHandleMessage junk s msg) (grows s0)"
proof -
  assume s: "grows s0 s"
  have "returns (wm_mouse_move junk s msg) (grows s0)"
    using s by (auto simp: wm_mouse_move_def Let_def intro!: growth move_grows to_focus_grows)
  moreover have "returns (wm_press_focused junk t msg) (grows s0)" if "grows s0 t" for t
    using that by (auto simp: wm_press_focused_def press_title_def press_content_def Let_def intro!: growth)
  then have "returns (wm_mouse_down junk s msg) (grows s0)"
    using s by (auto simp: wm_mouse_down_def intro!: growth hit_grows)
  moreover have up: "returns (wm_mouse_up junk t msg) (grows s0)" if "grows s0 t" for t
    using that by (auto simp: wm_mouse_up_def Let_def intro!: growth to_focus_grows)
  moreover have "returns (wm_mouse_click junk s msg) (grows s0)"
    unfolding wm_mouse_click_def Let_def
    by (rule grows_bind) (auto intro!: growth to_focus_grows dock_grows up simp: s)
  ultimately show ?thesis using s by (auto simp: wmHandleMessage_def intro!: growth)
qed

lemma minimize_grows: "grows s0 s \<Longrightarrow> returns (minimizeWindow s w) (\<lambda>(s', r). grows s0 s')"
  by (auto simp: minimizeWindow_def Let_def upd_wnd_def intro!: growth focus_grows)

lemma maximize_grows: "grows s0 s \<Longrightarrow> returns (maximizeWindow s w) (\<lambda>(s', r). grows s0 s')"
  by (auto simp: maximizeWindow_def Let_def upd_wnd_def intro!: growth focus_grows)

lemma turnoff_grows: "returns (turnoffScreen junk s) (grows s)"
proof -
  have "returns (up_from_head n (\<lambda>p t. cont_res (post t p (plain_msg (junk 770) WM_WINDOW_CLOSE))) (\<lambda>t. t) s s)
      (\<lambda>(t', q). grows s t')" for n
    unfolding up_from_head_def by (rule returns_links) (auto intro!: cont_grows post_grows grows_same)
  then show ?thesis unfolding turnoffScreen_def by (rule returns_rbind) auto
qed

subsection \<open>Reachable states\<close>

definition is_open :: "wm \<Rightarrow> int \<Rightarrow> bool" where
  "is_open s h \<longleftrightarrow> in_range h (windowlist s) \<and>
     \<not> (slot_next (windowlist s ! nat h) = h \<and> slot_prev (windowlist s ! nat h) = h)"

text \<open>
  What the clients have to respect, since the code does not check it. Handles name open windows. The window closed is neither the
  desktop nor the bottom one, and its queue and the popup's are not emptied by a close while a process is between the two steps of a
  poll of them. At most one process at a time polls the popup's queue (two can both find the same last message and drive the count to
  \<open>-1\<close>, \<open>getMessage_race\<close> in \<open>Queues\<close>); for the queue of a window the code's test of the owner excludes that.
\<close>

definition allowed :: "wm_polls \<Rightarrow> wm_op \<Rightarrow> bool" where
  "allowed sp op = (let (s, pd) = sp in case op of
     CloseWindow w \<Rightarrow> is_open s (handler w) \<and> handler w \<noteq> windowlisthead s \<and> handler w \<noteq> desktopId s \<and>
       WindowQueue (handler w) \<notin> ran pd
   | ClosePopup w \<Rightarrow> PopupQueue \<notin> ran pd
   | MinimizeWindow w \<Rightarrow> is_open s (handler w)
   | MaximizeWindow w \<Rightarrow> is_open s (handler w)
   | GetMessage p h \<Rightarrow> is_open s h
   | GetPopupMessage p \<Rightarrow> PopupQueue \<notin> ran pd
   | _ \<Rightarrow> True)"

text \<open>A process that is to take a message from a queue finds one there.\<close>

definition pending_ok :: "wm \<Rightarrow> (int \<Rightarrow> poll option) \<Rightarrow> nat list \<Rightarrow> bool" where
  "pending_ok s pd ids \<longleftrightarrow>
     (\<forall>p h. pd p = Some (WindowQueue h) \<longrightarrow> (\<exists>w\<in>set ids. h = int w \<and> slot_proc (windowlist s ! w) = p \<and>
        0 < mb_cnt (kw_msg_buf (wnd (windowlist s ! w))))) \<and>
     (\<forall>p. pd p = Some PopupQueue \<longrightarrow> caller (popupwindow s) \<noteq> -1 \<and> 0 < mb_cnt (kw_msg_buf (pop_wnd (popupwindow s)))) \<and>
     (\<forall>p q. pd p = Some PopupQueue \<longrightarrow> pd q = Some PopupQueue \<longrightarrow> p = q)"

definition wm_inv :: "wm_polls \<Rightarrow> bool" where
  "wm_inv sp \<longleftrightarrow> (\<exists>ids. wm_ok (fst sp) ids \<and> pending_ok (fst sp) (snd sp) ids)"

lemma pending_none: "pending_ok s (\<lambda>_. None) ids"
  by (simp add: pending_ok_def)

lemma pending_mono:
  assumes "pending_ok s pd ids"
    and "\<And>w p. pd p = Some (WindowQueue (int w)) \<Longrightarrow> w \<in> set ids \<Longrightarrow> w \<in> set ids' \<and> slot_proc (windowlist s' ! w) = slot_proc (windowlist s ! w) \<and>
      mb_cnt (kw_msg_buf (wnd (windowlist s ! w))) \<le> mb_cnt (kw_msg_buf (wnd (windowlist s' ! w)))"
    and "\<And>p. pd p = Some PopupQueue \<Longrightarrow> caller (popupwindow s') = caller (popupwindow s) \<and>
      mb_cnt (kw_msg_buf (pop_wnd (popupwindow s))) \<le> mb_cnt (kw_msg_buf (pop_wnd (popupwindow s')))"
  shows "pending_ok s' pd ids'"
  unfolding pending_ok_def
proof (intro conjI allI impI)
  fix p h assume p: "pd p = Some (WindowQueue h)"
  then obtain w where "w \<in> set ids" "h = int w" "slot_proc (windowlist s ! w) = p" "0 < mb_cnt (kw_msg_buf (wnd (windowlist s ! w)))"
    using assms(1) by (auto simp: pending_ok_def)
  then show "\<exists>w\<in>set ids'. h = int w \<and> slot_proc (windowlist s' ! w) = p \<and> 0 < mb_cnt (kw_msg_buf (wnd (windowlist s' ! w)))"
    using assms(2) [of p w] p by (intro bexI [of _ w]) auto
next
  fix p assume "pd p = Some PopupQueue"
  then show "caller (popupwindow s') \<noteq> -1" "0 < mb_cnt (kw_msg_buf (pop_wnd (popupwindow s')))"
    using assms(1) assms(3) [of p] by (auto simp: pending_ok_def intro: less_le_trans)
next
  show "p = q" if "pd p = Some PopupQueue" "pd q = Some PopupQueue" for p q
    using that assms(1) by (auto simp: pending_ok_def)
qed

lemma pending_grows: "pending_ok s pd ids \<Longrightarrow> wm_ok s ids \<Longrightarrow> grows s s' \<Longrightarrow> set ids' = set ids \<Longrightarrow> pending_ok s' pd ids'"
  by (rule pending_mono) (auto simp: grows_def ok_len dest: ok_bound)

lemma inv_grows:
  assumes "wm_ok s ids" and "pending_ok s pd ids" and "ok m (wm_perm ids)" and "returns m (grows s)"
  shows "ok (rbind m (\<lambda>s'. Inr (s', pd))) wm_inv"
  using assms(3,4) pending_grows [OF assms(2,1)] by (fastforce simp: ok_def returns_def wm_perm_def wm_inv_def)

lemma is_open_iff: "wm_ok s ids \<Longrightarrow> is_open s h \<longleftrightarrow> (\<exists>w. h = int w \<and> w \<in> set ids)"
proof -
  assume okw: "wm_ok s ids"
  have dll: "dll 50 (links_of slot_next (windowlist s)) (links_of slot_prev (windowlist s)) ids"
    by (rule rep_dll [OF ok_rep [OF okw]])
  have "is_open s (int i) \<longleftrightarrow> i \<in> set ids" for i
  proof (cases "i < 50")
    case True
    then show ?thesis using dll_free_iff [OF dll True] ok_len [OF okw] by (auto simp: is_open_def links_of_def)
  next
    case False
    then show ?thesis using ok_bound [OF okw, of i] ok_len [OF okw] by (auto simp: is_open_def)
  qed
  moreover have "\<not> is_open s h" if "h < 0" using that by (simp add: is_open_def in_range_def)
  ultimately show ?thesis by (metis int_nat_eq nat_int not_less of_nat_less_0_iff zero_less_imp_eq_int linorder_not_le nonneg_int_cases)
qed

lemma poll_ok:
  assumes "wm_ok s ids" and "pending_ok s pd ids" and "is_open s h"
  shows "ok (rbind (sys_GUI_getMessage s p h) (\<lambda>q. Inr (s, pd(p := q)))) wm_inv"
proof -
  obtain w where w: "h = int w" "w \<in> set ids" using is_open_iff [OF assms(1)] assms(3) by blast
  have "0 \<le> mb_cnt (kw_msg_buf (wnd (windowlist s ! w)))"
    using ok_wnd [OF assms(1) ok_bound [OF assms(1) w(2)]] by (simp add: wnd_ok_def mb_inv_def)
  moreover have "pending_ok s (pd(p := None)) ids" using assms(2) by (auto simp: pending_ok_def)
  moreover have "pending_ok s (pd(p := Some (WindowQueue h))) ids"
    if "slot_proc (windowlist s ! w) = p" "0 < mb_cnt (kw_msg_buf (wnd (windowlist s ! w)))"
    using assms(2) that w by (auto simp: pending_ok_def)
  ultimately show ?thesis using ok_range [OF assms(1) w(2)] w(1) assms(1)
    by (auto simp: sys_GUI_getMessage_def wm_inv_def)
qed

lemma poll_popup_ok:
  assumes "wm_ok s ids" and "pending_ok s pd ids" and "PopupQueue \<notin> ran pd"
  shows "wm_inv (s, pd(p := sys_GUI_getPopupMessage s))"
proof -
  have "0 \<le> mb_cnt (kw_msg_buf (pop_wnd (popupwindow s)))"
    using ok_bufs [OF assms(1)] by (simp add: wm_bufs_def wnd_ok_def mb_inv_def)
  moreover have "pd q \<noteq> Some PopupQueue" for q using assms(3) by (auto simp: ran_def)
  ultimately have "pending_ok s (pd(p := sys_GUI_getPopupMessage s)) ids"
    using assms(2) by (auto simp: pending_ok_def sys_GUI_getPopupMessage_def)
  then show ?thesis using assms(1) by (auto simp: wm_inv_def)
qed

lemma take_ok:
  assumes "wm_ok s ids" and "pending_ok s pd ids" and "pd p = Some q"
  shows "ok (rbind (take_message s q) (\<lambda>(s', m). Inr (s', pd(p := None)))) wm_inv"
proof (cases q)
  case (WindowQueue h)
  then obtain w where w: "w \<in> set ids" "h = int w" "slot_proc (windowlist s ! w) = p" "0 < mb_cnt (kw_msg_buf (wnd (windowlist s ! w)))"
    using assms(2,3) by (auto simp: pending_ok_def)
  have d: "pending_ok s (pd(p := None)) ids" using assms(2) by (auto simp: pending_ok_def)
  have other: "v \<noteq> w" if "(pd(p := None)) r = Some (WindowQueue (int v))" for r v
    using that assms(2) w(3) by (fastforce simp: pending_ok_def split: if_splits)
  show ?thesis unfolding WindowQueue w(2)
  proof (rule ok_rbind [OF take_window_ok [OF assms(1) w(1,4)]])
    fix x assume x: "case x of (s', m) \<Rightarrow> wm_ok s' ids \<and> popupwindow s' = popupwindow s \<and>
      (\<forall>j<50. slot_proc (windowlist s' ! j) = slot_proc (windowlist s ! j)) \<and> (\<forall>j<50. j \<noteq> w \<longrightarrow> windowlist s' ! j = windowlist s ! j)"
    obtain s' m where xs: "x = (s', m)" by (cases x)
    have "pending_ok s' (pd(p := None)) ids"
      by (rule pending_mono [OF d]) (use x xs other ok_bound [OF assms(1)] in auto)
    then show "ok (case x of (s', m) \<Rightarrow> Inr (s', pd(p := None))) wm_inv" using x xs by (auto simp: wm_inv_def)
  qed
next
  case PopupQueue
  then have c: "0 < mb_cnt (kw_msg_buf (pop_wnd (popupwindow s)))" "\<And>r. r \<noteq> p \<Longrightarrow> pd r \<noteq> Some PopupQueue"
    using assms(2,3) by (auto simp: pending_ok_def)
  have d: "pending_ok s (pd(p := None)) ids" using assms(2) by (auto simp: pending_ok_def)
  show ?thesis unfolding PopupQueue
  proof (rule ok_rbind [OF take_popup_ok [OF assms(1) c(1)]])
    fix x assume x: "case x of (s', m) \<Rightarrow> wm_ok s' ids \<and> windowlist s' = windowlist s"
    obtain s' m where xs: "x = (s', m)" by (cases x)
    have "pending_ok s' (pd(p := None)) ids"
      by (rule pending_mono [OF d]) (use x xs c(2) in \<open>auto split: if_splits\<close>)
    then show "ok (case x of (s', m) \<Rightarrow> Inr (s', pd(p := None))) wm_inv" using x xs by (auto simp: wm_inv_def)
  qed
qed

lemma create_step_ok:
  assumes "wm_ok s ids" and "pending_ok s pd ids"
  shows "ok (rbind (createWindow s p w t) (\<lambda>(s', w', r). Inr (s', pd))) wm_inv"
proof (rule ok_rbind [OF create_ok [OF assms(1), of p w t]])
  fix x assume "case x of (s', w', r) \<Rightarrow> \<exists>ids'. wm_ok s' ids' \<and> set ids \<subseteq> set ids' \<and> popupwindow s' = popupwindow s \<and>
    (\<forall>j\<in>set ids. wnd (windowlist s' ! j) = wnd (windowlist s ! j) \<and> slot_proc (windowlist s' ! j) = slot_proc (windowlist s ! j))"
  then obtain s' w' r ids' where x: "x = (s', w', r)" "wm_ok s' ids'" "set ids \<subseteq> set ids'" "popupwindow s' = popupwindow s"
    "\<forall>j\<in>set ids. wnd (windowlist s' ! j) = wnd (windowlist s ! j) \<and> slot_proc (windowlist s' ! j) = slot_proc (windowlist s ! j)"
    by (cases x) auto
  have "pending_ok s' pd ids'" by (rule pending_mono [OF assms(2)]) (use x(3-5) in auto)
  then show "ok (case x of (s', w', r) \<Rightarrow> Inr (s', pd)) wm_inv" using x(1,2) by (auto simp: wm_inv_def)
qed

lemma close_step_ok:
  assumes "wm_ok s ids" and "pending_ok s pd ids" and "allowed (s, pd) (CloseWindow wd)"
  shows "ok (rbind (closeWindow s wd) (\<lambda>(s', w', r). Inr (s', pd))) wm_inv"
proof -
  have a: "is_open s (handler wd)" "handler wd \<noteq> windowlisthead s" "handler wd \<noteq> desktopId s" "WindowQueue (handler wd) \<notin> ran pd"
    using assms(3) by (simp_all add: allowed_def)
  obtain w where w: "handler wd = int w" "w \<in> set ids" using is_open_iff [OF assms(1)] a(1) by blast
  have n: "pd p \<noteq> Some (WindowQueue (int w))" for p using a(4) w(1) by (auto simp: ran_def)
  have "int w \<noteq> windowlisthead s" "int w \<noteq> desktopId s" using a(2,3) w(1) by simp_all
  from close_ok [OF assms(1) w(2,1) this] obtain s' wd' r where s': "closeWindow s wd = Inr (s', wd', r)" "wm_ok s' (remove1 w ids)"
    "popupwindow s' = popupwindow s"
    "\<forall>j<50. j \<noteq> w \<longrightarrow> wnd (windowlist s' ! j) = wnd (windowlist s ! j) \<and> slot_proc (windowlist s' ! j) = slot_proc (windowlist s ! j)"
    by (auto simp: ok_def)
  have "pending_ok s' pd (remove1 w ids)"
  proof (rule pending_mono [OF assms(2)])
    fix v p assume v: "pd p = Some (WindowQueue (int v))" "v \<in> set ids"
    then have "v \<noteq> w" using n by auto
    then show "v \<in> set (remove1 w ids) \<and> slot_proc (windowlist s' ! v) = slot_proc (windowlist s ! v) \<and>
        mb_cnt (kw_msg_buf (wnd (windowlist s ! v))) \<le> mb_cnt (kw_msg_buf (wnd (windowlist s' ! v)))"
      using v(2) s'(4) ok_bound [OF assms(1) v(2)] by simp
  qed (simp add: s'(3))
  then show ?thesis using s'(1,2) by (auto simp: wm_inv_def)
qed

lemma popup_step_ok:
  assumes "wm_ok s ids" and "pending_ok s pd ids"
  shows "wm_inv (fst (createPopupWindow s p w c), pd)" and "PopupQueue \<notin> ran pd \<Longrightarrow> wm_inv (fst (closePopupWindow s w), pd)"
proof -
  have "pending_ok (fst (createPopupWindow s p w c)) pd ids"
    by (rule pending_mono [OF assms(2)]) (use assms(2) in \<open>auto simp: createPopupWindow_def Let_def pending_ok_def\<close>)
  then show "wm_inv (fst (createPopupWindow s p w c), pd)" using create_popup_ok [OF assms(1)] by (auto simp: wm_inv_def)
  show "wm_inv (fst (closePopupWindow s w), pd)" if "PopupQueue \<notin> ran pd"
  proof -
    have "pending_ok (fst (closePopupWindow s w)) pd ids"
      by (rule pending_mono [OF assms(2)]) (use that in \<open>auto simp: closePopupWindow_def Let_def ran_def\<close>)
    then show ?thesis using close_popup_ok [OF assms(1)] by (auto simp: wm_inv_def)
  qed
qed

lemma inv_window:
  assumes "wm_ok s ids" and "pending_ok s pd ids" and "ok m (\<lambda>(s', r). wm_perm ids s')" and "returns m (\<lambda>(s', r). grows s s')"
  shows "ok (rbind m (\<lambda>(s', r). Inr (s', pd))) wm_inv"
  using assms(3,4) pending_grows [OF assms(2,1)] by (fastforce simp: ok_def returns_def wm_perm_def wm_inv_def)

lemma step_ok:
  assumes "wm_inv sp" and "allowed sp op"
  shows "ok (wm_step junk op sp) wm_inv"
proof -
  obtain s pd where sp: "sp = (s, pd)" by (cases sp)
  obtain ids where i: "wm_ok s ids" "pending_ok s pd ids" using assms(1) by (auto simp: wm_inv_def sp)
  have open_w: "\<exists>w. handler wd = int w \<and> w \<in> set ids" if "is_open s (handler wd)" for wd
    using that is_open_iff [OF i(1)] by blast
  have refl: "grows s s" by (rule grows_same) simp_all
  show ?thesis
  proof (cases op)
    case (Event m)
    show ?thesis using inv_grows [OF i handle_ok [OF i(1)] handle_grows [OF refl], of junk m] by (simp add: Event wm_step_def sp)
  next
    case (CreateWindow p w t)
    then show ?thesis using create_step_ok [OF i, of p w t] by (simp add: wm_step_def sp)
  next
    case (CreatePopup p w c)
    then show ?thesis using popup_step_ok(1) [OF i] by (simp add: wm_step_def sp)
  next
    case (ClosePopup w)
    then show ?thesis using popup_step_ok(2) [OF i] assms(2) by (simp add: wm_step_def sp allowed_def)
  next
    case (CloseWindow w)
    then show ?thesis using close_step_ok [OF i] assms(2) by (simp add: wm_step_def sp)
  next
    case (MinimizeWindow w)
    then obtain n where "handler w = int n" "n \<in> set ids" using open_w [of w] assms(2) by (auto simp: allowed_def sp)
    from inv_window [OF i minimize_ok [OF i(1) this(2,1)] minimize_grows [OF refl]] show ?thesis
      by (simp add: MinimizeWindow wm_step_def sp)
  next
    case (MaximizeWindow w)
    then obtain n where n: "handler w = int n" "n \<in> set ids" using open_w [of w] assms(2) by (auto simp: allowed_def sp)
    have "set (raise n ids) = set ids" using set_raise [OF n(2) rep_distinct [OF ok_rep [OF i(1)]]] .
    then have "ok (maximizeWindow s w) (\<lambda>(s', r). wm_perm ids s')"
      using maximize_spec [OF i(1) n(2,1)] by (auto simp: wm_perm_def)
    from inv_window [OF i this maximize_grows [OF refl]] show ?thesis by (simp add: MaximizeWindow wm_step_def sp)
  next
    case (GetMessage p h)
    then show ?thesis using poll_ok [OF i] assms(2) by (simp add: wm_step_def sp allowed_def)
  next
    case (GetPopupMessage p)
    then show ?thesis using poll_popup_ok [OF i] assms(2) by (simp add: wm_step_def sp allowed_def)
  next
    case (TakeMessage p)
    then show ?thesis using take_ok [OF i] assms(1) by (simp add: wm_step_def sp split: option.split)
  next
    case TurnoffScreen
    have "ok (turnoffScreen junk s) (\<lambda>s'. wm_ok s' ids)"
      unfolding turnoffScreen_def
      by (rule ok_rbind [OF post_each_ok [OF i(1), where m = "plain_msg (junk 770) WM_WINDOW_CLOSE"]]) auto
    from inv_grows [OF i ok_perm [OF this] turnoff_grows] show ?thesis by (simp add: TurnoffScreen wm_step_def sp)
  qed
qed

inductive wm_reach :: "(nat \<Rightarrow> message) \<Rightarrow> wm_polls \<Rightarrow> wm_polls \<Rightarrow> bool" for junk s0 where
  reach_start: "wm_reach junk s0 s0"
| reach_step: "wm_reach junk s0 s \<Longrightarrow> allowed s op \<Longrightarrow> wm_step junk op s = Inr s' \<Longrightarrow> wm_reach junk s0 s'"

inductive_cases wm_reachE: "wm_reach junk s0 s"

lemma reach_inv: "wm_reach junk s0 s \<Longrightarrow> wm_inv s0 \<Longrightarrow> wm_inv s"
proof (induction rule: wm_reach.induct)
  case reach_start
  then show ?case .
next
  case (reach_step s op s')
  then show ?case using step_ok [of s op junk] by (auto simp: ok_def)
qed

subsection \<open>Moving the mouse\<close>

lemma track_spec:
  assumes "0 \<le> SCREEN_WIDTH s" and "0 \<le> SCREEN_HEIGHT s"
    and "- SCREEN_WIDTH s < params m 0 \<and> params m 0 < SCREEN_WIDTH s"
    and "- SCREEN_HEIGHT s < params m 1 \<and> params m 0 < SCREEN_HEIGHT s"
  shows "mouse_x (wm_track s m) = clamp (mouse_x s + params m 0) 0 (SCREEN_WIDTH s)"
    and "mouse_y (wm_track s m) = clamp (mouse_y s - params m 1) 0 (SCREEN_HEIGHT s)"
    and "last_x (wm_track s m) = mouse_x s" and "last_y (wm_track s m) = mouse_y s"
  using assms
  by (simp_all add: wm_track_def Let_def clamp_def min_c_def max_c_def MOUSE_SPEED_X_def MOUSE_SPEED_Y_def)

lemma track_bounds:
  assumes "0 \<le> SCREEN_WIDTH s" and "0 \<le> SCREEN_HEIGHT s"
  shows "0 \<le> mouse_x (wm_track s m) \<and> mouse_x (wm_track s m) \<le> SCREEN_WIDTH s \<and>
    0 \<le> mouse_y (wm_track s m) \<and> mouse_y (wm_track s m) \<le> SCREEN_HEIGHT s"
  using assms by (simp add: wm_track_def Let_def)

lemma track_same: "windowlist (wm_track s m) = windowlist s" "windowlisttail (wm_track s m) = windowlisttail s"
  "clickedOnTitle (wm_track s m) = clickedOnTitle s" "clickedOnContent (wm_track s m) = clickedOnContent s"
  by (simp_all add: wm_track_def Let_def)

subsection \<open>Concrete states\<close>

definition blank_wnd :: kernel_window where
  "blank_wnd = \<lparr>position = \<lparr>xmin = 0, xmax = 0, ymin = 0, ymax = 0\<rparr>, window_buf = 0, kw_msg_buf = zero_buf,
     title = replicate 50 0, minimized = 0, hasTitleBar = 0\<rparr>"

definition power_on :: wm where
  "power_on = \<lparr>windowlist = replicate 50 \<lparr>slot_proc = 0, wnd = blank_wnd, slot_next = 0, slot_prev = 0\<rparr>,
     windowlisthead = 0, windowlisttail = 0, desktopId = -1,
     popupwindow = \<lparr>pop_proc = 0, pop_wnd = blank_wnd, caller = 0\<rparr>, mouseShape = 0,
     clickedOnTitle = 0, clickedOnContent = 0, clickedOnPopup = 0, mouse_x = 0, mouse_y = 0,
     last_x = 0, last_y = 0, SCREEN_WIDTH = 800, SCREEN_HEIGHT = 600\<rparr>"

definition plain_window :: "int \<Rightarrow> window" where
  "plain_window h = \<lparr>initialPosition = \<lparr>xmin = 0, xmax = 100, ymin = 30, ymax = 80\<rparr>, w_hasTitleBar = 1,
     w_window_buf = 4096, w_width = 100, w_height = 50, scrollOffsetX = 0, scrollOffsetY = 0, handler = h\<rparr>"

lemma power_on_bufs: "length (windowlist power_on) = 50" "wm_bufs power_on" "desktopId power_on = -1"
  by (simp_all add: power_on_def wm_bufs_def wnd_ok_def blank_wnd_def mb_inv_def zero_buf_def)

lemma least_free_0: "least_free [] = Some 0"
  by (simp add: least_free_def upt_rec [of 0])

lemma least_free_1: "least_free [0] = Some 1"
  by (simp add: least_free_def upt_rec [of 0] upt_rec [of "Suc 0"])

lemma booted: "\<exists>s. wmInit power_on = Inr s \<and> wm_rep s [] \<and> wm_bufs s \<and> desktopId s = -1"
  using wmInit_spec [OF power_on_bufs] by (auto simp: ok_def)

lemma desktop_only: "\<exists>s. wm_ok s [0] \<and> desktopId s = 0"
proof -
  obtain s where s: "wm_rep s []" "wm_bufs s" "desktopId s = -1" using booted by blast
  obtain s' where "wm_rep s' ([] @ [0])" "wm_bufs s'" "desktopId s' = int 0"
    using create_spec [OF s(1,2) least_free_0, of 7 "plain_window 0" "[]"] s(3) by auto
  then show ?thesis by (auto simp: wm_ok_def)
qed

lemma two_windows: "\<exists>s. wm_ok s [0, 1] \<and> desktopId s = 0"
proof -
  obtain s where s: "wm_ok s [0]" "desktopId s = 0" using desktop_only by blast
  obtain s' where "wm_rep s' ([0] @ [1])" "wm_bufs s'" "desktopId s' = 0"
    using create_spec [OF ok_rep [OF s(1)] ok_bufs [OF s(1)] least_free_1, of 7 "plain_window 0" "[]"] s(2) by auto
  then show ?thesis by (auto simp: wm_ok_def)
qed

lemma desktop_raised: "\<exists>s. wm_ok s [1, 0] \<and> desktopId s = 0"
proof -
  obtain s where s: "wm_ok s [0, 1]" "desktopId s = 0" using two_windows by blast
  obtain s' where s': "wm_ok s' (raise 0 [0, 1])" "same_wnds s s'" using focus_ok [OF s(1), of 0] by auto
  then show ?thesis using same_wnds_rest(1) [OF s'(2)] s(2) by (auto simp: raise_def)
qed

subsection \<open>Properties\<close>

text \<open>
  C24 (wm_safety): after start-up and the creation of the desktop, take any sequence of mouse and keyboard
  events, window system calls and single steps of polls (the unlocked test of a queue, and later the removal of the message under the
  lock, with anything in between), with handles of open windows, never closing the bottom window or the desktop or a window under a
  poll of its own queue, and with one process at a time polling the popup. It reaches only well-formed states: a duplicate-free doubly
  linked stack that holds the desktop, every message queue within its ring, and a message still in the queue for every process that is
  about to take one. And in each of them the next such step terminates without any access outside an array.
\<close>

theorem wm_safety:
  assumes "wmInit s0 = Inr s1" and "length (windowlist s0) = 50" and "wm_bufs s0" and "desktopId s0 = -1"
    and "createWindow s1 p w t = Inr (s2, w', r)" and "wm_reach junk (s2, \<lambda>_. None) sp" and "allowed sp op"
  shows "wm_inv sp \<and> (\<exists>sp'. wm_step junk op sp = Inr sp')"
proof -
  have s1: "wm_rep s1 []" "wm_bufs s1" "desktopId s1 = -1"
    using wmInit_spec [OF assms(2-4)] assms(1) by auto
  obtain s where "createWindow s1 p w t = Inr (s, w\<lparr>handler := int 0\<rparr>, 0)" "wm_rep s [0]" "wm_bufs s" "desktopId s = 0"
    using create_spec [OF s1(1,2) least_free_0, of p w t] s1(3) by auto
  then have "wm_ok s2 [0]" using assms(5) by (simp add: wm_ok_def)
  then have "wm_inv (s2, \<lambda>_. None)" using pending_none by (auto simp: wm_inv_def)
  from reach_inv [OF assms(6) this] show ?thesis using step_ok [OF _ assms(7), of junk] by (auto simp: ok_def)
qed

text \<open>A key goes to the desktop, its process 7 finds it, another key arrives, and the message is taken.\<close>

theorem wm_safety_witness:
  "\<exists>s1 s2 w r sp1 sp2 sp3 sp4. wmInit power_on = Inr s1 \<and> createWindow s1 7 (plain_window 0) [] = Inr (s2, w, r) \<and>
     wm_step (\<lambda>_. some_msg 0) (Event (some_msg M_KEY_DOWN)) (s2, \<lambda>_. None) = Inr sp1 \<and>
     wm_step (\<lambda>_. some_msg 0) (GetMessage 7 0) sp1 = Inr sp2 \<and> snd sp2 7 = Some (WindowQueue 0) \<and>
     wm_step (\<lambda>_. some_msg 0) (Event (some_msg M_KEY_UP)) sp2 = Inr sp3 \<and> wm_inv sp3 \<and>
     wm_step (\<lambda>_. some_msg 0) (TakeMessage 7) sp3 = Inr sp4"
proof -
  obtain s1 where s1: "wmInit power_on = Inr s1" "wm_rep s1 []" "wm_bufs s1" "desktopId s1 = -1" using booted by blast
  obtain s2 where s2: "createWindow s1 7 (plain_window 0) [] = Inr (s2, plain_window 0\<lparr>handler := int 0\<rparr>, 0)"
    "wm_rep s2 [0]" "wm_bufs s2" "desktopId s2 = 0" "inbox s2 0 = []" "slot_proc (windowlist s2 ! 0) = 7"
    using create_spec [OF s1(2,3) least_free_0, of 7 "plain_window 0" "[]"] s1(4) by auto
  have ok2: "wm_ok s2 [0]" using s2(2-4) by (simp add: wm_ok_def)
  let ?j = "\<lambda>_ :: nat. some_msg 0" and ?m = "some_msg M_KEY_DOWN" and ?m' = "some_msg M_KEY_UP"
  have tail: "windowlisttail s2 = int 0" using ok_tail [OF ok2] by simp
  have e1: "wmHandleMessage ?j s2 ?m = post s2 (int 0) ?m" using tail by (simp add: wmHandleMessage_def some_msg_def msg_codes)
  obtain b where b: "post s2 (int 0) ?m = Inr (upd_at s2 0 (\<lambda>w. w\<lparr>kw_msg_buf := b\<rparr>))" "mb_inv b" "mb_contents b = [?m]"
    using post_eval [OF ok2, of 0 ?m] s2(5) by (auto simp: enqueue_def)
  define s3 where "s3 = upd_at s2 0 (\<lambda>w. w\<lparr>kw_msg_buf := b\<rparr>)"
  have st1: "wm_step ?j (Event ?m) (s2, \<lambda>_. None) = Inr (s3, \<lambda>_. None)" using e1 b(1) by (simp add: wm_step_def s3_def)
  have len: "0 < length (windowlist s2)" using ok_len [OF ok2] by simp
  have ok3: "wm_ok s3 [0]" unfolding s3_def by (rule wm_ok_upd [OF ok2]) (simp_all add: wnd_ok_def b(2))
  have "0 < mb_cnt b" using mb_length [OF b(2)] b(3) by (cases "mb_cnt b > 0") auto
  then have st2: "wm_step ?j (GetMessage 7 0) (s3, \<lambda>_. None) = Inr (s3, (\<lambda>_. None)(7 := Some (WindowQueue 0)))"
    using len s2(6) by (simp add: wm_step_def sys_GUI_getMessage_def s3_def upd_at_def upd_wnd_def in_range_def)
  have open0: "is_open s3 0" using is_open_iff [OF ok3, of 0] by simp
  let ?pd = "(\<lambda>_. None)(7 := Some (WindowQueue 0)) :: int \<Rightarrow> poll option"
  have a: "allowed (s2, \<lambda>_. None) (Event ?m)" "allowed (s3, \<lambda>_. None) (GetMessage 7 0)" "allowed (s3, ?pd) (Event ?m')" "allowed sp (TakeMessage 7)" for sp
    using open0 by (auto simp: allowed_def split: prod.split)
  have r3: "wm_reach ?j (s2, \<lambda>_. None) (s3, ?pd)"
    by (rule reach_step [OF reach_step [OF reach_start a(1) st1] a(2) st2])
  obtain sp3 where sp3: "wm_step ?j (Event ?m') (s3, ?pd) = Inr sp3" using wm_safety [OF s1(1) power_on_bufs s2(1) r3 a(3)] by blast
  obtain sp4 where sp4: "wm_inv sp3" "wm_step ?j (TakeMessage 7) sp3 = Inr sp4"
    using wm_safety [OF s1(1) power_on_bufs s2(1) reach_step [OF r3 a(3) sp3] a(4)] by blast
  show ?thesis
    by (intro exI conjI, rule s1(1), rule s2(1), rule st1, rule st2, simp, rule sp3, rule sp4(1), rule sp4(2))
qed

text \<open>
  C25 (press_routing): a press of the mouse that does not hit an open popup first sends the popup's queue the message to close (also when no
  popup is open). It raises the topmost visible window under the pointer (title bar included), or the desktop if there is none, keeps
  the order of the others, and sends to that window, and to no other window, its own messages: close or minimise in
  the corner of the title bar, and the press itself in the content area.
\<close>

theorem press_routing:
  assumes "wm_ok s ids" and "\<not> in_popup s" and "msg_type msg = M_MOUSE_DOWN"
  shows "ok (wmHandleMessage junk s msg) (\<lambda>s'. wm_ok s' (raise (target s ids) ids) \<and>
    delivered s (target s ids) (press_msgs junk s (position (wnd (windowlist s ! target s ids)))
      (position (pop_wnd (popupwindow s))) msg) s' \<and>
    popup_inbox s' = enqueue (plain_msg (junk 371) WM_WINDOW_CLOSE) (popup_inbox s))"
  using mouse_down_spec [OF assms(1,2), of junk msg] assms(3) by (simp add: wmHandleMessage_def msg_codes)

theorem press_routing_witness:
  "\<exists>s. wm_ok s [0, 1] \<and> \<not> in_popup s \<and> popup_inbox s = [] \<and>
     ok (wmHandleMessage (\<lambda>_. some_msg 0) s (some_msg M_MOUSE_DOWN)) (\<lambda>s'. wm_ok s' (raise (target s [0, 1]) [0, 1]) \<and>
       delivered s (target s [0, 1]) (press_msgs (\<lambda>_. some_msg 0) s (position (wnd (windowlist s ! target s [0, 1])))
         (position (pop_wnd (popupwindow s))) (some_msg M_MOUSE_DOWN)) s' \<and> popup_inbox s' = [some_msg WM_WINDOW_CLOSE])"
proof -
  obtain s0 where "wm_ok s0 [0, 1]" using two_windows by blast
  then have s: "wm_ok (fst (closePopupWindow s0 (plain_window 0))) [0, 1]" by (rule close_popup_ok)
  have p: "\<not> in_popup (fst (closePopupWindow s0 (plain_window 0)))" "popup_inbox (fst (closePopupWindow s0 (plain_window 0))) = []"
    by (simp_all add: in_popup_def closePopupWindow_def popup_inbox_def Let_def)
  have m: "msg_type (some_msg M_MOUSE_DOWN) = M_MOUSE_DOWN" by (simp add: some_msg_def)
  have e: "enqueue (plain_msg (some_msg 0) WM_WINDOW_CLOSE) [] = [some_msg WM_WINDOW_CLOSE]" by (simp add: enqueue_def plain_msg_def some_msg_def)
  show ?thesis using s p press_routing [OF s p(1) m, of "\<lambda>_. some_msg 0", unfolded p(2) e] by blast
qed

text \<open>
  C26 (create_refines): \<open>createWindow\<close> puts the least free slot on top of the stack with an empty
  queue, the caller's process and the placed rectangle, leaves the other windows alone and returns
  0 and the handle; with all 50 slots in use it changes nothing and returns 1.
\<close>

theorem create_refines:
  assumes "wm_ok s ids"
  shows "ok (createWindow s p w t) (\<lambda>(s', w', r). case least_free ids of
      None \<Rightarrow> length ids = 50 \<and> s' = s \<and> w' = w \<and> r = 1
    | Some i \<Rightarrow> wm_ok s' (ids @ [i]) \<and> w' = w\<lparr>handler := int i\<rparr> \<and> r = 0 \<and>
        inbox s' i = [] \<and> slot_proc (windowlist s' ! i) = p \<and> position (wnd (windowlist s' ! i)) = placed s w \<and>
        (\<forall>j<50. j \<noteq> i \<longrightarrow> wnd (windowlist s' ! j) = wnd (windowlist s ! j)))"
proof (cases "least_free ids")
  case None
  then show ?thesis using create_full [OF ok_rep [OF assms] None] least_free_None [OF ok_rep [OF assms]] by simp
next
  case (Some i)
  have "desktopId s \<in> int ` set ids" using assms by (simp add: wm_ok_def)
  then show ?thesis using create_spec [OF ok_rep [OF assms] ok_bufs [OF assms] Some, of p w t] Some
    by (auto simp: wm_ok_def)
qed

theorem create_refines_witness:
  "\<exists>s. wm_ok s [0] \<and> ok (createWindow s 7 (plain_window 0) []) (\<lambda>(s', w', r). case least_free [0] of
      None \<Rightarrow> length [0 :: nat] = 50 \<and> s' = s \<and> w' = plain_window 0 \<and> r = 1
    | Some i \<Rightarrow> wm_ok s' ([0] @ [i]) \<and> w' = (plain_window 0)\<lparr>handler := int i\<rparr> \<and> r = 0 \<and>
        inbox s' i = [] \<and> slot_proc (windowlist s' ! i) = 7 \<and> position (wnd (windowlist s' ! i)) = placed s (plain_window 0) \<and>
        (\<forall>j<50. j \<noteq> i \<longrightarrow> wnd (windowlist s' ! j) = wnd (windowlist s ! j)))"
proof -
  obtain s where s: "wm_ok s [0]" using desktop_only by blast
  show ?thesis using s create_refines [OF s, of 7 "plain_window 0" "[]"] by blast
qed

text \<open>
  (close_refines): closing an open window that is neither the bottom one nor the desktop takes
  exactly it out of the stack, empties its queue and takes the handle back.
\<close>

theorem close_refines:
  assumes "wm_ok s ids" and "w \<in> set ids" and "handler wd = int w"
    and "w \<noteq> hd ids" and "int w \<noteq> desktopId s"
  shows "ok (closeWindow s wd) (\<lambda>(s', wd', r).
    wm_ok s' (remove1 w ids) \<and> r = 0 \<and> handler wd' = -1 \<and> inbox s' w = [])"
proof -
  have "windowlisthead s = int (hd ids)"
    using ok_rep [OF assms(1)] ok_nonempty [OF assms(1)] by (cases ids) (simp_all add: wm_rep_def)
  then show ?thesis using close_ok [OF assms(1-3)] assms(4,5) by (auto elim!: ok_mono)
qed

theorem close_refines_witness:
  "\<exists>s. wm_ok s [0, 1] \<and> ok (closeWindow s (plain_window 1)) (\<lambda>(s', wd', r).
     wm_ok s' (remove1 1 [0, 1]) \<and> r = 0 \<and> handler wd' = -1 \<and> inbox s' 1 = [])"
proof -
  obtain s where s: "wm_ok s [0, 1]" "desktopId s = 0" using two_windows by blast
  have "ok (closeWindow s (plain_window 1)) (\<lambda>(s', wd', r).
     wm_ok s' (remove1 1 [0, 1]) \<and> r = 0 \<and> handler wd' = -1 \<and> inbox s' 1 = [])"
    by (rule close_refines [OF s(1)]) (simp_all add: plain_window_def s(2))
  then show ?thesis using s(1) by blast
qed

text \<open>
  C27 (close_bottom_hangs): \<open>closeWindow\<close> does not move \<open>windowlisthead\<close>. After the bottom window is
  closed (any window over which the desktop has been raised can be the bottom one) the head points
  to a slot linked to itself, and the loop of \<open>getWindowCount\<close>, which the drawing of the dock runs,
  never ends, whatever the number of steps allowed.
\<close>

theorem close_bottom_hangs:
  assumes "wm_ok s (w # ys)" and "handler wd = int w"
  shows "ok (closeWindow s wd) (\<lambda>(s', wd', r). r = 0 \<and> (\<forall>fuel. getWindowCount fuel s' = Inl Hang))"
  using close_head_hangs [OF ok_rep [OF assms(1)] ok_bufs [OF assms(1)] assms(2)] .

theorem close_bottom_hangs_witness:
  "\<exists>s. wm_ok s [1, 0] \<and> desktopId s = 0 \<and>
     ok (closeWindow s (plain_window 1)) (\<lambda>(s', wd', r). r = 0 \<and> (\<forall>fuel. getWindowCount fuel s' = Inl Hang))"
proof -
  obtain s where s: "wm_ok s [1, 0]" "desktopId s = 0" using desktop_raised by blast
  have "handler (plain_window 1) = int 1" by (simp add: plain_window_def)
  then show ?thesis using s close_bottom_hangs [OF s(1), of "plain_window 1"] by blast
qed

text \<open>
  (drag_moves_focus): a mouse movement within the screen's dimensions leaves the pointer at the
  clamped target; while a title bar is held, the focused window, if it has a title bar, is translated
  by exactly the distance the pointer moved, every other window stays where it was, and no message
  is sent.
\<close>

theorem drag_moves_focus:
  assumes "wm_ok s ids" and "msg_type m = M_MOUSE_MOVE" and "clickedOnTitle s \<noteq> 0"
    and "0 \<le> SCREEN_WIDTH s" and "0 \<le> SCREEN_HEIGHT s"
    and "- SCREEN_WIDTH s < params m 0 \<and> params m 0 < SCREEN_WIDTH s"
    and "- SCREEN_HEIGHT s < params m 1 \<and> params m 0 < SCREEN_HEIGHT s"
  shows "ok (wmHandleMessage junk s m) (\<lambda>s'. wm_ok s' ids \<and>
    mouse_x s' = clamp (mouse_x s + params m 0) 0 (SCREEN_WIDTH s) \<and>
    mouse_y s' = clamp (mouse_y s - params m 1) 0 (SCREEN_HEIGHT s) \<and>
    (\<forall>j<50. inbox s' j = inbox s j \<and>
      position (wnd (windowlist s' ! j)) =
        (if j = last ids \<and> hasTitleBar (wnd (windowlist s ! j)) \<noteq> 0
         then moveRect (position (wnd (windowlist s ! j))) (mouse_x s' - mouse_x s) (mouse_y s' - mouse_y s)
         else position (wnd (windowlist s ! j)))))"
proof -
  let ?t = "(wm_track s m)\<lparr>mouseShape := 1\<rparr>" and ?i = "last ids"
  have t: "wm_ok ?t ids" using assms(1) by simp
  note tr = track_spec [OF assms(4-7)]
  have i: "windowlisttail s = int ?i" "?i < 50" using ok_tail [OF assms(1)] ok_bound [OF assms(1)] by auto
  have len: "length (windowlist s) = 50" by (rule ok_len [OF assms(1)])
  let ?dx = "mouse_x (wm_track s m) - mouse_x s" and ?dy = "mouse_y (wm_track s m) - mouse_y s"
  have "wmHandleMessage junk s m = moveFocusWindow ?t ?dx ?dy"
    using assms(2,3) by (simp add: wmHandleMessage_def msg_codes wm_mouse_move_def Let_def track_same tr(3,4))
  also have "\<dots> = Inr (if hasTitleBar (wnd (windowlist s ! ?i)) \<noteq> 0
      then upd_at ?t ?i (\<lambda>w. w\<lparr>position := moveRect (position w) ?dx ?dy\<rparr>) else ?t)"
    using i len by (simp add: moveFocusWindow_def track_same upd_at_def)
  finally have eval: "wmHandleMessage junk s m = \<dots>" .
  have "wm_ok (upd_at ?t ?i (\<lambda>w. w\<lparr>position := moveRect (position w) ?dx ?dy\<rparr>)) ids"
    by (rule wm_ok_upd [OF t i(2)]) (simp add: wnd_ok_def)
  then show ?thesis unfolding eval using t tr(1,2) i len
    by (auto simp: upd_at_def upd_wnd_def inbox_def track_same nth_list_update)
qed

theorem drag_moves_focus_witness:
  "\<exists>s m. wm_ok s [0, 1] \<and> clickedOnTitle s \<noteq> 0 \<and>
     ok (wmHandleMessage (\<lambda>_. some_msg 0) s m) (\<lambda>s'. mouse_x s' = clamp (mouse_x s + params m 0) 0 (SCREEN_WIDTH s))"
proof -
  obtain s0 where "wm_ok s0 [0, 1]" using two_windows by blast
  define s where "s = s0\<lparr>clickedOnTitle := 1, SCREEN_WIDTH := 800, SCREEN_HEIGHT := 600\<rparr>"
  have s: "wm_ok s [0, 1]" using \<open>wm_ok s0 [0, 1]\<close> by (simp add: s_def wm_ok_def wm_rep_def wm_bufs_def)
  have "ok (wmHandleMessage (\<lambda>_. some_msg 0) s (some_msg M_MOUSE_MOVE)) (\<lambda>s'. wm_ok s' [0, 1] \<and>
    mouse_x s' = clamp (mouse_x s + params (some_msg M_MOUSE_MOVE) 0) 0 (SCREEN_WIDTH s) \<and>
    mouse_y s' = clamp (mouse_y s - params (some_msg M_MOUSE_MOVE) 1) 0 (SCREEN_HEIGHT s) \<and>
    (\<forall>j<50. inbox s' j = inbox s j \<and>
      position (wnd (windowlist s' ! j)) =
        (if j = last [0, 1] \<and> hasTitleBar (wnd (windowlist s ! j)) \<noteq> 0
         then moveRect (position (wnd (windowlist s ! j))) (mouse_x s' - mouse_x s) (mouse_y s' - mouse_y s)
         else position (wnd (windowlist s ! j)))))"
    by (rule drag_moves_focus [OF s]) (simp_all add: some_msg_def s_def)
  then have "ok (wmHandleMessage (\<lambda>_. some_msg 0) s (some_msg M_MOUSE_MOVE))
      (\<lambda>s'. mouse_x s' = clamp (mouse_x s + params (some_msg M_MOUSE_MOVE) 0) 0 (SCREEN_WIDTH s))"
    by (rule ok_mono) blast
  moreover have "clickedOnTitle s \<noteq> 0" by (simp add: s_def)
  ultimately show ?thesis using s by blast
qed

text \<open>
  C28 (key_routing): a key event goes to the queue of the focused (top) window and to no other; with no
  window at all (before the desktop exists) the handler indexes \<open>windowlist[-1]\<close>.
\<close>

theorem key_routing:
  assumes "wm_rep s ids" and "wm_bufs s" and "desktopId s \<in> int ` set ids \<or> ids = []"
    and "msg_type m = M_KEY_DOWN \<or> msg_type m = M_KEY_UP"
  shows "if ids = [] then wmHandleMessage junk s m = Inl OutOfBounds
    else ok (wmHandleMessage junk s m) (\<lambda>s'. wm_ok s' ids \<and> delivered s (last ids) [m] s')"
proof -
  have eval: "wmHandleMessage junk s m = post s (windowlisttail s) m"
    using assms(4) by (auto simp: wmHandleMessage_def msg_codes)
  show ?thesis
  proof (cases "ids = []")
    case True
    then have "windowlisttail s = -1" using assms(1) by (simp add: wm_rep_def)
    then show ?thesis using True by (simp add: eval post_def in_range_def)
  next
    case False
    then have "wm_ok s ids" using assms(1-3) by (simp add: wm_ok_def)
    from post_tail_spec [OF this, of m] show ?thesis using False by (auto simp: eval ok_def)
  qed
qed

theorem key_routing_witness:
  "\<exists>s. wmInit power_on = Inr s \<and> wm_rep s [] \<and>
     (if [] = ([] :: nat list) then wmHandleMessage (\<lambda>_. some_msg 0) s (some_msg M_KEY_DOWN) = Inl OutOfBounds
      else ok (wmHandleMessage (\<lambda>_. some_msg 0) s (some_msg M_KEY_DOWN))
             (\<lambda>s'. wm_ok s' [] \<and> delivered s (last []) [some_msg M_KEY_DOWN] s'))"
proof -
  obtain s where s: "wmInit power_on = Inr s" "wm_rep s []" "wm_bufs s" using booted by blast
  show ?thesis using s key_routing [OF s(2,3), of "some_msg M_KEY_DOWN"] by (fastforce simp: some_msg_def)
qed

end
