(* ===== verification/Raster.thy ===== *)
theory Raster
  imports Prelude
begin

text \<open>
  Pixel buffers and the reasoning shared by the kernel's and the user library's drawing code:
  pixels, \<open>drawPoint\<close> and \<open>drawPointAlpha\<close>, block copies, the two orders in which the code clips a
  loop, and the relation \<open>painted\<close>, which says which pixels of a buffer a drawing step changed and
  how. Its composition lemmas carry all the pixel-exactness proofs.

  A pixel is addressed as \<open>buf + y * W + x\<close>, in units of one \<open>struct RGB\<close>. Blending with an alpha
  strictly between 0 and 255 is floating-point arithmetic; its result for one colour component
  is a parameter \<open>mix a old new\<close>.
\<close>

subsection \<open>Pixels\<close>

record rgb =
  rB :: byte
  rG :: byte
  rR :: byte

record rgba =
  aA :: byte
  aB :: byte
  aG :: byte
  aR :: byte

type_synonym mixer = "byte \<Rightarrow> byte \<Rightarrow> byte \<Rightarrow> byte"

definition drawPoint :: "rgb \<Rightarrow> rgb \<Rightarrow> rgb" where
  "drawPoint origin color = color\<lparr>rR := rR origin, rG := rG origin, rB := rB origin\<rparr>"

definition drawPointAlpha :: "mixer \<Rightarrow> rgba \<Rightarrow> rgb \<Rightarrow> rgb" where
  "drawPointAlpha mix origin color =
     (if aA origin = 255 then color\<lparr>rR := aR origin, rG := aG origin, rB := aB origin\<rparr>
      else if aA origin = 0 then color
      else color\<lparr>rR := mix (aA origin) (rR color) (aR origin),
                 rG := mix (aA origin) (rG color) (aG origin),
                 rB := mix (aA origin) (rB color) (aB origin)\<rparr>)"

lemma drawPoint_eq: "drawPoint origin color = (origin :: rgb)"
  by (cases origin, cases color) (simp add: drawPoint_def)

lemma drawPoint_const: "drawPoint origin = (\<lambda>_. origin)"
  by (simp add: fun_eq_iff drawPoint_eq)

subsection \<open>Block copies\<close>

text \<open>
  \<open>memmove(dst + d, src + s, n * 3)\<close>: all \<open>n\<close> pixels are read before any is written. A negative
  \<open>n\<close> becomes a huge unsigned count.
\<close>

definition copy_px :: "'a list \<Rightarrow> int \<Rightarrow> 'a list \<Rightarrow> int \<Rightarrow> int \<Rightarrow> 'a list res" where
  "copy_px dst d src s n =
     (if n = 0 then Inr dst
      else if n < 0 \<or> d < 0 \<or> s < 0 \<or> d + n > int (length dst) \<or> s + n > int (length src) then Inl OutOfBounds
      else Inr (take (nat d) dst @ take (nat n) (drop (nat s) src) @ drop (nat (d + n)) dst))"

subsection \<open>Clipped loops\<close>

text \<open>The two orders of the tests, at the low and the high end of the visible range.\<close>

definition span_low :: "int \<Rightarrow> int \<Rightarrow> int \<Rightarrow> (nat \<Rightarrow> 's \<Rightarrow> 's res) \<Rightarrow> 's \<Rightarrow> 's res" where
  "span_low y hi n act =
     for_each (\<lambda>i s. if y + int i < 0 then cont s
                     else if y + int i \<ge> hi then brk s
                     else cont_res (act i s)) [0..<nat n]"

definition span_high :: "int \<Rightarrow> int \<Rightarrow> int \<Rightarrow> (nat \<Rightarrow> 's \<Rightarrow> 's res) \<Rightarrow> 's \<Rightarrow> 's res" where
  "span_high y hi n act =
     for_each (\<lambda>i s. if y + int i \<ge> hi then brk s
                     else if y + int i < 0 then cont s
                     else cont_res (act i s)) [0..<nat n]"

definition visible :: "int \<Rightarrow> int \<Rightarrow> int \<Rightarrow> nat list" where
  "visible y hi n = filter (\<lambda>i. 0 \<le> y + int i \<and> y + int i < hi) [0..<nat n]"

lemma span_low_eq: "span_low y hi n act s = for_each (\<lambda>i s. cont_res (act i s)) (visible y hi n) s"
  unfolding span_low_def visible_def by (rule for_each_clip)

lemma span_high_eq:
  assumes "0 \<le> hi"
  shows "span_high y hi n act s = for_each (\<lambda>i s. cont_res (act i s)) (visible y hi n) s"
proof -
  have "(\<lambda>i s. if y + int i \<ge> hi then brk s else if y + int i < 0 then cont s else cont_res (act i s)) =
        (\<lambda>i s. if y + int i < 0 then cont s else if y + int i \<ge> hi then brk s else cont_res (act i s))"
    using assms by (intro ext) auto
  then show ?thesis using span_low_eq [of y hi n act s] by (simp add: span_high_def span_low_def)
qed

lemma visible_distinct [simp]: "distinct (visible y hi n)"
  by (simp add: visible_def)

lemma set_visible: "i \<in> set (visible y hi n) \<longleftrightarrow> int i < n \<and> 0 \<le> y + int i \<and> y + int i < hi"
  by (auto simp: visible_def)

lemma ex_visible:
  "(\<exists>i \<in> set (visible y hi n). p = y + int i) \<longleftrightarrow> y \<le> p \<and> p < y + n \<and> 0 \<le> p \<and> p < hi"
proof
  assume "y \<le> p \<and> p < y + n \<and> 0 \<le> p \<and> p < hi"
  then show "\<exists>i \<in> set (visible y hi n). p = y + int i"
    by (intro bexI [of _ "nat (p - y)"]) (auto simp: set_visible)
qed (auto simp: set_visible)

subsection \<open>What a drawing step changed\<close>

definition pix :: "int \<Rightarrow> 'a list \<Rightarrow> int \<Rightarrow> int \<Rightarrow> 'a" where
  "pix W buf x y = buf ! nat (y * W + x)"

definition on_buf :: "int \<Rightarrow> 'a list \<Rightarrow> int \<Rightarrow> int \<Rightarrow> bool" where
  "on_buf W buf x y \<longleftrightarrow> 0 \<le> x \<and> x < W \<and> 0 \<le> y \<and> y * W + x < int (length buf)"

text \<open>\<open>painted W S g b b'\<close>: exactly the pixels in \<open>S\<close> were changed, each by \<open>g\<close> at its position.\<close>

definition painted :: "int \<Rightarrow> (int \<Rightarrow> int \<Rightarrow> bool) \<Rightarrow> (int \<Rightarrow> int \<Rightarrow> 'a \<Rightarrow> 'a) \<Rightarrow> 'a list \<Rightarrow> 'a list \<Rightarrow> bool" where
  "painted W S g b b' \<longleftrightarrow> length b' = length b \<and>
     (\<forall>x y. on_buf W b x y \<longrightarrow> pix W b' x y = (if S x y then g x y (pix W b x y) else pix W b x y))"

lemma on_buf_length: "length b' = length b \<Longrightarrow> on_buf W b' x y = on_buf W b x y"
  by (simp add: on_buf_def)

lemma painted_length: "painted W S g b b' \<Longrightarrow> length b' = length b"
  by (simp add: painted_def)

lemma painted_refl: "(\<And>x y. \<not> S x y) \<Longrightarrow> painted W S g b b"
  by (simp add: painted_def)

lemma painted_cong:
  "painted W S g b b' \<Longrightarrow> (\<And>x y. on_buf W b x y \<Longrightarrow> S x y = T x y) \<Longrightarrow>
   (\<And>x y c. on_buf W b x y \<Longrightarrow> T x y \<Longrightarrow> g x y c = h x y c) \<Longrightarrow> painted W T h b b'"
  by (simp add: painted_def)

lemma painted_trans:
  assumes "painted W S g b b1" and "painted W T g b1 b2"
    and "\<And>x y. S x y \<Longrightarrow> T x y \<Longrightarrow> on_buf W b x y \<Longrightarrow> (\<forall>c. g x y (g x y c) = g x y c)"
  shows "painted W (\<lambda>x y. S x y \<or> T x y) g b b2"
  using assms by (auto simp: painted_def on_buf_def)

text \<open>Addresses of distinct pixels differ.\<close>

lemma index_inj:
  assumes "0 \<le> x" "x < W" "0 \<le> x'" "x' < W" and "y * W + x = y' * W + (x' :: int)"
  shows "x = x' \<and> y = y'"
proof -
  have a: "(y * W + x) div W = y" using assms(1,2) by simp
  have b: "(y' * W + x') div W = y'" using assms(3,4) by simp
  have "y = y'" using a b assms(5) by metis
  then show ?thesis using assms(5) by simp
qed

lemma painted_mod:
  assumes "on_buf W b x y"
  shows "\<exists>b'. arr_mod b (y * W + x) f = Inr b' \<and> painted W (\<lambda>px py. px = x \<and> py = y) (\<lambda>_ _. f) b b'"
proof -
  have nn: "0 \<le> y * W + x" and r: "in_range (y * W + x) b"
    using assms by (auto simp: on_buf_def in_range_def)
  let ?b = "b[nat (y * W + x) := f (b ! nat (y * W + x))]"
  have "pix W ?b px py = (if px = x \<and> py = y then f (pix W b px py) else pix W b px py)" if "on_buf W b px py" for px py
  proof (cases "px = x \<and> py = y")
    case True
    then show ?thesis using r by (simp add: pix_def in_range_def nat_less_iff)
  next
    case False
    have "0 \<le> py * W + px" using that by (auto simp: on_buf_def)
    moreover have "py * W + px \<noteq> y * W + x"
      using False index_inj [of px W x py y] that assms by (auto simp: on_buf_def)
    ultimately have "nat (py * W + px) \<noteq> nat (y * W + x)" using nn by (simp add: eq_nat_nat_iff)
    then have "pix W ?b px py = pix W b px py" by (simp add: pix_def)
    then show ?thesis unfolding if_not_P [OF False] .
  qed
  then show ?thesis using r by (simp add: painted_def)
qed

text \<open>A block copy, and a block copy within one row.\<close>

lemma copy_px_nth:
  assumes "0 \<le> n" and "0 \<le> d" and "d + n \<le> int (length dst)" and "0 \<le> s" and "s + n \<le> int (length src)"
  shows "\<exists>b. copy_px dst d src s n = Inr b \<and> length b = length dst \<and>
    (\<forall>k < length dst. b ! k = (if d \<le> int k \<and> int k < d + n then src ! nat (s + (int k - d)) else dst ! k))"
proof -
  obtain n' d' s' where nat: "n = int n'" "d = int d'" "s = int s'"
    using assms(1,2,4) by (metis nonneg_int_cases)
  have le: "d' + n' \<le> length dst" "s' + n' \<le> length src" using assms(3,5) nat by auto
  let ?b = "take d' dst @ take n' (drop s' src) @ drop (d' + n') dst"
  have len: "length ?b = length dst" using le by simp
  have "?b ! k = (if d' \<le> k \<and> k < d' + n' then src ! (s' + (k - d')) else dst ! k)" if "k < length dst" for k
    using le that by (auto simp: nth_append)
  moreover have "nat (s + (int k - d)) = s' + (k - d')" if "d' \<le> k" for k
    using that by (simp add: nat(2,3) nat_eq_iff)
  moreover have "(d \<le> int k \<and> int k < d + n) = (d' \<le> k \<and> k < d' + n')" for k
    by (auto simp: nat(1,2))
  moreover have "copy_px dst d src s n = Inr ?b"
    using assms le by (auto simp: copy_px_def nat nat_add_distrib)
  ultimately show ?thesis using len by (intro exI [of _ ?b]) auto
qed

lemma row_range:
  assumes "0 \<le> x" and "x + n \<le> W" and "0 \<le> px" and "px < (W :: int)"
  shows "y * W + x \<le> py * W + px \<and> py * W + px < y * W + x + n \<longleftrightarrow> py = y \<and> x \<le> px \<and> px < x + n"
proof
  assume b: "y * W + x \<le> py * W + px \<and> py * W + px < y * W + x + n"
  define q where "q = py * W + px - y * W"
  have q: "0 \<le> q" "q < W" "py * W + px = y * W + q" using b assms(1,2) by (auto simp: q_def)
  have "px = q \<and> py = y" by (rule index_inj) (use assms(3,4) q in auto)
  then show "py = y \<and> x \<le> px \<and> px < x + n" using b by auto
qed auto

lemma painted_copy:
  assumes "0 \<le> n" and "0 \<le> x" and "x + n \<le> W" and "0 \<le> y" and "(y + 1) * W \<le> int (length b)"
    and "0 \<le> s" and "s + n \<le> int (length src)"
  shows "\<exists>b'. copy_px b (y * W + x) src s n = Inr b' \<and>
    painted W (\<lambda>px py. py = y \<and> x \<le> px \<and> px < x + n) (\<lambda>px py _. src ! nat (s + (px - x))) b b'"
proof -
  have d: "0 \<le> y * W + x" "y * W + x + n \<le> int (length b)" using assms by (auto simp: algebra_simps)
  from copy_px_nth [OF assms(1) d assms(6,7)] obtain b' where
    b': "copy_px b (y * W + x) src s n = Inr b'" "length b' = length b"
      "\<And>k. k < length b \<Longrightarrow> b' ! k = (if y * W + x \<le> int k \<and> int k < y * W + x + n
         then src ! nat (s + (int k - (y * W + x))) else b ! k)" by blast
  have "pix W b' px py = (if py = y \<and> x \<le> px \<and> px < x + n then src ! nat (s + (px - x)) else pix W b px py)"
    if o: "on_buf W b px py" for px py
  proof -
    have nn: "0 \<le> py * W + px" using o by (auto simp: on_buf_def)
    then have k: "nat (py * W + px) < length b" "int (nat (py * W + px)) = py * W + px"
      using o by (auto simp: on_buf_def nat_less_iff)
    have iff: "y * W + x \<le> py * W + px \<and> py * W + px < y * W + x + n \<longleftrightarrow> py = y \<and> x \<le> px \<and> px < x + n"
      by (rule row_range) (use o assms in \<open>auto simp: on_buf_def\<close>)
    have "py * W + px - (y * W + x) = px - x" if "py = y" using that by simp
    then show ?thesis unfolding pix_def b'(3) [OF k(1)] k(2) iff by auto
  qed
  then show ?thesis using b'(1,2) by (auto simp: painted_def)
qed

text \<open>A loop of steps that paint disjoint sets.\<close>

lemma painted_for_each:
  assumes "distinct is"
    and "\<And>i b. i \<in> set is \<Longrightarrow> length b = n \<Longrightarrow> \<exists>b'. act i b = Inr b' \<and> painted W (S i) g b b'"
    and "\<And>i j x y. i \<in> set is \<Longrightarrow> j \<in> set is \<Longrightarrow> i \<noteq> j \<Longrightarrow> S i x y \<Longrightarrow> \<not> S j x y"
    and "length b = n"
  shows "\<exists>b'. for_each (\<lambda>i s. cont_res (act i s)) is b = Inr b' \<and> painted W (\<lambda>x y. \<exists>i \<in> set is. S i x y) g b b'"
  using assms
proof (induction "is" arbitrary: b)
  case Nil
  then show ?case by (simp add: painted_refl)
next
  case (Cons i "is")
  have "\<exists>b'. act i b = Inr b' \<and> painted W (S i) g b b'"
    by (rule Cons.prems(2)) (use Cons.prems(4) in simp_all)
  then obtain b1 where b1: "act i b = Inr b1" "painted W (S i) g b b1" by blast
  have "length b1 = n" using painted_length [OF b1(2)] Cons.prems(4) by simp
  moreover have "\<exists>b'. act j b = Inr b' \<and> painted W (S j) g b b'" if "j \<in> set is" "length b = n" for j b
    by (rule Cons.prems(2)) (use that in simp_all)
  moreover have "\<not> S k x y" if "j \<in> set is" "k \<in> set is" "j \<noteq> k" "S j x y" for j k x y
    using Cons.prems(3) [of j k x y] that by simp
  moreover have "distinct is" using Cons.prems(1) by simp
  ultimately obtain b2 where b2: "for_each (\<lambda>i s. cont_res (act i s)) is b1 = Inr b2"
      "painted W (\<lambda>x y. \<exists>i \<in> set is. S i x y) g b1 b2"
    using Cons.IH [of b1] by blast
  have "painted W (\<lambda>x y. S i x y \<or> (\<exists>j \<in> set is. S j x y)) g b b2"
  proof (rule painted_trans [OF b1(2) b2(2)])
    fix x y assume "S i x y" and "\<exists>j \<in> set is. S j x y"
    then show "\<forall>c. g x y (g x y c) = g x y c" using Cons.prems(1,3) by (metis distinct.simps(2) list.set_intros)
  qed
  then show ?case using b1(1) b2(1) by simp
qed

text \<open>A grid of pixels: rows and columns of a rectangle at \<open>(x, y)\<close>, each painted if \<open>c\<close> says so.\<close>

definition paint_if :: "bool \<Rightarrow> int \<Rightarrow> ('a \<Rightarrow> 'a) \<Rightarrow> 'a list \<Rightarrow> 'a list res" where
  "paint_if c k f b = (if c then arr_mod b k f else Inr b)"

lemma painted_if:
  assumes "on_buf W b x y"
  shows "\<exists>b'. paint_if c (y * W + x) f b = Inr b' \<and> painted W (\<lambda>px py. px = x \<and> py = y \<and> c) (\<lambda>_ _. f) b b'"
  using painted_mod [OF assms, of f] by (cases c) (simp_all add: paint_if_def painted_refl)

lemma painted_grid:
  assumes "distinct rs" and "distinct cs"
    and "\<And>i. i \<in> set rs \<Longrightarrow> 0 \<le> y + int i \<and> (y + int i + 1) * W \<le> n"
    and "\<And>j. j \<in> set cs \<Longrightarrow> 0 \<le> x + int j \<and> x + int j < W"
    and "int (length b) = n"
  shows "\<exists>b'. for_each (\<lambda>i b. cont_res (for_each (\<lambda>j b. cont_res
        (paint_if (c i j) ((y + int i) * W + (x + int j)) (f i j) b)) cs b)) rs b = Inr b' \<and>
    painted W (\<lambda>px py. \<exists>i \<in> set rs. \<exists>j \<in> set cs. px = x + int j \<and> py = y + int i \<and> c i j)
      (\<lambda>px py. f (nat (py - y)) (nat (px - x))) b b'"
proof (rule painted_for_each [where n = "nat n"])
  fix i b assume i: "i \<in> set rs" and len: "length (b :: 'a list) = nat n"
  have n0: "0 \<le> n" using assms(5) by simp
  show "\<exists>b'. for_each (\<lambda>j b. cont_res (paint_if (c i j) ((y + int i) * W + (x + int j)) (f i j) b)) cs b = Inr b' \<and>
      painted W (\<lambda>px py. \<exists>j \<in> set cs. px = x + int j \<and> py = y + int i \<and> c i j)
        (\<lambda>px py. f (nat (py - y)) (nat (px - x))) b b'"
  proof (rule painted_for_each [where n = "nat n"])
    fix j b assume j: "j \<in> set cs" and len: "length (b :: 'a list) = nat n"
    have "on_buf W b (x + int j) (y + int i)"
      using assms(3) [OF i] assms(4) [OF j] len n0 by (simp add: on_buf_def algebra_simps)
    from painted_if [OF this, of "c i j" "f i j"] obtain b' where
      b': "paint_if (c i j) ((y + int i) * W + (x + int j)) (f i j) b = Inr b'"
        "painted W (\<lambda>px py. px = x + int j \<and> py = y + int i \<and> c i j) (\<lambda>_ _. f i j) b b'" by blast
    have "painted W (\<lambda>px py. px = x + int j \<and> py = y + int i \<and> c i j) (\<lambda>px py. f (nat (py - y)) (nat (px - x))) b b'"
      by (rule painted_cong [OF b'(2)]) auto
    then show "\<exists>b'. paint_if (c i j) ((y + int i) * W + (x + int j)) (f i j) b = Inr b' \<and>
        painted W (\<lambda>px py. px = x + int j \<and> py = y + int i \<and> c i j) (\<lambda>px py. f (nat (py - y)) (nat (px - x))) b b'"
      using b'(1) by blast
  qed (use assms(2) len in auto)
qed (use assms(1,5) in auto)

end
