(* ===== verification/Draw.thy ===== *)
theory Draw
  imports Raster
begin

text \<open>
  The kernel's drawing routines (gui.c) on a frame buffer of \<open>W\<close> by \<open>H\<close> pixels
  (\<open>SCREEN_WIDTH\<close>, \<open>SCREEN_HEIGHT\<close>), with an access outside the buffer as a result of its own.
  The font, icon and pointer tables (character.h, icons.h, mouse_shape.h) are functions.
\<close>

definition CHARACTER_WIDTH :: int where "CHARACTER_WIDTH = 9"
definition CHARACTER_HEIGHT :: int where "CHARACTER_HEIGHT = 18"
definition CHARACTER_NUMBER :: int where "CHARACTER_NUMBER = 96"
definition ICON_SIZE :: int where "ICON_SIZE = 30"
definition ICON_NUMBER :: int where "ICON_NUMBER = 5"
definition MOUSE_WIDTH :: int where "MOUSE_WIDTH = 15"
definition MOUSE_HEIGHT :: int where "MOUSE_HEIGHT = 18"

lemmas gui_consts = CHARACTER_WIDTH_def CHARACTER_HEIGHT_def CHARACTER_NUMBER_def ICON_SIZE_def
  ICON_NUMBER_def MOUSE_WIDTH_def MOUSE_HEIGHT_def

type_synonym canvas = "rgb list"

text \<open>\<open>table k i j\<close>: row \<open>i\<close>, column \<open>j\<close> of the \<open>k\<close>-th bitmap.\<close>

type_synonym bitmaps = "int \<Rightarrow> nat \<Rightarrow> nat \<Rightarrow> int"

text \<open>
  The loops of \<open>drawCharacter\<close> and \<open>drawIcon\<close>: they leave at the first row or column \<open>> H\<close> or
  \<open>> W\<close>, and test the column only where the bitmap is set.
\<close>

definition glyph_row :: "int \<Rightarrow> int \<Rightarrow> int \<Rightarrow> (nat \<Rightarrow> bool) \<Rightarrow> int \<Rightarrow> (rgb \<Rightarrow> rgb) \<Rightarrow> canvas \<Rightarrow> canvas res" where
  "glyph_row W x base bits n f =
     for_each (\<lambda>j b. if bits j then
                       if x + int j > W then brk b
                       else if x + int j < 0 then cont b
                       else cont_res (arr_mod b (base + x + int j) f)
                     else cont b) [0..<nat n]"

definition glyph_rows :: "int \<Rightarrow> int \<Rightarrow> int \<Rightarrow> int \<Rightarrow> (nat \<Rightarrow> nat \<Rightarrow> bool) \<Rightarrow> int \<Rightarrow> int \<Rightarrow> (rgb \<Rightarrow> rgb) \<Rightarrow> canvas \<Rightarrow> canvas res" where
  "glyph_rows W H x y bits rows cols f =
     for_each (\<lambda>i b. if y + int i > H then brk b
                     else if y + int i < 0 then cont b
                     else cont_res (glyph_row W x ((y + int i) * W) (bits i) cols f b)) [0..<nat rows]"

definition drawCharacter :: "mixer \<Rightarrow> bitmaps \<Rightarrow> int \<Rightarrow> int \<Rightarrow> canvas \<Rightarrow> int \<Rightarrow> int \<Rightarrow> int \<Rightarrow> rgba \<Rightarrow> (canvas \<times> int) res" where
  "drawCharacter mix font W H buf x y ch color =
     (let ord = ch - 0x20
      in if ord < 0 \<or> ord \<ge> CHARACTER_NUMBER - 1 then Inr (buf, -1)
         else rbind (glyph_rows W H x y (\<lambda>i j. font ord i j = 1) CHARACTER_HEIGHT CHARACTER_WIDTH
                       (drawPointAlpha mix color) buf) (\<lambda>b. Inr (b, CHARACTER_WIDTH)))"

definition drawIcon :: "mixer \<Rightarrow> bitmaps \<Rightarrow> int \<Rightarrow> int \<Rightarrow> canvas \<Rightarrow> int \<Rightarrow> int \<Rightarrow> int \<Rightarrow> rgba \<Rightarrow> (canvas \<times> int) res" where
  "drawIcon mix icons W H buf x y icon color =
     (if icon < 0 \<or> icon \<ge> ICON_NUMBER - 1 then Inr (buf, -1)
      else rbind (glyph_rows W H x y (\<lambda>i j. icons icon i j = 1) ICON_SIZE ICON_SIZE
                    (drawPointAlpha mix color) buf) (\<lambda>b. Inr (b, CHARACTER_WIDTH)))"

text \<open>
  A string is the memory from its first character to the end of the array that holds it; reading
  past the array without having met the terminating 0 is out of bounds.
\<close>

fun drawString_from :: "mixer \<Rightarrow> bitmaps \<Rightarrow> int \<Rightarrow> int \<Rightarrow> canvas \<Rightarrow> int \<Rightarrow> int \<Rightarrow> int \<Rightarrow> byte list \<Rightarrow> rgba \<Rightarrow> canvas res" where
  "drawString_from mix font W H buf x y offset_x [] color = Inl OutOfBounds"
| "drawString_from mix font W H buf x y offset_x (ch # str) color =
     (if ch = 0 then Inr buf
      else rbind (drawCharacter mix font W H buf (x + offset_x) y (sint ch) color) (\<lambda>(b, d).
             drawString_from mix font W H b x y (offset_x + d) str color))"

definition drawString :: "mixer \<Rightarrow> bitmaps \<Rightarrow> int \<Rightarrow> int \<Rightarrow> canvas \<Rightarrow> int \<Rightarrow> int \<Rightarrow> byte list \<Rightarrow> rgba \<Rightarrow> canvas res" where
  "drawString mix font W H buf x y str color = drawString_from mix font W H buf x y 0 str color"

fun drawStringMax_from :: "mixer \<Rightarrow> bitmaps \<Rightarrow> int \<Rightarrow> int \<Rightarrow> canvas \<Rightarrow> int \<Rightarrow> int \<Rightarrow> int \<Rightarrow> int \<Rightarrow> byte list \<Rightarrow> rgba \<Rightarrow> canvas res" where
  "drawStringMax_from mix font W H buf x y width offset_x [] color = Inl OutOfBounds"
| "drawStringMax_from mix font W H buf x y width offset_x (ch # str) color =
     (if ch \<noteq> 0 \<and> offset_x + CHARACTER_WIDTH \<le> width then
        rbind (drawCharacter mix font W H buf (x + offset_x) y (sint ch) color) (\<lambda>(b, d).
          drawStringMax_from mix font W H b x y width (offset_x + d) str color)
      else Inr buf)"

definition drawStringWithMaxWidth :: "mixer \<Rightarrow> bitmaps \<Rightarrow> int \<Rightarrow> int \<Rightarrow> canvas \<Rightarrow> int \<Rightarrow> int \<Rightarrow> int \<Rightarrow> byte list \<Rightarrow> rgba \<Rightarrow> canvas res" where
  "drawStringWithMaxWidth mix font W H buf x y width str color =
     drawStringMax_from mix font W H buf x y width 0 str color"

definition drawImage :: "mixer \<Rightarrow> int \<Rightarrow> canvas \<Rightarrow> rgba list \<Rightarrow> int \<Rightarrow> int \<Rightarrow> int \<Rightarrow> int \<Rightarrow> int \<Rightarrow> int \<Rightarrow> canvas res" where
  "drawImage mix W buf img x y width height max_x max_y =
     span_high y max_y height (\<lambda>i. span_high x max_x width (\<lambda>j b.
       rbind (arr_get img ((height - int i) * width + int j)) (\<lambda>p.
         arr_mod b ((y + int i) * W + x + int j) (drawPointAlpha mix p)))) buf"

definition draw24Image :: "int \<Rightarrow> canvas \<Rightarrow> rgb list \<Rightarrow> int \<Rightarrow> int \<Rightarrow> int \<Rightarrow> int \<Rightarrow> int \<Rightarrow> int \<Rightarrow> canvas res" where
  "draw24Image W buf img x y width height max_x max_y =
     (let max_line = (if max_x - x < width then max_x - x else width)
      in span_high y max_y height (\<lambda>i b. copy_px b ((y + int i) * W + x) img ((height - int i) * width) max_line) buf)"

definition draw24ImagePart :: "int \<Rightarrow> int \<Rightarrow> canvas \<Rightarrow> rgb list \<Rightarrow> int \<Rightarrow> int \<Rightarrow> int \<Rightarrow> int \<Rightarrow> int \<Rightarrow> int \<Rightarrow> int \<Rightarrow> int \<Rightarrow> canvas res" where
  "draw24ImagePart W H buf img x y width height subx suby subw subh =
     (if x \<ge> W \<or> y \<ge> H then Inr buf
      else
        let minj = (if x < 0 then - x else 0);
            maxj = (if x + subw > W then W - x else subw)
        in if minj \<ge> maxj then Inr buf
           else span_low y H subh (\<lambda>i b.
             copy_px b ((y + int i) * W + minj + x) img ((int i + suby) * width + subx + minj) (maxj - minj)) buf)"

definition drawRectBound :: "mixer \<Rightarrow> int \<Rightarrow> canvas \<Rightarrow> int \<Rightarrow> int \<Rightarrow> int \<Rightarrow> int \<Rightarrow> rgba \<Rightarrow> int \<Rightarrow> int \<Rightarrow> canvas res" where
  "drawRectBound mix W buf x y width height fill max_x max_y =
     span_low y max_y height (\<lambda>i. span_low x max_x width (\<lambda>j b.
       arr_mod b ((y + int i) * W + x + int j) (drawPointAlpha mix fill))) buf"

text \<open>The loops over the four sides: a pixel is set where the test allows it.\<close>

definition set_line :: "int \<Rightarrow> (nat \<Rightarrow> bool) \<Rightarrow> (nat \<Rightarrow> int) \<Rightarrow> rgb \<Rightarrow> canvas \<Rightarrow> canvas res" where
  "set_line n c k color =
     for_each (\<lambda>i b. if c i then cont_res (arr_set b (k i) color) else cont b) [0..<nat n]"

definition drawRectBorder :: "int \<Rightarrow> int \<Rightarrow> canvas \<Rightarrow> rgb \<Rightarrow> int \<Rightarrow> int \<Rightarrow> int \<Rightarrow> int \<Rightarrow> canvas res" where
  "drawRectBorder W H buf color x y width height =
     (if x \<ge> W \<or> x + width < 0 \<or> y \<ge> H \<or> y + height < 0 \<or> width < 0 \<or> height < 0 then Inr buf
      else
        let t = y * W + x
        in rbind (if y > 0
                  then set_line width (\<lambda>i. x + int i > 0 \<and> x + int i < W) (\<lambda>i. t + int i) color buf
                  else Inr buf) (\<lambda>b1.
           rbind (if y + height < H
                  then let p = t + height * W
                       in set_line width (\<lambda>i. y > 0 \<and> x + int i > 0 \<and> x + int i < W) (\<lambda>i. p + int i) color b1
                  else Inr b1) (\<lambda>b2.
           rbind (if x > 0
                  then set_line height (\<lambda>i. y + int i > 0 \<and> y + int i < H) (\<lambda>i. t + int i * W) color b2
                  else Inr b2) (\<lambda>b3.
           if x + width < W
           then let p = t + width
                in set_line height (\<lambda>i. y + int i > 0 \<and> y + int i < H) (\<lambda>i. p + int i * W) color b3
           else Inr b3))))"

definition drawRect :: "mixer \<Rightarrow> int \<Rightarrow> int \<Rightarrow> canvas \<Rightarrow> int \<Rightarrow> int \<Rightarrow> int \<Rightarrow> int \<Rightarrow> rgba \<Rightarrow> canvas res" where
  "drawRect mix W H buf x y width height fill = drawRectBound mix W buf x y width height fill W H"

definition drawRectByCoord :: "mixer \<Rightarrow> int \<Rightarrow> int \<Rightarrow> canvas \<Rightarrow> int \<Rightarrow> int \<Rightarrow> int \<Rightarrow> int \<Rightarrow> rgba \<Rightarrow> canvas res" where
  "drawRectByCoord mix W H buf x0 y0 x1 y1 fill = drawRect mix W H buf x0 y0 (x1 - x0) (y1 - y0) fill"

definition clearRect :: "int \<Rightarrow> int \<Rightarrow> canvas \<Rightarrow> canvas \<Rightarrow> int \<Rightarrow> int \<Rightarrow> int \<Rightarrow> int \<Rightarrow> canvas res" where
  "clearRect W H buf temp_buf x y width height =
     (let max_line = (if W - x < width then W - x else width)
      in span_high y H height (\<lambda>i b. copy_px b ((y + int i) * W + x) temp_buf ((y + int i) * W + x) max_line) buf)"

definition clearRectByCoord :: "int \<Rightarrow> int \<Rightarrow> canvas \<Rightarrow> canvas \<Rightarrow> int \<Rightarrow> int \<Rightarrow> int \<Rightarrow> int \<Rightarrow> canvas res" where
  "clearRectByCoord W H buf temp_buf x0 y0 x1 y1 = clearRect W H buf temp_buf x0 y0 (x1 - x0) (y1 - y0)"

definition drawMouse :: "bitmaps \<Rightarrow> (int \<Rightarrow> rgb) \<Rightarrow> int \<Rightarrow> int \<Rightarrow> canvas \<Rightarrow> int \<Rightarrow> int \<Rightarrow> int \<Rightarrow> canvas res" where
  "drawMouse pointer colors W H buf mode x y =
     span_high y H MOUSE_HEIGHT (\<lambda>i. span_high x W MOUSE_WIDTH (\<lambda>j b.
       let temp = pointer mode i j
       in if temp \<noteq> 0 then arr_mod b ((y + int i) * W + x + int j) (drawPoint (colors (temp - 1))) else Inr b)) buf"

definition clearMouse :: "int \<Rightarrow> int \<Rightarrow> canvas \<Rightarrow> canvas \<Rightarrow> int \<Rightarrow> int \<Rightarrow> canvas res" where
  "clearMouse W H buf temp_buf x y = clearRect W H buf temp_buf x y MOUSE_WIDTH MOUSE_HEIGHT"

subsection \<open>Rectangles\<close>

lemma rows_below:
  assumes "0 < W" and "m * W \<le> n" and "p < m"
  shows "(p + 1) * W \<le> (n :: int)"
proof -
  have "(p + 1) * W \<le> m * W" using assms by (intro mult_right_mono) auto
  then show ?thesis using assms(2) by simp
qed

lemma drawRectBound_painted:
  assumes "0 < W" and "max_x \<le> W" and "max_y * W \<le> int (length buf)"
  shows "\<exists>b. drawRectBound mix W buf x y width height fill max_x max_y = Inr b \<and>
    painted W (\<lambda>px py. x \<le> px \<and> px < x + width \<and> px < max_x \<and> y \<le> py \<and> py < y + height \<and> py < max_y)
      (\<lambda>_ _. drawPointAlpha mix fill) buf b"
proof -
  let ?rs = "visible y max_y height" and ?cs = "visible x max_x width"
  have eq: "drawRectBound mix W buf x y width height fill max_x max_y =
      for_each (\<lambda>i b. cont_res (for_each (\<lambda>j b. cont_res
        (paint_if True ((y + int i) * W + (x + int j)) (drawPointAlpha mix fill) b)) ?cs b)) ?rs buf"
    by (simp add: drawRectBound_def span_low_eq paint_if_def add.assoc)
  obtain b where b: "drawRectBound mix W buf x y width height fill max_x max_y = Inr b"
      "painted W (\<lambda>px py. \<exists>i \<in> set ?rs. \<exists>j \<in> set ?cs. px = x + int j \<and> py = y + int i \<and> True)
         (\<lambda>px py. drawPointAlpha mix fill) buf b"
    unfolding eq using painted_grid [of ?rs ?cs y W "int (length buf)" x buf "\<lambda>_ _. True" "\<lambda>_ _. drawPointAlpha mix fill"]
      rows_below [OF assms(1,3)] assms(1,2) by (auto simp: set_visible)
  have "(\<exists>i \<in> set ?rs. \<exists>j \<in> set ?cs. px = x + int j \<and> py = y + int i \<and> True) \<longleftrightarrow>
      (\<exists>i \<in> set ?rs. py = y + int i) \<and> (\<exists>j \<in> set ?cs. px = x + int j)" for px py by blast
  then have "painted W (\<lambda>px py. x \<le> px \<and> px < x + width \<and> px < max_x \<and> y \<le> py \<and> py < y + height \<and> py < max_y)
      (\<lambda>_ _. drawPointAlpha mix fill) buf b"
    by (intro painted_cong [OF b(2)]) (auto simp: ex_visible on_buf_def)
  then show ?thesis using b(1) by blast
qed

subsection \<open>Copies of images\<close>

lemma draw24ImagePart_painted:
  assumes "0 < W" and "0 \<le> H" and "H * W \<le> int (length buf)" and "0 \<le> subx" and "subx + subw \<le> width"
    and "0 \<le> suby" and "(suby + subh) * width \<le> int (length img)"
  shows "\<exists>b. draw24ImagePart W H buf img x y width height subx suby subw subh = Inr b \<and>
    painted W (\<lambda>px py. x \<le> px \<and> px < x + subw \<and> y \<le> py \<and> py < y + subh \<and> py < H)
      (\<lambda>px py _. img ! nat ((py - y + suby) * width + subx + (px - x))) buf b"
proof -
  let ?minj = "if x < 0 then - x else 0" and ?maxj = "if x + subw > W then W - x else subw"
  let ?S = "\<lambda>px py. x \<le> px \<and> px < x + subw \<and> y \<le> py \<and> py < y + subh \<and> py < H"
  let ?g = "\<lambda>px py (_ :: rgb). img ! nat ((py - y + suby) * width + subx + (px - x))"
  show ?thesis
  proof (cases "x \<ge> W \<or> y \<ge> H \<or> ?minj \<ge> ?maxj")
    case True
    then have "draw24ImagePart W H buf img x y width height subx suby subw subh = Inr buf"
      by (auto simp: draw24ImagePart_def Let_def)
    moreover have "painted W ?S ?g buf buf"
      by (rule painted_cong [of W "\<lambda>_ _. False" ?g, OF painted_refl]) (use True in \<open>auto simp: on_buf_def split: if_splits\<close>)
    ultimately show ?thesis by blast
  next
    case False
    let ?act = "\<lambda>i b. copy_px b ((y + int i) * W + ?minj + x) img ((int i + suby) * width + subx + ?minj) (?maxj - ?minj)"
    have eval: "draw24ImagePart W H buf img x y width height subx suby subw subh =
        for_each (\<lambda>i b. cont_res (?act i b)) (visible y H subh) buf"
      using False by (simp add: draw24ImagePart_def Let_def span_low_eq)
    have wd: "0 < width" using assms(4,5) False by (auto split: if_splits)
    have "\<exists>b. for_each (\<lambda>i b. cont_res (?act i b)) (visible y H subh) buf = Inr b \<and>
        painted W (\<lambda>px py. \<exists>i \<in> set (visible y H subh). py = y + int i \<and> x + ?minj \<le> px \<and> px < x + ?maxj) ?g buf b"
    proof (rule painted_for_each [where n = "length buf"])
      fix i b assume i: "i \<in> set (visible y H subh)" and len: "length (b :: rgb list) = length buf"
      let ?s = "(int i + suby) * width + subx + ?minj" and ?n = "?maxj - ?minj"
      have row: "(y + int i + 1) * W \<le> int (length b)"
        using rows_below [OF assms(1,3)] i len by (simp add: set_visible)
      have n: "0 \<le> ?n" "0 \<le> x + ?minj" "x + ?minj + ?n \<le> W" "0 \<le> y + int i"
        using False i by (auto simp: set_visible)
      have "0 \<le> (int i + suby) * width" using assms(6) wd by simp
      then have s0: "0 \<le> ?s" using assms(4) by auto
      have "(int i + suby + 1) * width \<le> int (length img)"
        using rows_below [OF wd assms(7), of "int i + suby"] i by (simp add: set_visible add.commute)
      moreover have "subx + ?minj + ?n \<le> width" using assms(5) by auto
      ultimately have sn: "?s + ?n \<le> int (length img)" by (simp add: algebra_simps)
      from painted_copy [OF n(1,2,3,4) row s0 sn] obtain b' where
        b': "copy_px b ((y + int i) * W + (x + ?minj)) img ?s ?n = Inr b'"
          "painted W (\<lambda>px py. py = y + int i \<and> x + ?minj \<le> px \<and> px < x + ?minj + ?n)
             (\<lambda>px py _. img ! nat (?s + (px - (x + ?minj)))) b b'" by blast
      have "painted W (\<lambda>px py. py = y + int i \<and> x + ?minj \<le> px \<and> px < x + ?maxj) ?g b b'"
        by (rule painted_cong [OF b'(2)]) (auto simp: algebra_simps)
      moreover have "?act i b = Inr b'" using b'(1) by (simp only: ac_simps)
      ultimately show "\<exists>b'. ?act i b = Inr b' \<and>
          painted W (\<lambda>px py. py = y + int i \<and> x + ?minj \<le> px \<and> px < x + ?maxj) ?g b b'" by blast
    qed auto
    then obtain b where b: "for_each (\<lambda>i b. cont_res (?act i b)) (visible y H subh) buf = Inr b"
      "painted W (\<lambda>px py. \<exists>i \<in> set (visible y H subh). py = y + int i \<and> x + ?minj \<le> px \<and> px < x + ?maxj) ?g buf b"
      by blast
    have "painted W ?S ?g buf b"
    proof (rule painted_cong [OF b(2)])
      fix px py assume o: "on_buf W buf px py"
      have "(\<exists>i \<in> set (visible y H subh). py = y + int i \<and> x + ?minj \<le> px \<and> px < x + ?maxj) \<longleftrightarrow>
          (\<exists>i \<in> set (visible y H subh). py = y + int i) \<and> x + ?minj \<le> px \<and> px < x + ?maxj" by blast
      then show "(\<exists>i \<in> set (visible y H subh). py = y + int i \<and> x + ?minj \<le> px \<and> px < x + ?maxj) = ?S px py"
        using o by (auto simp: ex_visible on_buf_def)
    qed simp
    then show ?thesis using b(1) eval by auto
  qed
qed

subsection \<open>Borders\<close>

text \<open>A loop that sets single pixels of one colour; repeated or overlapping settings do no harm.\<close>

lemma set_line_painted:
  assumes "\<And>i. int i < n \<Longrightarrow> c i \<Longrightarrow> on_buf W buf (xs i) (ys i) \<and> k i = ys i * W + xs i"
  shows "\<exists>b. set_line n c k color buf = Inr b \<and>
    painted W (\<lambda>px py. \<exists>i. int i < n \<and> c i \<and> px = xs i \<and> py = ys i) (\<lambda>_ _ _. color) buf b"
proof -
  have "\<exists>b. for_each (\<lambda>i b. if c i then cont_res (arr_set b (k i) color) else cont b) is buf = Inr b \<and>
      painted W (\<lambda>px py. \<exists>i \<in> set is. c i \<and> px = xs i \<and> py = ys i) (\<lambda>_ _ _. color) buf b"
    if "\<And>i. i \<in> set is \<Longrightarrow> c i \<Longrightarrow> on_buf W buf (xs i) (ys i) \<and> k i = ys i * W + xs i" for "is"
    using that
  proof (induction "is" arbitrary: buf)
    case Nil
    then show ?case by (simp add: painted_refl)
  next
    case (Cons i "is")
    obtain b1 where b1: "(if c i then cont_res (arr_set buf (k i) color) else cont buf) = Inr (b1, False)"
        "painted W (\<lambda>px py. c i \<and> px = xs i \<and> py = ys i) (\<lambda>_ _ _. color) buf b1"
    proof (cases "c i")
      case True
      then have o: "on_buf W buf (xs i) (ys i)" "k i = ys i * W + xs i" using Cons.prems [of i] by auto
      have "in_range (ys i * W + xs i) buf" using o(1) by (auto simp: on_buf_def in_range_def)
      then have "arr_set buf (k i) color = arr_mod buf (ys i * W + xs i) (\<lambda>_. color)" by (simp add: o(2))
      moreover obtain b1 where "arr_mod buf (ys i * W + xs i) (\<lambda>_. color) = Inr b1"
          "painted W (\<lambda>px py. px = xs i \<and> py = ys i) (\<lambda>_ _ _. color) buf b1"
        using painted_mod [OF o(1), of "\<lambda>_. color"] by blast
      ultimately show thesis using that [of b1] True by simp
    next
      case False
      then show thesis using that [of buf] by (simp add: cont_def painted_refl)
    qed
    have "length b1 = length buf" by (rule painted_length [OF b1(2)])
    then obtain b2 where b2: "for_each (\<lambda>i b. if c i then cont_res (arr_set b (k i) color) else cont b) is b1 = Inr b2"
        "painted W (\<lambda>px py. \<exists>i \<in> set is. c i \<and> px = xs i \<and> py = ys i) (\<lambda>_ _ _. color) b1 b2"
      using Cons.IH [of b1] Cons.prems by (auto simp: on_buf_def)
    have "painted W (\<lambda>px py. (c i \<and> px = xs i \<and> py = ys i) \<or> (\<exists>j \<in> set is. c j \<and> px = xs j \<and> py = ys j))
        (\<lambda>_ _ _. color) buf b2"
      by (rule painted_trans [OF b1(2) b2(2)]) simp
    then show ?case using b1(1) b2(1) by simp
  qed
  from this [of "[0..<nat n]"] obtain b where b: "set_line n c k color buf = Inr b"
      "painted W (\<lambda>px py. \<exists>i \<in> set [0..<nat n]. c i \<and> px = xs i \<and> py = ys i) (\<lambda>_ _ _. color) buf b"
    unfolding set_line_def using assms by fastforce
  have "painted W (\<lambda>px py. \<exists>i. int i < n \<and> c i \<and> px = xs i \<and> py = ys i) (\<lambda>_ _ _. color) buf b"
    by (rule painted_cong [OF b(2)]) (auto simp: zless_nat_eq_int_zless)
  then show ?thesis using b(1) by blast
qed

text \<open>The pixels of the border of a rectangle that the code shows: none in row 0 or column 0.\<close>

definition border_at :: "int \<Rightarrow> int \<Rightarrow> int \<Rightarrow> int \<Rightarrow> int \<Rightarrow> int \<Rightarrow> bool" where
  "border_at x y w h px py \<longleftrightarrow>
     (0 < y \<and> (py = y \<or> py = y + h) \<and> 0 < px \<and> x \<le> px \<and> px < x + w) \<or>
     (0 < py \<and> y \<le> py \<and> py < y + h \<and> (0 < x \<and> px = x \<or> px = x + w))"

lemma border_sides:
  "border_at x y w h px py \<longleftrightarrow>
     (0 < y \<and> py = y \<and> 0 < px \<and> x \<le> px \<and> px < x + w) \<or>
     (0 < y \<and> py = y + h \<and> 0 < px \<and> x \<le> px \<and> px < x + w) \<or>
     (0 < x \<and> px = x \<and> 0 < py \<and> y \<le> py \<and> py < y + h) \<or>
     (px = x + w \<and> 0 < py \<and> y \<le> py \<and> py < y + h)"
  by (auto simp: border_at_def)

lemma ex_offset: "(\<exists>i. int i < n \<and> P (x + int i)) \<longleftrightarrow> (\<exists>p. x \<le> p \<and> p < x + n \<and> P p)"
proof
  assume "\<exists>p. x \<le> p \<and> p < x + n \<and> P p"
  then obtain p where p: "x \<le> p" "p < x + n" "P p" by blast
  then have "int (nat (p - x)) < n \<and> P (x + int (nat (p - x)))" by simp
  then show "\<exists>i. int i < n \<and> P (x + int i)" by blast
next
  assume "\<exists>i. int i < n \<and> P (x + int i)"
  then obtain i where "int i < n" "P (x + int i)" by blast
  then show "\<exists>p. x \<le> p \<and> p < x + n \<and> P p" by (intro exI [of _ "x + int i"]) simp
qed

text \<open>A horizontal and a vertical side.\<close>

lemma hline_painted:
  assumes "0 < W" and "H * W \<le> int (length buf)" and "p = y * W + x" and "q \<Longrightarrow> 0 \<le> y \<and> y < H"
  shows "\<exists>b. set_line n (\<lambda>i. q \<and> x + int i > 0 \<and> x + int i < W) (\<lambda>i. p + int i) color buf = Inr b \<and>
    painted W (\<lambda>px py. q \<and> py = y \<and> 0 < px \<and> x \<le> px \<and> px < x + n) (\<lambda>_ _ _. color) buf b"
proof -
  have "on_buf W buf (x + int i) y \<and> p + int i = y * W + (x + int i)"
    if "int i < n" "q \<and> x + int i > 0 \<and> x + int i < W" for i
    using rows_below [OF assms(1,2), of y] assms(3,4) that by (auto simp: on_buf_def algebra_simps)
  then obtain b where b: "set_line n (\<lambda>i. q \<and> x + int i > 0 \<and> x + int i < W) (\<lambda>i. p + int i) color buf = Inr b"
      "painted W (\<lambda>px py. \<exists>i. int i < n \<and> (q \<and> x + int i > 0 \<and> x + int i < W) \<and> px = x + int i \<and> py = y)
        (\<lambda>_ _ _. color) buf b"
    using set_line_painted [of n "\<lambda>i. q \<and> x + int i > 0 \<and> x + int i < W" W buf "\<lambda>i. x + int i" "\<lambda>_. y" "\<lambda>i. p + int i" color]
    by blast
  have "painted W (\<lambda>px py. q \<and> py = y \<and> 0 < px \<and> x \<le> px \<and> px < x + n) (\<lambda>_ _ _. color) buf b"
  proof (rule painted_cong [OF b(2)])
    fix px py assume o: "on_buf W buf px py"
    show "(\<exists>i. int i < n \<and> (q \<and> x + int i > 0 \<and> x + int i < W) \<and> px = x + int i \<and> py = y) =
        (q \<and> py = y \<and> 0 < px \<and> x \<le> px \<and> px < x + n)"
      using ex_offset [of n "\<lambda>p. (q \<and> p > 0 \<and> p < W) \<and> px = p \<and> py = y" x] o by (auto simp: on_buf_def)
  qed simp
  then show ?thesis using b(1) by blast
qed

lemma vline_painted:
  assumes "0 < W" and "H * W \<le> int (length buf)" and "p = y * W + x" and "0 \<le> x" and "x < W"
  shows "\<exists>b. set_line n (\<lambda>i. y + int i > 0 \<and> y + int i < H) (\<lambda>i. p + int i * W) color buf = Inr b \<and>
    painted W (\<lambda>px py. px = x \<and> 0 < py \<and> y \<le> py \<and> py < y + n \<and> py < H) (\<lambda>_ _ _. color) buf b"
proof -
  have "on_buf W buf x (y + int i) \<and> p + int i * W = (y + int i) * W + x"
    if "int i < n" "y + int i > 0 \<and> y + int i < H" for i
    using rows_below [OF assms(1,2), of "y + int i"] assms(3-5) that by (auto simp: on_buf_def algebra_simps)
  then obtain b where b: "set_line n (\<lambda>i. y + int i > 0 \<and> y + int i < H) (\<lambda>i. p + int i * W) color buf = Inr b"
      "painted W (\<lambda>px py. \<exists>i. int i < n \<and> (y + int i > 0 \<and> y + int i < H) \<and> px = x \<and> py = y + int i)
        (\<lambda>_ _ _. color) buf b"
    using set_line_painted [of n "\<lambda>i. y + int i > 0 \<and> y + int i < H" W buf "\<lambda>_. x" "\<lambda>i. y + int i" "\<lambda>i. p + int i * W" color]
    by blast
  have "painted W (\<lambda>px py. px = x \<and> 0 < py \<and> y \<le> py \<and> py < y + n \<and> py < H) (\<lambda>_ _ _. color) buf b"
  proof (rule painted_cong [OF b(2)])
    fix px py assume "on_buf W buf px py"
    show "(\<exists>i. int i < n \<and> (y + int i > 0 \<and> y + int i < H) \<and> px = x \<and> py = y + int i) =
        (px = x \<and> 0 < py \<and> y \<le> py \<and> py < y + n \<and> py < H)"
      using ex_offset [of n "\<lambda>p. (p > 0 \<and> p < H) \<and> px = x \<and> py = p" y] by auto
  qed simp
  then show ?thesis using b(1) by blast
qed

text \<open>One side after another; each loop may be skipped.\<close>

definition paints :: "int \<Rightarrow> (int \<Rightarrow> int \<Rightarrow> bool) \<Rightarrow> rgb \<Rightarrow> canvas \<Rightarrow> canvas res \<Rightarrow> bool" where
  "paints W S color buf m \<longleftrightarrow> (\<exists>b. m = Inr b \<and> painted W S (\<lambda>_ _ _. color) buf b)"

lemma paints_skip: "(\<And>x y. on_buf W buf x y \<Longrightarrow> \<not> S x y) \<Longrightarrow> paints W S color buf (Inr buf)"
  by (auto simp: paints_def painted_def)

lemma paints_seq:
  assumes "paints W S color buf m" and "\<And>b. length b = length buf \<Longrightarrow> paints W T color b (f b)"
  shows "paints W (\<lambda>x y. S x y \<or> T x y) color buf (rbind m f)"
proof -
  obtain b where b: "m = Inr b" "painted W S (\<lambda>_ _ _. color) buf b" using assms(1) by (auto simp: paints_def)
  then obtain b' where b': "f b = Inr b'" "painted W T (\<lambda>_ _ _. color) b b'"
    using assms(2) [of b] painted_length [of W S] by (auto simp: paints_def)
  have "painted W (\<lambda>x y. S x y \<or> T x y) (\<lambda>_ _ _. color) buf b'" by (rule painted_trans [OF b(2) b'(2)]) simp
  then show ?thesis using b(1) b'(1) by (simp add: paints_def)
qed

lemma drawRectBorder_paints:
  assumes "0 < W" and "H * W \<le> int (length buf)" and "0 \<le> width" and "0 \<le> height"
  shows "\<exists>b. drawRectBorder W H buf color x y width height = Inr b \<and>
    painted W (\<lambda>px py. border_at x y width height px py \<and> py < H) (\<lambda>_ _ _. color) buf b"
proof (cases "x \<ge> W \<or> x + width < 0 \<or> y \<ge> H \<or> y + height < 0 \<or> width < 0 \<or> height < 0")
  case True
  have "painted W (\<lambda>px py. border_at x y width height px py \<and> py < H) (\<lambda>_ _ _. color) buf buf"
    by (rule painted_cong [of W "\<lambda>_ _. False", OF painted_refl])
      (use True assms(3,4) in \<open>auto simp: on_buf_def border_at_def\<close>)
  then show ?thesis using True by (simp add: drawRectBorder_def)
next
  case False
  let ?t = "y * W + x"
  have len: "H * W \<le> int (length b)" if "length b = length buf" for b :: canvas using assms(2) that by simp
  have s1: "paints W (\<lambda>px py. 0 < y \<and> py = y \<and> 0 < px \<and> x \<le> px \<and> px < x + width) color buf
      (if y > 0 then set_line width (\<lambda>i. x + int i > 0 \<and> x + int i < W) (\<lambda>i. ?t + int i) color buf else Inr buf)"
    using hline_painted [where p = ?t and x = x and y = y and q = True, OF assms(1,2) refl, of width color] False
    by (auto simp: paints_def intro: painted_refl)
  have s2: "paints W (\<lambda>px py. 0 < y \<and> py = y + height \<and> py < H \<and> 0 < px \<and> x \<le> px \<and> px < x + width) color b
      (if y + height < H
       then set_line width (\<lambda>i. y > 0 \<and> x + int i > 0 \<and> x + int i < W) (\<lambda>i. ?t + height * W + int i) color b
       else Inr b)" if l: "length b = length buf" for b
  proof (cases "y + height < H")
    case True
    have p: "?t + height * W = (y + height) * W + x" by (simp add: algebra_simps)
    from hline_painted [OF assms(1) len [OF l] p, of "y > 0" width color] True False obtain b' where
      b': "set_line width (\<lambda>i. y > 0 \<and> x + int i > 0 \<and> x + int i < W) (\<lambda>i. ?t + height * W + int i) color b = Inr b'"
        "painted W (\<lambda>px py. y > 0 \<and> py = y + height \<and> 0 < px \<and> x \<le> px \<and> px < x + width) (\<lambda>_ _ _. color) b b'"
      by auto
    have "painted W (\<lambda>px py. 0 < y \<and> py = y + height \<and> py < H \<and> 0 < px \<and> x \<le> px \<and> px < x + width) (\<lambda>_ _ _. color) b b'"
      by (rule painted_cong [OF b'(2)]) (use True in auto)
    then show ?thesis using b'(1) True by (simp add: paints_def)
  next
    case False
    then show ?thesis by (auto intro: paints_skip)
  qed
  have s3: "paints W (\<lambda>px py. 0 < x \<and> px = x \<and> 0 < py \<and> y \<le> py \<and> py < y + height \<and> py < H) color b
      (if x > 0 then set_line height (\<lambda>i. y + int i > 0 \<and> y + int i < H) (\<lambda>i. ?t + int i * W) color b else Inr b)"
    if l: "length b = length buf" for b
    using vline_painted [where p = ?t and x = x and y = y, OF assms(1) len [OF l] refl, of height color] False
    by (auto simp: paints_def intro: painted_refl)
  have s4: "paints W (\<lambda>px py. px = x + width \<and> 0 < py \<and> y \<le> py \<and> py < y + height \<and> py < H) color b
      (if x + width < W then set_line height (\<lambda>i. y + int i > 0 \<and> y + int i < H) (\<lambda>i. ?t + width + int i * W) color b
       else Inr b)" if l: "length b = length buf" for b
  proof (cases "x + width < W")
    case True
    have p: "?t + width = y * W + (x + width)" by simp
    show ?thesis using vline_painted [OF assms(1) len [OF l] p, of height color] True False by (simp add: paints_def)
  qed (auto simp: on_buf_def intro: paints_skip)
  have "paints W (\<lambda>px py. (0 < y \<and> py = y \<and> 0 < px \<and> x \<le> px \<and> px < x + width) \<or>
      (0 < y \<and> py = y + height \<and> py < H \<and> 0 < px \<and> x \<le> px \<and> px < x + width) \<or>
      (0 < x \<and> px = x \<and> 0 < py \<and> y \<le> py \<and> py < y + height \<and> py < H) \<or>
      (px = x + width \<and> 0 < py \<and> y \<le> py \<and> py < y + height \<and> py < H)) color buf
      (drawRectBorder W H buf color x y width height)"
    unfolding drawRectBorder_def if_not_P [OF False] Let_def
    by (rule paints_seq [OF s1 paints_seq [OF s2 paints_seq [OF s3 s4]]]) (simp_all add: s2)
  then obtain b where b: "drawRectBorder W H buf color x y width height = Inr b"
      "painted W (\<lambda>px py. (0 < y \<and> py = y \<and> 0 < px \<and> x \<le> px \<and> px < x + width) \<or>
      (0 < y \<and> py = y + height \<and> py < H \<and> 0 < px \<and> x \<le> px \<and> px < x + width) \<or>
      (0 < x \<and> px = x \<and> 0 < py \<and> y \<le> py \<and> py < y + height \<and> py < H) \<or>
      (px = x + width \<and> 0 < py \<and> y \<le> py \<and> py < y + height \<and> py < H)) (\<lambda>_ _ _. color) buf b"
    by (auto simp: paints_def)
  have "painted W (\<lambda>px py. border_at x y width height px py \<and> py < H) (\<lambda>_ _ _. color) buf b"
    by (rule painted_cong [OF b(2)]) (use False in \<open>auto simp: border_sides\<close>)
  then show ?thesis using b(1) by blast
qed

subsection \<open>The pointer\<close>

lemma drawMouse_painted:
  assumes "0 < W" and "0 \<le> H" and "H * W \<le> int (length buf)"
  shows "\<exists>b. drawMouse pointer colors W H buf mode x y = Inr b \<and>
    painted W (\<lambda>px py. x \<le> px \<and> px < x + 15 \<and> y \<le> py \<and> py < y + 18 \<and> py < H \<and>
        pointer mode (nat (py - y)) (nat (px - x)) \<noteq> 0)
      (\<lambda>px py _. colors (pointer mode (nat (py - y)) (nat (px - x)) - 1)) buf b"
proof -
  let ?rs = "visible y H MOUSE_HEIGHT" and ?cs = "visible x W MOUSE_WIDTH"
  have eq: "drawMouse pointer colors W H buf mode x y =
      for_each (\<lambda>i b. cont_res (for_each (\<lambda>j b. cont_res
        (paint_if (pointer mode i j \<noteq> 0) ((y + int i) * W + (x + int j)) (\<lambda>_. colors (pointer mode i j - 1)) b)) ?cs b)) ?rs buf"
    using assms by (simp add: drawMouse_def span_high_eq paint_if_def add.assoc Let_def drawPoint_const cong: if_cong)
  obtain b where b: "drawMouse pointer colors W H buf mode x y = Inr b"
      "painted W (\<lambda>px py. \<exists>i \<in> set ?rs. \<exists>j \<in> set ?cs. px = x + int j \<and> py = y + int i \<and> pointer mode i j \<noteq> 0)
         (\<lambda>px py _. colors (pointer mode (nat (py - y)) (nat (px - x)) - 1)) buf b"
    unfolding eq using painted_grid [of ?rs ?cs y W "int (length buf)" x buf "\<lambda>i j. pointer mode i j \<noteq> 0"
        "\<lambda>i j _. colors (pointer mode i j - 1)"] rows_below [OF assms(1,3)] assms(1) by (auto simp: set_visible)
  have ex: "(\<exists>i \<in> set ?rs. \<exists>j \<in> set ?cs. px = x + int j \<and> py = y + int i \<and> pointer mode i j \<noteq> 0) \<longleftrightarrow>
      (\<exists>i \<in> set ?rs. py = y + int i) \<and> (\<exists>j \<in> set ?cs. px = x + int j) \<and> pointer mode (nat (py - y)) (nat (px - x)) \<noteq> 0" for px py
    by auto
  have "painted W (\<lambda>px py. x \<le> px \<and> px < x + 15 \<and> y \<le> py \<and> py < y + 18 \<and> py < H \<and>
        pointer mode (nat (py - y)) (nat (px - x)) \<noteq> 0)
      (\<lambda>px py _. colors (pointer mode (nat (py - y)) (nat (px - x)) - 1)) buf b"
  proof (rule painted_cong [OF b(2)])
    fix px py assume "on_buf W buf px py"
    then show "(\<exists>i \<in> set ?rs. \<exists>j \<in> set ?cs. px = x + int j \<and> py = y + int i \<and> pointer mode i j \<noteq> 0) =
        (x \<le> px \<and> px < x + 15 \<and> y \<le> py \<and> py < y + 18 \<and> py < H \<and> pointer mode (nat (py - y)) (nat (px - x)) \<noteq> 0)"
      unfolding ex unfolding ex_visible MOUSE_HEIGHT_def MOUSE_WIDTH_def by (auto simp: on_buf_def)
  qed simp
  then show ?thesis using b(1) by blast
qed

subsection \<open>Characters and icons\<close>

lemma for_each_cong:
  "(\<And>i s. i \<in> set is \<Longrightarrow> f i s = g i s) \<Longrightarrow> for_each f is s = for_each g is s"
proof (induction "is" arbitrary: s)
  case (Cons i "is")
  have "for_each f is s' = for_each g is s'" for s' by (rule Cons.IH) (use Cons.prems in auto)
  then show ?case using Cons.prems by (simp add: rbind_def split: sum.split)
qed simp

text \<open>Away from the bottom row and the right edge a glyph is drawn exactly.\<close>

lemma glyph_painted:
  assumes "0 < W" and "H * W \<le> int (length buf)" and "0 \<le> x" and "x + cols \<le> W" and "0 \<le> y" and "y + rows \<le> H"
  shows "\<exists>b. glyph_rows W H x y bits rows cols f buf = Inr b \<and>
    painted W (\<lambda>px py. x \<le> px \<and> px < x + cols \<and> y \<le> py \<and> py < y + rows \<and> bits (nat (py - y)) (nat (px - x)))
      (\<lambda>_ _. f) buf b"
proof -
  let ?rs = "visible y H rows" and ?cs = "visible x W cols"
  have vis: "[0..<nat rows] = ?rs" "[0..<nat cols] = ?cs"
    using assms(3-6) by (auto simp: visible_def intro!: filter_True [symmetric])
  have eq: "glyph_rows W H x y bits rows cols f buf =
      for_each (\<lambda>i b. cont_res (for_each (\<lambda>j b. cont_res
        (paint_if (bits i j) ((y + int i) * W + (x + int j)) f b)) ?cs b)) ?rs buf"
    unfolding glyph_rows_def glyph_row_def vis
  proof (rule for_each_cong)
    fix i b assume i: "i \<in> set ?rs"
    have "for_each (\<lambda>j b. if bits i j then if x + int j > W then brk b else if x + int j < 0 then cont b
              else cont_res (arr_mod b ((y + int i) * W + x + int j) f) else cont b) ?cs b =
          for_each (\<lambda>j b. cont_res (paint_if (bits i j) ((y + int i) * W + (x + int j)) f b)) ?cs b"
      by (rule for_each_cong) (auto simp: set_visible paint_if_def cont_def add.assoc)
    then show "(if y + int i > H then brk b else if y + int i < 0 then cont b else cont_res
        (for_each (\<lambda>j b. if bits i j then if x + int j > W then brk b else if x + int j < 0 then cont b
              else cont_res (arr_mod b ((y + int i) * W + x + int j) f) else cont b) ?cs b)) =
        cont_res (for_each (\<lambda>j b. cont_res (paint_if (bits i j) ((y + int i) * W + (x + int j)) f b)) ?cs b)"
      using i by (auto simp: set_visible)
  qed
  obtain b where b: "glyph_rows W H x y bits rows cols f buf = Inr b"
      "painted W (\<lambda>px py. \<exists>i \<in> set ?rs. \<exists>j \<in> set ?cs. px = x + int j \<and> py = y + int i \<and> bits i j) (\<lambda>_ _. f) buf b"
    unfolding eq using painted_grid [of ?rs ?cs y W "int (length buf)" x buf bits "\<lambda>_ _. f"]
      rows_below [OF assms(1,2)] assms(1) by (auto simp: set_visible)
  have ex: "(\<exists>i \<in> set ?rs. \<exists>j \<in> set ?cs. px = x + int j \<and> py = y + int i \<and> bits i j) \<longleftrightarrow>
      (\<exists>i \<in> set ?rs. py = y + int i) \<and> (\<exists>j \<in> set ?cs. px = x + int j) \<and> bits (nat (py - y)) (nat (px - x))" for px py
    by auto
  have "painted W (\<lambda>px py. x \<le> px \<and> px < x + cols \<and> y \<le> py \<and> py < y + rows \<and> bits (nat (py - y)) (nat (px - x)))
      (\<lambda>_ _. f) buf b"
  proof (rule painted_cong [OF b(2)])
    fix px py assume "on_buf W buf px py"
    then show "(\<exists>i \<in> set ?rs. \<exists>j \<in> set ?cs. px = x + int j \<and> py = y + int i \<and> bits i j) =
        (x \<le> px \<and> px < x + cols \<and> y \<le> py \<and> py < y + rows \<and> bits (nat (py - y)) (nat (px - x)))"
      unfolding ex ex_visible using assms(3-6) by (auto simp: on_buf_def)
  qed simp
  then show ?thesis using b(1) by blast
qed

text \<open>A loop whose steps do not fail before some index fails if the step at this index fails.\<close>

lemma for_each_fails:
  assumes "xs = as @ z # bs" and "\<And>a s. a \<in> set as \<Longrightarrow> I s \<Longrightarrow> ok (body a s) (\<lambda>(s', k). \<not> k \<and> I s')"
    and "\<And>s. I s \<Longrightarrow> body z s = Inl e" and "I s"
  shows "for_each body xs s = Inl e"
  using assms(2-4) unfolding assms(1)
proof (induction as arbitrary: s)
  case Nil
  then show ?case by simp
next
  case (Cons a as)
  obtain s' where s': "body a s = Inr (s', False)" "I s'" using Cons.prems(1) [of a s] Cons.prems(3) by (auto simp: ok_def)
  then show ?case using Cons.IH [OF _ Cons.prems(2) s'(2)] Cons.prems(1) by auto
qed

text \<open>
  A glyph that reaches the row below the buffer writes outside it: the row test lets \<open>y + i = H\<close>
  through. Row \<open>i\<close> is the first such row; \<open>j\<close> is its first set pixel.
\<close>

lemma glyph_row_out:
  assumes "int (length buf) \<le> base" and "0 \<le> x" and "bits j" and "\<And>j'. j' < j \<Longrightarrow> \<not> bits j'" and "int j < n" and "x + int j \<le> W"
  shows "glyph_row W x base bits n f buf = Inl OutOfBounds"
  unfolding glyph_row_def
proof (rule for_each_fails [where I = "\<lambda>b. b = buf" and as = "[0..<j]" and z = j and bs = "[Suc j..<nat n]"])
  show "[0..<nat n] = [0..<j] @ j # [Suc j..<nat n]"
    using assms(5) upt_add_eq_append [of 0 j "nat n - j"] by (simp add: upt_conv_Cons)
qed (use assms in \<open>auto simp: cont_def in_range_def\<close>)

lemma glyph_row_inside:
  assumes "0 \<le> base" and "base + W \<le> int (length buf)" and "0 \<le> x" and "x + n \<le> W"
  shows "ok (glyph_row W x base bits n f buf) (\<lambda>b. length b = length buf)"
  unfolding glyph_row_def
proof (rule for_each_inv [where I = "\<lambda>b. length b = length buf"])
  fix j b assume "j \<in> set [0..<nat n]" and l: "length (b :: canvas) = length buf"
  then have "x + int j < W" using assms(4) by auto
  then show "ok (if bits j then if x + int j > W then brk b else if x + int j < 0 then cont b
        else cont_res (arr_mod b (base + x + int j) f) else cont b) (\<lambda>(b', k). length b' = length buf)"
    using assms(1-3) l by (auto simp: cont_def in_range_def)
qed simp

lemma glyph_rows_out:
  assumes "int (length buf) = W * H" and "0 < W" and "0 \<le> x" and "x + cols \<le> W" and "0 \<le> y" and "y + int i = H"
    and "int i < rows" and "bits i j" and "\<And>j'. j' < j \<Longrightarrow> \<not> bits i j'" and "int j < cols"
  shows "glyph_rows W H x y bits rows cols f buf = Inl OutOfBounds"
  unfolding glyph_rows_def
proof (rule for_each_fails [where I = "\<lambda>b. length b = length buf" and as = "[0..<i]" and z = i and bs = "[Suc i..<nat rows]"])
  show "[0..<nat rows] = [0..<i] @ i # [Suc i..<nat rows]"
    using assms(7) upt_add_eq_append [of 0 i "nat rows - i"] by (simp add: upt_conv_Cons)
next
  fix a b assume a: "a \<in> set [0..<i]" and l: "length (b :: canvas) = length buf"
  have "(y + int a + 1) * W \<le> H * W" using a assms(2,6) by (intro mult_right_mono) auto
  then have r: "0 \<le> (y + int a) * W" "(y + int a) * W + W \<le> int (length b)"
    using assms(1,2,5) l by (auto simp: algebra_simps)
  show "ok (if y + int a > H then brk b else if y + int a < 0 then cont b
      else cont_res (glyph_row W x ((y + int a) * W) (bits a) cols f b)) (\<lambda>(s', k). \<not> k \<and> length s' = length buf)"
    using glyph_row_inside [OF r assms(3,4), of "bits a" f] a assms(5,6) l by (auto simp: ok_def)
next
  fix b assume l: "length (b :: canvas) = length buf"
  have "glyph_row W x ((y + int i) * W) (bits i) cols f b = Inl OutOfBounds"
    by (rule glyph_row_out [where j = j]) (use assms l in \<open>auto simp: mult.commute\<close>)
  then show "(if y + int i > H then brk b else if y + int i < 0 then cont b
      else cont_res (glyph_row W x ((y + int i) * W) (bits i) cols f b)) = Inl OutOfBounds"
    using assms(5,6) by simp
qed simp

subsection \<open>No routine changes the size of the buffer\<close>

named_theorems keeps "drawing steps keep the length of the buffer"

definition keeps_len :: "'a list \<Rightarrow> 'a list res \<Rightarrow> bool" where
  "keeps_len b m \<longleftrightarrow> (\<forall>b'. m = Inr b' \<longrightarrow> length b' = length b)"

lemma keeps_Inr [keeps]: "keeps_len b (Inr b)"
  by (simp add: keeps_len_def)

lemma keeps_Inl [keeps]: "keeps_len b (Inl e)"
  by (simp add: keeps_len_def)

lemma keeps_mod [keeps]: "keeps_len b (arr_mod b i f)" "keeps_len b (arr_set b i v)"
  by (cases "in_range i b"; simp add: keeps_len_def)+

lemma keeps_copy [keeps]: "keeps_len b (copy_px b d src s n)"
  by (auto simp: keeps_len_def copy_px_def min_def nat_add_distrib split: if_splits)

lemma keeps_rbind: "keeps_len b m \<Longrightarrow> (\<And>b'. keeps_len b' (f b')) \<Longrightarrow> keeps_len b (rbind m f)"
  unfolding keeps_len_def rbind_eq_Inr by metis

lemma keeps_get: "(\<And>x. keeps_len b (f x)) \<Longrightarrow> keeps_len b (rbind (arr_get xs i) f)"
  by (cases "in_range i xs") (simp_all add: keeps_len_def)

lemma keeps_for_each:
  assumes "\<And>i b b' k. i \<in> set is \<Longrightarrow> body i b = Inr (b', k) \<Longrightarrow> length b' = length b"
  shows "keeps_len b (for_each body is b)"
proof -
  have "for_each body is b = Inr b' \<Longrightarrow> length b' = length b" for b'
    using assms
  proof (induction "is" arbitrary: b)
    case (Cons i "is")
    obtain b1 k where b1: "body i b = Inr (b1, k)" using Cons.prems(1) by (auto simp: rbind_eq_Inr)
    have l1: "length b1 = length b" using Cons.prems(2) b1 by (metis list.set_intros(1))
    show ?case
    proof (cases k)
      case False
      then have "for_each body is b1 = Inr b'" using Cons.prems(1) b1 by simp
      then show ?thesis using Cons.IH [of b1] Cons.prems(2) l1 by (metis list.set_intros(2))
    qed (use Cons.prems(1) b1 l1 in simp)
  qed simp
  then show ?thesis by (simp add: keeps_len_def)
qed

lemma cont_res_eq: "cont_res m = Inr (b, k) \<longleftrightarrow> m = Inr b \<and> \<not> k"
  by (cases m) auto

lemma keeps_span:
  assumes "\<And>i b. keeps_len b (act i b)"
  shows "keeps_len b (span_low y hi n act b)" and "keeps_len b (span_high y hi n act b)"
  unfolding span_low_def span_high_def
  by (rule keeps_for_each; use assms in \<open>auto simp: keeps_len_def cont_res_eq cont_def brk_def split: if_splits\<close>)+

lemma keeps_draw24ImagePart [keeps]: "keeps_len b (draw24ImagePart W H b img x y w h sx sy sw sh)"
  by (simp add: draw24ImagePart_def Let_def keeps keeps_span)

lemma keeps_drawRectByCoord [keeps]: "keeps_len b (drawRectByCoord mix W H b x y x1 y1 fill)"
  unfolding drawRectByCoord_def drawRect_def drawRectBound_def by (intro keeps_span keeps)

lemma keeps_glyph_row [keeps]: "keeps_len b (glyph_row W x base bits n f b)"
  unfolding glyph_row_def
  by (rule keeps_for_each) (use keeps_mod in \<open>auto simp: keeps_len_def cont_res_eq cont_def brk_def split: if_splits\<close>)

lemma keeps_glyph_rows [keeps]: "keeps_len b (glyph_rows W H x y bits rows cols f b)"
  unfolding glyph_rows_def
  by (rule keeps_for_each) (use keeps_glyph_row in \<open>auto simp: keeps_len_def cont_res_eq cont_def brk_def split: if_splits\<close>)

lemma drawCharacter_len: "drawCharacter mix font W H b x y ch color = Inr (b', r) \<Longrightarrow> length b' = length b"
  using keeps_glyph_rows by (auto simp: drawCharacter_def Let_def keeps_len_def rbind_eq_Inr split: if_splits)

lemma drawIcon_len: "drawIcon mix icons W H b x y icon color = Inr (b', r) \<Longrightarrow> length b' = length b"
  using keeps_glyph_rows by (auto simp: drawIcon_def Let_def keeps_len_def rbind_eq_Inr split: if_splits)

lemma drawString_len: "drawString_from mix font W H b x y ox str color = Inr b' \<Longrightarrow> length b' = length b"
  by (induction mix font W H b x y ox str color rule: drawString_from.induct)
    (auto simp: rbind_eq_Inr split: if_splits dest: drawCharacter_len)

lemma drawStringMax_len: "drawStringMax_from mix font W H b x y w ox str color = Inr b' \<Longrightarrow> length b' = length b"
  by (induction mix font W H b x y w ox str color rule: drawStringMax_from.induct)
    (auto simp: rbind_eq_Inr split: if_splits dest: drawCharacter_len)

lemma keeps_set_line [keeps]: "keeps_len b (set_line n c k color b)"
proof -
  have "arr_set b i color = Inr b' \<Longrightarrow> length b' = length b" for b b' :: canvas and i
    using keeps_mod(2) [of b i color] by (simp add: keeps_len_def)
  then show ?thesis unfolding set_line_def
    by (intro keeps_for_each) (auto simp: cont_res_eq cont_def split: if_splits)
qed

lemma keeps_border [keeps]: "keeps_len b (drawRectBorder W H b color x y w h)"
  unfolding drawRectBorder_def Let_def by (auto intro!: keeps_rbind keeps)

subsection \<open>Properties\<close>

definition white :: rgba where "white = \<lparr>aA = 255, aB = 255, aG = 255, aR = 255\<rparr>"
definition black_px :: rgb where "black_px = \<lparr>rB = 0, rG = 0, rR = 0\<rparr>"
definition tiny :: canvas where "tiny = replicate 12 black_px"

text \<open>
  (drawRect_exact): \<open>drawRectByCoord\<close> (and with it \<open>drawRect\<close> and \<open>drawRectBound\<close>) never leaves the
  frame buffer, whatever the coordinates, and changes exactly the pixels of the rectangle that are on
  the screen, each to the fill colour blended over its old value.
\<close>

theorem drawRect_exact:
  assumes "0 < W" and "int (length buf) = W * H"
  shows "\<exists>b. drawRectByCoord mix W H buf x0 y0 x1 y1 fill = Inr b \<and>
    painted W (\<lambda>px py. x0 \<le> px \<and> px < x1 \<and> y0 \<le> py \<and> py < y1) (\<lambda>_ _. drawPointAlpha mix fill) buf b"
proof -
  obtain b where b: "drawRectByCoord mix W H buf x0 y0 x1 y1 fill = Inr b"
      "painted W (\<lambda>px py. x0 \<le> px \<and> px < x0 + (x1 - x0) \<and> px < W \<and> y0 \<le> py \<and> py < y0 + (y1 - y0) \<and> py < H)
        (\<lambda>_ _. drawPointAlpha mix fill) buf b"
    using drawRectBound_painted [of W W H buf mix x0 y0 "x1 - x0" "y1 - y0" fill] assms
    by (auto simp: drawRectByCoord_def drawRect_def mult.commute)
  have "py < H" if "on_buf W buf px py" for px py
  proof (rule ccontr)
    assume "\<not> py < H"
    then have "H * W \<le> py * W" using assms(1) by (intro mult_right_mono) auto
    moreover have "0 \<le> px" "py * W + px < H * W" using that assms(2) by (simp_all add: on_buf_def mult.commute)
    ultimately show False by linarith
  qed
  then have "painted W (\<lambda>px py. x0 \<le> px \<and> px < x1 \<and> y0 \<le> py \<and> py < y1) (\<lambda>_ _. drawPointAlpha mix fill) buf b"
    by (intro painted_cong [OF b(2)]) (auto simp: on_buf_def)
  then show ?thesis using b(1) by blast
qed

theorem drawRect_exact_witness:
  "\<exists>b. drawRectByCoord (\<lambda>_ _ _. 0) 4 3 tiny (-1) 1 2 9 white = Inr b \<and>
    painted 4 (\<lambda>px py. -1 \<le> px \<and> px < 2 \<and> 1 \<le> py \<and> py < 9) (\<lambda>_ _. drawPointAlpha (\<lambda>_ _ _. 0) white) tiny b"
  by (rule drawRect_exact) (simp_all add: tiny_def)

lemma window_blit_exact_base:
  assumes "0 < W" and "0 \<le> H" and "int (length buf) = W * H" and "int (length img) = width * height"
  shows "\<exists>b. draw24ImagePart W H buf img x y width height 0 0 width height = Inr b \<and>
    painted W (\<lambda>px py. x \<le> px \<and> px < x + width \<and> y \<le> py \<and> py < y + height \<and> py < H)
      (\<lambda>px py _. pix width img (px - x) (py - y)) buf b"
  using draw24ImagePart_painted [of W H buf 0 width width 0 height img x y height] assms
  by (simp add: pix_def mult.commute)

text \<open>
  (window_blit_exact): copying a window's pixels to the screen (\<open>draw24ImagePart\<close> with the whole
  window as the part) stays within both buffers for every position of the window, on or off the
  screen, and every visible pixel of the window becomes the window's own pixel at that place.
\<close>

theorem window_blit_exact:
  assumes "0 < W" and "0 \<le> H" and "int (length buf) = W * H" and "int (length img) = width * height"
  shows "\<exists>b. draw24ImagePart W H buf img x y width height 0 0 width height = Inr b \<and>
    painted W (\<lambda>px py. x \<le> px \<and> px < x + width \<and> y \<le> py \<and> py < y + height \<and> py < H)
      (\<lambda>px py _. pix width img (px - x) (py - y)) buf b"
  using assms by (rule window_blit_exact_base)

theorem window_blit_exact_witness:
  "\<exists>b. draw24ImagePart 4 3 tiny [black_px, black_px] 3 (-1) 1 2 0 0 1 2 = Inr b \<and>
    painted 4 (\<lambda>px py. 3 \<le> px \<and> px < 3 + 1 \<and> -1 \<le> py \<and> py < -1 + 2 \<and> py < 3)
      (\<lambda>px py _. pix 1 [black_px, black_px] (px - 3) (py - -1)) tiny b"
  by (rule window_blit_exact) (simp_all add: tiny_def)

text \<open>
  (border_exact): \<open>drawRectBorder\<close> never leaves the buffer and sets exactly the visible pixels of the
  four sides that are not in row 0 or column 0 (with the strict tests of the code).
\<close>

theorem border_exact:
  assumes "0 < W" and "int (length buf) = W * H" and "0 \<le> width" and "0 \<le> height"
  shows "\<exists>b. drawRectBorder W H buf color x y width height = Inr b \<and>
    painted W (\<lambda>px py. border_at x y width height px py \<and> py < H) (\<lambda>_ _ _. color) buf b"
  by (rule drawRectBorder_paints) (use assms in \<open>simp_all add: mult.commute\<close>)

theorem border_exact_witness:
  "\<exists>b. drawRectBorder 4 3 tiny black_px 1 1 2 1 = Inr b \<and>
    painted 4 (\<lambda>px py. border_at 1 1 2 1 px py \<and> py < 3) (\<lambda>_ _ _. black_px) tiny b"
  by (rule border_exact) (simp_all add: tiny_def)

text \<open>
  (character_out_of_buffer): \<open>drawCharacter\<close> skips rows only when \<open>y + i > SCREEN_HEIGHT\<close>. A
  character placed on the screen so that one of its non-empty rows falls on row \<open>SCREEN_HEIGHT\<close> is
  written past the end of the buffer.
\<close>

theorem character_out_of_buffer:
  assumes "int (length buf) = W * H" and "0 \<le> x" and "x + CHARACTER_WIDTH \<le> W" and "0 \<le> y" and "y + int i = H"
    and "int i < CHARACTER_HEIGHT" and "0x20 \<le> ch" and "ch < 0x7f"
    and "font (ch - 0x20) i j = 1" and "int j < CHARACTER_WIDTH"
  shows "drawCharacter mix font W H buf x y ch color = Inl OutOfBounds"
proof -
  define k where "k = (LEAST j. font (ch - 0x20) i j = 1)"
  have k: "font (ch - 0x20) i k = 1"
    unfolding k_def by (rule LeastI [of "\<lambda>j. font (ch - 0x20) i j = 1" j]) (rule assms(9))
  have kj: "k \<le> j" unfolding k_def by (rule Least_le [of "\<lambda>j. font (ch - 0x20) i j = 1" j]) (rule assms(9))
  have less: "\<not> font (ch - 0x20) i j' = 1" if "j' < k" for j' using not_less_Least that unfolding k_def by blast
  have "0 < W" using assms(2,3) by (simp add: CHARACTER_WIDTH_def)
  then have "glyph_rows W H x y (\<lambda>i j. font (ch - 0x20) i j = 1) CHARACTER_HEIGHT CHARACTER_WIDTH (drawPointAlpha mix color) buf
      = Inl OutOfBounds"
    by (intro glyph_rows_out [where i = i and j = k]) (use assms k kj less in auto)
  then show ?thesis using assms(7,8) by (simp add: drawCharacter_def CHARACTER_NUMBER_def Let_def)
qed

theorem character_out_of_buffer_witness:
  "drawCharacter (\<lambda>_ _ _. 0) (\<lambda>_ _ _. 1) 12 1 (replicate 12 black_px) 0 0 0x41 white = Inl OutOfBounds"
  by (rule character_out_of_buffer [where i = 1 and j = 0]) (simp_all add: gui_consts)

end
