(* ===== verification/Compositor.thy ===== *)
theory Compositor
  imports Draw WM_Safety
begin

text \<open>
  The composition of the screen (window_manager.c): \<open>drawWindowBar\<close>, \<open>drawWindow\<close>,
  \<open>drawDesktopDock\<close> and \<open>updateScreen\<close>. The pixels of a window lie in its process' memory, which
  \<open>switchuvm\<close> makes current: \<open>user_px proc addr\<close> are the pixels at an address of a process.
  The tables of glyphs, icons and pointer shapes and the blending are collected in a record.
\<close>

record gfx =
  g_mix :: mixer
  g_font :: bitmaps
  g_icons :: bitmaps
  g_pointer :: bitmaps
  g_mouse_color :: "int \<Rightarrow> rgb"
  user_px :: "int \<Rightarrow> int \<Rightarrow> rgb list"

definition opaque :: "byte \<Rightarrow> byte \<Rightarrow> byte \<Rightarrow> rgba" where
  "opaque r g b = \<lparr>aA = 255, aB = b, aG = g, aR = r\<rparr>"

definition titleBarColor :: rgba where "titleBarColor = opaque 244 160 5"
definition dockColor :: rgba where "dockColor = opaque 15 157 88"
definition closeColor :: rgba where "closeColor = opaque 219 68 55"
definition iconColor :: rgba where "iconColor = opaque 6 6 6"
definition txtColor :: rgba where "txtColor = opaque 255 255 255"
definition minimizeColor :: rgba where "minimizeColor = opaque 120 120 120"

definition drawWindowBar :: "gfx \<Rightarrow> int \<Rightarrow> int \<Rightarrow> canvas \<Rightarrow> kernel_window \<Rightarrow> rgba \<Rightarrow> canvas res" where
  "drawWindowBar g W H dst win barcolor =
     (let x0 = xmin (position win);
          x1 = xmax (position win) + 1;
          y0 = ymin (position win) - TITLE_HEIGHT;
          y1 = ymin (position win)
      in rbind (drawRectByCoord (g_mix g) W H dst x0 y0 (x1 - 2 * TITLE_HEIGHT) y1 barcolor) (\<lambda>b1.
         rbind (drawRectByCoord (g_mix g) W H b1 (x1 - 2 * TITLE_HEIGHT) y0 (x1 - TITLE_HEIGHT) y1 minimizeColor) (\<lambda>b2.
         rbind (drawRectByCoord (g_mix g) W H b2 (x1 - TITLE_HEIGHT) y0 x1 y1 closeColor) (\<lambda>b3.
         rbind (drawString (g_mix g) (g_font g) W H b3 (x0 + 5) (y0 + 3) (title win) iconColor) (\<lambda>b4.
         rbind (drawIcon (g_mix g) (g_icons g) W H b4 (x1 - 2 * TITLE_HEIGHT - 1) (y0 - 1) 1 iconColor) (\<lambda>(b5, r).
         rbind (drawIcon (g_mix g) (g_icons g) W H b5 (x1 - TITLE_HEIGHT - 1) (y0 - 1) 0 iconColor) (\<lambda>(b6, r).
         Inr b6)))))))"

definition drawWindow :: "gfx \<Rightarrow> int \<Rightarrow> int \<Rightarrow> int \<Rightarrow> kernel_window \<Rightarrow> canvas \<Rightarrow> canvas res" where
  "drawWindow g W H proc win buf =
     (let r = position win; wd = xmax r - xmin r; ht = ymax r - ymin r
      in rbind (draw24ImagePart W H buf (user_px g proc (window_buf win)) (xmin r) (ymin r) wd ht 0 0 wd ht) (\<lambda>b1.
         rbind (drawRectBorder W H b1 \<lparr>rB = 0, rG = 0, rR = 0\<rparr> (xmin r) (ymin r) wd ht) (\<lambda>b2.
         if hasTitleBar win \<noteq> 0 then drawWindowBar g W H b2 win titleBarColor else Inr b2)))"

text \<open>
  \<open>SCREEN_HEIGHT - DOCK_HEIGHT * 0.7\<close> is a double, 25.2 less than the height, and truncated
  towards zero when it is passed as an \<open>int\<close>.
\<close>

definition dock_text_y :: "int \<Rightarrow> int" where
  "dock_text_y H = (10 * H - 7 * DOCK_HEIGHT) sdiv 10"

definition dock_entry :: "gfx \<Rightarrow> wm \<Rightarrow> int \<Rightarrow> int \<Rightarrow> canvas \<times> int \<Rightarrow> ((canvas \<times> int) \<times> bool) res" where
  "dock_entry g s barWidth p st =
     (let dst = fst st; xStart = snd st; W = SCREEN_WIDTH s; H = SCREEN_HEIGHT s
      in if p \<noteq> desktopId s then
           rbind (get_slot s p) (\<lambda>c.
           rbind (drawStringWithMaxWidth (g_mix g) (g_font g) W H dst (xStart + 5) (dock_text_y H) (barWidth - 2)
                    (title (wnd c)) txtColor) (\<lambda>b1.
           rbind (drawRectByCoord (g_mix g) W H b1 (xStart + barWidth - 2) (H - DOCK_HEIGHT) (xStart + barWidth) H txtColor) (\<lambda>b2.
           cont (b2, xStart + barWidth))))
         else cont (dst, xStart))"

definition drawDesktopDock :: "gfx \<Rightarrow> wm \<Rightarrow> canvas \<Rightarrow> canvas res" where
  "drawDesktopDock g s dst =
     (let W = SCREEN_WIDTH s; H = SCREEN_HEIGHT s
      in rbind (drawRectByCoord (g_mix g) W H dst 0 (H - DOCK_HEIGHT) W H dockColor) (\<lambda>b1.
         rbind (getWindowCount MAX_WINDOW_CNT s) (\<lambda>windowCount.
         rbind (drawRectByCoord (g_mix g) W H b1 0 (H - DOCK_HEIGHT) START_ICON_WIDTH H titleBarColor) (\<lambda>b2.
         rbind (if windowCount > 0 then
                  let barWidth = min_c ((W - START_ICON_WIDTH - SHOW_DESKTOP_ICON_WIDTH) sdiv (windowCount + 1))
                                       DOCK_PROGRAM_NORMAL_WIDTH
                  in rbind (up_from_head MAX_WINDOW_CNT (dock_entry g s barWidth) (\<lambda>_. s) s (b2, START_ICON_WIDTH + 5))
                       (\<lambda>(st, p). Inr (fst st))
                else Inr b2) (\<lambda>b3.
         rbind (drawRectByCoord (g_mix g) W H b3 (W - SHOW_DESKTOP_ICON_WIDTH) (H - DOCK_HEIGHT) W H titleBarColor) (\<lambda>b4.
         rbind (drawIcon (g_mix g) (g_icons g) W H b4 (START_ICON_WIDTH sdiv 2 - 15) (H - DOCK_HEIGHT + 3) 2 iconColor)
           (\<lambda>(b5, r). Inr b5)))))))"

definition window_layer :: "gfx \<Rightarrow> wm \<Rightarrow> int \<Rightarrow> canvas \<Rightarrow> (canvas \<times> bool) res" where
  "window_layer g s p b =
     (if p \<noteq> desktopId s
      then rbind (get_slot s p) (\<lambda>c.
             if minimized (wnd c) = 0
             then cont_res (drawWindow g (SCREEN_WIDTH s) (SCREEN_HEIGHT s) (slot_proc c) (wnd c) b)
             else cont b)
      else cont b)"

text \<open>The result is the new contents of \<open>screen_buf\<close>, which is copied to \<open>screen\<close>.\<close>

definition updateScreen :: "gfx \<Rightarrow> wm \<Rightarrow> int \<Rightarrow> canvas res" where
  "updateScreen g s myproc =
     (let W = SCREEN_WIDTH s; H = SCREEN_HEIGHT s
      in rbind (get_slot s (desktopId s)) (\<lambda>d.
         if myproc \<noteq> slot_proc d then Inl (Panic ''Update screen called by non desktop process'')
         else
           rbind (drawWindow g W H (slot_proc d) (wnd d) (replicate (nat (W * H)) \<lparr>rB = 255, rG = 255, rR = 255\<rparr>)) (\<lambda>b1.
           rbind (drawDesktopDock g s b1) (\<lambda>b2.
           rbind (up_from_head MAX_WINDOW_CNT (window_layer g s) (\<lambda>_. s) s b2) (\<lambda>(b3, p).
           rbind (if caller (popupwindow s) \<noteq> -1
                  then drawWindow g W H (pop_proc (popupwindow s)) (pop_wnd (popupwindow s)) b3
                  else Inr b3) (\<lambda>b4.
           drawMouse (g_pointer g) (g_mouse_color g) W H b4 (mouseShape s) (mouse_x s) (mouse_y s)))))))"

subsection \<open>The layers\<close>

text \<open>The windows drawn above the desktop, bottom to top.\<close>

definition shown :: "wm \<Rightarrow> nat list \<Rightarrow> nat list" where
  "shown s ids = filter (\<lambda>i. int i \<noteq> desktopId s \<and> minimized (wnd (windowlist s ! i)) = 0) ids"

fun draw_all :: "(nat \<Rightarrow> canvas \<Rightarrow> canvas res) \<Rightarrow> nat list \<Rightarrow> canvas \<Rightarrow> canvas res" where
  "draw_all f [] b = Inr b"
| "draw_all f (i # is) b = rbind (f i b) (draw_all f is)"

lemma layers_cells:
  assumes "\<And>i. i \<in> set is \<Longrightarrow> i < length (windowlist s)"
  shows "for_cells (window_layer g s) is b =
    rbind (draw_all (\<lambda>i. drawWindow g (SCREEN_WIDTH s) (SCREEN_HEIGHT s) (slot_proc (windowlist s ! i)) (wnd (windowlist s ! i)))
      (shown s is) b) (\<lambda>b'. Inr (b', -1))"
  using assms
proof (induction "is" arbitrary: b)
  case Nil
  then show ?case by (simp add: shown_def)
next
  case (Cons i "is")
  let ?d = "\<lambda>i. drawWindow g (SCREEN_WIDTH s) (SCREEN_HEIGHT s) (slot_proc (windowlist s ! i)) (wnd (windowlist s ! i))"
  have IH: "for_cells (window_layer g s) is b' = rbind (draw_all ?d (shown s is) b') (\<lambda>b'. Inr (b', -1))" for b'
    by (rule Cons.IH) (use Cons.prems in auto)
  have i: "get_slot s (int i) = Inr (windowlist s ! i)" using Cons.prems by simp
  show ?case
  proof (cases "int i \<noteq> desktopId s \<and> minimized (wnd (windowlist s ! i)) = 0")
    case True
    then have "window_layer g s (int i) b = cont_res (?d i b)" by (simp add: window_layer_def i)
    moreover have "shown s (i # is) = i # shown s is" using True by (simp add: shown_def)
    ultimately show ?thesis using IH by (cases "?d i b") simp_all
  next
    case False
    then have "window_layer g s (int i) b = cont b" by (auto simp: window_layer_def i)
    moreover have "shown s (i # is) = shown s is" using False by (auto simp: shown_def)
    ultimately show ?thesis using IH by (simp add: cont_def)
  qed
qed

lemma layers_spec:
  assumes "wm_ok s ids"
  shows "up_from_head MAX_WINDOW_CNT (window_layer g s) (\<lambda>_. s) s b =
    rbind (draw_all (\<lambda>i. drawWindow g (SCREEN_WIDTH s) (SCREEN_HEIGHT s) (slot_proc (windowlist s ! i)) (wnd (windowlist s ! i)))
      (shown s ids) b) (\<lambda>b'. Inr (b', -1))"
proof -
  have "up_from_head MAX_WINDOW_CNT (window_layer g s) (\<lambda>_. s) s b = for_cells (window_layer g s) ids b"
    by (rule up_spec) (use ok_rep [OF assms] in \<open>simp_all add: MAX_WINDOW_CNT_def\<close>)
  then show ?thesis using layers_cells [of ids s g b] ok_bound [OF assms] ok_len [OF assms] by simp
qed

subsection \<open>Sizes\<close>

lemma drawWindowBar_len: "drawWindowBar g W H b win c = Inr b' \<Longrightarrow> length b' = length b"
  using keeps_drawRectByCoord
  by (fastforce simp: drawWindowBar_def Let_def rbind_eq_Inr keeps_len_def drawString_def dest: drawString_len drawIcon_len)

lemma drawWindow_len: "drawWindow g W H p win b = Inr b' \<Longrightarrow> length b' = length b"
  using keeps_draw24ImagePart keeps_border
  by (fastforce simp: drawWindow_def Let_def rbind_eq_Inr keeps_len_def split: if_splits dest: drawWindowBar_len)

lemma draw_all_len: "(\<And>i b b'. f i b = Inr b' \<Longrightarrow> length b' = length b) \<Longrightarrow> draw_all f is b = Inr b' \<Longrightarrow> length b' = length b"
  by (induction "is" arbitrary: b) (auto simp: rbind_eq_Inr)

lemma draw_all_append: "draw_all f (as @ bs) b = rbind (draw_all f as b) (draw_all f bs)"
proof (induction as arbitrary: b)
  case (Cons a as)
  then show ?case by (cases "f a b") simp_all
qed simp

lemma dock_entry_len: "dock_entry g s w p st = Inr (st', k) \<Longrightarrow> length (fst st') = length (fst st)"
  using keeps_drawRectByCoord
  by (auto simp: dock_entry_def Let_def rbind_eq_Inr keeps_len_def drawStringWithMaxWidth_def cont_def
      split: if_splits dest!: drawStringMax_len)

lemma for_cells_len:
  assumes "\<And>p st st' k. body p st = Inr (st', k) \<Longrightarrow> length (fst st') = length (fst st)"
  shows "for_cells body is st = Inr (st', q) \<Longrightarrow> length (fst st') = length (fst st)"
proof (induction "is" arbitrary: st)
  case (Cons i "is")
  then obtain st1 k where st1: "body (int i) st = Inr (st1, k)" by (auto simp: rbind_eq_Inr)
  then show ?case using Cons assms [OF st1] by (cases k) auto
qed simp

lemma dock_len:
  assumes "wm_ok s ids" and "drawDesktopDock g s b = Inr b'"
  shows "length b' = length b"
proof -
  have up: "up_from_head MAX_WINDOW_CNT (dock_entry g s w) (\<lambda>_. s) s st = for_cells (dock_entry g s w) ids st" for w st
    by (rule up_spec) (use ok_rep [OF assms(1)] in \<open>simp_all add: MAX_WINDOW_CNT_def\<close>)
  have bars: "length (fst st') = length (fst st)"
    if "up_from_head MAX_WINDOW_CNT (dock_entry g s w) (\<lambda>_. s) s st = Inr (st', q)" for w st st' q
    using for_cells_len [of "dock_entry g s w" ids st st' q] dock_entry_len that by (simp add: up)
  show ?thesis using assms(2) keeps_drawRectByCoord
    by (auto simp: drawDesktopDock_def Let_def rbind_eq_Inr keeps_len_def split: if_splits dest!: drawIcon_len bars)
qed

subsection \<open>The screen as a grid of pixels\<close>

lemma on_buf_H: "0 < W \<Longrightarrow> int (length b) = W * H \<Longrightarrow> on_buf W b x y \<longleftrightarrow> 0 \<le> x \<and> x < W \<and> 0 \<le> y \<and> y < H"
proof -
  assume a: "0 < W" "int (length b) = W * H"
  have "y * W + x < W * H \<longleftrightarrow> y < H" if "0 \<le> x" "x < W"
  proof
    assume "y < H"
    then have "(y + 1) * W \<le> H * W" using a(1) by (intro mult_right_mono) auto
    then show "y * W + x < W * H" using that by (simp add: algebra_simps)
  next
    assume "y * W + x < W * H"
    show "y < H"
    proof (rule ccontr)
      assume "\<not> y < H"
      then have "H * W \<le> y * W" using a(1) by (intro mult_right_mono) auto
      then show False using \<open>y * W + x < W * H\<close> that(1) by (simp add: mult.commute)
    qed
  qed
  then show ?thesis using a(2) by (auto simp: on_buf_def)
qed

lemma screen_layers_eq:
  assumes "wm_ok s ids"
  shows "updateScreen g s proc =
    (let W = SCREEN_WIDTH s; H = SCREEN_HEIGHT s; d = windowlist s ! nat (desktopId s);
         draw = (\<lambda>i. drawWindow g W H (slot_proc (windowlist s ! i)) (wnd (windowlist s ! i)))
     in if proc \<noteq> slot_proc d then Inl (Panic ''Update screen called by non desktop process'')
        else rbind (drawWindow g W H proc (wnd d) (replicate (nat (W * H)) \<lparr>rB = 255, rG = 255, rR = 255\<rparr>)) (\<lambda>b1.
             rbind (drawDesktopDock g s b1) (\<lambda>b2.
             rbind (draw_all draw (shown s ids) b2) (\<lambda>b3.
             rbind (if caller (popupwindow s) \<noteq> -1
                    then drawWindow g W H (pop_proc (popupwindow s)) (pop_wnd (popupwindow s)) b3 else Inr b3) (\<lambda>b4.
             drawMouse (g_pointer g) (g_mouse_color g) W H b4 (mouseShape s) (mouse_x s) (mouse_y s))))))"
proof -
  have r: "in_range (desktopId s) (windowlist s)"
    using assms ok_bound [OF assms] ok_len [OF assms] by (auto simp: wm_ok_def)
  show ?thesis
    by (simp add: updateScreen_def Let_def r layers_spec [OF assms] rbind_assoc cong: if_cong)
qed

subsection \<open>What a drawing step leaves alone\<close>

text \<open>
  \<open>untouched W P b b'\<close>: the step from \<open>b\<close> to \<open>b'\<close> changed at most the pixels in \<open>P\<close> and pixels of column 0. Column 0 is left out
  since the test \<open>x + j > SCREEN_WIDTH\<close> of the glyphs lets column \<open>SCREEN_WIDTH\<close> pass, which is the first pixel of the next row.
\<close>

definition untouched :: "int \<Rightarrow> (int \<Rightarrow> int \<Rightarrow> bool) \<Rightarrow> canvas \<Rightarrow> canvas \<Rightarrow> bool" where
  "untouched W P b b' \<longleftrightarrow> length b' = length b \<and>
     (\<forall>x y. on_buf W b x y \<longrightarrow> 0 < x \<longrightarrow> \<not> P x y \<longrightarrow> pix W b' x y = pix W b x y)"

definition draws :: "int \<Rightarrow> (int \<Rightarrow> int \<Rightarrow> bool) \<Rightarrow> canvas \<Rightarrow> canvas res \<Rightarrow> bool" where
  "draws W P b m \<longleftrightarrow> (\<exists>b'. m = Inr b' \<and> untouched W P b b')"

lemma untouched_refl: "untouched W P b b"
  by (simp add: untouched_def)

lemma untouched_trans: "untouched W P b b1 \<Longrightarrow> untouched W P b1 b2 \<Longrightarrow> untouched W P b b2"
  by (simp add: untouched_def on_buf_def)

lemma untouched_mono: "untouched W P b b' \<Longrightarrow> (\<And>x y. P x y \<Longrightarrow> Q x y) \<Longrightarrow> untouched W Q b b'"
  by (auto simp: untouched_def)

lemma draws_Inr: "draws W P b (Inr b)"
  by (simp add: draws_def untouched_refl)

lemma draws_mono: "draws W P b m \<Longrightarrow> (\<And>x y. P x y \<Longrightarrow> Q x y) \<Longrightarrow> draws W Q b m"
  unfolding draws_def using untouched_mono by blast

lemma draws_painted: "\<exists>b'. m = Inr b' \<and> painted W S g b b' \<Longrightarrow> (\<And>x y. S x y \<Longrightarrow> P x y) \<Longrightarrow> draws W P b m"
  by (fastforce simp: draws_def untouched_def painted_def)

lemma draws_seq:
  assumes "draws W P b m" and "\<And>b'. length b' = length b \<Longrightarrow> draws W P b' (f b')"
  shows "draws W P b (rbind m f)"
proof -
  obtain b' where b': "m = Inr b'" "untouched W P b b'" using assms(1) by (auto simp: draws_def)
  then have "draws W P b' (f b')" using assms(2) by (simp add: untouched_def)
  then show ?thesis using b' untouched_trans by (fastforce simp: draws_def)
qed

lemma draws_for_each:
  assumes "\<And>i b. i \<in> set is \<Longrightarrow> length b = n \<Longrightarrow> \<exists>b' k. body i b = Inr (b', k) \<and> untouched W P b b'" and "length b = n"
  shows "draws W P b (for_each body is b)"
proof -
  have "ok (for_each body is b) (untouched W P b)"
  proof (rule for_each_inv [where I = "untouched W P b"])
    fix i c assume i: "i \<in> set is" and c: "untouched W P b c"
    then have "length c = n" using assms(2) by (simp add: untouched_def)
    then obtain b' k where "body i c = Inr (b', k)" "untouched W P c b'" using assms(1) [OF i] by blast
    then show "ok (body i c) (\<lambda>(b', k). untouched W P b b')" using untouched_trans [OF c] by simp
  qed (rule untouched_refl)
  then show ?thesis by (simp add: draws_def ok_def)
qed

lemma glyph_pixel:
  assumes "0 < W" and "int (length b) = W * H" and "0 \<le> x" and "x \<le> W" and "0 \<le> y" and "y + 1 < H"
  shows "\<exists>b'. arr_mod b (y * W + x) f = Inr b' \<and> untouched W (\<lambda>px py. px = x \<and> py = y) b b'"
proof -
  have "(y + 1 + 1) * W \<le> H * W" using assms(1,6) by (intro mult_right_mono) auto
  then have r: "0 \<le> y * W + x" "y * W + x < int (length b)" using assms by (auto simp: algebra_simps)
  have "nat (y * W + x) \<noteq> nat (py * W + px)" if o: "on_buf W b px py" "0 < px" "\<not> (px = x \<and> py = y)" for px py
  proof
    assume "nat (y * W + x) = nat (py * W + px)"
    then have e: "y * W + x = py * W + px" using r(1) o(1) by (auto simp: on_buf_def eq_nat_nat_iff)
    show False
    proof (cases "x = W")
      case True
      then have "(y + 1) * W + 0 = py * W + px" using e by (simp add: algebra_simps)
      then show False using index_inj [of 0 W px "y + 1" py] o(1,2) assms(1) by (auto simp: on_buf_def)
    next
      case False
      then show False using index_inj [of x W px y py] e o(1,3) assms(3,4) by (auto simp: on_buf_def)
    qed
  qed
  then show ?thesis using r by (auto simp: in_range_def untouched_def pix_def)
qed

lemma ex_false [simp]: "\<exists>k. \<not> k"
  by (rule exI [of _ False]) simp

lemma glyph_draws:
  assumes "0 < W" and "int (length b) = W * H" and "y + rows < H"
  shows "draws W (\<lambda>px py. x \<le> px \<and> px < x + cols \<and> y \<le> py \<and> py < y + rows) b (glyph_rows W H x y bits rows cols f b)"
  unfolding glyph_rows_def
proof (rule draws_for_each [where n = "length b"])
  let ?P = "\<lambda>px py. x \<le> px \<and> px < x + cols \<and> y \<le> py \<and> py < y + rows"
  fix i c assume i: "i \<in> set [0..<nat rows]" and c: "length (c :: canvas) = length b"
  have row: "draws W ?P c (glyph_row W x ((y + int i) * W) (bits i) cols f c)" if iy0: "0 \<le> y + int i"
    unfolding glyph_row_def
  proof (rule draws_for_each [where n = "length b"])
    fix j d assume j: "j \<in> set [0..<nat cols]" and d: "length (d :: canvas) = length b"
    have iy: "y + int i + 1 < H" using i assms(3) by auto
    show "\<exists>b' k. (if bits i j then if x + int j > W then brk d else if x + int j < 0 then cont d
        else cont_res (arr_mod d ((y + int i) * W + x + int j) f) else cont d) = Inr (b', k) \<and> untouched W ?P d b'"
    proof (cases "bits i j \<and> 0 \<le> x + int j \<and> x + int j \<le> W")
      case True
      obtain d' where d': "arr_mod d ((y + int i) * W + (x + int j)) f = Inr d'"
          "untouched W (\<lambda>px py. px = x + int j \<and> py = y + int i) d d'"
        using glyph_pixel [where W = W and H = H and x = "x + int j" and y = "y + int i" and b = d and f = f] True iy0 iy d assms(1,2)
        by auto
      have "untouched W ?P d d'" by (rule untouched_mono [OF d'(2)]) (use i j in auto)
      then show ?thesis using True d'(1) by (intro exI [of _ d'] exI [of _ False]) (simp add: add.assoc)
    next
      case False
      then show ?thesis using untouched_refl by (auto simp: brk_def cont_def)
    qed
  qed (rule c)
  show "\<exists>b' k. (if y + int i > H then brk c else if y + int i < 0 then cont c
      else cont_res (glyph_row W x ((y + int i) * W) (bits i) cols f c)) = Inr (b', k) \<and> untouched W ?P c b'"
    using row untouched_refl by (auto simp: brk_def cont_def draws_def)
qed simp

lemma character_draws:
  assumes "0 < W" and "int (length b) = W * H" and "y + 18 < H"
  shows "\<exists>b' d. drawCharacter mix font W H b x y ch color = Inr (b', d) \<and> -1 \<le> d \<and> d \<le> 9 \<and>
    untouched W (\<lambda>px py. x \<le> px \<and> px < x + 9 \<and> y \<le> py \<and> py < y + 18) b b'"
proof -
  obtain b' where "glyph_rows W H x y (\<lambda>i j. font (ch - 0x20) i j = 1) 18 9 (drawPointAlpha mix color) b = Inr b'"
    "untouched W (\<lambda>px py. x \<le> px \<and> px < x + 9 \<and> y \<le> py \<and> py < y + 18) b b'"
    using glyph_draws [OF assms, of x 9] by (fastforce simp: draws_def)
  then show ?thesis using untouched_refl by (auto simp: drawCharacter_def Let_def gui_consts)
qed

lemma icon_draws:
  assumes "0 < W" and "int (length b) = W * H" and "y + 30 < H"
  shows "\<exists>b' d. drawIcon mix icons W H b x y k color = Inr (b', d) \<and>
    untouched W (\<lambda>px py. x \<le> px \<and> px < x + 30 \<and> y \<le> py \<and> py < y + 30) b b'"
proof -
  obtain b' where "glyph_rows W H x y (\<lambda>i j. icons k i j = 1) 30 30 (drawPointAlpha mix color) b = Inr b'"
    "untouched W (\<lambda>px py. x \<le> px \<and> px < x + 30 \<and> y \<le> py \<and> py < y + 30) b b'"
    using glyph_draws [OF assms, of x 30] by (fastforce simp: draws_def)
  then show ?thesis using untouched_refl by (auto simp: drawIcon_def gui_consts)
qed

lemma icon_seq:
  assumes "0 < W" and "int (length b) = W * H" and "y + 30 < H"
    and "\<And>px py. x \<le> px \<Longrightarrow> px < x + 30 \<Longrightarrow> y \<le> py \<Longrightarrow> py < y + 30 \<Longrightarrow> P px py"
    and "\<And>b' d. length b' = length b \<Longrightarrow> draws W P b' (f (b', d))"
  shows "draws W P b (rbind (drawIcon mix icons W H b x y k color) f)"
proof -
  obtain b' d where b': "drawIcon mix icons W H b x y k color = Inr (b', d)"
      "untouched W (\<lambda>px py. x \<le> px \<and> px < x + 30 \<and> y \<le> py \<and> py < y + 30) b b'"
    using icon_draws [OF assms(1-3)] by blast
  have u: "untouched W P b b'" by (rule untouched_mono [OF b'(2)]) (use assms(4) in blast)
  then have "draws W P b' (f (b', d))" using assms(5) by (simp add: untouched_def)
  then show ?thesis using b'(1) untouched_trans [OF u] by (auto simp: draws_def)
qed

text \<open>The characters of a string, up to its terminating 0.\<close>

definition chars :: "byte list \<Rightarrow> int" where
  "chars str = int (length (takeWhile (\<lambda>c. c \<noteq> 0) str))"

lemma chars_simps [simp]: "chars [] = 0" "chars (0 # str) = 0" "c \<noteq> 0 \<Longrightarrow> chars (c # str) = 1 + chars str"
  by (simp_all add: chars_def)

lemma chars_nonneg: "0 \<le> chars str"
  by (simp add: chars_def)

lemma string_draws:
  assumes "0 < W" and "y + 18 < H"
  shows "int (length b) = W * H \<Longrightarrow> 0 \<in> set str \<Longrightarrow>
    draws W (\<lambda>px py. x + off - chars str \<le> px \<and> px < x + off + 9 * chars str \<and> y \<le> py \<and> py < y + 18) b
      (drawString_from mix font W H b x y off str color)"
proof (induction str arbitrary: b off)
  case (Cons c str)
  show ?case
  proof (cases "c = 0")
    case True
    then show ?thesis by (simp add: draws_Inr)
  next
    case False
    let ?P = "\<lambda>px py. x + off - chars (c # str) \<le> px \<and> px < x + off + 9 * chars (c # str) \<and> y \<le> py \<and> py < y + 18"
    obtain b' d where b': "drawCharacter mix font W H b (x + off) y (sint c) color = Inr (b', d)" "-1 \<le> d" "d \<le> 9"
      "untouched W (\<lambda>px py. x + off \<le> px \<and> px < x + off + 9 \<and> y \<le> py \<and> py < y + 18) b b'"
      using character_draws [OF assms(1) Cons.prems(1) assms(2)] by blast
    have u: "untouched W ?P b b'" using chars_nonneg [of str] False by (intro untouched_mono [OF b'(4)]) auto
    have l: "int (length b') = W * H" using u Cons.prems(1) by (simp add: untouched_def)
    have "draws W ?P b' (drawString_from mix font W H b' x y (off + d) str color)"
      by (rule draws_mono [OF Cons.IH [OF l]]) (use Cons.prems(2) False b'(2,3) chars_nonneg [of str] in auto)
    then show ?thesis using False b'(1) untouched_trans [OF u] by (auto simp: draws_def)
  qed
qed simp

lemma string_max_draws:
  assumes "0 < W" and "y + 18 < H"
  shows "int (length b) = W * H \<Longrightarrow> 0 \<in> set str \<Longrightarrow>
    draws W (\<lambda>px py. y \<le> py) b (drawStringMax_from mix font W H b x y width off str color)"
proof (induction str arbitrary: b off)
  case (Cons c str)
  show ?case
  proof (cases "c \<noteq> 0 \<and> off + CHARACTER_WIDTH \<le> width")
    case False
    then show ?thesis using draws_Inr by auto
  next
    case True
    obtain b' d where b': "drawCharacter mix font W H b (x + off) y (sint c) color = Inr (b', d)"
      "untouched W (\<lambda>px py. x + off \<le> px \<and> px < x + off + 9 \<and> y \<le> py \<and> py < y + 18) b b'"
      using character_draws [OF assms(1) Cons.prems(1) assms(2)] by blast
    have u: "untouched W (\<lambda>px py. y \<le> py) b b'" by (rule untouched_mono [OF b'(2)]) simp
    have l: "int (length b') = W * H" using u Cons.prems(1) by (simp add: untouched_def)
    have "draws W (\<lambda>px py. y \<le> py) b' (drawStringMax_from mix font W H b' x y width (off + d) str color)"
      by (rule Cons.IH [OF l]) (use Cons.prems(2) True in auto)
    then show ?thesis using True b'(1) untouched_trans [OF u] by (auto simp: draws_def)
  qed
qed simp

lemma rect_draws:
  assumes "0 < W" and "int (length b) = W * H" and "\<And>px py. x0 \<le> px \<Longrightarrow> px < x1 \<Longrightarrow> y0 \<le> py \<Longrightarrow> py < y1 \<Longrightarrow> P px py"
  shows "draws W P b (drawRectByCoord mix W H b x0 y0 x1 y1 fill)"
proof (rule draws_painted)
  show "\<exists>b'. drawRectByCoord mix W H b x0 y0 x1 y1 fill = Inr b' \<and>
      painted W (\<lambda>px py. x0 \<le> px \<and> px < x0 + (x1 - x0) \<and> px < W \<and> y0 \<le> py \<and> py < y0 + (y1 - y0) \<and> py < H)
        (\<lambda>_ _. drawPointAlpha mix fill) b b'"
    using drawRectBound_painted [of W W H b mix x0 y0 "x1 - x0" "y1 - y0" fill] assms(1,2)
    by (auto simp: drawRectByCoord_def drawRect_def mult.commute)
qed (use assms(3) in auto)

subsection \<open>The area of a window\<close>

text \<open>
  What drawing a window can change: its rectangle with the border and, with a title bar, the bar above it, the two icons (which are
  wider than their fields and stick out of a narrow window) and the title, which is not clipped to the window.
\<close>

definition bar_covers :: "kernel_window \<Rightarrow> int \<Rightarrow> int \<Rightarrow> bool" where
  "bar_covers win px py \<longleftrightarrow>
     (let r = position win; n = chars (title win)
      in ymin r - 29 \<le> py \<and> py \<le> ymin r \<and>
         (xmin r \<le> px \<and> px \<le> xmax r \<or> xmax r - 56 \<le> px \<and> px \<le> xmax r + 1 \<or>
          xmin r + 5 - n \<le> px \<and> px < xmin r + 5 + 9 * n))"

definition covers :: "kernel_window \<Rightarrow> int \<Rightarrow> int \<Rightarrow> bool" where
  "covers win px py \<longleftrightarrow>
     (let r = position win in xmin r \<le> px \<and> px \<le> xmax r \<and> ymin r \<le> py \<and> py \<le> ymax r) \<or>
     (hasTitleBar win \<noteq> 0 \<and> bar_covers win px py)"

text \<open>A window that can be drawn: its memory holds its picture; its title ends, and its title bar is above the last row.\<close>

definition drawable :: "gfx \<Rightarrow> int \<Rightarrow> int \<times> kernel_window \<Rightarrow> bool" where
  "drawable g H l \<longleftrightarrow>
     (let (p, win) = l; r = position win
      in 0 \<le> xmax r - xmin r \<and> 0 \<le> ymax r - ymin r \<and>
         (xmax r - xmin r) * (ymax r - ymin r) \<le> int (length (user_px g p (window_buf win))) \<and>
         (hasTitleBar win = 0 \<or> 0 \<in> set (title win) \<and> ymin r + 1 < H))"

lemma bar_draws:
  assumes "0 < W" and "int (length b) = W * H" and "0 \<in> set (title win)" and "ymin (position win) + 1 < H"
  shows "draws W (bar_covers win) b (drawWindowBar g W H b win c)"
proof -
  let ?r = "position win"
  have str: "draws W (bar_covers win) b' (drawString (g_mix g) (g_font g) W H b' (xmin ?r + 5) (ymin ?r - 28 + 3) (title win) iconColor)"
    if "length b' = length b" for b'
    unfolding drawString_def
    by (rule draws_mono [OF string_draws]) (use assms that in \<open>auto simp: bar_covers_def Let_def\<close>)
  have len: "int (length b') = W * H" if "length b' = length b" for b' :: canvas using that assms(2) by simp
  have last: "draws W (bar_covers win) b' (rbind (drawIcon (g_mix g) (g_icons g) W H b' (xmax ?r + 1 - 28 - 1) (ymin ?r - 28 - 1) 0 iconColor)
      (\<lambda>(b6, r). Inr b6))" if "length b' = length b" for b'
    by (rule icon_seq) (use assms that in \<open>auto simp: bar_covers_def Let_def intro: draws_Inr\<close>)
  have icons: "draws W (bar_covers win) b' (rbind (drawIcon (g_mix g) (g_icons g) W H b' (xmax ?r + 1 - 2 * 28 - 1) (ymin ?r - 28 - 1) 1 iconColor)
      (\<lambda>(b5, r). rbind (drawIcon (g_mix g) (g_icons g) W H b5 (xmax ?r + 1 - 28 - 1) (ymin ?r - 28 - 1) 0 iconColor)
      (\<lambda>(b6, r). Inr b6)))" if "length b' = length b" for b'
    by (rule icon_seq) (use assms that last in \<open>auto simp: bar_covers_def Let_def\<close>)
  show ?thesis
    unfolding drawWindowBar_def Let_def TITLE_HEIGHT_def
    by (intro draws_seq [OF rect_draws] draws_seq [OF str] icons)
      (use assms in \<open>auto simp: bar_covers_def Let_def len\<close>)
qed

text \<open>The picture of a window shows strictly inside its rectangle, and nothing outside its area changes.\<close>

lemma window_draws:
  assumes "0 < W" and "0 \<le> H" and "int (length b) = W * H" and "drawable g H (p, win)"
  shows "\<exists>b'. drawWindow g W H p win b = Inr b' \<and> untouched W (covers win) b b' \<and>
    (\<forall>px py. 0 < px \<and> px < W \<and> 0 \<le> py \<and> py < H \<and>
       xmin (position win) < px \<and> px < xmax (position win) \<and> ymin (position win) < py \<and> py < ymax (position win) \<longrightarrow>
       pix W b' px py = pix (xmax (position win) - xmin (position win)) (user_px g p (window_buf win))
         (px - xmin (position win)) (py - ymin (position win)))"
proof -
  let ?r = "position win" and ?img = "user_px g p (window_buf win)"
  let ?w = "xmax ?r - xmin ?r" and ?h = "ymax ?r - ymin ?r"
  have l: "0 \<le> ?w" "0 \<le> ?h" "?w * ?h \<le> int (length ?img)" "hasTitleBar win \<noteq> 0 \<Longrightarrow> 0 \<in> set (title win) \<and> ymin ?r + 1 < H"
    using assms(4) by (auto simp: drawable_def Let_def)
  have hb: "H * W \<le> int (length b)" using assms(3) by (simp add: mult.commute)
  obtain c1 where c1: "draw24ImagePart W H b ?img (xmin ?r) (ymin ?r) ?w ?h 0 0 ?w ?h = Inr c1"
      "painted W (\<lambda>px py. xmin ?r \<le> px \<and> px < xmin ?r + ?w \<and> ymin ?r \<le> py \<and> py < ymin ?r + ?h \<and> py < H)
        (\<lambda>px py _. ?img ! nat ((py - ymin ?r + 0) * ?w + 0 + (px - xmin ?r))) b c1"
    using draw24ImagePart_painted [OF assms(1,2) hb, of 0 ?w ?w 0 ?h ?img "xmin ?r" "ymin ?r" ?h] l(3)
    by (auto simp: mult.commute)
  have l1: "int (length c1) = W * H" using painted_length [OF c1(2)] assms(3) by simp
  then have hb1: "H * W \<le> int (length c1)" by (simp add: mult.commute)
  obtain c2 where c2: "drawRectBorder W H c1 \<lparr>rB = 0, rG = 0, rR = 0\<rparr> (xmin ?r) (ymin ?r) ?w ?h = Inr c2"
      "painted W (\<lambda>px py. border_at (xmin ?r) (ymin ?r) ?w ?h px py \<and> py < H) (\<lambda>_ _ _. \<lparr>rB = 0, rG = 0, rR = 0\<rparr>) c1 c2"
    using drawRectBorder_paints [OF assms(1) hb1 l(1,2)] by blast
  have l2: "int (length c2) = W * H" using painted_length [OF c2(2)] l1 by simp
  have "draws W (\<lambda>px py. hasTitleBar win \<noteq> 0 \<and> bar_covers win px py) c2
      (if hasTitleBar win \<noteq> 0 then drawWindowBar g W H c2 win titleBarColor else Inr c2)"
    using bar_draws [OF assms(1) l2] l(4) by (auto intro: draws_Inr elim: draws_mono)
  then obtain c3 where c3: "(if hasTitleBar win \<noteq> 0 then drawWindowBar g W H c2 win titleBarColor else Inr c2) = Inr c3"
      "untouched W (\<lambda>px py. hasTitleBar win \<noteq> 0 \<and> bar_covers win px py) c2 c3" by (auto simp: draws_def)
  have "drawWindow g W H p win b = Inr c3" using c1(1) c2(1) c3(1) by (simp add: drawWindow_def Let_def)
  moreover have "untouched W (covers win) b c1" "untouched W (covers win) c1 c2"
    using c1(2) c2(2) l(1,2) by (auto simp: untouched_def painted_def covers_def border_at_def Let_def)
  then have "untouched W (covers win) b c3"
    using untouched_trans untouched_mono [OF c3(2), of "covers win"] by (simp add: covers_def)
  moreover have "pix W c3 px py = pix ?w ?img (px - xmin ?r) (py - ymin ?r)"
    if a: "0 < px \<and> px < W \<and> 0 \<le> py \<and> py < H \<and> xmin ?r < px \<and> px < xmax ?r \<and> ymin ?r < py \<and> py < ymax ?r" for px py
  proof -
    have o: "on_buf W b px py" "on_buf W c1 px py" "on_buf W c2 px py"
      using a on_buf_H [OF assms(1,3)] on_buf_H [OF assms(1) l1] on_buf_H [OF assms(1) l2] by auto
    have "pix W c3 px py = pix W c2 px py" using c3(2) o(3) a by (simp add: untouched_def bar_covers_def Let_def)
    also have "\<dots> = pix W c1 px py" using c2(2) o(2) a by (auto simp: painted_def border_at_def)
    also have "\<dots> = ?img ! nat ((py - ymin ?r) * ?w + (px - xmin ?r))" using c1(2) o(1) a by (auto simp: painted_def)
    finally show ?thesis by (simp add: pix_def)
  qed
  ultimately show ?thesis by blast
qed

subsection \<open>The dock\<close>

lemma dock_text: "36 \<le> H \<Longrightarrow> H - 36 \<le> dock_text_y H \<and> dock_text_y H + 18 < H"
proof -
  assume "36 \<le> H"
  moreover have "(10 * H - 252) div 10 = H - 26" by presburger
  ultimately show ?thesis by (simp add: dock_text_y_def DOCK_HEIGHT_def signed_divide_int_def)
qed

lemma dock_entry_draws:
  assumes "0 < SCREEN_WIDTH s" and "36 \<le> SCREEN_HEIGHT s" and "int (length (fst st)) = SCREEN_WIDTH s * SCREEN_HEIGHT s"
    and "i < length (windowlist s)" and "int i \<noteq> desktopId s \<Longrightarrow> 0 \<in> set (title (wnd (windowlist s ! i)))"
  shows "\<exists>st'. dock_entry g s w (int i) st = Inr (st', False) \<and> untouched (SCREEN_WIDTH s) (\<lambda>_ py. SCREEN_HEIGHT s - 36 \<le> py) (fst st) (fst st')"
proof (cases "int i = desktopId s")
  case True
  then show ?thesis using untouched_refl by (auto simp: dock_entry_def cont_def Let_def)
next
  case False
  let ?W = "SCREEN_WIDTH s" and ?H = "SCREEN_HEIGHT s" and ?t = "title (wnd (windowlist s ! i))"
  let ?P = "\<lambda>(_ :: int) py. ?H - 36 \<le> py"
  have "draws ?W ?P (fst st) (drawStringWithMaxWidth (g_mix g) (g_font g) ?W ?H (fst st) (snd st + 5) (dock_text_y ?H) (w - 2) ?t txtColor)"
    unfolding drawStringWithMaxWidth_def
    by (rule draws_mono [OF string_max_draws]) (use assms False dock_text [OF assms(2)] in auto)
  then obtain b1 where b1: "drawStringWithMaxWidth (g_mix g) (g_font g) ?W ?H (fst st) (snd st + 5) (dock_text_y ?H) (w - 2) ?t txtColor = Inr b1"
      "untouched ?W ?P (fst st) b1" by (auto simp: draws_def)
  have l1: "int (length b1) = ?W * ?H" using b1(2) assms(3) by (simp add: untouched_def)
  have "draws ?W ?P b1 (drawRectByCoord (g_mix g) ?W ?H b1 (snd st + w - 2) (?H - DOCK_HEIGHT) (snd st + w) ?H txtColor)"
    by (rule rect_draws [OF assms(1) l1]) (simp add: DOCK_HEIGHT_def)
  then obtain b2 where "drawRectByCoord (g_mix g) ?W ?H b1 (snd st + w - 2) (?H - DOCK_HEIGHT) (snd st + w) ?H txtColor = Inr b2"
      "untouched ?W ?P b1 b2" by (auto simp: draws_def)
  then show ?thesis using False b1 assms(4) untouched_trans [OF b1(2)] by (simp add: dock_entry_def Let_def cont_def)
qed

lemma dock_draws:
  assumes "wm_ok s ids" and "0 < SCREEN_WIDTH s" and "36 \<le> SCREEN_HEIGHT s" and "int (length b) = SCREEN_WIDTH s * SCREEN_HEIGHT s"
    and "\<And>i. i \<in> set ids \<Longrightarrow> int i \<noteq> desktopId s \<Longrightarrow> 0 \<in> set (title (wnd (windowlist s ! i)))"
  shows "draws (SCREEN_WIDTH s) (\<lambda>_ py. SCREEN_HEIGHT s - 36 \<le> py) b (drawDesktopDock g s b)"
proof -
  let ?W = "SCREEN_WIDTH s" and ?H = "SCREEN_HEIGHT s" and ?P = "\<lambda>(_ :: int) py. SCREEN_HEIGHT s - 36 \<le> py"
  obtain n where n: "getWindowCount MAX_WINDOW_CNT s = Inr n"
    using getWindowCount_spec [OF ok_rep [OF assms(1)]] by (simp add: MAX_WINDOW_CNT_def)
  have loop: "\<exists>st' p. up_from_head MAX_WINDOW_CNT (dock_entry g s w) (\<lambda>_. s) s st = Inr (st', p) \<and> untouched ?W ?P (fst st) (fst st')"
    if "int (length (fst st)) = ?W * ?H" for w st
  proof -
    have "up_from_head MAX_WINDOW_CNT (dock_entry g s w) (\<lambda>_. s) s st = for_cells (dock_entry g s w) ids st"
      by (rule up_spec) (use ok_rep [OF assms(1)] in \<open>simp_all add: MAX_WINDOW_CNT_def\<close>)
    moreover have "ok (for_cells (dock_entry g s w) ids st) (\<lambda>(st', p). untouched ?W ?P (fst st) (fst st'))"
    proof (rule for_cells_inv)
      fix i st' assume i: "i \<in> set ids" and u: "untouched ?W ?P (fst st) (fst (st' :: canvas \<times> int))"
      have l: "int (length (fst st')) = ?W * ?H" using u that by (simp add: untouched_def)
      from dock_entry_draws [OF assms(2,3) l] assms(5) [OF i] ok_bound [OF assms(1) i] ok_len [OF assms(1)]
      show "ok (dock_entry g s w (int i) st') (\<lambda>(st', k). untouched ?W ?P (fst st) (fst st'))"
        using untouched_trans [OF u] by (fastforce simp: ok_def)
    qed (rule untouched_refl)
    ultimately show ?thesis by (auto simp: ok_def)
  qed
  have r: "draws ?W ?P c (drawRectByCoord (g_mix g) ?W ?H c x0 (?H - DOCK_HEIGHT) x1 ?H col)" if "length c = length b" for c x0 x1 col
    by (rule rect_draws) (use that assms(2,4) in \<open>simp_all add: DOCK_HEIGHT_def\<close>)
  have bars: "draws ?W ?P c (if n > 0 then
        let barWidth = min_c ((?W - START_ICON_WIDTH - SHOW_DESKTOP_ICON_WIDTH) sdiv (n + 1)) DOCK_PROGRAM_NORMAL_WIDTH
        in rbind (up_from_head MAX_WINDOW_CNT (dock_entry g s barWidth) (\<lambda>_. s) s (c, START_ICON_WIDTH + 5)) (\<lambda>(st, p). Inr (fst st))
      else Inr c)" if "length c = length b" for c
  proof (cases "n > 0")
    case True
    let ?w = "min_c ((?W - START_ICON_WIDTH - SHOW_DESKTOP_ICON_WIDTH) sdiv (n + 1)) DOCK_PROGRAM_NORMAL_WIDTH"
    obtain st' q where "up_from_head MAX_WINDOW_CNT (dock_entry g s ?w) (\<lambda>_. s) s (c, START_ICON_WIDTH + 5) = Inr (st', q)"
      "untouched ?W ?P c (fst st')"
      using loop [of "(c, START_ICON_WIDTH + 5)" ?w] \<open>length c = length b\<close> assms(4) by auto
    then show ?thesis using True by (simp add: draws_def Let_def)
  qed (simp add: draws_Inr)
  have icon: "draws ?W ?P c (rbind (drawIcon (g_mix g) (g_icons g) ?W ?H c (START_ICON_WIDTH sdiv 2 - 15) (?H - DOCK_HEIGHT + 3) 2 iconColor)
      (\<lambda>(b5, r). Inr b5))" if "length c = length b" for c
    by (rule icon_seq [OF assms(2)]) (use that assms(4) draws_Inr in \<open>auto simp: DOCK_HEIGHT_def\<close>)
  show ?thesis
    unfolding drawDesktopDock_def Let_def n rbind_Inr
    by (intro draws_seq [OF r] draws_seq [OF bars [unfolded Let_def]] icon) simp_all
qed

subsection \<open>Layers\<close>

text \<open>The layers of the screen from the bottom to the top: the owner and the window of each.\<close>

definition layers :: "wm \<Rightarrow> nat list \<Rightarrow> (int \<times> kernel_window) list" where
  "layers s ids = map (\<lambda>i. (slot_proc (windowlist s ! i), wnd (windowlist s ! i))) (shown s ids) @
     (if caller (popupwindow s) \<noteq> -1 then [(pop_proc (popupwindow s), pop_wnd (popupwindow s))] else [])"

fun draw_layers :: "gfx \<Rightarrow> int \<Rightarrow> int \<Rightarrow> (int \<times> kernel_window) list \<Rightarrow> canvas \<Rightarrow> canvas res" where
  "draw_layers g W H [] b = Inr b"
| "draw_layers g W H (l # ls) b = rbind (drawWindow g W H (fst l) (snd l) b) (draw_layers g W H ls)"

lemma draw_layers_shown:
  "draw_layers g W H (map (\<lambda>i. (slot_proc (windowlist s ! i), wnd (windowlist s ! i))) is) b =
   draw_all (\<lambda>i. drawWindow g W H (slot_proc (windowlist s ! i)) (wnd (windowlist s ! i))) is b"
proof (induction "is" arbitrary: b)
  case (Cons i "is")
  then show ?case by (cases "drawWindow g W H (slot_proc (windowlist s ! i)) (wnd (windowlist s ! i)) b") simp_all
qed simp

lemma draw_layers_append: "draw_layers g W H (as @ bs) b = rbind (draw_layers g W H as b) (draw_layers g W H bs)"
proof (induction as arbitrary: b)
  case (Cons a as)
  then show ?case by (cases "drawWindow g W H (fst a) (snd a) b") simp_all
qed simp

lemma layers_draws:
  assumes "0 < W" and "0 \<le> H"
  shows "int (length b) = W * H \<Longrightarrow> \<forall>l\<in>set ls. drawable g H l \<Longrightarrow>
    draws W (\<lambda>px py. \<exists>l\<in>set ls. covers (snd l) px py) b (draw_layers g W H ls b)"
proof (induction ls arbitrary: b)
  case Nil
  then show ?case by (simp add: draws_Inr)
next
  case (Cons l ls)
  let ?P = "\<lambda>px py. \<exists>m\<in>set (l # ls). covers (snd m) px py"
  obtain b1 where b1: "drawWindow g W H (fst l) (snd l) b = Inr b1" "untouched W (covers (snd l)) b b1"
    using window_draws [OF assms Cons.prems(1), of g "fst l" "snd l"] Cons.prems(2) by auto
  have u: "untouched W ?P b b1" by (rule untouched_mono [OF b1(2)]) simp
  have "draws W ?P b1 (draw_layers g W H ls b1)"
    by (rule draws_mono [OF Cons.IH]) (use Cons.prems u in \<open>auto simp: untouched_def\<close>)
  then show ?case using b1(1) untouched_trans [OF u] by (auto simp: draws_def)
qed

text \<open>The topmost layer at a point shows there.\<close>

definition inside :: "kernel_window \<Rightarrow> int \<Rightarrow> int \<Rightarrow> bool" where
  "inside win px py \<longleftrightarrow> (let r = position win in xmin r < px \<and> px < xmax r \<and> ymin r < py \<and> py < ymax r)"

definition layer_px :: "gfx \<Rightarrow> int \<times> kernel_window \<Rightarrow> int \<Rightarrow> int \<Rightarrow> rgb" where
  "layer_px g l px py =
     (let (p, win) = l; r = position win
      in pix (xmax r - xmin r) (user_px g p (window_buf win)) (px - xmin r) (py - ymin r))"

lemma layers_show:
  assumes "0 < W" and "0 \<le> H" and "int (length b) = W * H" and "\<forall>l\<in>set (ls @ l # hs). drawable g H l"
    and "0 < px \<and> px < W \<and> 0 \<le> py \<and> py < H" and "inside (snd l) px py" and "\<forall>h\<in>set hs. \<not> covers (snd h) px py"
    and "draw_layers g W H (ls @ l # hs) b = Inr b'"
  shows "pix W b' px py = layer_px g l px py"
proof -
  obtain b1 where b1: "draw_layers g W H ls b = Inr b1" "untouched W (\<lambda>px py. \<exists>l\<in>set ls. covers (snd l) px py) b b1"
    using layers_draws [OF assms(1-3), of ls g] assms(4) by (auto simp: draws_def)
  have l1: "int (length b1) = W * H" using b1(2) assms(3) by (simp add: untouched_def)
  obtain b2 where b2: "drawWindow g W H (fst l) (snd l) b1 = Inr b2" "untouched W (covers (snd l)) b1 b2"
      "pix W b2 px py = layer_px g l px py"
    using window_draws [OF assms(1,2) l1, of g "fst l" "snd l"] assms(4-6)
    by (auto simp: inside_def layer_px_def Let_def split_beta)
  have l2: "int (length b2) = W * H" using b2(2) l1 by (simp add: untouched_def)
  have "draw_layers g W H hs b2 = Inr b'" using assms(8) b1(1) b2(1) by (simp add: draw_layers_append)
  moreover have "draws W (\<lambda>px py. \<exists>l\<in>set hs. covers (snd l) px py) b2 (draw_layers g W H hs b2)"
    by (rule layers_draws [OF assms(1,2) l2]) (use assms(4) in simp)
  ultimately have "untouched W (\<lambda>px py. \<exists>l\<in>set hs. covers (snd l) px py) b2 b'" by (auto simp: draws_def)
  moreover have "on_buf W b2 px py" using on_buf_H [OF assms(1) l2] assms(5) by simp
  ultimately have "pix W b' px py = pix W b2 px py" using assms(5,7) by (auto simp: untouched_def)
  then show ?thesis using b2(3) by simp
qed

lemma updateScreen_layers:
  assumes "wm_ok s ids" and "proc = slot_proc (windowlist s ! nat (desktopId s))"
  shows "updateScreen g s proc =
    (let W = SCREEN_WIDTH s; H = SCREEN_HEIGHT s
     in rbind (drawWindow g W H proc (wnd (windowlist s ! nat (desktopId s))) (replicate (nat (W * H)) \<lparr>rB = 255, rG = 255, rR = 255\<rparr>)) (\<lambda>b1.
        rbind (drawDesktopDock g s b1) (\<lambda>b2.
        rbind (draw_layers g W H (layers s ids) b2) (\<lambda>b3.
        drawMouse (g_pointer g) (g_mouse_color g) W H b3 (mouseShape s) (mouse_x s) (mouse_y s)))))"
proof -
  have "draw_layers g W H (layers s ids) b =
      rbind (draw_all (\<lambda>i. drawWindow g W H (slot_proc (windowlist s ! i)) (wnd (windowlist s ! i))) (shown s ids) b) (\<lambda>b3.
        if caller (popupwindow s) \<noteq> -1 then drawWindow g W H (pop_proc (popupwindow s)) (pop_wnd (popupwindow s)) b3 else Inr b3)" for W H b
    by (cases "draw_all (\<lambda>i. drawWindow g W H (slot_proc (windowlist s ! i)) (wnd (windowlist s ! i))) (shown s ids) b")
      (simp_all add: layers_def draw_layers_append draw_layers_shown rbind_def split: sum.split)
  then show ?thesis using assms(2) by (simp add: screen_layers_eq [OF assms(1)] Let_def rbind_assoc)
qed

subsection \<open>Properties\<close>

text \<open>
  C33 (screen_layers): \<open>updateScreen\<close> panics when called by another process than the desktop's. Called by the desktop's,
  with windows that can be drawn, it returns a frame of the size of the screen, and at every pixel outside the pointer's box and
  column 0 the topmost layer there is seen. Layers are the desktop, the windows that are not minimised from the
  bottom of the stack to its top, and the open popup. Strictly inside a layer's rectangle, at a point that no higher layer's area
  (rectangle, border, title bar, title) contains, the pixel of the frame is the pixel of the layer's own picture there; for the desktop
  this holds above the dock.
\<close>

theorem screen_layers:
  assumes "wm_ok s ids" and "0 < SCREEN_WIDTH s" and "36 \<le> SCREEN_HEIGHT s"
    and "d = (slot_proc (windowlist s ! nat (desktopId s)), wnd (windowlist s ! nat (desktopId s)))"
    and "\<forall>l\<in>set (d # layers s ids). drawable g (SCREEN_HEIGHT s) l"
    and "\<forall>i\<in>set ids. int i \<noteq> desktopId s \<longrightarrow> 0 \<in> set (title (wnd (windowlist s ! i)))"
  shows "if proc \<noteq> fst d then updateScreen g s proc = Inl (Panic ''Update screen called by non desktop process'')
    else \<exists>b. updateScreen g s proc = Inr b \<and> int (length b) = SCREEN_WIDTH s * SCREEN_HEIGHT s \<and>
      (\<forall>px py ls l hs. 0 < px \<and> px < SCREEN_WIDTH s \<and> 0 \<le> py \<and> py < SCREEN_HEIGHT s \<and>
         \<not> (mouse_x s \<le> px \<and> px < mouse_x s + 15 \<and> mouse_y s \<le> py \<and> py < mouse_y s + 18) \<and>
         d # layers s ids = ls @ l # hs \<and> inside (snd l) px py \<and> (\<forall>h\<in>set hs. \<not> covers (snd h) px py) \<and>
         (ls = [] \<longrightarrow> py < SCREEN_HEIGHT s - DOCK_HEIGHT) \<longrightarrow>
         pix (SCREEN_WIDTH s) b px py = layer_px g l px py)"
proof (cases "proc = fst d")
  case False
  then show ?thesis using assms(4) by (simp add: screen_layers_eq [OF assms(1)] Let_def)
next
  case True
  let ?W = "SCREEN_WIDTH s" and ?H = "SCREEN_HEIGHT s" and ?b0 = "replicate (nat (SCREEN_WIDTH s * SCREEN_HEIGHT s)) \<lparr>rB = 255, rG = 255, rR = 255\<rparr> :: canvas"
  have H: "0 \<le> ?H" using assms(3) by simp
  have l0: "int (length ?b0) = ?W * ?H" using assms(2) H by simp
  have dr: "drawable g ?H (fst d, snd d)" "\<forall>l\<in>set (layers s ids). drawable g ?H l" using assms(5) by simp_all
  obtain b1 where b1: "drawWindow g ?W ?H (fst d) (snd d) ?b0 = Inr b1" "int (length b1) = ?W * ?H"
    "\<forall>px py. 0 < px \<and> px < ?W \<and> 0 \<le> py \<and> py < ?H \<and> inside (snd d) px py \<longrightarrow> pix ?W b1 px py = layer_px g d px py"
    using window_draws [OF assms(2) H l0 dr(1)] l0 by (auto simp: untouched_def inside_def layer_px_def Let_def split_beta)
  obtain b2 where b2: "drawDesktopDock g s b1 = Inr b2" "untouched ?W (\<lambda>_ py. ?H - 36 \<le> py) b1 b2"
    using dock_draws [OF assms(1-3) b1(2)] assms(6) by (auto simp: draws_def)
  have l2: "int (length b2) = ?W * ?H" using b2(2) b1(2) by (simp add: untouched_def)
  obtain b3 where b3: "draw_layers g ?W ?H (layers s ids) b2 = Inr b3"
      "untouched ?W (\<lambda>px py. \<exists>l\<in>set (layers s ids). covers (snd l) px py) b2 b3"
    using layers_draws [OF assms(2) H l2 dr(2)] by (auto simp: draws_def)
  have l3: "int (length b3) = ?W * ?H" using b3(2) l2 by (simp add: untouched_def)
  then have "?H * ?W \<le> int (length b3)" by (simp add: mult.commute)
  from drawMouse_painted [OF assms(2) H this, of "g_pointer g" "g_mouse_color g" "mouseShape s" "mouse_x s" "mouse_y s"] obtain b where
    b: "drawMouse (g_pointer g) (g_mouse_color g) ?W ?H b3 (mouseShape s) (mouse_x s) (mouse_y s) = Inr b"
      "untouched ?W (\<lambda>px py. mouse_x s \<le> px \<and> px < mouse_x s + 15 \<and> mouse_y s \<le> py \<and> py < mouse_y s + 18) b3 b"
    by (auto simp: painted_def untouched_def)
  have up: "updateScreen g s proc = Inr b"
    using True assms(4) b1(1) b2(1) b3(1) b(1) by (simp add: updateScreen_layers [OF assms(1)] Let_def)
  have lb: "int (length b) = ?W * ?H" using b(2) l3 by (simp add: untouched_def)
  have px: "pix ?W b px py = layer_px g l px py"
    if a: "0 < px \<and> px < ?W \<and> 0 \<le> py \<and> py < ?H \<and>
         \<not> (mouse_x s \<le> px \<and> px < mouse_x s + 15 \<and> mouse_y s \<le> py \<and> py < mouse_y s + 18) \<and>
         d # layers s ids = ls @ l # hs \<and> inside (snd l) px py \<and> (\<forall>h\<in>set hs. \<not> covers (snd h) px py) \<and>
         (ls = [] \<longrightarrow> py < ?H - DOCK_HEIGHT)" for px py ls l hs
  proof -
    have o: "on_buf ?W c px py" if "int (length c) = ?W * ?H" for c :: canvas using on_buf_H [OF assms(2) that] a by simp
    have p: "0 < px \<and> px < ?W \<and> 0 \<le> py \<and> py < ?H" using a by blast
    have "pix ?W b px py = pix ?W b3 px py" using b(2) o [OF l3] a by (auto simp: untouched_def)
    also have "\<dots> = layer_px g l px py"
    proof (cases ls)
      case Nil
      then have hs: "l = d" "hs = layers s ids" "py < ?H - 36" using a by (auto simp: DOCK_HEIGHT_def)
      have "pix ?W b3 px py = pix ?W b2 px py" using b3(2) o [OF l2] a hs(2) by (auto simp: untouched_def)
      also have "\<dots> = pix ?W b1 px py" using b2(2) o [OF b1(2)] p hs(3) by (auto simp: untouched_def)
      finally show ?thesis using b1(3) a hs(1) by simp
    next
      case (Cons k ks)
      then have e: "layers s ids = ks @ l # hs" using a by simp
      show ?thesis
        by (rule layers_show [OF assms(2) H l2 _ p, of ks l hs]) (use a dr(2) b3(1) e in simp_all)
    qed
    finally show ?thesis .
  qed
  have "\<exists>b. updateScreen g s proc = Inr b \<and> int (length b) = ?W * ?H \<and>
      (\<forall>px py ls l hs. 0 < px \<and> px < ?W \<and> 0 \<le> py \<and> py < ?H \<and>
         \<not> (mouse_x s \<le> px \<and> px < mouse_x s + 15 \<and> mouse_y s \<le> py \<and> py < mouse_y s + 18) \<and>
         d # layers s ids = ls @ l # hs \<and> inside (snd l) px py \<and> (\<forall>h\<in>set hs. \<not> covers (snd h) px py) \<and>
         (ls = [] \<longrightarrow> py < ?H - DOCK_HEIGHT) \<longrightarrow> pix ?W b px py = layer_px g l px py)"
    by (intro exI [of _ b] conjI up lb) (intro allI impI, rule px)
  then show ?thesis using True by (simp only: if_not_P not_not)
qed

text \<open>A graphics environment with empty bitmaps, and the desktop with one window over it, both of 100 by 50 pixels.\<close>

definition plain_gfx :: gfx where
  "plain_gfx = \<lparr>g_mix = (\<lambda>_ _ _. 0), g_font = (\<lambda>_ _ _. 0), g_icons = (\<lambda>_ _ _. 0), g_pointer = (\<lambda>_ _ _. 0),
     g_mouse_color = (\<lambda>_. black_px), user_px = (\<lambda>_ _. replicate 5000 black_px)\<rparr>"

definition rect_100_50 :: win_rect where
  "rect_100_50 = \<lparr>xmin = 0, xmax = 100, ymin = 30, ymax = 80\<rparr>"

definition top_demo :: "wm \<Rightarrow> wm" where
  "top_demo s0 = upd_at (upd_at (fst (closePopupWindow s0 (plain_window 0)))
       0 (\<lambda>w. w\<lparr>position := rect_100_50, hasTitleBar := 1, minimized := 0, title := replicate 50 0\<rparr>))
       1 (\<lambda>w. w\<lparr>position := rect_100_50, hasTitleBar := 1, minimized := 0, title := replicate 50 0\<rparr>)
     \<lparr>SCREEN_WIDTH := 800, SCREEN_HEIGHT := 600, mouse_x := 700, mouse_y := 500\<rparr>"

lemma top_demo_facts:
  assumes "wm_ok s0 [0, 1]" and "desktopId s0 = 0" and "s = top_demo s0"
  shows "wm_ok s [0, 1]" and "desktopId s = 0" and "caller (popupwindow s) = -1"
    and "SCREEN_WIDTH s = 800" and "SCREEN_HEIGHT s = 600" and "mouse_x s = 700"
    and "\<And>i. i = 0 \<or> i = 1 \<Longrightarrow> position (wnd (windowlist s ! i)) = rect_100_50 \<and>
      hasTitleBar (wnd (windowlist s ! i)) = 1 \<and> minimized (wnd (windowlist s ! i)) = 0 \<and>
      title (wnd (windowlist s ! i)) = replicate 50 0"
proof -
  have len: "length (windowlist s0) = 50" by (rule ok_len [OF assms(1)])
  let ?f = "\<lambda>w :: kernel_window. w\<lparr>position := rect_100_50, hasTitleBar := 1, minimized := 0, title := replicate 50 0\<rparr>"
  let ?p = "fst (closePopupWindow s0 (plain_window 0))"
  have f: "wnd_ok w \<Longrightarrow> wnd_ok (?f w)" for w by (simp add: wnd_ok_def)
  have p: "wm_ok ?p [0, 1]" by (rule close_popup_ok [OF assms(1)])
  have "wm_ok (upd_at (upd_at ?p 0 ?f) 1 ?f) [0, 1]"
    by (rule wm_ok_upd [OF wm_ok_upd [OF p]]) (use f in simp_all)
  then show "wm_ok s [0, 1]" by (simp add: assms(3) top_demo_def wm_ok_def wm_rep_def wm_bufs_def)
  have pl: "length (windowlist ?p) = 50" by (rule ok_len [OF p])
  show "position (wnd (windowlist s ! i)) = rect_100_50 \<and> hasTitleBar (wnd (windowlist s ! i)) = 1 \<and>
      minimized (wnd (windowlist s ! i)) = 0 \<and> title (wnd (windowlist s ! i)) = replicate 50 0" if "i = 0 \<or> i = 1" for i
    using that pl by (auto simp: assms(3) top_demo_def upd_at_wnd)
qed (simp_all add: assms top_demo_def closePopupWindow_def Let_def)

text \<open>The window over the desktop is seen at the point (50, 40).\<close>

theorem screen_layers_witness:
  "\<exists>s b. wm_ok s [0, 1] \<and> updateScreen plain_gfx s (slot_proc (windowlist s ! 0)) = Inr b \<and>
     pix 800 b 50 40 = layer_px plain_gfx (slot_proc (windowlist s ! 1), wnd (windowlist s ! 1)) 50 40"
proof -
  obtain s0 where s0: "wm_ok s0 [0, 1]" "desktopId s0 = 0" using two_windows by blast
  define s where "s = top_demo s0"
  note f = top_demo_facts [OF s0 s_def]
  have sh: "layers s [0, 1] = [(slot_proc (windowlist s ! 1), wnd (windowlist s ! 1))]"
    using f(2,3) f(7) [of 1] by (simp add: layers_def shown_def)
  have dr: "drawable plain_gfx 600 (slot_proc (windowlist s ! i), wnd (windowlist s ! i))" if "i = 0 \<or> i = 1" for i
    using f(7) [OF that] by (simp add: drawable_def rect_100_50_def plain_gfx_def)
  have t: "0 \<in> set (title (wnd (windowlist s ! i)))" if "i = 0 \<or> i = 1" for i using f(7) [OF that] by simp
  let ?d = "(slot_proc (windowlist s ! nat (desktopId s)), wnd (windowlist s ! nat (desktopId s)))"
  have w: "0 < SCREEN_WIDTH s" "36 \<le> SCREEN_HEIGHT s" using f(4,5) by simp_all
  have "\<forall>l\<in>set (?d # layers s [0, 1]). drawable plain_gfx (SCREEN_HEIGHT s) l"
    unfolding sh using dr [of 0] dr [of 1] f(2,5) by simp
  moreover have "\<forall>i\<in>set [0, 1]. int i \<noteq> desktopId s \<longrightarrow> 0 \<in> set (title (wnd (windowlist s ! i)))"
    using t [of 1] f(2) by simp
  ultimately have scr: "if slot_proc (windowlist s ! 0) \<noteq> fst ?d then updateScreen plain_gfx s (slot_proc (windowlist s ! 0)) = Inl (Panic ''Update screen called by non desktop process'')
    else \<exists>b. updateScreen plain_gfx s (slot_proc (windowlist s ! 0)) = Inr b \<and> int (length b) = SCREEN_WIDTH s * SCREEN_HEIGHT s \<and>
      (\<forall>px py ls l hs. 0 < px \<and> px < SCREEN_WIDTH s \<and> 0 \<le> py \<and> py < SCREEN_HEIGHT s \<and>
         \<not> (mouse_x s \<le> px \<and> px < mouse_x s + 15 \<and> mouse_y s \<le> py \<and> py < mouse_y s + 18) \<and>
         ?d # layers s [0, 1] = ls @ l # hs \<and> inside (snd l) px py \<and> (\<forall>h\<in>set hs. \<not> covers (snd h) px py) \<and>
         (ls = [] \<longrightarrow> py < SCREEN_HEIGHT s - DOCK_HEIGHT) \<longrightarrow>
         pix (SCREEN_WIDTH s) b px py = layer_px plain_gfx l px py)"
    by (intro screen_layers [OF f(1) w refl])
  have "\<not> (slot_proc (windowlist s ! 0) \<noteq> fst ?d)" using f(2) by simp
  from scr [unfolded if_not_P [OF this]] show ?thesis
  proof (elim exE conjE, goal_cases)
    case (1 b)
    from 1(3) [rule_format, of 50 40 "[?d]" "(slot_proc (windowlist s ! 1), wnd (windowlist s ! 1))" "[]"]
    have "pix (SCREEN_WIDTH s) b 50 40 = layer_px plain_gfx (slot_proc (windowlist s ! 1), wnd (windowlist s ! 1)) 50 40"
      using f(4-6) f(7) [of 1] sh by (simp add: inside_def rect_100_50_def)
    then show ?case using f(1,4) 1(1) by auto
  qed
qed

end
