(* ===== verification/UserGui.thy ===== *)
theory UserGui
  imports Draw
begin

text \<open>
  The drawing routines of the user library (user_gui.c). A window is its pixel buffer with
  \<open>win->width\<close> = \<open>W\<close> and \<open>win->height\<close> = \<open>H\<close>. Names that gui.c also has carry the prefix \<open>u_\<close>.
\<close>

definition fillRect :: "mixer \<Rightarrow> canvas \<Rightarrow> int \<Rightarrow> int \<Rightarrow> int \<Rightarrow> int \<Rightarrow> int \<Rightarrow> int \<Rightarrow> rgba \<Rightarrow> canvas res" where
  "fillRect mix buf x y width height max_x max_y fill =
     span_low y max_y height (\<lambda>i. span_low x max_x width (\<lambda>j b.
       arr_mod b ((y + int i) * max_x + x + int j) (drawPointAlpha mix fill))) buf"

definition u_drawCharacter :: "mixer \<Rightarrow> bitmaps \<Rightarrow> int \<Rightarrow> int \<Rightarrow> canvas \<Rightarrow> int \<Rightarrow> int \<Rightarrow> int \<Rightarrow> rgba \<Rightarrow> (canvas \<times> int) res" where
  "u_drawCharacter mix font W H buf x y ch color =
     (let ord = ch - 0x20
      in if ord < 0 \<or> ord \<ge> CHARACTER_NUMBER - 1 then Inr (buf, -1)
         else rbind (glyph_rows W H x y (\<lambda>i j. font ord i j = 1) CHARACTER_HEIGHT CHARACTER_WIDTH
                       (drawPointAlpha mix color) buf) (\<lambda>b. Inr (b, CHARACTER_WIDTH)))"

text \<open>\<open>str\<close> is the memory from the first character to the end of its array.\<close>

fun u_drawString_from :: "mixer \<Rightarrow> bitmaps \<Rightarrow> int \<Rightarrow> int \<Rightarrow> canvas \<Rightarrow> byte list \<Rightarrow> rgba \<Rightarrow> int \<Rightarrow> int \<Rightarrow> int \<Rightarrow> int \<Rightarrow>
    int \<Rightarrow> int \<Rightarrow> canvas res" where
  "u_drawString_from mix font W H buf [] color x y width height ox oy = Inl OutOfBounds"
| "u_drawString_from mix font W H buf (ch # str) color x y width height ox oy =
     (if ch = 0 \<or> oy > height then Inr buf
      else if ch \<noteq> 10 then
        rbind (if x + ox \<ge> 0 \<and> x + ox \<le> W \<and> y + oy \<ge> 0 \<and> y + oy \<le> H
               then rbind (u_drawCharacter mix font W H buf (x + ox) (y + oy) (sint ch) color) (\<lambda>(b, r). Inr b)
               else Inr buf) (\<lambda>b.
          if ox + CHARACTER_WIDTH > width
          then u_drawString_from mix font W H b str color x y width height 0 (oy + CHARACTER_HEIGHT)
          else u_drawString_from mix font W H b str color x y width height (ox + CHARACTER_WIDTH) oy)
      else u_drawString_from mix font W H buf str color x y width height 0 (oy + CHARACTER_HEIGHT))"

definition u_drawString :: "mixer \<Rightarrow> bitmaps \<Rightarrow> int \<Rightarrow> int \<Rightarrow> canvas \<Rightarrow> byte list \<Rightarrow> rgba \<Rightarrow> int \<Rightarrow> int \<Rightarrow> int \<Rightarrow> int \<Rightarrow> canvas res" where
  "u_drawString mix font W H buf str color x y width height =
     u_drawString_from mix font W H buf str color x y width height 0 0"

definition u_drawImage :: "mixer \<Rightarrow> int \<Rightarrow> int \<Rightarrow> canvas \<Rightarrow> rgba list \<Rightarrow> int \<Rightarrow> int \<Rightarrow> int \<Rightarrow> int \<Rightarrow> canvas res" where
  "u_drawImage mix W H buf img x y width height =
     span_high y H height (\<lambda>i. span_high x W width (\<lambda>j b.
       rbind (arr_get img ((height - int i - 1) * width + int j)) (\<lambda>p.
         arr_mod b ((y + int i) * W + x + int j) (drawPointAlpha mix p)))) buf"

definition u_draw24Image :: "int \<Rightarrow> int \<Rightarrow> canvas \<Rightarrow> rgb list \<Rightarrow> int \<Rightarrow> int \<Rightarrow> int \<Rightarrow> int \<Rightarrow> canvas res" where
  "u_draw24Image W H buf img x y width height =
     (let max_line = (if W - x < width then W - x else width)
      in span_high y H height (\<lambda>i b. copy_px b ((y + int i) * W + x) img ((height - int i - 1) * width) max_line) buf)"

definition off_canvas :: "int \<Rightarrow> int \<Rightarrow> int \<Rightarrow> int \<Rightarrow> int \<Rightarrow> int \<Rightarrow> bool" where
  "off_canvas W H x y width height \<longleftrightarrow>
     x \<ge> W \<or> x + width < 0 \<or> y \<ge> H \<or> y + height < 0 \<or> width < 0 \<or> height < 0"

definition u_drawRect :: "int \<Rightarrow> int \<Rightarrow> canvas \<Rightarrow> rgb \<Rightarrow> int \<Rightarrow> int \<Rightarrow> int \<Rightarrow> int \<Rightarrow> canvas res" where
  "u_drawRect W H buf color x y width height =
     (if off_canvas W H x y width height then Inr buf
      else
        let t = y * W + x
        in rbind (if y \<ge> 0
                  then set_line width (\<lambda>i. x + int i \<ge> 0 \<and> x + int i < W) (\<lambda>i. t + int i) color buf
                  else Inr buf) (\<lambda>b1.
           rbind (if y + height \<le> H
                  then let p = t + height * W
                       in set_line width (\<lambda>i. y \<ge> 0 \<and> x + int i > 0 \<and> x + int i < W) (\<lambda>i. p + int i) color b1
                  else Inr b1) (\<lambda>b2.
           rbind (if x \<ge> 0
                  then set_line height (\<lambda>i. y + int i \<ge> 0 \<and> y + int i < H) (\<lambda>i. t + int i * W) color b2
                  else Inr b2) (\<lambda>b3.
           if x + width \<le> W
           then let p = t + width
                in set_line height (\<lambda>i. y + int i \<ge> 0 \<and> y + int i < H) (\<lambda>i. p + int i * W) color b3
           else Inr b3))))"

definition drawFillRect :: "mixer \<Rightarrow> int \<Rightarrow> int \<Rightarrow> canvas \<Rightarrow> rgba \<Rightarrow> int \<Rightarrow> int \<Rightarrow> int \<Rightarrow> int \<Rightarrow> canvas res" where
  "drawFillRect mix W H buf color x y width height =
     (if off_canvas W H x y width height then Inr buf
      else
        let (x1, w1) = (if x < 0 then (0, width + x) else (x, width));
            (y1, h1) = (if y < 0 then (0, height + y) else (y, height));
            w2 = (if x1 + w1 > W then W - x1 else w1);
            h2 = (if y1 + h1 > H then H - y1 else h1)
        in for_each (\<lambda>i b. cont_res (for_each (\<lambda>j b. cont_res
             (if x1 + int j > 0 \<and> x1 + int j < W \<and> y1 + int i > 0 \<and> y1 + int i < H
              then arr_mod b ((y1 + int i) * W + (x1 + int j)) (drawPointAlpha mix color) else Inr b))
             [0..<nat w2] b)) [0..<nat h2] buf)"

definition draw24FillRect :: "int \<Rightarrow> int \<Rightarrow> canvas \<Rightarrow> rgb \<Rightarrow> int \<Rightarrow> int \<Rightarrow> int \<Rightarrow> int \<Rightarrow> canvas res" where
  "draw24FillRect W H buf color x y width height =
     (if off_canvas W H x y width height \<or> x < 0 \<or> y < 0 then Inr buf
      else
        let max_line = (if W - x < width then W - x else width);
            t = y * W + x
        in span_high y H height (\<lambda>i b.
             if i = 0 then set_line max_line (\<lambda>_. True) (\<lambda>j. t + int j) color b
             else copy_px b ((y + int i) * W + x) b t max_line) buf)"

definition u_drawIcon :: "mixer \<Rightarrow> bitmaps \<Rightarrow> int \<Rightarrow> int \<Rightarrow> canvas \<Rightarrow> int \<Rightarrow> rgba \<Rightarrow> int \<Rightarrow> int \<Rightarrow> int \<Rightarrow> int \<Rightarrow> canvas res" where
  "u_drawIcon mix icons W H buf icon color x y width height =
     (if icon < 0 \<or> icon \<ge> ICON_NUMBER - 1 then Inr buf
      else let n = (if ICON_SIZE < width then ICON_SIZE else width)
           in glyph_rows W H x y (\<lambda>i j. icons icon i j = 1) n n (drawPointAlpha mix color) buf)"

subsection \<open>Filled rectangles\<close>

text \<open>The clipped fill paints the visible pixels of the rectangle, but none in row 0 or column 0.\<close>


lemma drawFillRect_painted:
  assumes "0 < W" and "H * W \<le> int (length buf)"
  shows "\<exists>b. drawFillRect mix W H buf color x y width height = Inr b \<and>
    painted W (\<lambda>px py. 0 < px \<and> x \<le> px \<and> px < x + width \<and> 0 < py \<and> y \<le> py \<and> py < y + height \<and> py < H)
      (\<lambda>_ _. drawPointAlpha mix color) buf b"
proof (cases "off_canvas W H x y width height")
  case True
  have "painted W (\<lambda>px py. 0 < px \<and> x \<le> px \<and> px < x + width \<and> 0 < py \<and> y \<le> py \<and> py < y + height \<and> py < H)
      (\<lambda>_ _. drawPointAlpha mix color) buf buf"
    by (rule painted_cong [of W "\<lambda>_ _. False", OF painted_refl]) (use True in \<open>auto simp: on_buf_def off_canvas_def\<close>)
  then show ?thesis using True by (simp add: drawFillRect_def)
next
  case False
  define x1 where "x1 = (if x < 0 then 0 else x)"
  define w1 where "w1 = (if x < 0 then width + x else width)"
  define y1 where "y1 = (if y < 0 then 0 else y)"
  define h1 where "h1 = (if y < 0 then height + y else height)"
  define w2 where "w2 = (if x1 + w1 > W then W - x1 else w1)"
  define h2 where "h2 = (if y1 + h1 > H then H - y1 else h1)"
  note defs = x1_def w1_def y1_def h1_def w2_def h2_def
  let ?c = "\<lambda>i j. x1 + int j > 0 \<and> x1 + int j < W \<and> y1 + int i > 0 \<and> y1 + int i < H"
  have eq: "drawFillRect mix W H buf color x y width height =
      for_each (\<lambda>i b. cont_res (for_each (\<lambda>j b. cont_res
        (paint_if (?c i j) ((y1 + int i) * W + (x1 + int j)) (drawPointAlpha mix color) b)) [0..<nat w2] b)) [0..<nat h2] buf"
    using False unfolding drawFillRect_def paint_if_def
    by (cases "x < 0"; cases "y < 0"; simp add: defs Let_def cong: if_cong)
  have xb: "0 \<le> x1 + int j \<and> x1 + int j < W" if "j \<in> set [0..<nat w2]" for j
    using that False by (auto simp: defs off_canvas_def split: if_splits)
  have yb: "0 \<le> y1 + int i \<and> y1 + int i < H" if "i \<in> set [0..<nat h2]" for i
    using that False by (auto simp: defs off_canvas_def split: if_splits)
  obtain b where b: "drawFillRect mix W H buf color x y width height = Inr b"
      "painted W (\<lambda>px py. \<exists>i \<in> set [0..<nat h2]. \<exists>j \<in> set [0..<nat w2]. px = x1 + int j \<and> py = y1 + int i \<and> ?c i j)
        (\<lambda>_ _. drawPointAlpha mix color) buf b"
    unfolding eq using painted_grid [of "[0..<nat h2]" "[0..<nat w2]" y1 W "int (length buf)" x1 buf ?c "\<lambda>_ _. drawPointAlpha mix color"]
      xb yb rows_below [OF assms] by (auto simp del: set_upt)
  have rng: "(\<exists>i \<in> set [0..<nat n]. p = q + int i) \<longleftrightarrow> q \<le> p \<and> p < q + n" for p q n
    using ex_offset [of n "\<lambda>z. p = z" q] by (auto simp: zless_nat_eq_int_zless)
  have ex: "(\<exists>i \<in> set [0..<nat h2]. \<exists>j \<in> set [0..<nat w2]. px = x1 + int j \<and> py = y1 + int i \<and> ?c i j) \<longleftrightarrow>
      (\<exists>i \<in> set [0..<nat h2]. py = y1 + int i) \<and> (\<exists>j \<in> set [0..<nat w2]. px = x1 + int j) \<and> 0 < px \<and> px < W \<and> 0 < py \<and> py < H"
    for px py by auto
  have "painted W (\<lambda>px py. 0 < px \<and> x \<le> px \<and> px < x + width \<and> 0 < py \<and> y \<le> py \<and> py < y + height \<and> py < H)
      (\<lambda>_ _. drawPointAlpha mix color) buf b"
  proof (rule painted_cong [OF b(2)])
    fix px py assume "on_buf W buf px py"
    then show "(\<exists>i \<in> set [0..<nat h2]. \<exists>j \<in> set [0..<nat w2]. px = x1 + int j \<and> py = y1 + int i \<and> ?c i j) =
        (0 < px \<and> x \<le> px \<and> px < x + width \<and> 0 < py \<and> y \<le> py \<and> py < y + height \<and> py < H)"
      unfolding ex rng by (auto simp: on_buf_def defs)
  qed simp
  then show ?thesis using b(1) by blast
qed

subsection \<open>Images\<close>

lemma u_drawImage_painted:
  assumes "0 < W" and "0 \<le> H" and "H * W \<le> int (length buf)" and "int (length img) = width * height"
  shows "\<exists>b. u_drawImage mix W H buf img x y width height = Inr b \<and>
    painted W (\<lambda>px py. x \<le> px \<and> px < x + width \<and> y \<le> py \<and> py < y + height \<and> py < H)
      (\<lambda>px py. drawPointAlpha mix (pix width img (px - x) (height - 1 - (py - y)))) buf b"
proof -
  let ?rs = "visible y H height" and ?cs = "visible x W width"
  let ?k = "\<lambda>i j. (height - int i - 1) * width + int j"
  have rng: "in_range (?k i j) img" if "i \<in> set ?rs" "j \<in> set ?cs" for i j
  proof -
    have ij: "int i < height" "int j < width" "0 < width" using that by (auto simp: set_visible)
    have "0 \<le> (height - int i - 1) * width" using ij by simp
    moreover have "(height - int i) * width \<le> height * width" by (rule mult_right_mono) (use ij in auto)
    moreover have "(height - int i - 1) * width = (height - int i) * width - width" by (simp add: left_diff_distrib)
    moreover have "int (length img) = height * width" using assms(4) by (simp only: mult.commute)
    ultimately show ?thesis using ij unfolding in_range_def by linarith
  qed
  have eq: "u_drawImage mix W H buf img x y width height =
      for_each (\<lambda>i b. cont_res (for_each (\<lambda>j b. cont_res
        (paint_if True ((y + int i) * W + (x + int j)) (drawPointAlpha mix (img ! nat (?k i j))) b)) ?cs b)) ?rs buf"
    unfolding u_drawImage_def span_high_eq [OF assms(2)]
  proof (rule for_each_cong)
    fix i b assume i: "i \<in> set ?rs"
    have "for_each (\<lambda>j b. cont_res (rbind (arr_get img (?k i j)) (\<lambda>p. arr_mod b ((y + int i) * W + x + int j) (drawPointAlpha mix p)))) ?cs b =
        for_each (\<lambda>j b. cont_res (paint_if True ((y + int i) * W + (x + int j)) (drawPointAlpha mix (img ! nat (?k i j))) b)) ?cs b"
      by (rule for_each_cong) (use rng [OF i] in \<open>simp add: paint_if_def add.assoc\<close>)
    then show "cont_res (span_high x W width (\<lambda>j b. rbind (arr_get img (?k i j)) (\<lambda>p. arr_mod b ((y + int i) * W + x + int j) (drawPointAlpha mix p))) b) =
        cont_res (for_each (\<lambda>j b. cont_res (paint_if True ((y + int i) * W + (x + int j)) (drawPointAlpha mix (img ! nat (?k i j))) b)) ?cs b)"
      using assms(1) by (simp add: span_high_eq)
  qed
  obtain b where b: "u_drawImage mix W H buf img x y width height = Inr b"
      "painted W (\<lambda>px py. \<exists>i \<in> set ?rs. \<exists>j \<in> set ?cs. px = x + int j \<and> py = y + int i \<and> True)
        (\<lambda>px py. drawPointAlpha mix (img ! nat (?k (nat (py - y)) (nat (px - x))))) buf b"
    unfolding eq using painted_grid [of ?rs ?cs y W "int (length buf)" x buf "\<lambda>_ _. True" "\<lambda>i j. drawPointAlpha mix (img ! nat (?k i j))"]
      rows_below [OF assms(1,3)] assms(1) by (auto simp: set_visible)
  have ex: "(\<exists>i \<in> set ?rs. \<exists>j \<in> set ?cs. px = x + int j \<and> py = y + int i \<and> True) \<longleftrightarrow>
      (\<exists>i \<in> set ?rs. py = y + int i) \<and> (\<exists>j \<in> set ?cs. px = x + int j)" for px py by blast
  have "painted W (\<lambda>px py. x \<le> px \<and> px < x + width \<and> y \<le> py \<and> py < y + height \<and> py < H)
      (\<lambda>px py. drawPointAlpha mix (pix width img (px - x) (height - 1 - (py - y)))) buf b"
  proof (rule painted_cong [OF b(2)])
    fix px py assume "on_buf W buf px py"
    then show "(\<exists>i \<in> set ?rs. \<exists>j \<in> set ?cs. px = x + int j \<and> py = y + int i \<and> True) =
        (x \<le> px \<and> px < x + width \<and> y \<le> py \<and> py < y + height \<and> py < H)"
      unfolding ex unfolding ex_visible by (auto simp: on_buf_def)
  next
    fix px py c assume "x \<le> px \<and> px < x + width \<and> y \<le> py \<and> py < y + height \<and> py < H"
    then have "?k (nat (py - y)) (nat (px - x)) = (height - 1 - (py - y)) * width + (px - x)" by simp
    then show "drawPointAlpha mix (img ! nat (?k (nat (py - y)) (nat (px - x)))) c =
        drawPointAlpha mix (pix width img (px - x) (height - 1 - (py - y))) c" by (simp only: pix_def)
  qed
  then show ?thesis using b(1) by blast
qed

text \<open>
  The kernel's version reads row \<open>height - i\<close> instead of \<open>height - i - 1\<close>: if the first row is
  visible, it reads one row past the image.
\<close>

lemma drawImage_past_end:
  assumes "int (length img) = width * height" and "0 < width" and "0 < height" and "0 \<le> x" and "x < max_x"
    and "0 \<le> y" and "y < max_y"
  shows "drawImage mix W buf img x y width height max_x max_y = Inl OutOfBounds"
proof -
  have "span_high x max_x width act b = Inl OutOfBounds" if "act 0 b = Inl OutOfBounds" for act and b :: canvas
    using that assms(2,4,5) by (simp add: span_high_def upt_conv_Cons)
  moreover have "\<not> in_range (height * width) img" using assms(1) by (simp add: in_range_def mult.commute)
  ultimately have "span_high x max_x width (\<lambda>j b. rbind (arr_get img ((height - int 0) * width + int j)) (\<lambda>p.
         arr_mod b ((y + int 0) * W + x + int j) (drawPointAlpha mix p))) buf = Inl OutOfBounds" by simp
  moreover have "span_high y max_y height act b = Inl OutOfBounds" if "act 0 b = Inl OutOfBounds" for act and b :: canvas
    using that assms(3,6,7) by (simp add: span_high_def upt_conv_Cons)
  ultimately show ?thesis by (simp add: drawImage_def)
qed

subsection \<open>Outlines\<close>

text \<open>
  \<open>drawRect\<close> tests the bottom side with \<open>y + height <= screen_height\<close>: a rectangle that ends at
  the bottom of the window has its lower side drawn in row \<open>height\<close>, outside the buffer.
\<close>

lemma set_line_out:
  assumes "int i < n" and "c i" and "\<And>j. j < i \<Longrightarrow> \<not> c j" and "int (length b) \<le> k i"
  shows "set_line n c k color b = Inl OutOfBounds"
  unfolding set_line_def
proof (rule for_each_fails [where I = "\<lambda>s. s = b" and as = "[0..<i]" and z = i and bs = "[Suc i..<nat n]"])
  show "[0..<nat n] = [0..<i] @ i # [Suc i..<nat n]"
    using assms(1) upt_add_eq_append [of 0 i "nat n - i"] by (simp add: upt_conv_Cons)
qed (use assms in \<open>auto simp: cont_def in_range_def\<close>)

lemma u_drawRect_out:
  assumes "0 < W" and "int (length buf) = W * H" and "0 \<le> y" and "0 \<le> height" and "y + height = H" and "y < H"
    and "0 \<le> x" and "x + 1 < W" and "2 \<le> width"
  shows "u_drawRect W H buf color x y width height = Inl OutOfBounds"
proof -
  have vis: "\<not> off_canvas W H x y width height" using assms by (simp add: off_canvas_def)
  have n: "H * W \<le> int (length buf)" using assms(2) by (simp add: mult.commute)
  have on: "on_buf W buf (x + int i) y \<and> y * W + x + int i = y * W + (x + int i)"
    if "int i < width" "x + int i \<ge> 0 \<and> x + int i < W" for i
    using rows_below [OF assms(1) n, of y] assms(3,6) that by (auto simp: on_buf_def algebra_simps)
  obtain b1 where b1: "set_line width (\<lambda>i. x + int i \<ge> 0 \<and> x + int i < W) (\<lambda>i. y * W + x + int i) color buf = Inr b1"
      "length b1 = length buf"
    using set_line_painted [of width "\<lambda>i. x + int i \<ge> 0 \<and> x + int i < W" W buf "\<lambda>i. x + int i" "\<lambda>_. y" "\<lambda>i. y * W + x + int i" color]
      on by (auto dest: painted_length)
  define i :: nat where "i = (if x = 0 then 1 else 0)"
  have "set_line width (\<lambda>i. y \<ge> 0 \<and> x + int i > 0 \<and> x + int i < W) (\<lambda>i. y * W + x + height * W + int i) color b1 = Inl OutOfBounds"
  proof (rule set_line_out [of i])
    have "y * W + height * W = W * H" using distrib_right [of y height W] assms(5) by (simp add: mult.commute)
    then show "int (length b1) \<le> y * W + x + height * W + int i" using b1(2) assms(2,7) by simp
  qed (use assms in \<open>auto simp: i_def split: if_splits\<close>)
  then show ?thesis using vis assms(3,5) b1(1) by (simp add: u_drawRect_def Let_def)
qed

subsection \<open>Properties\<close>

text \<open>
  (fill_rect_exact): \<open>drawFillRect\<close>, which clips the rectangle by hand before its loops, stays inside
  the window's buffer for all arguments and blends the colour over exactly the visible pixels of the
  rectangle outside row 0 and column 0.
\<close>

theorem fill_rect_exact:
  assumes "0 < W" and "int (length buf) = W * H"
  shows "\<exists>b. drawFillRect mix W H buf color x y width height = Inr b \<and>
    painted W (\<lambda>px py. 0 < px \<and> x \<le> px \<and> px < x + width \<and> 0 < py \<and> y \<le> py \<and> py < y + height \<and> py < H)
      (\<lambda>_ _. drawPointAlpha mix color) buf b"
  by (rule drawFillRect_painted) (use assms in \<open>simp_all add: mult.commute\<close>)

theorem fill_rect_exact_witness:
  "\<exists>b. drawFillRect (\<lambda>_ _ _. 0) 4 3 tiny white (-2) 1 5 9 = Inr b \<and>
    painted 4 (\<lambda>px py. 0 < px \<and> -2 \<le> px \<and> px < -2 + 5 \<and> 0 < py \<and> 1 \<le> py \<and> py < 1 + 9 \<and> py < 3)
      (\<lambda>_ _. drawPointAlpha (\<lambda>_ _ _. 0) white) tiny b"
  by (rule fill_rect_exact) (simp_all add: tiny_def)

text \<open>
  (image_flip): the user library's \<open>drawImage\<close> draws a bottom-up bitmap upright, clipped to the
  window, and reads only inside the image; the kernel's \<open>drawImage\<close>, one row off, reads past the end
  of the image as soon as its first row is visible.
\<close>

theorem image_flip:
  assumes "0 < W" and "0 < H" and "int (length buf) = W * H" and "int (length img) = width * height"
    and "0 < width" and "0 < height" and "0 \<le> x" and "x < W" and "0 \<le> y" and "y < H"
  shows "(\<exists>b. u_drawImage mix W H buf img x y width height = Inr b \<and>
      painted W (\<lambda>px py. x \<le> px \<and> px < x + width \<and> y \<le> py \<and> py < y + height \<and> py < H)
        (\<lambda>px py. drawPointAlpha mix (pix width img (px - x) (height - 1 - (py - y)))) buf b) \<and>
    drawImage mix W buf img x y width height W H = Inl OutOfBounds"
  using u_drawImage_painted [of W H buf img width height mix x y] drawImage_past_end [of img width height x W y H mix W buf] assms
  by (simp add: mult.commute)

theorem image_flip_witness:
  "(\<exists>b. u_drawImage (\<lambda>_ _ _. 0) 4 3 tiny [white, white] 1 1 1 2 = Inr b \<and>
      painted 4 (\<lambda>px py. 1 \<le> px \<and> px < 1 + 1 \<and> 1 \<le> py \<and> py < 1 + 2 \<and> py < 3)
        (\<lambda>px py. drawPointAlpha (\<lambda>_ _ _. 0) (pix 1 [white, white] (px - 1) (2 - 1 - (py - 1)))) tiny b) \<and>
    drawImage (\<lambda>_ _ _. 0) 4 tiny [white, white] 1 1 1 2 4 3 = Inl OutOfBounds"
  by (rule image_flip) (simp_all add: tiny_def)

text \<open>
  (outline_out_of_buffer): the user library's \<open>drawRect\<close> writes outside the window's buffer for any
  rectangle at least two pixels wide that ends exactly at the bottom of the window.
\<close>

theorem outline_out_of_buffer:
  assumes "0 < W" and "int (length buf) = W * H" and "0 \<le> y" and "y < H" and "0 \<le> x" and "x + 1 < W" and "2 \<le> width"
  shows "u_drawRect W H buf color x y width (H - y) = Inl OutOfBounds"
  by (rule u_drawRect_out) (use assms in auto)

theorem outline_out_of_buffer_witness:
  "u_drawRect 4 3 tiny black_px 0 0 4 (3 - 0) = Inl OutOfBounds"
  by (rule outline_out_of_buffer) (simp_all add: tiny_def)

end
