(* ===== verification/CString.thy ===== *)
theory CString
  imports Prelude
begin

text \<open>
  The string and memory routines of the kernel (string.c) and of the user library (ulib.c). A
  routine that writes works on the bytes \<open>m\<close> of the memory it is given, with pointers as offsets
  into it, so that source and destination may overlap; a routine that only reads a string gets the
  memory from the string's first byte on. Every access outside that memory is reported.
\<close>

subsection \<open>Memory\<close>

text \<open>\<open>stosb\<close> and \<open>stosl\<close>: repeated stores of a byte, and of a 32-bit word (low byte first).\<close>

fun stosb :: "byte list \<Rightarrow> int \<Rightarrow> byte \<Rightarrow> nat \<Rightarrow> byte list res" where
  "stosb m d c 0 = Inr m"
| "stosb m d c (Suc n) = rbind (arr_set m d c) (\<lambda>m1. stosb m1 (d + 1) c n)"

definition store4 :: "byte list \<Rightarrow> int \<Rightarrow> 32 word \<Rightarrow> byte list res" where
  "store4 m d w =
     rbind (arr_set m d (ucast w)) (\<lambda>m1.
     rbind (arr_set m1 (d + 1) (ucast (drop_bit 8 w))) (\<lambda>m2.
     rbind (arr_set m2 (d + 2) (ucast (drop_bit 16 w))) (\<lambda>m3.
     arr_set m3 (d + 3) (ucast (drop_bit 24 w)))))"

fun stosl :: "byte list \<Rightarrow> int \<Rightarrow> 32 word \<Rightarrow> nat \<Rightarrow> byte list res" where
  "stosl m d w 0 = Inr m"
| "stosl m d w (Suc n) = rbind (store4 m d w) (\<lambda>m1. stosl m1 (d + 4) w n)"

unbundle bit_operations_syntax

definition memset :: "byte list \<Rightarrow> int \<Rightarrow> int \<Rightarrow> nat \<Rightarrow> byte list res" where
  "memset m d c n =
     (if d mod 4 = 0 \<and> n mod 4 = 0 then
        let c1 = (word_of_int c :: 32 word) AND 0xFF
        in stosl m d (push_bit 24 c1 OR push_bit 16 c1 OR push_bit 8 c1 OR c1) (n div 4)
      else stosb m d (word_of_int c) n)"

definition u_memset :: "byte list \<Rightarrow> int \<Rightarrow> int \<Rightarrow> nat \<Rightarrow> byte list res" where
  "u_memset m d c n = stosb m d (word_of_int c) n"

fun memcmp :: "byte list \<Rightarrow> int \<Rightarrow> int \<Rightarrow> nat \<Rightarrow> int res" where
  "memcmp m a b 0 = Inr 0"
| "memcmp m a b (Suc n) =
     rbind (arr_get m a) (\<lambda>x. rbind (arr_get m b) (\<lambda>y.
       if x \<noteq> y then Inr (uint x - uint y) else memcmp m (a + 1) (b + 1) n))"

fun copy_up :: "byte list \<Rightarrow> int \<Rightarrow> int \<Rightarrow> nat \<Rightarrow> byte list res" where
  "copy_up m d s 0 = Inr m"
| "copy_up m d s (Suc n) =
     rbind (arr_get m s) (\<lambda>v. rbind (arr_set m d v) (\<lambda>m1. copy_up m1 (d + 1) (s + 1) n))"

fun copy_down :: "byte list \<Rightarrow> int \<Rightarrow> int \<Rightarrow> nat \<Rightarrow> byte list res" where
  "copy_down m d s 0 = Inr m"
| "copy_down m d s (Suc n) =
     rbind (arr_get m (s - 1)) (\<lambda>v. rbind (arr_set m (d - 1) v) (\<lambda>m1. copy_down m1 (d - 1) (s - 1) n))"

definition memmove :: "byte list \<Rightarrow> int \<Rightarrow> int \<Rightarrow> nat \<Rightarrow> byte list res" where
  "memmove m d s n =
     (if s < d \<and> s + int n > d then copy_down m (d + int n) (s + int n) n else copy_up m d s n)"

definition memcpy :: "byte list \<Rightarrow> int \<Rightarrow> int \<Rightarrow> nat \<Rightarrow> byte list res" where
  "memcpy m d s n = memmove m d s n"

text \<open>The user library's version always copies upwards and takes a signed count.\<close>

definition u_memmove :: "byte list \<Rightarrow> int \<Rightarrow> int \<Rightarrow> int \<Rightarrow> byte list res" where
  "u_memmove m d s n = copy_up m d s (nat n)"

subsection \<open>Strings\<close>

fun strncmp :: "byte list \<Rightarrow> byte list \<Rightarrow> nat \<Rightarrow> int res" where
  "strncmp p q 0 = Inr 0"
| "strncmp (x # p) (y # q) (Suc n) =
     (if x \<noteq> 0 \<and> x = y then strncmp p q n else Inr (uint x - uint y))"
| "strncmp [] q (Suc n) = Inl OutOfBounds"
| "strncmp (x # p) [] (Suc n) = Inl OutOfBounds"

fun strcmp :: "byte list \<Rightarrow> byte list \<Rightarrow> int res" where
  "strcmp (x # p) (y # q) = (if x \<noteq> 0 \<and> x = y then strcmp p q else Inr (uint x - uint y))"
| "strcmp [] q = Inl OutOfBounds"
| "strcmp (x # p) [] = Inl OutOfBounds"

fun strlen :: "byte list \<Rightarrow> int res" where
  "strlen [] = Inl OutOfBounds"
| "strlen (c # s) = (if c = 0 then Inr 0 else rbind (strlen s) (\<lambda>n. Inr (n + 1)))"

fun strcpy :: "byte list \<Rightarrow> int \<Rightarrow> byte list \<Rightarrow> byte list res" where
  "strcpy m s [] = Inl OutOfBounds"
| "strcpy m s (c # t) = rbind (arr_set m s c) (\<lambda>m1. if c \<noteq> 0 then strcpy m1 (s + 1) t else Inr m1)"

fun strncpy :: "byte list \<Rightarrow> int \<Rightarrow> byte list \<Rightarrow> nat \<Rightarrow> byte list res" where
  "strncpy m s t 0 = Inr m"
| "strncpy m s [] (Suc n) = Inl OutOfBounds"
| "strncpy m s (c # t) (Suc n) =
     rbind (arr_set m s c) (\<lambda>m1. if c \<noteq> 0 then strncpy m1 (s + 1) t n else stosb m1 (s + 1) 0 n)"

text \<open>The loop of \<open>safestrcpy\<close>, entered with \<open>n > 0\<close>; it stores the final NUL.\<close>

fun safestrcpy_loop :: "byte list \<Rightarrow> int \<Rightarrow> byte list \<Rightarrow> nat \<Rightarrow> byte list res" where
  "safestrcpy_loop m s t 0 = arr_set m s 0"
| "safestrcpy_loop m s [] (Suc n) = Inl OutOfBounds"
| "safestrcpy_loop m s (c # t) (Suc n) =
     rbind (arr_set m s c) (\<lambda>m1.
       if c \<noteq> 0 then safestrcpy_loop m1 (s + 1) t n else arr_set m1 (s + 1) 0)"

definition safestrcpy :: "byte list \<Rightarrow> int \<Rightarrow> byte list \<Rightarrow> int \<Rightarrow> byte list res" where
  "safestrcpy m s t n = (if n \<le> 0 then Inr m else safestrcpy_loop m s t (nat (n - 1)))"

text \<open>\<open>strchr\<close>: the offset of the character found, if any.\<close>

fun strchr :: "byte list \<Rightarrow> byte \<Rightarrow> int option res" where
  "strchr [] c = Inl OutOfBounds"
| "strchr (x # s) c =
     (if x = 0 then Inr None
      else if x = c then Inr (Some 0)
      else rbind (strchr s c) (\<lambda>r. Inr (map_option (\<lambda>k. k + 1) r)))"

text \<open>\<open>gets\<close>: \<open>input\<close> is what \<open>read\<close> will deliver, one byte a call; at its end \<open>read\<close> returns 0.\<close>

fun gets_from :: "byte list \<Rightarrow> int \<Rightarrow> nat \<Rightarrow> byte list \<Rightarrow> (byte list \<times> byte list) res" where
  "gets_from buf i 0 input = rbind (arr_set buf i 0) (\<lambda>b. Inr (b, input))"
| "gets_from buf i (Suc room) [] = rbind (arr_set buf i 0) (\<lambda>b. Inr (b, []))"
| "gets_from buf i (Suc room) (c # input) =
     rbind (arr_set buf i c) (\<lambda>b.
       if c = 10 \<or> c = 13 then rbind (arr_set b (i + 1) 0) (\<lambda>b'. Inr (b', input))
       else gets_from b (i + 1) room input)"

definition gets :: "byte list \<Rightarrow> int \<Rightarrow> byte list \<Rightarrow> (byte list \<times> byte list) res" where
  "gets buf mx input = gets_from buf 0 (nat (mx - 1)) input"

fun atoi_from :: "int \<Rightarrow> byte list \<Rightarrow> int res" where
  "atoi_from n [] = Inl OutOfBounds"
| "atoi_from n (c # s) = (if 48 \<le> c \<and> c \<le> 57 then atoi_from (n * 10 + uint c - 48) s else Inr n)"

definition atoi :: "byte list \<Rightarrow> int res" where
  "atoi s = atoi_from 0 s"

subsection \<open>Copies\<close>

text \<open>The memory after a correct copy of \<open>n\<close> bytes from \<open>s\<close> to \<open>d\<close>.\<close>

definition copied :: "byte list \<Rightarrow> int \<Rightarrow> int \<Rightarrow> int \<Rightarrow> byte list \<Rightarrow> bool" where
  "copied m d s n m' \<longleftrightarrow> length m' = length m \<and>
     (\<forall>k. in_range k m \<longrightarrow> m' ! nat k = (if d \<le> k \<and> k < d + n then m ! nat (s + (k - d)) else m ! nat k))"

lemma nth_set: "in_range k m \<Longrightarrow> in_range d m \<Longrightarrow> (m[nat d := v]) ! nat k = (if k = d then v else m ! nat k)"
  by (auto simp: in_range_def nth_list_update eq_nat_nat_iff)

lemma copy_up_copied:
  assumes "0 \<le> d" "0 \<le> s" "d + int n \<le> int (length m)" "s + int n \<le> int (length m)" "d \<le> s \<or> s + int n \<le> d"
  shows "\<exists>m'. copy_up m d s n = Inr m' \<and> copied m d s (int n) m'"
  using assms
proof (induction n arbitrary: m d s)
  case 0
  then show ?case by (simp add: copied_def)
next
  case (Suc n)
  let ?m1 = "m[nat d := m ! nat s]"
  have r: "in_range s m" "in_range d m" using Suc.prems by (simp_all add: in_range_def)
  obtain m' where m': "copy_up ?m1 (d + 1) (s + 1) n = Inr m'" "copied ?m1 (d + 1) (s + 1) (int n) m'"
    using Suc.IH [of "d + 1" "s + 1" ?m1] Suc.prems by auto
  have "copied m d s (int (Suc n)) m'"
  proof -
    have "m' ! nat k = (if d \<le> k \<and> k < d + int (Suc n) then m ! nat (s + (k - d)) else m ! nat k)" if k: "in_range k m" for k
    proof -
      have "m' ! nat k = (if d + 1 \<le> k \<and> k < d + 1 + int n then ?m1 ! nat (s + 1 + (k - (d + 1))) else ?m1 ! nat k)"
        using m'(2) k by (simp add: copied_def)
      moreover have "?m1 ! nat k = (if k = d then m ! nat s else m ! nat k)" by (rule nth_set [OF k r(2)])
      moreover have "?m1 ! nat (s + 1 + (k - (d + 1))) = m ! nat (s + (k - d))" if "d + 1 \<le> k" "k < d + 1 + int n"
      proof -
        have "s + (k - d) \<noteq> d" using that Suc.prems(5) by auto
        moreover have "in_range (s + (k - d)) m" using that Suc.prems by (auto simp: in_range_def)
        ultimately show ?thesis using nth_set [OF _ r(2), of "s + (k - d)"] by (simp add: algebra_simps)
      qed
      ultimately show ?thesis by auto
    qed
    then show ?thesis using m'(2) by (simp add: copied_def)
  qed
  then show ?case using m'(1) r by simp
qed

lemma copy_down_copied:
  assumes "0 \<le> d" "0 \<le> s" "d + int n \<le> int (length m)" "s + int n \<le> int (length m)" "s \<le> d"
  shows "\<exists>m'. copy_down m (d + int n) (s + int n) n = Inr m' \<and> copied m d s (int n) m'"
  using assms
proof (induction n arbitrary: m)
  case 0
  then show ?case by (simp add: copied_def)
next
  case (Suc n)
  let ?e = "d + int n" and ?m1 = "m[nat (d + int n) := m ! nat (s + int n)]"
  have r: "in_range (s + int n) m" "in_range ?e m" using Suc.prems by (simp_all add: in_range_def)
  obtain m' where m': "copy_down ?m1 (d + int n) (s + int n) n = Inr m'" "copied ?m1 d s (int n) m'"
    using Suc.IH [of ?m1] Suc.prems by auto
  have "copied m d s (int (Suc n)) m'"
  proof -
    have "m' ! nat k = (if d \<le> k \<and> k < d + int (Suc n) then m ! nat (s + (k - d)) else m ! nat k)" if k: "in_range k m" for k
    proof -
      have "m' ! nat k = (if d \<le> k \<and> k < d + int n then ?m1 ! nat (s + (k - d)) else ?m1 ! nat k)"
        using m'(2) k by (simp add: copied_def)
      moreover have "?m1 ! nat k = (if k = ?e then m ! nat (s + int n) else m ! nat k)" by (rule nth_set [OF k r(2)])
      moreover have "?m1 ! nat (s + (k - d)) = m ! nat (s + (k - d))" if "d \<le> k" "k < d + int n"
      proof -
        have "s + (k - d) \<noteq> ?e" using that Suc.prems(5) by auto
        moreover have "in_range (s + (k - d)) m" using that Suc.prems by (auto simp: in_range_def)
        ultimately show ?thesis using nth_set [OF _ r(2), of "s + (k - d)"] by simp
      qed
      ultimately show ?thesis by auto
    qed
    then show ?thesis using m'(2) by (simp add: copied_def)
  qed
  moreover have "copy_down m (d + int (Suc n)) (s + int (Suc n)) (Suc n) = Inr m'"
    using m'(1) r by (simp add: algebra_simps)
  ultimately show ?case by blast
qed

text \<open>Copying upwards onto the source itself repeats the first \<open>d - s\<close> bytes.\<close>

lemma copy_up_repeats:
  assumes "0 \<le> s" "s < d" "d + int n \<le> int (length m)"
  shows "\<exists>m'. copy_up m d s n = Inr m' \<and> length m' = length m \<and>
    (\<forall>k. in_range k m \<longrightarrow> m' ! nat k = (if d \<le> k \<and> k < d + int n then m' ! nat (k - (d - s)) else m ! nat k))"
  using assms
proof (induction n arbitrary: m d s)
  case 0
  then show ?case by simp
next
  case (Suc n)
  let ?m1 = "m[nat d := m ! nat s]"
  have r: "in_range s m" "in_range d m" using Suc.prems by (simp_all add: in_range_def)
  obtain m' where m': "copy_up ?m1 (d + 1) (s + 1) n = Inr m'" "length m' = length m"
    "\<And>k. in_range k m \<Longrightarrow> m' ! nat k = (if d + 1 \<le> k \<and> k < d + 1 + int n then m' ! nat (k - (d - s)) else ?m1 ! nat k)"
    using Suc.IH [of "s + 1" "d + 1" ?m1] Suc.prems by (auto simp: algebra_simps)
  have "m' ! nat k = (if d \<le> k \<and> k < d + int (Suc n) then m' ! nat (k - (d - s)) else m ! nat k)" if k: "in_range k m" for k
  proof -
    have d1: "m' ! nat d = m ! nat s" using m'(3) [OF r(2)] nth_set [OF r(2) r(2)] by simp
    have "m' ! nat s = m ! nat s" using m'(3) [OF r(1)] nth_set [OF r(1) r(2)] Suc.prems(2) by simp
    then have "m' ! nat d = m' ! nat (d - (d - s))" using d1 by simp
    moreover have "?m1 ! nat k = m ! nat k" if "k \<noteq> d" using nth_set [OF k r(2)] that by simp
    ultimately show ?thesis using m'(3) [OF k] by (cases "k = d") auto
  qed
  then show ?case using m'(1,2) r by auto
qed

subsection \<open>Stores of a block\<close>

definition stored :: "byte list \<Rightarrow> nat \<Rightarrow> byte list \<Rightarrow> byte list" where
  "stored m k xs = take k m @ xs @ drop (k + length xs) m"

lemma length_stored [simp]: "k + length xs \<le> length m \<Longrightarrow> length (stored m k xs) = length m"
  by (simp add: stored_def)

lemma stored_Nil [simp]: "stored m k [] = m"
  by (simp add: stored_def)

lemma nth_stored:
  "k + length xs \<le> length m \<Longrightarrow> i < length m \<Longrightarrow>
   stored m k xs ! i = (if k \<le> i \<and> i < k + length xs then xs ! (i - k) else m ! i)"
  by (auto simp: stored_def nth_append)

lemma stored_append:
  "k + length xs + length ys \<le> length m \<Longrightarrow> stored (stored m k xs) (k + length xs) ys = stored m k (xs @ ys)"
  by (rule nth_equalityI) (auto simp: nth_stored nth_append)

lemma stored_Cons:
  assumes "k + Suc (length xs) \<le> length m"
  shows "stored (m[k := x]) (Suc k) xs = stored m k (x # xs)"
  by (rule nth_equalityI) (use assms in \<open>auto simp: nth_stored nth_list_update nth_Cons'\<close>)

lemma stored_step:
  assumes "k + length (x # xs) \<le> length m" and "\<And>m1. length m1 = length m \<Longrightarrow> f m1 = Inr (stored m1 (Suc k) xs)"
  shows "rbind (arr_set m (int k) x) f = Inr (stored m k (x # xs))"
  using assms stored_Cons [of k xs m x] by simp

lemma stosb_stored: "k + n \<le> length m \<Longrightarrow> stosb m (int k) c n = Inr (stored m k (replicate n c))"
proof (induction n arbitrary: m k)
  case (Suc n)
  then show ?case using Suc.IH [of "Suc k" "m[k := c]"] stored_Cons [of k "replicate n c" m c] by (simp add: algebra_simps)
qed simp

lemma store4_stored:
  assumes "k + 4 \<le> length m"
  shows "store4 m (int k) w = Inr (stored m k [ucast w, ucast (drop_bit 8 w), ucast (drop_bit 16 w), ucast (drop_bit 24 w)])"
proof -
  have i: "int k + 1 = int (Suc k)" "int k + 2 = int (Suc (Suc k))" "int k + 3 = int (Suc (Suc (Suc k)))" by simp_all
  show ?thesis unfolding store4_def i
    using assms by (simp add: stored_Cons [symmetric] del: of_nat_Suc)
qed

text \<open>The word that \<open>memset\<close> stores holds the byte four times.\<close>

lemma pattern_bytes:
  fixes c :: "32 word"
  defines "w \<equiv> push_bit 24 (c AND 0xFF) OR push_bit 16 (c AND 0xFF) OR push_bit 8 (c AND 0xFF) OR (c AND 0xFF)"
  shows "(ucast w :: byte) = ucast c" and "(ucast (drop_bit 8 w) :: byte) = ucast c"
    and "(ucast (drop_bit 16 w) :: byte) = ucast c" and "(ucast (drop_bit 24 w) :: byte) = ucast c"
proof -
  have ff: "bit (0xFF :: int) n \<longleftrightarrow> n < 8" for n
  proof -
    have eq: "(0xFF :: int) = mask 8" by (simp add: mask_eq_exp_minus_1)
    show ?thesis by (simp only: eq bit_mask_iff) auto
  qed
  show "(ucast w :: byte) = ucast c" "(ucast (drop_bit 8 w) :: byte) = ucast c"
    "(ucast (drop_bit 16 w) :: byte) = ucast c" "(ucast (drop_bit 24 w) :: byte) = ucast c"
    by (rule bit_word_eqI; auto simp: w_def bit_unsigned_iff bit_or_iff bit_and_iff bit_push_bit_iff bit_drop_bit_eq ff)+
qed

lemma stosl_stored:
  assumes "(ucast w :: byte) = b" "(ucast (drop_bit 8 w) :: byte) = b" "(ucast (drop_bit 16 w) :: byte) = b" "(ucast (drop_bit 24 w) :: byte) = b"
  shows "k + 4 * n \<le> length m \<Longrightarrow> stosl m (int k) w n = Inr (stored m k (replicate (4 * n) b))"
proof (induction n arbitrary: m k)
  case (Suc n)
  have s: "store4 m (int k) w = Inr (stored m k [b, b, b, b])" using store4_stored [of k m w] Suc.prems assms by simp
  have i: "int k + 4 = int (k + 4)" by simp
  have "stosl (stored m k [b, b, b, b]) (int (k + 4)) w n = Inr (stored (stored m k [b, b, b, b]) (k + 4) (replicate (4 * n) b))"
    by (rule Suc.IH) (use Suc.prems in simp)
  moreover have "stored (stored m k [b, b, b, b]) (k + 4) (replicate (4 * n) b) = stored m k (replicate (4 * Suc n) b)"
    using stored_append [of k "[b, b, b, b]" "replicate (4 * n) b" m] Suc.prems by (simp add: numeral_eq_Suc)
  ultimately show ?case using s by (simp only: stosl.simps rbind_Inr i)
qed simp

lemma memset_stored:
  assumes "k + n \<le> length m"
  shows "memset m (int k) c n = Inr (stored m k (replicate n (word_of_int c)))"
proof (cases "int k mod 4 = 0 \<and> n mod 4 = 0")
  case True
  then have n: "4 * (n div 4) = n" by auto
  have u: "(ucast (word_of_int c :: 32 word) :: byte) = word_of_int c" by (rule bit_word_eqI) (auto simp: bit_unsigned_iff bit_word_of_int_iff)
  show ?thesis using True stosl_stored [OF pattern_bytes [of "word_of_int c"], of k "n div 4" m] assms n u
    by (simp add: memset_def Let_def)
next
  case False
  show ?thesis unfolding memset_def if_not_P [OF False] by (rule stosb_stored [OF assms])
qed

subsection \<open>NUL-terminated strings\<close>

text \<open>\<open>is_str p s\<close>: the memory \<open>p\<close> starts with the string \<open>s\<close> and its NUL.\<close>

definition is_str :: "byte list \<Rightarrow> byte list \<Rightarrow> bool" where
  "is_str p s \<longleftrightarrow> (\<exists>r. p = s @ 0 # r) \<and> 0 \<notin> set s"

lemma is_str_cases:
  "is_str p s \<longleftrightarrow> (case s of [] \<Rightarrow> \<exists>r. p = 0 # r | c # s' \<Rightarrow> c \<noteq> 0 \<and> (\<exists>p'. p = c # p' \<and> is_str p' s'))"
  by (cases s) (auto simp: is_str_def)

lemma is_str_unique: "is_str p s \<Longrightarrow> is_str p s' \<Longrightarrow> s = s'"
proof (induction s arbitrary: p s')
  case Nil
  then show ?case by (cases s') (auto simp: is_str_def)
next
  case (Cons c s)
  then show ?case by (cases s') (auto simp: is_str_def)
qed

lemma strlen_spec: "is_str p s \<Longrightarrow> strlen p = Inr (int (length s))"
proof (induction s arbitrary: p)
  case Nil
  then show ?case by (auto simp: is_str_def)
next
  case (Cons c s)
  then obtain p' where "p = c # p'" "c \<noteq> 0" "is_str p' s" by (auto simp: is_str_def)
  then show ?case using Cons.IH [of p'] by simp
qed

lemma strcpy_spec: "is_str t s \<Longrightarrow> k + length s < length m \<Longrightarrow> strcpy m (int k) t = Inr (stored m k (s @ [0]))"
proof (induction s arbitrary: t m k)
  case Nil
  then obtain r where "t = 0 # r" by (auto simp: is_str_def)
  then show ?case using Nil stored_Cons [of k "[]" m 0] by simp
next
  case (Cons c s)
  then obtain t' where t: "t = c # t'" "c \<noteq> 0" "is_str t' s" by (auto simp: is_str_def)
  have "strcpy (m[k := c]) (int (Suc k)) t' = Inr (stored (m[k := c]) (Suc k) (s @ [0]))"
    by (rule Cons.IH [OF t(3)]) (use Cons.prems in simp)
  then show ?case using t Cons.prems(2) stored_Cons [of k "s @ [0]" m c] by (simp add: add.commute)
qed

lemma strcpy_overflow: "is_str t s \<Longrightarrow> length m \<le> k + length s \<Longrightarrow> strcpy m (int k) t = Inl OutOfBounds"
proof (induction s arbitrary: t m k)
  case Nil
  then obtain r where "t = 0 # r" by (auto simp: is_str_def)
  then show ?case using Nil by simp
next
  case (Cons c s)
  then obtain t' where t: "t = c # t'" "c \<noteq> 0" "is_str t' s" by (auto simp: is_str_def)
  show ?case
  proof (cases "k < length m")
    case True
    have "strcpy (m[k := c]) (int (Suc k)) t' = Inl OutOfBounds"
      by (rule Cons.IH [OF t(3)]) (use Cons.prems in simp)
    then show ?thesis using t True by (simp add: add.commute)
  qed (use t in simp)
qed

lemma safestrcpy_loop_spec:
  "is_str t s \<Longrightarrow> k + n < length m \<Longrightarrow>
   \<exists>m'. safestrcpy_loop m (int k) t n = Inr m' \<and> length m' = length m \<and> take k m' = take k m \<and>
     is_str (drop k m') (take n s) \<and> drop (Suc (k + n)) m' = drop (Suc (k + n)) m"
proof (induction n arbitrary: m k t s)
  case 0
  then have "safestrcpy_loop m (int k) t 0 = Inr (m[k := 0])" by simp
  moreover have "drop k (m[k := 0]) = 0 # drop (Suc k) m" using 0(2) by (simp add: Cons_nth_drop_Suc [symmetric])
  then have "is_str (drop k (m[k := 0])) (take 0 s)" by (simp add: is_str_def)
  ultimately show ?case using 0(2) by (intro exI [of _ "m[k := 0]"]) simp
next
  case (Suc n)
  have k: "k < length m" "Suc k < length m" using Suc.prems(2) by auto
  show ?case
  proof (cases s)
    case Nil
    then obtain r where t: "t = 0 # r" using Suc.prems(1) by (auto simp: is_str_def)
    let ?m = "m[k := 0, Suc k := 0]"
    have "safestrcpy_loop m (int k) t (Suc n) = Inr ?m" using t k by (simp add: add.commute flip: of_nat_Suc)
    moreover have "drop k ?m = 0 # drop (Suc k) ?m" using k by (simp add: Cons_nth_drop_Suc [symmetric])
    ultimately show ?thesis using Nil by (intro exI [of _ ?m]) (simp add: is_str_def)
  next
    case (Cons c s')
    then obtain t' where t: "t = c # t'" "c \<noteq> 0" "is_str t' s'" using Suc.prems(1) by (auto simp: is_str_def)
    obtain m' where m': "safestrcpy_loop (m[k := c]) (int (Suc k)) t' n = Inr m'" "length m' = length m"
      "take (Suc k) m' = take (Suc k) (m[k := c])" "is_str (drop (Suc k) m') (take n s')"
      "drop (Suc (Suc k + n)) m' = drop (Suc (Suc k + n)) (m[k := c])"
      using Suc.IH [OF t(3), of "Suc k" "m[k := c]"] Suc.prems(2) by auto
    have "m' ! k = c" using arg_cong [OF m'(3), of "\<lambda>xs. xs ! k"] k by simp
    then have "drop k m' = c # drop (Suc k) m'" using k m'(2) by (metis Cons_nth_drop_Suc)
    then have "is_str (drop k m') (take (Suc n) s)" using m'(4) t(2) Cons by (auto simp: is_str_def)
    moreover have "take k m' = take k m"
      using arg_cong [OF m'(3), of "take k"] by (simp add: min_def)
    moreover have "safestrcpy_loop m (int k) t (Suc n) = Inr m'" using t(1,2) m'(1) k by (simp add: add.commute)
    ultimately show ?thesis using m'(2,5) by (intro exI [of _ m']) simp
  qed
qed

lemma strcmp_zero: "is_str p s \<Longrightarrow> is_str q s' \<Longrightarrow> \<exists>r. strcmp p q = Inr r \<and> (r = 0 \<longleftrightarrow> s = s')"
proof (induction s arbitrary: p q s')
  case Nil
  then obtain r where "p = 0 # r" by (auto simp: is_str_def)
  moreover obtain y q' where "q = y # q'" "y = 0 \<longleftrightarrow> s' = []" using Nil(2) by (cases s') (auto simp: is_str_def)
  ultimately show ?case by (auto simp: uint_0_iff)
next
  case (Cons c s)
  then obtain p' where p: "p = c # p'" "c \<noteq> 0" "is_str p' s" by (auto simp: is_str_def)
  show ?case
  proof (cases s')
    case Nil
    then obtain r where "q = 0 # r" using Cons.prems(2) by (auto simp: is_str_def)
    then show ?thesis using p Nil by (auto simp: uint_0_iff)
  next
    case (Cons d s'')
    then obtain q' where q: "q = d # q'" "d \<noteq> 0" "is_str q' s''" using \<open>is_str q s'\<close> by (auto simp: is_str_def)
    then show ?thesis using p Cons.IH [OF p(3) q(3)] Cons by (cases "c = d") (auto simp: word_uint_eq_iff)
  qed
qed

subsection \<open>Properties\<close>

text \<open>
  (memmove_any_overlap): the kernel's \<open>memmove\<close> moves the bytes correctly for every position of the
  two ranges, overlapping or not, and touches nothing else; the user library's version, which always
  copies upwards, is correct when the destination does not start inside the source, and otherwise
  repeats the first \<open>d - s\<close> bytes with that period.
\<close>

theorem memmove_any_overlap:
  assumes "0 \<le> d" and "0 \<le> s" and "d + int n \<le> int (length m)" and "s + int n \<le> int (length m)"
  shows "(\<exists>m'. memmove m d s n = Inr m' \<and> copied m d s (int n) m') \<and>
    (\<exists>m'. u_memmove m d s (int n) = Inr m' \<and> length m' = length m \<and>
       (if s < d \<and> d < s + int n
        then \<forall>k. in_range k m \<longrightarrow> m' ! nat k = (if d \<le> k \<and> k < d + int n then m' ! nat (k - (d - s)) else m ! nat k)
        else copied m d s (int n) m'))"
proof (cases "s < d \<and> d < s + int n")
  case True
  then have "memmove m d s n = copy_down m (d + int n) (s + int n) n" by (simp add: memmove_def)
  then show ?thesis using copy_down_copied [OF assms] copy_up_repeats [OF assms(2) _ assms(3)] True
    by (auto simp: u_memmove_def)
next
  case False
  then have "memmove m d s n = copy_up m d s n" by (auto simp: memmove_def)
  moreover obtain m' where "copy_up m d s n = Inr m'" "copied m d s (int n) m'"
    using copy_up_copied [OF assms] False by auto
  ultimately show ?thesis using False by (auto simp: u_memmove_def copied_def)
qed

theorem memmove_any_overlap_witness:
  "(\<exists>m'. memmove [1, 2, 3, 4] 1 0 3 = Inr m' \<and> copied [1, 2, 3, 4] 1 0 (int 3) m') \<and>
   u_memmove [1, 2, 3, 4] 1 0 3 = Inr [1, 1, 1, 1] \<and> memmove [1, 2, 3, 4] 1 0 3 = Inr [1, 1, 2, 3]"
proof -
  have "u_memmove [1, 2, 3, 4] 1 0 3 = Inr [1, 1, 1, 1]" "memmove [1, 2, 3, 4] 1 0 3 = Inr [1, 1, 2, 3]"
    by (simp_all add: u_memmove_def memmove_def numeral_eq_Suc in_range_def)
  then show ?thesis using memmove_any_overlap [of 1 0 3 "[1, 2, 3, 4]"] by simp
qed

text \<open>
  (memset_both_paths): the kernel's \<open>memset\<close> stores the low byte of \<open>c\<close> in exactly the \<open>n\<close> bytes from
  \<open>d\<close> on, whether it takes the path by 32-bit words (aligned address and size) or by bytes.
\<close>

theorem memset_both_paths:
  assumes "k + n \<le> length m"
  shows "memset m (int k) c n = Inr (take k m @ replicate n (word_of_int c) @ drop (k + n) m)"
  using memset_stored [OF assms, of c] by (simp add: stored_def)

theorem memset_both_paths_witness:
  "memset [1, 2, 3, 4, 5, 6, 7, 8, 9] (int 4) 0x1FF 4 = Inr (take 4 [1, 2, 3, 4, 5, 6, 7, 8, 9] @
     replicate 4 (word_of_int 0x1FF) @ drop (4 + 4) [1, 2, 3, 4, 5, 6, 7, 8, 9])"
  by (rule memset_both_paths) simp

text \<open>
  (safestrcpy_terminates): \<open>safestrcpy(s, t, n)\<close> with \<open>n > 0\<close> writes only the \<open>n\<close> bytes from \<open>s\<close> on and
  leaves there the longest prefix of the source string that fits with its NUL; \<open>strcpy\<close>, in contrast,
  writes outside the destination exactly when string and NUL do not fit.
\<close>

theorem safestrcpy_terminates:
  assumes "is_str t s" and "0 < n" and "k + n \<le> length m"
  shows "(\<exists>m'. safestrcpy m (int k) t (int n) = Inr m' \<and> length m' = length m \<and> take k m' = take k m \<and>
      is_str (drop k m') (take (n - 1) s) \<and> drop (k + n) m' = drop (k + n) m) \<and>
    strcpy m (int k) t = (if k + length s < length m then Inr (stored m k (s @ [0])) else Inl OutOfBounds)"
proof -
  have "nat (int n - 1) = n - 1" "Suc (k + (n - 1)) = k + n" using assms(2) by auto
  then have "\<exists>m'. safestrcpy m (int k) t (int n) = Inr m' \<and> length m' = length m \<and> take k m' = take k m \<and>
      is_str (drop k m') (take (n - 1) s) \<and> drop (k + n) m' = drop (k + n) m"
    using safestrcpy_loop_spec [OF assms(1), of k "n - 1" m] assms(2,3) by (simp add: safestrcpy_def)
  then show ?thesis using strcpy_spec [OF assms(1)] strcpy_overflow [OF assms(1)] by (simp add: not_less)
qed

theorem safestrcpy_terminates_witness:
  "is_str [104, 105, 0, 7] [104, 105] \<and>
   (\<exists>m'. safestrcpy [9, 9, 9] (int 1) [104, 105, 0, 7] (int 2) = Inr m' \<and> is_str (drop 1 m') [104]) \<and>
   strcpy [9, 9, 9] (int 1) [104, 105, 0, 7] = Inl OutOfBounds"
proof -
  have s: "is_str [104, 105, 0, 7] [104, 105]" by (simp add: is_str_def)
  show ?thesis using s safestrcpy_terminates [OF s, of 2 1 "[9, 9, 9]"] by auto
qed

end
