(* ===== verification/Widgets.thy ===== *)
theory Widgets
  imports UserGui CString Windows
begin

text \<open>
  The widget toolkit of the user library (user_window.c): the widgets of a window, kept in an array
  and linked like the kernel's windows, their creation and removal, drawing, and the dispatch of
  the messages that the kernel delivers.

  A widget's \<open>context\<close> (a union of pointers to \<open>malloc\<close>ed structures, each owned by one widget) is
  modelled by the structure itself; \<open>NoCtx\<close> is a pointer that was never set or was freed. Where the
  code does not test the result of \<open>malloc\<close>, the model takes it to succeed; \<open>junk\<close> is the former
  contents of the memory allocated. A handler is a function pointer: \<open>call h p m win\<close> is the effect of
  calling \<open>h\<close> with widget \<open>p\<close> and message \<open>m\<close>, a parameter of the model.
\<close>

definition MAX_WIDGET_SIZE :: nat where "MAX_WIDGET_SIZE = 50"
definition MAX_SHORT_STRLEN :: nat where "MAX_SHORT_STRLEN = 50"
definition MAX_LONG_STRLEN :: nat where "MAX_LONG_STRLEN = 1000"

definition TEXT :: int where "TEXT = 0"
definition INPUTFIELD :: int where "INPUTFIELD = 1"
definition BUTTON :: int where "BUTTON = 2"
definition COLORFILL :: int where "COLORFILL = 4"
definition SHAPE :: int where "SHAPE = 5"
definition RECTANGLE :: int where "RECTANGLE = 0"

lemmas widget_types = TEXT_def INPUTFIELD_def BUTTON_def COLORFILL_def SHAPE_def RECTANGLE_def

record shape =
  sh_shape :: int
  sh_params :: "nat \<Rightarrow> int"
  sh_filled :: int
  sh_color :: rgba
  sh_filledColor :: rgba

record button =
  bt_color :: rgba
  bt_bg_color :: rgba
  bt_text :: "byte list"

record textw =
  tx_color :: rgba
  tx_text :: "byte list"

record inputfield =
  in_color :: rgba
  in_text :: "byte list"
  current_pos :: int

datatype widget_ctx =
    NoCtx
  | ColorFillCtx canvas
  | ButtonCtx button
  | TextCtx textw
  | InputCtx inputfield
  | ShapeCtx shape

record widget =
  ctx :: widget_ctx
  wtype :: int
  wpos :: win_rect
  scrollable :: int
  wg_next :: int
  wg_prev :: int
  wg_handler :: int

record uwindow = window +
  px :: canvas
  widgets :: "widget list"
  widgetlisthead :: int
  widgetlisttail :: int
  keyfocus :: int
  needsRepaint :: int

definition get_wg :: "uwindow \<Rightarrow> int \<Rightarrow> widget res" where
  "get_wg win i = arr_get (widgets win) i"

definition mod_wg :: "uwindow \<Rightarrow> int \<Rightarrow> (widget \<Rightarrow> widget) \<Rightarrow> uwindow res" where
  "mod_wg win i f = rbind (arr_mod (widgets win) i f) (\<lambda>l. Inr (win\<lparr>widgets := l\<rparr>))"

subsection \<open>The widget list\<close>

definition setWidgetSize :: "widget \<Rightarrow> int \<Rightarrow> int \<Rightarrow> int \<Rightarrow> int \<Rightarrow> widget" where
  "setWidgetSize w x y wd ht = w\<lparr>wpos := \<lparr>xmin = x, xmax = x + wd, ymin = y, ymax = y + ht\<rparr>\<rparr>"

definition findNextAvailable :: "uwindow \<Rightarrow> int res" where
  "findNextAvailable win =
     for_each (\<lambda>i r. rbind (get_wg win (int i)) (\<lambda>w.
       if wg_prev w = int i \<and> wg_next w = int i then brk (int i) else cont r)) [0..<MAX_WIDGET_SIZE] (-1)"

definition addToWidgetListTail :: "uwindow \<Rightarrow> int \<Rightarrow> uwindow res" where
  "addToWidgetListTail win idx =
     rbind (mod_wg win idx (\<lambda>w. w\<lparr>wg_prev := widgetlisttail win\<rparr>)) (\<lambda>w1.
     rbind (mod_wg w1 idx (\<lambda>w. w\<lparr>wg_next := -1\<rparr>)) (\<lambda>w2.
     rbind (if widgetlisttail w2 \<noteq> -1
            then mod_wg w2 (widgetlisttail w2) (\<lambda>w. w\<lparr>wg_next := idx\<rparr>) else Inr w2) (\<lambda>w3.
     Inr (w3\<lparr>widgetlisttail := idx\<rparr>))))"

definition removeFromWidgetList :: "uwindow \<Rightarrow> int \<Rightarrow> uwindow res" where
  "removeFromWidgetList win idx =
     rbind (if widgetlisthead win = idx
            then rbind (get_wg win (widgetlisttail win)) (\<lambda>w. Inr (win\<lparr>widgetlisthead := wg_next w\<rparr>))
            else Inr win) (\<lambda>w1.
     rbind (if widgetlisttail w1 = idx
            then rbind (get_wg w1 (widgetlisttail w1)) (\<lambda>w. Inr (w1\<lparr>widgetlisttail := wg_prev w\<rparr>))
            else Inr w1) (\<lambda>w2.
     rbind (get_wg w2 idx) (\<lambda>a.
     rbind (if wg_prev a \<noteq> -1 then mod_wg w2 (wg_prev a) (\<lambda>w. w\<lparr>wg_next := wg_next a\<rparr>) else Inr w2) (\<lambda>w3.
     rbind (get_wg w3 idx) (\<lambda>b.
     rbind (if wg_next b \<noteq> -1 then mod_wg w3 (wg_next b) (\<lambda>w. w\<lparr>wg_prev := wg_prev b\<rparr>) else Inr w3) (\<lambda>w4.
     mod_wg w4 idx (\<lambda>w. w\<lparr>wg_prev := idx, wg_next := idx\<rparr>)))))))"

definition addWidget :: "uwindow \<Rightarrow> (uwindow \<times> int) res" where
  "addWidget win =
     rbind (findNextAvailable win) (\<lambda>widgetId.
     if widgetId = -1 then Inr (win, -1)
     else
       let w1 = (if widgetlisthead win = -1 then win\<lparr>widgetlisthead := widgetId\<rparr> else win)
       in rbind (addToWidgetListTail w1 widgetId) (\<lambda>w2. Inr (w2, widgetId)))"

definition freeWidget :: "uwindow \<Rightarrow> int \<Rightarrow> uwindow res" where
  "freeWidget win i =
     rbind (get_wg win i) (\<lambda>w.
       if wtype w = COLORFILL \<or> wtype w = BUTTON \<or> wtype w = TEXT \<or> wtype w = INPUTFIELD
       then mod_wg win i (\<lambda>w. w\<lparr>ctx := NoCtx\<rparr>) else Inr win)"

definition removeWidget :: "uwindow \<Rightarrow> int \<Rightarrow> (uwindow \<times> int) res" where
  "removeWidget win i =
     rbind (get_wg win i) (\<lambda>w.
       if wg_prev w = i \<and> wg_next w = i then Inr (win, -1)
       else rbind (freeWidget win i) (\<lambda>w1. rbind (removeFromWidgetList w1 i) (\<lambda>w2. Inr (w2, 0))))"

definition setWidgetHandler :: "uwindow \<Rightarrow> int \<Rightarrow> int \<Rightarrow> (uwindow \<times> int) res" where
  "setWidgetHandler win i h = rbind (mod_wg win i (\<lambda>w. w\<lparr>wg_handler := h\<rparr>)) (\<lambda>w1. Inr (w1, 0))"

subsection \<open>Creation of widgets\<close>

text \<open>The common end of the \<open>add...Widget\<close> functions.\<close>

definition place_widget :: "uwindow \<Rightarrow> int \<Rightarrow> widget_ctx \<Rightarrow> int \<Rightarrow> int \<Rightarrow> int \<Rightarrow> int \<Rightarrow> int \<Rightarrow> int \<Rightarrow> int \<Rightarrow> uwindow res" where
  "place_widget win i c t x y wd ht scr h =
     mod_wg win i (\<lambda>w. setWidgetSize (w\<lparr>ctx := c, wtype := t, wg_handler := h, scrollable := scr\<rparr>) x y wd ht)"

definition addRectangleWidget :: "uwindow \<Rightarrow> rgba \<Rightarrow> rgba \<Rightarrow> int \<Rightarrow> int \<Rightarrow> int \<Rightarrow> int \<Rightarrow> int \<Rightarrow> int \<Rightarrow> int \<Rightarrow> (nat \<Rightarrow> int) \<Rightarrow>
    (uwindow \<times> int) res" where
  "addRectangleWidget win c filledColor filled x y wd ht scr h junk =
     rbind (addWidget win) (\<lambda>(w1, i).
     if i = -1 then Inr (w1, -1)
     else rbind (place_widget w1 i (ShapeCtx \<lparr>sh_shape = RECTANGLE, sh_params = junk(0 := x, 1 := y, 2 := wd, 3 := ht),
            sh_filled = filled, sh_color = c, sh_filledColor = filledColor\<rparr>) SHAPE x y wd ht scr h) (\<lambda>w2. Inr (w2, i)))"

definition addColorFillWidget :: "mixer \<Rightarrow> uwindow \<Rightarrow> rgba \<Rightarrow> int \<Rightarrow> int \<Rightarrow> int \<Rightarrow> int \<Rightarrow> int \<Rightarrow> int \<Rightarrow> canvas \<Rightarrow>
    (uwindow \<times> int) res" where
  "addColorFillWidget mix win c x y wd ht scr h junk =
     rbind (addWidget win) (\<lambda>(w1, i).
     if i = -1 then Inr (w1, -1)
     else rbind (fillRect mix junk 0 0 wd ht wd ht c) (\<lambda>buf.
          rbind (place_widget w1 i (ColorFillCtx buf) COLORFILL x y wd ht scr h) (\<lambda>w2. Inr (w2, i))))"

definition addButtonWidget :: "uwindow \<Rightarrow> rgba \<Rightarrow> rgba \<Rightarrow> byte list \<Rightarrow> int \<Rightarrow> int \<Rightarrow> int \<Rightarrow> int \<Rightarrow> int \<Rightarrow> int \<Rightarrow> byte list \<Rightarrow>
    (uwindow \<times> int) res" where
  "addButtonWidget win c bc text x y wd ht scr h junk =
     rbind (addWidget win) (\<lambda>(w1, i).
     if i = -1 then Inr (w1, -1)
     else rbind (strcpy junk 0 text) (\<lambda>t.
          rbind (place_widget w1 i (ButtonCtx \<lparr>bt_color = c, bt_bg_color = bc, bt_text = t\<rparr>) BUTTON x y wd ht scr h)
            (\<lambda>w2. Inr (w2, i))))"

definition addTextWidget :: "uwindow \<Rightarrow> rgba \<Rightarrow> byte list \<Rightarrow> int \<Rightarrow> int \<Rightarrow> int \<Rightarrow> int \<Rightarrow> int \<Rightarrow> int \<Rightarrow> byte list \<Rightarrow>
    (uwindow \<times> int) res" where
  "addTextWidget win c text x y wd ht scr h junk =
     rbind (addWidget win) (\<lambda>(w1, i).
     if i = -1 then Inr (w1, -1)
     else rbind (strcpy junk 0 text) (\<lambda>t.
          rbind (place_widget w1 i (TextCtx \<lparr>tx_color = c, tx_text = t\<rparr>) TEXT x y wd ht scr h) (\<lambda>w2. Inr (w2, i))))"

definition addInputFieldWidget :: "uwindow \<Rightarrow> rgba \<Rightarrow> byte list \<Rightarrow> int \<Rightarrow> int \<Rightarrow> int \<Rightarrow> int \<Rightarrow> int \<Rightarrow> int \<Rightarrow> byte list \<Rightarrow>
    (uwindow \<times> int) res" where
  "addInputFieldWidget win c text x y wd ht scr h junk =
     rbind (addWidget win) (\<lambda>(w1, i).
     if i = -1 then Inr (w1, -1)
     else rbind (strcpy junk 0 text) (\<lambda>t.
          rbind (strlen text) (\<lambda>n.
          rbind (place_widget w1 i (InputCtx \<lparr>in_color = c, in_text = t, current_pos = n\<rparr>) INPUTFIELD x y wd ht scr h)
            (\<lambda>w2. Inr (w2\<lparr>keyfocus := i\<rparr>, i)))))"

subsection \<open>Windows\<close>

text \<open>The system calls a routine makes, in order.\<close>

datatype gui_call =
    CallCreateWindow "byte list"
  | CallCreatePopup int
  | CallCloseWindow
  | CallClosePopup
  | CallMinimize
  | CallMaximize
  | CallExit

definition reset_widget :: "int \<Rightarrow> widget \<Rightarrow> widget" where
  "reset_widget i w = w\<lparr>wg_next := i, wg_prev := i\<rparr>"

definition reset_widgets :: "uwindow \<Rightarrow> uwindow res" where
  "reset_widgets win = for_each (\<lambda>i w. cont_res (mod_wg w (int i) (reset_widget (int i)))) [0..<MAX_WIDGET_SIZE] win"

text \<open>\<open>buf\<close> is the address that \<open>malloc\<close> returned for the pixels, 0 if it failed.\<close>

definition u_createWindow :: "uwindow \<Rightarrow> byte list \<Rightarrow> int \<Rightarrow> (uwindow \<times> gui_call list) res" where
  "u_createWindow win titl buf =
     (let w1 = win\<lparr>w_window_buf := buf\<rparr>
      in if buf = 0 then Inr (w1, [])
         else
           let w2 = w1\<lparr>px := replicate (nat (w_height win * w_width win)) \<lparr>rB = 255, rG = 255, rR = 255\<rparr>,
                       keyfocus := -1, scrollOffsetX := 0, scrollOffsetY := 0,
                       widgetlisthead := -1, widgetlisttail := -1\<rparr>
           in rbind (reset_widgets w2) (\<lambda>w3.
              let w4 = w3\<lparr>needsRepaint := 1\<rparr>;
                  w5 = (if w_hasTitleBar w4 \<noteq> 0 then w4\<lparr>w_hasTitleBar := 1\<rparr> else w4)
              in Inr (w5, [CallCreateWindow titl])))"

definition u_createPopupWindow :: "uwindow \<Rightarrow> int \<Rightarrow> int \<Rightarrow> (uwindow \<times> gui_call list) res" where
  "u_createPopupWindow win clr buf =
     (let w1 = win\<lparr>w_window_buf := buf\<rparr>
      in if buf = 0 then Inr (w1, [])
         else
           let w2 = w1\<lparr>px := replicate (nat (w_height win * w_width win)) \<lparr>rB = 255, rG = 255, rR = 255\<rparr>,
                       widgetlisthead := -1, widgetlisttail := -1\<rparr>
           in rbind (reset_widgets w2) (\<lambda>w3.
              Inr (w3\<lparr>needsRepaint := 1, w_hasTitleBar := 0, scrollOffsetX := 0, scrollOffsetY := 0\<rparr>, [CallCreatePopup clr])))"

definition wg_step :: "uwindow \<Rightarrow> int \<Rightarrow> int res" where
  "wg_step win p = rbind (get_wg win p) (\<lambda>w. Inr (wg_next w))"

definition wg_back :: "uwindow \<Rightarrow> int \<Rightarrow> int res" where
  "wg_back win p = rbind (get_wg win p) (\<lambda>w. Inr (wg_prev w))"

definition free_all :: "uwindow \<Rightarrow> uwindow res" where
  "free_all win =
     rbind (for_links MAX_WIDGET_SIZE wg_step (\<lambda>p w. cont_res (freeWidget w p)) (widgetlisthead win) win) (\<lambda>(w, p). Inr w)"

definition u_closeWindow :: "uwindow \<Rightarrow> (uwindow \<times> gui_call list) res" where
  "u_closeWindow win =
     rbind (free_all (win\<lparr>px := []\<rparr>)) (\<lambda>w. Inr (w, [CallCloseWindow, CallExit]))"

definition u_closePopupWindow :: "uwindow \<Rightarrow> (uwindow \<times> gui_call list) res" where
  "u_closePopupWindow win =
     rbind (free_all (win\<lparr>px := []\<rparr>)) (\<lambda>w. Inr (w, [CallClosePopup, CallExit]))"

subsection \<open>Drawing\<close>

definition draw_px :: "uwindow \<Rightarrow> canvas res \<Rightarrow> uwindow res" where
  "draw_px win m = rbind m (\<lambda>b. Inr (win\<lparr>px := b\<rparr>))"

text \<open>The left upper corner of a widget in the window.\<close>

definition wg_x :: "uwindow \<Rightarrow> widget \<Rightarrow> int" where
  "wg_x win w = (if scrollable w \<noteq> 0 then xmin (wpos w) - scrollOffsetX win else xmin (wpos w))"

definition wg_y :: "uwindow \<Rightarrow> widget \<Rightarrow> int" where
  "wg_y win w = (if scrollable w \<noteq> 0 then ymin (wpos w) - scrollOffsetY win else ymin (wpos w))"

definition drawColorFillWidget :: "uwindow \<Rightarrow> widget \<Rightarrow> uwindow res" where
  "drawColorFillWidget win w = (case ctx w of
     ColorFillCtx buf \<Rightarrow> draw_px win (u_draw24Image (w_width win) (w_height win) (px win) buf
       (wg_x win w) (wg_y win w) (xmax (wpos w) - xmin (wpos w)) (ymax (wpos w) - ymin (wpos w)))
   | _ \<Rightarrow> Inl OutOfBounds)"

text \<open>\<open>strlen\<close> is unsigned, so the comparison and the subtraction are modulo \<open>2 ^ 32\<close>.\<close>

definition button_text_x :: "int \<Rightarrow> int \<Rightarrow> int" where
  "button_text_x wd len =
     (if wd mod 2 ^ 32 > len * CHARACTER_WIDTH then ((wd - len * CHARACTER_WIDTH) mod 2 ^ 32) div 2 else 2)"

definition drawButtonWidget :: "mixer \<Rightarrow> bitmaps \<Rightarrow> uwindow \<Rightarrow> widget \<Rightarrow> uwindow res" where
  "drawButtonWidget mix font win w = (case ctx w of
     ButtonCtx b \<Rightarrow>
       let x = wg_x win w; y = wg_y win w; W = w_width win; H = w_height win;
           wd = xmax (wpos w) - xmin (wpos w); ht = ymax (wpos w) - ymin (wpos w)
       in rbind (strlen (bt_text b)) (\<lambda>len.
          rbind (drawFillRect mix W H (px win) (bt_bg_color b) x y wd ht) (\<lambda>p1.
          rbind (u_drawRect W H p1 \<lparr>rB = 0, rG = 0, rR = 0\<rparr> x y wd ht) (\<lambda>p2.
          draw_px win (u_drawString mix font W H p2 (bt_text b) (bt_color b)
            (x + button_text_x wd len) (y + (ht - CHARACTER_HEIGHT) sdiv 2) wd ht))))
   | _ \<Rightarrow> Inl OutOfBounds)"

definition drawShapeWidget :: "uwindow \<Rightarrow> widget \<Rightarrow> uwindow res" where
  "drawShapeWidget win w = (case ctx w of
     ShapeCtx s \<Rightarrow>
       if sh_shape s = RECTANGLE
       then draw_px win (u_drawRect (w_width win) (w_height win) (px win)
              \<lparr>rB = aB (sh_color s), rG = aG (sh_color s), rR = aR (sh_color s)\<rparr>
              (sh_params s 0) (sh_params s 1) (sh_params s 2) (sh_params s 3))
       else Inr win
   | _ \<Rightarrow> Inl OutOfBounds)"

definition drawTextWidget :: "mixer \<Rightarrow> bitmaps \<Rightarrow> uwindow \<Rightarrow> widget \<Rightarrow> uwindow res" where
  "drawTextWidget mix font win w = (case ctx w of
     TextCtx t \<Rightarrow> draw_px win (u_drawString mix font (w_width win) (w_height win) (px win) (tx_text t) (tx_color t)
       (wg_x win w) (wg_y win w) (xmax (wpos w) - xmin (wpos w)) (ymax (wpos w) - ymin (wpos w)))
   | _ \<Rightarrow> Inl OutOfBounds)"

text \<open>The position of the text cursor: \<open>k\<close> characters remain before it.\<close>

fun cursor_at :: "byte list \<Rightarrow> int \<Rightarrow> int \<Rightarrow> nat \<Rightarrow> int \<Rightarrow> int \<Rightarrow> int \<Rightarrow> (int \<times> int) res" where
  "cursor_at text wd ht 0 it ox oy = Inr (ox, oy)"
| "cursor_at text wd ht (Suc k) it ox oy =
     (if oy > ht then Inr (ox, oy)
      else rbind (arr_get text it) (\<lambda>c.
        if c \<noteq> 10 then
          if ox + CHARACTER_WIDTH > wd then cursor_at text wd ht k (it + 1) 0 (oy + CHARACTER_HEIGHT)
          else cursor_at text wd ht k (it + 1) (ox + CHARACTER_WIDTH) oy
        else cursor_at text wd ht k (it + 1) 0 (oy + CHARACTER_HEIGHT)))"

definition drawInputFieldWidget :: "mixer \<Rightarrow> bitmaps \<Rightarrow> uwindow \<Rightarrow> widget \<Rightarrow> uwindow res" where
  "drawInputFieldWidget mix font win w = (case ctx w of
     InputCtx f \<Rightarrow>
       let x = wg_x win w; y = wg_y win w; W = w_width win; H = w_height win;
           wd = xmax (wpos w) - xmin (wpos w); ht = ymax (wpos w) - ymin (wpos w)
       in rbind (u_drawString mix font W H (px win) (in_text f) (in_color f) x y wd ht) (\<lambda>p1.
          rbind (cursor_at (in_text f) wd ht (nat (current_pos f)) 0 0 0) (\<lambda>(ox, oy).
          if oy < ht
          then draw_px win (drawFillRect mix W H p1 \<lparr>aA = 255, aB = 0, aG = 0, aR = 0\<rparr> (x + ox) (y + oy + 1) 1 (CHARACTER_HEIGHT - 4))
          else Inr (win\<lparr>px := p1\<rparr>)))
   | _ \<Rightarrow> Inl OutOfBounds)"

definition wg_hidden :: "uwindow \<Rightarrow> widget \<Rightarrow> bool" where
  "wg_hidden win w \<longleftrightarrow>
     (scrollable w = 0 \<and> (xmin (wpos w) > w_width win \<or> xmax (wpos w) < 0 \<or>
                          ymin (wpos w) > w_height win \<or> ymax (wpos w) < 0)) \<or>
     (scrollable w \<noteq> 0 \<and> (xmin (wpos w) - scrollOffsetX win > w_width win \<or> xmax (wpos w) - scrollOffsetX win < 0 \<or>
                          ymin (wpos w) - scrollOffsetY win > w_height win \<or> ymax (wpos w) - scrollOffsetY win < 0))"

definition draw_widget :: "mixer \<Rightarrow> bitmaps \<Rightarrow> int \<Rightarrow> uwindow \<Rightarrow> (uwindow \<times> bool) res" where
  "draw_widget mix font p win =
     rbind (get_wg win p) (\<lambda>w.
       if wg_hidden win w then cont win
       else cont_res
         (if wtype w = COLORFILL then drawColorFillWidget win w
          else if wtype w = BUTTON then drawButtonWidget mix font win w
          else if wtype w = TEXT then drawTextWidget mix font win w
          else if wtype w = INPUTFIELD then drawInputFieldWidget mix font win w
          else if wtype w = SHAPE then drawShapeWidget win w
          else Inr win))"

definition repaintWindow :: "mixer \<Rightarrow> bitmaps \<Rightarrow> uwindow \<Rightarrow> uwindow res" where
  "repaintWindow mix font win =
     (if needsRepaint win \<noteq> 0
      then rbind (for_links MAX_WIDGET_SIZE wg_step (draw_widget mix font) (widgetlisthead win) win) (\<lambda>(w, p). Inr w)
      else Inr win)"

subsection \<open>Dispatch\<close>

type_synonym handlers = "int \<Rightarrow> int \<Rightarrow> message \<Rightarrow> uwindow \<Rightarrow> uwindow res"

definition wg_hit :: "uwindow \<Rightarrow> widget \<Rightarrow> int \<Rightarrow> int \<Rightarrow> bool" where
  "wg_hit win w x y \<longleftrightarrow>
     (scrollable w = 0 \<and> isInRect (xmin (wpos w)) (ymin (wpos w)) (xmax (wpos w)) (ymax (wpos w)) x y) \<or>
     (scrollable w \<noteq> 0 \<and> isInRect (xmin (wpos w) - scrollOffsetX win) (ymin (wpos w) - scrollOffsetY win)
        (xmax (wpos w) - scrollOffsetX win) (ymax (wpos w) - scrollOffsetY win) x y)"

text \<open>The body of the search from the topmost widget; a handler is called on the first hit.\<close>

definition mouse_target :: "handlers \<Rightarrow> message \<Rightarrow> message \<Rightarrow> int \<Rightarrow> uwindow \<Rightarrow> (uwindow \<times> bool) res" where
  "mouse_target call junk msg p win =
     rbind (get_wg win p) (\<lambda>w.
       if wg_hit win w (params msg 0) (params msg 1) then
         let m = (if scrollable w = 0 then msg
                  else junk\<lparr>msg_type := msg_type msg,
                            params := (params junk)(0 := params msg 0 + scrollOffsetX win, 1 := params msg 1 + scrollOffsetY win)\<rparr>)
         in rbind (call (wg_handler w) p m win) (\<lambda>win1.
            rbind (get_wg win1 p) (\<lambda>w1.
            brk (if wtype w1 = INPUTFIELD then win1\<lparr>keyfocus := p\<rparr> else win1)))
       else cont win)"

definition key_target :: "handlers \<Rightarrow> message \<Rightarrow> uwindow \<Rightarrow> uwindow res" where
  "key_target call msg win = rbind (get_wg win (keyfocus win)) (\<lambda>w. call (wg_handler w) (keyfocus win) msg win)"

text \<open>\<open>updateWindow\<close>; \<open>got\<close> is the message that \<open>GUI_getMessage\<close> delivers, if there is one.\<close>

definition updateWindow :: "mixer \<Rightarrow> bitmaps \<Rightarrow> handlers \<Rightarrow> message \<Rightarrow> message option \<Rightarrow> uwindow \<Rightarrow> (uwindow \<times> gui_call list) res" where
  "updateWindow mix font call junk got win0 =
     rbind (repaintWindow mix font win0) (\<lambda>win1. case got of
       None \<Rightarrow> Inr (win1\<lparr>needsRepaint := 0\<rparr>, [])
     | Some msg \<Rightarrow>
         let win = win1\<lparr>needsRepaint := 1\<rparr>
         in if msg_type msg = 100 then u_closeWindow win
            else if msg_type msg = 101 then Inr (win, [CallMinimize])
            else if msg_type msg = 102 then Inr (win, [CallMaximize])
            else if keyfocus win \<noteq> -1 \<and> (msg_type msg = 2 \<or> msg_type msg = 1)
            then rbind (key_target call msg win) (\<lambda>w. Inr (w, []))
            else rbind (for_links MAX_WIDGET_SIZE wg_back (mouse_target call junk msg) (widgetlisttail win) win)
                   (\<lambda>(w, p). Inr (w, [])))"

definition popup_target :: "handlers \<Rightarrow> message \<Rightarrow> int \<Rightarrow> uwindow \<Rightarrow> (uwindow \<times> bool) res" where
  "popup_target call msg p win =
     rbind (get_wg win p) (\<lambda>w.
       if isInRect (xmin (wpos w)) (ymin (wpos w)) (xmax (wpos w)) (ymax (wpos w)) (params msg 0) (params msg 1)
       then rbind (call (wg_handler w) p msg win) (\<lambda>win1.
            rbind (get_wg win1 p) (\<lambda>w1.
            brk (if wtype w1 = INPUTFIELD then win1\<lparr>keyfocus := p\<rparr> else win1)))
       else cont win)"

definition updatePopupWindow :: "mixer \<Rightarrow> bitmaps \<Rightarrow> handlers \<Rightarrow> message option \<Rightarrow> uwindow \<Rightarrow> (uwindow \<times> gui_call list) res" where
  "updatePopupWindow mix font call got win0 =
     rbind (repaintWindow mix font win0) (\<lambda>win1. case got of
       None \<Rightarrow> Inr (win1\<lparr>needsRepaint := 0\<rparr>, [])
     | Some msg \<Rightarrow>
         let win = win1\<lparr>needsRepaint := 1\<rparr>
         in if msg_type msg = 100 then u_closePopupWindow win
            else if msg_type msg = 2 \<or> msg_type msg = 1
            then rbind (key_target call msg win) (\<lambda>w. Inr (w, []))
            else rbind (for_links MAX_WIDGET_SIZE wg_back (popup_target call msg) (widgetlisttail win) win)
                   (\<lambda>(w, p). Inr (w, [])))"

end
