(* ===== verification/WG_Correct.thy ===== *)
theory WG_Correct
  imports Widgets
begin

text \<open>
  Correctness of the widget toolkit: \<open>wg_rep\<close> relates a window to the list of its widgets from the
  back to the front; adding, removing, painting and the dispatch of messages are stated against it.
\<close>

interpretation wgs: link_cell wg_next wg_prev "\<lambda>v c. c\<lparr>wg_next := v\<rparr>" "\<lambda>v c. c\<lparr>wg_prev := v\<rparr>"
    "\<lambda>c. (ctx c, wtype c, wpos c, scrollable c, wg_handler c)"
  by unfold_locales simp_all

abbreviation "wgs_append \<equiv> cells_append (\<lambda>v c :: widget. c\<lparr>wg_next := v\<rparr>) (\<lambda>v c. c\<lparr>wg_prev := v\<rparr>)"
abbreviation "wgs_unlink \<equiv> cells_unlink wg_next wg_prev (\<lambda>v c :: widget. c\<lparr>wg_next := v\<rparr>) (\<lambda>v c. c\<lparr>wg_prev := v\<rparr>)"
abbreviation "wgs_free \<equiv> cells_free (\<lambda>v c :: widget. c\<lparr>wg_next := v\<rparr>) (\<lambda>v c. c\<lparr>wg_prev := v\<rparr>)"

definition wg_rep :: "uwindow \<Rightarrow> nat list \<Rightarrow> bool" where
  "wg_rep win ids \<longleftrightarrow> length (widgets win) = 50 \<and> cells_rep wg_next wg_prev (widgets win) ids \<and>
     widgetlisthead win = headi ids (-1) \<and> widgetlisttail win = lasti ids (-1)"

abbreviation wg_data :: "widget \<Rightarrow> widget_ctx \<times> int \<times> win_rect \<times> int \<times> int" where
  "wg_data \<equiv> (\<lambda>c. (ctx c, wtype c, wpos c, scrollable c, wg_handler c))"

lemma mod_wg_ok [simp]:
  "in_range i (widgets s) \<Longrightarrow> mod_wg s i f = Inr (s\<lparr>widgets := (widgets s)[nat i := f (widgets s ! nat i)]\<rparr>)"
  by (simp add: mod_wg_def)

lemma get_wg_ok [simp]: "in_range i (widgets s) \<Longrightarrow> get_wg s i = Inr (widgets s ! nat i)"
  by (simp add: get_wg_def)

lemma wg_out [simp]:
  "\<not> in_range i (widgets s) \<Longrightarrow> mod_wg s i f = Inl OutOfBounds"
  "\<not> in_range i (widgets s) \<Longrightarrow> get_wg s i = Inl OutOfBounds"
  by (simp_all add: mod_wg_def get_wg_def)

lemma wrep_dll: "wg_rep s ids \<Longrightarrow> dll 50 (links_of wg_next (widgets s)) (links_of wg_prev (widgets s)) ids"
  unfolding wg_rep_def cells_rep_def by metis

lemma wrep_length: "wg_rep s ids \<Longrightarrow> length (widgets s) = 50"
  by (simp add: wg_rep_def)

lemma wrep_bound: "wg_rep s ids \<Longrightarrow> i \<in> set ids \<Longrightarrow> i < 50"
  using dll_bound [OF wrep_dll] by blast

lemma wrep_in_range: "wg_rep s ids \<Longrightarrow> i \<in> set ids \<Longrightarrow> in_range (int i) (widgets s)"
  using wrep_bound wrep_length by simp

lemma wrep_distinct: "wg_rep s ids \<Longrightarrow> distinct ids"
  using dll_distinct [OF wrep_dll] .

lemma wrep_at:
  assumes "wg_rep s (xs @ w # ys)"
  shows "wg_prev (widgets s ! w) = lasti xs (-1)" and "wg_next (widgets s ! w) = headi ys (-1)"
  using dll_at [OF wrep_dll [OF assms]] by (simp_all add: links_of_def)

lemma wrep_ends:
  assumes "wg_rep s (xs @ w # ys)"
  shows "lasti xs (-1) = -1 \<or> in_range (lasti xs (-1)) (widgets s)"
    and "headi ys (-1) = -1 \<or> in_range (headi ys (-1)) (widgets s)"
    and "lasti xs (-1) \<noteq> int w" and "headi ys (-1) \<noteq> int w"
proof -
  have b: "\<And>i. i \<in> set xs \<Longrightarrow> i < 50" "\<And>i. i \<in> set ys \<Longrightarrow> i < 50" using wrep_bound [OF assms] by auto
  have d: "w \<notin> set xs" "w \<notin> set ys" using wrep_distinct [OF assms] by auto
  show "lasti xs (-1) = -1 \<or> in_range (lasti xs (-1)) (widgets s)"
    using lasti_range [of xs 50] b(1) wrep_length [OF assms] by (auto simp: in_range_def)
  show "headi ys (-1) = -1 \<or> in_range (headi ys (-1)) (widgets s)"
    using headi_range [of ys 50] b(2) wrep_length [OF assms] by (auto simp: in_range_def)
  show "lasti xs (-1) \<noteq> int w" using d(1) by (cases xs rule: rev_cases) auto
  show "headi ys (-1) \<noteq> int w" using d(2) by (cases ys) auto
qed

lemma wrep_tail_eq:
  assumes "wg_rep s (xs @ w # ys)"
  shows "widgetlisttail s = int w \<longleftrightarrow> ys = []" and "widgetlisthead s = int w \<longleftrightarrow> xs = []"
proof -
  have d: "distinct (xs @ w # ys)" by (rule wrep_distinct [OF assms])
  show "widgetlisttail s = int w \<longleftrightarrow> ys = []"
    using assms d by (cases ys rule: rev_cases) (auto simp: wg_rep_def lasti_append)
  show "widgetlisthead s = int w \<longleftrightarrow> xs = []"
    using assms d by (cases xs) (auto simp: wg_rep_def headi_append)
qed

lemma wrep_tail_range:
  assumes "wg_rep s ids"
  shows "widgetlisttail s = -1 \<or> in_range (widgetlisttail s) (widgets s)"
  using lasti_range [of ids 50] wrep_bound [OF assms] assms by (auto simp: in_range_def wg_rep_def)

lemma wrep_same_links:
  assumes "wg_rep s ids" and "map wg_next l = map wg_next (widgets s)" and "map wg_prev l = map wg_prev (widgets s)"
  shows "wg_rep (s\<lparr>widgets := l\<rparr>) ids"
proof -
  have len: "length l = length (widgets s)" using assms(2) by (metis length_map)
  have "wg_next (l ! i) = wg_next (widgets s ! i)" "wg_prev (l ! i) = wg_prev (widgets s ! i)" if "i < length l" for i
    using assms(2,3) that len by (metis nth_map)+
  then have eq: "links_of wg_next l i = links_of wg_next (widgets s) i"
    "links_of wg_prev l i = links_of wg_prev (widgets s) i" if "i < 50" for i
    using that len assms(1) by (simp_all add: links_of_def wg_rep_def)
  have seg: "dseg (links_of wg_next l) (links_of wg_prev l) p xs q =
      dseg (links_of wg_next (widgets s)) (links_of wg_prev (widgets s)) p xs q" if "set xs \<subseteq> {..<50}" for p q xs
    using that eq by (induction xs arbitrary: p) auto
  have "dll 50 (links_of wg_next l) (links_of wg_prev l) ids"
    using wrep_dll [OF assms(1)] seg eq unfolding dll_def by simp
  then show ?thesis using assms(1) len by (simp add: wg_rep_def cells_rep_def)
qed

subsection \<open>Adding and removing\<close>

lemma wadd_eval:
  assumes "i < length (widgets s)" and "widgetlisttail s = -1 \<or> in_range (widgetlisttail s) (widgets s)"
  shows "addToWidgetListTail s (int i) =
    Inr (s\<lparr>widgets := wgs_append (widgets s) (widgetlisttail s) i, widgetlisttail := int i\<rparr>)"
proof -
  have r: "(c :: widget)\<lparr>wg_prev := t, wg_next := n\<rparr> = c\<lparr>wg_next := n, wg_prev := t\<rparr>" for c t n
    by simp
  show ?thesis using assms by (auto simp: addToWidgetListTail_def cells_append_def Let_def in_range_def)
qed

lemma wfind_spec:
  assumes "wg_rep s ids"
  shows "findNextAvailable s = Inr (case least_free ids of None \<Rightarrow> -1 | Some i \<Rightarrow> int i)"
proof -
  have "for_each (\<lambda>i r. rbind (get_wg s (int i)) (\<lambda>c.
              if wg_prev c = int i \<and> wg_next c = int i then brk (int i) else cont r))
            [0..<50] (-1) = Inr (case List.find (\<lambda>i. i \<notin> set ids) [0..<50] of None \<Rightarrow> -1 | Some i \<Rightarrow> int i)"
  proof (rule find_loop)
    fix i assume "i \<in> set [0..<50]"
    then have i: "i < 50" by simp
    then show "rbind (get_wg s (int i)) (\<lambda>c. if wg_prev c = int i \<and> wg_next c = int i then brk (int i) else cont (-1))
        = (if i \<notin> set ids then brk (int i) else cont (-1))"
      using dll_free_iff [OF wrep_dll [OF assms] i] wrep_length [OF assms] by (simp add: links_of_def)
  qed
  then show ?thesis by (simp add: findNextAvailable_def MAX_WIDGET_SIZE_def least_free_def)
qed

lemma addWidget_some:
  assumes "wg_rep s ids" and "least_free ids = Some i"
  shows "\<exists>s'. addWidget s = Inr (s', int i) \<and> wg_rep s' (ids @ [i]) \<and>
    map wg_data (widgets s') = map wg_data (widgets s) \<and> keyfocus s' = keyfocus s"
proof -
  have i: "i < 50" "i \<notin> set ids" using least_free_Some [OF assms(2)] by simp_all
  have len: "length (widgets s) = 50" and t: "widgetlisttail s = lasti ids (-1)" and h: "widgetlisthead s = headi ids (-1)"
    using assms(1) by (simp_all add: wg_rep_def)
  let ?l = "wgs_append (widgets s) (lasti ids (-1)) i"
  let ?w = "if widgetlisthead s = -1 then s\<lparr>widgetlisthead := int i\<rparr> else s"
  have w: "?w = s\<lparr>widgetlisthead := headi (ids @ [i]) (-1)\<rparr>" using h by (cases ids) simp_all
  have tr: "lasti ids (-1) = -1 \<or> in_range (lasti ids (-1)) (widgets s)"
    using wrep_tail_range [OF assms(1)] t by simp
  have "addToWidgetListTail (s\<lparr>widgetlisthead := headi (ids @ [i]) (-1)\<rparr>) (int i) =
      Inr (s\<lparr>widgetlisthead := headi (ids @ [i]) (-1), widgets := ?l, widgetlisttail := int i\<rparr>)"
    using wadd_eval [of i "s\<lparr>widgetlisthead := headi (ids @ [i]) (-1)\<rparr>"] i len tr t by simp
  then have "addWidget s = Inr (s\<lparr>widgetlisthead := headi (ids @ [i]) (-1), widgets := ?l, widgetlisttail := int i\<rparr>, int i)"
    using wfind_spec [OF assms(1)] assms(2) w by (simp add: addWidget_def Let_def)
  moreover have "cells_rep wg_next wg_prev ?l (ids @ [i])"
    by (rule wgs.rep_append) (use assms i len in \<open>simp_all add: wg_rep_def\<close>)
  moreover have "map wg_data ?l = map wg_data (widgets s)" by (rule wgs.payload_cells)
  ultimately show ?thesis using len by (simp add: wg_rep_def)
qed

lemma addWidget_none:
  "wg_rep s ids \<Longrightarrow> least_free ids = None \<Longrightarrow> addWidget s = Inr (s, -1)"
  using wfind_spec [of s ids] by (simp add: addWidget_def)

text \<open>What the code makes of the head when widget \<open>w\<close> is removed.\<close>

lemma wremove_eval:
  assumes "wg_rep s (xs @ w # ys)"
  shows "removeFromWidgetList s (int w) = Inr (s\<lparr>widgets := wgs_free (wgs_unlink (widgets s) w) w,
    widgetlisthead := (if xs = [] then -1 else widgetlisthead s),
    widgetlisttail := lasti (xs @ ys) (-1)\<rparr>)"
proof -
  have w: "w < length (widgets s)" using wrep_bound [OF assms] wrep_length [OF assms] by simp
  obtain zs l where zl: "xs @ w # ys = zs @ [l]" by (metis append_is_Nil_conv list.distinct(1) rev_exhaust)
  have tail: "widgetlisttail s = int l" "in_range (int l) (widgets s)" "wg_next (widgets s ! l) = -1"
    using assms wrep_in_range [OF assms, of l] wrep_at(2) [of s zs l "[]"] by (simp_all add: zl wg_rep_def)
  have t: "(if widgetlisttail s = int w then lasti xs (-1) else widgetlisttail s) = lasti (xs @ ys) (-1)"
  proof (cases "ys = []")
    case False
    then have "widgetlisttail s = lasti ys (-1)"
      using assms by (cases ys rule: rev_cases) (simp_all add: wg_rep_def lasti_append)
    then show ?thesis using False wrep_tail_eq(1) [OF assms]
      by (cases ys rule: rev_cases) (simp_all add: lasti_append)
  qed (simp add: wrep_tail_eq(1) [OF assms])
  let ?h = "if xs = [] then -1 else widgetlisthead s" and ?t = "lasti (xs @ ys) (-1)"
  have 1: "(if widgetlisthead s = int w
            then rbind (get_wg s (widgetlisttail s)) (\<lambda>w. Inr (s\<lparr>widgetlisthead := wg_next w\<rparr>))
            else Inr s) = Inr (s\<lparr>widgetlisthead := ?h\<rparr>)"
    using tail wrep_tail_eq(2) [OF assms] by simp
  have 2: "(if widgetlisttail (s\<lparr>widgetlisthead := ?h\<rparr>) = int w
            then rbind (get_wg (s\<lparr>widgetlisthead := ?h\<rparr>) (widgetlisttail (s\<lparr>widgetlisthead := ?h\<rparr>)))
              (\<lambda>w. Inr ((s\<lparr>widgetlisthead := ?h\<rparr>)\<lparr>widgetlisttail := wg_prev w\<rparr>))
            else Inr (s\<lparr>widgetlisthead := ?h\<rparr>)) = Inr (s\<lparr>widgetlisthead := ?h, widgetlisttail := ?t\<rparr>)"
  proof (cases "widgetlisttail s = int w")
    case True
    then have "wg_prev (widgets s ! w) = ?t" using t wrep_at(1) [OF assms] by simp
    then show ?thesis using True w by simp
  next
    case False
    then have "?t = widgetlisttail s" using t by simp
    then show ?thesis using False by simp
  qed
  let ?s2 = "s\<lparr>widgetlisthead := ?h, widgetlisttail := ?t\<rparr>"
  have p: "lasti xs (-1) \<noteq> -1 \<Longrightarrow> in_range (lasti xs (-1)) (widgets s) \<and> nat (lasti xs (-1)) \<noteq> w"
    and n: "headi ys (-1) \<noteq> -1 \<Longrightarrow> in_range (headi ys (-1)) (widgets s) \<and> nat (headi ys (-1)) \<noteq> w"
    using wrep_ends [OF assms] by (auto simp: in_range_def)
  have "removeFromWidgetList s (int w) = Inr (?s2\<lparr>widgets := wgs_free (wgs_unlink (widgets s) w) w\<rparr>)"
    unfolding removeFromWidgetList_def 1 rbind_Inr 2
    using w p n wrep_at [OF assms]
    by (cases "lasti xs (-1) = -1"; cases "headi ys (-1) = -1") (simp_all add: cells_unlink_def cells_free_def Let_def)
  then show ?thesis by simp
qed

lemma freeWidget_eval:
  assumes "in_range i (widgets s)"
  shows "\<exists>c. freeWidget s i = Inr (s\<lparr>widgets := (widgets s)[nat i := (widgets s ! nat i)\<lparr>ctx := c\<rparr>]\<rparr>)"
proof -
  have "s\<lparr>widgets := (widgets s)[nat i := (widgets s ! nat i)\<lparr>ctx := ctx (widgets s ! nat i)\<rparr>]\<rparr> = s" by simp
  then have "\<exists>c. s = s\<lparr>widgets := (widgets s)[nat i := (widgets s ! nat i)\<lparr>ctx := c\<rparr>]\<rparr>" by metis
  then show ?thesis using assms unfolding freeWidget_def
    by (cases "wtype (widgets s ! nat i) = COLORFILL \<or> wtype (widgets s ! nat i) = BUTTON \<or>
          wtype (widgets s ! nat i) = TEXT \<or> wtype (widgets s ! nat i) = INPUTFIELD") auto
qed

lemma wrep_upd_ctx:
  assumes "wg_rep s ids"
  shows "wg_rep (s\<lparr>widgets := (widgets s)[k := (widgets s ! k)\<lparr>ctx := c\<rparr>]\<rparr>) ids"
proof (cases "k < length (widgets s)")
  case True
  then show ?thesis by (intro wrep_same_links [OF assms]) (simp_all add: map_update list_update_same_conv)
next
  case False
  then show ?thesis using assms by (simp add: list_update_beyond)
qed

lemma removeWidget_spec:
  assumes "wg_rep s (xs @ w # ys)"
  shows "\<exists>s'. removeWidget s (int w) = Inr (s', 0) \<and>
    (xs \<noteq> [] \<or> ys = [] \<longrightarrow> wg_rep s' (xs @ ys)) \<and>
    (xs = [] \<longrightarrow> widgetlisthead s' = -1 \<and> wg_rep (s'\<lparr>widgetlisthead := headi ys (-1)\<rparr>) ys)"
proof -
  have r: "in_range (int w) (widgets s)" by (rule wrep_in_range [OF assms]) simp
  have used: "\<not> (wg_prev (widgets s ! w) = int w \<and> wg_next (widgets s ! w) = int w)"
    using wrep_at [OF assms] wrep_ends [OF assms] by simp
  obtain c where c: "freeWidget s (int w) = Inr (s\<lparr>widgets := (widgets s)[nat (int w) := (widgets s ! nat (int w))\<lparr>ctx := c\<rparr>]\<rparr>)"
    using freeWidget_eval [OF r] by blast
  let ?s1 = "s\<lparr>widgets := (widgets s)[w := (widgets s ! w)\<lparr>ctx := c\<rparr>]\<rparr>"
  have rep1: "wg_rep ?s1 (xs @ w # ys)" by (rule wrep_upd_ctx [OF assms])
  let ?l = "wgs_free (wgs_unlink (widgets ?s1) w) w"
  let ?s' = "?s1\<lparr>widgets := ?l, widgetlisthead := (if xs = [] then -1 else widgetlisthead ?s1), widgetlisttail := lasti (xs @ ys) (-1)\<rparr>"
  have run: "removeWidget s (int w) = Inr (?s', 0)"
    using r used c wremove_eval [OF rep1] unfolding removeWidget_def by simp
  have cells: "cells_rep wg_next wg_prev ?l (xs @ ys)"
    by (rule wgs.rep_remove) (use rep1 in \<open>simp add: wg_rep_def\<close>)
  have len: "length ?l = 50" using rep1 by (simp add: wg_rep_def)
  have h: "widgetlisthead s = headi (xs @ ys) (-1)" if "xs \<noteq> []"
    using assms that by (cases xs) (simp_all add: wg_rep_def)
  have "wg_rep ?s' (xs @ ys)" if "xs \<noteq> [] \<or> ys = []"
    using that h cells len by (cases "xs = []") (simp_all add: wg_rep_def)
  moreover have "widgetlisthead ?s' = -1 \<and> wg_rep (?s'\<lparr>widgetlisthead := headi ys (-1)\<rparr>) ys" if "xs = []"
    using that cells len by (simp add: wg_rep_def)
  ultimately show ?thesis using run by blast
qed

subsection \<open>Repainting\<close>

text \<open>Painting touches the pixels only.\<close>

definition px_only :: "uwindow \<Rightarrow> uwindow \<Rightarrow> bool" where
  "px_only s s' \<longleftrightarrow> s' = s\<lparr>px := px s'\<rparr>"

lemma draw_px_only: "draw_px s m = Inr s' \<Longrightarrow> px_only s s'"
  by (auto simp: draw_px_def rbind_eq_Inr px_only_def)

lemma draw_widgets_px:
  "drawColorFillWidget s w = Inr s' \<Longrightarrow> px_only s s'"
  "drawButtonWidget mix font s w = Inr s' \<Longrightarrow> px_only s s'"
  "drawShapeWidget s w = Inr s' \<Longrightarrow> px_only s s'"
  "drawTextWidget mix font s w = Inr s' \<Longrightarrow> px_only s s'"
  "drawInputFieldWidget mix font s w = Inr s' \<Longrightarrow> px_only s s'"
  by (auto simp: drawColorFillWidget_def drawButtonWidget_def drawShapeWidget_def drawTextWidget_def
      drawInputFieldWidget_def rbind_eq_Inr px_only_def Let_def
      split: widget_ctx.splits if_splits dest: draw_px_only [unfolded px_only_def])

lemma draw_widget_px: "draw_widget mix font p s = Inr (s', b) \<Longrightarrow> \<not> b \<and> px_only s s'"
  by (auto simp: draw_widget_def rbind_eq_Inr cont_def cont_res_def split: if_splits
      dest: draw_widgets_px) (simp_all add: px_only_def)

lemma px_only_simps:
  assumes "px_only s s'"
  shows "widgets s' = widgets s" "widgetlisthead s' = widgetlisthead s" "widgetlisttail s' = widgetlisttail s"
    "keyfocus s' = keyfocus s" "needsRepaint s' = needsRepaint s"
    "scrollOffsetX s' = scrollOffsetX s" "scrollOffsetY s' = scrollOffsetY s"
proof -
  obtain b where "s' = s\<lparr>px := b\<rparr>" using assms unfolding px_only_def by blast
  then show "widgets s' = widgets s" "widgetlisthead s' = widgetlisthead s" "widgetlisttail s' = widgetlisttail s"
    "keyfocus s' = keyfocus s" "needsRepaint s' = needsRepaint s"
    "scrollOffsetX s' = scrollOffsetX s" "scrollOffsetY s' = scrollOffsetY s" by simp_all
qed

lemma px_only_rep: "px_only s s' \<Longrightarrow> wg_rep s' ids = wg_rep s ids"
  by (simp add: wg_rep_def px_only_simps)

lemma px_only_trans: "px_only s s' \<Longrightarrow> px_only s' s'' \<Longrightarrow> px_only s s''"
  unfolding px_only_def by (metis uwindow.surjective uwindow.update_convs(1))

lemma for_cells_px:
  "for_cells (draw_widget mix font) xs s = Inr (s', p) \<Longrightarrow> px_only s s'"
proof (induction xs arbitrary: s)
  case Nil
  then show ?case by (simp add: px_only_def)
next
  case (Cons a xs)
  then obtain s1 b where 1: "draw_widget mix font (int a) s = Inr (s1, b)"
    and rest: "(if b then Inr (s1, int a) else for_cells (draw_widget mix font) xs s1) = Inr (s', p)"
    by (auto simp: rbind_eq_Inr)
  have "\<not> b" "px_only s s1" using draw_widget_px [OF 1] by simp_all
  then show ?case using Cons.IH [of s1] rest px_only_trans by simp
qed

lemma repaint_cells:
  assumes "wg_rep s ids"
  shows "repaintWindow mix font s =
    (if needsRepaint s \<noteq> 0 then rbind (for_cells (draw_widget mix font) ids s) (\<lambda>(w, p). Inr w) else Inr s)"
proof -
  let ?nx = "links_of wg_next (widgets s)" and ?pv = "links_of wg_prev (widgets s)"
  have dll: "dll 50 ?nx ?pv ids" by (rule wrep_dll [OF assms])
  have "for_links 50 wg_step (draw_widget mix font) (headi ids (-1)) s = for_cells (draw_widget mix font) ids s"
  proof (rule for_links_seg [where I = "\<lambda>t. px_only s t" and nx = ?nx and pv = ?pv and p = "-1"])
    show "dseg ?nx ?pv (-1) ids (-1)" using dll by (simp add: dll_def)
    show "length ids \<le> 50" by (rule dll_length [OF dll])
    show "case draw_widget mix font (int a) t of Inl e \<Rightarrow> True | Inr (t', k) \<Rightarrow> k \<or> px_only s t'"
      if "px_only s t" for a t
      using draw_widget_px px_only_trans [OF that] by (auto split: sum.split)
    show "wg_step t (int a) = Inr (?nx a)" if "a \<in> set ids" "px_only s t" for a t
      using wrep_in_range [OF assms that(1)] px_only_simps [OF that(2)] by (simp add: wg_step_def links_of_def)
  qed (simp add: px_only_def)
  then show ?thesis using assms by (simp add: repaintWindow_def wg_rep_def MAX_WIDGET_SIZE_def)
qed

lemma repaint_px:
  assumes "wg_rep s ids" and "repaintWindow mix font s = Inr s'"
  shows "px_only s s'"
  using assms(2) for_cells_px unfolding repaint_cells [OF assms(1)]
  by (auto simp: rbind_eq_Inr px_only_def split: if_splits)

subsection \<open>Dispatch of messages\<close>

lemma wdown_spec:
  assumes "wg_rep s ids"
    and "\<And>i. i \<in> set ids \<Longrightarrow> body (int i) s = cont s \<or> (\<forall>s'. body (int i) s \<noteq> Inr (s', False))"
  shows "for_links MAX_WIDGET_SIZE wg_back body (widgetlisttail s) s = for_cells body (rev ids) s"
proof -
  let ?nx = "links_of wg_next (widgets s)" and ?pv = "links_of wg_prev (widgets s)"
  have dll: "dll 50 ?pv ?nx (rev ids)" by (rule dll_rev [OF wrep_dll [OF assms(1)]])
  have "for_links 50 wg_back body (headi (rev ids) (-1)) s = for_cells body (rev ids) s"
  proof (rule for_links_seg [where I = "\<lambda>b. b = s" and nx = ?pv and pv = ?nx and p = "-1"])
    show "dseg ?pv ?nx (-1) (rev ids) (-1)" using dll by (simp add: dll_def)
    show "length (rev ids) \<le> 50" using dll_length [OF dll] by simp
    show "case body (int i) b of Inl e \<Rightarrow> True | Inr (s', k) \<Rightarrow> k \<or> s' = s"
      if "i \<in> set (rev ids)" "b = s" for i b
      using assms(2) [of i] that by (auto simp: cont_def split: sum.splits)
    show "wg_back b (int i) = Inr (?pv i)" if "i \<in> set (rev ids)" "b = s" for i b
      using wrep_in_range [OF assms(1)] that by (simp add: wg_back_def links_of_def)
  qed simp
  then show ?thesis using assms(1) by (simp add: wg_rep_def MAX_WIDGET_SIZE_def)
qed

text \<open>The frontmost widget under the pointer, and what calling its handler does.\<close>

definition front_widget :: "uwindow \<Rightarrow> nat list \<Rightarrow> int \<Rightarrow> int \<Rightarrow> nat option" where
  "front_widget win ids x y = List.find (\<lambda>i. wg_hit win (widgets win ! i) x y) (rev ids)"

definition widget_msg :: "uwindow \<Rightarrow> nat \<Rightarrow> message \<Rightarrow> message \<Rightarrow> message" where
  "widget_msg win i junk msg =
     (if scrollable (widgets win ! i) = 0 then msg
      else junk\<lparr>msg_type := msg_type msg,
        params := (params junk)(0 := params msg 0 + scrollOffsetX win, 1 := params msg 1 + scrollOffsetY win)\<rparr>)"

definition call_widget :: "handlers \<Rightarrow> message \<Rightarrow> nat \<Rightarrow> uwindow \<Rightarrow> uwindow res" where
  "call_widget call m i win =
     rbind (call (wg_handler (widgets win ! i)) (int i) m win) (\<lambda>win1.
     rbind (get_wg win1 (int i)) (\<lambda>w1.
     Inr (if wtype w1 = INPUTFIELD then win1\<lparr>keyfocus := int i\<rparr> else win1)))"

lemma mouse_search:
  assumes "wg_rep win ids"
  shows "for_links MAX_WIDGET_SIZE wg_back (mouse_target call junk msg) (widgetlisttail win) win =
    (case front_widget win ids (params msg 0) (params msg 1) of
       None \<Rightarrow> Inr (win, -1)
     | Some i \<Rightarrow> rbind (call_widget call (widget_msg win i junk msg) i win) (\<lambda>w. Inr (w, int i)))"
proof -
  let ?hit = "\<lambda>i. wg_hit win (widgets win ! i) (params msg 0) (params msg 1)"
  have miss: "mouse_target call junk msg (int i) win = cont win" if "i \<in> set ids" "\<not> ?hit i" for i
    using wrep_in_range [OF assms that(1)] that(2) by (simp add: mouse_target_def)
  have hit: "mouse_target call junk msg (int i) win = rbind (call_widget call (widget_msg win i junk msg) i win) brk"
    if "i \<in> set ids" "?hit i" for i
    using wrep_in_range [OF assms that(1)] that(2)
    by (simp add: mouse_target_def call_widget_def widget_msg_def rbind_assoc Let_def)
  have "for_links MAX_WIDGET_SIZE wg_back (mouse_target call junk msg) (widgetlisttail win) win =
      for_cells (mouse_target call junk msg) (rev ids) win"
  proof (rule wdown_spec [OF assms])
    fix i assume i: "i \<in> set ids"
    show "mouse_target call junk msg (int i) win = cont win \<or>
        (\<forall>s'. mouse_target call junk msg (int i) win \<noteq> Inr (s', False))"
      using miss [OF i] hit [OF i] by (cases "?hit i") (auto simp: rbind_eq_Inr brk_def)
  qed
  also have "\<dots> = (case List.find ?hit (rev ids) of None \<Rightarrow> Inr (win, -1)
      | Some i \<Rightarrow> rbind (call_widget call (widget_msg win i junk msg) i win) (\<lambda>w. Inr (w, int i)))"
    by (rule scan_down) (use miss hit in simp_all)
  finally show ?thesis by (simp add: front_widget_def)
qed

lemma mouse_dispatch_base:
  assumes "wg_rep win0 ids" and "repaintWindow mix font win0 = Inr win1"
    and "msg_type msg \<notin> {100, 101, 102}" and "keyfocus win0 = -1 \<or> msg_type msg \<notin> {1, 2}"
  shows "updateWindow mix font call junk (Some msg) win0 =
    (let win = win1\<lparr>needsRepaint := 1\<rparr>
     in case front_widget win ids (params msg 0) (params msg 1) of
          None \<Rightarrow> Inr (win, [])
        | Some i \<Rightarrow> rbind (call_widget call (widget_msg win i junk msg) i win) (\<lambda>w. Inr (w, [])))"
proof -
  let ?win = "win1\<lparr>needsRepaint := 1\<rparr>"
  have px: "px_only win0 win1" by (rule repaint_px [OF assms(1,2)])
  have rep: "wg_rep ?win ids" using px_only_rep [OF px] assms(1) by (simp add: wg_rep_def)
  have key: "\<not> (keyfocus ?win \<noteq> -1 \<and> (msg_type msg = 2 \<or> msg_type msg = 1))"
    using assms(4) px_only_simps(4) [OF px] by auto
  have "updateWindow mix font call junk (Some msg) win0 =
      rbind (for_links MAX_WIDGET_SIZE wg_back (mouse_target call junk msg) (widgetlisttail ?win) ?win) (\<lambda>(w, p). Inr (w, []))"
    using assms(2,3) key by (auto simp: updateWindow_def Let_def)
  also have "\<dots> = (case front_widget ?win ids (params msg 0) (params msg 1) of
          None \<Rightarrow> Inr (?win, [])
        | Some i \<Rightarrow> rbind (call_widget call (widget_msg ?win i junk msg) i ?win) (\<lambda>w. Inr (w, [])))"
    unfolding mouse_search [OF rep] by (simp add: rbind_assoc split: option.split)
  finally show ?thesis by (simp add: Let_def)
qed

subsection \<open>A new window\<close>

lemma reset_loop:
  assumes "n \<le> length (widgets win)"
  shows "for_each (\<lambda>i w. cont_res (mod_wg w (int i) (reset_widget (int i)))) [0..<n] win =
    Inr (win\<lparr>widgets := map (\<lambda>i. reset_widget (int i) (widgets win ! i)) [0..<n] @ drop n (widgets win)\<rparr>)"
  using assms
proof (induction n)
  case 0
  then show ?case by simp
next
  case (Suc n)
  let ?body = "\<lambda>i w. cont_res (mod_wg w (int i) (reset_widget (int i)))"
  have drop: "drop n (widgets win) = widgets win ! n # drop (Suc n) (widgets win)"
    using Suc.prems by (simp add: Cons_nth_drop_Suc)
  have "for_each ?body ([0..<n] @ [n]) win = rbind (for_each ?body [0..<n] win) (for_each ?body [n])"
    by (rule for_each_append) (auto simp: cont_res_def cont_def rbind_eq_Inr)
  then show ?case using Suc drop by (simp add: list_update_append nth_append)
qed

lemma reset_rep:
  assumes "length (widgets win) = 50"
  shows "wg_rep (win\<lparr>widgets := map (\<lambda>i. reset_widget (int i) (widgets win ! i)) [0..<50],
    widgetlisthead := -1, widgetlisttail := -1\<rparr>) []"
  by (simp add: wg_rep_def cells_rep_def dll_def links_of_def reset_widget_def)

lemma u_createWindow_spec:
  assumes "length (widgets win) = 50" and "buf \<noteq> 0"
  shows "\<exists>w. u_createWindow win t buf = Inr (w, [CallCreateWindow t]) \<and> wg_rep w [] \<and> keyfocus w = -1 \<and>
    needsRepaint w = 1 \<and> px w = replicate (nat (w_height win * w_width win)) \<lparr>rB = 255, rG = 255, rR = 255\<rparr>"
  using assms reset_rep [OF assms(1)] reset_loop [of 50]
  by (simp add: u_createWindow_def reset_widgets_def MAX_WIDGET_SIZE_def Let_def wg_rep_def)

subsection \<open>Properties\<close>

definition blank_widget :: widget where
  "blank_widget = \<lparr>ctx = NoCtx, wtype = 0, wpos = \<lparr>xmin = 0, xmax = 0, ymin = 0, ymax = 0\<rparr>, scrollable = 0,
     wg_next = 0, wg_prev = 0, wg_handler = 0\<rparr>"

definition blank_window :: uwindow where
  "blank_window = \<lparr>initialPosition = \<lparr>xmin = 0, xmax = 0, ymin = 0, ymax = 0\<rparr>, w_hasTitleBar = 1, w_window_buf = 0,
     w_width = 20, w_height = 20, scrollOffsetX = 0, scrollOffsetY = 0, handler = -1, px = [],
     widgets = replicate 50 blank_widget, widgetlisthead = 0, widgetlisttail = 0, keyfocus = 0, needsRepaint = 0\<rparr>"

lemma fresh_window: "\<exists>w. wg_rep w [] \<and> keyfocus w = -1"
  using u_createWindow_spec [of blank_window 1 "[]"] by (auto simp: blank_window_def)

lemma least_free_01: "least_free [] = Some 0" "least_free [0] = Some 1" "least_free [0, 1] = Some 2"
  by (simp_all add: least_free_def upt_rec)

lemma two_widgets: "\<exists>w. wg_rep w [0, 1] \<and> keyfocus w = -1"
proof -
  obtain w0 where w0: "wg_rep w0 []" "keyfocus w0 = -1" using fresh_window by blast
  obtain w1 where w1: "wg_rep w1 [0]" "keyfocus w1 = -1"
    using addWidget_some [OF w0(1) least_free_01(1)] w0(2) by auto
  show ?thesis using addWidget_some [OF w1(1) least_free_01(2)] w1(2) by auto
qed

text \<open>
  (input_field_added): adding an input field with a text that fits puts the least free widget in
  front of the others, with the text terminated in its buffer, the cursor after it, the rectangle
  asked for, and the keyboard focus; the other widgets keep their data. With all 50 in use nothing changes
  and the result is -1.
\<close>

theorem input_field_added:
  assumes "wg_rep win ids" and "is_str str s" and "length junk = MAX_LONG_STRLEN" and "length s < MAX_LONG_STRLEN"
  shows "ok (addInputFieldWidget win c str x y wd ht scr h junk) (\<lambda>(win', r). case least_free ids of
      None \<Rightarrow> win' = win \<and> r = -1
    | Some i \<Rightarrow> wg_rep win' (ids @ [i]) \<and> r = int i \<and> keyfocus win' = int i \<and>
        wg_data (widgets win' ! i) = (InputCtx \<lparr>in_color = c, in_text = s @ 0 # drop (length s + 1) junk,
          current_pos = int (length s)\<rparr>, INPUTFIELD, \<lparr>xmin = x, xmax = x + wd, ymin = y, ymax = y + ht\<rparr>, scr, h) \<and>
        (\<forall>j<50. j \<noteq> i \<longrightarrow> wg_data (widgets win' ! j) = wg_data (widgets win ! j)))"
proof (cases "least_free ids")
  case None
  then show ?thesis using addWidget_none [OF assms(1) None] by (simp add: addInputFieldWidget_def)
next
  case (Some i)
  then obtain w1 where w1: "addWidget win = Inr (w1, int i)" "wg_rep w1 (ids @ [i])"
      "map wg_data (widgets w1) = map wg_data (widgets win)"
    using addWidget_some [OF assms(1)] by blast
  have len: "length (widgets w1) = 50" "length (widgets win) = 50" using w1(2) assms(1) by (simp_all add: wg_rep_def)
  have i: "i < 50" using least_free_Some [OF Some] by simp
  have t: "strcpy junk 0 str = Inr (s @ 0 # drop (length s + 1) junk)"
    using strcpy_spec [of str s 0 junk] assms(2-4) by (simp add: stored_def)
  have n: "strlen str = Inr (int (length s))" by (rule strlen_spec [OF assms(2)])
  let ?c = "InputCtx \<lparr>in_color = c, in_text = s @ 0 # drop (length s + 1) junk, current_pos = int (length s)\<rparr>"
  let ?w = "setWidgetSize ((widgets w1 ! i)\<lparr>ctx := ?c, wtype := INPUTFIELD, wg_handler := h, scrollable := scr\<rparr>) x y wd ht"
  let ?l = "(widgets w1)[i := ?w]"
  have run: "addInputFieldWidget win c str x y wd ht scr h junk = Inr (w1\<lparr>widgets := ?l, keyfocus := int i\<rparr>, int i)"
    using w1(1) t n i len by (simp add: addInputFieldWidget_def place_widget_def)
  have "map wg_next ?l = map wg_next (widgets w1)" "map wg_prev ?l = map wg_prev (widgets w1)"
    using i len by (simp_all add: map_update list_update_same_conv setWidgetSize_def)
  then have "wg_rep (w1\<lparr>widgets := ?l\<rparr>) (ids @ [i])" by (rule wrep_same_links [OF w1(2)])
  then have "wg_rep (w1\<lparr>widgets := ?l, keyfocus := int i\<rparr>) (ids @ [i])" by (simp add: wg_rep_def)
  moreover have "wg_data (widgets w1 ! j) = wg_data (widgets win ! j)" if "j < 50" for j
    using arg_cong [OF w1(3), of "\<lambda>xs. xs ! j"] that len by simp
  ultimately show ?thesis using run Some i len by (simp add: setWidgetSize_def)
qed

theorem input_field_added_witness:
  "\<exists>win. wg_rep win [0, 1] \<and>
    ok (addInputFieldWidget win \<lparr>aA = 255, aB = 0, aG = 0, aR = 0\<rparr> [104, 105, 0] 1 2 30 40 0 7 (replicate 1000 0)) (\<lambda>(win', r).
      case least_free [0, 1] of
      None \<Rightarrow> win' = win \<and> r = -1
    | Some i \<Rightarrow> wg_rep win' ([0, 1] @ [i]) \<and> r = int i \<and> keyfocus win' = int i \<and>
        wg_data (widgets win' ! i) = (InputCtx \<lparr>in_color = \<lparr>aA = 255, aB = 0, aG = 0, aR = 0\<rparr>,
            in_text = [104, 105] @ 0 # drop (length [104, 105 :: byte] + 1) (replicate 1000 0),
          current_pos = int (length [104, 105 :: byte])\<rparr>, INPUTFIELD, \<lparr>xmin = 1, xmax = 1 + 30, ymin = 2, ymax = 2 + 40\<rparr>, 0, 7) \<and>
        (\<forall>j<50. j \<noteq> i \<longrightarrow> wg_data (widgets win' ! j) = wg_data (widgets win ! j)))"
proof -
  obtain win where w: "wg_rep win [0, 1]" using two_widgets by blast
  have t: "is_str [104, 105, 0 :: byte] [104, 105]" by (auto simp: is_str_def)
  show ?thesis using w input_field_added [OF w t, of "replicate 1000 0" "\<lparr>aA = 255, aB = 0, aG = 0, aR = 0\<rparr>" 1 2 30 40 0 7]
    by (auto simp: MAX_LONG_STRLEN_def)
qed

text \<open>
  (remove_widget): removing a widget that is not the backmost one, or that is the only one, takes
  exactly it out of the list and returns 0.
\<close>

theorem remove_widget:
  assumes "wg_rep win (xs @ w # ys)" and "xs \<noteq> [] \<or> ys = []"
  shows "ok (removeWidget win (int w)) (\<lambda>(win', r). wg_rep win' (xs @ ys) \<and> r = 0)"
  using removeWidget_spec [OF assms(1)] assms(2) by (auto simp: ok_def)

theorem remove_widget_witness:
  "\<exists>win. wg_rep win [0, 1] \<and> ok (removeWidget win 1) (\<lambda>(win', r). wg_rep win' [0] \<and> r = 0)"
proof -
  obtain win where w: "wg_rep win ([0] @ 1 # [])" using two_widgets by auto
  show ?thesis using w remove_widget [OF w] by auto
qed

text \<open>
  C40 (remove_back_widget): removing the backmost widget while others remain sets the head of the list to
  -1 (the successor of the last widget is taken for that of the removed one): the links and the tail
  still hold the others, but nothing of the window is painted any more.
\<close>

theorem remove_back_widget:
  assumes "wg_rep win (w # ys)" and "ys \<noteq> []"
  shows "ok (removeWidget win (int w)) (\<lambda>(win', r). widgetlisthead win' = -1 \<and>
    wg_rep (win'\<lparr>widgetlisthead := int (hd ys)\<rparr>) ys \<and> repaintWindow mix font win' = Inr win')"
proof -
  obtain s' where s': "removeWidget win (int w) = Inr (s', 0)" "widgetlisthead s' = -1"
      "wg_rep (s'\<lparr>widgetlisthead := headi ys (-1)\<rparr>) ys"
    using removeWidget_spec [of win "[]" w ys] assms(1) by auto
  have "headi ys (-1) = int (hd ys)" using assms(2) by (cases ys) simp_all
  then show ?thesis using s' by (simp add: repaintWindow_def for_links.simps)
qed

theorem remove_back_widget_witness:
  "\<exists>win. wg_rep win [0, 1] \<and> ok (removeWidget win (int 0)) (\<lambda>(win', r). widgetlisthead win' = -1 \<and>
    wg_rep (win'\<lparr>widgetlisthead := int (hd [1])\<rparr>) [1] \<and> repaintWindow (\<lambda>a b c. a) (\<lambda>_ _ _. 0) win' = Inr win')"
proof -
  obtain win where w: "wg_rep win (0 # [1])" using two_widgets by auto
  have ne: "[1 :: nat] \<noteq> []" by simp
  show ?thesis using w remove_back_widget [OF w ne, of "\<lambda>a b c. a" "\<lambda>_ _ _. 0"] by blast
qed

text \<open>
  (mouse_dispatch): a message that is neither a window command nor a key for the focus is given to the handler
  of the frontmost widget under the pointer and to no other, with the coordinates shifted by the scroll
  offset if the widget scrolls; an input field then takes the keyboard focus. Without such a widget
  only the repaint flag changes.
\<close>

theorem mouse_dispatch:
  assumes "wg_rep win0 ids" and "repaintWindow mix font win0 = Inr win1"
    and "msg_type msg \<notin> {100, 101, 102}" and "keyfocus win0 = -1 \<or> msg_type msg \<notin> {1, 2}"
  shows "updateWindow mix font call junk (Some msg) win0 =
    (let win = win1\<lparr>needsRepaint := 1\<rparr>
     in case front_widget win ids (params msg 0) (params msg 1) of
          None \<Rightarrow> Inr (win, [])
        | Some i \<Rightarrow> rbind (call_widget call (widget_msg win i junk msg) i win) (\<lambda>w. Inr (w, [])))"
  by (rule mouse_dispatch_base [OF assms])

theorem mouse_dispatch_witness:
  "\<exists>win0 msg. wg_rep win0 [0, 1] \<and> updateWindow (\<lambda>a b c. a) (\<lambda>_ _ _. 0) (\<lambda>h p m w. Inr w) msg (Some msg) win0 =
    (let win = win0\<lparr>needsRepaint := 1\<rparr>
     in case front_widget win [0, 1] (params msg 0) (params msg 1) of
          None \<Rightarrow> Inr (win, [])
        | Some i \<Rightarrow> rbind (call_widget (\<lambda>h p m w. Inr w) (widget_msg win i msg msg) i win) (\<lambda>w. Inr (w, [])))"
proof -
  obtain w where w: "wg_rep w [0, 1]" "keyfocus w = -1" using two_widgets by blast
  let ?w = "w\<lparr>needsRepaint := 0\<rparr>" and ?m = "\<lparr>msg_type = 9, params = \<lambda>_. 0\<rparr>"
  have r: "wg_rep ?w [0, 1]" using w by (simp add: wg_rep_def)
  have p: "repaintWindow (\<lambda>a b c. a) (\<lambda>_ _ _. 0) ?w = Inr ?w" by (simp add: repaintWindow_def)
  have "updateWindow (\<lambda>a b c. a) (\<lambda>_ _ _. 0) (\<lambda>h p m w. Inr w) ?m (Some ?m) ?w =
    (let win = ?w\<lparr>needsRepaint := 1\<rparr>
     in case front_widget win [0, 1] (params ?m 0) (params ?m 1) of
          None \<Rightarrow> Inr (win, [])
        | Some i \<Rightarrow> rbind (call_widget (\<lambda>h p m w. Inr w) (widget_msg win i ?m ?m) i win) (\<lambda>w. Inr (w, [])))"
    by (rule mouse_dispatch [OF r p]) (use w in auto)
  then show ?thesis using r by blast
qed

text \<open>
  (popup_key_fault): a popup window is created without a keyboard focus being set, and a key message is
  given to the widget of that number without a test: unless the stale number happens to be one of a
  widget, the access is out of the array.
\<close>

theorem popup_key_fault:
  assumes "u_createPopupWindow win clr buf = Inr (win1, cs)" and "length (widgets win) = 50"
    and "repaintWindow mix font win1 = Inr win2" and "msg_type msg = 1 \<or> msg_type msg = 2"
    and "buf \<noteq> 0" and "keyfocus win \<notin> {0..<50}"
  shows "updatePopupWindow mix font call (Some msg) win1 = Inl OutOfBounds"
proof -
  have "wg_rep win1 [] \<and> keyfocus win1 = keyfocus win"
    using assms(1,2,5) reset_rep [OF assms(2)] reset_loop [of 50]
    by (auto simp: u_createPopupWindow_def reset_widgets_def MAX_WIDGET_SIZE_def Let_def wg_rep_def)
  moreover from this have px: "px_only win1 win2" using repaint_px assms(3) by blast
  ultimately have "keyfocus win2 = keyfocus win" "length (widgets win2) = 50"
    using px_only_simps [OF px] by (simp_all add: wg_rep_def)
  then show ?thesis using assms(3,4,6) by (auto simp: updatePopupWindow_def key_target_def Let_def in_range_def)
qed

theorem popup_key_fault_witness:
  "\<exists>win1 cs. u_createPopupWindow (blank_window\<lparr>keyfocus := -1\<rparr>) 0 1 = Inr (win1, cs) \<and>
    updatePopupWindow (\<lambda>a b c. a) (\<lambda>_ _ _. 0) (\<lambda>h p m w. Inr w) (Some \<lparr>msg_type = 1, params = \<lambda>_. 0\<rparr>) win1 = Inl OutOfBounds"
proof -
  let ?w = "blank_window\<lparr>keyfocus := -1\<rparr>"
  obtain win1 cs where c: "u_createPopupWindow ?w 0 1 = Inr (win1, cs)" "widgetlisthead win1 = -1"
    using reset_loop [of 50 "?w\<lparr>w_window_buf := 1, px := replicate 400 \<lparr>rB = 255, rG = 255, rR = 255\<rparr>,
      widgetlisthead := -1, widgetlisttail := -1\<rparr>"]
    by (auto simp: u_createPopupWindow_def reset_widgets_def MAX_WIDGET_SIZE_def Let_def blank_window_def)
  have p: "repaintWindow (\<lambda>a b c. a) (\<lambda>_ _ _. 0) win1 = Inr win1"
    using c(2) by (simp add: repaintWindow_def for_links.simps)
  show ?thesis
    using c(1) popup_key_fault [OF c(1) _ p, of "\<lparr>msg_type = 1, params = \<lambda>_. 0\<rparr>" "\<lambda>h p m w. Inr w"]
    by (auto simp: blank_window_def)
qed

end
