(* ===== verification/BlockCache.thy ===== *)
theory BlockCache
  imports Links
begin

text \<open>
  The buffer cache of the kernel (bio.c) over the memory disk (memide.c), with the sleep locks of the
  buffers (sleeplock.c).

  The cache is an array of \<open>NBUF\<close> buffers linked in the order of their last use. A pointer to
  \<open>bcache.buf[i]\<close> is the index \<open>i\<close>, the pointer to the list head \<open>bcache.head\<close> is \<open>-1\<close>, whose two links are the
  fields \<open>head_next\<close> and \<open>head_prev\<close>. The flag bits \<open>B_VALID\<close> and \<open>B_DIRTY\<close> are two booleans. Device and
  block numbers (\<open>uint\<close>) are integers. \<open>disk_writes\<close> records the blocks written to the disk in order; the code
  does not have it, it is what a crash in the middle of an operation is stated with. A process that
  would wait for a sleep lock ends the run with \<open>Sleeps\<close>: the operations are those of one process at a time.
\<close>

definition BSIZE :: nat where "BSIZE = 2048"
definition NBUF :: nat where "NBUF = 30"

type_synonym block = "byte list"

record sleeplock =
  locked :: int
  pid :: int

record bdata =
  B_VALID :: bool
  B_DIRTY :: bool
  dev :: int
  blockno :: int
  block_lock :: sleeplock
  refcnt :: int
  data :: block

record buf = bdata +
  buf_prev :: int
  buf_next :: int

record bcache =
  bufs :: "buf list"
  head_next :: int
  head_prev :: int
  memdisk :: "int \<Rightarrow> block"
  disksize :: int
  disk_writes :: "(int \<times> block) list"
  curpid :: int

definition get_buf :: "'a bcache_scheme \<Rightarrow> int \<Rightarrow> buf res" where
  "get_buf s i = arr_get (bufs s) i"

definition mod_buf :: "'a bcache_scheme \<Rightarrow> int \<Rightarrow> (buf \<Rightarrow> buf) \<Rightarrow> 'a bcache_scheme res" where
  "mod_buf s i f = rbind (arr_mod (bufs s) i f) (\<lambda>l. Inr (s\<lparr>bufs := l\<rparr>))"

subsection \<open>Sleep locks\<close>

definition initsleeplock :: "sleeplock \<Rightarrow> sleeplock" where
  "initsleeplock lk = lk\<lparr>locked := 0, pid := 0\<rparr>"

definition acquiresleep :: "int \<Rightarrow> sleeplock \<Rightarrow> sleeplock res" where
  "acquiresleep p lk = (if locked lk \<noteq> 0 then Inl Sleeps else Inr (lk\<lparr>locked := 1, pid := p\<rparr>))"

definition releasesleep :: "sleeplock \<Rightarrow> sleeplock" where
  "releasesleep lk = lk\<lparr>locked := 0, pid := 0\<rparr>"

definition holdingsleep :: "int \<Rightarrow> sleeplock \<Rightarrow> bool" where
  "holdingsleep p lk \<longleftrightarrow> locked lk \<noteq> 0 \<and> pid lk = p"

definition lock_buf :: "'a bcache_scheme \<Rightarrow> int \<Rightarrow> 'a bcache_scheme res" where
  "lock_buf s i = rbind (get_buf s i) (\<lambda>b. rbind (acquiresleep (curpid s) (block_lock b)) (\<lambda>lk.
     mod_buf s i (\<lambda>b. b\<lparr>block_lock := lk\<rparr>)))"

subsection \<open>The list of buffers\<close>

text \<open>Assignments \<open>p->next = v\<close> and \<open>p->prev = v\<close>, where \<open>p\<close> may be the head.\<close>

definition set_next :: "'a bcache_scheme \<Rightarrow> int \<Rightarrow> int \<Rightarrow> 'a bcache_scheme res" where
  "set_next s p v = (if p = -1 then Inr (s\<lparr>head_next := v\<rparr>) else mod_buf s p (\<lambda>b. b\<lparr>buf_next := v\<rparr>))"

definition set_prev :: "'a bcache_scheme \<Rightarrow> int \<Rightarrow> int \<Rightarrow> 'a bcache_scheme res" where
  "set_prev s p v = (if p = -1 then Inr (s\<lparr>head_prev := v\<rparr>) else mod_buf s p (\<lambda>b. b\<lparr>buf_prev := v\<rparr>))"

text \<open>\<open>b->next = head.next; b->prev = &head; head.next->prev = b; head.next = b\<close>\<close>

definition link_front :: "'a bcache_scheme \<Rightarrow> int \<Rightarrow> 'a bcache_scheme res" where
  "link_front s i =
     rbind (set_next s i (head_next s)) (\<lambda>s1.
     rbind (set_prev s1 i (-1)) (\<lambda>s2.
     rbind (set_prev s2 (head_next s2) i) (\<lambda>s3.
     Inr (s3\<lparr>head_next := i\<rparr>))))"

definition binit :: "'a bcache_scheme \<Rightarrow> 'a bcache_scheme res" where
  "binit s = for_each (\<lambda>i s. cont_res (rbind (mod_buf s (int i) (\<lambda>b. b\<lparr>block_lock := initsleeplock (block_lock b)\<rparr>))
       (\<lambda>s1. link_front s1 (int i)))) [0..<NBUF] (s\<lparr>head_prev := -1, head_next := -1\<rparr>)"

definition bget :: "'a bcache_scheme \<Rightarrow> int \<Rightarrow> int \<Rightarrow> ('a bcache_scheme \<times> int) res" where
  "bget s d n =
     rbind (for_links NBUF (\<lambda>s p. rbind (get_buf s p) (\<lambda>b. Inr (buf_next b)))
        (\<lambda>p s. rbind (get_buf s p) (\<lambda>b. if dev b = d \<and> blockno b = n then brk s else cont s)) (head_next s) s) (\<lambda>(s, p).
     if p \<noteq> -1
     then rbind (mod_buf s p (\<lambda>b. b\<lparr>refcnt := refcnt b + 1\<rparr>)) (\<lambda>s1. rbind (lock_buf s1 p) (\<lambda>s2. Inr (s2, p)))
     else
       rbind (for_links NBUF (\<lambda>s p. rbind (get_buf s p) (\<lambda>b. Inr (buf_prev b)))
          (\<lambda>p s. rbind (get_buf s p) (\<lambda>b. if refcnt b = 0 \<and> \<not> B_DIRTY b then brk s else cont s)) (head_prev s) s) (\<lambda>(s, p).
       if p \<noteq> -1
       then rbind (mod_buf s p (\<lambda>b. b\<lparr>dev := d, blockno := n, B_VALID := False, B_DIRTY := False, refcnt := 1\<rparr>)) (\<lambda>s1.
            rbind (lock_buf s1 p) (\<lambda>s2. Inr (s2, p)))
       else Inl (Panic ''bget: no buffers'')))"

text \<open>The memory disk.\<close>

definition iderw :: "'a bcache_scheme \<Rightarrow> int \<Rightarrow> 'a bcache_scheme res" where
  "iderw s i = rbind (get_buf s i) (\<lambda>b.
     if \<not> holdingsleep (curpid s) (block_lock b) then Inl (Panic ''iderw: buf not locked'')
     else if B_VALID b \<and> \<not> B_DIRTY b then Inl (Panic ''iderw: nothing to do'')
     else if dev b \<noteq> 1 then Inl (Panic ''iderw: request not for disk 1'')
     else if blockno b < 0 \<or> blockno b \<ge> disksize s then Inl (Panic ''iderw: block out of range'')
     else if B_DIRTY b
     then mod_buf (s\<lparr>memdisk := (memdisk s)(blockno b := data b), disk_writes := disk_writes s @ [(blockno b, data b)]\<rparr>) i
            (\<lambda>b. b\<lparr>B_DIRTY := False, B_VALID := True\<rparr>)
     else mod_buf s i (\<lambda>b. b\<lparr>data := memdisk s (blockno b), B_VALID := True\<rparr>))"

definition bread :: "'a bcache_scheme \<Rightarrow> int \<Rightarrow> int \<Rightarrow> ('a bcache_scheme \<times> int) res" where
  "bread s d n =
     rbind (bget s d n) (\<lambda>(s1, i).
     rbind (get_buf s1 i) (\<lambda>b.
     if \<not> B_VALID b then rbind (iderw s1 i) (\<lambda>s2. Inr (s2, i)) else Inr (s1, i)))"

definition bwrite :: "'a bcache_scheme \<Rightarrow> int \<Rightarrow> 'a bcache_scheme res" where
  "bwrite s i = rbind (get_buf s i) (\<lambda>b.
     if \<not> holdingsleep (curpid s) (block_lock b) then Inl (Panic ''bwrite'')
     else rbind (mod_buf s i (\<lambda>b. b\<lparr>B_DIRTY := True\<rparr>)) (\<lambda>s1. iderw s1 i))"

definition brelse :: "'a bcache_scheme \<Rightarrow> int \<Rightarrow> 'a bcache_scheme res" where
  "brelse s i = rbind (get_buf s i) (\<lambda>b.
     if \<not> holdingsleep (curpid s) (block_lock b) then Inl (Panic ''brelse'')
     else
       rbind (mod_buf s i (\<lambda>b. b\<lparr>block_lock := releasesleep (block_lock b), refcnt := refcnt b - 1\<rparr>)) (\<lambda>s1.
       rbind (get_buf s1 i) (\<lambda>b.
       if refcnt b = 0 then
         rbind (set_prev s1 (buf_next b) (buf_prev b)) (\<lambda>s2.
         rbind (get_buf s2 i) (\<lambda>b.
         rbind (set_next s2 (buf_prev b) (buf_next b)) (\<lambda>s3.
         link_front s3 i)))
       else Inr s1)))"

end
