(* ===== verification/BC_Correct.thy ===== *)
theory BC_Correct
  imports BlockCache
begin

text \<open>
  Correctness of the buffer cache. \<open>ring\<close> relates the linked buffers to the list of their indices in the
  order of use; \<open>view s n\<close> is the content of block \<open>n\<close> that a reader sees (the cached copy if there is
  one), \<open>pinned s\<close> the blocks whose cached copy is dirty, \<open>holds s H\<close> says that \<open>H\<close> are the buffers in use, each
  by the running process. The lemmas give each operation's effect on these.
\<close>

subsection \<open>The ring of buffers\<close>

abbreviation "nexts s \<equiv> links_of buf_next (bufs s)"
abbreviation "prevs s \<equiv> links_of buf_prev (bufs s)"

definition ring :: "'a bcache_scheme \<Rightarrow> nat list \<Rightarrow> bool" where
  "ring s ids \<longleftrightarrow> length (bufs s) = 30 \<and> distinct ids \<and> set ids \<subseteq> {..<30} \<and> dseg (nexts s) (prevs s) (-1) ids (-1) \<and>
     head_next s = headi ids (-1) \<and> head_prev s = lasti ids (-1)"

interpretation ring_cells: link_cell buf_next buf_prev "\<lambda>v b. b\<lparr>buf_next := v\<rparr>" "\<lambda>v b. b\<lparr>buf_prev := v\<rparr>" bdata.truncate
  by unfold_locales (simp_all add: bdata.truncate_def)

lemma get_buf_ok [simp]: "i < length (bufs s) \<Longrightarrow> get_buf s (int i) = Inr (bufs s ! i)"
  by (simp add: get_buf_def)

lemma mod_buf_ok [simp]: "i < length (bufs s) \<Longrightarrow> mod_buf s (int i) f = Inr (s\<lparr>bufs := (bufs s)[i := f (bufs s ! i)]\<rparr>)"
  by (simp add: mod_buf_def)

lemma ring_length: "ring s ids \<Longrightarrow> length (bufs s) = 30"
  by (simp add: ring_def)

lemma ring_bound: "ring s ids \<Longrightarrow> i \<in> set ids \<Longrightarrow> i < 30"
  by (auto simp: ring_def)

lemma ring_size: "ring s ids \<Longrightarrow> length ids \<le> 30"
  using card_mono [of "{..<30}" "set ids"] by (auto simp: ring_def distinct_card)

lemma dseg_links_cong:
  "(\<And>i. i \<in> set xs \<Longrightarrow> nx i = nx' i \<and> pv i = pv' i) \<Longrightarrow> dseg nx pv p xs q = dseg nx' pv' p xs q"
  by (induction xs arbitrary: p) auto

text \<open>Changing the data of the buffers, but not their links.\<close>

lemma ring_same_links:
  assumes "ring s ids" and "length l = 30" and "\<And>i. i < 30 \<Longrightarrow> buf_next (l ! i) = buf_next (bufs s ! i) \<and> buf_prev (l ! i) = buf_prev (bufs s ! i)"
    and "bufs s' = l" and "head_next s' = head_next s" and "head_prev s' = head_prev s"
  shows "ring s' ids"
proof -
  have "dseg (nexts s') (prevs s') (-1) ids (-1) = dseg (nexts s) (prevs s) (-1) ids (-1)"
    by (rule dseg_links_cong) (use assms ring_bound [OF assms(1)] in \<open>simp add: links_of_def\<close>)
  then show ?thesis using assms by (simp add: ring_def)
qed

text \<open>Searching the ring.\<close>

lemma ring_search:
  assumes "ring s ids" and "dir = buf_next \<and> xs = ids \<and> h = head_next s \<or> dir = buf_prev \<and> xs = rev ids \<and> h = head_prev s"
  shows "for_links NBUF (\<lambda>s p. rbind (get_buf s p) (\<lambda>b. Inr (dir b)))
      (\<lambda>p s. rbind (get_buf s p) (\<lambda>b. if P b then brk s else cont s)) h s =
    Inr (s, case List.find (\<lambda>i. P (bufs s ! i)) xs of None \<Rightarrow> -1 | Some i \<Rightarrow> int i)"
proof -
  let ?body = "\<lambda>p s. rbind (get_buf s p) (\<lambda>b. if P b then brk s else cont s)"
  let ?step = "\<lambda>s p. rbind (get_buf s p) (\<lambda>b. Inr (dir b))"
  define nx where "nx = links_of dir (bufs s)"
  define pv where "pv = (if dir = buf_next then prevs s else nexts s)"
  have seg0: "dseg (nexts s) (prevs s) (-1) ids (-1)" using assms(1) by (simp add: ring_def)
  have seg: "dseg nx pv (-1) xs (-1)"
    using assms(2)
  proof
    assume "dir = buf_next \<and> xs = ids \<and> h = head_next s"
    then show ?thesis using seg0 by (simp add: nx_def pv_def)
  next
    assume "dir = buf_prev \<and> xs = rev ids \<and> h = head_prev s"
    moreover have "dseg (prevs s) (nexts s) (-1) (rev ids) (-1)" by (rule dseg_rev [OF seg0])
    ultimately show ?thesis using seg0 by (cases "buf_prev = buf_next") (auto simp: nx_def pv_def)
  qed
  have h: "h = headi xs (-1)" using assms by (auto simp: ring_def)
  have xs: "i < 30" if "i \<in> set xs" for i using that assms(2) ring_bound [OF assms(1)] by auto
  have "for_links NBUF ?step ?body (headi xs (-1)) s = for_cells ?body xs s"
  proof (rule for_links_seg [where I = "\<lambda>t. t = s" and nx = nx and pv = pv and p = "-1"])
    show "length xs \<le> NBUF" using ring_size [OF assms(1)] assms(2) by (auto simp: NBUF_def)
    show "case ?body (int a) t of Inl e \<Rightarrow> True | Inr (s', b) \<Rightarrow> b \<or> s' = s" if "a \<in> set xs" "t = s" for a t
      using that xs [OF that(1)] ring_length [OF assms(1)] by (auto simp: brk_def cont_def)
    show "?step t (int a) = Inr (nx a)" if "a \<in> set xs" "t = s" for a t
      using that xs [OF that(1)] ring_length [OF assms(1)] by (simp add: nx_def links_of_def)
  qed (simp_all add: seg)
  also have "for_cells ?body xs s = (case List.find (\<lambda>i. P (bufs s ! i)) xs of None \<Rightarrow> Inr (s, -1) | Some i \<Rightarrow> rbind (Inr s) (\<lambda>s'. Inr (s', int i)))"
    by (rule scan_down) (use xs ring_length [OF assms(1)] in simp_all)
  finally show ?thesis by (simp add: h split: option.split)
qed

lemma ring_search_up:
  assumes "ring s ids"
  shows "for_links NBUF (\<lambda>s p. rbind (get_buf s p) (\<lambda>b. Inr (buf_next b)))
      (\<lambda>p s. rbind (get_buf s p) (\<lambda>b. if P b then brk s else cont s)) (head_next s) s =
    Inr (s, case List.find (\<lambda>i. P (bufs s ! i)) ids of None \<Rightarrow> -1 | Some i \<Rightarrow> int i)"
  by (rule ring_search [OF assms]) (intro disjI1 conjI refl)

lemma ring_search_down:
  assumes "ring s ids"
  shows "for_links NBUF (\<lambda>s p. rbind (get_buf s p) (\<lambda>b. Inr (buf_prev b)))
      (\<lambda>p s. rbind (get_buf s p) (\<lambda>b. if P b then brk s else cont s)) (head_prev s) s =
    Inr (s, case List.find (\<lambda>i. P (bufs s ! i)) (rev ids) of None \<Rightarrow> -1 | Some i \<Rightarrow> int i)"
  by (rule ring_search [OF assms]) (intro disjI2 conjI refl)

lemma truncate_upd:
  assumes "\<And>b. bdata.truncate (f b) = bdata.truncate b"
  shows "map bdata.truncate (xs[k := f (xs ! k)]) = map bdata.truncate xs"
  using assms by (cases "k < length xs") (simp_all add: map_update list_update_same_conv list_update_beyond)

lemma truncate_links:
  "bdata.truncate ((b :: buf)\<lparr>buf_next := v\<rparr>) = bdata.truncate b"
  "bdata.truncate ((b :: buf)\<lparr>buf_prev := v\<rparr>) = bdata.truncate b"
  by (simp_all add: bdata.truncate_def)

text \<open>Linking a buffer in at the front.\<close>

lemma link_front_spec:
  assumes "ring s ids" and "i < 30" and "i \<notin> set ids"
  shows "\<exists>l t. link_front s (int i) = Inr (s\<lparr>bufs := l, head_next := int i, head_prev := t\<rparr>) \<and>
    ring (s\<lparr>bufs := l, head_next := int i, head_prev := t\<rparr>) (i # ids) \<and> map bdata.truncate l = map bdata.truncate (bufs s)"
proof -
  have len: "length (bufs s) = 30" by (rule ring_length [OF assms(1)])
  have seg: "dseg (nexts s) (prevs s) (-1) ids (-1)" and d: "distinct ids" and h: "head_next s = headi ids (-1)" "head_prev s = lasti ids (-1)"
    using assms(1) by (simp_all add: ring_def)
  let ?b1 = "(bufs s)[i := (bufs s ! i)\<lparr>buf_next := headi ids (-1)\<rparr>]"
  let ?b2 = "(bufs s)[i := (bufs s ! i)\<lparr>buf_next := headi ids (-1), buf_prev := -1\<rparr>]"
  have pay2: "map bdata.truncate ?b2 = map bdata.truncate (bufs s)"
    by (rule truncate_upd [of "\<lambda>b. b\<lparr>buf_next := headi ids (-1), buf_prev := -1\<rparr>"]) (simp add: truncate_links)
  show ?thesis
  proof (cases ids)
    case Nil
    let ?s = "s\<lparr>bufs := ?b2, head_next := int i, head_prev := int i\<rparr>"
    have "link_front s (int i) = Inr ?s"
      using assms(2) len h Nil by (simp add: link_front_def set_next_def set_prev_def)
    moreover have "ring ?s (i # ids)" using Nil assms(2) len by (simp add: ring_def links_of_def)
    ultimately show ?thesis using pay2 by blast
  next
    case (Cons a as)
    have a: "a < 30" "a \<noteq> i" using Cons assms ring_bound [OF assms(1), of a] by auto
    let ?b3 = "?b2[a := (?b2 ! a)\<lparr>buf_prev := int i\<rparr>]"
    let ?s = "s\<lparr>bufs := ?b3, head_next := int i, head_prev := head_prev s\<rparr>"
    have "link_front s (int i) = Inr ?s"
      using assms(2) len h Cons a by (simp add: link_front_def set_next_def set_prev_def)
    moreover have "map bdata.truncate ?b3 = map bdata.truncate (bufs s)"
      using truncate_upd [of "\<lambda>b. b\<lparr>buf_prev := int i\<rparr>" ?b2 a] pay2 by (simp add: truncate_links)
    moreover have "ring ?s (i # ids)"
    proof -
      have "dseg (nexts ?s) (prevs ?s) (int p) as (-1) = dseg (nexts s) (prevs s) (int p) as (-1)" for p :: nat
      proof (rule dseg_links_cong)
        fix k assume "k \<in> set as"
        then have "k \<noteq> i" "k \<noteq> a" using assms(3) d Cons by auto
        then show "nexts ?s k = nexts s k \<and> prevs ?s k = prevs s k" by (simp add: links_of_def)
      qed
      moreover have "dseg (nexts s) (prevs s) (int a) as (-1)" "nexts s a = headi as (-1)" using seg Cons by simp_all
      ultimately show ?thesis using a assms len d h Cons ring_bound [OF assms(1)]
        by (auto simp: ring_def links_of_def nth_list_update)
    qed
    ultimately show ?thesis by blast
  qed
qed

subsection \<open>Releasing, finding and recycling a buffer\<close>

lemma without_cong:
  "nx i = nx' i \<Longrightarrow> nx_without nx xs ys i = nx_without nx' xs ys i"
  "pv i = pv' i \<Longrightarrow> pv_without pv xs ys i = pv_without pv' xs ys i"
  by (simp_all add: nx_without_def pv_without_def)

text \<open>Taking a buffer out of the middle of the ring.\<close>

lemma unlink_spec:
  assumes "ring s (xs @ w # ys)"
  shows "\<exists>l h t. rbind (set_prev s (buf_next (bufs s ! w)) (buf_prev (bufs s ! w))) (\<lambda>s2.
         rbind (get_buf s2 (int w)) (\<lambda>b. set_next s2 (buf_prev b) (buf_next b))) = Inr (s\<lparr>bufs := l, head_next := h, head_prev := t\<rparr>) \<and>
    ring (s\<lparr>bufs := l, head_next := h, head_prev := t\<rparr>) (xs @ ys) \<and> map bdata.truncate l = map bdata.truncate (bufs s)"
proof -
  have len: "length (bufs s) = 30" by (rule ring_length [OF assms])
  have seg: "dseg (nexts s) (prevs s) (-1) (xs @ w # ys) (-1)" and d: "distinct (xs @ w # ys)"
    and h: "head_next s = headi (xs @ w # ys) (-1)" "head_prev s = lasti (xs @ w # ys) (-1)"
    using assms by (simp_all add: ring_def)
  have at: "buf_prev (bufs s ! w) = lasti xs (-1)" "buf_next (bufs s ! w) = headi ys (-1)"
    using seg by (simp_all add: dseg_append links_of_def)
  have w: "w < 30" using ring_bound [OF assms, of w] by simp
  have xb: "\<And>i. i \<in> set xs \<Longrightarrow> i < 30" and yb: "\<And>i. i \<in> set ys \<Longrightarrow> i < 30" using ring_bound [OF assms] by auto
  let ?l1 = "if ys = [] then bufs s else (bufs s)[hd ys := (bufs s ! hd ys)\<lparr>buf_prev := lasti xs (-1)\<rparr>]"
  let ?t = "if ys = [] then lasti xs (-1) else head_prev s"
  let ?l2 = "if xs = [] then ?l1 else ?l1[last xs := (?l1 ! last xs)\<lparr>buf_next := headi ys (-1)\<rparr>]"
  let ?h = "if xs = [] then headi ys (-1) else head_next s"
  let ?s1 = "s\<lparr>bufs := ?l1, head_prev := ?t\<rparr>" and ?s2 = "s\<lparr>bufs := ?l2, head_next := ?h, head_prev := ?t\<rparr>"
  have hy: "headi ys (-1) = (if ys = [] then -1 else int (hd ys))" by (cases ys) simp_all
  have lx: "lasti xs (-1) = (if xs = [] then -1 else int (last xs))" by (simp add: lasti_def)
  have 1: "set_prev s (buf_next (bufs s ! w)) (buf_prev (bufs s ! w)) = Inr ?s1"
    using yb len by (cases ys) (simp_all add: at set_prev_def)
  have neq: "ys \<noteq> [] \<Longrightarrow> hd ys \<noteq> w" "xs \<noteq> [] \<Longrightarrow> last xs \<noteq> w" using d by (cases ys; auto)+
  have g: "get_buf ?s1 (int w) = Inr (bufs s ! w)" using w len neq by simp
  have 2: "set_next ?s1 (lasti xs (-1)) (headi ys (-1)) = Inr ?s2"
    using xb len by (cases "xs = []") (simp_all add: lx set_next_def)
  have run: "rbind (set_prev s (buf_next (bufs s ! w)) (buf_prev (bufs s ! w))) (\<lambda>s2.
         rbind (get_buf s2 (int w)) (\<lambda>b. set_next s2 (buf_prev b) (buf_next b))) = Inr ?s2"
    by (simp only: 1 rbind_Inr g) (simp only: at 2)
  have n2: "links_of buf_next ?l2 = nx_without (nexts s) xs ys" "links_of buf_prev ?l2 = pv_without (prevs s) xs ys"
    using xb yb len by (cases "xs = []"; cases "ys = []"; auto simp: nx_without_def pv_without_def links_of_def fun_eq_iff nth_list_update)+
  let ?nx = "\<lambda>i. if i \<in> set (xs @ w # ys) then nexts s i else int i"
    and ?pv = "\<lambda>i. if i \<in> set (xs @ w # ys) then prevs s i else int i"
  have eq: "dseg (nexts s) (prevs s) (-1) (xs @ w # ys) (-1) = dseg ?nx ?pv (-1) (xs @ w # ys) (-1)"
    by (rule dseg_links_cong) simp
  have "dll 30 ?nx ?pv (xs @ w # ys)"
    unfolding dll_def
  proof (intro conjI)
    show "distinct (xs @ w # ys)" by (rule d)
    show "set (xs @ w # ys) \<subseteq> {..<30}" using xb yb w by auto
    show "dseg ?nx ?pv (-1) (xs @ w # ys) (-1)" using seg eq by simp
  qed simp
  then have u: "dseg (nx_without ?nx xs ys) (pv_without ?pv xs ys) (-1) (xs @ ys) (-1)" by (rule dseg_unlink)
  have "dseg (nx_without (nexts s) xs ys) (pv_without (prevs s) xs ys) (-1) (xs @ ys) (-1) =
      dseg (nx_without ?nx xs ys) (pv_without ?pv xs ys) (-1) (xs @ ys) (-1)"
    by (intro dseg_links_cong conjI without_cong) simp_all
  with u have "dseg (nx_without (nexts s) xs ys) (pv_without (prevs s) xs ys) (-1) (xs @ ys) (-1)" by simp
  moreover have "?h = headi (xs @ ys) (-1)" using h by (cases xs) simp_all
  moreover have "?t = lasti (xs @ ys) (-1)" using h by (cases ys rule: rev_cases) (simp_all add: lasti_append)
  ultimately have "ring ?s2 (xs @ ys)" using n2 d xb yb len by (auto simp: ring_def)
  moreover have "map bdata.truncate ?l1 = map bdata.truncate (bufs s)"
    using truncate_upd [of "\<lambda>b. b\<lparr>buf_prev := lasti xs (-1)\<rparr>" "bufs s"] by (simp add: truncate_links)
  then have "map bdata.truncate ?l2 = map bdata.truncate (bufs s)"
    using truncate_upd [of "\<lambda>b. b\<lparr>buf_next := headi ys (-1)\<rparr>" ?l1] by (simp add: truncate_links)
  ultimately show ?thesis using run by blast
qed

subsection \<open>What the cache holds\<close>

definition content :: "'a bcache_scheme \<Rightarrow> bdata list" where
  "content s = map bdata.truncate (bufs s)"

definition cached :: "bdata list \<Rightarrow> int \<Rightarrow> nat \<Rightarrow> bool" where
  "cached c n i \<longleftrightarrow> i < length c \<and> dev (c ! i) = 1 \<and> blockno (c ! i) = n"

definition view_of :: "bdata list \<Rightarrow> (int \<Rightarrow> block) \<Rightarrow> int \<Rightarrow> block" where
  "view_of c d n = (case List.find (cached c n) [0..<length c] of Some i \<Rightarrow> data (c ! i) | None \<Rightarrow> d n)"

abbreviation view :: "'a bcache_scheme \<Rightarrow> int \<Rightarrow> block" where
  "view s \<equiv> view_of (content s) (memdisk s)"

definition pinned_of :: "bdata list \<Rightarrow> int set" where
  "pinned_of c = {n. \<exists>i. cached c n i \<and> B_DIRTY (c ! i)}"

abbreviation pinned :: "'a bcache_scheme \<Rightarrow> int set" where
  "pinned s \<equiv> pinned_of (content s)"

text \<open>The buffers in use, each by process \<open>p\<close> alone; a buffer not in use holds what is on the disk unless it is dirty.\<close>

definition holds_of :: "int \<Rightarrow> bdata list \<Rightarrow> (int \<Rightarrow> block) \<Rightarrow> nat set \<Rightarrow> bool" where
  "holds_of p c d H \<longleftrightarrow> H \<subseteq> {..<length c} \<and> (\<forall>i<length c.
     (i \<in> H \<longrightarrow> refcnt (c ! i) = 1 \<and> locked (block_lock (c ! i)) = 1 \<and> pid (block_lock (c ! i)) = p) \<and>
     (i \<notin> H \<longrightarrow> refcnt (c ! i) = 0 \<and> locked (block_lock (c ! i)) = 0 \<and>
        (dev (c ! i) = 1 \<longrightarrow> \<not> B_DIRTY (c ! i) \<longrightarrow> data (c ! i) = d (blockno (c ! i)))))"

abbreviation holds :: "'a bcache_scheme \<Rightarrow> nat set \<Rightarrow> bool" where
  "holds s H \<equiv> holds_of (curpid s) (content s) (memdisk s) H"

definition wf_content :: "bdata list \<Rightarrow> int \<Rightarrow> bool" where
  "wf_content c sz \<longleftrightarrow> length c = 30 \<and>
     (\<forall>i<30. (dev (c ! i) = 1 \<longrightarrow> B_VALID (c ! i) \<and> 0 \<le> blockno (c ! i) \<and> blockno (c ! i) < sz \<and> length (data (c ! i)) = BSIZE) \<and>
             (dev (c ! i) \<noteq> 1 \<longrightarrow> \<not> B_DIRTY (c ! i))) \<and>
     (\<forall>i<30. \<forall>j<30. dev (c ! i) = 1 \<longrightarrow> dev (c ! j) = 1 \<longrightarrow> blockno (c ! i) = blockno (c ! j) \<longrightarrow> i = j)"

definition wf_disk :: "(int \<Rightarrow> block) \<Rightarrow> int \<Rightarrow> bool" where
  "wf_disk d sz \<longleftrightarrow> (\<forall>n. 0 \<le> n \<longrightarrow> n < sz \<longrightarrow> length (d n) = BSIZE)"

definition bc_ok :: "'a bcache_scheme \<Rightarrow> bool" where
  "bc_ok s \<longleftrightarrow> (\<exists>ids. ring s ids \<and> set ids = {..<30}) \<and> wf_content (content s) (disksize s) \<and> wf_disk (memdisk s) (disksize s)"

text \<open>Nothing but the cache and the disk has changed.\<close>

definition same_rest :: "'a bcache_scheme \<Rightarrow> 'a bcache_scheme \<Rightarrow> bool" where
  "same_rest s s' \<longleftrightarrow> s' = s\<lparr>bufs := bufs s', head_next := head_next s', head_prev := head_prev s',
     memdisk := memdisk s', disk_writes := disk_writes s'\<rparr>"

lemma same_rest_refl [simp]: "same_rest s s"
  by (simp add: same_rest_def)

lemma same_restI: "same_rest s (s\<lparr>bufs := l, head_next := h, head_prev := t, memdisk := d, disk_writes := w\<rparr>)"
  "same_rest s (s\<lparr>bufs := l\<rparr>)" "same_rest s (s\<lparr>bufs := l, head_next := h, head_prev := t\<rparr>)"
  "same_rest s (s\<lparr>bufs := l, memdisk := d, disk_writes := w\<rparr>)"
  by (simp_all add: same_rest_def)

lemma same_rest_fields: "same_rest s s' \<Longrightarrow> disksize s' = disksize s \<and> curpid s' = curpid s \<and> bcache.more s' = bcache.more s"
  unfolding same_rest_def by (cases s, cases s') simp

lemma same_rest_iff: "same_rest s s' \<longleftrightarrow> disksize s' = disksize s \<and> curpid s' = curpid s \<and> bcache.more s' = bcache.more s"
  unfolding same_rest_def by (cases s, cases s') auto

lemma same_rest_trans: "same_rest s s' \<Longrightarrow> same_rest s' s'' \<Longrightarrow> same_rest s s''"
  by (simp add: same_rest_iff)

text \<open>Reading a field through \<open>content\<close>.\<close>

lemma content_nth [simp]:
  assumes "i < length (bufs s)"
  shows "dev (content s ! i) = dev (bufs s ! i)" "blockno (content s ! i) = blockno (bufs s ! i)"
    "B_VALID (content s ! i) = B_VALID (bufs s ! i)" "B_DIRTY (content s ! i) = B_DIRTY (bufs s ! i)"
    "refcnt (content s ! i) = refcnt (bufs s ! i)" "block_lock (content s ! i) = block_lock (bufs s ! i)"
    "data (content s ! i) = data (bufs s ! i)"
  using assms by (simp_all add: content_def bdata.truncate_def)

lemma length_content [simp]: "length (content s) = length (bufs s)"
  by (simp add: content_def)

lemma content_upd: "content (s\<lparr>bufs := (bufs s)[i := b]\<rparr>) = (content s)[i := bdata.truncate b]"
  by (simp add: content_def map_update)

lemma ok_length: "bc_ok s \<Longrightarrow> length (bufs s) = 30"
  by (auto simp: bc_ok_def ring_def)

lemma cached_unique: "wf_content c sz \<Longrightarrow> cached c n i \<Longrightarrow> cached c n j \<Longrightarrow> i = j"
  by (auto simp: wf_content_def cached_def)

lemma view_cached:
  assumes "wf_content c sz" and "cached c n i"
  shows "view_of c d n = data (c ! i)"
proof -
  have "i \<in> set [0..<length c]" using assms(2) by (simp add: cached_def)
  then obtain j where "List.find (cached c n) [0..<length c] = Some j" "cached c n j"
    using assms(2) by (cases "List.find (cached c n) [0..<length c]") (auto simp: find_None_iff find_Some_iff)
  then show ?thesis using cached_unique [OF assms(1) assms(2), of j] by (simp add: view_of_def)
qed

lemma view_uncached: "\<nexists>i. cached c n i \<Longrightarrow> view_of c d n = d n"
  by (auto simp: view_of_def find_Some_iff split: option.split)

lemma view_length:
  assumes "bc_ok s" and "0 \<le> n" and "n < disksize s"
  shows "length (view s n) = BSIZE"
proof (cases "\<exists>i. cached (content s) n i")
  case True
  then obtain i where i: "cached (content s) n i" by blast
  moreover have wf: "wf_content (content s) (disksize s)" using assms(1) by (simp add: bc_ok_def)
  ultimately show ?thesis using view_cached [OF wf i] by (auto simp: wf_content_def cached_def)
next
  case False
  then show ?thesis using assms by (simp add: view_uncached bc_ok_def wf_disk_def)
qed

text \<open>Changing one entry of the content while it stays the copy of the same block.\<close>

lemma cached_upd_same:
  "i < length c \<Longrightarrow> dev b = dev (c ! i) \<Longrightarrow> blockno b = blockno (c ! i) \<Longrightarrow> cached (c[i := b]) n j = cached c n j"
  by (auto simp: cached_def nth_list_update)

lemma upd_same:
  assumes "wf_content c sz" and "cached c n i" and "dev b = 1" and "blockno b = n" and "B_VALID b" and "length (data b) = BSIZE"
  shows "wf_content (c[i := b]) sz"
    and "view_of (c[i := b]) d = (view_of c d)(n := data b)"
    and "pinned_of (c[i := b]) = (if B_DIRTY b then insert n (pinned_of c) else pinned_of c - {n})"
proof -
  have i: "i < 30" "length c = 30" "dev (c ! i) = 1" "blockno (c ! i) = n" using assms(1,2) by (auto simp: cached_def wf_content_def)
  have same: "cached (c[i := b]) m j = cached c m j" for m j
    by (rule cached_upd_same) (use i assms(3,4) in auto)
  have old: "dev (c ! j) = 1 \<longrightarrow> B_VALID (c ! j) \<and> 0 \<le> blockno (c ! j) \<and> blockno (c ! j) < sz \<and> length (data (c ! j)) = BSIZE"
      "dev (c ! j) \<noteq> 1 \<longrightarrow> \<not> B_DIRTY (c ! j)" if "j < 30" for j
    using assms(1) that by (simp_all add: wf_content_def)
  have n: "0 \<le> n" "n < sz" using old(1) [OF i(1)] i by simp_all
  have each: "(dev (c[i := b] ! j) = 1 \<longrightarrow> B_VALID (c[i := b] ! j) \<and> 0 \<le> blockno (c[i := b] ! j) \<and> blockno (c[i := b] ! j) < sz \<and>
      length (data (c[i := b] ! j)) = BSIZE) \<and> (dev (c[i := b] ! j) \<noteq> 1 \<longrightarrow> \<not> B_DIRTY (c[i := b] ! j))" if "j < 30" for j
  proof (cases "j = i")
    case True
    then show ?thesis using i(1,2) n assms(3-6) by simp
  next
    case False
    then show ?thesis using old [OF that] by simp
  qed
  have inj: "j = k" if "j < 30" "k < 30" "dev (c[i := b] ! j) = 1" "dev (c[i := b] ! k) = 1"
      "blockno (c[i := b] ! j) = blockno (c[i := b] ! k)" for j k
  proof -
    have "cached (c[i := b]) (blockno (c[i := b] ! j)) j" "cached (c[i := b]) (blockno (c[i := b] ! j)) k"
      using that i by (simp_all add: cached_def)
    then show ?thesis using cached_unique [OF assms(1)] unfolding same by blast
  qed
  show wf: "wf_content (c[i := b]) sz"
    unfolding wf_content_def using each inj i(2) by simp
  show "view_of (c[i := b]) d = (view_of c d)(n := data b)"
  proof
    fix m
    show "view_of (c[i := b]) d m = ((view_of c d)(n := data b)) m"
    proof (cases "\<exists>j. cached c m j")
      case True
      then obtain j where j: "cached c m j" by blast
      have "view_of (c[i := b]) d m = data (c[i := b] ! j)" by (rule view_cached [OF wf]) (use j same in simp)
      moreover have "m = n \<longleftrightarrow> j = i" using j assms(2) cached_unique [OF assms(1)] by (auto simp: cached_def)
      ultimately show ?thesis using view_cached [OF assms(1) j] i by auto
    next
      case False
      then have "m \<noteq> n" using assms(2) by auto
      then show ?thesis using False same by (simp add: view_uncached)
    qed
  qed
  show "pinned_of (c[i := b]) = (if B_DIRTY b then insert n (pinned_of c) else pinned_of c - {n})"
  proof (rule set_eqI)
    fix m
    have "m \<in> pinned_of (c[i := b]) \<longleftrightarrow> (if m = n then B_DIRTY b else m \<in> pinned_of c)"
    proof (cases "m = n")
      case True
      have "cached c n j \<Longrightarrow> j = i" for j using cached_unique [OF assms(1,2), of j] by blast
      then show ?thesis using True assms(2) i unfolding pinned_of_def same mem_Collect_eq by (metis nth_list_update_eq)
    next
      case False
      then have "cached c m j \<Longrightarrow> i \<noteq> j" for j using i by (auto simp: cached_def)
      then have "cached c m j \<and> B_DIRTY (c[i := b] ! j) \<longleftrightarrow> cached c m j \<and> B_DIRTY (c ! j)" for j by auto
      then show ?thesis using False by (simp add: pinned_of_def same)
    qed
    then show "m \<in> pinned_of (c[i := b]) \<longleftrightarrow> m \<in> (if B_DIRTY b then insert n (pinned_of c) else pinned_of c - {n})"
      by (cases "m = n"; cases "B_DIRTY b") simp_all
  qed
qed

subsection \<open>The operations\<close>

text \<open>A buffer that is neither pinned nor in use exists when pins and holds leave one over.\<close>

lemma find_none_card:
  assumes "wf_content c sz" and "holds_of p c d H" and "finite (pinned_of c)"
    and "card (pinned_of c) + card H < 30"
  shows "\<exists>i<30. refcnt (c ! i) = 0 \<and> \<not> B_DIRTY (c ! i)"
proof (rule ccontr)
  assume none: "\<not> ?thesis"
  have len: "length c = 30" using assms(1) by (simp add: wf_content_def)
  let ?D = "{i. i < 30 \<and> B_DIRTY (c ! i)}"
  have dirty: "dev (c ! i) = 1" if "i \<in> ?D" for i using that assms(1) by (auto simp: wf_content_def)
  have "inj_on (\<lambda>i. blockno (c ! i)) ?D"
    using dirty assms(1) by (auto simp: inj_on_def wf_content_def)
  moreover have "(\<lambda>i. blockno (c ! i)) ` ?D \<subseteq> pinned_of c"
    using dirty len by (auto simp: pinned_of_def cached_def)
  ultimately have "card ?D \<le> card (pinned_of c)" using assms(3) by (metis card_inj_on_le)
  moreover have "{..<30} \<subseteq> ?D \<union> H"
  proof
    fix i :: nat assume "i \<in> {..<30}"
    then show "i \<in> ?D \<union> H" using none assms(2) len by (auto simp: holds_of_def)
  qed
  moreover have fin: "finite H" using assms(2) by (auto simp: holds_of_def intro: finite_subset)
  ultimately have "30 \<le> card ?D + card H"
    using card_mono [of "?D \<union> H" "{..<30}"] card_Un_le [of ?D H] by simp
  then show False using \<open>card ?D \<le> card (pinned_of c)\<close> assms(4) by simp
qed

lemma finite_pinned [simp]: "finite (pinned_of c)"
proof -
  have "pinned_of c \<subseteq> (\<lambda>i. blockno (c ! i)) ` {..<length c}" by (auto simp: pinned_of_def cached_def)
  then show ?thesis by (rule finite_subset) simp
qed

lemma find_all:
  assumes "set xs = {..<30}"
  shows "List.find P xs = Some i \<Longrightarrow> i < 30 \<and> P i" and "k < 30 \<Longrightarrow> P k \<Longrightarrow> \<exists>i. List.find P xs = Some i"
    and "(\<And>k. k < 30 \<Longrightarrow> \<not> P k) \<Longrightarrow> List.find P xs = None"
proof -
  show "List.find P xs = Some i \<Longrightarrow> i < 30 \<and> P i"
    using assms by (metis find_Some_iff lessThan_iff nth_mem)
  show "k < 30 \<Longrightarrow> P k \<Longrightarrow> \<exists>i. List.find P xs = Some i"
    using assms by (metis find_None_iff lessThan_iff not_None_eq)
  show "(\<And>k. k < 30 \<Longrightarrow> \<not> P k) \<Longrightarrow> List.find P xs = None"
    using assms by (metis find_None_iff lessThan_iff)
qed

lemma lock_eq: "(lk :: sleeplock)\<lparr>locked := a, pid := p\<rparr> = \<lparr>locked = a, pid = p\<rparr>"
  by simp

text \<open>\<open>bget\<close> on a cached block takes its buffer; otherwise it recycles the least recently used free one.\<close>

lemma bget_hit:
  assumes "bc_ok s" and "holds s H" and "cached (content s) n i" and "i \<notin> H"
  shows "bget s 1 n = Inr (s\<lparr>bufs := (bufs s)[i := (bufs s ! i)\<lparr>refcnt := 1, block_lock := \<lparr>locked = 1, pid = curpid s\<rparr>\<rparr>]\<rparr>, int i)"
proof -
  have len: "length (bufs s) = 30" by (rule ok_length [OF assms(1)])
  have i: "i < 30" using assms(3) len by (simp add: cached_def)
  obtain ids where ids: "ring s ids" "set ids = {..<30}" using assms(1) by (auto simp: bc_ok_def)
  let ?P = "\<lambda>j. dev (bufs s ! j) = 1 \<and> blockno (bufs s ! j) = n"
  have hit: "?P i" using assms(3) i len by (simp add: cached_def)
  obtain j where j: "List.find ?P ids = Some j" using find_all(2) [OF ids(2) i, of ?P] hit by blast
  have "j < 30 \<and> ?P j" by (rule find_all(1) [OF ids(2) j])
  then have "cached (content s) n j" using len by (simp add: cached_def)
  then have ji: "j = i" using assms(1,3) cached_unique unfolding bc_ok_def by blast
  have free: "refcnt (bufs s ! i) = 0" "locked (block_lock (bufs s ! i)) = 0"
    using assms(2,4) i len by (auto simp: holds_of_def)
  show ?thesis
    unfolding bget_def ring_search_up [OF ids(1)] j ji
    using i len free by (simp add: lock_buf_def acquiresleep_def lock_eq)
qed

lemma bget_miss_lru:
  assumes "bc_ok s" and "holds s H" and "\<nexists>i. cached (content s) n i" and "card (pinned s) + card H < 30"
    and ids: "ring s ids" "set ids = {..<30}"
  shows "\<exists>i. bget s 1 n = Inr (s\<lparr>bufs := (bufs s)[i := (bufs s ! i)\<lparr>dev := 1, blockno := n, B_VALID := False,
      B_DIRTY := False, refcnt := 1, block_lock := \<lparr>locked = 1, pid = curpid s\<rparr>\<rparr>]\<rparr>, int i) \<and>
    i < 30 \<and> i \<notin> H \<and> \<not> B_DIRTY (content s ! i) \<and>
    List.find (\<lambda>j. refcnt (bufs s ! j) = 0 \<and> \<not> B_DIRTY (bufs s ! j)) (rev ids) = Some i"
proof -
  have len: "length (bufs s) = 30" by (rule ok_length [OF assms(1)])
  have none: "List.find (\<lambda>j. dev (bufs s ! j) = 1 \<and> blockno (bufs s ! j) = n) ids = None"
    by (rule find_all(3) [OF ids(2)]) (use assms(3) len in \<open>auto simp: cached_def\<close>)
  let ?P = "\<lambda>j. refcnt (bufs s ! j) = 0 \<and> \<not> B_DIRTY (bufs s ! j)"
  have "\<exists>i<30. refcnt (content s ! i) = 0 \<and> \<not> B_DIRTY (content s ! i)"
    using assms(1,2,4) by (intro find_none_card [where sz = "disksize s" and p = "curpid s" and d = "memdisk s" and H = H]) (auto simp: bc_ok_def)
  then obtain k where k: "k < 30" "?P k" using len by auto
  have rev: "set (rev ids) = {..<30}" using ids(2) by simp
  obtain i where i: "List.find ?P (rev ids) = Some i" using find_all(2) [OF rev k(1), of ?P] k(2) by blast
  have iP: "i < 30" "?P i" using find_all(1) [OF rev i] by blast+
  have iH: "i \<notin> H" using iP assms(2) len by (auto simp: holds_of_def)
  then have free: "locked (block_lock (bufs s ! i)) = 0" using iP(1) assms(2) len by (auto simp: holds_of_def)
  have "bget s 1 n = Inr (s\<lparr>bufs := (bufs s)[i := (bufs s ! i)\<lparr>dev := 1, blockno := n, B_VALID := False,
      B_DIRTY := False, refcnt := 1, block_lock := \<lparr>locked = 1, pid = curpid s\<rparr>\<rparr>]\<rparr>, int i)"
    unfolding bget_def ring_search_up [OF ids(1)] none
    using iP(1) len free by (simp add: ring_search_down [OF ids(1)] i lock_buf_def acquiresleep_def lock_eq)
  then show ?thesis using iP iH len i by auto
qed

lemma bget_miss:
  assumes "bc_ok s" and "holds s H" and "\<nexists>i. cached (content s) n i" and "card (pinned s) + card H < 30"
  shows "\<exists>i. bget s 1 n = Inr (s\<lparr>bufs := (bufs s)[i := (bufs s ! i)\<lparr>dev := 1, blockno := n, B_VALID := False,
      B_DIRTY := False, refcnt := 1, block_lock := \<lparr>locked = 1, pid = curpid s\<rparr>\<rparr>]\<rparr>, int i) \<and>
    i < 30 \<and> i \<notin> H \<and> \<not> B_DIRTY (content s ! i)"
proof -
  obtain ids where "ring s ids" "set ids = {..<30}" using assms(1) by (auto simp: bc_ok_def)
  then show ?thesis using bget_miss_lru [OF assms] by blast
qed

text \<open>A free clean buffer taken over for another block.\<close>

lemma upd_new:
  assumes "wf_content c sz" and "\<nexists>j. cached c n j" and "i < 30" and "\<not> B_DIRTY (c ! i)"
    and "dev (c ! i) = 1 \<Longrightarrow> data (c ! i) = d (blockno (c ! i))"
    and "dev b = 1" and "blockno b = n" and "B_VALID b" and "\<not> B_DIRTY b" and "data b = d n" and "length (d n) = BSIZE" and "0 \<le> n" and "n < sz"
  shows "wf_content (c[i := b]) sz" and "view_of (c[i := b]) d = view_of c d" and "pinned_of (c[i := b]) = pinned_of c"
    and "cached (c[i := b]) n i"
proof -
  have len: "length c = 30" using assms(1) by (simp add: wf_content_def)
  have at: "cached (c[i := b]) m j \<longleftrightarrow> (if j = i then m = n else cached c m j)" for m j
    using assms(3,6,7) len by (auto simp: cached_def)
  show ci: "cached (c[i := b]) n i" by (simp add: at)
  have old: "dev (c ! j) = 1 \<longrightarrow> B_VALID (c ! j) \<and> 0 \<le> blockno (c ! j) \<and> blockno (c ! j) < sz \<and> length (data (c ! j)) = BSIZE"
      "dev (c ! j) \<noteq> 1 \<longrightarrow> \<not> B_DIRTY (c ! j)" if "j < 30" for j
    using assms(1) that by (simp_all add: wf_content_def)
  have each: "(dev (c[i := b] ! j) = 1 \<longrightarrow> B_VALID (c[i := b] ! j) \<and> 0 \<le> blockno (c[i := b] ! j) \<and> blockno (c[i := b] ! j) < sz \<and>
      length (data (c[i := b] ! j)) = BSIZE) \<and> (dev (c[i := b] ! j) \<noteq> 1 \<longrightarrow> \<not> B_DIRTY (c[i := b] ! j))" if "j < 30" for j
  proof (cases "j = i")
    case True
    then show ?thesis using assms(3,6-13) len by simp
  next
    case False
    then show ?thesis using old [OF that] by simp
  qed
  have uniq: "j = k" if "cached (c[i := b]) m j" "cached (c[i := b]) m k" for m j k
    using that assms(2) cached_unique [OF assms(1), of m j k] unfolding at by (metis (full_types))
  have inj: "j = k" if "j < 30" "k < 30" "dev (c[i := b] ! j) = 1" "dev (c[i := b] ! k) = 1"
      "blockno (c[i := b] ! j) = blockno (c[i := b] ! k)" for j k
    by (rule uniq [of "blockno (c[i := b] ! j)"]) (use that len in \<open>simp_all add: cached_def\<close>)
  show wf: "wf_content (c[i := b]) sz"
    unfolding wf_content_def using each inj len by simp
  show "view_of (c[i := b]) d = view_of c d"
  proof
    fix m
    consider "m = n" | j where "m \<noteq> n" "j \<noteq> i" "cached c m j" | "m \<noteq> n" "cached c m i" | "m \<noteq> n" "\<nexists>j. cached c m j" by metis
    then show "view_of (c[i := b]) d m = view_of c d m"
    proof cases
      case 1
      then show ?thesis using view_cached [OF wf ci] view_uncached [OF assms(2)] assms(3,10) len by simp
    next
      case 2
      then have "cached (c[i := b]) m j" by (simp add: at)
      then show ?thesis using view_cached [OF wf] view_cached [OF assms(1) 2(3)] 2(2) by simp
    next
      case 3
      then have "\<nexists>j. cached (c[i := b]) m j" using cached_unique [OF assms(1) 3(2)] unfolding at by metis
      moreover have "data (c ! i) = d m" using 3(2) assms(5) by (auto simp: cached_def)
      ultimately show ?thesis using view_cached [OF assms(1) 3(2)] by (simp add: view_uncached)
    next
      case 4
      then have "\<nexists>j. cached (c[i := b]) m j" by (simp add: at)
      then show ?thesis using 4 by (simp add: view_uncached)
    qed
  qed
  have "cached (c[i := b]) m j \<and> B_DIRTY (c[i := b] ! j) \<longleftrightarrow> cached c m j \<and> B_DIRTY (c ! j)" for m j
    using assms(3,4,9) len by (cases "j = i") (auto simp: at)
  then show "pinned_of (c[i := b]) = pinned_of c" by (simp add: pinned_of_def)
qed

text \<open>The effect of an update of one buffer that keeps the links, in terms of \<open>content\<close>.\<close>

lemma ok_upd_buf:
  assumes "bc_ok s" and "i < 30" and "buf_next b = buf_next (bufs s ! i)" and "buf_prev b = buf_prev (bufs s ! i)"
    and "wf_content ((content s)[i := bdata.truncate b]) (disksize s)" and "wf_disk d (disksize s)"
  shows "bc_ok (s\<lparr>bufs := (bufs s)[i := b], memdisk := d, disk_writes := w\<rparr>)"
proof -
  obtain ids where ids: "ring s ids" "set ids = {..<30}" using assms(1) by (auto simp: bc_ok_def)
  have len: "length (bufs s) = 30" by (rule ok_length [OF assms(1)])
  have "ring (s\<lparr>bufs := (bufs s)[i := b], memdisk := d, disk_writes := w\<rparr>) ids"
    by (rule ring_same_links [OF ids(1), of "(bufs s)[i := b]"]) (use assms(2-4) len in \<open>auto simp: nth_list_update\<close>)
  then show ?thesis using ids(2) assms(5,6) unfolding bc_ok_def by (auto simp: content_def map_update)
qed

lemma bread_spec:
  assumes "bc_ok s" and "holds s H" and "0 \<le> n" and "n < disksize s" and "\<forall>i\<in>H. \<not> cached (content s) n i"
    and "(\<exists>i. cached (content s) n i) \<or> card (pinned s) + card H < 30"
  shows "\<exists>i b. bread s 1 n = Inr (s\<lparr>bufs := (bufs s)[i := b]\<rparr>, int i) \<and> i < 30 \<and> i \<notin> H \<and>
    bc_ok (s\<lparr>bufs := (bufs s)[i := b]\<rparr>) \<and> holds (s\<lparr>bufs := (bufs s)[i := b]\<rparr>) (insert i H) \<and>
    cached (content (s\<lparr>bufs := (bufs s)[i := b]\<rparr>)) n i \<and>
    view (s\<lparr>bufs := (bufs s)[i := b]\<rparr>) = view s \<and> pinned (s\<lparr>bufs := (bufs s)[i := b]\<rparr>) = pinned s"
proof (cases "\<exists>i. cached (content s) n i")
  case True
  then obtain i where i: "cached (content s) n i" by blast
  then have iH: "i \<notin> H" using assms(5) by blast
  have len: "length (bufs s) = 30" by (rule ok_length [OF assms(1)])
  have wf: "wf_content (content s) (disksize s)" "wf_disk (memdisk s) (disksize s)" using assms(1) by (simp_all add: bc_ok_def)
  have i30: "i < 30" "dev (bufs s ! i) = 1" "blockno (bufs s ! i) = n" using i len by (auto simp: cached_def)
  have v: "B_VALID (bufs s ! i)" "length (data (bufs s ! i)) = BSIZE" using wf(1) i30 len by (auto simp: wf_content_def)
  let ?b = "(bufs s ! i)\<lparr>refcnt := 1, block_lock := \<lparr>locked = 1, pid = curpid s\<rparr>\<rparr>"
  let ?s = "s\<lparr>bufs := (bufs s)[i := ?b]\<rparr>"
  have c: "content ?s = (content s)[i := bdata.truncate ?b]" by (rule content_upd)
  have run: "bread s 1 n = Inr (?s, int i)"
    using bget_hit [OF assms(1,2) i iH] i30 len v by (simp add: bread_def)
  have t: "dev (bdata.truncate ?b) = 1" "blockno (bdata.truncate ?b) = n" "B_VALID (bdata.truncate ?b)"
      "length (data (bdata.truncate ?b)) = BSIZE" using i30 v by (simp_all add: bdata.truncate_def)
  note upd = upd_same [OF wf(1) i t]
  have dv: "data (bdata.truncate ?b) = view s n" using view_cached [OF wf(1) i] i30 len by (simp add: bdata.truncate_def)
  have view: "view ?s = view s" unfolding c upd(2) dv by simp
  have "B_DIRTY (bdata.truncate ?b) = B_DIRTY (content s ! i)" using i30 len by (simp add: bdata.truncate_def)
  moreover have "B_DIRTY (content s ! i) \<longleftrightarrow> n \<in> pinned s"
    unfolding pinned_of_def mem_Collect_eq using i cached_unique [OF wf(1) i] by blast
  ultimately have "B_DIRTY (bdata.truncate ?b) \<longleftrightarrow> n \<in> pinned s" by simp
  then have pin: "pinned ?s = pinned s" unfolding c upd(3) by (cases "n \<in> pinned s") (simp_all add: insert_absorb)
  have "bc_ok (?s\<lparr>memdisk := memdisk s, disk_writes := disk_writes s\<rparr>)"
    using ok_upd_buf [OF assms(1) i30(1), of ?b "memdisk s" "disk_writes s"] upd(1) wf(2) by simp
  then have ok: "bc_ok ?s" by simp
  have "holds ?s (insert i H)"
    using assms(2) i30 len unfolding holds_of_def c by (auto simp: nth_list_update bdata.truncate_def)
  moreover have "cached (content ?s) n i" using i30 len unfolding c by (simp add: cached_def bdata.truncate_def)
  ultimately show ?thesis using run i30(1) iH ok view pin by blast
next
  case False
  have len: "length (bufs s) = 30" by (rule ok_length [OF assms(1)])
  have wf: "wf_content (content s) (disksize s)" "wf_disk (memdisk s) (disksize s)" using assms(1) by (simp_all add: bc_ok_def)
  obtain i where get: "bget s 1 n = Inr (s\<lparr>bufs := (bufs s)[i := (bufs s ! i)\<lparr>dev := 1, blockno := n, B_VALID := False,
      B_DIRTY := False, refcnt := 1, block_lock := \<lparr>locked = 1, pid = curpid s\<rparr>\<rparr>]\<rparr>, int i)"
    and i: "i < 30" "i \<notin> H" "\<not> B_DIRTY (content s ! i)" using bget_miss [OF assms(1,2) False] assms(6) False by blast
  let ?b = "(bufs s ! i)\<lparr>dev := 1, blockno := n, B_VALID := True, B_DIRTY := False, refcnt := 1,
      block_lock := \<lparr>locked = 1, pid = curpid s\<rparr>, data := memdisk s n\<rparr>"
  let ?s = "s\<lparr>bufs := (bufs s)[i := ?b]\<rparr>"
  have c: "content ?s = (content s)[i := bdata.truncate ?b]" by (rule content_upd)
  have eq: "(bufs s ! i)\<lparr>dev := 1, blockno := n, B_DIRTY := False, refcnt := 1, block_lock := \<lparr>locked = 1, pid = curpid s\<rparr>,
      data := memdisk s n, B_VALID := True\<rparr> = ?b" by (cases "bufs s ! i") simp
  have run: "bread s 1 n = Inr (?s, int i)"
    unfolding eq [symmetric] using i len assms(3,4) unfolding bread_def get by (simp add: iderw_def holdingsleep_def)
  have d: "length (memdisk s n) = BSIZE" using wf(2) assms(3,4) by (simp add: wf_disk_def)
  have clean: "dev (content s ! i) = 1 \<Longrightarrow> data (content s ! i) = memdisk s (blockno (content s ! i))"
    using assms(2) i len by (auto simp: holds_of_def)
  have upd: "wf_content ((content s)[i := bdata.truncate ?b]) (disksize s)"
      "view_of ((content s)[i := bdata.truncate ?b]) (memdisk s) = view s"
      "pinned_of ((content s)[i := bdata.truncate ?b]) = pinned s"
      "cached ((content s)[i := bdata.truncate ?b]) n i"
    by (rule upd_new [OF wf(1) False i(1,3), where d = "memdisk s" and b = "bdata.truncate ?b"];
        use d assms(3,4) clean in \<open>simp add: bdata.truncate_def\<close>)+
  have "bc_ok (?s\<lparr>memdisk := memdisk s, disk_writes := disk_writes s\<rparr>)"
    using ok_upd_buf [OF assms(1) i(1), of ?b "memdisk s" "disk_writes s"] upd(1) wf(2) by simp
  then have ok: "bc_ok ?s" by simp
  have "holds ?s (insert i H)"
    using assms(2) i len unfolding holds_of_def c by (auto simp: nth_list_update bdata.truncate_def)
  then show ?thesis using run i ok upd by (auto simp: c)
qed

text \<open>Changing the copy held of block \<open>n\<close>: its data, and its dirty flag.\<close>

lemma hold_upd:
  assumes "bc_ok s" and "holds s H" and "i \<in> H" and "cached (content s) n i"
    and "length d = BSIZE" and "disk' = memdisk s \<or> disk' = (memdisk s)(n := d)"
  shows "let s' = s\<lparr>bufs := (bufs s)[i := (bufs s ! i)\<lparr>B_DIRTY := b, data := d\<rparr>], memdisk := disk', disk_writes := w\<rparr>
    in bc_ok s' \<and> holds s' H \<and> cached (content s') n i \<and> view s' = (view s)(n := d) \<and>
       pinned s' = (if b then insert n (pinned s) else pinned s - {n}) \<and> (\<forall>j m. cached (content s') m j = cached (content s) m j)"
proof -
  have len: "length (bufs s) = 30" by (rule ok_length [OF assms(1)])
  have wf: "wf_content (content s) (disksize s)" "wf_disk (memdisk s) (disksize s)" using assms(1) by (simp_all add: bc_ok_def)
  have i30: "i < 30" "dev (bufs s ! i) = 1" "blockno (bufs s ! i) = n" using assms(4) len by (auto simp: cached_def)
  have v: "B_VALID (bufs s ! i)" "0 \<le> n" "n < disksize s" using wf(1) i30 len by (auto simp: wf_content_def)
  let ?b = "(bufs s ! i)\<lparr>B_DIRTY := b, data := d\<rparr>"
  let ?s = "s\<lparr>bufs := (bufs s)[i := ?b], memdisk := disk', disk_writes := w\<rparr>"
  have c: "content ?s = (content s)[i := bdata.truncate ?b]" by (simp add: content_def map_update)
  have t: "dev (bdata.truncate ?b) = 1" "blockno (bdata.truncate ?b) = n" "B_VALID (bdata.truncate ?b)"
      "length (data (bdata.truncate ?b)) = BSIZE" using i30 v assms(5) by (simp_all add: bdata.truncate_def)
  note upd = upd_same [OF wf(1) assms(4) t]
  have disk: "wf_disk disk' (disksize s)" using assms(5,6) wf(2) by (auto simp: wf_disk_def)
  have ok: "bc_ok ?s" by (rule ok_upd_buf [OF assms(1) i30(1)]) (use upd(1) disk in simp_all)
  have same: "cached (content ?s) m j = cached (content s) m j" for m j
    unfolding c by (rule cached_upd_same) (use i30 len in \<open>simp_all add: bdata.truncate_def\<close>)
  have "view_of (content s) disk' m = view s m" if "m \<noteq> n" for m
    using assms(6) that by (auto simp: view_of_def split: option.split)
  moreover have "(view_of (content s) disk')(n := d) = (view s)(n := d)" using calculation by (auto simp: fun_eq_iff)
  ultimately have view: "view ?s = (view s)(n := d)" using upd(2) [of disk'] by (simp add: c bdata.truncate_def)
  have pin: "pinned ?s = (if b then insert n (pinned s) else pinned s - {n})" unfolding c upd(3) by (simp add: bdata.truncate_def)
  have other: "blockno (bufs s ! j) \<noteq> n" if "j < 30" "j \<noteq> i" "dev (bufs s ! j) = 1" for j
    using that wf(1) i30 len by (auto simp: wf_content_def)
  have "holds ?s H"
    unfolding holds_of_def c
  proof (intro conjI allI impI)
    show "H \<subseteq> {..<length ((content s)[i := bdata.truncate ?b])}" using assms(2) by (simp add: holds_of_def)
  next
    fix j assume "j < length ((content s)[i := bdata.truncate ?b])"
    then have j: "j < 30" using len by simp
    let ?c = "(content s)[i := bdata.truncate ?b] ! j"
    show "refcnt ?c = 1" "locked (block_lock ?c) = 1" "pid (block_lock ?c) = curpid ?s" if "j \<in> H"
      using that assms(2) j len by (cases "j = i"; simp add: holds_of_def bdata.truncate_def)+
    show "refcnt ?c = 0" "locked (block_lock ?c) = 0" if "j \<notin> H"
      using that assms(2,3) j len by (cases "j = i"; auto simp: holds_of_def)+
    show "data ?c = memdisk ?s (blockno ?c)" if "j \<notin> H" "dev ?c = 1" "\<not> B_DIRTY ?c"
    proof -
      have ji: "j \<noteq> i" using that(1) assms(3) by blast
      then have "data (bufs s ! j) = memdisk s (blockno (bufs s ! j))" using that assms(2) j len by (auto simp: holds_of_def)
      moreover have "blockno (bufs s ! j) \<noteq> n" using other [OF j ji] that(2) ji j len by simp
      ultimately show ?thesis using ji j len assms(6) by auto
    qed
  qed
  then show ?thesis using ok same assms(4) view pin by (simp add: Let_def)
qed

lemma held_buf:
  assumes "bc_ok s" and "holds s H" and "i \<in> H"
  shows "i < 30" "refcnt (bufs s ! i) = 1" "block_lock (bufs s ! i) = \<lparr>locked = 1, pid = curpid s\<rparr>"
  using assms ok_length [OF assms(1)] by (auto simp: holds_of_def)

text \<open>\<open>bwrite\<close> writes the copy out and unpins it.\<close>

lemma bwrite_spec:
  assumes "bc_ok s" and "holds s H" and "i \<in> H" and "cached (content s) n i"
  shows "\<exists>s'. bwrite s (int i) = Inr s' \<and> same_rest s s' \<and> bc_ok s' \<and> holds s' H \<and>
    memdisk s' = (memdisk s)(n := view s n) \<and> disk_writes s' = disk_writes s @ [(n, view s n)] \<and>
    view s' = view s \<and> pinned s' = pinned s - {n} \<and> (\<forall>j m. cached (content s') m j = cached (content s) m j)"
proof -
  have len: "length (bufs s) = 30" by (rule ok_length [OF assms(1)])
  have wf: "wf_content (content s) (disksize s)" using assms(1) by (simp add: bc_ok_def)
  have i30: "i < 30" "dev (bufs s ! i) = 1" "blockno (bufs s ! i) = n" using assms(4) len by (auto simp: cached_def)
  have v: "B_VALID (bufs s ! i)" "0 \<le> n" "n < disksize s" "length (data (bufs s ! i)) = BSIZE"
    using wf i30 len by (auto simp: wf_content_def)
  have dat: "data (bufs s ! i) = view s n" using view_cached [OF wf assms(4)] i30 len by simp
  let ?s = "s\<lparr>bufs := (bufs s)[i := (bufs s ! i)\<lparr>B_DIRTY := False, data := view s n\<rparr>],
    memdisk := (memdisk s)(n := view s n), disk_writes := disk_writes s @ [(n, view s n)]\<rparr>"
  have eq: "(bufs s ! i)\<lparr>B_DIRTY := False, B_VALID := True\<rparr> = (bufs s ! i)\<lparr>B_DIRTY := False, data := view s n\<rparr>"
    using v(1) dat by (cases "bufs s ! i") simp
  have "bwrite s (int i) = Inr ?s"
    unfolding eq [symmetric]
    using held_buf [OF assms(1-3)] i30 v len dat by (simp add: bwrite_def iderw_def holdingsleep_def)
  moreover have "same_rest s ?s" by (rule same_restI)
  moreover have "length (view s n) = BSIZE" using v dat by simp
  ultimately show ?thesis
    using hold_upd [OF assms, where d = "view s n" and disk' = "(memdisk s)(n := view s n)" and b = False
      and w = "disk_writes s @ [(n, view s n)]"]
    by (simp add: Let_def)
qed

text \<open>\<open>brelse\<close> gives the buffer back; when nobody uses it any more it becomes the most recently used one.\<close>

lemma brelse_content:
  assumes "bc_ok s" and "holds s H" and "i \<in> H" and ids: "ring s ids" "set ids = {..<30}"
  shows "\<exists>l h t. brelse s (int i) = Inr (s\<lparr>bufs := l, head_next := h, head_prev := t\<rparr>) \<and>
    map bdata.truncate l = (content s)[i := (content s ! i)\<lparr>refcnt := 0, block_lock := \<lparr>locked = 0, pid = 0\<rparr>\<rparr>] \<and>
    ring (s\<lparr>bufs := l, head_next := h, head_prev := t\<rparr>) (i # remove1 i ids)"
proof -
  have len: "length (bufs s) = 30" by (rule ok_length [OF assms(1)])
  have b: "i < 30" "refcnt (bufs s ! i) = 1" "block_lock (bufs s ! i) = \<lparr>locked = 1, pid = curpid s\<rparr>"
    using held_buf [OF assms(1-3)] by simp_all
  obtain xs ys where xy: "ids = xs @ i # ys" using ids(2) b(1) by (metis in_set_conv_decomp lessThan_iff)
  let ?b = "(bufs s ! i)\<lparr>block_lock := \<lparr>locked = 0, pid = 0\<rparr>, refcnt := 0\<rparr>"
  let ?s1 = "s\<lparr>bufs := (bufs s)[i := ?b]\<rparr>"
  have "ring ?s1 ids"
    by (rule ring_same_links [OF ids(1), of "(bufs s)[i := ?b]"]) (use len b(1) in \<open>auto simp: nth_list_update\<close>)
  then have r1: "ring ?s1 (xs @ i # ys)" using xy by simp
  obtain l h t where u: "rbind (set_prev ?s1 (buf_next (bufs ?s1 ! i)) (buf_prev (bufs ?s1 ! i))) (\<lambda>s2.
         rbind (get_buf s2 (int i)) (\<lambda>b. set_next s2 (buf_prev b) (buf_next b))) = Inr (?s1\<lparr>bufs := l, head_next := h, head_prev := t\<rparr>)"
    and ru: "ring (?s1\<lparr>bufs := l, head_next := h, head_prev := t\<rparr>) (xs @ ys)" and pu: "map bdata.truncate l = map bdata.truncate (bufs ?s1)"
    using unlink_spec [OF r1] by blast
  let ?s3 = "?s1\<lparr>bufs := l, head_next := h, head_prev := t\<rparr>"
  have i: "i \<notin> set (xs @ ys)" using ids(1) xy by (auto simp: ring_def)
  obtain l' t' where f: "link_front ?s3 (int i) = Inr (?s3\<lparr>bufs := l', head_next := int i, head_prev := t'\<rparr>)"
    and rf: "ring (?s3\<lparr>bufs := l', head_next := int i, head_prev := t'\<rparr>) (i # xs @ ys)" and pf: "map bdata.truncate l' = map bdata.truncate (bufs ?s3)"
    using link_front_spec [OF ru b(1) i] by blast
  have "rbind (set_prev ?s1 (buf_next ?b) (buf_prev ?b)) (\<lambda>s2. rbind (get_buf s2 (int i)) (\<lambda>b.
         rbind (set_next s2 (buf_prev b) (buf_next b)) (\<lambda>s3. link_front s3 (int i)))) = link_front ?s3 (int i)"
    using u b(1) len by (simp add: rbind_assoc [symmetric])
  then have "brelse s (int i) = Inr (s\<lparr>bufs := l', head_next := int i, head_prev := t'\<rparr>)"
    using b len f by (simp add: brelse_def holdingsleep_def releasesleep_def)
  moreover have "map bdata.truncate l' = (content s)[i := (content s ! i)\<lparr>refcnt := 0, block_lock := \<lparr>locked = 0, pid = 0\<rparr>\<rparr>]"
    using pf pu b(1) len by (simp add: content_def map_update bdata.truncate_def)
  moreover have "ring (s\<lparr>bufs := l', head_next := int i, head_prev := t'\<rparr>) (i # remove1 i ids)"
    using rf xy i by (simp add: remove1_append)
  ultimately show ?thesis by blast
qed

lemma brelse_spec:
  assumes "bc_ok s" and "holds s H" and "i \<in> H" and "cached (content s) n i" and "n \<in> pinned s \<or> view s n = memdisk s n"
  shows "\<exists>s'. brelse s (int i) = Inr s' \<and> same_rest s s' \<and> bc_ok s' \<and> holds s' (H - {i}) \<and>
    memdisk s' = memdisk s \<and> disk_writes s' = disk_writes s \<and> view s' = view s \<and> pinned s' = pinned s \<and>
    (\<forall>j m. cached (content s') m j = cached (content s) m j)"
proof -
  obtain ids where ids: "ring s ids" "set ids = {..<30}" using assms(1) by (auto simp: bc_ok_def)
  have len: "length (bufs s) = 30" by (rule ok_length [OF assms(1)])
  have wf: "wf_content (content s) (disksize s)" "wf_disk (memdisk s) (disksize s)" using assms(1) by (simp_all add: bc_ok_def)
  have i30: "i < 30" "dev (content s ! i) = 1" "blockno (content s ! i) = n" using assms(4) len by (auto simp: cached_def)
  have v: "B_VALID (content s ! i)" "length (data (content s ! i)) = BSIZE" using wf(1) i30 by (auto simp: wf_content_def)
  obtain l h t where run: "brelse s (int i) = Inr (s\<lparr>bufs := l, head_next := h, head_prev := t\<rparr>)"
    and l: "map bdata.truncate l = (content s)[i := (content s ! i)\<lparr>refcnt := 0, block_lock := \<lparr>locked = 0, pid = 0\<rparr>\<rparr>]"
    and r: "ring (s\<lparr>bufs := l, head_next := h, head_prev := t\<rparr>) (i # remove1 i ids)"
    using brelse_content [OF assms(1-3) ids] by blast
  let ?s = "s\<lparr>bufs := l, head_next := h, head_prev := t\<rparr>"
  let ?b = "(content s ! i)\<lparr>refcnt := 0, block_lock := \<lparr>locked = 0, pid = 0\<rparr>\<rparr>"
  have c: "content ?s = (content s)[i := ?b]" using l by (simp add: content_def)
  have t: "dev ?b = 1" "blockno ?b = n" "B_VALID ?b" "length (data ?b) = BSIZE" using i30 v by simp_all
  note upd = upd_same [OF wf(1) assms(4) t]
  have dat: "data ?b = view s n" using view_cached [OF wf(1) assms(4)] by simp
  have view: "view ?s = view s" unfolding c upd(2) dat by simp
  have "B_DIRTY (content s ! i) \<longleftrightarrow> n \<in> pinned s"
    unfolding pinned_of_def mem_Collect_eq using assms(4) cached_unique [OF wf(1) assms(4)] by blast
  then have d: "B_DIRTY ?b \<longleftrightarrow> n \<in> pinned s" by simp
  have pin: "pinned ?s = pinned s" unfolding c upd(3) d by (cases "n \<in> pinned s") (simp_all add: insert_absorb)
  have "distinct ids" using ids(1) by (simp add: ring_def)
  then have "set (i # remove1 i ids) = {..<30}" using ids(2) i30(1) by (auto simp: set_remove1_eq)
  then have ok: "bc_ok ?s" using r upd(1) wf(2) unfolding bc_ok_def c by auto
  have same: "cached (content ?s) m j = cached (content s) m j" for m j
    unfolding c by (rule cached_upd_same) (use i30 len in simp_all)
  have "holds ?s (H - {i})"
    unfolding holds_of_def c
  proof (intro conjI allI impI)
    show "H - {i} \<subseteq> {..<length ((content s)[i := ?b])}" using assms(2) by (auto simp: holds_of_def)
  next
    fix j assume "j < length ((content s)[i := ?b])"
    then have j: "j < length (content s)" by simp
    let ?c = "(content s)[i := ?b] ! j"
    show "refcnt ?c = 1" "locked (block_lock ?c) = 1" "pid (block_lock ?c) = curpid ?s" if "j \<in> H - {i}"
      using that assms(2) j by (auto simp: holds_of_def)
    show "refcnt ?c = 0" "locked (block_lock ?c) = 0" if "j \<notin> H - {i}"
      using that assms(2) j by (cases "j = i"; simp add: holds_of_def)+
    show "data ?c = memdisk ?s (blockno ?c)" if "j \<notin> H - {i}" "dev ?c = 1" "\<not> B_DIRTY ?c"
    proof (cases "j = i")
      case True
      then show ?thesis using that(3) d dat i30 assms(5) j by auto
    next
      case False
      then show ?thesis using that assms(2) j by (simp add: holds_of_def)
    qed
  qed
  moreover have "same_rest s ?s" by (rule same_restI)
  ultimately show ?thesis using run ok same view pin by auto
qed

end
