(* ===== verification/Bytes.thy ===== *)
theory Bytes
  imports Prelude
begin

text \<open>
  Integers inside blocks of bytes, as the kernel reads and writes them through casts of the block's
  address: 32-bit and 16-bit words, least significant byte first. \<open>get32\<close> and \<open>put32\<close> are the values for a
  position inside the block, \<open>ld32\<close> and \<open>st32\<close> the checked accesses.
\<close>

unbundle bit_operations_syntax

definition get32 :: "byte list \<Rightarrow> nat \<Rightarrow> 32 word" where
  "get32 m k = ucast (m ! k) OR push_bit 8 (ucast (m ! (k + 1))) OR
     push_bit 16 (ucast (m ! (k + 2))) OR push_bit 24 (ucast (m ! (k + 3)))"

definition put32 :: "byte list \<Rightarrow> nat \<Rightarrow> 32 word \<Rightarrow> byte list" where
  "put32 m k w = m[k := ucast w, k + 1 := ucast (drop_bit 8 w), k + 2 := ucast (drop_bit 16 w), k + 3 := ucast (drop_bit 24 w)]"

definition get16 :: "byte list \<Rightarrow> nat \<Rightarrow> 16 word" where
  "get16 m k = ucast (m ! k) OR push_bit 8 (ucast (m ! (k + 1)))"

definition put16 :: "byte list \<Rightarrow> nat \<Rightarrow> 16 word \<Rightarrow> byte list" where
  "put16 m k w = m[k := ucast w, k + 1 := ucast (drop_bit 8 w)]"

definition ld32 :: "byte list \<Rightarrow> int \<Rightarrow> 32 word res" where
  "ld32 m k = (if 0 \<le> k \<and> k + 4 \<le> int (length m) then Inr (get32 m (nat k)) else Inl OutOfBounds)"

definition st32 :: "byte list \<Rightarrow> int \<Rightarrow> 32 word \<Rightarrow> byte list res" where
  "st32 m k w = (if 0 \<le> k \<and> k + 4 \<le> int (length m) then Inr (put32 m (nat k) w) else Inl OutOfBounds)"

definition ld16 :: "byte list \<Rightarrow> int \<Rightarrow> 16 word res" where
  "ld16 m k = (if 0 \<le> k \<and> k + 2 \<le> int (length m) then Inr (get16 m (nat k)) else Inl OutOfBounds)"

definition st16 :: "byte list \<Rightarrow> int \<Rightarrow> 16 word \<Rightarrow> byte list res" where
  "st16 m k w = (if 0 \<le> k \<and> k + 2 \<le> int (length m) then Inr (put16 m (nat k) w) else Inl OutOfBounds)"

lemma length_put [simp]: "length (put32 m k w) = length m" "length (put16 m k v) = length m"
  by (simp_all add: put32_def put16_def)

lemma get32_put32: "k + 4 \<le> length m \<Longrightarrow> get32 (put32 m k w) k = w"
proof (rule bit_word_eqI)
  fix n assume k: "k + 4 \<le> length m" and n: "n < LENGTH(32)"
  then consider "n < 8" | "8 \<le> n" "n < 16" | "16 \<le> n" "n < 24" | "24 \<le> n" "n < 32" by fastforce
  then show "bit (get32 (put32 m k w) k) n \<longleftrightarrow> bit w n"
    by cases (use k in \<open>auto simp: get32_def put32_def bit_simps\<close>)
qed

lemma get16_put16: "k + 2 \<le> length m \<Longrightarrow> get16 (put16 m k w) k = w"
  by (rule bit_word_eqI) (auto simp: get16_def put16_def bit_simps)

lemma nth_put32_other: "i < k \<or> k + 4 \<le> i \<Longrightarrow> put32 m k w ! i = m ! i"
  by (auto simp: put32_def)

lemma nth_put16_other: "i < k \<or> k + 2 \<le> i \<Longrightarrow> put16 m k w ! i = m ! i"
  by (auto simp: put16_def)

lemma get32_put32_other: "j + 4 \<le> k \<or> k + 4 \<le> j \<Longrightarrow> get32 (put32 m k w) j = get32 m j"
  by (auto simp: get32_def nth_put32_other)

lemma get16_put16_other: "j + 2 \<le> k \<or> k + 2 \<le> j \<Longrightarrow> get16 (put16 m k w) j = get16 m j"
  by (auto simp: get16_def nth_put16_other)

lemma get32_put16_other: "j + 4 \<le> k \<or> k + 2 \<le> j \<Longrightarrow> get32 (put16 m k w) j = get32 m j"
  by (auto simp: get32_def nth_put16_other)

lemma get16_put32_other: "j + 2 \<le> k \<or> k + 4 \<le> j \<Longrightarrow> get16 (put32 m k w) j = get16 m j"
  by (auto simp: get16_def nth_put32_other)

text \<open>Positions known to be inside the block.\<close>

lemma ld32_ok [simp]: "k + 4 \<le> length m \<Longrightarrow> ld32 m (int k) = Inr (get32 m k)"
  by (simp add: ld32_def)

lemma st32_ok [simp]: "k + 4 \<le> length m \<Longrightarrow> st32 m (int k) w = Inr (put32 m k w)"
  by (simp add: st32_def)

lemma ld16_ok [simp]: "k + 2 \<le> length m \<Longrightarrow> ld16 m (int k) = Inr (get16 m k)"
  by (simp add: ld16_def)

lemma st16_ok [simp]: "k + 2 \<le> length m \<Longrightarrow> st16 m (int k) w = Inr (put16 m k w)"
  by (simp add: st16_def)

end
