(* ===== verification/Log.thy ===== *)
theory Log
  imports BC_Correct Bytes
begin

text \<open>
  The redo log of the file system (log.c): transactions of several system calls whose writes go to the log
  area first and to their home blocks after the log's header has been written.

  The spin lock of the log makes the short sections below atomic; \<open>begin_op\<close> goes to sleep (\<open>Sleeps\<close>) where the
  code waits for a commit. \<open>commit\<close> runs without the lock; what it writes, and in which order, is
  recorded in \<open>disk_writes\<close>. The in-memory header \<open>log.lh\<close> is the fields \<open>lh_n\<close> and \<open>lh_block\<close>; on the disk the
  header is \<open>LOGSIZE + 1\<close> 32-bit words.
\<close>

definition MAXOPBLOCKS :: int where "MAXOPBLOCKS = 10"
definition LOGSIZE :: nat where "LOGSIZE = 30"

lemmas log_consts = MAXOPBLOCKS_def LOGSIZE_def

record superblock =
  sb_size :: int
  sb_nblocks :: int
  sb_ninodes :: int
  sb_nlog :: int
  sb_logstart :: int
  sb_inodestart :: int
  sb_bmapstart :: int

record fsys = bcache +
  log_start :: int
  log_size :: int
  outstanding :: int
  committing :: int
  log_dev :: int
  lh_n :: int
  lh_block :: "int list"

definition set_data :: "'a bcache_scheme \<Rightarrow> int \<Rightarrow> block \<Rightarrow> 'a bcache_scheme res" where
  "set_data s i d = mod_buf s i (\<lambda>b. b\<lparr>data := d\<rparr>)"

definition get_data :: "'a bcache_scheme \<Rightarrow> int \<Rightarrow> block res" where
  "get_data s i = rbind (get_buf s i) (\<lambda>b. Inr (data b))"

text \<open>Copying one block between the log and its home: the bodies of \<open>install_trans\<close> and \<open>write_log\<close>.\<close>

definition install_block :: "'a fsys_scheme \<Rightarrow> nat \<Rightarrow> 'a fsys_scheme res" where
  "install_block s k =
     rbind (bread s (log_dev s) (log_start s + int k + 1)) (\<lambda>(s1, lbuf).
     rbind (arr_get (lh_block s1) (int k)) (\<lambda>n.
     rbind (bread s1 (log_dev s1) n) (\<lambda>(s2, dbuf).
     rbind (get_data s2 lbuf) (\<lambda>d.
     rbind (set_data s2 dbuf d) (\<lambda>s3.
     rbind (bwrite s3 dbuf) (\<lambda>s4.
     rbind (brelse s4 lbuf) (\<lambda>s5.
     brelse s5 dbuf)))))))"

definition install_trans :: "'a fsys_scheme \<Rightarrow> 'a fsys_scheme res" where
  "install_trans s = for_each (\<lambda>k s. cont_res (install_block s k)) [0..<nat (lh_n s)] s"

definition log_block :: "'a fsys_scheme \<Rightarrow> nat \<Rightarrow> 'a fsys_scheme res" where
  "log_block s k =
     rbind (bread s (log_dev s) (log_start s + int k + 1)) (\<lambda>(s1, to).
     rbind (arr_get (lh_block s1) (int k)) (\<lambda>n.
     rbind (bread s1 (log_dev s1) n) (\<lambda>(s2, frm).
     rbind (get_data s2 frm) (\<lambda>d.
     rbind (set_data s2 to d) (\<lambda>s3.
     rbind (bwrite s3 to) (\<lambda>s4.
     rbind (brelse s4 frm) (\<lambda>s5.
     brelse s5 to)))))))"

definition write_log :: "'a fsys_scheme \<Rightarrow> 'a fsys_scheme res" where
  "write_log s = for_each (\<lambda>k s. cont_res (log_block s k)) [0..<nat (lh_n s)] s"

definition read_head :: "'a fsys_scheme \<Rightarrow> 'a fsys_scheme res" where
  "read_head s =
     rbind (bread s (log_dev s) (log_start s)) (\<lambda>(s1, b).
     rbind (get_data s1 b) (\<lambda>h.
     rbind (ld32 h 0) (\<lambda>n.
     let s2 = s1\<lparr>lh_n := sint n\<rparr>
     in rbind (for_each (\<lambda>i s. cont_res (rbind (ld32 h (4 + 4 * int i)) (\<lambda>v.
            rbind (arr_set (lh_block s) (int i) (sint v)) (\<lambda>l. Inr (s\<lparr>lh_block := l\<rparr>))))) [0..<nat (lh_n s2)] s2)
          (\<lambda>s3. brelse s3 b))))"

definition head_block :: "int list \<Rightarrow> nat \<Rightarrow> block \<Rightarrow> block res" where
  "head_block blocks i h = rbind (arr_get blocks (int i)) (\<lambda>v. st32 h (4 + 4 * int i) (word_of_int v))"

definition write_head :: "'a fsys_scheme \<Rightarrow> 'a fsys_scheme res" where
  "write_head s =
     rbind (bread s (log_dev s) (log_start s)) (\<lambda>(s1, b).
     rbind (get_data s1 b) (\<lambda>h.
     rbind (st32 h 0 (word_of_int (lh_n s1))) (\<lambda>h1.
     rbind (for_each (\<lambda>i h. cont_res (head_block (lh_block s1) i h)) [0..<nat (lh_n s1)] h1) (\<lambda>h2.
     rbind (set_data s1 b h2) (\<lambda>s2.
     rbind (bwrite s2 b) (\<lambda>s3.
     brelse s3 b))))))"

definition recover_from_log :: "'a fsys_scheme \<Rightarrow> 'a fsys_scheme res" where
  "recover_from_log s =
     rbind (read_head s) (\<lambda>s1.
     rbind (install_trans s1) (\<lambda>s2.
     write_head (s2\<lparr>lh_n := 0\<rparr>)))"

text \<open>The super block is block 1 (\<open>readsb\<close> of fs.c).\<close>

definition readsb :: "'a bcache_scheme \<Rightarrow> int \<Rightarrow> ('a bcache_scheme \<times> superblock) res" where
  "readsb s d =
     rbind (bread s d 1) (\<lambda>(s1, b).
     rbind (get_data s1 b) (\<lambda>m.
     rbind (ld32 m 0) (\<lambda>sz. rbind (ld32 m 4) (\<lambda>nb. rbind (ld32 m 8) (\<lambda>ni. rbind (ld32 m 12) (\<lambda>nl.
     rbind (ld32 m 16) (\<lambda>ls. rbind (ld32 m 20) (\<lambda>ist. rbind (ld32 m 24) (\<lambda>bm.
     rbind (brelse s1 b) (\<lambda>s2.
     Inr (s2, \<lparr>sb_size = uint sz, sb_nblocks = uint nb, sb_ninodes = uint ni, sb_nlog = uint nl,
       sb_logstart = uint ls, sb_inodestart = uint ist, sb_bmapstart = uint bm\<rparr>)))))))))))"

definition initlog :: "'a fsys_scheme \<Rightarrow> int \<Rightarrow> 'a fsys_scheme res" where
  "initlog s d =
     (if 4 + 4 * LOGSIZE \<ge> BSIZE then Inl (Panic ''initlog: too big logheader'')
      else rbind (readsb s d) (\<lambda>(s1, sb).
        recover_from_log (s1\<lparr>log_start := sb_logstart sb, log_size := sb_nlog sb, log_dev := d\<rparr>)))"

definition begin_op :: "'a fsys_scheme \<Rightarrow> 'a fsys_scheme res" where
  "begin_op s =
     (if committing s \<noteq> 0 then Inl Sleeps
      else if lh_n s + (outstanding s + 1) * MAXOPBLOCKS > int LOGSIZE then Inl Sleeps
      else Inr (s\<lparr>outstanding := outstanding s + 1\<rparr>))"

definition commit :: "'a fsys_scheme \<Rightarrow> 'a fsys_scheme res" where
  "commit s =
     (if lh_n s > 0 then
        rbind (write_log s) (\<lambda>s1.
        rbind (write_head s1) (\<lambda>s2.
        rbind (install_trans s2) (\<lambda>s3.
        write_head (s3\<lparr>lh_n := 0\<rparr>))))
      else Inr s)"

definition end_op :: "'a fsys_scheme \<Rightarrow> 'a fsys_scheme res" where
  "end_op s =
     (let s1 = s\<lparr>outstanding := outstanding s - 1\<rparr>
      in if committing s1 \<noteq> 0 then Inl (Panic ''log.committing'')
         else if outstanding s1 = 0
         then rbind (commit (s1\<lparr>committing := 1\<rparr>)) (\<lambda>s2. Inr (s2\<lparr>committing := 0\<rparr>))
         else Inr s1)"

text \<open>The index at which \<open>log_write\<close> records block \<open>n\<close>: where it already is, or the end.\<close>

definition log_index :: "int list \<Rightarrow> int \<Rightarrow> nat \<Rightarrow> int res" where
  "log_index blocks n cnt =
     for_each (\<lambda>i r. rbind (arr_get blocks (int i)) (\<lambda>v. if v = n then brk (int i) else cont (int i + 1))) [0..<cnt] 0"

definition log_write :: "'a fsys_scheme \<Rightarrow> int \<Rightarrow> 'a fsys_scheme res" where
  "log_write s b =
     (if lh_n s \<ge> int LOGSIZE \<or> lh_n s \<ge> log_size s - 1 then Inl (Panic ''too big a transaction'')
      else if outstanding s < 1 then Inl (Panic ''log_write outside of trans'')
      else
        rbind (get_buf s b) (\<lambda>bf.
        rbind (log_index (lh_block s) (blockno bf) (nat (lh_n s))) (\<lambda>i.
        rbind (arr_set (lh_block s) i (blockno bf)) (\<lambda>l.
        mod_buf (s\<lparr>lh_block := l, lh_n := (if i = lh_n s then lh_n s + 1 else lh_n s)\<rparr>) b (\<lambda>b. b\<lparr>B_DIRTY := True\<rparr>)))))"

text \<open>
  The idiom by which the file system changes a block inside a transaction: \<open>bread\<close>, change the
  data, \<open>log_write\<close>, \<open>brelse\<close>.
\<close>

definition log_update :: "'a fsys_scheme \<Rightarrow> int \<Rightarrow> (block \<Rightarrow> block) \<Rightarrow> 'a fsys_scheme res" where
  "log_update s n f =
     rbind (bread s (log_dev s) n) (\<lambda>(s1, b).
     rbind (get_data s1 b) (\<lambda>d.
     rbind (set_data s1 b (f d)) (\<lambda>s2.
     rbind (log_write s2 b) (\<lambda>s3.
     brelse s3 b))))"

end
