(* ===== verification/FileSys.thy ===== *)
theory FileSys
  imports Log CString
begin

text \<open>
  The file system proper (fs.c): the block allocator, inodes and their cache, file contents, directories and
  paths, over the buffer cache and the log.

  A pointer into \<open>icache.inode\<close> is an index, the null pointer \<open>-1\<close>. \<open>short\<close> and \<open>uint\<close> fields are integers, read
  from and written to blocks through words of their width; sums of \<open>uint\<close>s that the code tests for
  overflow are taken modulo \<open>2 ^ 32\<close>. A path is the bytes from the pointer on, up to and including the terminating NUL.
  The device table \<open>devsw\<close> is filled in by other parts of the kernel: its functions are the parameters \<open>dr\<close> and \<open>dw\<close>.
\<close>

unbundle bit_operations_syntax

definition NINODE :: nat where "NINODE = 50"
definition NDEV :: int where "NDEV = 10"
definition NDIRECT :: nat where "NDIRECT = 12"
definition NINDIRECT :: nat where "NINDIRECT = BSIZE div 4"
definition MAXFILE :: nat where "MAXFILE = NDIRECT + NINDIRECT"
definition IPB :: int where "IPB = int BSIZE div 64"
definition BPB :: int where "BPB = int BSIZE * 8"
definition DIRSIZ :: nat where "DIRSIZ = 30"
definition T_DIR :: int where "T_DIR = 1"
definition T_DEV :: int where "T_DEV = 3"
definition ROOTDEV :: int where "ROOTDEV = 1"
definition ROOTINO :: int where "ROOTINO = 1"

lemmas fs_consts = NDIRECT_def NINDIRECT_def MAXFILE_def IPB_def BPB_def BSIZE_def

record inode =
  i_dev :: int
  i_inum :: int
  i_ref :: int
  i_lock :: sleeplock
  i_valid :: bool
  i_type :: int
  i_major :: int
  i_minor :: int
  i_nlink :: int
  i_size :: int
  i_addrs :: "int list"

record fs_state = fsys +
  sb :: superblock
  inodes :: "inode list"
  cwd :: int

definition IBLOCK :: "int \<Rightarrow> superblock \<Rightarrow> int" where
  "IBLOCK i b = i div IPB + sb_inodestart b"

definition BBLOCK :: "int \<Rightarrow> superblock \<Rightarrow> int" where
  "BBLOCK n b = n div BPB + sb_bmapstart b"

definition u32 :: "int \<Rightarrow> int" where
  "u32 x = x mod 2 ^ 32"

definition get_ip :: "'a fs_state_scheme \<Rightarrow> int \<Rightarrow> inode res" where
  "get_ip s ip = arr_get (inodes s) ip"

definition mod_ip :: "'a fs_state_scheme \<Rightarrow> int \<Rightarrow> (inode \<Rightarrow> inode) \<Rightarrow> 'a fs_state_scheme res" where
  "mod_ip s ip f = rbind (arr_mod (inodes s) ip f) (\<lambda>l. Inr (s\<lparr>inodes := l\<rparr>))"

subsection \<open>Blocks\<close>

definition bzero :: "'a fs_state_scheme \<Rightarrow> int \<Rightarrow> int \<Rightarrow> 'a fs_state_scheme res" where
  "bzero s d n =
     rbind (bread s d n) (\<lambda>(s1, bp).
     rbind (set_data s1 bp (replicate BSIZE 0)) (\<lambda>s2.
     rbind (log_write s2 bp) (\<lambda>s3.
     brelse s3 bp)))"

text \<open>The bit of block \<open>b + bi\<close> in its bit map block, and the search for a clear one.\<close>

definition bit_mask :: "int \<Rightarrow> byte" where
  "bit_mask bi = push_bit (nat (bi mod 8)) 1"

definition find_clear :: "block \<Rightarrow> int \<Rightarrow> int \<Rightarrow> int res" where
  "find_clear m b sz =
     for_each (\<lambda>bi r. rbind (arr_get m (int bi div 8)) (\<lambda>x.
         if x AND bit_mask (int bi) = 0 then brk (int bi) else cont (-1)))
       [0..<nat (min BPB (sz - b))] (-1)"

definition balloc_block :: "'a fs_state_scheme \<Rightarrow> int \<Rightarrow> int \<Rightarrow> (('a fs_state_scheme \<times> int) \<times> bool) res" where
  "balloc_block s d b =
     rbind (bread s d (BBLOCK b (sb s))) (\<lambda>(s1, bp).
     rbind (get_data s1 bp) (\<lambda>m.
     rbind (find_clear m b (sb_size (sb s))) (\<lambda>bi.
       if bi \<ge> 0 then
         rbind (arr_mod m (bi div 8) (\<lambda>x. x OR bit_mask bi)) (\<lambda>m1.
         rbind (set_data s1 bp m1) (\<lambda>s2.
         rbind (log_write s2 bp) (\<lambda>s3.
         rbind (brelse s3 bp) (\<lambda>s4.
         rbind (bzero s4 d (b + bi)) (\<lambda>s5.
         brk (s5, b + bi))))))
       else rbind (brelse s1 bp) (\<lambda>s2. cont (s2, -1)))))"

definition balloc :: "'a fs_state_scheme \<Rightarrow> int \<Rightarrow> ('a fs_state_scheme \<times> int) res" where
  "balloc s d =
     rbind (for_each (\<lambda>k (s, r). balloc_block s d (int k * BPB)) [0..<nat ((sb_size (sb s) + BPB - 1) div BPB)] (s, -1)) (\<lambda>(s, r).
       if r = -1 then Inl (Panic ''balloc: out of blocks'') else Inr (s, r))"

definition bfree :: "'a fs_state_scheme \<Rightarrow> int \<Rightarrow> int \<Rightarrow> 'a fs_state_scheme res" where
  "bfree s d b =
     rbind (bread s d (BBLOCK b (sb s))) (\<lambda>(s1, bp).
     rbind (get_data s1 bp) (\<lambda>m.
     let bi = b mod BPB in
     rbind (arr_get m (bi div 8)) (\<lambda>x.
       if x AND bit_mask bi = 0 then Inl (Panic ''freeing free block'')
       else
         rbind (arr_set m (bi div 8) (x AND NOT (bit_mask bi))) (\<lambda>m1.
         rbind (set_data s1 bp m1) (\<lambda>s2.
         rbind (log_write s2 bp) (\<lambda>s3.
         brelse s3 bp))))))"

subsection \<open>Inodes on the disk\<close>

primrec ld_words :: "block \<Rightarrow> int \<Rightarrow> nat \<Rightarrow> int list res" where
  "ld_words m k 0 = Inr []"
| "ld_words m k (Suc n) = rbind (ld32 m k) (\<lambda>w. rbind (ld_words m (k + 4) n) (\<lambda>r. Inr (uint w # r)))"

fun st_words :: "block \<Rightarrow> int \<Rightarrow> int list \<Rightarrow> block res" where
  "st_words m k [] = Inr m"
| "st_words m k (a # as) = rbind (st32 m k (word_of_int a)) (\<lambda>m1. st_words m1 (k + 4) as)"

definition dinode_offset :: "int \<Rightarrow> int" where
  "dinode_offset inum = inum mod IPB * 64"

definition load_dinode :: "block \<Rightarrow> int \<Rightarrow> inode \<Rightarrow> inode res" where
  "load_dinode m k ip =
     rbind (ld16 m k) (\<lambda>t. rbind (ld16 m (k + 2)) (\<lambda>ma. rbind (ld16 m (k + 4)) (\<lambda>mi. rbind (ld16 m (k + 6)) (\<lambda>nl.
     rbind (ld32 m (k + 8)) (\<lambda>sz. rbind (ld_words m (k + 12) (NDIRECT + 1)) (\<lambda>as.
     Inr (ip\<lparr>i_type := sint t, i_major := sint ma, i_minor := sint mi, i_nlink := sint nl, i_size := uint sz, i_addrs := as\<rparr>)))))))"

definition store_dinode :: "block \<Rightarrow> int \<Rightarrow> inode \<Rightarrow> block res" where
  "store_dinode m k ip =
     rbind (st16 m k (word_of_int (i_type ip))) (\<lambda>m1.
     rbind (st16 m1 (k + 2) (word_of_int (i_major ip))) (\<lambda>m2.
     rbind (st16 m2 (k + 4) (word_of_int (i_minor ip))) (\<lambda>m3.
     rbind (st16 m3 (k + 6) (word_of_int (i_nlink ip))) (\<lambda>m4.
     rbind (st32 m4 (k + 8) (word_of_int (i_size ip))) (\<lambda>m5.
     st_words m5 (k + 12) (i_addrs ip))))))"

definition iupdate :: "'a fs_state_scheme \<Rightarrow> int \<Rightarrow> 'a fs_state_scheme res" where
  "iupdate s p =
     rbind (get_ip s p) (\<lambda>ip.
     rbind (bread s (i_dev ip) (IBLOCK (i_inum ip) (sb s))) (\<lambda>(s1, bp).
     rbind (get_data s1 bp) (\<lambda>m.
     rbind (store_dinode m (dinode_offset (i_inum ip)) ip) (\<lambda>m1.
     rbind (set_data s1 bp m1) (\<lambda>s2.
     rbind (log_write s2 bp) (\<lambda>s3.
     brelse s3 bp))))))"

subsection \<open>The inode cache\<close>

definition iinit :: "'a fs_state_scheme \<Rightarrow> int \<Rightarrow> 'a fs_state_scheme res" where
  "iinit s d =
     rbind (for_each (\<lambda>i s. cont_res (mod_ip s (int i) (\<lambda>ip. ip\<lparr>i_lock := initsleeplock (i_lock ip)\<rparr>))) [0..<NINODE] s) (\<lambda>s1.
     rbind (readsb s1 d) (\<lambda>(s2, b).
     Inr (s2\<lparr>sb := b\<rparr>)))"

definition iget :: "'a fs_state_scheme \<Rightarrow> int \<Rightarrow> int \<Rightarrow> ('a fs_state_scheme \<times> int) res" where
  "iget s d inum =
     rbind (for_each (\<lambda>i (e, r). rbind (get_ip s (int i)) (\<lambda>ip.
         if i_ref ip > 0 \<and> i_dev ip = d \<and> i_inum ip = inum then brk (e, int i)
         else cont (if e = -1 \<and> i_ref ip = 0 then int i else e, r))) [0..<NINODE] (-1, -1)) (\<lambda>(e, r).
       if r \<noteq> -1 then rbind (mod_ip s r (\<lambda>ip. ip\<lparr>i_ref := i_ref ip + 1\<rparr>)) (\<lambda>s1. Inr (s1, r))
       else if e = -1 then Inl (Panic ''iget: no inodes'')
       else rbind (mod_ip s e (\<lambda>ip. ip\<lparr>i_dev := d, i_inum := inum, i_ref := 1, i_valid := False\<rparr>)) (\<lambda>s1. Inr (s1, e)))"

definition idup :: "'a fs_state_scheme \<Rightarrow> int \<Rightarrow> ('a fs_state_scheme \<times> int) res" where
  "idup s p = rbind (mod_ip s p (\<lambda>ip. ip\<lparr>i_ref := i_ref ip + 1\<rparr>)) (\<lambda>s1. Inr (s1, p))"

definition ialloc :: "'a fs_state_scheme \<Rightarrow> int \<Rightarrow> int \<Rightarrow> ('a fs_state_scheme \<times> int) res" where
  "ialloc s d ty =
     rbind (for_each (\<lambda>inum (s, r).
         rbind (bread s d (IBLOCK (int inum) (sb s))) (\<lambda>(s1, bp).
         rbind (get_data s1 bp) (\<lambda>m.
         rbind (ld16 m (dinode_offset (int inum))) (\<lambda>t.
           if t = 0 then
             rbind (memset m (dinode_offset (int inum)) 0 64) (\<lambda>m1.
             rbind (st16 m1 (dinode_offset (int inum)) (word_of_int ty)) (\<lambda>m2.
             rbind (set_data s1 bp m2) (\<lambda>s2.
             rbind (log_write s2 bp) (\<lambda>s3.
             rbind (brelse s3 bp) (\<lambda>s4.
             rbind (iget s4 d (int inum)) brk)))))
           else rbind (brelse s1 bp) (\<lambda>s2. cont (s2, -1))))))
       [1..<nat (sb_ninodes (sb s))] (s, -1)) (\<lambda>(s, r).
       if r = -1 then Inl (Panic ''ialloc: no inodes'') else Inr (s, r))"

definition ilock :: "'a fs_state_scheme \<Rightarrow> int \<Rightarrow> 'a fs_state_scheme res" where
  "ilock s p =
     (if p = -1 then Inl (Panic ''ilock'')
      else rbind (get_ip s p) (\<lambda>ip.
        if i_ref ip < 1 then Inl (Panic ''ilock'')
        else rbind (acquiresleep (curpid s) (i_lock ip)) (\<lambda>lk.
          rbind (mod_ip s p (\<lambda>ip. ip\<lparr>i_lock := lk\<rparr>)) (\<lambda>s1.
          if i_valid ip then Inr s1
          else
            rbind (bread s1 (i_dev ip) (IBLOCK (i_inum ip) (sb s1))) (\<lambda>(s2, bp).
            rbind (get_data s2 bp) (\<lambda>m.
            rbind (get_ip s2 p) (\<lambda>ip2.
            rbind (load_dinode m (dinode_offset (i_inum ip)) ip2) (\<lambda>ip3.
            rbind (brelse s2 bp) (\<lambda>s3.
            rbind (mod_ip s3 p (\<lambda>_. ip3\<lparr>i_valid := True\<rparr>)) (\<lambda>s4.
            if i_type ip3 = 0 then Inl (Panic ''ilock: no type'') else Inr s4))))))))))"

definition iunlock :: "'a fs_state_scheme \<Rightarrow> int \<Rightarrow> 'a fs_state_scheme res" where
  "iunlock s p =
     (if p = -1 then Inl (Panic ''iunlock'')
      else rbind (get_ip s p) (\<lambda>ip.
        if \<not> holdingsleep (curpid s) (i_lock ip) \<or> i_ref ip < 1 then Inl (Panic ''iunlock'')
        else mod_ip s p (\<lambda>ip. ip\<lparr>i_lock := releasesleep (i_lock ip)\<rparr>)))"

end
