(* ===== verification/Directories.thy ===== *)
theory Directories
  imports FileSys
begin

text \<open>
  The upper half of the file system (second half of fs.c): the blocks of a file, reading and writing, truncation,
  the release of inodes, directories and path names.

  A device read or write function of \<open>devsw\<close> gets the state, the inode and the count or the bytes; reading returns the
  number the code returns and the bytes stored at the destination.
\<close>

type_synonym ('s) dev_read = "int \<Rightarrow> ('s \<Rightarrow> int \<Rightarrow> int \<Rightarrow> ('s \<times> int \<times> byte list) res) option"
type_synonym ('s) dev_write = "int \<Rightarrow> ('s \<Rightarrow> int \<Rightarrow> byte list \<Rightarrow> ('s \<times> int) res) option"

subsection \<open>The blocks of a file\<close>

definition bmap :: "'a fs_state_scheme \<Rightarrow> int \<Rightarrow> nat \<Rightarrow> ('a fs_state_scheme \<times> int) res" where
  "bmap s p bn =
     rbind (get_ip s p) (\<lambda>ip.
     if bn < NDIRECT then
       rbind (arr_get (i_addrs ip) (int bn)) (\<lambda>addr.
         if addr = 0 then
           rbind (balloc s (i_dev ip)) (\<lambda>(s1, a).
           rbind (arr_set (i_addrs ip) (int bn) a) (\<lambda>l.
           rbind (mod_ip s1 p (\<lambda>ip. ip\<lparr>i_addrs := l\<rparr>)) (\<lambda>s2. Inr (s2, a))))
         else Inr (s, addr))
     else if bn - NDIRECT < NINDIRECT then
       rbind (arr_get (i_addrs ip) (int NDIRECT)) (\<lambda>addr.
       rbind (if addr = 0 then
           rbind (balloc s (i_dev ip)) (\<lambda>(s1, a).
           rbind (arr_set (i_addrs ip) (int NDIRECT) a) (\<lambda>l.
           rbind (mod_ip s1 p (\<lambda>ip. ip\<lparr>i_addrs := l\<rparr>)) (\<lambda>s2. Inr (s2, a))))
         else Inr (s, addr)) (\<lambda>(s1, addr).
       rbind (bread s1 (i_dev ip) addr) (\<lambda>(s2, bp).
       rbind (get_data s2 bp) (\<lambda>m.
       rbind (ld32 m (4 * int (bn - NDIRECT))) (\<lambda>w.
         if w = 0 then
           rbind (balloc s2 (i_dev ip)) (\<lambda>(s3, a).
           rbind (get_data s3 bp) (\<lambda>m.
           rbind (st32 m (4 * int (bn - NDIRECT)) (word_of_int a)) (\<lambda>m1.
           rbind (set_data s3 bp m1) (\<lambda>s4.
           rbind (log_write s4 bp) (\<lambda>s5.
           rbind (brelse s5 bp) (\<lambda>s6. Inr (s6, a)))))))
         else rbind (brelse s2 bp) (\<lambda>s3. Inr (s3, uint w)))))))
     else Inl (Panic ''bmap: out of range''))"

definition itrunc :: "'a fs_state_scheme \<Rightarrow> int \<Rightarrow> 'a fs_state_scheme res" where
  "itrunc s p =
     rbind (for_each (\<lambda>i s. rbind (get_ip s p) (\<lambda>ip.
         rbind (arr_get (i_addrs ip) (int i)) (\<lambda>a.
           if a \<noteq> 0 then
             cont_res (rbind (bfree s (i_dev ip) a) (\<lambda>s1.
               rbind (arr_set (i_addrs ip) (int i) 0) (\<lambda>l. mod_ip s1 p (\<lambda>ip. ip\<lparr>i_addrs := l\<rparr>))))
           else cont s))) [0..<NDIRECT] s) (\<lambda>s1.
     rbind (get_ip s1 p) (\<lambda>ip.
     rbind (arr_get (i_addrs ip) (int NDIRECT)) (\<lambda>ind.
     rbind (if ind \<noteq> 0 then
         rbind (bread s1 (i_dev ip) ind) (\<lambda>(s2, bp).
         rbind (for_each (\<lambda>j s. rbind (get_data s bp) (\<lambda>m. rbind (ld32 m (4 * int j)) (\<lambda>a.
             if a \<noteq> 0 then cont_res (bfree s (i_dev ip) (uint a)) else cont s))) [0..<NINDIRECT] s2) (\<lambda>s3.
         rbind (brelse s3 bp) (\<lambda>s4.
         rbind (bfree s4 (i_dev ip) ind) (\<lambda>s5.
         rbind (arr_set (i_addrs ip) (int NDIRECT) 0) (\<lambda>l. mod_ip s5 p (\<lambda>ip. ip\<lparr>i_addrs := l\<rparr>))))))
       else Inr s1) (\<lambda>s2.
     rbind (mod_ip s2 p (\<lambda>ip. ip\<lparr>i_size := 0\<rparr>)) (\<lambda>s3.
     iupdate s3 p)))))"

subsection \<open>Releasing inodes\<close>

definition iput :: "'a fs_state_scheme \<Rightarrow> int \<Rightarrow> 'a fs_state_scheme res" where
  "iput s p =
     rbind (get_ip s p) (\<lambda>ip.
     rbind (acquiresleep (curpid s) (i_lock ip)) (\<lambda>lk.
     rbind (mod_ip s p (\<lambda>ip. ip\<lparr>i_lock := lk\<rparr>)) (\<lambda>s1.
     rbind (if i_valid ip \<and> i_nlink ip = 0 \<and> i_ref ip = 1 then
         rbind (itrunc s1 p) (\<lambda>s2.
         rbind (mod_ip s2 p (\<lambda>ip. ip\<lparr>i_type := 0\<rparr>)) (\<lambda>s3.
         rbind (iupdate s3 p) (\<lambda>s4.
         mod_ip s4 p (\<lambda>ip. ip\<lparr>i_valid := False\<rparr>))))
       else Inr s1) (\<lambda>s2.
     mod_ip s2 p (\<lambda>ip. ip\<lparr>i_lock := releasesleep (i_lock ip), i_ref := i_ref ip - 1\<rparr>)))))"

definition iunlockput :: "'a fs_state_scheme \<Rightarrow> int \<Rightarrow> 'a fs_state_scheme res" where
  "iunlockput s p = rbind (iunlock s p) (\<lambda>s1. iput s1 p)"

subsection \<open>Contents\<close>

text \<open>The result of \<open>stati\<close>: device, inode number, type, number of links, size.\<close>

definition stati :: "inode \<Rightarrow> int \<times> int \<times> int \<times> int \<times> int" where
  "stati ip = (i_dev ip, i_inum ip, i_type ip, i_nlink ip, i_size ip)"

definition chunk :: "nat \<Rightarrow> nat \<Rightarrow> nat" where
  "chunk off n = min n (BSIZE - off mod BSIZE)"

lemma chunk_pos: "0 < n \<Longrightarrow> 0 < chunk off n"
  by (simp add: chunk_def BSIZE_def)

text \<open>Copies of \<open>n\<close> bytes out of and into a block, checked.\<close>

definition copy_out :: "block \<Rightarrow> nat \<Rightarrow> nat \<Rightarrow> byte list res" where
  "copy_out m k n = (if k + n \<le> length m then Inr (take n (drop k m)) else Inl OutOfBounds)"

definition copy_in :: "byte list \<Rightarrow> nat \<Rightarrow> byte list \<Rightarrow> byte list res" where
  "copy_in m k xs = (if k + length xs \<le> length m then Inr (stored m k xs) else Inl OutOfBounds)"

function read_chunks :: "'a fs_state_scheme \<Rightarrow> int \<Rightarrow> nat \<Rightarrow> nat \<Rightarrow> byte list \<Rightarrow> ('a fs_state_scheme \<times> byte list) res" where
  "read_chunks s p off n acc =
     (if n = 0 then Inr (s, acc)
      else
        rbind (get_ip s p) (\<lambda>ip.
        rbind (bmap s p (off div BSIZE)) (\<lambda>(s1, a).
        rbind (bread s1 (i_dev ip) a) (\<lambda>(s2, bp).
        rbind (get_data s2 bp) (\<lambda>m.
        rbind (copy_out m (off mod BSIZE) (chunk off n)) (\<lambda>xs.
        rbind (brelse s2 bp) (\<lambda>s3.
        read_chunks s3 p (off + chunk off n) (n - chunk off n) (acc @ xs))))))))"
  by pat_completeness auto
termination by (relation "measure (\<lambda>(s, p, off, n, acc). n)") (use chunk_pos in auto)

declare read_chunks.simps [simp del]

definition readi :: "'a fs_state_scheme dev_read \<Rightarrow> 'a fs_state_scheme \<Rightarrow> int \<Rightarrow> int \<Rightarrow> int \<Rightarrow>
    ('a fs_state_scheme \<times> int \<times> byte list) res" where
  "readi dr s p off n =
     rbind (get_ip s p) (\<lambda>ip.
     if i_type ip = T_DEV then
       (if i_major ip < 0 \<or> i_major ip \<ge> NDEV then Inr (s, -1, [])
        else (case dr (i_major ip) of None \<Rightarrow> Inr (s, -1, []) | Some f \<Rightarrow> f s p n))
     else if off > i_size ip \<or> u32 (off + n) < off then Inr (s, -1, [])
     else
       let n' = (if u32 (off + n) > i_size ip then i_size ip - off else n)
       in rbind (read_chunks s p (nat off) (nat n') []) (\<lambda>(s1, xs). Inr (s1, n', xs)))"

function write_chunks :: "'a fs_state_scheme \<Rightarrow> int \<Rightarrow> nat \<Rightarrow> byte list \<Rightarrow> ('a fs_state_scheme \<times> nat) res" where
  "write_chunks s p off src =
     (if src = [] then Inr (s, off)
      else
        rbind (get_ip s p) (\<lambda>ip.
        rbind (bmap s p (off div BSIZE)) (\<lambda>(s1, a).
        rbind (bread s1 (i_dev ip) a) (\<lambda>(s2, bp).
        rbind (get_data s2 bp) (\<lambda>m.
        rbind (copy_in m (off mod BSIZE) (take (chunk off (length src)) src)) (\<lambda>m1.
        rbind (set_data s2 bp m1) (\<lambda>s3.
        rbind (log_write s3 bp) (\<lambda>s4.
        rbind (brelse s4 bp) (\<lambda>s5.
        write_chunks s5 p (off + chunk off (length src)) (drop (chunk off (length src)) src))))))))))"
  by pat_completeness auto
termination by (relation "measure (\<lambda>(s, p, off, src). length src)") (use chunk_pos in auto)

declare write_chunks.simps [simp del]

definition writei :: "'a fs_state_scheme dev_write \<Rightarrow> 'a fs_state_scheme \<Rightarrow> int \<Rightarrow> byte list \<Rightarrow> int \<Rightarrow> ('a fs_state_scheme \<times> int) res" where
  "writei dw s p src off =
     rbind (get_ip s p) (\<lambda>ip.
     let n = int (length src) in
     if i_type ip = T_DEV then
       (if i_major ip < 0 \<or> i_major ip \<ge> NDEV then Inr (s, -1)
        else (case dw (i_major ip) of None \<Rightarrow> Inr (s, -1) | Some f \<Rightarrow> f s p src))
     else if off > i_size ip \<or> u32 (off + n) < off then Inr (s, -1)
     else if u32 (off + n) > int (MAXFILE * BSIZE) then Inr (s, -1)
     else
       rbind (write_chunks s p (nat off) src) (\<lambda>(s1, off1).
       rbind (get_ip s1 p) (\<lambda>ip1.
       if n > 0 \<and> int off1 > i_size ip1 then
         rbind (mod_ip s1 p (\<lambda>ip. ip\<lparr>i_size := int off1\<rparr>)) (\<lambda>s2.
         rbind (iupdate s2 p) (\<lambda>s3. Inr (s3, n)))
       else Inr (s1, n))))"

subsection \<open>Directories\<close>

definition namecmp :: "byte list \<Rightarrow> byte list \<Rightarrow> int res" where
  "namecmp s t = strncmp s t DIRSIZ"

text \<open>A directory entry is 32 bytes: the inode number and the name.\<close>

definition read_dirent :: "string \<Rightarrow> 'a fs_state_scheme dev_read \<Rightarrow> 'a fs_state_scheme \<Rightarrow> int \<Rightarrow> int \<Rightarrow> ('a fs_state_scheme \<times> int \<times> byte list) res" where
  "read_dirent msg dr s p off =
     rbind (readi dr s p off 32) (\<lambda>(s1, r, de).
       if r \<noteq> 32 then Inl (Panic msg)
       else rbind (ld16 de 0) (\<lambda>i. Inr (s1, uint i, drop 2 de)))"

definition dirlookup :: "'a fs_state_scheme dev_read \<Rightarrow> 'a fs_state_scheme \<Rightarrow> int \<Rightarrow> byte list \<Rightarrow> ('a fs_state_scheme \<times> int \<times> int) res" where
  "dirlookup dr s p name =
     rbind (get_ip s p) (\<lambda>dp.
     if i_type dp \<noteq> T_DIR then Inl (Panic ''dirlookup not DIR'')
     else
       rbind (for_each (\<lambda>k (s, r, poff).
           rbind (read_dirent ''dirlookup read'' dr s p (32 * int k)) (\<lambda>(s1, inum, nm).
           if inum = 0 then cont (s1, r, poff)
           else rbind (namecmp name nm) (\<lambda>c.
             if c = 0 then rbind (iget s1 (i_dev dp) inum) (\<lambda>(s2, q). brk (s2, q, 32 * int k))
             else cont (s1, r, poff)))) [0..<nat ((i_size dp + 31) div 32)] (s, -1, 0)) Inr)"

definition dirlink :: "'a fs_state_scheme dev_read \<Rightarrow> 'a fs_state_scheme dev_write \<Rightarrow> 'a fs_state_scheme \<Rightarrow> int \<Rightarrow> byte list \<Rightarrow> int \<Rightarrow>
    ('a fs_state_scheme \<times> int) res" where
  "dirlink dr dw s p name inum =
     rbind (dirlookup dr s p name) (\<lambda>(s1, q, _).
     if q \<noteq> -1 then rbind (iput s1 q) (\<lambda>s2. Inr (s2, -1))
     else
       rbind (get_ip s1 p) (\<lambda>dp.
       rbind (for_each (\<lambda>k (s, off).
           rbind (read_dirent ''dirlink read'' dr s p (32 * int k)) (\<lambda>(s1, i, _).
           if i = 0 then brk (s1, 32 * int k) else cont (s1, 32 * int k + 32))) [0..<nat ((i_size dp + 31) div 32)] (s1, 0)) (\<lambda>(s2, off).
       rbind (strncpy (replicate DIRSIZ 0) 0 name DIRSIZ) (\<lambda>nm.
       rbind (st16 [0, 0] 0 (word_of_int inum)) (\<lambda>ib.
       rbind (writei dw s2 p (ib @ nm) off) (\<lambda>(s3, r).
       if r \<noteq> 32 then Inl (Panic ''dirlink'') else Inr (s3, 0)))))))"

subsection \<open>Paths\<close>

text \<open>The two scanning loops of \<open>skipelem\<close>: past slashes, and up to the end of the element.\<close>

fun skip_slashes :: "byte list \<Rightarrow> byte list res" where
  "skip_slashes [] = Inl OutOfBounds"
| "skip_slashes (c # p) = (if c = 47 then skip_slashes p else Inr (c # p))"

fun elem_end :: "byte list \<Rightarrow> nat res" where
  "elem_end [] = Inl OutOfBounds"
| "elem_end (c # p) = (if c \<noteq> 47 \<and> c \<noteq> 0 then rbind (elem_end p) (\<lambda>n. Inr (Suc n)) else Inr 0)"

definition skipelem :: "byte list \<Rightarrow> byte list \<Rightarrow> (byte list option \<times> byte list) res" where
  "skipelem path name =
     rbind (skip_slashes path) (\<lambda>s.
     rbind (arr_get s 0) (\<lambda>c.
     if c = 0 then Inr (None, name)
     else
       rbind (elem_end s) (\<lambda>len.
       rbind (if len \<ge> DIRSIZ then copy_in name 0 (take DIRSIZ s)
              else rbind (copy_in name 0 (take len s)) (\<lambda>nm. arr_set nm (int len) 0)) (\<lambda>nm.
       rbind (skip_slashes (drop len s)) (\<lambda>rest. Inr (Some rest, nm))))))"

lemma skip_slashes_le: "skip_slashes p = Inr q \<Longrightarrow> length q \<le> length p"
  by (induction p arbitrary: q) (force split: if_splits)+

lemma skipelem_shorter:
  assumes "skipelem path name = Inr (Some rest, nm)"
  shows "length rest < length path"
proof -
  obtain s c len where s: "skip_slashes path = Inr s" "arr_get s 0 = Inr c" "c \<noteq> 0" "elem_end s = Inr len" "skip_slashes (drop len s) = Inr rest"
    using assms by (auto simp: skipelem_def rbind_eq_Inr split: if_splits)
  have c: "s \<noteq> []" "c = hd s" using s(2) by (auto simp: arr_get_def in_range_def hd_conv_nth split: if_splits)
  have "hd s \<noteq> 47" using s(1)
  proof (induction path)
    case (Cons x p)
    then show ?case by (cases "x = 47") auto
  qed simp
  then have "0 < len" using s(3,4) c by (cases s) (auto simp: rbind_eq_Inr)
  then have "length (drop len s) < length s" using c by (cases s) auto
  then show ?thesis using skip_slashes_le [OF s(1)] skip_slashes_le [OF s(5)] by simp
qed

function namex_loop :: "'a fs_state_scheme dev_read \<Rightarrow> 'a fs_state_scheme \<Rightarrow> byte list \<Rightarrow> bool \<Rightarrow> byte list \<Rightarrow> int \<Rightarrow>
    ('a fs_state_scheme \<times> int \<times> byte list) res" where
  "namex_loop dr s path parent name p =
     rbind (skipelem path name) (\<lambda>(next_path, nm).
     case next_path of
       None \<Rightarrow> if parent then rbind (iput s p) (\<lambda>s1. Inr (s1, -1, nm)) else Inr (s, p, nm)
     | Some rest \<Rightarrow>
         rbind (ilock s p) (\<lambda>s1.
         rbind (get_ip s1 p) (\<lambda>ip.
         if i_type ip \<noteq> T_DIR then rbind (iunlockput s1 p) (\<lambda>s2. Inr (s2, -1, nm))
         else if parent \<and> hd rest = 0 then rbind (iunlock s1 p) (\<lambda>s2. Inr (s2, p, nm))
         else
           rbind (dirlookup dr s1 p nm) (\<lambda>(s2, q, _).
           if q = -1 then rbind (iunlockput s2 p) (\<lambda>s3. Inr (s3, -1, nm))
           else rbind (iunlockput s2 p) (\<lambda>s3. namex_loop dr s3 rest parent nm q)))))"
  by pat_completeness auto
termination by (relation "measure (\<lambda>(dr, s, path, parent, name, p). length path)") (auto dest: skipelem_shorter)

declare namex_loop.simps [simp del]

definition namex :: "'a fs_state_scheme dev_read \<Rightarrow> 'a fs_state_scheme \<Rightarrow> byte list \<Rightarrow> bool \<Rightarrow> byte list \<Rightarrow>
    ('a fs_state_scheme \<times> int \<times> byte list) res" where
  "namex dr s path parent name =
     rbind (arr_get path 0) (\<lambda>c.
     rbind (if c = 47 then iget s ROOTDEV ROOTINO else idup s (cwd s)) (\<lambda>(s1, p).
     namex_loop dr s1 path parent name p))"

definition namei :: "'a fs_state_scheme dev_read \<Rightarrow> 'a fs_state_scheme \<Rightarrow> byte list \<Rightarrow> ('a fs_state_scheme \<times> int) res" where
  "namei dr s path = rbind (namex dr s path False (replicate DIRSIZ 0)) (\<lambda>(s1, p, _). Inr (s1, p))"

definition nameiparent :: "'a fs_state_scheme dev_read \<Rightarrow> 'a fs_state_scheme \<Rightarrow> byte list \<Rightarrow> byte list \<Rightarrow>
    ('a fs_state_scheme \<times> int \<times> byte list) res" where
  "nameiparent dr s path name = namex dr s path True name"

end
