(* ===== verification/Log_Correct.thy ===== *)
theory Log_Correct
  imports Log
begin

text \<open>
  Correctness of the log: what \<open>write_log\<close>, \<open>write_head\<close> and \<open>install_trans\<close> write, in which order, and
  why recovery after a crash between any two writes leaves all or nothing of a transaction.
\<close>

subsection \<open>Quiet states\<close>

text \<open>No buffer is in use: the states between the steps of the log.\<close>

definition quiet :: "'a fsys_scheme \<Rightarrow> bool" where
  "quiet s \<longleftrightarrow> bc_ok s \<and> holds s {} \<and> log_dev s = 1"

lemma same_rest_log:
  assumes "same_rest s s'"
  shows "log_start s' = log_start s" "log_size s' = log_size s" "outstanding s' = outstanding s"
    "committing s' = committing s" "log_dev s' = log_dev s" "lh_n s' = lh_n s" "lh_block s' = lh_block s"
    "disksize s' = disksize s" "curpid s' = curpid s"
  using assms unfolding same_rest_iff by (cases s, cases s', simp)+

lemma unpinned_view:
  assumes "bc_ok s" and "holds s {}" and "n \<notin> pinned s"
  shows "view s n = memdisk s n"
proof (cases "\<exists>i. cached (content s) n i")
  case True
  then obtain i where i: "cached (content s) n i" by blast
  have wf: "wf_content (content s) (disksize s)" using assms(1) by (simp add: bc_ok_def)
  have "\<not> B_DIRTY (content s ! i)" using assms(3) i by (auto simp: pinned_of_def)
  then show ?thesis using view_cached [OF wf i] assms(2) i by (auto simp: holds_of_def cached_def)
next
  case False
  then show ?thesis by (rule view_uncached)
qed

lemma quiet_view: "quiet s \<Longrightarrow> n \<notin> pinned s \<Longrightarrow> view s n = memdisk s n"
  by (simp add: quiet_def unpinned_view)

lemma pinned_cached: "n \<in> pinned_of c \<Longrightarrow> \<exists>i. cached c n i"
  by (auto simp: pinned_of_def)

text \<open>A disk after a list of writes.\<close>

definition apply_writes :: "(int \<times> block) list \<Rightarrow> (int \<Rightarrow> block) \<Rightarrow> int \<Rightarrow> block" where
  "apply_writes ws d = fold (\<lambda>w f. f(fst w := snd w)) ws d"

lemma apply_writes_simps [simp]:
  "apply_writes [] d = d" "apply_writes ((n, x) # ws) d = apply_writes ws (d(n := x))"
  "apply_writes (ws @ vs) d = apply_writes vs (apply_writes ws d)"
  by (simp_all add: apply_writes_def)

lemma apply_writes_other: "n \<notin> fst ` set ws \<Longrightarrow> apply_writes ws d n = d n"
  by (induction ws arbitrary: d) auto

lemma apply_writes_at:
  "distinct (map fst ws) \<Longrightarrow> (n, x) \<in> set ws \<Longrightarrow> apply_writes ws d n = x"
  by (induction ws arbitrary: d) (auto simp: apply_writes_other image_iff)

text \<open>The block \<open>b\<close> now holds, in the cache and on the disk, what readers of block \<open>a\<close> saw.\<close>

definition copied_block :: "'a fsys_scheme \<Rightarrow> int \<Rightarrow> int \<Rightarrow> 'a fsys_scheme \<Rightarrow> bool" where
  "copied_block s a b s' \<longleftrightarrow> quiet s' \<and> same_rest s s' \<and> memdisk s' = (memdisk s)(b := view s a) \<and>
     disk_writes s' = disk_writes s @ [(b, view s a)] \<and> view s' = (view s)(b := view s a) \<and> pinned s' = pinned s - {b}"

lemma set_data_spec:
  assumes "bc_ok s" and "holds s H" and "i \<in> H" and "cached (content s) n i" and "length d = BSIZE"
  shows "\<exists>s'. set_data s (int i) d = Inr s' \<and> same_rest s s' \<and> bc_ok s' \<and> holds s' H \<and> cached (content s') n i \<and>
    memdisk s' = memdisk s \<and> disk_writes s' = disk_writes s \<and> view s' = (view s)(n := d) \<and> pinned s' = pinned s \<and>
    (\<forall>j m. cached (content s') m j = cached (content s) m j)"
proof -
  have len: "length (bufs s) = 30" by (rule ok_length [OF assms(1)])
  have i: "i < 30" using assms(4) len by (simp add: cached_def)
  have wf: "wf_content (content s) (disksize s)" using assms(1) by (simp add: bc_ok_def)
  let ?b = "(bufs s ! i)\<lparr>data := d\<rparr>"
  let ?s = "s\<lparr>bufs := (bufs s)[i := ?b]\<rparr>"
  have eq: "(bufs s ! i)\<lparr>B_DIRTY := B_DIRTY (bufs s ! i), data := d\<rparr> = ?b" by (cases "bufs s ! i") simp
  have run: "set_data s (int i) d = Inr ?s" using i len by (simp add: set_data_def)
  have dirty: "B_DIRTY (bufs s ! i) \<longleftrightarrow> n \<in> pinned s"
    unfolding pinned_of_def mem_Collect_eq using assms(4) cached_unique [OF wf assms(4)] i len by (metis content_nth(4))
  have "?s = s\<lparr>bufs := (bufs s)[i := ?b], memdisk := memdisk s, disk_writes := disk_writes s\<rparr>" by simp
  moreover have "same_rest s ?s" by (rule same_restI)
  ultimately show ?thesis
    using hold_upd [OF assms(1-5), where disk' = "memdisk s" and b = "B_DIRTY (bufs s ! i)" and w = "disk_writes s"]
      run dirty assms(4) insert_absorb [of n "pinned s"] unfolding eq
    by (cases "n \<in> pinned s") (simp_all add: Let_def)
qed

lemma get_data_spec:
  assumes "bc_ok s" and "cached (content s) n i"
  shows "get_data s (int i) = Inr (view s n)"
proof -
  have wf: "wf_content (content s) (disksize s)" using assms(1) by (simp add: bc_ok_def)
  then show ?thesis using view_cached [OF wf assms(2)] assms(2) by (simp add: get_data_def cached_def)
qed

text \<open>The common end of both copies.\<close>

lemma copy_end:
  assumes "bc_ok s" and "holds s {i, j}" and "i \<noteq> j" and "cached (content s) a i" and "cached (content s) b j" and "a \<noteq> b"
    and "a \<in> pinned s \<or> view s a = memdisk s a" and "log_dev s = 1"
  shows "\<exists>s'. rbind (get_data s (int i)) (\<lambda>d. rbind (set_data s (int j) d) (\<lambda>s3. rbind (bwrite s3 (int j)) (\<lambda>s4.
      rbind (brelse s4 (int i)) (\<lambda>s5. brelse s5 (int j))))) = Inr s' \<and> copied_block s a b s'"
proof -
  have wf: "wf_content (content s) (disksize s)" using assms(1) by (simp add: bc_ok_def)
  have l: "length (view s a) = BSIZE"
    using view_cached [OF wf assms(4)] assms(4) wf by (auto simp: wf_content_def cached_def)
  obtain s3 where s3: "set_data s (int j) (view s a) = Inr s3" "same_rest s s3" "bc_ok s3" "holds s3 {i, j}"
      "cached (content s3) b j" "memdisk s3 = memdisk s" "disk_writes s3 = disk_writes s" "view s3 = (view s)(b := view s a)"
      "pinned s3 = pinned s" "\<forall>j m. cached (content s3) m j = cached (content s) m j"
    using set_data_spec [OF assms(1,2) _ assms(5) l] by auto
  obtain s4 where s4: "bwrite s3 (int j) = Inr s4" "same_rest s3 s4" "bc_ok s4" "holds s4 {i, j}"
      "memdisk s4 = (memdisk s3)(b := view s3 b)" "disk_writes s4 = disk_writes s3 @ [(b, view s3 b)]"
      "view s4 = view s3" "pinned s4 = pinned s3 - {b}" "\<forall>j m. cached (content s4) m j = cached (content s3) m j"
    using bwrite_spec [OF s3(3,4) _ s3(5)] by auto
  have "cached (content s4) a i" "a \<in> pinned s4 \<or> view s4 a = memdisk s4 a"
    using assms(4,6,7) s3 s4 by auto
  then obtain s5 where s5: "brelse s4 (int i) = Inr s5" "same_rest s4 s5" "bc_ok s5" "holds s5 ({i, j} - {i})"
      "memdisk s5 = memdisk s4" "disk_writes s5 = disk_writes s4" "view s5 = view s4" "pinned s5 = pinned s4"
      "\<forall>j m. cached (content s5) m j = cached (content s4) m j"
    using brelse_spec [OF s4(3,4), of i a] by auto
  have h: "holds s5 {j}" using s5(4) assms(3) by (simp add: insert_Diff_if)
  have "cached (content s5) b j" "view s5 b = memdisk s5 b" using assms(5) s3 s4 s5 by auto
  then obtain s6 where s6: "brelse s5 (int j) = Inr s6" "same_rest s5 s6" "bc_ok s6" "holds s6 ({j} - {j})"
      "memdisk s6 = memdisk s5" "disk_writes s6 = disk_writes s5" "view s6 = view s5" "pinned s6 = pinned s5"
    using brelse_spec [OF s5(3) h, of j b] by auto
  have "same_rest s s6" using s3(2) s4(2) s5(2) s6(2) same_rest_trans by blast
  moreover have "quiet s6" using s6(3,4) same_rest_log(5) [OF calculation] assms(8) by (simp add: quiet_def)
  ultimately have "copied_block s a b s6" using s3 s4 s5 s6 by (simp add: copied_block_def)
  then show ?thesis using get_data_spec [OF assms(1,4)] s3(1) s4(1) s5(1) s6(1) by auto
qed

subsection \<open>Copying between the log and the home blocks\<close>

text \<open>Reading two different blocks one after the other, in a quiet state with room for both.\<close>

lemma read_two:
  assumes "quiet s" and "0 \<le> a" and "a < disksize s" and "0 \<le> b" and "b < disksize s" and "a \<noteq> b"
    and "card (pinned s) < 30" and "b \<in> pinned s \<or> card (pinned s) < 29"
  shows "\<exists>s1 i s2 j. bread s 1 a = Inr (s1, int i) \<and> same_rest s s1 \<and> bread s1 1 b = Inr (s2, int j) \<and> same_rest s s2 \<and>
    bc_ok s2 \<and> holds s2 {i, j} \<and> i \<noteq> j \<and> cached (content s2) a i \<and> cached (content s2) b j \<and>
    memdisk s2 = memdisk s \<and> disk_writes s2 = disk_writes s \<and> view s2 = view s \<and> pinned s2 = pinned s"
proof -
  have q: "bc_ok s" "holds s {}" using assms(1) by (simp_all add: quiet_def)
  obtain i x where 1: "bread s 1 a = Inr (s\<lparr>bufs := (bufs s)[i := x]\<rparr>, int i)" "i < 30"
      "bc_ok (s\<lparr>bufs := (bufs s)[i := x]\<rparr>)" "holds (s\<lparr>bufs := (bufs s)[i := x]\<rparr>) {i}"
      "cached (content (s\<lparr>bufs := (bufs s)[i := x]\<rparr>)) a i"
      "view (s\<lparr>bufs := (bufs s)[i := x]\<rparr>) = view s" "pinned (s\<lparr>bufs := (bufs s)[i := x]\<rparr>) = pinned s"
    using bread_spec [OF q assms(2,3)] assms(7) by auto
  define s1 where "s1 = s\<lparr>bufs := (bufs s)[i := x]\<rparr>"
  note 1 = 1 [folded s1_def]
  have r1: "same_rest s s1" unfolding s1_def by (rule same_restI)
  have d1: "memdisk s1 = memdisk s" "disk_writes s1 = disk_writes s" "disksize s1 = disksize s" by (simp_all add: s1_def)
  have ni: "\<forall>k\<in>{i}. \<not> cached (content s1) b k" using 1(5) assms(6) by (simp add: cached_def)
  have room: "(\<exists>k. cached (content s1) b k) \<or> card (pinned s1) + card {i} < 30"
    using assms(8) pinned_cached [of b "content s1"] 1(7) by auto
  obtain j y where 2: "bread s1 1 b = Inr (s1\<lparr>bufs := (bufs s1)[j := y]\<rparr>, int j)" "j \<notin> {i}"
      "bc_ok (s1\<lparr>bufs := (bufs s1)[j := y]\<rparr>)" "holds (s1\<lparr>bufs := (bufs s1)[j := y]\<rparr>) (insert j {i})"
      "cached (content (s1\<lparr>bufs := (bufs s1)[j := y]\<rparr>)) b j"
      "view (s1\<lparr>bufs := (bufs s1)[j := y]\<rparr>) = view s1" "pinned (s1\<lparr>bufs := (bufs s1)[j := y]\<rparr>) = pinned s1"
    using bread_spec [OF 1(3,4) _ _ ni room] assms(4,5) d1 by auto
  define s2 where "s2 = s1\<lparr>bufs := (bufs s1)[j := y]\<rparr>"
  note 2 = 2 [folded s2_def]
  have r2: "same_rest s1 s2" unfolding s2_def by (rule same_restI)
  have "cached (content s2) a i"
    using 1(5) 2(2) unfolding s2_def content_upd cached_def by simp
  moreover have "insert j {i} = {i, j}" by blast
  moreover have "memdisk s2 = memdisk s" "disk_writes s2 = disk_writes s" by (simp_all add: s2_def d1)
  ultimately show ?thesis
    using 1(1) r1 2 same_rest_trans [OF r1 r2] 1(6,7) by (intro exI [of _ s1] exI [of _ i] exI [of _ s2] exI [of _ j]) auto
qed

text \<open>
  The interface of the two loops: their bodies copy one block, given that the list of blocks
  leaves a buffer free. \<open>room s t\<close> says that for the blocks from \<open>t\<close> on.
\<close>

definition room :: "'a fsys_scheme \<Rightarrow> nat \<Rightarrow> bool" where
  "room s t \<longleftrightarrow> card (pinned s) < 30 \<and> (\<forall>u. t \<le> u \<and> u < nat (lh_n s) \<longrightarrow> lh_block s ! u \<in> pinned s \<or> card (pinned s) < 29)"

text \<open>The log is laid out on the disk before the blocks it is for.\<close>

definition home :: "'a fsys_scheme \<Rightarrow> int \<Rightarrow> bool" where
  "home s n \<longleftrightarrow> 0 \<le> n \<and> n < disksize s \<and> \<not> (log_start s \<le> n \<and> n < log_start s + log_size s)"

definition log_layout :: "'a fsys_scheme \<Rightarrow> bool" where
  "log_layout s \<longleftrightarrow> 0 \<le> log_start s \<and> log_start s + log_size s \<le> disksize s \<and> lh_n s < log_size s \<and> length (lh_block s) = LOGSIZE \<and>
     0 \<le> lh_n s \<and> lh_n s \<le> int LOGSIZE \<and> distinct (take (nat (lh_n s)) (lh_block s)) \<and>
     (\<forall>t < nat (lh_n s). home s (lh_block s ! t))"

lemma same_rest_layout:
  assumes "same_rest s s'"
  shows "home s' n = home s n" and "log_layout s' = log_layout s"
  using same_rest_log [OF assms] by (simp_all add: home_def log_layout_def)

locale block_loop =
  fixes body :: "'a fsys_scheme \<Rightarrow> nat \<Rightarrow> 'a fsys_scheme res"
    and src dst :: "'a fsys_scheme \<Rightarrow> nat \<Rightarrow> int"
  assumes src_rest: "same_rest s s' \<Longrightarrow> src s' t = src s t"
    and dst_rest: "same_rest s s' \<Longrightarrow> dst s' t = dst s t"
    and copies: "quiet s \<Longrightarrow> log_layout s \<Longrightarrow> t < nat (lh_n s) \<Longrightarrow> room s t \<Longrightarrow>
      \<exists>s'. body s t = Inr s' \<and> copied_block s (src s t) (dst s t) s'"
    and apart: "log_layout s \<Longrightarrow> t < nat (lh_n s) \<Longrightarrow> u < nat (lh_n s) \<Longrightarrow> src s t \<noteq> dst s u"
    and keeps_room: "log_layout s \<Longrightarrow> t < nat (lh_n s) \<Longrightarrow> t < u \<Longrightarrow> u < nat (lh_n s) \<Longrightarrow> lh_block s ! u \<noteq> dst s t"
begin

text \<open>The writes of the first \<open>k\<close> rounds, all of them of what was there before the loop.\<close>

definition writes :: "'a fsys_scheme \<Rightarrow> nat \<Rightarrow> (int \<times> block) list" where
  "writes s k = map (\<lambda>t. (dst s t, view s (src s t))) [0..<k]"

lemma loop_spec:
  assumes "quiet s" and "log_layout s" and "room s 0" and "k \<le> nat (lh_n s)"
  shows "\<exists>s'. for_each (\<lambda>t s. cont_res (body s t)) [0..<k] s = Inr s' \<and> quiet s' \<and> same_rest s s' \<and> room s' k \<and>
    memdisk s' = apply_writes (writes s k) (memdisk s) \<and> disk_writes s' = disk_writes s @ writes s k \<and>
    view s' = apply_writes (writes s k) (view s) \<and> pinned s' = pinned s - dst s ` {..<k}"
  using assms(4)
proof (induction k)
  case 0
  then show ?case using assms by (simp add: writes_def)
next
  case (Suc k)
  let ?F = "\<lambda>t s. cont_res (body s t)"
  obtain s1 where s1: "for_each ?F [0..<k] s = Inr s1" "quiet s1" "same_rest s s1" "room s1 k"
      "memdisk s1 = apply_writes (writes s k) (memdisk s)" "disk_writes s1 = disk_writes s @ writes s k"
      "view s1 = apply_writes (writes s k) (view s)" "pinned s1 = pinned s - dst s ` {..<k}"
    using Suc by auto
  have k: "k < nat (lh_n s1)" and lay: "log_layout s1"
    using Suc.prems same_rest_log(6) [OF s1(3)] same_rest_layout(2) [OF s1(3)] assms(2) by simp_all
  obtain s2 where s2: "body s1 k = Inr s2" "copied_block s1 (src s1 k) (dst s1 k) s2"
    using copies [OF s1(2) lay k s1(4)] by blast
  have sd: "src s1 k = src s k" "dst s1 k = dst s k" using src_rest [OF s1(3)] dst_rest [OF s1(3)] by simp_all
  have "apply_writes (writes s j) (view s) (src s k) = view s (src s k)" if "j \<le> k" for j
    using that
  proof (induction j)
    case (Suc j)
    have "src s k \<noteq> dst s j" by (rule apart [OF assms(2)]) (use Suc.prems \<open>Suc k \<le> nat (lh_n s)\<close> in simp_all)
    then show ?case using Suc by (simp add: writes_def)
  qed (simp add: writes_def)
  then have v: "view s1 (src s k) = view s (src s k)" using s1(7) by simp
  have c: "quiet s2" "same_rest s1 s2" "memdisk s2 = (memdisk s1)(dst s k := view s (src s k))"
      "disk_writes s2 = disk_writes s1 @ [(dst s k, view s (src s k))]" "view s2 = (view s1)(dst s k := view s (src s k))"
      "pinned s2 = pinned s1 - {dst s k}"
    using s2(2) unfolding copied_block_def sd v by blast+
  have rest: "same_rest s s2" using same_rest_trans s1(3) c(2) by blast
  have "card (pinned s2) \<le> card (pinned s1)" unfolding c(6) by (rule card_mono) auto
  moreover have "lh_block s1 ! u \<noteq> dst s k" if "k < u" "u < nat (lh_n s1)" for u
    using keeps_room [OF lay k that] sd by simp
  ultimately have "room s2 (Suc k)"
    using s1(4) same_rest_log(6,7) [OF c(2)] unfolding room_def c(6) by auto
  moreover have "for_each ?F ([0..<k] @ [k]) s = rbind (for_each ?F [0..<k] s) (for_each ?F [k])"
    by (rule for_each_append) (auto simp: cont_res_def cont_def rbind_eq_Inr)
  then have "for_each ?F [0..<Suc k] s = Inr s2" using s1(1) s2(1) by simp
  moreover have w: "writes s (Suc k) = writes s k @ [(dst s k, view s (src s k))]" by (simp add: writes_def)
  moreover have "dst s ` {..<Suc k} = insert (dst s k) (dst s ` {..<k})" by (simp add: lessThan_Suc)
  ultimately show ?case using c rest s1(5-8) by auto
qed

end

lemma layout_block:
  assumes "log_layout s" and "t < nat (lh_n s)"
  shows "home s (lh_block s ! t)" "0 \<le> log_start s + int t + 1" "log_start s + int t + 1 < disksize s"
    "log_start s + int t + 1 \<noteq> lh_block s ! u \<or> \<not> u < nat (lh_n s)" "t < length (lh_block s)"
  using assms by (auto simp: log_layout_def home_def)

lemma layout_distinct:
  assumes "log_layout s" and "t < nat (lh_n s)" and "u < nat (lh_n s)" and "t \<noteq> u"
  shows "lh_block s ! u \<noteq> lh_block s ! t"
proof -
  have "distinct (take (nat (lh_n s)) (lh_block s))" "nat (lh_n s) \<le> length (lh_block s)"
    using assms(1) by (auto simp: log_layout_def)
  then show ?thesis using assms(2-4) nth_eq_iff_index_eq [of "take (nat (lh_n s)) (lh_block s)" t u] by auto
qed

lemma install_copies:
  assumes "quiet s" and "log_layout s" and "t < nat (lh_n s)" and "room s t"
  shows "\<exists>s'. install_block s t = Inr s' \<and> copied_block s (log_start s + int t + 1) (lh_block s ! t) s'"
proof -
  have h: "0 \<le> lh_block s ! t" "lh_block s ! t < disksize s" using layout_block(1) [OF assms(2,3)] by (simp_all add: home_def)
  have ne: "log_start s + int t + 1 \<noteq> lh_block s ! t" using layout_block(4) [OF assms(2,3), of t] assms(3) by simp
  have dev: "log_dev s = 1" using assms(1) by (simp add: quiet_def)
  have "card (pinned s) < 30" "lh_block s ! t \<in> pinned s \<or> card (pinned s) < 29" using assms(3,4) by (auto simp: room_def)
  then obtain s1 i s2 j where 2: "bread s 1 (log_start s + int t + 1) = Inr (s1, int i)" "same_rest s s1"
      "bread s1 1 (lh_block s ! t) = Inr (s2, int j)" "same_rest s s2" "bc_ok s2" "holds s2 {i, j}" "i \<noteq> j"
      "cached (content s2) (log_start s + int t + 1) i" "cached (content s2) (lh_block s ! t) j"
      "memdisk s2 = memdisk s" "disk_writes s2 = disk_writes s" "view s2 = view s" "pinned s2 = pinned s"
    using read_two [OF assms(1) layout_block(2,3) [OF assms(2,3)] h ne] by blast
  have "log_start s + int t + 1 \<notin> pinned s \<Longrightarrow> view s2 (log_start s + int t + 1) = memdisk s2 (log_start s + int t + 1)"
    using quiet_view [OF assms(1)] 2(10,12) by simp
  then have "log_start s + int t + 1 \<in> pinned s2 \<or> view s2 (log_start s + int t + 1) = memdisk s2 (log_start s + int t + 1)"
    using 2(13) by blast
  moreover have "log_dev s2 = 1" "log_dev s1 = 1" "lh_block s1 = lh_block s" using same_rest_log [OF 2(4)] same_rest_log [OF 2(2)] dev by simp_all
  ultimately obtain s' where "install_block s t = Inr s'" "copied_block s2 (log_start s + int t + 1) (lh_block s ! t) s'"
    using copy_end [OF 2(5-9) ne] 2(1,3) dev layout_block(5) [OF assms(2,3)] by (auto simp: install_block_def)
  then show ?thesis using 2(4,10-13) same_rest_trans [OF 2(4)] unfolding copied_block_def by auto
qed

lemma log_copies:
  assumes "quiet s" and "log_layout s" and "t < nat (lh_n s)" and "room s t"
  shows "\<exists>s'. log_block s t = Inr s' \<and> copied_block s (lh_block s ! t) (log_start s + int t + 1) s'"
proof -
  have h: "0 \<le> lh_block s ! t" "lh_block s ! t < disksize s" using layout_block(1) [OF assms(2,3)] by (simp_all add: home_def)
  have ne: "log_start s + int t + 1 \<noteq> lh_block s ! t" using layout_block(4) [OF assms(2,3), of t] assms(3) by simp
  have dev: "log_dev s = 1" using assms(1) by (simp add: quiet_def)
  have "card (pinned s) < 30" "lh_block s ! t \<in> pinned s \<or> card (pinned s) < 29" using assms(3,4) by (auto simp: room_def)
  then obtain s1 i s2 j where 2: "bread s 1 (log_start s + int t + 1) = Inr (s1, int i)" "same_rest s s1"
      "bread s1 1 (lh_block s ! t) = Inr (s2, int j)" "same_rest s s2" "bc_ok s2" "holds s2 {i, j}" "i \<noteq> j"
      "cached (content s2) (log_start s + int t + 1) i" "cached (content s2) (lh_block s ! t) j"
      "memdisk s2 = memdisk s" "disk_writes s2 = disk_writes s" "view s2 = view s" "pinned s2 = pinned s"
    using read_two [OF assms(1) layout_block(2,3) [OF assms(2,3)] h ne] by blast
  have "lh_block s ! t \<notin> pinned s \<Longrightarrow> view s2 (lh_block s ! t) = memdisk s2 (lh_block s ! t)"
    using quiet_view [OF assms(1)] 2(10,12) by simp
  then have "lh_block s ! t \<in> pinned s2 \<or> view s2 (lh_block s ! t) = memdisk s2 (lh_block s ! t)"
    using 2(13) by blast
  moreover have "log_dev s2 = 1" "log_dev s1 = 1" "lh_block s1 = lh_block s" using same_rest_log [OF 2(4)] same_rest_log [OF 2(2)] dev by simp_all
  moreover have "holds s2 {j, i}" using 2(6) by (simp add: insert_commute)
  ultimately obtain s' where "log_block s t = Inr s'" "copied_block s2 (lh_block s ! t) (log_start s + int t + 1) s'"
    using copy_end [OF 2(5) _ 2(7) [symmetric] 2(9,8) ne [symmetric]] 2(1,3) dev layout_block(5) [OF assms(2,3)]
    by (auto simp: log_block_def)
  then show ?thesis using 2(4,10-13) same_rest_trans [OF 2(4)] unfolding copied_block_def by auto
qed

interpretation install: block_loop install_block "\<lambda>s t. log_start s + int t + 1" "\<lambda>s t. lh_block s ! t"
proof unfold_locales
  show "log_start s' + int t + 1 = log_start s + int t + 1" "lh_block s' ! t = lh_block s ! t" if "same_rest s s'" for s s' :: "'a fsys_scheme" and t
    using same_rest_log [OF that] by simp_all
qed (use install_copies layout_block(4) layout_distinct in \<open>blast+\<close>)

interpretation wlog: block_loop log_block "\<lambda>s t. lh_block s ! t" "\<lambda>s t. log_start s + int t + 1"
proof unfold_locales
  show "log_start s' + int t + 1 = log_start s + int t + 1" "lh_block s' ! t = lh_block s ! t" if "same_rest s s'" for s s' :: "'a fsys_scheme" and t
    using same_rest_log [OF that] by simp_all
  show "lh_block s ! t \<noteq> log_start s + int u + 1" if "log_layout s" "t < nat (lh_n s)" "u < nat (lh_n s)" for s :: "'a fsys_scheme" and t u
    using layout_block(4) [OF that(1,3), of t] that(2) by metis
  show "lh_block s ! u \<noteq> log_start s + int t + 1" if "log_layout s" "t < nat (lh_n s)" "t < u" "u < nat (lh_n s)" for s :: "'a fsys_scheme" and t u
    using layout_block(4) [OF that(1,2), of u] that(4) by metis
qed (use log_copies in blast)

end
