(* ===== verification/Log_Crash.thy ===== *)
theory Log_Crash
  imports Log_Correct
begin

text \<open>
  The commit of a transaction and recovery: the exact sequence of disk writes of \<open>commit\<close>, the effect of
  \<open>initlog\<close> on a disk, and the atomicity of transactions under crashes.
\<close>

subsection \<open>The header block\<close>

definition hdr_n :: "block \<Rightarrow> int" where
  "hdr_n h = sint (get32 h 0)"

definition hdr_block :: "block \<Rightarrow> nat \<Rightarrow> int" where
  "hdr_block h i = sint (get32 h (4 + 4 * i))"

fun put_blocks :: "int list \<Rightarrow> nat \<Rightarrow> block \<Rightarrow> block" where
  "put_blocks bs 0 h = h"
| "put_blocks bs (Suc k) h = put32 (put_blocks bs k h) (4 + 4 * k) (word_of_int (bs ! k))"

definition new_head :: "int \<Rightarrow> int list \<Rightarrow> block \<Rightarrow> block" where
  "new_head n bs h = put_blocks bs (nat n) (put32 h 0 (word_of_int n))"

lemma length_put_blocks [simp]: "length (put_blocks bs k h) = length h"
  by (induction k) simp_all

lemma length_new_head [simp]: "length (new_head n bs h) = length h"
  by (simp add: new_head_def)

lemma put_blocks_get:
  "4 + 4 * k \<le> length h \<Longrightarrow> get32 (put_blocks bs k h) 0 = get32 h 0 \<and>
     (\<forall>i<k. get32 (put_blocks bs k h) (4 + 4 * i) = word_of_int (bs ! i))"
proof (induction k)
  case 0
  then show ?case by simp
next
  case (Suc k)
  have ih: "get32 (put_blocks bs k h) 0 = get32 h 0" "\<forall>i<k. get32 (put_blocks bs k h) (4 + 4 * i) = word_of_int (bs ! i)"
    using Suc by simp_all
  have new: "get32 (put_blocks bs (Suc k) h) (4 + 4 * k) = word_of_int (bs ! k)"
    using Suc.prems by (simp add: get32_put32)
  have old: "get32 (put_blocks bs (Suc k) h) j = get32 (put_blocks bs k h) j" if "j + 4 \<le> 4 + 4 * k" for j
    using that by (simp add: get32_put32_other)
  show ?case using ih new old by (auto simp: less_Suc_eq)
qed

definition int32 :: "int \<Rightarrow> bool" where
  "int32 v \<longleftrightarrow> - (2 ^ 31) \<le> v \<and> v < 2 ^ 31"

lemma sint_int32: "int32 v \<Longrightarrow> sint (word_of_int v :: 32 word) = v"
  by (simp add: int32_def sint_sbintrunc' signed_take_bit_int_eq_self)

lemma new_head_get:
  assumes "length h = BSIZE" and "0 \<le> n" and "n \<le> 30" and "\<forall>i<nat n. int32 (bs ! i)"
  shows "hdr_n (new_head n bs h) = n" and "i < nat n \<Longrightarrow> hdr_block (new_head n bs h) i = bs ! i"
proof -
  have l: "4 + 4 * nat n \<le> length (put32 h 0 (word_of_int n))" using assms by (simp add: BSIZE_def)
  have "get32 (put32 h 0 (word_of_int n)) 0 = word_of_int n" using assms(1) by (simp add: get32_put32 BSIZE_def)
  moreover have "int32 n" using assms(2,3) by (simp add: int32_def)
  ultimately show "hdr_n (new_head n bs h) = n" using put_blocks_get [OF l, of bs] by (simp add: hdr_n_def new_head_def sint_int32)
  show "hdr_block (new_head n bs h) i = bs ! i" if "i < nat n"
    using put_blocks_get [OF l, of bs] that assms(4) by (simp add: hdr_block_def new_head_def sint_int32)
qed

lemma head_loop:
  assumes "4 + 4 * k \<le> length h" and "k \<le> length bs"
  shows "for_each (\<lambda>i h. cont_res (head_block bs i h)) [0..<k] h = Inr (put_blocks bs k h)"
  using assms
proof (induction k)
  case 0
  then show ?case by simp
next
  case (Suc k)
  let ?F = "\<lambda>i h. cont_res (head_block bs i h)"
  have step: "head_block bs k (put_blocks bs k h) = Inr (put_blocks bs (Suc k) h)"
  proof -
    have "nat (4 + 4 * int k) = 4 + 4 * k" by (simp add: nat_add_distrib nat_mult_distrib)
    then show ?thesis using Suc.prems by (simp add: head_block_def st32_def)
  qed
  have "for_each ?F ([0..<k] @ [k]) h = rbind (for_each ?F [0..<k] h) (for_each ?F [k])"
    by (rule for_each_append) (auto simp: cont_res_def cont_def rbind_eq_Inr)
  then show ?case using Suc step by simp
qed

text \<open>Reading one block in a quiet state.\<close>

lemma read_one:
  assumes "quiet s" and "0 \<le> a" and "a < disksize s" and "card (pinned s) < 30"
  shows "\<exists>s1 i. bread s 1 a = Inr (s1, int i) \<and> same_rest s s1 \<and> bc_ok s1 \<and> holds s1 {i} \<and> cached (content s1) a i \<and>
    memdisk s1 = memdisk s \<and> disk_writes s1 = disk_writes s \<and> view s1 = view s \<and> pinned s1 = pinned s"
proof -
  have q: "bc_ok s" "holds s {}" using assms(1) by (simp_all add: quiet_def)
  obtain i x where 1: "bread s 1 a = Inr (s\<lparr>bufs := (bufs s)[i := x]\<rparr>, int i)"
      "bc_ok (s\<lparr>bufs := (bufs s)[i := x]\<rparr>)" "holds (s\<lparr>bufs := (bufs s)[i := x]\<rparr>) {i}"
      "cached (content (s\<lparr>bufs := (bufs s)[i := x]\<rparr>)) a i"
      "view (s\<lparr>bufs := (bufs s)[i := x]\<rparr>) = view s" "pinned (s\<lparr>bufs := (bufs s)[i := x]\<rparr>) = pinned s"
    using bread_spec [OF q assms(2,3)] assms(4) by auto
  then show ?thesis using same_restI(2) [of s "(bufs s)[i := x]"]
    by (intro exI [of _ "s\<lparr>bufs := (bufs s)[i := x]\<rparr>"] exI [of _ i]) simp
qed

lemma release_one:
  assumes "bc_ok s" and "holds s {i}" and "cached (content s) a i" and "a \<in> pinned s \<or> view s a = memdisk s a" and "log_dev s = 1"
  shows "\<exists>s1. brelse s (int i) = Inr s1 \<and> same_rest s s1 \<and> quiet s1 \<and>
    memdisk s1 = memdisk s \<and> disk_writes s1 = disk_writes s \<and> view s1 = view s \<and> pinned s1 = pinned s"
proof -
  obtain s1 where 1: "brelse s (int i) = Inr s1" "same_rest s s1" "bc_ok s1" "holds s1 {}"
      "memdisk s1 = memdisk s" "disk_writes s1 = disk_writes s" "view s1 = view s" "pinned s1 = pinned s"
    using brelse_spec [OF assms(1,2) _ assms(3,4)] by auto
  moreover have "log_dev s1 = 1" using same_rest_log(5) [OF 1(2)] assms(5) by simp
  ultimately show ?thesis by (simp add: quiet_def)
qed

lemma write_head_spec:
  assumes "quiet s" and "log_layout s" and "card (pinned s) < 30" and "log_start s \<notin> pinned s"
  shows "\<exists>s'. write_head s = Inr s' \<and> quiet s' \<and> same_rest s s' \<and>
    (let h = new_head (lh_n s) (lh_block s) (memdisk s (log_start s)) in
     memdisk s' = (memdisk s)(log_start s := h) \<and> disk_writes s' = disk_writes s @ [(log_start s, h)] \<and>
     view s' = (view s)(log_start s := h) \<and> pinned s' = pinned s)"
proof -
  let ?a = "log_start s"
  have a: "0 \<le> ?a" "?a < disksize s" and n: "nat (lh_n s) \<le> LOGSIZE" "length (lh_block s) = LOGSIZE"
    using assms(2) by (auto simp: log_layout_def)
  have dev: "log_dev s = 1" using assms(1) by (simp add: quiet_def)
  have va: "view s ?a = memdisk s ?a" by (rule quiet_view [OF assms(1,4)])
  obtain s1 i where s1: "bread s 1 ?a = Inr (s1, int i)" "same_rest s s1" "bc_ok s1" "holds s1 {i}" "cached (content s1) ?a i"
      "memdisk s1 = memdisk s" "disk_writes s1 = disk_writes s" "view s1 = view s" "pinned s1 = pinned s"
    using read_one [OF assms(1) a assms(3)] by blast
  have same1: "lh_n s1 = lh_n s" "lh_block s1 = lh_block s" "log_dev s1 = 1" using same_rest_log [OF s1(2)] dev by simp_all
  have len: "length (memdisk s ?a) = BSIZE" using view_length [OF _ a] va assms(1) by (simp add: quiet_def)
  let ?h = "new_head (lh_n s) (lh_block s) (memdisk s ?a)"
  have st: "st32 (memdisk s ?a) 0 (word_of_int (lh_n s)) = Inr (put32 (memdisk s ?a) 0 (word_of_int (lh_n s)))"
    using st32_ok [of 0 "memdisk s ?a"] len by (simp add: BSIZE_def)
  have loop: "for_each (\<lambda>i h. cont_res (head_block (lh_block s) i h)) [0..<nat (lh_n s)] (put32 (memdisk s ?a) 0 (word_of_int (lh_n s))) = Inr ?h"
    unfolding new_head_def by (rule head_loop) (use len n in \<open>simp_all add: BSIZE_def LOGSIZE_def\<close>)
  have lh: "length ?h = BSIZE" using len by simp
  obtain s2 where s2: "set_data s1 (int i) ?h = Inr s2" "same_rest s1 s2" "bc_ok s2" "holds s2 {i}" "cached (content s2) ?a i"
      "memdisk s2 = memdisk s1" "disk_writes s2 = disk_writes s1" "view s2 = (view s1)(?a := ?h)" "pinned s2 = pinned s1"
    using set_data_spec [OF s1(3,4) _ s1(5) lh] by blast
  obtain s3 where s3: "bwrite s2 (int i) = Inr s3" "same_rest s2 s3" "bc_ok s3" "holds s3 {i}"
      "memdisk s3 = (memdisk s2)(?a := view s2 ?a)" "disk_writes s3 = disk_writes s2 @ [(?a, view s2 ?a)]"
      "view s3 = view s2" "pinned s3 = pinned s2 - {?a}" "cached (content s3) ?a i"
    using bwrite_spec [OF s2(3,4) _ s2(5)] s2(5) by blast
  have r3: "same_rest s s3" using same_rest_trans s1(2) s2(2) s3(2) by blast
  have d3: "log_dev s3 = 1" using same_rest_log(5) [OF r3] dev by simp
  have v3: "view s3 ?a = memdisk s3 ?a" using s3(5,7) by simp
  then obtain s4 where s4: "brelse s3 (int i) = Inr s4" "same_rest s3 s4" "quiet s4"
      "memdisk s4 = memdisk s3" "disk_writes s4 = disk_writes s3" "view s4 = view s3" "pinned s4 = pinned s3"
    using release_one [OF s3(3,4,9) _ d3] by blast
  have "get_data s1 (int i) = Inr (memdisk s ?a)" using get_data_spec [OF s1(3,5)] s1(8) va by simp
  then have "write_head s = Inr s4"
    using s1(1) s2(1) s3(1) s4(1) st loop by (simp add: write_head_def dev same1)
  moreover have "same_rest s s4" by (rule same_rest_trans [OF r3 s4(2)])
  moreover have "pinned s4 = pinned s" using s4(7) s3(8) s2(9) s1(9) assms(4) by auto
  moreover have "view s4 = (view s)(?a := ?h)" using s4(6) s3(7) s2(8) s1(8) by simp
  moreover have "memdisk s4 = (memdisk s)(?a := ?h)" "disk_writes s4 = disk_writes s @ [(?a, ?h)]"
    using s4(4,5) s3(5,6) s2(6-8) s1(6-8) by simp_all
  ultimately show ?thesis using s4(3) by (simp add: Let_def)
qed

subsection \<open>Commit\<close>

lemma log_field_update [simp]:
  "content (s\<lparr>lh_n := v\<rparr>) = content s" "content (s\<lparr>lh_block := w\<rparr>) = content s"
  "content (s\<lparr>outstanding := v\<rparr>) = content s" "content (s\<lparr>committing := v\<rparr>) = content s"
  "content (s\<lparr>log_start := v\<rparr>) = content s" "content (s\<lparr>log_size := v\<rparr>) = content s" "content (s\<lparr>log_dev := v\<rparr>) = content s"
  for s :: "'a fsys_scheme"
  by (simp_all add: content_def)

lemma bc_ok_field_update [simp]:
  "bc_ok (s\<lparr>lh_n := v\<rparr>) = bc_ok s" "bc_ok (s\<lparr>lh_block := w\<rparr>) = bc_ok s"
  "bc_ok (s\<lparr>outstanding := v\<rparr>) = bc_ok s" "bc_ok (s\<lparr>committing := v\<rparr>) = bc_ok s"
  "bc_ok (s\<lparr>log_start := v\<rparr>) = bc_ok s" "bc_ok (s\<lparr>log_size := v\<rparr>) = bc_ok s" "bc_ok (s\<lparr>log_dev := v\<rparr>) = bc_ok s"
  for s :: "'a fsys_scheme"
  by (simp_all add: bc_ok_def ring_def)

lemma quiet_field_update [simp]:
  "quiet (s\<lparr>lh_n := v\<rparr>) = quiet s" "quiet (s\<lparr>lh_block := w\<rparr>) = quiet s"
  "quiet (s\<lparr>outstanding := v\<rparr>) = quiet s" "quiet (s\<lparr>committing := v\<rparr>) = quiet s"
  by (simp_all add: quiet_def)

text \<open>The blocks of the running transaction.\<close>

definition logged :: "'a fsys_scheme \<Rightarrow> int list" where
  "logged s = take (nat (lh_n s)) (lh_block s)"

definition log_ok :: "'a fsys_scheme \<Rightarrow> bool" where
  "log_ok s \<longleftrightarrow> quiet s \<and> log_layout s \<and> pinned s = set (logged s) \<and> disksize s \<le> 2 ^ 31 \<and>
     hdr_n (memdisk s (log_start s)) = 0"

definition log_writes :: "'a fsys_scheme \<Rightarrow> (int \<times> block) list" where
  "log_writes s = map (\<lambda>t. (log_start s + int t + 1, view s (lh_block s ! t))) [0..<nat (lh_n s)]"

definition home_writes :: "'a fsys_scheme \<Rightarrow> (int \<times> block) list" where
  "home_writes s = map (\<lambda>t. (lh_block s ! t, view s (lh_block s ! t))) [0..<nat (lh_n s)]"

definition full_head :: "'a fsys_scheme \<Rightarrow> block" where
  "full_head s = new_head (lh_n s) (lh_block s) (memdisk s (log_start s))"

definition empty_head :: "'a fsys_scheme \<Rightarrow> block" where
  "empty_head s = new_head 0 (lh_block s) (full_head s)"

definition commit_writes :: "'a fsys_scheme \<Rightarrow> (int \<times> block) list" where
  "commit_writes s = log_writes s @ (log_start s, full_head s) # home_writes s @ [(log_start s, empty_head s)]"

lemma logged_facts:
  assumes "log_layout s"
  shows "set (logged s) = (\<lambda>t. lh_block s ! t) ` {..<nat (lh_n s)}" and "card (set (logged s)) = nat (lh_n s)"
    and "n \<in> set (logged s) \<Longrightarrow> home s n"
proof -
  have len: "nat (lh_n s) \<le> length (lh_block s)" and d: "distinct (logged s)"
    using assms by (auto simp: log_layout_def logged_def)
  show set: "set (logged s) = (\<lambda>t. lh_block s ! t) ` {..<nat (lh_n s)}"
    using len by (simp add: logged_def nth_image [symmetric] lessThan_atLeast0)
  show "card (set (logged s)) = nat (lh_n s)" using d len by (simp add: distinct_card logged_def)
  show "home s n" if "n \<in> set (logged s)" using that assms unfolding set by (auto simp: log_layout_def)
qed

lemma log_writes_fst: "fst ` set (log_writes s) = (\<lambda>t. log_start s + int t + 1) ` {..<nat (lh_n s)}"
  by (force simp: log_writes_def)

lemma home_writes_fst: "log_layout s \<Longrightarrow> fst ` set (home_writes s) = set (logged s)"
  unfolding logged_facts(1) by (force simp: home_writes_def)

text \<open>The log area, the header and the home blocks do not meet.\<close>

lemma areas_apart:
  assumes "log_layout s"
  shows "log_start s \<notin> fst ` set (log_writes s)" and "log_start s \<notin> set (logged s)"
    and "home s n \<Longrightarrow> n \<notin> fst ` set (log_writes s) \<and> n \<noteq> log_start s"
    and "t < nat (lh_n s) \<Longrightarrow> log_start s + int t + 1 \<notin> set (logged s)"
proof -
  have n: "0 \<le> lh_n s" "lh_n s < log_size s" using assms by (auto simp: log_layout_def)
  show "log_start s \<notin> fst ` set (log_writes s)" by (auto simp: log_writes_fst)
  show "log_start s \<notin> set (logged s)" using logged_facts(3) [OF assms, of "log_start s"] n by (auto simp: home_def)
  show "n \<notin> fst ` set (log_writes s) \<and> n \<noteq> log_start s" if "home s n" using that n by (auto simp: log_writes_fst home_def)
  show "log_start s + int t + 1 \<notin> set (logged s)" if "t < nat (lh_n s)"
    using logged_facts(3) [OF assms, of "log_start s + int t + 1"] that n by (auto simp: home_def)
qed

lemma log_writes_at:
  assumes "log_layout s" and "t < nat (lh_n s)"
  shows "apply_writes (log_writes s) d (log_start s + int t + 1) = view s (lh_block s ! t)"
  by (rule apply_writes_at) (use assms(2) in \<open>auto simp: log_writes_def distinct_map inj_on_def comp_def\<close>)

lemma home_writes_at:
  assumes "log_layout s"
  shows "n \<in> set (logged s) \<Longrightarrow> apply_writes (home_writes s) d n = view s n"
    and "set ws \<subseteq> set (home_writes s) \<Longrightarrow> n \<notin> set (logged s) \<Longrightarrow> apply_writes ws d n = d n"
proof -
  have inj: "inj_on (\<lambda>t. lh_block s ! t) {..<nat (lh_n s)}"
    using layout_distinct [OF assms] by (metis inj_on_def lessThan_iff)
  have "distinct (map fst (home_writes s))" using inj by (simp add: home_writes_def comp_def distinct_map lessThan_atLeast0)
  moreover have "(n, view s n) \<in> set (home_writes s)" if "n \<in> set (logged s)"
    using that unfolding logged_facts(1) [OF assms] by (auto simp: home_writes_def)
  ultimately show "n \<in> set (logged s) \<Longrightarrow> apply_writes (home_writes s) d n = view s n" by (rule apply_writes_at)
  show "set ws \<subseteq> set (home_writes s) \<Longrightarrow> n \<notin> set (logged s) \<Longrightarrow> apply_writes ws d n = d n"
    using home_writes_fst [OF assms] by (intro apply_writes_other) blast
qed

lemma commit_spec:
  assumes "log_ok s" and "0 < lh_n s" and "lh_n s < 30"
  shows "\<exists>s'. commit s = Inr s' \<and> quiet s' \<and> same_rest (s\<lparr>lh_n := 0\<rparr>) s' \<and> pinned s' = {} \<and>
    memdisk s' = apply_writes (commit_writes s) (memdisk s) \<and> disk_writes s' = disk_writes s @ commit_writes s"
proof -
  have q: "quiet s" and lay: "log_layout s" and pin: "pinned s = set (logged s)" using assms(1) by (simp_all add: log_ok_def)
  let ?n = "nat (lh_n s)"
  have card: "card (pinned s) = ?n" "?n < 30" using logged_facts(2) [OF lay] pin assms(3) by simp_all
  have room0: "room s 0" using card pin logged_facts(1) [OF lay] by (auto simp: room_def)
  have cur: "for_each (\<lambda>t s. cont_res (log_block s t)) [0..<?n] s = write_log s" by (simp add: write_log_def)
  obtain s1 where s1: "write_log s = Inr s1" "quiet s1" "same_rest s s1" "memdisk s1 = apply_writes (wlog.writes s ?n) (memdisk s)"
      "disk_writes s1 = disk_writes s @ wlog.writes s ?n" "view s1 = apply_writes (wlog.writes s ?n) (view s)"
      "pinned s1 = pinned s - (\<lambda>t. log_start s + int t + 1) ` {..<?n}"
    using wlog.loop_spec [OF q lay room0 order.refl] unfolding cur by blast
  have w1: "wlog.writes s ?n = log_writes s" by (simp add: wlog.writes_def log_writes_def)
  have p1: "pinned s1 = pinned s" using s1(7) areas_apart(4) [OF lay] pin by auto
  note r1 = same_rest_log [OF s1(3)]
  have lay1: "log_layout s1" using same_rest_layout(2) [OF s1(3)] lay by simp
  have h1: "memdisk s1 (log_start s) = memdisk s (log_start s)"
    unfolding s1(4) w1 by (rule apply_writes_other [OF areas_apart(1) [OF lay]])
  obtain s2 where s2: "write_head s1 = Inr s2" "quiet s2" "same_rest s1 s2" "memdisk s2 = (memdisk s1)(log_start s := full_head s)"
      "disk_writes s2 = disk_writes s1 @ [(log_start s, full_head s)]" "view s2 = (view s1)(log_start s := full_head s)" "pinned s2 = pinned s1"
    using write_head_spec [OF s1(2) lay1] card p1 areas_apart(2) [OF lay] pin h1 by (auto simp: r1 full_head_def Let_def)
  have rest2: "same_rest s s2" by (rule same_rest_trans [OF s1(3) s2(3)])
  note r2 = same_rest_log [OF rest2]
  have lay2: "log_layout s2" using same_rest_layout(2) [OF rest2] lay by simp
  have p2: "pinned s2 = set (logged s)" using s2(7) p1 pin by simp
  have room2: "room s2 0" using card p2 pin logged_facts(1) [OF lay] r2 by (auto simp: room_def)
  have cur2: "for_each (\<lambda>t s. cont_res (install_block s t)) [0..<nat (lh_n s2)] s2 = install_trans s2" by (simp add: install_trans_def)
  obtain s3 where s3: "install_trans s2 = Inr s3" "quiet s3" "same_rest s2 s3" "memdisk s3 = apply_writes (install.writes s2 (nat (lh_n s2))) (memdisk s2)"
      "disk_writes s3 = disk_writes s2 @ install.writes s2 (nat (lh_n s2))" "pinned s3 = pinned s2 - (\<lambda>t. lh_block s2 ! t) ` {..<nat (lh_n s2)}"
    using install.loop_spec [OF s2(2) lay2 room2 order.refl] unfolding cur2 by blast
  have w3: "install.writes s2 (nat (lh_n s2)) = home_writes s"
  proof -
    have "view s2 (log_start s + int t + 1) = view s (lh_block s ! t)" if "t < ?n" for t
      using log_writes_at [OF lay that] s2(6) s1(6) w1 by simp
    then show ?thesis by (simp add: install.writes_def home_writes_def r2)
  qed
  have p3: "pinned s3 = {}" using s3(6) p2 logged_facts(1) [OF lay] r2 by auto
  have rest3: "same_rest s s3" by (rule same_rest_trans [OF rest2 s3(3)])
  note r3 = same_rest_log [OF rest3]
  let ?s3 = "s3\<lparr>lh_n := 0\<rparr>"
  have "log_layout s3" using same_rest_layout(2) [OF rest3] lay by simp
  then have lay3: "log_layout ?s3" by (auto simp: log_layout_def home_def)
  have h3: "memdisk s3 (log_start s) = full_head s"
  proof -
    have "log_start s \<notin> fst ` set (home_writes s)" using home_writes_fst [OF lay] areas_apart(2) [OF lay] by simp
    then show ?thesis using s3(4) w3 s2(4) by (simp add: apply_writes_other)
  qed
  obtain s4 where s4: "write_head ?s3 = Inr s4" "quiet s4" "same_rest ?s3 s4" "memdisk s4 = (memdisk s3)(log_start s := empty_head s)"
      "disk_writes s4 = disk_writes s3 @ [(log_start s, empty_head s)]" "pinned s4 = {}"
    using write_head_spec [OF _ lay3] s3(2) p3 h3 by (auto simp: r3 empty_head_def Let_def)
  have "commit s = Inr s4" using assms(2) s1(1) s2(1) s3(1) s4(1) by (simp add: commit_def)
  moreover have "same_rest (s\<lparr>lh_n := 0\<rparr>) s4"
    using s4(3) rest3 unfolding same_rest_iff by (cases s, cases s3) simp
  moreover have "memdisk s4 = apply_writes (commit_writes s) (memdisk s)" "disk_writes s4 = disk_writes s @ commit_writes s"
    using s4(4,5) s3(4,5) s2(4,5) s1(4,5) by (simp_all add: w1 w3 commit_writes_def)
  ultimately show ?thesis using s4(2,6) by blast
qed

end
