(* ===== verification/Log_Recovery.thy ===== *)
theory Log_Recovery
  imports Log_Crash
begin

text \<open>
  Recovery from the log after a crash, the atomicity of a commit under a crash between any two of its
  disk writes, and the transactions of concurrent system calls as a transition system.
\<close>

subsection \<open>What recovery makes of a disk\<close>

definition replay_writes :: "int \<Rightarrow> (int \<Rightarrow> block) \<Rightarrow> (int \<times> block) list" where
  "replay_writes st d = map (\<lambda>t. (hdr_block (d st) t, d (st + int t + 1))) [0..<nat (hdr_n (d st))]"

definition replay :: "int \<Rightarrow> (int \<Rightarrow> block) \<Rightarrow> int \<Rightarrow> block" where
  "replay st d = apply_writes (replay_writes st d) d"

lemma replay_empty: "hdr_n (d st) = 0 \<Longrightarrow> replay st d = d"
  by (simp add: replay_def replay_writes_def)

subsection \<open>Crashes during a commit\<close>

lemma full_head_get:
  assumes "log_ok s"
  shows "hdr_n (full_head s) = lh_n s" and "t < nat (lh_n s) \<Longrightarrow> hdr_block (full_head s) t = lh_block s ! t"
    and "hdr_n (empty_head s) = 0"
proof -
  have lay: "log_layout s" using assms by (simp add: log_ok_def)
  have n: "0 \<le> lh_n s" "lh_n s \<le> 30" and a: "0 \<le> log_start s" "log_start s < disksize s"
    using lay by (auto simp: log_layout_def LOGSIZE_def)
  have i: "\<forall>t<nat (lh_n s). int32 (lh_block s ! t)"
    using lay assms by (fastforce simp: log_layout_def home_def int32_def log_ok_def)
  have q: "bc_ok s" using assms by (simp add: log_ok_def quiet_def)
  then have l: "length (memdisk s (log_start s)) = BSIZE" using a by (simp add: bc_ok_def wf_disk_def)
  show "hdr_n (full_head s) = lh_n s" "t < nat (lh_n s) \<Longrightarrow> hdr_block (full_head s) t = lh_block s ! t"
    unfolding full_head_def using new_head_get [OF l n i] by simp_all
  have lf: "length (full_head s) = BSIZE" using l by (simp add: full_head_def)
  show "hdr_n (empty_head s) = 0"
    unfolding empty_head_def using new_head_get(1) [OF lf, of 0 "lh_block s"] by simp
qed

text \<open>
  After the header has been written, a replay gives the new contents, however many of the home
  blocks have been written already.
\<close>

lemma replay_full:
  assumes "log_ok s" and "set ws \<subseteq> set (home_writes s)" and "home s n"
    and "d = apply_writes ws ((apply_writes (log_writes s) (memdisk s))(log_start s := full_head s))"
  shows "replay (log_start s) d n = view s n"
proof -
  have lay: "log_layout s" and q: "quiet s" and pin: "pinned s = set (logged s)" using assms(1) by (simp_all add: log_ok_def)
  have wsf: "fst ` set ws \<subseteq> set (logged s)" using assms(2) home_writes_fst [OF lay] by blast
  have dst: "d (log_start s) = full_head s"
    using areas_apart(2) [OF lay] wsf unfolding assms(4) by (subst apply_writes_other) auto
  have dlog: "d (log_start s + int t + 1) = view s (lh_block s ! t)" if "t < nat (lh_n s)" for t
    using areas_apart(4) [OF lay that] wsf log_writes_at [OF lay that] unfolding assms(4) by (subst apply_writes_other) auto
  have w: "replay_writes (log_start s) d = home_writes s"
    unfolding replay_writes_def home_writes_def dst full_head_get(1) [OF assms(1)]
    using full_head_get(2) [OF assms(1)] dlog by simp
  show ?thesis
  proof (cases "n \<in> set (logged s)")
    case True
    then show ?thesis using home_writes_at(1) [OF lay] by (simp add: replay_def w)
  next
    case False
    have nf: "n \<notin> fst ` set (log_writes s)" "n \<noteq> log_start s" using areas_apart(3) [OF lay assms(3)] by simp_all
    have "d n = memdisk s n"
      unfolding assms(4) using home_writes_at(2) [OF lay assms(2) False] nf by (simp add: apply_writes_other)
    moreover have "view s n = memdisk s n" by (rule quiet_view [OF q]) (use False pin in simp)
    ultimately show ?thesis using home_writes_at(2) [OF lay subset_refl False] by (simp add: replay_def w)
  qed
qed

lemma crash_in_commit:
  assumes "log_ok s" and "home s n"
  shows "replay (log_start s) (apply_writes (take k (commit_writes s)) (memdisk s)) n =
    (if k \<le> nat (lh_n s) then memdisk s n else view s n)"
proof -
  have lay: "log_layout s" using assms(1) by (simp add: log_ok_def)
  have ll: "length (log_writes s) = nat (lh_n s)" "length (home_writes s) = nat (lh_n s)" by (simp_all add: log_writes_def home_writes_def)
  have nf: "n \<notin> fst ` set (log_writes s)" "n \<noteq> log_start s" using areas_apart(3) [OF lay assms(2)] by simp_all
  show ?thesis
  proof (cases "k \<le> nat (lh_n s)")
    case True
    then have t: "take k (commit_writes s) = take k (log_writes s)" using ll by (simp add: commit_writes_def)
    have sub: "fst ` set (take k (log_writes s)) \<subseteq> fst ` set (log_writes s)" using set_take_subset by fastforce
    have "apply_writes (take k (log_writes s)) (memdisk s) (log_start s) = memdisk s (log_start s)"
      by (rule apply_writes_other) (use sub areas_apart(1) [OF lay] in blast)
    then have "replay (log_start s) (apply_writes (take k (log_writes s)) (memdisk s)) = apply_writes (take k (log_writes s)) (memdisk s)"
      using assms(1) by (intro replay_empty) (simp add: log_ok_def)
    moreover have "apply_writes (take k (log_writes s)) (memdisk s) n = memdisk s n"
      by (rule apply_writes_other) (use sub nf(1) in blast)
    ultimately show ?thesis using t True by simp
  next
    case False
    then obtain j where j: "k = Suc (nat (lh_n s) + j)" by (metis add_Suc_right less_imp_Suc_add not_le)
    have t: "take k (commit_writes s) = log_writes s @ (log_start s, full_head s) # take j (home_writes s @ [(log_start s, empty_head s)])"
      using ll by (simp add: commit_writes_def j)
    show ?thesis
    proof (cases "j \<le> nat (lh_n s)")
      case True
      then have tj: "take j (home_writes s @ [(log_start s, empty_head s)]) = take j (home_writes s)" using ll by simp
      have sub: "set (take j (home_writes s)) \<subseteq> set (home_writes s)" by (rule set_take_subset)
      show ?thesis using replay_full [OF assms(1) sub assms(2) refl] False t tj by simp
    next
      case jn: False
      then have tj: "take j (home_writes s @ [(log_start s, empty_head s)]) = home_writes s @ [(log_start s, empty_head s)]" using ll by simp
      let ?d = "apply_writes (home_writes s) ((apply_writes (log_writes s) (memdisk s))(log_start s := full_head s))"
      have "hdr_n ((?d(log_start s := empty_head s)) (log_start s)) = 0" using full_head_get(3) [OF assms(1)] by simp
      then have "replay (log_start s) (?d(log_start s := empty_head s)) n = ?d n"
        using nf(2) by (simp only: replay_empty) simp
      moreover have "?d n = view s n"
      proof (cases "n \<in> set (logged s)")
        case True
        then show ?thesis by (rule home_writes_at(1) [OF lay])
      next
        case out: False
        have "view s n = memdisk s n" by (rule quiet_view) (use assms(1) out in \<open>simp_all add: log_ok_def\<close>)
        then show ?thesis using home_writes_at(2) [OF lay subset_refl out] nf by (simp add: apply_writes_other)
      qed
      ultimately show ?thesis using False t tj by simp
    qed
  qed
qed

subsection \<open>Recovery\<close>

text \<open>A disk that recovery can work on: whole blocks, a super block that names the log, a
  header within bounds that lists neither the super block nor the log itself.\<close>

definition log_disk :: "(int \<Rightarrow> block) \<Rightarrow> int \<Rightarrow> int \<Rightarrow> bool" where
  "log_disk d sz st \<longleftrightarrow> wf_disk d sz \<and> 1 < sz \<and> sz \<le> 2 ^ 31 \<and> uint (get32 (d 1) 16) = st \<and> 0 \<le> st \<and> st + uint (get32 (d 1) 12) \<le> sz \<and> hdr_n (d st) < uint (get32 (d 1) 12) \<and>
     0 \<le> hdr_n (d st) \<and> hdr_n (d st) \<le> int LOGSIZE \<and> distinct (map (hdr_block (d st)) [0..<nat (hdr_n (d st))]) \<and>
     (\<forall>t<nat (hdr_n (d st)). 0 \<le> hdr_block (d st) t \<and> hdr_block (d st) t < sz \<and>
        \<not> (st \<le> hdr_block (d st) t \<and> hdr_block (d st) t < st + uint (get32 (d 1) 12)) \<and> hdr_block (d st) t \<noteq> 1) \<and>
     \<not> (st \<le> 1 \<and> 1 < st + uint (get32 (d 1) 12))"

text \<open>A machine that has just been switched on: nothing cached, nothing held.\<close>

definition booted :: "'a fsys_scheme \<Rightarrow> bool" where
  "booted s \<longleftrightarrow> bc_ok s \<and> holds s {} \<and> pinned s = {} \<and> length (lh_block s) = LOGSIZE"

lemma readsb_spec:
  assumes "bc_ok s" and "holds s {}" and "pinned s = {}" and "1 < disksize s"
  shows "\<exists>s1 sb. readsb s 1 = Inr (s1, sb) \<and> same_rest s s1 \<and> bc_ok s1 \<and> holds s1 {} \<and> pinned s1 = {} \<and>
    memdisk s1 = memdisk s \<and> disk_writes s1 = disk_writes s \<and>
    sb = \<lparr>sb_size = uint (get32 (memdisk s 1) 0), sb_nblocks = uint (get32 (memdisk s 1) 4), sb_ninodes = uint (get32 (memdisk s 1) 8),
      sb_nlog = uint (get32 (memdisk s 1) 12), sb_logstart = uint (get32 (memdisk s 1) 16),
      sb_inodestart = uint (get32 (memdisk s 1) 20), sb_bmapstart = uint (get32 (memdisk s 1) 24)\<rparr>"
proof -
  obtain i x where 1: "bread s 1 1 = Inr (s\<lparr>bufs := (bufs s)[i := x]\<rparr>, int i)"
      "bc_ok (s\<lparr>bufs := (bufs s)[i := x]\<rparr>)" "holds (s\<lparr>bufs := (bufs s)[i := x]\<rparr>) {i}"
      "cached (content (s\<lparr>bufs := (bufs s)[i := x]\<rparr>)) 1 i"
      "view (s\<lparr>bufs := (bufs s)[i := x]\<rparr>) = view s" "pinned (s\<lparr>bufs := (bufs s)[i := x]\<rparr>) = pinned s"
    using bread_spec [OF assms(1,2), of 1] assms(3,4) by auto
  define s1 where "s1 = s\<lparr>bufs := (bufs s)[i := x]\<rparr>"
  note 1 = 1 [folded s1_def]
  have d1: "memdisk s1 = memdisk s" "disk_writes s1 = disk_writes s" and r1: "same_rest s s1"
    by (simp_all add: s1_def same_restI)
  have v: "view s1 1 = memdisk s 1" using 1(5) unpinned_view [OF assms(1,2), of 1] assms(3) by simp
  have "length (memdisk s 1) = BSIZE" using assms(1,4) by (simp add: bc_ok_def wf_disk_def)
  then have ld: "ld32 (memdisk s 1) k = Inr (get32 (memdisk s 1) (nat k))" if "0 \<le> k" "k \<le> 24" for k
    using that by (simp add: ld32_def BSIZE_def)
  have "view s1 1 = memdisk s1 1" using v d1 by simp
  then obtain s2 where s2: "brelse s1 (int i) = Inr s2" "same_rest s1 s2" "bc_ok s2" "holds s2 {}"
      "memdisk s2 = memdisk s1" "disk_writes s2 = disk_writes s1" "pinned s2 = pinned s1"
    using brelse_spec [OF 1(2,3) _ 1(4)] by auto
  have "get_data s1 (int i) = Inr (memdisk s 1)" using get_data_spec [OF 1(2,4)] v by simp
  then show ?thesis
    using 1(1,6) s2 same_rest_trans [OF r1 s2(2)] assms(3) d1 by (simp add: readsb_def ld)
qed

lemma head_read_loop:
  assumes "length h = BSIZE" and "length bl = LOGSIZE" and "k \<le> LOGSIZE"
  shows "for_each (\<lambda>i s. cont_res (rbind (ld32 h (4 + 4 * int i)) (\<lambda>v.
            rbind (arr_set (lh_block s) (int i) (sint v)) (\<lambda>l. Inr (s\<lparr>lh_block := l\<rparr>))))) [0..<k] (s\<lparr>lh_block := bl\<rparr>) =
    Inr (s\<lparr>lh_block := map (hdr_block h) [0..<k] @ drop k bl\<rparr>)"
  using assms(3)
proof (induction k)
  case 0
  then show ?case by simp
next
  case (Suc k)
  let ?F = "\<lambda>i s. cont_res (rbind (ld32 h (4 + 4 * int i)) (\<lambda>v.
            rbind (arr_set (lh_block s) (int i) (sint v)) (\<lambda>l. Inr (s\<lparr>lh_block := l\<rparr>))))"
  have "nat (4 + 4 * int k) = 4 + 4 * k" by (simp add: nat_add_distrib nat_mult_distrib)
  then have ld: "ld32 h (4 + 4 * int k) = Inr (get32 h (4 + 4 * k))"
    using Suc.prems assms(1) by (simp add: ld32_def BSIZE_def LOGSIZE_def)
  have dr: "drop k bl = bl ! k # drop (Suc k) bl" using Suc.prems assms(2) by (simp add: Cons_nth_drop_Suc)
  have "for_each ?F ([0..<k] @ [k]) (s\<lparr>lh_block := bl\<rparr>) = rbind (for_each ?F [0..<k] (s\<lparr>lh_block := bl\<rparr>)) (for_each ?F [k])"
    by (rule for_each_append) (auto simp: cont_res_def cont_def rbind_eq_Inr)
  moreover have "for_each ?F [0..<k] (s\<lparr>lh_block := bl\<rparr>) = Inr (s\<lparr>lh_block := map (hdr_block h) [0..<k] @ drop k bl\<rparr>)"
    using Suc by simp
  ultimately show ?case using ld dr assms(2) Suc.prems by (simp add: list_update_append hdr_block_def)
qed

lemma read_head_spec:
  assumes "quiet s" and "card (pinned s) < 30 \<and> log_start s \<notin> pinned s" and "0 \<le> log_start s" and "log_start s < disksize s" and "length (lh_block s) = LOGSIZE"
    and "h = memdisk s (log_start s)" and "0 \<le> hdr_n h" and "hdr_n h \<le> int LOGSIZE"
  shows "\<exists>s'. read_head s = Inr s' \<and> quiet s' \<and> pinned s' = pinned s \<and> memdisk s' = memdisk s \<and> disk_writes s' = disk_writes s \<and>
    same_rest (s\<lparr>lh_n := hdr_n h, lh_block := map (hdr_block h) [0..<nat (hdr_n h)] @ drop (nat (hdr_n h)) (lh_block s)\<rparr>) s'"
proof -
  obtain s1 i where s1: "bread s 1 (log_start s) = Inr (s1, int i)" "same_rest s s1" "bc_ok s1" "holds s1 {i}"
      "cached (content s1) (log_start s) i"
      "memdisk s1 = memdisk s" "disk_writes s1 = disk_writes s" "view s1 = view s" "pinned s1 = pinned s"
    using read_one [OF assms(1,3,4)] assms(2) by auto
  have dev: "log_dev s = 1" using assms(1) by (simp add: quiet_def)
  note r1 = same_rest_log [OF s1(2)]
  have v: "view s1 (log_start s) = h" using s1(8) quiet_view [OF assms(1), of "log_start s"] assms(2,6) by simp
  have l: "length h = BSIZE" using assms(1,3,4,6) by (simp add: quiet_def bc_ok_def wf_disk_def)
  have ld: "ld32 h 0 = Inr (get32 h 0)" using ld32_ok [of 0 h] l by (simp add: BSIZE_def)
  let ?s2 = "s1\<lparr>lh_n := hdr_n h, lh_block := map (hdr_block h) [0..<nat (hdr_n h)] @ drop (nat (hdr_n h)) (lh_block s)\<rparr>"
  have loop: "for_each (\<lambda>i s. cont_res (rbind (ld32 h (4 + 4 * int i)) (\<lambda>v.
            rbind (arr_set (lh_block s) (int i) (sint v)) (\<lambda>l. Inr (s\<lparr>lh_block := l\<rparr>))))) [0..<nat (hdr_n h)] (s1\<lparr>lh_n := hdr_n h\<rparr>) = Inr ?s2"
  proof -
    have e: "s1\<lparr>lh_n := hdr_n h\<rparr> = s1\<lparr>lh_n := hdr_n h, lh_block := lh_block s\<rparr>" by (simp add: r1(7) [symmetric])
    show ?thesis using head_read_loop [OF l assms(5), of "nat (hdr_n h)" "s1\<lparr>lh_n := hdr_n h\<rparr>"] assms(8)
      unfolding e [symmetric] by simp
  qed
  have g: "get_data s1 (int i) = Inr h" using get_data_spec [OF s1(3,5)] v by simp
  have vm: "view ?s2 (log_start s) = memdisk ?s2 (log_start s)" using v s1(6) assms(6) by simp
  have "log_dev ?s2 = 1" using r1 dev by simp
  then obtain s3 where s3: "brelse ?s2 (int i) = Inr s3" "same_rest ?s2 s3" "quiet s3"
      "memdisk s3 = memdisk ?s2" "disk_writes s3 = disk_writes ?s2" "pinned s3 = pinned ?s2"
    using release_one [of ?s2 i "log_start s"] s1(3-5) vm by auto
  have "read_head s = Inr s3"
    using s1(1) g ld loop s3(1) dev by (simp add: read_head_def Let_def hdr_n_def [symmetric])
  moreover have "same_rest (s\<lparr>lh_n := hdr_n h, lh_block := map (hdr_block h) [0..<nat (hdr_n h)] @ drop (nat (hdr_n h)) (lh_block s)\<rparr>) s3"
    using s3(2) s1(2) unfolding same_rest_iff by (cases s, cases s1) simp
  ultimately show ?thesis using s3(3-6) s1(6,7,9) assms(2) by auto
qed

end
