(* ===== verification/Transactions.thy ===== *)
theory Transactions
  imports Log_Recovery
begin

text \<open>
  Transactions: \<open>initlog\<close> on any disk a crash can leave, and the system calls between \<open>begin_op\<close> and
  \<open>end_op\<close> as a transition system, with the atomicity of transactions as its main theorem.
\<close>

subsection \<open>Recovery of a disk\<close>

definition recovery_writes :: "int \<Rightarrow> (int \<Rightarrow> block) \<Rightarrow> (int \<times> block) list" where
  "recovery_writes st d = replay_writes st d @ [(st, put32 (d st) 0 0)]"

lemma log_disk_layout:
  assumes "log_disk d sz st" and "length bl = LOGSIZE" and "lh_n s = hdr_n (d st)" and "log_size s = uint (get32 (d 1) 12)" and "log_start s = st" and "disksize s = sz"
    and "lh_block s = map (hdr_block (d st)) [0..<nat (hdr_n (d st))] @ drop (nat (hdr_n (d st))) bl"
  shows "log_layout s"
  using assms by (auto simp: log_disk_def log_layout_def home_def nth_append)

lemma replay_writes_other:
  assumes "log_disk d sz st" and "st \<le> n" and "n < st + uint (get32 (d 1) 12)"
  shows "n \<notin> fst ` set (replay_writes st d)"
  using assms by (fastforce simp: replay_writes_def log_disk_def)

lemma new_head_0: "new_head 0 bs h = put32 h 0 0"
  by (simp add: new_head_def)

lemma cleared_head: "length h = BSIZE \<Longrightarrow> hdr_n (put32 h 0 0) = 0"
  by (simp add: hdr_n_def get32_put32 BSIZE_def)

lemma recover_spec:
  assumes "quiet s" and "pinned s = {}" and "length (lh_block s) = LOGSIZE" and "log_disk (memdisk s) (disksize s) (log_start s)"
    and "log_size s = uint (get32 (memdisk s 1) 12)"
  shows "\<exists>s'. recover_from_log s = Inr s' \<and> log_ok s' \<and> lh_n s' = 0 \<and> log_start s' = log_start s \<and> log_size s' = log_size s \<and>
    disksize s' = disksize s \<and> outstanding s' = outstanding s \<and> committing s' = committing s \<and>
    memdisk s' = apply_writes (recovery_writes (log_start s) (memdisk s)) (memdisk s) \<and>
    disk_writes s' = disk_writes s @ recovery_writes (log_start s) (memdisk s)"
proof -
  let ?d = "memdisk s" and ?st = "log_start s"
  let ?h = "?d ?st"
  have ld: "0 \<le> ?st" "?st < disksize s" "0 \<le> hdr_n ?h" "hdr_n ?h \<le> int LOGSIZE" "disksize s \<le> 2 ^ 31" "length ?h = BSIZE"
    using assms(4) by (auto simp: log_disk_def wf_disk_def)
  let ?bl = "map (hdr_block ?h) [0..<nat (hdr_n ?h)] @ drop (nat (hdr_n ?h)) (lh_block s)"
  obtain s1 where s1: "read_head s = Inr s1" "quiet s1" "pinned s1 = {}" "memdisk s1 = ?d" "disk_writes s1 = disk_writes s"
      "same_rest (s\<lparr>lh_n := hdr_n ?h, lh_block := ?bl\<rparr>) s1"
    using read_head_spec [OF assms(1) _ ld(1,2) assms(3) refl ld(3,4)] assms(2) by auto
  have f1: "lh_n s1 = hdr_n ?h" "log_start s1 = ?st" "disksize s1 = disksize s" "lh_block s1 = ?bl" "log_size s1 = uint (get32 (?d 1) 12)"
      "outstanding s1 = outstanding s" "committing s1 = committing s"
    using same_rest_log [OF s1(6)] assms(5) by simp_all
  have lay: "log_layout s1" by (rule log_disk_layout [OF assms(4,3) f1(1,5,2,3,4)])
  have room: "room s1 0" by (simp add: room_def s1(3))
  have cur: "for_each (\<lambda>t s. cont_res (install_block s t)) [0..<nat (lh_n s1)] s1 = install_trans s1" by (simp add: install_trans_def)
  obtain s2 where s2: "install_trans s1 = Inr s2" "quiet s2" "same_rest s1 s2" "memdisk s2 = apply_writes (install.writes s1 (nat (lh_n s1))) ?d"
      "disk_writes s2 = disk_writes s @ install.writes s1 (nat (lh_n s1))" "pinned s2 = {}"
    using install.loop_spec [OF s1(2) lay room order.refl] unfolding cur s1(3-5) by auto
  have v1: "view s1 n = ?d n" for n using quiet_view [OF s1(2), of n] s1(3,4) by simp
  have w: "install.writes s1 (nat (lh_n s1)) = replay_writes ?st ?d"
    by (simp add: install.writes_def replay_writes_def f1 v1 nth_append)
  note r2 = same_rest_log [OF s2(3)]
  let ?s2 = "s2\<lparr>lh_n := 0\<rparr>"
  have "log_layout s2" using same_rest_layout(2) [OF s2(3)] lay by simp
  then have lay2: "log_layout ?s2" by (auto simp: log_layout_def home_def)
  have h2: "memdisk s2 ?st = ?h"
    unfolding s2(4) w by (rule apply_writes_other) (rule replay_writes_other [OF assms(4)], use assms(4) in \<open>simp_all add: log_disk_def\<close>)
  obtain s3 where s3: "write_head ?s2 = Inr s3" "quiet s3" "same_rest ?s2 s3" "memdisk s3 = (memdisk s2)(?st := put32 ?h 0 0)"
      "disk_writes s3 = disk_writes s2 @ [(?st, put32 ?h 0 0)]" "pinned s3 = {}"
    using write_head_spec [OF _ lay2] s2(2,6) h2 by (auto simp: r2 f1 new_head_0 Let_def)
  note r3 = same_rest_log [OF s3(3)]
  have "recover_from_log s = Inr s3" using s1(1) s2(1) s3(1) by (simp add: recover_from_log_def)
  moreover have "log_layout s3" using same_rest_layout(2) [OF s3(3)] lay2 by simp
  moreover have n3: "lh_n s3 = 0" using r3 by simp
  moreover have "hdr_n (memdisk s3 (log_start s3)) = 0" using s3(4) r3 r2 f1 cleared_head [OF ld(6)] by simp
  ultimately show ?thesis
    using s3 s2(4,5) w r2 r3 f1 ld(5) assms(5) by (simp add: log_ok_def logged_def recovery_writes_def)
qed

text \<open>\<open>initlog\<close> on a machine just switched on.\<close>

lemma initlog_spec:
  assumes "booted s" and "log_disk (memdisk s) (disksize s) st"
  shows "\<exists>s'. initlog s 1 = Inr s' \<and> log_ok s' \<and> lh_n s' = 0 \<and> log_start s' = st \<and> disksize s' = disksize s \<and>
    log_size s' = uint (get32 (memdisk s 1) 12) \<and> outstanding s' = outstanding s \<and> committing s' = committing s \<and>
    memdisk s' = apply_writes (recovery_writes st (memdisk s)) (memdisk s) \<and>
    disk_writes s' = disk_writes s @ recovery_writes st (memdisk s)"
proof -
  have b: "bc_ok s" "holds s {}" "pinned s = {}" "length (lh_block s) = LOGSIZE" using assms(1) by (simp_all add: booted_def)
  have sz: "1 < disksize s" and st: "uint (get32 (memdisk s 1) 16) = st" using assms(2) by (simp_all add: log_disk_def)
  obtain s1 sb where s1: "readsb s 1 = Inr (s1, sb)" "same_rest s s1" "bc_ok s1" "holds s1 {}" "pinned s1 = {}"
      "memdisk s1 = memdisk s" "disk_writes s1 = disk_writes s" "sb_logstart sb = st" "sb_nlog sb = uint (get32 (memdisk s 1) 12)"
    using readsb_spec [OF b(1-3) sz] st by auto
  note r1 = same_rest_log [OF s1(2)]
  let ?s1 = "s1\<lparr>log_start := st, log_size := sb_nlog sb, log_dev := 1\<rparr>"
  have q: "quiet ?s1" using s1(3,4) by (simp add: quiet_def)
  obtain s2 where "recover_from_log ?s1 = Inr s2" "log_ok s2" "lh_n s2 = 0" "log_start s2 = st" "log_size s2 = sb_nlog sb"
      "disksize s2 = disksize s" "outstanding s2 = outstanding s" "committing s2 = committing s"
      "memdisk s2 = apply_writes (recovery_writes st (memdisk s)) (memdisk s)" "disk_writes s2 = disk_writes s @ recovery_writes st (memdisk s)"
    using recover_spec [OF q] s1 b(4) assms(2) r1 by auto
  moreover have "\<not> BSIZE \<le> 4 + 4 * LOGSIZE" by (simp add: BSIZE_def LOGSIZE_def)
  ultimately show ?thesis using s1 by (simp add: initlog_def)
qed

text \<open>A home block after recovery is what the replay says.\<close>

lemma recovered_home:
  assumes "log_disk d sz st" and "n \<noteq> st"
  shows "apply_writes (recovery_writes st d) d n = replay st d n"
  using assms(2) by (simp add: recovery_writes_def replay_def)

text \<open>A crash during recovery costs nothing: recovering again gives the same.\<close>

lemma crash_in_recovery:
  assumes "log_disk d sz st" and "\<not> (st \<le> n \<and> n < st + uint (get32 (d 1) 12))"
  shows "replay st (apply_writes (take k (recovery_writes st d)) d) n = replay st d n"
proof (cases "k \<le> length (replay_writes st d)")
  case True
  let ?ws = "take k (replay_writes st d)"
  define e where "e = apply_writes ?ws d"
  have sub: "fst ` set ?ws \<subseteq> fst ` set (replay_writes st d)" using set_take_subset by fastforce
  have same: "e m = d m" if "st \<le> m" "m < st + uint (get32 (d 1) 12)" for m
    unfolding e_def by (rule apply_writes_other) (use sub replay_writes_other [OF assms(1) that] in blast)
  have hn: "0 \<le> hdr_n (d st)" "hdr_n (d st) < uint (get32 (d 1) 12)" using assms(1) by (simp_all add: log_disk_def)
  have "replay_writes st e = replay_writes st d"
    using hn by (simp add: replay_writes_def same)
  moreover have "apply_writes (replay_writes st d) e n = apply_writes (replay_writes st d) d n"
  proof (cases "n \<in> fst ` set (replay_writes st d)")
    case True
    then obtain x where x: "(n, x) \<in> set (replay_writes st d)" by force
    have "distinct (map fst (replay_writes st d))" using assms(1) by (simp add: replay_writes_def log_disk_def comp_def)
    then show ?thesis using x by (simp add: apply_writes_at)
  next
    case False
    then have "e n = d n" using sub unfolding e_def by (intro apply_writes_other) blast
    then show ?thesis using False by (simp add: apply_writes_other)
  qed
  ultimately have "replay st e n = replay st d n" by (simp add: replay_def)
  then show ?thesis using True by (simp add: recovery_writes_def e_def)
next
  case False
  then have t: "take k (recovery_writes st d) = recovery_writes st d" by (simp add: recovery_writes_def)
  have "length (d st) = BSIZE" using assms(1) by (simp add: log_disk_def wf_disk_def)
  then have "hdr_n (((apply_writes (replay_writes st d) d)(st := put32 (d st) 0 0)) st) = 0" by (simp add: cleared_head)
  then have "replay st ((apply_writes (replay_writes st d) d)(st := put32 (d st) 0 0)) = (apply_writes (replay_writes st d) d)(st := put32 (d st) 0 0)"
    by (rule replay_empty)
  then have "replay st (apply_writes (recovery_writes st d) d) n = ((apply_writes (replay_writes st d) d)(st := put32 (d st) 0 0)) n"
    by (simp add: recovery_writes_def)
  moreover have "n \<noteq> st" using assms by (auto simp: log_disk_def)
  ultimately show ?thesis using t by (simp add: replay_def)
qed

subsection \<open>Recording a block in the log\<close>

lemma log_index_from:
  assumes "cnt \<le> length bs" and "a \<le> cnt"
  shows "for_each (\<lambda>i r. rbind (arr_get bs (int i)) (\<lambda>v. if v = n then brk (int i) else cont (int i + 1))) [a..<cnt] (int a) =
    Inr (case List.find (\<lambda>i. bs ! i = n) [a..<cnt] of None \<Rightarrow> int cnt | Some i \<Rightarrow> int i)"
  using assms(2)
proof (induction "cnt - a" arbitrary: a)
  case 0
  then show ?case by simp
next
  case (Suc k)
  then have up: "[a..<cnt] = a # [Suc a..<cnt]" by (simp add: upt_conv_Cons)
  have e: "int a + 1 = int (Suc a)" by simp
  have k: "k = cnt - Suc a" "Suc a \<le> cnt" using Suc(2,3) by simp_all
  show ?case using Suc(1) [OF k] Suc(2,3) assms(1) unfolding up by (simp add: brk_def cont_def e del: of_nat_Suc)
qed

lemma log_index_spec:
  assumes "log_layout s"
  shows "\<exists>k. log_index (lh_block s) n (nat (lh_n s)) = Inr (int k) \<and>
    (if n \<in> set (logged s) then k < nat (lh_n s) \<and> lh_block s ! k = n else k = nat (lh_n s))"
proof -
  have len: "nat (lh_n s) \<le> length (lh_block s)" "0 \<le> lh_n s" using assms by (auto simp: log_layout_def)
  let ?P = "\<lambda>i. lh_block s ! i = n"
  have run: "log_index (lh_block s) n (nat (lh_n s)) = Inr (case List.find ?P [0..<nat (lh_n s)] of None \<Rightarrow> int (nat (lh_n s)) | Some i \<Rightarrow> int i)"
    using log_index_from [OF len(1), of 0 n] by (simp add: log_index_def)
  show ?thesis
  proof (cases "List.find ?P [0..<nat (lh_n s)]")
    case None
    then have "n \<notin> set (logged s)" unfolding logged_facts(1) [OF assms] by (auto simp: find_None_iff)
    then show ?thesis using run None by auto
  next
    case (Some i)
    then have i: "i < nat (lh_n s)" "?P i" by (auto simp: find_Some_iff)
    then have "n \<in> set (logged s)" unfolding logged_facts(1) [OF assms] by auto
    then show ?thesis using run Some i by auto
  qed
qed

lemma pin_spec:
  assumes "bc_ok s" and "holds s H" and "i \<in> H" and "cached (content s) n i"
  shows "\<exists>s'. mod_buf s (int i) (\<lambda>b. b\<lparr>B_DIRTY := True\<rparr>) = Inr s' \<and> same_rest s s' \<and> bc_ok s' \<and> holds s' H \<and> cached (content s') n i \<and>
    memdisk s' = memdisk s \<and> disk_writes s' = disk_writes s \<and> view s' = view s \<and> pinned s' = insert n (pinned s)"
proof -
  have len: "length (bufs s) = 30" by (rule ok_length [OF assms(1)])
  have i: "i < 30" using assms(4) len by (simp add: cached_def)
  have wf: "wf_content (content s) (disksize s)" using assms(1) by (simp add: bc_ok_def)
  have dv: "data (bufs s ! i) = view s n" using view_cached [OF wf assms(4)] i len by simp
  have l: "length (view s n) = BSIZE" using view_cached [OF wf assms(4)] assms(4) wf by (auto simp: wf_content_def cached_def)
  let ?b = "(bufs s ! i)\<lparr>B_DIRTY := True\<rparr>"
  let ?s = "s\<lparr>bufs := (bufs s)[i := ?b]\<rparr>"
  have eq: "(bufs s ! i)\<lparr>B_DIRTY := True, data := view s n\<rparr> = ?b" using dv by (cases "bufs s ! i") simp
  have run: "mod_buf s (int i) (\<lambda>b. b\<lparr>B_DIRTY := True\<rparr>) = Inr ?s" using i len by simp
  have "?s = s\<lparr>bufs := (bufs s)[i := ?b], memdisk := memdisk s, disk_writes := disk_writes s\<rparr>" by simp
  moreover have "same_rest s ?s" by (rule same_restI)
  ultimately show ?thesis
    using hold_upd [OF assms l, where disk' = "memdisk s" and b = True and w = "disk_writes s"] run assms(4) unfolding eq
    by (simp add: Let_def)
qed

text \<open>One update inside a transaction: the disk keeps its contents, readers see the new block, and the block is logged.\<close>

lemma log_update_spec:
  assumes "log_ok s" and "home s n" and "0 < outstanding s" and "lh_n s < 30" and "lh_n s < log_size s - 1"
    and "\<And>d. length d = BSIZE \<Longrightarrow> length (f d) = BSIZE"
  shows "\<exists>s'. log_update s n f = Inr s' \<and> log_ok s' \<and> memdisk s' = memdisk s \<and> disk_writes s' = disk_writes s \<and>
    view s' = (view s)(n := f (view s n)) \<and>
    logged s' = (if n \<in> set (logged s) then logged s else logged s @ [n]) \<and>
    lh_n s' = (if n \<in> set (logged s) then lh_n s else lh_n s + 1) \<and>
    log_start s' = log_start s \<and> log_size s' = log_size s \<and> disksize s' = disksize s \<and> outstanding s' = outstanding s \<and> committing s' = committing s \<and>
    curpid s' = curpid s \<and> fsys.more s' = fsys.more s"
proof -
  have q: "quiet s" and lay: "log_layout s" and pin: "pinned s = set (logged s)" and sz: "disksize s \<le> 2 ^ 31"
    and h0: "hdr_n (memdisk s (log_start s)) = 0" using assms(1) by (simp_all add: log_ok_def)
  have n: "0 \<le> n" "n < disksize s" using assms(2) by (simp_all add: home_def)
  have dev: "log_dev s = 1" and bc: "bc_ok s" using q by (simp_all add: quiet_def)
  have card: "card (pinned s) < 30" using logged_facts(2) [OF lay] pin assms(4) by simp
  obtain s1 i where s1: "bread s 1 n = Inr (s1, int i)" "same_rest s s1" "bc_ok s1" "holds s1 {i}" "cached (content s1) n i"
      "memdisk s1 = memdisk s" "disk_writes s1 = disk_writes s" "view s1 = view s" "pinned s1 = pinned s"
    using read_one [OF q n card] by blast
  have len: "length (f (view s n)) = BSIZE" by (rule assms(6)) (rule view_length [OF bc n])
  obtain s2 where s2: "set_data s1 (int i) (f (view s n)) = Inr s2" "same_rest s1 s2" "bc_ok s2" "holds s2 {i}" "cached (content s2) n i"
      "memdisk s2 = memdisk s1" "disk_writes s2 = disk_writes s1" "view s2 = (view s1)(n := f (view s n))" "pinned s2 = pinned s1"
    using set_data_spec [OF s1(3,4) _ s1(5) len] by blast
  note r2 = same_rest_log [OF same_rest_trans [OF s1(2) s2(2)]]
  let ?in = "n \<in> set (logged s)"
  have bl: "length (lh_block s) = 30" "0 \<le> lh_n s" using lay by (simp_all add: log_layout_def LOGSIZE_def)
  obtain k where idx: "log_index (lh_block s) n (nat (lh_n s)) = Inr (int k)"
    and k: "if ?in then k < nat (lh_n s) \<and> lh_block s ! k = n else k = nat (lh_n s)" using log_index_spec [OF lay] by blast
  have kb: "k < 30" using k assms(4) bl(2) by (cases ?in) auto
  let ?l = "(lh_block s)[k := n]" and ?n = "if ?in then lh_n s else lh_n s + 1"
  have l_in: "?in \<Longrightarrow> ?l = lh_block s" using k list_update_same_conv [of k "lh_block s" n] kb bl(1) by auto
  let ?s3 = "s2\<lparr>lh_block := ?l, lh_n := ?n\<rparr>"
  have logged3: "logged ?s3 = (if ?in then logged s else logged s @ [n])"
  proof (cases ?in)
    case True
    then show ?thesis using l_in by (simp add: logged_def)
  next
    case False
    have "nat (lh_n s + 1) = Suc (nat (lh_n s))" using bl(2) by simp
    moreover have "k = nat (lh_n s)" using k False by simp
    ultimately show ?thesis using False kb bl(1) by (simp add: logged_def take_Suc_conv_app_nth)
  qed
  have hold3: "bc_ok ?s3" "holds ?s3 {i}" "cached (content ?s3) n i" "memdisk ?s3 = memdisk s" "disk_writes ?s3 = disk_writes s"
      "view ?s3 = (view s)(n := f (view s n))" "pinned ?s3 = pinned s"
    using s2(3-9) s1(6-9) by simp_all
  obtain s4 where s4: "mod_buf ?s3 (int i) (\<lambda>b. b\<lparr>B_DIRTY := True\<rparr>) = Inr s4" "same_rest ?s3 s4" "bc_ok s4" "holds s4 {i}" "cached (content s4) n i"
      "memdisk s4 = memdisk ?s3" "disk_writes s4 = disk_writes ?s3" "view s4 = view ?s3" "pinned s4 = insert n (pinned ?s3)"
    using pin_spec [OF hold3(1,2) _ hold3(3)] by blast
  have ib: "get_buf s2 (int i) = Inr (bufs s2 ! i)" "blockno (bufs s2 ! i) = n"
    using s2(5) ok_length [OF s2(3)] by (auto simp: cached_def)
  have "log_write s2 (int i) = Inr s4"
  proof (cases ?in)
    case True
    then have "int k \<noteq> lh_n s" using k bl(2) by auto
    then show ?thesis using True assms(3-5) s4(1) ib idx kb bl(1) r2 by (simp add: log_write_def LOGSIZE_def)
  next
    case False
    then have ln: "lh_n s = int k" using k bl(2) by simp
    show ?thesis using False assms(3-5) s4(1) ib idx kb bl(1) r2 by (simp add: log_write_def LOGSIZE_def ln)
  qed
  moreover have dev4: "log_dev s4 = 1" using same_rest_log(5) [OF s4(2)] r2 dev by simp
  then obtain s5 where s5: "brelse s4 (int i) = Inr s5" "same_rest s4 s5" "quiet s5" "memdisk s5 = memdisk s4"
      "disk_writes s5 = disk_writes s4" "view s5 = view s4" "pinned s5 = pinned s4"
    using release_one [OF s4(3,4,5) _ dev4] s4(9) by auto
  moreover have "get_data s1 (int i) = Inr (view s n)" using get_data_spec [OF s1(3,5)] s1(8) by simp
  ultimately have run: "log_update s n f = Inr s5" using s1(1) s2(1) dev by (simp add: log_update_def)
  have rest: "same_rest ?s3 s5" by (rule same_rest_trans [OF s4(2) s5(2)])
  note r5 = same_rest_log [OF rest]
  have lg: "logged s5 = (if ?in then logged s else logged s @ [n])" using logged3 r5 by (simp add: logged_def)
  have lay3: "log_layout ?s3"
    unfolding log_layout_def
  proof (intro conjI allI impI)
    show "0 \<le> log_start ?s3" "log_start ?s3 + log_size ?s3 \<le> disksize ?s3" "lh_n ?s3 < log_size ?s3" using lay r2 assms(5) by (simp_all add: log_layout_def)
    show "length (lh_block ?s3) = LOGSIZE" using bl(1) by (simp add: LOGSIZE_def)
    show "0 \<le> lh_n ?s3" "lh_n ?s3 \<le> int LOGSIZE" using bl(2) assms(4) by (simp_all add: LOGSIZE_def)
    have "distinct (logged s)" using lay by (simp add: log_layout_def logged_def)
    then have "distinct (logged ?s3)" unfolding logged3 by simp
    then show "distinct (take (nat (lh_n ?s3)) (lh_block ?s3))" unfolding logged_def .
    show "home ?s3 (lh_block ?s3 ! t)" if "t < nat (lh_n ?s3)" for t
    proof -
      have "lh_block ?s3 ! t = logged ?s3 ! t" using that by (simp add: logged_def)
      moreover have "t < length (logged ?s3)" using that bl assms(4) by (auto simp: logged_def split: if_splits)
      ultimately have "lh_block ?s3 ! t \<in> set (logged ?s3)" by (metis nth_mem)
      then have "home s (lh_block ?s3 ! t)" using logged3 logged_facts(3) [OF lay] assms(2) by (auto split: if_splits)
      then show ?thesis using r2 by (simp add: home_def)
    qed
  qed
  have "log_ok s5"
    unfolding log_ok_def
  proof (intro conjI)
    show "log_layout s5" using same_rest_layout(2) [OF rest] lay3 by simp
    show "pinned s5 = set (logged s5)" using s5(7) s4(9) hold3(7) pin lg by (auto simp: insert_absorb)
  qed (use s5(3,4) s4(6) hold3(4) sz h0 r5 r2 in simp_all)
  moreover have "memdisk s5 = memdisk s" "disk_writes s5 = disk_writes s" using s5(4,5) s4(6,7) hold3(4,5) by simp_all
  moreover have "view s5 = (view s)(n := f (view s n))" using s5(6) s4(8) hold3(6) by simp
  moreover have "curpid s5 = curpid s" "fsys.more s5 = fsys.more s"
    using rest same_rest_trans [OF s1(2) s2(2)] by (cases s5, cases s2, cases s, simp add: same_rest_iff)+
  ultimately show ?thesis using run lg r5 r2 by simp
qed

end
