(* ===== verification/CrashSafe.thy ===== *)
theory CrashSafe
  imports Transactions
begin

text \<open>
  Concurrent system calls over the log as a transition system, and its main properties: no step fails,
  and a crash at any moment, recovery included, leaves on the disk exactly the state at a moment when
  no system call was in progress.
\<close>

subsection \<open>Steps\<close>

datatype log_event = Begin | Update int "block \<Rightarrow> block" | End

text \<open>Process \<open>p\<close> starts a system call, changes a block, or ends its system call.\<close>

definition log_step :: "int \<Rightarrow> log_event \<Rightarrow> 'a fsys_scheme \<Rightarrow> 'a fsys_scheme res" where
  "log_step p ev s = (let s = s\<lparr>curpid := p\<rparr> in case ev of
     Begin \<Rightarrow> begin_op s
   | Update n f \<Rightarrow> log_update s n f
   | End \<Rightarrow> end_op s)"

text \<open>Between two steps; the super block (block 1) is never part of a transaction.\<close>

definition log_fine :: "'a fsys_scheme \<Rightarrow> bool" where
  "log_fine s \<longleftrightarrow> log_ok s \<and> lh_n s < 30 \<and> home s 1 \<and> log_size s = uint (get32 (memdisk s 1) 12) \<and> 1 \<notin> set (logged s) \<and> log_disk (memdisk s) (disksize s) (log_start s)"

definition txn_ok :: "'a fsys_scheme \<Rightarrow> bool" where
  "txn_ok s \<longleftrightarrow> log_fine s \<and> committing s = 0 \<and> 0 \<le> outstanding s \<and> (outstanding s = 0 \<longrightarrow> lh_n s = 0)"

text \<open>
  What the callers do: \<open>begin_op\<close> does not wait, and an update is of a home block, inside a
  system call, and finds space in the log and a free buffer.
\<close>

fun may_step :: "log_event \<Rightarrow> 'a fsys_scheme \<Rightarrow> bool" where
  "may_step Begin s \<longleftrightarrow> lh_n s + (outstanding s + 1) * MAXOPBLOCKS \<le> int LOGSIZE"
| "may_step (Update n f) s \<longleftrightarrow> home s n \<and> n \<noteq> 1 \<and> 0 < outstanding s \<and> lh_n s < log_size s - 1 \<and>
     (n \<in> set (logged s) \<or> lh_n s < 29) \<and> (\<forall>d. length d = BSIZE \<longrightarrow> length (f d) = BSIZE)"
| "may_step End s \<longleftrightarrow> 0 < outstanding s"

definition step_writes :: "log_event \<Rightarrow> 'a fsys_scheme \<Rightarrow> (int \<times> block) list" where
  "step_writes ev s = (if ev = End \<and> outstanding s = 1 \<and> 0 < lh_n s then commit_writes s else [])"

fun step_view :: "log_event \<Rightarrow> (int \<Rightarrow> block) \<Rightarrow> int \<Rightarrow> block" where
  "step_view (Update n f) v = v(n := f (v n))"
| "step_view Begin v = v"
| "step_view End v = v"

subsection \<open>Crashed disks\<close>

lemma commit_writes_blocks:
  assumes "log_ok s"
  shows "fst ` set (commit_writes s) \<subseteq> fst ` set (log_writes s) \<union> {log_start s} \<union> set (logged s)"
    and "w \<in> set (commit_writes s) \<Longrightarrow> length (snd w) = BSIZE"
proof -
  have lay: "log_layout s" and q: "bc_ok s" using assms by (simp_all add: log_ok_def quiet_def)
  show "fst ` set (commit_writes s) \<subseteq> fst ` set (log_writes s) \<union> {log_start s} \<union> set (logged s)"
    using home_writes_fst [OF lay] by (auto simp: commit_writes_def)
  have a: "0 \<le> log_start s" "log_start s < disksize s" using lay by (auto simp: log_layout_def)
  then have "length (memdisk s (log_start s)) = BSIZE" using q by (simp add: bc_ok_def wf_disk_def)
  moreover have "length (view s (lh_block s ! t)) = BSIZE" if "t < nat (lh_n s)" for t
    using layout_block(1) [OF lay that] view_length [OF q] by (simp add: home_def)
  ultimately show "w \<in> set (commit_writes s) \<Longrightarrow> length (snd w) = BSIZE"
    by (auto simp: commit_writes_def log_writes_def home_writes_def full_head_def empty_head_def)
qed

lemma wf_disk_writes:
  "wf_disk d sz \<Longrightarrow> \<forall>w \<in> set ws. length (snd w) = BSIZE \<Longrightarrow> wf_disk (apply_writes ws d) sz"
proof (induction ws arbitrary: d)
  case (Cons w ws)
  then have "wf_disk (d(fst w := snd w)) sz" by (simp add: wf_disk_def)
  then show ?case using Cons by (cases w) simp
qed simp

lemma commit_header:
  assumes "log_ok s"
  shows "apply_writes (take k (commit_writes s)) (memdisk s) (log_start s) \<in> {memdisk s (log_start s), full_head s, empty_head s}"
proof -
  have lay: "log_layout s" using assms by (simp add: log_ok_def)
  have nl: "log_start s \<notin> fst ` set (log_writes s)" and nh: "log_start s \<notin> fst ` set (home_writes s)"
    using areas_apart(1,2) [OF lay] home_writes_fst [OF lay] by simp_all
  have heads: "set ws \<subseteq> set (commit_writes s) \<Longrightarrow> apply_writes ws d (log_start s) \<in> {d (log_start s), full_head s, empty_head s}" for ws d
  proof (induction ws arbitrary: d)
    case (Cons w ws)
    have "w \<in> set (log_writes s) \<or> w \<in> set (home_writes s) \<or> w = (log_start s, full_head s) \<or> w = (log_start s, empty_head s)"
      using Cons.prems by (auto simp: commit_writes_def)
    then have w: "(d(fst w := snd w)) (log_start s) \<in> {d (log_start s), full_head s, empty_head s}"
      using nl nh by (force simp: image_iff)
    have "apply_writes ws (d(fst w := snd w)) (log_start s) \<in> {(d(fst w := snd w)) (log_start s), full_head s, empty_head s}"
      by (rule Cons.IH) (use Cons.prems in simp)
    then have "apply_writes ws (d(fst w := snd w)) (log_start s) \<in> {d (log_start s), full_head s, empty_head s}"
      using w by (metis insert_iff singletonD)
    then show ?case by (cases w) simp
  qed simp
  show ?thesis by (rule heads) (rule set_take_subset)
qed

lemma log_disk_header:
  assumes "log_disk d sz st" and "wf_disk d' sz" and "d' 1 = d 1" and "hdr_n (d' st) = 0"
  shows "log_disk d' sz st"
  using assms by (simp add: log_disk_def)

lemma commit_keeps_super:
  assumes "log_fine s"
  shows "apply_writes (take k (commit_writes s)) d 1 = d 1"
proof -
  have lok: "log_ok s" and lay: "log_layout s" using assms by (simp_all add: log_fine_def log_ok_def)
  have "1 \<notin> fst ` set (commit_writes s)"
    using commit_writes_blocks(1) [OF lok] areas_apart(3) [OF lay, of 1] assms by (auto simp: log_fine_def)
  then show ?thesis by (intro apply_writes_other) (auto dest: in_set_takeD)
qed

lemma crashed_log_disk:
  assumes "log_fine s"
  shows "log_disk (apply_writes (take k (commit_writes s)) (memdisk s)) (disksize s) (log_start s)"
proof -
  have lok: "log_ok s" and lay: "log_layout s" and ld: "log_disk (memdisk s) (disksize s) (log_start s)"
    using assms by (simp_all add: log_fine_def log_ok_def)
  let ?d = "apply_writes (take k (commit_writes s)) (memdisk s)"
  have wf: "wf_disk ?d (disksize s)"
    by (rule wf_disk_writes) (use ld commit_writes_blocks(2) [OF lok] in \<open>auto simp: log_disk_def dest: in_set_takeD\<close>)
  have one: "?d 1 = memdisk s 1" by (rule commit_keeps_super [OF assms])
  consider "hdr_n (?d (log_start s)) = 0" | "?d (log_start s) = full_head s"
    using commit_header [OF lok, of k] full_head_get(3) [OF lok] lok by (auto simp: log_ok_def)
  then show ?thesis
  proof cases
    case 1
    then show ?thesis by (rule log_disk_header [OF ld wf one])
  next
    case 2
    have n: "0 \<le> lh_n s" "lh_n s \<le> int LOGSIZE" "lh_n s < uint (get32 (memdisk s 1) 12)"
      using lay assms by (simp_all add: log_layout_def log_fine_def)
    have m: "map (hdr_block (full_head s)) [0..<nat (lh_n s)] = logged s"
      using full_head_get(2) [OF lok] lay n
      by (auto simp: logged_def log_layout_def intro!: nth_equalityI)
    have d: "distinct (logged s)" using lay by (simp add: log_layout_def logged_def)
    show ?thesis
      unfolding log_disk_def 2 one full_head_get(1) [OF lok] m
    proof (intro conjI allI impI)
      fix t assume t: "t < nat (lh_n s)"
      then have b: "hdr_block (full_head s) t = lh_block s ! t" "lh_block s ! t \<in> set (logged s)"
        using full_head_get(2) [OF lok t] logged_facts(1) [OF lay] by simp_all
      show "0 \<le> hdr_block (full_head s) t" "hdr_block (full_head s) t < disksize s"
        "\<not> (log_start s \<le> hdr_block (full_head s) t \<and> hdr_block (full_head s) t < log_start s + uint (get32 (memdisk s 1) 12))"
        using layout_block(1) [OF lay t] assms unfolding b(1) home_def log_fine_def by simp_all
      show "hdr_block (full_head s) t \<noteq> 1" using b assms unfolding log_fine_def by metis
    qed (use ld wf n one d in \<open>simp_all add: log_disk_def\<close>)
  qed
qed

subsection \<open>Every step\<close>

lemma holds_nothing: "holds_of p c d {} = holds_of q c d {}"
  by (simp add: holds_of_def)

lemma set_pid [simp]:
  "content (s\<lparr>curpid := p\<rparr>) = content s" "log_ok (s\<lparr>curpid := p\<rparr>) = log_ok s" "home (s\<lparr>curpid := p\<rparr>) n = home s n"
  "logged (s\<lparr>curpid := p\<rparr>) = logged s" "commit_writes (s\<lparr>curpid := p\<rparr>) = commit_writes s"
  "log_fine (s\<lparr>curpid := p\<rparr>) = log_fine s"
proof -
  show c: "content (s\<lparr>curpid := p\<rparr>) = content s" by (simp add: content_def)
  show "home (s\<lparr>curpid := p\<rparr>) n = home s n" for n by (simp add: home_def)
  show l: "logged (s\<lparr>curpid := p\<rparr>) = logged s" by (simp add: logged_def)
  have "bc_ok (s\<lparr>curpid := p\<rparr>) = bc_ok s" by (simp add: bc_ok_def ring_def c)
  then have "quiet (s\<lparr>curpid := p\<rparr>) = quiet s" using holds_nothing [of p "content s" "memdisk s" "curpid s"] by (simp add: quiet_def c)
  moreover have "log_layout (s\<lparr>curpid := p\<rparr>) = log_layout s" by (simp add: log_layout_def home_def)
  ultimately show ok: "log_ok (s\<lparr>curpid := p\<rparr>) = log_ok s" by (simp add: log_ok_def c l)
  then show "log_fine (s\<lparr>curpid := p\<rparr>) = log_fine s" by (simp add: log_fine_def l home_def)
  show "commit_writes (s\<lparr>curpid := p\<rparr>) = commit_writes s"
    by (simp add: commit_writes_def log_writes_def home_writes_def full_head_def empty_head_def c)
qed

lemma log_ok_counters [simp]:
  "log_ok (s\<lparr>outstanding := v\<rparr>) = log_ok s" "log_ok (s\<lparr>committing := v\<rparr>) = log_ok s"
  "home (s\<lparr>outstanding := v\<rparr>) n = home s n" "home (s\<lparr>committing := v\<rparr>) n = home s n"
  "logged (s\<lparr>outstanding := v\<rparr>) = logged s" "logged (s\<lparr>committing := v\<rparr>) = logged s"
  "commit_writes (s\<lparr>outstanding := v\<rparr>) = commit_writes s" "commit_writes (s\<lparr>committing := v\<rparr>) = commit_writes s"
  "log_fine (s\<lparr>outstanding := v\<rparr>) = log_fine s" "log_fine (s\<lparr>committing := v\<rparr>) = log_fine s"
  by (simp_all add: log_fine_def log_ok_def log_layout_def home_def logged_def commit_writes_def log_writes_def home_writes_def
      full_head_def empty_head_def)

lemma commit_ok:
  assumes "log_fine s" and "0 < lh_n s"
  shows "\<exists>s'. commit s = Inr s' \<and> log_ok s' \<and> lh_n s' = 0 \<and> disk_writes s' = disk_writes s @ commit_writes s \<and>
    memdisk s' = apply_writes (commit_writes s) (memdisk s) \<and> (\<forall>n. home s n \<longrightarrow> view s' n = view s n) \<and>
    log_start s' = log_start s \<and> log_size s' = log_size s \<and> disksize s' = disksize s \<and> outstanding s' = outstanding s \<and>
    committing s' = committing s \<and> memdisk s' 1 = memdisk s 1 \<and> log_disk (memdisk s') (disksize s') (log_start s')"
proof -
  have lok: "log_ok s" and n: "lh_n s < 30" and lay: "log_layout s" using assms(1) by (simp_all add: log_fine_def log_ok_def)
  obtain s' where s': "commit s = Inr s'" "quiet s'" "same_rest (s\<lparr>lh_n := 0\<rparr>) s'" "pinned s' = {}"
      "memdisk s' = apply_writes (commit_writes s) (memdisk s)" "disk_writes s' = disk_writes s @ commit_writes s"
    using commit_spec [OF lok assms(2) n] by blast
  note r = same_rest_log [OF s'(3)]
  have ld: "log_disk (memdisk s') (disksize s') (log_start s')"
    using crashed_log_disk [OF assms(1), of "length (commit_writes s)"] s'(5) r by simp
  have h0: "hdr_n (memdisk s' (log_start s')) = 0"
    using full_head_get(3) [OF lok] s'(5) r by (simp add: commit_writes_def)
  have "log_layout (s\<lparr>lh_n := 0\<rparr>)" using lay by (auto simp: log_layout_def home_def)
  then have "log_layout s'" using same_rest_layout(2) [OF s'(3)] by simp
  then have ok: "log_ok s'" using s'(2,4) r h0 lok by (simp add: log_ok_def logged_def)
  have "view s' m = view s m" if "home s m" for m
  proof -
    have "view s' m = memdisk s' m" by (rule quiet_view [OF s'(2)]) (simp add: s'(4))
    moreover have "replay (log_start s) (memdisk s') = memdisk s'" by (rule replay_empty) (use h0 r in simp)
    moreover have "\<not> length (commit_writes s) \<le> nat (lh_n s)" by (simp add: commit_writes_def log_writes_def)
    ultimately show ?thesis using crash_in_commit [OF lok that, of "length (commit_writes s)"] s'(5) by simp
  qed
  moreover have "memdisk s' 1 = memdisk s 1"
    using commit_keeps_super [OF assms(1), of "length (commit_writes s)" "memdisk s"] s'(5) by simp
  ultimately show ?thesis using s' r ok ld by auto
qed

lemma step_spec:
  assumes "txn_ok s" and "may_step ev s"
  shows "\<exists>s'. log_step p ev s = Inr s' \<and> txn_ok s' \<and> disk_writes s' = disk_writes s @ step_writes ev s \<and>
    memdisk s' = apply_writes (step_writes ev s) (memdisk s) \<and> (\<forall>n. home s n \<longrightarrow> view s' n = step_view ev (view s) n) \<and>
    log_start s' = log_start s \<and> log_size s' = log_size s \<and> disksize s' = disksize s \<and>
    outstanding s' = (case ev of Begin \<Rightarrow> outstanding s + 1 | Update n f \<Rightarrow> outstanding s | End \<Rightarrow> outstanding s - 1)"
proof -
  let ?s = "s\<lparr>curpid := p\<rparr>"
  have t: "log_ok s" "committing s = 0" "0 \<le> outstanding s" "lh_n s < 30" "home s 1" "1 \<notin> set (logged s)"
      "log_disk (memdisk s) (disksize s) (log_start s)" "0 \<le> lh_n s" "log_fine s"
      "log_size s = uint (get32 (memdisk s 1) 12)" and t0: "outstanding s = 0 \<longrightarrow> lh_n s = 0"
    using assms(1) by (simp_all add: txn_ok_def log_fine_def log_ok_def log_layout_def)
  show ?thesis
  proof (cases ev)
    case Begin
    then have run: "log_step p ev s = Inr (?s\<lparr>outstanding := outstanding s + 1\<rparr>)"
      using assms(2) t(2) by (simp add: log_step_def begin_op_def Let_def)
    have "txn_ok (?s\<lparr>outstanding := outstanding s + 1\<rparr>)" using t by (simp add: txn_ok_def)
    then show ?thesis using run Begin by (simp add: step_writes_def content_def)
  next
    case (Update n f)
    then have u: "home s n" "n \<noteq> 1" "0 < outstanding s" "lh_n s < log_size s - 1" "n \<in> set (logged s) \<or> lh_n s < 29"
        "\<And>d. length d = BSIZE \<Longrightarrow> length (f d) = BSIZE" using assms(2) by auto
    obtain s' where s': "log_update ?s n f = Inr s'" "log_ok s'" "memdisk s' = memdisk s" "disk_writes s' = disk_writes s"
        "view s' = (view s)(n := f (view s n))" "logged s' = (if n \<in> set (logged s) then logged s else logged s @ [n])"
        "lh_n s' = (if n \<in> set (logged s) then lh_n s else lh_n s + 1)" "log_start s' = log_start s" "log_size s' = log_size s"
        "disksize s' = disksize s" "outstanding s' = outstanding s" "committing s' = committing s"
      using log_update_spec [of ?s n f] t(1,4) u by auto
    have "txn_ok s'"
      unfolding txn_ok_def log_fine_def
    proof (intro conjI)
      show "lh_n s' < 30" using s'(7) u(5) t(4) by auto
      show "1 \<notin> set (logged s')" using s'(6) t(6) u(2) by auto
    qed (use s' t u(3) in \<open>simp_all add: home_def\<close>)
    then show ?thesis using s' Update by (auto simp: log_step_def step_writes_def Let_def)
  next
    case End
    then have o: "0 < outstanding s" using assms(2) by simp
    show ?thesis
    proof (cases "outstanding s = 1")
      case False
      then have run: "log_step p ev s = Inr (?s\<lparr>outstanding := outstanding s - 1\<rparr>)"
        using End t(2) by (simp add: log_step_def end_op_def Let_def)
      have "txn_ok (?s\<lparr>outstanding := outstanding s - 1\<rparr>)" using t o False by (simp add: txn_ok_def)
      then show ?thesis using run End False by (simp add: step_writes_def content_def)
    next
      case True
      let ?c = "?s\<lparr>outstanding := 0, committing := 1\<rparr>"
      show ?thesis
      proof (cases "0 < lh_n s")
        case False
        then have "lh_n s = 0" using t(8) by simp
        moreover from this have run: "log_step p ev s = Inr (?c\<lparr>committing := 0\<rparr>)"
          using End True t(2) by (simp add: log_step_def end_op_def commit_def Let_def)
        moreover have "txn_ok (?c\<lparr>committing := 0\<rparr>)" using t calculation(1) by (simp add: txn_ok_def)
        ultimately show ?thesis using End True by (simp add: step_writes_def content_def)
      next
        case n: True
        obtain s' where s': "commit ?c = Inr s'" "log_ok s'" "lh_n s' = 0" "disk_writes s' = disk_writes s @ commit_writes s"
            "memdisk s' = apply_writes (commit_writes s) (memdisk s)" "\<forall>m. home s m \<longrightarrow> view s' m = view s m"
            "log_start s' = log_start s" "log_size s' = log_size s" "disksize s' = disksize s" "outstanding s' = 0"
            "memdisk s' 1 = memdisk s 1" "log_disk (memdisk s') (disksize s') (log_start s')"
          using commit_ok [of ?c] t(9) n by auto
        have run: "log_step p ev s = Inr (s'\<lparr>committing := 0\<rparr>)"
          using End True t(2) s'(1) by (simp add: log_step_def end_op_def Let_def)
        have "txn_ok (s'\<lparr>committing := 0\<rparr>)" using s' t by (simp add: txn_ok_def log_fine_def logged_def home_def)
        then show ?thesis using run End True n s' by (simp add: step_writes_def content_def)
      qed
    qed
  qed
qed

subsection \<open>Runs\<close>

text \<open>
  The states reachable from \<open>s0\<close>, with the contents that the blocks had at the last moment when no
  system call was in progress.
\<close>

inductive log_reach :: "fsys \<Rightarrow> (int \<Rightarrow> block) \<Rightarrow> fsys \<Rightarrow> bool" for s0 where
  start: "log_reach s0 (view s0) s0"
| step: "log_reach s0 c s \<Longrightarrow> may_step ev s \<Longrightarrow> log_step p ev s = Inr s' \<Longrightarrow>
    log_reach s0 (if outstanding s' = 0 then view s' else c) s'"

lemma idle_view:
  assumes "txn_ok s" and "outstanding s = 0"
  shows "view s n = memdisk s n"
proof -
  have "logged s = []" using assms by (simp add: txn_ok_def logged_def)
  then have "pinned s = {}" "quiet s" using assms(1) by (simp_all add: txn_ok_def log_fine_def log_ok_def)
  then show ?thesis by (simp add: quiet_view)
qed

lemma log_reach_inv:
  assumes "log_reach s0 c s" and "txn_ok s0" and "outstanding s0 = 0"
  shows "txn_ok s \<and> (\<forall>n. home s n \<longrightarrow> memdisk s n = c n)"
  using assms
proof (induction rule: log_reach.induct)
  case start
  then show ?case by (simp add: idle_view)
next
  case (step c s ev p s')
  then have ok: "txn_ok s" and c: "\<forall>n. home s n \<longrightarrow> memdisk s n = c n" by simp_all
  obtain t where t: "log_step p ev s = Inr t" "txn_ok t" "memdisk t = apply_writes (step_writes ev s) (memdisk s)"
      "log_start t = log_start s" "log_size t = log_size s" "disksize t = disksize s"
      "outstanding t = (case ev of Begin \<Rightarrow> outstanding s + 1 | Update n f \<Rightarrow> outstanding s | End \<Rightarrow> outstanding s - 1)"
    using step_spec [OF ok step.hyps(2), of p] by blast
  then have s': "s' = t" using step.hyps(3) by simp
  show ?case
  proof (cases "outstanding s' = 0")
    case True
    then have "view t = memdisk t" using idle_view [OF t(2)] s' by (simp add: fun_eq_iff)
    then show ?thesis using True t(2) s' by simp
  next
    case False
    then have "step_writes ev s = []" using t(7) s' by (auto simp: step_writes_def)
    then show ?thesis using False t c s' by (simp add: home_def)
  qed
qed

text \<open>After a crash in any step, recovery finds a disk it can work on, and the replay is all or nothing.\<close>

lemma crash_in_step:
  assumes "txn_ok s" and "may_step ev s" and "log_step p ev s = Inr s'"
    and "d = apply_writes (take k (drop (length (disk_writes s)) (disk_writes s'))) (memdisk s)"
  shows "log_disk d (disksize s) (log_start s)"
    and "(\<forall>n. home s n \<longrightarrow> replay (log_start s) d n = memdisk s n) \<or>
      outstanding s' = 0 \<and> (\<forall>n. home s n \<longrightarrow> replay (log_start s) d n = view s' n)"
proof -
  obtain t where t: "log_step p ev s = Inr t" "disk_writes t = disk_writes s @ step_writes ev s"
      "\<forall>n. home s n \<longrightarrow> view t n = step_view ev (view s) n"
      "outstanding t = (case ev of Begin \<Rightarrow> outstanding s + 1 | Update n f \<Rightarrow> outstanding s | End \<Rightarrow> outstanding s - 1)"
    using step_spec [OF assms(1,2), of p] by blast
  then have s': "s' = t" using assms(3) by simp
  have d: "d = apply_writes (take k (step_writes ev s)) (memdisk s)" using assms(4) t(2) s' by simp
  have fine: "log_fine s" and lok: "log_ok s" using assms(1) by (simp_all add: txn_ok_def log_fine_def)
  have "log_disk d (disksize s) (log_start s) \<and> ((\<forall>n. home s n \<longrightarrow> replay (log_start s) d n = memdisk s n) \<or>
      outstanding s' = 0 \<and> (\<forall>n. home s n \<longrightarrow> replay (log_start s) d n = view s' n))"
  proof (cases "ev = End \<and> outstanding s = 1 \<and> 0 < lh_n s")
    case True
    then have dc: "d = apply_writes (take k (commit_writes s)) (memdisk s)" using d by (simp add: step_writes_def)
    have "\<forall>n. home s n \<longrightarrow> view s' n = view s n" "outstanding s' = 0" using t(3,4) s' True by simp_all
    then show ?thesis using crashed_log_disk [OF fine, of k] crash_in_commit [OF lok, of _ k] unfolding dc by auto
  next
    case False
    then have "step_writes ev s = []" by (auto simp: step_writes_def)
    then have dm: "d = memdisk s" using d by simp
    moreover have "replay (log_start s) (memdisk s) = memdisk s" using lok by (simp add: log_ok_def replay_empty)
    ultimately show ?thesis using fine by (simp add: log_fine_def)
  qed
  then show "log_disk d (disksize s) (log_start s)"
    and "(\<forall>n. home s n \<longrightarrow> replay (log_start s) d n = memdisk s n) \<or>
      outstanding s' = 0 \<and> (\<forall>n. home s n \<longrightarrow> replay (log_start s) d n = view s' n)" by blast+
qed

text \<open>Recovery ends in a state in which system calls can start.\<close>

lemma recovered_ok:
  assumes "booted m" and "log_disk (memdisk m) (disksize m) st" and "outstanding m = 0" and "committing m = 0"
  shows "\<exists>s. initlog m 1 = Inr s \<and> txn_ok s \<and> outstanding s = 0 \<and> log_start s = st \<and> disksize s = disksize m \<and>
    (\<forall>n. n \<noteq> st \<longrightarrow> memdisk s n = replay st (memdisk m) n) \<and> disk_writes s = disk_writes m @ recovery_writes st (memdisk m)"
proof -
  obtain s where s: "initlog m 1 = Inr s" "log_ok s" "lh_n s = 0" "log_start s = st" "disksize s = disksize m"
      "log_size s = uint (get32 (memdisk m 1) 12)" "outstanding s = outstanding m" "committing s = committing m"
      "memdisk s = apply_writes (recovery_writes st (memdisk m)) (memdisk m)" "disk_writes s = disk_writes m @ recovery_writes st (memdisk m)"
    using initlog_spec [OF assms(1,2)] by blast
  have q: "wf_disk (memdisk s) (disksize s)" using s(2) by (simp add: log_ok_def quiet_def bc_ok_def)
  have "1 \<notin> fst ` set (recovery_writes st (memdisk m))"
    using assms(2) by (auto simp: recovery_writes_def replay_writes_def log_disk_def)
  then have one: "memdisk s 1 = memdisk m 1" unfolding s(9) by (rule apply_writes_other)
  have "log_disk (memdisk s) (disksize s) st"
    using log_disk_header [of "memdisk m" "disksize s" st "memdisk s"] one q assms(2) s(2,4,5) by (simp add: log_ok_def)
  then have "txn_ok s" using s(2-8) one assms(2-4) by (simp add: txn_ok_def log_fine_def logged_def home_def log_disk_def)
  then show ?thesis using s recovered_home [OF assms(2)] assms(3) by auto
qed

subsection \<open>Switching on\<close>

lemma binit_loop:
  assumes "length (bufs s) = 30" and "k \<le> 30"
  shows "\<exists>l h t. for_each (\<lambda>i s. cont_res (rbind (mod_buf s (int i) (\<lambda>b. b\<lparr>block_lock := initsleeplock (block_lock b)\<rparr>))
       (\<lambda>s1. link_front s1 (int i)))) [0..<k] (s\<lparr>head_prev := -1, head_next := -1\<rparr>) = Inr (s\<lparr>bufs := l, head_next := h, head_prev := t\<rparr>) \<and>
    ring (s\<lparr>bufs := l, head_next := h, head_prev := t\<rparr>) (rev [0..<k]) \<and>
    map bdata.truncate l = map (\<lambda>b. (bdata.truncate b)\<lparr>block_lock := \<lparr>locked = 0, pid = 0\<rparr>\<rparr>) (take k (bufs s)) @ map bdata.truncate (drop k (bufs s))"
  using assms(2)
proof (induction k)
  case 0
  then show ?case using assms(1)
    by (intro exI [of _ "bufs s"] exI [of _ "-1"]) (simp add: ring_def)
next
  case (Suc k)
  let ?F = "\<lambda>i s. cont_res (rbind (mod_buf s (int i) (\<lambda>b. b\<lparr>block_lock := initsleeplock (block_lock b)\<rparr>)) (\<lambda>s1. link_front s1 (int i)))"
  obtain l h t where ih: "for_each ?F [0..<k] (s\<lparr>head_prev := -1, head_next := -1\<rparr>) = Inr (s\<lparr>bufs := l, head_next := h, head_prev := t\<rparr>)"
      "ring (s\<lparr>bufs := l, head_next := h, head_prev := t\<rparr>) (rev [0..<k])"
      "map bdata.truncate l = map (\<lambda>b. (bdata.truncate b)\<lparr>block_lock := \<lparr>locked = 0, pid = 0\<rparr>\<rparr>) (take k (bufs s)) @ map bdata.truncate (drop k (bufs s))"
    using Suc by auto
  define s1 where "s1 = s\<lparr>bufs := l, head_next := h, head_prev := t\<rparr>"
  have len: "length l = 30" using ring_length [OF ih(2)] by simp
  let ?b = "(l ! k)\<lparr>block_lock := initsleeplock (block_lock (l ! k))\<rparr>"
  let ?s2 = "s1\<lparr>bufs := l[k := ?b]\<rparr>"
  have r2: "ring ?s2 (rev [0..<k])"
    by (rule ring_same_links [OF ih(2) [folded s1_def], of "l[k := ?b]"]) (use len Suc.prems in \<open>auto simp: s1_def nth_list_update\<close>)
  have k30: "k < 30" and kn: "k \<notin> set (rev [0..<k])" using Suc.prems by simp_all
  obtain l' t' where f: "link_front ?s2 (int k) = Inr (?s2\<lparr>bufs := l', head_next := int k, head_prev := t'\<rparr>)"
      "ring (?s2\<lparr>bufs := l', head_next := int k, head_prev := t'\<rparr>) (k # rev [0..<k])" "map bdata.truncate l' = map bdata.truncate (bufs ?s2)"
    using link_front_spec [OF r2 k30 kn] by blast
  have mod: "mod_buf s1 (int k) (\<lambda>b. b\<lparr>block_lock := initsleeplock (block_lock b)\<rparr>) = Inr ?s2"
    using mod_buf_ok [of k s1] len Suc.prems by (simp add: s1_def)
  have "for_each ?F ([0..<k] @ [k]) (s\<lparr>head_prev := -1, head_next := -1\<rparr>) =
      rbind (for_each ?F [0..<k] (s\<lparr>head_prev := -1, head_next := -1\<rparr>)) (for_each ?F [k])"
    by (rule for_each_append) (auto simp: cont_res_def cont_def rbind_eq_Inr)
  then have run: "for_each ?F [0..<Suc k] (s\<lparr>head_prev := -1, head_next := -1\<rparr>) = Inr (s\<lparr>bufs := l', head_next := int k, head_prev := t'\<rparr>)"
    using ih(1) mod f(1) by (simp add: s1_def)
  have trk: "bdata.truncate (l ! k) = bdata.truncate (bufs s ! k)"
    using arg_cong [OF ih(3), of "\<lambda>xs. xs ! k"] len assms(1) Suc.prems by (simp add: nth_append)
  have lock: "(lk :: sleeplock)\<lparr>locked := 0, pid := 0\<rparr> = \<lparr>locked = 0, pid = 0\<rparr>" for lk by simp
  have b: "bdata.truncate ?b = (bdata.truncate (bufs s ! k))\<lparr>block_lock := \<lparr>locked = 0, pid = 0\<rparr>\<rparr>"
    using trk by (simp add: bdata.truncate_def initsleeplock_def lock)
  have "map bdata.truncate l' = (map bdata.truncate l)[k := bdata.truncate ?b]" using f(3) by (simp add: map_update)
  also have "\<dots> = map (\<lambda>b. (bdata.truncate b)\<lparr>block_lock := \<lparr>locked = 0, pid = 0\<rparr>\<rparr>) (take (Suc k) (bufs s)) @ map bdata.truncate (drop (Suc k) (bufs s))"
    unfolding ih(3) b using assms(1) Suc.prems by (simp add: list_update_append take_Suc_conv_app_nth Cons_nth_drop_Suc [symmetric])
  finally show ?case using run f(2)
    by (intro exI [of _ l'] exI [of _ "int k"] exI [of _ t']) (simp add: s1_def)
qed

text \<open>Memory as the loader leaves it: no buffer holds a block of device 1.\<close>

definition powered :: "'a fsys_scheme \<Rightarrow> bool" where
  "powered s \<longleftrightarrow> length (bufs s) = 30 \<and> (\<forall>b \<in> set (bufs s). dev b \<noteq> 1 \<and> \<not> B_DIRTY b \<and> refcnt b = 0) \<and>
     wf_disk (memdisk s) (disksize s) \<and> length (lh_block s) = LOGSIZE"

lemma binit_spec:
  assumes "powered s"
  shows "\<exists>s'. binit s = Inr s' \<and> booted s' \<and> same_rest s s' \<and> memdisk s' = memdisk s \<and> disk_writes s' = disk_writes s \<and>
    ring s' (rev [0..<30]) \<and> (\<forall>n i. \<not> cached (content s') n i)"
proof -
  have len: "length (bufs s) = 30" using assms by (simp add: powered_def)
  obtain l h t where l: "for_each (\<lambda>i s. cont_res (rbind (mod_buf s (int i) (\<lambda>b. b\<lparr>block_lock := initsleeplock (block_lock b)\<rparr>))
       (\<lambda>s1. link_front s1 (int i)))) [0..<30] (s\<lparr>head_prev := -1, head_next := -1\<rparr>) = Inr (s\<lparr>bufs := l, head_next := h, head_prev := t\<rparr>)"
      "ring (s\<lparr>bufs := l, head_next := h, head_prev := t\<rparr>) (rev [0..<30])"
      "map bdata.truncate l = map (\<lambda>b. (bdata.truncate b)\<lparr>block_lock := \<lparr>locked = 0, pid = 0\<rparr>\<rparr>) (take 30 (bufs s)) @ map bdata.truncate (drop 30 (bufs s))"
    using binit_loop [OF len order.refl] by blast
  let ?s = "s\<lparr>bufs := l, head_next := h, head_prev := t\<rparr>"
  have c: "content ?s = map (\<lambda>b. (bdata.truncate b)\<lparr>block_lock := \<lparr>locked = 0, pid = 0\<rparr>\<rparr>) (bufs s)"
    using l(3) len by (simp add: content_def)
  have b: "dev (content ?s ! i) \<noteq> 1 \<and> \<not> B_DIRTY (content ?s ! i) \<and> refcnt (content ?s ! i) = 0 \<and> locked (block_lock (content ?s ! i)) = 0"
    if "i < 30" for i
    using assms that len unfolding c by (simp add: powered_def bdata.truncate_def)
  have lc: "length (content ?s) = 30" unfolding c using len by simp
  have "bc_ok ?s" unfolding bc_ok_def
  proof (intro conjI)
    show "\<exists>ids. ring ?s ids \<and> set ids = {..<30}" using l(2) by (intro exI [of _ "rev [0..<30]"]) auto
    show "wf_content (content ?s) (disksize ?s)" unfolding wf_content_def using b lc by blast
    show "wf_disk (memdisk ?s) (disksize ?s)" using assms by (simp add: powered_def)
  qed
  moreover have "holds ?s {}" unfolding holds_of_def using b lc by simp
  moreover have "pinned ?s = {}" unfolding pinned_of_def using b lc by (auto simp: cached_def)
  ultimately have "booted ?s" using assms by (simp add: booted_def powered_def)
  moreover have "same_rest s ?s" by (rule same_restI)
  moreover have "\<not> cached (content ?s) n i" for n i using b lc by (auto simp: cached_def)
  ultimately show ?thesis using l(1,2) by (simp add: binit_def NBUF_def)
qed

end
