(* ===== verification/LogClaims.thy ===== *)
theory LogClaims
  imports CrashSafe
begin

text \<open>
  The claims about the buffer cache and the log, with the machine that their witnesses start from: power
  on, \<open>binit\<close>, \<open>initlog\<close> on an empty disk as mkfs.c lays it out: 1000 blocks, log of 30 blocks from block 2 on, one block of
  inodes (32), the bit map (33) with the first 40 blocks in use.
\<close>

subsection \<open>A machine at work\<close>

definition blank :: block where "blank = replicate BSIZE 0"

definition new_disk :: "int \<Rightarrow> block" where
  "new_disk n = (if n = 1 then put32 (put32 blank 12 30) 16 2
     else if n = 33 then replicate 5 255 @ replicate (BSIZE - 5) 0 else blank)"

definition cold :: "(int \<Rightarrow> block) \<Rightarrow> fsys" where
  "cold d = \<lparr>bufs = replicate 30 \<lparr>B_VALID = False, B_DIRTY = False, dev = 0, blockno = 0, block_lock = \<lparr>locked = 0, pid = 0\<rparr>,
      refcnt = 0, data = blank, buf_prev = 0, buf_next = 0\<rparr>, head_next = 0, head_prev = 0, memdisk = d, disksize = 1000,
    disk_writes = [], curpid = 1, log_start = 0, log_size = 0, outstanding = 0, committing = 0, log_dev = 0, lh_n = 0,
    lh_block = replicate LOGSIZE 0\<rparr>"

lemma blank_length [simp]: "length blank = BSIZE"
  by (simp add: blank_def)

lemma cold_boots:
  assumes "wf_disk d 1000"
  shows "\<exists>m. binit (cold d) = Inr m \<and> booted m \<and> memdisk m = d \<and> disksize m = 1000 \<and> outstanding m = 0 \<and> committing m = 0 \<and>
    ring m (rev [0..<30]) \<and> (\<forall>n i. \<not> cached (content m) n i)"
proof -
  have "powered (cold d)" using assms by (simp add: powered_def cold_def)
  then obtain m where m: "binit (cold d) = Inr m" "booted m" "same_rest (cold d) m" "memdisk m = memdisk (cold d)"
      "ring m (rev [0..<30])" "\<forall>n i. \<not> cached (content m) n i"
    using binit_spec by blast
  then show ?thesis using same_rest_log [OF m(3)] by (simp add: cold_def)
qed

lemma new_disk_log: "log_disk new_disk 1000 2"
proof -
  have l: "length (new_disk n) = BSIZE" for n by (simp add: new_disk_def BSIZE_def)
  have "get32 (new_disk 1) 16 = 2" "get32 (new_disk 1) 12 = 30"
    by (simp_all add: new_disk_def get32_put32 get32_put32_other BSIZE_def)
  moreover have "hdr_n (new_disk 2) = 0" by (simp add: new_disk_def hdr_n_def get32_def blank_def BSIZE_def)
  ultimately show ?thesis using l by (simp add: log_disk_def wf_disk_def)
qed

lemma fresh_log: "\<exists>m s. binit (cold new_disk) = Inr m \<and> booted m \<and> memdisk m = new_disk \<and> disksize m = 1000 \<and> outstanding m = 0 \<and>
    committing m = 0 \<and> initlog m 1 = Inr s \<and> txn_ok s \<and> outstanding s = 0 \<and> log_start s = 2 \<and> log_size s = 30 \<and> disksize s = 1000 \<and> lh_n s = 0 \<and>
    (\<forall>n. n \<noteq> 2 \<longrightarrow> view s n = new_disk n)"
proof -
  have "wf_disk new_disk 1000" using new_disk_log by (simp add: log_disk_def)
  then obtain m where m: "binit (cold new_disk) = Inr m" "booted m" "memdisk m = new_disk" "disksize m = 1000" "outstanding m = 0" "committing m = 0"
    using cold_boots by blast
  have ld: "log_disk (memdisk m) (disksize m) 2" using new_disk_log m(3,4) by simp
  obtain s where s: "initlog m 1 = Inr s" "txn_ok s" "outstanding s = 0" "log_start s = 2" "disksize s = 1000"
      "\<forall>n. n \<noteq> 2 \<longrightarrow> memdisk s n = replay 2 (memdisk m) n"
    using recovered_ok [OF m(2) ld m(5,6)] m(4) by auto
  obtain t where t: "initlog m 1 = Inr t" "log_size t = uint (get32 (memdisk m 1) 12)"
    using initlog_spec [OF m(2) ld] by blast
  have "log_size s = 30" using s(1) t m(3) by (simp add: new_disk_def get32_put32 get32_put32_other BSIZE_def)
  moreover have "hdr_n (memdisk m 2) = 0" unfolding m(3) by (simp add: new_disk_def hdr_n_def get32_def blank_def BSIZE_def)
  then have "\<forall>n. n \<noteq> 2 \<longrightarrow> view s n = new_disk n" using s(6) idle_view [OF s(2,3)] m(3) by (simp add: replay_empty)
  ultimately show ?thesis using m s by (auto simp: txn_ok_def)
qed

text \<open>A system call under way that has changed block 40.\<close>

lemma working_log: "\<exists>s0 s. txn_ok s0 \<and> outstanding s0 = 0 \<and> log_reach s0 (view s0) s \<and> txn_ok s \<and> outstanding s = 1 \<and> lh_n s = 1 \<and>
    disksize s = 1000 \<and> log_size s = 30 \<and> log_start s = 2 \<and> view s 40 = put32 (view s0 40) 0 7"
proof -
  obtain s0 :: fsys where s0: "txn_ok s0" "outstanding s0 = 0" "log_start s0 = 2" "log_size s0 = 30" "disksize s0 = 1000" "lh_n s0 = 0"
    using fresh_log by auto
  have b: "may_step Begin s0" using s0 by (simp add: MAXOPBLOCKS_def LOGSIZE_def)
  obtain s1 where s1: "log_step 1 Begin s0 = Inr s1" "txn_ok s1" "\<forall>n. home s0 n \<longrightarrow> view s1 n = view s0 n"
      "log_start s1 = 2" "log_size s1 = 30" "disksize s1 = 1000" "outstanding s1 = 1"
    using step_spec [OF s0(1) b, of 1] s0 by auto
  have run1: "s1 = s0\<lparr>curpid := 1, outstanding := 1\<rparr>" using s1(1) s0 b by (simp add: log_step_def begin_op_def txn_ok_def)
  define f where "f = (\<lambda>d :: block. put32 d 0 7)"
  have h: "home s0 40" "home s1 40" using s0 s1 by (simp_all add: home_def)
  have "lh_n s1 = 0" using run1 s0 by simp
  then have u: "may_step (Update 40 f) s1" using s1 h by (simp add: f_def)
  obtain s2 where s2: "log_step 1 (Update 40 f) s1 = Inr s2" "txn_ok s2" "\<forall>n. home s1 n \<longrightarrow> view s2 n = step_view (Update 40 f) (view s1) n"
      "log_start s2 = 2" "log_size s2 = 30" "disksize s2 = 1000" "outstanding s2 = 1"
    using step_spec [OF s1(2) u, of 1] s1 by auto
  have "log_ok (s1\<lparr>curpid := 1\<rparr>)" "home (s1\<lparr>curpid := 1\<rparr>) 40" using s1(2) h by (simp_all add: txn_ok_def log_fine_def)
  then obtain t where "log_update (s1\<lparr>curpid := 1\<rparr>) 40 f = Inr t" "lh_n t = lh_n s1 + 1"
    using log_update_spec [of "s1\<lparr>curpid := 1\<rparr>" 40 f] \<open>lh_n s1 = 0\<close> s1 by (auto simp: f_def logged_def)
  then have "lh_n s2 = 1" using s2(1) \<open>lh_n s1 = 0\<close> by (simp add: log_step_def Let_def)
  moreover have "log_reach s0 (view s0) s2"
    using log_reach.step [OF log_reach.step [OF log_reach.start b s1(1)] u s2(1)] s1(7) s2(7) by simp
  moreover have "view s2 40 = put32 (view s0 40) 0 7" using s2(3) s1(3) h by (simp add: f_def)
  ultimately show ?thesis using s0 s2 by blast
qed

subsection \<open>Crashes\<close>

lemma recovery_writes_super:
  assumes "log_disk d sz st"
  shows "apply_writes (take k (recovery_writes st d)) d 1 = d 1"
proof -
  have "1 \<notin> fst ` set (recovery_writes st d)"
    using assms by (auto simp: recovery_writes_def replay_writes_def log_disk_def)
  then show ?thesis by (intro apply_writes_other) (auto dest: in_set_takeD)
qed

lemma crashed_recovery_disk:
  assumes "log_disk d sz st"
  shows "log_disk (apply_writes (take k (recovery_writes st d)) d) sz st"
proof -
  let ?e = "apply_writes (take k (recovery_writes st d)) d"
  have b: "length (d n) = BSIZE" if "0 \<le> n" "n < sz" for n using assms that by (simp add: log_disk_def wf_disk_def)
  have in_log: "0 \<le> st + int t + 1 \<and> st + int t + 1 < sz" if "t < nat (hdr_n (d st))" for t
    using assms that by (auto simp: log_disk_def)
  have st: "0 \<le> st" "st < sz" using assms by (auto simp: log_disk_def)
  have "length (snd w) = BSIZE" if "w \<in> set (recovery_writes st d)" for w
    using that b st in_log by (auto simp: recovery_writes_def replay_writes_def)
  then have wf: "wf_disk ?e sz"
    by (intro wf_disk_writes) (use assms in \<open>auto simp: log_disk_def dest: in_set_takeD\<close>)
  have one: "?e 1 = d 1" by (rule recovery_writes_super [OF assms])
  show ?thesis
  proof (cases "k \<le> length (replay_writes st d)")
    case True
    have "st \<notin> fst ` set (replay_writes st d)"
      by (rule replay_writes_other [OF assms order.refl]) (use assms in \<open>auto simp: log_disk_def\<close>)
    then have "?e st = d st" using True
      by (intro apply_writes_other) (auto simp: recovery_writes_def dest: in_set_takeD)
    then show ?thesis using assms wf one by (simp add: log_disk_def)
  next
    case False
    then have "?e st = put32 (d st) 0 0" by (simp add: recovery_writes_def)
    then have "hdr_n (?e st) = 0" using cleared_head b st by simp
    then show ?thesis by (rule log_disk_header [OF assms wf one])
  qed
qed

text \<open>
  C1 (crash_atomic): Let any number of processes run system calls over the log, interleaved in any
  order, and let the machine stop in the middle of any step, after any number of the disk writes of that step. When it
  is switched on again, \<open>initlog\<close> succeeds, and every block outside the log has the contents it had at the last
  moment when no system call was in progress; or, if the interrupted step was the end of the last
  system call, possibly those of this end. No block is torn between the two.
\<close>

theorem crash_atomic:
  assumes "txn_ok s0" and "outstanding s0 = 0" and "log_reach s0 c s" and "may_step ev s" and "log_step p ev s = Inr s'"
    and "booted m" and "disksize m = disksize s" and "outstanding m = 0" and "committing m = 0"
    and "memdisk m = apply_writes (take k (drop (length (disk_writes s)) (disk_writes s'))) (memdisk s)"
  shows "\<exists>m'. initlog m 1 = Inr m' \<and> txn_ok m' \<and> outstanding m' = 0 \<and>
    ((\<forall>n. home s n \<longrightarrow> memdisk m' n = c n) \<or> outstanding s' = 0 \<and> (\<forall>n. home s n \<longrightarrow> memdisk m' n = view s' n))"
proof -
  have ok: "txn_ok s" and c: "\<forall>n. home s n \<longrightarrow> memdisk s n = c n" using log_reach_inv [OF assms(3,1,2)] by blast+
  note crash = crash_in_step [OF ok assms(4,5,10)]
  obtain m' where m': "initlog m 1 = Inr m'" "txn_ok m'" "outstanding m' = 0"
      "\<forall>n. n \<noteq> log_start s \<longrightarrow> memdisk m' n = replay (log_start s) (memdisk m) n"
    using recovered_ok [OF assms(6) _ assms(8,9), of "log_start s"] crash(1) assms(7) by auto
  have "0 < log_size s" using ok by (auto simp: txn_ok_def log_fine_def log_ok_def log_layout_def)
  then have "n \<noteq> log_start s" if "home s n" for n using that by (auto simp: home_def)
  then show ?thesis using m' crash(2) c by (intro exI [of _ m']) auto
qed

lemma log_start_of_disk: "txn_ok s \<Longrightarrow> log_disk (memdisk s) (disksize s) (log_start s)"
  by (simp add: txn_ok_def log_fine_def)

theorem crash_atomic_witness:
  "\<exists>(s0 :: fsys) s s' (m :: fsys) m'. log_reach s0 (view s0) s \<and> outstanding s = 1 \<and> lh_n s = 1 \<and> log_step 1 End s = Inr s' \<and> booted m \<and>
     memdisk m = apply_writes (take 1 (drop (length (disk_writes s)) (disk_writes s'))) (memdisk s) \<and> initlog m 1 = Inr m' \<and> txn_ok m'"
proof -
  obtain s0 s where s: "txn_ok s0" "outstanding s0 = 0" "log_reach s0 (view s0) s" "txn_ok s" "outstanding s = 1" "lh_n s = 1" "disksize s = 1000"
    using working_log by auto
  then have e: "may_step End s" by simp
  obtain s' where s': "log_step 1 End s = Inr s'" using step_spec [OF s(4) e, of 1] by blast
  define d where "d = apply_writes (take 1 (drop (length (disk_writes s)) (disk_writes s'))) (memdisk s)"
  have "wf_disk d 1000" using crash_in_step(1) [OF s(4) e s' d_def] s(7) by (simp add: log_disk_def)
  then obtain m where m: "booted (m :: fsys)" "memdisk m = d" "disksize m = 1000" "outstanding m = 0" "committing m = 0" using cold_boots by blast
  obtain m' where "initlog m 1 = Inr m'" "txn_ok m'"
    using crash_atomic [OF s(1-3) e s' m(1) _ m(4,5), of 1] m(2,3) s(7) d_def by auto
  then show ?thesis using s s' m d_def by blast
qed

text \<open>
  C2 (log_steps_safe): In every reachable state, a system call that starts when \<open>begin_op\<close> need
  not wait, updates blocks outside the log while there is space, and ends, meets no panic and no buffer shortage, and
  the log stays well formed.
\<close>

theorem log_steps_safe:
  assumes "txn_ok s0" and "outstanding s0 = 0" and "log_reach s0 c s" and "may_step ev s"
  shows "\<exists>s'. log_step p ev s = Inr s' \<and> txn_ok s' \<and> (\<forall>n. home s n \<longrightarrow> view s' n = step_view ev (view s) n)"
  using step_spec [of s ev p] log_reach_inv [OF assms(3,1,2)] assms(4) by blast

theorem log_steps_safe_witness: "\<exists>(s :: fsys) s'. outstanding s = 1 \<and> log_step 1 End s = Inr s' \<and> txn_ok s'"
proof -
  obtain s0 s where s: "txn_ok s0" "outstanding s0 = 0" "log_reach s0 (view s0) s" "outstanding s = 1"
    using working_log by auto
  then have "may_step End s" by simp
  then show ?thesis using log_steps_safe [OF s(1-3), of End 1] s(4) by blast
qed

text \<open>
  C3 (recovery_repeats): A crash during recovery, after any number of its disk writes, is harmless: the
  next \<open>initlog\<close> succeeds and leaves the same contents outside the log as the uninterrupted one.
\<close>

theorem recovery_repeats:
  assumes "booted m" and "log_disk (memdisk m) (disksize m) st" and "outstanding m = 0" and "committing m = 0" and "initlog m 1 = Inr r"
    and "booted m2" and "disksize m2 = disksize m" and "outstanding m2 = 0" and "committing m2 = 0"
    and "memdisk m2 = apply_writes (take k (drop (length (disk_writes m)) (disk_writes r))) (memdisk m)"
  shows "\<exists>r2. initlog m2 1 = Inr r2 \<and> txn_ok r2 \<and> (\<forall>n. home r n \<longrightarrow> memdisk r2 n = memdisk r n)"
proof -
  let ?d = "memdisk m" and ?L = "uint (get32 (memdisk m 1) 12)"
  obtain t where t: "initlog m 1 = Inr t" "txn_ok t" "log_start t = st" "disksize t = disksize m"
      "\<forall>n. n \<noteq> st \<longrightarrow> memdisk t n = replay st ?d n" "disk_writes t = disk_writes m @ recovery_writes st ?d"
    using recovered_ok [OF assms(1-4)] by blast
  then have r: "r = t" using assms(5) by simp
  have d2: "memdisk m2 = apply_writes (take k (recovery_writes st ?d)) ?d" using assms(10) t(6) r by simp
  have ld2: "log_disk (memdisk m2) (disksize m2) st"
    unfolding d2 assms(7) by (rule crashed_recovery_disk [OF assms(2)])
  obtain r2 where r2: "initlog m2 1 = Inr r2" "txn_ok r2" "\<forall>n. n \<noteq> st \<longrightarrow> memdisk r2 n = replay st (memdisk m2) n"
    using recovered_ok [OF assms(6) ld2 assms(8,9)] by blast
  have L: "log_size r = ?L" "0 < ?L"
  proof -
    obtain x where "initlog m 1 = Inr x" "log_size x = ?L" using initlog_spec [OF assms(1,2)] by blast
    then show "log_size r = ?L" using assms(5) by simp
    show "0 < ?L" using assms(2) by (auto simp: log_disk_def)
  qed
  have "memdisk r2 n = memdisk r n" if "home r n" for n
  proof -
    have a: "\<not> (st \<le> n \<and> n < st + ?L)" using that L t(3) r by (simp add: home_def)
    then have "n \<noteq> st" using L(2) by auto
    then show ?thesis using r2(3) t(5) r crash_in_recovery [OF assms(2) a, of k] d2 by simp
  qed
  then show ?thesis using r2 by blast
qed

theorem recovery_repeats_witness:
  "\<exists>(m :: fsys) r m2 r2. initlog m 1 = Inr r \<and> booted (m2 :: fsys) \<and> memdisk m2 = memdisk m \<and> initlog m2 1 = Inr r2 \<and> txn_ok r2"
proof -
  obtain m r :: fsys where m: "booted m" "memdisk m = new_disk" "disksize m = 1000" "outstanding m = 0" "committing m = 0" "initlog m 1 = Inr r"
    using fresh_log by auto
  have ld: "log_disk (memdisk m) (disksize m) 2" using new_disk_log m by simp
  have d: "memdisk m = apply_writes (take 0 (drop (length (disk_writes m)) (disk_writes r))) (memdisk m)" by simp
  obtain r2 where "initlog m 1 = Inr r2" "txn_ok r2"
    using recovery_repeats [OF m(1) ld m(4-6) m(1) refl m(4,5) d] by blast
  then show ?thesis using m by blast
qed

subsection \<open>Limits\<close>

text \<open>Steps of several processes, one after the other.\<close>

fun log_run :: "(int \<times> log_event) list \<Rightarrow> 'a fsys_scheme \<Rightarrow> 'a fsys_scheme res" where
  "log_run [] s = Inr s"
| "log_run ((p, ev) # evs) s = rbind (log_step p ev s) (log_run evs)"

lemma new_block_logged:
  assumes "txn_ok s" and "0 < outstanding s" and "lh_n s < 29" and "lh_n s < log_size s - 1" and "home s n" and "n \<noteq> 1" and "n \<notin> set (logged s)"
    and "\<And>d. length d = BSIZE \<Longrightarrow> length (f d) = BSIZE"
  shows "\<exists>t. log_step p (Update n f) s = Inr t \<and> txn_ok t \<and> outstanding t = outstanding s \<and> log_size t = log_size s \<and> lh_n t = lh_n s + 1 \<and>
    logged t = logged s @ [n] \<and> home t = home s"
proof -
  let ?s = "s\<lparr>curpid := p\<rparr>"
  have ok: "log_ok ?s" using assms(1) by (simp add: txn_ok_def log_fine_def)
  have h: "home ?s n" using assms(5) by (simp add: home_def)
  have m: "may_step (Update n f) s" using assms by simp
  obtain t where t: "log_step p (Update n f) s = Inr t" "txn_ok t" using step_spec [OF assms(1) m, of p] by blast
  obtain u where u: "log_update ?s n f = Inr u" "logged u = logged s @ [n]" "lh_n u = lh_n s + 1" "log_start u = log_start s" "log_size u = log_size s"
      "disksize u = disksize s" "outstanding u = outstanding s"
    using log_update_spec [OF ok h, of f] assms(2-4,7,8) by auto
  have "t = u" using t(1) u(1) by (simp add: log_step_def Let_def)
  moreover have "home u = home s" using u(4-6) by (simp add: fun_eq_iff home_def)
  ultimately show ?thesis using t u by auto
qed

lemma new_blocks_logged:
  assumes "\<And>d. length d = BSIZE \<Longrightarrow> length (f d) = BSIZE"
  shows "txn_ok s \<Longrightarrow> 0 < outstanding s \<Longrightarrow> log_size s = 30 \<Longrightarrow> lh_n s + int (length ws) \<le> 29 \<Longrightarrow> distinct (map snd ws) \<Longrightarrow>
    \<forall>n \<in> snd ` set ws. home s n \<and> n \<noteq> 1 \<and> n \<notin> set (logged s) \<Longrightarrow>
    \<exists>t. log_run (map (\<lambda>(p, n). (p, Update n f)) ws) s = Inr t \<and> txn_ok t \<and> outstanding t = outstanding s \<and> log_size t = 30 \<and>
      lh_n t = lh_n s + int (length ws) \<and> logged t = logged s @ map snd ws \<and> home t = home s"
proof (induction ws arbitrary: s)
  case (Cons w ws)
  obtain p n where w: "w = (p, n)" by fastforce
  have n: "home s n" "n \<noteq> 1" "n \<notin> set (logged s)" "lh_n s < 29" "lh_n s < log_size s - 1" using Cons.prems by (simp_all add: w)
  obtain t where t: "log_step p (Update n f) s = Inr t" "txn_ok t" "outstanding t = outstanding s" "log_size t = log_size s" "lh_n t = lh_n s + 1"
      "logged t = logged s @ [n]" "home t = home s"
    using new_block_logged [OF Cons.prems(1,2) n(4,5,1-3), of f p] assms by blast
  have "\<exists>u. log_run (map (\<lambda>(p, n). (p, Update n f)) ws) t = Inr u \<and> txn_ok u \<and> outstanding u = outstanding t \<and> log_size u = 30 \<and>
      lh_n u = lh_n t + int (length ws) \<and> logged u = logged t @ map snd ws \<and> home u = home t"
    by (rule Cons.IH) (use Cons.prems t in \<open>auto simp: w\<close>)
  then show ?case using t by (auto simp: w)
qed simp

lemma log_full_panics:
  assumes "txn_ok s" and "log_size s = 30" and "lh_n s = 29" and "home s n"
    and "\<And>d. length d = BSIZE \<Longrightarrow> length (f d) = BSIZE"
  shows "log_step p (Update n f) s = Inl (Panic ''too big a transaction'')"
proof -
  let ?s = "s\<lparr>curpid := p\<rparr>"
  have ok: "log_ok ?s" using assms(1) by (simp add: txn_ok_def log_fine_def)
  then have q: "quiet ?s" and lay: "log_layout ?s" and pin: "pinned ?s = set (logged ?s)" by (simp_all add: log_ok_def)
  have bc: "bc_ok ?s" using q by (simp add: quiet_def)
  have n: "0 \<le> n" "n < disksize ?s" using assms(4) by (simp_all add: home_def)
  have card: "card (pinned ?s) < 30" using logged_facts(2) [OF lay] pin assms(3) by simp
  obtain s1 i where s1: "bread ?s 1 n = Inr (s1, int i)" "same_rest ?s s1" "bc_ok s1" "holds s1 {i}" "cached (content s1) n i"
      "view s1 = view ?s"
    using read_one [OF q n card] by blast
  have len: "length (f (view ?s n)) = BSIZE" by (rule assms(5)) (rule view_length [OF bc n])
  obtain s2 where s2: "set_data s1 (int i) (f (view ?s n)) = Inr s2" "same_rest s1 s2"
    using set_data_spec [OF s1(3,4) _ s1(5) len] by blast
  have "lh_n s2 = 29" "log_size s2 = 30" using same_rest_log [OF same_rest_trans [OF s1(2) s2(2)]] assms(2,3) by simp_all
  moreover have "get_data s1 (int i) = Inr (view ?s n)" using get_data_spec [OF s1(3,5)] s1(6) by simp
  moreover have "log_dev ?s = 1" using q by (simp add: quiet_def)
  ultimately have "log_update ?s n f = Inl (Panic ''too big a transaction'')"
    using s1(1) s2(1) by (simp add: log_update_def log_write_def)
  then show ?thesis by (simp add: log_step_def Let_def)
qed

text \<open>
  C11 (reservation_short): \<open>begin_op\<close> reserves ten blocks for each system call and lets three of them in (a fourth has to wait). But a log of
  30 blocks, header included, as mkfs lays it out, takes only 29: whenever the three calls log 30 different blocks, none of
  them more than the ten it has reserved, and in whatever order, the first 29 are accepted and the last one makes \<open>log_write\<close> panic.
\<close>

theorem reservation_short:
  assumes "txn_ok s" and "outstanding s = 0" and "log_size s = 30"
    and "length ws = 30" and "distinct (map snd ws)" and "\<forall>n \<in> snd ` set ws. home s n \<and> n \<noteq> 1"
    and "set (map fst ws) \<subseteq> {p1, p2, p3}" and "\<forall>p \<in> {p1, p2, p3}. int (count_list (map fst ws) p) \<le> MAXOPBLOCKS"
    and "\<And>d. length d = BSIZE \<Longrightarrow> length (f d) = BSIZE"
  shows "\<exists>s3 t. log_run [(p1, Begin), (p2, Begin), (p3, Begin)] s = Inr s3 \<and> outstanding s3 = 3 \<and>
    log_step p Begin s3 = Inl Sleeps \<and>
    log_run (map (\<lambda>(p, n). (p, Update n f)) (butlast ws)) s3 = Inr t \<and>
    log_step (fst (last ws)) (Update (snd (last ws)) f) t = Inl (Panic ''too big a transaction'')"
proof -
  have z: "lh_n s = 0" "committing s = 0" using assms(1,2) by (simp_all add: txn_ok_def)
  have beg: "\<exists>u. log_step p Begin v = Inr u \<and> txn_ok u \<and> outstanding u = outstanding v + 1 \<and> log_size u = log_size v \<and> lh_n u = 0 \<and>
      home u = home v \<and> logged u = logged v"
    if v: "txn_ok v" "lh_n v = 0" "outstanding v < 3" for v :: "'a fsys_scheme" and p
  proof -
    have m: "may_step Begin v" using v by (simp add: log_consts)
    obtain u where u: "log_step p Begin v = Inr u" "txn_ok u" using step_spec [OF v(1) m, of p] by blast
    have "u = v\<lparr>curpid := p, outstanding := outstanding v + 1\<rparr>" using u(1) v by (auto simp: log_step_def begin_op_def Let_def split: if_splits)
    then show ?thesis using u v by (auto simp: fun_eq_iff home_def logged_def)
  qed
  obtain s1 where s1: "log_step p1 Begin s = Inr s1" "txn_ok s1" "outstanding s1 = 1" "log_size s1 = 30" "lh_n s1 = 0" "home s1 = home s" "logged s1 = logged s"
    using beg [OF assms(1) z(1), of p1] assms(2,3) by auto
  obtain s2 where s2: "log_step p2 Begin s1 = Inr s2" "txn_ok s2" "outstanding s2 = 2" "log_size s2 = 30" "lh_n s2 = 0" "home s2 = home s" "logged s2 = logged s"
    using beg [OF s1(2,5), of p2] s1 by auto
  obtain s3 where s3: "log_step p3 Begin s2 = Inr s3" "txn_ok s3" "outstanding s3 = 3" "log_size s3 = 30" "lh_n s3 = 0" "home s3 = home s" "logged s3 = logged s"
    using beg [OF s2(2,5), of p3] s2 by auto
  have ne: "ws \<noteq> []" using assms(4) by auto
  then have ws: "ws = butlast ws @ [last ws]" by simp
  have hb: "\<forall>n \<in> snd ` set (butlast ws). home s3 n \<and> n \<noteq> 1 \<and> n \<notin> set (logged s3)" and lh: "lh_n s3 + int (length (butlast ws)) = 29"
    using assms(4,6) s3 z by (auto simp: logged_def dest: in_set_butlastD)
  have d: "distinct (map snd (butlast ws))" using assms(5) ws by (metis distinct_append map_append)
  obtain t where t: "log_run (map (\<lambda>(p, n). (p, Update n f)) (butlast ws)) s3 = Inr t" "txn_ok t" "log_size t = 30" "lh_n t = 29" "home t = home s"
    using new_blocks_logged [of f s3 "butlast ws"] assms(9) s3(2-4,6) d hb lh by force
  have "home t (snd (last ws))" using t(5) assms(6) ne by simp
  then have panic: "log_step (fst (last ws)) (Update (snd (last ws)) f) t = Inl (Panic ''too big a transaction'')"
    using log_full_panics [OF t(2-4)] assms(9) by blast
  have "log_step p Begin s3 = Inl Sleeps" using s3(2,3,5) by (simp add: log_step_def begin_op_def log_consts txn_ok_def)
  then show ?thesis using s1(1) s2(1) s3(1,3) t(1) panic by auto
qed

lemma filling_log:
  assumes "k \<le> 29"
  shows "\<exists>s :: fsys. txn_ok s \<and> outstanding s = 3 \<and> log_size s = 30 \<and> log_start s = 2 \<and> disksize s = 1000 \<and> lh_n s = int k \<and>
    logged s = map (\<lambda>i. 40 + int i) [0..<k] \<and> (\<forall>n. n \<noteq> 2 \<longrightarrow> n < 40 \<longrightarrow> view s n = new_disk n)"
  using assms
proof (induction k)
  case 0
  obtain s0 :: fsys where s0: "txn_ok s0" "outstanding s0 = 0" "log_start s0 = 2" "log_size s0 = 30" "disksize s0 = 1000" "lh_n s0 = 0"
      "\<forall>n. n \<noteq> 2 \<longrightarrow> view s0 n = new_disk n"
    using fresh_log by auto
  have "txn_ok (s0\<lparr>outstanding := 3\<rparr>)" using s0 by (simp add: txn_ok_def)
  then show ?case using s0 by (intro exI [of _ "s0\<lparr>outstanding := 3\<rparr>"]) (simp add: logged_def content_def)
next
  case (Suc k)
  then obtain s :: fsys where s: "txn_ok s" "outstanding s = 3" "log_size s = 30" "log_start s = 2" "disksize s = 1000" "lh_n s = int k"
      "logged s = map (\<lambda>i. 40 + int i) [0..<k]" "\<forall>n. n \<noteq> 2 \<longrightarrow> n < 40 \<longrightarrow> view s n = new_disk n" by auto
  let ?n = "40 + int k" and ?f = "\<lambda>d :: block. put32 d 0 7" and ?s = "s\<lparr>curpid := 1\<rparr>"
  have new: "?n \<notin> set (logged s)" using s(7) by auto
  have h: "home s ?n" "home ?s ?n" using s Suc.prems by (simp_all add: home_def)
  have m: "may_step (Update ?n ?f) s" using s h new Suc.prems by simp
  obtain t where t: "log_step 1 (Update ?n ?f) s = Inr t" "txn_ok t" using step_spec [OF s(1) m, of 1] by blast
  have ok: "log_ok ?s" using s(1) by (simp add: txn_ok_def log_fine_def)
  obtain u where u: "log_update ?s ?n ?f = Inr u" "logged u = logged s @ [?n]" "lh_n u = lh_n s + 1" "log_start u = 2" "log_size u = 30"
      "disksize u = 1000" "outstanding u = 3"
      "view u = (view ?s)(?n := ?f (view ?s ?n))"
    using log_update_spec [OF ok h(2), of ?f] s new Suc.prems by auto
  have "t = u" using t(1) u(1) by (simp add: log_step_def Let_def)
  moreover have "view u n = new_disk n" if "n \<noteq> 2" "n < 40" for n using u(8) s(8) that by (simp add: content_def)
  ultimately show ?case using t(2) u s(6,7) by (intro exI [of _ t]) simp
qed

theorem reservation_short_witness:
  "\<exists>(s :: fsys) s3 t. lh_n s = 0 \<and> log_run [(1, Begin), (2, Begin), (3, Begin)] s = Inr s3 \<and>
     log_run (map (\<lambda>(p, n). (p, Update n (\<lambda>d. d))) (butlast (map (\<lambda>i. (int (i mod 3) + 1, 40 + int i)) [0..<30]))) s3 = Inr t \<and>
     log_step 3 (Update 69 (\<lambda>d. d)) t = Inl (Panic ''too big a transaction'')"
proof -
  let ?ws = "map (\<lambda>i. (int (i mod 3) + 1, 40 + int i)) [0..<30]"
  obtain s :: fsys where s: "txn_ok s" "outstanding s = 0" "log_start s = 2" "log_size s = 30" "disksize s = 1000" "lh_n s = 0"
    using fresh_log by auto
  have d: "distinct (map snd ?ws)" by (simp add: o_def distinct_map inj_on_def)
  have h: "\<forall>n \<in> snd ` set ?ws. home s n \<and> n \<noteq> 1" using s by (auto simp: home_def)
  have p: "map fst ?ws = concat (replicate 10 [1, 2, 3])" by code_simp
  have c: "set (map fst ?ws) \<subseteq> {1, 2, 3}" "\<forall>p \<in> {1, 2, 3}. int (count_list (map fst ?ws) p) \<le> MAXOPBLOCKS"
    unfolding p by code_simp+
  have l: "last ?ws = (3, 69)" "length ?ws = 30" by (code_simp, simp)
  obtain s3 t where r: "log_run [(1, Begin), (2, Begin), (3, Begin)] s = Inr s3"
    "log_run (map (\<lambda>(p, n). (p, Update n (\<lambda>d. d))) (butlast ?ws)) s3 = Inr t"
    "log_step (fst (last ?ws)) (Update (snd (last ?ws)) (\<lambda>d. d)) t = Inl (Panic ''too big a transaction'')"
    using reservation_short [OF s(1,2,4) l(2) d h c, of "\<lambda>d. d"] by blast
  show ?thesis by (rule exI [of _ s], rule exI [of _ s3], rule exI [of _ t], intro conjI s(6) r(1,2), rule r(3) [unfolded l(1) fst_conv snd_conv])
qed

text \<open>
  (header_roundtrip): What \<open>write_head\<close> puts on the disk is what \<open>read_head\<close> gets back: the number
  of logged blocks and their numbers, for every well-formed log.
\<close>

theorem header_roundtrip:
  assumes "log_ok s" and "lh_n s < 30" and "write_head s = Inr s'" and "length bl = LOGSIZE"
  shows "\<exists>r. read_head (s'\<lparr>lh_n := v, lh_block := bl\<rparr>) = Inr r \<and> lh_n r = lh_n s \<and> logged r = logged s"
proof -
  have q: "quiet s" and lay: "log_layout s" and pin: "pinned s = set (logged s)" using assms(1) by (simp_all add: log_ok_def)
  have a: "0 \<le> log_start s" "log_start s < disksize s" and n: "0 \<le> lh_n s" "lh_n s \<le> int LOGSIZE" and nb: "nat (lh_n s) \<le> length (lh_block s)"
    using lay by (auto simp: log_layout_def)
  have card: "card (pinned s) < 30" using logged_facts(2) [OF lay] pin assms(2) n by simp
  have np: "log_start s \<notin> pinned s" using areas_apart(2) [OF lay] pin by simp
  have w: "quiet s'" "same_rest s s'" "memdisk s' = (memdisk s)(log_start s := full_head s)" "pinned s' = pinned s"
    using write_head_spec [OF q lay card np] assms(3) by (auto simp: full_head_def Let_def)
  note r = same_rest_log [OF w(2)]
  let ?t = "s'\<lparr>lh_n := v, lh_block := bl\<rparr>"
  have h: "full_head s = memdisk ?t (log_start ?t)" using w(3) r by simp
  have q2: "quiet ?t" using w(1) by (simp add: quiet_def)
  obtain u where u: "read_head ?t = Inr u"
      "same_rest (?t\<lparr>lh_n := hdr_n (full_head s), lh_block := map (hdr_block (full_head s)) [0..<nat (hdr_n (full_head s))] @ drop (nat (hdr_n (full_head s))) bl\<rparr>) u"
    using read_head_spec [OF q2 _ _ _ _ h] card np w(4) r a n assms(4) full_head_get(1) [OF assms(1)] by auto
  have "logged u = map (hdr_block (full_head s)) [0..<nat (lh_n s)]"
    using same_rest_log [OF u(2)] full_head_get(1) [OF assms(1)] by (simp add: logged_def)
  also have "\<dots> = logged s"
    using full_head_get(2) [OF assms(1)] nb by (auto simp: logged_def intro!: nth_equalityI)
  finally show ?thesis using u(1) same_rest_log [OF u(2)] full_head_get(1) [OF assms(1)] by auto
qed

theorem header_roundtrip_witness:
  "\<exists>(s :: fsys) s' r. lh_n s = 5 \<and> logged s = [40, 41, 42, 43, 44] \<and> write_head s = Inr s' \<and>
     read_head (s'\<lparr>lh_n := 0, lh_block := replicate LOGSIZE 0\<rparr>) = Inr r \<and> lh_n r = 5 \<and> logged r = [40, 41, 42, 43, 44]"
proof -
  obtain s :: fsys where s: "txn_ok s" "lh_n s = int 5" "logged s = map (\<lambda>i. 40 + int i) [0..<5]" using filling_log [of 5] by auto
  have ok: "log_ok s" and n: "lh_n s < 30" using s by (simp_all add: txn_ok_def log_fine_def)
  then have q: "quiet s" and lay: "log_layout s" and pin: "pinned s = set (logged s)" by (simp_all add: log_ok_def)
  have "card (pinned s) < 30" using logged_facts(2) [OF lay] pin n by simp
  then obtain s' where s': "write_head s = Inr s'"
    using write_head_spec [OF q lay _] areas_apart(2) [OF lay] pin by auto
  have "logged s = [40, 41, 42, 43, 44]" using s(3) by (simp add: upt_rec)
  then show ?thesis using header_roundtrip [OF ok n s', of "replicate LOGSIZE 0" 0] s(2) s' by auto
qed

subsection \<open>The cache\<close>

text \<open>
  C9 (write_through): The cache behaves as an array of blocks: reading a block, overwriting the buffer,
  \<open>bwrite\<close> and \<open>brelse\<close> succeed while a buffer is free, and change exactly this block, for later readers and
  on the disk; a later \<open>bread\<close> of any block returns its buffer, locked, with the current contents.
\<close>

theorem write_through:
  assumes "bc_ok s" and "holds s {}" and "0 \<le> n" and "n < disksize s" and "card (pinned s) < 30" and "length d = BSIZE"
    and "0 \<le> m" and "m < disksize s"
  shows "\<exists>s1 i s2 s3 s4 s5 j. bread s 1 n = Inr (s1, i) \<and> set_data s1 i d = Inr s2 \<and> bwrite s2 i = Inr s3 \<and> brelse s3 i = Inr s4 \<and>
    bc_ok s4 \<and> holds s4 {} \<and> memdisk s4 = (memdisk s)(n := d) \<and> disk_writes s4 = disk_writes s @ [(n, d)] \<and>
    view s4 = (view s)(n := d) \<and> pinned s4 = pinned s - {n} \<and>
    bread s4 1 m = Inr (s5, j) \<and> get_data s5 j = Inr (if m = n then d else view s m)"
proof -
  obtain i x where 1: "bread s 1 n = Inr (s\<lparr>bufs := (bufs s)[i := x]\<rparr>, int i)" "bc_ok (s\<lparr>bufs := (bufs s)[i := x]\<rparr>)"
      "holds (s\<lparr>bufs := (bufs s)[i := x]\<rparr>) {i}" "cached (content (s\<lparr>bufs := (bufs s)[i := x]\<rparr>)) n i"
      "view (s\<lparr>bufs := (bufs s)[i := x]\<rparr>) = view s" "pinned (s\<lparr>bufs := (bufs s)[i := x]\<rparr>) = pinned s"
    using bread_spec [OF assms(1-4)] assms(5) by auto
  define s1 where "s1 = s\<lparr>bufs := (bufs s)[i := x]\<rparr>"
  note 1 = 1 [folded s1_def]
  have m1: "memdisk s1 = memdisk s" "disk_writes s1 = disk_writes s" "disksize s1 = disksize s" by (simp_all add: s1_def)
  obtain s2 where s2: "set_data s1 (int i) d = Inr s2" "same_rest s1 s2" "bc_ok s2" "holds s2 {i}" "cached (content s2) n i"
      "memdisk s2 = memdisk s1" "disk_writes s2 = disk_writes s1" "view s2 = (view s1)(n := d)" "pinned s2 = pinned s1"
    using set_data_spec [OF 1(2,3) _ 1(4) assms(6)] by blast
  obtain s3 where s3: "bwrite s2 (int i) = Inr s3" "same_rest s2 s3" "bc_ok s3" "holds s3 {i}" "memdisk s3 = (memdisk s2)(n := view s2 n)"
      "disk_writes s3 = disk_writes s2 @ [(n, view s2 n)]" "view s3 = view s2" "pinned s3 = pinned s2 - {n}" "cached (content s3) n i"
    using bwrite_spec [OF s2(3,4) _ s2(5)] s2(5) by blast
  have "view s3 n = memdisk s3 n" using s3(5,7) by simp
  then obtain s4 where s4: "brelse s3 (int i) = Inr s4" "same_rest s3 s4" "bc_ok s4" "holds s4 {}" "memdisk s4 = memdisk s3"
      "disk_writes s4 = disk_writes s3" "view s4 = view s3" "pinned s4 = pinned s3"
    using brelse_spec [OF s3(3,4) _ s3(9)] by auto
  have sz: "disksize s4 = disksize s"
    using same_rest_trans [OF same_rest_trans [OF s2(2) s3(2)] s4(2)] m1(3) unfolding same_rest_iff by simp
  have "card (pinned s4) < 30"
  proof -
    have "card (pinned s4) \<le> card (pinned s)"
      by (rule card_mono) (use s4(8) s3(8) s2(9) 1(6) in auto)
    then show ?thesis using assms(5) by simp
  qed
  then obtain j y where 5: "bread s4 1 m = Inr (s4\<lparr>bufs := (bufs s4)[j := y]\<rparr>, int j)" "bc_ok (s4\<lparr>bufs := (bufs s4)[j := y]\<rparr>)"
      "cached (content (s4\<lparr>bufs := (bufs s4)[j := y]\<rparr>)) m j" "view (s4\<lparr>bufs := (bufs s4)[j := y]\<rparr>) = view s4"
    using bread_spec [OF s4(3,4) assms(7)] assms(8) sz by auto
  define s5 where "s5 = s4\<lparr>bufs := (bufs s4)[j := y]\<rparr>"
  note 5 = 5 [folded s5_def]
  have v: "view s4 = (view s)(n := d)" using s4(7) s3(7) s2(8) 1(5) by simp
  have "get_data s5 (int j) = Inr (view s5 m)" by (rule get_data_spec [OF 5(2,3)])
  then have "get_data s5 (int j) = Inr (if m = n then d else view s m)" using 5(4) v by simp
  moreover have "memdisk s4 = (memdisk s)(n := d)" "disk_writes s4 = disk_writes s @ [(n, d)]" "pinned s4 = pinned s - {n}"
    using s4(5,6,8) s3(5,6,8) s2(6-9) 1(6) m1 by simp_all
  ultimately show ?thesis using 1(1) s2(1) s3(1) s4(1,3,4) v 5(1) by blast
qed

theorem write_through_witness:
  "\<exists>(s :: fsys) s1 i s2 s3 s4 s5 j. booted s \<and> bread s 1 7 = Inr (s1, i) \<and> set_data s1 i (put32 blank 0 5) = Inr s2 \<and>
     bwrite s2 i = Inr s3 \<and> brelse s3 i = Inr s4 \<and> bread s4 1 7 = Inr (s5, j) \<and> get_data s5 j = Inr (put32 blank 0 5)"
proof -
  obtain s :: fsys where s: "booted s" "disksize s = 1000" using fresh_log by auto
  then have b: "bc_ok s" "holds s {}" "card (pinned s) < 30" by (simp_all add: booted_def)
  show ?thesis
    using write_through [OF b(1,2), of 7 "put32 blank 0 5" 7] b(3) s by auto
qed

text \<open>
  C10 (cache_lru): A block that is not cached is read into the clean buffer that was released longest ago, with the
  contents of the disk; blocks held dirty for the log are passed over. Releasing a buffer makes it the most recently used one and
  keeps the order of the others.
\<close>

theorem cache_lru:
  assumes "bc_ok s" and "holds s {}" and "ring s ids" and "set ids = {..<30}" and "0 \<le> n" and "n < disksize s"
    and "\<nexists>i. cached (content s) n i" and "card (pinned s) < 30"
  shows "\<exists>i s1 s2. bread s 1 n = Inr (s1, int i) \<and> List.find (\<lambda>j. \<not> B_DIRTY (bufs s ! j)) (rev ids) = Some i \<and>
    get_data s1 (int i) = Inr (memdisk s n) \<and> ring s1 ids \<and> brelse s1 (int i) = Inr s2 \<and> ring s2 (i # remove1 i ids)"
proof -
  have len: "length (bufs s) = 30" by (rule ok_length [OF assms(1)])
  obtain i where get: "bget s 1 n = Inr (s\<lparr>bufs := (bufs s)[i := (bufs s ! i)\<lparr>dev := 1, blockno := n, B_VALID := False,
      B_DIRTY := False, refcnt := 1, block_lock := \<lparr>locked = 1, pid = curpid s\<rparr>\<rparr>]\<rparr>, int i)"
    and i: "i < 30" "List.find (\<lambda>j. refcnt (bufs s ! j) = 0 \<and> \<not> B_DIRTY (bufs s ! j)) (rev ids) = Some i"
    using bget_miss_lru [OF assms(1,2,7) _ assms(3,4)] assms(8) by auto
  have free: "refcnt (bufs s ! j) = 0" if "j \<in> set (rev ids)" for j
    using assms(2,4) that len by (auto simp: holds_of_def)
  have lru: "List.find (\<lambda>j. \<not> B_DIRTY (bufs s ! j)) (rev ids) = Some i"
    using i(2) find_cong [OF refl, of "rev ids" "\<lambda>j. refcnt (bufs s ! j) = 0 \<and> \<not> B_DIRTY (bufs s ! j)" "\<lambda>j. \<not> B_DIRTY (bufs s ! j)"] free by simp
  let ?b = "(bufs s ! i)\<lparr>dev := 1, blockno := n, B_VALID := True, B_DIRTY := False, refcnt := 1,
      block_lock := \<lparr>locked = 1, pid = curpid s\<rparr>, data := memdisk s n\<rparr>"
  let ?s = "s\<lparr>bufs := (bufs s)[i := ?b]\<rparr>"
  have eq: "(bufs s ! i)\<lparr>dev := 1, blockno := n, B_DIRTY := False, refcnt := 1, block_lock := \<lparr>locked = 1, pid = curpid s\<rparr>,
      data := memdisk s n, B_VALID := True\<rparr> = ?b" by (cases "bufs s ! i") simp
  have run: "bread s 1 n = Inr (?s, int i)"
    unfolding eq [symmetric] using i len assms(5,6) unfolding bread_def get by (simp add: iderw_def holdingsleep_def)
  obtain i' b' where "bread s 1 n = Inr (s\<lparr>bufs := (bufs s)[i' := b']\<rparr>, int i')" "bc_ok (s\<lparr>bufs := (bufs s)[i' := b']\<rparr>)"
      "holds (s\<lparr>bufs := (bufs s)[i' := b']\<rparr>) {i'}"
    using bread_spec [OF assms(1,2,5,6)] assms(8) by auto
  then have ok: "bc_ok ?s" "holds ?s {i}" using run by auto
  have r: "ring ?s ids"
    by (rule ring_same_links [OF assms(3), of "(bufs s)[i := ?b]"]) (use i(1) len in \<open>auto simp: nth_list_update\<close>)
  obtain l h t where "brelse ?s (int i) = Inr (?s\<lparr>bufs := l, head_next := h, head_prev := t\<rparr>)"
      "ring (?s\<lparr>bufs := l, head_next := h, head_prev := t\<rparr>) (i # remove1 i ids)"
    using brelse_content [OF ok _ r assms(4)] by blast
  moreover have "get_data ?s (int i) = Inr (memdisk s n)" using i(1) len by (simp add: get_data_def)
  ultimately show ?thesis using run lru r by blast
qed

theorem cache_lru_witness:
  "\<exists>(s :: fsys) s1 s2. binit (cold new_disk) = Inr s \<and> ring s (rev [0..<30]) \<and> bread s 1 7 = Inr (s1, 0) \<and>
     get_data s1 0 = Inr (new_disk 7) \<and> brelse s1 0 = Inr s2 \<and> ring s2 (0 # rev [1..<30])"
proof -
  have "wf_disk new_disk 1000" using new_disk_log by (simp add: log_disk_def)
  then obtain s :: fsys where s: "binit (cold new_disk) = Inr s" "booted s" "memdisk s = new_disk" "disksize s = 1000"
      "ring s (rev [0..<30])" "\<forall>n i. \<not> cached (content s) n i" using cold_boots by blast
  then have b: "bc_ok s" "holds s {}" "pinned s = {}" by (simp_all add: booted_def)
  have un: "\<nexists>i. cached (content s) 7 i" and ids: "set (rev [0..<30]) = {..<30::nat}" using s(6) by auto
  obtain i s1 s2 where i: "bread s 1 7 = Inr (s1, int i)" "List.find (\<lambda>j. \<not> B_DIRTY (bufs s ! j)) (rev (rev [0..<30])) = Some i"
      "get_data s1 (int i) = Inr (new_disk 7)" "brelse s1 (int i) = Inr s2" "ring s2 (i # remove1 i (rev [0..<30]))"
    using cache_lru [OF b(1,2) s(5) ids _ _ un] b(3) s(3,4) by auto
  have wf: "wf_content (content s) (disksize s)" using b(1) by (simp add: bc_ok_def)
  have "\<not> cached (content s) (blockno (content s ! 0)) 0" using s(6) by blast
  then have "dev (content s ! 0) \<noteq> 1" using ok_length [OF b(1)] by (simp add: cached_def)
  then have "\<not> B_DIRTY (content s ! 0)" using wf unfolding wf_content_def by (metis zero_less_numeral)
  then have "\<not> B_DIRTY (bufs s ! 0)" using ok_length [OF b(1)] by simp
  then have "i = 0" using i(2) by (simp add: upt_rec [of 0])
  moreover have "remove1 0 (rev [0..<30::nat]) = rev [1..<30]" by (simp add: upt_rec)
  ultimately show ?thesis using s i by auto
qed

end
