(* ===== verification/FS_Alloc.thy ===== *)
theory FS_Alloc
  imports Directories LogClaims
begin

text \<open>
  Blocks inside a transaction, and the block allocator. \<open>fs_ready s k\<close>: a system call is under way and \<open>k\<close> more
  blocks can be logged; \<open>fs_frame s s'\<close>: nothing changed but the cache and what the log records; \<open>in_use s b\<close>: the
  bit of block \<open>b\<close> in the bit map, as readers see it.
\<close>

subsection \<open>Reading and changing one block\<close>

definition fs_ready :: "'a fs_state_scheme \<Rightarrow> int \<Rightarrow> bool" where
  "fs_ready s k \<longleftrightarrow> log_ok s \<and> 0 < outstanding s \<and> lh_n s + k < 30 \<and> lh_n s + k < log_size s"

definition fs_frame :: "'a fs_state_scheme \<Rightarrow> 'a fs_state_scheme \<Rightarrow> bool" where
  "fs_frame s s' \<longleftrightarrow> memdisk s' = memdisk s \<and> disk_writes s' = disk_writes s \<and> log_start s' = log_start s \<and> log_size s' = log_size s \<and>
     disksize s' = disksize s \<and> outstanding s' = outstanding s \<and> committing s' = committing s \<and> curpid s' = curpid s \<and>
     fsys.more s' = fsys.more s"

lemma fs_frame_refl [simp]: "fs_frame s s"
  by (simp add: fs_frame_def)

lemma fs_frame_trans: "fs_frame s s1 \<Longrightarrow> fs_frame s1 s2 \<Longrightarrow> fs_frame s s2"
  by (simp add: fs_frame_def)

lemma fs_frameD:
  assumes "fs_frame s s'"
  shows "sb s' = sb s" "inodes s' = inodes s" "cwd s' = cwd s" "home s' n = home s n" "disksize s' = disksize s"
    "curpid s' = curpid s" "outstanding s' = outstanding s" "log_size s' = log_size s"
proof -
  have "fsys.more s' = fsys.more s" using assms by (simp add: fs_frame_def)
  then show "sb s' = sb s" "inodes s' = inodes s" "cwd s' = cwd s" by (cases s, cases s', simp)+
  show "home s' n = home s n" "disksize s' = disksize s" "curpid s' = curpid s" "outstanding s' = outstanding s" "log_size s' = log_size s"
    using assms by (simp_all add: fs_frame_def home_def)
qed

lemma same_rest_frame:
  assumes "same_rest s s'" and "memdisk s' = memdisk s" and "disk_writes s' = disk_writes s"
  shows "fs_frame s s'" and "lh_n s' = lh_n s" and "logged s' = logged s"
  using assms same_rest_log [OF assms(1)] unfolding same_rest_iff fs_frame_def logged_def by (cases s, cases s', simp)+

lemma fs_ready_le: "fs_ready s k \<Longrightarrow> j \<le> k \<Longrightarrow> fs_ready s j"
  by (simp add: fs_ready_def)

text \<open>Reading a block, and giving it back unchanged.\<close>

lemma read_block:
  assumes "fs_ready s k" and "0 \<le> k" and "0 \<le> n" and "n < disksize s"
  obtains s1 i s2 where "bread s 1 n = Inr (s1, int i)" and "get_data s1 (int i) = Inr (view s n)"
    and "brelse s1 (int i) = Inr s2" and "fs_ready s2 k" and "view s2 = view s" and "fs_frame s s2" and "lh_n s2 = lh_n s"
    and "fs_frame s s1"
proof -
  have ok: "log_ok s" and lh: "lh_n s < 30" using assms(1,2) by (simp_all add: fs_ready_def)
  then have q: "quiet s" and lay: "log_layout s" and pin: "pinned s = set (logged s)" by (simp_all add: log_ok_def)
  have card: "card (pinned s) < 30" using logged_facts(2) [OF lay] pin lh by simp
  obtain s1 i where s1: "bread s 1 n = Inr (s1, int i)" "same_rest s s1" "bc_ok s1" "holds s1 {i}" "cached (content s1) n i"
      "memdisk s1 = memdisk s" "disk_writes s1 = disk_writes s" "view s1 = view s" "pinned s1 = pinned s"
    using read_one [OF q assms(3,4) card] by blast
  have d: "get_data s1 (int i) = Inr (view s n)" using get_data_spec [OF s1(3,5)] s1(8) by simp
  have v: "n \<in> pinned s1 \<or> view s1 n = memdisk s1 n" using quiet_view [OF q, of n] s1(6,8,9) by auto
  have dev: "log_dev s1 = 1" using same_rest_log(5) [OF s1(2)] q by (simp add: quiet_def)
  obtain s2 where s2: "brelse s1 (int i) = Inr s2" "same_rest s1 s2" "quiet s2" "memdisk s2 = memdisk s1" "disk_writes s2 = disk_writes s1"
      "view s2 = view s1" "pinned s2 = pinned s1"
    using release_one [OF s1(3-5) v dev] by blast
  have r: "same_rest s s2" by (rule same_rest_trans [OF s1(2) s2(2)])
  have m: "memdisk s2 = memdisk s" "disk_writes s2 = disk_writes s" using s1(6,7) s2(4,5) by simp_all
  note f = same_rest_frame [OF r m] and f1 = same_rest_frame [OF s1(2,6,7)]
  have "log_layout s2" using same_rest_layout(2) [OF r] lay by simp
  then have "log_ok s2"
    using s2(3,7) s1(9) pin ok f m same_rest_log(1) [OF r] fs_frameD(5) [OF f(1)] by (simp add: log_ok_def)
  then have "fs_ready s2 k" using assms(1) f(2) fs_frameD(7,8) [OF f(1)] by (simp add: fs_ready_def)
  then show thesis using that [OF s1(1) d s2(1) _ _ f(1,2) f1(1)] s2(6) s1(8) by simp
qed

text \<open>Changing a block inside the transaction.\<close>

lemma change_block:
  assumes "fs_ready s (k + 1)" and "0 \<le> k" and "home s n" and "length d = BSIZE"
  obtains s1 i s2 s3 s4 where "bread s 1 n = Inr (s1, int i)" and "get_data s1 (int i) = Inr (view s n)" and "set_data s1 (int i) d = Inr s2"
    and "log_write s2 (int i) = Inr s3" and "brelse s3 (int i) = Inr s4" and "fs_ready s4 k" and "view s4 = (view s)(n := d)"
    and "fs_frame s s4" and "fs_frame s s1"
proof -
  have ok: "log_ok s" and o: "0 < outstanding s" and lh: "lh_n s < 30" "lh_n s < log_size s - 1"
    using assms(1,2) by (simp_all add: fs_ready_def)
  have n: "0 \<le> n" "n < disksize s" using assms(3) by (simp_all add: home_def)
  have dev: "log_dev s = 1" using ok by (simp add: log_ok_def quiet_def)
  obtain s5 where s5: "log_update s n (\<lambda>_. d) = Inr s5" "log_ok s5" "memdisk s5 = memdisk s" "disk_writes s5 = disk_writes s"
      "view s5 = (view s)(n := d)" "lh_n s5 = (if n \<in> set (logged s) then lh_n s else lh_n s + 1)"
      "log_start s5 = log_start s" "log_size s5 = log_size s" "disksize s5 = disksize s" "outstanding s5 = outstanding s"
      "committing s5 = committing s" "curpid s5 = curpid s" "fsys.more s5 = fsys.more s"
    using log_update_spec [OF ok assms(3) o lh, of "\<lambda>_. d"] assms(4) by auto
  have k1: "0 \<le> k + 1" using assms(2) by simp
  obtain s1 i where s1: "bread s 1 n = Inr (s1, int i)" "get_data s1 (int i) = Inr (view s n)" "fs_frame s s1"
    using read_block [OF assms(1) k1 n] by metis
  obtain s2 s3 where "set_data s1 (int i) d = Inr s2" "log_write s2 (int i) = Inr s3" "brelse s3 (int i) = Inr s5"
    using s5(1) s1(1,2) dev by (auto simp: log_update_def rbind_eq_Inr)
  moreover have "fs_frame s s5" using s5 by (simp add: fs_frame_def)
  moreover have "fs_ready s5 k" using s5 assms(1) by (auto simp: fs_ready_def)
  ultimately show thesis using that [OF s1(1,2)] s5(5) s1(3) by blast
qed

lemma bzero_spec:
  assumes "fs_ready s (k + 1)" and "0 \<le> k" and "home s n"
  obtains s' where "bzero s 1 n = Inr s'" and "fs_ready s' k" and "view s' = (view s)(n := replicate BSIZE 0)" and "fs_frame s s'"
proof -
  obtain s1 i s2 s3 s4 where "bread s 1 n = Inr (s1, int i)" "set_data s1 (int i) (replicate BSIZE 0) = Inr s2" "log_write s2 (int i) = Inr s3"
      "brelse s3 (int i) = Inr s4" "fs_ready s4 k" "view s4 = (view s)(n := replicate BSIZE 0)" "fs_frame s s4"
    using change_block [OF assms, of "replicate BSIZE 0"] by (metis length_replicate)
  then show thesis using that by (simp add: bzero_def)
qed

subsection \<open>The bit map\<close>

definition map_bit :: "block \<Rightarrow> nat \<Rightarrow> bool" where
  "map_bit m bi \<longleftrightarrow> bit (m ! (bi div 8)) (bi mod 8)"

definition in_use :: "'a fs_state_scheme \<Rightarrow> int \<Rightarrow> bool" where
  "in_use s b \<longleftrightarrow> map_bit (view s (BBLOCK b (sb s))) (nat (b mod BPB))"

lemma mask_clear: "(x AND bit_mask (int bi) = 0) = (\<not> bit x (bi mod 8))"
proof -
  have n: "nat (int bi mod 8) = bi mod 8" by (simp add: zmod_int nat_mod_distrib)
  have l: "bi mod 8 < 8" by simp
  show ?thesis
  proof (cases "bit x (bi mod 8)")
    case True
    then have "bit (x AND bit_mask (int bi)) (bi mod 8)" unfolding bit_mask_def n using l by (simp add: bit_simps)
    then show ?thesis using True by auto
  next
    case False
    have "x AND bit_mask (int bi) = 0" unfolding bit_mask_def n by (rule bit_word_eqI) (use False in \<open>auto simp: bit_simps\<close>)
    then show ?thesis using False by simp
  qed
qed

lemma find_clear_from:
  assumes "length m = BSIZE" and "int e \<le> BPB" and "a \<le> e"
  shows "for_each (\<lambda>bi r. rbind (arr_get m (int bi div 8)) (\<lambda>x.
         if x AND bit_mask (int bi) = 0 then brk (int bi) else cont (-1))) [a..<e] (-1) =
    Inr (case List.find (\<lambda>bi. \<not> map_bit m bi) [a..<e] of None \<Rightarrow> -1 | Some bi \<Rightarrow> int bi)"
  using assms(3)
proof (induction "e - a" arbitrary: a)
  case 0
  then show ?case by simp
next
  case (Suc k)
  then have up: "[a..<e] = a # [Suc a..<e]" by (simp add: upt_conv_Cons)
  have k: "k = e - Suc a" "Suc a \<le> e" using Suc(2,3) by simp_all
  have d: "int a div 8 = int (a div 8)" by (simp add: zdiv_int)
  have "a div 8 < length m" using assms(1,2) Suc(2,3) by (simp add: fs_consts)
  then have g: "arr_get m (int a div 8) = Inr (m ! (a div 8))" unfolding d by simp
  show ?case unfolding up using Suc(1) [OF k] by (simp add: g mask_clear map_bit_def brk_def cont_def)
qed

lemma find_clear_spec:
  assumes "length m = BSIZE"
  shows "find_clear m b sz = Inr (case List.find (\<lambda>bi. \<not> map_bit m bi) [0..<nat (min BPB (sz - b))] of None \<Rightarrow> -1 | Some bi \<Rightarrow> int bi)"
proof -
  have "int (nat (min BPB (sz - b))) \<le> BPB" by (simp add: fs_consts)
  then show ?thesis using find_clear_from [OF assms _ le0] by (simp add: find_clear_def)
qed

text \<open>Setting and clearing a bit, as the code does on the byte it is in.\<close>

definition with_bit :: "block \<Rightarrow> nat \<Rightarrow> bool \<Rightarrow> block" where
  "with_bit m bi v = m[bi div 8 := (if v then set_bit (bi mod 8) (m ! (bi div 8)) else unset_bit (bi mod 8) (m ! (bi div 8)))]"

lemma length_with_bit [simp]: "length (with_bit m bi v) = length m"
  by (simp add: with_bit_def)

lemma map_bit_with_bit:
  assumes "bi div 8 < length m"
  shows "map_bit (with_bit m bi v) bj = (if bj = bi then v else map_bit m bj)"
proof (cases "bj div 8 = bi div 8")
  case True
  then have "bj mod 8 = bi mod 8 \<longleftrightarrow> bj = bi" by (metis mult_div_mod_eq)
  moreover have "bi mod 8 < 8" by simp
  ultimately show ?thesis using True assms by (auto simp: map_bit_def with_bit_def bit_simps)
next
  case False
  then show ?thesis by (auto simp: map_bit_def with_bit_def nth_list_update)
qed

lemma with_bit_same:
  assumes "map_bit m bi = v"
  shows "with_bit m bi v = m"
proof -
  have "(if v then set_bit (bi mod 8) (m ! (bi div 8)) else unset_bit (bi mod 8) (m ! (bi div 8))) = m ! (bi div 8)"
    by (rule bit_word_eqI) (use assms in \<open>auto simp: map_bit_def bit_simps\<close>)
  then show ?thesis by (simp add: with_bit_def)
qed

lemma with_bit_twice:
  assumes "bi div 8 < length m"
  shows "with_bit (with_bit m bi u) bi v = with_bit m bi v"
proof -
  have "(if v then set_bit k (if u then set_bit k x else unset_bit k x) else unset_bit k (if u then set_bit k x else unset_bit k x)) =
      (if v then set_bit k x else unset_bit k x)" for k and x :: byte
    by (rule bit_word_eqI) (auto simp: bit_simps)
  from this [of "bi mod 8" "m ! (bi div 8)"] show ?thesis using assms by (cases u; cases v; simp add: with_bit_def)
qed

lemma mask_ops:
  assumes "0 \<le> bi"
  shows "x OR bit_mask bi = set_bit (nat bi mod 8) x" and "x AND NOT (bit_mask bi) = unset_bit (nat bi mod 8) x"
proof -
  have n: "nat (bi mod 8) = nat bi mod 8" using assms by (simp add: nat_mod_distrib)
  have l: "nat bi mod 8 < 8" by simp
  show "x OR bit_mask bi = set_bit (nat bi mod 8) x" "x AND NOT (bit_mask bi) = unset_bit (nat bi mod 8) x"
    unfolding bit_mask_def n using l by (auto intro!: bit_word_eqI simp: bit_simps)
qed

subsection \<open>Allocation\<close>

text \<open>
  What mkfs sets up: every block of the bit map is outside the log, and so is every free block, which moreover is not
  part of the bit map.
\<close>

definition bitmap_ok :: "'a fs_state_scheme \<Rightarrow> bool" where
  "bitmap_ok s \<longleftrightarrow> 0 \<le> sb_size (sb s) \<and> (\<forall>b. 0 \<le> b \<longrightarrow> b < sb_size (sb s) \<longrightarrow> home s (BBLOCK b (sb s)) \<and>
     (\<not> in_use s b \<longrightarrow> home s b \<and> (\<forall>c. 0 \<le> c \<longrightarrow> c < sb_size (sb s) \<longrightarrow> b \<noteq> BBLOCK c (sb s))))"

lemma view_block:
  assumes "fs_ready s k" and "home s n"
  shows "length (view s n) = BSIZE"
  using assms view_length [of s n] by (simp add: fs_ready_def log_ok_def quiet_def home_def)

lemma BBLOCK_chunk:
  assumes "0 \<le> bi" and "bi < BPB"
  shows "BBLOCK (int k * BPB + bi) b = BBLOCK (int k * BPB) b" and "(int k * BPB + bi) mod BPB = bi"
proof -
  have "(int k * BPB + bi) div BPB = int k" using assms by (simp add: fs_consts)
  moreover have "int k * BPB div BPB = int k" by (simp add: fs_consts)
  ultimately show "BBLOCK (int k * BPB + bi) b = BBLOCK (int k * BPB) b" by (simp add: BBLOCK_def)
  show "(int k * BPB + bi) mod BPB = bi" using assms by (simp add: fs_consts)
qed

lemma in_use_chunk:
  assumes "bi < nat BPB"
  shows "in_use s (int k * BPB + int bi) = map_bit (view s (BBLOCK (int k * BPB) (sb s))) bi"
proof -
  have "int bi < BPB" using assms by (simp add: fs_consts)
  then show ?thesis using BBLOCK_chunk(1) [of "int bi" k "sb s"] BBLOCK_chunk(2) [of "int bi" k] by (simp add: in_use_def)
qed

text \<open>The state after the allocation of block \<open>b\<close>.\<close>

definition allocated :: "'a fs_state_scheme \<Rightarrow> int \<Rightarrow> 'a fs_state_scheme \<Rightarrow> bool" where
  "allocated s b s' \<longleftrightarrow> fs_frame s s' \<and>
     view s' = (view s)(BBLOCK b (sb s) := with_bit (view s (BBLOCK b (sb s))) (nat (b mod BPB)) True, b := replicate BSIZE 0)"

lemma balloc_block_full:
  assumes "fs_ready s k" and "0 \<le> k" and "bitmap_ok s" and "int j * BPB < sb_size (sb s)"
    and "\<forall>bi. bi < nat (min BPB (sb_size (sb s) - int j * BPB)) \<longrightarrow> in_use s (int j * BPB + int bi)"
  obtains s' where "balloc_block s 1 (int j * BPB) = Inr ((s', -1), False)" and "fs_ready s' k" and "view s' = view s" and "fs_frame s s'"
proof -
  let ?n = "BBLOCK (int j * BPB) (sb s)"
  have "0 \<le> int j * BPB" by (simp add: fs_consts)
  then have h: "home s ?n" using assms(3,4) by (simp add: bitmap_ok_def)
  then have n: "0 \<le> ?n" "?n < disksize s" by (simp_all add: home_def)
  obtain s1 i s2 where 1: "bread s 1 ?n = Inr (s1, int i)" "get_data s1 (int i) = Inr (view s ?n)" "brelse s1 (int i) = Inr s2"
      "fs_ready s2 k" "view s2 = view s" "fs_frame s s2"
    using read_block [OF assms(1,2) n] by metis
  have "List.find (\<lambda>bi. \<not> map_bit (view s ?n) bi) [0..<nat (min BPB (sb_size (sb s) - int j * BPB))] = None"
    using assms(5) in_use_chunk [of _ s j] by (auto simp: find_None_iff fs_consts)
  then have "find_clear (view s ?n) (int j * BPB) (sb_size (sb s)) = Inr (-1)"
    using find_clear_spec [OF view_block [OF assms(1) h]] by simp
  then show thesis using that [of s2] 1 by (simp add: balloc_block_def cont_def)
qed

lemma balloc_block_free:
  assumes "fs_ready s (k + 2)" and "0 \<le> k" and "bitmap_ok s" and "int j * BPB < sb_size (sb s)"
    and "List.find (\<lambda>bi. \<not> in_use s (int j * BPB + int bi)) [0..<nat (min BPB (sb_size (sb s) - int j * BPB))] = Some bi"
  obtains s' where "balloc_block s 1 (int j * BPB) = Inr ((s', int j * BPB + int bi), True)" and "fs_ready s' k"
    and "allocated s (int j * BPB + int bi) s'"
proof -
  let ?n = "BBLOCK (int j * BPB) (sb s)" and ?b = "int j * BPB + int bi" and ?e = "nat (min BPB (sb_size (sb s) - int j * BPB))"
  have j0: "0 \<le> int j * BPB" by (simp add: fs_consts)
  then have h: "home s ?n" using assms(3,4) by (simp add: bitmap_ok_def)
  have bi: "bi < ?e" "\<not> in_use s ?b" using assms(5) by (auto simp: find_Some_iff)
  then have bl: "bi < nat BPB" "int bi < BPB" "bi div 8 < BSIZE" and bs: "0 \<le> ?b" "?b < sb_size (sb s)" using j0 by (auto simp: fs_consts)
  have hb: "home s ?b" using assms(3) bs bi(2) unfolding bitmap_ok_def by blast
  have len: "length (view s ?n) = BSIZE" by (rule view_block [OF assms(1) h])
  have "List.find (\<lambda>bi. \<not> map_bit (view s ?n) bi) [0..<?e] = Some bi"
    using assms(5) find_cong [OF refl, of "[0..<?e]" "\<lambda>bi. \<not> map_bit (view s ?n) bi" "\<lambda>bi. \<not> in_use s (int j * BPB + int bi)"] in_use_chunk [of _ s j]
    by (simp add: fs_consts)
  then have fc: "find_clear (view s ?n) (int j * BPB) (sb_size (sb s)) = Inr (int bi)" using find_clear_spec [OF len] by simp
  let ?m = "with_bit (view s ?n) bi True"
  have am: "arr_mod (view s ?n) (int bi div 8) (\<lambda>x. x OR bit_mask (int bi)) = Inr ?m"
  proof -
    have "int bi div 8 = int (bi div 8)" by (simp add: zdiv_int)
    then show ?thesis using bl(3) len mask_ops(1) [of "int bi"] by (simp add: with_bit_def)
  qed
  have r1: "fs_ready s ((k + 1) + 1)" "0 \<le> k + 1" using assms(1,2) by (simp_all add: add.assoc)
  obtain s1 i s2 s3 s4 where 1: "bread s 1 ?n = Inr (s1, int i)" "get_data s1 (int i) = Inr (view s ?n)" "set_data s1 (int i) ?m = Inr s2"
      "log_write s2 (int i) = Inr s3" "brelse s3 (int i) = Inr s4" "fs_ready s4 (k + 1)" "view s4 = (view s)(?n := ?m)" "fs_frame s s4"
    using change_block [OF r1 h, of ?m] len by (metis length_with_bit)
  have "home s4 ?b" using hb fs_frameD(4) [OF 1(8)] by simp
  then obtain s5 where 5: "bzero s4 1 ?b = Inr s5" "fs_ready s5 k" "view s5 = (view s4)(?b := replicate BSIZE 0)" "fs_frame s4 s5"
    using bzero_spec [OF 1(6) assms(2)] by metis
  have "allocated s ?b s5"
    using 5 1(7,8) fs_frame_trans BBLOCK_chunk(1) [OF _ bl(2), of j "sb s"] BBLOCK_chunk(2) [OF _ bl(2), of j] by (auto simp: allocated_def)
  moreover have "balloc_block s 1 (int j * BPB) = Inr ((s5, ?b), True)"
    using 1(1-5) fc am 5(1) by (simp add: balloc_block_def brk_def)
  ultimately show thesis using that 5(2) by blast
qed

lemma balloc_loop_none:
  assumes "fs_ready s k" and "0 \<le> k" and "bitmap_ok s" and "int m * BPB < sb_size (sb s) + BPB"
    and "\<And>b. 0 \<le> b \<Longrightarrow> b < int m * BPB \<Longrightarrow> b < sb_size (sb s) \<Longrightarrow> in_use s b"
  shows "\<exists>s'. for_each (\<lambda>j (s, r). balloc_block s 1 (int j * BPB)) [0..<m] (s, -1) = Inr (s', -1) \<and> fs_ready s' k \<and> view s' = view s \<and>
    fs_frame s s' \<and> (\<forall>rest. for_each (\<lambda>j (s, r). balloc_block s 1 (int j * BPB)) ([0..<m] @ rest) (s, -1) =
      for_each (\<lambda>j (s, r). balloc_block s 1 (int j * BPB)) rest (s', -1))"
  using assms(4,5)
proof (induction m)
  case 0
  then show ?case using assms(1) by auto
next
  case (Suc m)
  let ?F = "\<lambda>j (s, r). balloc_block s 1 (int j * BPB)"
  have B: "0 < BPB" by (simp add: fs_consts)
  have less: "int m * BPB < sb_size (sb s)" using Suc.prems(1) by (simp add: algebra_simps)
  obtain s1 where s1: "for_each ?F [0..<m] (s, -1) = Inr (s1, -1)" "fs_ready s1 k" "view s1 = view s" "fs_frame s s1"
      "\<forall>rest. for_each ?F ([0..<m] @ rest) (s, -1) = for_each ?F rest (s1, -1)"
    using Suc B less by (auto simp: algebra_simps)
  note f = fs_frameD [OF s1(4)]
  have u: "in_use s1 b = in_use s b" for b using s1(3) f(1) by (simp add: in_use_def)
  have bo: "bitmap_ok s1" using assms(3) f(1,4) u by (simp add: bitmap_ok_def)
  have full: "\<forall>bi. bi < nat (min BPB (sb_size (sb s1) - int m * BPB)) \<longrightarrow> in_use s1 (int m * BPB + int bi)"
    using Suc.prems(2) u f(1) B by (auto simp: algebra_simps)
  obtain s2 where s2: "balloc_block s1 1 (int m * BPB) = Inr ((s2, -1), False)" "fs_ready s2 k" "view s2 = view s1" "fs_frame s1 s2"
    using balloc_block_full [OF s1(2) assms(2) bo _ full] less f(1) by auto
  have "for_each ?F ([0..<m] @ (m # rest)) (s, -1) = for_each ?F rest (s2, -1)" for rest
    using s1(5) s2(1) by simp
  moreover have "[0..<Suc m] @ rest = [0..<m] @ (m # rest)" for rest by simp
  ultimately have "for_each ?F ([0..<Suc m] @ rest) (s, -1) = for_each ?F rest (s2, -1)" for rest by simp
  then show ?case using s2 s1(3) fs_frame_trans [OF s1(4) s2(4)] by (metis append_Nil2 for_each.simps(1))
qed

lemma balloc_finds:
  assumes "fs_ready s (k + 2)" and "0 \<le> k" and "bitmap_ok s"
    and "0 \<le> b" and "b < sb_size (sb s)" and "\<not> in_use s b" and "\<And>c. 0 \<le> c \<Longrightarrow> c < b \<Longrightarrow> in_use s c"
  obtains s' where "balloc s 1 = Inr (s', b)" and "fs_ready s' k" and "allocated s b s'"
proof -
  let ?F = "\<lambda>j (s, r). balloc_block s 1 (int j * BPB)" and ?N = "nat ((sb_size (sb s) + BPB - 1) div BPB)"
  define j where "j = nat (b div BPB)"
  define bi where "bi = nat (b mod BPB)"
  have B: "BPB = 16384" by (simp add: fs_consts)
  have b: "b = int j * BPB + int bi" "bi < nat BPB" using assms(4) by (simp_all add: j_def bi_def B pos_imp_zdiv_nonneg_iff)
  have "x < (sz + 16383) div 16384" if "x * 16384 + y < sz" "0 \<le> y" for x y sz :: int
  proof -
    have "(x + 1) * 16384 div 16384 \<le> (sz + 16383) div 16384" by (rule zdiv_mono1) (use that in simp_all)
    then show ?thesis by simp
  qed
  from this [of "int j" "int bi" "sb_size (sb s)"] have jN: "j < ?N" using assms(5) b by (simp add: B)
  have j1: "int j * BPB < sb_size (sb s)" using assms(5) b by simp
  have r0: "0 \<le> k + 2" using assms(2) by simp
  obtain s1 where s1: "fs_ready s1 (k + 2)" "view s1 = view s" "fs_frame s s1"
      "\<forall>rest. for_each ?F ([0..<j] @ rest) (s, -1) = for_each ?F rest (s1, -1)"
    using balloc_loop_none [OF assms(1) r0 assms(3), of j] j1 B assms(7) b by auto
  note f = fs_frameD [OF s1(3)]
  have u: "in_use s1 c = in_use s c" for c using s1(2) f(1) by (simp add: in_use_def)
  have bo: "bitmap_ok s1" using assms(3) f(1,4) u by (simp add: bitmap_ok_def)
  let ?e = "nat (min BPB (sb_size (sb s1) - int j * BPB))"
  have find: "List.find (\<lambda>bi. \<not> in_use s1 (int j * BPB + int bi)) [0..<?e] = Some bi"
    unfolding find_Some_iff
  proof (intro exI [of _ bi] conjI allI impI)
    show "bi < length [0..<?e]" using b assms(5) f(1) B by auto
    then show "bi = [0..<?e] ! bi" "\<not> in_use s1 (int j * BPB + int ([0..<?e] ! bi))" using b(1) u assms(6) by simp_all
    show "\<not> \<not> in_use s1 (int j * BPB + int ([0..<?e] ! i))" if "i < bi" for i
      using that \<open>bi < length [0..<?e]\<close> u assms(7) [of "int j * BPB + int i"] b B by simp
  qed
  have less: "int j * BPB < sb_size (sb s1)" using j1 f(1) by simp
  obtain s2 where s2: "balloc_block s1 1 (int j * BPB) = Inr ((s2, b), True)" "fs_ready s2 k" "allocated s1 b s2"
    using balloc_block_free [OF s1(1) assms(2) bo less find] b(1) by metis
  have "[0..<?N] = [0..<j] @ (j # [Suc j..<?N])" using jN by (metis le_add1 add_0 upt_add_eq_append upt_conv_Cons le_add_diff_inverse less_imp_le)
  then have "for_each ?F [0..<?N] (s, -1) = Inr (s2, b)" using s1(4) s2(1) by simp
  moreover have "b \<noteq> -1" using assms(4) by simp
  moreover have "allocated s b s2" using s2(3) s1(2,3) f(1) fs_frame_trans unfolding allocated_def by auto
  ultimately show thesis using that s2(2) by (simp add: balloc_def)
qed

lemma balloc_fails:
  assumes "fs_ready s k" and "0 \<le> k" and "bitmap_ok s" and "\<And>b. 0 \<le> b \<Longrightarrow> b < sb_size (sb s) \<Longrightarrow> in_use s b"
  shows "balloc s 1 = Inl (Panic ''balloc: out of blocks'')"
proof -
  let ?N = "nat ((sb_size (sb s) + BPB - 1) div BPB)"
  have "0 \<le> sb_size (sb s)" using assms(3) by (simp add: bitmap_ok_def)
  moreover have "x div BPB * BPB \<le> x" for x by (simp add: fs_consts)
  moreover have "0 < BPB" by (simp add: fs_consts)
  ultimately have "int ?N * BPB < sb_size (sb s) + BPB"
    using pos_imp_zdiv_nonneg_iff [of BPB "sb_size (sb s) + BPB - 1"] by (smt (verit) int_nat_eq)
  then show ?thesis using balloc_loop_none [OF assms(1-3), of ?N] assms(4) by (auto simp: balloc_def)
qed

lemma allocated_view:
  assumes "allocated s b s'" and "bitmap_ok s" and "0 \<le> b" and "b < sb_size (sb s)" and "\<not> in_use s b" and "fs_ready s k"
  shows "view s' b = replicate BSIZE 0" and "n \<noteq> b \<Longrightarrow> n \<noteq> BBLOCK b (sb s) \<Longrightarrow> view s' n = view s n"
    and "0 \<le> c \<Longrightarrow> c < sb_size (sb s) \<Longrightarrow> in_use s' c = (c = b \<or> in_use s c)" and "bitmap_ok s'"
proof -
  have fr: "fs_frame s s'" and v: "view s' = (view s)(BBLOCK b (sb s) := with_bit (view s (BBLOCK b (sb s))) (nat (b mod BPB)) True, b := replicate BSIZE 0)"
    using assms(1) by (simp_all add: allocated_def)
  note f = fs_frameD [OF fr]
  show "view s' b = replicate BSIZE 0" "n \<noteq> b \<Longrightarrow> n \<noteq> BBLOCK b (sb s) \<Longrightarrow> view s' n = view s n" using v by simp_all
  have h: "home s (BBLOCK b (sb s))" using assms(2-4) by (simp add: bitmap_ok_def)
  have len: "length (view s (BBLOCK b (sb s))) = BSIZE" by (rule view_block [OF assms(6) h])
  have nb: "nat (b mod BPB) div 8 < BSIZE" by (simp add: fs_consts)
  have use: "in_use s' c = (c = b \<or> in_use s c)" if c: "0 \<le> c" "c < sb_size (sb s)" for c
  proof -
    have ne: "BBLOCK c (sb s) \<noteq> b" using assms(2-5) c unfolding bitmap_ok_def by metis
    show ?thesis
    proof (cases "BBLOCK c (sb s) = BBLOCK b (sb s)")
      case False
      then have "c \<noteq> b" by auto
      then show ?thesis using False ne v f(1) by (simp add: in_use_def)
    next
      case True
      then have "c div BPB = b div BPB" by (simp add: BBLOCK_def)
      moreover have "nat (c mod BPB) = nat (b mod BPB) \<longleftrightarrow> c mod BPB = b mod BPB" by (simp add: eq_nat_nat_iff fs_consts)
      ultimately have "nat (c mod BPB) = nat (b mod BPB) \<longleftrightarrow> c = b" by (metis mult_div_mod_eq)
      moreover have "BBLOCK b (sb s) \<noteq> b" using ne True by simp
      ultimately show ?thesis using True v f(1) len nb by (simp add: in_use_def map_bit_with_bit)
    qed
  qed
  then show "0 \<le> c \<Longrightarrow> c < sb_size (sb s) \<Longrightarrow> in_use s' c = (c = b \<or> in_use s c)" by blast
  show "bitmap_ok s'" using assms(2) use f(1,4) by (simp add: bitmap_ok_def)
qed

subsection \<open>Release\<close>

lemma bfree_spec:
  assumes "fs_ready s (k + 1)" and "0 \<le> k" and "home s (BBLOCK b (sb s))" and "0 \<le> b"
  shows "\<not> in_use s b \<Longrightarrow> bfree s 1 b = Inl (Panic ''freeing free block'')"
    and "in_use s b \<Longrightarrow> \<exists>s'. bfree s 1 b = Inr s' \<and> fs_ready s' k \<and> fs_frame s s' \<and>
      view s' = (view s)(BBLOCK b (sb s) := with_bit (view s (BBLOCK b (sb s))) (nat (b mod BPB)) False)"
proof -
  let ?n = "BBLOCK b (sb s)" and ?i = "nat (b mod BPB)"
  let ?m = "with_bit (view s ?n) ?i False"
  have len: "length (view s ?n) = BSIZE" by (rule view_block [OF assms(1,3)])
  obtain s1 i s2 s3 s4 where 1: "bread s 1 ?n = Inr (s1, int i)" "get_data s1 (int i) = Inr (view s ?n)" "set_data s1 (int i) ?m = Inr s2"
      "log_write s2 (int i) = Inr s3" "brelse s3 (int i) = Inr s4" "fs_ready s4 k" "view s4 = (view s)(?n := ?m)" "fs_frame s s4"
    using change_block [OF assms(1-3), of ?m] len by (metis length_with_bit)
  have bi: "0 \<le> b mod BPB" "?i div 8 < BSIZE" "b mod BPB = int ?i" by (simp_all add: fs_consts)
  have d: "b mod BPB div 8 = int (?i div 8)" using bi(3) by (metis of_nat_numeral zdiv_int)
  have get: "arr_get (view s ?n) (b mod BPB div 8) = Inr (view s ?n ! (?i div 8))" unfolding d using bi(2) len by simp
  have set: "arr_set (view s ?n) (b mod BPB div 8) (x AND NOT (bit_mask (b mod BPB))) = Inr ((view s ?n)[?i div 8 := unset_bit (?i mod 8) x])" for x
    unfolding d mask_ops(2) [OF bi(1)] using bi(2) len by simp
  have t: "(view s ?n ! (?i div 8) AND bit_mask (b mod BPB) = 0) = (\<not> in_use s b)"
    using mask_clear [of "view s ?n ! (?i div 8)" ?i] bi(3) by (simp add: in_use_def map_bit_def)
  show "\<not> in_use s b \<Longrightarrow> bfree s 1 b = Inl (Panic ''freeing free block'')"
    using 1(1,2) get t by (simp add: bfree_def Let_def)
  show "in_use s b \<Longrightarrow> \<exists>s'. bfree s 1 b = Inr s' \<and> fs_ready s' k \<and> fs_frame s s' \<and>
      view s' = (view s)(?n := ?m)"
    using 1 get set t by (simp add: bfree_def Let_def with_bit_def)
qed

end
