(* ===== verification/FS_Inodes.thy ===== *)
theory FS_Inodes
  imports FS_Alloc
begin

text \<open>
  Inodes: the on-disk format is read back as it was written, \<open>ilock\<close> sees what \<open>iupdate\<close> wrote, and the inode cache is a
  table of reference counts.
\<close>

subsection \<open>The on-disk format\<close>

lemma get32_cong: "(\<And>j. k \<le> j \<Longrightarrow> j < k + 4 \<Longrightarrow> m' ! j = m ! j) \<Longrightarrow> get32 m' k = get32 m k"
  by (simp add: get32_def)

lemma get16_cong: "(\<And>j. k \<le> j \<Longrightarrow> j < k + 2 \<Longrightarrow> m' ! j = m ! j) \<Longrightarrow> get16 m' k = get16 m k"
  by (simp add: get16_def)

definition uint32_ok :: "int \<Rightarrow> bool" where "uint32_ok a \<longleftrightarrow> 0 \<le> a \<and> a < 2 ^ 32"
definition short_ok :: "int \<Rightarrow> bool" where "short_ok a \<longleftrightarrow> - (2 ^ 15) \<le> a \<and> a < 2 ^ 15"

lemma uint_back: "uint32_ok a \<Longrightarrow> uint (word_of_int a :: 32 word) = a"
  by (simp add: uint32_ok_def uint_word_of_int)

lemma sint_back: "short_ok a \<Longrightarrow> sint (word_of_int a :: 16 word) = a"
  by (simp add: short_ok_def sint_sbintrunc' signed_take_bit_int_eq_self)

lemma st_words_spec:
  assumes "k + 4 * length as \<le> length m" and "\<forall>a \<in> set as. uint32_ok a"
  shows "\<exists>m'. st_words m (int k) as = Inr m' \<and> length m' = length m \<and> ld_words m' (int k) (length as) = Inr as \<and>
    (\<forall>j. j < k \<or> k + 4 * length as \<le> j \<longrightarrow> m' ! j = m ! j)"
  using assms
proof (induction as arbitrary: m k)
  case Nil
  then show ?case by simp
next
  case (Cons a as)
  let ?m1 = "put32 m k (word_of_int a)"
  have e: "int k + 4 = int (k + 4)" by simp
  obtain m' where m': "st_words ?m1 (int (k + 4)) as = Inr m'" "length m' = length m" "ld_words m' (int (k + 4)) (length as) = Inr as"
      "\<forall>j. j < k + 4 \<or> k + 4 + 4 * length as \<le> j \<longrightarrow> m' ! j = ?m1 ! j"
    using Cons.IH [of "k + 4" ?m1] Cons.prems by auto
  have "get32 m' k = get32 ?m1 k" by (rule get32_cong) (use m'(4) in simp)
  then have "get32 m' k = word_of_int a" using Cons.prems(1) by (simp add: get32_put32)
  then have "ld_words m' (int k) (length (a # as)) = Inr (a # as)"
    using m'(2,3) Cons.prems uint_back [of a] by (simp add: e del: of_nat_add of_nat_Suc add_2_eq_Suc add_2_eq_Suc')
  moreover have "st_words m (int k) (a # as) = Inr m'" using m'(1) Cons.prems(1) by (simp add: e del: of_nat_add of_nat_Suc add_2_eq_Suc add_2_eq_Suc')
  moreover have "m' ! j = m ! j" if "j < k \<or> k + 4 * length (a # as) \<le> j" for j
    using m'(4) that nth_put32_other [of j k m "word_of_int a"] by auto
  ultimately show ?case using m'(2) by blast
qed

definition dinode_ok :: "inode \<Rightarrow> bool" where
  "dinode_ok ip \<longleftrightarrow> short_ok (i_type ip) \<and> short_ok (i_major ip) \<and> short_ok (i_minor ip) \<and> short_ok (i_nlink ip) \<and>
     uint32_ok (i_size ip) \<and> length (i_addrs ip) = NDIRECT + 1 \<and> (\<forall>a \<in> set (i_addrs ip). uint32_ok a)"

definition with_fields :: "inode \<Rightarrow> inode \<Rightarrow> inode" where
  "with_fields ip f = ip\<lparr>i_type := i_type f, i_major := i_major f, i_minor := i_minor f, i_nlink := i_nlink f, i_size := i_size f, i_addrs := i_addrs f\<rparr>"

lemma dinode_back:
  assumes "dinode_ok ip" and "k + 64 \<le> length m"
  shows "\<exists>m'. store_dinode m (int k) ip = Inr m' \<and> length m' = length m \<and> (\<forall>x. load_dinode m' (int k) x = Inr (with_fields x ip)) \<and>
    (\<forall>j. j < k \<or> k + 64 \<le> j \<longrightarrow> m' ! j = m ! j)"
proof -
  let ?m1 = "put16 m k (word_of_int (i_type ip))"
  let ?m2 = "put16 ?m1 (k + 2) (word_of_int (i_major ip))"
  let ?m3 = "put16 ?m2 (k + 4) (word_of_int (i_minor ip))"
  let ?m4 = "put16 ?m3 (k + 6) (word_of_int (i_nlink ip))"
  let ?m5 = "put32 ?m4 (k + 8) (word_of_int (i_size ip))"
  have e: "int k + 2 = int (k + 2)" "int k + 4 = int (k + 4)" "int k + 6 = int (k + 6)" "int k + 8 = int (k + 8)" "int k + 12 = int (k + 12)"
    by simp_all
  have la: "length (i_addrs ip) = 13" "\<forall>a \<in> set (i_addrs ip). uint32_ok a" using assms(1) by (simp_all add: dinode_ok_def NDIRECT_def)
  obtain m' where m': "st_words ?m5 (int (k + 12)) (i_addrs ip) = Inr m'" "length m' = length m" "ld_words m' (int (k + 12)) 13 = Inr (i_addrs ip)"
      "\<forall>j. j < k + 12 \<or> k + 64 \<le> j \<longrightarrow> m' ! j = ?m5 ! j"
    using st_words_spec [of "k + 12" "i_addrs ip" ?m5] la assms(2) by auto
  have st: "store_dinode m (int k) ip = Inr m'"
    using m'(1) assms(2) by (simp add: store_dinode_def e del: of_nat_add of_nat_Suc add_2_eq_Suc add_2_eq_Suc')
  have w: "get16 m' j = get16 ?m5 j" if "j + 2 \<le> k + 12" for j by (rule get16_cong) (use m'(4) that in simp)
  have z: "get32 m' (k + 8) = get32 ?m5 (k + 8)" by (rule get32_cong) (use m'(4) in simp)
  have f: "get16 m' k = word_of_int (i_type ip)" "get16 m' (k + 2) = word_of_int (i_major ip)" "get16 m' (k + 4) = word_of_int (i_minor ip)"
      "get16 m' (k + 6) = word_of_int (i_nlink ip)" "get32 m' (k + 8) = word_of_int (i_size ip)"
    using assms(2) by (simp_all add: w z get16_put16 get16_put16_other get16_put32_other get32_put32)
  have "load_dinode m' (int k) x = Inr (with_fields x ip)" for x
    using m'(2,3) assms f sint_back uint_back
    by (simp add: load_dinode_def e with_fields_def dinode_ok_def NDIRECT_def del: of_nat_add of_nat_Suc add_2_eq_Suc add_2_eq_Suc')
  moreover have "m' ! j = m ! j" if "j < k \<or> k + 64 \<le> j" for j
    using that m'(4) by (auto simp: nth_put16_other nth_put32_other)
  ultimately show ?thesis using st m'(2) by blast
qed

subsection \<open>Updating and loading\<close>

lemma get_ip_ok [simp]: "i < length (inodes s) \<Longrightarrow> get_ip s (int i) = Inr (inodes s ! i)"
  by (simp add: get_ip_def)

lemma mod_ip_ok [simp]: "i < length (inodes s) \<Longrightarrow> mod_ip s (int i) f = Inr (s\<lparr>inodes := (inodes s)[i := f (inodes s ! i)]\<rparr>)"
  by (simp add: mod_ip_def)

lemma log_ok_inodes [simp]:
  "log_ok ((s :: 'a fs_state_scheme)\<lparr>inodes := l\<rparr>) = log_ok s" "home (s\<lparr>inodes := l\<rparr>) n = home s n" "content (s\<lparr>inodes := l\<rparr>) = content s"
proof -
  show c: "content (s\<lparr>inodes := l\<rparr>) = content s" by (simp add: content_def)
  show "home (s\<lparr>inodes := l\<rparr>) n = home s n" for n by (simp add: home_def)
  have "bc_ok (s\<lparr>inodes := l\<rparr>) = bc_ok s" by (simp add: bc_ok_def ring_def c)
  then show "log_ok (s\<lparr>inodes := l\<rparr>) = log_ok s" by (simp add: log_ok_def quiet_def log_layout_def home_def logged_def c)
qed

lemma dinode_place: "0 \<le> dinode_offset n" "nat (dinode_offset n) + 64 \<le> BSIZE" "dinode_offset n = int (nat (dinode_offset n))"
proof -
  have "0 \<le> n mod IPB" "n mod IPB < IPB" by (simp_all add: fs_consts)
  then have "0 \<le> dinode_offset n" "dinode_offset n \<le> 1984" unfolding dinode_offset_def by (simp_all add: fs_consts)
  then show "0 \<le> dinode_offset n" "nat (dinode_offset n) + 64 \<le> BSIZE" "dinode_offset n = int (nat (dinode_offset n))"
    by (simp_all add: BSIZE_def)
qed

text \<open>What block \<open>n\<close> of the inode area says about inode \<open>inum\<close>.\<close>

definition disk_inode :: "'a fs_state_scheme \<Rightarrow> int \<Rightarrow> inode \<Rightarrow> bool" where
  "disk_inode s inum f \<longleftrightarrow> (\<forall>x. load_dinode (view s (IBLOCK inum (sb s))) (dinode_offset inum) x = Inr (with_fields x f))"

lemma iupdate_spec:
  assumes "fs_ready s (k + 1)" and "0 \<le> k" and "p < length (inodes s)" and "i_dev (inodes s ! p) = 1" and "dinode_ok (inodes s ! p)"
    and "home s (IBLOCK (i_inum (inodes s ! p)) (sb s))"
  shows "\<exists>s' m. iupdate s (int p) = Inr s' \<and> fs_ready s' k \<and> fs_frame s s' \<and> length m = BSIZE \<and>
    view s' = (view s)(IBLOCK (i_inum (inodes s ! p)) (sb s) := m) \<and> disk_inode s' (i_inum (inodes s ! p)) (inodes s ! p) \<and>
    (\<forall>j. j < nat (dinode_offset (i_inum (inodes s ! p))) \<or> nat (dinode_offset (i_inum (inodes s ! p))) + 64 \<le> j \<longrightarrow>
      m ! j = view s (IBLOCK (i_inum (inodes s ! p)) (sb s)) ! j)"
proof -
  let ?ip = "inodes s ! p"
  let ?n = "IBLOCK (i_inum ?ip) (sb s)" and ?k = "nat (dinode_offset (i_inum ?ip))"
  have len: "length (view s ?n) = BSIZE" by (rule view_block [OF assms(1,6)])
  then have "?k + 64 \<le> length (view s ?n)" using dinode_place(2) by simp
  then obtain m where m: "store_dinode (view s ?n) (int ?k) ?ip = Inr m" "length m = length (view s ?n)"
      "\<forall>x. load_dinode m (int ?k) x = Inr (with_fields x ?ip)" "\<forall>j. j < ?k \<or> ?k + 64 \<le> j \<longrightarrow> m ! j = view s ?n ! j"
    using dinode_back [OF assms(5)] by blast
  note k = dinode_place(3) [of "i_inum ?ip", symmetric]
  obtain s1 i s2 s3 s4 where 1: "bread s 1 ?n = Inr (s1, int i)" "get_data s1 (int i) = Inr (view s ?n)" "set_data s1 (int i) m = Inr s2"
      "log_write s2 (int i) = Inr s3" "brelse s3 (int i) = Inr s4" "fs_ready s4 k" "view s4 = (view s)(?n := m)" "fs_frame s s4"
    using change_block [OF assms(1,2,6), of m] m(2) len by metis
  have "iupdate s (int p) = Inr s4" using 1(1-5) m(1) [unfolded k] assms(3,4) by (simp add: iupdate_def)
  moreover have "disk_inode s4 (i_inum ?ip) ?ip" using m(3) [unfolded k] 1(7) fs_frameD(1) [OF 1(8)] by (simp add: disk_inode_def)
  ultimately show ?thesis using 1(6-8) m(2,4) len by (intro exI [of _ s4] exI [of _ m]) simp
qed

lemma ilock_spec:
  assumes "fs_ready s k" and "0 \<le> k" and "q < length (inodes s)" and "i_dev (inodes s ! q) = 1" and "1 \<le> i_ref (inodes s ! q)"
    and "locked (i_lock (inodes s ! q)) = 0" and "\<not> i_valid (inodes s ! q)" and "disk_inode s (i_inum (inodes s ! q)) f" and "i_type f \<noteq> 0"
    and "home s (IBLOCK (i_inum (inodes s ! q)) (sb s))"
  shows "\<exists>s'. ilock s (int q) = Inr s' \<and> view s' = view s \<and>
    inodes s' = (inodes s)[q := (with_fields (inodes s ! q) f)\<lparr>i_lock := \<lparr>locked = 1, pid = curpid s\<rparr>, i_valid := True\<rparr>]"
proof -
  let ?ip = "inodes s ! q"
  let ?n = "IBLOCK (i_inum ?ip) (sb s)" and ?lk = "\<lparr>locked = 1, pid = curpid s\<rparr>"
  let ?s1 = "s\<lparr>inodes := (inodes s)[q := ?ip\<lparr>i_lock := ?lk\<rparr>]\<rparr>"
  have r1: "fs_ready ?s1 k" using assms(1) by (simp add: fs_ready_def log_ok_inodes)
  have v1: "view ?s1 = view s" by (simp add: content_def)
  have n: "0 \<le> ?n" "?n < disksize ?s1" using assms(10) by (simp_all add: home_def)
  obtain s2 i s3 where 1: "bread ?s1 1 ?n = Inr (s2, int i)" "get_data s2 (int i) = Inr (view s ?n)" "brelse s2 (int i) = Inr s3"
      "view s3 = view s" "fs_frame ?s1 s3" "fs_frame ?s1 s2"
    using read_block [OF r1 assms(2) n] v1 by metis
  have i: "inodes s2 = inodes ?s1" "inodes s3 = inodes ?s1" using fs_frameD(2) [OF 1(6)] fs_frameD(2) [OF 1(5)] by simp_all
  have lk: "(i_lock ?ip)\<lparr>locked := 1, pid := curpid s\<rparr> = ?lk" by (cases "i_lock ?ip") simp
  have ld: "load_dinode (view s ?n) (dinode_offset (i_inum ?ip)) x = Inr (with_fields x f)" for x
    using assms(8) by (simp add: disk_inode_def)
  let ?new = "(with_fields ?ip f)\<lparr>i_lock := ?lk, i_valid := True\<rparr>"
  have w: "(with_fields (?ip\<lparr>i_lock := ?lk\<rparr>) f)\<lparr>i_valid := True\<rparr> = ?new" by (simp add: with_fields_def)
  have t: "i_type (with_fields x f) = i_type f" for x by (simp add: with_fields_def)
  have "ilock s (int q) = Inr (s3\<lparr>inodes := (inodes s)[q := ?new]\<rparr>)"
    using assms(3-7,9) 1(1-3) i by (simp add: ilock_def acquiresleep_def lk ld t w)
  then show ?thesis using 1(4) by (simp add: content_def)
qed

subsection \<open>The inode cache as a table of reference counts\<close>

definition icache_ok :: "'a fs_state_scheme \<Rightarrow> bool" where
  "icache_ok s \<longleftrightarrow> length (inodes s) = 50 \<and> (\<forall>i < 50. 0 \<le> i_ref (inodes s ! i)) \<and>
     (\<forall>i < 50. \<forall>j < 50. 0 < i_ref (inodes s ! i) \<longrightarrow> 0 < i_ref (inodes s ! j) \<longrightarrow>
        i_dev (inodes s ! i) = i_dev (inodes s ! j) \<longrightarrow> i_inum (inodes s ! i) = i_inum (inodes s ! j) \<longrightarrow> i = j)"

definition refs :: "'a fs_state_scheme \<Rightarrow> int \<Rightarrow> int \<Rightarrow> int" where
  "refs s d n = sum_list (map (\<lambda>ip. if i_dev ip = d \<and> i_inum ip = n then i_ref ip else 0) (inodes s))"

lemma sum_list_set: "i < length xs \<Longrightarrow> sum_list (xs[i := x]) = sum_list xs + x - xs ! i" for xs :: "int list"
  by (induction xs arbitrary: i) (auto split: nat.split)

lemma refs_update:
  assumes "i < length (inodes s)"
  shows "refs (s\<lparr>inodes := (inodes s)[i := y]\<rparr>) d n = refs s d n + (if i_dev y = d \<and> i_inum y = n then i_ref y else 0) -
    (if i_dev (inodes s ! i) = d \<and> i_inum (inodes s ! i) = n then i_ref (inodes s ! i) else 0)"
  using assms sum_list_set [of i "map (\<lambda>ip. if i_dev ip = d \<and> i_inum ip = n then i_ref ip else 0) (inodes s)"]
  by (simp add: refs_def map_update)

definition live :: "'a fs_state_scheme \<Rightarrow> int \<Rightarrow> int \<Rightarrow> nat \<Rightarrow> bool" where
  "live s d n i \<longleftrightarrow> 0 < i_ref (inodes s ! i) \<and> i_dev (inodes s ! i) = d \<and> i_inum (inodes s ! i) = n"

definition iget_body :: "'a fs_state_scheme \<Rightarrow> int \<Rightarrow> int \<Rightarrow> nat \<Rightarrow> int \<times> int \<Rightarrow> ((int \<times> int) \<times> bool) res" where
  "iget_body s d n = (\<lambda>i (e, r). rbind (get_ip s (int i)) (\<lambda>ip.
         if i_ref ip > 0 \<and> i_dev ip = d \<and> i_inum ip = n then brk (e, int i)
         else cont (if e = -1 \<and> i_ref ip = 0 then int i else e, r)))"

lemma iget_search:
  assumes "length (inodes s) = 50" and "a \<le> 50"
  shows "List.find (live s d n) [a..<50] = Some i \<Longrightarrow> \<exists>e'. for_each (iget_body s d n) [a..<50] (e, -1) = Inr (e', int i)"
    and "List.find (live s d n) [a..<50] = None \<Longrightarrow> for_each (iget_body s d n) [a..<50] (e, -1) =
      Inr (if e \<noteq> -1 then e else case List.find (\<lambda>i. i_ref (inodes s ! i) = 0) [a..<50] of None \<Rightarrow> -1 | Some i \<Rightarrow> int i, -1)"
  using assms(2)
proof (induction "50 - a" arbitrary: a e)
  case 0
  { case 1
    then show ?case using 0 by simp
  next
    case 2
    then show ?case using 0 by simp
  }
next
  case (Suc k)
  have a: "a < 50" "k = 50 - Suc a" "Suc a \<le> 50" using Suc.hyps(3) by simp_all
  then have up: "[a..<50] = a # [Suc a..<50]" by (simp add: upt_conv_Cons)
  have body: "iget_body s d n a (e, -1) = (if live s d n a then brk (e, int a)
      else cont (if e = -1 \<and> i_ref (inodes s ! a) = 0 then int a else e, -1))" for e
    using a(1) assms(1) by (simp add: iget_body_def live_def)
  { case 1
    then show ?case using Suc.hyps(1) [OF a(2) _ a(3)] body [of e] unfolding up
      by (cases "live s d n a") (auto simp: brk_def cont_def)
  next
    case 2
    then show ?case using Suc.hyps(2) [OF a(2) _ a(3)] unfolding up by (cases "live s d n a") (simp_all add: body brk_def cont_def)
  }
qed

lemma iget_cases:
  assumes "icache_ok s"
  obtains (hit) i where "i < 50" and "live s d n i" and "iget s d n = Inr (s\<lparr>inodes := (inodes s)[i := (inodes s ! i)\<lparr>i_ref := i_ref (inodes s ! i) + 1\<rparr>]\<rparr>, int i)"
  | (fresh) i where "i < 50" and "\<nexists>j. j < 50 \<and> live s d n j" and "i_ref (inodes s ! i) = 0" and
      "iget s d n = Inr (s\<lparr>inodes := (inodes s)[i := (inodes s ! i)\<lparr>i_dev := d, i_inum := n, i_ref := 1, i_valid := False\<rparr>]\<rparr>, int i)"
  | (full) "\<nexists>j. j < 50 \<and> live s d n j" and "\<forall>i<50. 0 < i_ref (inodes s ! i)" and "iget s d n = Inl (Panic ''iget: no inodes'')"
proof -
  have len: "length (inodes s) = 50" and nn: "\<forall>i < 50. 0 \<le> i_ref (inodes s ! i)" using assms by (simp_all add: icache_ok_def)
  have g: "iget s d n = rbind (for_each (iget_body s d n) [0..<50] (-1, -1)) (\<lambda>(e, r).
       if r \<noteq> -1 then rbind (mod_ip s r (\<lambda>ip. ip\<lparr>i_ref := i_ref ip + 1\<rparr>)) (\<lambda>s1. Inr (s1, r))
       else if e = -1 then Inl (Panic ''iget: no inodes'')
       else rbind (mod_ip s e (\<lambda>ip. ip\<lparr>i_dev := d, i_inum := n, i_ref := 1, i_valid := False\<rparr>)) (\<lambda>s1. Inr (s1, e)))"
    by (simp add: iget_def iget_body_def NINODE_def)
  show thesis
  proof (cases "List.find (live s d n) [0..<50]")
    case (Some i)
    then have i: "i < 50" "live s d n i" by (auto simp: find_Some_iff)
    obtain e where "for_each (iget_body s d n) [0..<50] (-1, -1) = Inr (e, int i)" using iget_search(1) [OF len _ Some] by auto
    then show thesis using hit [OF i] i len by (simp add: g)
  next
    case None
    then have no: "\<nexists>j. j < 50 \<and> live s d n j" by (auto simp: find_None_iff)
    have run: "for_each (iget_body s d n) [0..<50] (-1, -1) =
        Inr (case List.find (\<lambda>i. i_ref (inodes s ! i) = 0) [0..<50] of None \<Rightarrow> -1 | Some i \<Rightarrow> int i, -1)"
      using iget_search(2) [OF len _ None, of "-1"] by simp
    show thesis
    proof (cases "List.find (\<lambda>i. i_ref (inodes s ! i) = 0) [0..<50]")
      case None
      then have "\<forall>i<50. i_ref (inodes s ! i) \<noteq> 0" by (auto simp: find_None_iff)
      then have "\<forall>i<50. 0 < i_ref (inodes s ! i)" using nn by (metis order_less_le)
      then show thesis using full [OF no] run None by (simp add: g)
    next
      case (Some i)
      then have i: "i < 50" "i_ref (inodes s ! i) = 0" by (auto simp: find_Some_iff)
      then show thesis using fresh [OF i(1) no i(2)] run Some len by (simp add: g)
    qed
  qed
qed

lemma iget_counted:
  assumes "icache_ok s"
  shows "case iget s d n of
      Inr (s', p) \<Rightarrow> \<exists>i < 50. p = int i \<and> live s' d n i \<and> icache_ok s' \<and> s' = s\<lparr>inodes := inodes s'\<rparr> \<and>
        (\<forall>d' n'. refs s' d' n' = refs s d' n' + (if d' = d \<and> n' = n then 1 else 0))
    | Inl e \<Rightarrow> e = Panic ''iget: no inodes'' \<and> (\<forall>i<50. 0 < i_ref (inodes s ! i) \<and> \<not> live s d n i)"
proof -
  have len: "length (inodes s) = 50" and nn: "\<forall>i < 50. 0 \<le> i_ref (inodes s ! i)" using assms by (simp_all add: icache_ok_def)
  show ?thesis
  proof (cases rule: iget_cases [OF assms, of d n, case_names hit fresh full])
    case (hit i)
    have "icache_ok (s\<lparr>inodes := (inodes s)[i := (inodes s ! i)\<lparr>i_ref := i_ref (inodes s ! i) + 1\<rparr>]\<rparr>)"
      using assms hit(1,2) unfolding icache_ok_def live_def by (auto simp: nth_list_update)
    then show ?thesis using hit len by (auto simp: live_def refs_update)
  next
    case (fresh i)
    have "icache_ok (s\<lparr>inodes := (inodes s)[i := (inodes s ! i)\<lparr>i_dev := d, i_inum := n, i_ref := 1, i_valid := False\<rparr>]\<rparr>)"
      using assms fresh(1-3) unfolding icache_ok_def live_def by (auto simp: nth_list_update)
    then show ?thesis using fresh len by (auto simp: live_def refs_update)
  next
    case full
    then show ?thesis by auto
  qed
qed

end
