(* ===== verification/FS_Paths.thy ===== *)
theory FS_Paths
  imports FS_Inodes
begin

text \<open>
  Path names: \<open>path_elems\<close> is what a path means, the list of its nonempty parts between slashes; \<open>skipelem\<close>, called over and
  over as \<open>namex\<close> does, takes them off one by one.
\<close>

function path_elems :: "byte list \<Rightarrow> byte list list" where
  "path_elems s = (let t = dropWhile (\<lambda>c. c = 47) s
     in if t = [] then [] else takeWhile (\<lambda>c. c \<noteq> 47) t # path_elems (dropWhile (\<lambda>c. c \<noteq> 47) t))"
  by pat_completeness auto
termination
proof (relation "measure length")
  fix s t :: "byte list"
  assume t: "t = dropWhile (\<lambda>c. c = 47) s" "t \<noteq> []"
  then have "hd t \<noteq> 47" using hd_dropWhile [of "\<lambda>c. c = 47" s] by simp
  then obtain c t' where c: "t = c # t'" "c \<noteq> 47" using t(2) by (cases t) simp_all
  then have "length (dropWhile (\<lambda>c. c \<noteq> 47) t) < length t" using length_dropWhile_le [of "\<lambda>c. c \<noteq> 47" t'] by (simp only: dropWhile.simps if_True list.size) simp
  moreover have "length t \<le> length s" unfolding t(1) by (rule length_dropWhile_le)
  ultimately show "(dropWhile (\<lambda>c. c \<noteq> 47) t, s) \<in> measure length" by simp
qed simp

declare path_elems.simps [simp del]

lemma path_elems_slashes: "path_elems (dropWhile (\<lambda>c. c = 47) s) = path_elems s"
  by (subst (1 2) path_elems.simps) (simp add: dropWhile_eq_self_iff hd_dropWhile Let_def)

lemma skip_slashes_str:
  assumes "is_str p s"
  obtains q where "skip_slashes p = Inr q" and "is_str q (dropWhile (\<lambda>c. c = 47) s)"
proof -
  have "\<exists>q. skip_slashes p = Inr q \<and> is_str q (dropWhile (\<lambda>c. c = 47) s)"
    using assms
  proof (induction s arbitrary: p)
    case Nil
    then show ?case by (cases p) (auto simp: is_str_def)
  next
    case (Cons c s)
    then obtain p' where p: "p = c # p'" "is_str p' s" by (cases p) (auto simp: is_str_def)
    then show ?case using Cons by (cases "c = 47") auto
  qed
  then show thesis using that by blast
qed

lemma elem_end_str:
  assumes "is_str p s"
  shows "elem_end p = Inr (length (takeWhile (\<lambda>c. c \<noteq> 47) s))"
  using assms
proof (induction s arbitrary: p)
  case Nil
  then show ?case by (cases p) (auto simp: is_str_def)
next
  case (Cons c s)
  then obtain p' where p: "p = c # p'" "is_str p' s" "c \<noteq> 0" by (cases p) (auto simp: is_str_def)
  then show ?case using Cons.IH [OF p(2)] by auto
qed

text \<open>The name that a directory entry's array holds.\<close>

definition name_of :: "byte list \<Rightarrow> byte list" where
  "name_of nm = takeWhile (\<lambda>c. c \<noteq> 0) nm"

lemma skipelem_spec:
  assumes "is_str path s" and "length name = DIRSIZ"
  shows "path_elems s = [] \<Longrightarrow> skipelem path name = Inr (None, name)"
    and "path_elems s = e # es \<Longrightarrow> \<exists>rest r nm. skipelem path name = Inr (Some rest, nm) \<and> is_str rest r \<and> (r = [] \<or> hd r \<noteq> 47) \<and>
      path_elems r = es \<and> length nm = DIRSIZ \<and> name_of nm = take DIRSIZ e"
proof -
  let ?t = "dropWhile (\<lambda>c. c = 47) s"
  obtain q where q: "skip_slashes path = Inr q" "is_str q ?t" using skip_slashes_str [OF assms(1)] by blast
  have hq: "arr_get q 0 = Inr (if ?t = [] then 0 else hd ?t)" "\<not> (?t \<noteq> [] \<and> hd ?t = 0)"
    using q(2) by (cases q; cases ?t; auto simp: is_str_def arr_get_def in_range_def)+
  have pe: "path_elems s = (if ?t = [] then [] else takeWhile (\<lambda>c. c \<noteq> 47) ?t # path_elems (dropWhile (\<lambda>c. c \<noteq> 47) ?t))"
    by (subst path_elems.simps) (simp add: Let_def)
  show "path_elems s = [] \<Longrightarrow> skipelem path name = Inr (None, name)"
    using pe q(1) hq by (auto simp: skipelem_def split: if_splits)
  assume "path_elems s = e # es"
  then have t: "?t \<noteq> []" "e = takeWhile (\<lambda>c. c \<noteq> 47) ?t" "es = path_elems (dropWhile (\<lambda>c. c \<noteq> 47) ?t)"
    using pe by (auto split: if_splits)
  have ee: "elem_end q = Inr (length e)" using elem_end_str [OF q(2)] t(2) by simp
  obtain v where v: "q = ?t @ 0 # v" "0 \<notin> set ?t" using q(2) by (auto simp: is_str_def)
  define u where "u = dropWhile (\<lambda>c. c \<noteq> 47) ?t"
  have te: "?t = e @ u" unfolding t(2) u_def by simp
  have qe: "q = e @ u @ 0 # v" using v(1) unfolding te by simp
  have pre: "take n q = take n e" if "n \<le> length e" for n unfolding qe using that by simp
  have ne: "0 \<notin> set e" "0 \<notin> set u" using v(2) unfolding te by simp_all
  have "is_str (drop (length e) q) (dropWhile (\<lambda>c. c \<noteq> 47) ?t)" unfolding u_def [symmetric] qe using ne by (auto simp: is_str_def)
  then obtain rest where r: "skip_slashes (drop (length e) q) = Inr rest" "is_str rest (dropWhile (\<lambda>c. c = 47) (dropWhile (\<lambda>c. c \<noteq> 47) ?t))"
    using skip_slashes_str by blast
  have nm: "\<exists>nm. (if DIRSIZ \<le> length e then copy_in name 0 (take DIRSIZ q)
      else rbind (copy_in name 0 (take (length e) q)) (\<lambda>nm. arr_set nm (int (length e)) 0)) = Inr nm \<and> length nm = DIRSIZ \<and> name_of nm = take DIRSIZ e"
  proof (cases "DIRSIZ \<le> length e")
    case True
    then have "stored name 0 (take DIRSIZ e) = take DIRSIZ e" using assms(2) by (simp add: stored_def)
    moreover have "name_of (take DIRSIZ e) = take DIRSIZ e" unfolding name_of_def using ne by (auto simp: takeWhile_eq_all_conv dest: in_set_takeD)
    ultimately show ?thesis using True pre [of DIRSIZ] assms(2) by (simp add: copy_in_def)
  next
    case False
    then have l: "length e < DIRSIZ" by simp
    have "(stored name 0 e)[length e := 0] = e @ 0 # drop (Suc (length e)) name"
      using l assms(2) by (simp add: stored_def list_update_append Cons_nth_drop_Suc [symmetric])
    moreover have "takeWhile (\<lambda>c. c \<noteq> 0) (e @ 0 # drop (Suc (length e)) name) = e" using ne by (subst takeWhile_append2) auto
    ultimately show ?thesis using l pre [of "length e"] assms(2) by (simp add: copy_in_def name_of_def)
  qed
  then obtain nm where nm: "(if DIRSIZ \<le> length e then copy_in name 0 (take DIRSIZ q)
      else rbind (copy_in name 0 (take (length e) q)) (\<lambda>nm. arr_set nm (int (length e)) 0)) = Inr nm" "length nm = DIRSIZ" "name_of nm = take DIRSIZ e"
    by blast
  have hx: "arr_get q 0 = Inr (hd ?t)" unfolding hq(1) by (simp only: t(1) if_False)
  have hz: "hd ?t \<noteq> 0" using hq(2) t(1) by blast
  have "skipelem path name = Inr (Some rest, nm)"
    using q(1) ee nm(1) r(1) hx hz unfolding skipelem_def by (simp only: rbind_Inr if_False)
  moreover have "dropWhile (\<lambda>c. c = 47) u = [] \<or> hd (dropWhile (\<lambda>c. c = 47) u) \<noteq> 47" for u :: "byte list"
    using hd_dropWhile by blast
  ultimately show "\<exists>rest r nm. skipelem path name = Inr (Some rest, nm) \<and> is_str rest r \<and> (r = [] \<or> hd r \<noteq> 47) \<and>
      path_elems r = es \<and> length nm = DIRSIZ \<and> name_of nm = take DIRSIZ e"
    using r(2) nm(2,3) t(3) path_elems_slashes by blast
qed

text \<open>All the elements, taken off as \<open>namex\<close> takes them off.\<close>

function all_elems :: "byte list \<Rightarrow> byte list \<Rightarrow> byte list list res" where
  "all_elems path name = rbind (skipelem path name) (\<lambda>(next_path, nm). case next_path of None \<Rightarrow> Inr []
     | Some rest \<Rightarrow> rbind (all_elems rest nm) (\<lambda>l. Inr (name_of nm # l)))"
  by pat_completeness auto
termination by (relation "measure (\<lambda>(path, name). length path)") (auto dest: skipelem_shorter)

declare all_elems.simps [simp del]

lemma all_elems_spec:
  assumes "is_str path s" and "length name = DIRSIZ"
  shows "all_elems path name = Inr (map (take DIRSIZ) (path_elems s))"
  using assms
proof (induction "path_elems s" arbitrary: s path name)
  case Nil
  then show ?case using skipelem_spec(1) [OF Nil(2,3)] by (subst all_elems.simps) simp
next
  case (Cons e es)
  obtain rest r nm where "skipelem path name = Inr (Some rest, nm)" "is_str rest r" "path_elems r = es" "length nm = DIRSIZ" "name_of nm = take DIRSIZ e"
    using skipelem_spec(2) [OF Cons(3,4) Cons(2) [symmetric]] by blast
  then show ?case using Cons(1) [of r rest nm] Cons(2) [symmetric] by (subst all_elems.simps) simp
qed

end
