(* ===== verification/FS_Claims.thy ===== *)
theory FS_Claims
  imports FS_Paths
begin

text \<open>
  The claims about the file system, with the state that their witnesses use: a system call under way on the empty disk of
  \<open>new_disk\<close>, with an empty inode cache.
\<close>

subsection \<open>A state to start from\<close>

definition no_inode :: inode where
  "no_inode = \<lparr>i_dev = 0, i_inum = 0, i_ref = 0, i_lock = \<lparr>locked = 0, pid = 0\<rparr>, i_valid = False, i_type = 0, i_major = 0, i_minor = 0,
     i_nlink = 0, i_size = 0, i_addrs = replicate 13 0\<rparr>"

definition mount :: "fsys \<Rightarrow> inode list \<Rightarrow> fs_state" where
  "mount s l = fsys.extend s \<lparr>sb = \<lparr>sb_size = 1000, sb_nblocks = 966, sb_ninodes = 32, sb_nlog = 30, sb_logstart = 2,
     sb_inodestart = 32, sb_bmapstart = 33\<rparr>, inodes = l, cwd = 0\<rparr>"

lemma mount_same [simp]:
  "bufs (mount s l) = bufs s" "head_next (mount s l) = head_next s" "head_prev (mount s l) = head_prev s" "memdisk (mount s l) = memdisk s"
  "disksize (mount s l) = disksize s" "curpid (mount s l) = curpid s" "log_start (mount s l) = log_start s" "log_size (mount s l) = log_size s"
  "outstanding (mount s l) = outstanding s" "lh_n (mount s l) = lh_n s" "lh_block (mount s l) = lh_block s" "log_dev (mount s l) = log_dev s"
  "inodes (mount s l) = l" "sb_size (sb (mount s l)) = 1000" "sb_inodestart (sb (mount s l)) = 32" "sb_bmapstart (sb (mount s l)) = 33"
  by (simp_all add: mount_def fsys.extend_def)

lemma mount_ok [simp]: "content (mount s l) = content s" "home (mount s l) n = home s n" "log_ok (mount s l) = log_ok s"
proof -
  show c: "content (mount s l) = content s" by (simp add: content_def)
  show "home (mount s l) n = home s n" for n by (simp add: home_def)
  have "bc_ok (mount s l) = bc_ok s" by (simp add: bc_ok_def ring_def c)
  then show "log_ok (mount s l) = log_ok s" by (simp add: log_ok_def quiet_def log_layout_def home_def logged_def c)
qed

lemma BBLOCK_mount: "0 \<le> b \<Longrightarrow> b < 1000 \<Longrightarrow> BBLOCK b (sb (mount s l)) = 33"
  by (simp add: BBLOCK_def fs_consts)

lemma mounted:
  obtains s :: fsys where "\<And>l. fs_ready (mount s l) 20" and "\<And>l. bitmap_ok (mount s l)" and "\<And>n. n \<noteq> 2 \<Longrightarrow> n < 40 \<Longrightarrow> view s n = new_disk n"
    and "log_start s = 2" and "log_size s = 30" and "disksize s = 1000" and "\<And>l b. 0 \<le> b \<Longrightarrow> b < 1000 \<Longrightarrow> in_use (mount s l) b = (b < 40)"
proof -
  obtain s :: fsys where s: "txn_ok s" "outstanding s = 3" "log_size s = 30" "log_start s = 2" "disksize s = 1000" "lh_n s = 0"
      "\<forall>n. n \<noteq> 2 \<longrightarrow> n < 40 \<longrightarrow> view s n = new_disk n" using filling_log [of 0] by auto
  have ok: "log_ok s" using s(1) by (simp add: txn_ok_def log_fine_def)
  have r: "fs_ready (mount s l) 20" for l using s(2,3,6) ok by (simp add: fs_ready_def)
  have u: "in_use (mount s l) b = (b < 40)" if b: "0 \<le> b" "b < 1000" for l b
  proof -
    have v: "view s 33 = replicate 5 255 @ replicate (BSIZE - 5) 0" using s(7) by (simp add: new_disk_def)
    have m: "b mod BPB = b" using b by (simp add: fs_consts)
    have "bit (255 :: byte) (nat b mod 8)"
    proof -
      have "(255 :: byte) = -1" "nat b mod 8 < 8" by simp_all
      then show ?thesis by (simp only: bit_minus_1_iff) simp
    qed
    moreover have "nat b div 8 < BSIZE" using b by (simp add: BSIZE_def)
    moreover have "nat b div 8 < 5 \<longleftrightarrow> b < 40" using b by (simp add: div_less_iff_less_mult nat_less_iff)
    ultimately show ?thesis using b v by (auto simp: in_use_def BBLOCK_mount m map_bit_def nth_append)
  qed
  have h: "home s 33" "\<And>b. 40 \<le> b \<Longrightarrow> b < 1000 \<Longrightarrow> home s b" using s(3-5) by (simp_all add: home_def)
  have "bitmap_ok (mount s l)" for l
    using u h by (auto simp: bitmap_ok_def BBLOCK_mount)
  then show thesis using that [of s] r s u by blast
qed

subsection \<open>The block allocator\<close>

lemma least_free:
  assumes "0 \<le> b0" and "b0 < sb_size (sb s)" and "\<not> in_use s b0"
  obtains b where "0 \<le> b" and "b < sb_size (sb s)" and "\<not> in_use s b" and "\<And>c. 0 \<le> c \<Longrightarrow> c < b \<Longrightarrow> in_use s c"
proof -
  define b where "b = int (LEAST n. \<not> in_use s (int n))"
  have e: "\<not> in_use s (int (nat b0))" using assms by simp
  have b: "0 \<le> b" "b \<le> b0" "\<not> in_use s b"
    using LeastI [of "\<lambda>n. \<not> in_use s (int n)", OF e] Least_le [of "\<lambda>n. \<not> in_use s (int n)", OF e] assms(1) by (simp_all add: b_def)
  have "in_use s c" if "0 \<le> c" "c < b" for c
    using not_less_Least [of "nat c" "\<lambda>n. \<not> in_use s (int n)"] that by (simp add: b_def)
  then show thesis using that b assms(2) by auto
qed

text \<open>
  C4 (balloc_least): Inside a transaction \<open>balloc\<close> takes the free block with the least number, marks it in the
  bit map, fills it with zeros and changes nothing else; it panics exactly when no block is free.
\<close>

theorem balloc_least:
  assumes "fs_ready s (k + 2)" and "0 \<le> k" and "bitmap_ok s"
  shows "if \<forall>b. 0 \<le> b \<and> b < sb_size (sb s) \<longrightarrow> in_use s b then balloc s 1 = Inl (Panic ''balloc: out of blocks'')
    else \<exists>b s'. balloc s 1 = Inr (s', b) \<and> 0 \<le> b \<and> b < sb_size (sb s) \<and> \<not> in_use s b \<and> (\<forall>c. 0 \<le> c \<and> c < b \<longrightarrow> in_use s c) \<and>
      view s' b = replicate BSIZE 0 \<and> (\<forall>n. n \<noteq> b \<and> n \<noteq> BBLOCK b (sb s) \<longrightarrow> view s' n = view s n) \<and>
      (\<forall>c. 0 \<le> c \<and> c < sb_size (sb s) \<longrightarrow> in_use s' c = (c = b \<or> in_use s c)) \<and> bitmap_ok s' \<and> fs_ready s' k \<and> fs_frame s s'"
proof (cases "\<forall>b. 0 \<le> b \<and> b < sb_size (sb s) \<longrightarrow> in_use s b")
  case True
  have "0 \<le> k + 2" using assms(2) by simp
  then show ?thesis using balloc_fails [OF assms(1) _ assms(3)] True by simp
next
  case False
  then obtain b0 where b0: "0 \<le> b0" "b0 < sb_size (sb s)" "\<not> in_use s b0" by blast
  obtain b where b: "0 \<le> b" "\<not> in_use s b" and bs: "b < sb_size (sb s)" and least: "\<And>c. 0 \<le> c \<Longrightarrow> c < b \<Longrightarrow> in_use s c"
    using least_free [OF b0] by metis
  obtain s' where s': "balloc s 1 = Inr (s', b)" "fs_ready s' k" "allocated s b s'"
    using balloc_finds [OF assms b(1) bs b(2) least] by blast
  note v = allocated_view [OF s'(3) assms(3) b(1) bs b(2) assms(1)]
  have "fs_frame s s'" using s'(3) by (simp add: allocated_def)
  then show ?thesis using False s'(1,2) b bs least v by auto
qed

theorem balloc_least_witness:
  "\<exists>(s :: fs_state) s'. in_use s 39 \<and> \<not> in_use s 40 \<and> balloc s 1 = Inr (s', 40) \<and> in_use s' 40 \<and> view s' 40 = replicate BSIZE 0"
proof -
  obtain s0 where s0: "\<And>l. fs_ready (mount s0 l) 20" "\<And>l. bitmap_ok (mount s0 l)"
      "\<And>l b. 0 \<le> b \<Longrightarrow> b < 1000 \<Longrightarrow> in_use (mount s0 l) b = (b < 40)" using mounted by metis
  let ?s = "mount s0 []"
  have u: "in_use ?s b = (b < 40)" if "0 \<le> b" "b < 1000" for b by (rule s0(3) [OF that])
  have r: "fs_ready ?s (18 + 2)" using s0(1) by simp
  have some: "\<not> (\<forall>b. 0 \<le> b \<and> b < sb_size (sb ?s) \<longrightarrow> in_use ?s b)" using u [of 40] by (auto intro!: exI [of _ 40])
  obtain b s' where b: "balloc ?s 1 = Inr (s', b)" "0 \<le> b" "b < 1000" "\<not> in_use ?s b" "\<forall>c. 0 \<le> c \<and> c < b \<longrightarrow> in_use ?s c"
      "view s' b = replicate BSIZE 0" "in_use s' b"
    using balloc_least [OF r _ s0(2), unfolded if_not_P [OF some]] by auto
  have "b = 40"
  proof (rule ccontr)
    assume "b \<noteq> 40"
    then have "40 < b" using b(2-4) u by auto
    then show False using b(5) u [of 40] by auto
  qed
  moreover have "in_use ?s 39" using u [of 39] by simp
  ultimately show ?thesis using b(1,4,6,7) by blast
qed

text \<open>
  C5 (bfree_undoes): Freeing a block just allocated restores the bit map bit for bit and leaves every
  other block alone; freeing it once more panics.
\<close>

theorem bfree_undoes:
  assumes "fs_ready s (k + 4)" and "0 \<le> k" and "bitmap_ok s" and "balloc s 1 = Inr (s1, b)"
  shows "\<exists>s2. bfree s1 1 b = Inr s2 \<and> (\<forall>n. n \<noteq> b \<longrightarrow> view s2 n = view s n) \<and> (\<forall>c. 0 \<le> c \<and> c < sb_size (sb s) \<longrightarrow> in_use s2 c = in_use s c) \<and>
    bfree s2 1 b = Inl (Panic ''freeing free block'')"
proof -
  have r: "fs_ready s ((k + 2) + 2)" "0 \<le> k + 2" "0 \<le> k + 4" using assms(1,2) by (simp_all add: add.assoc)
  have some: "\<not> (\<forall>b. 0 \<le> b \<and> b < sb_size (sb s) \<longrightarrow> in_use s b)"
    using balloc_fails [OF assms(1) r(3) assms(3)] assms(4) by auto
  then obtain b0 where b0: "0 \<le> b0" "b0 < sb_size (sb s)" "\<not> in_use s b0" by blast
  obtain c where c: "0 \<le> c" "\<not> in_use s c" and cs: "c < sb_size (sb s)" and least: "\<And>d. 0 \<le> d \<Longrightarrow> d < c \<Longrightarrow> in_use s d"
    using least_free [OF b0] by metis
  obtain s' where s': "balloc s 1 = Inr (s', c)" "fs_ready s' (k + 2)" "allocated s c s'"
    using balloc_finds [OF r(1,2) assms(3) c(1) cs c(2) least] by blast
  then have s1: "s' = s1" "c = b" using assms(4) by simp_all
  note al = s'(3) [unfolded s1] and b = c [unfolded s1] and bs = cs [unfolded s1] and r1 = s'(2) [unfolded s1]
  let ?n = "BBLOCK b (sb s)" and ?i = "nat (b mod BPB)"
  have fr: "fs_frame s s1" and v1: "view s1 = (view s)(?n := with_bit (view s ?n) ?i True, b := replicate BSIZE 0)"
    using al by (simp_all add: allocated_def)
  note f1 = fs_frameD [OF fr]
  have h: "home s ?n" using assms(3) b(1) bs by (simp add: bitmap_ok_def)
  have nb: "?n \<noteq> b" using assms(3) b bs unfolding bitmap_ok_def by metis
  have len: "length (view s ?n) = BSIZE" by (rule view_block [OF assms(1) h])
  have i: "?i div 8 < length (view s ?n)" unfolding len by (simp add: fs_consts)
  have u1: "in_use s1 b" using allocated_view(3) [OF al assms(3) b(1) bs b(2) assms(1) b(1) bs] by simp
  have r1': "fs_ready s1 ((k + 1) + 1)" "0 \<le> k + 1" using r1 assms(2) by (simp_all add: add.assoc)
  have h1: "home s1 (BBLOCK b (sb s1))" using h f1(1,4) by simp
  obtain s2 where s2: "bfree s1 1 b = Inr s2" "fs_ready s2 (k + 1)" "fs_frame s1 s2"
      "view s2 = (view s1)(?n := with_bit (view s1 ?n) ?i False)"
    using bfree_spec(2) [OF r1' h1 b(1) u1] f1(1) by auto
  have "with_bit (view s1 ?n) ?i False = with_bit (view s ?n) ?i False" using v1 nb with_bit_twice [OF i] by simp
  also have "\<dots> = view s ?n" by (rule with_bit_same) (use b(2) in \<open>simp add: in_use_def\<close>)
  finally have v2: "view s2 m = view s m" if "m \<noteq> b" for m using s2(4) v1 that by simp
  note f2 = fs_frameD [OF fs_frame_trans [OF fr s2(3)]]
  have "in_use s2 d = in_use s d" if "0 \<le> d" "d < sb_size (sb s)" for d
  proof -
    have "BBLOCK d (sb s) \<noteq> b" using assms(3) b bs that unfolding bitmap_ok_def by metis
    then show ?thesis using v2 f2(1) by (simp add: in_use_def)
  qed
  then have u2: "\<not> in_use s2 b" "\<forall>d. 0 \<le> d \<and> d < sb_size (sb s) \<longrightarrow> in_use s2 d = in_use s d" using b bs by simp_all
  have h2: "home s2 (BBLOCK b (sb s2))" using h f2(1,4) by simp
  have "bfree s2 1 b = Inl (Panic ''freeing free block'')" by (rule bfree_spec(1) [OF s2(2) assms(2) h2 b(1) u2(1)])
  then show ?thesis using s2(1) v2 u2(2) by blast
qed

theorem bfree_undoes_witness:
  "\<exists>(s :: fs_state) s1 b s2. balloc s 1 = Inr (s1, b) \<and> bfree s1 1 b = Inr s2 \<and> bfree s2 1 b = Inl (Panic ''freeing free block'')"
proof -
  obtain s0 where s0: "\<And>l. fs_ready (mount s0 l) 20" "\<And>l. bitmap_ok (mount s0 l)"
      "\<And>l b. 0 \<le> b \<Longrightarrow> b < 1000 \<Longrightarrow> in_use (mount s0 l) b = (b < 40)" using mounted by metis
  let ?s = "mount s0 []"
  have r: "fs_ready ?s (16 + 4)" using s0(1) by simp
  have free: "0 \<le> (40 :: int)" "40 < sb_size (sb ?s)" "\<not> in_use ?s 40" using s0(3) [of 40 "[]"] by simp_all
  obtain b where b: "0 \<le> b" "b < sb_size (sb ?s)" "\<not> in_use ?s b" "\<And>c. 0 \<le> c \<Longrightarrow> c < b \<Longrightarrow> in_use ?s c"
    using least_free [OF free] by blast
  have r2: "fs_ready ?s (18 + 2)" using s0(1) by simp
  obtain s1 where s1: "balloc ?s 1 = Inr (s1, b)" using balloc_finds [OF r2 _ s0(2) b] by auto
  show ?thesis using bfree_undoes [OF r _ s0(2) s1] s1 by auto
qed

subsection \<open>Inodes\<close>

text \<open>
  C6 (inode_roundtrip): After \<open>iupdate\<close> of an inode whose fields fit their on-disk types, \<open>ilock\<close> of any
  unread cache entry for the same inode number succeeds and yields exactly the same type, device numbers, link count, size and block
  addresses; the other bytes of the block are untouched.
\<close>

theorem inode_roundtrip:
  assumes "fs_ready s (k + 1)" and "0 \<le> k" and "p < length (inodes s)" and "q < length (inodes s)"
    and "i_dev (inodes s ! p) = 1" and "i_dev (inodes s ! q) = 1" and "i_inum (inodes s ! q) = i_inum (inodes s ! p)"
    and "dinode_ok (inodes s ! p)" and "i_type (inodes s ! p) \<noteq> 0" and "home s (IBLOCK (i_inum (inodes s ! p)) (sb s))"
    and "1 \<le> i_ref (inodes s ! q)" and "locked (i_lock (inodes s ! q)) = 0" and "\<not> i_valid (inodes s ! q)"
  shows "\<exists>s1 s2. iupdate s (int p) = Inr s1 \<and> ilock s1 (int q) = Inr s2 \<and>
    inodes s2 = (inodes s)[q := (with_fields (inodes s ! q) (inodes s ! p))\<lparr>i_lock := \<lparr>locked = 1, pid = curpid s\<rparr>, i_valid := True\<rparr>] \<and>
    (\<forall>n. n \<noteq> IBLOCK (i_inum (inodes s ! p)) (sb s) \<longrightarrow> view s2 n = view s n) \<and>
    (\<forall>j. j < nat (dinode_offset (i_inum (inodes s ! p))) \<or> nat (dinode_offset (i_inum (inodes s ! p))) + 64 \<le> j \<longrightarrow>
      view s2 (IBLOCK (i_inum (inodes s ! p)) (sb s)) ! j = view s (IBLOCK (i_inum (inodes s ! p)) (sb s)) ! j)"
proof -
  obtain s1 m where s1: "iupdate s (int p) = Inr s1" "fs_ready s1 k" "fs_frame s s1"
      "view s1 = (view s)(IBLOCK (i_inum (inodes s ! p)) (sb s) := m)" "disk_inode s1 (i_inum (inodes s ! p)) (inodes s ! p)"
      "\<forall>j. j < nat (dinode_offset (i_inum (inodes s ! p))) \<or> nat (dinode_offset (i_inum (inodes s ! p))) + 64 \<le> j \<longrightarrow>
        m ! j = view s (IBLOCK (i_inum (inodes s ! p)) (sb s)) ! j"
    using iupdate_spec [OF assms(1-3,5,8,10)] by blast
  note f = fs_frameD [OF s1(3)]
  obtain s2 where "ilock s1 (int q) = Inr s2" "view s2 = view s1"
      "inodes s2 = (inodes s1)[q := (with_fields (inodes s1 ! q) (inodes s ! p))\<lparr>i_lock := \<lparr>locked = 1, pid = curpid s1\<rparr>, i_valid := True\<rparr>]"
    using ilock_spec [OF s1(2) assms(2), of q "inodes s ! p"] assms s1(5) f by auto
  then show ?thesis using s1(1,4,6) f by auto
qed

definition a_file :: inode where
  "a_file = no_inode\<lparr>i_dev := 1, i_inum := 5, i_ref := 1, i_type := 2, i_nlink := 1, i_size := 3000, i_addrs := [50, 51] @ replicate 11 0\<rparr>"

definition not_read :: inode where "not_read = no_inode\<lparr>i_dev := 1, i_inum := 5, i_ref := 1\<rparr>"

theorem inode_roundtrip_witness:
  "\<exists>(s :: fs_state) s1 s2. inodes s = [a_file, not_read] \<and> iupdate s 0 = Inr s1 \<and> ilock s1 1 = Inr s2 \<and>
     i_size (inodes s2 ! 1) = 3000 \<and> i_addrs (inodes s2 ! 1) = [50, 51] @ replicate 11 0"
proof -
  obtain s0 where s0: "\<And>l. fs_ready (mount s0 l) 20" "log_start s0 = 2" "log_size s0 = 30" "disksize s0 = 1000" using mounted by metis
  let ?s = "mount s0 [a_file, not_read]"
  have r: "fs_ready ?s (19 + 1)" using s0(1) by simp
  have h: "home ?s (IBLOCK 5 (sb ?s))" using s0(2-4) by (simp add: home_def IBLOCK_def fs_consts)
  have d: "dinode_ok a_file" by (simp add: dinode_ok_def a_file_def no_inode_def short_ok_def uint32_ok_def NDIRECT_def)
  have f: "i_dev a_file = 1" "i_inum a_file = 5" "i_type a_file = 2" "i_dev not_read = 1" "i_inum not_read = 5" "i_ref not_read = 1"
      "locked (i_lock not_read) = 0" "\<not> i_valid not_read" "i_size a_file = 3000" "i_addrs a_file = [50, 51] @ replicate 11 0"
    by (simp_all add: a_file_def not_read_def no_inode_def)
  obtain s1 s2 where "iupdate ?s (int 0) = Inr s1" "ilock s1 (int 1) = Inr s2"
      "inodes s2 = [a_file, not_read][1 := (with_fields not_read a_file)\<lparr>i_lock := \<lparr>locked = 1, pid = curpid ?s\<rparr>, i_valid := True\<rparr>]"
    using inode_roundtrip [OF r, of 0 1] h d f by auto
  then show ?thesis using f by (intro exI [of _ ?s] exI [of _ s1] exI [of _ s2]) (simp add: with_fields_def)
qed

text \<open>
  C7 (inode_refs): The inode cache is a table of reference counts: in a cache whose entries in use are
  all of different inodes, \<open>iget\<close> and \<open>idup\<close> add one reference to exactly one inode, \<open>iput\<close> of an unlocked entry takes one away unless it has to free
  the inode on the disk, and each keeps the entries different; \<open>iget\<close> panics only when all 50 entries are in use for other inodes.
\<close>

lemma idup_counted:
  assumes "icache_ok s" and "i < 50" and "0 < i_ref (inodes s ! i)"
  shows "\<exists>s'. idup s (int i) = Inr (s', int i) \<and> icache_ok s' \<and>
    (\<forall>d n. refs s' d n = refs s d n + (if d = i_dev (inodes s ! i) \<and> n = i_inum (inodes s ! i) then 1 else 0))"
proof -
  have len: "length (inodes s) = 50" using assms(1) by (simp add: icache_ok_def)
  let ?s = "s\<lparr>inodes := (inodes s)[i := (inodes s ! i)\<lparr>i_ref := i_ref (inodes s ! i) + 1\<rparr>]\<rparr>"
  have "icache_ok ?s" using assms unfolding icache_ok_def by (auto simp: nth_list_update)
  then show ?thesis using assms(2) len by (auto simp: idup_def refs_update)
qed

lemma iput_counted:
  assumes "icache_ok s" and "i < 50" and "0 < i_ref (inodes s ! i)" and "locked (i_lock (inodes s ! i)) = 0"
    and "\<not> (i_valid (inodes s ! i) \<and> i_nlink (inodes s ! i) = 0 \<and> i_ref (inodes s ! i) = 1)"
  shows "\<exists>s'. iput s (int i) = Inr s' \<and> icache_ok s' \<and>
    (\<forall>d n. refs s' d n = refs s d n - (if d = i_dev (inodes s ! i) \<and> n = i_inum (inodes s ! i) then 1 else 0))"
proof -
  have len: "length (inodes s) = 50" using assms(1) by (simp add: icache_ok_def)
  let ?y = "(inodes s ! i)\<lparr>i_lock := \<lparr>locked = 0, pid = 0\<rparr>, i_ref := i_ref (inodes s ! i) - 1\<rparr>"
  have lk: "(lk :: sleeplock)\<lparr>locked := 0, pid := 0\<rparr> = \<lparr>locked = 0, pid = 0\<rparr>" for lk by (cases lk) simp
  have run: "iput s (int i) = Inr (s\<lparr>inodes := (inodes s)[i := ?y]\<rparr>)"
    using assms(2,4) len by (simp add: iput_def acquiresleep_def releasesleep_def lk if_not_P [OF assms(5)])
  have "icache_ok (s\<lparr>inodes := (inodes s)[i := ?y]\<rparr>)"
    using assms(1,2,3) unfolding icache_ok_def by (auto simp: nth_list_update)
  then show ?thesis using run assms(2) len by (auto simp: refs_update)
qed

theorem inode_refs:
  assumes "icache_ok s"
  shows "(case iget s d n of
      Inr (s', p) \<Rightarrow> \<exists>i < 50. p = int i \<and> live s' d n i \<and> icache_ok s' \<and> s' = s\<lparr>inodes := inodes s'\<rparr> \<and>
        (\<forall>d' n'. refs s' d' n' = refs s d' n' + (if d' = d \<and> n' = n then 1 else 0))
    | Inl e \<Rightarrow> e = Panic ''iget: no inodes'' \<and> (\<forall>i<50. 0 < i_ref (inodes s ! i) \<and> \<not> live s d n i)) \<and>
    (\<forall>i<50. 0 < i_ref (inodes s ! i) \<longrightarrow> (\<exists>s'. idup s (int i) = Inr (s', int i) \<and> icache_ok s' \<and>
      (\<forall>d n. refs s' d n = refs s d n + (if d = i_dev (inodes s ! i) \<and> n = i_inum (inodes s ! i) then 1 else 0)))) \<and>
    (\<forall>i<50. 0 < i_ref (inodes s ! i) \<longrightarrow> locked (i_lock (inodes s ! i)) = 0 \<longrightarrow>
      \<not> (i_valid (inodes s ! i) \<and> i_nlink (inodes s ! i) = 0 \<and> i_ref (inodes s ! i) = 1) \<longrightarrow> (\<exists>s'. iput s (int i) = Inr s' \<and> icache_ok s' \<and>
      (\<forall>d n. refs s' d n = refs s d n - (if d = i_dev (inodes s ! i) \<and> n = i_inum (inodes s ! i) then 1 else 0))))"
  using iget_counted [OF assms] idup_counted [OF assms] iput_counted [OF assms] by blast

theorem inode_refs_witness:
  "\<exists>(s :: fs_state) s' p. inodes s = replicate 50 no_inode \<and> iget s 1 7 = Inr (s', p) \<and> refs s' 1 7 = 1 \<and> icache_ok s'"
proof -
  let ?s = "mount undefined (replicate 50 no_inode)"
  have ok: "icache_ok ?s" by (simp add: icache_ok_def no_inode_def)
  have z: "refs ?s 1 7 = 0" by (simp add: refs_def no_inode_def sum_list_replicate)
  have free: "i_ref (inodes ?s ! 0) = 0" by (simp add: no_inode_def)
  have "iget ?s 1 7 \<noteq> Inl e" for e
  proof
    assume "iget ?s 1 7 = Inl e"
    then have "\<forall>i<50. 0 < i_ref (inodes ?s ! i)" using conjunct1 [OF inode_refs [OF ok, of 1 7]] by simp
    then have "0 < i_ref (inodes ?s ! 0)" by (metis zero_less_numeral)
    then show False using free by simp
  qed
  then obtain s' p where "iget ?s 1 7 = Inr (s', p)" by (metis obj_sumE surj_pair)
  moreover from this have "icache_ok s' \<and> refs s' 1 7 = refs ?s 1 7 + 1"
    using conjunct1 [OF inode_refs [OF ok, of 1 7]] by fastforce
  moreover have "inodes ?s = replicate 50 no_inode" by simp
  ultimately show ?thesis using z by (metis add_0)
qed

subsection \<open>Paths\<close>

text \<open>
  C8 (path_elements): For every path, taking elements off with \<open>skipelem\<close> until it returns the null pointer
  ends, stays inside the path and the name buffer, and yields the nonempty parts between slashes in order, each cut to the 30 bytes
  of a directory entry.
\<close>

theorem path_elements:
  assumes "is_str path s" and "length name = DIRSIZ"
  shows "all_elems path name = Inr (map (take DIRSIZ) (path_elems s))"
  by (rule all_elems_spec [OF assms])

theorem path_elements_witness:
  "all_elems [47, 47, 97, 47, 98, 99, 47, 0] (replicate DIRSIZ 0) = Inr (map (take DIRSIZ) (path_elems [47, 47, 97, 47, 98, 99, 47])) \<and>
   path_elems [47, 47, 97, 47, 98, 99, 47] = [[97], [98, 99]]"
proof -
  have "is_str [47, 47, 97, 47, 98, 99, 47, 0] [47, 47, 97, 47, 98, 99, 47]" by (simp add: is_str_def)
  moreover have "length (replicate DIRSIZ (0 :: byte)) = DIRSIZ" by simp
  moreover have "path_elems [47, 47, 97, 47, 98, 99, 47] = [[97], [98, 99]]"
    by (subst path_elems.simps, simp add: Let_def, subst path_elems.simps, simp add: Let_def, subst path_elems.simps, simp add: Let_def)
  ultimately show ?thesis using path_elements by blast
qed

end
