(* ===== verification/Handlers.thy ===== *)
theory Handlers
  imports Widgets WindowManager
begin

text \<open>
  The handlers of input fields (user_handler.c): the text of a field is an array of \<open>MAX_LONG_STRLEN\<close> bytes, the cursor an index
  into it. \<open>junk\<close> is the former contents of the local array \<open>temp\<close>.
\<close>

definition KEY_UP :: int where "KEY_UP = 226"
definition KEY_DN :: int where "KEY_DN = 227"
definition KEY_LF :: int where "KEY_LF = 228"
definition KEY_RT :: int where "KEY_RT = 229"

lemmas key_codes = KEY_UP_def KEY_DN_def KEY_LF_def KEY_RT_def

text \<open>Where the next character goes, after the character \<open>c\<close> at column \<open>x\<close> of line \<open>y\<close>.\<close>

definition next_place :: "int \<Rightarrow> byte \<Rightarrow> int \<times> int \<Rightarrow> int \<times> int" where
  "next_place charPerLine c = (\<lambda>(x, y).
     if c \<noteq> 10 then if x + 1 > charPerLine then (0, y + 1) else (x + 1, y) else (0, y + 1))"

text \<open>The loop of \<open>getInputOffsetFromMousePosition\<close>: the rest of the string, the place and the index of its first
  character, and \<open>first_y_match_pos\<close>.\<close>

fun offset_loop :: "int \<Rightarrow> int \<Rightarrow> int \<Rightarrow> byte list \<Rightarrow> int \<times> int \<Rightarrow> int \<Rightarrow> int \<Rightarrow> int res" where
  "offset_loop w mx my [] place cur fm = Inl OutOfBounds"
| "offset_loop w mx my (c # str) place cur fm =
     (if c = 0 then Inr (if fm > 0 then fm else cur)
      else if my = snd place \<and> mx = fst place then Inr cur
      else offset_loop w mx my str (next_place w c place) (cur + 1) (if my = snd place then cur else fm))"

definition getInputOffsetFromMousePosition :: "byte list \<Rightarrow> int \<Rightarrow> int \<Rightarrow> int \<Rightarrow> int res" where
  "getInputOffsetFromMousePosition str width mx my =
     (if my < 0 then Inr 0
      else offset_loop (width sdiv CHARACTER_WIDTH) mx my str (0, 0) 0 0)"

fun place_after :: "int \<Rightarrow> byte list \<Rightarrow> nat \<Rightarrow> int \<times> int \<Rightarrow> (int \<times> int) res" where
  "place_after w str 0 place = Inr place"
| "place_after w [] (Suc n) place = Inl OutOfBounds"
| "place_after w (c # str) (Suc n) place = place_after w str n (next_place w c place)"

definition getMouseXFromOffset :: "byte list \<Rightarrow> int \<Rightarrow> int \<Rightarrow> int res" where
  "getMouseXFromOffset str width off =
     rbind (place_after (width sdiv CHARACTER_WIDTH) str (nat off) (0, 0)) (\<lambda>(x, y). Inr x)"

definition getMouseYFromOffset :: "byte list \<Rightarrow> int \<Rightarrow> int \<Rightarrow> int res" where
  "getMouseYFromOffset str width off =
     rbind (place_after (width sdiv CHARACTER_WIDTH) str (nat off) (0, 0)) (\<lambda>(x, y). Inr y)"

definition getScrollableTotalHeight :: "uwindow \<Rightarrow> int res" where
  "getScrollableTotalHeight win =
     rbind (for_links MAX_WIDGET_SIZE (\<lambda>h p. rbind (get_wg win p) (\<lambda>w. Inr (wg_next w)))
       (\<lambda>p h. rbind (get_wg win p) (\<lambda>w.
          cont (if scrollable w \<noteq> 0 \<and> ymax (wpos w) > h then ymax (wpos w) else h))) (widgetlisthead win) 0) (\<lambda>(h, p). Inr h)"

definition addScrollBarWidget :: "mixer \<Rightarrow> uwindow \<Rightarrow> rgba \<Rightarrow> int \<Rightarrow> canvas \<Rightarrow> (uwindow \<times> int) res" where
  "addScrollBarWidget mix win c h junk =
     addColorFillWidget mix win c (w_width win - 20) 0 (w_width win) (w_height win) 0 h junk"

text \<open>A suffix of an array, as the pointer \<open>text + k\<close>; reading through it is checked by its user.\<close>

definition from_index :: "byte list \<Rightarrow> int \<Rightarrow> byte list res" where
  "from_index m k = (if 0 \<le> k \<and> k \<le> int (length m) then Inr (drop (nat k) m) else Inl OutOfBounds)"

definition inputMouseLeftClickHandler :: "widget \<Rightarrow> message \<Rightarrow> widget res" where
  "inputMouseLeftClickHandler w m =
     (if msg_type m \<noteq> M_MOUSE_LEFT_CLICK then Inr w
      else case ctx w of
        InputCtx f \<Rightarrow>
          rbind (getInputOffsetFromMousePosition (in_text f) (xmax (wpos w) - xmin (wpos w))
              ((params m 0 - xmin (wpos w)) sdiv CHARACTER_WIDTH) ((params m 1 - ymin (wpos w)) sdiv CHARACTER_HEIGHT)) (\<lambda>pos.
          Inr (w\<lparr>ctx := InputCtx (f\<lparr>current_pos := pos\<rparr>)\<rparr>))
      | _ \<Rightarrow> Inl OutOfBounds)"

text \<open>The parts of \<open>inputFieldKeyHandler\<close>: a character, the arrows, the delete key.\<close>

definition insert_char :: "byte list \<Rightarrow> inputfield \<Rightarrow> int \<Rightarrow> inputfield res" where
  "insert_char junk f c =
     (if c \<ge> 32 \<and> c \<le> 126 \<or> c = 10 then
        rbind (from_index (in_text f) (current_pos f)) (\<lambda>t.
        rbind (strcpy junk 0 t) (\<lambda>temp.
        rbind (arr_set (in_text f) (current_pos f) (word_of_int c)) (\<lambda>text1.
        rbind (strcpy text1 (current_pos f + 1) temp) (\<lambda>text2.
        Inr (f\<lparr>in_text := text2, current_pos := current_pos f + 1\<rparr>)))))
      else Inr f)"

definition arrow_lr :: "inputfield \<Rightarrow> int \<Rightarrow> int \<Rightarrow> inputfield" where
  "arrow_lr f charCount c =
     (let f1 = (if c = KEY_LF \<and> current_pos f > 0 then f\<lparr>current_pos := current_pos f - 1\<rparr> else f)
      in if c = KEY_RT \<and> current_pos f1 < charCount then f1\<lparr>current_pos := current_pos f1 + 1\<rparr> else f1)"

definition arrow_ud :: "inputfield \<Rightarrow> int \<Rightarrow> int \<Rightarrow> inputfield res" where
  "arrow_ud f width c =
     rbind (getMouseXFromOffset (in_text f) width (current_pos f)) (\<lambda>x.
     rbind (getMouseYFromOffset (in_text f) width (current_pos f)) (\<lambda>y.
     rbind (if c = KEY_UP then
         rbind (getInputOffsetFromMousePosition (in_text f) width x (y - 1)) (\<lambda>pos. Inr (f\<lparr>current_pos := pos\<rparr>)) else Inr f) (\<lambda>f1.
     if c = KEY_DN then
       rbind (getInputOffsetFromMousePosition (in_text f1) width x (y + 1)) (\<lambda>pos. Inr (f1\<lparr>current_pos := pos\<rparr>)) else Inr f1)))"

definition delete_char :: "byte list \<Rightarrow> inputfield \<Rightarrow> int \<Rightarrow> inputfield res" where
  "delete_char junk f c =
     (if c = 8 \<and> current_pos f > 0 then
        rbind (from_index (in_text f) (current_pos f)) (\<lambda>t.
        rbind (strcpy junk 0 t) (\<lambda>temp.
        rbind (strcpy (in_text f) (current_pos f - 1) temp) (\<lambda>text1.
        Inr (f\<lparr>in_text := text1, current_pos := current_pos f - 1\<rparr>))))
      else Inr f)"

definition inputFieldKeyHandler :: "byte list \<Rightarrow> widget \<Rightarrow> message \<Rightarrow> widget res" where
  "inputFieldKeyHandler junk w m =
     (if msg_type m \<noteq> M_KEY_DOWN then Inr w
      else case ctx w of
        InputCtx f \<Rightarrow>
          let width = xmax (wpos w) - xmin (wpos w) in
          rbind (strlen (in_text f)) (\<lambda>charCount.
          rbind (insert_char junk f (params m 0)) (\<lambda>f1.
          rbind (arrow_ud (arrow_lr f1 charCount (params m 0)) width (params m 0)) (\<lambda>f2.
          rbind (delete_char junk f2 (params m 0)) (\<lambda>f3.
          Inr (w\<lparr>ctx := InputCtx f3\<rparr>)))))
      | _ \<Rightarrow> Inl OutOfBounds)"

subsection \<open>The text of a field\<close>

text \<open>\<open>field_holds f s p\<close>: the field holds the text \<open>s\<close> with the cursor before its \<open>p\<close>-th character.\<close>

definition field_holds :: "inputfield \<Rightarrow> byte list \<Rightarrow> nat \<Rightarrow> bool" where
  "field_holds f s p \<longleftrightarrow> length (in_text f) = MAX_LONG_STRLEN \<and> is_str (in_text f) s \<and> p \<le> length s \<and> current_pos f = int p"

lemma is_str_drop: "is_str m s \<Longrightarrow> k \<le> length s \<Longrightarrow> is_str (drop k m) (drop k s)"
  by (auto simp: is_str_def dest: in_set_dropD)

lemma is_str_stored:
  assumes "take k m = a" and "length a = k" and "k + length b < length m" and "0 \<notin> set a" and "0 \<notin> set b"
  shows "is_str (stored m k (b @ [0])) (a @ b)"
  using assms by (auto simp: is_str_def stored_def)

lemma field_length: "field_holds f s p \<Longrightarrow> length s < MAX_LONG_STRLEN"
  by (auto simp: field_holds_def is_str_def MAX_LONG_STRLEN_def)

lemma insert_char_spec:
  assumes "field_holds f s p" and "length junk = MAX_LONG_STRLEN" and "c \<ge> 32 \<and> c \<le> 126 \<or> c = 10"
  shows "length s + 1 < MAX_LONG_STRLEN \<Longrightarrow>
      \<exists>f'. insert_char junk f c = Inr f' \<and> field_holds f' (take p s @ word_of_int c # drop p s) (p + 1)"
    and "length s + 1 = MAX_LONG_STRLEN \<Longrightarrow> insert_char junk f c = Inl OutOfBounds"
proof -
  let ?m = "in_text f" and ?c = "word_of_int c :: byte"
  have f: "length ?m = MAX_LONG_STRLEN" "is_str ?m s" "p \<le> length s" "current_pos f = int p" using assms(1) by (simp_all add: field_holds_def)
  have len: "length s < MAX_LONG_STRLEN" by (rule field_length [OF assms(1)])
  have ms: "take p ?m = take p s" "0 \<notin> set s" using f(2,3) by (auto simp: is_str_def)
  have fi: "from_index ?m (int p) = Inr (drop p ?m)" using f(1,3) len by (simp add: from_index_def)
  have d: "is_str (drop p ?m) (drop p s)" by (rule is_str_drop [OF f(2,3)])
  let ?temp = "stored junk 0 (drop p s @ [0])"
  have t: "strcpy junk 0 (drop p ?m) = Inr ?temp" using strcpy_spec [OF d, of 0 junk] assms(2) len by simp
  have dz: "0 \<notin> set (drop p s)" using ms(2) by (auto dest: in_set_dropD)
  have st: "is_str ?temp (drop p s)"
    using is_str_stored [of 0 junk "[]" "drop p s"] assms(2) len dz by simp
  let ?m1 = "?m[p := ?c]"
  have set: "arr_set ?m (int p) ?c = Inr ?m1" using f(1,3) len by simp
  have c0: "?c \<noteq> 0"
  proof
    assume "?c = 0"
    then have "uint ?c = 0" by simp
    moreover have "uint ?c = c" using assms(3) by (auto simp: uint_word_of_int)
    ultimately show False using assms(3) by auto
  qed
  have pn: "int p + 1 = int (p + 1)" by simp
  show "length s + 1 < MAX_LONG_STRLEN \<Longrightarrow>
      \<exists>f'. insert_char junk f c = Inr f' \<and> field_holds f' (take p s @ ?c # drop p s) (p + 1)"
  proof -
    assume room: "length s + 1 < MAX_LONG_STRLEN"
    let ?m2 = "stored ?m1 (p + 1) (drop p s @ [0])"
    have "strcpy ?m1 (int (p + 1)) ?temp = Inr ?m2"
      by (rule strcpy_spec [OF st]) (use room f(1,3) in simp)
    moreover have "take (p + 1) ?m1 = take p s @ [?c]" using f(1,3) len ms(1) by (simp add: take_Suc_conv_app_nth)
    then have "is_str ?m2 ((take p s @ [?c]) @ drop p s)"
      by (rule is_str_stored) (use f(1,3) room c0 ms(2) in \<open>auto dest: in_set_dropD in_set_takeD\<close>)
    moreover have "length ?m2 = MAX_LONG_STRLEN" using f(1,3) room by simp
    ultimately show ?thesis using fi t set f(3,4) assms(3)
      by (auto simp: insert_char_def field_holds_def pn simp del: of_nat_add of_nat_Suc)
  qed
  show "length s + 1 = MAX_LONG_STRLEN \<Longrightarrow> insert_char junk f c = Inl OutOfBounds"
  proof -
    assume full: "length s + 1 = MAX_LONG_STRLEN"
    have "strcpy ?m1 (int (p + 1)) ?temp = Inl OutOfBounds"
      by (rule strcpy_overflow [OF st]) (use full f(1,3) in simp)
    then show ?thesis using fi t set f(4) assms(3) by (auto simp: insert_char_def pn simp del: of_nat_add of_nat_Suc)
  qed
qed

lemma delete_char_spec:
  assumes "field_holds f s p" and "length junk = MAX_LONG_STRLEN"
  shows "\<exists>f'. delete_char junk f c = Inr f' \<and>
    field_holds f' (if c = 8 \<and> 0 < p then take (p - 1) s @ drop p s else s) (if c = 8 \<and> 0 < p then p - 1 else p)"
proof (cases "c = 8 \<and> 0 < p")
  case False
  then show ?thesis using assms(1) by (auto simp: delete_char_def field_holds_def)
next
  case True
  let ?m = "in_text f"
  have f: "length ?m = MAX_LONG_STRLEN" "is_str ?m s" "p \<le> length s" "current_pos f = int p" using assms(1) by (simp_all add: field_holds_def)
  have len: "length s < MAX_LONG_STRLEN" by (rule field_length [OF assms(1)])
  have ms: "take (p - 1) ?m = take (p - 1) s" "0 \<notin> set s" using f(2,3) by (auto simp: is_str_def)
  have fi: "from_index ?m (int p) = Inr (drop p ?m)" using f(1,3) len by (simp add: from_index_def)
  have d: "is_str (drop p ?m) (drop p s)" by (rule is_str_drop [OF f(2,3)])
  let ?temp = "stored junk 0 (drop p s @ [0])"
  have t: "strcpy junk 0 (drop p ?m) = Inr ?temp" using strcpy_spec [OF d, of 0 junk] assms(2) len by simp
  have dz: "0 \<notin> set (drop p s)" using ms(2) by (auto dest: in_set_dropD)
  have st: "is_str ?temp (drop p s)"
    using is_str_stored [of 0 junk "[]" "drop p s"] assms(2) len dz by simp
  have pn: "int p - 1 = int (p - 1)" using True by simp
  let ?m2 = "stored ?m (p - 1) (drop p s @ [0])"
  have "strcpy ?m (int (p - 1)) ?temp = Inr ?m2"
    by (rule strcpy_spec [OF st]) (use f(1,3) len in simp)
  moreover have "is_str ?m2 (take (p - 1) s @ drop p s)"
    by (rule is_str_stored [OF ms(1)]) (use f(1,3) len ms(2) in \<open>auto dest: in_set_dropD in_set_takeD\<close>)
  moreover have "length ?m2 = MAX_LONG_STRLEN" using f(1,3) len by simp
  ultimately show ?thesis using fi t f(3,4) True
    by (auto simp: delete_char_def field_holds_def pn simp del: of_nat_diff)
qed

text \<open>The cursor after a click or a vertical arrow stays inside the text.\<close>

lemma offset_loop_bounds:
  assumes "is_str m s" and "0 \<le> fm" and "fm \<le> cur"
  shows "\<exists>r. offset_loop w mx my m pl cur fm = Inr r \<and> 0 \<le> r \<and> r \<le> cur + int (length s)"
  using assms
proof (induction s arbitrary: m pl cur fm)
  case Nil
  then show ?case by (cases m) (auto simp: is_str_def)
next
  case (Cons c s)
  then obtain m' where m: "m = c # m'" "is_str m' s" "c \<noteq> 0" by (cases m) (auto simp: is_str_def)
  have "\<exists>r. offset_loop w mx my m' (next_place w c pl) (cur + 1) (if my = snd pl then cur else fm) = Inr r \<and> 0 \<le> r \<and>
      r \<le> (cur + 1) + int (length s)"
    by (rule Cons.IH [OF m(2)]) (use Cons.prems in auto)
  then show ?case using m Cons.prems by auto
qed

lemma getInputOffset_bounds:
  assumes "is_str m s"
  shows "\<exists>r. getInputOffsetFromMousePosition m wd mx my = Inr (int r) \<and> r \<le> length s"
proof -
  obtain r where "offset_loop (wd sdiv CHARACTER_WIDTH) mx my m (0, 0) 0 0 = Inr r" "0 \<le> r" "r \<le> int (length s)"
    using offset_loop_bounds [OF assms, of 0 0] by fastforce
  then show ?thesis by (cases "my < 0") (auto simp: getInputOffsetFromMousePosition_def intro: exI [of _ "nat r"])
qed

lemma place_after_total: "n \<le> length m \<Longrightarrow> \<exists>q. place_after w m n pl = Inr q"
  by (induction w m n pl rule: place_after.induct) auto

lemma arrow_ud_spec:
  assumes "field_holds f s p"
  shows "\<exists>f' p'. arrow_ud f wd c = Inr f' \<and> field_holds f' s p' \<and> (c \<noteq> KEY_UP \<longrightarrow> c \<noteq> KEY_DN \<longrightarrow> f' = f)"
proof -
  have f: "length (in_text f) = MAX_LONG_STRLEN" "is_str (in_text f) s" "p \<le> length s" "current_pos f = int p"
    using assms by (simp_all add: field_holds_def)
  have "p \<le> length (in_text f)" using f(1,3) field_length [OF assms] by simp
  then obtain x y where xy: "place_after (wd sdiv CHARACTER_WIDTH) (in_text f) p (0, 0) = Inr (x, y)"
    using place_after_total by (metis surj_pair)
  have off: "\<exists>r. getInputOffsetFromMousePosition (in_text f) wd x y' = Inr (int r) \<and> r \<le> length s" for y'
    by (rule getInputOffset_bounds [OF f(2)])
  obtain r1 where r1: "getInputOffsetFromMousePosition (in_text f) wd x (y - 1) = Inr (int r1)" "r1 \<le> length s" using off by blast
  obtain r2 where r2: "getInputOffsetFromMousePosition (in_text f) wd x (y + 1) = Inr (int r2)" "r2 \<le> length s" using off by blast
  show ?thesis
    using xy r1 r2 f assms by (auto simp: arrow_ud_def getMouseXFromOffset_def getMouseYFromOffset_def field_holds_def key_codes)
qed

text \<open>Left and right keep the cursor between the ends of the text; \<open>n\<close> is the length before the key was typed.\<close>

lemma arrow_lr_spec:
  assumes "field_holds f s p" and "n \<le> length s"
  shows "field_holds (arrow_lr f (int n) c) s (if c = KEY_LF then p - 1 else if c = KEY_RT \<and> p < n then p + 1 else p)"
  using assms by (auto simp: arrow_lr_def field_holds_def key_codes Let_def of_nat_diff)

definition text_key :: "int \<Rightarrow> bool" where
  "text_key c \<longleftrightarrow> c \<ge> 32 \<and> c \<le> 126 \<or> c = 10"

text \<open>What one key does to a text with a cursor, as an editor promises it.\<close>

fun edit :: "int \<Rightarrow> byte list \<times> nat \<Rightarrow> byte list \<times> nat" where
  "edit c (s, p) =
     (if text_key c then (take p s @ word_of_int c # drop p s, p + 1)
      else if c = KEY_LF then (s, p - 1)
      else if c = KEY_RT then (s, if p < length s then p + 1 else p)
      else if c = 8 then (take (p - 1) s @ drop p s, p - 1)
      else (s, p))"

lemma input_handler_base:
  assumes f: "ctx w = InputCtx f" "field_holds f s p" and j: "length junk = MAX_LONG_STRLEN" and m: "msg_type m = M_KEY_DOWN"
  defines "c \<equiv> params m 0"
  shows "text_key c \<Longrightarrow> length s + 1 = MAX_LONG_STRLEN \<Longrightarrow> inputFieldKeyHandler junk w m = Inl OutOfBounds"
    and "\<not> (text_key c \<and> length s + 1 = MAX_LONG_STRLEN) \<Longrightarrow> \<exists>f' p'. inputFieldKeyHandler junk w m = Inr (w\<lparr>ctx := InputCtx f'\<rparr>) \<and>
      field_holds f' (fst (edit c (s, p))) p' \<and> (c \<in> {KEY_UP, KEY_DN} \<or> p' = snd (edit c (s, p)))"
proof -
  have sl: "strlen (in_text f) = Inr (int (length s))" using f(2) strlen_spec by (auto simp: field_holds_def)
  show "inputFieldKeyHandler junk w m = Inl OutOfBounds" if "text_key c" "length s + 1 = MAX_LONG_STRLEN"
    using insert_char_spec(2) [OF f(2) j, of c] that f(1) m sl by (simp add: inputFieldKeyHandler_def text_key_def Let_def c_def)
  assume ok: "\<not> (text_key c \<and> length s + 1 = MAX_LONG_STRLEN)"
  define s1 where "s1 = (if text_key c then take p s @ word_of_int c # drop p s else s)"
  define p1 where "p1 = (if text_key c then p + 1 else p)"
  have "length s < MAX_LONG_STRLEN" by (rule field_length [OF f(2)])
  then have "\<exists>f1. insert_char junk f c = Inr f1 \<and> field_holds f1 s1 p1"
    using insert_char_spec(1) [OF f(2) j, of c] f(2) ok by (auto simp: s1_def p1_def text_key_def insert_char_def)
  then obtain f1 where f1: "insert_char junk f c = Inr f1" "field_holds f1 s1 p1" by blast
  define p2 where "p2 = (if c = KEY_LF then p1 - 1 else if c = KEY_RT \<and> p1 < length s then p1 + 1 else p1)"
  have "p \<le> length s" using f(2) by (simp add: field_holds_def)
  then have "length s \<le> length s1" by (simp add: s1_def)
  then have f2: "field_holds (arrow_lr f1 (int (length s)) c) s1 p2" unfolding p2_def by (rule arrow_lr_spec [OF f1(2)])
  obtain f3 p3 where f3: "arrow_ud (arrow_lr f1 (int (length s)) c) (xmax (wpos w) - xmin (wpos w)) c = Inr f3" "field_holds f3 s1 p3"
      "c \<noteq> KEY_UP \<longrightarrow> c \<noteq> KEY_DN \<longrightarrow> f3 = arrow_lr f1 (int (length s)) c"
    using arrow_ud_spec [OF f2] by blast
  have p3: "c \<in> {KEY_UP, KEY_DN} \<or> p3 = p2" using f3(2,3) f2 by (auto simp: field_holds_def)
  obtain f4 where f4: "delete_char junk f3 c = Inr f4"
      "field_holds f4 (if c = 8 \<and> 0 < p3 then take (p3 - 1) s1 @ drop p3 s1 else s1) (if c = 8 \<and> 0 < p3 then p3 - 1 else p3)"
    using delete_char_spec [OF f3(2) j] by blast
  have r: "inputFieldKeyHandler junk w m = Inr (w\<lparr>ctx := InputCtx f4\<rparr>)"
    using f(1) m sl f1(1) f3(1) f4(1) by (simp add: inputFieldKeyHandler_def Let_def c_def)
  let ?s4 = "if c = 8 \<and> 0 < p3 then take (p3 - 1) s1 @ drop p3 s1 else s1" and ?p4 = "if c = 8 \<and> 0 < p3 then p3 - 1 else p3"
  have "?s4 = fst (edit c (s, p))"
    using p3 by (auto simp: s1_def p1_def p2_def text_key_def key_codes)
  then have "field_holds f4 (fst (edit c (s, p))) ?p4" using f4(2) by simp
  moreover have "c \<in> {KEY_UP, KEY_DN} \<or> ?p4 = snd (edit c (s, p))"
    using p3 by (auto simp: p1_def p2_def text_key_def key_codes)
  ultimately show "\<exists>f' p'. inputFieldKeyHandler junk w m = Inr (w\<lparr>ctx := InputCtx f'\<rparr>) \<and>
      field_holds f' (fst (edit c (s, p))) p' \<and> (c \<in> {KEY_UP, KEY_DN} \<or> p' = snd (edit c (s, p)))"
    using r by blast
qed

text \<open>
  C38 (input_field_edits): a key typed into an input field has the effect an editor promises: a printable character or a new line goes
  in at the cursor, backspace deletes the character before it, the arrows move the cursor and never change the text, and the field
  stays a string with the cursor inside. The one failure is a character typed into a field that already holds
  \<open>MAX_LONG_STRLEN - 1\<close> of them: the code writes past the end of the array.
\<close>

theorem input_field_edits:
  assumes "ctx w = InputCtx f" and "field_holds f s p" and "length junk = MAX_LONG_STRLEN" and "msg_type m = M_KEY_DOWN"
  shows "case inputFieldKeyHandler junk w m of
      Inl e \<Rightarrow> e = OutOfBounds \<and> text_key (params m 0) \<and> length s + 1 = MAX_LONG_STRLEN
    | Inr w' \<Rightarrow> \<exists>f' p'. w' = w\<lparr>ctx := InputCtx f'\<rparr> \<and> field_holds f' (fst (edit (params m 0) (s, p))) p' \<and>
        (params m 0 \<in> {KEY_UP, KEY_DN} \<or> p' = snd (edit (params m 0) (s, p)))"
proof (cases "text_key (params m 0) \<and> length s + 1 = MAX_LONG_STRLEN")
  case True
  then show ?thesis using input_handler_base(1) [OF assms] by simp
next
  case False
  then obtain f' p' where "inputFieldKeyHandler junk w m = Inr (w\<lparr>ctx := InputCtx f'\<rparr>)"
      "field_holds f' (fst (edit (params m 0) (s, p))) p'" "params m 0 \<in> {KEY_UP, KEY_DN} \<or> p' = snd (edit (params m 0) (s, p))"
    using input_handler_base(2) [OF assms] by blast
  then show ?thesis by (simp only: sum.case) blast
qed

definition sample_field :: inputfield where
  "sample_field = \<lparr>in_color = \<lparr>aA = 0, aB = 0, aG = 0, aR = 0\<rparr>, in_text = [104, 105, 0] @ replicate 997 7, current_pos = 1\<rparr>"

definition sample_widget :: widget where
  "sample_widget = \<lparr>ctx = InputCtx sample_field, wtype = INPUTFIELD, wpos = \<lparr>xmin = 0, xmax = 90, ymin = 0, ymax = 18\<rparr>,
     scrollable = 0, wg_next = -1, wg_prev = -1, wg_handler = 0\<rparr>"

lemma input_field_edits_witness:
  "\<exists>f'. inputFieldKeyHandler (replicate 1000 3) sample_widget \<lparr>msg_type = M_KEY_DOWN, params = (\<lambda>_. 97)\<rparr> =
     Inr (sample_widget\<lparr>ctx := InputCtx f'\<rparr>) \<and> field_holds f' [104, 97, 105] 2"
proof -
  have h: "field_holds sample_field [104, 105] 1"
    by (simp add: field_holds_def sample_field_def is_str_def MAX_LONG_STRLEN_def)
  have c: "ctx sample_widget = InputCtx sample_field" by (simp add: sample_widget_def)
  have e: "edit 97 ([104, 105], 1) = ([104, 97, 105], 2)" by (simp add: text_key_def)
  show ?thesis
    using input_field_edits [OF c h, of "replicate 1000 3" "\<lparr>msg_type = M_KEY_DOWN, params = (\<lambda>_. 97)\<rparr>"]
    by (auto simp: MAX_LONG_STRLEN_def e key_codes text_key_def numeral_2_eq_2 split: sum.splits)
qed

end
