(* ===== verification/Grep.thy ===== *)
theory Grep
  imports CString
begin

text \<open>
  The \<open>grep\<close> program (grep.c): its matcher of patterns and the loop that cuts the input into lines.

  A pattern and a text are memory that starts with a NUL-terminated string; running off that memory
  is reported. The input of the loop is what the calls of \<open>read\<close> deliver, one list for each
  delivery: a plain file is a single delivery, a pipe or the console is several.
\<close>

subsection \<open>The matcher\<close>

function matchhere :: "byte list \<Rightarrow> byte list \<Rightarrow> int res"
  and matchstar :: "byte \<Rightarrow> byte list \<Rightarrow> byte list \<Rightarrow> int res" where
  "matchhere [] tx = Inl OutOfBounds"
| "matchhere (r0 # re) tx =
     (if r0 = 0 then Inr 1
      else case re of [] \<Rightarrow> Inl OutOfBounds
      | r1 # re2 \<Rightarrow>
          if r1 = 42 then matchstar r0 re2 tx
          else case tx of [] \<Rightarrow> Inl OutOfBounds
          | t # tx' \<Rightarrow>
              if r0 = 36 \<and> r1 = 0 then Inr (if t = 0 then 1 else 0)
              else if t \<noteq> 0 \<and> (r0 = 46 \<or> r0 = t) then matchhere re tx'
              else Inr 0)"
| "matchstar c re tx =
     rbind (matchhere re tx) (\<lambda>m.
       if m \<noteq> 0 then Inr 1
       else case tx of [] \<Rightarrow> Inl OutOfBounds
       | t # tx' \<Rightarrow> if t \<noteq> 0 \<and> (t = c \<or> c = 46) then matchstar c re tx' else Inr 0)"
  by pat_completeness auto

termination
  by (relation "measures [\<lambda>x. case x of Inl (re, tx) \<Rightarrow> length re | Inr (c, re, tx) \<Rightarrow> length re,
       \<lambda>x. case x of Inl (re, tx) \<Rightarrow> length tx | Inr (c, re, tx) \<Rightarrow> length tx,
       \<lambda>x. case x of Inl _ \<Rightarrow> 0 | Inr _ \<Rightarrow> 1]") auto

fun match_from :: "byte list \<Rightarrow> byte list \<Rightarrow> int res" where
  "match_from re [] = rbind (matchhere re []) (\<lambda>m. if m \<noteq> 0 then Inr 1 else Inl OutOfBounds)"
| "match_from re (t # tx) =
     rbind (matchhere re (t # tx)) (\<lambda>m. if m \<noteq> 0 then Inr 1 else if t \<noteq> 0 then match_from re tx else Inr 0)"

definition match :: "byte list \<Rightarrow> byte list \<Rightarrow> int res" where
  "match re tx =
     (case re of [] \<Rightarrow> Inl OutOfBounds
      | r0 # re1 \<Rightarrow> if r0 = 94 then matchhere re1 tx else match_from re tx)"

subsection \<open>The loop over the lines\<close>

text \<open>One call of \<open>read\<close> with room for \<open>n\<close> bytes: what it stores and what is left to read.\<close>

fun read_some :: "byte list list \<Rightarrow> nat \<Rightarrow> byte list \<times> byte list list" where
  "read_some [] n = ([], [])"
| "read_some (d # ds) n = (if length d \<le> n then (d, ds) else (take n d, drop n d # ds))"

definition GREP_BUF :: nat where "GREP_BUF = 1024"

text \<open>The inner loop: \<open>p\<close> is the offset of the line under work, \<open>out\<close> what was written so far. The
  fuel is the number of bytes of the buffer: each turn moves \<open>p\<close> up.\<close>

fun grep_lines :: "nat \<Rightarrow> byte list \<Rightarrow> byte list \<Rightarrow> int \<Rightarrow> byte list \<Rightarrow> (byte list \<times> int \<times> byte list) res" where
  "grep_lines 0 pat buf p out = Inl Hang"
| "grep_lines (Suc fuel) pat buf p out =
     rbind (strchr (drop (nat p) buf) 10) (\<lambda>r. case r of
       None \<Rightarrow> Inr (buf, p, out)
     | Some k \<Rightarrow>
         rbind (arr_set buf (p + k) 0) (\<lambda>b1.
         rbind (match pat (drop (nat p) b1)) (\<lambda>m.
         rbind (if m \<noteq> 0 then rbind (arr_set b1 (p + k) 10) (\<lambda>b2.
                  Inr (b2, out @ take (nat (k + 1)) (drop (nat p) b2))) else Inr (b1, out)) (\<lambda>(b3, out').
         grep_lines fuel pat b3 (p + k + 1) out'))))"

lemma read_some_shorter: "read_some ds n = (got, ds1) \<Longrightarrow> got \<noteq> [] \<Longrightarrow> sum_list (map length ds1) < sum_list (map length ds)"
  by (cases ds) (auto split: if_splits)

function grep_loop :: "byte list \<Rightarrow> byte list \<Rightarrow> int \<Rightarrow> byte list list \<Rightarrow> byte list \<Rightarrow> byte list res" where
  "grep_loop pat buf m ds out =
     (let (got, ds1) = read_some ds (nat (int GREP_BUF - m - 1)) in
      if got = [] then Inr out
      else
        let m1 = m + int (length got) in
        rbind (arr_set (stored buf (nat m) got) m1 0) (\<lambda>b1.
        rbind (grep_lines (Suc (length b1)) pat b1 0 out) (\<lambda>(b2, p, out1).
        let m2 = (if p = 0 then 0 else m1) in
        if m2 > 0 then
          let m3 = m2 - p in
          rbind (u_memmove b2 0 p m3) (\<lambda>b3. grep_loop pat b3 m3 ds1 out1)
        else grep_loop pat b2 m2 ds1 out1)))"
  by pat_completeness auto

termination
  by (relation "measure (\<lambda>(pat, buf, m, ds, out). sum_list (map length ds))") (auto dest: read_some_shorter [OF sym])

declare grep_loop.simps [simp del]

definition grep :: "byte list \<Rightarrow> byte list \<Rightarrow> byte list list \<Rightarrow> byte list res" where
  "grep pat buf ds = grep_loop pat buf 0 ds []"

subsection \<open>What a pattern means\<close>

text \<open>
  A pattern is a list of items: a character or any character, once or any number of times, and at
  the very end a \<open>$\<close>. \<open>fits\<close> says which texts begin with a match.
\<close>

datatype atom = Lit byte | Any

datatype item = One atom | Many atom | AtEnd

fun accepts :: "atom \<Rightarrow> byte \<Rightarrow> bool" where
  "accepts (Lit a) c \<longleftrightarrow> c = a"
| "accepts Any c \<longleftrightarrow> True"

definition atom_of :: "byte \<Rightarrow> atom" where
  "atom_of c = (if c = 46 then Any else Lit c)"

fun items :: "byte list \<Rightarrow> item list" where
  "items [] = []"
| "items [c] = [if c = 36 then AtEnd else One (atom_of c)]"
| "items (c # d # r) = (if d = 42 then Many (atom_of c) # items r else One (atom_of c) # items (d # r))"

inductive fits :: "item list \<Rightarrow> byte list \<Rightarrow> bool" where
  fits_empty: "fits [] s"
| fits_one: "accepts a c \<Longrightarrow> fits its s \<Longrightarrow> fits (One a # its) (c # s)"
| fits_many: "(\<forall>c \<in> set u. accepts a c) \<Longrightarrow> fits its s \<Longrightarrow> fits (Many a # its) (u @ s)"
| fits_end: "fits [AtEnd] []"

inductive_simps fits_Nil [simp]: "fits [] s"
inductive_simps fits_One [simp]: "fits (One a # its) s"
inductive_simps fits_AtEnd [simp]: "fits (AtEnd # its) s"
inductive_cases fits_ManyE: "fits (Many a # its) s"

text \<open>A whole pattern: anchored at the start after \<open>^\<close>, anywhere in the text otherwise.\<close>

definition selects :: "byte list \<Rightarrow> byte list \<Rightarrow> bool" where
  "selects p s \<longleftrightarrow>
     (if p \<noteq> [] \<and> hd p = 94 then fits (items (drop 1 p)) s else \<exists>u v. s = u @ v \<and> fits (items p) v)"

lemma fits_Many_iff:
  "fits (Many a # its) s \<longleftrightarrow> fits its s \<or> (\<exists>c s'. s = c # s' \<and> accepts a c \<and> fits (Many a # its) s')"
proof
  assume "fits (Many a # its) s"
  then obtain u v where uv: "s = u @ v" "\<forall>c \<in> set u. accepts a c" "fits its v" by (auto elim: fits_ManyE)
  show "fits its s \<or> (\<exists>c s'. s = c # s' \<and> accepts a c \<and> fits (Many a # its) s')"
  proof (cases u)
    case Nil
    then show ?thesis using uv by simp
  next
    case (Cons c u')
    then have "fits (Many a # its) (u' @ v)" using uv by (intro fits_many) auto
    then show ?thesis using uv Cons by auto
  qed
next
  assume "fits its s \<or> (\<exists>c s'. s = c # s' \<and> accepts a c \<and> fits (Many a # its) s')"
  then show "fits (Many a # its) s"
  proof (elim disjE exE conjE)
    assume "fits its s"
    then show ?thesis using fits_many [of "[]" a "its" s] by simp
  next
    fix c s' assume h: "s = c # s'" "accepts a c" "fits (Many a # its) s'"
    then obtain u v where uv: "s' = u @ v" "\<forall>c \<in> set u. accepts a c" "fits its v" by (auto elim: fits_ManyE)
    then show ?thesis using fits_many [of "c # u" a "its" v] h by simp
  qed
qed

lemma is_str_elim:
  assumes "is_str m s"
  obtains m' where "m = 0 # m'" "s = []" | c m' s' where "m = c # m'" "s = c # s'" "c \<noteq> 0" "is_str m' s'"
  using assms by (cases s) (auto simp: is_str_def)

lemma is_str_ne: "\<not> is_str [] s"
  by (simp add: is_str_def)

lemma matcher_spec:
  shows "is_str re p \<Longrightarrow> is_str tx s \<Longrightarrow> matchhere re tx = Inr (if fits (items p) s then 1 else 0)"
    and "c \<noteq> 0 \<Longrightarrow> is_str re p \<Longrightarrow> is_str tx s \<Longrightarrow>
      matchstar c re tx = Inr (if fits (Many (atom_of c) # items p) s then 1 else 0)"
proof (induction re tx and c re tx arbitrary: p s and p s rule: matchhere_matchstar.induct)
  case (1 tx)
  then show ?case by (simp add: is_str_ne)
next
  case (2 r0 re tx)
  note str = "2.prems"
  show ?case
  proof (cases rule: is_str_elim [OF str(1)])
    case (1 m')
    then show ?thesis by simp
  next
    case (2 c m' p')
    then have p: "r0 \<noteq> 0" "p = r0 # p'" "is_str re p'" by auto
    obtain r1 re2 where re: "re = r1 # re2" using p(3) is_str_ne by (cases re) auto
    obtain t tx' where tx: "tx = t # tx'" using str(2) is_str_ne by (cases tx) auto
    show ?thesis
    proof (cases "r1 = 42")
      case True
      then obtain p2 where p2: "p' = 42 # p2" "is_str re2 p2" using p(3) re by (auto elim: is_str_elim)
      have "matchstar r0 re2 tx = Inr (if fits (Many (atom_of r0) # items p2) s then 1 else 0)"
        by (rule "2.IH"(1) [OF p(1) re True p(1) p2(2) str(2)])
      then show ?thesis using p p2 True re by simp
    next
      case False
      show ?thesis
      proof (cases "r0 = 36 \<and> r1 = 0")
        case True
        then have "p' = []" using p(3) re by (auto elim: is_str_elim)
        moreover have "t = 0 \<longleftrightarrow> s = []" using str(2) tx by (auto elim: is_str_elim)
        ultimately show ?thesis using True p tx re False by simp
      next
        case nd: False
        have "items p = One (atom_of r0) # items p'"
        proof (cases p')
          case Nil
          then have "r1 = 0" using p(3) re by (auto elim: is_str_elim)
          then show ?thesis using nd p(2) Nil by simp
        next
          case (Cons d p2)
          then have "d = r1" using p(3) re by (auto elim: is_str_elim)
          then show ?thesis using False p(2) Cons by simp
        qed
        moreover have "matchhere re tx' = Inr (if fits (items p') s' then 1 else 0)"
          if "t \<noteq> 0 \<and> (r0 = 46 \<or> r0 = t)" "is_str tx' s'" for s'
          by (rule "2.IH"(2) [OF p(1) re False tx _ that(1) p(3) that(2)]) (use nd in simp)
        ultimately show ?thesis using p(1) False nd
          by (cases rule: is_str_elim [OF str(2)]) (auto simp: re tx atom_of_def)
      qed
    qed
  qed
next
  case (3 c re tx)
  note str = "3.prems"(2,3)
  have h: "matchhere re tx = Inr (if fits (items p) s then 1 else 0)" by (rule "3.IH"(1) [OF str])
  show ?case
  proof (cases rule: is_str_elim [OF str(2)])
    case (1 m')
    then show ?thesis using h by (auto simp: fits_Many_iff [of _ _ "[]"])
  next
    case (2 t tx' s')
    have "matchstar c re tx' = Inr (if fits (Many (atom_of c) # items p) s' then 1 else 0)"
      if "\<not> fits (items p) s" "t = c \<or> c = 46"
      by (rule "3.IH"(2) [OF h _ 2(1) _ "3.prems"(1) str(1) 2(4)]) (use that 2(3) in simp_all)
    then show ?thesis using h 2 by (auto simp: fits_Many_iff [of _ _ "t # s'"] atom_of_def)
  qed
qed

lemma match_from_spec:
  assumes "is_str re p"
  shows "is_str tx s \<Longrightarrow> match_from re tx = Inr (if \<exists>u v. s = u @ v \<and> fits (items p) v then 1 else 0)"
proof (induction tx arbitrary: s)
  case Nil
  then show ?case by (simp add: is_str_ne)
next
  case (Cons t tx)
  have h: "matchhere re (t # tx) = Inr (if fits (items p) s then 1 else 0)" by (rule matcher_spec(1) [OF assms Cons.prems])
  show ?case
  proof (cases rule: is_str_elim [OF Cons.prems])
    case (1 m')
    then show ?thesis using h by simp
  next
    case (2 c m' s')
    have step: "(\<exists>u v. s = u @ v \<and> fits (items p) v) \<longleftrightarrow> fits (items p) s \<or> (\<exists>u v. s' = u @ v \<and> fits (items p) v)"
      unfolding 2(2) by (auto simp: Cons_eq_append_conv)
    show ?thesis unfolding step using h Cons.IH [of s'] 2 by simp
  qed
qed

lemma match_spec:
  assumes "is_str re p" and "is_str tx s"
  shows "match re tx = Inr (if selects p s then 1 else 0)"
proof (cases rule: is_str_elim [OF assms(1)])
  case (1 m')
  then show ?thesis using match_from_spec [OF assms] by (simp add: match_def selects_def)
next
  case (2 c m' p')
  then show ?thesis using match_from_spec [OF assms] matcher_spec(1) [OF 2(4) assms(2)] by (simp add: match_def selects_def)
qed

subsection \<open>Cutting the input into lines\<close>

definition line :: "byte list \<Rightarrow> byte list" where
  "line l = l @ [10]"

abbreviation text_of :: "byte list list \<Rightarrow> byte list" where
  "text_of ls \<equiv> concat (map line ls)"

text \<open>The first part of a text that is lines and a rest is lines and a rest itself.\<close>

lemma cut_lines:
  assumes "t @ u = text_of ls @ r" and "10 \<notin> set r" and "\<forall>l \<in> set ls. 10 \<notin> set l"
  shows "\<exists>ls1 ls2 r1. ls = ls1 @ ls2 \<and> t = text_of ls1 @ r1 \<and> r1 @ u = text_of ls2 @ r \<and> (ls2 = [] \<or> length r1 \<le> length (hd ls2)) \<and> 10 \<notin> set r1"
  using assms
proof (induction ls arbitrary: t)
  case Nil
  then have "10 \<notin> set t" by (metis Un_iff append_Nil concat.simps(1) list.map(1) set_append)
  then show ?case using Nil by (intro exI [of _ "[]"] exI [of _ t]) auto
next
  case (Cons l ls)
  show ?case
  proof (cases "length t \<le> length l")
    case True
    then have "t = take (length t) l"
      using Cons.prems(1) by (metis append_eq_append_conv_if append.assoc concat.simps(2) line_def list.simps(9))
    then have "10 \<notin> set t" using Cons.prems(3) by (metis in_set_takeD list.set_intros(1))
    then show ?thesis using Cons.prems True by (intro exI [of _ "[]"] exI [of _ "l # ls"] exI [of _ t]) auto
  next
    case False
    define t' where "t' = drop (length l + 1) t"
    have "take (length l + 1) (t @ u) = l @ [10]" using Cons.prems(1) by (simp add: line_def)
    then have t: "t = line l @ t'" using False append_take_drop_id [of "length l + 1" t] by (simp add: t'_def line_def)
    then have "t' @ u = text_of ls @ r" using Cons.prems(1) by simp
    then obtain ls1 ls2 r1 where h: "ls = ls1 @ ls2" "t' = text_of ls1 @ r1" "r1 @ u = text_of ls2 @ r"
        "ls2 = [] \<or> length r1 \<le> length (hd ls2)" "10 \<notin> set r1"
      using Cons.IH [of t'] Cons.prems by auto
    then show ?thesis using t by (intro exI [of _ "l # ls1"] exI [of _ ls2] exI [of _ r1]) auto
  qed
qed

lemma strchr_none: "is_str m s \<Longrightarrow> c \<notin> set s \<Longrightarrow> strchr m c = Inr None"
proof (induction m arbitrary: s)
  case Nil
  then show ?case by (simp add: is_str_ne)
next
  case (Cons x m)
  show ?case by (cases rule: is_str_elim [OF Cons.prems(1)]) (use Cons in auto)
qed

lemma strchr_first: "is_str m (a @ c # b) \<Longrightarrow> c \<notin> set a \<Longrightarrow> strchr m c = Inr (Some (int (length a)))"
proof (induction a arbitrary: m)
  case Nil
  then show ?case by (auto elim: is_str_elim)
next
  case (Cons x a)
  from Cons.prems(1) obtain m' where m: "m = x # m'" "x \<noteq> 0" "is_str m' (a @ c # b)" by (auto elim: is_str_elim)
  then show ?case using Cons.IH [OF m(3)] Cons.prems(2) by auto
qed

lemma grep_lines_spec:
  assumes pat: "is_str pat pt"
  shows "is_str (drop p b) (text_of ls @ r) \<Longrightarrow> p + length (text_of ls @ r) < length b \<Longrightarrow> 10 \<notin> set r \<Longrightarrow>
    \<forall>l \<in> set ls. 10 \<notin> set l \<Longrightarrow> length ls < fuel \<Longrightarrow>
    \<exists>b'. grep_lines fuel pat b (int p) out = Inr (b', int (p + length (text_of ls)), out @ text_of (filter (selects pt) ls)) \<and>
      length b' = length b \<and> is_str (drop (p + length (text_of ls)) b') r"
proof (induction ls arbitrary: fuel p b out)
  case Nil
  then obtain f where "fuel = Suc f" by (cases fuel) auto
  moreover have "strchr (drop p b) 10 = Inr None" by (rule strchr_none [of _ r]) (use Nil in simp_all)
  ultimately show ?case using Nil by simp
next
  case (Cons l ls)
  obtain f where fuel: "fuel = Suc f" using Cons.prems(5) by (cases fuel) auto
  let ?t = "text_of ls @ r"
  have str: "is_str (drop p b) (l @ 10 # ?t)" using Cons.prems(1) by (simp add: line_def [of l])
  have c: "strchr (drop p b) 10 = Inr (Some (int (length l)))" by (rule strchr_first [OF str]) (use Cons.prems(4) in simp)
  obtain z where z: "drop p b = l @ 10 # ?t @ 0 # z" and nz: "0 \<notin> set (l @ ?t)" using str by (auto simp: is_str_def)
  have plen: "p + length l < length b" using Cons.prems(2) by (simp add: line_def [of l])
  obtain pre where b: "b = pre @ l @ 10 # ?t @ 0 # z" and pb: "length pre = p"
    using append_take_drop_id [of p b] z plen by (metis length_take min.absorb2 less_or_eq_imp_le add_lessD1)
  let ?b1 = "b[p + length l := 0]"
  have b1: "?b1 = pre @ l @ 0 # ?t @ 0 # z"
    unfolding b by (simp add: list_update_append pb)
  have "is_str (drop p ?b1) l" unfolding b1 using nz pb by (auto simp: is_str_def)
  then have m: "match pat (drop p ?b1) = Inr (if selects pt l then 1 else 0)" by (rule match_spec [OF pat])
  let ?b3 = "if selects pt l then ?b1[p + length l := 10] else ?b1"
  have b2: "?b1[p + length l := 10] = b" using z plen
    unfolding b by (simp add: list_update_append pb)
  have "drop (p + length (line l)) ?b3 = ?t @ 0 # z"
  proof -
    have "drop (p + length (line l)) b = ?t @ 0 # z" unfolding b by (simp add: pb line_def [of l])
    moreover have "drop (p + length (line l)) ?b1 = ?t @ 0 # z" unfolding b1 by (simp add: pb line_def [of l])
    ultimately show ?thesis using b2 by simp
  qed
  then have str3: "is_str (drop (p + length (line l)) ?b3) ?t" using nz by (auto simp: is_str_def)
  have l3: "length ?b3 = length b" by simp
  obtain b' where b': "grep_lines f pat ?b3 (int (p + length (line l))) (out @ (if selects pt l then line l else [])) =
      Inr (b', int (p + length (line l) + length (text_of ls)),
        (out @ (if selects pt l then line l else [])) @ text_of (filter (selects pt) ls))"
      "length b' = length b" "is_str (drop (p + length (line l) + length (text_of ls)) b') r"
    using Cons.IH [OF str3 _ Cons.prems(3), of f "out @ (if selects pt l then line l else [])"] Cons.prems l3 fuel by auto
  have w: "take (nat (int (length l) + 1)) (drop (nat (int p)) b) = line l" using z by (simp add: line_def [of l] nat_add_distrib)
  have idx: "int p + int (length l) + 1 = int (p + length (line l))" by (simp add: line_def [of l])
  have s0: "arr_set b (int p + int (length l)) 0 = Inr ?b1"
    using plen by (simp flip: of_nat_add)
  have s1: "arr_set ?b1 (int p + int (length l)) 10 = Inr b"
    using plen b2 by (simp flip: of_nat_add)
  have ln: "grep_lines fuel pat b (int p) out =
      grep_lines f pat ?b3 (int (p + length (line l))) (out @ (if selects pt l then line l else []))"
    unfolding fuel grep_lines.simps nat_int c rbind_Inr option.case s0 m
    by (cases "selects pt l") (simp_all only: s1 b2 idx w [unfolded nat_int] if_True if_False one_neq_zero not_False_eq_True
        rbind_Inr case_prod_conv append_Nil2 simp_thms)
  show ?case using b' ln by (auto simp: add.assoc)
qed

lemma is_str_stored_at:
  "length a = k \<Longrightarrow> take k m = a \<Longrightarrow> k + length b < length m \<Longrightarrow> 0 \<notin> set (a @ b) \<Longrightarrow>
   is_str ((stored m k b)[k + length b := 0]) (a @ b)"
  by (auto simp: is_str_def stored_def list_update_append upd_conv_take_nth_drop)

lemma copied_front:
  assumes "copied m 0 (int p) (int n) m'" and "p + n \<le> length m"
  shows "take n m' = take n (drop p m)"
proof (rule nth_equalityI)
  show "length (take n m') = length (take n (drop p m))" using assms by (simp add: copied_def)
  fix i assume "i < length (take n m')"
  then have i: "i < n" "i < length m" using assms by (auto simp: copied_def)
  have "m' ! nat (int i) = m ! nat (int p + (int i - 0))"
    using assms(1) [unfolded copied_def, THEN conjunct2, THEN spec [of _ "int i"]] i by simp
  then show "take n m' ! i = take n (drop p m) ! i" using i assms(2) by (simp add: nat_add_distrib)
qed

text \<open>The loop, with the unfinished line \<open>u\<close> at the start of the buffer and \<open>c\<close> still to be read.\<close>

lemma grep_loop_spec:
  assumes pat: "is_str pat pt"
  shows "length buf = GREP_BUF \<Longrightarrow> take m buf = u \<Longrightarrow> length u = m \<Longrightarrow> m < GREP_BUF \<Longrightarrow> 10 \<notin> set u \<Longrightarrow>
    ds = [c] \<or> ds = [] \<and> c = [] \<Longrightarrow> u @ c = text_of ls @ r \<Longrightarrow>
    \<forall>l \<in> set ls. 10 \<notin> set l \<and> length l + 2 \<le> GREP_BUF \<Longrightarrow> 10 \<notin> set r \<Longrightarrow> 0 \<notin> set (u @ c) \<Longrightarrow>
    grep_loop pat buf (int m) ds out = Inr (out @ text_of (filter (selects pt) ls))"
proof (induction "length c" arbitrary: buf m u ds c ls out r rule: less_induct)
  case less
  note inp = less.prems
  define n where "n = GREP_BUF - m - 1"
  have n: "nat (int GREP_BUF - int m - 1) = n" using inp(4) by (simp add: n_def nat_diff_distrib)
  define got where "got = take n c"
  define c1 where "c1 = drop n c"
  define ds1 where "ds1 = snd (read_some ds n)"
  have rd: "read_some ds n = (got, ds1)" and ds1: "ds1 = [c1] \<or> ds1 = [] \<and> c1 = []"
    using inp(6) by (cases "length c \<le> n"; auto simp: ds1_def got_def c1_def)+
  have gl: "length got \<le> n" by (simp add: got_def)
  have cc: "c = got @ c1" by (simp add: got_def c1_def)
  have nol: "\<forall>l \<in> set ls. 10 \<notin> set l" using inp(8) by blast
  show ?case
  proof (cases "got = []")
    case True
    have "ls = []"
    proof (rule ccontr)
      assume "ls \<noteq> []"
      then obtain l ls' where ls: "ls = l # ls'" by (cases ls) auto
      have "c \<noteq> []"
      proof
        assume "c = []"
        then have "10 \<in> set u" using inp(7) ls by (simp add: line_def [of l])
        then show False using inp(5) by simp
      qed
      then have "n = 0" using True by (simp add: got_def)
      then have "length l < length u" using inp(3,4,8) ls n_def by auto
      moreover have "u @ c = l @ 10 # text_of ls' @ r" using inp(7) ls by (simp add: line_def [of l])
      ultimately have "10 \<in> set u"
        by (metis append_eq_append_conv_if not_less_iff_gr_or_eq nth_append nth_append_length nth_mem)
      then show False using inp(5) by simp
    qed
    then show ?thesis using rd True n by (subst grep_loop.simps) simp
  next
    case False
    let ?b1 = "(stored buf m got)[m + length got := 0]"
    have room: "m + length got < length buf" using gl inp(1,4) by (simp add: n_def)
    have set0: "arr_set (stored buf (nat (int m)) got) (int m + int (length got)) 0 = Inr ?b1"
      using room by (simp flip: of_nat_add)
    have z0: "0 \<notin> set (u @ got)" using inp(10) cc by simp
    have str: "is_str ?b1 (u @ got)" by (rule is_str_stored_at [OF inp(3,2) room z0])
    have "(u @ got) @ c1 = text_of ls @ r" using inp(7) cc by simp
    then obtain ls1 ls2 r1 where cut: "ls = ls1 @ ls2" "u @ got = text_of ls1 @ r1" "r1 @ c1 = text_of ls2 @ r"
        "ls2 = [] \<or> length r1 \<le> length (hd ls2)" "10 \<notin> set r1"
      using cut_lines [OF _ inp(9) nol] by metis
    have lb: "length ?b1 = GREP_BUF" using inp(1) room by simp
    have lens: "length ls1 \<le> length (text_of ls1)" by (induction ls1) (auto simp: line_def)
    have tl: "length (text_of ls1 @ r1) < length ?b1" using room lb inp(1,3) by (simp flip: cut(2))
    define q where "q = length (text_of ls1)"
    have q0: "q = 0 \<longleftrightarrow> ls1 = []" by (cases ls1) (auto simp: q_def line_def)
    obtain b' where b': "grep_lines (Suc (length ?b1)) pat ?b1 (int 0) out =
        Inr (b', int (0 + q), out @ text_of (filter (selects pt) ls1))"
        "length b' = length ?b1" "is_str (drop (0 + q) b') r1"
      using grep_lines_spec [OF pat, of 0 ?b1 ls1 r1 "Suc (length ?b1)" out] str cut nol tl lens unfolding q_def by auto
    let ?p = "q" and ?out = "out @ text_of (filter (selects pt) ls1)"
    have step: "grep_loop pat buf (int m) ds out =
       (let m2 = (if int ?p = 0 then 0 else int m + int (length got)) in
        if m2 > 0 then rbind (u_memmove b' 0 (int ?p) (m2 - int ?p)) (\<lambda>b3. grep_loop pat b3 (m2 - int ?p) ds1 ?out)
        else grep_loop pat b' m2 ds1 ?out)"
      using b'(1) False rd n set0 by (subst grep_loop.simps) (simp add: Let_def)
    have smaller: "length c1 < length c" using False cc by simp
    have z: "0 \<notin> set (r1 @ c1)"
    proof -
      have "set (r1 @ c1) \<subseteq> set (u @ c)" using cut(2) cc by (metis append.assoc set_append Un_upper2)
      then show ?thesis using inp(10) by blast
    qed
    show ?thesis
    proof (cases "ls1 = []")
      case True
      have "ls = []"
      proof (rule ccontr)
        assume "ls \<noteq> []"
        then have l2: "ls2 \<noteq> []" using cut(1) True by simp
        then have "length (u @ got) + 2 \<le> GREP_BUF" using cut(1,2,4) inp(8) True
          by (metis append_Nil concat.simps(1) hd_in_set list.map(1) add_le_mono1 le_trans)
        then have "length got < n" using inp(3) by (simp add: n_def)
        then have "c1 = []" by (auto simp: got_def c1_def)
        then have "10 \<in> set r1" using cut(3) l2 by (cases ls2) (auto simp: line_def)
        then show False using cut(5) by simp
      qed
      then have u: "u @ c = r" using inp(7) by simp
      have "grep_loop pat b' (int 0) ds1 ?out = Inr (?out @ text_of (filter (selects pt) []))"
        by (rule less.hyps [OF smaller, where u = "[]" and r = c1])
          (use lb b'(2) ds1 u inp(9,10) cc in \<open>auto simp: GREP_BUF_def\<close>)
      then show ?thesis using step True q0 \<open>ls = []\<close> by simp
    next
      case False
      then have p0: "0 < ?p" using q0 by simp
      have total: "m + length got = ?p + length r1" using arg_cong [OF cut(2), of length] inp(3) by (simp add: q_def)
      then have m3: "int m + int (length got) - int ?p = int (length r1)" by simp
      have room2: "?p + length r1 \<le> length b'" using room total b'(2) inp(1) lb by simp
      obtain b3 where b3: "copy_up b' 0 (int ?p) (length r1) = Inr b3" "copied b' 0 (int ?p) (int (length r1)) b3"
        using copy_up_copied [of 0 "int ?p" "length r1" b'] room2 by auto
      have "take (length r1) (drop ?p b') = r1" using b'(3) by (auto simp: is_str_def)
      then have t3: "take (length r1) b3 = r1" using copied_front [OF b3(2) room2] by simp
      have "grep_loop pat b3 (int (length r1)) ds1 ?out = Inr (?out @ text_of (filter (selects pt) ls2))"
        by (rule less.hyps [OF smaller _ t3 refl _ cut(5) ds1 cut(3) _ inp(9) z])
          (use b3(2) b'(2) lb total room inp(1,8) cut(1) in \<open>auto simp: copied_def\<close>)
      then show ?thesis using step p0 b3(1) m3 total cut(1) by (simp add: u_memmove_def Let_def)
    qed
  qed
qed

text \<open>
  C39 (grep_selects_lines): run on a file whose lines fit into the buffer, \<open>grep\<close> writes exactly the lines that
  the pattern selects, in order; \<open>selects\<close> is the declarative meaning of a pattern. What follows
  the last newline is not searched.
\<close>

theorem grep_selects_lines:
  assumes "is_str pat p" and "length buf = GREP_BUF" and "0 \<notin> set (text_of ls @ r)"
    and "\<forall>l \<in> set ls. 10 \<notin> set l \<and> length l + 2 \<le> GREP_BUF" and "10 \<notin> set r"
  shows "grep pat buf [text_of ls @ r] = Inr (text_of (filter (selects p) ls))"
  using grep_loop_spec [OF assms(1,2), of 0 "[]" "[text_of ls @ r]" "text_of ls @ r" ls r "[]"] assms
  by (simp add: grep_def GREP_BUF_def)

lemma grep_selects_lines_witness:
  "grep [94, 97, 46, 42, 36, 0] (replicate 1024 1) [[97, 98, 10, 98, 97, 10, 97, 10, 97]] = Inr [97, 98, 10, 97, 10]"
proof -
  have s: "selects [94, 97, 46, 42, 36] (97 # l)" for l
  proof -
    have "fits [AtEnd] []" by simp
    then have "fits [Many Any, AtEnd] (l @ [])" by (intro fits_many) auto
    then show ?thesis by (simp add: selects_def atom_of_def)
  qed
  have n: "\<not> selects [94, 97, 46, 42, 36] [98, 97]" by (simp add: selects_def atom_of_def)
  show ?thesis
    using grep_selects_lines [of "[94, 97, 46, 42, 36, 0]" "[94, 97, 46, 42, 36]" "replicate 1024 1" "[[97, 98], [98, 97], [97]]" "[97]"]
    by (simp add: is_str_def GREP_BUF_def line_def s n)
qed

text \<open>When a delivery has no newline at all, its bytes are thrown away: the line \<open>ab\<close> is not found
  if the console or a pipe delivers it in two parts.\<close>

lemma grep_loses_partial_line:
  "grep [97, 0] (replicate 1024 1) [[97], [98, 10]] = Inr []"
  "grep [97, 0] (replicate 1024 1) [[97, 98, 10]] = Inr [97, 98, 10]"
  by code_simp+

end
