(* ===== verification/Kalloc.thy ===== *)
theory Kalloc
  imports CString Bytes
begin

text \<open>
  The kernel's page allocator (kalloc.c) over physical memory, with the address arithmetic of mmu.h and memlayout.h.

  Addresses are 32-bit words. Physical memory is a function from page addresses, as the kernel sees them, to the bytes of the
  pages; \<open>bound\<close> is the linker's symbol \<open>end\<close>, the first address behind the kernel. A free page begins with the
  address of the next one. The lock makes each operation one step.
\<close>

type_synonym addr = "32 word"

definition PGSIZE :: nat where "PGSIZE = 4096"
definition PHYSTOP :: addr where "PHYSTOP = 0xE000000"
definition KERNBASE :: addr where "KERNBASE = 0x80000000"

definition V2P :: "addr \<Rightarrow> addr" where "V2P a = a - KERNBASE"
definition P2V :: "addr \<Rightarrow> addr" where "P2V a = a + KERNBASE"

definition PGROUNDUP :: "addr \<Rightarrow> addr" where "PGROUNDUP sz = (sz + 4096 - 1) AND NOT (4096 - 1)"
definition PGROUNDDOWN :: "addr \<Rightarrow> addr" where "PGROUNDDOWN a = a AND NOT (4096 - 1)"

record kmem =
  use_lock :: bool
  freelist :: addr
  pmem :: "addr \<Rightarrow> byte list"

definition kfree :: "addr \<Rightarrow> addr \<Rightarrow> kmem \<Rightarrow> kmem res" where
  "kfree bound v k =
     (if v mod 4096 \<noteq> 0 \<or> v < bound \<or> V2P v \<ge> PHYSTOP then Inl (Panic ''kfree'')
      else
        rbind (memset (pmem k v) 0 1 PGSIZE) (\<lambda>pg.
        rbind (st32 pg 0 (freelist k)) (\<lambda>pg'.
        Inr (k\<lparr>pmem := (pmem k)(v := pg'), freelist := v\<rparr>))))"

definition kalloc :: "kmem \<Rightarrow> (kmem \<times> addr) res" where
  "kalloc k =
     (let r = freelist k in
      if r \<noteq> 0 then rbind (ld32 (pmem k r) 0) (\<lambda>n. Inr (k\<lparr>freelist := n\<rparr>, r))
      else Inr (k, r))"

text \<open>The loop of \<open>freerange\<close>; the fuel is the number of pages of the address space.\<close>

fun free_pages :: "nat \<Rightarrow> addr \<Rightarrow> addr \<Rightarrow> addr \<Rightarrow> kmem \<Rightarrow> kmem res" where
  "free_pages 0 bound p vend k = Inl Hang"
| "free_pages (Suc fuel) bound p vend k =
     (if p + 4096 \<le> vend then rbind (kfree bound p k) (\<lambda>k1. free_pages fuel bound (p + 4096) vend k1) else Inr k)"

definition freerange :: "addr \<Rightarrow> addr \<Rightarrow> addr \<Rightarrow> kmem \<Rightarrow> kmem res" where
  "freerange bound vstart vend k = free_pages (2 ^ 20 + 1) bound (PGROUNDUP vstart) vend k"

definition kinit1 :: "addr \<Rightarrow> addr \<Rightarrow> addr \<Rightarrow> kmem \<Rightarrow> kmem res" where
  "kinit1 bound vstart vend k = freerange bound vstart vend (k\<lparr>use_lock := False\<rparr>)"

definition kinit2 :: "addr \<Rightarrow> addr \<Rightarrow> addr \<Rightarrow> kmem \<Rightarrow> kmem res" where
  "kinit2 bound vstart vend k = rbind (freerange bound vstart vend k) (\<lambda>k1. Inr (k1\<lparr>use_lock := True\<rparr>))"

subsection \<open>The list of free pages\<close>

definition page_ok :: "addr \<Rightarrow> addr \<Rightarrow> bool" where
  "page_ok bound v \<longleftrightarrow> v mod 4096 = 0 \<and> bound \<le> v \<and> V2P v < PHYSTOP \<and> v \<noteq> 0"

text \<open>\<open>free_chain m p ps\<close>: following the links from \<open>p\<close> visits the pages \<open>ps\<close> and ends at the null pointer.\<close>

fun free_chain :: "(addr \<Rightarrow> byte list) \<Rightarrow> addr \<Rightarrow> addr list \<Rightarrow> bool" where
  "free_chain m p [] \<longleftrightarrow> p = 0"
| "free_chain m p (q # qs) \<longleftrightarrow> p = q \<and> length (m q) = PGSIZE \<and> free_chain m (get32 (m q) 0) qs"

definition km_ok :: "addr \<Rightarrow> kmem \<Rightarrow> addr list \<Rightarrow> bool" where
  "km_ok bound k ps \<longleftrightarrow> free_chain (pmem k) (freelist k) ps \<and> distinct ps \<and> (\<forall>p \<in> set ps. page_ok bound p)"

lemma free_chain_other: "v \<notin> set ps \<Longrightarrow> free_chain (m(v := pg)) p ps \<longleftrightarrow> free_chain m p ps"
  by (induction ps arbitrary: p) auto

lemma kfree_spec:
  assumes "page_ok bound v" and "length (pmem k v) = PGSIZE" and "km_ok bound k ps" and "v \<notin> set ps"
  shows "\<exists>k'. kfree bound v k = Inr k' \<and> km_ok bound k' (v # ps) \<and> (\<forall>u. u \<noteq> v \<longrightarrow> pmem k' u = pmem k u) \<and>
    length (pmem k' v) = PGSIZE \<and> drop 4 (pmem k' v) = replicate (PGSIZE - 4) 1"
proof -
  let ?pg = "put32 (replicate PGSIZE 1) 0 (freelist k)"
  have m: "memset (pmem k v) 0 1 PGSIZE = Inr (replicate PGSIZE 1)"
    using memset_stored [of 0 PGSIZE "pmem k v" 1] assms(2) by (simp add: stored_def)
  have s: "st32 (replicate PGSIZE 1) 0 (freelist k) = Inr ?pg"
    using st32_ok [of 0 "replicate PGSIZE 1" "freelist k"] by (simp add: PGSIZE_def)
  let ?k' = "k\<lparr>pmem := (pmem k)(v := ?pg), freelist := v\<rparr>"
  have "kfree bound v k = Inr ?k'" using assms(1) m s by (auto simp: kfree_def page_ok_def)
  moreover have "get32 ?pg 0 = freelist k" by (rule get32_put32) (simp add: PGSIZE_def)
  then have "km_ok bound ?k' (v # ps)" using assms by (auto simp: km_ok_def free_chain_other)
  moreover have "drop 4 ?pg = replicate (PGSIZE - 4) 1"
    by (rule nth_equalityI) (simp_all add: nth_put32_other PGSIZE_def)
  ultimately show ?thesis by auto
qed

definition first_or_null :: "addr list \<Rightarrow> addr" where
  "first_or_null ps = (case ps of [] \<Rightarrow> 0 | p # _ \<Rightarrow> p)"

lemma kalloc_spec:
  assumes "km_ok bound k ps"
  shows "\<exists>k'. kalloc k = Inr (k', first_or_null ps) \<and> km_ok bound k' (drop 1 ps) \<and> pmem k' = pmem k"
proof (cases ps)
  case Nil
  then show ?thesis using assms by (simp add: km_ok_def kalloc_def first_or_null_def)
next
  case (Cons p ps')
  then have "freelist k = p" "p \<noteq> 0" "length (pmem k p) = PGSIZE" "free_chain (pmem k) (get32 (pmem k p) 0) ps'"
    using assms by (auto simp: km_ok_def page_ok_def)
  then show ?thesis using assms Cons ld32_ok [of 0 "pmem k p"]
    by (auto simp: km_ok_def kalloc_def PGSIZE_def first_or_null_def)
qed

subsection \<open>The pages of a range\<close>

lemma unat_plus_page: "unat (p :: addr) + 4096 < 2 ^ 32 \<Longrightarrow> unat (p + 4096) = unat p + 4096"
  by (subst unat_add_lem [THEN iffD1]) auto

text \<open>\<open>pages_from p n\<close>: \<open>n\<close> pages from \<open>p\<close> upwards.\<close>

fun pages_from :: "addr \<Rightarrow> nat \<Rightarrow> addr list" where
  "pages_from p 0 = []"
| "pages_from p (Suc n) = p # pages_from (p + 4096) n"

definition page_count :: "addr \<Rightarrow> addr \<Rightarrow> nat" where
  "page_count p vend = (unat vend - unat p) div 4096"

lemma pages_from_bounds: "unat p + 4096 * n < 2 ^ 32 \<Longrightarrow> q \<in> set (pages_from p n) \<Longrightarrow>
    \<exists>i < n. unat q = unat p + 4096 * i"
proof (induction n arbitrary: p)
  case (Suc n)
  show ?case
  proof (cases "q = p")
    case False
    have u: "unat (p + 4096) = unat p + 4096" by (rule unat_plus_page) (use Suc.prems in auto)
    have "\<exists>i < n. unat q = unat (p + 4096) + 4096 * i" by (rule Suc.IH) (use Suc.prems False u in auto)
    then obtain i where "i < n" "unat q = unat (p + 4096) + 4096 * i" by blast
    then show ?thesis using u by (intro exI [of _ "Suc i"]) auto
  qed auto
qed simp

lemma free_pages_spec:
  assumes "km_ok bound k ps" and "unat p + 4096 * (n + 1) < 2 ^ 32" and "page_count p vend = n" and "n < fuel"
    and "\<forall>q \<in> set (pages_from p n). page_ok bound q \<and> length (pmem k q) = PGSIZE \<and> q \<notin> set ps"
  shows "\<exists>k'. free_pages fuel bound p vend k = Inr k' \<and> km_ok bound k' (rev (pages_from p n) @ ps) \<and>
    (\<forall>u. u \<notin> set (pages_from p n) \<longrightarrow> pmem k' u = pmem k u) \<and> (\<forall>u. length (pmem k u) = PGSIZE \<longrightarrow> length (pmem k' u) = PGSIZE)"
  using assms
proof (induction n arbitrary: p k ps fuel)
  case 0
  then obtain f where f: "fuel = Suc f" by (cases fuel) auto
  have "\<not> p + 4096 \<le> vend"
  proof
    assume le: "p + 4096 \<le> vend"
    have "unat vend < unat p + 4096" using 0(3) by (auto simp: page_count_def)
    moreover have "unat (p + 4096) = unat p + 4096" by (rule unat_plus_page) (use 0(2) in simp)
    ultimately show False using le by (simp add: word_le_nat_alt)
  qed
  then show ?case using 0 f by auto
next
  case (Suc n)
  then obtain f where f: "fuel = Suc f" "n < f" by (cases fuel) auto
  have u: "unat (p + 4096) = unat p + 4096" by (rule unat_plus_page) (use Suc.prems in auto)
  have v: "unat p + 4096 \<le> unat vend" using Suc.prems(3) by (auto simp: page_count_def)
  have le: "p + 4096 \<le> vend" using v u by (simp add: word_le_nat_alt)
  have pc: "page_count (p + 4096) vend = n" using Suc.prems(3) v u by (auto simp: page_count_def)
  obtain k1 where k1: "kfree bound p k = Inr k1" "km_ok bound k1 (p # ps)" "\<forall>u. u \<noteq> p \<longrightarrow> pmem k1 u = pmem k u" "length (pmem k1 p) = PGSIZE"
    using kfree_spec [of bound p k ps] Suc.prems(1,5) by auto
  have np: "p \<notin> set (pages_from (p + 4096) n)"
    using pages_from_bounds [of "p + 4096" n p] u Suc.prems(2) by fastforce
  have rest: "\<forall>q \<in> set (pages_from (p + 4096) n). page_ok bound q \<and> length (pmem k1 q) = PGSIZE \<and> q \<notin> set (p # ps)"
  proof
    fix q assume q: "q \<in> set (pages_from (p + 4096) n)"
    then have "q \<noteq> p" using np by auto
    moreover have "page_ok bound q \<and> length (pmem k q) = PGSIZE \<and> q \<notin> set ps" using Suc.prems(5) q by simp
    ultimately show "page_ok bound q \<and> length (pmem k1 q) = PGSIZE \<and> q \<notin> set (p # ps)" using k1(3) by simp
  qed
  obtain k' where "free_pages f bound (p + 4096) vend k1 = Inr k'" "km_ok bound k' (rev (pages_from (p + 4096) n) @ p # ps)"
      "\<forall>u. u \<notin> set (pages_from (p + 4096) n) \<longrightarrow> pmem k' u = pmem k1 u" "\<forall>u. length (pmem k1 u) = PGSIZE \<longrightarrow> length (pmem k' u) = PGSIZE"
    using Suc.IH [OF k1(2) _ pc f(2) rest] Suc.prems(2) u by auto
  then show ?case using f(1) le k1 by auto
qed

subsection \<open>Clients of the allocator\<close>

text \<open>
  The states of the allocator after \<open>kinit1\<close>, with the pages \<open>held\<close> by the rest of the kernel: it takes pages, writes to the
  pages it holds, and gives back pages it holds.
\<close>

inductive km_reach :: "addr \<Rightarrow> kmem \<Rightarrow> kmem \<Rightarrow> addr list \<Rightarrow> bool" for bound k0 where
  km_start: "km_reach bound k0 k0 []"
| km_alloc: "km_reach bound k0 k held \<Longrightarrow> kalloc k = Inr (k', p) \<Longrightarrow> km_reach bound k0 k' (if p = 0 then held else p # held)"
| km_write: "km_reach bound k0 k held \<Longrightarrow> p \<in> set held \<Longrightarrow> length pg = PGSIZE \<Longrightarrow>
    km_reach bound k0 (k\<lparr>pmem := (pmem k)(p := pg)\<rparr>) held"
| km_free: "km_reach bound k0 k held \<Longrightarrow> p \<in> set held \<Longrightarrow> kfree bound p k = Inr k' \<Longrightarrow> km_reach bound k0 k' (remove1 p held)"

lemma km_ok_write: "p \<notin> set ps \<Longrightarrow> km_ok bound k ps \<Longrightarrow> km_ok bound (k\<lparr>pmem := (pmem k)(p := pg)\<rparr>) ps"
  by (auto simp: km_ok_def free_chain_other)

lemma km_reach_inv:
  assumes "km_ok bound k0 ps0" and "km_reach bound k0 k held"
  shows "\<exists>ps. km_ok bound k ps \<and> distinct (ps @ held) \<and> set ps \<union> set held = set ps0 \<and> (\<forall>p \<in> set held. length (pmem k p) = PGSIZE)"
  using assms(2)
proof (induction rule: km_reach.induct)
  case km_start
  then show ?case using assms(1) by (auto simp: km_ok_def)
next
  case (km_alloc k held k' p)
  then obtain ps where ps: "km_ok bound k ps" "distinct (ps @ held)" "set ps \<union> set held = set ps0" "\<forall>p \<in> set held. length (pmem k p) = PGSIZE" by blast
  obtain k1 where k1: "kalloc k = Inr (k1, first_or_null ps)" "km_ok bound k1 (drop 1 ps)" "pmem k1 = pmem k" using kalloc_spec [OF ps(1)] by blast
  then have k': "k' = k1" "p = first_or_null ps" using km_alloc(2) by auto
  show ?case
  proof (cases ps)
    case Nil
    then show ?thesis using ps k1 k' by (auto simp: first_or_null_def)
  next
    case (Cons q ps')
    then have "q \<noteq> 0" "length (pmem k q) = PGSIZE" using ps(1) by (auto simp: km_ok_def page_ok_def)
    then show ?thesis using ps k1 k' Cons by (intro exI [of _ ps']) (auto simp: first_or_null_def)
  qed
next
  case (km_write k held p pg)
  then obtain ps where ps: "km_ok bound k ps" "distinct (ps @ held)" "set ps \<union> set held = set ps0" "\<forall>p \<in> set held. length (pmem k p) = PGSIZE" by blast
  then have "km_ok bound (k\<lparr>pmem := (pmem k)(p := pg)\<rparr>) ps" using km_write(2) by (intro km_ok_write) auto
  then show ?case using ps km_write(3) by auto
next
  case (km_free k held p k')
  then obtain ps where ps: "km_ok bound k ps" "distinct (ps @ held)" "set ps \<union> set held = set ps0" "\<forall>p \<in> set held. length (pmem k p) = PGSIZE" by blast
  have "page_ok bound p" using assms(1) ps(3) km_free(2) by (auto simp: km_ok_def)
  moreover have "p \<notin> set ps" using ps(2) km_free(2) by auto
  ultimately have "km_ok bound k' (p # ps)" "\<forall>u. u \<noteq> p \<longrightarrow> pmem k' u = pmem k u"
    using kfree_spec [of bound p k ps] ps(1,4) km_free(2,3) by auto
  moreover have "distinct ((p # ps) @ remove1 p held)" using ps(2) km_free(2) by (auto simp: distinct_remove1)
  moreover have "set (p # ps) \<union> set (remove1 p held) = set ps0" using ps(2,3) km_free(2) by (auto simp: set_remove1_eq)
  ultimately show ?case using ps(2,4) by (intro exI [of _ "p # ps"]) (auto simp: set_remove1_eq)
qed

subsection \<open>Start-up\<close>

lemma PGROUNDUP_page: "PGROUNDUP a mod 4096 = 0"
proof -
  have "PGROUNDUP a AND mask 12 = 0" unfolding PGROUNDUP_def
    by (rule bit_word_eqI) (auto simp: bit_simps mask_eq_exp_minus_1)
  then show ?thesis by (simp add: take_bit_eq_mask [symmetric] take_bit_eq_mod)
qed

lemma word_page_unat: "(a :: addr) mod 4096 = 0 \<longleftrightarrow> unat a mod 4096 = 0"
proof -
  have "unat (a mod 4096) = unat a mod 4096" by (simp add: unat_mod)
  then show ?thesis by (metis unat_eq_zero)
qed

text \<open>A range of memory that \<open>kinit1\<close> may be given: behind the kernel, below the end of physical memory.\<close>

definition good_range :: "addr \<Rightarrow> addr \<Rightarrow> addr \<Rightarrow> bool" where
  "good_range bound vstart vend \<longleftrightarrow> KERNBASE \<le> bound \<and> 0 < bound \<and> bound \<le> PGROUNDUP vstart \<and> vend \<le> P2V PHYSTOP \<and> PGROUNDUP vstart \<le> P2V PHYSTOP"

definition range_pages :: "addr \<Rightarrow> addr \<Rightarrow> addr list" where
  "range_pages vstart vend = pages_from (PGROUNDUP vstart) (page_count (PGROUNDUP vstart) vend)"

lemma range_page_ok:
  assumes "good_range bound vstart vend" and "q \<in> set (range_pages vstart vend)"
  shows "page_ok bound q"
proof -
  let ?p = "PGROUNDUP vstart" and ?n = "page_count (PGROUNDUP vstart) vend"
  have top: "unat (P2V PHYSTOP) = 0x8E000000" by (simp add: P2V_def PHYSTOP_def KERNBASE_def)
  have g: "unat ?p \<le> 0x8E000000" "unat vend \<le> 0x8E000000" "unat bound \<le> unat ?p" "0x80000000 \<le> unat bound"
    using assms(1) top by (simp_all add: good_range_def word_le_nat_alt KERNBASE_def)
  have n: "4096 * ?n \<le> unat vend - unat ?p" by (simp add: page_count_def)
  have "unat ?p + 4096 * ?n < 2 ^ 32" using n g by simp
  then obtain i where i: "i < ?n" "unat q = unat ?p + 4096 * i"
    using pages_from_bounds [of ?p ?n q] assms(2) by (auto simp: range_pages_def)
  have q: "unat q < 0x8E000000" using i n g by linarith
  have "unat ?p mod 4096 = 0" using PGROUNDUP_page word_page_unat by blast
  then have "q mod 4096 = 0" using i(2) word_page_unat by simp
  moreover have b: "bound \<le> q" using i(2) g(3) by (simp add: word_le_nat_alt)
  moreover have "V2P q < PHYSTOP"
  proof -
    have "KERNBASE \<le> q" using assms(1) order_trans [OF _ b] by (simp add: good_range_def)
    then have "unat (V2P q) = unat q - 0x80000000" by (simp add: V2P_def unat_sub KERNBASE_def)
    then show ?thesis using q by (simp add: word_less_nat_alt PHYSTOP_def)
  qed
  moreover have "q \<noteq> 0" using assms(1) b by (auto simp: good_range_def)
  ultimately show ?thesis by (simp add: page_ok_def)
qed

lemma kinit1_spec:
  assumes "good_range bound vstart vend" and "freelist k0 = 0" and "\<And>v. length (pmem k0 v) = PGSIZE"
  shows "\<exists>k. kinit1 bound vstart vend k0 = Inr k \<and> km_ok bound k (rev (range_pages vstart vend)) \<and> (\<forall>v. length (pmem k v) = PGSIZE) \<and>
    (\<forall>v. v \<notin> set (range_pages vstart vend) \<longrightarrow> pmem k v = pmem k0 v)"
proof -
  let ?p = "PGROUNDUP vstart" and ?n = "page_count (PGROUNDUP vstart) vend"
  have top: "unat (P2V PHYSTOP) = 0x8E000000" by (simp add: P2V_def PHYSTOP_def KERNBASE_def)
  have g: "unat ?p \<le> 0x8E000000" "unat vend \<le> 0x8E000000" "0x80000000 \<le> unat ?p"
    using assms(1) top order_trans [of KERNBASE bound ?p] by (simp_all add: good_range_def word_le_nat_alt KERNBASE_def)
  have n: "4096 * ?n \<le> unat vend - unat ?p" by (simp add: page_count_def)
  have "km_ok bound (k0\<lparr>use_lock := False\<rparr>) []" using assms(2) by (simp add: km_ok_def)
  moreover have "unat ?p + 4096 * (?n + 1) < 2 ^ 32" using n g by simp
  moreover have "?n < 2 ^ 20 + 1" using n g by simp
  moreover have "\<forall>q \<in> set (pages_from ?p ?n). page_ok bound q \<and> length (pmem (k0\<lparr>use_lock := False\<rparr>) q) = PGSIZE \<and> q \<notin> set []"
    using range_page_ok [OF assms(1)] assms(3) by (simp add: range_pages_def)
  ultimately show ?thesis
    using free_pages_spec [of bound "k0\<lparr>use_lock := False\<rparr>" "[]" ?p ?n vend "2 ^ 20 + 1"] assms(3)
    by (fastforce simp: kinit1_def freerange_def range_pages_def)
qed

text \<open>
  C15 (page_allocator_safe): after \<open>kinit1\<close>, whatever its clients do, the pages they hold are distinct pages of the range, any of
  them can be given back, and \<open>kalloc\<close> returns a page of the range that nobody holds without touching memory; it returns the
  null pointer exactly when every page of the range is held.
\<close>

theorem page_allocator_safe:
  assumes "good_range bound vstart vend" and "freelist k0 = 0" and "\<And>v. length (pmem k0 v) = PGSIZE"
    and "kinit1 bound vstart vend k0 = Inr k1" and "km_reach bound k1 k held"
  shows "distinct held \<and> set held \<subseteq> set (range_pages vstart vend) \<and>
    (\<forall>p \<in> set held. \<exists>k'. kfree bound p k = Inr k') \<and>
    (case kalloc k of Inl e \<Rightarrow> False
     | Inr (k', p) \<Rightarrow> pmem k' = pmem k \<and> (if set held = set (range_pages vstart vend) then p = 0
         else p \<in> set (range_pages vstart vend) - set held))"
proof -
  obtain ps where ps: "km_ok bound k ps" "distinct (ps @ held)" "set ps \<union> set held = set (range_pages vstart vend)"
      "\<forall>p \<in> set held. length (pmem k p) = PGSIZE"
    using km_reach_inv [of bound k1 "rev (range_pages vstart vend)" k held] kinit1_spec [OF assms(1-3)] assms(4,5) by auto
  have "\<exists>k'. kfree bound p k = Inr k'" if "p \<in> set held" for p
    using kfree_spec [of bound p k ps] ps that range_page_ok [OF assms(1)] by (metis UnI2 disjoint_iff distinct_append)
  moreover obtain k' where "kalloc k = Inr (k', first_or_null ps)" "pmem k' = pmem k" using kalloc_spec [OF ps(1)] by blast
  moreover have "set held = set (range_pages vstart vend) \<longleftrightarrow> ps = []" using ps(2,3) by (cases ps) auto
  ultimately show ?thesis using ps(2,3) by (cases ps) (simp_all add: first_or_null_def, blast)
qed

definition demo_mem :: kmem where
  "demo_mem = \<lparr>use_lock = True, freelist = 0, pmem = (\<lambda>_. replicate PGSIZE 0)\<rparr>"

lemma demo_range: "good_range 0x80100400 0x80100401 0x80103000"
  by (simp add: good_range_def KERNBASE_def PGROUNDUP_def P2V_def PHYSTOP_def)

lemma demo_pages: "range_pages 0x80100401 0x80103000 = [0x80101000, 0x80102000]"
proof -
  have "PGROUNDUP 0x80100401 = 0x80101000" by (simp add: PGROUNDUP_def)
  moreover have "page_count 0x80101000 0x80103000 = Suc (Suc 0)" by (simp add: page_count_def)
  ultimately show ?thesis by (simp add: range_pages_def)
qed

lemma page_allocator_safe_witness:
  "\<exists>k1 k2 k3 k4. kinit1 0x80100400 0x80100401 0x80103000 demo_mem = Inr k1 \<and> kalloc k1 = Inr (k2, 0x80102000) \<and>
     kalloc k2 = Inr (k3, 0x80101000) \<and> kalloc k3 = Inr (k4, 0) \<and> (\<exists>k5. kfree 0x80100400 0x80102000 k4 = Inr k5)"
proof -
  let ?b = "0x80100400 :: addr"
  obtain k1 where k1: "kinit1 ?b 0x80100401 0x80103000 demo_mem = Inr k1" "km_ok ?b k1 [0x80102000, 0x80101000]"
    using kinit1_spec [OF demo_range, of demo_mem] by (auto simp: demo_mem_def demo_pages)
  obtain k2 where k2: "kalloc k1 = Inr (k2, 0x80102000)" "km_ok ?b k2 [0x80101000]"
    using kalloc_spec [OF k1(2)] by (auto simp: first_or_null_def)
  have r2: "km_reach ?b k1 k2 [0x80102000]" using km_alloc [OF km_start k2(1), of ?b] by simp
  note safe = page_allocator_safe [OF demo_range, of demo_mem k1, unfolded demo_pages, OF _ _ k1(1)]
  obtain k3 where k3: "kalloc k2 = Inr (k3, 0x80101000)"
    using safe [OF _ _ r2] by (auto simp: demo_mem_def split: sum.splits)
  have r3: "km_reach ?b k1 k3 [0x80101000, 0x80102000]" using km_alloc [OF r2 k3] by simp
  obtain k4 where k4: "kalloc k3 = Inr (k4, 0)"
    using safe [OF _ _ r3] by (auto simp: demo_mem_def insert_commute split: sum.splits)
  have r4: "km_reach ?b k1 k4 [0x80101000, 0x80102000]" using km_alloc [OF r3 k4] by simp
  then have "\<exists>k5. kfree ?b 0x80102000 k4 = Inr k5" using safe [OF _ _ r4] by (auto simp: demo_mem_def)
  then show ?thesis using k1(1) k2(1) k3 k4 by blast
qed

end
