(* ===== verification/VM.thy ===== *)
theory VM
  imports Kalloc
begin

text \<open>
  Page tables (vm.c) over the page allocator: a page directory and its page tables are pages of physical memory, read and
  written word by word at kernel addresses. A pointer to an entry is its address, the null pointer 0.

  \<open>dataseg\<close> is the linker's symbol \<open>data\<close>, where the kernel's writable data begin. \<open>readi\<close>, called by \<open>loaduvm\<close>, is a parameter
  that gives the bytes read.
\<close>

definition PDX :: "addr \<Rightarrow> addr" where "PDX va = drop_bit 22 va AND 0x3FF"
definition PTX :: "addr \<Rightarrow> addr" where "PTX va = drop_bit 12 va AND 0x3FF"
definition PGADDR :: "addr \<Rightarrow> addr \<Rightarrow> addr \<Rightarrow> addr" where "PGADDR d t c = push_bit 22 d OR push_bit 12 t OR c"

definition PTE_P :: addr where "PTE_P = 1"
definition PTE_W :: addr where "PTE_W = 2"
definition PTE_U :: addr where "PTE_U = 4"
definition PTE_ADDR :: "addr \<Rightarrow> addr" where "PTE_ADDR pte = pte AND NOT 0xFFF"
definition PTE_FLAGS :: "addr \<Rightarrow> addr" where "PTE_FLAGS pte = pte AND 0xFFF"

definition EXTMEM :: addr where "EXTMEM = 0x100000"
definition DEVSPACE :: addr where "DEVSPACE = 0xFC000000"
definition KERNLINK :: addr where "KERNLINK = KERNBASE + EXTMEM"

subsection \<open>Memory at an address\<close>

definition page_of :: "addr \<Rightarrow> addr" where "page_of a = a AND NOT 0xFFF"

definition rd_word :: "kmem \<Rightarrow> addr \<Rightarrow> addr res" where
  "rd_word k a = ld32 (pmem k (page_of a)) (uint (a AND 0xFFF))"

definition wr_word :: "kmem \<Rightarrow> addr \<Rightarrow> addr \<Rightarrow> kmem res" where
  "wr_word k a w = rbind (st32 (pmem k (page_of a)) (uint (a AND 0xFFF)) w) (\<lambda>pg. Inr (k\<lparr>pmem := (pmem k)(page_of a := pg)\<rparr>))"

definition clear_page :: "kmem \<Rightarrow> addr \<Rightarrow> kmem res" where
  "clear_page k v = rbind (memset (pmem k v) 0 0 PGSIZE) (\<lambda>pg. Inr (k\<lparr>pmem := (pmem k)(v := pg)\<rparr>))"

text \<open>\<open>memmove\<close> of bytes from elsewhere into the page \<open>v\<close> from offset \<open>off\<close> on.\<close>

definition put_bytes :: "kmem \<Rightarrow> addr \<Rightarrow> nat \<Rightarrow> byte list \<Rightarrow> kmem res" where
  "put_bytes k v off bs =
     (if off + length bs \<le> length (pmem k v) then Inr (k\<lparr>pmem := (pmem k)(v := stored (pmem k v) off bs)\<rparr>) else Inl OutOfBounds)"

subsection \<open>Walking and mapping\<close>

definition walkpgdir :: "addr \<Rightarrow> addr \<Rightarrow> bool \<Rightarrow> kmem \<Rightarrow> (kmem \<times> addr) res" where
  "walkpgdir pgdir va alloc k =
     rbind (rd_word k (pgdir + 4 * PDX va)) (\<lambda>pde.
     if pde AND PTE_P \<noteq> 0 then Inr (k, P2V (PTE_ADDR pde) + 4 * PTX va)
     else if \<not> alloc then Inr (k, 0)
     else rbind (kalloc k) (\<lambda>(k1, pgtab).
       if pgtab = 0 then Inr (k1, 0)
       else rbind (clear_page k1 pgtab) (\<lambda>k2.
         rbind (wr_word k2 (pgdir + 4 * PDX va) (V2P pgtab OR PTE_P OR PTE_W OR PTE_U)) (\<lambda>k3.
         Inr (k3, pgtab + 4 * PTX va)))))"

fun map_loop :: "nat \<Rightarrow> addr \<Rightarrow> addr \<Rightarrow> addr \<Rightarrow> addr \<Rightarrow> addr \<Rightarrow> kmem \<Rightarrow> (kmem \<times> int) res" where
  "map_loop 0 pgdir a lst pa perm k = Inl Hang"
| "map_loop (Suc fuel) pgdir a lst pa perm k =
     rbind (walkpgdir pgdir a True k) (\<lambda>(k1, pte).
     if pte = 0 then Inr (k1, -1)
     else rbind (rd_word k1 pte) (\<lambda>e.
       if e AND PTE_P \<noteq> 0 then Inl (Panic ''remap'')
       else rbind (wr_word k1 pte (pa OR perm OR PTE_P)) (\<lambda>k2.
         if a = lst then Inr (k2, 0)
         else map_loop fuel pgdir (a + 4096) lst (pa + 4096) perm k2)))"

definition mappages :: "addr \<Rightarrow> addr \<Rightarrow> addr \<Rightarrow> addr \<Rightarrow> addr \<Rightarrow> kmem \<Rightarrow> (kmem \<times> int) res" where
  "mappages pgdir va sz pa perm k = map_loop (2 ^ 20) pgdir (PGROUNDDOWN va) (PGROUNDDOWN (va + sz - 1)) pa perm k"

subsection \<open>User memory\<close>

function dealloc_loop :: "addr \<Rightarrow> addr \<Rightarrow> addr \<Rightarrow> nat \<Rightarrow> addr \<Rightarrow> kmem \<Rightarrow> kmem res" where
  "dealloc_loop bound pgdir a fuel oldsz k =
     (if fuel = 0 then Inl Hang
      else if a < oldsz then
        rbind (walkpgdir pgdir a False k) (\<lambda>(k1, pte).
        if pte = 0 then dealloc_loop bound pgdir (PGADDR (PDX a + 1) 0 0 - 4096 + 4096) (fuel - 1) oldsz k1
        else rbind (rd_word k1 pte) (\<lambda>e.
          if e AND PTE_P \<noteq> 0 then
            let pa = PTE_ADDR e in
            if pa = 0 then Inl (Panic ''kfree'')
            else rbind (kfree bound (P2V pa) k1) (\<lambda>k2. rbind (wr_word k2 pte 0) (\<lambda>k3.
              dealloc_loop bound pgdir (a + 4096) (fuel - 1) oldsz k3))
          else dealloc_loop bound pgdir (a + 4096) (fuel - 1) oldsz k1))
      else Inr k)"
  by pat_completeness auto
termination by (relation "measure (\<lambda>(bound, pgdir, a, fuel, oldsz, k). fuel)") auto

declare dealloc_loop.simps [simp del]

definition deallocuvm :: "addr \<Rightarrow> addr \<Rightarrow> addr \<Rightarrow> addr \<Rightarrow> kmem \<Rightarrow> (kmem \<times> addr) res" where
  "deallocuvm bound pgdir oldsz newsz k =
     (if newsz \<ge> oldsz then Inr (k, oldsz)
      else rbind (dealloc_loop bound pgdir (PGROUNDUP newsz) (2 ^ 20 + 1) oldsz k) (\<lambda>k1. Inr (k1, newsz)))"

text \<open>One turn of \<open>allocuvm\<close>'s loop, and the loop.\<close>

fun alloc_loop :: "nat \<Rightarrow> addr \<Rightarrow> addr \<Rightarrow> addr \<Rightarrow> addr \<Rightarrow> addr \<Rightarrow> kmem \<Rightarrow> (kmem \<times> addr) res" where
  "alloc_loop 0 bound pgdir a oldsz newsz k = Inl Hang"
| "alloc_loop (Suc fuel) bound pgdir a oldsz newsz k =
     (if a < newsz then
        rbind (kalloc k) (\<lambda>(k1, mem).
        if mem = 0 then rbind (deallocuvm bound pgdir newsz oldsz k1) (\<lambda>(k2, _). Inr (k2, 0))
        else rbind (clear_page k1 mem) (\<lambda>k2.
          rbind (mappages pgdir a 4096 (V2P mem) (PTE_W OR PTE_U) k2) (\<lambda>(k3, r).
          if r < 0 then
            rbind (deallocuvm bound pgdir newsz oldsz k3) (\<lambda>(k4, _).
            rbind (kfree bound mem k4) (\<lambda>k5. Inr (k5, 0)))
          else alloc_loop fuel bound pgdir (a + 4096) oldsz newsz k3)))
      else Inr (k, newsz))"

definition allocuvm :: "addr \<Rightarrow> addr \<Rightarrow> addr \<Rightarrow> addr \<Rightarrow> kmem \<Rightarrow> (kmem \<times> addr) res" where
  "allocuvm bound pgdir oldsz newsz k =
     (if newsz \<ge> KERNBASE then Inr (k, 0)
      else if newsz < oldsz then Inr (k, oldsz)
      else alloc_loop (2 ^ 20 + 1) bound pgdir (PGROUNDUP oldsz) oldsz newsz k)"

definition freevm :: "addr \<Rightarrow> addr \<Rightarrow> kmem \<Rightarrow> kmem res" where
  "freevm bound pgdir k =
     (if pgdir = 0 then Inl (Panic ''freevm: no pgdir'')
      else rbind (deallocuvm bound pgdir KERNBASE 0 k) (\<lambda>(k1, _).
        rbind (for_each (\<lambda>i k. rbind (rd_word k (pgdir + 4 * of_nat i)) (\<lambda>pde.
            if pde AND PTE_P \<noteq> 0 then cont_res (kfree bound (P2V (PTE_ADDR pde)) k) else cont k)) [0..<1024] k1) (\<lambda>k2.
        kfree bound pgdir k2)))"

subsection \<open>New page tables\<close>

text \<open>The kernel's mappings: virtual address, first physical address, end, permissions.\<close>

definition kmap :: "addr \<Rightarrow> (addr \<times> addr \<times> addr \<times> addr) list" where
  "kmap dataseg =
     [(KERNBASE, 0, EXTMEM, PTE_W),
      (KERNLINK, V2P KERNLINK, V2P dataseg, 0),
      (dataseg, V2P dataseg, PHYSTOP, PTE_W),
      (DEVSPACE, DEVSPACE, 0, PTE_W)]"

fun map_all :: "addr \<Rightarrow> addr \<Rightarrow> (addr \<times> addr \<times> addr \<times> addr) list \<Rightarrow> kmem \<Rightarrow> (kmem \<times> addr) res" where
  "map_all bound pgdir [] k = Inr (k, pgdir)"
| "map_all bound pgdir ((v, s, e, perm) # ms) k =
     rbind (mappages pgdir v (e - s) s perm k) (\<lambda>(k1, r).
     if r < 0 then rbind (freevm bound pgdir k1) (\<lambda>k2. Inr (k2, 0)) else map_all bound pgdir ms k1)"

definition setupkvm :: "addr \<Rightarrow> addr \<Rightarrow> kmem \<Rightarrow> (kmem \<times> addr) res" where
  "setupkvm bound dataseg k =
     rbind (kalloc k) (\<lambda>(k1, pgdir).
     if pgdir = 0 then Inr (k1, 0)
     else rbind (clear_page k1 pgdir) (\<lambda>k2.
       if P2V PHYSTOP > DEVSPACE then Inl (Panic ''PHYSTOP too high'')
       else map_all bound pgdir (kmap dataseg) k2))"

definition inituvm :: "addr \<Rightarrow> byte list \<Rightarrow> kmem \<Rightarrow> kmem res" where
  "inituvm pgdir init k =
     (if length init \<ge> PGSIZE then Inl (Panic ''inituvm: more than a page'')
      else rbind (kalloc k) (\<lambda>(k1, mem).
        rbind (if mem = 0 then Inl OutOfBounds else clear_page k1 mem) (\<lambda>k2.
        rbind (mappages pgdir 0 4096 (V2P mem) (PTE_W OR PTE_U) k2) (\<lambda>(k3, _).
        put_bytes k3 mem 0 init))))"

fun load_loop :: "(nat \<Rightarrow> nat \<Rightarrow> 'f \<Rightarrow> ('f \<times> byte list) res) \<Rightarrow> nat \<Rightarrow> addr \<Rightarrow> addr \<Rightarrow> nat \<Rightarrow> nat \<Rightarrow> nat \<Rightarrow> 'f \<Rightarrow> kmem \<Rightarrow>
    ('f \<times> kmem \<times> int) res" where
  "load_loop readi 0 pgdir adr off sz i f k = Inl Hang"
| "load_loop readi (Suc fuel) pgdir adr off sz i f k =
     (if i < sz then
        rbind (walkpgdir pgdir (adr + of_nat i) False k) (\<lambda>(k1, pte).
        if pte = 0 then Inl (Panic ''loaduvm: address should exist'')
        else rbind (rd_word k1 pte) (\<lambda>e.
          let n = (if sz - i < PGSIZE then sz - i else PGSIZE) in
          rbind (readi (off + i) n f) (\<lambda>(f1, bs).
          rbind (put_bytes k1 (P2V (PTE_ADDR e)) 0 bs) (\<lambda>k2.
          if length bs \<noteq> n then Inr (f1, k2, -1)
          else load_loop readi fuel pgdir adr off sz (i + PGSIZE) f1 k2))))
      else Inr (f, k, 0))"

definition loaduvm :: "(nat \<Rightarrow> nat \<Rightarrow> 'f \<Rightarrow> ('f \<times> byte list) res) \<Rightarrow> addr \<Rightarrow> addr \<Rightarrow> nat \<Rightarrow> nat \<Rightarrow> 'f \<Rightarrow> kmem \<Rightarrow> ('f \<times> kmem \<times> int) res" where
  "loaduvm readi pgdir adr off sz f k =
     (if adr mod 4096 \<noteq> 0 then Inl (Panic ''loaduvm: addr must be page aligned'')
      else load_loop readi (Suc sz) pgdir adr off sz 0 f k)"

definition clearpteu :: "addr \<Rightarrow> addr \<Rightarrow> kmem \<Rightarrow> kmem res" where
  "clearpteu pgdir uva k =
     rbind (walkpgdir pgdir uva False k) (\<lambda>(k1, pte).
     if pte = 0 then Inl (Panic ''clearpteu'')
     else rbind (rd_word k1 pte) (\<lambda>e. wr_word k1 pte (e AND NOT PTE_U)))"

fun copy_loop :: "nat \<Rightarrow> addr \<Rightarrow> addr \<Rightarrow> addr \<Rightarrow> addr \<Rightarrow> addr \<Rightarrow> kmem \<Rightarrow> (kmem \<times> addr) res" where
  "copy_loop 0 bound pgdir d i sz k = Inl Hang"
| "copy_loop (Suc fuel) bound pgdir d i sz k =
     (if i < sz then
        rbind (walkpgdir pgdir i False k) (\<lambda>(k1, pte).
        if pte = 0 then Inl (Panic ''copyuvm: pte should exist'')
        else rbind (rd_word k1 pte) (\<lambda>e.
          if e AND PTE_P = 0 then Inl (Panic ''copyuvm: page not present'')
          else rbind (kalloc k1) (\<lambda>(k2, mem).
            if mem = 0 then rbind (freevm bound d k2) (\<lambda>k3. Inr (k3, 0))
            else rbind (put_bytes k2 mem 0 (take PGSIZE (pmem k2 (P2V (PTE_ADDR e))))) (\<lambda>k3.
              rbind (mappages d i 4096 (V2P mem) (PTE_FLAGS e) k3) (\<lambda>(k4, r).
              if r < 0 then rbind (kfree bound mem k4) (\<lambda>k5. rbind (freevm bound d k5) (\<lambda>k6. Inr (k6, 0)))
              else copy_loop fuel bound pgdir d (i + 4096) sz k4)))))
      else Inr (k, d))"

definition copyuvm :: "addr \<Rightarrow> addr \<Rightarrow> addr \<Rightarrow> addr \<Rightarrow> kmem \<Rightarrow> (kmem \<times> addr) res" where
  "copyuvm bound dataseg pgdir sz k =
     rbind (setupkvm bound dataseg k) (\<lambda>(k1, d).
     if d = 0 then Inr (k1, 0) else copy_loop (2 ^ 20 + 1) bound pgdir d 0 sz k1)"

subsection \<open>Access to user memory\<close>

text \<open>\<open>uva2ka\<close> reads the entry without a test for the null pointer that \<open>walkpgdir\<close> returns.\<close>

definition uva2ka :: "addr \<Rightarrow> addr \<Rightarrow> kmem \<Rightarrow> addr res" where
  "uva2ka pgdir uva k =
     rbind (walkpgdir pgdir uva False k) (\<lambda>(k1, pte).
     rbind (if pte = 0 then Inl OutOfBounds else rd_word k1 pte) (\<lambda>e.
     if e AND PTE_P = 0 then Inr 0
     else if e AND PTE_U = 0 then Inr 0
     else Inr (P2V (PTE_ADDR e))))"

lemma page_split: "(a :: addr) = (a AND NOT 0xFFF) + (a AND 0xFFF)"
proof -
  have "(a AND NOT 0xFFF) AND (a AND 0xFFF) = 0" by (rule bit_word_eqI) (auto simp: bit_simps)
  moreover have "(a AND NOT 0xFFF) OR (a AND 0xFFF) = a" by (rule bit_word_eqI) (auto simp: bit_simps)
  ultimately show ?thesis using word_plus_and_or [of "a AND NOT 0xFFF" "a AND 0xFFF"] by simp
qed

lemma offset_mod: "(a :: addr) AND 0xFFF = a mod 4096"
  using take_bit_eq_mask [of 12 a] take_bit_eq_mod [of 12 a] by (simp add: mask_eq_exp_minus_1)

lemma unat_offset: "unat ((a :: addr) AND 0xFFF) < 4096"
  by (simp add: offset_mod unat_mod)

lemma page_offset: "va - PGROUNDDOWN va = va AND 0xFFF"
  using page_split [of va] by (simp add: PGROUNDDOWN_def algebra_simps)

lemma room_pos: "0 < PGSIZE - unat (va - PGROUNDDOWN va)"
  using unat_offset [of va] by (simp add: page_offset PGSIZE_def)

function copyout :: "addr \<Rightarrow> addr \<Rightarrow> byte list \<Rightarrow> kmem \<Rightarrow> (kmem \<times> int) res" where
  "copyout pgdir va buf k =
     (if buf = [] then Inr (k, 0)
      else
        let va0 = PGROUNDDOWN va in
        rbind (uva2ka pgdir va0 k) (\<lambda>pa0.
        if pa0 = 0 then Inr (k, -1)
        else
          let room = PGSIZE - unat (va - va0); n = (if room > length buf then length buf else room) in
          rbind (put_bytes k pa0 (unat (va - va0)) (take n buf)) (\<lambda>k1.
            copyout pgdir (va0 + 4096) (drop n buf) k1)))"
  by pat_completeness auto
termination by (relation "measure (\<lambda>(pgdir, va, buf, k). length buf)") (use room_pos in auto)

declare copyout.simps [simp del]

end
