(* ===== verification/VM_Correct.thy ===== *)
theory VM_Correct
  imports VM
begin

text \<open>
  Page tables as functions: \<open>vpte k d a\<close> is the entry that translates the address \<open>a\<close> in the page directory \<open>d\<close>, 0 when there is
  no page table for it; \<open>pt_ok\<close> is the invariant of a page directory and its tables beside the free pages.
\<close>

subsection \<open>Aligned addresses\<close>

lemma aligned_plus:
  assumes "d AND 0xFFF = 0" and "y AND NOT 0xFFF = (0 :: addr)"
  shows "page_of (d + y) = d" and "(d + y) AND 0xFFF = y"
proof -
  have d: "d AND NOT 0xFFF = d" using page_split [of d] assms(1) by simp
  have y: "y AND 0xFFF = y" using page_split [of y] assms(2) by simp
  have "(d AND NOT 0xFFF) AND (y AND 0xFFF) = 0" by (rule bit_word_eqI) (auto simp: bit_simps)
  then have "d AND y = 0" by (simp only: d y)
  then have "d + y = d OR y" using word_plus_and_or [of d y] by simp
  then show "page_of (d + y) = d" "(d + y) AND 0xFFF = y"
    using assms d y by (simp_all add: page_of_def bit.conj_disj_distrib2)
qed

lemma small_word: assumes "unat (x :: addr) < 4096" shows "x AND NOT 0xFFF = 0"
proof -
  have "unat (x mod 4096) = unat x" using assms by (simp add: unat_mod)
  then have "x AND 0xFFF = x" by (simp only: offset_mod word_unat_eq_iff)
  then show ?thesis using page_split [of x] by simp
qed

lemma low_mask: "(0xFFF :: addr) = mask 12" "(0x3FF :: addr) = mask 10"
  by (simp_all add: mask_eq_exp_minus_1)

definition pdx :: "addr \<Rightarrow> nat" where "pdx va = unat (PDX va)"
definition ptx :: "addr \<Rightarrow> nat" where "ptx va = unat (PTX va)"

lemma index_bounds [simp]: "pdx va < 1024" "ptx va < 1024"
proof -
  have "x AND 0x3FF = x mod 1024" for x :: addr
    using take_bit_eq_mask [of 10 x] take_bit_eq_mod [of 10 x] by (simp add: mask_eq_exp_minus_1)
  then show "pdx va < 1024" "ptx va < 1024" by (simp_all add: pdx_def ptx_def PDX_def PTX_def unat_mod)
qed

lemma index_words: "PDX va = of_nat (pdx va)" "PTX va = of_nat (ptx va)"
  by (simp_all add: pdx_def ptx_def)

lemma same_page: "page_of a = page_of b \<longleftrightarrow> pdx a = pdx b \<and> ptx a = ptx b"
proof
  assume h: "page_of a = page_of b"
  have "bit a n = bit b n" if "12 \<le> n" "n < 32" for n
  proof -
    have "bit (page_of a) n = bit a n" "bit (page_of b) n = bit b n" using that by (simp_all add: page_of_def low_mask bit_simps)
    then show ?thesis using h by simp
  qed
  then have "PDX a = PDX b" "PTX a = PTX b" by (auto intro!: bit_word_eqI simp: PDX_def PTX_def low_mask bit_simps)
  then show "pdx a = pdx b \<and> ptx a = ptx b" by (simp add: pdx_def ptx_def)
next
  assume "pdx a = pdx b \<and> ptx a = ptx b"
  then have h: "PDX a = PDX b" "PTX a = PTX b" by (simp_all add: pdx_def ptx_def word_unat_eq_iff)
  show "page_of a = page_of b"
  proof (rule bit_word_eqI)
    fix n assume n: "n < LENGTH(32)"
    consider "n < 12" | "12 \<le> n" "n < 22" | "22 \<le> n" by linarith
    then show "bit (page_of a) n = bit (page_of b) n"
    proof cases
      case 1
      then show ?thesis by (simp add: page_of_def low_mask bit_simps)
    next
      case 2
      have "bit (PTX a) (n - 12) = bit (PTX b) (n - 12)" using h by simp
      then show ?thesis using 2 by (auto simp: page_of_def low_mask PTX_def bit_simps)
    next
      case 3
      have "bit (PDX a) (n - 22) = bit (PDX b) (n - 22)" using h by simp
      then show ?thesis using 3 n by (auto simp: page_of_def low_mask PDX_def bit_simps)
    qed
  qed
qed

subsection \<open>Entries of a table\<close>

definition entry :: "kmem \<Rightarrow> addr \<Rightarrow> nat \<Rightarrow> addr" where
  "entry k t i = get32 (pmem k t) (4 * i)"

definition set_entry :: "kmem \<Rightarrow> addr \<Rightarrow> nat \<Rightarrow> addr \<Rightarrow> kmem" where
  "set_entry k t i w = k\<lparr>pmem := (pmem k)(t := put32 (pmem k t) (4 * i) w)\<rparr>"

lemma entry_addr:
  assumes "t AND 0xFFF = 0" and "i < 1024"
  shows "page_of (t + 4 * of_nat i) = t" "uint ((t + 4 * of_nat i) AND 0xFFF) = int (4 * i)"
proof -
  have u: "unat (4 * of_nat i :: addr) = 4 * i" using assms(2) by (simp add: unat_word_ariths unat_of_nat)
  have s: "(4 * of_nat i :: addr) AND NOT 0xFFF = 0" by (rule small_word) (use u assms(2) in simp)
  show "page_of (t + 4 * of_nat i) = t" using aligned_plus(1) [OF assms(1) s] .
  show "uint ((t + 4 * of_nat i) AND 0xFFF) = int (4 * i)" using aligned_plus(2) [OF assms(1) s] u by (metis uint_nat)
qed

lemma rd_entry: "t AND 0xFFF = 0 \<Longrightarrow> i < 1024 \<Longrightarrow> length (pmem k t) = PGSIZE \<Longrightarrow> rd_word k (t + 4 * of_nat i) = Inr (entry k t i)"
  using ld32_ok [of "4 * i" "pmem k t"] by (simp only: rd_word_def entry_addr) (simp add: entry_def PGSIZE_def)

lemma wr_entry: "t AND 0xFFF = 0 \<Longrightarrow> i < 1024 \<Longrightarrow> length (pmem k t) = PGSIZE \<Longrightarrow> wr_word k (t + 4 * of_nat i) w = Inr (set_entry k t i w)"
  using st32_ok [of "4 * i" "pmem k t" w] by (simp only: wr_word_def entry_addr) (simp add: set_entry_def PGSIZE_def)

lemma entry_set: "length (pmem k t) = PGSIZE \<Longrightarrow> i < 1024 \<Longrightarrow> j < 1024 \<Longrightarrow>
    entry (set_entry k t i w) t' j = (if t' = t \<and> j = i then w else entry k t' j)"
  by (cases j i rule: linorder_cases) (auto simp: entry_def set_entry_def get32_put32 get32_put32_other PGSIZE_def)

lemma set_entry_simps [simp]: "freelist (set_entry k t i w) = freelist k" "length (pmem (set_entry k t i w) u) = length (pmem k u)"
    "u \<noteq> t \<Longrightarrow> pmem (set_entry k t i w) u = pmem k u"
  by (simp_all add: set_entry_def)

subsection \<open>Page directories\<close>

definition present :: "kmem \<Rightarrow> addr \<Rightarrow> nat \<Rightarrow> bool" where
  "present k d i \<longleftrightarrow> entry k d i AND PTE_P \<noteq> 0"

definition table :: "kmem \<Rightarrow> addr \<Rightarrow> nat \<Rightarrow> addr" where
  "table k d i = P2V (PTE_ADDR (entry k d i))"

definition vpte :: "kmem \<Rightarrow> addr \<Rightarrow> addr \<Rightarrow> addr" where
  "vpte k d a = (if present k d (pdx a) then entry k (table k d (pdx a)) (ptx a) else 0)"

definition tables :: "kmem \<Rightarrow> addr \<Rightarrow> addr set" where
  "tables k d = {table k d i | i. i < 1024 \<and> present k d i}"

definition pt_ok :: "addr \<Rightarrow> kmem \<Rightarrow> addr list \<Rightarrow> addr \<Rightarrow> bool" where
  "pt_ok bound k ps d \<longleftrightarrow> km_ok bound k ps \<and> (\<forall>p \<in> set ps. length (pmem k p) = PGSIZE) \<and> page_ok bound d \<and> d \<notin> set ps \<and>
     length (pmem k d) = PGSIZE \<and>
     (\<forall>t \<in> tables k d. page_ok bound t \<and> t \<notin> set ps \<and> t \<noteq> d \<and> length (pmem k t) = PGSIZE) \<and>
     (\<forall>i < 1024. \<forall>j < 1024. present k d i \<longrightarrow> present k d j \<longrightarrow> table k d i = table k d j \<longrightarrow> i = j)"

lemma page_ok_aligned: "page_ok bound t \<Longrightarrow> t AND 0xFFF = 0"
  by (simp add: page_ok_def offset_mod)

lemma table_in: "i < 1024 \<Longrightarrow> present k d i \<Longrightarrow> table k d i \<in> tables k d"
  by (auto simp: tables_def)

text \<open>A change of an entry of a page table.\<close>

lemma set_pte_spec:
  fixes w :: addr
  assumes "pt_ok bound k ps d" and "present k d (pdx va)"
  defines "k' \<equiv> set_entry k (table k d (pdx va)) (ptx va) w"
  shows "pt_ok bound k' ps d" and "vpte k' d a = (if page_of a = page_of va then w else vpte k d a)"
    and "entry k' d i = entry k d i" and "i < 1024 \<Longrightarrow> present k' d i = present k d i" and "i < 1024 \<Longrightarrow> table k' d i = table k d i"
proof -
  let ?t = "table k d (pdx va)"
  have t: "?t \<noteq> d" "?t \<notin> set ps" "length (pmem k ?t) = PGSIZE" using assms(1) table_in [OF _ assms(2)] by (auto simp: pt_ok_def)
  show e: "entry k' d i = entry k d i" for i using t(1) by (simp add: k'_def entry_def)
  show p: "present k' d i = present k d i" and q: "table k' d i = table k d i" for i by (simp_all add: present_def table_def e)
  have T: "tables k' d = tables k d" by (auto simp: tables_def p q)
  have "km_ok bound k' ps" using assms(1) t(2) by (auto simp: pt_ok_def km_ok_def k'_def set_entry_def free_chain_other)
  then show "pt_ok bound k' ps d" using assms(1) by (auto simp: pt_ok_def T p q) (auto simp: k'_def)
  show "vpte k' d a = (if page_of a = page_of va then w else vpte k d a)"
  proof (cases "present k d (pdx a)")
    case True
    have "table k d (pdx a) = ?t \<longleftrightarrow> pdx a = pdx va" using assms(1,2) True by (auto simp: pt_ok_def)
    then have "entry k' (table k d (pdx a)) (ptx a) = (if page_of a = page_of va then w else entry k (table k d (pdx a)) (ptx a))"
      using entry_set [OF t(3), of "ptx va" "ptx a" w "table k d (pdx a)"] by (simp add: k'_def same_page)
    then show ?thesis using True by (simp add: vpte_def p q)
  next
    case False
    then have "page_of a \<noteq> page_of va" using assms(2) by (auto simp: same_page)
    then show ?thesis using False by (simp add: vpte_def p)
  qed
qed

lemma P2V_V2P [simp]: "P2V (V2P t) = t"
  by (simp add: P2V_def V2P_def)

lemma aligned_entry:
  assumes "p AND 0xFFF = 0" and "f AND NOT 0xFFF = (0 :: addr)"
  shows "PTE_ADDR (p OR f) = p" and "PTE_FLAGS (p OR f) = f"
proof -
  have p: "p AND NOT 0xFFF = p" using page_split [of p] assms(1) by simp
  have f: "f AND 0xFFF = f" using page_split [of f] assms(2) by simp
  show "PTE_ADDR (p OR f) = p" "PTE_FLAGS (p OR f) = f"
    using assms p f by (simp_all add: PTE_ADDR_def PTE_FLAGS_def bit.conj_disj_distrib2)
qed


lemma minus_shift: "t - 0x80000000 = t + (0x80000000 :: addr)"
  by (simp add: diff_eq_eq)

lemma V2P_aligned: assumes "t AND 0xFFF = 0" shows "V2P t AND 0xFFF = 0"
proof -
  have "unat t mod 4096 = 0" using assms by (simp add: offset_mod word_page_unat)
  then obtain q where "unat t = 4096 * q" by (auto simp: mod_eq_0_iff_dvd elim: dvdE)
  then have "unat (V2P t) = (4096 * (q + 524288)) mod (4096 * 1048576)"
    by (simp add: V2P_def KERNBASE_def minus_shift unat_word_ariths)
  then have "unat (V2P t) mod 4096 = 0" by (simp only: mod_mult_mult1 mod_mult_self1_is_0)
  then show ?thesis by (simp add: offset_mod word_page_unat)
qed

subsection \<open>Walking\<close>

lemma clear_page_spec: "length (pmem k v) = PGSIZE \<Longrightarrow> clear_page k v = Inr (k\<lparr>pmem := (pmem k)(v := replicate PGSIZE 0)\<rparr>)"
  using memset_stored [of 0 PGSIZE "pmem k v" 0] by (simp add: clear_page_def stored_def)

lemma zero_entry: "i < 1024 \<Longrightarrow> pmem k t = replicate PGSIZE 0 \<Longrightarrow> entry k t i = 0"
  by (simp add: entry_def get32_def PGSIZE_def)

text \<open>\<open>grown k d ps k' ps'\<close>: page tables may have been added from the free pages; nothing else changed.\<close>

definition grown :: "kmem \<Rightarrow> addr \<Rightarrow> addr list \<Rightarrow> kmem \<Rightarrow> addr list \<Rightarrow> bool" where
  "grown k d ps k' ps' \<longleftrightarrow> set ps' \<subseteq> set ps \<and> (\<forall>u. u \<notin> insert d (set ps) \<union> tables k d \<longrightarrow> pmem k' u = pmem k u) \<and>
     tables k d \<subseteq> tables k' d \<and> tables k' d \<union> set ps' = tables k d \<union> set ps"

lemma walk_present:
  assumes "pt_ok bound k ps d" and "present k d (pdx va)"
  shows "walkpgdir d va al k = Inr (k, table k d (pdx va) + 4 * of_nat (ptx va))"
  using assms rd_entry [of d "pdx va" k] page_ok_aligned
  by (auto simp: walkpgdir_def index_words pt_ok_def present_def table_def)

lemma walk_absent:
  assumes "pt_ok bound k ps d" and "\<not> present k d (pdx va)"
  shows "walkpgdir d va False k = Inr (k, 0)"
  using assms rd_entry [of d "pdx va" k] page_ok_aligned
  by (auto simp: walkpgdir_def index_words pt_ok_def present_def)

lemma walk_empty:
  assumes "pt_ok bound k [] d" and "\<not> present k d (pdx va)"
  shows "walkpgdir d va True k = Inr (k, 0)"
proof -
  have "freelist k = 0" using assms(1) by (simp add: pt_ok_def km_ok_def)
  then show ?thesis using assms rd_entry [of d "pdx va" k] page_ok_aligned
    by (auto simp: walkpgdir_def index_words pt_ok_def present_def kalloc_def)
qed

lemma walk_alloc:
  assumes ok: "pt_ok bound k (t # ps) d" and ab: "\<not> present k d (pdx va)"
  shows "\<exists>k'. walkpgdir d va True k = Inr (k', t + 4 * of_nat (ptx va)) \<and> pt_ok bound k' ps d \<and> present k' d (pdx va) \<and>
    table k' d (pdx va) = t \<and> (\<forall>a. vpte k' d a = vpte k d a) \<and> grown k d (t # ps) k' ps \<and>
    (\<forall>i < 1024. present k' d i \<longleftrightarrow> i = pdx va \<or> present k d i)"
proof -
  have d: "d AND 0xFFF = 0" "length (pmem k d) = PGSIZE" "d \<noteq> t" "d \<notin> set ps" using ok page_ok_aligned by (auto simp: pt_ok_def)
  have t4: "page_ok bound t" "t \<notin> set ps" "length (pmem k t) = PGSIZE" using ok by (auto simp: pt_ok_def km_ok_def)
  have t: "page_ok bound t" "t \<noteq> 0" "t \<notin> set ps" "length (pmem k t) = PGSIZE" "t AND 0xFFF = 0"
    using t4 page_ok_aligned [OF t4(1)] by (auto simp: page_ok_def)
  obtain k1 where k1: "kalloc k = Inr (k1, t)" "km_ok bound k1 ps" "pmem k1 = pmem k"
    using kalloc_spec [of bound k "t # ps"] ok by (auto simp: pt_ok_def first_or_null_def)
  let ?k2 = "k1\<lparr>pmem := (pmem k1)(t := replicate PGSIZE 0)\<rparr>"
  let ?w = "V2P t OR PTE_P OR PTE_W OR PTE_U" and ?i = "pdx va"
  let ?k3 = "set_entry ?k2 d ?i ?w"
  have d2: "length (pmem ?k2 d) = PGSIZE" using d k1(3) by simp
  have run: "walkpgdir d va True k = Inr (?k3, t + 4 * of_nat (ptx va))"
    using ab k1 t clear_page_spec [of k1 t] wr_entry [OF d(1) _ d2, of ?i ?w] rd_entry [OF d(1) _ d(2), of ?i]
    by (simp add: walkpgdir_def index_words present_def)
  have e_d: "entry ?k3 d j = (if j = ?i then ?w else entry k d j)" if "j < 1024" for j
    using entry_set [OF d2, of ?i j ?w d] that d(3) k1(3) by (simp add: entry_def)
  have e_t: "entry ?k3 t j = 0" if "j < 1024" for j
    using zero_entry [OF that, of ?k3 t] d(3) by simp
  have e_o: "entry ?k3 u j = entry k u j" if "u \<noteq> d" "u \<noteq> t" for u j
    using that k1(3) by (simp add: entry_def)
  have w: "?w AND PTE_P \<noteq> 0" "PTE_ADDR ?w = V2P t"
    using aligned_entry(1) [OF V2P_aligned [OF t(5)], of "PTE_P OR PTE_W OR PTE_U"]
    by (simp_all add: PTE_P_def PTE_W_def PTE_U_def or.assoc bit.conj_disj_distrib2)
  have pr: "present ?k3 d j \<longleftrightarrow> j = ?i \<or> present k d j" if "j < 1024" for j using e_d [OF that] w(1) by (simp add: present_def)
  have tb: "table ?k3 d j = (if j = ?i then t else table k d j)" if "j < 1024" for j using e_d [OF that] w(2) by (simp add: table_def)
  have T: "tables ?k3 d = insert t (tables k d)"
  proof (intro equalityI subsetI)
    fix u assume "u \<in> tables ?k3 d"
    then obtain j where "u = table ?k3 d j" "j < 1024" "present ?k3 d j" by (auto simp: tables_def)
    then show "u \<in> insert t (tables k d)" using table_in [of j k d] by (auto simp: pr tb split: if_splits)
  next
    fix u assume "u \<in> insert t (tables k d)"
    then obtain j where "j < 1024" "j = ?i \<and> u = t \<or> j \<noteq> ?i \<and> present k d j \<and> u = table k d j"
      using ab by (auto simp: tables_def) (metis index_bounds(1))
    then show "u \<in> tables ?k3 d" using table_in [of j ?k3 d] by (auto simp: pr tb)
  qed
  have tn: "t \<notin> tables k d" using ok by (auto simp: pt_ok_def)
  have "km_ok bound ?k3 ps" using k1(2) d(4) t(3) by (simp add: km_ok_def set_entry_def free_chain_other)
  moreover have "table k d j \<noteq> t" if "j < 1024" "present k d j" for j using tn table_in [OF that] by auto
  note nt = this
  have "i = j" if "i < 1024" "j < 1024" "present ?k3 d i" "present ?k3 d j" "table ?k3 d i = table ?k3 d j" for i j
  proof -
    have inj: "present k d i \<Longrightarrow> present k d j \<Longrightarrow> table k d i = table k d j \<Longrightarrow> i = j" using ok that(1,2) by (simp add: pt_ok_def)
    show ?thesis
    proof (rule ccontr)
      assume ne: "i \<noteq> j"
      have "i \<noteq> ?i" using that(3-5) ne nt [OF that(2)] unfolding pr [OF that(2)] tb [OF that(1)] tb [OF that(2)] by metis
      moreover have "j \<noteq> ?i" using that(3-5) ne nt [OF that(1)] unfolding pr [OF that(1)] tb [OF that(1)] tb [OF that(2)] by metis
      ultimately show False using that(3-5) ne inj unfolding pr [OF that(1)] pr [OF that(2)] tb [OF that(1)] tb [OF that(2)] by metis
    qed
  qed
  moreover have "\<forall>u \<in> tables ?k3 d. page_ok bound u \<and> u \<notin> set ps \<and> u \<noteq> d \<and> length (pmem ?k3 u) = PGSIZE"
    unfolding T using ok t d k1(3) by (auto simp: pt_ok_def)
  moreover have "\<forall>p \<in> set ps. length (pmem ?k3 p) = PGSIZE" "page_ok bound d" "length (pmem ?k3 d) = PGSIZE"
    using ok k1(3) d by (auto simp: pt_ok_def)
  ultimately have "pt_ok bound ?k3 ps d" using d(4) unfolding pt_ok_def by blast
  moreover have "vpte ?k3 d a = vpte k d a" for a
  proof (cases "pdx a = ?i")
    case True
    then show ?thesis using ab by (simp add: vpte_def pr tb e_t)
  next
    case False
    have "table k d (pdx a) \<noteq> d \<and> table k d (pdx a) \<noteq> t" if "present k d (pdx a)"
      using ok tn table_in [OF _ that] by (auto simp: pt_ok_def)
    then show ?thesis using False by (auto simp: vpte_def pr tb e_o)
  qed
  moreover have "grown k d (t # ps) ?k3 ps" using T k1(3) by (auto simp: grown_def)
  ultimately show ?thesis using run pr tb [of ?i] by auto
qed

subsection \<open>Mapping\<close>

lemma grown_refl: "grown k d ps k ps"
  by (simp add: grown_def)

lemma grown_trans:
  assumes "grown k d ps k1 ps1" and "grown k1 d ps1 k2 ps2"
  shows "grown k d ps k2 ps2"
proof -
  have "pmem k2 u = pmem k u" if "u \<notin> insert d (set ps) \<union> tables k d" for u
  proof -
    have "u \<notin> insert d (set ps1) \<union> tables k1 d" using that assms(1) by (auto simp: grown_def)
    then show ?thesis using that assms by (simp add: grown_def)
  qed
  moreover have "set ps2 \<subseteq> set ps" "tables k d \<subseteq> tables k2 d" "tables k2 d \<union> set ps2 = tables k d \<union> set ps"
    using assms by (auto simp: grown_def)
  ultimately show ?thesis by (simp add: grown_def)
qed

lemma set_pte_grown:
  assumes "pt_ok bound k ps d" and "present k d (pdx va)"
  shows "grown k d ps (set_entry k (table k d (pdx va)) (ptx va) w) ps"
proof -
  have T: "tables (set_entry k (table k d (pdx va)) (ptx va) w) d = tables k d"
    unfolding tables_def by (intro Collect_cong ex_cong1) (auto simp: set_pte_spec(4,5) [OF assms])
  have "table k d (pdx va) \<in> tables k d" by (rule table_in [OF _ assms(2)]) simp
  then have "pmem (set_entry k (table k d (pdx va)) (ptx va) w) u = pmem k u" if "u \<notin> tables k d" for u
    using that by (intro set_entry_simps(3)) auto
  then show ?thesis by (auto simp: grown_def T)
qed

lemma map_one:
  assumes ok: "pt_ok bound k ps d" and free: "vpte k d a AND PTE_P = 0"
  shows "walkpgdir d a True k = Inr (k, 0) \<and> ps = [] \<and> \<not> present k d (pdx a) \<or>
    (\<exists>k1 pte e k2 ps1. walkpgdir d a True k = Inr (k1, pte) \<and> pte \<noteq> 0 \<and> rd_word k1 pte = Inr e \<and> e AND PTE_P = 0 \<and>
       wr_word k1 pte w = Inr k2 \<and> pt_ok bound k2 ps1 d \<and> grown k d ps k2 ps1 \<and>
       (\<forall>x. vpte k2 d x = (if page_of x = page_of a then w else vpte k d x)) \<and>
       (\<forall>i < 1024. present k2 d i \<longleftrightarrow> i = pdx a \<or> present k d i))"
proof -
  have wr: "\<exists>pte e k2. t + 4 * of_nat (ptx a) = pte \<and> pte \<noteq> 0 \<and> rd_word k1 pte = Inr e \<and> e AND PTE_P = 0 \<and> wr_word k1 pte w = Inr k2 \<and>
      pt_ok bound k2 ps1 d \<and> grown k1 d ps1 k2 ps1 \<and> (\<forall>x. vpte k2 d x = (if page_of x = page_of a then w else vpte k d x)) \<and>
      (\<forall>i < 1024. present k2 d i \<longleftrightarrow> i = pdx a \<or> present k d i)"
    if k1: "pt_ok bound k1 ps1 d" "present k1 d (pdx a)" "table k1 d (pdx a) = t" "\<forall>x. vpte k1 d x = vpte k d x"
      "\<forall>i < 1024. present k1 d i \<longleftrightarrow> i = pdx a \<or> present k d i" for k1 ps1 t
  proof -
    have t: "page_ok bound t" "length (pmem k1 t) = PGSIZE"
      using k1(1) table_in [OF _ k1(2)] k1(3) by (auto simp: pt_ok_def)
    note al = page_ok_aligned [OF t(1)]
    have "t + 4 * of_nat (ptx a) \<noteq> 0"
    proof
      assume "t + 4 * of_nat (ptx a) = 0"
      then have "page_of 0 = t" using entry_addr(1) [OF al, of "ptx a"] by simp
      then show False using t(1) by (simp add: page_of_def page_ok_def)
    qed
    moreover have "entry k1 t (ptx a) AND PTE_P = 0" using free k1 by (metis vpte_def)
    ultimately show ?thesis
      using rd_entry [OF al _ t(2)] wr_entry [OF al _ t(2)] set_pte_spec(1,2,4) [OF k1(1,2)] set_pte_grown [OF k1(1,2)] k1(3-5) by auto
  qed
  show ?thesis
  proof (cases "present k d (pdx a)")
    case True
    then have "\<forall>i < 1024. present k d i \<longleftrightarrow> i = pdx a \<or> present k d i" by auto
    then show ?thesis using wr [OF ok True refl] walk_present [OF ok True] by fastforce
  next
    case False
    show ?thesis
    proof (cases ps)
      case Nil
      then show ?thesis using walk_empty ok False by blast
    next
      case (Cons t ps1)
      then obtain k1 where k1: "walkpgdir d a True k = Inr (k1, t + 4 * of_nat (ptx a))" "pt_ok bound k1 ps1 d" "present k1 d (pdx a)"
          "table k1 d (pdx a) = t" "\<forall>x. vpte k1 d x = vpte k d x" "\<forall>i < 1024. present k1 d i \<longleftrightarrow> i = pdx a \<or> present k d i"
          "grown k d ps k1 ps1"
        using walk_alloc [of bound k t ps1 d a] ok False by auto
      show ?thesis using wr [OF k1(2-6)] k1(1) grown_trans [OF k1(7)] by fastforce
    qed
  qed
qed

text \<open>The entries after the first \<open>m\<close> of the pages from \<open>a\<close> on have been mapped to the frames from \<open>pa\<close> on.\<close>

definition mapped :: "(addr \<Rightarrow> addr) \<Rightarrow> addr \<Rightarrow> addr \<Rightarrow> addr \<Rightarrow> nat \<Rightarrow> (addr \<Rightarrow> addr) \<Rightarrow> bool" where
  "mapped f a pa perm m g \<longleftrightarrow>
     (\<forall>i < m. \<forall>x. page_of x = a + 4096 * of_nat i \<longrightarrow> g x = (pa + 4096 * of_nat i) OR perm OR PTE_P) \<and>
     (\<forall>x. (\<forall>i < m. page_of x \<noteq> a + 4096 * of_nat i) \<longrightarrow> g x = f x)"

lemma page_step: "a AND 0xFFF = 0 \<Longrightarrow> (a + 4096) AND 0xFFF = (0 :: addr)"
proof -
  assume "a AND 0xFFF = 0"
  then have "unat a mod 4096 = 0" by (simp add: offset_mod word_page_unat)
  then obtain q where "unat a = 4096 * q" by (auto simp: mod_eq_0_iff_dvd elim: dvdE)
  then have "unat (a + 4096) = (4096 * q + 4096) mod (4096 * 1048576)" by (simp add: unat_word_ariths)
  moreover have "4096 * q + 4096 = 4096 * (q + 1)" by simp
  ultimately have "unat (a + 4096) mod 4096 = 0" by (metis mod_mult_mult1 mod_mult_self1_is_0)
  then show ?thesis by (simp only: offset_mod word_page_unat)
qed

lemma aligned_page_of: "a AND 0xFFF = 0 \<Longrightarrow> page_of a = a"
  using page_split [of a] by (simp add: page_of_def)

lemma page_apart: "0 < i \<Longrightarrow> 4096 * i < 2 ^ 32 \<Longrightarrow> a + 4096 * of_nat i \<noteq> (a :: addr)"
proof -
  assume i: "0 < i" "4096 * i < 2 ^ 32"
  have "unat (4096 * of_nat i :: addr) = 4096 * i" using i(2) by (simp add: unat_word_ariths unat_of_nat)
  moreover have "unat (4096 * of_nat i :: addr) = 0" if "a + 4096 * of_nat i = a" using that by simp
  ultimately show ?thesis using i(1) by linarith
qed

lemma map_loop_spec:
  assumes "pt_ok bound k ps d" and "a AND 0xFFF = 0" and "4096 * n + 4096 \<le> 2 ^ 32" and "n < fuel"
    and "\<And>i. i \<le> n \<Longrightarrow> vpte k d (a + 4096 * of_nat i) AND PTE_P = 0"
  shows "\<exists>k' r ps' m. map_loop fuel d a (a + 4096 * of_nat n) pa perm k = Inr (k', r) \<and> pt_ok bound k' ps' d \<and> grown k d ps k' ps' \<and>
    mapped (vpte k d) a pa perm m (vpte k' d) \<and>
    (\<forall>i < 1024. present k' d i \<longrightarrow> present k d i \<or> (\<exists>j \<le> n. i = pdx (a + 4096 * of_nat j))) \<and>
    (r = 0 \<and> m = n + 1 \<or> r = -1 \<and> m \<le> n \<and> ps' = [] \<and> \<not> present k' d (pdx (a + 4096 * of_nat m)))"
  using assms
proof (induction n arbitrary: k ps a pa fuel)
  case 0
  then obtain f where f: "fuel = Suc f" by (cases fuel) auto
  have "vpte k d a AND PTE_P = 0" using 0(5) [of 0] by simp
  then show ?case
    using map_one [OF 0(1), of a "pa OR perm OR PTE_P"] f 0(1) aligned_page_of [OF 0(2)]
    by (fastforce simp: mapped_def or.assoc grown_refl)
next
  case (Suc n)
  then obtain f where f: "fuel = Suc f" "n < f" by (cases fuel) auto
  let ?w = "pa OR perm OR PTE_P" and ?l = "a + 4096 * of_nat (Suc n)"
  have "vpte k d a AND PTE_P = 0" using Suc.prems(5) [of 0] by simp
  from map_one [OF Suc.prems(1) this, of ?w] show ?case
  proof (elim disjE exE conjE)
    assume "walkpgdir d a True k = Inr (k, 0)" "ps = []" "\<not> present k d (pdx a)"
    then show ?thesis using f Suc.prems(1)
      by (intro exI [of _ k] exI [of _ "-1"] exI [of _ "[]"] exI [of _ 0]) (simp add: grown_refl mapped_def)
  next
    fix k1 pte e k2 ps1
    assume h: "walkpgdir d a True k = Inr (k1, pte)" "pte \<noteq> 0" "rd_word k1 pte = Inr e" "e AND PTE_P = 0" "wr_word k1 pte ?w = Inr k2"
      "pt_ok bound k2 ps1 d" "grown k d ps k2 ps1" "\<forall>x. vpte k2 d x = (if page_of x = page_of a then ?w else vpte k d x)"
      "\<forall>i < 1024. present k2 d i \<longleftrightarrow> i = pdx a \<or> present k d i"
    have ne: "a \<noteq> ?l" using page_apart [of "Suc n" a] Suc.prems(3) by auto
    have l: "?l = a + 4096 + 4096 * of_nat n" by (simp add: algebra_simps)
    have pa0: "page_of a = a" by (rule aligned_page_of [OF Suc.prems(2)])
    have al: "(a + 4096 * of_nat i) AND 0xFFF = 0" for i
    proof (induction i)
      case 0
      then show ?case using Suc.prems(2) by simp
    next
      case (Suc i)
      then show ?case using page_step [OF Suc] by (simp add: algebra_simps)
    qed
    have vp: "vpte k2 d (a + 4096 + 4096 * of_nat i) AND PTE_P = 0" if "i \<le> n" for i
    proof -
      have e: "a + 4096 + 4096 * of_nat i = a + 4096 * of_nat (Suc i)" by (simp add: algebra_simps)
      have "page_of (a + 4096 * of_nat (Suc i)) \<noteq> page_of a"
        using page_apart [of "Suc i" a] that Suc.prems(3) aligned_page_of [OF al [of "Suc i"]] pa0 by auto
      then show ?thesis using h(8) Suc.prems(5) [of "Suc i"] that by (simp only: e if_False Suc_le_mono)
    qed
    have lt: "4096 * n + 4096 \<le> 2 ^ 32" using Suc.prems(3) by simp
    obtain k' r ps' m where ih: "map_loop f d (a + 4096) (a + 4096 + 4096 * of_nat n) (pa + 4096) perm k2 = Inr (k', r)"
        "pt_ok bound k' ps' d" "grown k2 d ps1 k' ps'" "mapped (vpte k2 d) (a + 4096) (pa + 4096) perm m (vpte k' d)"
        "\<forall>i < 1024. present k' d i \<longrightarrow> present k2 d i \<or> (\<exists>j \<le> n. i = pdx (a + 4096 + 4096 * of_nat j))"
        "r = 0 \<and> m = n + 1 \<or> r = -1 \<and> m \<le> n \<and> ps' = [] \<and> \<not> present k' d (pdx (a + 4096 + 4096 * of_nat m))"
      using Suc.IH [OF h(6) page_step [OF Suc.prems(2)] lt f(2) vp, of "pa + 4096"] by blast
    have run: "map_loop fuel d a ?l pa perm k = Inr (k', r)"
      using h(1-5) ne ih(1) f(1) by (simp only: map_loop.simps rbind_Inr case_prod_conv if_False simp_thms l [symmetric])
    have "mapped (vpte k d) a pa perm (Suc m) (vpte k' d)"
      unfolding mapped_def
    proof (intro conjI allI impI)
      fix i x assume i: "i < Suc m" and x: "page_of x = a + 4096 * of_nat i"
      show "vpte k' d x = (pa + 4096 * of_nat i) OR perm OR PTE_P"
      proof (cases i)
        case 0
        have "\<forall>j < m. page_of x \<noteq> a + 4096 + 4096 * of_nat j"
        proof (intro allI impI)
          fix j assume "j < m"
          then have "a + 4096 * of_nat (Suc j) \<noteq> a" using page_apart [of "Suc j" a] ih(6) Suc.prems(3) by auto
          then show "page_of x \<noteq> a + 4096 + 4096 * of_nat j" using x 0 by (simp add: algebra_simps)
        qed
        then have "vpte k' d x = vpte k2 d x" using ih(4) by (simp add: mapped_def)
        then show ?thesis using h(8) x pa0 0 by simp
      next
        case (Suc j)
        then have "page_of x = a + 4096 + 4096 * of_nat j" using x by (simp add: algebra_simps)
        then have "vpte k' d x = (pa + 4096 + 4096 * of_nat j) OR perm OR PTE_P" using ih(4) i Suc by (simp add: mapped_def)
        then show ?thesis using Suc by (simp add: algebra_simps)
      qed
    next
      fix x assume x: "\<forall>i < Suc m. page_of x \<noteq> a + 4096 * of_nat i"
      have "page_of x \<noteq> a + 4096 + 4096 * of_nat j" if "j < m" for j
        using x that by (auto simp: algebra_simps)
      then have "vpte k' d x = vpte k2 d x" using ih(4) by (simp add: mapped_def)
      moreover have "page_of x \<noteq> a" using x by (auto dest: spec [of _ 0])
      ultimately show "vpte k' d x = vpte k d x" using h(8) pa0 by simp
    qed
    moreover have sh: "a + 4096 + 4096 * of_nat j = a + 4096 * of_nat (Suc j)" for j by (simp add: algebra_simps)
    have "present k d i \<or> (\<exists>j \<le> Suc n. i = pdx (a + 4096 * of_nat j))" if i: "i < 1024" "present k' d i" for i
    proof -
      consider "i = pdx a" | "present k d i" | j where "j \<le> n" "i = pdx (a + 4096 * of_nat (Suc j))"
        using ih(5) h(9) i unfolding sh by blast
      then show ?thesis
      proof cases
        case 1
        then show ?thesis by (intro disjI2 exI [of _ 0]) simp
      next
        case (3 j)
        then show ?thesis by (intro disjI2 exI [of _ "Suc j"]) (simp only: Suc_le_mono simp_thms)
      qed simp
    qed
    ultimately show ?thesis using run ih(2) ih(6) [unfolded sh] grown_trans [OF h(7) ih(3)]
      by (intro exI [of _ k'] exI [of _ r] exI [of _ ps'] exI [of _ "Suc m"]) auto
  qed
qed

lemma pgdown: "PGROUNDDOWN a = page_of a"
  by (simp add: PGROUNDDOWN_def page_of_def)

lemma last_page:
  assumes "va AND 0xFFF = 0"
  shows "PGROUNDDOWN (va + of_nat (4096 * (n + 1)) - 1) = va + 4096 * of_nat n"
proof -
  have "va + of_nat (4096 * (n + 1)) - 1 = (va + 4096 * of_nat n) + 0xFFF" by (simp add: algebra_simps)
  moreover have "(va + 4096 * of_nat n) AND 0xFFF = 0"
  proof (induction n)
    case 0
    then show ?case using assms by simp
  next
    case (Suc n)
    then show ?case using page_step [OF Suc] by (simp add: algebra_simps)
  qed
  then have "page_of ((va + 4096 * of_nat n) + 0xFFF) = va + 4096 * of_nat n" by (rule aligned_plus(1)) simp
  ultimately show ?thesis by (simp only: pgdown)
qed

lemma mappages_base:
  assumes "pt_ok bound k ps d" and "va AND 0xFFF = 0" and "0 < n" and "4096 * n < 2 ^ 32"
    and "\<And>i. i < n \<Longrightarrow> vpte k d (va + 4096 * of_nat i) AND PTE_P = 0"
  shows "\<exists>k' r ps' m. mappages d va (of_nat (4096 * n)) pa perm k = Inr (k', r) \<and> pt_ok bound k' ps' d \<and> grown k d ps k' ps' \<and>
    mapped (vpte k d) va pa perm m (vpte k' d) \<and>
    (\<forall>i < 1024. present k' d i \<longrightarrow> present k d i \<or> (\<exists>j < n. i = pdx (va + 4096 * of_nat j))) \<and>
    (r = 0 \<and> m = n \<or> r = -1 \<and> m < n \<and> ps' = [] \<and> \<not> present k' d (pdx (va + 4096 * of_nat m)))"
proof -
  obtain j where n: "n = j + 1" using assms(3) by (cases n) auto
  have pd: "PGROUNDDOWN va = va" using aligned_page_of [OF assms(2)] by (simp only: pgdown)
  have "4096 * j + 4096 \<le> 2 ^ 32" "j < 2 ^ 20" using assms(4) n by simp_all
  then obtain k' r ps' m where "map_loop (2 ^ 20) d va (va + 4096 * of_nat j) pa perm k = Inr (k', r)" "pt_ok bound k' ps' d"
      "grown k d ps k' ps'" "mapped (vpte k d) va pa perm m (vpte k' d)"
      "\<forall>i < 1024. present k' d i \<longrightarrow> present k d i \<or> (\<exists>l \<le> j. i = pdx (va + 4096 * of_nat l))"
      "r = 0 \<and> m = j + 1 \<or> r = -1 \<and> m \<le> j \<and> ps' = [] \<and> \<not> present k' d (pdx (va + 4096 * of_nat m))"
    using map_loop_spec [OF assms(1,2), of j "2 ^ 20" pa perm] assms(5) n by auto
  then show ?thesis unfolding mappages_def pd n last_page [OF assms(2)] by (intro exI [of _ k'] exI [of _ r] exI [of _ ps'] exI [of _ m]) (auto simp: less_Suc_eq_le)
qed

subsection \<open>Access to user memory\<close>

definition user_page :: "kmem \<Rightarrow> addr \<Rightarrow> addr \<Rightarrow> bool" where
  "user_page k d a \<longleftrightarrow> vpte k d a AND PTE_P \<noteq> 0 \<and> vpte k d a AND PTE_U \<noteq> 0"

definition frame :: "kmem \<Rightarrow> addr \<Rightarrow> addr \<Rightarrow> addr" where
  "frame k d a = P2V (PTE_ADDR (vpte k d a))"

definition ubyte :: "kmem \<Rightarrow> addr \<Rightarrow> addr \<Rightarrow> byte option" where
  "ubyte k d a = (if user_page k d a then Some (pmem k (frame k d a) ! unat (a AND 0xFFF)) else None)"

text \<open>The frames of user pages are pages of their own, apart from the page tables and from each other.\<close>

definition user_ok :: "kmem \<Rightarrow> addr \<Rightarrow> bool" where
  "user_ok k d \<longleftrightarrow>
     (\<forall>a. user_page k d a \<longrightarrow> frame k d a \<notin> insert d (tables k d) \<and> frame k d a \<noteq> 0 \<and> length (pmem k (frame k d a)) = PGSIZE) \<and>
     (\<forall>a b. user_page k d a \<longrightarrow> user_page k d b \<longrightarrow> frame k d a = frame k d b \<longrightarrow> page_of a = page_of b)"

lemma frame_cong: "vpte k' d b = vpte k d b \<Longrightarrow> frame k' d b = frame k d b"
  by (simp add: frame_def)

lemma user_page_cong: "vpte k' d b = vpte k d b \<Longrightarrow> user_page k' d b = user_page k d b"
  by (simp add: user_page_def)

lemma vpte_page: "page_of a = page_of b \<Longrightarrow> vpte k d a = vpte k d b"
  by (simp add: vpte_def same_page)

lemma page_of_page: "page_of (page_of a) = page_of a"
  by (simp add: page_of_def and.assoc)

lemma uva2ka_spec:
  assumes "pt_ok bound k ps d" and "user_page k d a"
  shows "uva2ka d a k = Inr (frame k d a)"
proof -
  have p: "present k d (pdx a)" using assms(2) by (auto simp: user_page_def vpte_def split: if_splits)
  have t: "page_ok bound (table k d (pdx a))" "length (pmem k (table k d (pdx a))) = PGSIZE"
    using assms(1) table_in [OF _ p] by (auto simp: pt_ok_def)
  note al = page_ok_aligned [OF t(1)]
  have "table k d (pdx a) + 4 * of_nat (ptx a) \<noteq> 0"
  proof
    assume "table k d (pdx a) + 4 * of_nat (ptx a) = 0"
    then have "page_of 0 = table k d (pdx a)" using entry_addr(1) [OF al, of "ptx a"] by simp
    then show False using t(1) by (simp add: page_of_def page_ok_def)
  qed
  then show ?thesis using walk_present [OF assms(1) p] rd_entry [OF al _ t(2)] assms(2) p
    by (simp add: uva2ka_def user_page_def frame_def vpte_def)
qed

text \<open>A write into a frame.\<close>

lemma put_frame:
  assumes "pt_ok bound k ps d" and "user_ok k d" and "user_page k d a" and "frame k d a \<notin> set ps"
    and "off + length bs \<le> PGSIZE"
  defines "k' \<equiv> k\<lparr>pmem := (pmem k)(frame k d a := stored (pmem k (frame k d a)) off bs)\<rparr>"
  shows "put_bytes k (frame k d a) off bs = Inr k'" and "pt_ok bound k' ps d" and "vpte k' d b = vpte k d b" and "tables k' d = tables k d"
    and "user_ok k' d"
    and "ubyte k' d b = (if page_of b = page_of a \<and> off \<le> unat (b AND 0xFFF) \<and> unat (b AND 0xFFF) < off + length bs
      then Some (bs ! (unat (b AND 0xFFF) - off)) else ubyte k d b)"
proof -
  let ?f = "frame k d a"
  have f: "?f \<noteq> d" "?f \<notin> tables k d" "length (pmem k ?f) = PGSIZE" using assms(2,3) by (auto simp: user_ok_def)
  show "put_bytes k ?f off bs = Inr k'" using assms(5) f(3) by (simp add: put_bytes_def k'_def)
  have e2: "entry k' u i = entry k u i" if "u \<noteq> ?f" for u i using that by (simp add: entry_def k'_def)
  have e: "entry k' d i = entry k d i" for i using e2 f(1) by simp
  have p: "present k' d i = present k d i" "table k' d i = table k d i" for i by (simp_all add: present_def table_def e)
  show T: "tables k' d = tables k d" by (simp add: tables_def p)
  have len: "length (pmem k' u) = length (pmem k u)" for u using assms(5) f(3) by (simp add: k'_def)
  have "km_ok bound k' ps" using assms(1,4) by (simp add: pt_ok_def km_ok_def k'_def free_chain_other)
  then show "pt_ok bound k' ps d" using assms(1) by (simp add: pt_ok_def T p len)
  have v: "vpte k' d b = vpte k d b" for b
  proof (cases "present k d (pdx b)")
    case True
    then have "table k d (pdx b) \<noteq> ?f" using table_in [OF _ True] f(2) by auto
    then show ?thesis by (simp add: vpte_def p e2)
  qed (simp add: vpte_def p)
  show "vpte k' d b = vpte k d b" by (rule v)
  have fr: "frame k' d b = frame k d b" "user_page k' d b = user_page k d b" for b by (simp_all add: frame_def user_page_def v)
  show "user_ok k' d" using assms(2) unfolding user_ok_def fr T len .
  show "ubyte k' d b = (if page_of b = page_of a \<and> off \<le> unat (b AND 0xFFF) \<and> unat (b AND 0xFFF) < off + length bs
      then Some (bs ! (unat (b AND 0xFFF) - off)) else ubyte k d b)"
  proof (cases "page_of b = page_of a")
    case True
    then have same: "frame k d b = ?f" "user_page k d b" using assms(3) vpte_page [OF True, of k d] by (simp_all add: frame_def user_page_def)
    have "pmem k' ?f ! unat (b AND 0xFFF) = (if off \<le> unat (b AND 0xFFF) \<and> unat (b AND 0xFFF) < off + length bs
        then bs ! (unat (b AND 0xFFF) - off) else pmem k ?f ! unat (b AND 0xFFF))"
      using nth_stored [of off bs "pmem k ?f" "unat (b AND 0xFFF)"] assms(5) f(3) unat_offset [of b] by (simp add: k'_def PGSIZE_def)
    then show ?thesis unfolding ubyte_def fr same(1) using True same(2) by simp
  next
    case False
    then have "frame k d b \<noteq> ?f" if "user_page k d b"
      using assms(2) [unfolded user_ok_def, THEN conjunct2] assms(3) that by blast
    then have "pmem k' (frame k d b) = pmem k (frame k d b)" if "user_page k d b" using that by (simp add: k'_def)
    then show ?thesis using False by (simp add: ubyte_def fr)
  qed
qed

lemma unat_offset_mod: "unat ((a :: addr) AND 0xFFF) = unat a mod 4096"
  by (simp add: offset_mod unat_mod)

lemma unat_page_of: "unat (page_of a) = 4096 * (unat a div 4096)"
proof -
  have "page_of a = a - (a AND 0xFFF)" using page_split [of a] by (simp add: page_of_def algebra_simps)
  moreover have "(a AND 0xFFF) \<le> a" using unat_offset_mod [of a] by (simp add: word_le_nat_alt)
  ultimately have "unat (page_of a) = unat a - unat a mod 4096" by (simp add: unat_sub unat_offset_mod)
  then show ?thesis by (simp add: minus_mod_eq_mult_div)
qed

lemma page_of_eq: "page_of a = page_of b \<longleftrightarrow> unat a div 4096 = unat b div 4096"
  by (auto simp: word_unat_eq_iff unat_page_of)

lemma unat_plus_small: "unat (va :: addr) + i < 2 ^ 32 \<Longrightarrow> unat (va + of_nat i) = unat va + i"
  by (simp add: unat_word_ariths unat_of_nat)

lemma copyout_spec:
  assumes "pt_ok bound k ps d" and "user_ok k d" and "\<forall>a. user_page k d a \<longrightarrow> frame k d a \<notin> set ps"
    and "unat va + length buf \<le> 2 ^ 32" and "\<forall>i < length buf. user_page k d (va + of_nat i)"
  shows "\<exists>k'. copyout d va buf k = Inr (k', 0) \<and> pt_ok bound k' ps d \<and> user_ok k' d \<and> (\<forall>b. vpte k' d b = vpte k d b) \<and>
    (\<forall>b. ubyte k' d b = (if unat va \<le> unat b \<and> unat b < unat va + length buf then Some (buf ! (unat b - unat va)) else ubyte k d b))"
  using assms
proof (induction "length buf" arbitrary: va buf k rule: less_induct)
  case less
  note ok = less.prems
  show ?case
  proof (cases "buf = []")
    case True
    then show ?thesis using ok by (auto simp: copyout.simps)
  next
    case False
    let ?v0 = "page_of va" and ?off = "unat va mod 4096"
    define n where "n = min (PGSIZE - ?off) (length buf)"
    have n0: "0 < n" using False by (simp add: n_def PGSIZE_def)
    have u: "user_page k d va" using ok(5) False by (auto dest: spec [of _ 0])
    have vv: "vpte k d ?v0 = vpte k d va" by (rule vpte_page [OF page_of_page])
    have u0: "user_page k d ?v0" "frame k d ?v0 = frame k d va" using u vv by (simp_all add: user_page_def frame_def)
    have off: "unat (va - PGROUNDDOWN va) = ?off" by (simp only: page_offset unat_offset_mod)
    let ?bs = "take n buf"
    have fit: "?off + length ?bs \<le> PGSIZE" by (auto simp: n_def PGSIZE_def)
    let ?k1 = "k\<lparr>pmem := (pmem k)(frame k d va := stored (pmem k (frame k d va)) ?off ?bs)\<rparr>"
    have nps: "frame k d va \<notin> set ps" using ok(3) u by blast
    note put = put_frame [OF ok(1,2) u nps fit]
    have nz: "frame k d va \<noteq> 0" using ok(2) u by (auto simp: user_ok_def)
    have nn: "(if PGSIZE - ?off > length buf then length buf else PGSIZE - ?off) = n" by (simp add: n_def)
    have run: "copyout d va buf k = copyout d (?v0 + 4096) (drop n buf) ?k1"
      using False uva2ka_spec [OF ok(1) u0(1)] u0(2) nz put(1)
      by (subst copyout.simps) (simp add: pgdown [symmetric] off nn Let_def)
    have fr: "frame ?k1 d b = frame k d b" "user_page ?k1 d b = user_page k d b" for b
      by (rule frame_cong [OF put(3)], rule user_page_cong [OF put(3)])
    have len: "length ?bs = n" using n0 by (simp add: n_def)
    have split: "unat va = 4096 * (unat va div 4096) + ?off" by simp
    have step: "ubyte ?k1 d b = (if unat va \<le> unat b \<and> unat b < unat va + n then Some (buf ! (unat b - unat va)) else ubyte k d b)" for b
    proof -
      have bsplit: "unat b = 4096 * (unat b div 4096) + unat b mod 4096" by simp
      have "page_of b = page_of va \<and> ?off \<le> unat b mod 4096 \<and> unat b mod 4096 < ?off + n \<longleftrightarrow> unat va \<le> unat b \<and> unat b < unat va + n"
      proof
        assume "page_of b = page_of va \<and> ?off \<le> unat b mod 4096 \<and> unat b mod 4096 < ?off + n"
        then show "unat va \<le> unat b \<and> unat b < unat va + n" using split bsplit unfolding page_of_eq by linarith
      next
        assume h: "unat va \<le> unat b \<and> unat b < unat va + n"
        then have "unat b < 4096 * (unat va div 4096) + 4096" using split fit len unfolding PGSIZE_def by linarith
        moreover have "4096 * (unat va div 4096) \<le> unat b" using h split by linarith
        ultimately have "unat b div 4096 = unat va div 4096" by (intro div_nat_eqI) simp_all
        then show "page_of b = page_of va \<and> ?off \<le> unat b mod 4096 \<and> unat b mod 4096 < ?off + n"
          using h split bsplit unfolding page_of_eq by linarith
      qed
      moreover have "unat b mod 4096 - ?off = unat b - unat va" if "page_of b = page_of va"
        using that split bsplit unfolding page_of_eq by linarith
      moreover have "take n buf ! (unat b - unat va) = buf ! (unat b - unat va)" if "unat b < unat va + n"
        by (rule nth_take) (use that n0 in linarith)
      ultimately show ?thesis using put(6) [of b] len unfolding unat_offset_mod by auto
    qed
    show ?thesis
    proof (cases "drop n buf = []")
      case True
      then have "n = length buf" using n_def by simp
      moreover have "copyout d va buf k = Inr (?k1, 0)" using run True by (simp add: copyout.simps)
      ultimately show ?thesis using put(2,3,5) step by blast
    next
      case more: False
      then have n: "n = PGSIZE - ?off" "n < length buf" by (auto simp: n_def)
      have "unat va + n < 2 ^ 32" using ok(4) n(2) by simp
      then have uv: "unat (va + of_nat n) = unat va + n" by (rule unat_plus_small)
      have next_va: "?v0 + 4096 = va + of_nat n"
      proof -
        have "va = ?v0 + (va AND 0xFFF)" using page_split [of va] by (simp add: page_of_def)
        moreover have "(va AND 0xFFF) + of_nat n = 4096"
        proof -
          have "unat (va AND 0xFFF) + n = 4096" using n(1) by (simp add: unat_offset_mod PGSIZE_def)
          then have "of_nat (unat (va AND 0xFFF) + n) = (4096 :: addr)" by simp
          then show ?thesis by simp
        qed
        ultimately show ?thesis by (metis add.assoc)
      qed
      have a1: "length (drop n buf) < length buf" using n0 n(2) by simp
      have a2: "\<forall>a. user_page ?k1 d a \<longrightarrow> frame ?k1 d a \<notin> set ps" unfolding fr by (rule ok(3))
      have a3: "unat (va + of_nat n) + length (drop n buf) \<le> 2 ^ 32" using ok(4) n(2) uv by simp
      have a4: "\<forall>i < length (drop n buf). user_page ?k1 d (va + of_nat n + of_nat i)"
        unfolding fr
      proof (intro allI impI)
        fix i assume "i < length (drop n buf)"
        then show "user_page k d (va + of_nat n + of_nat i)" using ok(5) [rule_format, of "n + i"] by (simp add: add.assoc)
      qed
      obtain k' where k': "copyout d (va + of_nat n) (drop n buf) ?k1 = Inr (k', 0)" "pt_ok bound k' ps d" "user_ok k' d"
          "\<forall>b. vpte k' d b = vpte ?k1 d b"
          "\<forall>b. ubyte k' d b = (if unat (va + of_nat n) \<le> unat b \<and> unat b < unat (va + of_nat n) + length (drop n buf)
             then Some (drop n buf ! (unat b - unat (va + of_nat n))) else ubyte ?k1 d b)"
        using less.hyps [OF a1 put(2,5) a2 a3 a4] by blast
      have "ubyte k' d b = (if unat va \<le> unat b \<and> unat b < unat va + length buf then Some (buf ! (unat b - unat va)) else ubyte k d b)" for b
        using k'(5) [rule_format, of b] step [of b] n(2) by (auto simp: uv)
      then show ?thesis using run k'(1-4) put(3) next_va by auto
    qed
  qed
qed

end
