(* ===== verification/VM_Claims.thy ===== *)
theory VM_Claims
  imports VM_Correct
begin

text \<open>
  The claims about page tables, and the machine of their witnesses: three free pages, the highest of which becomes a page
  directory.
\<close>

lemma blank_directory:
  assumes "km_ok bound k (d # ps)" and "\<forall>p \<in> set (d # ps). length (pmem k p) = PGSIZE"
  shows "\<exists>k1 k2. kalloc k = Inr (k1, d) \<and> clear_page k1 d = Inr k2 \<and> pt_ok bound k2 ps d \<and> (\<forall>a. vpte k2 d a = 0) \<and> tables k2 d = {} \<and>
    (\<forall>u. length (pmem k u) = PGSIZE \<longrightarrow> length (pmem k2 u) = PGSIZE)"
proof -
  obtain k1 where k1: "kalloc k = Inr (k1, d)" "km_ok bound k1 ps" "pmem k1 = pmem k"
    using kalloc_spec [OF assms(1)] by (auto simp: first_or_null_def)
  have d: "d \<notin> set ps" "page_ok bound d" using assms(1) by (auto simp: km_ok_def)
  let ?k2 = "k1\<lparr>pmem := (pmem k1)(d := replicate PGSIZE 0)\<rparr>"
  have c: "clear_page k1 d = Inr ?k2" using assms(2) k1(3) by (intro clear_page_spec) simp
  have e: "entry ?k2 d i = 0" if "i < 1024" for i using zero_entry [OF that] by simp
  then have p: "\<not> present ?k2 d i" if "i < 1024" for i using that by (simp add: present_def)
  then have T: "tables ?k2 d = {}" by (auto simp: tables_def)
  have "km_ok bound ?k2 ps" using k1(2) d(1) by (simp add: km_ok_def free_chain_other)
  moreover have "\<forall>p \<in> set ps. length (pmem ?k2 p) = PGSIZE" "length (pmem ?k2 d) = PGSIZE" using assms(2) k1(3) by auto
  ultimately have "pt_ok bound ?k2 ps d" unfolding pt_ok_def T using d p by blast
  moreover have "vpte ?k2 d a = 0" for a using p [of "pdx a"] by (simp add: vpte_def)
  ultimately show ?thesis using k1(1,3) c T by auto
qed

lemma demo3_range: "good_range 0x80100400 0x80100401 0x80104000"
  by (simp add: good_range_def KERNBASE_def PGROUNDUP_def P2V_def PHYSTOP_def)

lemma demo3_pages: "range_pages 0x80100401 0x80104000 = [0x80101000, 0x80102000, 0x80103000]"
proof -
  have "PGROUNDUP 0x80100401 = 0x80101000" by (simp add: PGROUNDUP_def)
  moreover have "page_count 0x80101000 0x80104000 = Suc (Suc (Suc 0))" by (simp add: page_count_def)
  ultimately show ?thesis by (simp add: range_pages_def)
qed

lemma demo_directory:
  "\<exists>k. pt_ok 0x80100400 k [0x80102000, 0x80101000] 0x80103000 \<and> (\<forall>a. vpte k 0x80103000 a = 0) \<and> tables k 0x80103000 = {} \<and>
     (\<forall>u. length (pmem k u) = PGSIZE)"
proof -
  obtain k0 where k0: "km_ok 0x80100400 k0 [0x80103000, 0x80102000, 0x80101000]" "\<forall>v. length (pmem k0 v) = PGSIZE"
    using kinit1_spec [OF demo3_range, of demo_mem] by (auto simp: demo_mem_def demo3_pages)
  then show ?thesis using blank_directory [OF k0(1)] by blast
qed

text \<open>
  C16 (mappages_maps): \<open>mappages\<close> on \<open>n\<close> pages that are not mapped yet never fails or panics. Either it returns 0 and the page directory
  translates exactly these pages to the frames from \<open>pa\<close> on, with the permissions given, and every other address as before; or it
  returns -1 because the page allocator is empty and page \<open>m < n\<close> needs a page table; the pages before it have been mapped. It
  changes no memory but the directory, its tables and the free pages that it turned into tables.
\<close>

theorem mappages_maps:
  assumes "pt_ok bound k ps d" and "va AND 0xFFF = 0" and "0 < n" and "4096 * n < 2 ^ 32"
    and "\<And>i. i < n \<Longrightarrow> vpte k d (va + 4096 * of_nat i) AND PTE_P = 0"
  shows "case mappages d va (of_nat (4096 * n)) pa perm k of Inl e \<Rightarrow> False
    | Inr (k', r) \<Rightarrow> \<exists>ps' m. pt_ok bound k' ps' d \<and> grown k d ps k' ps' \<and> mapped (vpte k d) va pa perm m (vpte k' d) \<and>
        (\<forall>i < 1024. present k' d i \<longrightarrow> present k d i \<or> (\<exists>j < n. i = pdx (va + 4096 * of_nat j))) \<and>
        (r = 0 \<and> m = n \<or> r = -1 \<and> m < n \<and> ps' = [] \<and> \<not> present k' d (pdx (va + 4096 * of_nat m)))"
proof -
  obtain k' r where eq: "mappages d va (of_nat (4096 * n)) pa perm k = Inr (k', r)" and
    post: "\<exists>ps' m. pt_ok bound k' ps' d \<and> grown k d ps k' ps' \<and> mapped (vpte k d) va pa perm m (vpte k' d) \<and>
      (\<forall>i < 1024. present k' d i \<longrightarrow> present k d i \<or> (\<exists>j < n. i = pdx (va + 4096 * of_nat j))) \<and>
      (r = 0 \<and> m = n \<or> r = -1 \<and> m < n \<and> ps' = [] \<and> \<not> present k' d (pdx (va + 4096 * of_nat m)))"
    using mappages_base [OF assms, of pa perm] by blast
  show ?thesis unfolding eq sum.case case_prod_conv by (rule post)
qed

lemma demo_two_pages:
  assumes "case mappages 0x80103000 0x5000 (of_nat (4096 * 2)) 0x200000 6 k of Inl e \<Rightarrow> False
    | Inr (k', r) \<Rightarrow> \<exists>ps' m. pt_ok 0x80100400 k' ps' 0x80103000 \<and> grown k 0x80103000 [0x80102000, 0x80101000] k' ps' \<and>
        mapped (vpte k 0x80103000) 0x5000 0x200000 6 m (vpte k' 0x80103000) \<and>
        (\<forall>i < 1024. present k' 0x80103000 i \<longrightarrow> present k 0x80103000 i \<or> (\<exists>j < 2. i = pdx (0x5000 + 4096 * of_nat j))) \<and>
        (r = 0 \<and> m = 2 \<or> r = -1 \<and> m < 2 \<and> ps' = [] \<and> \<not> present k' 0x80103000 (pdx (0x5000 + 4096 * of_nat m)))"
    and "tables k 0x80103000 = {}"
  shows "\<exists>k' ps'. mappages 0x80103000 0x5000 0x2000 0x200000 6 k = Inr (k', 0) \<and> pt_ok 0x80100400 k' ps' 0x80103000 \<and>
    grown k 0x80103000 [0x80102000, 0x80101000] k' ps' \<and> mapped (vpte k 0x80103000) 0x5000 0x200000 6 2 (vpte k' 0x80103000)"
proof -
  let ?d = "0x80103000 :: addr"
  obtain k' r ps' m where h: "mappages ?d 0x5000 0x2000 0x200000 6 k = Inr (k', r)" "grown k ?d [0x80102000, 0x80101000] k' ps'"
      "mapped (vpte k ?d) 0x5000 0x200000 6 m (vpte k' ?d)"
      "\<forall>i < 1024. present k' ?d i \<longrightarrow> present k ?d i \<or> (\<exists>j < 2. i = pdx (0x5000 + 4096 * of_nat j))"
      "r = 0 \<and> m = 2 \<or> r = -1 \<and> m < 2 \<and> ps' = [] \<and> \<not> present k' ?d (pdx (0x5000 + 4096 * of_nat m))"
      "pt_ok 0x80100400 k' ps' ?d"
    using assms(1) by (auto split: sum.splits)
  have low: "pdx (0x5000 + 4096 * of_nat j) = 0" if j: "j < 2" for j
  proof -
    consider "j = 0" | "j = 1" using j by linarith
    then show ?thesis by cases (simp_all add: pdx_def PDX_def)
  qed
  have none: "\<not> present k ?d i" if "i < 1024" for i using assms(2) table_in [OF that, of k ?d] by auto
  have "r = 0"
  proof (rule ccontr)
    assume "r \<noteq> 0"
    then have f: "ps' = []" "\<not> present k' ?d 0" using h(5) low by auto
    then have "tables k' ?d = {0x80102000, 0x80101000}" using h(2) assms(2) by (simp add: grown_def)
    then obtain i where "i < 1024" "present k' ?d i" by (auto simp: tables_def)
    then show False using h(4) low none f(2) by metis
  qed
  then show ?thesis using h by auto
qed

lemma mappages_maps_witness:
  "\<exists>k k'. pt_ok 0x80100400 k [0x80102000, 0x80101000] 0x80103000 \<and> mappages 0x80103000 0x5000 0x2000 0x200000 6 k = Inr (k', 0) \<and>
     vpte k' 0x80103000 0x6010 = 0x201007"
proof -
  let ?d = "0x80103000 :: addr"
  obtain k where k: "pt_ok 0x80100400 k [0x80102000, 0x80101000] ?d" "\<forall>a. vpte k ?d a = 0" "tables k ?d = {}" using demo_directory by blast
  have "\<exists>k' ps'. mappages ?d 0x5000 0x2000 0x200000 6 k = Inr (k', 0) \<and> pt_ok 0x80100400 k' ps' ?d \<and>
      grown k ?d [0x80102000, 0x80101000] k' ps' \<and> mapped (vpte k ?d) 0x5000 0x200000 6 2 (vpte k' ?d)"
    by (rule demo_two_pages [OF mappages_maps [OF k(1)] k(3)]) (simp_all add: k(2))
  then obtain k' where k': "mappages ?d 0x5000 0x2000 0x200000 6 k = Inr (k', 0)" "mapped (vpte k ?d) 0x5000 0x200000 6 2 (vpte k' ?d)" by blast
  then have "vpte k' ?d 0x6010 = (0x200000 + 4096 * of_nat 1) OR 6 OR PTE_P"
    unfolding mapped_def by (auto simp: page_of_def dest: spec [of _ 1])
  then show ?thesis using k'(1) k(1) by (auto simp: PTE_P_def)
qed

lemma demo_user_space:
  "\<exists>k ps. pt_ok 0x80100400 k ps 0x80103000 \<and> user_ok k 0x80103000 \<and>
     (\<forall>a. user_page k 0x80103000 a \<longrightarrow> frame k 0x80103000 a \<notin> set ps) \<and>
     (\<forall>a. page_of a = 0x5000 \<or> page_of a = 0x6000 \<longrightarrow> user_page k 0x80103000 a)"
proof -
  let ?d = "0x80103000 :: addr"
  obtain k where k: "pt_ok 0x80100400 k [0x80102000, 0x80101000] ?d" "\<forall>a. vpte k ?d a = 0" "tables k ?d = {}" "\<forall>u. length (pmem k u) = PGSIZE"
    using demo_directory by blast
  have base: "\<exists>k' r ps' m. mappages ?d 0x5000 (of_nat (4096 * 2)) 0x200000 6 k = Inr (k', r) \<and> pt_ok 0x80100400 k' ps' ?d \<and>
      grown k ?d [0x80102000, 0x80101000] k' ps' \<and> mapped (vpte k ?d) 0x5000 0x200000 6 m (vpte k' ?d) \<and>
      (\<forall>i < 1024. present k' ?d i \<longrightarrow> present k ?d i \<or> (\<exists>j < 2. i = pdx (0x5000 + 4096 * of_nat j))) \<and>
      (r = 0 \<and> m = 2 \<or> r = -1 \<and> m < 2 \<and> ps' = [] \<and> \<not> present k' ?d (pdx (0x5000 + 4096 * of_nat m)))"
    by (rule mappages_base [OF k(1)]) (simp_all add: k(2))
  have "\<exists>k' ps'. mappages ?d 0x5000 0x2000 0x200000 6 k = Inr (k', 0) \<and> pt_ok 0x80100400 k' ps' ?d \<and>
      grown k ?d [0x80102000, 0x80101000] k' ps' \<and> mapped (vpte k ?d) 0x5000 0x200000 6 2 (vpte k' ?d)"
  proof (rule demo_two_pages [OF _ k(3)])
    obtain k' r where eq: "mappages ?d 0x5000 (of_nat (4096 * 2)) 0x200000 6 k = Inr (k', r)" and
      post: "\<exists>ps' m. pt_ok 0x80100400 k' ps' ?d \<and> grown k ?d [0x80102000, 0x80101000] k' ps' \<and>
        mapped (vpte k ?d) 0x5000 0x200000 6 m (vpte k' ?d) \<and>
        (\<forall>i < 1024. present k' ?d i \<longrightarrow> present k ?d i \<or> (\<exists>j < 2. i = pdx (0x5000 + 4096 * of_nat j))) \<and>
        (r = 0 \<and> m = 2 \<or> r = -1 \<and> m < 2 \<and> ps' = [] \<and> \<not> present k' ?d (pdx (0x5000 + 4096 * of_nat m)))"
      using base by blast
    show "case mappages ?d 0x5000 (of_nat (4096 * 2)) 0x200000 6 k of Inl e \<Rightarrow> False
      | Inr (k', r) \<Rightarrow> \<exists>ps' m. pt_ok 0x80100400 k' ps' ?d \<and> grown k ?d [0x80102000, 0x80101000] k' ps' \<and>
        mapped (vpte k ?d) 0x5000 0x200000 6 m (vpte k' ?d) \<and>
        (\<forall>i < 1024. present k' ?d i \<longrightarrow> present k ?d i \<or> (\<exists>j < 2. i = pdx (0x5000 + 4096 * of_nat j))) \<and>
        (r = 0 \<and> m = 2 \<or> r = -1 \<and> m < 2 \<and> ps' = [] \<and> \<not> present k' ?d (pdx (0x5000 + 4096 * of_nat m)))"
      unfolding eq sum.case case_prod_conv by (rule post)
  qed
  then obtain k' ps' where k': "pt_ok 0x80100400 k' ps' ?d" "grown k ?d [0x80102000, 0x80101000] k' ps'"
      "mapped (vpte k ?d) 0x5000 0x200000 6 2 (vpte k' ?d)" by blast
  have v: "vpte k' ?d a = (if page_of a = 0x5000 then 0x200007 else if page_of a = 0x6000 then 0x201007 else 0)" for a
  proof -
    have m1: "\<forall>i < 2. \<forall>x. page_of x = 0x5000 + 4096 * of_nat i \<longrightarrow> vpte k' ?d x = (0x200000 + 4096 * of_nat i) OR 6 OR PTE_P"
      and m2: "\<forall>x. (\<forall>i < 2. page_of x \<noteq> 0x5000 + 4096 * of_nat i) \<longrightarrow> vpte k' ?d x = 0" using k'(3) k(2) by (simp_all add: mapped_def)
    consider "page_of a = 0x5000" | "page_of a = 0x6000" | "page_of a \<noteq> 0x5000" "page_of a \<noteq> 0x6000" by blast
    then show ?thesis
    proof cases
      case 3
      have "page_of a \<noteq> 0x5000 + 4096 * of_nat i" if i: "i < 2" for i
      proof -
        consider "i = 0" | "i = 1" using i by linarith
        then show ?thesis by cases (use 3 in simp_all)
      qed
      then show ?thesis using m2 3 by simp
    qed (use m1 [rule_format, of 0 a] m1 [rule_format, of 1 a] in \<open>simp_all add: PTE_P_def\<close>)
  qed
  have up: "user_page k' ?d a \<longleftrightarrow> page_of a = 0x5000 \<or> page_of a = 0x6000" for a by (simp add: user_page_def v PTE_P_def PTE_U_def)
  have fr: "frame k' ?d a = (if page_of a = 0x5000 then 0x80200000 else 0x80201000)" if "user_page k' ?d a" for a
    using that unfolding up by (auto simp: frame_def v PTE_ADDR_def P2V_def KERNBASE_def)
  have T: "tables k' ?d \<union> set ps' = {0x80102000, 0x80101000}" using k'(2) k(3) by (simp add: grown_def)
  have T1: "0x80200000 \<notin> tables k' ?d \<union> set ps'" "0x80201000 \<notin> tables k' ?d \<union> set ps'" unfolding T by simp_all
  have len: "length (pmem k' u) = PGSIZE" if "u \<notin> {?d, 0x80102000, 0x80101000}" for u
    using that k'(2) k(3,4) by (simp add: grown_def)
  have "user_ok k' ?d" unfolding user_ok_def
  proof (intro conjI allI impI)
    fix a assume a: "user_page k' ?d a"
    show "frame k' ?d a \<notin> insert ?d (tables k' ?d)" using T1 fr [OF a] by (auto split: if_splits)
    show "frame k' ?d a \<noteq> 0" using fr [OF a] by simp
    show "length (pmem k' (frame k' ?d a)) = PGSIZE" using fr [OF a] len by simp
  next
    fix a b assume "user_page k' ?d a" "user_page k' ?d b" "frame k' ?d a = frame k' ?d b"
    then show "page_of a = page_of b" using fr [of a] fr [of b] unfolding up by (auto split: if_splits)
  qed
  moreover have "\<forall>a. user_page k' ?d a \<longrightarrow> frame k' ?d a \<notin> set ps'" using T1 fr by (auto split: if_splits)
  ultimately show ?thesis using k'(1) up by blast
qed

text \<open>
  C17 (copyout_writes): \<open>copyout\<close> to user pages returns 0, and afterwards the process' memory, read through its page table, has the bytes of
  the buffer at \<open>va\<close> and is otherwise as it was, whatever pages the range crosses; the page tables are unchanged.
\<close>

theorem copyout_writes:
  assumes "pt_ok bound k ps d" and "user_ok k d" and "\<forall>a. user_page k d a \<longrightarrow> frame k d a \<notin> set ps"
    and "unat va + length buf \<le> 2 ^ 32" and "\<forall>i < length buf. user_page k d (va + of_nat i)"
  shows "\<exists>k'. copyout d va buf k = Inr (k', 0) \<and> pt_ok bound k' ps d \<and> (\<forall>b. vpte k' d b = vpte k d b) \<and>
    (\<forall>b. ubyte k' d b = (if unat va \<le> unat b \<and> unat b < unat va + length buf then Some (buf ! (unat b - unat va)) else ubyte k d b))"
  using copyout_spec [OF assms] by blast

lemma copyout_writes_witness:
  "\<exists>k k'. copyout 0x80103000 0x5FFF [7, 8] k = Inr (k', 0) \<and> ubyte k' 0x80103000 0x6000 = Some 8 \<and>
     ubyte k' 0x80103000 0x6001 = ubyte k 0x80103000 0x6001"
proof -
  obtain k ps where k: "pt_ok 0x80100400 k ps 0x80103000" "user_ok k 0x80103000"
      "\<forall>a. user_page k 0x80103000 a \<longrightarrow> frame k 0x80103000 a \<notin> set ps"
      "\<forall>a. page_of a = 0x5000 \<or> page_of a = 0x6000 \<longrightarrow> user_page k 0x80103000 a" using demo_user_space by blast
  have "\<forall>i < length [7 :: byte, 8]. user_page k 0x80103000 (0x5FFF + of_nat i)"
    using k(4) by (auto simp: less_Suc_eq page_of_def)
  from copyout_writes [OF k(1-3) _ this] obtain k' where k': "copyout 0x80103000 0x5FFF [7, 8] k = Inr (k', 0)"
      "\<forall>b. ubyte k' 0x80103000 b = (if unat (0x5FFF :: addr) \<le> unat b \<and> unat b < unat (0x5FFF :: addr) + 2
         then Some ([7, 8] ! (unat b - unat (0x5FFF :: addr))) else ubyte k 0x80103000 b)"
    by auto
  show ?thesis using k'(1) k'(2) [rule_format, of "0x6000"] k'(2) [rule_format, of "0x6001"] by auto
qed

end
