(* ===== verification/Process.thy ===== *)
theory Process
  imports VM
begin

text \<open>
  Processes (proc.c, proc.h): the process table, creation, exit and reaping of processes, sleeping and waking, and the
  scheduler of every CPU.

  A process is its slot in \<open>ptable.proc\<close>, the null pointer \<open>-1\<close>. Every section under \<open>ptable.lock\<close> is one step. \<open>fork\<close> is two steps:
  \<open>fork_start\<close>, the section in which \<open>allocproc\<close> takes a slot, and \<open>fork_finish\<close>, all that follows. Between them the slot is in state
  \<open>EMBRYO\<close>, seen by the other CPUs (\<open>kill\<close> can mark it), and the caller keeps it in its local variable \<open>np\<close>, here the field \<open>p_np\<close>
  of the process (\<open>-1\<close> outside of \<open>fork\<close>). \<open>exit\<close> closes its files before its locked section, in the same step, as only its own slot changes there. A process
  that calls \<open>sched\<close> leaves its CPU: it goes on, with the lock still held, when a scheduler picks it again, and \<open>sleep\<close> then
  clears \<open>chan\<close>; that is part of the scheduler's step. \<open>nextpid\<close> is a C \<open>int\<close> and wraps at 32 bits. The registers saved by \<open>swtch\<close> are not modelled.

  Open files and directories belong to other parts of the kernel: \<open>files\<close> collects the operations on them that processes
  call, over a state \<open>env\<close> of their own. \<open>bound\<close> and \<open>dataseg\<close> are the linker's symbols \<open>end\<close> and \<open>data\<close>.
\<close>

definition NPROC :: nat where "NPROC = 64"
definition NOFILE :: nat where "NOFILE = 16"

datatype procstate = UNUSED | EMBRYO | SLEEPING | RUNNABLE | RUNNING | ZOMBIE

text \<open>What a process sleeps on: nothing, a process (the address of its slot), or some other address.\<close>

datatype chan = NoChan | ProcChan nat | Chan addr

record trapframe =
  tf_eax :: addr
  tf_cs :: addr
  tf_ds :: addr
  tf_es :: addr
  tf_ss :: addr
  tf_eflags :: addr
  tf_esp :: addr
  tf_eip :: addr
  tf_rest :: "addr list"

record proc =
  p_sz :: addr
  p_pgdir :: addr
  p_kstack :: addr
  p_state :: procstate
  p_pid :: int
  p_parent :: int
  p_tf :: trapframe
  p_chan :: chan
  p_killed :: int
  p_ofile :: "int list"
  p_cwd :: int
  p_name :: "byte list"
  p_np :: int

text \<open>A CPU: the process it runs, and where its scheduler is in the table.\<close>

record cpu =
  c_proc :: int
  c_pos :: nat

record 'e kern =
  km :: kmem
  ptab :: "proc list"
  nextpid :: int
  initproc :: int
  cpus :: "cpu list"
  env :: 'e

text \<open>\<open>filedup\<close> and \<open>idup\<close> return their argument; the last does \<open>begin_op\<close>, \<open>iput\<close>, \<open>end_op\<close>.\<close>

record 'e files =
  do_filedup :: "int \<Rightarrow> 'e \<Rightarrow> 'e res"
  do_fileclose :: "int \<Rightarrow> 'e \<Rightarrow> 'e res"
  do_idup :: "int \<Rightarrow> 'e \<Rightarrow> 'e res"
  do_iput :: "int \<Rightarrow> 'e \<Rightarrow> 'e res"

definition upd_proc :: "nat \<Rightarrow> (proc \<Rightarrow> proc) \<Rightarrow> 'e kern \<Rightarrow> 'e kern" where
  "upd_proc i f k = k\<lparr>ptab := (ptab k)[i := f (ptab k ! i)]\<rparr>"

definition first_proc :: "(proc \<Rightarrow> bool) \<Rightarrow> proc list \<Rightarrow> nat option" where
  "first_proc P ps = List.find (\<lambda>i. P (ps ! i)) [0..<length ps]"

definition chan_of :: "int \<Rightarrow> chan" where
  "chan_of p = (if p < 0 then NoChan else ProcChan (nat p))"

subsection \<open>Creation\<close>

text \<open>Arithmetic of a C \<open>int\<close>.\<close>

definition wrap32 :: "int \<Rightarrow> int" where
  "wrap32 x = sint (word_of_int x :: 32 word)"

text \<open>
  The section of \<open>allocproc\<close> under \<open>ptable.lock\<close>, and what it does behind it; \<open>junk\<close> is the former contents of the new kernel stack,
  where the trap frame lies.
\<close>

definition allocproc_slot :: "'e kern \<Rightarrow> 'e kern \<times> int" where
  "allocproc_slot k =
     (case first_proc (\<lambda>p. p_state p = UNUSED) (ptab k) of
        None \<Rightarrow> (k, -1)
      | Some i \<Rightarrow> ((upd_proc i (\<lambda>p. p\<lparr>p_state := EMBRYO, p_pid := nextpid k\<rparr>) k)\<lparr>nextpid := wrap32 (nextpid k + 1)\<rparr>, int i))"

definition allocproc_stack :: "trapframe \<Rightarrow> nat \<Rightarrow> 'e kern \<Rightarrow> ('e kern \<times> int) res" where
  "allocproc_stack junk i k =
     rbind (kalloc (km k)) (\<lambda>(m, sk).
     let k1 = upd_proc i (\<lambda>p. p\<lparr>p_kstack := sk\<rparr>) (k\<lparr>km := m\<rparr>) in
     if sk = 0 then Inr (upd_proc i (\<lambda>p. p\<lparr>p_state := UNUSED\<rparr>) k1, -1)
     else Inr (upd_proc i (\<lambda>p. p\<lparr>p_tf := junk\<rparr>) k1, int i))"

definition allocproc :: "trapframe \<Rightarrow> 'e kern \<Rightarrow> ('e kern \<times> int) res" where
  "allocproc junk k =
     (let (k1, i) = allocproc_slot k in if i < 0 then Inr (k1, -1) else allocproc_stack junk (nat i) k1)"

text \<open>\<open>initcode\<close> is the program of the first process, \<open>root\<close> the inode of the root directory, \<open>''initcode''\<close> its name.\<close>

definition userinit :: "addr \<Rightarrow> addr \<Rightarrow> trapframe \<Rightarrow> byte list \<Rightarrow> byte list \<Rightarrow> int \<Rightarrow> 'e kern \<Rightarrow> 'e kern res" where
  "userinit bound dataseg junk initcode name root k =
     rbind (allocproc junk k) (\<lambda>(k1, i).
     if i < 0 then Inl OutOfBounds
     else
       let k2 = k1\<lparr>initproc := i\<rparr> in
       rbind (setupkvm bound dataseg (km k2)) (\<lambda>(m, d).
       if d = 0 then Inl (Panic ''userinit: out of memory?'')
       else rbind (inituvm d initcode m) (\<lambda>m1.
         let k3 = upd_proc (nat i) (\<lambda>p. p\<lparr>p_pgdir := d, p_sz := of_nat PGSIZE,
           p_tf := \<lparr>tf_eax = 0, tf_cs = 0x1B, tf_ds = 0x23, tf_es = 0x23, tf_ss = 0x23, tf_eflags = 0x200,
             tf_esp = of_nat PGSIZE, tf_eip = 0, tf_rest = []\<rparr>\<rparr>) (k2\<lparr>km := m1\<rparr>) in
         rbind (safestrcpy (p_name (ptab k3 ! nat i)) 0 name 16) (\<lambda>nm.
         Inr (upd_proc (nat i) (\<lambda>p. p\<lparr>p_name := nm, p_cwd := root, p_state := RUNNABLE\<rparr>) k3)))))"

definition growproc :: "addr \<Rightarrow> nat \<Rightarrow> int \<Rightarrow> 'e kern \<Rightarrow> ('e kern \<times> int) res" where
  "growproc bound cur n k =
     (let p = ptab k ! cur; sz = p_sz p in
      rbind (if n > 0 then allocuvm bound (p_pgdir p) sz (sz + word_of_int n) (km k)
             else if n < 0 then deallocuvm bound (p_pgdir p) sz (sz + word_of_int n) (km k)
             else Inr (km k, sz)) (\<lambda>(m, sz1).
      if n \<noteq> 0 \<and> sz1 = 0 then Inr (k\<lparr>km := m\<rparr>, -1)
      else Inr (upd_proc cur (\<lambda>p. p\<lparr>p_sz := sz1\<rparr>) (k\<lparr>km := m\<rparr>), 0)))"

text \<open>
  The two steps of \<open>fork\<close>. The first leaves the slot in \<open>np\<close>, or ends with the result -1 and \<open>np\<close> as it was if there is none; the
  second is the rest of \<open>allocproc\<close> and of \<open>fork\<close>.
\<close>

definition fork_start :: "nat \<Rightarrow> 'e kern \<Rightarrow> 'e kern" where
  "fork_start cur k = (let (k1, i) = allocproc_slot k in if i < 0 then k1 else upd_proc cur (\<lambda>p. p\<lparr>p_np := i\<rparr>) k1)"

definition fork_finish :: "'e files \<Rightarrow> addr \<Rightarrow> addr \<Rightarrow> trapframe \<Rightarrow> nat \<Rightarrow> 'e kern \<Rightarrow> ('e kern \<times> int) res" where
  "fork_finish fs bound dataseg junk cur k =
     (let np = nat (p_np (ptab k ! cur)); k0 = upd_proc cur (\<lambda>p. p\<lparr>p_np := -1\<rparr>) k in
      rbind (allocproc_stack junk np k0) (\<lambda>(k1, i).
      if i < 0 then Inr (k1, -1)
      else
        let c = ptab k1 ! cur in
        rbind (copyuvm bound dataseg (p_pgdir c) (p_sz c) (km k1)) (\<lambda>(m, d).
        if d = 0 then
          rbind (kfree bound (p_kstack (ptab k1 ! np)) m) (\<lambda>m1.
          Inr (upd_proc np (\<lambda>p. p\<lparr>p_pgdir := 0, p_kstack := 0, p_state := UNUSED\<rparr>) (k1\<lparr>km := m1\<rparr>), -1))
        else
          let k2 = upd_proc np (\<lambda>p. p\<lparr>p_pgdir := d, p_sz := p_sz c, p_parent := int cur,
            p_tf := (p_tf c)\<lparr>tf_eax := 0\<rparr>\<rparr>) (k1\<lparr>km := m\<rparr>) in
          rbind (for_each (\<lambda>fd k. if p_ofile c ! fd \<noteq> 0 then
              rbind (do_filedup fs (p_ofile c ! fd) (env k)) (\<lambda>e.
              cont (upd_proc np (\<lambda>p. p\<lparr>p_ofile := (p_ofile p)[fd := p_ofile c ! fd]\<rparr>) (k\<lparr>env := e\<rparr>))) else cont k) [0..<NOFILE] k2) (\<lambda>k3.
          rbind (do_idup fs (p_cwd c) (env k3)) (\<lambda>e.
          rbind (safestrcpy (p_name (ptab k3 ! np)) 0 (p_name c) 16) (\<lambda>nm.
          let k4 = upd_proc np (\<lambda>p. p\<lparr>p_cwd := p_cwd c, p_name := nm\<rparr>) (k3\<lparr>env := e\<rparr>) in
          Inr (upd_proc np (\<lambda>p. p\<lparr>p_state := RUNNABLE\<rparr>) k4, p_pid (ptab k4 ! np))))))))"

subsection \<open>Sleeping and waking\<close>

text \<open>The calling process leaves its CPU; the scheduler there goes on behind it.\<close>

definition leave_cpu :: "nat \<Rightarrow> 'e kern \<Rightarrow> 'e kern" where
  "leave_cpu p k = k\<lparr>cpus := map (\<lambda>c. if c_proc c = int p then c\<lparr>c_proc := -1\<rparr> else c) (cpus k)\<rparr>"

definition wakeup1 :: "chan \<Rightarrow> 'e kern \<Rightarrow> 'e kern" where
  "wakeup1 ch k = k\<lparr>ptab := map (\<lambda>p. if p_state p = SLEEPING \<and> p_chan p = ch then p\<lparr>p_state := RUNNABLE\<rparr> else p) (ptab k)\<rparr>"

definition wakeup :: "chan \<Rightarrow> 'e kern \<Rightarrow> 'e kern" where
  "wakeup ch k = wakeup1 ch k"

definition sleep :: "nat \<Rightarrow> chan \<Rightarrow> 'e kern \<Rightarrow> 'e kern" where
  "sleep p ch k = leave_cpu p (upd_proc p (\<lambda>q. q\<lparr>p_chan := ch, p_state := SLEEPING\<rparr>) k)"

definition yield :: "nat \<Rightarrow> 'e kern \<Rightarrow> 'e kern" where
  "yield p k = leave_cpu p (upd_proc p (\<lambda>q. q\<lparr>p_state := RUNNABLE\<rparr>) k)"

definition kill :: "int \<Rightarrow> 'e kern \<Rightarrow> 'e kern \<times> int" where
  "kill pid k =
     (case first_proc (\<lambda>p. p_pid p = pid) (ptab k) of
        None \<Rightarrow> (k, -1)
      | Some i \<Rightarrow> (upd_proc i (\<lambda>p. p\<lparr>p_killed := 1, p_state := (if p_state p = SLEEPING then RUNNABLE else p_state p)\<rparr>) k, 0))"

subsection \<open>Exit and wait\<close>

definition close_files :: "'e files \<Rightarrow> nat \<Rightarrow> 'e kern \<Rightarrow> 'e kern res" where
  "close_files fs cur k =
     for_each (\<lambda>fd k. if p_ofile (ptab k ! cur) ! fd \<noteq> 0 then
         rbind (do_fileclose fs (p_ofile (ptab k ! cur) ! fd) (env k)) (\<lambda>e.
         cont (upd_proc cur (\<lambda>p. p\<lparr>p_ofile := (p_ofile p)[fd := 0]\<rparr>) (k\<lparr>env := e\<rparr>))) else cont k) [0..<NOFILE] k"

text \<open>The abandoned children go to the first process.\<close>

definition adopt :: "nat \<Rightarrow> nat \<Rightarrow> 'e kern \<Rightarrow> 'e kern" where
  "adopt cur i k =
     (if p_parent (ptab k ! i) = int cur then
        let k1 = upd_proc i (\<lambda>p. p\<lparr>p_parent := initproc k\<rparr>) k in
        if p_state (ptab k1 ! i) = ZOMBIE then wakeup1 (chan_of (initproc k1)) k1 else k1
      else k)"

definition exit :: "'e files \<Rightarrow> nat \<Rightarrow> 'e kern \<Rightarrow> 'e kern res" where
  "exit fs cur k =
     (if int cur = initproc k then Inl (Panic ''init exiting'')
      else rbind (close_files fs cur k) (\<lambda>k1.
        rbind (do_iput fs (p_cwd (ptab k1 ! cur)) (env k1)) (\<lambda>e.
        let k2 = upd_proc cur (\<lambda>p. p\<lparr>p_cwd := 0\<rparr>) (k1\<lparr>env := e\<rparr>);
            k3 = wakeup1 (chan_of (p_parent (ptab k2 ! cur))) k2;
            k4 = fold (adopt cur) [0..<NPROC] k3
        in Inr (leave_cpu cur (upd_proc cur (\<lambda>p. p\<lparr>p_state := ZOMBIE\<rparr>) k4)))))"

datatype waited = Reaped int | NoKids | Blocked

text \<open>One turn of the loop of \<open>wait\<close>: the scan of the table, and the decision after it.\<close>

definition reap :: "addr \<Rightarrow> nat \<Rightarrow> 'e kern \<Rightarrow> 'e kern res" where
  "reap bound i k =
     rbind (kfree bound (p_kstack (ptab k ! i)) (km k)) (\<lambda>m.
     rbind (freevm bound (p_pgdir (ptab k ! i)) m) (\<lambda>m1.
     Inr (upd_proc i (\<lambda>p. p\<lparr>p_kstack := 0, p_pid := 0, p_parent := -1, p_name := (p_name p)[0 := 0], p_killed := 0, p_state := UNUSED\<rparr>)
       (k\<lparr>km := m1\<rparr>))))"

definition wait :: "addr \<Rightarrow> nat \<Rightarrow> 'e kern \<Rightarrow> ('e kern \<times> waited) res" where
  "wait bound cur k =
     (case first_proc (\<lambda>p. p_parent p = int cur \<and> p_state p = ZOMBIE) (ptab k) of
        Some i \<Rightarrow> rbind (reap bound i k) (\<lambda>k1. Inr (k1, Reaped (p_pid (ptab k ! i))))
      | None \<Rightarrow>
          if first_proc (\<lambda>p. p_parent p = int cur) (ptab k) = None \<or> p_killed (ptab k ! cur) \<noteq> 0 then Inr (k, NoKids)
          else Inr (sleep cur (ProcChan cur) k, Blocked))"

subsection \<open>The scheduler\<close>

text \<open>The next step of the scheduler on CPU \<open>c\<close>: it goes on in the table from where it was, and starts again at its end.\<close>

definition scheduler :: "nat \<Rightarrow> 'e kern \<Rightarrow> 'e kern" where
  "scheduler c k =
     (case List.find (\<lambda>i. p_state (ptab k ! i) = RUNNABLE) [c_pos (cpus k ! c)..<length (ptab k)] of
        None \<Rightarrow> k\<lparr>cpus := (cpus k)[c := (cpus k ! c)\<lparr>c_pos := 0\<rparr>]\<rparr>
      | Some i \<Rightarrow> upd_proc i (\<lambda>p. p\<lparr>p_state := RUNNING, p_chan := NoChan\<rparr>)
          (k\<lparr>cpus := (cpus k)[c := (cpus k ! c)\<lparr>c_proc := int i, c_pos := i + 1\<rparr>]\<rparr>))"

end
