(* ===== verification/Proc_Correct.thy ===== *)
theory Proc_Correct
  imports Process
begin

text \<open>
  Correctness of the process table: the invariant \<open>pt_inv\<close> of the table and the CPUs, its preservation by every operation, the
  reachable states, and what \<open>exit\<close>, \<open>wait\<close> and \<open>kill\<close> do together.
\<close>

abbreviation st :: "'e kern \<Rightarrow> nat \<Rightarrow> procstate" where "st k i \<equiv> p_state (ptab k ! i)"
abbreviation pid_of :: "'e kern \<Rightarrow> nat \<Rightarrow> int" where "pid_of k i \<equiv> p_pid (ptab k ! i)"
abbreviation par :: "'e kern \<Rightarrow> nat \<Rightarrow> int" where "par k i \<equiv> p_parent (ptab k ! i)"
abbreviation np_of :: "'e kern \<Rightarrow> nat \<Rightarrow> int" where "np_of k i \<equiv> p_np (ptab k ! i)"
abbreviation chan_at :: "'e kern \<Rightarrow> nat \<Rightarrow> chan" where "chan_at k i \<equiv> p_chan (ptab k ! i)"

definition alive :: "procstate \<Rightarrow> bool" where
  "alive s \<longleftrightarrow> s = SLEEPING \<or> s = RUNNABLE \<or> s = RUNNING"

text \<open>A slot without a process: unused, or taken by a \<open>fork\<close> that is under way.\<close>

definition vacant :: "procstate \<Rightarrow> bool" where
  "vacant s \<longleftrightarrow> s = UNUSED \<or> s = EMBRYO"

text \<open>
  The invariant: the first process lives; a process runs exactly if it is on a CPU, and on one only;
  every process but the first has a parent that lives, and a slot without a process has none; nobody waits for a child
  while having one to reap; and every process in the middle of \<open>fork\<close> has a slot of its own in state \<open>EMBRYO\<close>.
\<close>

definition pt_inv :: "'e kern \<Rightarrow> bool" where
  "pt_inv k \<longleftrightarrow> length (ptab k) = NPROC \<and>
     (\<exists>i < NPROC. initproc k = int i \<and> alive (st k i)) \<and>
     (\<forall>c < length (cpus k). c_proc (cpus k ! c) = -1 \<or> (\<exists>p < NPROC. c_proc (cpus k ! c) = int p \<and> st k p = RUNNING)) \<and>
     (\<forall>p < NPROC. st k p = RUNNING \<longrightarrow> (\<exists>c < length (cpus k). c_proc (cpus k ! c) = int p)) \<and>
     (\<forall>c < length (cpus k). \<forall>d < length (cpus k). c_proc (cpus k ! c) = c_proc (cpus k ! d) \<longrightarrow> c_proc (cpus k ! c) \<noteq> -1 \<longrightarrow> c = d) \<and>
     (\<forall>q < NPROC. \<not> vacant (st k q) \<longrightarrow> int q \<noteq> initproc k \<longrightarrow> (\<exists>p < NPROC. par k q = int p \<and> alive (st k p))) \<and>
     (\<forall>q < NPROC. vacant (st k q) \<or> int q = initproc k \<longrightarrow> par k q = -1) \<and>
     (\<forall>p < NPROC. st k p = SLEEPING \<and> chan_at k p = ProcChan p \<longrightarrow> (\<forall>q < NPROC. \<not> (par k q = int p \<and> st k q = ZOMBIE))) \<and>
     (\<forall>q < NPROC. par k q \<noteq> int q) \<and>
     (\<forall>p < NPROC. np_of k p = -1 \<or> (\<exists>i < NPROC. np_of k p = int i \<and> st k i = EMBRYO)) \<and>
     (\<forall>p < NPROC. \<forall>q < NPROC. np_of k p = np_of k q \<longrightarrow> np_of k p \<noteq> -1 \<longrightarrow> p = q)"

text \<open>What the invariant depends on.\<close>

definition core :: "proc \<Rightarrow> procstate \<times> int \<times> int \<times> chan \<times> int" where
  "core p = (p_state p, p_pid p, p_parent p, p_chan p, p_np p)"

definition same_core :: "'e kern \<Rightarrow> 'e kern \<Rightarrow> bool" where
  "same_core k k' \<longleftrightarrow> map core (ptab k') = map core (ptab k) \<and> nextpid k' = nextpid k \<and> initproc k' = initproc k \<and>
     map c_proc (cpus k') = map c_proc (cpus k)"

lemma same_core_refl [simp]: "same_core k k"
  by (simp add: same_core_def)

lemma same_core_trans: "same_core k k1 \<Longrightarrow> same_core k1 k2 \<Longrightarrow> same_core k k2"
  by (simp add: same_core_def)

lemma same_coreD:
  assumes "same_core k k'"
  shows "length (ptab k') = length (ptab k)" "length (cpus k') = length (cpus k)" "nextpid k' = nextpid k" "initproc k' = initproc k"
    and "i < length (ptab k) \<Longrightarrow> st k' i = st k i \<and> pid_of k' i = pid_of k i \<and> par k' i = par k i \<and> chan_at k' i = chan_at k i \<and> np_of k' i = np_of k i"
    and "c < length (cpus k) \<Longrightarrow> c_proc (cpus k' ! c) = c_proc (cpus k ! c)"
proof -
  have m: "map core (ptab k') = map core (ptab k)" "map c_proc (cpus k') = map c_proc (cpus k)" using assms by (simp_all add: same_core_def)
  show l: "length (ptab k') = length (ptab k)" "length (cpus k') = length (cpus k)" using m map_eq_imp_length_eq by blast+
  show "nextpid k' = nextpid k" "initproc k' = initproc k" using assms by (simp_all add: same_core_def)
  show "st k' i = st k i \<and> pid_of k' i = pid_of k i \<and> par k' i = par k i \<and> chan_at k' i = chan_at k i \<and> np_of k' i = np_of k i" if i: "i < length (ptab k)"
  proof -
    have "map core (ptab k') ! i = map core (ptab k) ! i" using m(1) by simp
    then show ?thesis using i l(1) by (simp add: core_def)
  qed
  show "c_proc (cpus k' ! c) = c_proc (cpus k ! c)" if c: "c < length (cpus k)"
  proof -
    have "map c_proc (cpus k') ! c = map c_proc (cpus k) ! c" using m(2) by simp
    then show ?thesis using c l(2) by simp
  qed
qed

lemma pt_inv_same: assumes "same_core k k'" and "pt_inv k" shows "pt_inv k'"
proof -
  have l: "length (ptab k) = NPROC" using assms(2) by (simp add: pt_inv_def)
  note s = same_coreD(1-4) [OF assms(1)] same_coreD(5) [OF assms(1)] same_coreD(6) [OF assms(1)]
  show ?thesis using assms(2) unfolding pt_inv_def by (simp add: s l cong: conj_cong imp_cong)
qed

lemma upd_proc_simps [simp]:
  "length (ptab (upd_proc i f k)) = length (ptab k)" "cpus (upd_proc i f k) = cpus k" "nextpid (upd_proc i f k) = nextpid k"
  "initproc (upd_proc i f k) = initproc k" "env (upd_proc i f k) = env k" "km (upd_proc i f k) = km k"
  by (simp_all add: upd_proc_def)

lemma ptab_upd [simp]: "i < length (ptab k) \<Longrightarrow> ptab (upd_proc i f k) ! j = (if j = i then f (ptab k ! i) else ptab k ! j)"
  by (auto simp: upd_proc_def nth_list_update)

lemma same_core_upd: "core (f (ptab k ! i)) = core (ptab k ! i) \<Longrightarrow> same_core k (upd_proc i f k)"
  by (cases "i < length (ptab k)") (simp_all add: same_core_def upd_proc_def map_update list_update_same_conv list_update_beyond)

lemma first_proc_Some: "first_proc P ps = Some i \<longleftrightarrow> i < length ps \<and> P (ps ! i) \<and> (\<forall>j < i. \<not> P (ps ! j))"
  by (auto simp: first_proc_def find_Some_iff)

lemma first_proc_None: "first_proc P ps = None \<longleftrightarrow> (\<forall>i < length ps. \<not> P (ps ! i))"
  by (simp add: first_proc_def find_None_iff)

lemma pt_invD:
  assumes "pt_inv k"
  shows inv_len: "length (ptab k) = NPROC"
    and inv_init: "\<exists>i < NPROC. initproc k = int i \<and> alive (st k i)"
    and inv_cpu: "c < length (cpus k) \<Longrightarrow> c_proc (cpus k ! c) = -1 \<or> (\<exists>p < NPROC. c_proc (cpus k ! c) = int p \<and> st k p = RUNNING)"
    and inv_running: "p < NPROC \<Longrightarrow> st k p = RUNNING \<Longrightarrow> \<exists>c < length (cpus k). c_proc (cpus k ! c) = int p"
    and inv_one_cpu: "c < length (cpus k) \<Longrightarrow> d < length (cpus k) \<Longrightarrow> c_proc (cpus k ! c) = c_proc (cpus k ! d) \<Longrightarrow>
      c_proc (cpus k ! c) \<noteq> -1 \<Longrightarrow> c = d"
    and inv_parent: "q < NPROC \<Longrightarrow> \<not> vacant (st k q) \<Longrightarrow> int q \<noteq> initproc k \<Longrightarrow> \<exists>p < NPROC. par k q = int p \<and> alive (st k p)"
    and inv_none: "q < NPROC \<Longrightarrow> vacant (st k q) \<or> int q = initproc k \<Longrightarrow> par k q = -1"
    and inv_wakeup: "p < NPROC \<Longrightarrow> q < NPROC \<Longrightarrow> st k p = SLEEPING \<Longrightarrow> chan_at k p = ProcChan p \<Longrightarrow> par k q = int p \<Longrightarrow> st k q \<noteq> ZOMBIE"
    and inv_self: "q < NPROC \<Longrightarrow> par k q \<noteq> int q"
    and inv_np: "p < NPROC \<Longrightarrow> np_of k p = -1 \<or> (\<exists>i < NPROC. np_of k p = int i \<and> st k i = EMBRYO)"
    and inv_np_one: "p < NPROC \<Longrightarrow> q < NPROC \<Longrightarrow> np_of k p = np_of k q \<Longrightarrow> np_of k p \<noteq> -1 \<Longrightarrow> p = q"
  using assms unfolding pt_inv_def by blast+

lemma pt_invI:
  assumes "length (ptab k) = NPROC"
    and "\<exists>i < NPROC. initproc k = int i \<and> alive (st k i)"
    and "\<And>c. c < length (cpus k) \<Longrightarrow> c_proc (cpus k ! c) = -1 \<or> (\<exists>p < NPROC. c_proc (cpus k ! c) = int p \<and> st k p = RUNNING)"
    and "\<And>p. p < NPROC \<Longrightarrow> st k p = RUNNING \<Longrightarrow> \<exists>c < length (cpus k). c_proc (cpus k ! c) = int p"
    and "\<And>c d. c < length (cpus k) \<Longrightarrow> d < length (cpus k) \<Longrightarrow> c_proc (cpus k ! c) = c_proc (cpus k ! d) \<Longrightarrow>
      c_proc (cpus k ! c) \<noteq> -1 \<Longrightarrow> c = d"
    and "\<And>q. q < NPROC \<Longrightarrow> \<not> vacant (st k q) \<Longrightarrow> int q \<noteq> initproc k \<Longrightarrow> \<exists>p < NPROC. par k q = int p \<and> alive (st k p)"
    and "\<And>q. q < NPROC \<Longrightarrow> vacant (st k q) \<or> int q = initproc k \<Longrightarrow> par k q = -1"
    and "\<And>p q. p < NPROC \<Longrightarrow> q < NPROC \<Longrightarrow> st k p = SLEEPING \<Longrightarrow> chan_at k p = ProcChan p \<Longrightarrow> par k q = int p \<Longrightarrow> st k q \<noteq> ZOMBIE"
    and "\<And>q. q < NPROC \<Longrightarrow> par k q \<noteq> int q"
    and "\<And>p. p < NPROC \<Longrightarrow> np_of k p = -1 \<or> (\<exists>i < NPROC. np_of k p = int i \<and> st k i = EMBRYO)"
    and "\<And>p q. p < NPROC \<Longrightarrow> q < NPROC \<Longrightarrow> np_of k p = np_of k q \<Longrightarrow> np_of k p \<noteq> -1 \<Longrightarrow> p = q"
  shows "pt_inv k"
  using assms unfolding pt_inv_def by blast

lemma np_keep:
  assumes "pt_inv k" and "\<And>p. p < NPROC \<Longrightarrow> np_of k' p = np_of k p" and "\<And>p. p < NPROC \<Longrightarrow> st k p = EMBRYO \<Longrightarrow> st k' p = EMBRYO"
  shows "p < NPROC \<Longrightarrow> np_of k' p = -1 \<or> (\<exists>i < NPROC. np_of k' p = int i \<and> st k' i = EMBRYO)"
    and "p < NPROC \<Longrightarrow> q < NPROC \<Longrightarrow> np_of k' p = np_of k' q \<Longrightarrow> np_of k' p \<noteq> -1 \<Longrightarrow> p = q"
proof -
  show "np_of k' p = -1 \<or> (\<exists>i < NPROC. np_of k' p = int i \<and> st k' i = EMBRYO)" if "p < NPROC"
    using inv_np [OF assms(1) that] assms(2) [OF that] assms(3) by auto
  show "p = q" if "p < NPROC" "q < NPROC" "np_of k' p = np_of k' q" "np_of k' p \<noteq> -1"
    using inv_np_one [OF assms(1) that(1,2)] that assms(2) by simp
qed

definition on_cpu :: "nat \<Rightarrow> 'e kern \<Rightarrow> bool" where
  "on_cpu p k \<longleftrightarrow> p < NPROC \<and> st k p = RUNNING"

subsection \<open>Waking and killing: sleeping processes become runnable\<close>

text \<open>\<open>woken k k'\<close>: nothing changed but that some sleeping processes are runnable.\<close>

definition woken :: "'e kern \<Rightarrow> 'e kern \<Rightarrow> bool" where
  "woken k k' \<longleftrightarrow> length (ptab k') = length (ptab k) \<and> cpus k' = cpus k \<and> nextpid k' = nextpid k \<and> initproc k' = initproc k \<and>
     (\<forall>i < length (ptab k). pid_of k' i = pid_of k i \<and> par k' i = par k i \<and> chan_at k' i = chan_at k i \<and> np_of k' i = np_of k i \<and>
        (st k' i = st k i \<or> st k i = SLEEPING \<and> st k' i = RUNNABLE))"

lemma woken_inv: assumes "woken k k'" and "pt_inv k" shows "pt_inv k'"
proof -
  note d = pt_invD [OF assms(2)]
  have l: "length (ptab k) = NPROC" by (rule d(1))
  have w: "length (ptab k') = NPROC" "cpus k' = cpus k" "nextpid k' = nextpid k" "initproc k' = initproc k"
    using assms(1) l by (simp_all add: woken_def)
  have i: "pid_of k' i = pid_of k i" "par k' i = par k i" "chan_at k' i = chan_at k i"
    "st k' i = st k i \<or> st k i = SLEEPING \<and> st k' i = RUNNABLE" "np_of k' i = np_of k i" if "i < NPROC" for i
    using assms(1) that l by (simp_all add: woken_def)
  have a: "alive (st k' i)" if "i < NPROC" "alive (st k i)" for i using i(4) [OF that(1)] that(2) by (auto simp: alive_def)
  have u: "vacant (st k' i) \<longleftrightarrow> vacant (st k i)" "st k' i = RUNNING \<longleftrightarrow> st k i = RUNNING" "st k' i = SLEEPING \<Longrightarrow> st k i = SLEEPING"
    "st k' i = EMBRYO \<longleftrightarrow> st k i = EMBRYO" "st k' i = ZOMBIE \<longleftrightarrow> st k i = ZOMBIE" if "i < NPROC" for i
    using i(4) [OF that] by (auto simp: vacant_def)
  note np = np_keep [of k k', OF assms(2) i(5)]
  show ?thesis
  proof (rule pt_invI)
    show "\<exists>i < NPROC. initproc k' = int i \<and> alive (st k' i)" using d(2) a w by auto
    show "c_proc (cpus k' ! c) = -1 \<or> (\<exists>p < NPROC. c_proc (cpus k' ! c) = int p \<and> st k' p = RUNNING)" if "c < length (cpus k')" for c
      using d(3) [of c] that u(2) by (auto simp: w)
    show "\<exists>c < length (cpus k'). c_proc (cpus k' ! c) = int p" if "p < NPROC" "st k' p = RUNNING" for p
      using d(4) [OF that(1)] that u(2) by (simp add: w)
    show "c = e" if "c < length (cpus k')" "e < length (cpus k')" "c_proc (cpus k' ! c) = c_proc (cpus k' ! e)" "c_proc (cpus k' ! c) \<noteq> -1" for c e
      using d(5) that by (simp add: w)
    show "\<exists>p < NPROC. par k' q = int p \<and> alive (st k' p)" if "q < NPROC" "\<not> vacant (st k' q)" "int q \<noteq> initproc k'" for q
      using d(6) [OF that(1)] that u(1) i(2) a by (auto simp: w)
    show "par k' q = -1" if "q < NPROC" "vacant (st k' q) \<or> int q = initproc k'" for q
      using d(7) [OF that(1)] that u(1) i(2) by (simp add: w)
    show "st k' q \<noteq> ZOMBIE" if "p < NPROC" "q < NPROC" "st k' p = SLEEPING" "chan_at k' p = ProcChan p" "par k' q = int p" for p q
      using d(8) [OF that(1,2)] that u(3,5) i by metis
    show "np_of k' p = -1 \<or> (\<exists>i < NPROC. np_of k' p = int i \<and> st k' i = EMBRYO)" if "p < NPROC" for p
      by (rule np(1)) (use that u(4) in auto)
    show "p = q" if "p < NPROC" "q < NPROC" "np_of k' p = np_of k' q" "np_of k' p \<noteq> -1" for p q
      by (rule np(2)) (use that u(4) in auto)
  qed (use d(9) w i(2) in simp_all)
qed

lemma woken_refl: "woken k k"
  by (simp add: woken_def)

lemma woken_trans: "woken k k1 \<Longrightarrow> woken k1 k2 \<Longrightarrow> woken k k2"
  unfolding woken_def by (metis (no_types, lifting) procstate.distinct)

lemma wakeup1_woken: "woken k (wakeup1 ch k)"
  by (auto simp: woken_def wakeup1_def)

lemma wakeup1_none: "i < length (ptab k) \<Longrightarrow> \<not> (st (wakeup1 ch k) i = SLEEPING \<and> chan_at (wakeup1 ch k) i = ch)"
  by (auto simp: wakeup1_def)

lemma kill_woken: "woken k (fst (kill pid k))"
proof (cases "first_proc (\<lambda>p. p_pid p = pid) (ptab k)")
  case None
  then show ?thesis by (simp add: kill_def woken_def)
next
  case (Some i)
  then have "i < length (ptab k)" by (simp add: first_proc_Some)
  then show ?thesis using Some by (auto simp: kill_def woken_def)
qed

subsection \<open>Leaving and taking a CPU\<close>

lemma leave_simps [simp]:
  "ptab (leave_cpu p k) = ptab k" "nextpid (leave_cpu p k) = nextpid k" "initproc (leave_cpu p k) = initproc k"
  "length (cpus (leave_cpu p k)) = length (cpus k)" "km (leave_cpu p k) = km k" "env (leave_cpu p k) = env k"
  "c < length (cpus k) \<Longrightarrow> c_proc (cpus (leave_cpu p k) ! c) = (if c_proc (cpus k ! c) = int p then -1 else c_proc (cpus k ! c))"
  by (simp_all add: leave_cpu_def)

text \<open>A running process changes its state and leaves: to sleep, to wait for its next turn, or as a zombie.\<close>

lemma leave_inv:
  assumes inv: "pt_inv k" and run: "on_cpu p k"
    and f: "p_pid (f (ptab k ! p)) = pid_of k p" "p_parent (f (ptab k ! p)) = par k p" "p_np (f (ptab k ! p)) = np_of k p"
    and s: "p_state (f (ptab k ! p)) \<in> {SLEEPING, RUNNABLE, ZOMBIE}"
    and z: "p_state (f (ptab k ! p)) = ZOMBIE \<Longrightarrow> int p \<noteq> initproc k \<and> (\<forall>q < NPROC. par k q \<noteq> int p) \<and>
      (\<forall>q < NPROC. par k p = int q \<longrightarrow> \<not> (st k q = SLEEPING \<and> chan_at k q = ProcChan q))"
    and w: "p_state (f (ptab k ! p)) = SLEEPING \<Longrightarrow> p_chan (f (ptab k ! p)) = ProcChan p \<Longrightarrow> \<forall>q < NPROC. par k q = int p \<longrightarrow> st k q \<noteq> ZOMBIE"
  shows "pt_inv (leave_cpu p (upd_proc p f k))"
proof -
  define k' where "k' = leave_cpu p (upd_proc p f k)"
  let ?s = "p_state (f (ptab k ! p))"
  note d = pt_invD [OF inv]
  have p: "p < NPROC" "st k p = RUNNING" using run by (simp_all add: on_cpu_def)
  have i: "st k' i = (if i = p then ?s else st k i)" "pid_of k' i = pid_of k i" "par k' i = par k i"
    "chan_at k' i = (if i = p then p_chan (f (ptab k ! p)) else chan_at k i)" "np_of k' i = np_of k i" for i
    using f d(1) p(1) by (simp_all add: k'_def)
  have g: "nextpid k' = nextpid k" "initproc k' = initproc k" "length (cpus k') = length (cpus k)" "length (ptab k') = NPROC"
    "c < length (cpus k) \<Longrightarrow> c_proc (cpus k' ! c) = (if c_proc (cpus k ! c) = int p then -1 else c_proc (cpus k ! c))" for c
    using d(1) by (simp_all add: k'_def)
  have al: "alive (st k' i) \<longleftrightarrow> alive (st k i) \<and> (i = p \<longrightarrow> ?s \<noteq> ZOMBIE)" for i using s p(2) by (auto simp: i alive_def)
  have un: "vacant (st k' i) \<longleftrightarrow> vacant (st k i)" for i using s p(2) by (auto simp: i vacant_def)
  have em: "st k i = EMBRYO \<Longrightarrow> st k' i = EMBRYO" for i using p(2) by (auto simp: i)
  show ?thesis unfolding k'_def [symmetric]
  proof (rule pt_invI)
    show "\<exists>j < NPROC. initproc k' = int j \<and> alive (st k' j)" using d(2) z al g by auto
    show "c_proc (cpus k' ! c) = -1 \<or> (\<exists>q < NPROC. c_proc (cpus k' ! c) = int q \<and> st k' q = RUNNING)" if "c < length (cpus k')" for c
      using d(3) [of c] that by (auto simp: i g)
    show "\<exists>c < length (cpus k'). c_proc (cpus k' ! c) = int q" if "q < NPROC" "st k' q = RUNNING" for q
      using d(4) [OF that(1)] that s by (auto simp: i g split: if_splits)
    show "c = e" if "c < length (cpus k')" "e < length (cpus k')" "c_proc (cpus k' ! c) = c_proc (cpus k' ! e)" "c_proc (cpus k' ! c) \<noteq> -1" for c e
      using d(5) [of c e] that by (auto simp: g split: if_splits)
    show "\<exists>a < NPROC. par k' q = int a \<and> alive (st k' a)" if "q < NPROC" "\<not> vacant (st k' q)" "int q \<noteq> initproc k'" for q
    proof -
      have "\<exists>a < NPROC. par k q = int a \<and> alive (st k a)" using d(6) [OF that(1)] that(2,3) un g by auto
      then show ?thesis using z that(1) al i(3) by auto
    qed
    show "par k' q = -1" if "q < NPROC" "vacant (st k' q) \<or> int q = initproc k'" for q
      using d(7) [OF that(1)] that(2) unfolding un i(3) g by simp
    show "st k' q \<noteq> ZOMBIE" if "a < NPROC" "q < NPROC" "st k' a = SLEEPING" "chan_at k' a = ProcChan a" "par k' q = int a" for a q
    proof
      assume zq: "st k' q = ZOMBIE"
      have pq: "par k q = int a" using that(5) i(3) by simp
      show False
      proof (cases "a = p")
        case True
        then have "st k q \<noteq> ZOMBIE" using w that(2-4) pq by (simp add: i)
        then have "q = p" using zq by (simp add: i split: if_splits)
        then show False using zq that(3) True by simp
      next
        case False
        then have a: "st k a = SLEEPING" "chan_at k a = ProcChan a" using that(3,4) by (simp_all add: i)
        show False
        proof (cases "q = p")
          case True
          then show False using z zq pq a that(1) by (simp add: i)
        next
          case False
          then show False using d(8) [OF that(1,2) a pq] zq by (simp add: i)
        qed
      qed
    qed
    show "np_of k' q = -1 \<or> (\<exists>i < NPROC. np_of k' q = int i \<and> st k' i = EMBRYO)" if "q < NPROC" for q
      by (rule np_keep(1) [OF inv i(5) em that])
    show "a = b" if "a < NPROC" "b < NPROC" "np_of k' a = np_of k' b" "np_of k' a \<noteq> -1" for a b
      by (rule np_keep(2) [OF inv i(5) em that])
  qed (use d(9) g i(3) in simp_all)
qed

lemma sleep_inv: "pt_inv k \<Longrightarrow> on_cpu p k \<Longrightarrow> (ch = ProcChan p \<Longrightarrow> \<forall>q < NPROC. par k q = int p \<longrightarrow> st k q \<noteq> ZOMBIE) \<Longrightarrow> pt_inv (sleep p ch k)"
  unfolding sleep_def by (rule leave_inv) simp_all

lemma yield_inv: "pt_inv k \<Longrightarrow> on_cpu p k \<Longrightarrow> pt_inv (yield p k)"
  unfolding yield_def by (rule leave_inv) simp_all

lemma scheduler_inv:
  assumes inv: "pt_inv k" and c: "c < length (cpus k)" "c_proc (cpus k ! c) = -1"
  shows "pt_inv (scheduler c k)"
proof (cases "List.find (\<lambda>i. st k i = RUNNABLE) [c_pos (cpus k ! c)..<length (ptab k)]")
  case None
  have "map c_proc ((cpus k)[c := (cpus k ! c)\<lparr>c_pos := 0\<rparr>]) = map c_proc (cpus k)"
    by (rule nth_equalityI) (use c(1) in \<open>auto simp: nth_list_update\<close>)
  then have "same_core k (scheduler c k)" using None by (simp add: scheduler_def same_core_def)
  then show ?thesis by (rule pt_inv_same [OF _ inv])
next
  case (Some p)
  note d = pt_invD [OF inv]
  have "p \<in> set [c_pos (cpus k ! c)..<length (ptab k)]" using Some by (metis find_Some_iff nth_mem)
  then have p: "p < NPROC" "st k p = RUNNABLE" using Some d(1) by (auto simp: find_Some_iff)
  let ?k = "scheduler c k"
  have k: "?k = upd_proc p (\<lambda>p. p\<lparr>p_state := RUNNING, p_chan := NoChan\<rparr>)
      (k\<lparr>cpus := (cpus k)[c := (cpus k ! c)\<lparr>c_proc := int p, c_pos := p + 1\<rparr>]\<rparr>)" using Some by (simp add: scheduler_def)
  have i: "st ?k i = (if i = p then RUNNING else st k i)" "pid_of ?k i = pid_of k i" "par ?k i = par k i"
    "chan_at ?k i = (if i = p then NoChan else chan_at k i)" "np_of ?k i = np_of k i" for i
    using d(1) p(1) by (simp_all add: k)
  have cp: "length (cpus ?k) = length (cpus k)" "e < length (cpus k) \<Longrightarrow> c_proc (cpus ?k ! e) = (if e = c then int p else c_proc (cpus k ! e))" for e
    using c(1) by (auto simp: k nth_list_update)
  have off: "c_proc (cpus k ! e) \<noteq> int p" if "e < length (cpus k)" for e using d(3) [OF that] p(2) by auto
  have al: "alive (st ?k i) = alive (st k i)" for i using p(2) by (simp add: i alive_def)
  have un: "vacant (st ?k i) \<longleftrightarrow> vacant (st k i)" for i using p(2) by (simp add: i vacant_def)
  have em: "st k i = EMBRYO \<Longrightarrow> st ?k i = EMBRYO" for i using p(2) by (auto simp: i)
  have g: "nextpid ?k = nextpid k" "initproc ?k = initproc k" "length (ptab ?k) = NPROC" using d(1) by (simp_all add: k)
  show ?thesis
  proof (rule pt_invI)
    show "\<exists>j < NPROC. initproc ?k = int j \<and> alive (st ?k j)" using d(2) al g by auto
    show "c_proc (cpus ?k ! e) = -1 \<or> (\<exists>q < NPROC. c_proc (cpus ?k ! e) = int q \<and> st ?k q = RUNNING)" if "e < length (cpus ?k)" for e
      using d(3) [of e] that p(1) by (auto simp: i cp)
    show "\<exists>e < length (cpus ?k). c_proc (cpus ?k ! e) = int q" if "q < NPROC" "st ?k q = RUNNING" for q
    proof (cases "q = p")
      case True
      then show ?thesis using c(1) cp by auto
    next
      case False
      then have "\<exists>e < length (cpus k). c_proc (cpus k ! e) = int q" using d(4) [OF that(1)] that(2) by (auto simp: i)
      then obtain e where "e < length (cpus k)" "c_proc (cpus k ! e) = int q" by blast
      then show ?thesis using cp c(2) by (intro exI [of _ e]) auto
    qed
    show "a = b" if "a < length (cpus ?k)" "b < length (cpus ?k)" "c_proc (cpus ?k ! a) = c_proc (cpus ?k ! b)" "c_proc (cpus ?k ! a) \<noteq> -1" for a b
      using d(5) [of a b] that off by (auto simp: cp split: if_splits)
    show "\<exists>a < NPROC. par ?k q = int a \<and> alive (st ?k a)" if "q < NPROC" "\<not> vacant (st ?k q)" "int q \<noteq> initproc ?k" for q
      using d(6) [OF that(1)] that(2,3) unfolding un i(3) al g .
    show "par ?k q = -1" if "q < NPROC" "vacant (st ?k q) \<or> int q = initproc ?k" for q
      using d(7) [OF that(1)] that(2) unfolding un i(3) g .
    show "st ?k q \<noteq> ZOMBIE" if "a < NPROC" "q < NPROC" "st ?k a = SLEEPING" "chan_at ?k a = ProcChan a" "par ?k q = int a" for a q
      using d(8) [OF that(1,2)] that(3-5) by (auto simp: i split: if_splits)
    show "np_of ?k q = -1 \<or> (\<exists>i < NPROC. np_of ?k q = int i \<and> st ?k i = EMBRYO)" if "q < NPROC" for q
      by (rule np_keep(1) [OF inv i(5) em that])
    show "a = b" if "a < NPROC" "b < NPROC" "np_of ?k a = np_of ?k b" "np_of ?k a \<noteq> -1" for a b
      by (rule np_keep(2) [OF inv i(5) em that])
  qed (use d(9) g i(3) in simp_all)
qed

subsection \<open>Reaping\<close>

lemma reap_spec:
  assumes "reap bound i k = Inr k'" and "i < length (ptab k)"
  shows "length (ptab k') = length (ptab k)" "cpus k' = cpus k" "nextpid k' = nextpid k" "initproc k' = initproc k"
    "j \<noteq> i \<Longrightarrow> ptab k' ! j = ptab k ! j" "st k' i = UNUSED" "par k' i = -1" "p_kstack (ptab k' ! i) = 0" "p_killed (ptab k' ! i) = 0"
    "np_of k' j = np_of k j"
  using assms by (auto simp: reap_def bind_simps)

lemma reap_inv:
  assumes inv: "pt_inv k" and run: "reap bound i k = Inr k'" and i: "i < NPROC" "st k i = ZOMBIE"
  shows "pt_inv k'"
proof -
  note d = pt_invD [OF inv]
  note r = reap_spec [OF run, unfolded d(1), OF i(1)]
  have p: "st k' j = (if j = i then UNUSED else st k j)" "par k' j = (if j = i then -1 else par k j)" "np_of k' j = np_of k j" for j using r(5-7,10) by auto
  have ni: "int i \<noteq> initproc k" using d(2) i by (auto simp: alive_def)
  have al: "alive (st k' j) \<longleftrightarrow> alive (st k j)" for j using i(2) by (auto simp: p alive_def)
  have em: "st k j = EMBRYO \<Longrightarrow> st k' j = EMBRYO" for j using i(2) by (auto simp: p)
  show ?thesis
  proof (rule pt_invI)
    show "\<exists>j < NPROC. initproc k' = int j \<and> alive (st k' j)" using d(2) al r(4) by auto
    show "c_proc (cpus k' ! c) = -1 \<or> (\<exists>q < NPROC. c_proc (cpus k' ! c) = int q \<and> st k' q = RUNNING)" if "c < length (cpus k')" for c
    proof -
      have c: "c < length (cpus k)" "c_proc (cpus k' ! c) = c_proc (cpus k ! c)" using that by (simp_all add: r)
      from d(3) [OF c(1)] consider "c_proc (cpus k ! c) = -1" | q where "q < NPROC" "c_proc (cpus k ! c) = int q" "st k q = RUNNING" by blast
      then show ?thesis
      proof cases
        case (2 q)
        then have "st k' q = RUNNING" using i(2) by (auto simp: p)
        moreover have "c_proc (cpus k' ! c) = int q" using 2(2) c(2) by (rule trans [rotated])
        ultimately show ?thesis using 2(1) by blast
      qed (use c in simp)
    qed
    show "\<exists>c < length (cpus k'). c_proc (cpus k' ! c) = int q" if "q < NPROC" "st k' q = RUNNING" for q
      using d(4) [OF that(1)] that by (auto simp: p r split: if_splits)
    show "c = e" if "c < length (cpus k')" "e < length (cpus k')" "c_proc (cpus k' ! c) = c_proc (cpus k' ! e)" "c_proc (cpus k' ! c) \<noteq> -1" for c e
      using d(5) that by (simp add: r)
    show "\<exists>a < NPROC. par k' q = int a \<and> alive (st k' a)" if h: "q < NPROC" "\<not> vacant (st k' q)" "int q \<noteq> initproc k'" for q
    proof -
      have q: "q \<noteq> i" "\<not> vacant (st k q)" using h(2) by (auto simp: p vacant_def split: if_splits)
      obtain a where "a < NPROC" "par k q = int a" "alive (st k a)" using d(6) [OF h(1) q(2)] h(3) r(4) by metis
      then show ?thesis using q(1) by (intro exI [of _ a]) (simp only: al, simp add: p)
    qed
    show "par k' q = -1" if "q < NPROC" "vacant (st k' q) \<or> int q = initproc k'" for q
      using d(7) [OF that(1)] that(2) ni by (auto simp: p r(4) vacant_def split: if_splits)
    show "st k' q \<noteq> ZOMBIE" if "a < NPROC" "q < NPROC" "st k' a = SLEEPING" "chan_at k' a = ProcChan a" "par k' q = int a" for a q
      using d(8) [OF that(1,2)] that(3-5) r(5) by (auto simp: p split: if_splits)
    show "par k' q \<noteq> int q" if "q < NPROC" for q using d(9) [OF that] by (simp add: p)
    show "np_of k' q = -1 \<or> (\<exists>i < NPROC. np_of k' q = int i \<and> st k' i = EMBRYO)" if "q < NPROC" for q
      by (rule np_keep(1) [OF inv p(3) em that])
    show "a = b" if "a < NPROC" "b < NPROC" "np_of k' a = np_of k' b" "np_of k' a \<noteq> -1" for a b
      by (rule np_keep(2) [OF inv p(3) em that])
  qed (use d(1) r in simp_all)
qed

lemma wait_inv:
  assumes inv: "pt_inv k" and cur: "on_cpu cur k" and run: "wait bound cur k = Inr (k', r)"
  shows "pt_inv k'"
proof (cases "first_proc (\<lambda>p. p_parent p = int cur \<and> p_state p = ZOMBIE) (ptab k)")
  case (Some i)
  then have "i < NPROC" "st k i = ZOMBIE" using inv_len [OF inv] by (simp_all add: first_proc_Some)
  moreover have "reap bound i k = Inr k'" using run Some by (auto simp: wait_def bind_simps)
  ultimately show ?thesis using reap_inv [OF inv] by blast
next
  case None
  then have "\<forall>q < NPROC. par k q = int cur \<longrightarrow> st k q \<noteq> ZOMBIE" using inv_len [OF inv] by (simp add: first_proc_None)
  then have "pt_inv (sleep cur (ProcChan cur) k)" by (intro sleep_inv [OF inv cur]) simp
  then show ?thesis using run None inv by (auto simp: wait_def split: if_splits)
qed

subsection \<open>Exit\<close>

lemma same_core_env [simp]: "same_core k (k1\<lparr>env := e\<rparr>) \<longleftrightarrow> same_core k k1"
  by (simp add: same_core_def)

lemma close_files_core: "close_files fs cur k = Inr k' \<Longrightarrow> same_core k k'"
  unfolding close_files_def
proof (erule for_each_inv' [where I = "same_core k"])
  fix fd s s' b assume "same_core k s" and
    "(if p_ofile (ptab s ! cur) ! fd \<noteq> 0 then rbind (do_fileclose fs (p_ofile (ptab s ! cur) ! fd) (env s))
        (\<lambda>e. cont (upd_proc cur (\<lambda>p. p\<lparr>p_ofile := (p_ofile p)[fd := 0]\<rparr>) (s\<lparr>env := e\<rparr>))) else cont s) = Inr (s', b)"
  then show "same_core k s'"
    by (auto simp: bind_simps cont_def split: if_splits intro: same_core_trans [OF _ same_core_upd] simp: core_def)
qed simp

text \<open>Adoption keeps the invariant, slot by slot.\<close>

lemma adopt_spec:
  assumes inv: "pt_inv k" and cur: "on_cpu cur k" "int cur \<noteq> initproc k" and i: "i < NPROC"
  shows "pt_inv (adopt cur i k)" and "on_cpu cur (adopt cur i k)" and "initproc (adopt cur i k) = initproc k"
    and "j < NPROC \<Longrightarrow> par (adopt cur i k) j = (if j = i \<and> par k i = int cur then initproc k else par k j)"
    and "j < NPROC \<Longrightarrow> chan_at (adopt cur i k) j = chan_at k j"
    and "j < NPROC \<Longrightarrow> st (adopt cur i k) j = st k j \<or> st k j = SLEEPING \<and> st (adopt cur i k) j = RUNNABLE"
proof -
  note d = pt_invD [OF inv]
  define k' where "k' = adopt cur i k"
  obtain ini where ini: "initproc k = int ini" "ini < NPROC" using d(2) by auto
  have c: "cur < NPROC" "st k cur = RUNNING" using cur(1) by (simp_all add: on_cpu_def)
  let ?k1 = "upd_proc i (\<lambda>p. p\<lparr>p_parent := initproc k\<rparr>) k"
  have k1: "ptab ?k1 ! j = (if j = i then (ptab k ! i)\<lparr>p_parent := initproc k\<rparr> else ptab k ! j)" for j using i d(1) by simp
  have k': "k' = (if par k i = int cur then if st k i = ZOMBIE then wakeup1 (chan_of (initproc k)) ?k1 else ?k1 else k)"
    using k1 by (simp add: k'_def adopt_def Let_def)
  have g: "length (ptab k') = NPROC" "cpus k' = cpus k" "nextpid k' = nextpid k" "initproc k' = initproc k"
    using d(1) by (simp_all add: k' wakeup1_def)
  have f: "par k' j = (if j = i \<and> par k i = int cur then initproc k else par k j)" "pid_of k' j = pid_of k j" "chan_at k' j = chan_at k j"
    "st k' j = st k j \<or> st k j = SLEEPING \<and> st k' j = RUNNABLE" "np_of k' j = np_of k j" if "j < NPROC" for j
    using that i d(1) by (auto simp: k' wakeup1_def)
  have u: "vacant (st k' j) \<longleftrightarrow> vacant (st k j)" "st k' j = RUNNING \<longleftrightarrow> st k j = RUNNING" "st k' j = SLEEPING \<Longrightarrow> st k j = SLEEPING"
    "st k' j = EMBRYO \<longleftrightarrow> st k j = EMBRYO" "st k' j = ZOMBIE \<longleftrightarrow> st k j = ZOMBIE" "alive (st k j) \<Longrightarrow> alive (st k' j)" if "j < NPROC" for j
    using f(4) [OF that] by (auto simp: alive_def vacant_def)
  have woke: "\<not> (st k' ini = SLEEPING \<and> chan_at k' ini = ProcChan ini)" if "par k i = int cur" "st k i = ZOMBIE"
    using that ini wakeup1_none [of ini ?k1 "chan_of (initproc k)"] d(1) by (simp add: k' chan_of_def)
  have ine: "int i \<noteq> initproc k" if "par k i = int cur" using d(7) [OF i] that by auto
  show "pt_inv (adopt cur i k)" unfolding k'_def [symmetric]
  proof (rule pt_invI)
    show "\<exists>j < NPROC. initproc k' = int j \<and> alive (st k' j)" using d(2) u(6) g by auto
    show "c_proc (cpus k' ! e) = -1 \<or> (\<exists>q < NPROC. c_proc (cpus k' ! e) = int q \<and> st k' q = RUNNING)" if "e < length (cpus k')" for e
      using d(3) [of e] that u(2) by (auto simp: g)
    show "\<exists>e < length (cpus k'). c_proc (cpus k' ! e) = int q" if "q < NPROC" "st k' q = RUNNING" for q
      using d(4) [OF that(1)] that u(2) by (simp add: g)
    show "a = b" if "a < length (cpus k')" "b < length (cpus k')" "c_proc (cpus k' ! a) = c_proc (cpus k' ! b)" "c_proc (cpus k' ! a) \<noteq> -1" for a b
      using d(5) that by (simp add: g)
    show "\<exists>a < NPROC. par k' q = int a \<and> alive (st k' a)" if h: "q < NPROC" "\<not> vacant (st k' q)" "int q \<noteq> initproc k'" for q
    proof (cases "q = i \<and> par k i = int cur")
      case True
      then show ?thesis using ini d(2) f(1) [OF h(1)] u(6) by auto
    next
      case False
      obtain a where a: "a < NPROC" "par k q = int a" "alive (st k a)"
        using d(6) [OF h(1)] h(2,3) u(1) [OF h(1)] g(4) by auto
      then show ?thesis using False f(1) [OF h(1)] u(6) by auto
    qed
    show "par k' q = -1" if "q < NPROC" "vacant (st k' q) \<or> int q = initproc k'" for q
    proof -
      have "par k q = -1" using d(7) [OF that(1)] that(2) u(1) [OF that(1)] g by simp
      then show ?thesis using f(1) [OF that(1)] by auto
    qed
    show "st k' q \<noteq> ZOMBIE" if "a < NPROC" "q < NPROC" "st k' a = SLEEPING" "chan_at k' a = ProcChan a" "par k' q = int a" for a q
    proof
      assume z: "st k' q = ZOMBIE"
      show False
      proof (cases "q = i \<and> par k i = int cur")
        case True
        then have "a = ini" using that(5) f(1) [OF that(2)] ini by simp
        then show False using woke True z u(5) [OF that(2)] that(3,4) by simp
      next
        case False
        then show False using d(8) [OF that(1,2)] that u(3,5) f z by metis
      qed
    qed
    show "par k' q \<noteq> int q" if "q < NPROC" for q using d(9) [OF that] f(1) [OF that] ine by auto
    show "np_of k' q = -1 \<or> (\<exists>i < NPROC. np_of k' q = int i \<and> st k' i = EMBRYO)" if "q < NPROC" for q
      by (rule np_keep(1) [OF inv f(5)]) (use that u(4) in auto)
    show "a = b" if "a < NPROC" "b < NPROC" "np_of k' a = np_of k' b" "np_of k' a \<noteq> -1" for a b
      by (rule np_keep(2) [OF inv f(5)]) (use that u(4) in auto)
  qed (use g in simp_all)
  show "on_cpu cur (adopt cur i k)" using c u(2) [OF c(1)] by (simp add: on_cpu_def k'_def)
  show "initproc (adopt cur i k) = initproc k" using g by (simp add: k'_def)
  show "j < NPROC \<Longrightarrow> par (adopt cur i k) j = (if j = i \<and> par k i = int cur then initproc k else par k j)"
    "j < NPROC \<Longrightarrow> chan_at (adopt cur i k) j = chan_at k j" "j < NPROC \<Longrightarrow> st (adopt cur i k) j = st k j \<or> st k j = SLEEPING \<and> st (adopt cur i k) j = RUNNABLE"
    using f by (simp_all add: k'_def)
qed

lemma adopt_all:
  assumes "n \<le> NPROC" and inv: "pt_inv k" and cur: "on_cpu cur k" "int cur \<noteq> initproc k"
  defines "k' \<equiv> fold (adopt cur) [0..<n] k"
  shows "pt_inv k' \<and> on_cpu cur k' \<and> initproc k' = initproc k \<and>
    (\<forall>j < NPROC. par k' j = (if j < n \<and> par k j = int cur then initproc k else par k j) \<and> chan_at k' j = chan_at k j \<and>
      (st k' j = st k j \<or> st k j = SLEEPING \<and> st k' j = RUNNABLE))"
  using assms(1) unfolding k'_def
proof (induction n)
  case 0
  then show ?case using inv cur by simp
next
  case (Suc n)
  let ?k = "fold (adopt cur) [0..<n] k"
  have ih: "pt_inv ?k" "on_cpu cur ?k" "initproc ?k = initproc k"
    "\<And>j. j < NPROC \<Longrightarrow> par ?k j = (if j < n \<and> par k j = int cur then initproc k else par k j) \<and> chan_at ?k j = chan_at k j \<and>
      (st ?k j = st k j \<or> st k j = SLEEPING \<and> st ?k j = RUNNABLE)" using Suc by auto
  have ne: "int cur \<noteq> initproc ?k" using cur(2) ih(3) by simp
  note a = adopt_spec [OF ih(1,2) ne, of n]
  have e: "fold (adopt cur) [0..<Suc n] k = adopt cur n ?k" by simp
  have "par (adopt cur n ?k) j = (if j < Suc n \<and> par k j = int cur then initproc k else par k j)" "chan_at (adopt cur n ?k) j = chan_at k j"
    "st (adopt cur n ?k) j = st k j \<or> st k j = SLEEPING \<and> st (adopt cur n ?k) j = RUNNABLE" if j: "j < NPROC" for j
  proof -
    show "chan_at (adopt cur n ?k) j = chan_at k j" using a(5) [of j] ih(4) [OF j] Suc.prems j by simp
    show "par (adopt cur n ?k) j = (if j < Suc n \<and> par k j = int cur then initproc k else par k j)"
      using a(4) [of j] ih(3) ih(4) [OF j] ih(4) [of n] Suc.prems j by (auto simp: less_Suc_eq)
    have "st (adopt cur n ?k) j = st ?k j \<or> st ?k j = SLEEPING \<and> st (adopt cur n ?k) j = RUNNABLE" using a(6) [of j] Suc.prems j by simp
    then show "st (adopt cur n ?k) j = st k j \<or> st k j = SLEEPING \<and> st (adopt cur n ?k) j = RUNNABLE" using ih(4) [OF j] by auto
  qed
  then show ?case unfolding e using a(1-3) Suc.prems ih(3) by simp
qed

lemma exit_spec:
  assumes inv: "pt_inv k" and cur: "on_cpu cur k" and run: "exit fs cur k = Inr k'"
  shows "pt_inv k' \<and> initproc k' = initproc k \<and> st k' cur = ZOMBIE \<and> (\<forall>c < length (cpus k'). c_proc (cpus k' ! c) \<noteq> int cur) \<and>
    (\<forall>j < NPROC. par k' j = (if par k j = int cur then initproc k else par k j) \<and> chan_at k' j = chan_at k j \<and>
      (j \<noteq> cur \<longrightarrow> st k' j = st k j \<or> st k j = SLEEPING \<and> st k' j = RUNNABLE))"
proof -
  note d = pt_invD [OF inv]
  obtain k1 e where k1: "int cur \<noteq> initproc k" "close_files fs cur k = Inr k1" "do_iput fs (p_cwd (ptab k1 ! cur)) (env k1) = Inr e"
    and k': "k' = leave_cpu cur (upd_proc cur (\<lambda>p. p\<lparr>p_state := ZOMBIE\<rparr>) (fold (adopt cur) [0..<NPROC]
      (wakeup1 (chan_of (par (upd_proc cur (\<lambda>p. p\<lparr>p_cwd := 0\<rparr>) (k1\<lparr>env := e\<rparr>)) cur)) (upd_proc cur (\<lambda>p. p\<lparr>p_cwd := 0\<rparr>) (k1\<lparr>env := e\<rparr>)))))"
    using run by (auto simp: exit_def bind_simps Let_def split: if_splits)
  define k2 where "k2 = upd_proc cur (\<lambda>p. p\<lparr>p_cwd := 0\<rparr>) (k1\<lparr>env := e\<rparr>)"
  define k3 where "k3 = wakeup1 (chan_of (par k2 cur)) k2"
  define k4 where "k4 = fold (adopt cur) [0..<NPROC] k3"
  have c2: "same_core k k2" unfolding k2_def
    by (rule same_core_trans [OF _ same_core_upd]) (use close_files_core [OF k1(2)] in \<open>simp_all add: core_def\<close>)
  have i2: "pt_inv k2" by (rule pt_inv_same [OF c2 inv])
  have cn: "cur < NPROC" using cur by (simp add: on_cpu_def)
  note s2 = same_coreD [OF c2, unfolded d(1)]
  have o2: "on_cpu cur k2" using cur s2(5) cn by (simp add: on_cpu_def)
  have w3: "woken k2 k3" unfolding k3_def by (rule wakeup1_woken)
  have i3: "pt_inv k3" by (rule woken_inv [OF w3 i2])
  have o3: "on_cpu cur k3" using o2 w3 cn inv_len [OF i2] by (auto simp: on_cpu_def woken_def)
  have n3: "int cur \<noteq> initproc k3" using k1(1) s2(4) w3 by (simp add: woken_def)
  note a = adopt_all [OF order_refl i3 o3 n3, folded k4_def]
  have par3: "par k3 cur = par k2 cur" using w3 cn inv_len [OF i2] by (simp add: woken_def)
  have "pt_inv (leave_cpu cur (upd_proc cur (\<lambda>p. p\<lparr>p_state := ZOMBIE\<rparr>) k4))"
  proof (rule leave_inv)
    show "pt_inv k4" "on_cpu cur k4" using a by simp_all
    show "int cur \<noteq> initproc k4 \<and> (\<forall>q < NPROC. par k4 q \<noteq> int cur) \<and>
        (\<forall>q < NPROC. par k4 cur = int q \<longrightarrow> \<not> (st k4 q = SLEEPING \<and> chan_at k4 q = ProcChan q))"
    proof (intro conjI allI impI notI)
      show "int cur = initproc k4 \<Longrightarrow> False" using a n3 by simp
      show "par k4 q = int cur \<Longrightarrow> False" if "q < NPROC" for q using a n3 that by (auto split: if_splits)
      fix q assume q: "q < NPROC" "par k4 cur = int q" "st k4 q = SLEEPING \<and> chan_at k4 q = ProcChan q"
      have "par k3 cur \<noteq> int cur" by (rule inv_self [OF i3 cn])
      then have "par k3 cur = int q" using a cn q(2) by auto
      moreover have "st k3 q = SLEEPING" "chan_at k3 q = ProcChan q" using a q(1,3) by force+
      ultimately show False
        using wakeup1_none [of q k2 "chan_of (par k2 cur)"] q(1) inv_len [OF i2] par3 by (simp add: k3_def chan_of_def)
    qed
  qed simp_all
  moreover have k'_eq: "k' = leave_cpu cur (upd_proc cur (\<lambda>p. p\<lparr>p_state := ZOMBIE\<rparr>) k4)" unfolding k' k4_def k3_def k2_def ..
  ultimately have inv': "pt_inv k'" by simp
  have l4: "length (ptab k4) = NPROC" using a by (simp add: pt_inv_def)
  have f4: "par k4 j = (if par k j = int cur then initproc k else par k j)" "chan_at k4 j = chan_at k j"
    "st k4 j = st k j \<or> st k j = SLEEPING \<and> st k4 j = RUNNABLE" if j: "j < NPROC" for j
  proof -
    have 2: "par k2 j = par k j" "chan_at k2 j = chan_at k j" "st k2 j = st k j" using s2(5) j by simp_all
    have 3: "par k3 j = par k2 j" "chan_at k3 j = chan_at k2 j" "st k3 j = st k2 j \<or> st k2 j = SLEEPING \<and> st k3 j = RUNNABLE" "initproc k3 = initproc k"
      using w3 j s2(1,4) by (simp_all add: woken_def)
    have 4: "par k4 j = (if par k3 j = int cur then initproc k3 else par k3 j)" "chan_at k4 j = chan_at k3 j"
      "st k4 j = st k3 j \<or> st k3 j = SLEEPING \<and> st k4 j = RUNNABLE" using a j by simp_all
    show "par k4 j = (if par k j = int cur then initproc k else par k j)" "chan_at k4 j = chan_at k j" using 2 3 4 by simp_all
    show "st k4 j = st k j \<or> st k j = SLEEPING \<and> st k4 j = RUNNABLE" using 2(3) 3(3) 4(3) by auto
  qed
  have i4: "initproc k4 = initproc k" using a s2(4) w3 by (simp add: woken_def)
  have t: "st k' j = (if j = cur then ZOMBIE else st k4 j)" "par k' j = par k4 j" "chan_at k' j = chan_at k4 j" for j
    using l4 cn by (simp_all add: k'_eq)
  have "c_proc (cpus k' ! c) \<noteq> int cur" if "c < length (cpus k')" for c using that by (simp add: k'_eq)
  then show ?thesis using inv' i4 t f4 by (simp add: k'_eq)
qed

lemma exit_inv: "pt_inv k \<Longrightarrow> on_cpu cur k \<Longrightarrow> exit fs cur k = Inr k' \<Longrightarrow> pt_inv k'"
  using exit_spec by blast


subsection \<open>Fork\<close>

text \<open>The two outcomes of the locked section of \<open>allocproc\<close>.\<close>

lemma allocproc_slot_spec:
  assumes "allocproc_slot k = (k', r)"
  obtains (full) "k' = k" "r = -1" "\<forall>i < length (ptab k). st k i \<noteq> UNUSED"
  | (ok) i where "i < length (ptab k)" "st k i = UNUSED" "\<forall>j < i. st k j \<noteq> UNUSED" "r = int i"
      "k' = (upd_proc i (\<lambda>p. p\<lparr>p_state := EMBRYO, p_pid := nextpid k\<rparr>) k)\<lparr>nextpid := wrap32 (nextpid k + 1)\<rparr>"
proof (cases "first_proc (\<lambda>p. p_state p = UNUSED) (ptab k)")
  case None
  then have "k' = k" "r = -1" using assms by (simp_all add: allocproc_slot_def)
  then show ?thesis using None by (intro full) (simp_all add: first_proc_None)
next
  case (Some i)
  then have "r = int i" "k' = (upd_proc i (\<lambda>p. p\<lparr>p_state := EMBRYO, p_pid := nextpid k\<rparr>) k)\<lparr>nextpid := wrap32 (nextpid k + 1)\<rparr>"
    using assms by (simp_all add: allocproc_slot_def)
  then show ?thesis using Some by (intro ok [of i]) (simp_all add: first_proc_Some)
qed

text \<open>\<open>only_slot i k k'\<close>: of the table, the CPUs and the ids, at most the slot \<open>i\<close> changed.\<close>

definition only_slot :: "nat \<Rightarrow> 'e kern \<Rightarrow> 'e kern \<Rightarrow> bool" where
  "only_slot i k k' \<longleftrightarrow> length (ptab k') = length (ptab k) \<and> cpus k' = cpus k \<and> initproc k' = initproc k \<and> nextpid k' = nextpid k \<and>
     (\<forall>j. j \<noteq> i \<longrightarrow> ptab k' ! j = ptab k ! j)"

lemma only_slot_upd [simp]: "only_slot i k (upd_proc i f k1) \<longleftrightarrow> only_slot i k k1"
  by (auto simp: only_slot_def upd_proc_def)

lemma only_slot_fields [simp]:
  "only_slot i k (k1\<lparr>env := e\<rparr>) \<longleftrightarrow> only_slot i k k1" "only_slot i k (k1\<lparr>km := m\<rparr>) \<longleftrightarrow> only_slot i k k1"
  by (simp_all add: only_slot_def)

text \<open>The slot \<open>i\<close> was worked on: its parent, and its id and the mark of \<open>kill\<close> it had.\<close>

definition made :: "nat \<Rightarrow> int \<Rightarrow> 'e kern \<Rightarrow> 'e kern \<Rightarrow> bool" where
  "made i pa k k' \<longleftrightarrow> i < length (ptab k) \<and> only_slot i k k' \<and> par k' i = pa \<and> pid_of k' i = pid_of k i \<and> np_of k' i = np_of k i \<and>
     p_killed (ptab k' ! i) = p_killed (ptab k ! i)"

lemma made_upd:
  assumes "made i pa k k1" and "p_parent (f (ptab k1 ! i)) = pa'" "p_pid (f (ptab k1 ! i)) = pid_of k1 i"
    "p_np (f (ptab k1 ! i)) = np_of k1 i" "p_killed (f (ptab k1 ! i)) = p_killed (ptab k1 ! i)"
  shows "made i pa' k (upd_proc i f k1)"
proof -
  have "i < length (ptab k1)" using assms(1) by (simp add: made_def only_slot_def)
  then show ?thesis using assms by (simp add: made_def)
qed

lemma made_fields [simp]: "made i pa k (k1\<lparr>env := e\<rparr>) \<longleftrightarrow> made i pa k k1" "made i pa k (k1\<lparr>km := m\<rparr>) \<longleftrightarrow> made i pa k k1"
  by (simp_all add: made_def)

lemma made_refl: "i < length (ptab k) \<Longrightarrow> made i (par k i) k k"
  by (simp add: made_def only_slot_def)

lemma allocproc_stack_spec:
  assumes "allocproc_stack junk i k = Inr (k', r)" and "i < length (ptab k)"
  shows "made i (par k i) k k' \<and> (r = -1 \<and> st k' i = UNUSED \<or> r = int i \<and> st k' i = st k i)"
proof -
  obtain m sk where ka: "kalloc (km k) = Inr (m, sk)" using assms(1) by (auto simp: allocproc_stack_def rbind_eq_Inr)
  note run = assms(1) [unfolded allocproc_stack_def ka rbind_Inr prod.case Let_def]
  let ?k1 = "upd_proc i (\<lambda>p. p\<lparr>p_kstack := sk\<rparr>) (k\<lparr>km := m\<rparr>)"
  have "made i (par k i) k (k\<lparr>km := m\<rparr>)" using made_refl [OF assms(2)] by simp
  then have m: "made i (par k i) k ?k1" by (rule made_upd) simp_all
  have l: "i < length (ptab ?k1)" and p: "ptab ?k1 ! i = (ptab k ! i)\<lparr>p_kstack := sk\<rparr>" using assms(2) by simp_all
  have u: "made i (par k i) k (upd_proc i f ?k1)"
    if "\<And>q. p_parent (f q) = p_parent q \<and> p_pid (f q) = p_pid q \<and> p_np (f q) = p_np q \<and> p_killed (f q) = p_killed q" for f
    by (rule made_upd [OF m]) (use that p in simp_all)
  show ?thesis
  proof (cases "sk = 0")
    case True
    then have "k' = upd_proc i (\<lambda>p. p\<lparr>p_state := UNUSED\<rparr>) ?k1" "r = -1" using run by simp_all
    then show ?thesis using u [of "\<lambda>p. p\<lparr>p_state := UNUSED\<rparr>"] assms(2) by simp
  next
    case False
    then have "k' = upd_proc i (\<lambda>p. p\<lparr>p_tf := junk\<rparr>) ?k1" "r = int i" using run by simp_all
    then show ?thesis using u [of "\<lambda>p. p\<lparr>p_tf := junk\<rparr>"] assms(2) by simp
  qed
qed

lemma dup_files_made:
  assumes "for_each (\<lambda>fd k. if ofs ! fd \<noteq> 0 then rbind (do_filedup fs (ofs ! fd) (env k)) (\<lambda>e.
      cont (upd_proc i (\<lambda>p. p\<lparr>p_ofile := (p_ofile p)[fd := ofs ! fd]\<rparr>) (k\<lparr>env := e\<rparr>))) else cont k) fds k1 = Inr k2"
    and "made i pa k k1"
  shows "made i pa k k2"
  using assms(1)
proof (rule for_each_inv' [where I = "made i pa k"])
  fix fd s s' b assume m: "made i pa k s" and
    run: "(if ofs ! fd \<noteq> 0 then rbind (do_filedup fs (ofs ! fd) (env s)) (\<lambda>e.
      cont (upd_proc i (\<lambda>p. p\<lparr>p_ofile := (p_ofile p)[fd := ofs ! fd]\<rparr>) (s\<lparr>env := e\<rparr>))) else cont s) = Inr (s', b)"
  show "made i pa k s'"
  proof (cases "ofs ! fd \<noteq> 0")
    case True
    then obtain e where "s' = upd_proc i (\<lambda>p. p\<lparr>p_ofile := (p_ofile p)[fd := ofs ! fd]\<rparr>) (s\<lparr>env := e\<rparr>)"
      using run by (auto simp: rbind_eq_Inr cont_def)
    moreover have "made i pa k (s\<lparr>env := e\<rparr>)" using m by simp
    moreover from this have "par (s\<lparr>env := e\<rparr>) i = pa" by (simp add: made_def)
    ultimately show ?thesis by (auto intro: made_upd)
  qed (use run m in \<open>simp add: cont_def\<close>)
qed (rule assms(2))

text \<open>The state in which the rest of \<open>fork\<close> works: the variable \<open>np\<close> is forgotten at its end.\<close>

abbreviation forget :: "nat \<Rightarrow> 'e kern \<Rightarrow> 'e kern" where
  "forget cur k \<equiv> upd_proc cur (\<lambda>p. p\<lparr>p_np := -1\<rparr>) k"

lemma fork_finish_spec:
  assumes run: "fork_finish fs bound dataseg junk cur k = Inr (k', r)" and np: "np_of k cur = int i" and i: "i < length (ptab k)"
  obtains (nomem) "made i (par (forget cur k) i) (forget cur k) k'" "r = -1" "st k' i = UNUSED"
  | (ok) "made i (int cur) (forget cur k) k'" "r = pid_of (forget cur k) i" "st k' i = RUNNABLE"
proof -
  let ?k0 = "forget cur k"
  have n: "nat (np_of k cur) = i" using np by simp
  have i0: "i < length (ptab ?k0)" using i by simp
  obtain k1 a where al: "allocproc_stack junk i ?k0 = Inr (k1, a)"
  proof (cases "allocproc_stack junk i ?k0")
    case (Inl e)
    then have "fork_finish fs bound dataseg junk cur k = Inl e" by (simp only: fork_finish_def Let_def n rbind_Inl)
    then show ?thesis using run by simp
  next
    case (Inr x)
    then show ?thesis using that by (cases x) simp
  qed
  note run = run [unfolded fork_finish_def Let_def n al rbind_Inr prod.case]
  note sp = allocproc_stack_spec [OF al i0]
  show thesis
  proof (cases "a < 0")
    case True
    have "(Inr (k1, -1) :: ('a kern \<times> int) res) = Inr (k', r)" using run [unfolded if_P [OF True]] .
    then have e: "k' = k1" "r = -1" by simp_all
    have "made i (par ?k0 i) ?k0 k1" "st k1 i = UNUSED" using sp True by auto
    then show ?thesis using nomem e by simp
  next
    case False
    have m1: "made i (par ?k0 i) ?k0 k1" using sp by simp
    note run = run [unfolded if_not_P [OF False]]
    define c where "c = ptab k1 ! cur"
    obtain m d where cp: "copyuvm bound dataseg (p_pgdir c) (p_sz c) (km k1) = Inr (m, d)"
      using run by (auto simp: rbind_eq_Inr c_def)
    note run = run [folded c_def, unfolded cp rbind_Inr prod.case]
    have l: "i < length (ptab k1)" using m1 by (simp add: made_def only_slot_def)
    show ?thesis
    proof (cases "d = 0")
      case True
      obtain m1 where k': "k' = upd_proc i (\<lambda>p. p\<lparr>p_pgdir := 0, p_kstack := 0, p_state := UNUSED\<rparr>) (k1\<lparr>km := m1\<rparr>)" "r = -1"
        using run True by (auto simp: rbind_eq_Inr)
      have "made i (par ?k0 i) ?k0 (k1\<lparr>km := m1\<rparr>)" using m1 by simp
      then have "made i (par ?k0 i) ?k0 k'" unfolding k' by (rule made_upd) (use m1 in \<open>simp_all add: made_def\<close>)
      then show ?thesis using k' l nomem by simp
    next
      case False
      define k2 where "k2 = upd_proc i (\<lambda>p. p\<lparr>p_pgdir := d, p_sz := p_sz c, p_parent := int cur, p_tf := (p_tf c)\<lparr>tf_eax := 0\<rparr>\<rparr>) (k1\<lparr>km := m\<rparr>)"
      note run = run [unfolded if_not_P [OF False], folded k2_def]
      obtain k3 e nm where dup: "for_each (\<lambda>fd k. if p_ofile c ! fd \<noteq> 0 then rbind (do_filedup fs (p_ofile c ! fd) (env k)) (\<lambda>e.
          cont (upd_proc i (\<lambda>p. p\<lparr>p_ofile := (p_ofile p)[fd := p_ofile c ! fd]\<rparr>) (k\<lparr>env := e\<rparr>))) else cont k) [0..<NOFILE] k2 = Inr k3"
        and k': "k' = upd_proc i (\<lambda>p. p\<lparr>p_state := RUNNABLE\<rparr>) (upd_proc i (\<lambda>p. p\<lparr>p_cwd := p_cwd c, p_name := nm\<rparr>) (k3\<lparr>env := e\<rparr>))"
          "r = pid_of (upd_proc i (\<lambda>p. p\<lparr>p_cwd := p_cwd c, p_name := nm\<rparr>) (k3\<lparr>env := e\<rparr>)) i"
        using run by (auto simp: rbind_eq_Inr)
      have "made i (par ?k0 i) ?k0 (k1\<lparr>km := m\<rparr>)" using m1 by simp
      then have "made i (int cur) ?k0 k2" unfolding k2_def by (rule made_upd) simp_all
      from dup_files_made [OF dup this] have m3: "made i (int cur) ?k0 (k3\<lparr>env := e\<rparr>)" by simp
      then have p3: "par (k3\<lparr>env := e\<rparr>) i = int cur" by (simp add: made_def)
      have m4: "made i (int cur) ?k0 (upd_proc i (\<lambda>p. p\<lparr>p_cwd := p_cwd c, p_name := nm\<rparr>) (k3\<lparr>env := e\<rparr>))"
        by (rule made_upd [OF m3]) (use p3 in simp_all)
      have "made i (int cur) ?k0 k'" unfolding k' by (rule made_upd [OF m4]) (use m4 in \<open>simp_all add: made_def\<close>)
      moreover have "r = pid_of ?k0 i" using m4 k'(2) by (simp add: made_def)
      moreover have "i < length (ptab k3)" using m3 by (simp add: made_def only_slot_def)
      then have "st k' i = RUNNABLE" by (simp add: k')
      ultimately show ?thesis by (rule ok)
    qed
  qed
qed

text \<open>A running process takes a free slot.\<close>

lemma fork_start_spec:
  assumes inv: "pt_inv k" and cur: "on_cpu cur k"
  obtains (full) "fork_start cur k = k" "\<forall>i < NPROC. st k i \<noteq> UNUSED"
  | (ok) i where "i < NPROC" "st k i = UNUSED" "i \<noteq> cur" "length (ptab (fork_start cur k)) = NPROC" "cpus (fork_start cur k) = cpus k"
      "initproc (fork_start cur k) = initproc k" "nextpid (fork_start cur k) = wrap32 (nextpid k + 1)"
      "\<And>j. st (fork_start cur k) j = (if j = i then EMBRYO else st k j)" "\<And>j. par (fork_start cur k) j = par k j"
      "\<And>j. chan_at (fork_start cur k) j = chan_at k j" "\<And>j. np_of (fork_start cur k) j = (if j = cur then int i else np_of k j)"
      "\<And>j. pid_of (fork_start cur k) j = (if j = i then nextpid k else pid_of k j)"
proof -
  have l: "length (ptab k) = NPROC" by (rule inv_len [OF inv])
  have c: "cur < NPROC" "st k cur = RUNNING" using cur by (simp_all add: on_cpu_def)
  obtain k1 r where s: "allocproc_slot k = (k1, r)" by (cases "allocproc_slot k")
  from s show ?thesis
  proof (cases rule: allocproc_slot_spec)
    case full
    show ?thesis by (rule that(1)) (use full l s in \<open>simp_all add: fork_start_def\<close>)
  next
    case (ok i)
    let ?k1 = "(upd_proc i (\<lambda>p. p\<lparr>p_state := EMBRYO, p_pid := nextpid k\<rparr>) k)\<lparr>nextpid := wrap32 (nextpid k + 1)\<rparr>"
    have e: "fork_start cur k = upd_proc cur (\<lambda>p. p\<lparr>p_np := int i\<rparr>) ?k1" using s ok(4,5) by (simp add: fork_start_def)
    have p: "ptab ?k1 ! j = (if j = i then (ptab k ! i)\<lparr>p_state := EMBRYO, p_pid := nextpid k\<rparr> else ptab k ! j)" for j
      using ok(1) by (simp add: upd_proc_def nth_list_update)
    have l1: "length (ptab ?k1) = NPROC" "cpus ?k1 = cpus k" "initproc ?k1 = initproc k" "nextpid ?k1 = wrap32 (nextpid k + 1)" using l by simp_all
    have ne: "i \<noteq> cur" using ok(2) c(2) by auto
    have cl: "cur < length (ptab ?k1)" using l1 c(1) by simp
    show ?thesis
      by (rule that(2) [of i]) (use ok(1,2) l c ne p l1 ptab_upd [OF cl] in \<open>simp_all add: e\<close>)
  qed
qed

lemma fork_start_inv:
  assumes inv: "pt_inv k" and cur: "on_cpu cur k"
  shows "pt_inv (fork_start cur k)"
proof -
  let ?k = "fork_start cur k"
  note d = pt_invD [OF inv]
  have c: "cur < NPROC" using cur by (simp add: on_cpu_def)
  from inv cur show ?thesis
  proof (cases rule: fork_start_spec)
    case full
    then show ?thesis using inv by simp
  next
    case (ok i)
    note g = ok(4-6) and f = ok(8-11)
    have al: "alive (st ?k j) = alive (st k j)" "vacant (st ?k j) = vacant (st k j)" for j
      using ok(2) by (simp_all add: f alive_def vacant_def)
    have ru: "st ?k j = RUNNING \<longleftrightarrow> st k j = RUNNING" "st ?k j = SLEEPING \<longleftrightarrow> st k j = SLEEPING" "st ?k j = ZOMBIE \<longleftrightarrow> st k j = ZOMBIE" for j
      using ok(2) by (simp_all add: f)
    have other: "np_of k p \<noteq> int i" if "p < NPROC" for p
      using d(10) [OF that] ok(2) by auto
    show ?thesis
    proof (rule pt_invI)
      show "np_of ?k p = -1 \<or> (\<exists>j < NPROC. np_of ?k p = int j \<and> st ?k j = EMBRYO)" if "p < NPROC" for p
        using d(10) [OF that] ok(1,2) by (auto simp: f)
      show "p = q" if "p < NPROC" "q < NPROC" "np_of ?k p = np_of ?k q" "np_of ?k p \<noteq> -1" for p q
        using d(11) [OF that(1,2)] that other by (auto simp: f(4) split: if_splits)
    qed (use d in \<open>simp_all add: g al ru f(2,3)\<close>)
  qed
qed

lemma made_inv:
  assumes inv: "pt_inv k" and cur: "on_cpu cur k" and np: "np_of k cur = int i"
    and m: "made i pa (forget cur k) k'"
    and s: "st k' i = UNUSED \<and> pa = par (forget cur k) i \<or> st k' i = RUNNABLE \<and> pa = int cur"
  shows "pt_inv k'"
proof -
  note d = pt_invD [OF inv]
  let ?k0 = "forget cur k"
  have c: "cur < NPROC" "st k cur = RUNNING" using cur by (simp_all add: on_cpu_def)
  have i: "i < NPROC" "st k i = EMBRYO" using d(10) [OF c(1)] np by auto
  have ne: "i \<noteq> cur" using i(2) c(2) by auto
  have p0: "ptab ?k0 ! j = (if j = cur then (ptab k ! cur)\<lparr>p_np := -1\<rparr> else ptab k ! j)" for j using c(1) d(1) by simp
  have o: "only_slot i ?k0 k'" "par k' i = pa" "np_of k' i = np_of k i" using m p0 ne by (simp_all add: made_def)
  have g: "length (ptab k') = NPROC" "cpus k' = cpus k" "initproc k' = initproc k"
    "\<And>j. j \<noteq> i \<Longrightarrow> ptab k' ! j = ptab ?k0 ! j" using o(1) d(1) by (simp_all add: only_slot_def)
  have f: "st k' j = st k j" "par k' j = par k j" "chan_at k' j = chan_at k j" "np_of k' j = (if j = cur then -1 else np_of k j)"
    if "j \<noteq> i" for j using g(4) [OF that] p0 by simp_all
  have npi: "np_of k' j = (if j = cur then -1 else np_of k j)" for j using f(4) o(3) ne by (cases "j = i") simp_all
  have ni: "int i \<noteq> initproc k" using d(2) i by (auto simp: alive_def)
  have al: "alive (st k j) \<Longrightarrow> j \<noteq> i \<and> alive (st k' j)" for j using i(2) f(1) by (cases "j = i") (auto simp: alive_def)
  have ru: "st k' j = RUNNING \<longleftrightarrow> st k j = RUNNING" for j using s i(2) f(1) by (cases "j = i") auto
  have pi: "par k i = -1" using d(7) [OF i(1)] i(2) by (simp add: vacant_def)
  have pa0: "par ?k0 i = -1" using p0 ne pi by simp
  have self: "pa \<noteq> int i" using s pa0 ne by auto
  have other: "np_of k q \<noteq> int i" if "q < NPROC" "q \<noteq> cur" for q using d(11) [OF that(1) c(1)] that(2) np by auto
  show ?thesis
  proof (rule pt_invI)
    show "\<exists>j < NPROC. initproc k' = int j \<and> alive (st k' j)" using d(2) al g(3) by auto
    show "c_proc (cpus k' ! e) = -1 \<or> (\<exists>q < NPROC. c_proc (cpus k' ! e) = int q \<and> st k' q = RUNNING)" if "e < length (cpus k')" for e
      using d(3) [of e] that unfolding g(2) ru by blast
    show "\<exists>e < length (cpus k'). c_proc (cpus k' ! e) = int q" if "q < NPROC" "st k' q = RUNNING" for q
      using d(4) [OF that(1)] that(2) unfolding g(2) ru by blast
    show "a = e" if "a < length (cpus k')" "e < length (cpus k')" "c_proc (cpus k' ! a) = c_proc (cpus k' ! e)" "c_proc (cpus k' ! a) \<noteq> -1" for a e
      using d(5) that unfolding g(2) by blast
    show "\<exists>a < NPROC. par k' q = int a \<and> alive (st k' a)" if h: "q < NPROC" "\<not> vacant (st k' q)" "int q \<noteq> initproc k'" for q
    proof (cases "q = i")
      case True
      then have "pa = int cur" using s h(2) by (auto simp: vacant_def)
      then show ?thesis using True o(2) al [of cur] c by (auto simp: alive_def)
    next
      case False
      then obtain a where "a < NPROC" "par k q = int a" "alive (st k a)" using d(6) [OF h(1)] h(2,3) f g(3) by auto
      then show ?thesis using f(2) [OF False] al by auto
    qed
    show "par k' q = -1" if "q < NPROC" "vacant (st k' q) \<or> int q = initproc k'" for q
      using d(7) [OF that(1)] that(2) s o(2) pa0 ni f g(3) by (cases "q = i") (auto simp: vacant_def)
    show "st k' q \<noteq> ZOMBIE" if h: "a < NPROC" "q < NPROC" "st k' a = SLEEPING" "chan_at k' a = ProcChan a" "par k' q = int a" for a q
    proof (cases "q = i")
      case True
      then show ?thesis using s by auto
    next
      case False
      moreover have "a \<noteq> i" using s h(3) by auto
      ultimately show ?thesis using d(8) [OF h(1,2)] h(3-5) f by simp
    qed
    show "par k' q \<noteq> int q" if "q < NPROC" for q using d(9) [OF that] self o(2) f(2) by (cases "q = i") auto
    show "np_of k' q = -1 \<or> (\<exists>j < NPROC. np_of k' q = int j \<and> st k' j = EMBRYO)" if "q < NPROC" for q
    proof (cases "q = cur")
      case False
      from d(10) [OF that] show ?thesis
      proof
        assume "\<exists>j < NPROC. np_of k q = int j \<and> st k j = EMBRYO"
        then obtain j where "j < NPROC" "np_of k q = int j" "st k j = EMBRYO" by blast
        then show ?thesis using other [OF that False] False f(1) [of j] npi by (intro disjI2 exI [of _ j]) auto
      qed (use False npi in simp)
    qed (simp add: npi)
    show "a = b" if "a < NPROC" "b < NPROC" "np_of k' a = np_of k' b" "np_of k' a \<noteq> -1" for a b
      using d(11) [OF that(1,2)] that(3,4) by (simp add: npi split: if_splits)
  qed (rule g(1))
qed

lemma fork_finish_inv:
  assumes inv: "pt_inv k" and cur: "on_cpu cur k" and np: "np_of k cur \<noteq> -1"
    and run: "fork_finish fs bound dataseg junk cur k = Inr (k', r)"
  shows "pt_inv k'"
proof -
  have c: "cur < NPROC" using cur by (simp add: on_cpu_def)
  obtain i where i: "i < NPROC" "np_of k cur = int i" using inv_np [OF inv c] np by blast
  have l: "i < length (ptab k)" using i(1) inv_len [OF inv] by simp
  from run i(2) l show ?thesis
    by (cases rule: fork_finish_spec) (auto intro: made_inv [OF inv cur i(2)])
qed

end
