(* ===== verification/Proc_Claims.thy ===== *)
theory Proc_Claims
  imports Proc_Correct
begin

text \<open>
  What the process table promises: the invariant over every history of the kernel, the hand-over of an exiting process to its
  parent and of its children to the first process, the fairness of the scheduler, and \<open>kill\<close> with the id 0.
\<close>

subsection \<open>Histories\<close>

text \<open>
  One operation of a process on a CPU, of an interrupt handler (\<open>wakeup\<close>), or of the scheduler of an idle CPU. A process between the
  two steps of \<open>fork\<close> makes no other call (\<open>in_call\<close>), but the timer can take its CPU away. Only \<open>wait\<close> sleeps on
  a process (proc.c); the other callers of \<open>sleep\<close> pass other addresses.
\<close>

definition in_call :: "nat \<Rightarrow> 'e kern \<Rightarrow> bool" where
  "in_call p k \<longleftrightarrow> on_cpu p k \<and> np_of k p = -1"

inductive pstep :: "'e files \<Rightarrow> addr \<Rightarrow> addr \<Rightarrow> 'e kern \<Rightarrow> 'e kern \<Rightarrow> bool" for fs bound dataseg where
  step_fork_start: "in_call p k \<Longrightarrow> pstep fs bound dataseg k (fork_start p k)"
| step_fork_finish: "on_cpu p k \<Longrightarrow> np_of k p \<noteq> -1 \<Longrightarrow> fork_finish fs bound dataseg junk p k = Inr (k', r) \<Longrightarrow> pstep fs bound dataseg k k'"
| step_exit: "in_call p k \<Longrightarrow> exit fs p k = Inr k' \<Longrightarrow> pstep fs bound dataseg k k'"
| step_wait: "in_call p k \<Longrightarrow> wait bound p k = Inr (k', w) \<Longrightarrow> pstep fs bound dataseg k k'"
| step_sleep: "in_call p k \<Longrightarrow> pstep fs bound dataseg k (sleep p (Chan a) k)"
| step_yield: "on_cpu p k \<Longrightarrow> pstep fs bound dataseg k (yield p k)"
| step_kill: "pstep fs bound dataseg k (fst (kill pid k))"
| step_wakeup: "pstep fs bound dataseg k (wakeup ch k)"
| step_grow: "in_call p k \<Longrightarrow> growproc bound p n k = Inr (k', r) \<Longrightarrow> pstep fs bound dataseg k k'"
| step_sched: "c < length (cpus k) \<Longrightarrow> c_proc (cpus k ! c) = -1 \<Longrightarrow> pstep fs bound dataseg k (scheduler c k)"

lemma growproc_spec:
  assumes "growproc bound cur n k = Inr (k', r)"
  shows "same_core k k'" and "cpus k' = cpus k"
proof -
  have m: "same_core k (upd_proc cur (\<lambda>p. p\<lparr>p_sz := z\<rparr>) (k\<lparr>km := m\<rparr>))" "same_core k (k\<lparr>km := m\<rparr>)" for z m
  proof -
    show s: "same_core k (k\<lparr>km := m\<rparr>)" by (simp add: same_core_def)
    show "same_core k (upd_proc cur (\<lambda>p. p\<lparr>p_sz := z\<rparr>) (k\<lparr>km := m\<rparr>))"
      by (rule same_core_trans [OF s same_core_upd]) (simp add: core_def)
  qed
  obtain m z where "(if n \<noteq> 0 \<and> z = 0 then Inr (k\<lparr>km := m\<rparr>, -1)
      else Inr (upd_proc cur (\<lambda>p. p\<lparr>p_sz := z\<rparr>) (k\<lparr>km := m\<rparr>), 0)) = (Inr (k', r) :: ('a kern \<times> int) res)"
    using assms unfolding growproc_def Let_def rbind_eq_Inr by auto
  then show "same_core k k'" and "cpus k' = cpus k" using m by (auto split: if_splits)
qed

lemma pstep_inv:
  assumes "pstep fs bound dataseg k k'" and "pt_inv k"
  shows "pt_inv k'"
  using assms
proof (induction rule: pstep.induct)
  case (step_grow p k n k' r)
  show ?case by (rule pt_inv_same [OF growproc_spec(1) [OF step_grow(2)] step_grow(3)])
next
  case (step_wakeup k ch)
  show ?case unfolding wakeup_def by (rule woken_inv [OF wakeup1_woken step_wakeup])
next
  case (step_kill k pid)
  show ?case by (rule woken_inv [OF kill_woken step_kill])
qed (auto simp: in_call_def intro: fork_start_inv fork_finish_inv exit_inv wait_inv sleep_inv yield_inv scheduler_inv)

subsection \<open>The start: \<open>userinit\<close>\<close>

text \<open>The static table at boot, and the state \<open>userinit\<close> leaves: one process, ready to run.\<close>

definition blank_table :: "'e kern \<Rightarrow> bool" where
  "blank_table k \<longleftrightarrow> length (ptab k) = NPROC \<and> (\<forall>i < NPROC. st k i = UNUSED \<and> par k i = -1 \<and> np_of k i = -1) \<and> nextpid k = 1 \<and>
     (\<forall>c < length (cpus k). c_proc (cpus k ! c) = -1)"

definition booted :: "'e kern \<Rightarrow> bool" where
  "booted k \<longleftrightarrow> length (ptab k) = NPROC \<and> initproc k = 0 \<and> st k 0 = RUNNABLE \<and> pid_of k 0 = 1 \<and>
     (\<forall>i < NPROC. par k i = -1 \<and> np_of k i = -1 \<and> (0 < i \<longrightarrow> st k i = UNUSED)) \<and> nextpid k = 2 \<and>
     (\<forall>c < length (cpus k). c_proc (cpus k ! c) = -1)"

lemma booted_inv:
  assumes "booted k"
  shows "pt_inv k"
proof -
  have n: "(0::nat) < NPROC" by (simp add: NPROC_def)
  have b: "length (ptab k) = NPROC" "initproc k = 0" "st k 0 = RUNNABLE" "pid_of k 0 = 1" "nextpid k = 2"
    "\<And>i. i < NPROC \<Longrightarrow> par k i = -1 \<and> np_of k i = -1" "\<And>i. i < NPROC \<Longrightarrow> 0 < i \<Longrightarrow> st k i = UNUSED"
    "\<And>c. c < length (cpus k) \<Longrightarrow> c_proc (cpus k ! c) = -1" using assms by (auto simp: booted_def)
  have z: "st k i = (if i = 0 then RUNNABLE else UNUSED)" if "i < NPROC" for i using b(3,7) that by simp
  show ?thesis by (rule pt_invI) (use b n z in \<open>auto simp: alive_def vacant_def split: if_splits\<close>)
qed

lemma userinit_booted:
  assumes "blank_table k" and "userinit bound dataseg junk initcode name root k = Inr k'"
  shows "booted k'"
proof -
  have n: "(0::nat) < NPROC" by (simp add: NPROC_def)
  have b: "length (ptab k) = NPROC" "\<And>i. i < NPROC \<Longrightarrow> st k i = UNUSED \<and> par k i = -1 \<and> np_of k i = -1" "nextpid k = 1"
    "\<And>c. c < length (cpus k) \<Longrightarrow> c_proc (cpus k ! c) = -1" using assms(1) by (auto simp: blank_table_def)
  obtain k0 r where sl: "allocproc_slot k = (k0, r)" by (cases "allocproc_slot k")
  have k0: "r = 0" "k0 = (upd_proc 0 (\<lambda>p. p\<lparr>p_state := EMBRYO, p_pid := 1\<rparr>) k)\<lparr>nextpid := wrap32 2\<rparr>"
  proof -
    from sl have "r = 0 \<and> k0 = (upd_proc 0 (\<lambda>p. p\<lparr>p_state := EMBRYO, p_pid := 1\<rparr>) k)\<lparr>nextpid := wrap32 2\<rparr>"
    proof (cases rule: allocproc_slot_spec)
      case (ok i)
      then have "i = 0" using b(1,2) n by (metis gr_zeroI)
      then show ?thesis using ok(4,5) b(3) by simp
    qed (use b(1,2) n in auto)
    then show "r = 0" "k0 = (upd_proc 0 (\<lambda>p. p\<lparr>p_state := EMBRYO, p_pid := 1\<rparr>) k)\<lparr>nextpid := wrap32 2\<rparr>" by simp_all
  qed
  obtain k1 a where st: "allocproc_stack junk 0 k0 = Inr (k1, a)"
    using assms(2) sl k0(1) by (cases "allocproc_stack junk 0 k0") (auto simp: userinit_def allocproc_def)
  then have al: "allocproc junk k = Inr (k1, a)" using sl k0(1) by (simp add: allocproc_def)
  note run = assms(2) [unfolded userinit_def al rbind_Inr prod.case Let_def]
  have l0: "0 < length (ptab k0)" using b(1) n k0(2) by simp
  have m: "made 0 (par k0 0) k0 k1" "a = -1 \<or> a = 0" using allocproc_stack_spec [OF st l0] by auto
  have a: "\<not> a < 0" "nat a = 0" "a = 0" using m(2) run by auto
  note run = run [unfolded if_not_P [OF a(1)] a(2), unfolded a(3)]
  have l: "0 < length (ptab k1)" using m(1) by (simp add: made_def only_slot_def)
  have f: "ptab k' = (ptab k1)[0 := ptab k' ! 0]" "st k' 0 = RUNNABLE" "pid_of k' 0 = pid_of k1 0" "par k' 0 = par k1 0" "np_of k' 0 = np_of k1 0"
    "cpus k' = cpus k1" "nextpid k' = nextpid k1" "initproc k' = 0"
    using run l by (auto simp: rbind_eq_Inr upd_proc_def split: if_splits)
  have len: "length (ptab k') = length (ptab k1)" using arg_cong [OF f(1), of length] by simp
  have p: "ptab k' ! j = ptab k1 ! j" if "0 < j" for j using arg_cong [OF f(1), of "\<lambda>l. l ! j"] that by simp
  have w: "wrap32 2 = 2" by (simp add: wrap32_def)
  have i0: "ptab k0 ! 0 = (ptab k ! 0)\<lparr>p_state := EMBRYO, p_pid := 1\<rparr>" "\<And>j. 0 < j \<Longrightarrow> ptab k0 ! j = ptab k ! j"
    using b(1) n by (simp_all add: k0(2) upd_proc_def)
  have g0: "length (ptab k0) = NPROC" "cpus k0 = cpus k" "nextpid k0 = 2" using b(1) w by (simp_all add: k0(2))
  have o: "length (ptab k1) = NPROC" "cpus k1 = cpus k" "nextpid k1 = 2" "\<And>j. 0 < j \<Longrightarrow> ptab k1 ! j = ptab k ! j"
    "par k1 0 = -1" "pid_of k1 0 = 1" "np_of k1 0 = -1"
    using m(1) b(2) [OF n] i0 g0 by (simp_all add: made_def only_slot_def)
  have "par k' i = -1 \<and> np_of k' i = -1" if "i < NPROC" for i
    using that p o f(4,5) b(2) by (cases "i = 0") simp_all
  then show ?thesis using f len p o b by (simp add: booted_def)
qed

subsection \<open>Forks under way and process ids\<close>

text \<open>A process in the middle of \<open>fork\<close> runs or is ready to; every slot in state \<open>EMBRYO\<close> belongs to such a process.\<close>

definition forks_ok :: "'e kern \<Rightarrow> bool" where
  "forks_ok k \<longleftrightarrow> (\<forall>p < NPROC. np_of k p \<noteq> -1 \<longrightarrow> st k p = RUNNING \<or> st k p = RUNNABLE) \<and>
     (\<forall>i < NPROC. st k i = EMBRYO \<longrightarrow> (\<exists>p < NPROC. np_of k p = int i))"

text \<open>The ids in use are positive, were given out before, and differ.\<close>

definition ids_ok :: "'e kern \<Rightarrow> bool" where
  "ids_ok k \<longleftrightarrow> (\<forall>p < NPROC. st k p \<noteq> UNUSED \<longrightarrow> 0 < pid_of k p \<and> pid_of k p < nextpid k) \<and>
     (\<forall>p < NPROC. \<forall>q < NPROC. st k p \<noteq> UNUSED \<longrightarrow> st k q \<noteq> UNUSED \<longrightarrow> pid_of k p = pid_of k q \<longrightarrow> p = q)"

text \<open>All steps but those of \<open>fork\<close> leave the ids and the forks alone.\<close>

definition calm :: "'e kern \<Rightarrow> 'e kern \<Rightarrow> bool" where
  "calm k k' \<longleftrightarrow> nextpid k' = nextpid k \<and>
     (\<forall>p < NPROC. (st k' p \<noteq> UNUSED \<longrightarrow> st k p \<noteq> UNUSED \<and> pid_of k' p = pid_of k p) \<and> np_of k' p = np_of k p \<and>
        (st k' p = EMBRYO \<longrightarrow> st k p = EMBRYO) \<and>
        (np_of k p \<noteq> -1 \<longrightarrow> st k p = RUNNING \<or> st k p = RUNNABLE \<longrightarrow> st k' p = RUNNING \<or> st k' p = RUNNABLE))"

lemma calm_forks:
  assumes "calm k k'" and "forks_ok k"
  shows "forks_ok k'"
proof -
  have c: "np_of k' p = np_of k p" "st k' p = EMBRYO \<Longrightarrow> st k p = EMBRYO"
    "np_of k p \<noteq> -1 \<Longrightarrow> st k p = RUNNING \<or> st k p = RUNNABLE \<Longrightarrow> st k' p = RUNNING \<or> st k' p = RUNNABLE" if "p < NPROC" for p
    using assms(1) that unfolding calm_def by blast+
  have f: "np_of k p \<noteq> -1 \<Longrightarrow> st k p = RUNNING \<or> st k p = RUNNABLE" "st k p = EMBRYO \<Longrightarrow> \<exists>q < NPROC. np_of k q = int p" if "p < NPROC" for p
    using assms(2) that by (simp_all add: forks_ok_def)
  show ?thesis using c f unfolding forks_ok_def by metis
qed

lemma calm_ids: "calm k k' \<Longrightarrow> ids_ok k \<Longrightarrow> ids_ok k'"
  by (simp add: calm_def ids_ok_def)

lemma same_core_calm: "same_core k k' \<Longrightarrow> length (ptab k) = NPROC \<Longrightarrow> calm k k'"
  by (simp add: calm_def same_coreD)

lemma woken_calm: "woken k k' \<Longrightarrow> length (ptab k) = NPROC \<Longrightarrow> calm k k'"
  by (fastforce simp: calm_def woken_def)

text \<open>What neither \<open>exit\<close> nor leaving a CPU changes.\<close>

definition same_names :: "'e kern \<Rightarrow> 'e kern \<Rightarrow> bool" where
  "same_names k k' \<longleftrightarrow> map (\<lambda>p. (p_pid p, p_np p)) (ptab k') = map (\<lambda>p. (p_pid p, p_np p)) (ptab k) \<and> nextpid k' = nextpid k"

lemma same_names_upd:
  assumes "\<And>q. p_pid (f q) = p_pid q \<and> p_np (f q) = p_np q"
  shows "same_names k (upd_proc i f k1) \<longleftrightarrow> same_names k k1"
proof -
  have "map (\<lambda>p. (p_pid p, p_np p)) ((ptab k1)[i := f (ptab k1 ! i)]) = map (\<lambda>p. (p_pid p, p_np p)) (ptab k1)"
    using assms by (cases "i < length (ptab k1)") (simp_all add: map_update list_update_same_conv list_update_beyond)
  then show ?thesis by (simp add: same_names_def upd_proc_def)
qed

lemma same_names_simps [simp]:
  "same_names k k" "same_names k (leave_cpu p k1) \<longleftrightarrow> same_names k k1"
  "same_names k (wakeup1 ch k1) \<longleftrightarrow> same_names k k1" "same_names k (k1\<lparr>env := e\<rparr>) \<longleftrightarrow> same_names k k1"
  "same_names k (k1\<lparr>cpus := cs\<rparr>) \<longleftrightarrow> same_names k k1"
proof -
  have e: "map (\<lambda>p. (p_pid p, p_np p)) (map (\<lambda>p. if p_state p = SLEEPING \<and> p_chan p = ch then p\<lparr>p_state := RUNNABLE\<rparr> else p) ps) =
      map (\<lambda>p. (p_pid p, p_np p)) ps" for ps by simp
  show "same_names k (wakeup1 ch k1) \<longleftrightarrow> same_names k k1" by (simp add: same_names_def wakeup1_def e del: map_map)
qed (simp_all add: same_names_def)

lemma same_names_nth:
  assumes "same_names k k'" and "p < length (ptab k)"
  shows "pid_of k' p = pid_of k p" and "np_of k' p = np_of k p"
proof -
  have m: "map (\<lambda>p. (p_pid p, p_np p)) (ptab k') = map (\<lambda>p. (p_pid p, p_np p)) (ptab k)" using assms(1) by (simp add: same_names_def)
  then have "length (ptab k') = length (ptab k)" using map_eq_imp_length_eq by blast
  then show "pid_of k' p = pid_of k p" and "np_of k' p = np_of k p" using arg_cong [OF m, of "\<lambda>l. l ! p"] assms(2) by simp_all
qed

lemma exit_names:
  assumes "exit fs p k = Inr k'"
  shows "same_names k k'"
proof -
  obtain k1 e where k1: "close_files fs p k = Inr k1"
    and k': "k' = leave_cpu p (upd_proc p (\<lambda>p. p\<lparr>p_state := ZOMBIE\<rparr>) (fold (adopt p) [0..<NPROC]
      (wakeup1 (chan_of (par (upd_proc p (\<lambda>p. p\<lparr>p_cwd := 0\<rparr>) (k1\<lparr>env := e\<rparr>)) p)) (upd_proc p (\<lambda>p. p\<lparr>p_cwd := 0\<rparr>) (k1\<lparr>env := e\<rparr>)))))"
    using assms by (auto simp: exit_def bind_simps Let_def split: if_splits)
  have "same_names k k1" using k1 unfolding close_files_def
    by (rule for_each_inv') (auto simp: bind_simps cont_def same_names_upd split: if_splits)
  moreover have "same_names k (fold (adopt p) xs s)" if "same_names k s" for xs s
    using that by (induction xs arbitrary: s) (simp_all add: adopt_def Let_def same_names_upd)
  ultimately show ?thesis by (simp add: k' same_names_upd)
qed

lemma exit_calm:
  assumes "pt_inv k" and "in_call p k" and "exit fs p k = Inr k'"
  shows "calm k k'"
proof -
  have p: "on_cpu p k" "np_of k p = -1" "st k p = RUNNING" using assms(2) by (simp_all add: in_call_def on_cpu_def)
  note n = same_names_nth [OF exit_names [OF assms(3)], unfolded inv_len [OF assms(1)]]
  have s: "st k' j = (if j = p then ZOMBIE else st k j) \<or> j \<noteq> p \<and> st k j = SLEEPING \<and> st k' j = RUNNABLE" if "j < NPROC" for j
    using exit_spec [OF assms(1) p(1) assms(3)] that by auto
  have "nextpid k' = nextpid k" using exit_names [OF assms(3)] by (simp add: same_names_def)
  moreover have "(st k' j \<noteq> UNUSED \<longrightarrow> st k j \<noteq> UNUSED) \<and> (st k' j = EMBRYO \<longrightarrow> st k j = EMBRYO) \<and>
      (np_of k j \<noteq> -1 \<longrightarrow> st k j = RUNNING \<or> st k j = RUNNABLE \<longrightarrow> st k' j = RUNNING \<or> st k' j = RUNNABLE)" if "j < NPROC" for j
    using s [OF that] p(2,3) by (auto split: if_splits)
  ultimately show ?thesis using n by (auto simp: calm_def)
qed

lemma leave_calm:
  assumes "pt_inv k" and "on_cpu p k" and "\<And>q. p_pid (f q) = p_pid q \<and> p_np (f q) = p_np q"
    and "p_state (f (ptab k ! p)) = RUNNABLE \<or> p_state (f (ptab k ! p)) = SLEEPING \<and> np_of k p = -1"
  shows "calm k (leave_cpu p (upd_proc p f k))"
  using assms inv_len [OF assms(1)] by (auto simp: calm_def on_cpu_def)

lemma wait_calm:
  assumes "pt_inv k" and "in_call p k" and "wait bound p k = Inr (k', w)"
  shows "calm k k'"
proof (cases "first_proc (\<lambda>q. p_parent q = int p \<and> p_state q = ZOMBIE) (ptab k)")
  case (Some i)
  then have i: "i < length (ptab k)" "st k i = ZOMBIE" by (simp_all add: first_proc_Some)
  have "reap bound i k = Inr k'" using assms(3) Some by (auto simp: wait_def bind_simps)
  note r = reap_spec [OF this i(1)]
  have "(st k' j \<noteq> UNUSED \<longrightarrow> st k j \<noteq> UNUSED \<and> pid_of k' j = pid_of k j) \<and> np_of k' j = np_of k j \<and>
      (st k' j = EMBRYO \<longrightarrow> st k j = EMBRYO) \<and>
      (np_of k j \<noteq> -1 \<longrightarrow> st k j = RUNNING \<or> st k j = RUNNABLE \<longrightarrow> st k' j = RUNNING \<or> st k' j = RUNNABLE)" for j
    using r(5) [of j] r(6,10) i(2) by (cases "j = i") simp_all
  then show ?thesis using r(3) by (simp add: calm_def)
next
  case None
  have "calm k (sleep p (ProcChan p) k)" unfolding sleep_def
    by (rule leave_calm [OF assms(1)]) (use assms(2) in \<open>simp_all add: in_call_def\<close>)
  then show ?thesis using assms(3) None by (auto simp: wait_def calm_def split: if_splits)
qed

lemma sched_calm:
  assumes "pt_inv k" and "c < length (cpus k)"
  shows "calm k (scheduler c k)"
proof (cases "List.find (\<lambda>i. st k i = RUNNABLE) [c_pos (cpus k ! c)..<length (ptab k)]")
  case None
  then show ?thesis by (simp add: scheduler_def calm_def)
next
  case (Some i)
  then have "i \<in> set [c_pos (cpus k ! c)..<length (ptab k)]" by (metis find_Some_iff nth_mem)
  moreover have "st k i = RUNNABLE" using Some by (auto simp: find_Some_iff)
  ultimately show ?thesis using Some by (simp add: scheduler_def calm_def)
qed

lemma pstep_kinds:
  assumes "pstep fs bound dataseg k k'" and "pt_inv k"
  shows "calm k k' \<or> (\<exists>p. in_call p k \<and> k' = fork_start p k) \<or>
    (\<exists>p junk r. on_cpu p k \<and> np_of k p \<noteq> -1 \<and> fork_finish fs bound dataseg junk p k = Inr (k', r))"
  using assms(1)
proof cases
  case (step_exit p)
  then show ?thesis using exit_calm [OF assms(2)] by blast
next
  case (step_wait p w)
  then show ?thesis using wait_calm [OF assms(2)] by blast
next
  case (step_sleep p a)
  have "calm k k'" unfolding step_sleep(1) sleep_def
    by (rule leave_calm [OF assms(2)]) (use step_sleep(2) in \<open>simp_all add: in_call_def\<close>)
  then show ?thesis ..
next
  case (step_yield p)
  have "calm k k'" unfolding step_yield(1) yield_def by (rule leave_calm [OF assms(2) step_yield(2)]) simp_all
  then show ?thesis ..
next
  case (step_kill pid)
  then show ?thesis using woken_calm [OF kill_woken inv_len [OF assms(2)]] by blast
next
  case (step_wakeup ch)
  then show ?thesis using woken_calm [OF wakeup1_woken inv_len [OF assms(2)]] by (simp add: wakeup_def)
next
  case (step_grow p n r)
  then show ?thesis using same_core_calm [OF growproc_spec(1) inv_len [OF assms(2)]] by blast
next
  case (step_sched c)
  then show ?thesis using sched_calm [OF assms(2)] by blast
qed blast+

text \<open>The end of a fork.\<close>

lemma fork_finish_names:
  assumes inv: "pt_inv k" and cur: "on_cpu p k" and np: "np_of k p \<noteq> -1" and run: "fork_finish fs bound dataseg junk p k = Inr (k', r)"
  shows "nextpid k' = nextpid k" and "\<exists>i < NPROC. np_of k p = int i \<and> st k i = EMBRYO \<and> (st k' i = UNUSED \<or> st k' i = RUNNABLE) \<and>
    (\<forall>j. pid_of k' j = pid_of k j \<and> (j \<noteq> i \<longrightarrow> st k' j = st k j) \<and> np_of k' j = (if j = p then -1 else np_of k j))"
proof -
  have c: "p < NPROC" "st k p = RUNNING" using cur by (simp_all add: on_cpu_def)
  obtain i where i: "i < NPROC" "np_of k p = int i" "st k i = EMBRYO" using inv_np [OF inv c(1)] np by blast
  have l: "length (ptab k) = NPROC" by (rule inv_len [OF inv])
  have ne: "i \<noteq> p" using i(3) c(2) by auto
  have li: "i < length (ptab k)" using i(1) l by simp
  obtain pa where m: "made i pa (forget p k) k'" "st k' i = UNUSED \<or> st k' i = RUNNABLE"
    using run i(2) li by (cases rule: fork_finish_spec) auto
  have p0: "ptab (forget p k) ! j = (if j = p then (ptab k ! p)\<lparr>p_np := -1\<rparr> else ptab k ! j)" for j using c(1) l by simp
  show "nextpid k' = nextpid k" using m(1) by (simp add: made_def only_slot_def)
  have o: "ptab k' ! j = ptab (forget p k) ! j" if "j \<noteq> i" for j using m(1) that unfolding made_def only_slot_def by blast
  have oi: "pid_of k' i = pid_of k i" "np_of k' i = np_of k i" using m(1) p0 ne by (simp_all add: made_def)
  have "pid_of k' j = pid_of k j \<and> (j \<noteq> i \<longrightarrow> st k' j = st k j) \<and> np_of k' j = (if j = p then -1 else np_of k j)" for j
    using o [of j] oi ne p0 by (cases "j = i") auto
  then show "\<exists>i < NPROC. np_of k p = int i \<and> st k i = EMBRYO \<and> (st k' i = UNUSED \<or> st k' i = RUNNABLE) \<and>
    (\<forall>j. pid_of k' j = pid_of k j \<and> (j \<noteq> i \<longrightarrow> st k' j = st k j) \<and> np_of k' j = (if j = p then -1 else np_of k j))"
    using i m(2) by blast
qed

lemma pstep_forks:
  assumes "pstep fs bound dataseg k k'" and "pt_inv k" and "forks_ok k"
  shows "forks_ok k'"
  using pstep_kinds [OF assms(1,2)]
proof (elim disjE exE conjE)
  assume "calm k k'" then show ?thesis using calm_forks assms(3) by blast
next
  fix p assume p: "in_call p k" "k' = fork_start p k"
  then have c: "on_cpu p k" "p < NPROC" "st k p = RUNNING" by (simp_all add: in_call_def on_cpu_def)
  from assms(2) c(1) show ?thesis
  proof (cases rule: fork_start_spec)
    case (ok i)
    note f = ok(8,11)
    have npp: "np_of k p = -1" using p(1) by (simp add: in_call_def)
    have npi: "np_of k i = -1" using assms(3) ok(1,2) by (auto simp: forks_ok_def)
    have pi: "p \<noteq> i" using c(3) ok(2) by auto
    have a: "st k' q = RUNNING \<or> st k' q = RUNNABLE" if "q < NPROC" "np_of k' q \<noteq> -1" for q
    proof (cases "q = p")
      case True
      then show ?thesis using c(3) pi by (simp add: p(2) f)
    next
      case False
      then have q: "np_of k q \<noteq> -1" "q \<noteq> i" using that(2) npi by (auto simp: p(2) f)
      then show ?thesis using assms(3) that(1) by (simp add: p(2) f forks_ok_def)
    qed
    have "\<exists>q < NPROC. np_of k' q = int j" if jb: "j < NPROC" "st k' j = EMBRYO" for j
    proof (cases "j = i")
      case True
      then show ?thesis using c(2) by (auto simp: p(2) f)
    next
      case False
      then have "st k j = EMBRYO" using jb(2) by (simp add: p(2) f)
      then obtain q where q: "q < NPROC" "np_of k q = int j" using assms(3) jb(1) by (auto simp: forks_ok_def)
      then have "q \<noteq> p" using npp by auto
      then show ?thesis using q by (auto simp: p(2) f)
    qed
    then show ?thesis using a by (simp add: forks_ok_def)
  qed (use assms(3) p(2) in simp)
next
  fix p junk r assume p: "on_cpu p k" "np_of k p \<noteq> -1" "fork_finish fs bound dataseg junk p k = Inr (k', r)"
  obtain i where i: "i < NPROC" "np_of k p = int i" "st k i = EMBRYO" "st k' i = UNUSED \<or> st k' i = RUNNABLE"
    "\<And>j. pid_of k' j = pid_of k j \<and> (j \<noteq> i \<longrightarrow> st k' j = st k j) \<and> np_of k' j = (if j = p then -1 else np_of k j)"
    using fork_finish_names(2) [OF assms(2) p] by blast
  have npi: "np_of k i = -1" using assms(3) i(1,3) by (auto simp: forks_ok_def)
  have "st k' q = RUNNING \<or> st k' q = RUNNABLE" if "q < NPROC" "np_of k' q \<noteq> -1" for q
    using assms(3) that i(5) [of q] npi by (cases "q = i") (auto simp: forks_ok_def split: if_splits)
  moreover have "\<exists>q < NPROC. np_of k' q = int j" if jb: "j < NPROC" "st k' j = EMBRYO" for j
  proof -
    have j: "j \<noteq> i" "st k j = EMBRYO" using i(4) i(5) [of j] jb(2) by auto
    then obtain q where q: "q < NPROC" "np_of k q = int j" using assms(3) jb(1) by (auto simp: forks_ok_def)
    then have "q \<noteq> p" using i(2) j(1) by auto
    then show ?thesis using q i(5) [of q] by auto
  qed
  ultimately show ?thesis by (simp add: forks_ok_def)
qed

text \<open>The number of slots, and with them ids, that a step takes.\<close>

definition taken :: "'e kern \<Rightarrow> 'e kern \<Rightarrow> nat" where
  "taken k k' = (if \<exists>i < NPROC. st k i = UNUSED \<and> st k' i = EMBRYO then 1 else 0)"

lemma wrap32_small: "0 \<le> x \<Longrightarrow> x < 2 ^ 31 \<Longrightarrow> wrap32 x = x"
  by (simp add: wrap32_def sint_sbintrunc' signed_take_bit_int_eq_self)

lemma wrap32_Suc: "wrap32 (wrap32 x + 1) = wrap32 (x + 1)"
  by (simp add: wrap32_def)

lemma pstep_ids:
  assumes "pstep fs bound dataseg k k'" and "pt_inv k" and "forks_ok k"
  shows "taken k k' = 0 \<and> nextpid k' = nextpid k \<or> taken k k' = 1 \<and> nextpid k' = wrap32 (nextpid k + 1)"
    and "ids_ok k \<Longrightarrow> 0 < nextpid k \<Longrightarrow> taken k k' = 0 \<or> nextpid k < 2 ^ 31 - 1 \<Longrightarrow> ids_ok k'"
proof -
  have both: "(taken k k' = 0 \<and> nextpid k' = nextpid k \<or> taken k k' = 1 \<and> nextpid k' = wrap32 (nextpid k + 1)) \<and>
    (ids_ok k \<longrightarrow> 0 < nextpid k \<longrightarrow> taken k k' = 0 \<or> nextpid k < 2 ^ 31 - 1 \<longrightarrow> ids_ok k')"
    using pstep_kinds [OF assms(1,2)]
  proof (elim disjE exE conjE)
    assume c: "calm k k'"
    have "taken k k' = 0" using c by (auto simp: taken_def calm_def)
    then show ?thesis using c calm_ids by (auto simp: calm_def)
  next
    fix p assume p: "in_call p k" "k' = fork_start p k"
    then have c: "on_cpu p k" by (simp add: in_call_def)
    from assms(2) c show ?thesis
    proof (cases rule: fork_start_spec)
      case full
      then show ?thesis using p(2) by (auto simp: taken_def)
    next
      case (ok i)
      have t: "taken k k' = 1" using ok(1,2,8) p(2) by (auto simp: taken_def)
      have "ids_ok k'" if "ids_ok k" "0 < nextpid k" "nextpid k < 2 ^ 31 - 1"
      proof -
        have n: "nextpid k' = nextpid k + 1" using ok(7) p(2) that wrap32_small [of "nextpid k + 1"] by simp
        have o: "0 < pid_of k q" "pid_of k q < nextpid k" if "q < NPROC" "st k q \<noteq> UNUSED" for q
          using \<open>ids_ok k\<close> that by (simp_all add: ids_ok_def)
        have "0 < pid_of k' q \<and> pid_of k' q < nextpid k'" if "q < NPROC" "st k' q \<noteq> UNUSED" for q
          using o [OF that(1)] that(2) \<open>0 < nextpid k\<close> n by (cases "q = i") (auto simp: p(2) ok(8,12))
        moreover have "a = b" if "a < NPROC" "b < NPROC" "st k' a \<noteq> UNUSED" "st k' b \<noteq> UNUSED" "pid_of k' a = pid_of k' b" for a b
        proof (cases "a = i \<or> b = i")
          case True
          then show ?thesis using o(2) [of a] o(2) [of b] that by (auto simp: p(2) ok(8,12) split: if_splits)
        next
          case False
          then show ?thesis using \<open>ids_ok k\<close> that by (simp add: p(2) ok(8,12) ids_ok_def)
        qed
        ultimately show ?thesis by (simp add: ids_ok_def)
      qed
      then show ?thesis using t ok(7) p(2) by auto
    qed
  next
    fix p junk r assume p: "on_cpu p k" "np_of k p \<noteq> -1" "fork_finish fs bound dataseg junk p k = Inr (k', r)"
    obtain i where i: "st k i = EMBRYO" "st k' i = UNUSED \<or> st k' i = RUNNABLE"
      "\<And>j. pid_of k' j = pid_of k j \<and> (j \<noteq> i \<longrightarrow> st k' j = st k j)"
      using fork_finish_names(2) [OF assms(2) p] by blast
    have n: "nextpid k' = nextpid k" by (rule fork_finish_names(1) [OF assms(2) p])
    have u: "st k' j \<noteq> UNUSED \<Longrightarrow> st k j \<noteq> UNUSED" for j using i(1,3) by (cases "j = i") auto
    have "\<not> (st k j = UNUSED \<and> st k' j = EMBRYO)" for j using i(1,2) i(3) [of j] by (cases "j = i") auto
    then have "taken k k' = 0" by (simp add: taken_def)
    moreover have "ids_ok k \<longrightarrow> ids_ok k'" using u i(3) n by (simp add: ids_ok_def)
    ultimately show ?thesis using n by simp
  qed
  from both show "taken k k' = 0 \<and> nextpid k' = nextpid k \<or> taken k k' = 1 \<and> nextpid k' = wrap32 (nextpid k + 1)" by blast
  show "ids_ok k \<Longrightarrow> 0 < nextpid k \<Longrightarrow> taken k k' = 0 \<or> nextpid k < 2 ^ 31 - 1 \<Longrightarrow> ids_ok k'" using both by blast
qed

subsection \<open>The invariant of every history\<close>

text \<open>\<open>history fs bound dataseg k n k'\<close>: a history from \<open>k\<close> to \<open>k'\<close> in which \<open>n\<close> ids were given out.\<close>

inductive history :: "'e files \<Rightarrow> addr \<Rightarrow> addr \<Rightarrow> 'e kern \<Rightarrow> nat \<Rightarrow> 'e kern \<Rightarrow> bool" for fs bound dataseg k where
  h_start: "history fs bound dataseg k 0 k"
| h_step: "history fs bound dataseg k n k1 \<Longrightarrow> pstep fs bound dataseg k1 k2 \<Longrightarrow> history fs bound dataseg k (n + taken k1 k2) k2"

lemma booted_ids:
  assumes "booted k"
  shows "forks_ok k" and "ids_ok k"
proof -
  have b: "\<And>i. i < NPROC \<Longrightarrow> st k i = (if i = 0 then RUNNABLE else UNUSED)" "\<And>i. i < NPROC \<Longrightarrow> np_of k i = -1" "pid_of k 0 = 1" "nextpid k = 2"
    using assms by (auto simp: booted_def)
  show "forks_ok k" "ids_ok k" using b by (auto simp: forks_ok_def ids_ok_def split: if_splits)
qed

text \<open>
  C19 (process_invariant): after \<open>userinit\<close>, in every history of the kernel, the process table and the CPUs satisfy \<open>pt_inv\<close>: a process runs
  exactly if it is on a CPU, and on one only; every process but the first has a living parent; nobody sleeps in \<open>wait\<close>
  with a child to reap; a process in the middle of \<open>fork\<close> has a slot in state \<open>EMBRYO\<close> to itself, and no slot stays in that state without one
  (\<open>forks_ok\<close>). \<open>nextpid\<close> is a 32-bit \<open>int\<close>: after \<open>n\<close> ids were given out it is \<open>2 + n\<close>, wrapped. As long as \<open>n\<close> is at
  most \<open>2 ^ 31 - 3\<close>, the ids in use are positive and differ; afterwards \<open>nextpid\<close> is negative and then comes back to ids that may be in use.
\<close>

theorem process_invariant:
  assumes "booted k" and "history fs bound dataseg k n k'"
  shows "pt_inv k' \<and> forks_ok k' \<and> nextpid k' = wrap32 (2 + int n) \<and> (n \<le> 2 ^ 31 - 3 \<longrightarrow> ids_ok k')"
  using assms(2)
proof (induction rule: history.induct)
  case h_start
  then show ?case using booted_inv [OF assms(1)] booted_ids [OF assms(1)] assms(1) wrap32_small [of 2] by (simp add: booted_def)
next
  case (h_step n k1 k2)
  have i: "pt_inv k1" "forks_ok k1" "nextpid k1 = wrap32 (2 + int n)" "n \<le> 2 ^ 31 - 3 \<longrightarrow> ids_ok k1" using h_step.IH by simp_all
  note s = pstep_ids [OF h_step.hyps(2) i(1,2)]
  have n: "nextpid k2 = wrap32 (2 + int (n + taken k1 k2))" using s(1) i(3) wrap32_Suc [of "2 + int n"] by (auto simp: algebra_simps)
  have "ids_ok k2" if b: "n + taken k1 k2 \<le> 2 ^ 31 - 3"
  proof -
    have "nextpid k1 = 2 + int n" using i(3) b wrap32_small [of "2 + int n"] by simp
    then show ?thesis using s i(4) b by auto
  qed
  then show ?case using pstep_inv [OF h_step.hyps(2) i(1)] pstep_forks [OF h_step.hyps(2) i(1,2)] n by blast
qed

text \<open>A boot with one CPU.\<close>

definition blank_tf :: trapframe where
  "blank_tf = \<lparr>tf_eax = 0, tf_cs = 0, tf_ds = 0, tf_es = 0, tf_ss = 0, tf_eflags = 0, tf_esp = 0, tf_eip = 0, tf_rest = []\<rparr>"

definition blank_proc :: proc where
  "blank_proc = \<lparr>p_sz = 0, p_pgdir = 0, p_kstack = 0, p_state = UNUSED, p_pid = 0, p_parent = -1, p_tf = blank_tf, p_chan = NoChan,
     p_killed = 0, p_ofile = replicate NOFILE 0, p_cwd = 0, p_name = replicate 16 0, p_np = -1\<rparr>"

definition demo_kern :: "proc list \<Rightarrow> int \<Rightarrow> unit kern" where
  "demo_kern ps pid = \<lparr>km = demo_mem, ptab = ps @ replicate (NPROC - length ps) blank_proc, nextpid = pid, initproc = 0,
     cpus = [\<lparr>c_proc = -1, c_pos = 0\<rparr>], env = ()\<rparr>"

definition demo_files :: "unit files" where
  "demo_files = \<lparr>do_filedup = \<lambda>_ e. Inr e, do_fileclose = \<lambda>_ e. Inr e, do_idup = \<lambda>_ e. Inr e, do_iput = \<lambda>_ e. Inr e\<rparr>"

definition demo_boot :: "unit kern" where
  "demo_boot = demo_kern [blank_proc\<lparr>p_state := RUNNABLE, p_pid := 1\<rparr>] 2"

lemma demo_booted: "booted demo_boot"
  by (auto simp: booted_def demo_boot_def demo_kern_def blank_proc_def NPROC_def nth_append nth_Cons')

lemma demo_sched:
  "st (scheduler 0 demo_boot) 0 = RUNNING" "c_proc (cpus (scheduler 0 demo_boot) ! 0) = 0"
  by (simp_all add: scheduler_def demo_boot_def demo_kern_def blank_proc_def NPROC_def upt_conv_Cons)

text \<open>The first process forks; while the slot 1 is taken, its id 2 is killed, and the CPU is taken away.\<close>

theorem process_invariant_witness:
  "\<exists>k. history demo_files 0 0 demo_boot 1 k \<and> k = yield 0 (fst (kill 2 (fork_start 0 (scheduler 0 demo_boot)))) \<and>
     pt_inv k \<and> forks_ok k \<and> ids_ok k \<and> nextpid k = 3"
proof -
  let ?s = "pstep demo_files 0 0" and ?h = "history demo_files 0 0 demo_boot"
  define k1 where "k1 = scheduler 0 demo_boot"
  define k2 where "k2 = fork_start 0 k1"
  define k3 where "k3 = fst (kill 2 k2)"
  have 1: "?s demo_boot k1" unfolding k1_def by (rule step_sched) (simp_all add: demo_boot_def demo_kern_def)
  have i1: "pt_inv k1" by (rule pstep_inv [OF 1 booted_inv [OF demo_booted]])
  have c1: "st k1 0 = RUNNING" "np_of k1 0 = -1" "st k1 1 = UNUSED"
    by (simp_all add: k1_def scheduler_def demo_boot_def demo_kern_def blank_proc_def NPROC_def upt_conv_Cons)
  have in1: "in_call 0 k1" using c1 by (simp add: in_call_def on_cpu_def NPROC_def)
  have 2: "?s k1 k2" unfolding k2_def by (rule step_fork_start [OF in1])
  have on1: "on_cpu 0 k1" using in1 by (simp add: in_call_def)
  have t2: "taken k1 k2 = 1" "st k2 0 = RUNNING"
  proof -
    from i1 on1 have "taken k1 k2 = 1 \<and> st k2 0 = RUNNING"
    proof (cases rule: fork_start_spec)
      case full
      then show ?thesis using c1(3) by (simp add: NPROC_def)
    next
      case (ok i)
      then show ?thesis using c1(1) by (auto simp: taken_def k2_def)
    qed
    then show "taken k1 k2 = 1" "st k2 0 = RUNNING" by simp_all
  qed
  have 3: "?s k2 k3" unfolding k3_def by (rule step_kill)
  have l2: "length (ptab k2) = NPROC" by (rule inv_len [OF pstep_inv [OF 2 i1]])
  have w3: "woken k2 k3" unfolding k3_def by (rule kill_woken)
  have "st k3 0 = st k2 0 \<or> st k2 0 = SLEEPING" using w3 l2 unfolding woken_def by (metis NPROC_def zero_less_numeral)
  then have r3: "on_cpu 0 k3" using t2(2) by (auto simp: on_cpu_def NPROC_def)
  have 4: "?s k3 (yield 0 k3)" by (rule step_yield [OF r3])
  have t0: "taken demo_boot k1 = 0" "taken k2 k3 = 0" "taken k3 (yield 0 k3) = 0"
    using sched_calm [OF booted_inv [OF demo_booted], of 0] woken_calm [OF w3 l2]
      leave_calm [OF pstep_inv [OF 3 pstep_inv [OF 2 i1]] r3, of "\<lambda>q. q\<lparr>p_state := RUNNABLE\<rparr>"]
    by (auto simp: taken_def calm_def k1_def yield_def demo_boot_def demo_kern_def)
  have "?h (0 + taken demo_boot k1) k1" by (rule h_step [OF h_start 1])
  from h_step [OF h_step [OF h_step [OF this 2] 3] 4] have h: "?h 1 (yield 0 k3)" using t0 t2(1) by simp
  have "wrap32 (2 + int 1) = 3" by (simp add: wrap32_def)
  then show ?thesis using process_invariant [OF demo_booted h] h unfolding k3_def k2_def k1_def by auto
qed

subsection \<open>Exit hands over\<close>

text \<open>
  C20 (exit_hands_over): when a process exits, it is a zombie off every CPU with the parent it had; its children, and no others, are given to
  the first process; and no process that has a zombie child afterwards sleeps in \<open>wait\<close>: the parent was woken, and the first process
  too if it got a zombie.
\<close>

theorem exit_hands_over:
  assumes "pt_inv k" and "on_cpu p k" and "exit fs p k = Inr k'"
  shows "st k' p = ZOMBIE \<and> par k' p = par k p \<and> (\<forall>c < length (cpus k'). c_proc (cpus k' ! c) \<noteq> int p) \<and>
    (\<forall>q < NPROC. par k' q = (if par k q = int p then initproc k else par k q)) \<and>
    (\<forall>a < NPROC. \<forall>q < NPROC. par k' q = int a \<and> st k' q = ZOMBIE \<longrightarrow> \<not> (st k' a = SLEEPING \<and> chan_at k' a = ProcChan a))"
proof -
  note e = exit_spec [OF assms]
  have p: "p < NPROC" using assms(2) by (simp add: on_cpu_def)
  have "par k' p = par k p" using e p inv_self [OF assms(1) p] by simp
  moreover have "\<not> (st k' a = SLEEPING \<and> chan_at k' a = ProcChan a)" if "a < NPROC" "q < NPROC" "par k' q = int a" "st k' q = ZOMBIE" for a q
    using inv_wakeup [of k' a q] e that by blast
  ultimately show ?thesis using e by blast
qed

lemma close_none:
  assumes "\<And>fd. fd < NOFILE \<Longrightarrow> p_ofile (ptab k ! p) ! fd = 0"
  shows "close_files fs p k = Inr k"
proof -
  have "for_each (\<lambda>fd k. if p_ofile (ptab k ! p) ! fd \<noteq> 0 then
         rbind (do_fileclose fs (p_ofile (ptab k ! p) ! fd) (env k)) (\<lambda>e.
         cont (upd_proc p (\<lambda>q. q\<lparr>p_ofile := (p_ofile q)[fd := 0]\<rparr>) (k\<lparr>env := e\<rparr>))) else cont k) fds k = Inr k"
    if "set fds \<subseteq> {..<NOFILE}" for fds
    using that assms by (induction fds) (simp_all add: cont_def)
  then show ?thesis by (simp add: close_files_def atLeast0LessThan)
qed

text \<open>The first process waits, its child on the CPU has a zombie child of its own.\<close>

definition demo_exit :: "unit kern" where
  "demo_exit = (demo_kern [blank_proc\<lparr>p_state := SLEEPING, p_pid := 1, p_chan := ProcChan 0\<rparr>,
     blank_proc\<lparr>p_state := RUNNING, p_pid := 2, p_parent := 0\<rparr>, blank_proc\<lparr>p_state := ZOMBIE, p_pid := 3, p_parent := 1\<rparr>] 4)
     \<lparr>cpus := [\<lparr>c_proc = 1, c_pos = 2\<rparr>]\<rparr>"

lemma demo_exit_ptab: "ptab demo_exit ! i = (if i = 0 then blank_proc\<lparr>p_state := SLEEPING, p_pid := 1, p_chan := ProcChan 0\<rparr>
    else if i = 1 then blank_proc\<lparr>p_state := RUNNING, p_pid := 2, p_parent := 0\<rparr>
    else if i = 2 then blank_proc\<lparr>p_state := ZOMBIE, p_pid := 3, p_parent := 1\<rparr> else blank_proc)" if "i < NPROC"
  using that by (auto simp: demo_exit_def demo_kern_def nth_append nth_Cons' NPROC_def)

lemma demo_exit_rest: "length (ptab demo_exit) = NPROC" "cpus demo_exit = [\<lparr>c_proc = 1, c_pos = 2\<rparr>]" "nextpid demo_exit = 4" "initproc demo_exit = 0"
  by (simp_all add: demo_exit_def demo_kern_def NPROC_def)

lemma demo_exit_inv: "pt_inv demo_exit"
proof -
  have n: "0 < NPROC" "1 < NPROC" "2 < NPROC" by (simp_all add: NPROC_def)
  note p = demo_exit_ptab
  show ?thesis
    by (rule pt_invI) (use n in \<open>auto simp: p demo_exit_rest blank_proc_def alive_def vacant_def split: if_splits\<close>)
qed

lemma exit_hands_over_witness:
  "\<exists>k'. exit demo_files 1 demo_exit = Inr k' \<and> st k' 1 = ZOMBIE \<and> par k' 1 = 0 \<and> par k' 2 = 0 \<and>
     \<not> (st k' 0 = SLEEPING \<and> chan_at k' 0 = ProcChan 0)"
proof -
  have n: "0 < NPROC" "1 < NPROC" "2 < NPROC" by (simp_all add: NPROC_def)
  have p1: "p_ofile (ptab demo_exit ! 1) = replicate NOFILE 0" "par demo_exit 1 = 0" "par demo_exit 2 = 1" using n by (simp_all add: demo_exit_ptab blank_proc_def)
  have "close_files demo_files 1 demo_exit = Inr demo_exit" by (rule close_none) (simp only: p1 nth_replicate)
  then obtain k' where k': "exit demo_files 1 demo_exit = Inr k'" by (simp add: exit_def demo_exit_rest demo_files_def Let_def)
  have on: "on_cpu 1 demo_exit" using n by (simp add: on_cpu_def demo_exit_ptab blank_proc_def)
  have e: "st k' 1 = ZOMBIE" "par k' 1 = par demo_exit 1" "par k' 2 = 0"
    "\<And>a q. a < NPROC \<Longrightarrow> q < NPROC \<Longrightarrow> par k' q = int a \<Longrightarrow> st k' q = ZOMBIE \<Longrightarrow> \<not> (st k' a = SLEEPING \<and> chan_at k' a = ProcChan a)"
    using exit_hands_over [OF demo_exit_inv on k'] n(3) p1(3) demo_exit_rest(4) by simp_all
  then have "\<not> (st k' 0 = SLEEPING \<and> chan_at k' 0 = ProcChan 0)" using e(4) [of 0 1, OF n(1,2)] e(1,2) p1(2) by simp
  then show ?thesis using k' e p1 by simp
qed

subsection \<open>The scheduler starves nobody\<close>

text \<open>A history in which the process \<open>q\<close> stays ready to run while the scheduler of CPU \<open>c\<close> has \<open>n\<close> turns.\<close>

inductive waits :: "'e files \<Rightarrow> addr \<Rightarrow> addr \<Rightarrow> nat \<Rightarrow> nat \<Rightarrow> nat \<Rightarrow> 'e kern \<Rightarrow> 'e kern \<Rightarrow> bool" for fs bound dataseg q c where
  w_start: "st k q = RUNNABLE \<Longrightarrow> waits fs bound dataseg q c 0 k k"
| w_other: "waits fs bound dataseg q c n k k1 \<Longrightarrow> pstep fs bound dataseg k1 k2 \<Longrightarrow> st k2 q = RUNNABLE \<Longrightarrow> waits fs bound dataseg q c n k k2"
| w_turn: "waits fs bound dataseg q c n k k1 \<Longrightarrow> c_proc (cpus k1 ! c) = -1 \<Longrightarrow> st (scheduler c k1) q = RUNNABLE \<Longrightarrow>
    waits fs bound dataseg q c (Suc n) k (scheduler c k1)"

text \<open>How many slots the scheduler at \<open>pos\<close> may still look at before \<open>q\<close>, the start again at the end counted as one.\<close>

definition dist :: "nat \<Rightarrow> nat \<Rightarrow> nat" where
  "dist pos q = (if pos \<le> q then q - pos else NPROC - pos + 1 + q)"

abbreviation cpos :: "'e kern \<Rightarrow> nat \<Rightarrow> nat" where "cpos k c \<equiv> c_pos (cpus k ! c)"

lemma scheduler_turn:
  assumes "c < length (cpus k)" and "q < length (ptab k)" and "length (ptab k) = NPROC" and "st k q = RUNNABLE" and "st (scheduler c k) q = RUNNABLE"
  shows "dist (cpos (scheduler c k) c) q < dist (cpos k c) q"
proof (cases "List.find (\<lambda>i. st k i = RUNNABLE) [cpos k c..<length (ptab k)]")
  case None
  then have "\<not> (cpos k c \<le> q)" using assms(2,4) by (auto simp: find_None_iff)
  then show ?thesis using None assms(1) by (simp add: scheduler_def dist_def)
next
  case (Some i)
  from Some obtain n where n: "n < NPROC - cpos k c" "i = cpos k c + n" "st k i = RUNNABLE" "\<And>j. j < n \<Longrightarrow> st k (cpos k c + j) \<noteq> RUNNABLE"
    using assms(3) by (auto simp: find_Some_iff)
  have i: "cpos k c \<le> i" "i < NPROC" using n(1,2) by simp_all
  have pos: "cpos (scheduler c k) c = i + 1" using Some assms(1) by (simp add: scheduler_def)
  have "st (scheduler c k) i = RUNNING" using Some i assms(3) by (simp add: scheduler_def)
  then have "i \<noteq> q" using assms(5) by auto
  moreover have "cpos k c \<le> q \<Longrightarrow> i \<le> q" using n(4) [of "q - cpos k c"] assms(4) n(2) by fastforce
  ultimately show ?thesis using i pos assms(2,3) by (auto simp: dist_def)
qed

lemma scheduler_pos:
  "length (cpus (scheduler d k)) = length (cpus k)" "c \<noteq> d \<Longrightarrow> cpos (scheduler d k) c = cpos k c"
  by (simp_all add: scheduler_def split: option.splits)

definition same_pos :: "'e kern \<Rightarrow> 'e kern \<Rightarrow> bool" where
  "same_pos k k' \<longleftrightarrow> map c_pos (cpus k') = map c_pos (cpus k)"

lemma same_pos_simps [simp]:
  "same_pos k k" "same_pos k (upd_proc i f k1) \<longleftrightarrow> same_pos k k1" "same_pos k (leave_cpu p k1) \<longleftrightarrow> same_pos k k1"
  "same_pos k (wakeup1 ch k1) \<longleftrightarrow> same_pos k k1" "same_pos k (k1\<lparr>env := e\<rparr>) \<longleftrightarrow> same_pos k k1" "same_pos k (k1\<lparr>km := m\<rparr>) \<longleftrightarrow> same_pos k k1"
proof -
  have e: "map c_pos (map (\<lambda>c. if c_proc c = int p then c\<lparr>c_proc := -1\<rparr> else c) cs) = map c_pos cs" for cs by simp
  show "same_pos k (leave_cpu p k1) \<longleftrightarrow> same_pos k k1" by (simp add: same_pos_def leave_cpu_def e del: map_map)
qed (simp_all add: same_pos_def wakeup1_def upd_proc_def)

lemma exit_pos:
  assumes "exit fs p k = Inr k'"
  shows "same_pos k k'"
proof -
  obtain k1 e where k1: "close_files fs p k = Inr k1"
    and k': "k' = leave_cpu p (upd_proc p (\<lambda>p. p\<lparr>p_state := ZOMBIE\<rparr>) (fold (adopt p) [0..<NPROC]
      (wakeup1 (chan_of (par (upd_proc p (\<lambda>p. p\<lparr>p_cwd := 0\<rparr>) (k1\<lparr>env := e\<rparr>)) p)) (upd_proc p (\<lambda>p. p\<lparr>p_cwd := 0\<rparr>) (k1\<lparr>env := e\<rparr>)))))"
    using assms by (auto simp: exit_def bind_simps Let_def split: if_splits)
  have "same_pos k k1" using k1 unfolding close_files_def
    by (rule for_each_inv') (auto simp: bind_simps cont_def split: if_splits)
  moreover have "same_pos k (fold (adopt p) xs s)" if "same_pos k s" for xs s
    using that by (induction xs arbitrary: s) (simp_all add: adopt_def Let_def)
  ultimately show ?thesis by (simp add: k')
qed

lemma pstep_pos:
  assumes "pstep fs bound dataseg k k'" and "pt_inv k"
  shows "same_pos k k' \<or> (\<exists>d < length (cpus k). k' = scheduler d k)"
  using assms(1)
proof cases
  case (step_fork_start p)
  then show ?thesis by (simp add: fork_start_def allocproc_slot_def Let_def same_pos_def split: option.split)
next
  case (step_fork_finish p junk r)
  then obtain i where i: "i < NPROC" "np_of k p = int i" using inv_np [OF assms(2), of p] by (auto simp: on_cpu_def)
  have "i < length (ptab k)" using i(1) inv_len [OF assms(2)] by simp
  with step_fork_finish(3) i(2) have "cpus k' = cpus k" by (cases rule: fork_finish_spec) (simp_all add: made_def only_slot_def)
  then show ?thesis by (simp add: same_pos_def)
next
  case (step_exit p)
  then show ?thesis using exit_pos by blast
next
  case (step_wait p w)
  then show ?thesis by (auto simp: wait_def bind_simps reap_def sleep_def split: option.splits if_splits)
next
  case (step_kill pid)
  then show ?thesis by (simp add: kill_def split: option.splits)
next
  case (step_grow p n r)
  then show ?thesis using growproc_spec(2) by (metis same_pos_def)
qed (auto simp: sleep_def yield_def wakeup_def)

text \<open>
  C21 (runnable_gets_turn): a process that is ready to run waits at most \<open>NPROC\<close> turns of the scheduler of any one CPU, whatever the other
  CPUs, processes and interrupts do meanwhile.
\<close>

theorem runnable_gets_turn:
  assumes "pt_inv k" and "q < NPROC" and "c < length (cpus k)" and "waits fs bound dataseg q c n k k'"
  shows "n \<le> NPROC"
proof -
  have "pt_inv k' \<and> length (cpus k') = length (cpus k) \<and> st k' q = RUNNABLE \<and> dist (cpos k' c) q + n \<le> NPROC"
    using assms(4,1,3)
  proof (induction rule: waits.induct)
    case (w_start k)
    then show ?case using assms(2) by (auto simp: dist_def)
  next
    case (w_other n k k1 k2)
    have i: "pt_inv k2" using pstep_inv w_other by blast
    have "pt_inv k1" using w_other by blast
    from pstep_pos [OF w_other(2) this] show ?case
    proof
      assume "same_pos k1 k2"
      then have m: "map c_pos (cpus k2) = map c_pos (cpus k1)" by (simp add: same_pos_def)
      then have l: "length (cpus k2) = length (cpus k1)" using map_eq_imp_length_eq by blast
      have "map c_pos (cpus k2) ! c = map c_pos (cpus k1) ! c" using m by simp
      then show ?thesis using l i w_other by simp
    next
      assume "\<exists>d < length (cpus k1). k2 = scheduler d k1"
      then obtain d where d: "k2 = scheduler d k1" by blast
      have "dist (cpos k2 c) q \<le> dist (cpos k1 c) q"
      proof (cases "c = d")
        case True
        then show ?thesis using scheduler_turn [of c k1 q] d w_other assms(2) inv_len [of k1] by simp
      qed (simp add: d scheduler_pos)
      then show ?thesis using i w_other d by (simp add: scheduler_pos)
    qed
  next
    case (w_turn n k k1)
    then have "dist (cpos (scheduler c k1) c) q < dist (cpos k1 c) q"
      using scheduler_turn [of c k1 q] assms(2) inv_len [of k1] by simp
    then show ?case using w_turn scheduler_inv [of k1 c] by (simp add: scheduler_pos)
  qed
  then show ?thesis by simp
qed

text \<open>Two processes ready to run on one CPU.\<close>

definition demo_two :: "unit kern" where
  "demo_two = demo_kern [blank_proc\<lparr>p_state := RUNNABLE, p_pid := 1\<rparr>, blank_proc\<lparr>p_state := RUNNABLE, p_pid := 2, p_parent := 0\<rparr>] 3"

lemma demo_two_ptab: "ptab demo_two ! i = (if i = 0 then blank_proc\<lparr>p_state := RUNNABLE, p_pid := 1\<rparr>
    else if i = 1 then blank_proc\<lparr>p_state := RUNNABLE, p_pid := 2, p_parent := 0\<rparr> else blank_proc)" if "i < NPROC"
  using that by (auto simp: demo_two_def demo_kern_def nth_append nth_Cons' NPROC_def)

lemma demo_two_inv: "pt_inv demo_two"
proof -
  have n: "0 < NPROC" "1 < NPROC" by (simp_all add: NPROC_def)
  have r: "length (ptab demo_two) = NPROC" "cpus demo_two = [\<lparr>c_proc = -1, c_pos = 0\<rparr>]" "nextpid demo_two = 3" "initproc demo_two = 0"
    by (simp_all add: demo_two_def demo_kern_def NPROC_def)
  show ?thesis
    by (rule pt_invI) (use n in \<open>auto simp: demo_two_ptab r blank_proc_def alive_def vacant_def split: if_splits\<close>)
qed

lemma runnable_gets_turn_witness:
  "waits demo_files 0 0 1 0 1 demo_two (scheduler 0 demo_two) \<and> (1::nat) \<le> NPROC"
proof -
  have s: "st demo_two 1 = RUNNABLE" "c_proc (cpus demo_two ! 0) = -1" "length (cpus demo_two) = 1" "st (scheduler 0 demo_two) 1 = RUNNABLE"
    by (simp_all add: demo_two_def demo_kern_def blank_proc_def scheduler_def NPROC_def upt_conv_Cons)
  have w: "waits demo_files 0 0 1 0 (Suc 0) demo_two (scheduler 0 demo_two)" by (intro w_turn w_start s(1,2,4))
  then show ?thesis using runnable_gets_turn [OF demo_two_inv _ _ w] s(3) by (simp add: NPROC_def)
qed

subsection \<open>Killing the process 0\<close>

text \<open>
  (kill_zero): no process has the id 0, but \<open>kill(0)\<close> succeeds when the first unused slot was never used or was reaped: it marks that slot
  as killed, and the next process made there starts with the mark, since neither \<open>allocproc\<close> nor \<open>fork\<close> clears it.
\<close>

theorem kill_zero:
  assumes "pt_inv k" and "ids_ok k" and "i < NPROC" and "st k i = UNUSED" and "pid_of k i = 0" and "\<forall>j < i. st k j \<noteq> UNUSED"
    and "allocproc junk (fst (kill 0 k)) = Inr (k', r)" and "r \<noteq> -1"
  shows "snd (kill 0 k) = 0 \<and> r = int i \<and> st k' i = EMBRYO \<and> p_killed (ptab k' ! i) = 1"
proof -
  have l: "length (ptab k) = NPROC" by (rule inv_len [OF assms(1)])
  have "pid_of k j \<noteq> 0" if "j < i" for j
  proof -
    have "j < NPROC" "st k j \<noteq> UNUSED" using that assms(3,6) by auto
    then have "0 < pid_of k j" using assms(2) by (simp add: ids_ok_def)
    then show ?thesis by simp
  qed
  then have f: "first_proc (\<lambda>p. p_pid p = 0) (ptab k) = Some i" using assms(3,5) l by (simp add: first_proc_Some)
  have k: "kill 0 k = (upd_proc i (\<lambda>p. p\<lparr>p_killed := 1, p_state := (if p_state p = SLEEPING then RUNNABLE else p_state p)\<rparr>) k, 0)"
    by (simp add: kill_def f)
  have s: "ptab (fst (kill 0 k)) ! j = (if j = i then (ptab k ! i)\<lparr>p_killed := 1\<rparr> else ptab k ! j)" for j
    using assms(3,4) l by (simp add: k)
  obtain k1 r1 where sl: "allocproc_slot (fst (kill 0 k)) = (k1, r1)" by (cases "allocproc_slot (fst (kill 0 k))")
  from sl show ?thesis
  proof (cases rule: allocproc_slot_spec)
    case full
    then show ?thesis using assms(7,8) sl by (simp add: allocproc_def)
  next
    case (ok j)
    have "j = i"
    proof (rule linorder_cases)
      assume "j < i" then show ?thesis using ok(2) s assms(6) by simp
    next
      assume "i < j" then show ?thesis using ok(3) s assms(4) by auto
    qed
    then have j: "r1 = int i" "ptab k1 ! i = (ptab k ! i)\<lparr>p_killed := 1, p_state := EMBRYO, p_pid := nextpid (fst (kill 0 k))\<rparr>"
      "i < length (ptab k1)" using ok(1,4,5) s by (simp_all add: upd_proc_def)
    have run: "allocproc_stack junk i k1 = Inr (k', r)" using assms(7) sl j(1) by (simp add: allocproc_def)
    from allocproc_stack_spec [OF run j(3)] show ?thesis using j(2) assms(8) by (auto simp: made_def k)
  qed
qed

lemma kill_zero_witness:
  "\<exists>k'. allocproc blank_tf (fst (kill 0 (demo_boot\<lparr>km := demo_mem\<lparr>freelist := 0x80101000\<rparr>\<rparr>))) = Inr (k', 1) \<and> p_killed (ptab k' ! 1) = 1"
proof -
  let ?k = "demo_boot\<lparr>km := demo_mem\<lparr>freelist := 0x80101000\<rparr>\<rparr>"
  have b: "booted ?k" using demo_booted by (simp add: booted_def)
  have z: "st ?k 1 = UNUSED" "pid_of ?k 1 = 0" "st ?k 0 = RUNNABLE"
    by (simp_all add: demo_boot_def demo_kern_def blank_proc_def NPROC_def)
  have "ld32 (replicate n 0) 0 = Inr 0" if "4 \<le> n" for n using that by (simp add: ld32_def get32_def)
  from this [of PGSIZE] have "ld32 (replicate PGSIZE 0) 0 = Inr 0" by (simp add: PGSIZE_def)
  then obtain m where m: "kalloc (km ?k) = Inr (m, 0x80101000)" by (auto simp: kalloc_def demo_mem_def)
  have km: "km (fst (kill 0 ?k)) = km ?k" by (simp add: kill_def split: option.splits)
  have l: "length (ptab ?k) = NPROC" using b unfolding booted_def by blast
  have w: "length (ptab (fst (kill 0 ?k))) = length (ptab ?k)" "st (fst (kill 0 ?k)) 1 = st ?k 1 \<or> st ?k 1 = SLEEPING"
    using kill_woken [of ?k 0] l unfolding woken_def by (blast, metis NPROC_def one_less_numeral_iff semiring_norm(76))
  have u: "st (fst (kill 0 ?k)) 1 = UNUSED" using w(2) z(1) by (metis procstate.distinct(3))
  obtain k1 r1 where sl: "allocproc_slot (fst (kill 0 ?k)) = (k1, r1)" by (cases "allocproc_slot (fst (kill 0 ?k))")
  from sl obtain i where i: "r1 = int i" "km k1 = km ?k"
  proof (cases rule: allocproc_slot_spec)
    case full
    then show ?thesis using u w(1) l by (simp add: NPROC_def)
  next
    case (ok i)
    then show ?thesis using that [of i] km by simp
  qed
  obtain k' where k': "allocproc blank_tf (fst (kill 0 ?k)) = Inr (k', int i)"
    using sl i m by (simp add: allocproc_def allocproc_stack_def Let_def)
  have "snd (kill 0 ?k) = 0 \<and> int i = int 1 \<and> st k' 1 = EMBRYO \<and> p_killed (ptab k' ! 1) = 1"
    using kill_zero [OF booted_inv [OF b] booted_ids(2) [OF b] _ z(1,2) _ k'] z(3) by (simp add: NPROC_def)
  then show ?thesis using k' by auto
qed

end
