(* ===== verification/Shell.thy ===== *)
theory Shell
  imports CString
begin

text \<open>
  The parser of the command shell (sh.c). The command line is a buffer of bytes, a pointer into it its position;
  \<open>es\<close> is the position of the terminating NUL. A word of a command is the pair of the positions of its first byte and of
  the byte behind it, as in \<open>argv\<close> and \<open>eargv\<close>; the tree of a command is over its words, so that \<open>map_cmd\<close> can put the texts
  of the words in the place of their positions. The \<open>panic\<close> of the shell ends the process that parses.

  The functions of the grammar call each other with \<open>fuel\<close> for the depth of the recursion; a call of \<open>parsecmd\<close> gives enough.
\<close>

definition MAXARGS :: nat where "MAXARGS = 10"
definition O_RDONLY :: int where "O_RDONLY = 0x000"
definition O_WRONLY :: int where "O_WRONLY = 0x001"
definition O_RDWR :: int where "O_RDWR = 0x002"
definition O_CREATE :: int where "O_CREATE = 0x200"

text \<open>\<open>REDIR cmd file mode fd\<close>; the word \<open>file\<close> is \<open>(file, efile)\<close> of the source.\<close>

datatype 'w cmd = EXEC "'w list" | REDIR "'w cmd" 'w int int | PIPE "'w cmd" "'w cmd" | LIST "'w cmd" "'w cmd" | BACK "'w cmd"

type_synonym pos = "nat \<times> nat"

definition whitespace :: "byte list" where "whitespace = [32, 9, 13, 10, 11, 0]"
definition symbols :: "byte list" where "symbols = [60, 124, 62, 38, 59, 40, 41, 0]"

text \<open>The truth value of \<open>strchr\<close>.\<close>

definition found :: "byte list \<Rightarrow> byte \<Rightarrow> bool" where
  "found cs c = (case strchr cs c of Inr (Some k) \<Rightarrow> True | _ \<Rightarrow> False)"

function skip_while :: "(byte \<Rightarrow> bool) \<Rightarrow> byte list \<Rightarrow> nat \<Rightarrow> nat \<Rightarrow> nat res" where
  "skip_while P buf es s =
     (if s < es then rbind (arr_get buf (int s)) (\<lambda>c. if P c then skip_while P buf es (s + 1) else Inr s) else Inr s)"
  by pat_completeness auto
termination by (relation "measure (\<lambda>(P, buf, es, s). es - s)") auto

text \<open>The token, the word it spans, and the new position: a symbol is its own token, a word is \<open>'a'\<close>, \<open>>>\<close> is \<open>'+'\<close>, the end is 0.\<close>

definition gettoken :: "byte list \<Rightarrow> nat \<Rightarrow> nat \<Rightarrow> (byte \<times> pos \<times> nat) res" where
  "gettoken buf es s =
     rbind (skip_while (found whitespace) buf es s) (\<lambda>q.
     rbind (arr_get buf (int q)) (\<lambda>c.
     rbind (if c = 0 then Inr (c, q)
            else if c = 124 \<or> c = 40 \<or> c = 41 \<or> c = 59 \<or> c = 38 \<or> c = 60 then Inr (c, q + 1)
            else if c = 62 then rbind (arr_get buf (int (q + 1))) (\<lambda>d. if d = 62 then Inr (43, q + 2) else Inr (c, q + 1))
            else rbind (skip_while (\<lambda>c. \<not> found whitespace c \<and> \<not> found symbols c) buf es q) (\<lambda>e. Inr (97, e))) (\<lambda>(ret, eq).
     rbind (skip_while (found whitespace) buf es eq) (\<lambda>s'. Inr (ret, (q, eq), s')))))"

definition peek :: "byte list \<Rightarrow> nat \<Rightarrow> nat \<Rightarrow> byte list \<Rightarrow> (nat \<times> bool) res" where
  "peek buf es s toks =
     rbind (skip_while (found whitespace) buf es s) (\<lambda>s'.
     rbind (arr_get buf (int s')) (\<lambda>c. Inr (s', c \<noteq> 0 \<and> found toks c)))"

subsection \<open>Progress\<close>

declare skip_while.simps [simp del]

lemma skip_while_ge: "skip_while P buf es s = Inr s' \<Longrightarrow> s \<le> s'"
proof (induction P buf es s rule: skip_while.induct)
  case (1 P buf es s)
  show ?case using 1(2) 1(1) by (subst (asm) skip_while.simps) (fastforce simp: rbind_eq_Inr split: if_splits)
qed

lemma found_whitespace: "found whitespace c \<longleftrightarrow> c \<in> {32, 9, 13, 10, 11}"
  by (simp add: found_def whitespace_def)

lemma found_symbols: "found symbols c \<longleftrightarrow> c \<in> {60, 124, 62, 38, 59, 40, 41}"
  by (simp add: found_def symbols_def)

lemma found_some: "found cs c \<longleftrightarrow> (\<exists>k. strchr cs c = Inr (Some k))"
  by (simp add: found_def split: sum.splits option.splits)

lemma peek_ge: "peek buf es s toks = Inr (s', b) \<Longrightarrow> s \<le> s' \<and> s' < length buf"
  by (auto simp: peek_def rbind_eq_Inr arr_get_def in_range_def split: if_splits dest: skip_while_ge)

lemma gettoken_ge:
  assumes "gettoken buf es s = Inr (t, (q, e), s')"
  shows "s \<le> q" "q \<le> e" "e \<le> s'" "q < length buf"
  using assms by (auto simp: gettoken_def rbind_eq_Inr arr_get_def in_range_def split: if_splits dest!: skip_while_ge)

text \<open>After \<open>peek\<close> has found a symbol, \<open>gettoken\<close> reads it.\<close>

lemma peek_token:
  assumes "peek buf es s toks = Inr (s1, True)" and "gettoken buf es s1 = Inr (t, w, s2)" and toks: "\<And>c. found toks c \<Longrightarrow> found symbols c"
  shows "s1 < s2"
proof -
  have c: "s1 < length buf" "found symbols (buf ! s1)" using assms(1) toks by (auto simp: peek_def rbind_eq_Inr arr_get_def in_range_def split: if_splits)
  then have "\<not> found whitespace (buf ! s1)" by (auto simp: found_symbols found_whitespace)
  then have sk: "skip_while (found whitespace) buf es s1 = Inr s1" using c(1) by (subst skip_while.simps) (simp add: in_range_def)
  obtain q e where w: "w = (q, e)" by fastforce
  have "q = s1" using assms(2) sk by (auto simp: gettoken_def w rbind_eq_Inr split: if_splits)
  moreover have "q < e" using assms(2) sk c by (auto simp: gettoken_def w rbind_eq_Inr in_range_def found_symbols split: if_splits)
  moreover have "e \<le> s2" using gettoken_ge(3) [OF assms(2) [unfolded w]] .
  ultimately show ?thesis by simp
qed

lemma gettoken_le: "gettoken buf es s = Inr (t, w, s') \<Longrightarrow> s \<le> s'"
  by (cases w) (use gettoken_ge in \<open>fastforce dest: le_trans\<close>)

lemma peek_consumes:
  assumes "peek buf es s toks = Inr (s1, True)" and "gettoken buf es s1 = Inr (t, w, s2)" and "\<And>c. found toks c \<Longrightarrow> found symbols c"
  shows "s < s2 \<and> s < length buf"
  using peek_ge [OF assms(1)] peek_token [OF assms] by simp

lemma redir_syms: "found [60, 62, 0] c \<Longrightarrow> found symbols c"
  by (simp add: found_def symbols_def split: sum.splits if_splits)

lemma amp_syms: "found [38, 0] c \<Longrightarrow> found symbols c"
  by (simp add: found_def symbols_def split: sum.splits if_splits)

lemma redirs_progress:
  assumes "peek buf es s [60, 62, 0] = Inr (s1, True)" and "gettoken buf es s1 = Inr (t, w, s2)" and "gettoken buf es s2 = Inr (t', w', s3)"
  shows "length buf - s3 < length buf - s"
  using peek_consumes [OF assms(1,2) redir_syms] gettoken_le [OF assms(3)] by linarith

subsection \<open>The grammar\<close>

function parseredirs :: "byte list \<Rightarrow> nat \<Rightarrow> pos cmd \<Rightarrow> nat \<Rightarrow> (pos cmd \<times> nat) res" where
  "parseredirs buf es c s =
     rbind (peek buf es s [60, 62, 0]) (\<lambda>(s1, b).
     if b then
       rbind (gettoken buf es s1) (\<lambda>(tok, w, s2).
       rbind (gettoken buf es s2) (\<lambda>(tok2, q, s3).
       if tok2 \<noteq> 97 then Inl (Panic ''missing file for redirection'')
       else parseredirs buf es
         (if tok = 60 then REDIR c q O_RDONLY 0
          else if tok = 62 then REDIR c q (O_WRONLY OR O_CREATE) 1
          else if tok = 43 then REDIR c q (O_WRONLY OR O_CREATE) 1
          else c) s3))
     else Inr (c, s1))"
  by pat_completeness auto
termination
  by (relation "measure (\<lambda>(buf, es, c, s). length buf - s)")
    (auto, (drule (2) redirs_progress; simp)+)

text \<open>The loop that stores the words of a simple command; \<open>cmd\<close> of the source is the \<open>EXEC\<close> node under the redirections of \<open>ret\<close>.\<close>

fun add_arg :: "'w cmd \<Rightarrow> 'w \<Rightarrow> 'w cmd" where
  "add_arg (EXEC ws) w = EXEC (ws @ [w])"
| "add_arg (REDIR c f m d) w = REDIR (add_arg c w) f m d"
| "add_arg c w = c"

function exec_loop :: "byte list \<Rightarrow> nat \<Rightarrow> pos cmd \<Rightarrow> nat \<Rightarrow> nat \<Rightarrow> (pos cmd \<times> nat) res" where
  "exec_loop buf es ret argc s =
     rbind (peek buf es s [124, 41, 38, 59, 0]) (\<lambda>(s1, b).
     if b then Inr (ret, s1)
     else rbind (gettoken buf es s1) (\<lambda>(tok, q, s2).
       if tok = 0 then Inr (ret, s2)
       else if tok \<noteq> 97 then Inl (Panic ''syntax'')
       else if argc + 1 \<ge> MAXARGS then Inl (Panic ''too many args'')
       else rbind (parseredirs buf es (add_arg ret q) s2) (\<lambda>(ret1, s3). exec_loop buf es ret1 (argc + 1) s3)))"
  by pat_completeness auto
termination by (relation "measure (\<lambda>(buf, es, ret, argc, s). MAXARGS - argc)") auto

text \<open>The loop of \<open>parseline\<close> over \<open>&\<close>.\<close>

function back_loop :: "byte list \<Rightarrow> nat \<Rightarrow> pos cmd \<Rightarrow> nat \<Rightarrow> (pos cmd \<times> nat) res" where
  "back_loop buf es c s =
     rbind (peek buf es s [38, 0]) (\<lambda>(s1, b).
     if b then rbind (gettoken buf es s1) (\<lambda>(tok, q, s2). back_loop buf es (BACK c) s2) else Inr (c, s1))"
  by pat_completeness auto
termination
  by (relation "measure (\<lambda>(buf, es, c, s). length buf - s)") (auto dest!: peek_consumes [OF _ _ amp_syms])

function (sequential) parseline :: "nat \<Rightarrow> byte list \<Rightarrow> nat \<Rightarrow> nat \<Rightarrow> (pos cmd \<times> nat) res"
  and parsepipe :: "nat \<Rightarrow> byte list \<Rightarrow> nat \<Rightarrow> nat \<Rightarrow> (pos cmd \<times> nat) res"
  and parseblock :: "nat \<Rightarrow> byte list \<Rightarrow> nat \<Rightarrow> nat \<Rightarrow> (pos cmd \<times> nat) res"
  and parseexec :: "nat \<Rightarrow> byte list \<Rightarrow> nat \<Rightarrow> nat \<Rightarrow> (pos cmd \<times> nat) res" where
  "parseline 0 buf es s = Inl Hang"
| "parseline (Suc fuel) buf es s =
     rbind (parsepipe fuel buf es s) (\<lambda>(c, s1).
     rbind (back_loop buf es c s1) (\<lambda>(c1, s2).
     rbind (peek buf es s2 [59, 0]) (\<lambda>(s3, b).
     if b then rbind (gettoken buf es s3) (\<lambda>(tok, q, s4).
       rbind (parseline fuel buf es s4) (\<lambda>(c2, s5). Inr (LIST c1 c2, s5)))
     else Inr (c1, s3))))"
| "parsepipe 0 buf es s = Inl Hang"
| "parsepipe (Suc fuel) buf es s =
     rbind (parseexec fuel buf es s) (\<lambda>(c, s1).
     rbind (peek buf es s1 [124, 0]) (\<lambda>(s2, b).
     if b then rbind (gettoken buf es s2) (\<lambda>(tok, q, s3).
       rbind (parsepipe fuel buf es s3) (\<lambda>(c2, s4). Inr (PIPE c c2, s4)))
     else Inr (c, s2)))"
| "parseblock 0 buf es s = Inl Hang"
| "parseblock (Suc fuel) buf es s =
     rbind (peek buf es s [40, 0]) (\<lambda>(s1, b).
     if \<not> b then Inl (Panic ''parseblock'')
     else rbind (gettoken buf es s1) (\<lambda>(tok, q, s2).
       rbind (parseline fuel buf es s2) (\<lambda>(c, s3).
       rbind (peek buf es s3 [41, 0]) (\<lambda>(s4, b).
       if \<not> b then Inl (Panic ''syntax - missing )'')
       else rbind (gettoken buf es s4) (\<lambda>(tok, q, s5). parseredirs buf es c s5)))))"
| "parseexec 0 buf es s = Inl Hang"
| "parseexec (Suc fuel) buf es s =
     rbind (peek buf es s [40, 0]) (\<lambda>(s1, b).
     if b then parseblock fuel buf es s1
     else rbind (parseredirs buf es (EXEC []) s1) (\<lambda>(ret, s2). exec_loop buf es ret 0 s2))"

  by pat_completeness auto
termination
  by (relation "measure (\<lambda>x. case x of Inl (Inl (n, _)) \<Rightarrow> n | Inl (Inr (n, _)) \<Rightarrow> n | Inr (Inl (n, _)) \<Rightarrow> n | Inr (Inr (n, _)) \<Rightarrow> n)") auto

fun nul_words :: "pos list \<Rightarrow> byte list \<Rightarrow> byte list res" where
  "nul_words [] buf = Inr buf"
| "nul_words ((q, e) # ws) buf = rbind (arr_set buf (int e) 0) (nul_words ws)"

fun nulterminate :: "pos cmd \<Rightarrow> byte list \<Rightarrow> byte list res" where
  "nulterminate (EXEC ws) buf = nul_words ws buf"
| "nulterminate (REDIR c f m d) buf = rbind (nulterminate c buf) (\<lambda>buf1. arr_set buf1 (int (snd f)) 0)"
| "nulterminate (PIPE l r) buf = rbind (nulterminate l buf) (nulterminate r)"
| "nulterminate (LIST l r) buf = rbind (nulterminate l buf) (nulterminate r)"
| "nulterminate (BACK c) buf = nulterminate c buf"

text \<open>The command and the buffer with its words terminated.\<close>

definition parsecmd :: "byte list \<Rightarrow> (pos cmd \<times> byte list) res" where
  "parsecmd buf =
     rbind (strlen buf) (\<lambda>n.
     rbind (parseline (4 * nat n + 4) buf (nat n) 0) (\<lambda>(c, s).
     rbind (peek buf (nat n) s [0]) (\<lambda>(s1, b).
     if s1 \<noteq> nat n then Inl (Panic ''syntax'')
     else rbind (nulterminate c buf) (\<lambda>buf1. Inr (c, buf1)))))"

end
