(* ===== verification/Shell_Correct.thy ===== *)
theory Shell_Correct
  imports Shell
begin

text \<open>
  Correctness of the shell's parser: it never reads outside the line and always ends, with a well-formed command over
  words of the line or with an error; and after \<open>nulterminate\<close> every word of the command is a string of its own.
\<close>

text \<open>\<open>safe m Q\<close>: \<open>m\<close> returns a value with \<open>Q\<close>, or ends with an error message.\<close>

definition safe :: "'a res \<Rightarrow> ('a \<Rightarrow> bool) \<Rightarrow> bool" where
  "safe m Q \<longleftrightarrow> (\<exists>x. m = Inr x \<and> Q x) \<or> (\<exists>e. m = Inl (Panic e))"

lemma safe_simps [simp]: "safe (Inr x) Q \<longleftrightarrow> Q x" "safe (Inl (Panic e)) Q"
  by (simp_all add: safe_def)

lemma safe_rbind: "safe m Q \<Longrightarrow> (\<And>x. m = Inr x \<Longrightarrow> Q x \<Longrightarrow> safe (f x) R) \<Longrightarrow> safe (rbind m f) R"
  unfolding safe_def by (elim disjE exE conjE) simp_all

lemma safe_mono: "safe m Q \<Longrightarrow> (\<And>x. Q x \<Longrightarrow> R x) \<Longrightarrow> safe m R"
  by (auto simp: safe_def)

subsection \<open>Tokens\<close>

definition line :: "byte list \<Rightarrow> nat \<Rightarrow> bool" where
  "line buf es \<longleftrightarrow> es < length buf \<and> buf ! es = 0 \<and> (\<forall>i < es. buf ! i \<noteq> 0)"

definition white :: "byte \<Rightarrow> bool" where "white c \<longleftrightarrow> found whitespace c"
definition wordchar :: "byte \<Rightarrow> bool" where "wordchar c \<longleftrightarrow> c \<noteq> 0 \<and> \<not> found whitespace c \<and> \<not> found symbols c"

text \<open>The unread part of the line.\<close>

definition rest :: "byte list \<Rightarrow> nat \<Rightarrow> nat \<Rightarrow> byte list" where
  "rest buf es s = drop s (take es buf)"

lemma skip_while_eq:
  "es \<le> length buf \<Longrightarrow> s \<le> es \<Longrightarrow> skip_while P buf es s = Inr (s + length (takeWhile P (rest buf es s)))"
proof (induction P buf es s rule: skip_while.induct)
  case (1 P buf es s)
  show ?case
  proof (cases "s < es")
    case True
    then have r: "rest buf es s = buf ! s # rest buf es (s + 1)" using 1(2)
      by (simp add: rest_def Cons_nth_drop_Suc [symmetric, of s])
    have i: "in_range (int s) buf" using True 1(2) by (simp add: in_range_def)
    show ?thesis
    proof (cases "P (buf ! s)")
      case P: True
      have "skip_while P buf es (s + 1) = Inr (s + 1 + length (takeWhile P (rest buf es (s + 1))))"
        using 1(1) [OF True, of "buf ! s"] P True 1(2) i by (simp add: arr_get_def)
      then show ?thesis using True P r i by (subst skip_while.simps) simp
    qed (use True r i in \<open>subst skip_while.simps, simp\<close>)
  qed (use 1(3) in \<open>subst skip_while.simps, simp add: rest_def\<close>)
qed

lemma takeWhile_pos: "i < length (takeWhile P (rest buf es s)) \<Longrightarrow> s + i < es \<and> P (buf ! (s + i))"
proof -
  assume i: "i < length (takeWhile P (rest buf es s))"
  then have l: "i < length (rest buf es s)" using length_takeWhile_le order_less_le_trans by blast
  have "P (takeWhile P (rest buf es s) ! i)" using i nth_mem set_takeWhileD by metis
  moreover have "rest buf es s ! i = buf ! (s + i)" using l by (auto simp: rest_def min_def split: if_splits)
  ultimately show ?thesis using takeWhile_nth [OF i] l by (simp add: rest_def)
qed

lemma skip_while_spec:
  assumes "es \<le> length buf" and "s \<le> es"
  shows "\<exists>s'. skip_while P buf es s = Inr s' \<and> s \<le> s' \<and> s' \<le> es \<and> (\<forall>i. s \<le> i \<and> i < s' \<longrightarrow> P (buf ! i)) \<and> (s' < es \<longrightarrow> \<not> P (buf ! s'))"
proof -
  let ?n = "length (takeWhile P (rest buf es s))"
  have "?n \<le> length (rest buf es s)" by (rule length_takeWhile_le)
  then have le: "s + ?n \<le> es" using assms by (simp add: rest_def)
  have "\<not> P (buf ! (s + ?n))" if "s + ?n < es"
    using nth_length_takeWhile [of P "rest buf es s"] that assms by (simp add: rest_def)
  moreover have "P (buf ! i)" if "s \<le> i" "i < s + ?n" for i using takeWhile_pos [of "i - s" P buf es s] that by simp
  ultimately show ?thesis using skip_while_eq [OF assms] le by auto
qed

definition word_ok :: "byte list \<Rightarrow> nat \<Rightarrow> pos \<Rightarrow> bool" where
  "word_ok buf es w \<longleftrightarrow> fst w < snd w \<and> snd w \<le> es \<and> (\<forall>i. fst w \<le> i \<and> i < snd w \<longrightarrow> wordchar (buf ! i)) \<and> \<not> wordchar (buf ! snd w)"

lemma peek_spec:
  assumes "line buf es" and "s \<le> es"
  shows "\<exists>s' b. peek buf es s toks = Inr (s', b) \<and> s \<le> s' \<and> s' \<le> es \<and> (b \<longrightarrow> s' < es \<and> found toks (buf ! s'))"
proof -
  have l: "es \<le> length buf" using assms(1) by (simp add: line_def)
  obtain s' where s': "skip_while (found whitespace) buf es s = Inr s'" "s \<le> s'" "s' \<le> es" using skip_while_spec [OF l assms(2)] by blast
  moreover have "in_range (int s') buf" using s'(3) assms(1) by (simp add: line_def in_range_def)
  moreover have "s' < es" if "buf ! s' \<noteq> 0" using that assms(1) s'(3) by (cases "s' = es") (auto simp: line_def)
  ultimately show ?thesis by (auto simp: peek_def)
qed

lemma gettoken_spec:
  assumes "line buf es" and "s \<le> es"
  shows "\<exists>t w s'. gettoken buf es s = Inr (t, w, s') \<and> s \<le> s' \<and> s' \<le> es \<and> (t = 97 \<longrightarrow> word_ok buf es w) \<and> (t \<noteq> 0 \<longrightarrow> s < s')"
proof -
  have l: "es \<le> length buf" "es < length buf" "buf ! es = 0" "\<And>i. i < es \<Longrightarrow> buf ! i \<noteq> 0" using assms(1) by (simp_all add: line_def)
  obtain q where q: "skip_while (found whitespace) buf es s = Inr q" "s \<le> q" "q \<le> es" "q < es \<longrightarrow> \<not> found whitespace (buf ! q)"
    using skip_while_spec [OF l(1) assms(2)] by blast
  have get: "arr_get buf (int i) = Inr (buf ! i)" if "i \<le> es" for i using that l(2) by (simp add: arr_get_def in_range_def)
  define body where "body = (let c = buf ! q in if c = 0 then Inr (c, q)
            else if c = 124 \<or> c = 40 \<or> c = 41 \<or> c = 59 \<or> c = 38 \<or> c = 60 then Inr (c, q + 1)
            else if c = 62 then rbind (arr_get buf (int (q + 1))) (\<lambda>d. if d = 62 then Inr (43, q + 2) else Inr (c, q + 1))
            else rbind (skip_while (\<lambda>c. \<not> found whitespace c \<and> \<not> found symbols c) buf es q) (\<lambda>e. Inr (97, e)))"
  have "\<exists>t e. body = Inr (t, e) \<and> q \<le> e \<and> e \<le> es \<and> (t = 97 \<longrightarrow> word_ok buf es (q, e)) \<and> (t \<noteq> 0 \<longrightarrow> q < e)"
  proof (cases "q = es")
    case True
    then show ?thesis using l(3) by (simp add: body_def)
  next
    case False
    then have q1: "q < es" "buf ! q \<noteq> 0" "\<not> found whitespace (buf ! q)" using q l(4) by auto
    show ?thesis
    proof (cases "found symbols (buf ! q)")
      case True
      have two: "q + 2 \<le> es" if "buf ! (q + 1) = 62" using that q1(1) l(3) by (cases "q + 1 = es") auto
      show ?thesis using True q1 get [of "q + 1"] two by (auto simp: body_def Let_def found_symbols)
    next
      case nsym: False
      obtain e where e: "skip_while (\<lambda>c. \<not> found whitespace c \<and> \<not> found symbols c) buf es q = Inr e" "q \<le> e" "e \<le> es"
        "\<forall>i. q \<le> i \<and> i < e \<longrightarrow> \<not> found whitespace (buf ! i) \<and> \<not> found symbols (buf ! i)"
        "e < es \<longrightarrow> found whitespace (buf ! e) \<or> found symbols (buf ! e)"
        using skip_while_spec [OF l(1) q(3), of "\<lambda>c. \<not> found whitespace c \<and> \<not> found symbols c"] by auto
      have "q < e" using e(2,5) q1 nsym by (cases "q = e") auto
      moreover have "word_ok buf es (q, e)" using e calculation l(3,4) by (cases "e = es") (auto simp: word_ok_def wordchar_def)
      ultimately show ?thesis using e nsym q1 by (auto simp: body_def Let_def found_symbols)
    qed
  qed
  then obtain t e where b: "body = Inr (t, e)" "q \<le> e" "e \<le> es" "t = 97 \<longrightarrow> word_ok buf es (q, e)" "t \<noteq> 0 \<longrightarrow> q < e" by blast
  obtain s' where s': "skip_while (found whitespace) buf es e = Inr s'" "e \<le> s'" "s' \<le> es" using skip_while_spec [OF l(1) b(3)] by blast
  have "gettoken buf es s = Inr (t, (q, e), s')"
    using b(1) unfolding gettoken_def q(1) rbind_Inr get [OF q(3)] body_def Let_def by (simp add: s'(1))
  then show ?thesis using b q s' by auto
qed

lemmas peek_safe = peek_spec [THEN exE]

subsection \<open>Commands\<close>

text \<open>What is a command: fewer than \<open>MAXARGS\<close> words, input from a file on descriptor 0, output to a file on descriptor 1.\<close>

fun cmd_ok :: "'w cmd \<Rightarrow> bool" where
  "cmd_ok (EXEC ws) \<longleftrightarrow> length ws < MAXARGS"
| "cmd_ok (REDIR c f m d) \<longleftrightarrow> cmd_ok c \<and> (m = O_RDONLY \<and> d = 0 \<or> m = (O_WRONLY OR O_CREATE) \<and> d = 1)"
| "cmd_ok (PIPE l r) \<longleftrightarrow> cmd_ok l \<and> cmd_ok r"
| "cmd_ok (LIST l r) \<longleftrightarrow> cmd_ok l \<and> cmd_ok r"
| "cmd_ok (BACK c) \<longleftrightarrow> cmd_ok c"

definition good_cmd :: "byte list \<Rightarrow> nat \<Rightarrow> pos cmd \<Rightarrow> bool" where
  "good_cmd buf es c \<longleftrightarrow> cmd_ok c \<and> (\<forall>w \<in> set_cmd c. word_ok buf es w)"

abbreviation good_res :: "byte list \<Rightarrow> nat \<Rightarrow> nat \<Rightarrow> pos cmd \<times> nat \<Rightarrow> bool" where
  "good_res buf es s r \<equiv> good_cmd buf es (fst r) \<and> s \<le> snd r \<and> snd r \<le> es"

text \<open>The words in the \<open>EXEC\<close> node under the redirections.\<close>

fun nargs :: "'w cmd \<Rightarrow> nat" where
  "nargs (EXEC ws) = length ws"
| "nargs (REDIR c f m d) = nargs c"
| "nargs c = 0"

lemma add_arg_ok: "cmd_ok c \<Longrightarrow> nargs c + 1 < MAXARGS \<Longrightarrow> cmd_ok (add_arg c w) \<and> nargs (add_arg c w) \<le> nargs c + 1"
  by (induction c w rule: add_arg.induct) auto

lemma add_arg_words: "set_cmd (add_arg c w) \<subseteq> insert w (set_cmd c)"
  by (induction c w rule: add_arg.induct) auto

declare parseredirs.simps [simp del] exec_loop.simps [simp del] back_loop.simps [simp del]

lemma parseredirs_safe:
  assumes "line buf es" and "s \<le> es" and "good_cmd buf es c"
  shows "safe (parseredirs buf es c s) (\<lambda>r. good_res buf es s r \<and> nargs (fst r) = nargs c)"
  using assms
proof (induction buf es c s rule: parseredirs.induct)
  case (1 buf es c s)
  note ln = 1(2) and s = 1(3) and c = 1(4)
  obtain s1 b where p: "peek buf es s [60, 62, 0] = Inr (s1, b)" "s \<le> s1" "s1 \<le> es" using peek_spec [OF ln s] by blast
  obtain tok w s2 where t: "gettoken buf es s1 = Inr (tok, w, s2)" "s1 \<le> s2" "s2 \<le> es" using gettoken_spec [OF ln p(3)] by blast
  obtain tok2 q s3 where u: "gettoken buf es s2 = Inr (tok2, q, s3)" "s2 \<le> s3" "s3 \<le> es" "tok2 = 97 \<longrightarrow> word_ok buf es q"
    using gettoken_spec [OF ln t(3)] by blast
  define c' where "c' = (if tok = 60 then REDIR c q O_RDONLY 0 else if tok = 62 then REDIR c q (O_WRONLY OR O_CREATE) 1
     else if tok = 43 then REDIR c q (O_WRONLY OR O_CREATE) 1 else c)"
  have e: "parseredirs buf es c s = (if b then if tok2 \<noteq> 97 then Inl (Panic ''missing file for redirection'') else parseredirs buf es c' s3 else Inr (c, s1))"
    by (subst parseredirs.simps) (simp add: p t u c'_def)
  have g: "good_cmd buf es c'" "nargs c' = nargs c" if "tok2 = 97" using u(4) that c by (auto simp: c'_def good_cmd_def)
  show ?case
  proof (cases "b \<and> tok2 = 97")
    case True
    have "safe (parseredirs buf es c' s3) (\<lambda>r. good_res buf es s3 r \<and> nargs (fst r) = nargs c')" unfolding c'_def
      by (rule 1(1) [OF p(1) refl _ t(1) refl refl u(1) refl refl _ ln u(3) g(1) [unfolded c'_def]]) (use True in simp_all)
    then show ?thesis unfolding e using True g p t u by (auto elim!: safe_mono)
  qed (use p c e in auto)
qed

lemma exec_loop_safe:
  assumes "line buf es" and "s \<le> es" and "good_cmd buf es ret" and "nargs ret \<le> argc" and "argc < MAXARGS"
  shows "safe (exec_loop buf es ret argc s) (good_res buf es s)"
  using assms
proof (induction buf es ret argc s rule: exec_loop.induct)
  case (1 buf es ret argc s)
  note ln = 1(2) and s = 1(3) and c = 1(4)
  obtain s1 b where p: "peek buf es s [124, 41, 38, 59, 0] = Inr (s1, b)" "s \<le> s1" "s1 \<le> es" using peek_spec [OF ln s] by blast
  obtain tok q s2 where t: "gettoken buf es s1 = Inr (tok, q, s2)" "s1 \<le> s2" "s2 \<le> es" "tok = 97 \<longrightarrow> word_ok buf es q"
    using gettoken_spec [OF ln p(3)] by blast
  have e: "exec_loop buf es ret argc s = (if b then Inr (ret, s1) else if tok = 0 then Inr (ret, s2)
       else if tok \<noteq> 97 then Inl (Panic ''syntax'') else if argc + 1 \<ge> MAXARGS then Inl (Panic ''too many args'')
       else rbind (parseredirs buf es (add_arg ret q) s2) (\<lambda>(ret1, s3). exec_loop buf es ret1 (argc + 1) s3))"
    by (subst exec_loop.simps) (simp add: p t)
  show ?case
  proof (cases "\<not> b \<and> tok = 97 \<and> argc + 1 < MAXARGS")
    case True
    have g: "good_cmd buf es (add_arg ret q)" "nargs (add_arg ret q) \<le> argc + 1"
      using add_arg_ok [of ret q] add_arg_words [of ret q] c t(4) True 1(5) by (auto simp: good_cmd_def)
    have "safe (parseredirs buf es (add_arg ret q) s2) (\<lambda>r. good_res buf es s2 r \<and> nargs (fst r) = nargs (add_arg ret q))"
      by (rule parseredirs_safe [OF ln t(3) g(1)])
    then have "safe (rbind (parseredirs buf es (add_arg ret q) s2) (\<lambda>(ret1, s3). exec_loop buf es ret1 (argc + 1) s3)) (good_res buf es s)"
    proof (rule safe_rbind, clarsimp)
      fix ret1 s3 assume pr: "parseredirs buf es (add_arg ret q) s2 = Inr (ret1, s3)" and r: "good_cmd buf es ret1" "s2 \<le> s3" "s3 \<le> es" "nargs ret1 = nargs (add_arg ret q)"
      have "safe (exec_loop buf es ret1 (argc + 1) s3) (good_res buf es s3)"
        by (rule 1(1) [OF p(1) refl _ t(1) refl refl _ _ _ pr refl ln r(3) r(1)]) (use True r g in simp_all)
      then show "safe (exec_loop buf es ret1 (Suc argc) s3) (good_res buf es s)" using r p t by (auto elim!: safe_mono)
    qed
    then show ?thesis unfolding e using True by simp
  qed (use p t c e in auto)
qed

lemma back_loop_safe:
  assumes "line buf es" and "s \<le> es" and "good_cmd buf es c"
  shows "safe (back_loop buf es c s) (good_res buf es s)"
  using assms
proof (induction buf es c s rule: back_loop.induct)
  case (1 buf es c s)
  note ln = 1(2) and s = 1(3) and c = 1(4)
  obtain s1 b where p: "peek buf es s [38, 0] = Inr (s1, b)" "s \<le> s1" "s1 \<le> es" using peek_spec [OF ln s] by blast
  obtain tok q s2 where t: "gettoken buf es s1 = Inr (tok, q, s2)" "s1 \<le> s2" "s2 \<le> es" using gettoken_spec [OF ln p(3)] by blast
  have e: "back_loop buf es c s = (if b then back_loop buf es (BACK c) s2 else Inr (c, s1))"
    by (subst back_loop.simps) (simp add: p t)
  show ?case
  proof (cases b)
    case True
    have "safe (back_loop buf es (BACK c) s2) (good_res buf es s2)"
      by (rule 1(1) [OF p(1) refl _ t(1) refl refl ln t(3)]) (use True c in \<open>simp_all add: good_cmd_def\<close>)
    then show ?thesis unfolding e using True p t by (auto elim!: safe_mono)
  qed (use p c e in auto)
qed

lemma semi_syms: "found [59, 0] c \<Longrightarrow> found symbols c"
  by (simp add: found_def symbols_def split: sum.splits if_splits)

lemma bar_syms: "found [124, 0] c \<Longrightarrow> found symbols c"
  by (simp add: found_def symbols_def split: sum.splits if_splits)

lemma open_syms: "found [40, 0] c \<Longrightarrow> found symbols c"
  by (simp add: found_def symbols_def split: sum.splits if_splits)

text \<open>The fuel of \<open>parsecmd\<close> is enough: four calls for every symbol that is consumed, and four for the last round.\<close>

lemma parse_safe:
  assumes ln: "line buf es"
  shows "(s \<le> es \<longrightarrow> 4 * (es - s) + 4 \<le> n \<longrightarrow> safe (parseline n buf es s) (good_res buf es s)) \<and>
    (s \<le> es \<longrightarrow> 4 * (es - s) + 3 \<le> n \<longrightarrow> safe (parsepipe n buf es s) (good_res buf es s)) \<and>
    (s \<le> es \<longrightarrow> 4 * (es - s) + 1 \<le> n \<longrightarrow> safe (parseblock n buf es s) (good_res buf es s)) \<and>
    (s \<le> es \<longrightarrow> 4 * (es - s) + 2 \<le> n \<longrightarrow> safe (parseexec n buf es s) (good_res buf es s))"
proof (induction n arbitrary: s)
  case 0
  then show ?case by simp
next
  case (Suc n)
  have line: "safe (parseline n buf es s) (good_res buf es s)" if "s \<le> es" "4 * (es - s) + 4 \<le> n" for s using Suc that by blast
  have pipe: "safe (parsepipe n buf es s) (good_res buf es s)" if "s \<le> es" "4 * (es - s) + 3 \<le> n" for s using Suc that by blast
  have blk: "safe (parseblock n buf es s) (good_res buf es s)" if "s \<le> es" "4 * (es - s) + 1 \<le> n" for s using Suc that by blast
  have exe: "safe (parseexec n buf es s) (good_res buf es s)" if "s \<le> es" "4 * (es - s) + 2 \<le> n" for s using Suc that by blast
  have step: "\<exists>s1 b. peek buf es s toks = Inr (s1, b) \<and> s \<le> s1 \<and> s1 \<le> es \<and>
      (\<exists>tok q s2. gettoken buf es s1 = Inr (tok, q, s2) \<and> s1 \<le> s2 \<and> s2 \<le> es \<and> (b \<longrightarrow> s < s2))"
    if h: "s \<le> es" "\<And>c. found toks c \<Longrightarrow> found symbols c" for s toks
  proof -
    obtain s1 b where p: "peek buf es s toks = Inr (s1, b)" "s \<le> s1" "s1 \<le> es" using peek_spec [OF ln h(1)] by blast
    obtain tok q s2 where t: "gettoken buf es s1 = Inr (tok, q, s2)" "s1 \<le> s2" "s2 \<le> es" using gettoken_spec [OF ln p(3)] by blast
    have "b \<longrightarrow> s < s2" using peek_consumes [OF _ t(1) h(2)] p(1) by auto
    then show ?thesis using p t by blast
  qed
  show ?case
  proof (intro conjI impI)
    assume s: "s \<le> es" "4 * (es - s) + 4 \<le> Suc n"
    have "safe (parsepipe n buf es s) (good_res buf es s)" using s by (intro pipe) simp_all
    then show "safe (parseline (Suc n) buf es s) (good_res buf es s)" unfolding parseline.simps
    proof (rule safe_rbind, clarsimp)
      fix c s1 assume r: "good_cmd buf es c" "s \<le> s1" "s1 \<le> es"
      show "safe (rbind (back_loop buf es c s1) (\<lambda>(c1, s2). rbind (peek buf es s2 [59, 0]) (\<lambda>(s3, b).
          if b then rbind (gettoken buf es s3) (\<lambda>(tok, q, s4). rbind (parseline n buf es s4) (\<lambda>(c2, s5). Inr (LIST c1 c2, s5)))
          else Inr (c1, s3)))) (good_res buf es s)"
      proof (rule safe_rbind [OF back_loop_safe [OF ln r(3,1)]], clarsimp)
        fix c1 s2 assume r2: "good_cmd buf es c1" "s1 \<le> s2" "s2 \<le> es"
        obtain s3 b tok q s4 where t: "peek buf es s2 [59, 0] = Inr (s3, b)" "s2 \<le> s3" "s3 \<le> es" "gettoken buf es s3 = Inr (tok, q, s4)"
          "s3 \<le> s4" "s4 \<le> es" "b \<longrightarrow> s2 < s4" using step [OF r2(3) semi_syms] by blast
        have "safe (parseline n buf es s4) (good_res buf es s4)" if b using that s r r2 t by (intro line) simp_all
        then show "safe (rbind (peek buf es s2 [59, 0]) (\<lambda>(s3, b).
          if b then rbind (gettoken buf es s3) (\<lambda>(tok, q, s4). rbind (parseline n buf es s4) (\<lambda>(c2, s5). Inr (LIST c1 c2, s5)))
          else Inr (c1, s3))) (good_res buf es s)"
          using r r2 t by (auto simp: good_cmd_def elim!: safe_rbind)
      qed
    qed
  next
    assume s: "s \<le> es" "4 * (es - s) + 3 \<le> Suc n"
    have "safe (parseexec n buf es s) (good_res buf es s)" using s by (intro exe) simp_all
    then show "safe (parsepipe (Suc n) buf es s) (good_res buf es s)" unfolding parsepipe.simps
    proof (rule safe_rbind, clarsimp)
      fix c s1 assume r: "good_cmd buf es c" "s \<le> s1" "s1 \<le> es"
      obtain s2 b tok q s3 where t: "peek buf es s1 [124, 0] = Inr (s2, b)" "s1 \<le> s2" "s2 \<le> es" "gettoken buf es s2 = Inr (tok, q, s3)"
        "s2 \<le> s3" "s3 \<le> es" "b \<longrightarrow> s1 < s3" using step [OF r(3) bar_syms] by blast
      have "safe (parsepipe n buf es s3) (good_res buf es s3)" if b using that s r t by (intro pipe) simp_all
      then show "safe (rbind (peek buf es s1 [124, 0]) (\<lambda>(s2, b).
          if b then rbind (gettoken buf es s2) (\<lambda>(tok, q, s3). rbind (parsepipe n buf es s3) (\<lambda>(c2, s4). Inr (PIPE c c2, s4)))
          else Inr (c, s2))) (good_res buf es s)"
        using r t by (auto simp: good_cmd_def elim!: safe_rbind)
    qed
  next
    assume s: "s \<le> es" "4 * (es - s) + 1 \<le> Suc n"
    obtain s1 b tok q s2 where t: "peek buf es s [40, 0] = Inr (s1, b)" "s \<le> s1" "s1 \<le> es" "gettoken buf es s1 = Inr (tok, q, s2)"
      "s1 \<le> s2" "s2 \<le> es" "b \<longrightarrow> s < s2" using step [OF s(1) open_syms] by blast
    show "safe (parseblock (Suc n) buf es s) (good_res buf es s)"
    proof (cases b)
      case True
      have "safe (parseline n buf es s2) (good_res buf es s2)" using True s t by (intro line) simp_all
      then have "safe (rbind (parseline n buf es s2) (\<lambda>(c, s3). rbind (peek buf es s3 [41, 0]) (\<lambda>(s4, b).
          if \<not> b then Inl (Panic ''syntax - missing )'')
          else rbind (gettoken buf es s4) (\<lambda>(tok, q, s5). parseredirs buf es c s5)))) (good_res buf es s)"
      proof (rule safe_rbind, clarsimp)
        fix c s3 assume r: "good_cmd buf es c" "s2 \<le> s3" "s3 \<le> es"
        obtain s4 b where p: "peek buf es s3 [41, 0] = Inr (s4, b)" "s3 \<le> s4" "s4 \<le> es" using peek_spec [OF ln r(3)] by blast
        obtain tok q s5 where u: "gettoken buf es s4 = Inr (tok, q, s5)" "s4 \<le> s5" "s5 \<le> es" using gettoken_spec [OF ln p(3)] by blast
        have "safe (parseredirs buf es c s5) (good_res buf es s)"
          using parseredirs_safe [OF ln u(3) r(1)] r p u t by (auto elim!: safe_mono)
        then show "safe (rbind (peek buf es s3 [41, 0]) (\<lambda>(s4, b). if \<not> b then Inl (Panic ''syntax - missing )'')
            else rbind (gettoken buf es s4) (\<lambda>(tok, q, s5). parseredirs buf es c s5))) (good_res buf es s)" using p u by simp
      qed
      then show ?thesis using True t by simp
    qed (use t in simp)
  next
    assume s: "s \<le> es" "4 * (es - s) + 2 \<le> Suc n"
    obtain s1 b where p: "peek buf es s [40, 0] = Inr (s1, b)" "s \<le> s1" "s1 \<le> es" using peek_spec [OF ln s(1)] by blast
    have g: "good_cmd buf es (EXEC [])" by (simp add: good_cmd_def MAXARGS_def)
    have "safe (parseblock n buf es s1) (good_res buf es s1)" using s p by (intro blk) simp_all
    moreover have "safe (rbind (parseredirs buf es (EXEC []) s1) (\<lambda>(ret, s2). exec_loop buf es ret 0 s2)) (good_res buf es s)"
    proof (rule safe_rbind [OF parseredirs_safe [OF ln p(3) g]], clarsimp)
      fix c s2 assume r: "good_cmd buf es c" "s1 \<le> s2" "s2 \<le> es" "nargs c = 0"
      have "safe (exec_loop buf es c 0 s2) (good_res buf es s2)" using r by (intro exec_loop_safe [OF ln]) (simp_all add: MAXARGS_def)
      then show "safe (exec_loop buf es c 0 s2) (good_res buf es s)" using r p by (auto elim!: safe_mono)
    qed
    ultimately show "safe (parseexec (Suc n) buf es s) (good_res buf es s)" using p by (auto elim!: safe_mono)
  qed
qed

subsection \<open>Terminating the words\<close>

text \<open>\<open>cut buf es E buf'\<close>: of the line in \<open>buf\<close>, exactly the bytes at the positions \<open>E\<close> were made NUL.\<close>

definition cut :: "nat set \<Rightarrow> byte list \<Rightarrow> byte list \<Rightarrow> bool" where
  "cut E buf buf' \<longleftrightarrow> length buf' = length buf \<and> (\<forall>i < length buf. buf' ! i = (if i \<in> E then 0 else buf ! i))"

lemma cut_refl: "cut {} buf buf"
  by (simp add: cut_def)

lemma cut_trans: "cut E buf buf1 \<Longrightarrow> cut F buf1 buf2 \<Longrightarrow> cut (E \<union> F) buf buf2"
  by (auto simp: cut_def)

lemma cut_set: "e < length buf \<Longrightarrow> arr_set buf (int e) 0 = Inr (buf[e := 0]) \<and> cut {e} buf (buf[e := 0])"
  by (simp add: in_range_def cut_def nth_list_update)

lemma nul_words_cut: "\<forall>w \<in> set ws. snd w < length buf \<Longrightarrow> \<exists>buf'. nul_words ws buf = Inr buf' \<and> cut (snd ` set ws) buf buf'"
proof (induction ws arbitrary: buf)
  case Nil
  then show ?case by (simp add: cut_refl)
next
  case (Cons w ws)
  obtain q e where w: "w = (q, e)" by fastforce
  then have e: "arr_set buf (int e) 0 = Inr (buf[e := 0])" "cut {e} buf (buf[e := 0])" using cut_set [of e buf] Cons.prems by simp_all
  obtain buf' where b: "nul_words ws (buf[e := 0]) = Inr buf'" "cut (snd ` set ws) (buf[e := 0]) buf'" using Cons.IH [of "buf[e := 0]"] Cons.prems by auto
  then show ?case using e cut_trans [OF e(2) b(2)] by (simp add: w)
qed

lemma nulterminate_cut: "\<forall>w \<in> set_cmd c. snd w < length buf \<Longrightarrow> \<exists>buf'. nulterminate c buf = Inr buf' \<and> cut (snd ` set_cmd c) buf buf'"
proof (induction c arbitrary: buf)
  case (EXEC ws)
  then show ?case using nul_words_cut by simp
next
  case (REDIR c f m d)
  obtain b1 where b1: "nulterminate c buf = Inr b1" "cut (snd ` set_cmd c) buf b1" using REDIR.IH [of buf] REDIR.prems by auto
  then have "snd f < length b1" using REDIR.prems by (simp add: cut_def)
  note f = cut_set [OF this]
  then show ?case using b1 cut_trans [OF b1(2) conjunct2 [OF f]] by (simp add: Un_commute insert_commute)
next
  case (PIPE l r)
  obtain b1 where b1: "nulterminate l buf = Inr b1" "cut (snd ` set_cmd l) buf b1" using PIPE.IH(1) [of buf] PIPE.prems by auto
  obtain b2 where b2: "nulterminate r b1 = Inr b2" "cut (snd ` set_cmd r) b1 b2" using PIPE.IH(2) [of b1] PIPE.prems b1(2) by (auto simp: cut_def)
  then show ?case using b1 cut_trans [OF b1(2) b2(2)] by (simp add: image_Un)
next
  case (LIST l r)
  obtain b1 where b1: "nulterminate l buf = Inr b1" "cut (snd ` set_cmd l) buf b1" using LIST.IH(1) [of buf] LIST.prems by auto
  obtain b2 where b2: "nulterminate r b1 = Inr b2" "cut (snd ` set_cmd r) b1 b2" using LIST.IH(2) [of b1] LIST.prems b1(2) by (auto simp: cut_def)
  then show ?case using b1 cut_trans [OF b1(2) b2(2)] by (simp add: image_Un)
next
  case (BACK c)
  then show ?case by simp
qed

text \<open>The text of a word in the line, and the string that begins at it afterwards.\<close>

definition word_text :: "byte list \<Rightarrow> pos \<Rightarrow> byte list" where
  "word_text buf w = take (snd w - fst w) (drop (fst w) buf)"

definition string_at :: "byte list \<Rightarrow> nat \<Rightarrow> byte list" where
  "string_at buf q = takeWhile (\<lambda>c. c \<noteq> 0) (drop q buf)"

lemma string_after_cut:
  assumes "cut E buf buf'" and "word_ok buf es w" and "es < length buf" and "snd w \<in> E" and "\<And>e. e \<in> E \<Longrightarrow> \<not> wordchar (buf ! e)"
  shows "string_at buf' (fst w) = word_text buf w" and "snd w < length buf' \<and> buf' ! snd w = 0"
proof -
  obtain q e where w: "w = (q, e)" by fastforce
  have q: "q < e" "e < length buf" "\<And>i. q \<le> i \<Longrightarrow> i < e \<Longrightarrow> wordchar (buf ! i)" using assms(2,3) by (auto simp: word_ok_def w)
  have c: "length buf' = length buf" "buf' ! e = 0" "\<And>i. q \<le> i \<Longrightarrow> i < e \<Longrightarrow> buf' ! i = buf ! i \<and> buf ! i \<noteq> 0"
    using assms(1,4,5) q by (auto simp: cut_def w wordchar_def)
  have t: "take (e - q) (drop q buf') = take (e - q) (drop q buf)"
  proof (rule nth_equalityI)
    fix i assume "i < length (take (e - q) (drop q buf'))"
    then have i: "i < e - q" by simp
    then show "take (e - q) (drop q buf') ! i = take (e - q) (drop q buf) ! i" using c(1) c(3) [of "q + i"] q by simp
  qed (use c in simp)
  have d: "drop q buf' = take (e - q) (drop q buf') @ 0 # drop (e + 1) buf'"
  proof -
    have "drop (e - q) (drop q buf') = drop e buf'" using q(1) by simp
    also have "\<dots> = 0 # drop (e + 1) buf'" using q(2) c(1,2) by (metis Cons_nth_drop_Suc Suc_eq_plus1)
    finally show ?thesis by (metis append_take_drop_id)
  qed
  have "\<forall>c \<in> set (take (e - q) (drop q buf)). c \<noteq> 0" using c q by (auto simp: in_set_conv_nth)
  then have "takeWhile (\<lambda>c. c \<noteq> 0) (take (e - q) (drop q buf) @ 0 # drop (e + 1) buf') = take (e - q) (drop q buf)"
    by (simp add: takeWhile_append2)
  moreover have "string_at buf' q = takeWhile (\<lambda>c. c \<noteq> 0) (take (e - q) (drop q buf) @ 0 # drop (e + 1) buf')"
    unfolding string_at_def by (subst d) (simp only: t)
  ultimately show "string_at buf' (fst w) = word_text buf w" by (simp add: word_text_def w)
  show "snd w < length buf' \<and> buf' ! snd w = 0" using q c by (simp add: w)
qed

lemma parsecmd_good:
  assumes "is_str buf txt"
  shows "safe (parsecmd buf) (\<lambda>(c, buf'). good_cmd buf (length txt) c \<and> cut (snd ` set_cmd c) buf buf')" and "line buf (length txt)"
proof -
  let ?n = "length txt"
  obtain r where b: "buf = txt @ 0 # r" "0 \<notin> set txt" using assms by (auto simp: is_str_def)
  show ln: "line buf ?n" using b nth_mem by (fastforce simp: line_def nth_append)
  have sl: "strlen buf = Inr (int ?n)" by (rule strlen_spec [OF assms])
  have "safe (parseline (4 * ?n + 4) buf ?n 0) (good_res buf ?n 0)" using parse_safe [OF ln, of 0 "4 * ?n + 4"] by simp
  then show "safe (parsecmd buf) (\<lambda>(c, buf'). good_cmd buf ?n c \<and> cut (snd ` set_cmd c) buf buf')"
    unfolding parsecmd_def sl rbind_Inr nat_int
  proof (rule safe_rbind, clarsimp)
    fix c s assume c: "good_cmd buf ?n c" "s \<le> ?n"
    obtain s1 b where p: "peek buf ?n s [0] = Inr (s1, b)" using peek_spec [OF ln c(2)] by blast
    have "\<forall>w \<in> set_cmd c. snd w < length buf" using c(1) ln by (auto simp: good_cmd_def word_ok_def line_def)
    from nulterminate_cut [OF this] obtain buf' where "nulterminate c buf = Inr buf'" "cut (snd ` set_cmd c) buf buf'" by blast
    then show "safe (rbind (peek buf ?n s [0]) (\<lambda>(s1, b). if s1 \<noteq> ?n then Inl (Panic ''syntax'')
        else rbind (nulterminate c buf) (\<lambda>buf1. Inr (c, buf1)))) (\<lambda>(c, buf'). good_cmd buf ?n c \<and> cut (snd ` set_cmd c) buf buf')"
      using p c by simp
  qed
qed

text \<open>
  C37 (shell_total): on every command line the parser ends, without reading outside the line: with a command or with an error message.
\<close>

theorem shell_total:
  assumes "is_str buf txt"
  shows "(\<exists>c buf'. parsecmd buf = Inr (c, buf')) \<or> (\<exists>msg. parsecmd buf = Inl (Panic msg))"
  using parsecmd_good [OF assms] by (auto simp: safe_def)

text \<open>
  C36 (shell_words): the command is well-formed, with fewer than \<open>MAXARGS\<close> words in every simple command; all its words are
  non-empty words of the line, and after the parser has put its NULs, every word is the string at its address.
\<close>

theorem shell_words:
  assumes "is_str buf txt" and "parsecmd buf = Inr (c, buf')"
  shows "cmd_ok c \<and> length buf' = length buf \<and> (\<forall>w \<in> set_cmd c. fst w < snd w \<and> snd w \<le> length txt \<and>
    (\<forall>b \<in> set (word_text txt w). wordchar b) \<and> string_at buf' (fst w) = word_text txt w \<and> buf' ! snd w = 0)"
proof -
  have g: "good_cmd buf (length txt) c" "cut (snd ` set_cmd c) buf buf'" using parsecmd_good(1) [OF assms(1)] assms(2) by simp_all
  have ln: "line buf (length txt)" by (rule parsecmd_good(2) [OF assms(1)])
  obtain r where b: "buf = txt @ 0 # r" using assms(1) by (auto simp: is_str_def)
  have "fst w < snd w \<and> snd w \<le> length txt \<and> (\<forall>b \<in> set (word_text txt w). wordchar b) \<and> string_at buf' (fst w) = word_text txt w \<and> buf' ! snd w = 0"
    if w: "w \<in> set_cmd c" for w
  proof -
    have ok: "word_ok buf (length txt) w" using g(1) w by (simp add: good_cmd_def)
    have nw: "\<not> wordchar (buf ! e)" if "e \<in> snd ` set_cmd c" for e using g(1) that by (auto simp: good_cmd_def word_ok_def)
    have t: "word_text buf w = word_text txt w" using ok by (auto simp: word_text_def word_ok_def b)
    have "\<forall>b \<in> set (word_text txt w). wordchar b"
    proof
      fix x assume "x \<in> set (word_text txt w)"
      then obtain i where i: "i < snd w - fst w" "x = txt ! (fst w + i)" "fst w + i < length txt" by (auto simp: word_text_def in_set_conv_nth)
      then have "wordchar (buf ! (fst w + i))" using ok by (auto simp: word_ok_def)
      then show "wordchar x" using i by (simp add: b nth_append)
    qed
    then show ?thesis using string_after_cut [OF g(2) ok _ _ nw] w ln ok t by (simp add: line_def word_ok_def)
  qed
  then show ?thesis using g by (simp add: good_cmd_def cut_def)
qed

end
