(* ===== verification/Shell_Claims.thy ===== *)
theory Shell_Claims
  imports Shell_Correct
begin

text \<open>
  The round trip of the shell's parser: every command, written with the parentheses it needs, is read back by \<open>parsecmd\<close> as
  itself, with its words as C strings in the line.
\<close>

subsection \<open>Writing commands\<close>

definition paren :: "bool \<Rightarrow> byte list \<Rightarrow> byte list" where
  "paren b t = (if b then [40] @ t @ [41] else t)"

text \<open>Level 0 is a line, 1 a command before \<open>&\<close> or \<open>;\<close>, 2 a pipeline, 3 one of its elements.\<close>

fun unparse :: "nat \<Rightarrow> byte list cmd \<Rightarrow> byte list" where
  "unparse n (EXEC ws) = concat (map (\<lambda>w. w @ [32]) ws)"
| "unparse n (REDIR c f m d) = unparse 3 c @ [if d = 0 then 60 else 62] @ f @ [32]"
| "unparse n (PIPE l r) = paren (2 < n) (unparse 3 l @ [124] @ unparse 2 r)"
| "unparse n (LIST l r) = paren (0 < n) (unparse 1 l @ [59] @ unparse 0 r)"
| "unparse n (BACK c) = paren (1 < n) (unparse 1 c @ [38])"

definition valid_word :: "byte list \<Rightarrow> bool" where
  "valid_word w \<longleftrightarrow> w \<noteq> [] \<and> (\<forall>b \<in> set w. wordchar b)"

definition valid_cmd :: "byte list cmd \<Rightarrow> bool" where
  "valid_cmd a \<longleftrightarrow> cmd_ok a \<and> (\<forall>w \<in> set_cmd a. valid_word w)"

text \<open>A list of redirections, its text, and the command they make of \<open>c\<close>.\<close>

type_synonym 'w redirs = "('w \<times> int \<times> int) list"

definition rtext :: "byte list redirs \<Rightarrow> byte list" where
  "rtext fs = concat (map (\<lambda>(f, m, d). [if d = 0 then 60 else 62] @ f @ [32]) fs)"

definition wrap :: "'w redirs \<Rightarrow> 'w cmd \<Rightarrow> 'w cmd" where
  "wrap fs c = fold (\<lambda>(f, m, d) c. REDIR c f m d) fs c"

definition valid_redirs :: "byte list redirs \<Rightarrow> bool" where
  "valid_redirs fs \<longleftrightarrow> (\<forall>(f, m, d) \<in> set fs. valid_word f \<and> (m = O_RDONLY \<and> d = 0 \<or> m = (O_WRONLY OR O_CREATE) \<and> d = 1))"

subsection \<open>Tokens of a given text\<close>

text \<open>The parser is before the text \<open>xs\<close>, which does not begin with a space.\<close>

definition ahead :: "byte list \<Rightarrow> nat \<Rightarrow> nat \<Rightarrow> byte list \<Rightarrow> bool" where
  "ahead buf es s xs \<longleftrightarrow> s \<le> es \<and> rest buf es s = xs"

definition nonwhite :: "byte list \<Rightarrow> bool" where
  "nonwhite xs \<longleftrightarrow> (case xs of [] \<Rightarrow> True | c # _ \<Rightarrow> \<not> found whitespace c)"

lemma nonwhite_simps [simp]: "nonwhite []" "nonwhite (c # xs) \<longleftrightarrow> \<not> found whitespace c"
  by (simp_all add: nonwhite_def)

lemma ahead_nth: "ahead buf es s xs \<Longrightarrow> es < length buf \<Longrightarrow> i < length xs \<Longrightarrow> buf ! (s + i) = xs ! i \<and> s + i < es"
  by (auto simp: ahead_def rest_def)

lemma ahead_len: "ahead buf es s xs \<Longrightarrow> es < length buf \<Longrightarrow> es = s + length xs"
  by (auto simp: ahead_def rest_def)

lemma ahead_append: "ahead buf es s (xs @ ys) \<Longrightarrow> es < length buf \<Longrightarrow> ahead buf es (s + length xs) ys"
proof -
  assume a: "ahead buf es s (xs @ ys)" and l: "es < length buf"
  have "es = s + length (xs @ ys)" by (rule ahead_len [OF a l])
  moreover have "rest buf es (s + length xs) = drop (length xs) (rest buf es s)" by (simp add: rest_def add.commute)
  ultimately show ?thesis using a by (simp add: ahead_def)
qed

lemma ahead_Cons: "ahead buf es s (x # ys) \<Longrightarrow> es < length buf \<Longrightarrow> ahead buf es (s + 1) ys"
  using ahead_append [of buf es s "[x]" ys] by simp

lemma ahead_text: "ahead buf es s (xs @ ys) \<Longrightarrow> es < length buf \<Longrightarrow> word_text buf (s, s + length xs) = xs"
proof -
  assume a: "ahead buf es s (xs @ ys)" and l: "es < length buf"
  have "es = s + length (xs @ ys)" by (rule ahead_len [OF a l])
  then have "take (length xs) (drop s buf) = take (length xs) (drop s (take es buf))" by (simp add: drop_take take_take min_def)
  also have "\<dots> = xs" using a by (simp add: ahead_def rest_def)
  finally show ?thesis by (simp add: word_text_def)
qed

lemma ahead_get:
  assumes "line buf es" and "ahead buf es s xs"
  shows "arr_get buf (int s) = Inr (case xs of [] \<Rightarrow> 0 | c # _ \<Rightarrow> c) \<and> (case xs of [] \<Rightarrow> True | c # _ \<Rightarrow> c \<noteq> 0)"
proof -
  have l: "es < length buf" using assms(1) by (simp add: line_def)
  have e: "es = s + length xs" by (rule ahead_len [OF assms(2) l])
  then have g: "arr_get buf (int s) = Inr (buf ! s)" using l by (simp add: arr_get_def in_range_def)
  show ?thesis
  proof (cases xs)
    case Nil
    then show ?thesis using g e assms(1) by (simp add: line_def)
  next
    case (Cons c ys)
    have "buf ! s = c \<and> s < es" using ahead_nth [OF assms(2) l, of 0] Cons by simp
    then show ?thesis using g Cons assms(1) by (auto simp: line_def)
  qed
qed

lemma ahead_skip:
  assumes "line buf es" and "ahead buf es s xs" and "case xs of [] \<Rightarrow> True | c # _ \<Rightarrow> \<not> P c"
  shows "skip_while P buf es s = Inr s"
proof -
  have "takeWhile P xs = []" using assms(3) by (cases xs) simp_all
  then show ?thesis using skip_while_eq [of es buf s P] assms(1,2) by (simp add: ahead_def line_def)
qed

lemma peek_ahead:
  assumes "line buf es" and "ahead buf es s xs" and "nonwhite xs"
  shows "peek buf es s toks = Inr (s, case xs of [] \<Rightarrow> False | c # _ \<Rightarrow> found toks c)"
proof -
  have "skip_while (found whitespace) buf es s = Inr s" by (rule ahead_skip [OF assms(1,2)]) (use assms(3) in \<open>simp add: nonwhite_def\<close>)
  then show ?thesis using ahead_get [OF assms(1,2)] by (auto simp: peek_def split: list.splits)
qed

text \<open>The next token is a symbol, or the end, or a word and the space behind it.\<close>

lemma token_symbol:
  assumes "line buf es" and "ahead buf es s (c # xs)" and "found symbols c" and "nonwhite xs" and "c = 62 \<Longrightarrow> xs \<noteq> [] \<and> hd xs \<noteq> 62"
  shows "\<exists>w. gettoken buf es s = Inr (c, w, s + 1)" and "ahead buf es (s + 1) xs"
proof -
  have l: "es < length buf" using assms(1) by (simp add: line_def)
  show a: "ahead buf es (s + 1) xs" by (rule ahead_Cons [OF assms(2) l])
  have w: "\<not> found whitespace c" using assms(3) by (auto simp: found_symbols found_whitespace)
  have 1: "skip_while (found whitespace) buf es s = Inr s" by (rule ahead_skip [OF assms(1,2)]) (simp add: w)
  have 2: "skip_while (found whitespace) buf es (s + 1) = Inr (s + 1)"
    by (rule ahead_skip [OF assms(1) a]) (use assms(4) in \<open>simp add: nonwhite_def\<close>)
  have g: "arr_get buf (int s) = Inr c" "c \<noteq> 0" using ahead_get [OF assms(1,2)] by simp_all
  have h: "arr_get buf (int (s + 1)) = Inr (hd xs)" if "xs \<noteq> []" using ahead_get [OF assms(1) a] that by (cases xs) simp_all
  have "gettoken buf es s = Inr (c, (s, s + 1), s + 1)"
    using 1 2 g h assms(3,5) unfolding gettoken_def by (auto simp: found_symbols)
  then show "\<exists>w. gettoken buf es s = Inr (c, w, s + 1)" by blast
qed

lemma token_end:
  assumes "line buf es" and "ahead buf es s []"
  shows "\<exists>w. gettoken buf es s = Inr (0, w, s)"
  using ahead_skip [OF assms, of "found whitespace"] ahead_get [OF assms] by (simp add: gettoken_def)

lemma token_word:
  assumes "line buf es" and "ahead buf es s (w @ 32 # xs)" and "valid_word w" and "nonwhite xs"
  shows "gettoken buf es s = Inr (97, (s, s + length w), s + length w + 1)" and "ahead buf es (s + length w + 1) xs"
    and "word_text buf (s, s + length w) = w"
proof -
  have l: "es < length buf" "es \<le> length buf" using assms(1) by (simp_all add: line_def)
  show "word_text buf (s, s + length w) = w" by (rule ahead_text [OF assms(2) l(1)])
  have a1: "ahead buf es (s + length w) (32 # xs)" by (rule ahead_append [OF assms(2) l(1)])
  show a2: "ahead buf es (s + length w + 1) xs" by (rule ahead_Cons [OF a1 l(1)])
  obtain c v where w: "w = c # v" using assms(3) by (cases w) (simp_all add: valid_word_def)
  have wc: "\<And>b. b \<in> set w \<Longrightarrow> wordchar b" using assms(3) by (simp add: valid_word_def)
  have c: "c \<noteq> 0" "\<not> found whitespace c" "\<not> found symbols c" using wc [of c] w by (simp_all add: wordchar_def)
  have s32: "found whitespace 32" by (simp add: found_whitespace)
  have 1: "skip_while (found whitespace) buf es s = Inr s" by (rule ahead_skip [OF assms(1,2)]) (use c w in simp)
  have "takeWhile (\<lambda>c. \<not> found whitespace c \<and> \<not> found symbols c) (w @ 32 # xs) = w"
    using wc s32 by (subst takeWhile_append2) (auto simp: wordchar_def)
  then have 2: "skip_while (\<lambda>c. \<not> found whitespace c \<and> \<not> found symbols c) buf es s = Inr (s + length w)"
    using skip_while_eq [OF l(2), of s] assms(2) by (simp add: ahead_def)
  have "takeWhile (found whitespace) (32 # xs) = [32]" using s32 assms(4) by (cases xs) simp_all
  then have 3: "skip_while (found whitespace) buf es (s + length w) = Inr (s + length w + 1)"
    using skip_while_eq [OF l(2), of "s + length w" "found whitespace"] a1 by (simp add: ahead_def)
  have g: "arr_get buf (int s) = Inr c" using ahead_get [OF assms(1,2)] w by simp
  show "gettoken buf es s = Inr (97, (s, s + length w), s + length w + 1)"
    unfolding gettoken_def 1 rbind_Inr g using c 2 3 by (auto simp: found_symbols)
qed

subsection \<open>Reading the parts of a command\<close>

text \<open>The step \<open>m\<close> of the parser gives the command \<open>a\<close>, up to the places of its words, and stands before \<open>r\<close>.\<close>

definition gives :: "byte list \<Rightarrow> nat \<Rightarrow> (pos cmd \<times> nat) res \<Rightarrow> byte list \<Rightarrow> byte list cmd \<Rightarrow> bool" where
  "gives buf es m r a \<longleftrightarrow> (\<exists>c s'. m = Inr (c, s') \<and> ahead buf es s' r \<and> map_cmd (word_text buf) c = a)"

definition stops :: "byte list \<Rightarrow> byte list \<Rightarrow> bool" where
  "stops cs r \<longleftrightarrow> (case r of [] \<Rightarrow> True | c # _ \<Rightarrow> c \<in> set cs)"

lemma stops_simps [simp]: "stops cs []" "stops cs (c # r) \<longleftrightarrow> c \<in> set cs"
  by (simp_all add: stops_def)

lemma stops_mono: "stops cs r \<Longrightarrow> set cs \<subseteq> set ds \<Longrightarrow> stops ds r"
  by (cases r) auto

lemma stops_nonwhite: "stops cs r \<Longrightarrow> set cs \<subseteq> {124, 41, 38, 59} \<Longrightarrow> nonwhite r"
  by (cases r) (auto simp: found_whitespace)

lemma found_nil [simp]: "\<not> found [0] b"
  by (simp add: found_def)

lemma found_cons [simp]: "c \<noteq> 0 \<Longrightarrow> found (c # cs) b \<longleftrightarrow> b = c \<or> found cs b"
  by (auto simp: found_def split: sum.splits option.splits)

lemma wordchar_not: "wordchar b \<Longrightarrow> b \<notin> {60, 124, 62, 38, 59, 40, 41}"
  by (simp add: wordchar_def found_symbols)

lemma valid_word_hd: "valid_word w \<Longrightarrow> \<exists>b v. w = b # v \<and> wordchar b \<and> \<not> found whitespace b \<and> b \<notin> {60, 124, 62, 38, 59, 40, 41}"
  by (cases w) (auto simp: valid_word_def wordchar_not dest: wordchar_not, simp_all add: wordchar_def)

lemma rtext_simps: "rtext [] = []" "rtext ((f, m, d) # fs) = (if d = 0 then 60 else 62) # f @ 32 # rtext fs"
  by (simp_all add: rtext_def)

lemma wrap_simps: "wrap [] c = c" "wrap ((f, m, d) # fs) c = wrap fs (REDIR c f m d)"
  by (simp_all add: wrap_def)

lemma rtext_nonwhite: "nonwhite r \<Longrightarrow> nonwhite (rtext fs @ r)"
  by (cases fs) (auto simp: rtext_simps found_whitespace)

lemma parseredirs_gives:
  assumes "line buf es" and "valid_redirs fs" and "nonwhite r" and "\<not> (\<exists>c xs. r = c # xs \<and> c \<in> {60, 62})" and "ahead buf es s (rtext fs @ r)"
  shows "gives buf es (parseredirs buf es c s) r (wrap fs (map_cmd (word_text buf) c))"
  using assms(2,5)
proof (induction fs arbitrary: c s)
  case Nil
  have "peek buf es s [60, 62, 0] = Inr (s, False)"
    using peek_ahead [OF assms(1) _ assms(3), of s "[60, 62, 0]"] Nil assms(4) by (cases r) (auto simp: rtext_simps)
  then have "parseredirs buf es c s = Inr (c, s)" by (subst parseredirs.simps) simp
  then show ?case using Nil by (simp add: gives_def rtext_simps wrap_simps)
next
  case (Cons g fs)
  obtain f m d where g: "g = (f, m, d)" by (cases g) auto
  define t :: byte where "t = (if d = 0 then 60 else 62)"
  have v: "valid_word f" "m = O_RDONLY \<and> d = 0 \<or> m = (O_WRONLY OR O_CREATE) \<and> d = 1" "valid_redirs fs"
    using Cons.prems(1) by (simp_all add: valid_redirs_def g)
  obtain b w where f: "f = b # w" "\<not> found whitespace b" "b \<notin> {60, 124, 62, 38, 59, 40, 41}" using valid_word_hd [OF v(1)] by blast
  have a: "ahead buf es s (t # f @ 32 # rtext fs @ r)" using Cons.prems(2) by (simp add: g rtext_simps t_def)
  have t: "found symbols t" "\<not> found whitespace t" "t = 60 \<or> t = 62" by (simp_all add: t_def found_symbols found_whitespace)
  have p: "peek buf es s [60, 62, 0] = Inr (s, True)" using peek_ahead [OF assms(1) a, of "[60, 62, 0]"] t by auto
  obtain x where k: "gettoken buf es s = Inr (t, x, s + 1)" and a1: "ahead buf es (s + 1) (f @ 32 # rtext fs @ r)"
    using token_symbol [OF assms(1) a t(1)] f by auto
  note w = token_word [OF assms(1) a1 v(1) rtext_nonwhite [OF assms(3)]]
  let ?q = "(s + 1, s + 1 + length f)"
  have "parseredirs buf es c s = parseredirs buf es (REDIR c ?q m d) (s + 1 + length f + 1)"
    by (subst parseredirs.simps) (use p k w(1) v(2) in \<open>auto simp: t_def\<close>)
  moreover have "gives buf es (parseredirs buf es (REDIR c ?q m d) (s + 1 + length f + 1)) r (wrap fs (map_cmd (word_text buf) (REDIR c ?q m d)))"
    by (rule Cons.IH [OF v(3) w(2)])
  ultimately show ?case using w(3) by (simp add: g wrap_simps)
qed

lemma exec_loop_stop:
  assumes "line buf es" and "ahead buf es s r" and "stops [124, 41, 38, 59] r"
  shows "exec_loop buf es ret argc s = Inr (ret, s)"
proof -
  have n: "nonwhite r" by (rule stops_nonwhite [OF assms(3)]) simp
  note p = peek_ahead [OF assms(1,2) n, of "[124, 41, 38, 59, 0]"]
  show ?thesis
  proof (cases r)
    case Nil
    then have "ahead buf es s []" using assms(2) by simp
    then obtain w where "gettoken buf es s = Inr (0, w, s)" using token_end [OF assms(1)] by blast
    then show ?thesis using p Nil by (subst exec_loop.simps) simp
  next
    case (Cons c xs)
    then have "peek buf es s [124, 41, 38, 59, 0] = Inr (s, True)" using p assms(3) by auto
    then show ?thesis by (subst exec_loop.simps) simp
  qed
qed

lemma words_nonwhite: "\<forall>w \<in> set ws. valid_word w \<Longrightarrow> nonwhite r \<Longrightarrow> nonwhite (concat (map (\<lambda>w. w @ [32]) ws) @ r)"
  by (cases ws) (auto dest!: valid_word_hd)

lemma exec_loop_gives:
  assumes "line buf es" and "valid_redirs fs" and "stops [124, 41, 38, 59] r"
    and "ws \<noteq> []" and "\<forall>w \<in> set ws. valid_word w" and "argc + length ws < MAXARGS"
    and "ahead buf es s (concat (map (\<lambda>w. w @ [32]) ws) @ rtext fs @ r)"
  shows "gives buf es (exec_loop buf es (EXEC prev) argc s) r (wrap fs (EXEC (map (word_text buf) prev @ ws)))"
  using assms(4-7)
proof (induction ws arbitrary: prev argc s)
  case Nil
  then show ?case by simp
next
  case (Cons w ws)
  have nr: "nonwhite r" by (rule stops_nonwhite [OF assms(3)]) simp
  let ?t = "concat (map (\<lambda>w. w @ [32]) ws) @ rtext fs @ r"
  have nt: "nonwhite ?t" by (rule words_nonwhite) (use Cons.prems(2) rtext_nonwhite [OF nr] in simp_all)
  obtain b v where b: "w = b # v" "\<not> found whitespace b" "b \<notin> {60, 124, 62, 38, 59, 40, 41}" using valid_word_hd [of w] Cons.prems(2) by auto
  have a: "ahead buf es s (w @ 32 # ?t)" using Cons.prems(4) by simp
  have p: "peek buf es s [124, 41, 38, 59, 0] = Inr (s, False)" using peek_ahead [OF assms(1) a] b by simp
  note tk = token_word [OF assms(1) a _ nt]
  let ?q = "(s, s + length w)" let ?s = "s + length w + 1"
  have v: "valid_word w" using Cons.prems(2) by simp
  have e: "exec_loop buf es (EXEC prev) argc s =
      rbind (parseredirs buf es (EXEC (prev @ [?q])) ?s) (\<lambda>(ret1, s3). exec_loop buf es ret1 (argc + 1) s3)"
    by (subst exec_loop.simps) (use p tk(1) [OF v] Cons.prems(3) in simp)
  show ?case
  proof (cases "ws = []")
    case True
    have nr': "\<not> (\<exists>c xs. r = c # xs \<and> c \<in> {60, 62})" using assms(3) by auto
    obtain c s3 where c: "parseredirs buf es (EXEC (prev @ [?q])) ?s = Inr (c, s3)" "ahead buf es s3 r"
      "map_cmd (word_text buf) c = wrap fs (map_cmd (word_text buf) (EXEC (prev @ [?q])))"
      using parseredirs_gives [OF assms(1,2) nr nr', of ?s "EXEC (prev @ [?q])"] tk(2) [OF v] True by (auto simp: gives_def)
    then show ?thesis using exec_loop_stop [OF assms(1) c(2) assms(3)] tk(3) [OF v] True by (simp add: e gives_def)
  next
    case False
    then obtain w2 ws2 where ws: "ws = w2 # ws2" by (cases ws) auto
    obtain b' v2 where "w2 = b' # v2" "b' \<notin> {60, 62}" using valid_word_hd [of w2] Cons.prems(2) by (auto simp: ws)
    then obtain v' where b': "?t = b' # v'" "b' \<notin> {60, 62}" by (simp add: ws)
    have "gives buf es (parseredirs buf es (EXEC (prev @ [?q])) ?s) ?t (wrap [] (map_cmd (word_text buf) (EXEC (prev @ [?q]))))"
      by (rule parseredirs_gives [OF assms(1) _ nt]) (use b' tk(2) [OF v] in \<open>auto simp: valid_redirs_def rtext_simps\<close>)
    moreover have "peek buf es ?s [60, 62, 0] = Inr (?s, False)" using peek_ahead [OF assms(1) tk(2) [OF v] nt] b' by simp
    then have "parseredirs buf es (EXEC (prev @ [?q])) ?s = Inr (EXEC (prev @ [?q]), ?s)" by (subst parseredirs.simps) simp
    moreover have "gives buf es (exec_loop buf es (EXEC (prev @ [?q])) (argc + 1) ?s) r (wrap fs (EXEC (map (word_text buf) (prev @ [?q]) @ ws)))"
      by (rule Cons.IH) (use False Cons.prems tk(2) [OF v] in simp_all)
    ultimately show ?thesis using tk(3) [OF v] by (simp add: e)
  qed
qed

lemma back_loop_gives:
  assumes "line buf es" and "stops [41, 59] r" and "ahead buf es s (replicate k 38 @ r)"
  shows "gives buf es (back_loop buf es c s) r ((BACK ^^ k) (map_cmd (word_text buf) c))"
  using assms(3)
proof (induction k arbitrary: c s)
  case 0
  have "nonwhite r" by (rule stops_nonwhite [OF assms(2)]) simp
  then have "peek buf es s [38, 0] = Inr (s, False)" using peek_ahead [OF assms(1), of s r "[38, 0]"] 0 assms(2) by (cases r) auto
  then have "back_loop buf es c s = Inr (c, s)" by (subst back_loop.simps) simp
  then show ?case using 0 by (simp add: gives_def)
next
  case (Suc k)
  have n: "nonwhite (replicate k 38 @ r)" using stops_nonwhite [OF assms(2)] by (cases k) (auto simp: found_whitespace)
  have a: "ahead buf es s (38 # replicate k 38 @ r)" using Suc.prems by simp
  have s38: "found symbols 38" "\<not> found whitespace 38" by (simp_all add: found_symbols found_whitespace)
  have p: "peek buf es s [38, 0] = Inr (s, True)" using peek_ahead [OF assms(1) a] s38 by simp
  obtain w where t: "gettoken buf es s = Inr (38, w, s + 1)" "ahead buf es (s + 1) (replicate k 38 @ r)"
    using token_symbol [OF assms(1) a s38(1) n] by auto
  have "back_loop buf es c s = back_loop buf es (BACK c) (s + 1)" by (subst back_loop.simps) (simp add: p t)
  then show ?case using Suc.IH [OF t(2), of "BACK c"] by (simp add: funpow_swap1)
qed

subsection \<open>The four levels\<close>

definition reads_elem :: "byte list \<Rightarrow> nat \<Rightarrow> byte list cmd \<Rightarrow> bool" where
  "reads_elem buf es a \<longleftrightarrow> (\<forall>n s fs r. 4 * (es - s) + 2 \<le> n \<longrightarrow> valid_redirs fs \<longrightarrow> stops [124, 41, 38, 59] r \<longrightarrow>
     ahead buf es s (unparse 3 a @ rtext fs @ r) \<longrightarrow> gives buf es (parseexec n buf es s) r (wrap fs a))"

definition reads_pipe :: "byte list \<Rightarrow> nat \<Rightarrow> byte list cmd \<Rightarrow> bool" where
  "reads_pipe buf es a \<longleftrightarrow> (\<forall>n s r. 4 * (es - s) + 3 \<le> n \<longrightarrow> stops [41, 38, 59] r \<longrightarrow>
     ahead buf es s (unparse 2 a @ r) \<longrightarrow> gives buf es (parsepipe n buf es s) r a)"

definition reads_back :: "byte list \<Rightarrow> nat \<Rightarrow> byte list cmd \<Rightarrow> bool" where
  "reads_back buf es a \<longleftrightarrow> (\<forall>n s k r. 4 * (es - s) + 3 \<le> n \<longrightarrow> stops [41, 59] r \<longrightarrow> ahead buf es s (unparse 1 a @ replicate k 38 @ r) \<longrightarrow>
     gives buf es (rbind (parsepipe n buf es s) (\<lambda>(c, s1). back_loop buf es c s1)) r ((BACK ^^ k) a))"

definition reads_line :: "byte list \<Rightarrow> nat \<Rightarrow> byte list cmd \<Rightarrow> bool" where
  "reads_line buf es a \<longleftrightarrow> (\<forall>n s r. 4 * (es - s) + 4 \<le> n \<longrightarrow> stops [41] r \<longrightarrow>
     ahead buf es s (unparse 0 a @ r) \<longrightarrow> gives buf es (parseline n buf es s) r a)"

lemma unparse_nonwhite: "valid_cmd a \<Longrightarrow> nonwhite r \<Longrightarrow> nonwhite (unparse n a @ r)"
proof (induction a arbitrary: n r)
  case (EXEC ws)
  then show ?case by (simp add: words_nonwhite valid_cmd_def)
next
  case (REDIR c f m d)
  then show ?case using REDIR.IH [of "[if d = 0 then 60 else 62] @ f @ [32] @ r" 3] by (auto simp: valid_cmd_def found_whitespace)
next
  case (PIPE l r')
  then show ?case using PIPE.IH(1) [of "[124] @ unparse 2 r' @ r" 3] by (auto simp: paren_def valid_cmd_def found_whitespace)
next
  case (LIST l r')
  then show ?case using LIST.IH(1) [of "[59] @ unparse 0 r' @ r" 1] by (auto simp: paren_def valid_cmd_def found_whitespace)
next
  case (BACK c)
  then show ?case using BACK.IH [of "[38] @ r" 1] by (auto simp: paren_def valid_cmd_def found_whitespace)
qed

lemma pipe_from_elem:
  assumes ln: "line buf es" and a: "reads_elem buf es a" and eq: "unparse 2 a = unparse 3 a"
  shows "reads_pipe buf es a"
  unfolding reads_pipe_def
proof (intro allI impI)
  fix n s r
  assume n: "4 * (es - s) + 3 \<le> n" and r: "stops [41, 38, 59] r" and at: "ahead buf es s (unparse 2 a @ r)"
  obtain n' where n': "n = Suc n'" "4 * (es - s) + 2 \<le> n'" using n by (cases n) auto
  have r': "stops [124, 41, 38, 59] r" using r by (rule stops_mono) auto
  have "gives buf es (parseexec n' buf es s) r (wrap [] a)"
    using a [unfolded reads_elem_def, rule_format, OF n'(2) _ r', of "[]"] at eq by (simp add: valid_redirs_def rtext_simps)
  then obtain c s1 where c: "parseexec n' buf es s = Inr (c, s1)" "ahead buf es s1 r" "map_cmd (word_text buf) c = a"
    by (auto simp: gives_def wrap_simps)
  have "nonwhite r" by (rule stops_nonwhite [OF r]) auto
  then have "peek buf es s1 [124, 0] = Inr (s1, False)" using peek_ahead [OF ln c(2), of "[124, 0]"] r by (cases r) auto
  then show "gives buf es (parsepipe n buf es s) r a" using c by (simp add: n' gives_def)
qed

lemma back_from_pipe:
  assumes ln: "line buf es" and a: "reads_pipe buf es a" and eq: "unparse 1 a = unparse 2 a"
  shows "reads_back buf es a"
  unfolding reads_back_def
proof (intro allI impI)
  fix n s k r
  assume n: "4 * (es - s) + 3 \<le> n" and r: "stops [41, 59] r" and at: "ahead buf es s (unparse 1 a @ replicate k 38 @ r)"
  have "stops [41, 38, 59] (replicate k 38 @ r)" using r by (cases k) (auto elim: stops_mono)
  then have "gives buf es (parsepipe n buf es s) (replicate k 38 @ r) a"
    using a [unfolded reads_pipe_def, rule_format, OF n] at eq by simp
  then obtain c s1 where c: "parsepipe n buf es s = Inr (c, s1)" "ahead buf es s1 (replicate k 38 @ r)" "map_cmd (word_text buf) c = a"
    by (auto simp: gives_def)
  show "gives buf es (rbind (parsepipe n buf es s) (\<lambda>(c, s1). back_loop buf es c s1)) r ((BACK ^^ k) a)"
    using back_loop_gives [OF ln r c(2), of c] c by simp
qed

text \<open>\<open>parseline\<close>, with its first two steps as \<open>reads_back\<close> has them.\<close>

lemma parseline_eq:
  "parseline (Suc n) buf es s = rbind (rbind (parsepipe n buf es s) (\<lambda>(c, s1). back_loop buf es c s1)) (\<lambda>(c1, s2).
     rbind (peek buf es s2 [59, 0]) (\<lambda>(s3, b).
     if b then rbind (gettoken buf es s3) (\<lambda>(tok, q, s4). rbind (parseline n buf es s4) (\<lambda>(c2, s5). Inr (LIST c1 c2, s5)))
     else Inr (c1, s3)))"
  by (simp add: rbind_assoc case_prod_unfold)

lemma line_from_back:
  assumes ln: "line buf es" and a: "reads_back buf es a" and eq: "unparse 0 a = unparse 1 a"
  shows "reads_line buf es a"
  unfolding reads_line_def
proof (intro allI impI)
  fix n s r
  assume n: "4 * (es - s) + 4 \<le> n" and r: "stops [41] r" and at: "ahead buf es s (unparse 0 a @ r)"
  obtain n' where n': "n = Suc n'" "4 * (es - s) + 3 \<le> n'" using n by (cases n) auto
  have r': "stops [41, 59] r" using r by (rule stops_mono) auto
  have "gives buf es (rbind (parsepipe n' buf es s) (\<lambda>(c, s1). back_loop buf es c s1)) r ((BACK ^^ 0) a)"
    using a [unfolded reads_back_def, rule_format, OF n'(2) r', of 0] at eq by simp
  then obtain c s1 where c: "rbind (parsepipe n' buf es s) (\<lambda>(c, s1). back_loop buf es c s1) = Inr (c, s1)" "ahead buf es s1 r"
    "map_cmd (word_text buf) c = a" by (auto simp: gives_def)
  have "nonwhite r" by (rule stops_nonwhite [OF r]) auto
  then have "peek buf es s1 [59, 0] = Inr (s1, False)" using peek_ahead [OF ln c(2), of "[59, 0]"] r by (cases r) auto
  then show "gives buf es (parseline n buf es s) r a" using c unfolding n' parseline_eq by (simp add: gives_def)
qed

lemma elem_from_line:
  assumes ln: "line buf es" and v: "valid_cmd a" and a: "reads_line buf es a" and eq: "unparse 3 a = 40 # unparse 0 a @ [41]"
  shows "reads_elem buf es a"
  unfolding reads_elem_def
proof (intro allI impI)
  fix n s fs r
  assume n: "4 * (es - s) + 2 \<le> n" and fs: "valid_redirs fs" and r: "stops [124, 41, 38, 59] r"
    and at: "ahead buf es s (unparse 3 a @ rtext fs @ r)"
  have l: "es < length buf" using ln by (simp add: line_def)
  have syms: "found symbols 40" "found symbols 41" "\<not> found whitespace 40" "\<not> found whitespace 41" by (simp_all add: found_symbols found_whitespace)
  have nr: "nonwhite r" by (rule stops_nonwhite [OF r]) auto
  let ?u = "rtext fs @ r"
  have at1: "ahead buf es s (40 # unparse 0 a @ 41 # ?u)" using at eq by simp
  have lt: "s < es" using ahead_len [OF at1 l] by simp
  obtain m where m: "n = Suc (Suc m)" "4 * (es - (s + 1)) + 4 \<le> m" using n lt by (cases n; cases "n - 1") auto
  have nu: "nonwhite (unparse 0 a @ 41 # ?u)" by (rule unparse_nonwhite [OF v]) (simp add: syms)
  have p1: "peek buf es s [40, 0] = Inr (s, True)" using peek_ahead [OF ln at1] syms by simp
  obtain w where t1: "gettoken buf es s = Inr (40, w, s + 1)" "ahead buf es (s + 1) (unparse 0 a @ 41 # ?u)"
    using token_symbol [OF ln at1 syms(1) nu] by auto
  obtain c s3 where c: "parseline m buf es (s + 1) = Inr (c, s3)" "ahead buf es s3 (41 # ?u)" "map_cmd (word_text buf) c = a"
    using a [unfolded reads_line_def, rule_format, OF m(2) _ t1(2)] by (auto simp: gives_def)
  have p2: "peek buf es s3 [41, 0] = Inr (s3, True)" using peek_ahead [OF ln c(2)] syms by simp
  obtain w' where t2: "gettoken buf es s3 = Inr (41, w', s3 + 1)" "ahead buf es (s3 + 1) ?u"
    using token_symbol [OF ln c(2) syms(2) rtext_nonwhite [OF nr]] by auto
  have nr': "\<not> (\<exists>c xs. r = c # xs \<and> c \<in> {60, 62})" using r by auto
  have "gives buf es (parseredirs buf es c (s3 + 1)) r (wrap fs (map_cmd (word_text buf) c))"
    by (rule parseredirs_gives [OF ln fs nr nr' t2(2)])
  then show "gives buf es (parseexec n buf es s) r (wrap fs a)" using p1 t1 c p2 t2 by (simp add: m(1))
qed

subsection \<open>Each command at its own level\<close>

lemma exec_reads:
  assumes ln: "line buf es" and v: "valid_cmd (EXEC ws)"
  shows "reads_elem buf es (EXEC ws)"
  unfolding reads_elem_def
proof (intro allI impI)
  fix n s fs r
  assume n: "4 * (es - s) + 2 \<le> n" and fs: "valid_redirs fs" and r: "stops [124, 41, 38, 59] r"
    and at: "ahead buf es s (unparse 3 (EXEC ws) @ rtext fs @ r)"
  obtain m where m: "n = Suc m" using n by (cases n) auto
  have nr: "nonwhite r" by (rule stops_nonwhite [OF r]) auto
  have nr': "\<not> (\<exists>c xs. r = c # xs \<and> c \<in> {60, 62})" using r by auto
  have ws: "\<forall>w \<in> set ws. valid_word w" "length ws < MAXARGS" using v by (simp_all add: valid_cmd_def)
  let ?t = "concat (map (\<lambda>w. w @ [32]) ws) @ rtext fs @ r"
  have nt: "nonwhite ?t" by (rule words_nonwhite [OF ws(1) rtext_nonwhite [OF nr]])
  have at': "ahead buf es s ?t" using at by simp
  have "\<not> (\<exists>xs. ?t = 40 # xs)"
  proof (cases ws)
    case Nil
    then show ?thesis using r by (cases fs; cases r) (auto simp: rtext_simps split: if_splits)
  next
    case (Cons w ws')
    then show ?thesis using valid_word_hd [of w] ws(1) by auto
  qed
  then have p: "peek buf es s [40, 0] = Inr (s, False)" using peek_ahead [OF ln at' nt, of "[40, 0]"] by (cases ?t) auto
  have ex: "parseexec n buf es s = rbind (parseredirs buf es (EXEC []) s) (\<lambda>(ret, s2). exec_loop buf es ret 0 s2)"
    using p by (simp add: m)
  show "gives buf es (parseexec n buf es s) r (wrap fs (EXEC ws))"
  proof (cases "ws = []")
    case True
    then have "gives buf es (parseredirs buf es (EXEC []) s) r (wrap fs (map_cmd (word_text buf) (EXEC [])))"
      using at' by (intro parseredirs_gives [OF ln fs nr nr']) simp
    then obtain c s2 where "parseredirs buf es (EXEC []) s = Inr (c, s2)" "ahead buf es s2 r" "map_cmd (word_text buf) c = wrap fs (EXEC [])"
      by (auto simp: gives_def)
    then show ?thesis using exec_loop_stop [OF ln _ r, of s2 c 0] True by (simp add: ex gives_def)
  next
    case False
    then obtain w ws' where w: "ws = w # ws'" by (cases ws) auto
    obtain b v' where b: "w = b # v'" "b \<notin> {60, 62}" using valid_word_hd [of w] ws(1) w by auto
    have "peek buf es s [60, 62, 0] = Inr (s, False)" using peek_ahead [OF ln at' nt] b w by simp
    then have "parseredirs buf es (EXEC []) s = Inr (EXEC [], s)" by (subst parseredirs.simps) simp
    then show ?thesis using exec_loop_gives [OF ln fs r False ws(1), of 0 s "[]"] ws(2) at' by (simp add: ex)
  qed
qed

lemma redir_reads:
  assumes v: "valid_cmd (REDIR c f m d)" and c: "reads_elem buf es c"
  shows "reads_elem buf es (REDIR c f m d)"
  unfolding reads_elem_def
proof (intro allI impI)
  fix n s fs r
  assume h: "4 * (es - s) + 2 \<le> n" "valid_redirs fs" "stops [124, 41, 38, 59] r" "ahead buf es s (unparse 3 (REDIR c f m d) @ rtext fs @ r)"
  have "valid_redirs ((f, m, d) # fs)" using v h(2) by (simp add: valid_redirs_def valid_cmd_def)
  from c [unfolded reads_elem_def, rule_format, OF h(1) this h(3)]
  show "gives buf es (parseexec n buf es s) r (wrap fs (REDIR c f m d))" using h(4) by (simp add: rtext_simps wrap_simps)
qed

lemma pipe_reads:
  assumes ln: "line buf es" and v: "valid_cmd (PIPE a b)" and a: "reads_elem buf es a" and b: "reads_pipe buf es b"
  shows "reads_pipe buf es (PIPE a b)"
  unfolding reads_pipe_def
proof (intro allI impI)
  fix n s r
  assume n: "4 * (es - s) + 3 \<le> n" and r: "stops [41, 38, 59] r" and at: "ahead buf es s (unparse 2 (PIPE a b) @ r)"
  have l: "es < length buf" using ln by (simp add: line_def)
  have at1: "ahead buf es s (unparse 3 a @ rtext [] @ 124 # unparse 2 b @ r)" using at by (simp add: paren_def rtext_simps)
  obtain n' where n': "n = Suc n'" "4 * (es - s) + 2 \<le> n'" using n by (cases n) auto
  have s124: "found symbols 124" "\<not> found whitespace 124" by (simp_all add: found_symbols found_whitespace)
  obtain c s1 where c: "parseexec n' buf es s = Inr (c, s1)" "ahead buf es s1 (124 # unparse 2 b @ r)" "map_cmd (word_text buf) c = a"
    using a [unfolded reads_elem_def, rule_format, OF n'(2) _ _ at1] by (auto simp: gives_def wrap_simps valid_redirs_def)
  have nb: "nonwhite (unparse 2 b @ r)" by (rule unparse_nonwhite) (use v stops_nonwhite [OF r] in \<open>auto simp: valid_cmd_def\<close>)
  have p: "peek buf es s1 [124, 0] = Inr (s1, True)" using peek_ahead [OF ln c(2)] s124 by simp
  obtain w where t: "gettoken buf es s1 = Inr (124, w, s1 + 1)" "ahead buf es (s1 + 1) (unparse 2 b @ r)"
    using token_symbol [OF ln c(2) s124(1) nb] by auto
  have "s + length (unparse 3 a @ rtext [] @ 124 # unparse 2 b @ r) = s1 + length (124 # unparse 2 b @ r)"
    using ahead_len [OF at1 l] ahead_len [OF c(2) l] by simp
  then have "4 * (es - (s1 + 1)) + 3 \<le> n'" using n' ahead_len [OF c(2) l] by simp
  from b [unfolded reads_pipe_def, rule_format, OF this r t(2)]
  obtain c2 s4 where "parsepipe n' buf es (s1 + 1) = Inr (c2, s4)" "ahead buf es s4 r" "map_cmd (word_text buf) c2 = b" by (auto simp: gives_def)
  then show "gives buf es (parsepipe n buf es s) r (PIPE a b)" using c p t by (simp add: n'(1) gives_def)
qed

lemma list_reads:
  assumes ln: "line buf es" and v: "valid_cmd (LIST a b)" and a: "reads_back buf es a" and b: "reads_line buf es b"
  shows "reads_line buf es (LIST a b)"
  unfolding reads_line_def
proof (intro allI impI)
  fix n s r
  assume n: "4 * (es - s) + 4 \<le> n" and r: "stops [41] r" and at: "ahead buf es s (unparse 0 (LIST a b) @ r)"
  have l: "es < length buf" using ln by (simp add: line_def)
  have at1: "ahead buf es s (unparse 1 a @ replicate 0 38 @ 59 # unparse 0 b @ r)" using at by (simp add: paren_def)
  obtain n' where n': "n = Suc n'" "4 * (es - s) + 3 \<le> n'" using n by (cases n) auto
  have s59: "found symbols 59" "\<not> found whitespace 59" by (simp_all add: found_symbols found_whitespace)
  obtain c s1 where c: "rbind (parsepipe n' buf es s) (\<lambda>(c, s1). back_loop buf es c s1) = Inr (c, s1)"
    "ahead buf es s1 (59 # unparse 0 b @ r)" "map_cmd (word_text buf) c = a"
    using a [unfolded reads_back_def, rule_format, OF n'(2) _ at1] by (auto simp: gives_def)
  have nb: "nonwhite (unparse 0 b @ r)" by (rule unparse_nonwhite) (use v stops_nonwhite [OF r] in \<open>auto simp: valid_cmd_def\<close>)
  have p: "peek buf es s1 [59, 0] = Inr (s1, True)" using peek_ahead [OF ln c(2)] s59 by simp
  obtain w where t: "gettoken buf es s1 = Inr (59, w, s1 + 1)" "ahead buf es (s1 + 1) (unparse 0 b @ r)"
    using token_symbol [OF ln c(2) s59(1) nb] by auto
  have "s + length (unparse 1 a @ replicate 0 38 @ 59 # unparse 0 b @ r) = s1 + length (59 # unparse 0 b @ r)"
    using ahead_len [OF at1 l] ahead_len [OF c(2) l] by simp
  then have "4 * (es - (s1 + 1)) + 4 \<le> n'" using n' ahead_len [OF c(2) l] by simp
  from b [unfolded reads_line_def, rule_format, OF this r t(2)]
  obtain c2 s4 where "parseline n' buf es (s1 + 1) = Inr (c2, s4)" "ahead buf es s4 r" "map_cmd (word_text buf) c2 = b" by (auto simp: gives_def)
  then show "gives buf es (parseline n buf es s) r (LIST a b)" using c p t unfolding n'(1) parseline_eq by (simp add: gives_def)
qed

lemma back_reads:
  assumes "reads_back buf es a"
  shows "reads_back buf es (BACK a)"
  unfolding reads_back_def
proof (intro allI impI)
  fix n s k r
  assume h: "4 * (es - s) + 3 \<le> n" "stops [41, 59] r" "ahead buf es s (unparse 1 (BACK a) @ replicate k 38 @ r)"
  have "ahead buf es s (unparse 1 a @ replicate (Suc k) 38 @ r)" using h(3) by (simp add: paren_def)
  from assms [unfolded reads_back_def, rule_format, OF h(1,2) this]
  show "gives buf es (rbind (parsepipe n buf es s) (\<lambda>(c, s1). back_loop buf es c s1)) r ((BACK ^^ k) (BACK a))"
    by (simp add: funpow_swap1)
qed

lemma all_reads:
  assumes ln: "line buf es"
  shows "valid_cmd a \<Longrightarrow> reads_elem buf es a \<and> reads_pipe buf es a \<and> reads_back buf es a \<and> reads_line buf es a"
proof (induction a)
  case (EXEC ws)
  have e: "reads_elem buf es (EXEC ws)" by (rule exec_reads [OF ln EXEC])
  have p: "reads_pipe buf es (EXEC ws)" by (rule pipe_from_elem [OF ln e]) simp
  have b: "reads_back buf es (EXEC ws)" by (rule back_from_pipe [OF ln p]) simp
  show ?case using e p b line_from_back [OF ln b] by simp
next
  case (REDIR c f m d)
  have "valid_cmd c" using REDIR.prems by (simp add: valid_cmd_def)
  then have e: "reads_elem buf es (REDIR c f m d)" using REDIR by (intro redir_reads) simp_all
  have p: "reads_pipe buf es (REDIR c f m d)" by (rule pipe_from_elem [OF ln e]) simp
  have b: "reads_back buf es (REDIR c f m d)" by (rule back_from_pipe [OF ln p]) simp
  show ?case using e p b line_from_back [OF ln b] by simp
next
  case (PIPE x y)
  have "valid_cmd x" "valid_cmd y" using PIPE.prems by (simp_all add: valid_cmd_def)
  then have p: "reads_pipe buf es (PIPE x y)" using PIPE by (intro pipe_reads [OF ln]) simp_all
  have b: "reads_back buf es (PIPE x y)" by (rule back_from_pipe [OF ln p]) (simp add: paren_def)
  have l: "reads_line buf es (PIPE x y)" by (rule line_from_back [OF ln b]) (simp add: paren_def)
  show ?case using p b l elem_from_line [OF ln PIPE.prems l] by (simp add: paren_def)
next
  case (LIST x y)
  have "valid_cmd x" "valid_cmd y" using LIST.prems by (simp_all add: valid_cmd_def)
  then have l: "reads_line buf es (LIST x y)" using LIST by (intro list_reads [OF ln]) simp_all
  have e: "reads_elem buf es (LIST x y)" by (rule elem_from_line [OF ln LIST.prems l]) (simp add: paren_def)
  have p: "reads_pipe buf es (LIST x y)" by (rule pipe_from_elem [OF ln e]) (simp add: paren_def)
  show ?case using e p l back_from_pipe [OF ln p] by (simp add: paren_def)
next
  case (BACK c)
  have "valid_cmd c" using BACK.prems by (simp add: valid_cmd_def)
  then have b: "reads_back buf es (BACK c)" using BACK by (intro back_reads) simp
  have l: "reads_line buf es (BACK c)" by (rule line_from_back [OF ln b]) (simp add: paren_def)
  have e: "reads_elem buf es (BACK c)" by (rule elem_from_line [OF ln BACK.prems l]) (simp add: paren_def)
  show ?case using b l e pipe_from_elem [OF ln e] by (simp add: paren_def)
qed

subsection \<open>The round trip\<close>

lemma unparse_no_nul: "valid_cmd a \<Longrightarrow> 0 \<notin> set (unparse n a)"
  by (induction a arbitrary: n) (auto simp: valid_cmd_def valid_word_def wordchar_def paren_def)

lemma roundtrip_spec:
  assumes "valid_cmd a"
  shows "\<exists>c buf'. parsecmd (unparse 0 a @ 0 # junk) = Inr (c, buf') \<and> map_cmd (\<lambda>w. string_at buf' (fst w)) c = a"
proof -
  let ?txt = "unparse 0 a" let ?buf = "unparse 0 a @ 0 # junk" let ?n = "length (unparse 0 a)"
  have str: "is_str ?buf ?txt" using unparse_no_nul [OF assms] by (auto simp: is_str_def)
  have ln: "line ?buf ?n" by (rule parsecmd_good(2) [OF str])
  have at: "ahead ?buf ?n 0 (?txt @ [])" by (simp add: ahead_def rest_def)
  have "reads_line ?buf ?n a" using all_reads [OF ln assms] by blast
  from this [unfolded reads_line_def, rule_format, OF _ _ at]
  obtain c s where c: "parseline (4 * ?n + 4) ?buf ?n 0 = Inr (c, s)" "ahead ?buf ?n s []" "map_cmd (word_text ?buf) c = a"
    by (fastforce simp: gives_def)
  have "safe (parseline (4 * ?n + 4) ?buf ?n 0) (good_res ?buf ?n 0)" using parse_safe [OF ln, of 0 "4 * ?n + 4"] by simp
  then have g: "good_cmd ?buf ?n c" using c(1) by simp
  have sn: "s = ?n" using ahead_len [OF c(2)] by simp
  have p: "peek ?buf ?n s [0] = Inr (s, False)" using peek_ahead [OF ln c(2)] by simp
  have "\<forall>w \<in> set_cmd c. snd w < length ?buf" using g by (auto simp: good_cmd_def word_ok_def)
  from nulterminate_cut [OF this] obtain buf' where b: "nulterminate c ?buf = Inr buf'" "cut (snd ` set_cmd c) ?buf buf'" by blast
  have "parsecmd ?buf = Inr (c, buf')" using c(1) p b(1) sn strlen_spec [OF str] by (simp add: parsecmd_def)
  moreover have "string_at buf' (fst w) = word_text ?buf w" if "w \<in> set_cmd c" for w
    using string_after_cut(1) [OF b(2), of ?n w] g that by (auto simp: good_cmd_def word_ok_def)
  then have "map_cmd (\<lambda>w. string_at buf' (fst w)) c = map_cmd (word_text ?buf) c" by (intro cmd.map_cong) simp_all
  ultimately show ?thesis using c(3) by auto
qed

text \<open>
  C35 (shell_roundtrip): every command, written as a line with the parentheses it needs, is read back as itself: same tree, same modes
  and descriptors of its redirections, and every word a C string with the text of the word.
\<close>

theorem shell_roundtrip:
  assumes "valid_cmd a"
  shows "\<exists>c buf'. parsecmd (unparse 0 a @ 0 # junk) = Inr (c, buf') \<and> map_cmd (\<lambda>w. string_at buf' (fst w)) c = a"
  by (rule roundtrip_spec [OF assms])

text \<open>The line \<open>(a b|c<d );e&\<close> of a list in the background of a list.\<close>

definition demo_cmd :: "byte list cmd" where
  "demo_cmd = LIST (BACK (LIST (PIPE (EXEC [[97], [98]]) (REDIR (EXEC [[99]]) [100] O_RDONLY 0)) (EXEC [[102]]))) (BACK (EXEC [[101]]))"

lemma demo_valid: "valid_cmd demo_cmd"
  by (simp add: demo_cmd_def valid_cmd_def valid_word_def wordchar_def found_whitespace found_symbols MAXARGS_def)

lemma shell_roundtrip_witness:
  "\<exists>c buf'. parsecmd (unparse 0 demo_cmd @ 0 # []) = Inr (c, buf') \<and> map_cmd (\<lambda>w. string_at buf' (fst w)) c = demo_cmd"
  by (rule shell_roundtrip [OF demo_valid])

lemma shell_total_witness:
  "(\<exists>c buf'. parsecmd [97, 124, 0] = Inr (c, buf')) \<or> (\<exists>msg. parsecmd [97, 124, 0] = Inl (Panic msg))"
proof -
  have "is_str [97, 124, 0] [97, 124]" by (simp add: is_str_def)
  then show ?thesis by (rule shell_total)
qed

lemma shell_words_witness:
  "\<exists>w buf'. parsecmd [97, 98, 32, 0] = Inr (EXEC [w], buf') \<and> fst w < snd w \<and> string_at buf' (fst w) = word_text [97, 98, 32] w \<and>
     buf' ! snd w = 0"
proof -
  have v: "valid_cmd (EXEC [[97, 98]])" by (simp add: valid_cmd_def valid_word_def wordchar_def found_whitespace found_symbols MAXARGS_def)
  obtain c buf' where c: "parsecmd [97, 98, 32, 0] = Inr (c, buf')" "map_cmd (\<lambda>w. string_at buf' (fst w)) c = EXEC [[97, 98]]"
    using roundtrip_spec [OF v, of "[]"] by auto
  from c(2) obtain w where w: "c = EXEC [w]" by (cases c) auto
  have str: "is_str [97, 98, 32, 0] [97, 98, 32]" by (simp add: is_str_def)
  show ?thesis using shell_words [OF str c(1)] c(1) by (auto simp: w)
qed

end
