(* ===== verification/Syscall.thy ===== *)
theory Syscall
  imports Process
begin

text \<open>
  Arguments of system calls (syscall.c) and the calls that only pass them on (sysproc.c). A system call finds its
  arguments on the user stack and reads user memory directly, so every address is checked against the size of the process;
  \<open>u_mem\<close> is the memory that the process sees. Failure is \<open>None\<close>.
\<close>

unbundle bit_operations_syntax

record uctx =
  u_sz :: addr
  u_esp :: addr
  u_mem :: "addr \<Rightarrow> byte"

definition mem32 :: "(addr \<Rightarrow> byte) \<Rightarrow> addr \<Rightarrow> addr" where
  "mem32 m a = ucast (m a) OR push_bit 8 (ucast (m (a + 1))) OR push_bit 16 (ucast (m (a + 2))) OR push_bit 24 (ucast (m (a + 3)))"

definition put_mem32 :: "(addr \<Rightarrow> byte) \<Rightarrow> addr \<Rightarrow> addr \<Rightarrow> (addr \<Rightarrow> byte)" where
  "put_mem32 m a w = m(a := ucast w, a + 1 := ucast (drop_bit 8 w), a + 2 := ucast (drop_bit 16 w), a + 3 := ucast (drop_bit 24 w))"

definition fetchint :: "uctx \<Rightarrow> addr \<Rightarrow> addr option" where
  "fetchint u a = (if a \<ge> u_sz u \<or> a + 4 > u_sz u then None else Some (mem32 (u_mem u) a))"

lemma unat_bound: "unat (a :: addr) < 2 ^ 32"
  using unsigned_less [of a] by simp

text \<open>The loop of \<open>fetchstr\<close> from \<open>s\<close>, with the length so far.\<close>

function fetchstr_loop :: "uctx \<Rightarrow> addr \<Rightarrow> nat \<Rightarrow> nat option" where
  "fetchstr_loop u s n = (if s < u_sz u then if u_mem u s = 0 then Some n else fetchstr_loop u (s + 1) (n + 1) else None)"
  by pat_completeness auto
termination
proof (relation "measure (\<lambda>(u, s, n). unat (u_sz u) - unat s)", simp, clarsimp)
  fix u :: uctx and s :: addr
  assume s: "s < u_sz u"
  then have "unat s < unat (u_sz u)" by (simp add: word_less_nat_alt)
  moreover have "unat (s + 1) = unat s + 1"
    using calculation unat_bound [of "u_sz u"] by (simp add: unat_word_ariths)
  ultimately show "unat (u_sz u) - unat (s + 1) < unat (u_sz u) - unat s" by simp
qed

declare fetchstr_loop.simps [simp del]

definition fetchstr :: "uctx \<Rightarrow> addr \<Rightarrow> nat option" where
  "fetchstr u a = (if a \<ge> u_sz u then None else fetchstr_loop u a 0)"

definition argint :: "uctx \<Rightarrow> nat \<Rightarrow> int option" where
  "argint u n = map_option sint (fetchint u (u_esp u + 4 + 4 * of_nat n))"

definition argptr :: "uctx \<Rightarrow> nat \<Rightarrow> int \<Rightarrow> addr option" where
  "argptr u n len =
     (case fetchint u (u_esp u + 4 + 4 * of_nat n) of
        None \<Rightarrow> None
      | Some i \<Rightarrow> if len < 0 \<or> i \<ge> u_sz u \<or> i + word_of_int len > u_sz u then None else Some i)"

text \<open>The string argument as the bytes from its address up to and including the NUL.\<close>

definition user_bytes :: "uctx \<Rightarrow> addr \<Rightarrow> nat \<Rightarrow> byte list" where
  "user_bytes u a n = map (\<lambda>i. u_mem u (a + of_nat i)) [0..<n]"

definition argstr :: "uctx \<Rightarrow> nat \<Rightarrow> byte list option" where
  "argstr u n =
     (case fetchint u (u_esp u + 4 + 4 * of_nat n) of
        None \<Rightarrow> None
      | Some a \<Rightarrow> map_option (\<lambda>len. user_bytes u a (len + 1)) (fetchstr u a))"

text \<open>Bytes copied to user memory.\<close>

definition put_bytes :: "uctx \<Rightarrow> addr \<Rightarrow> byte list \<Rightarrow> uctx" where
  "put_bytes u a bs = u\<lparr>u_mem := fold (\<lambda>i m. m(a + of_nat i := bs ! i)) [0..<length bs] (u_mem u)\<rparr>"

text \<open>The dispatcher: \<open>tbl\<close> is the table of handlers, whose results are put in \<open>eax\<close>; an unknown number gives -1.\<close>

definition syscall :: "('s \<Rightarrow> ('s \<times> int) res) option list \<Rightarrow> int \<Rightarrow> 's \<Rightarrow> ('s \<times> int) res" where
  "syscall tbl num s =
     (if num > 0 \<and> num < int (length tbl) then
        case tbl ! nat num of Some f \<Rightarrow> f s | None \<Rightarrow> Inr (s, -1)
      else Inr (s, -1))"

definition sys_kill :: "uctx \<Rightarrow> 'e kern \<Rightarrow> 'e kern \<times> int" where
  "sys_kill u k = (case argint u 0 of None \<Rightarrow> (k, -1) | Some pid \<Rightarrow> kill pid k)"

definition sys_getpid :: "nat \<Rightarrow> 'e kern \<Rightarrow> int" where
  "sys_getpid cur k = p_pid (ptab k ! cur)"

definition sys_sbrk :: "uctx \<Rightarrow> addr \<Rightarrow> nat \<Rightarrow> 'e kern \<Rightarrow> ('e kern \<times> int) res" where
  "sys_sbrk u bound cur k =
     (case argint u 0 of
        None \<Rightarrow> Inr (k, -1)
      | Some n \<Rightarrow> rbind (growproc bound cur n k) (\<lambda>(k1, r). Inr (k1, if r < 0 then -1 else sint (p_sz (ptab k ! cur)))))"

text \<open>
  One turn of the loop of \<open>sys_sleep\<close>, entered with the tick count \<open>ticks0\<close>: -1 if killed, \<open>None\<close> to sleep on, on \<open>&ticks\<close>.
  The signed argument is compared as an unsigned number.
\<close>

definition sys_sleep_turn :: "addr \<Rightarrow> addr \<Rightarrow> int \<Rightarrow> bool \<Rightarrow> int option" where
  "sys_sleep_turn ticks ticks0 n killed = (if ticks - ticks0 < word_of_int n then if killed then Some (-1) else None else Some 0)"

subsection \<open>The checks are enough\<close>

lemma no_wrap:
  assumes "(a :: addr) < sz" and "a + of_nat k \<le> sz" and "sz \<le> KERNBASE" and "k < 2 ^ 31"
  shows "unat a + k \<le> unat sz"
proof -
  have "unat a < unat sz" "unat (a + of_nat k) \<le> unat sz" "unat sz \<le> 2 ^ 31"
    using assms(1-3) by (simp_all add: word_less_nat_alt word_le_nat_alt KERNBASE_def)
  moreover have "unat (a + of_nat k) = unat a + k" using calculation assms(4) by (simp add: unat_word_ariths unat_of_nat)
  ultimately show ?thesis by simp
qed

lemma fetchint_safe: "u_sz u \<le> KERNBASE \<Longrightarrow> fetchint u a = Some w \<Longrightarrow> unat a + 4 \<le> unat (u_sz u)"
  using no_wrap [of a "u_sz u" 4] by (auto simp: fetchint_def split: if_splits)

lemma fetchstr_loop_spec:
  assumes "fetchstr_loop u s n = Some l"
  shows "n \<le> l \<and> unat s + (l - n) < unat (u_sz u) \<and> u_mem u (s + of_nat (l - n)) = 0 \<and> (\<forall>i < l - n. u_mem u (s + of_nat i) \<noteq> 0)"
  using assms
proof (induction u s n rule: fetchstr_loop.induct)
  case (1 u s n)
  have lt: "s < u_sz u" using 1(2) by (subst (asm) fetchstr_loop.simps) (auto split: if_splits)
  then have un: "unat s < unat (u_sz u)" by (simp add: word_less_nat_alt)
  show ?case
  proof (cases "u_mem u s = 0")
    case True
    then have "l = n" using 1(2) lt by (subst (asm) fetchstr_loop.simps) simp
    then show ?thesis using True un by simp
  next
    case False
    have "unat (s + 1) = unat s + 1" using un unat_bound [of "u_sz u"] by (simp add: unat_word_ariths)
    moreover have "fetchstr_loop u (s + 1) (n + 1) = Some l" using 1(2) lt False by (subst (asm) fetchstr_loop.simps) simp
    from 1(1) [OF lt False this]
    have ih: "n + 1 \<le> l" "unat (s + 1) + (l - (n + 1)) < unat (u_sz u)" "u_mem u (s + 1 + of_nat (l - (n + 1))) = 0"
      "\<forall>i < l - (n + 1). u_mem u (s + 1 + of_nat i) \<noteq> 0" by auto
    have e: "s + 1 + of_nat i = s + of_nat (Suc i)" for i by simp
    have "u_mem u (s + of_nat i) \<noteq> 0" if "i < l - n" for i
    proof (cases i)
      case (Suc j)
      then have "u_mem u (s + 1 + of_nat j) \<noteq> 0" using ih(1,4) that by simp
      then show ?thesis unfolding Suc e .
    qed (use False in simp)
    moreover have "u_mem u (s + of_nat (l - n)) = 0"
    proof -
      have "l - n = Suc (l - (n + 1))" using ih(1) by simp
      then show ?thesis using ih(3) unfolding e by simp
    qed
    ultimately show ?thesis using ih(1,2) by simp
  qed
qed

text \<open>
  C14 (args_checked): for a process below \<open>KERNBASE\<close>, an accepted pointer argument gives a block that lies wholly inside the process, without
  wrap-around, and an accepted string argument is the NUL-terminated string at its address, wholly inside the process too.
\<close>

theorem args_checked:
  assumes "u_sz u \<le> KERNBASE" and "len < 2 ^ 31"
  shows "(argptr u n len = Some a \<longrightarrow> 0 \<le> len \<and> unat a + nat len \<le> unat (u_sz u)) \<and>
    (argstr u n = Some s \<longrightarrow> (\<exists>p k. unat p + k < unat (u_sz u) \<and> s = user_bytes u p k @ [0] \<and> 0 \<notin> set (user_bytes u p k)))"
proof (intro conjI impI)
  assume "argptr u n len = Some a"
  then have h: "0 \<le> len" "a < u_sz u" "a + word_of_int len \<le> u_sz u" by (auto simp: argptr_def split: option.splits if_splits)
  have e: "(of_nat (nat len) :: addr) = word_of_int len" using h(1) by simp
  have "a + of_nat (nat len) \<le> u_sz u" using h(3) by (simp only: e)
  from no_wrap [OF h(2) this assms(1)] show "0 \<le> len" "unat a + nat len \<le> unat (u_sz u)" using h(1) assms(2) by simp_all
next
  assume "argstr u n = Some s"
  then obtain p k where p: "fetchstr u p = Some k" "s = user_bytes u p (k + 1)" by (auto simp: argstr_def split: option.splits)
  then have "fetchstr_loop u p 0 = Some k" by (simp add: fetchstr_def split: if_splits)
  from fetchstr_loop_spec [OF this]
  have "unat p + k < unat (u_sz u)" "u_mem u (p + of_nat k) = 0" "\<forall>i < k. u_mem u (p + of_nat i) \<noteq> 0" by simp_all
  then show "\<exists>p k. unat p + k < unat (u_sz u) \<and> s = user_bytes u p k @ [0] \<and> 0 \<notin> set (user_bytes u p k)"
    using p(2) by (intro exI [of _ p] exI [of _ k]) (auto simp: user_bytes_def)
qed

text \<open>A process of 64 bytes whose stack has the pointer 8 as its first argument; byte 9 is the end of a string.\<close>

definition demo_uctx :: uctx where
  "demo_uctx = \<lparr>u_sz = 64, u_esp = 32, u_mem = (\<lambda>a. if a = 36 then 8 else if a = 8 then 97 else 0)\<rparr>"

lemma demo_argptr: "argptr demo_uctx 0 56 = Some 8" "argptr demo_uctx 0 57 = None"
  by (simp_all add: argptr_def fetchint_def demo_uctx_def mem32_def)

lemma demo_argstr: "argstr demo_uctx 0 = Some [97, 0]"
  by (simp add: argstr_def fetchstr_def fetchint_def demo_uctx_def mem32_def fetchstr_loop.simps user_bytes_def)

lemma args_checked_witness:
  "argptr demo_uctx 0 56 = Some 8 \<and> unat (8 :: addr) + nat 56 \<le> unat (u_sz demo_uctx) \<and> (\<exists>p k. [97, 0] = user_bytes demo_uctx p k @ [0])"
proof -
  have "u_sz demo_uctx \<le> KERNBASE" by (simp add: demo_uctx_def KERNBASE_def)
  from args_checked [OF this, of 56 0 8 "[97, 0]"] show ?thesis using demo_argptr demo_argstr by auto
qed

text \<open>A negative argument of \<open>sleep\<close> waits for nearly \<open>2 ^ 32\<close> ticks.\<close>

lemma sleep_negative: "0 < t \<Longrightarrow> t < 2 ^ 31 \<Longrightarrow> sys_sleep_turn (of_nat t) 0 (-1) False = None"
  by (simp add: sys_sleep_turn_def word_less_nat_alt unat_of_nat unsigned_minus_1_eq_mask mask_eq_exp_minus_1)

end
