(* ===== verification/Files.thy ===== *)
theory Files
  imports Syscall Directories Queues
begin

text \<open>
  The table of open files (file.c, file.h), the creation of pipes (pipe.c) and the system calls on files (sysfile.c).

  A pointer to a file is its index in \<open>ftable.file\<close> plus one, the null pointer 0; \<open>ofile\<close> has the descriptor tables of all
  processes. A pipe lives in a page of \<open>kalloc\<close>: \<open>pipes\<close> maps the address of the page to it. The state is the pair of the file
  table and the file system of \<open>FileSys\<close>; a call that would wait for another process ends with \<open>Sleeps\<close>.
\<close>

definition NFILE :: nat where "NFILE = 100"
definition T_FILE :: int where "T_FILE = 2"

datatype ftype = FD_NONE | FD_PIPE | FD_INODE

record kfile =
  f_type :: ftype
  f_ref :: int
  f_readable :: int
  f_writable :: int
  f_pipe :: addr
  f_ip :: int
  f_off :: int

record ft =
  ftable :: "kfile list"
  ofile :: "int list list"
  pipes :: "addr \<Rightarrow> pipe option"
  fkm :: kmem

type_synonym 'a io = "ft \<times> 'a fs_state_scheme"

definition get_file :: "ft \<Rightarrow> int \<Rightarrow> kfile res" where
  "get_file t f = arr_get (ftable t) (f - 1)"

definition mod_file :: "ft \<Rightarrow> int \<Rightarrow> (kfile \<Rightarrow> kfile) \<Rightarrow> ft res" where
  "mod_file t f g = rbind (arr_mod (ftable t) (f - 1) g) (\<lambda>l. Inr (t\<lparr>ftable := l\<rparr>))"

subsection \<open>Open files\<close>

definition filealloc :: "ft \<Rightarrow> ft \<times> int" where
  "filealloc t =
     (case List.find (\<lambda>i. f_ref (ftable t ! i) = 0) [0..<length (ftable t)] of
        None \<Rightarrow> (t, 0)
      | Some i \<Rightarrow> (t\<lparr>ftable := (ftable t)[i := (ftable t ! i)\<lparr>f_ref := 1\<rparr>]\<rparr>, int i + 1))"

definition filedup :: "ft \<Rightarrow> int \<Rightarrow> ft res" where
  "filedup t f =
     rbind (get_file t f) (\<lambda>ff.
     if f_ref ff < 1 then Inl (Panic ''filedup'') else mod_file t f (\<lambda>g. g\<lparr>f_ref := f_ref g + 1\<rparr>))"

definition close_pipe :: "addr \<Rightarrow> addr \<Rightarrow> int \<Rightarrow> ft \<Rightarrow> ft res" where
  "close_pipe bound p w t =
     (case pipes t p of
        None \<Rightarrow> Inl OutOfBounds
      | Some q \<Rightarrow>
          let (q1, unused, _) = pipeclose q w in
          if unused then rbind (kfree bound p (fkm t)) (\<lambda>m. Inr (t\<lparr>pipes := (pipes t)(p := None), fkm := m\<rparr>))
          else Inr (t\<lparr>pipes := (pipes t)(p := Some q1)\<rparr>))"

definition fileclose :: "addr \<Rightarrow> int \<Rightarrow> 'a io \<Rightarrow> 'a io res" where
  "fileclose bound f st =
     (let (t, s) = st in
      rbind (get_file t f) (\<lambda>ff.
      if f_ref ff < 1 then Inl (Panic ''fileclose'')
      else if f_ref ff - 1 > 0 then rbind (mod_file t f (\<lambda>g. g\<lparr>f_ref := f_ref g - 1\<rparr>)) (\<lambda>t1. Inr (t1, s))
      else rbind (mod_file t f (\<lambda>g. g\<lparr>f_ref := 0, f_type := FD_NONE\<rparr>)) (\<lambda>t1.
        case f_type ff of
          FD_PIPE \<Rightarrow> rbind (close_pipe bound (f_pipe ff) (f_writable ff) t1) (\<lambda>t2. Inr (t2, s))
        | FD_INODE \<Rightarrow> rbind (begin_op s) (\<lambda>s1. rbind (iput s1 (f_ip ff)) (\<lambda>s2. rbind (end_op s2) (\<lambda>s3. Inr (t1, s3))))
        | FD_NONE \<Rightarrow> Inr (t1, s))))"

text \<open>The result of \<open>stati\<close>, or \<open>None\<close> for -1.\<close>

definition filestat :: "int \<Rightarrow> 'a io \<Rightarrow> ('a io \<times> (int \<times> int \<times> int \<times> int \<times> int) option) res" where
  "filestat f st =
     (let (t, s) = st in
      rbind (get_file t f) (\<lambda>ff.
      if f_type ff = FD_INODE then
        rbind (ilock s (f_ip ff)) (\<lambda>s1.
        rbind (get_ip s1 (f_ip ff)) (\<lambda>ip.
        rbind (iunlock s1 (f_ip ff)) (\<lambda>s2. Inr ((t, s2), Some (stati ip)))))
      else Inr ((t, s), None)))"

text \<open>The result and the bytes read; \<open>killed\<close> is the flag of the process that reads.\<close>

definition fileread :: "'a fs_state_scheme dev_read \<Rightarrow> bool \<Rightarrow> int \<Rightarrow> int \<Rightarrow> 'a io \<Rightarrow> ('a io \<times> int \<times> byte list) res" where
  "fileread dr killed f n st =
     (let (t, s) = st in
      rbind (get_file t f) (\<lambda>ff.
      if f_readable ff = 0 then Inr (st, -1, [])
      else case f_type ff of
        FD_PIPE \<Rightarrow>
          (case pipes t (f_pipe ff) of
             None \<Rightarrow> Inl OutOfBounds
           | Some q \<Rightarrow> rbind (piperead killed n q) (\<lambda>(q1, r).
               let t1 = t\<lparr>pipes := (pipes t)(f_pipe ff := Some q1)\<rparr> in
               case r of RDone bs \<Rightarrow> Inr ((t1, s), int (length bs), bs) | RFail \<Rightarrow> Inr ((t1, s), -1, []) | RSleep \<Rightarrow> Inl Sleeps))
      | FD_INODE \<Rightarrow>
          rbind (ilock s (f_ip ff)) (\<lambda>s1.
          rbind (readi dr s1 (f_ip ff) (f_off ff) n) (\<lambda>(s2, r, bs).
          rbind (if r > 0 then mod_file t f (\<lambda>g. g\<lparr>f_off := u32 (f_off g + r)\<rparr>) else Inr t) (\<lambda>t1.
          rbind (iunlock s2 (f_ip ff)) (\<lambda>s3. Inr ((t1, s3), r, bs)))))
      | FD_NONE \<Rightarrow> Inl (Panic ''fileread'')))"

text \<open>The loop of \<open>filewrite\<close>: one transaction for every \<open>WRITE_MAX\<close> bytes; the offset and the number of bytes written.\<close>

definition WRITE_MAX :: nat where "WRITE_MAX = nat ((MAXOPBLOCKS - 1 - 1 - 2) div 2 * 512)"

lemma WRITE_MAX_pos: "0 < WRITE_MAX"
  by (simp add: WRITE_MAX_def MAXOPBLOCKS_def)

function write_ops :: "'a fs_state_scheme dev_write \<Rightarrow> 'a fs_state_scheme \<Rightarrow> int \<Rightarrow> int \<Rightarrow> byte list \<Rightarrow> int \<Rightarrow>
    ('a fs_state_scheme \<times> int \<times> int) res" where
  "write_ops dw s p off src i =
     (if src = [] then Inr (s, off, i)
      else
        rbind (begin_op s) (\<lambda>s1.
        rbind (ilock s1 p) (\<lambda>s2.
        rbind (writei dw s2 p (take WRITE_MAX src) off) (\<lambda>(s3, r).
        rbind (iunlock s3 p) (\<lambda>s4.
        rbind (end_op s4) (\<lambda>s5.
        let off1 = (if r > 0 then u32 (off + r) else off) in
        if r < 0 then Inr (s5, off1, i)
        else if r \<noteq> int (length (take WRITE_MAX src)) then Inl (Panic ''short filewrite'')
        else write_ops dw s5 p off1 (drop WRITE_MAX src) (i + r)))))))"
  by pat_completeness auto
termination
  by (relation "measure (\<lambda>(dw, s, p, off, src, i). length src)") (use WRITE_MAX_pos in auto)

declare write_ops.simps [simp del]

definition filewrite :: "'a fs_state_scheme dev_write \<Rightarrow> bool \<Rightarrow> int \<Rightarrow> byte list \<Rightarrow> 'a io \<Rightarrow> ('a io \<times> int) res" where
  "filewrite dw killed f src st =
     (let (t, s) = st; n = int (length src) in
      rbind (get_file t f) (\<lambda>ff.
      if f_writable ff = 0 then Inr (st, -1)
      else case f_type ff of
        FD_PIPE \<Rightarrow>
          (case pipes t (f_pipe ff) of
             None \<Rightarrow> Inl OutOfBounds
           | Some q \<Rightarrow> rbind (pipewrite killed src q) (\<lambda>(q1, r).
               let t1 = t\<lparr>pipes := (pipes t)(f_pipe ff := Some q1)\<rparr> in
               case r of WDone \<Rightarrow> Inr ((t1, s), n) | WFail \<Rightarrow> Inr ((t1, s), -1) | WSleep _ \<Rightarrow> Inl Sleeps))
      | FD_INODE \<Rightarrow>
          rbind (write_ops dw s (f_ip ff) (f_off ff) src 0) (\<lambda>(s1, off, i).
          rbind (mod_file t f (\<lambda>g. g\<lparr>f_off := off\<rparr>)) (\<lambda>t1. Inr ((t1, s1), if i = n then n else -1)))
      | FD_NONE \<Rightarrow> Inl (Panic ''filewrite'')))"

subsection \<open>Pipes\<close>

text \<open>The two files of a new pipe, 0 and 0 for -1; \<open>junk\<close> is what the page of the pipe held.\<close>

definition pipealloc :: "addr \<Rightarrow> byte list \<Rightarrow> 'a io \<Rightarrow> ('a io \<times> int \<times> int) res" where
  "pipealloc bound junk st =
     (let (t, s) = st; (t1, f0) = filealloc t in
      if f0 = 0 then Inr ((t1, s), 0, 0)
      else
        let (t2, f1) = filealloc t1 in
        if f1 = 0 then rbind (fileclose bound f0 (t2, s)) (\<lambda>st1. Inr (st1, 0, 0))
        else
          rbind (kalloc (fkm t2)) (\<lambda>(m, p).
          let t3 = t2\<lparr>fkm := m\<rparr> in
          if p = 0 then
            rbind (fileclose bound f0 (t3, s)) (\<lambda>st1. rbind (fileclose bound f1 st1) (\<lambda>st2. Inr (st2, 0, 0)))
          else
            let t4 = t3\<lparr>pipes := (pipes t3)(p := Some \<lparr>p_data = junk, nread = 0, nwrite = 0, readopen = 1, writeopen = 1\<rparr>)\<rparr> in
            rbind (mod_file t4 f0 (\<lambda>g. g\<lparr>f_type := FD_PIPE, f_readable := 1, f_writable := 0, f_pipe := p\<rparr>)) (\<lambda>t5.
            rbind (mod_file t5 f1 (\<lambda>g. g\<lparr>f_type := FD_PIPE, f_readable := 0, f_writable := 1, f_pipe := p\<rparr>)) (\<lambda>t6.
            Inr ((t6, s), f0, f1)))))"

subsection \<open>Descriptors\<close>

abbreviation fd_at :: "ft \<Rightarrow> nat \<Rightarrow> nat \<Rightarrow> int" where "fd_at t cur fd \<equiv> ofile t ! cur ! fd"

definition set_fd :: "nat \<Rightarrow> nat \<Rightarrow> int \<Rightarrow> ft \<Rightarrow> ft" where
  "set_fd cur fd f t = t\<lparr>ofile := (ofile t)[cur := (ofile t ! cur)[fd := f]]\<rparr>"

definition argfd :: "uctx \<Rightarrow> nat \<Rightarrow> nat \<Rightarrow> ft \<Rightarrow> (nat \<times> int) option" where
  "argfd u n cur t =
     (case argint u n of
        None \<Rightarrow> None
      | Some fd \<Rightarrow> if fd < 0 \<or> fd \<ge> int NOFILE \<or> fd_at t cur (nat fd) = 0 then None else Some (nat fd, fd_at t cur (nat fd)))"

definition fdalloc :: "nat \<Rightarrow> int \<Rightarrow> ft \<Rightarrow> ft \<times> int" where
  "fdalloc cur f t =
     (case List.find (\<lambda>fd. fd_at t cur fd = 0) [0..<NOFILE] of
        None \<Rightarrow> (t, -1)
      | Some fd \<Rightarrow> (set_fd cur fd f t, int fd))"

definition sys_dup :: "uctx \<Rightarrow> nat \<Rightarrow> 'a io \<Rightarrow> ('a io \<times> int) res" where
  "sys_dup u cur st =
     (let (t, s) = st in
      case argfd u 0 cur t of
        None \<Rightarrow> Inr (st, -1)
      | Some (_, f) \<Rightarrow>
          let (t1, fd) = fdalloc cur f t in
          if fd < 0 then Inr ((t1, s), -1) else rbind (filedup t1 f) (\<lambda>t2. Inr ((t2, s), fd)))"

definition sys_read :: "'a fs_state_scheme dev_read \<Rightarrow> bool \<Rightarrow> uctx \<Rightarrow> nat \<Rightarrow> 'a io \<Rightarrow> ('a io \<times> uctx \<times> int) res" where
  "sys_read dr killed u cur st =
     (case (argfd u 0 cur (fst st), argint u 2) of
        (Some (_, f), Some n) \<Rightarrow>
          (case argptr u 1 n of
             None \<Rightarrow> Inr (st, u, -1)
           | Some p \<Rightarrow> rbind (fileread dr killed f n st) (\<lambda>(st1, r, bs). Inr (st1, put_bytes u p bs, r)))
      | _ \<Rightarrow> Inr (st, u, -1))"

definition sys_write :: "'a fs_state_scheme dev_write \<Rightarrow> bool \<Rightarrow> uctx \<Rightarrow> nat \<Rightarrow> 'a io \<Rightarrow> ('a io \<times> int) res" where
  "sys_write dw killed u cur st =
     (case (argfd u 0 cur (fst st), argint u 2) of
        (Some (_, f), Some n) \<Rightarrow>
          (case argptr u 1 n of
             None \<Rightarrow> Inr (st, -1)
           | Some p \<Rightarrow> filewrite dw killed f (user_bytes u p (nat n)) st)
      | _ \<Rightarrow> Inr (st, -1))"

definition sys_close :: "addr \<Rightarrow> uctx \<Rightarrow> nat \<Rightarrow> 'a io \<Rightarrow> ('a io \<times> int) res" where
  "sys_close bound u cur st =
     (let (t, s) = st in
      case argfd u 0 cur t of
        None \<Rightarrow> Inr (st, -1)
      | Some (fd, f) \<Rightarrow> rbind (fileclose bound f (set_fd cur fd 0 t, s)) (\<lambda>st1. Inr (st1, 0)))"

definition sys_fstat :: "uctx \<Rightarrow> nat \<Rightarrow> 'a io \<Rightarrow> ('a io \<times> (int \<times> int \<times> int \<times> int \<times> int) option) res" where
  "sys_fstat u cur st =
     (case (argfd u 0 cur (fst st), argptr u 1 20) of
        (Some (_, f), Some p) \<Rightarrow> filestat f st
      | _ \<Rightarrow> Inr (st, None))"

text \<open>\<open>sys_pipe\<close> gives the two descriptors to the user as an array at \<open>fd\<close>.\<close>

definition sys_pipe :: "addr \<Rightarrow> byte list \<Rightarrow> uctx \<Rightarrow> nat \<Rightarrow> 'a io \<Rightarrow> ('a io \<times> uctx \<times> int) res" where
  "sys_pipe bound junk u cur st =
     (case argptr u 0 8 of
        None \<Rightarrow> Inr (st, u, -1)
      | Some a \<Rightarrow>
          rbind (pipealloc bound junk st) (\<lambda>(st1, rf, wf).
          if rf = 0 then Inr (st1, u, -1)
          else
            let (t, s) = st1; (t1, fd0) = fdalloc cur rf t in
            if fd0 < 0 then
              rbind (fileclose bound rf (t1, s)) (\<lambda>st2. rbind (fileclose bound wf st2) (\<lambda>st3. Inr (st3, u, -1)))
            else
              let (t2, fd1) = fdalloc cur wf t1 in
              if fd1 < 0 then
                rbind (fileclose bound rf (set_fd cur (nat fd0) 0 t2, s)) (\<lambda>st2. rbind (fileclose bound wf st2) (\<lambda>st3. Inr (st3, u, -1)))
              else
                Inr ((t2, s), u\<lparr>u_mem := put_mem32 (put_mem32 (u_mem u) a (word_of_int fd0)) (a + 4) (word_of_int fd1)\<rparr>, 0)))"

text \<open>What \<open>fork\<close> and \<open>exit\<close> (proc.c) do with the descriptors.\<close>

definition fork_files :: "nat \<Rightarrow> nat \<Rightarrow> ft \<Rightarrow> ft res" where
  "fork_files cur np t =
     for_each (\<lambda>fd t. if fd_at t cur fd \<noteq> 0 then rbind (filedup t (fd_at t cur fd)) (\<lambda>t1. cont (set_fd np fd (fd_at t cur fd) t1)) else cont t)
       [0..<NOFILE] t"

definition exit_files :: "addr \<Rightarrow> nat \<Rightarrow> 'a io \<Rightarrow> 'a io res" where
  "exit_files bound cur st =
     for_each (\<lambda>fd (t, s). if fd_at t cur fd \<noteq> 0 then
         rbind (fileclose bound (fd_at t cur fd) (t, s)) (\<lambda>(t1, s1). cont (set_fd cur fd 0 t1, s1)) else cont (t, s))
       [0..<NOFILE] st"

end
