(* ===== verification/Files_Correct.thy ===== *)
theory Files_Correct
  imports Files
begin

text \<open>
  The invariant of the file table: the reference count of every file is the number of descriptors of all processes that refer to
  it, and a pipe lives in its page exactly as long as one of its ends is open.
\<close>

subsection \<open>Counting references\<close>

lemma count_list_update:
  "j < length xs \<Longrightarrow> count_list (xs[j := f]) g + (if xs ! j = g then 1 else 0) = count_list xs g + (if f = g then 1 else 0)"
proof -
  assume j: "j < length xs"
  show ?thesis
    by (subst (3) id_take_nth_drop [OF j], subst upd_conv_take_nth_drop [OF j]) simp
qed

lemma count_concat_update:
  assumes "i < length xss"
  shows "count_list (concat (xss[i := ys])) g + count_list (xss ! i) g = count_list (concat xss) g + count_list ys g"
proof -
  have "concat xss = concat (take i xss) @ xss ! i @ concat (drop (Suc i) xss)"
    by (subst id_take_nth_drop [OF assms]) simp
  moreover have "concat (xss[i := ys]) = concat (take i xss) @ ys @ concat (drop (Suc i) xss)"
    by (subst upd_conv_take_nth_drop [OF assms]) simp
  ultimately show ?thesis by simp
qed

text \<open>The references to the file \<open>g\<close>: descriptors, and those that the running system call holds itself.\<close>

definition refs :: "ft \<Rightarrow> int list \<Rightarrow> int \<Rightarrow> nat" where
  "refs t hs g = count_list (concat (ofile t)) g + count_list hs g"

definition tables_ok :: "ft \<Rightarrow> bool" where
  "tables_ok t \<longleftrightarrow> length (ftable t) = NFILE \<and> length (ofile t) = NPROC \<and>
     (\<forall>p < NPROC. length (ofile t ! p) = NOFILE \<and> (\<forall>fd < NOFILE. 0 \<le> fd_at t p fd \<and> fd_at t p fd \<le> int NFILE))"

definition counts_ok :: "ft \<Rightarrow> int list \<Rightarrow> bool" where
  "counts_ok t hs \<longleftrightarrow> (\<forall>i < NFILE. f_ref (ftable t ! i) = int (refs t hs (int i + 1))) \<and> (\<forall>i < NFILE. f_ref (ftable t ! i) = 0 \<longrightarrow> f_type (ftable t ! i) = FD_NONE)
     \<and> (\<forall>h \<in> set hs. 1 \<le> h \<and> h \<le> int NFILE)"

text \<open>An open file that is the end of the pipe \<open>p\<close>; \<open>w\<close> is the writing end.\<close>

definition pipe_end :: "ft \<Rightarrow> nat \<Rightarrow> addr \<Rightarrow> bool \<Rightarrow> bool" where
  "pipe_end t i p w \<longleftrightarrow> i < NFILE \<and> f_type (ftable t ! i) = FD_PIPE \<and> f_pipe (ftable t ! i) = p \<and> (f_writable (ftable t ! i) \<noteq> 0) = w \<and>
     (f_readable (ftable t ! i) \<noteq> 0) = (\<not> w)"

definition end_open :: "pipe \<Rightarrow> bool \<Rightarrow> bool" where
  "end_open q w \<longleftrightarrow> (if w then writeopen q \<noteq> 0 else readopen q \<noteq> 0)"

definition pipes_ok :: "addr \<Rightarrow> ft \<Rightarrow> bool" where
  "pipes_ok bound t \<longleftrightarrow>
     (\<forall>i < NFILE. f_type (ftable t ! i) = FD_PIPE \<longrightarrow> (\<exists>p w. pipe_end t i p w)) \<and>
     (\<forall>p w. (\<exists>i. pipe_end t i p w) \<longleftrightarrow> (\<exists>q. pipes t p = Some q \<and> end_open q w)) \<and>
     (\<forall>p w i j. pipe_end t i p w \<longrightarrow> pipe_end t j p w \<longrightarrow> i = j) \<and>
     (\<forall>p q. pipes t p = Some q \<longrightarrow> end_open q True \<or> end_open q False) \<and>
     (\<exists>ps. km_ok bound (fkm t) ps \<and> (\<forall>p. pipes t p \<noteq> None \<longrightarrow> p \<notin> set ps \<and> page_ok bound p \<and> length (pmem (fkm t) p) = PGSIZE))"

definition ft_inv :: "addr \<Rightarrow> ft \<Rightarrow> int list \<Rightarrow> bool" where
  "ft_inv bound t hs \<longleftrightarrow> tables_ok t \<and> counts_ok t hs \<and> pipes_ok bound t"

lemma get_file_nth: "1 \<le> f \<Longrightarrow> f \<le> int (length (ftable t)) \<Longrightarrow> get_file t f = Inr (ftable t ! nat (f - 1))"
  by (simp add: get_file_def arr_get_def in_range_def)

lemma mod_file_nth:
  "1 \<le> f \<Longrightarrow> f \<le> int (length (ftable t)) \<Longrightarrow> mod_file t f g = Inr (t\<lparr>ftable := (ftable t)[nat (f - 1) := g (ftable t ! nat (f - 1))]\<rparr>)"
  by (simp add: mod_file_def arr_mod_def arr_get_def arr_set_def in_range_def)

subsection \<open>The operations on one file\<close>

text \<open>Changes of the table of files that neither touch types nor pipes.\<close>

lemma pipe_end_same:
  assumes "length (ftable t') = length (ftable t)"
    and "\<And>i. i < NFILE \<Longrightarrow> f_type (ftable t' ! i) = f_type (ftable t ! i) \<and> (f_type (ftable t ! i) = FD_PIPE \<longrightarrow> f_pipe (ftable t' ! i) = f_pipe (ftable t ! i) \<and>
       f_writable (ftable t' ! i) = f_writable (ftable t ! i) \<and> f_readable (ftable t' ! i) = f_readable (ftable t ! i))"
  shows "pipe_end t' i p w \<longleftrightarrow> pipe_end t i p w"
  using assms(2) [of i] by (auto simp: pipe_end_def)

lemma pipes_ok_same:
  assumes "length (ftable t') = length (ftable t)"
    and "\<And>i. i < NFILE \<Longrightarrow> f_type (ftable t' ! i) = f_type (ftable t ! i) \<and> (f_type (ftable t ! i) = FD_PIPE \<longrightarrow> f_pipe (ftable t' ! i) = f_pipe (ftable t ! i) \<and>
       f_writable (ftable t' ! i) = f_writable (ftable t ! i) \<and> f_readable (ftable t' ! i) = f_readable (ftable t ! i))"
    and "pipes t' = pipes t" and "fkm t' = fkm t"
  shows "pipes_ok bound t' \<longleftrightarrow> pipes_ok bound t"
proof -
  have "pipe_end t' = pipe_end t" using pipe_end_same [OF assms(1,2)] by (intro ext) blast
  then show ?thesis using assms(2) unfolding pipes_ok_def assms(3,4) by (simp cong: imp_cong)
qed

lemma filealloc_spec:
  assumes inv: "ft_inv bound t hs" and run: "filealloc t = (t', f)"
  shows "f = 0 \<and> t' = t \<or> 1 \<le> f \<and> f \<le> int NFILE \<and> ft_inv bound t' (f # hs) \<and> f_type (ftable t' ! nat (f - 1)) = FD_NONE \<and> f_ref (ftable t' ! nat (f - 1)) = 1 \<and>
    ofile t' = ofile t \<and> pipes t' = pipes t \<and> fkm t' = fkm t \<and> f \<notin> set (concat (ofile t) @ hs)"
proof (cases "List.find (\<lambda>i. f_ref (ftable t ! i) = 0) [0..<length (ftable t)]")
  case None
  then show ?thesis using run by (simp add: filealloc_def)
next
  case (Some i)
  have i: "i < NFILE" "f_ref (ftable t ! i) = 0" using Some inv by (auto simp: find_Some_iff ft_inv_def tables_ok_def)
  have t': "t' = t\<lparr>ftable := (ftable t)[i := (ftable t ! i)\<lparr>f_ref := 1\<rparr>]\<rparr>" "f = int i + 1" using run Some by (simp_all add: filealloc_def)
  have l: "length (ftable t) = NFILE" using inv by (simp add: ft_inv_def tables_ok_def)
  have n: "ftable t' ! j = (if j = i then (ftable t ! i)\<lparr>f_ref := 1\<rparr> else ftable t ! j)" for j using i l by (simp add: t' nth_list_update)
  have z: "refs t hs f = 0" using inv i by (simp add: ft_inv_def counts_ok_def t'(2))
  have "counts_ok t' (f # hs)"
    unfolding counts_ok_def
  proof (intro conjI allI impI ballI)
    show "f_ref (ftable t' ! j) = int (refs t' (f # hs) (int j + 1))" if "j < NFILE" for j
    proof -
      have "f_ref (ftable t ! j) = int (refs t hs (int j + 1))" using inv that by (simp add: ft_inv_def counts_ok_def)
      moreover have "refs t' (f # hs) (int j + 1) = refs t hs (int j + 1) + (if j = i then 1 else 0)" by (auto simp: refs_def t')
      moreover have "f_ref (ftable t' ! j) = (if j = i then 1 else f_ref (ftable t ! j))" unfolding n by simp
      ultimately show ?thesis using i(2) by (cases "j = i") auto
    qed
    show "f_type (ftable t' ! j) = FD_NONE" if "j < NFILE" "f_ref (ftable t' ! j) = 0" for j
      using inv that by (auto simp: n ft_inv_def counts_ok_def split: if_splits)
    show "1 \<le> h" "h \<le> int NFILE" if "h \<in> set (f # hs)" for h using inv that i by (auto simp: t' ft_inv_def counts_ok_def)
  qed
  moreover have "tables_ok t'" using inv by (simp add: ft_inv_def tables_ok_def t')
  moreover have "pipes_ok bound t'"
    using inv i(1) by (subst pipes_ok_same [of t' t]) (auto simp: ft_inv_def t' nth_list_update l)
  moreover have "f_type (ftable t ! i) = FD_NONE" using inv i by (auto simp: ft_inv_def counts_ok_def)
  moreover have "f \<notin> set (concat (ofile t) @ hs)" using z unfolding refs_def by (auto simp: count_list_0_iff)
  ultimately show ?thesis using i n by (auto simp: ft_inv_def t')
qed

lemma ref_pos:
  assumes "ft_inv bound t hs" and "f \<noteq> 0" and "f \<in> set (concat (ofile t) @ hs)"
  shows "1 \<le> f \<and> f \<le> int NFILE \<and> 1 \<le> f_ref (ftable t ! nat (f - 1)) \<and> f_ref (ftable t ! nat (f - 1)) = int (refs t hs f)"
proof -
  have r: "1 \<le> f \<and> f \<le> int NFILE"
  proof (cases "f \<in> set hs")
    case True
    then show ?thesis using assms(1) by (simp add: ft_inv_def counts_ok_def)
  next
    case False
    then obtain p fd where "p < NPROC" "fd < NOFILE" "fd_at t p fd = f"
      using assms(1,3) by (force simp: ft_inv_def tables_ok_def in_set_conv_nth)
    then show ?thesis using assms(1,2) by (force simp: ft_inv_def tables_ok_def)
  qed
  then have "nat (f - 1) < NFILE" by linarith
  then have "f_ref (ftable t ! nat (f - 1)) = int (refs t hs (int (nat (f - 1)) + 1))" using assms(1) unfolding ft_inv_def counts_ok_def by blast
  moreover have "int (nat (f - 1)) + 1 = f" using r by simp
  moreover have "0 < refs t hs f" using assms(3) count_list_0_iff [of "concat (ofile t) @ hs" f] by (auto simp: refs_def)
  ultimately show ?thesis using r by simp
qed

lemma filedup_spec:
  assumes inv: "ft_inv bound t hs" and f: "f \<noteq> 0" "f \<in> set (concat (ofile t) @ hs)"
  shows "\<exists>t'. filedup t f = Inr t' \<and> ft_inv bound t' (f # hs) \<and> ofile t' = ofile t"
proof -
  let ?i = "nat (f - 1)"
  have r: "1 \<le> f" "f \<le> int NFILE" "1 \<le> f_ref (ftable t ! ?i)" using ref_pos [OF inv f] by simp_all
  have l: "length (ftable t) = NFILE" using inv by (simp add: ft_inv_def tables_ok_def)
  define t' where "t' = t\<lparr>ftable := (ftable t)[?i := (ftable t ! ?i)\<lparr>f_ref := f_ref (ftable t ! ?i) + 1\<rparr>]\<rparr>"
  have e: "filedup t f = Inr t'" using r l by (simp add: filedup_def get_file_nth mod_file_nth t'_def)
  have i: "?i < NFILE" "int ?i + 1 = f" using r by simp_all
  have n: "ftable t' ! j = (if j = ?i then (ftable t ! ?i)\<lparr>f_ref := f_ref (ftable t ! ?i) + 1\<rparr> else ftable t ! j)" for j
    using i l by (simp add: t'_def nth_list_update)
  have o: "ofile t' = ofile t" by (simp add: t'_def)
  have "counts_ok t' (f # hs)"
    unfolding counts_ok_def
  proof (intro conjI allI impI ballI)
    show "f_ref (ftable t' ! j) = int (refs t' (f # hs) (int j + 1))" if "j < NFILE" for j
    proof -
      have "f_ref (ftable t ! j) = int (refs t hs (int j + 1))" using inv that by (simp add: ft_inv_def counts_ok_def)
      moreover have "refs t' (f # hs) (int j + 1) = refs t hs (int j + 1) + (if j = ?i then 1 else 0)" using i(2) by (auto simp: refs_def o)
      moreover have "f_ref (ftable t' ! j) = f_ref (ftable t ! j) + (if j = ?i then 1 else 0)" unfolding n by simp
      ultimately show ?thesis by simp
    qed
    show "f_type (ftable t' ! j) = FD_NONE" if "j < NFILE" "f_ref (ftable t' ! j) = 0" for j
      using inv that r by (auto simp: n ft_inv_def counts_ok_def split: if_splits)
    show "1 \<le> h" "h \<le> int NFILE" if "h \<in> set (f # hs)" for h using inv that r by (auto simp: ft_inv_def counts_ok_def)
  qed
  moreover have "tables_ok t'" using inv by (simp add: ft_inv_def tables_ok_def t'_def)
  moreover have "pipes_ok bound t'"
    using inv i(1) by (subst pipes_ok_same [of t' t]) (auto simp: ft_inv_def t'_def nth_list_update l)
  ultimately show ?thesis using e o by (auto simp: ft_inv_def)
qed

text \<open>Moving references between the system call and the tables of descriptors.\<close>

lemma set_fd_refs:
  assumes "tables_ok t" and "cur < NPROC" and "fd < NOFILE"
  shows "refs (set_fd cur fd f t) hs g + (if fd_at t cur fd = g then 1 else 0) = refs t hs g + (if f = g then 1 else 0)"
proof -
  have l: "cur < length (ofile t)" "fd < length (ofile t ! cur)" using assms by (auto simp: tables_ok_def)
  show ?thesis using count_concat_update [OF l(1), of "(ofile t ! cur)[fd := f]" g] count_list_update [OF l(2), of f g]
    by (simp add: refs_def set_fd_def)
qed

lemma set_fd_inv:
  assumes inv: "ft_inv bound t hs" and c: "cur < NPROC" "fd < NOFILE" and f: "0 \<le> f" "f \<le> int NFILE"
    and r: "\<And>g. 1 \<le> g \<Longrightarrow> count_list hs' g + (if f = g then 1 else 0) = count_list hs g + (if fd_at t cur fd = g then 1 else 0)"
    and hs: "\<forall>h \<in> set hs'. 1 \<le> h \<and> h \<le> int NFILE"
  shows "ft_inv bound (set_fd cur fd f t) hs'"
proof -
  let ?t = "set_fd cur fd f t"
  have tb: "tables_ok t" using inv by (simp add: ft_inv_def)
  have "refs ?t hs' g = refs t hs g" if "1 \<le> g" for g
    using set_fd_refs [OF tb c, of f hs g] r [OF that] by (auto simp: refs_def split: if_splits)
  then have "counts_ok ?t hs'" using inv hs by (simp add: ft_inv_def counts_ok_def set_fd_def)
  moreover have "tables_ok ?t" using tb c f by (auto simp: tables_ok_def set_fd_def nth_list_update)
  moreover have "pipes_ok bound ?t" using inv by (subst pipes_ok_same [of ?t t]) (auto simp: set_fd_def ft_inv_def)
  ultimately show ?thesis by (simp add: ft_inv_def)
qed

subsection \<open>Closing\<close>

lemma refs_drop: "refs t (f # hs) g = refs t hs g + (if f = g then 1 else 0)"
  by (simp add: refs_def)

lemma pipe_end_unique_pipe: "pipe_end t i p w \<Longrightarrow> pipe_end t i p' w' \<Longrightarrow> p = p' \<and> w = w'"
  by (auto simp: pipe_end_def)

text \<open>The end \<open>i\<close> of a pipe is closed: the pipe loses it, and its page with the last one.\<close>

text \<open>
  What the closing of the end \<open>w\<close> of the pipe \<open>p\<close> does: with its other end open it keeps its bytes and its page, otherwise it is gone and its
  page is on the list of free pages.
\<close>

definition closes_end :: "addr \<Rightarrow> addr \<Rightarrow> bool \<Rightarrow> bool \<Rightarrow> ft \<Rightarrow> ft \<Rightarrow> bool" where
  "closes_end bound p w other t t' \<longleftrightarrow>
     (if other then fkm t' = fkm t \<and> (\<exists>q q'. pipes t p = Some q \<and> pipes t' p = Some q' \<and> pipe_contents q' = pipe_contents q \<and>
        \<not> end_open q' w \<and> end_open q' (\<not> w))
      else pipes t' p = None \<and> (\<exists>ps. km_ok bound (fkm t) ps \<and> km_ok bound (fkm t') (p # ps))) \<and>
     (\<forall>a. a \<noteq> p \<longrightarrow> pipes t' a = pipes t a)"

lemma close_pipe_spec:
  assumes inv: "pipes_ok bound t" and i: "i < NFILE" "pipe_end t i p w" and l: "length (ftable t) = NFILE"
    and t1: "t1 = t\<lparr>ftable := (ftable t)[i := (ftable t ! i)\<lparr>f_ref := 0, f_type := FD_NONE\<rparr>]\<rparr>"
  shows "\<exists>t2. close_pipe bound p (f_writable (ftable t ! i)) t1 = Inr t2 \<and> pipes_ok bound t2 \<and> ftable t2 = ftable t1 \<and> ofile t2 = ofile t \<and>
    closes_end bound p w (\<exists>j. pipe_end t j p (\<not> w)) t t2"
proof -
  obtain q where q: "pipes t p = Some q" "end_open q w" using inv i(2) unfolding pipes_ok_def by blast
  obtain ps where ps: "km_ok bound (fkm t) ps" "\<And>p. pipes t p \<noteq> None \<Longrightarrow> p \<notin> set ps \<and> page_ok bound p \<and> length (pmem (fkm t) p) = PGSIZE"
    using inv unfolding pipes_ok_def by blast
  have w: "(f_writable (ftable t ! i) \<noteq> 0) = w" using i(2) by (simp add: pipe_end_def)
  define q1 where "q1 = fst (pipeclose q (f_writable (ftable t ! i)))"
  have q1: "end_open q1 v \<longleftrightarrow> v \<noteq> w \<and> end_open q v" for v using w by (auto simp: q1_def pipeclose_def end_open_def split: if_splits)
  have un: "fst (snd (pipeclose q (f_writable (ftable t ! i)))) \<longleftrightarrow> \<not> end_open q (\<not> w)"
    using w by (auto simp: pipeclose_def end_open_def split: if_splits)
  have n: "ftable t1 ! j = (if j = i then (ftable t ! i)\<lparr>f_ref := 0, f_type := FD_NONE\<rparr> else ftable t ! j)" for j
    using i(1) l by (simp add: t1 nth_list_update)
  have pe: "pipe_end t2 j a v \<longleftrightarrow> pipe_end t j a v \<and> j \<noteq> i" if "ftable t2 = ftable t1" for t2 j a v
    using that n by (auto simp: pipe_end_def)
  have other: "(\<exists>j. pipe_end t j a v) \<longleftrightarrow> (\<exists>q. pipes t a = Some q \<and> end_open q v)" for a v using inv unfolding pipes_ok_def by blast
  have ends: "(\<exists>j. pipe_end t j a v \<and> j \<noteq> i) \<longleftrightarrow> (\<exists>j. pipe_end t j a v) \<and> (a, v) \<noteq> (p, w)" for a v
  proof
    assume "\<exists>j. pipe_end t j a v \<and> j \<noteq> i"
    then obtain j where j: "pipe_end t j a v" "j \<noteq> i" by blast
    then have "(a, v) \<noteq> (p, w)" using i(2) inv unfolding pipes_ok_def by blast
    then show "(\<exists>j. pipe_end t j a v) \<and> (a, v) \<noteq> (p, w)" using j by blast
  next
    assume "(\<exists>j. pipe_end t j a v) \<and> (a, v) \<noteq> (p, w)"
    then obtain j where j: "pipe_end t j a v" "(a, v) \<noteq> (p, w)" by blast
    then have "j \<noteq> i" using pipe_end_unique_pipe [OF i(2)] by auto
    then show "\<exists>j. pipe_end t j a v \<and> j \<noteq> i" using j by blast
  qed
  define t2 where "t2 = (if end_open q (\<not> w) then t1\<lparr>pipes := (pipes t)(p := Some q1)\<rparr>
     else t1\<lparr>pipes := (pipes t)(p := None), fkm := (case kfree bound p (fkm t) of Inr m \<Rightarrow> m)\<rparr>)"
  have f2: "ftable t2 = ftable t1" "ofile t2 = ofile t" by (simp_all add: t2_def t1)
  obtain m where m: "kfree bound p (fkm t) = Inr m" "km_ok bound m (p # ps)" "\<And>u. u \<noteq> p \<Longrightarrow> pmem m u = pmem (fkm t) u"
    using kfree_spec [OF _ _ ps(1), of p] ps(2) [of p] q by auto
  have run: "close_pipe bound p (f_writable (ftable t ! i)) t1 = Inr t2"
    using q un m by (auto simp: close_pipe_def t1 t2_def q1_def Let_def case_prod_unfold)
  have p2: "pipes t2 a = (if a = p then if end_open q (\<not> w) then Some q1 else None else pipes t a)" for a by (simp add: t2_def t1)
  have ip: "(\<exists>j. pipe_end t2 j a v) \<longleftrightarrow> (\<exists>x. pipes t2 a = Some x \<and> end_open x v)" for a v
    unfolding pe [OF f2(1)] ends other p2 using q q1 by (cases v; cases w) auto
  have "pipes_ok bound t2"
    unfolding pipes_ok_def
  proof (intro conjI allI impI)
    show "\<exists>a v. pipe_end t2 j a v" if h: "j < NFILE" "f_type (ftable t2 ! j) = FD_PIPE" for j
    proof -
      have "j \<noteq> i" using h(2) n by (auto simp: f2(1))
      then have "f_type (ftable t ! j) = FD_PIPE" using h(2) n by (simp add: f2(1))
      then obtain a v where "pipe_end t j a v" using inv h(1) unfolding pipes_ok_def by blast
      then show ?thesis unfolding pe [OF f2(1)] using \<open>j \<noteq> i\<close> by blast
    qed
    show "(\<exists>j. pipe_end t2 j a v) \<longleftrightarrow> (\<exists>x. pipes t2 a = Some x \<and> end_open x v)" for a v by (rule ip)
    show "j = k" if "pipe_end t2 j a v" "pipe_end t2 k a v" for a v j k
      using that inv unfolding pe [OF f2(1)] pipes_ok_def by blast
    show "end_open x True \<or> end_open x False" if "pipes t2 a = Some x" for a x
    proof (cases "a = p")
      case True
      then have "x = q1" "end_open q (\<not> w)" using that p2 by (auto split: if_splits)
      then show ?thesis using q1 by (cases w) auto
    next
      case False
      then show ?thesis using that p2 inv unfolding pipes_ok_def by auto
    qed
    show "\<exists>ps. km_ok bound (fkm t2) ps \<and> (\<forall>a. pipes t2 a \<noteq> None \<longrightarrow> a \<notin> set ps \<and> page_ok bound a \<and> length (pmem (fkm t2) a) = PGSIZE)"
    proof (cases "end_open q (\<not> w)")
      case True
      then have k: "fkm t2 = fkm t" by (simp add: t2_def t1)
      have "pipes t a \<noteq> None" if "pipes t2 a \<noteq> None" for a using that p2 [of a] q by (auto split: if_splits)
      then show ?thesis using ps unfolding k by blast
    next
      case False
      then have k: "fkm t2 = m" by (simp add: t2_def m(1))
      have "a \<noteq> p \<and> pipes t a \<noteq> None" if "pipes t2 a \<noteq> None" for a using that False p2 by (auto split: if_splits)
      then have "a \<notin> set (p # ps) \<and> page_ok bound a \<and> length (pmem m a) = PGSIZE" if "pipes t2 a \<noteq> None" for a
        using m(3) [of a] ps(2) [of a] that by auto
      then show ?thesis using m(2) unfolding k by blast
    qed
  qed
  moreover have "closes_end bound p w (\<exists>j. pipe_end t j p (\<not> w)) t t2"
  proof -
    have c: "pipe_contents q1 = pipe_contents q" by (simp add: q1_def pipeclose_def pipe_contents_def)
    have "(\<exists>j. pipe_end t j p (\<not> w)) \<longleftrightarrow> end_open q (\<not> w)" unfolding other using q(1) by simp
    moreover have "pipes t2 p = (if end_open q (\<not> w) then Some q1 else None)" "\<forall>a. a \<noteq> p \<longrightarrow> pipes t2 a = pipes t a" using p2 by simp_all
    moreover have "fkm t2 = (if end_open q (\<not> w) then fkm t else m)" using m(1) by (simp add: t2_def t1)
    moreover have "\<not> end_open q1 w" "end_open q1 (\<not> w) = end_open q (\<not> w)" using q1 by auto
    ultimately show ?thesis using c q(1) ps(1) m(2) unfolding closes_end_def by auto
  qed
  ultimately show ?thesis using run f2 by (intro exI [of _ t2] conjI)
qed

text \<open>\<open>fileclose\<close> gives back one reference; it fails, if at all, in the file system.\<close>

definition closes_inode :: "ft \<Rightarrow> int \<Rightarrow> bool" where
  "closes_inode t f \<longleftrightarrow> f_ref (ftable t ! nat (f - 1)) = 1 \<and> f_type (ftable t ! nat (f - 1)) = FD_INODE"

lemma fileclose_spec:
  assumes inv: "ft_inv bound t (f # hs)"
  shows "(\<forall>t' s'. fileclose bound f (t, s) = Inr (t', s') \<longrightarrow> ft_inv bound t' hs \<and> ofile t' = ofile t) \<and>
    (\<not> closes_inode t f \<longrightarrow> (\<exists>t'. fileclose bound f (t, s) = Inr (t', s)))"
proof -
  let ?i = "nat (f - 1)"
  have f: "1 \<le> f" "f \<le> int NFILE" using inv by (auto simp: ft_inv_def counts_ok_def)
  have l: "length (ftable t) = NFILE" using inv by (simp add: ft_inv_def tables_ok_def)
  have i: "?i < NFILE" "int ?i + 1 = f" using f by simp_all
  have r: "f_ref (ftable t ! ?i) = int (refs t hs f) + 1" using inv i by (auto simp: ft_inv_def counts_ok_def refs_drop)
  have cnt: "counts_ok t' hs" if "ofile t' = ofile t"
    and g: "\<And>j. ftable t' ! j = (if j = ?i then g (ftable t ! ?i) else ftable t ! j)" "f_ref (g (ftable t ! ?i)) = int (refs t hs f)"
      "f_ref (g (ftable t ! ?i)) = 0 \<Longrightarrow> f_type (g (ftable t ! ?i)) = FD_NONE" for t' g
    unfolding counts_ok_def
  proof (intro conjI allI impI ballI)
    have e: "refs t' hs x = refs t hs x" for x using that(1) by (simp add: refs_def)
    show "f_ref (ftable t' ! j) = int (refs t' hs (int j + 1))" if "j < NFILE" for j
    proof (cases "j = ?i")
      case True
      then show ?thesis using g i by (simp add: e)
    next
      case False
      then have "int j + 1 \<noteq> f" using i by auto
      then show ?thesis using inv that False by (simp add: e g ft_inv_def counts_ok_def refs_drop)
    qed
    show "f_type (ftable t' ! j) = FD_NONE" if "j < NFILE" "f_ref (ftable t' ! j) = 0" for j
      using inv that g by (auto simp: ft_inv_def counts_ok_def split: if_splits)
    show "1 \<le> h" "h \<le> int NFILE" if "h \<in> set hs" for h using inv that by (auto simp: ft_inv_def counts_ok_def)
  qed
  have gf: "get_file t f = Inr (ftable t ! ?i)" using f l by (simp add: get_file_nth)
  show ?thesis
  proof (cases "refs t hs f = 0")
    case False
    define t1 where "t1 = t\<lparr>ftable := (ftable t)[?i := (ftable t ! ?i)\<lparr>f_ref := f_ref (ftable t ! ?i) - 1\<rparr>]\<rparr>"
    have run: "fileclose bound f (t, s) = Inr (t1, s)" using gf r False f l by (simp add: fileclose_def mod_file_nth t1_def)
    have "counts_ok t1 hs"
      by (rule cnt [where g = "\<lambda>x. x\<lparr>f_ref := f_ref x - 1\<rparr>"]) (use i l r False in \<open>simp_all add: t1_def nth_list_update\<close>)
    moreover have "pipes_ok bound t1" using inv i(1) by (subst pipes_ok_same [of t1 t]) (auto simp: t1_def ft_inv_def nth_list_update l)
    moreover have "tables_ok t1" using inv by (simp add: t1_def ft_inv_def tables_ok_def)
    ultimately show ?thesis using run by (auto simp: ft_inv_def t1_def)
  next
    case True
    define t1 where "t1 = t\<lparr>ftable := (ftable t)[?i := (ftable t ! ?i)\<lparr>f_ref := 0, f_type := FD_NONE\<rparr>]\<rparr>"
    have t1n: "ftable t1 ! j = (if j = ?i then (ftable t ! ?i)\<lparr>f_ref := 0, f_type := FD_NONE\<rparr> else ftable t ! j)" for j
      using i l by (simp add: t1_def nth_list_update)
    have run: "fileclose bound f (t, s) = (case f_type (ftable t ! ?i) of
          FD_PIPE \<Rightarrow> rbind (close_pipe bound (f_pipe (ftable t ! ?i)) (f_writable (ftable t ! ?i)) t1) (\<lambda>t2. Inr (t2, s))
        | FD_INODE \<Rightarrow> rbind (begin_op s) (\<lambda>s1. rbind (iput s1 (f_ip (ftable t ! ?i))) (\<lambda>s2. rbind (end_op s2) (\<lambda>s3. Inr (t1, s3))))
        | FD_NONE \<Rightarrow> Inr (t1, s))"
    proof -
      have "mod_file t f (\<lambda>g. g\<lparr>f_ref := 0, f_type := FD_NONE\<rparr>) = Inr t1" using f l by (simp add: mod_file_nth t1_def)
      then show ?thesis using gf r True by (simp add: fileclose_def)
    qed
    have tb: "tables_ok t'" if "ftable t' = ftable t1" "ofile t' = ofile t" for t' using inv that by (simp add: t1_def ft_inv_def tables_ok_def)
    have c1: "counts_ok t' hs" if "ftable t' = ftable t1" "ofile t' = ofile t" for t'
      by (rule cnt [where g = "\<lambda>x. x\<lparr>f_ref := 0, f_type := FD_NONE\<rparr>"]) (use that t1n True in simp_all)
    have o1: "ofile t1 = ofile t" by (simp add: t1_def)
    have np: "ft_inv bound t1 hs" if "f_type (ftable t ! ?i) \<noteq> FD_PIPE"
    proof -
      have pe: "pipe_end t1 = pipe_end t" using that t1n by (intro ext) (auto simp: pipe_end_def)
      have "pipes_ok bound t1" unfolding pipes_ok_def pe
        using inv t1n unfolding ft_inv_def pipes_ok_def by (auto simp: t1_def split: if_splits)
      then show ?thesis using tb [OF refl o1] c1 [OF refl o1] by (simp add: ft_inv_def)
    qed
    show ?thesis
    proof (cases "f_type (ftable t ! ?i)")
      case FD_NONE
      then show ?thesis using run np o1 by simp
    next
      case FD_INODE
      then show ?thesis using run np o1 r True by (auto simp: rbind_eq_Inr closes_inode_def)
    next
      case FD_PIPE
      obtain p w where pw: "pipe_end t ?i p w" using inv i(1) FD_PIPE unfolding ft_inv_def pipes_ok_def by blast
      then have pp: "f_pipe (ftable t ! ?i) = p" by (simp add: pipe_end_def)
      obtain t2 where t2: "close_pipe bound p (f_writable (ftable t ! ?i)) t1 = Inr t2" "pipes_ok bound t2" "ftable t2 = ftable t1" "ofile t2 = ofile t"
        using close_pipe_spec [OF _ i(1) pw l t1_def] inv unfolding ft_inv_def by blast
      then show ?thesis using run FD_PIPE pp tb [OF t2(3,4)] c1 [OF t2(3,4)] by (simp add: ft_inv_def)
    qed
  qed
qed

subsection \<open>Descriptors\<close>

lemma fdalloc_spec:
  assumes inv: "ft_inv bound t (f # hs)" and cur: "cur < NPROC" and run: "fdalloc cur f t = (t', fd)"
  shows "fd = -1 \<and> t' = t \<or> 0 \<le> fd \<and> nat fd < NOFILE \<and> fd_at t cur (nat fd) = 0 \<and> t' = set_fd cur (nat fd) f t \<and> ft_inv bound t' hs"
proof (cases "List.find (\<lambda>fd. fd_at t cur fd = 0) [0..<NOFILE]")
  case None
  then show ?thesis using run by (simp add: fdalloc_def)
next
  case (Some d)
  then have d: "d < NOFILE" "fd_at t cur d = 0" by (auto simp: find_Some_iff)
  have e: "t' = set_fd cur d f t" "fd = int d" using run Some by (simp_all add: fdalloc_def)
  have f: "1 \<le> f" "f \<le> int NFILE" using inv by (auto simp: ft_inv_def counts_ok_def)
  have "ft_inv bound (set_fd cur d f t) hs"
    by (rule set_fd_inv [OF inv cur d(1)]) (use f d inv in \<open>auto simp: ft_inv_def counts_ok_def\<close>)
  then show ?thesis using d e by simp
qed

lemma clear_fd_inv:
  assumes inv: "ft_inv bound t hs" and c: "cur < NPROC" "fd < NOFILE" and f: "fd_at t cur fd \<noteq> 0"
  shows "ft_inv bound (set_fd cur fd 0 t) (fd_at t cur fd # hs)"
proof (rule set_fd_inv [OF inv c])
  have "0 \<le> fd_at t cur fd" "fd_at t cur fd \<le> int NFILE" using inv c by (auto simp: ft_inv_def tables_ok_def)
  then show "\<forall>h \<in> set (fd_at t cur fd # hs). 1 \<le> h \<and> h \<le> int NFILE" using f inv by (auto simp: ft_inv_def counts_ok_def)
qed auto

text \<open>The table of files and the tables of descriptors are separate, so the order of the two changes does not matter.\<close>

lemma get_file_set_fd [simp]: "get_file (set_fd cur fd x t) f = get_file t f"
  by (simp add: get_file_def set_fd_def)

lemma mod_file_set_fd: "mod_file (set_fd cur fd x t) f g = rbind (mod_file t f g) (\<lambda>t'. Inr (set_fd cur fd x t'))"
  by (cases "arr_mod (ftable t) (f - 1) g") (simp_all add: mod_file_def set_fd_def)

lemma filedup_set_fd: "filedup (set_fd cur fd x t) f = rbind (filedup t f) (\<lambda>t'. Inr (set_fd cur fd x t'))"
  by (cases "get_file t f") (simp_all add: filedup_def mod_file_set_fd)

lemma close_pipe_set_fd: "close_pipe bound p w (set_fd cur fd x t) = rbind (close_pipe bound p w t) (\<lambda>t'. Inr (set_fd cur fd x t'))"
  by (cases "kfree bound p (fkm t)") (simp_all add: close_pipe_def set_fd_def Let_def case_prod_unfold split: option.splits)

lemma fileclose_set_fd:
  "fileclose bound f (set_fd cur fd x t, s) = rbind (fileclose bound f (t, s)) (\<lambda>(t', s'). Inr (set_fd cur fd x t', s'))"
  unfolding fileclose_def Let_def prod.case get_file_set_fd mod_file_set_fd
  by (cases "get_file t f"; cases "mod_file t f (\<lambda>g. g\<lparr>f_ref := 0, f_type := FD_NONE\<rparr>)")
    (simp_all add: rbind_assoc close_pipe_set_fd split: ftype.splits)

lemma held_range: "ft_inv bound t hs \<Longrightarrow> h \<in> set hs \<Longrightarrow> 1 \<le> h \<and> h \<le> int NFILE"
  by (simp add: ft_inv_def counts_ok_def)

lemma argfd_Some:
  assumes "argfd u n cur t = Some (fd, f)"
  shows "fd < NOFILE" and "f = fd_at t cur fd" and "f \<noteq> 0"
  using assms by (auto simp: argfd_def split: option.splits if_splits)

lemma fd_member: "tables_ok t \<Longrightarrow> cur < NPROC \<Longrightarrow> fd < NOFILE \<Longrightarrow> fd_at t cur fd \<in> set (concat (ofile t))"
  by (auto simp: tables_ok_def intro!: bexI [of _ "ofile t ! cur"])

lemma sys_dup_inv:
  assumes inv: "ft_inv bound t []" and cur: "cur < NPROC" and run: "sys_dup u cur (t, s) = Inr ((t', s'), r)"
  shows "ft_inv bound t' []"
proof (cases "argfd u 0 cur t")
  case None
  then show ?thesis using run inv by (simp add: sys_dup_def)
next
  case (Some a)
  obtain fd0 f where a: "a = (fd0, f)" by fastforce
  note f = argfd_Some [OF Some [unfolded a]]
  obtain t1 fd where fa: "fdalloc cur f t = (t1, fd)" by fastforce
  have tb: "tables_ok t" using inv by (simp add: ft_inv_def)
  obtain t2 where t2: "filedup t f = Inr t2" "ft_inv bound t2 [f]" "ofile t2 = ofile t"
    using filedup_spec [OF inv f(3)] fd_member [OF tb cur f(1)] f(2) by auto
  show ?thesis
  proof (cases "List.find (\<lambda>fd. fd_at t cur fd = 0) [0..<NOFILE]")
    case None
    then show ?thesis using run inv Some a by (simp add: sys_dup_def fdalloc_def)
  next
    case (Some d)
    then have d: "fdalloc cur f t = (set_fd cur d f t, int d)" "fdalloc cur f t2 = (set_fd cur d f t2, int d)"
      using t2(3) by (simp_all add: fdalloc_def)
    have "ft_inv bound (set_fd cur d f t2) []" using fdalloc_spec [OF t2(2) cur d(2)] by auto
    moreover have "t' = set_fd cur d f t2"
      using run \<open>argfd u 0 cur t = Some a\<close> a d(1) t2(1) by (simp add: sys_dup_def filedup_set_fd)
    ultimately show ?thesis by simp
  qed
qed

lemma sys_close_inv:
  assumes inv: "ft_inv bound t []" and cur: "cur < NPROC" and run: "sys_close bound u cur (t, s) = Inr ((t', s'), r)"
  shows "ft_inv bound t' []"
proof (cases "argfd u 0 cur t")
  case None
  then show ?thesis using run inv by (simp add: sys_close_def)
next
  case (Some a)
  obtain fd f where a: "a = (fd, f)" by fastforce
  note f = argfd_Some [OF Some [unfolded a]]
  have "ft_inv bound (set_fd cur fd 0 t) [f]" using clear_fd_inv [OF inv cur f(1)] f(2,3) by simp
  moreover have "fileclose bound f (set_fd cur fd 0 t, s) = Inr (t', s')" using run Some a by (auto simp: sys_close_def rbind_eq_Inr)
  ultimately show ?thesis using fileclose_spec by blast
qed

subsection \<open>New pipes and files\<close>

text \<open>Two files without type become the ends of a pipe in a fresh page.\<close>

lemma make_pipe_inv:
  assumes inv: "ft_inv bound t hs" and i: "i < NFILE" "j < NFILE" "i \<noteq> j"
    and ty: "f_type (ftable t ! i) = FD_NONE" "f_type (ftable t ! j) = FD_NONE" "f_ref (ftable t ! i) \<noteq> 0" "f_ref (ftable t ! j) \<noteq> 0"
    and k: "kalloc (fkm t) = Inr (m, p)" "p \<noteq> 0"
    and t': "ftable t' = (ftable t)[i := (ftable t ! i)\<lparr>f_type := FD_PIPE, f_readable := 1, f_writable := 0, f_pipe := p\<rparr>,
        j := (ftable t ! j)\<lparr>f_type := FD_PIPE, f_readable := 0, f_writable := 1, f_pipe := p\<rparr>]" "ofile t' = ofile t"
      "pipes t' = (pipes t)(p := Some q)" "fkm t' = m" and q: "readopen q = 1" "writeopen q = 1"
  shows "ft_inv bound t' hs"
proof -
  have l: "length (ftable t) = NFILE" using inv by (simp add: ft_inv_def tables_ok_def)
  have n: "ftable t' ! x = (if x = i then (ftable t ! i)\<lparr>f_type := FD_PIPE, f_readable := 1, f_writable := 0, f_pipe := p\<rparr>
      else if x = j then (ftable t ! j)\<lparr>f_type := FD_PIPE, f_readable := 0, f_writable := 1, f_pipe := p\<rparr> else ftable t ! x)" for x
    using i l by (auto simp: t'(1) nth_list_update)
  have po: "pipes_ok bound t" using inv by (simp add: ft_inv_def)
  obtain ps where ps: "km_ok bound (fkm t) ps" "\<And>p. pipes t p \<noteq> None \<Longrightarrow> p \<notin> set ps \<and> page_ok bound p \<and> length (pmem (fkm t) p) = PGSIZE"
    using po unfolding pipes_ok_def by blast
  obtain ps' where pp: "ps = p # ps'" "km_ok bound m ps'" "pmem m = pmem (fkm t)"
    using kalloc_spec [OF ps(1)] k by (cases ps) (auto simp: first_or_null_def)
  have "p \<in> set ps" using pp(1) by simp
  then have fresh: "pipes t p = None" using ps(2) [of p] by blast
  have pg: "page_ok bound p" "length (pmem (fkm t) p) = PGSIZE" "p \<notin> set ps'" using ps(1) pp(1) by (auto simp: km_ok_def)
  have pe: "pipe_end t' x a w \<longleftrightarrow> (if x = i then a = p \<and> \<not> w else if x = j then a = p \<and> w else pipe_end t x a w)" for x a w
    using i by (auto simp: pipe_end_def n)
  have old: "\<not> pipe_end t i a w" "\<not> pipe_end t j a w" for a w using ty by (simp_all add: pipe_end_def)
  have nop: "\<not> pipe_end t x p w" for x w using po fresh unfolding pipes_ok_def by fastforce
  have iff: "(\<exists>x. pipe_end t' x a w) \<longleftrightarrow> (\<exists>r. pipes t' a = Some r \<and> end_open r w)" for a w
  proof (cases "a = p")
    case True
    have "\<exists>x. pipe_end t' x p w" using i(3) by (intro exI [of _ "if w then j else i"]) (simp add: pe)
    moreover have "end_open q w" using q by (simp add: end_open_def)
    ultimately show ?thesis using True by (simp add: t'(3))
  next
    case False
    then have "(\<exists>x. pipe_end t' x a w) \<longleftrightarrow> (\<exists>x. pipe_end t x a w)" unfolding pe using old by metis
    also have "\<dots> \<longleftrightarrow> (\<exists>r. pipes t a = Some r \<and> end_open r w)" using po unfolding pipes_ok_def by blast
    finally show ?thesis using False by (simp add: t'(3))
  qed
  have "pipes_ok bound t'"
    unfolding pipes_ok_def
  proof (intro conjI allI impI)
    show "\<exists>a w. pipe_end t' x a w" if h: "x < NFILE" "f_type (ftable t' ! x) = FD_PIPE" for x
    proof (cases "x = i \<or> x = j")
      case True
      then show ?thesis unfolding pe using i(3) by auto
    next
      case False
      then have "f_type (ftable t ! x) = FD_PIPE" using h(2) by (simp add: n)
      then obtain a w where "pipe_end t x a w" using po h(1) unfolding pipes_ok_def by blast
      then show ?thesis unfolding pe using False by auto
    qed
    show "(\<exists>x. pipe_end t' x a w) \<longleftrightarrow> (\<exists>r. pipes t' a = Some r \<and> end_open r w)" for a w by (rule iff)
    show "x = y" if "pipe_end t' x a w" "pipe_end t' y a w" for a w x y
    proof (cases "a = p")
      case True
      then show ?thesis using that nop i(3) unfolding pe by (auto split: if_splits)
    next
      case False
      then have "pipe_end t x a w" "pipe_end t y a w" using that unfolding pe by (auto split: if_splits)
      then show ?thesis using po unfolding pipes_ok_def by blast
    qed
    show "end_open r True \<or> end_open r False" if "pipes t' a = Some r" for a r
      using that po q unfolding pipes_ok_def by (auto simp: t'(3) end_open_def split: if_splits)
    show "\<exists>ps. km_ok bound (fkm t') ps \<and> (\<forall>a. pipes t' a \<noteq> None \<longrightarrow> a \<notin> set ps \<and> page_ok bound a \<and> length (pmem (fkm t') a) = PGSIZE)"
    proof (intro exI [of _ ps'] conjI allI impI)
      show "km_ok bound (fkm t') ps'" using pp(2) by (simp add: t'(4))
      fix a assume a: "pipes t' a \<noteq> None"
      show "a \<notin> set ps'" "page_ok bound a" "length (pmem (fkm t') a) = PGSIZE"
        using a ps(2) [of a] pg pp(1,3) by (auto simp: t'(3,4) split: if_splits)
    qed
  qed
  moreover have "counts_ok t' hs" using inv ty by (auto simp: ft_inv_def counts_ok_def n refs_def t'(2))
  moreover have "tables_ok t'" using inv by (simp add: ft_inv_def tables_ok_def t'(1,2))
  ultimately show ?thesis by (simp add: ft_inv_def)
qed

end
