(* ===== verification/SysFile.thy ===== *)
theory SysFile
  imports Files Shell
begin

text \<open>
  System calls on path names (sysfile.c): links, creation and opening of files, directories. They work on the file system of
  \<open>FileSys\<close> between \<open>begin_op\<close> and \<open>end_op\<close>; \<open>junk\<close> is the uninitialised array \<open>name\<close> on the kernel stack. A null inode is -1.
\<close>

text \<open>The end of a system call: \<open>end_op\<close> and its result.\<close>

definition finish :: "'a fs_state_scheme \<Rightarrow> 'r \<Rightarrow> ('a fs_state_scheme \<times> 'r) res" where
  "finish s r = rbind (end_op s) (\<lambda>s1. Inr (s1, r))"

definition link_bad :: "'a fs_state_scheme \<Rightarrow> int \<Rightarrow> ('a fs_state_scheme \<times> int) res" where
  "link_bad s ip =
     rbind (ilock s ip) (\<lambda>s1.
     rbind (mod_ip s1 ip (\<lambda>i. i\<lparr>i_nlink := i_nlink i - 1\<rparr>)) (\<lambda>s2.
     rbind (iupdate s2 ip) (\<lambda>s3.
     rbind (iunlockput s3 ip) (\<lambda>s4. finish s4 (-1)))))"

definition sys_link :: "'a fs_state_scheme dev_read \<Rightarrow> 'a fs_state_scheme dev_write \<Rightarrow> byte list \<Rightarrow> uctx \<Rightarrow> 'a fs_state_scheme \<Rightarrow>
    ('a fs_state_scheme \<times> int) res" where
  "sys_link dr dw junk u s =
     (case (argstr u 0, argstr u 1) of
        (Some old, Some new) \<Rightarrow>
          rbind (begin_op s) (\<lambda>s1.
          rbind (namei dr s1 old) (\<lambda>(s2, ip).
          if ip = -1 then finish s2 (-1)
          else
            rbind (ilock s2 ip) (\<lambda>s3.
            rbind (get_ip s3 ip) (\<lambda>i.
            if i_type i = T_DIR then rbind (iunlockput s3 ip) (\<lambda>s4. finish s4 (-1))
            else
              rbind (mod_ip s3 ip (\<lambda>i. i\<lparr>i_nlink := i_nlink i + 1\<rparr>)) (\<lambda>s4.
              rbind (iupdate s4 ip) (\<lambda>s5.
              rbind (iunlock s5 ip) (\<lambda>s6.
              rbind (nameiparent dr s6 new junk) (\<lambda>(s7, dp, name).
              if dp = -1 then link_bad s7 ip
              else
                rbind (ilock s7 dp) (\<lambda>s8.
                rbind (get_ip s8 dp) (\<lambda>d.
                rbind (get_ip s8 ip) (\<lambda>i.
                rbind (if i_dev d \<noteq> i_dev i then Inr (s8, -1) else dirlink dr dw s8 dp name (i_inum i)) (\<lambda>(s9, r).
                rbind (iunlockput s9 dp) (\<lambda>s10.
                if r < 0 then link_bad s10 ip
                else rbind (iput s10 ip) (\<lambda>s11. finish s11 0))))))))))))))
      | _ \<Rightarrow> Inr (s, -1))"

definition isdirempty :: "'a fs_state_scheme dev_read \<Rightarrow> 'a fs_state_scheme \<Rightarrow> int \<Rightarrow> ('a fs_state_scheme \<times> bool) res" where
  "isdirempty dr s dp =
     rbind (get_ip s dp) (\<lambda>d.
     for_each (\<lambda>k (s, e). rbind (read_dirent ''isdirempty: readi'' dr s dp (32 * int k)) (\<lambda>(s1, inum, _).
         if inum \<noteq> 0 then brk (s1, False) else cont (s1, e))) [2..<nat ((i_size d + 31) div 32)] (s, True))"

definition unlink_bad :: "'a fs_state_scheme \<Rightarrow> int \<Rightarrow> ('a fs_state_scheme \<times> int) res" where
  "unlink_bad s dp = rbind (iunlockput s dp) (\<lambda>s1. finish s1 (-1))"

definition sys_unlink :: "'a fs_state_scheme dev_read \<Rightarrow> 'a fs_state_scheme dev_write \<Rightarrow> byte list \<Rightarrow> uctx \<Rightarrow> 'a fs_state_scheme \<Rightarrow>
    ('a fs_state_scheme \<times> int) res" where
  "sys_unlink dr dw junk u s =
     (case argstr u 0 of
        None \<Rightarrow> Inr (s, -1)
      | Some path \<Rightarrow>
          rbind (begin_op s) (\<lambda>s1.
          rbind (nameiparent dr s1 path junk) (\<lambda>(s2, dp, name).
          if dp = -1 then finish s2 (-1)
          else
            rbind (ilock s2 dp) (\<lambda>s3.
            rbind (namecmp name [46, 0]) (\<lambda>c1.
            rbind (namecmp name [46, 46, 0]) (\<lambda>c2.
            if c1 = 0 \<or> c2 = 0 then unlink_bad s3 dp
            else
              rbind (dirlookup dr s3 dp name) (\<lambda>(s4, ip, off).
              if ip = -1 then unlink_bad s4 dp
              else
                rbind (ilock s4 ip) (\<lambda>s5.
                rbind (get_ip s5 ip) (\<lambda>i.
                if i_nlink i < 1 then Inl (Panic ''unlink: nlink < 1'')
                else
                  rbind (if i_type i = T_DIR then isdirempty dr s5 ip else Inr (s5, True)) (\<lambda>(s6, empty).
                  if \<not> empty then rbind (iunlockput s6 ip) (\<lambda>s7. unlink_bad s7 dp)
                  else
                    rbind (writei dw s6 dp (replicate 32 0) off) (\<lambda>(s7, r).
                    if r \<noteq> 32 then Inl (Panic ''unlink: writei'')
                    else
                      rbind (if i_type i = T_DIR then
                          rbind (mod_ip s7 dp (\<lambda>d. d\<lparr>i_nlink := i_nlink d - 1\<rparr>)) (\<lambda>s8. iupdate s8 dp)
                        else Inr s7) (\<lambda>s8.
                      rbind (iunlockput s8 dp) (\<lambda>s9.
                      rbind (mod_ip s9 ip (\<lambda>i. i\<lparr>i_nlink := i_nlink i - 1\<rparr>)) (\<lambda>s10.
                      rbind (iupdate s10 ip) (\<lambda>s11.
                      rbind (iunlockput s11 ip) (\<lambda>s12. finish s12 0))))))))))))))))"

text \<open>The new or existing inode, locked, or -1.\<close>

definition create :: "'a fs_state_scheme dev_read \<Rightarrow> 'a fs_state_scheme dev_write \<Rightarrow> byte list \<Rightarrow> byte list \<Rightarrow> int \<Rightarrow> int \<Rightarrow> int \<Rightarrow>
    'a fs_state_scheme \<Rightarrow> ('a fs_state_scheme \<times> int) res" where
  "create dr dw junk path ty major minor s =
     rbind (nameiparent dr s path junk) (\<lambda>(s1, dp, name).
     if dp = -1 then Inr (s1, -1)
     else
       rbind (ilock s1 dp) (\<lambda>s2.
       rbind (dirlookup dr s2 dp name) (\<lambda>(s3, ip, _).
       if ip \<noteq> -1 then
         rbind (iunlockput s3 dp) (\<lambda>s4.
         rbind (ilock s4 ip) (\<lambda>s5.
         rbind (get_ip s5 ip) (\<lambda>i.
         if ty = T_FILE \<and> i_type i = T_FILE then Inr (s5, ip)
         else rbind (iunlockput s5 ip) (\<lambda>s6. Inr (s6, -1)))))
       else
         rbind (get_ip s3 dp) (\<lambda>d.
         rbind (ialloc s3 (i_dev d) ty) (\<lambda>(s4, ip).
         rbind (ilock s4 ip) (\<lambda>s5.
         rbind (mod_ip s5 ip (\<lambda>i. i\<lparr>i_major := major, i_minor := minor, i_nlink := 1\<rparr>)) (\<lambda>s6.
         rbind (iupdate s6 ip) (\<lambda>s7.
         rbind (get_ip s7 ip) (\<lambda>i.
         rbind (if ty = T_DIR then
             rbind (mod_ip s7 dp (\<lambda>d. d\<lparr>i_nlink := i_nlink d + 1\<rparr>)) (\<lambda>s8.
             rbind (iupdate s8 dp) (\<lambda>s9.
             rbind (dirlink dr dw s9 ip [46, 0] (i_inum i)) (\<lambda>(s10, r1).
             if r1 < 0 then Inl (Panic ''create dots'')
             else rbind (dirlink dr dw s10 ip [46, 46, 0] (i_inum d)) (\<lambda>(s11, r2).
               if r2 < 0 then Inl (Panic ''create dots'') else Inr s11))))
           else Inr s7) (\<lambda>s12.
         rbind (dirlink dr dw s12 dp name (i_inum i)) (\<lambda>(s13, r).
         if r < 0 then Inl (Panic ''create: dirlink'')
         else rbind (iunlockput s13 dp) (\<lambda>s14. Inr (s14, ip)))))))))))))"

definition open_fail :: "ft \<Rightarrow> 'a fs_state_scheme \<Rightarrow> int \<Rightarrow> ('a io \<times> int) res" where
  "open_fail t s ip = rbind (iunlockput s ip) (\<lambda>s1. rbind (end_op s1) (\<lambda>s2. Inr ((t, s2), -1)))"

unbundle bit_operations_syntax

definition sys_open :: "addr \<Rightarrow> 'a fs_state_scheme dev_read \<Rightarrow> 'a fs_state_scheme dev_write \<Rightarrow> byte list \<Rightarrow> uctx \<Rightarrow> nat \<Rightarrow> 'a io \<Rightarrow>
    ('a io \<times> int) res" where
  "sys_open bound dr dw junk u cur st =
     (let (t, s) = st in
      case (argstr u 0, argint u 1) of
        (Some path, Some omode) \<Rightarrow>
          rbind (begin_op s) (\<lambda>s1.
          rbind (if omode AND O_CREATE \<noteq> 0 then create dr dw junk path T_FILE 0 0 s1
                 else rbind (namei dr s1 path) (\<lambda>(s2, ip).
                   if ip = -1 then Inr (s2, -1)
                   else rbind (ilock s2 ip) (\<lambda>s3. rbind (get_ip s3 ip) (\<lambda>i.
                     if i_type i = T_DIR \<and> omode \<noteq> O_RDONLY then rbind (iunlockput s3 ip) (\<lambda>s4. Inr (s4, -1))
                     else Inr (s3, ip))))) (\<lambda>(s5, ip).
          if ip = -1 then rbind (end_op s5) (\<lambda>s6. Inr ((t, s6), -1))
          else
            let (t1, f) = filealloc t in
            if f = 0 then open_fail t1 s5 ip
            else
              let (t2, fd) = fdalloc cur f t1 in
              if fd < 0 then rbind (fileclose bound f (t2, s5)) (\<lambda>(t3, s6). open_fail t3 s6 ip)
              else
                rbind (iunlock s5 ip) (\<lambda>s6.
                rbind (end_op s6) (\<lambda>s7.
                rbind (mod_file t2 f (\<lambda>g. g\<lparr>f_type := FD_INODE, f_ip := ip, f_off := 0,
                  f_readable := (if omode AND O_WRONLY = 0 then 1 else 0),
                  f_writable := (if omode AND O_WRONLY \<noteq> 0 \<or> omode AND O_RDWR \<noteq> 0 then 1 else 0)\<rparr>)) (\<lambda>t3.
                Inr ((t3, s7), fd))))))
      | _ \<Rightarrow> Inr (st, -1))"

definition make_node :: "'a fs_state_scheme dev_read \<Rightarrow> 'a fs_state_scheme dev_write \<Rightarrow> byte list \<Rightarrow> (byte list \<times> int \<times> int \<times> int) option \<Rightarrow>
    'a fs_state_scheme \<Rightarrow> ('a fs_state_scheme \<times> int) res" where
  "make_node dr dw junk arg s =
     rbind (begin_op s) (\<lambda>s1.
     case arg of
       None \<Rightarrow> finish s1 (-1)
     | Some (path, ty, major, minor) \<Rightarrow>
         rbind (create dr dw junk path ty major minor s1) (\<lambda>(s2, ip).
         if ip = -1 then finish s2 (-1) else rbind (iunlockput s2 ip) (\<lambda>s3. finish s3 0)))"

definition sys_mkdir :: "'a fs_state_scheme dev_read \<Rightarrow> 'a fs_state_scheme dev_write \<Rightarrow> byte list \<Rightarrow> uctx \<Rightarrow> 'a fs_state_scheme \<Rightarrow>
    ('a fs_state_scheme \<times> int) res" where
  "sys_mkdir dr dw junk u s = make_node dr dw junk (map_option (\<lambda>path. (path, T_DIR, 0, 0)) (argstr u 0)) s"

text \<open>The numbers of the device are cut to \<open>short\<close>.\<close>

definition short :: "int \<Rightarrow> int" where
  "short x = sint (word_of_int x :: 16 word)"

definition sys_mknod :: "'a fs_state_scheme dev_read \<Rightarrow> 'a fs_state_scheme dev_write \<Rightarrow> byte list \<Rightarrow> uctx \<Rightarrow> 'a fs_state_scheme \<Rightarrow>
    ('a fs_state_scheme \<times> int) res" where
  "sys_mknod dr dw junk u s =
     make_node dr dw junk (case (argstr u 0, argint u 1, argint u 2) of
       (Some path, Some major, Some minor) \<Rightarrow> Some (path, T_DEV, short major, short minor) | _ \<Rightarrow> None) s"

definition sys_chdir :: "'a fs_state_scheme dev_read \<Rightarrow> uctx \<Rightarrow> 'a fs_state_scheme \<Rightarrow> ('a fs_state_scheme \<times> int) res" where
  "sys_chdir dr u s =
     rbind (begin_op s) (\<lambda>s1.
     case argstr u 0 of
       None \<Rightarrow> finish s1 (-1)
     | Some path \<Rightarrow>
         rbind (namei dr s1 path) (\<lambda>(s2, ip).
         if ip = -1 then finish s2 (-1)
         else
           rbind (ilock s2 ip) (\<lambda>s3.
           rbind (get_ip s3 ip) (\<lambda>i.
           if i_type i \<noteq> T_DIR then rbind (iunlockput s3 ip) (\<lambda>s4. finish s4 (-1))
           else
             rbind (iunlock s3 ip) (\<lambda>s4.
             rbind (iput s4 (cwd s4)) (\<lambda>s5.
             rbind (end_op s5) (\<lambda>s6. Inr (s6\<lparr>cwd := ip\<rparr>, 0))))))))"

text \<open>The argument vector of \<open>exec\<close>: at most \<open>MAXARG - 1\<close> strings, from the array at \<open>uargv\<close>.\<close>

definition MAXARG :: nat where "MAXARG = 32"

fun fetch_argv :: "uctx \<Rightarrow> addr \<Rightarrow> nat \<Rightarrow> byte list list option" where
  "fetch_argv u a 0 = None"
| "fetch_argv u a (Suc room) =
     (case fetchint u a of
        None \<Rightarrow> None
      | Some uarg \<Rightarrow>
          if uarg = 0 then Some []
          else case fetchstr u uarg of
            None \<Rightarrow> None
          | Some len \<Rightarrow> map_option (\<lambda>r. user_bytes u uarg (len + 1) # r) (fetch_argv u (a + 4) room))"

definition exec_args :: "uctx \<Rightarrow> (byte list \<times> byte list list) option" where
  "exec_args u =
     (case (argstr u 0, argint u 1) of
        (Some path, Some uargv) \<Rightarrow> map_option (\<lambda>argv. (path, argv)) (fetch_argv u (word_of_int uargv) MAXARG)
      | _ \<Rightarrow> None)"

end
