(* ===== verification/Files_Claims.thy ===== *)
theory Files_Claims
  imports Files_Correct SysFile
begin

text \<open>
  The file table over all histories of system calls: reference counts, and the life of pipes.
\<close>

subsection \<open>Creation of pipes\<close>

lemma pipealloc_spec:
  assumes inv: "ft_inv bound t []"
  shows "\<exists>t' r w. pipealloc bound junk (t, s) = Inr ((t', s), r, w) \<and> ofile t' = ofile t \<and>
    (r = 0 \<and> ft_inv bound t' [] \<or> r \<noteq> 0 \<and> ft_inv bound t' [w, r])"
proof -
  obtain t1 f0 where a0: "filealloc t = (t1, f0)" by fastforce
  show ?thesis
  proof (cases "f0 = 0")
    case True
    then have "t1 = t" using filealloc_spec [OF inv a0] by auto
    then show ?thesis using a0 inv True by (simp add: pipealloc_def)
  next
    case False
    then have f0: "1 \<le> f0" "f0 \<le> int NFILE" "ft_inv bound t1 [f0]" "f_type (ftable t1 ! nat (f0 - 1)) = FD_NONE" "f_ref (ftable t1 ! nat (f0 - 1)) = 1" "ofile t1 = ofile t"
      using filealloc_spec [OF inv a0] by auto
    obtain t2 f1 where a1: "filealloc t1 = (t2, f1)" by fastforce
    show ?thesis
    proof (cases "f1 = 0")
      case True
      then have t2: "t2 = t1" using filealloc_spec [OF f0(3) a1] by auto
      have "\<not> closes_inode t1 f0" using f0(4) by (simp add: closes_inode_def)
      then obtain t3 where t3: "fileclose bound f0 (t1, s) = Inr (t3, s)" "ft_inv bound t3 []" "ofile t3 = ofile t1"
        using fileclose_spec [OF f0(3), of s] by blast
      then show ?thesis using a0 a1 True False t2 f0(6) by (simp add: pipealloc_def)
    next
      case nz: False
      then have f1: "1 \<le> f1" "f1 \<le> int NFILE" "ft_inv bound t2 [f1, f0]" "f_type (ftable t2 ! nat (f1 - 1)) = FD_NONE" "f_ref (ftable t2 ! nat (f1 - 1)) = 1"
        "ofile t2 = ofile t1" "f1 \<noteq> f0" using filealloc_spec [OF f0(3) a1] by auto
      have l: "length (ftable t2) = NFILE" using f1(3) by (simp add: ft_inv_def tables_ok_def)
      have same: "ftable t2 ! nat (f0 - 1) = ftable t1 ! nat (f0 - 1)"
      proof -
        have "nat (f0 - 1) \<noteq> nat (f1 - 1)" using f0(1) f1(1,7) by simp
        then show ?thesis using a1 nz by (auto simp: filealloc_def split: option.splits)
      qed
      obtain ps where ps: "km_ok bound (fkm t2) ps" "\<forall>p. pipes t2 p \<noteq> None \<longrightarrow> p \<notin> set ps \<and> page_ok bound p \<and> length (pmem (fkm t2) p) = PGSIZE"
        using f1(3) unfolding ft_inv_def pipes_ok_def by blast
      obtain m where m: "kalloc (fkm t2) = Inr (m, first_or_null ps)" "km_ok bound m (drop 1 ps)" "pmem m = pmem (fkm t2)"
        using kalloc_spec [OF ps(1)] by blast
      show ?thesis
      proof (cases "first_or_null ps = 0")
        case True
        have "ps = []" using True ps(1) by (cases ps) (auto simp: first_or_null_def km_ok_def page_ok_def)
        then have "pipes_ok bound (t2\<lparr>fkm := m\<rparr>)"
        proof -
          have pe: "pipe_end (t2\<lparr>fkm := m\<rparr>) = pipe_end t2" by (intro ext) (simp add: pipe_end_def)
          show ?thesis using f1(3) m ps \<open>ps = []\<close> unfolding ft_inv_def pipes_ok_def pe by (auto intro!: exI [of _ "[]"])
        qed
        then have i3: "ft_inv bound (t2\<lparr>fkm := m\<rparr>) [f0, f1]"
          using f1(3) by (auto simp: ft_inv_def tables_ok_def counts_ok_def refs_def)
        have "\<not> closes_inode (t2\<lparr>fkm := m\<rparr>) f0" using f0(4) same by (simp add: closes_inode_def)
        then obtain t4 where t4: "fileclose bound f0 (t2\<lparr>fkm := m\<rparr>, s) = Inr (t4, s)" "ft_inv bound t4 [f1]" "ofile t4 = ofile t2"
          using fileclose_spec [OF i3, of s] by auto
        have l4: "f_type (ftable t4 ! nat (f1 - 1)) \<noteq> FD_INODE"
        proof -
          have d: "nat (f1 - 1) \<noteq> nat (f0 - 1)" using f0(1) f1(1,7) by simp
          have "mod_file (t2\<lparr>fkm := m\<rparr>) f0 g = Inr (t2\<lparr>fkm := m, ftable := (ftable t2)[nat (f0 - 1) := g (ftable t2 ! nat (f0 - 1))]\<rparr>)" for g
            using f0(1,2) l by (simp add: mod_file_nth)
          moreover have "get_file (t2\<lparr>fkm := m\<rparr>) f0 = Inr (ftable t2 ! nat (f0 - 1))" using f0(1,2) l by (simp add: get_file_nth)
          ultimately have "ftable t4 ! nat (f1 - 1) = ftable t2 ! nat (f1 - 1)"
            using t4(1) f0(4,5) same d by (auto simp: fileclose_def split: if_splits)
          then show ?thesis using f1(4) by simp
        qed
        then have "\<not> closes_inode t4 f1" by (simp add: closes_inode_def)
        then obtain t5 where t5: "fileclose bound f1 (t4, s) = Inr (t5, s)" "ft_inv bound t5 []" "ofile t5 = ofile t4"
          using fileclose_spec [OF t4(2), of s] by blast
        show ?thesis using a0 a1 False nz m(1) True t4 t5 f0(6) f1(6) by (simp add: pipealloc_def)
      next
        case nzp: False
        let ?p = "first_or_null ps"
        let ?q = "\<lparr>p_data = junk, nread = 0, nwrite = 0, readopen = 1, writeopen = 1\<rparr>"
        let ?i = "nat (f0 - 1)" let ?j = "nat (f1 - 1)"
        have ij: "?i < NFILE" "?j < NFILE" "?i \<noteq> ?j" using f0(1,2) f1(1,2,7) by auto
        define t6 where "t6 = t2\<lparr>fkm := m, pipes := (pipes t2)(?p := Some ?q),
          ftable := (ftable t2)[?i := (ftable t2 ! ?i)\<lparr>f_type := FD_PIPE, f_readable := 1, f_writable := 0, f_pipe := ?p\<rparr>,
            ?j := (ftable t2 ! ?j)\<lparr>f_type := FD_PIPE, f_readable := 0, f_writable := 1, f_pipe := ?p\<rparr>]\<rparr>"
        have "pipealloc bound junk (t, s) = Inr ((t6, s), f0, f1)"
          using a0 a1 False nz m(1) nzp f0(1,2) f1(1,2) l ij(3)
          by (simp add: pipealloc_def mod_file_nth t6_def)
        moreover have "ft_inv bound t6 [f1, f0]"
          by (rule make_pipe_inv [OF f1(3) ij _ f1(4) _ _ m(1) nzp, where q = "?q"])
            (use f0(4,5) f1(5) same in \<open>simp_all add: t6_def\<close>)
        ultimately show ?thesis using False f0(6) f1(6) by (auto simp: t6_def)
      qed
    qed
  qed
qed

lemma sys_pipe_inv:
  assumes inv: "ft_inv bound t []" and cur: "cur < NPROC" and run: "sys_pipe bound junk u cur (t, s) = Inr ((t', s'), u', r)"
  shows "ft_inv bound t' []"
proof (cases "argptr u 0 8")
  case None
  then show ?thesis using run inv by (simp add: sys_pipe_def)
next
  case (Some a)
  obtain t1 rf wf where p: "pipealloc bound junk (t, s) = Inr ((t1, s), rf, wf)"
    "rf = 0 \<and> ft_inv bound t1 [] \<or> rf \<noteq> 0 \<and> ft_inv bound t1 [wf, rf]" using pipealloc_spec [OF inv] by blast
  show ?thesis
  proof (cases "rf = 0")
    case True
    then show ?thesis using run Some p by (simp add: sys_pipe_def)
  next
    case False
    then have i1: "ft_inv bound t1 [wf, rf]" using p(2) by simp
    then have i1': "ft_inv bound t1 [rf, wf]" by (auto simp: ft_inv_def counts_ok_def refs_def)
    obtain t2 fd0 where a0: "fdalloc cur rf t1 = (t2, fd0)" by fastforce
    note d0 = fdalloc_spec [OF i1' cur a0]
    show ?thesis
    proof (cases "fd0 < 0")
      case True
      then have t2: "t2 = t1" using d0 by auto
      obtain t3 s3 t4 s4 where c: "fileclose bound rf (t1, s) = Inr (t3, s3)" "fileclose bound wf (t3, s3) = Inr (t4, s4)" "t' = t4"
        using run Some p(1) False a0 True t2 by (auto simp: sys_pipe_def rbind_eq_Inr)
      have "ft_inv bound t3 [wf]" using fileclose_spec [OF i1', of s] c(1) by blast
      then show ?thesis using fileclose_spec [of bound t3 wf "[]" s3] c(2,3) by blast
    next
      case nn: False
      then have d: "0 \<le> fd0" "nat fd0 < NOFILE" "fd_at t1 cur (nat fd0) = 0" "t2 = set_fd cur (nat fd0) rf t1" "ft_inv bound t2 [wf]"
        using d0 by auto
      obtain t3 fd1 where a1: "fdalloc cur wf t2 = (t3, fd1)" by fastforce
      note d1 = fdalloc_spec [OF d(5) cur a1]
      show ?thesis
      proof (cases "fd1 < 0")
        case True
        then have t3: "t3 = t2" using d1 by auto
        have at: "fd_at t2 cur (nat fd0) = rf"
          using d(2) cur i1 by (simp add: d(4) set_fd_def ft_inv_def tables_ok_def)
        have i2: "ft_inv bound (set_fd cur (nat fd0) 0 t2) [rf, wf]"
          using clear_fd_inv [OF d(5) cur d(2)] at False by simp
        obtain t4 s4 t5 s5 where c: "fileclose bound rf (set_fd cur (nat fd0) 0 t2, s) = Inr (t4, s4)" "fileclose bound wf (t4, s4) = Inr (t5, s5)" "t' = t5"
          using run Some p(1) False a0 nn a1 True t3 by (auto simp: sys_pipe_def rbind_eq_Inr)
        have "ft_inv bound t4 [wf]" using fileclose_spec [OF i2, of s] c(1) by blast
        then show ?thesis using fileclose_spec [of bound t4 wf "[]" s4] c(2,3) by blast
      next
        case nn1: False
        then have "ft_inv bound t3 []" using d1 by auto
        moreover have "t' = t3" using run Some p(1) False a0 nn a1 nn1 by (auto simp: sys_pipe_def)
        ultimately show ?thesis by simp
      qed
    qed
  qed
qed

subsection \<open>Opening, reading and writing\<close>

lemma set_inode_inv:
  assumes inv: "ft_inv bound t hs" and i: "i < NFILE" "f_type (ftable t ! i) = FD_NONE" "f_ref (ftable t ! i) \<noteq> 0"
    and g: "\<And>x. f_type (g x) = FD_INODE \<and> f_ref (g x) = f_ref x"
  shows "ft_inv bound (t\<lparr>ftable := (ftable t)[i := g (ftable t ! i)]\<rparr>) hs" (is "ft_inv bound ?t hs")
proof -
  have l: "length (ftable t) = NFILE" using inv by (simp add: ft_inv_def tables_ok_def)
  have pe: "pipe_end ?t = pipe_end t" using i g l by (intro ext) (auto simp: pipe_end_def nth_list_update)
  have "pipes_ok bound ?t" using inv g i l unfolding ft_inv_def pipes_ok_def pe by (auto simp: nth_list_update)
  moreover have "counts_ok ?t hs" using inv g i l by (auto simp: ft_inv_def counts_ok_def nth_list_update refs_def)
  moreover have "tables_ok ?t" using inv by (simp add: ft_inv_def tables_ok_def)
  ultimately show ?thesis by (simp add: ft_inv_def)
qed

lemma sys_open_inv:
  assumes inv: "ft_inv bound t []" and cur: "cur < NPROC" and run: "sys_open bound dr dw junk u cur (t, s) = Inr ((t', s'), r)"
  shows "ft_inv bound t' []"
proof (cases "argstr u 0 = None \<or> argint u 1 = None")
  case True
  then show ?thesis using run inv by (auto simp: sys_open_def split: option.splits)
next
  case False
  then obtain path omode where a: "argstr u 0 = Some path" "argint u 1 = Some omode" by auto
  obtain s5 ip where run2: "(if ip = -1 then rbind (end_op s5) (\<lambda>s6. Inr ((t, s6), -1))
      else let (t1, f) = filealloc t in
        if f = 0 then open_fail t1 s5 ip
        else let (t2, fd) = fdalloc cur f t1 in
          if fd < 0 then rbind (fileclose bound f (t2, s5)) (\<lambda>(t3, s6). open_fail t3 s6 ip)
          else rbind (iunlock s5 ip) (\<lambda>s6. rbind (end_op s6) (\<lambda>s7.
            rbind (mod_file t2 f (\<lambda>g. g\<lparr>f_type := FD_INODE, f_ip := ip, f_off := 0,
              f_readable := (if omode AND O_WRONLY = 0 then 1 else 0),
              f_writable := (if omode AND O_WRONLY \<noteq> 0 \<or> omode AND O_RDWR \<noteq> 0 then 1 else 0)\<rparr>)) (\<lambda>t3. Inr ((t3, s7), fd))))) = Inr ((t', s'), r)"
    using run a unfolding sys_open_def by (simp add: rbind_eq_Inr) (blast intro: that)
  obtain t1 f where fa: "filealloc t = (t1, f)" by fastforce
  note sp = filealloc_spec [OF inv fa]
  consider (none) "ip = -1" | (nofile) "ip \<noteq> -1" "f = 0" | (opened) "ip \<noteq> -1" "f \<noteq> 0" by blast
  then show ?thesis
  proof cases
    case none
    then show ?thesis using run2 inv by (auto simp: rbind_eq_Inr)
  next
    case nofile
    then have "t1 = t" using sp by auto
    then show ?thesis using run2 inv nofile fa by (auto simp: rbind_eq_Inr open_fail_def)
  next
    case opened
    then have f: "1 \<le> f" "f \<le> int NFILE" "ft_inv bound t1 [f]" "f_type (ftable t1 ! nat (f - 1)) = FD_NONE" "f_ref (ftable t1 ! nat (f - 1)) = 1" using sp by auto
    obtain t2 fd where da: "fdalloc cur f t1 = (t2, fd)" by fastforce
    note d = fdalloc_spec [OF f(3) cur da]
    show ?thesis
    proof (cases "fd < 0")
      case True
      then have "t2 = t1" using d by auto
      then obtain s6 where "fileclose bound f (t1, s5) = Inr (t', s6)"
        using run2 opened fa da True by (auto simp: rbind_eq_Inr open_fail_def)
      then show ?thesis using fileclose_spec [OF f(3)] by blast
    next
      case False
      then have t2: "t2 = set_fd cur (nat fd) f t1" "ft_inv bound t2 []" using d by auto
      have l: "length (ftable t2) = NFILE" using t2(2) by (simp add: ft_inv_def tables_ok_def)
      let ?g = "\<lambda>g. g\<lparr>f_type := FD_INODE, f_ip := ip, f_off := 0, f_readable := (if omode AND O_WRONLY = 0 then 1 else 0),
              f_writable := (if omode AND O_WRONLY \<noteq> 0 \<or> omode AND O_RDWR \<noteq> 0 then 1 else 0)\<rparr>"
      have "mod_file t2 f ?g = Inr (t2\<lparr>ftable := (ftable t2)[nat (f - 1) := ?g (ftable t2 ! nat (f - 1))]\<rparr>)"
        using f(1,2) l by (simp add: mod_file_nth)
      then have "t' = t2\<lparr>ftable := (ftable t2)[nat (f - 1) := ?g (ftable t2 ! nat (f - 1))]\<rparr>"
        using run2 opened fa da False by (auto simp: rbind_eq_Inr)
      moreover have "ft_inv bound (t2\<lparr>ftable := (ftable t2)[nat (f - 1) := ?g (ftable t2 ! nat (f - 1))]\<rparr>) []"
        by (rule set_inode_inv [OF t2(2)]) (use f in \<open>auto simp: t2(1) set_fd_def\<close>)
      ultimately show ?thesis by simp
    qed
  qed
qed

text \<open>Reading and writing change the bytes of a pipe and the offset of a file, and nothing else of the file table.\<close>

definition same_table :: "ft \<Rightarrow> ft \<Rightarrow> bool" where
  "same_table t t' \<longleftrightarrow> ofile t' = ofile t \<and> fkm t' = fkm t \<and> length (ftable t') = length (ftable t) \<and>
     (\<forall>i < length (ftable t). f_ref (ftable t' ! i) = f_ref (ftable t ! i) \<and> f_type (ftable t' ! i) = f_type (ftable t ! i) \<and> f_pipe (ftable t' ! i) = f_pipe (ftable t ! i) \<and>
       f_writable (ftable t' ! i) = f_writable (ftable t ! i) \<and> f_readable (ftable t' ! i) = f_readable (ftable t ! i)) \<and>
     (\<forall>p. (pipes t' p = None) = (pipes t p = None) \<and> (\<forall>q q' w. pipes t p = Some q \<longrightarrow> pipes t' p = Some q' \<longrightarrow> end_open q' w = end_open q w))"

lemma same_table_inv:
  assumes "same_table t t'" and inv: "ft_inv bound t hs"
  shows "ft_inv bound t' hs"
proof -
  have l: "length (ftable t) = NFILE" using inv by (simp add: ft_inv_def tables_ok_def)
  note st = assms(1) [unfolded same_table_def l]
  have pe: "pipe_end t' = pipe_end t" using st by (intro ext) (auto simp: pipe_end_def)
  have pp: "(\<exists>q. pipes t' p = Some q \<and> end_open q w) \<longleftrightarrow> (\<exists>q. pipes t p = Some q \<and> end_open q w)" for p w
    using st by (metis option.exhaust)
  have po: "pipes_ok bound t" using inv by (simp add: ft_inv_def)
  have "pipes_ok bound t'"
    unfolding pipes_ok_def pe pp
  proof (intro conjI)
    show "\<forall>i < NFILE. f_type (ftable t' ! i) = FD_PIPE \<longrightarrow> (\<exists>p w. pipe_end t i p w)" using po st unfolding pipes_ok_def by auto
    show "\<forall>p q. pipes t' p = Some q \<longrightarrow> end_open q True \<or> end_open q False"
    proof (intro allI impI)
      fix p q' assume q': "pipes t' p = Some q'"
      then obtain q where "pipes t p = Some q" using st by (metis option.exhaust option.simps(3))
      then show "end_open q' True \<or> end_open q' False" using po st q' unfolding pipes_ok_def by metis
    qed
    show "\<exists>ps. km_ok bound (fkm t') ps \<and> (\<forall>p. pipes t' p \<noteq> None \<longrightarrow> p \<notin> set ps \<and> page_ok bound p \<and> length (pmem (fkm t') p) = PGSIZE)"
      using po st unfolding pipes_ok_def by auto
  qed (use po in \<open>unfold pipes_ok_def, blast+\<close>)
  moreover have "counts_ok t' hs" using inv st by (auto simp: ft_inv_def counts_ok_def refs_def)
  moreover have "tables_ok t'" using inv st by (simp add: ft_inv_def tables_ok_def)
  ultimately show ?thesis by (simp add: ft_inv_def)
qed

lemma same_table_refl [simp]: "same_table t t"
  by (simp add: same_table_def)

lemma same_table_off: "mod_file t f (\<lambda>g. g\<lparr>f_off := h g\<rparr>) = Inr t' \<Longrightarrow> same_table t t'"
  by (auto simp: mod_file_def arr_mod_def rbind_eq_Inr arr_get_def arr_set_def same_table_def in_range_def nth_list_update split: if_splits)

lemma same_table_pipe:
  "pipes t p = Some q \<Longrightarrow> (\<And>w. end_open q' w = end_open q w) \<Longrightarrow> same_table t (t\<lparr>pipes := (pipes t)(p := Some q')\<rparr>)"
  by (auto simp: same_table_def)

lemma piperead_copy_ends: "piperead_copy n q = Inr (q', cs) \<Longrightarrow> readopen q' = readopen q \<and> writeopen q' = writeopen q"
proof (induction n arbitrary: q q' cs)
  case (Suc n)
  show ?case
  proof (cases "nread q = nwrite q")
    case False
    then obtain cs' where "piperead_copy n (q\<lparr>nread := nread q + 1\<rparr>) = Inr (q', cs')" using Suc.prems by (auto simp: rbind_eq_Inr)
    from Suc.IH [OF this] show ?thesis by simp
  qed (use Suc.prems in simp)
qed simp

lemma piperead_ends: "piperead killed n q = Inr (q', r) \<Longrightarrow> end_open q' w = end_open q w"
  by (auto simp: piperead_def rbind_eq_Inr end_open_def split: if_splits dest: piperead_copy_ends)

lemma pipewrite_ends: "pipewrite killed cs q = Inr (q', r) \<Longrightarrow> end_open q' w = end_open q w"
proof (induction killed cs q rule: pipewrite.induct)
  case (2 killed c cs q)
  show ?case
  proof (cases "nwrite q = nread q + PIPESIZE")
    case True
    then show ?thesis using 2(2) by (auto split: if_splits)
  next
    case False
    then obtain d where d: "arr_set (p_data q) (uint (nwrite q mod PIPESIZE)) c = Inr d"
      "pipewrite killed cs (q\<lparr>p_data := d, nwrite := nwrite q + 1\<rparr>) = Inr (q', r)" using 2(2) by (auto simp: rbind_eq_Inr)
    from 2(1) [OF False d(1,2)] show ?thesis by (simp add: end_open_def)
  qed
qed simp

lemma fileread_same:
  assumes run: "fileread dr killed f n (t, s) = Inr ((t', s'), r, bs)"
  shows "same_table t t'"
proof -
  obtain ff where ff: "get_file t f = Inr ff" using run by (auto simp: fileread_def rbind_eq_Inr)
  show ?thesis
  proof (cases "f_readable ff = 0")
    case True
    then show ?thesis using run ff by (simp add: fileread_def)
  next
    case False
    show ?thesis
    proof (cases "f_type ff")
      case FD_NONE
      then show ?thesis using run ff False by (simp add: fileread_def)
    next
      case FD_INODE
      then show ?thesis using run ff False by (auto simp: fileread_def rbind_eq_Inr split: if_splits intro: same_table_off)
    next
      case FD_PIPE
      then obtain q where q: "pipes t (f_pipe ff) = Some q" using run ff False by (auto simp: fileread_def split: option.splits)
      then obtain q1 x where x: "piperead killed n q = Inr (q1, x)"
        using run ff False FD_PIPE by (auto simp: fileread_def rbind_eq_Inr)
      then have "t' = t\<lparr>pipes := (pipes t)(f_pipe ff := Some q1)\<rparr>"
        using run ff False FD_PIPE q by (cases x) (auto simp: fileread_def Let_def)
      with x have "piperead killed n q = Inr (q1, x)" "t' = t\<lparr>pipes := (pipes t)(f_pipe ff := Some q1)\<rparr>" .
      then show ?thesis using same_table_pipe [OF q] piperead_ends by auto
    qed
  qed
qed

lemma filewrite_same:
  assumes run: "filewrite dw killed f src (t, s) = Inr ((t', s'), r)"
  shows "same_table t t'"
proof -
  obtain ff where ff: "get_file t f = Inr ff" using run by (auto simp: filewrite_def Let_def rbind_eq_Inr)
  show ?thesis
  proof (cases "f_writable ff = 0")
    case True
    then show ?thesis using run ff by (simp add: filewrite_def)
  next
    case False
    show ?thesis
    proof (cases "f_type ff")
      case FD_NONE
      then show ?thesis using run ff False by (simp add: filewrite_def Let_def)
    next
      case FD_INODE
      then show ?thesis using run ff False by (auto simp: filewrite_def Let_def rbind_eq_Inr intro: same_table_off)
    next
      case FD_PIPE
      then obtain q where q: "pipes t (f_pipe ff) = Some q" using run ff False by (auto simp: filewrite_def Let_def split: option.splits)
      then obtain q1 x where x: "pipewrite killed src q = Inr (q1, x)"
        using run ff False FD_PIPE by (auto simp: filewrite_def Let_def rbind_eq_Inr)
      then have "t' = t\<lparr>pipes := (pipes t)(f_pipe ff := Some q1)\<rparr>"
        using run ff False FD_PIPE q by (cases x) (auto simp: filewrite_def Let_def)
      with x have "pipewrite killed src q = Inr (q1, x)" "t' = t\<lparr>pipes := (pipes t)(f_pipe ff := Some q1)\<rparr>" .
      then show ?thesis using same_table_pipe [OF q] pipewrite_ends by auto
    qed
  qed
qed

subsection \<open>Fork and exit\<close>

lemma exit_files_inv:
  assumes inv: "ft_inv bound t []" and cur: "cur < NPROC" and run: "exit_files bound cur (t, s) = Inr st'"
  shows "ft_inv bound (fst st') []"
proof -
  have "ft_inv bound (fst st') [] \<and> True"
    using run unfolding exit_files_def
  proof (rule for_each_inv' [where I = "\<lambda>st. ft_inv bound (fst st) [] \<and> True"])
    fix fd st st1 b
    assume fd: "fd \<in> set [0..<NOFILE]" and i: "ft_inv bound (fst st) [] \<and> True" and
      r: "(case st of (t, s) \<Rightarrow> if fd_at t cur fd \<noteq> 0 then
         rbind (fileclose bound (fd_at t cur fd) (t, s)) (\<lambda>(t1, s1). cont (set_fd cur fd 0 t1, s1)) else cont (t, s)) = Inr (st1, b)"
    obtain t s where st: "st = (t, s)" by fastforce
    show "ft_inv bound (fst st1) [] \<and> True"
    proof (cases "fd_at t cur fd = 0")
      case True
      then show ?thesis using r i st by (auto simp: cont_def)
    next
      case False
      let ?f = "fd_at t cur fd"
      obtain t1 s1 where c: "fileclose bound ?f (t, s) = Inr (t1, s1)" "st1 = (set_fd cur fd 0 t1, s1)"
        using r False st by (auto simp: rbind_eq_Inr cont_def)
      have "ft_inv bound (set_fd cur fd 0 t) [?f]" using clear_fd_inv [OF _ cur, of bound t "[]" fd] i st fd False by simp
      from fileclose_spec [OF this, THEN conjunct1, rule_format, of s "set_fd cur fd 0 t1" s1]
      have "ft_inv bound (set_fd cur fd 0 t1) []" using c(1) by (simp add: fileclose_set_fd)
      then show ?thesis using c(2) by simp
    qed
  qed (use inv in simp)
  then show ?thesis by simp
qed

lemma fork_files_inv:
  assumes inv: "ft_inv bound t []" and c: "cur < NPROC" "np < NPROC" "cur \<noteq> np" and empty: "\<And>fd. fd < NOFILE \<Longrightarrow> fd_at t np fd = 0"
  shows "\<exists>t'. fork_files cur np t = Inr t' \<and> ft_inv bound t' [] \<and> (\<forall>fd < NOFILE. fd_at t' np fd = fd_at t cur fd)"
proof -
  let ?B = "\<lambda>fd t. if fd_at t cur fd \<noteq> 0 then rbind (filedup t (fd_at t cur fd)) (\<lambda>t1. cont (set_fd np fd (fd_at t cur fd) t1)) else cont t"
  have "\<exists>t'. for_each ?B [0..<n] t = Inr t' \<and> ft_inv bound t' [] \<and> ofile t' ! cur = ofile t ! cur \<and>
      (\<forall>fd < NOFILE. fd_at t' np fd = (if fd < n then fd_at t cur fd else 0))" if "n \<le> NOFILE" for n
    using that
  proof (induction n)
    case 0
    then show ?case using inv empty by simp
  next
    case (Suc n)
    then obtain t1 where t1: "for_each ?B [0..<n] t = Inr t1" "ft_inv bound t1 []" "ofile t1 ! cur = ofile t ! cur"
      "\<forall>fd < NOFILE. fd_at t1 np fd = (if fd < n then fd_at t cur fd else 0)" by auto
    have n: "n < NOFILE" using Suc by simp
    have app: "for_each ?B [0..<Suc n] t = rbind (for_each ?B [0..<n] t) (for_each ?B [n])"
      unfolding upt_Suc_append [OF le0] by (rule for_each_append) (auto simp: rbind_eq_Inr cont_def split: if_splits)
    show ?case
    proof (cases "fd_at t cur n = 0")
      case True
      then have "for_each ?B [n] t1 = Inr t1" using t1(3) by (simp add: cont_def)
      then show ?thesis using t1 app True n by (auto simp: less_Suc_eq)
    next
      case False
      have tb: "tables_ok t1" using t1(2) by (simp add: ft_inv_def)
      have mem: "fd_at t cur n \<in> set (concat (ofile t1) @ [])" using fd_member [OF tb c(1) n] t1(3) by simp
      obtain t2 where t2: "filedup t1 (fd_at t cur n) = Inr t2" "ft_inv bound t2 [fd_at t cur n]" "ofile t2 = ofile t1"
        using filedup_spec [OF t1(2) False mem] by blast
      let ?t3 = "set_fd np n (fd_at t cur n) t2"
      have f: "1 \<le> fd_at t cur n" "fd_at t cur n \<le> int NFILE" using held_range [OF t2(2)] by simp_all
      have z: "fd_at t2 np n = 0" using t1(4) n t2(3) by simp
      have i3: "ft_inv bound ?t3 []"
        by (rule set_fd_inv [OF t2(2) c(2) n]) (use f z in auto)
      have l: "np < length (ofile t2)" "n < length (ofile t2 ! np)" using t2(2) c(2) n by (auto simp: ft_inv_def tables_ok_def)
      have "for_each ?B [n] t1 = Inr ?t3" using False t1(3) t2(1) by (simp add: cont_def)
      moreover have "ofile ?t3 ! cur = ofile t ! cur" using c(3) t1(3) t2(3) by (simp add: set_fd_def)
      moreover have "fd_at ?t3 np fd = (if fd < Suc n then fd_at t cur fd else 0)" if "fd < NOFILE" for fd
        using t1(4) t2(3) l that by (auto simp: set_fd_def nth_list_update less_Suc_eq)
      ultimately show ?thesis using app t1(1) i3 by auto
    qed
  qed
  from this [OF order_refl] show ?thesis by (auto simp: fork_files_def)
qed

subsection \<open>Histories\<close>

text \<open>
  One system call on files of the process \<open>p\<close>, or a change of the file system by any other call. \<open>io_fork\<close> copies the descriptors to a
  slot of the process table without any, as \<open>exit\<close> leaves it.
\<close>

inductive io_step :: "addr \<Rightarrow> 'a io \<Rightarrow> 'a io \<Rightarrow> bool" for bound where
  io_dup: "p < NPROC \<Longrightarrow> sys_dup u p st = Inr (st', r) \<Longrightarrow> io_step bound st st'"
| io_close: "p < NPROC \<Longrightarrow> sys_close bound u p st = Inr (st', r) \<Longrightarrow> io_step bound st st'"
| io_pipe: "p < NPROC \<Longrightarrow> sys_pipe bound junk u p st = Inr (st', u', r) \<Longrightarrow> io_step bound st st'"
| io_open: "p < NPROC \<Longrightarrow> sys_open bound dr dw junk u p st = Inr (st', r) \<Longrightarrow> io_step bound st st'"
| io_read: "p < NPROC \<Longrightarrow> sys_read dr killed u p st = Inr (st', u', r) \<Longrightarrow> io_step bound st st'"
| io_write: "p < NPROC \<Longrightarrow> sys_write dw killed u p st = Inr (st', r) \<Longrightarrow> io_step bound st st'"
| io_fork: "p < NPROC \<Longrightarrow> np < NPROC \<Longrightarrow> p \<noteq> np \<Longrightarrow> (\<And>fd. fd < NOFILE \<Longrightarrow> fd_at t np fd = 0) \<Longrightarrow> fork_files p np t = Inr t' \<Longrightarrow>
    io_step bound (t, s) (t', s)"
| io_exit: "p < NPROC \<Longrightarrow> exit_files bound p st = Inr st' \<Longrightarrow> io_step bound st st'"
| io_fs: "io_step bound (t, s) (t, s')"

lemma io_step_inv:
  assumes step: "io_step bound st st'" and inv: "ft_inv bound (fst st) []"
  shows "ft_inv bound (fst st') []"
proof -
  obtain t s t' s' where st: "st = (t, s)" "st' = (t', s')" by (cases st; cases st')
  have i: "ft_inv bound t []" using inv st by simp
  show ?thesis
    using step [unfolded st]
  proof cases
    case (io_dup p u r)
    then show ?thesis using sys_dup_inv [OF i] st by simp
  next
    case (io_close p u r)
    then show ?thesis using sys_close_inv [OF i] st by simp
  next
    case (io_pipe p junk u u' r)
    then show ?thesis using sys_pipe_inv [OF i] st by simp
  next
    case (io_open p dr dw junk u r)
    then show ?thesis using sys_open_inv [OF i] st by simp
  next
    case (io_read p dr killed u u' r)
    then have "same_table t t'"
      by (auto simp: sys_read_def rbind_eq_Inr split: option.splits dest: fileread_same)
    then show ?thesis using same_table_inv i st by simp
  next
    case (io_write p dw killed u r)
    then have "same_table t t'"
      by (auto simp: sys_write_def split: option.splits dest: filewrite_same)
    then show ?thesis using same_table_inv i st by simp
  next
    case (io_fork p np)
    then show ?thesis using fork_files_inv [OF i io_fork(2-5)] st by auto
  next
    case (io_exit p)
    then show ?thesis using exit_files_inv [OF i io_exit(1,2)] st by simp
  next
    case io_fs
    then show ?thesis using i st by simp
  qed
qed

text \<open>The tables at boot, and free pages.\<close>

definition blank_file :: kfile where
  "blank_file = \<lparr>f_type = FD_NONE, f_ref = 0, f_readable = 0, f_writable = 0, f_pipe = 0, f_ip = 0, f_off = 0\<rparr>"

definition io_start :: "addr \<Rightarrow> ft \<Rightarrow> bool" where
  "io_start bound t \<longleftrightarrow> ftable t = replicate NFILE blank_file \<and> ofile t = replicate NPROC (replicate NOFILE 0) \<and> pipes t = (\<lambda>_. None) \<and>
     (\<exists>ps. km_ok bound (fkm t) ps)"

lemma io_start_inv: "io_start bound t \<Longrightarrow> ft_inv bound t []"
proof -
  assume s: "io_start bound t"
  have z: "count_list (concat (replicate n (replicate k (0::int)))) (int i + 1) = 0" for n k i
    by (simp add: count_list_0_iff)
  have pe: "\<not> pipe_end t i p w" for i p w using s by (auto simp: io_start_def pipe_end_def blank_file_def)
  have "pipes_ok bound t" unfolding pipes_ok_def using s pe by (auto simp: io_start_def blank_file_def)
  moreover have "counts_ok t []" using s z by (simp add: io_start_def counts_ok_def refs_def blank_file_def)
  moreover have "tables_ok t" using s by (simp add: io_start_def tables_ok_def)
  ultimately show ?thesis by (simp add: ft_inv_def)
qed

lemma io_reach_inv: "(io_step bound)\<^sup>*\<^sup>* st st' \<Longrightarrow> ft_inv bound (fst st) [] \<Longrightarrow> ft_inv bound (fst st') []"
  by (induction rule: rtranclp_induct) (auto intro: io_step_inv)

text \<open>
  C12 (file_table_invariant): in every history of system calls on files by any processes, the reference count of a file is the number of
  descriptors of all processes that refer to it, and a pipe exists exactly as long as a file is an end of it, with a reader open
  exactly if there is a reading end and a writer exactly if there is a writing end.
\<close>

theorem file_table_invariant:
  assumes "io_start bound t0" and "(io_step bound)\<^sup>*\<^sup>* (t0, s0) (t, s)"
  shows "(\<forall>i < NFILE. f_ref (ftable t ! i) = int (count_list (concat (ofile t)) (int i + 1))) \<and>
    (\<forall>p w. (\<exists>i. pipe_end t i p w) \<longleftrightarrow> (\<exists>q. pipes t p = Some q \<and> end_open q w)) \<and>
    (\<forall>p q. pipes t p = Some q \<longrightarrow> end_open q True \<or> end_open q False)"
proof -
  have "ft_inv bound t []" using io_reach_inv [OF assms(2)] io_start_inv [OF assms(1)] by simp
  then show ?thesis by (simp add: ft_inv_def counts_ok_def refs_def pipes_ok_def)
qed

text \<open>
  C13 (pipe_close): closing a descriptor of a pipe succeeds. If the file has other descriptors, the pipe and the free pages stay as they
  were; otherwise its end is closed: with the other end open the pipe keeps its bytes and its page, with the other end closed too the
  pipe is gone and its page is the first on the list of free pages. Other pipes, files and descriptors stay as they were.
\<close>

theorem pipe_close:
  assumes "ft_inv bound t []" and "cur < NPROC" and "argfd u 0 cur t = Some (fd, f)" and "pipe_end t (nat (f - 1)) p w"
  shows "\<exists>t'. sys_close bound u cur (t, s) = Inr ((t', s), 0) \<and> ft_inv bound t' [] \<and> fd_at t' cur fd = 0 \<and>
    ofile t' = ofile (set_fd cur fd 0 t) \<and> (\<forall>j. j \<noteq> nat (f - 1) \<longrightarrow> ftable t' ! j = ftable t ! j) \<and>
    (if f_ref (ftable t ! nat (f - 1)) \<noteq> 1 then pipes t' = pipes t \<and> fkm t' = fkm t
     else if \<exists>j. pipe_end t j p (\<not> w)
     then fkm t' = fkm t \<and> (\<exists>q q'. pipes t p = Some q \<and> pipes t' p = Some q' \<and> pipe_contents q' = pipe_contents q \<and>
       \<not> end_open q' w \<and> end_open q' (\<not> w)) \<and> (\<forall>a. a \<noteq> p \<longrightarrow> pipes t' a = pipes t a)
     else pipes t' p = None \<and> (\<exists>ps. km_ok bound (fkm t) ps \<and> km_ok bound (fkm t') (p # ps)) \<and> (\<forall>a. a \<noteq> p \<longrightarrow> pipes t' a = pipes t a))"
proof -
  note f = argfd_Some [OF assms(3)]
  let ?t = "set_fd cur fd 0 t" let ?i = "nat (f - 1)"
  have inv: "ft_inv bound ?t [f]" using clear_fd_inv [OF assms(1,2) f(1)] f(2,3) by simp
  have rng: "1 \<le> f" "f \<le> int NFILE" using held_range [OF inv] by simp_all
  have l: "length (ftable t) = NFILE" using assms(1) by (simp add: ft_inv_def tables_ok_def)
  have ty: "f_type (ftable t ! ?i) = FD_PIPE" "f_pipe (ftable t ! ?i) = p" using assms(4) by (simp_all add: pipe_end_def)
  have ft: "ftable ?t = ftable t" "pipes ?t = pipes t" by (simp_all add: set_fd_def)
  have "\<not> closes_inode ?t f" using ty by (simp add: closes_inode_def ft)
  then obtain t' where c: "fileclose bound f (?t, s) = Inr (t', s)" "ft_inv bound t' []" "ofile t' = ofile ?t"
    using fileclose_spec [OF inv, of s] by blast
  have "sys_close bound u cur (t, s) = Inr ((t', s), 0)" using assms(3) c(1) by (simp add: sys_close_def)
  moreover have "fd_at t' cur fd = 0" using c(3) assms(1,2) f(1) by (simp add: set_fd_def ft_inv_def tables_ok_def)
  moreover have "closes_end bound p w (\<exists>j. pipe_end t j p (\<not> w)) t t' \<and> (\<forall>j. j \<noteq> ?i \<longrightarrow> ftable t' ! j = ftable t ! j)"
    if r: "f_ref (ftable t ! ?i) = 1"
  proof -
    define t1 where "t1 = ?t\<lparr>ftable := (ftable ?t)[?i := (ftable ?t ! ?i)\<lparr>f_ref := 0, f_type := FD_NONE\<rparr>]\<rparr>"
    have pe: "pipe_end ?t = pipe_end t" by (intro ext) (simp add: pipe_end_def ft)
    have po: "pipes_ok bound ?t" using inv by (simp add: ft_inv_def)
    have i: "?i < NFILE" using rng by simp
    have pw: "pipe_end ?t ?i p w" using assms(4) by (simp add: pe)
    have lt: "length (ftable ?t) = NFILE" using l by (simp add: ft)
    obtain t2 where t2: "close_pipe bound p (f_writable (ftable ?t ! ?i)) t1 = Inr t2" "closes_end bound p w (\<exists>j. pipe_end ?t j p (\<not> w)) ?t t2"
        "ftable t2 = ftable t1"
      using close_pipe_spec [OF po i pw lt t1_def] by (elim exE conjE) (rule that)
    have "get_file ?t f = Inr (ftable t ! ?i)" "mod_file ?t f (\<lambda>g. g\<lparr>f_ref := 0, f_type := FD_NONE\<rparr>) = Inr t1"
      using rng l by (simp_all add: get_file_nth mod_file_nth ft t1_def del: get_file_set_fd)
    then have tt: "t' = t2" using c(1) r ty t2(1) by (simp add: fileclose_def ft del: get_file_set_fd)
    have same: "fkm ?t = fkm t" by (simp add: set_fd_def)
    have "\<forall>j. j \<noteq> ?i \<longrightarrow> ftable t2 ! j = ftable t ! j" unfolding t2(3) t1_def by (simp add: ft)
    moreover have "closes_end bound p w (\<exists>j. pipe_end t j p (\<not> w)) t t2" using t2(2) unfolding pe closes_end_def ft same .
    ultimately show ?thesis unfolding tt by (rule conjI [rotated])
  qed
  moreover have "pipes t' = pipes t \<and> fkm t' = fkm t \<and> (\<forall>j. j \<noteq> ?i \<longrightarrow> ftable t' ! j = ftable t ! j)" if r: "f_ref (ftable t ! ?i) \<noteq> 1"
  proof -
    have "1 \<le> f_ref (ftable t ! ?i)" using ref_pos [OF inv, of f] rng by (simp add: ft)
    then have "t' = ?t\<lparr>ftable := (ftable ?t)[?i := (ftable ?t ! ?i)\<lparr>f_ref := f_ref (ftable ?t ! ?i) - 1\<rparr>]\<rparr>"
      using c(1) r rng l by (simp add: fileclose_def get_file_nth mod_file_nth ft del: get_file_set_fd)
    then show ?thesis by (simp add: ft set_fd_def)
  qed
  ultimately show ?thesis using c(2,3) unfolding closes_end_def
    by (intro exI [of _ t']) (cases "f_ref (ftable t ! ?i) = 1", auto split: if_splits)
qed


subsection \<open>A pipe opened and closed\<close>

definition demo_args :: uctx where
  "demo_args = \<lparr>u_sz = 64, u_esp = 32, u_mem = (\<lambda>_. 0)\<rparr>"

definition demo_files :: "kmem \<Rightarrow> ft" where
  "demo_files m = \<lparr>ftable = replicate NFILE blank_file, ofile = replicate NPROC (replicate NOFILE 0), pipes = (\<lambda>_. None), fkm = m\<rparr>"

lemma find_first: "0 < n \<Longrightarrow> P 0 \<Longrightarrow> List.find P [0..<n] = Some 0"
  by (simp add: upt_conv_Cons)

lemma find_second: "1 < n \<Longrightarrow> \<not> P 0 \<Longrightarrow> P 1 \<Longrightarrow> List.find P [0..<n] = Some 1"
  by (simp add: upt_conv_Cons)

lemma demo_sys_pipe:
  "\<exists>m t u. io_start 0x80100400 (demo_files m) \<and> sys_pipe 0x80100400 (replicate 512 0) demo_args 0 (demo_files m, s) = Inr ((t, s), u, 0) \<and>
     fd_at t 0 0 = 1 \<and> fd_at t 0 1 = 2 \<and> f_ref (ftable t ! 0) = 1 \<and> pipe_end t 0 0x80102000 False \<and> pipe_end t 1 0x80102000 True \<and> f_ref (ftable t ! 1) = 1"
proof -
  let ?b = "0x80100400 :: addr"
  obtain m where m: "km_ok ?b m [0x80102000, 0x80101000]"
    using kinit1_spec [OF demo_range, of demo_mem] by (auto simp: demo_mem_def demo_pages)
  obtain m1 where m1: "kalloc m = Inr (m1, 0x80102000)" using kalloc_spec [OF m] by (auto simp: first_or_null_def)
  define t0 where "t0 = demo_files m"
  have st: "io_start ?b t0" using m by (auto simp: io_start_def t0_def demo_files_def)
  define t1 where "t1 = t0\<lparr>ftable := (ftable t0)[0 := blank_file\<lparr>f_ref := 1\<rparr>]\<rparr>"
  define t2 where "t2 = t1\<lparr>ftable := (ftable t1)[1 := blank_file\<lparr>f_ref := 1\<rparr>]\<rparr>"
  have a0: "filealloc t0 = (t1, 1)"
    unfolding filealloc_def by (subst find_first) (simp_all add: t0_def t1_def demo_files_def blank_file_def NFILE_def)
  have a1: "filealloc t1 = (t2, 2)"
    unfolding filealloc_def
    by (subst find_second) (simp_all add: t0_def t1_def t2_def demo_files_def blank_file_def NFILE_def)
  have k: "kalloc (fkm t2) = Inr (m1, 0x80102000)" using m1 by (simp add: t2_def t1_def t0_def demo_files_def)
  have l: "length (ftable t2) = 100" by (simp add: t2_def t1_def t0_def demo_files_def NFILE_def)
  define t3 where "t3 = t2\<lparr>fkm := m1, pipes := (pipes t2)(0x80102000 := Some \<lparr>p_data = replicate 512 0, nread = 0, nwrite = 0, readopen = 1, writeopen = 1\<rparr>),
     ftable := (ftable t2)[0 := (ftable t2 ! 0)\<lparr>f_type := FD_PIPE, f_readable := 1, f_writable := 0, f_pipe := 0x80102000\<rparr>,
       1 := (ftable t2 ! 1)\<lparr>f_type := FD_PIPE, f_readable := 0, f_writable := 1, f_pipe := 0x80102000\<rparr>]\<rparr>"
  have p: "pipealloc ?b (replicate 512 0) (t0, s) = Inr ((t3, s), 1, 2)"
    using a0 a1 k l by (simp add: pipealloc_def mod_file_nth t3_def)
  have o: "ofile t3 = replicate 64 (replicate 16 0)" by (simp add: t3_def t2_def t1_def t0_def demo_files_def NPROC_def NOFILE_def)
  have f0: "fdalloc 0 1 t3 = (set_fd 0 0 1 t3, 0)" unfolding fdalloc_def by (subst find_first) (simp_all add: o NOFILE_def)
  have f1: "fdalloc 0 2 (set_fd 0 0 1 t3) = (set_fd 0 1 2 (set_fd 0 0 1 t3), 1)"
    unfolding fdalloc_def by (subst find_second) (simp_all add: o NOFILE_def set_fd_def)
  have a: "argptr demo_args 0 8 = Some 0" by (simp add: argptr_def fetchint_def demo_args_def mem32_def)
  let ?t = "set_fd 0 1 2 (set_fd 0 0 1 t3)"
  have r: "\<exists>u. sys_pipe ?b (replicate 512 0) demo_args 0 (t0, s) = Inr ((?t, s), u, 0)" using a p f0 f1 by (simp add: sys_pipe_def)
  have "fd_at ?t 0 0 = 1" "fd_at ?t 0 1 = 2" by (simp_all add: set_fd_def o)
  moreover have "f_ref (ftable ?t ! 0) = 1" "pipe_end ?t 0 0x80102000 False" "pipe_end ?t 1 0x80102000 True" "f_ref (ftable ?t ! 1) = 1"
    by (simp_all add: set_fd_def pipe_end_def t3_def t2_def t1_def t0_def demo_files_def NFILE_def blank_file_def)
  ultimately show ?thesis using st r unfolding t0_def by blast
qed

lemma file_table_invariant_witness:
  "\<forall>s :: fs_state. \<exists>m t u. sys_pipe 0x80100400 (replicate 512 0) demo_args 0 (demo_files m, s) = Inr ((t, s), u, 0) \<and>
     f_ref (ftable t ! 0) = int (count_list (concat (ofile t)) 1) \<and> (\<exists>q. pipes t 0x80102000 = Some q \<and> end_open q True)"
proof
  fix s :: fs_state
  obtain m t u where d: "io_start 0x80100400 (demo_files m)"
    "sys_pipe 0x80100400 (replicate 512 0) demo_args 0 (demo_files m, s) = Inr ((t, s), u, 0)" "pipe_end t 1 0x80102000 True"
    using demo_sys_pipe by blast
  have "io_step 0x80100400 (demo_files m, s) (t, s)" by (rule io_pipe [OF _ d(2)]) (simp add: NPROC_def)
  note inv = file_table_invariant [OF d(1) r_into_rtranclp, OF this]
  from inv have "f_ref (ftable t ! 0) = int (count_list (concat (ofile t)) 1)" by (simp add: NFILE_def)
  moreover from inv d(3) have "\<exists>q. pipes t 0x80102000 = Some q \<and> end_open q True" by blast
  ultimately show "\<exists>m t u. sys_pipe 0x80100400 (replicate 512 0) demo_args 0 (demo_files m, s) = Inr ((t, s), u, 0) \<and>
     f_ref (ftable t ! 0) = int (count_list (concat (ofile t)) 1) \<and> (\<exists>q. pipes t 0x80102000 = Some q \<and> end_open q True)" using d(2) by blast
qed

definition demo_args1 :: uctx where
  "demo_args1 = demo_args\<lparr>u_mem := (\<lambda>a. if a = 36 then 1 else 0)\<rparr>"

lemma pipe_close_witness:
  "\<forall>s :: fs_state. \<exists>m t u t1 t2 ps. sys_pipe 0x80100400 (replicate 512 0) demo_args 0 (demo_files m, s) = Inr ((t, s), u, 0) \<and>
     sys_close 0x80100400 demo_args 0 (t, s) = Inr ((t1, s), 0) \<and> fd_at t1 0 0 = 0 \<and> pipes t1 0x80102000 \<noteq> None \<and>
     sys_close 0x80100400 demo_args1 0 (t1, s) = Inr ((t2, s), 0) \<and> pipes t2 0x80102000 = None \<and> km_ok 0x80100400 (fkm t2) (0x80102000 # ps)"
proof
  fix s :: fs_state
  let ?p = "0x80102000 :: addr"
  obtain m t u where d: "io_start 0x80100400 (demo_files m)"
    "sys_pipe 0x80100400 (replicate 512 0) demo_args 0 (demo_files m, s) = Inr ((t, s), u, 0)"
    "fd_at t 0 0 = 1" "fd_at t 0 1 = 2" "f_ref (ftable t ! 0) = 1" "pipe_end t 0 ?p False" "pipe_end t 1 ?p True" "f_ref (ftable t ! 1) = 1"
    using demo_sys_pipe by blast
  have n: "(0::nat) < NPROC" "(0::nat) < NFILE" "(1::nat) < NOFILE" by (simp_all add: NPROC_def NFILE_def NOFILE_def)
  have i: "ft_inv 0x80100400 t []" using sys_pipe_inv [OF io_start_inv [OF d(1)] n(1) d(2)] .
  have l: "length (ofile t) = NPROC" "length (ofile t ! 0) = NOFILE" using i n(1) by (simp_all add: ft_inv_def tables_ok_def)
  have a: "argfd demo_args 0 0 t = Some (0, 1)"
    using d(3) by (simp add: argfd_def argint_def fetchint_def demo_args_def mem32_def NOFILE_def)
  have other: "\<exists>j. pipe_end t j ?p (\<not> False)" using d(7) by auto
  have z: "nat (1 - 1) = 0" "nat (2 - 1) = 1" by simp_all
  obtain t1 q where c: "sys_close 0x80100400 demo_args 0 (t, s) = Inr ((t1, s), 0)" "ft_inv 0x80100400 t1 []" "fd_at t1 0 0 = 0"
    "ofile t1 = ofile (set_fd 0 0 0 t)" "ftable t1 ! 1 = ftable t ! 1" "pipes t1 ?p = Some q" "\<not> end_open q False"
    using pipe_close [OF i n(1) a, unfolded z, OF d(6), of s] other d(5) by (elim exE conjE) (simp split: if_splits, blast)
  have fd1: "fd_at t1 0 1 = 2" using d(4) l n by (simp add: c(4) set_fd_def)
  have a1: "argfd demo_args1 0 0 t1 = Some (1, 2)"
    using fd1 by (simp add: argfd_def argint_def fetchint_def demo_args1_def demo_args_def mem32_def NOFILE_def)
  have e1: "pipe_end t1 1 ?p True" using d(7) unfolding pipe_end_def c(5) .
  have none: "\<not> pipe_end t1 j ?p (\<not> True)" for j
  proof -
    have "(\<exists>j. pipe_end t1 j ?p False) \<longleftrightarrow> (\<exists>q. pipes t1 ?p = Some q \<and> end_open q False)" using c(2) unfolding ft_inv_def pipes_ok_def by blast
    then show ?thesis using c(6,7) by simp
  qed
  have r1: "f_ref (ftable t1 ! 1) = 1" using d(8) unfolding c(5) .
  have no: "\<not> (\<exists>j. pipe_end t1 j ?p (\<not> True))" using none by blast
  obtain t2 ps where "sys_close 0x80100400 demo_args1 0 (t1, s) = Inr ((t2, s), 0)" "pipes t2 ?p = None" "km_ok 0x80100400 (fkm t2) (?p # ps)"
    using pipe_close [OF c(2) n(1) a1, unfolded z, OF e1, of s] unfolding if_not_P [OF no] r1 by (elim exE conjE) (simp only: simp_thms if_False, blast)
  then show "\<exists>m t u t1 t2 ps. sys_pipe 0x80100400 (replicate 512 0) demo_args 0 (demo_files m, s) = Inr ((t, s), u, 0) \<and>
     sys_close 0x80100400 demo_args 0 (t, s) = Inr ((t1, s), 0) \<and> fd_at t1 0 0 = 0 \<and> pipes t1 ?p \<noteq> None \<and>
     sys_close 0x80100400 demo_args1 0 (t1, s) = Inr ((t2, s), 0) \<and> pipes t2 ?p = None \<and> km_ok 0x80100400 (fkm t2) (?p # ps)"
    using d(2) c(1,3,6) by blast
qed

end
