(* ===== verification/Malloc.thy ===== *)
theory Malloc
  imports Process
begin

text \<open>
  The memory allocator of user programs (umalloc.c): a circular list of free blocks in the order of their addresses, each with a
  header of 8 bytes. Addresses and sizes (in headers) are natural numbers; where the code computes a number of bytes that
  can exceed 32 bits the arithmetic is written out. \<open>hdr\<close> has the headers in the memory of the program, \<open>um_base\<close> the address of the
  static header \<open>base\<close>. The kernel state is that of \<open>Process\<close>, \<open>cur\<close> the process.
\<close>

record header =
  h_ptr :: nat
  h_size :: nat

record um =
  um_base :: nat
  hdr :: "nat \<Rightarrow> header"
  freep :: nat

abbreviation ptr_of :: "um \<Rightarrow> nat \<Rightarrow> nat" where "ptr_of s a \<equiv> h_ptr (hdr s a)"
abbreviation units :: "um \<Rightarrow> nat \<Rightarrow> nat" where "units s a \<equiv> h_size (hdr s a)"

definition set_ptr :: "nat \<Rightarrow> nat \<Rightarrow> um \<Rightarrow> um" where
  "set_ptr a q s = s\<lparr>hdr := (hdr s)(a := (hdr s a)\<lparr>h_ptr := q\<rparr>)\<rparr>"

definition set_units :: "nat \<Rightarrow> nat \<Rightarrow> um \<Rightarrow> um" where
  "set_units a n s = s\<lparr>hdr := (hdr s)(a := (hdr s a)\<lparr>h_size := n\<rparr>)\<rparr>"

text \<open>The loop of \<open>free\<close> that looks for the free block before \<open>bp\<close>; \<open>None\<close> if it does not end.\<close>

partial_function (option) free_loc :: "um \<Rightarrow> nat \<Rightarrow> nat \<Rightarrow> nat option" where
  "free_loc s bp p =
     (let q = ptr_of s p in
      if bp > p \<and> bp < q then Some p
      else if p \<ge> q \<and> (bp > p \<or> bp < q) then Some p
      else free_loc s bp q)"

definition free :: "nat \<Rightarrow> um \<Rightarrow> um res" where
  "free ap s =
     (let bp = ap - 8 in
      case free_loc s bp (freep s) of
        None \<Rightarrow> Inl Hang
      | Some p \<Rightarrow>
          let q = ptr_of s p;
              s1 = (if bp + 8 * units s bp = q then set_ptr bp (ptr_of s q) (set_units bp (units s bp + units s q) s)
                    else set_ptr bp q s);
              s2 = (if p + 8 * units s1 p = bp then set_ptr p (ptr_of s1 bp) (set_units p (units s1 p + units s1 bp) s1)
                    else set_ptr p bp s1)
          in Inr (s2\<lparr>freep := p\<rparr>))"

text \<open>The user's \<open>sbrk\<close> is the system call on \<open>growproc\<close>: the old end of the memory, \<open>None\<close> for -1.\<close>

definition sbrk :: "addr \<Rightarrow> nat \<Rightarrow> int \<Rightarrow> 'e kern \<Rightarrow> ('e kern \<times> nat option) res" where
  "sbrk bound cur n k =
     rbind (growproc bound cur n k) (\<lambda>(k1, r). Inr (k1, if r < 0 then None else Some (unat (p_sz (ptab k ! cur)))))"

definition prog_end :: "nat \<Rightarrow> 'e kern \<Rightarrow> nat" where
  "prog_end cur k = unat (p_sz (ptab k ! cur))"

text \<open>
  The product is that of two unsigned numbers and the argument of \<open>sbrk\<close> is signed. The write of the new header faults
  if it is behind the end of the memory.
\<close>

definition morecore :: "addr \<Rightarrow> nat \<Rightarrow> nat \<Rightarrow> um \<Rightarrow> 'e kern \<Rightarrow> (um \<times> 'e kern \<times> nat) res" where
  "morecore bound cur nu0 s k =
     (let nu = max nu0 4096 in
      rbind (sbrk bound cur (sint (of_nat (nu * 8) :: addr)) k) (\<lambda>(k1, r).
      case r of
        None \<Rightarrow> Inr (s, k1, 0)
      | Some hp \<Rightarrow>
          if hp + 8 > prog_end cur k1 then Inl OutOfBounds
          else rbind (free (hp + 8) (set_units hp nu s)) (\<lambda>s1. Inr (s1, k1, freep s1))))"

text \<open>A block of \<open>n\<close> units is taken from the free block \<open>p\<close> behind \<open>prevp\<close>: all of it, or its end.\<close>

definition take_block :: "nat \<Rightarrow> nat \<Rightarrow> nat \<Rightarrow> um \<Rightarrow> um \<times> nat" where
  "take_block n prevp p s =
     (if units s p = n then ((set_ptr prevp (ptr_of s p) s)\<lparr>freep := prevp\<rparr>, p + 8)
      else
        let s1 = set_units p (units s p - n) s; p1 = p + 8 * units s1 p
        in ((set_units p1 n s1)\<lparr>freep := prevp\<rparr>, p1 + 8))"

partial_function (option) malloc_loop :: "addr \<Rightarrow> nat \<Rightarrow> nat \<Rightarrow> nat \<Rightarrow> nat \<Rightarrow> um \<Rightarrow> 'e kern \<Rightarrow> (um \<times> 'e kern \<times> nat) res option" where
  "malloc_loop bound cur n prevp p s k =
     (if units s p \<ge> n then Some (let (s1, a) = take_block n prevp p s in Inr (s1, k, a))
      else if p = freep s then
        (case morecore bound cur n s k of
           Inl e \<Rightarrow> Some (Inl e)
         | Inr r \<Rightarrow> (case r of (s1, k1, q) \<Rightarrow>
             if q = 0 then Some (Inr (s1, k1, 0)) else malloc_loop bound cur n q (ptr_of s1 q) s1 k1))
      else malloc_loop bound cur n p (ptr_of s p) s k)"

definition nunits :: "nat \<Rightarrow> nat" where
  "nunits nbytes = (nbytes + 8 - 1) mod 2 ^ 32 div 8 + 1"

definition malloc :: "addr \<Rightarrow> nat \<Rightarrow> nat \<Rightarrow> um \<Rightarrow> 'e kern \<Rightarrow> (um \<times> 'e kern \<times> nat) res" where
  "malloc bound cur nbytes s k =
     (let s1 = (if freep s = 0 then set_units (um_base s) 0 (set_ptr (um_base s) (um_base s) (s\<lparr>freep := um_base s\<rparr>)) else s) in
      case malloc_loop bound cur (nunits nbytes) (freep s1) (ptr_of s1 (freep s1)) s1 k of None \<Rightarrow> Inl Hang | Some r \<Rightarrow> r)"

end
