(* ===== verification/Malloc_Correct.thy ===== *)
theory Malloc_Correct
  imports Malloc
begin

text \<open>
  The invariant of the user allocator: the free blocks form a ring in the order of their addresses, free and allocated blocks are
  disjoint and inside the memory of the program, and no two free blocks touch.
\<close>

subsection \<open>Rings of addresses\<close>

definition next_in :: "nat set \<Rightarrow> nat \<Rightarrow> nat \<Rightarrow> bool" where
  "next_in F p q \<longleftrightarrow> q \<in> F \<and> (if p < q then \<forall>x \<in> F. x \<le> p \<or> q \<le> x else \<forall>x \<in> F. q \<le> x \<and> x \<le> p)"

definition ring :: "nat set \<Rightarrow> (nat \<Rightarrow> nat) \<Rightarrow> bool" where
  "ring F nx \<longleftrightarrow> finite F \<and> (\<forall>p \<in> F. next_in F p (nx p))"

lemma ringD: "ring F nx \<Longrightarrow> p \<in> F \<Longrightarrow> nx p \<in> F"
  by (simp add: ring_def next_in_def)

lemma ring_cong: "(\<And>x. x \<in> F \<Longrightarrow> nx x = nx' x) \<Longrightarrow> ring F nx \<Longrightarrow> ring F nx'"
  by (simp add: ring_def)

lemma ring_next_cases:
  assumes "ring F nx" and "p \<in> F"
  obtains "p < nx p" "\<And>x. x \<in> F \<Longrightarrow> x \<le> p \<or> nx p \<le> x" | "nx p \<le> p" "\<And>x. x \<in> F \<Longrightarrow> nx p \<le> x \<and> x \<le> p"
  using assms by (auto simp: ring_def next_in_def split: if_splits)

text \<open>The element before \<open>b\<close>.\<close>

definition before_in :: "nat set \<Rightarrow> nat \<Rightarrow> nat \<Rightarrow> bool" where
  "before_in F b p \<longleftrightarrow> p \<in> F \<and> p < b \<and> (\<forall>x \<in> F. x \<le> p \<or> b < x)"

lemma ring_insert:
  assumes r: "ring F nx" and p: "before_in F b p"
  shows "ring (insert b F) (nx(b := nx p, p := b))"
  unfolding ring_def
proof (intro conjI ballI)
  show "finite (insert b F)" using r by (simp add: ring_def)
  have pb: "p \<in> F" "p < b" "\<And>x. x \<in> F \<Longrightarrow> x \<le> p \<or> b < x" using p by (auto simp: before_in_def)
  fix x assume x: "x \<in> insert b F"
  consider (p) "x = p" | (b) "x = b" "x \<noteq> p" | (other) "x \<in> F" "x \<noteq> p" "x \<noteq> b" using x by blast
  then show "next_in (insert b F) x ((nx(b := nx p, p := b)) x)"
  proof cases
    case p
    then show ?thesis using pb by (force simp: next_in_def)
  next
    case b
    have n: "next_in F p (nx p)" using r pb by (simp add: ring_def)
    show ?thesis
    proof (cases "p < nx p")
      case True
      then have "nx p \<in> F" "\<And>x. x \<in> F \<Longrightarrow> x \<le> p \<or> nx p \<le> x" using n by (auto simp: next_in_def)
      then show ?thesis using b pb True by (fastforce simp: next_in_def)
    next
      case False
      then have "nx p \<in> F" "\<And>x. x \<in> F \<Longrightarrow> nx p \<le> x \<and> x \<le> p" using n by (auto simp: next_in_def)
      then show ?thesis using b pb False by (fastforce simp: next_in_def)
    qed
  next
    case other
    have n: "next_in F x (nx x)" using r other by (simp add: ring_def)
    show ?thesis
    proof (cases "x < nx x")
      case True
      then have q: "nx x \<in> F" "\<And>y. y \<in> F \<Longrightarrow> y \<le> x \<or> nx x \<le> y" using n by (auto simp: next_in_def)
      have "b \<le> x \<or> nx x \<le> b" using pb(3) [OF other(1)] pb(2) q(2) [OF pb(1)] other(2) by linarith
      then show ?thesis using other q True by (auto simp: next_in_def)
    next
      case False
      then have q: "nx x \<in> F" "\<And>y. y \<in> F \<Longrightarrow> nx x \<le> y \<and> y \<le> x" using n by (auto simp: next_in_def)
      have "nx x \<le> b \<and> b \<le> x" using q(2) [OF pb(1)] pb(2) pb(3) [OF other(1)] other(2) by linarith
      then show ?thesis using other q False by (auto simp: next_in_def)
    qed
  qed
qed

lemma ring_remove:
  assumes r: "ring F nx" and p: "p \<in> F" "nx p \<noteq> p"
  shows "ring (F - {nx p}) (nx(p := nx (nx p)))"
  unfolding ring_def
proof (intro conjI ballI)
  let ?q = "nx p"
  show "finite (F - {?q})" using r by (simp add: ring_def)
  have n: "\<And>x. x \<in> F \<Longrightarrow> next_in F x (nx x)" using r by (simp add: ring_def)
  have q: "?q \<in> F" using ringD [OF r p(1)] .
  fix x assume x: "x \<in> F - {?q}"
  show "next_in (F - {?q}) x ((nx(p := nx ?q)) x)"
  proof (cases "x = p")
    case True
    show ?thesis
    proof (cases "nx ?q = ?q")
      case True
      then show ?thesis using n [OF q] n [OF p(1)] p q by (auto simp: next_in_def split: if_splits)
    next
      case False
      then show ?thesis using n [OF q] n [OF p(1)] p q \<open>x = p\<close> by (fastforce simp: next_in_def split: if_splits)
    qed
  next
    case False
    have "nx x \<noteq> ?q"
    proof
      assume e: "nx x = ?q"
      have "if p < ?q then x \<le> p \<or> ?q \<le> x else ?q \<le> x \<and> x \<le> p" using n [OF p(1)] x by (auto simp: next_in_def)
      moreover have "if x < ?q then p \<le> x \<or> ?q \<le> p else ?q \<le> p \<and> p \<le> x" using n [of x] x p e by (auto simp: next_in_def)
      ultimately show False using x p False by (auto split: if_splits)
    qed
    then show ?thesis using n [of x] x False by (auto simp: next_in_def)
  qed
qed

subsection \<open>The place of a freed block\<close>

lemma free_loc_before:
  assumes r: "ring F (ptr_of s)" and base: "base \<in> F" "base < b" and b: "b \<notin> F" and p: "p \<in> F"
  shows "\<exists>p'. free_loc s b p = Some p' \<and> before_in F b p'"
proof -
  define m where "m p = (if p < b then card {x \<in> F. p < x \<and> x < b} else Suc (card F + card {x \<in> F. p < x}))" for p
  have fin: "finite F" using r by (simp add: ring_def)
  show ?thesis
    using p
  proof (induction "m p" arbitrary: p rule: less_induct)
    case less
    let ?q = "ptr_of s p"
    have q: "?q \<in> F" using ringD [OF r less.prems] .
    have ne: "p \<noteq> b" "?q \<noteq> b" using less.prems q b by auto
    have nxt: "next_in F p ?q" using r less.prems by (simp add: ring_def)
    consider (found) "p < b" "b < ?q" | (wrap) "p < b" "?q \<le> p" | (up) "p < b" "p < ?q" "?q < b" | (above) "b < p" "p < ?q" | (turn) "b < p" "?q \<le> p"
      using ne by linarith
    then show ?case
    proof cases
      case found
      then have "before_in F b p" using nxt less.prems by (fastforce simp: before_in_def next_in_def)
      then show ?thesis using found by (subst free_loc.simps) (simp add: Let_def)
    next
      case wrap
      then have "before_in F b p" using nxt less.prems by (fastforce simp: before_in_def next_in_def)
      then show ?thesis using wrap by (subst free_loc.simps) (simp add: Let_def)
    next
      case up
      have "{x \<in> F. ?q < x \<and> x < b} \<subset> {x \<in> F. p < x \<and> x < b}" using up q by force
      then have "m ?q < m p" using up fin by (simp add: m_def psubset_card_mono)
      then show ?thesis using less.hyps [OF _ q] up by (subst free_loc.simps) (simp add: Let_def)
    next
      case above
      have "{x \<in> F. ?q < x} \<subset> {x \<in> F. p < x}" using above q by force
      then have "m ?q < m p" using above fin by (simp add: m_def psubset_card_mono)
      then show ?thesis using less.hyps [OF _ q] above by (subst free_loc.simps) (simp add: Let_def)
    next
      case turn
      then have "?q \<le> base" using nxt base by (auto simp: next_in_def)
      then have qb: "?q < b" using base by simp
      have "card {x \<in> F. ?q < x \<and> x < b} \<le> card F" using fin by (intro card_mono) auto
      then have "m ?q < m p" using turn qb by (simp add: m_def)
      then show ?thesis using less.hyps [OF _ q] turn qb by (subst free_loc.simps) (simp add: Let_def)
    qed
  qed
qed

subsection \<open>The invariant\<close>

text \<open>
  \<open>E\<close> is the end of the memory, \<open>A\<close> the headers of allocated and \<open>F\<close> those of free blocks; only free blocks in \<open>J\<close> may touch the
  next one.
\<close>

definition um_core :: "um \<Rightarrow> nat \<Rightarrow> nat set \<Rightarrow> nat set \<Rightarrow> nat set \<Rightarrow> bool" where
  "um_core s E A F J \<longleftrightarrow>
     um_base s \<in> F \<and> 0 < um_base s \<and> um_base s + 8 \<le> E \<and> units s (um_base s) = 0 \<and> A \<inter> F = {} \<and> ring F (ptr_of s) \<and>
     (\<forall>b \<in> A \<union> F. b + 8 * units s b \<le> E \<and> (b \<noteq> um_base s \<longrightarrow> um_base s + 8 \<le> b \<and> 0 < units s b)) \<and>
     (\<forall>b \<in> A \<union> F. \<forall>c \<in> A \<union> F. b < c \<longrightarrow> b + 8 * units s b \<le> c) \<and>
     (\<forall>b \<in> F. b \<noteq> um_base s \<longrightarrow> b \<notin> J \<longrightarrow> b + 8 * units s b \<notin> F)"

definition um_ok :: "um \<Rightarrow> nat \<Rightarrow> nat set \<Rightarrow> nat set \<Rightarrow> bool" where
  "um_ok s E A F \<longleftrightarrow> um_core s E A F {} \<and> freep s \<in> F"

lemma um_coreD:
  assumes "um_core s E A F J"
  shows "um_base s \<in> F" "0 < um_base s" "units s (um_base s) = 0" "A \<inter> F = {}" "ring F (ptr_of s)"
    "\<And>b. b \<in> A \<union> F \<Longrightarrow> b + 8 * units s b \<le> E" "\<And>b. b \<in> A \<union> F \<Longrightarrow> b \<noteq> um_base s \<Longrightarrow> um_base s + 8 \<le> b \<and> 0 < units s b"
    "\<And>b c. b \<in> A \<union> F \<Longrightarrow> c \<in> A \<union> F \<Longrightarrow> b < c \<Longrightarrow> b + 8 * units s b \<le> c"
    "\<And>b. b \<in> F \<Longrightarrow> b \<noteq> um_base s \<Longrightarrow> b \<notin> J \<Longrightarrow> b + 8 * units s b \<notin> F" "um_base s + 8 \<le> E"
  using assms unfolding um_core_def by auto

lemma set_fields [simp]:
  "um_base (set_ptr a q s) = um_base s" "um_base (set_units a n s) = um_base s" "freep (set_ptr a q s) = freep s" "freep (set_units a n s) = freep s"
  "units (set_ptr a q s) b = units s b" "ptr_of (set_units a n s) b = ptr_of s b"
  "ptr_of (set_ptr a q s) b = (if b = a then q else ptr_of s b)" "units (set_units a n s) b = (if b = a then n else units s b)"
  by (simp_all add: set_ptr_def set_units_def)

lemma um_core_freep [simp]: "um_core (s\<lparr>freep := x\<rparr>) E A F J \<longleftrightarrow> um_core s E A F J"
  by (simp add: um_core_def)

lemma base_le: "um_core s E A F J \<Longrightarrow> x \<in> A \<union> F \<Longrightarrow> um_base s \<le> x"
  using um_coreD(7) [of s E A F J x] by (cases "x = um_base s") auto

text \<open>An allocated block enters the list of free blocks.\<close>

lemma insert_block:
  assumes c: "um_core s E (insert b A) F {}" and b: "b \<notin> A" and p: "before_in F b p"
  shows "um_core (set_ptr p b (set_ptr b (ptr_of s p) s)) E A (insert b F) {x. x = b \<and> b + 8 * units s b = ptr_of s p \<or> x = p \<and> p + 8 * units s p = b}"
    (is "um_core ?s E A ?F ?J")
proof -
  note d = um_coreD [OF c]
  have bF: "b \<notin> F" using d(4) by auto
  have pF: "p \<in> F" "p < b" "\<And>x. x \<in> F \<Longrightarrow> x \<le> p \<or> b < x" using p by (auto simp: before_in_def)
  have u: "units ?s = units s" by (rule ext) simp
  have all: "A \<union> ?F = insert b A \<union> F" by auto
  have bb: "b \<noteq> um_base s" using bF d(1) by auto
  have adj: "x + 8 * units s x \<notin> ?F" if x: "x \<in> ?F" "x \<noteq> um_base s" "x \<notin> ?J" for x
  proof
    assume y: "x + 8 * units s x \<in> ?F"
    let ?y = "x + 8 * units s x"
    have pos: "x < ?y" using d(7) [of x] x by auto
    show False
    proof (cases "x = b")
      case True
      then have yF: "?y \<in> F" using y pos by auto
      have q: "ptr_of s p \<in> F" using ringD [OF d(5) pF(1)] .
      show False
      proof (rule ring_next_cases [OF d(5) pF(1)])
        assume n: "p < ptr_of s p" "\<And>x. x \<in> F \<Longrightarrow> x \<le> p \<or> ptr_of s p \<le> x"
        then have "b < ptr_of s p" using pF(3) [OF q] by simp
        then have "b + 8 * units s b \<le> ptr_of s p" using d(8) [of b "ptr_of s p"] q by simp
        moreover have "ptr_of s p \<le> ?y" using n(2) [OF yF] pF(2) pos True by simp
        ultimately show False using x True by simp
      next
        assume "\<And>x. x \<in> F \<Longrightarrow> ptr_of s p \<le> x \<and> x \<le> p"
        from this [OF yF] show False using pos True pF(2) by simp
      qed
    next
      case False
      then have xF: "x \<in> F" using x by simp
      then have "?y \<notin> F" using d(9) [of x] x by simp
      then have yb: "?y = b" using y by simp
      then have "x \<le> p" using pF(3) [OF xF] pos by simp
      then show False using d(8) [of x p] xF pF yb x by (cases "x = p") auto
    qed
  qed
  have "ring ?F (ptr_of ?s)"
    by (rule ring_cong [OF _ ring_insert [OF d(5) p]]) (use pF in auto)
  moreover have "\<forall>a \<in> A \<union> ?F. a + 8 * units s a \<le> E \<and> (a \<noteq> um_base s \<longrightarrow> um_base s + 8 \<le> a \<and> 0 < units s a)"
    "\<forall>a \<in> A \<union> ?F. \<forall>e \<in> A \<union> ?F. a < e \<longrightarrow> a + 8 * units s a \<le> e"
    using c unfolding um_core_def all by blast+
  moreover have "\<forall>x \<in> ?F. x \<noteq> um_base s \<longrightarrow> x \<notin> ?J \<longrightarrow> x + 8 * units s x \<notin> ?F" using adj by blast
  ultimately show ?thesis using d(1-4,10) b unfolding um_core_def u by simp
qed

text \<open>A free block swallows the free block behind it.\<close>

lemma merge_block:
  assumes c: "um_core s E A F J" and x: "x \<in> F" "x \<noteq> um_base s" "x + 8 * units s x = ptr_of s x" and y: "ptr_of s x \<notin> J"
  shows "um_core (set_ptr x (ptr_of s (ptr_of s x)) (set_units x (units s x + units s (ptr_of s x)) s)) E A (F - {ptr_of s x}) (J - {x})"
    (is "um_core ?s E A ?F ?J")
proof -
  let ?y = "ptr_of s x"
  note d = um_coreD [OF c]
  have pos: "x < ?y" using d(7) [of x] x by auto
  have yF: "?y \<in> F" using ringD [OF d(5) x(1)] .
  have yb: "?y \<noteq> um_base s" using base_le [OF c, of x] x(1) pos by auto
  have ye: "?y + 8 * units s ?y \<notin> F" using d(9) [OF yF yb y] .
  have "ring ?F (ptr_of ?s)"
    by (rule ring_cong [OF _ ring_remove [OF d(5) x(1)]]) (use pos in auto)
  moreover have "b + 8 * units ?s b \<le> E \<and> (b \<noteq> um_base s \<longrightarrow> um_base s + 8 \<le> b \<and> 0 < units ?s b)" if b: "b \<in> A \<union> ?F" for b
  proof (cases "b = x")
    case True
    then show ?thesis using d(6) [of ?y] d(7) [of x] x yF by (simp add: algebra_simps)
  qed (use d(6,7) [of b] b in auto)
  moreover have "b + 8 * units ?s b \<le> e" if be: "b \<in> A \<union> ?F" "e \<in> A \<union> ?F" "b < e" for b e
  proof (cases "b = x")
    case True
    have "?y \<le> e" using d(8) [of x e] be x True by auto
    then have "?y < e" using be yF d(4) by (cases "e = ?y") auto
    then show ?thesis using d(8) [of ?y e] be yF True x by (simp add: algebra_simps)
  qed (use d(8) [of b e] be in auto)
  moreover have "b + 8 * units ?s b \<notin> ?F" if b: "b \<in> ?F" "b \<noteq> um_base s" "b \<notin> ?J" for b
  proof (cases "b = x")
    case True
    have e: "x + 8 * units ?s x = ?y + 8 * units s ?y" using x(3) by simp
    have "x + 8 * units ?s x \<notin> ?F" unfolding e using ye by blast
    then show ?thesis unfolding True .
  qed (use d(9) [of b] b in auto)
  ultimately show ?thesis
    using d(1-4,10) x yb unfolding um_core_def by auto
qed

subsection \<open>Freeing\<close>

lemma um_eqI: "um_base s = um_base s' \<Longrightarrow> freep s = freep s' \<Longrightarrow> (\<And>a. ptr_of s a = ptr_of s' a) \<Longrightarrow> (\<And>a. units s a = units s' a) \<Longrightarrow> s = s'"
  for s s' :: um
  by (cases s; cases s') (auto simp: fun_eq_iff intro!: header.equality)

lemma free_spec:
  assumes ok: "um_ok s E (insert b A) F" and b: "b \<notin> A"
  shows "\<exists>s' F'. free (b + 8) s = Inr s' \<and> um_ok s' E A F' \<and> um_base s' = um_base s \<and> (\<forall>a \<in> A. units s' a = units s a) \<and>
    (\<exists>x \<in> F'. units s b \<le> units s' x)"
proof -
  have c: "um_core s E (insert b A) F {}" and fp: "freep s \<in> F" using ok by (simp_all add: um_ok_def)
  note d = um_coreD [OF c]
  have bF: "b \<notin> F" using d(4) by auto
  have "b \<noteq> um_base s" using bF d(1) by auto
  then have bb: "um_base s < b" using d(7) [of b] by simp
  obtain p where p: "free_loc s b (freep s) = Some p" "before_in F b p" using free_loc_before [OF d(5,1) bb bF fp] by blast
  have pb: "p \<in> F" "p < b" using p(2) by (simp_all add: before_in_def)
  let ?q = "ptr_of s p"
  define s0 where "s0 = set_ptr p b (set_ptr b ?q s)"
  define J where "J = {x. x = b \<and> b + 8 * units s b = ?q \<or> x = p \<and> p + 8 * units s p = b}"
  have c0: "um_core s0 E A (insert b F) J" using insert_block [OF c b p(2)] by (simp add: s0_def J_def)
  have qF: "?q \<in> F" using ringD [OF d(5) pb(1)] .
  define m1 where "m1 \<longleftrightarrow> b + 8 * units s b = ?q"
  define s1 where "s1 = (if m1 then set_ptr b (ptr_of s0 ?q) (set_units b (units s0 b + units s0 ?q) s0) else s0)"
  define F1 where "F1 = (if m1 then insert b F - {?q} else insert b F)"
  have bpos: "0 < units s b" using d(7) [of b] bb by auto
  have qp: "m1 \<Longrightarrow> b < ?q" using bpos by (simp add: m1_def)
  have c1: "um_core s1 E A F1 (J - {b})"
  proof (cases m1)
    case True
    then have "?q \<notin> J" using qp pb(2) by (auto simp: J_def)
    moreover have pt: "ptr_of s0 b = ?q" "units s0 b = units s b" "um_base s0 = um_base s" using pb by (simp_all add: s0_def)
    ultimately have "um_core (set_ptr b (ptr_of s0 ?q) (set_units b (units s0 b + units s0 ?q) s0)) E A (insert b F - {?q}) (J - {b})"
      using merge_block [OF c0, of b, unfolded pt(1)] True bb by (simp add: pt m1_def)
    then show ?thesis using True by (simp add: s1_def F1_def)
  next
    case False
    then have "J - {b} = J" using pb by (auto simp: J_def m1_def)
    then show ?thesis using c0 False by (simp add: s1_def F1_def)
  qed
  define m2 where "m2 \<longleftrightarrow> p + 8 * units s p = b"
  define s2 where "s2 = (if m2 then set_ptr p (ptr_of s1 b) (set_units p (units s1 p + units s1 b) s1) else s1)"
  define F2 where "F2 = (if m2 then F1 - {b} else F1)"
  have p1: "p \<in> F1" using pb qp by (auto simp: F1_def)
  have s1p: "ptr_of s1 p = b" "units s1 p = units s p" using pb qp by (auto simp: s1_def s0_def m1_def)
  have c2: "um_core s2 E A F2 {}"
  proof (cases m2)
    case True
    have "p \<noteq> um_base s1"
    proof
      have bs: "um_base s1 = um_base s" by (simp add: s1_def s0_def)
      assume "p = um_base s1"
      then have "units s p = 0" using d(3) by (simp add: bs)
      then show False using True pb(2) by (simp add: m2_def)
    qed
    then have "um_core s2 E A F2 (J - {b} - {p})"
      using merge_block [OF c1 p1] True s1p by (simp add: s2_def F2_def m2_def)
    moreover have "J - {b} - {p} = {}" by (auto simp: J_def)
    ultimately show ?thesis by simp
  next
    case False
    then have "J - {b} = {}" by (auto simp: J_def m2_def)
    with c1 have "um_core s1 E A F1 {}" by (simp only:)
    then show ?thesis using False by (simp add: s2_def F2_def)
  qed
  have p2: "p \<in> F2" using p1 pb by (simp add: F2_def)
  define s1' where "s1' = (if b + 8 * units s b = ?q then set_ptr b (ptr_of s ?q) (set_units b (units s b + units s ?q) s) else set_ptr b ?q s)"
  define s2' where "s2' = (if p + 8 * units s1' p = b then set_ptr p (ptr_of s1' b) (set_units p (units s1' p + units s1' b) s1') else set_ptr p b s1')"
  have run: "free (b + 8) s = Inr (s2'\<lparr>freep := p\<rparr>)" by (simp only: free_def Let_def add_diff_cancel_right' p(1) option.case s2'_def s1'_def)
  have ne: "p \<noteq> b" "b \<noteq> p" "?q \<noteq> b" "m1 \<Longrightarrow> ?q \<noteq> p" using pb bF qF qp by auto
  have eq: "s2' = s2"
    by (rule um_eqI) (use ne in \<open>auto simp: s2'_def s1'_def s2_def s1_def s0_def m1_def m2_def\<close>)
  have "units s2 a = units s a" if "a \<in> A" for a
  proof -
    have "a \<noteq> b" "a \<noteq> p" using that b pb d(4) by auto
    then show ?thesis by (simp add: s2_def s1_def s0_def)
  qed
  moreover have "\<exists>x \<in> F2. units s b \<le> units s2 x"
  proof (cases m2)
    case True
    have "units s b \<le> units s1 b" by (simp add: s1_def s0_def)
    then have "units s b \<le> units s2 p" using True by (simp add: s2_def)
    then show ?thesis using p2 by blast
  next
    case False
    then show ?thesis using ne by (intro bexI [of _ b]) (auto simp: s2_def F2_def s1_def s0_def F1_def)
  qed
  moreover have "um_base s2 = um_base s" by (simp add: s2_def s1_def s0_def)
  moreover have "um_ok (s2\<lparr>freep := p\<rparr>) E A F2" using c2 p2 by (simp add: um_ok_def)
  ultimately show ?thesis using run eq by (intro exI [of _ "s2\<lparr>freep := p\<rparr>"] exI [of _ F2]) simp
qed

subsection \<open>Asking the kernel for memory\<close>

lemma alloc_loop_result: "alloc_loop fuel bound d a oldsz newsz m = Inr (m', r) \<Longrightarrow> r = newsz \<or> r = 0"
  by (induction fuel arbitrary: a m) (auto simp: rbind_eq_Inr split: if_splits)

lemma sbrk_grows:
  assumes run: "sbrk bound cur n k = Inr (k', Some hp)" and n: "0 < n" "n < 2 ^ 31" and cur: "cur < length (ptab k)"
    and sz: "prog_end cur k < 2 ^ 31"
  shows "hp = prog_end cur k" and "prog_end cur k' = hp + nat n" and "prog_end cur k' < 2 ^ 31" and "length (ptab k') = length (ptab k)"
proof -
  let ?sz = "p_sz (ptab k ! cur)" and ?new = "p_sz (ptab k ! cur) + word_of_int n"
  obtain r where g: "growproc bound cur n k = Inr (k', r)" "\<not> r < 0" "hp = prog_end cur k"
    using run by (auto simp: sbrk_def rbind_eq_Inr prog_end_def split: if_splits)
  then obtain m sz1 where a: "allocuvm bound (p_pgdir (ptab k ! cur)) ?sz ?new (km k) = Inr (m, sz1)" "sz1 \<noteq> 0"
    "k' = upd_proc cur (\<lambda>p. p\<lparr>p_sz := sz1\<rparr>) (k\<lparr>km := m\<rparr>)"
    using n by (auto simp: growproc_def Let_def rbind_eq_Inr split: if_splits)
  have u: "unat ?new = unat ?sz + nat n"
  proof -
    have "unat (word_of_int n :: addr) = nat n" using n by (simp add: unat_eq_nat_uint uint_word_of_int_eq take_bit_int_eq_self)
    moreover have "unat ?sz + nat n < 2 ^ 32" using n sz by (simp add: prog_end_def)
    ultimately show ?thesis by (simp add: unat_word_ariths)
  qed
  have nw: "\<not> ?new < ?sz" by (simp add: word_less_nat_alt u)
  have "\<not> KERNBASE \<le> ?new" using a(1,2) by (auto simp: allocuvm_def split: if_splits)
  then have lim: "unat ?new < 2 ^ 31" by (simp add: KERNBASE_def not_le word_less_nat_alt)
  have "sz1 = ?new" using a(1,2) nw alloc_loop_result by (fastforce simp: allocuvm_def split: if_splits)
  then have "p_sz (ptab k' ! cur) = ?new" "length (ptab k') = length (ptab k)" using a(3) cur by (simp_all add: upd_proc_def)
  then show "hp = prog_end cur k" "prog_end cur k' = hp + nat n" "prog_end cur k' < 2 ^ 31" "length (ptab k') = length (ptab k)"
    using g(3) u lim by (simp_all add: prog_end_def)
qed

lemma sint_small: "m < 2 ^ 31 \<Longrightarrow> sint (of_nat m :: addr) = int m"
  by (simp add: signed_of_nat signed_take_bit_int_eq_self)

lemma extend_core:
  assumes c: "um_core s E A F {}" and hp: "E \<le> hp" "0 < nu" "E' = hp + 8 * nu"
  shows "um_core (set_units hp nu s) E' (insert hp A) F {} \<and> hp \<notin> A \<union> F"
proof -
  note d = um_coreD [OF c]
  have fr: "hp \<notin> A \<union> F"
  proof
    assume h: "hp \<in> A \<union> F"
    then have "units s hp = 0" using d(6) [OF h] hp(1) by simp
    then show False using d(7) [OF h] d(10) hp(1) by auto
  qed
  let ?s = "set_units hp nu s"
  have u: "\<And>b. b \<in> A \<union> F \<Longrightarrow> units ?s b = units s b" using fr by auto
  have "\<forall>b \<in> insert hp A \<union> F. b + 8 * units ?s b \<le> E' \<and> (b \<noteq> um_base s \<longrightarrow> um_base s + 8 \<le> b \<and> 0 < units ?s b)"
  proof
    fix b assume "b \<in> insert hp A \<union> F"
    then consider "b = hp" | "b \<in> A \<union> F" "b \<noteq> hp" using fr by auto
    then show "b + 8 * units ?s b \<le> E' \<and> (b \<noteq> um_base s \<longrightarrow> um_base s + 8 \<le> b \<and> 0 < units ?s b)"
      using d(6,7) [of b] d(10) hp by cases auto
  qed
  moreover have "\<forall>b \<in> insert hp A \<union> F. \<forall>e \<in> insert hp A \<union> F. b < e \<longrightarrow> b + 8 * units ?s b \<le> e"
  proof (intro ballI impI)
    fix b e assume be: "b \<in> insert hp A \<union> F" "e \<in> insert hp A \<union> F" "b < e"
    have le: "x \<le> hp" if "x \<in> insert hp A \<union> F" for x using that d(6) [of x] hp(1) by auto
    have "b \<noteq> hp" using be(3) le [OF be(2)] by auto
    then have b: "b \<in> A \<union> F" "units ?s b = units s b" using be by auto
    show "b + 8 * units ?s b \<le> e" using be b d(6) [of b] d(8) [of b e] hp(1) by (cases "e = hp") auto
  qed
  moreover have "\<forall>b \<in> F. b \<noteq> um_base s \<longrightarrow> b \<notin> {} \<longrightarrow> b + 8 * units ?s b \<notin> F" using d(9) u by auto
  moreover have "units ?s (um_base s) = 0" using u [of "um_base s"] d(1,3) by simp
  moreover have "um_base s + 8 \<le> E'" using d(10) hp by simp
  moreover have "insert hp A \<inter> F = {}" using d(4) fr by auto
  moreover have "ring F (ptr_of ?s)" by (rule ring_cong [OF _ d(5)]) simp
  ultimately show ?thesis using d(1,2) fr unfolding um_core_def by simp
qed

text \<open>\<open>morecore\<close>: no memory, or the list of free blocks has a block that is large enough.\<close>

lemma morecore_spec:
  assumes ok: "um_ok s E A F" and E: "E \<le> prog_end cur k" and sz: "prog_end cur k < 2 ^ 31" and cur: "cur < length (ptab k)"
    and n: "8 * max n 4096 < 2 ^ 31" and run: "sbrk bound cur (int (8 * max n 4096)) k = Inr (k', r)"
  shows "(r = None \<and> morecore bound cur n s k = Inr (s, k', 0)) \<or>
    (\<exists>s' F'. morecore bound cur n s k = Inr (s', k', freep s') \<and> um_ok s' (prog_end cur k') A F' \<and> prog_end cur k \<le> prog_end cur k' \<and> prog_end cur k' < 2 ^ 31 \<and>
       length (ptab k') = length (ptab k) \<and> um_base s' = um_base s \<and> (\<forall>a \<in> A. units s' a = units s a) \<and> (\<exists>x \<in> F'. n \<le> units s' x))"
proof -
  let ?nu = "max n 4096"
  have arg: "sint (of_nat (?nu * 8) :: addr) = int (8 * ?nu)"
    using sint_small [of "?nu * 8"] n by (simp add: mult.commute)
  show ?thesis
  proof (cases r)
    case None
    have "morecore bound cur n s k = Inr (s, k', 0)" unfolding morecore_def Let_def arg run by (simp add: None)
    then show ?thesis using None by simp
  next
    case (Some hp)
    have nu: "0 < int (8 * ?nu)" "int (8 * ?nu) < 2 ^ 31" using n by auto
    note g = sbrk_grows [OF run [unfolded Some] nu cur sz]
    have hp: "E \<le> hp" "0 < ?nu" "prog_end cur k' = hp + 8 * ?nu" using g(1,2) E by simp_all
    have "um_core s E A F {}" using ok by (simp add: um_ok_def)
    note ex = extend_core [OF this hp]
    have "um_ok (set_units hp ?nu s) (prog_end cur k') (insert hp A) F" "hp \<notin> A" using ex ok by (simp_all add: um_ok_def)
    from free_spec [OF this] obtain s' F' where f: "free (hp + 8) (set_units hp ?nu s) = Inr s'" "um_ok s' (prog_end cur k') A F'"
      "um_base s' = um_base s" "\<forall>a \<in> A. units s' a = units s a" "\<exists>x \<in> F'. ?nu \<le> units s' x"
      using \<open>hp \<notin> A\<close> by fastforce
    have "\<not> hp + 8 > prog_end cur k'" using hp by simp
    then have "morecore bound cur n s k = Inr (s', k', freep s')" unfolding morecore_def Let_def arg run by (simp add: Some f(1))
    moreover have "\<exists>x \<in> F'. n \<le> units s' x" using f(5) by auto
    ultimately show ?thesis using f(2-4) g(1-4) by (intro disjI2 exI [of _ s'] exI [of _ F']) simp
  qed
qed

subsection \<open>Taking a block\<close>

lemma take_block_spec:
  assumes ok: "um_ok s E A F" and prev: "prev \<in> F" "ptr_of s prev = p" and n: "0 < n" "n \<le> units s p"
  shows "\<exists>s' b F'. take_block n prev p s = (s', b + 8) \<and> b \<notin> A \<and> b \<noteq> 0 \<and> um_ok s' E (insert b A) F' \<and> units s' b = n \<and> um_base s' = um_base s \<and>
    (\<forall>a \<in> A. units s' a = units s a)"
proof -
  have c: "um_core s E A F {}" using ok by (simp add: um_ok_def)
  note d = um_coreD [OF c]
  have pF: "p \<in> F" using ringD [OF d(5) prev(1)] prev(2) by simp
  have pb: "p \<noteq> um_base s" using n d(3) by auto
  have pA: "p \<notin> A" "p \<noteq> 0" using d(4) pF d(7) [of p] pb by auto
  show ?thesis
  proof (cases "units s p = n")
    case True
    have pp: "prev \<noteq> p"
    proof
      assume "prev = p"
      then have "next_in F p p" using d(5) pF prev(2) by (auto simp: ring_def)
      then show False using d(1) pb by (auto simp: next_in_def)
    qed
    let ?s = "(set_ptr prev (ptr_of s p) s)\<lparr>freep := prev\<rparr>"
    have set: "insert p A \<union> (F - {p}) = A \<union> F" using pF by auto
    have u: "units ?s = units s" by (rule ext) simp
    have "ring (F - {p}) (ptr_of ?s)"
      using ring_remove [OF d(5) prev(1)] pp prev(2) by (simp add: fun_upd_def)
    moreover have "\<forall>b \<in> F - {p}. b \<noteq> um_base s \<longrightarrow> b \<notin> {} \<longrightarrow> b + 8 * units s b \<notin> F - {p}" using d(9) by blast
    moreover have "\<forall>b \<in> A \<union> F. b + 8 * units s b \<le> E \<and> (b \<noteq> um_base s \<longrightarrow> um_base s + 8 \<le> b \<and> 0 < units s b)"
      "\<forall>a \<in> A \<union> F. \<forall>e \<in> A \<union> F. a < e \<longrightarrow> a + 8 * units s a \<le> e"
      using c unfolding um_core_def by blast+
    ultimately have "um_core ?s E (insert p A) (F - {p}) {}"
      using d(1-4,10) pb pF unfolding um_core_def u set by auto
    then have "um_ok ?s E (insert p A) (F - {p})" using prev pp by (simp add: um_ok_def)
    moreover have "take_block n prev p s = (?s, p + 8)" using True by (simp add: take_block_def)
    ultimately show ?thesis using pA True by (intro exI [of _ ?s] exI [of _ p] exI [of _ "F - {p}"]) simp
  next
    case False
    let ?b = "p + 8 * (units s p - n)"
    let ?s = "(set_units ?b n (set_units p (units s p - n) s))\<lparr>freep := prev\<rparr>"
    have b: "p < ?b" "?b + 8 * n = p + 8 * units s p" using False n by auto
    have bn: "?b \<notin> A \<union> F"
    proof
      assume h: "?b \<in> A \<union> F"
      then have "p + 8 * units s p \<le> ?b" using d(8) [of p ?b] pF b by simp
      then show False using b n by simp
    qed
    have u: "units ?s x = (if x = ?b then n else if x = p then units s p - n else units s x)" for x by simp
    have lo: "x + 8 * units ?s x \<le> E \<and> (x \<noteq> um_base s \<longrightarrow> um_base s + 8 \<le> x \<and> 0 < units ?s x)" if x: "x \<in> insert ?b A \<union> F" for x
    proof -
      consider "x = ?b" | "x = p" "x \<noteq> ?b" | "x \<in> A \<union> F" "x \<noteq> p" "x \<noteq> ?b" using x by blast
      then show ?thesis
        using d(6) [of x] d(6) [of p] d(7) [of x] d(7) [of p] pF b n False pb unfolding u by cases auto
    qed
    have dis: "x + 8 * units ?s x \<le> e" if xe: "x \<in> insert ?b A \<union> F" "e \<in> insert ?b A \<union> F" "x < e" for x e
    proof -
      consider (b) "x = ?b" | (p) "x = p" "x \<noteq> ?b" | (o) "x \<in> A \<union> F" "x \<noteq> p" "x \<noteq> ?b" using xe by blast
      then show ?thesis
      proof cases
        case b
        then have "p < e" "e \<in> A \<union> F" using xe \<open>p < ?b\<close> by auto
        then show ?thesis using d(8) [of p e] pF b \<open>?b + 8 * n = p + 8 * units s p\<close> unfolding u by simp
      next
        case p
        show ?thesis
        proof (cases "e = ?b")
          case False
          then show ?thesis using d(8) [of p e] pF xe p unfolding u by auto
        qed (use p u in simp)
      next
        case o
        show ?thesis
        proof (cases "e = ?b")
          case True
          have "x < p"
          proof (rule ccontr)
            assume "\<not> x < p"
            then have "p + 8 * units s p \<le> x" using d(8) [of p x] pF o by auto
            then show False using xe True b n by simp
          qed
          then show ?thesis using d(8) [of x p] pF o True b unfolding u by auto
        qed (use d(8) [of x e] xe o u in auto)
      qed
    qed
    have "x + 8 * units ?s x \<notin> F" if x: "x \<in> F" "x \<noteq> um_base s" for x
    proof (cases "x = p")
      case True
      then show ?thesis using bn b(1) u by simp
    next
      case False
      moreover have "x \<noteq> ?b" using bn x by auto
      ultimately show ?thesis using d(9) [OF x] unfolding u by simp
    qed
    moreover have "ring F (ptr_of ?s)" by (rule ring_cong [OF _ d(5)]) simp
    moreover have "um_base s \<noteq> ?b" using bn d(1) by auto
    ultimately have "um_core ?s E (insert ?b A) F {}"
      using d(1-4,10) lo dis bn pb unfolding um_core_def u by auto
    then have "um_ok ?s E (insert ?b A) F" using prev by (simp add: um_ok_def)
    moreover have "take_block n prev p s = (?s, ?b + 8)" using False by (simp add: take_block_def Let_def)
    moreover have "\<forall>a \<in> A. units ?s a = units s a" using bn pA by auto
    moreover have "units ?s ?b = n" by simp
    ultimately show ?thesis using bn pA b(1) by (intro exI [of _ ?s] exI [of _ ?b] exI [of _ F]) simp
  qed
qed

subsection \<open>The walk around the ring\<close>

definition arc :: "nat set \<Rightarrow> nat \<Rightarrow> nat \<Rightarrow> nat set" where
  "arc F p f = {x \<in> F. if p \<le> f then p \<le> x \<and> x \<le> f else p \<le> x \<or> x \<le> f}"

lemma arc_next:
  assumes r: "ring F nx" and p: "p \<in> F" "f \<in> F" "p \<noteq> f"
  shows "arc F (nx p) f = arc F p f - {p}" and "p \<in> arc F p f"
proof -
  show "p \<in> arc F p f" using p by (simp add: arc_def)
  show "arc F (nx p) f = arc F p f - {p}"
    using ringD [OF r p(1)]
  proof (cases rule: ring_next_cases [OF r p(1)])
    case 1
    show ?thesis
    proof (cases "p < f")
      case True
      then have "nx p \<le> f" using 1(2) [OF p(2)] by simp
      then show ?thesis using 1 True by (fastforce simp: arc_def)
    next
      case False
      then show ?thesis using 1 p by (fastforce simp: arc_def)
    qed
  next
    case 2
    have "nx p \<le> f" "f < p" using 2(1) 2(2) [OF p(2)] p(3) by simp_all
    then show ?thesis using 2 by (fastforce simp: arc_def)
  qed
qed

lemma arc_self:
  assumes r: "ring F nx" and f: "f \<in> F"
  shows "arc F (nx f) f = F"
proof (cases rule: ring_next_cases [OF r f])
  case 1
  then show ?thesis by (auto simp: arc_def)
next
  case 2
  then show ?thesis by (auto simp: arc_def)
qed

definition grow :: "addr \<Rightarrow> nat \<Rightarrow> nat \<Rightarrow> um \<Rightarrow> 'e kern \<Rightarrow> (um \<times> 'e kern \<times> nat) res option" where
  "grow bound cur n s k =
     (case morecore bound cur n s k of
        Inl e \<Rightarrow> Some (Inl e)
      | Inr r \<Rightarrow> (case r of (s1, k1, q) \<Rightarrow> if q = 0 then Some (Inr (s1, k1, 0)) else malloc_loop bound cur n q (ptr_of s1 q) s1 k1))"

lemma malloc_loop_cases:
  "malloc_loop bound cur n prev p s k =
     (if units s p \<ge> n then Some (let (s1, a) = take_block n prev p s in Inr (s1, k, a))
      else if p = freep s then grow bound cur n s k else malloc_loop bound cur n p (ptr_of s p) s k)"
  by (subst malloc_loop.simps) (simp add: grow_def)

lemma malloc_walk:
  assumes r: "ring F (ptr_of s)" and f: "freep s \<in> F" and p: "prev \<in> F" "ptr_of s prev = p"
  shows "(\<exists>prev'. prev' \<in> F \<and> n \<le> units s (ptr_of s prev') \<and>
      malloc_loop bound cur n prev p s k = Some (let (s1, a) = take_block n prev' (ptr_of s prev') s in Inr (s1, k, a))) \<or>
    (\<forall>x \<in> arc F p (freep s). units s x < n) \<and> malloc_loop bound cur n prev p s k = grow bound cur n s k"
  using p
proof (induction "card (arc F p (freep s))" arbitrary: prev p rule: less_induct)
  case less
  have pF: "p \<in> F" using ringD [OF r less.prems(1)] less.prems(2) by simp
  consider (fit) "n \<le> units s p" | (round) "units s p < n" "p = freep s" | (on) "units s p < n" "p \<noteq> freep s" by linarith
  then show ?case
  proof cases
    case fit
    then show ?thesis using less.prems malloc_loop_cases [of bound cur n prev p s k] by (intro disjI1 exI [of _ prev]) simp
  next
    case round
    have "arc F p (freep s) = {p}" using pF round(2) by (auto simp: arc_def)
    then show ?thesis using round malloc_loop_cases [of bound cur n prev p s k] by simp
  next
    case on
    note a = arc_next [OF r pF f on(2)]
    have "finite (arc F p (freep s))" using r by (simp add: arc_def ring_def)
    then have lt: "card (arc F (ptr_of s p) (freep s)) < card (arc F p (freep s))" unfolding a(1) using a(2) by (rule card_Diff1_less)
    have e: "malloc_loop bound cur n prev p s k = malloc_loop bound cur n p (ptr_of s p) s k"
      using malloc_loop_cases [of bound cur n prev p s k] on by simp
    have "units s x < n" if "\<forall>x \<in> arc F (ptr_of s p) (freep s). units s x < n" "x \<in> arc F p (freep s)" for x
      using that on(1) unfolding a(1) by (cases "x = p") auto
    then show ?thesis using less.hyps [OF lt pF refl] unfolding e by blast
  qed
qed

text \<open>The allocation of \<open>n\<close> units: the new block \<open>b\<close> joins the allocated ones, which keep their sizes.\<close>

definition got :: "nat \<Rightarrow> um \<Rightarrow> nat set \<Rightarrow> nat \<Rightarrow> um \<Rightarrow> nat \<Rightarrow> bool" where
  "got n s A E s' b \<longleftrightarrow> b \<notin> A \<and> b \<noteq> 0 \<and> (\<exists>F'. um_ok s' E (insert b A) F') \<and> units s' b = n \<and> um_base s' = um_base s \<and> (\<forall>a \<in> A. units s' a = units s a)"

lemma first_round:
  assumes ok: "um_ok s E A F" and n: "0 < n"
  shows "(\<exists>s' b. malloc_loop bound cur n (freep s) (ptr_of s (freep s)) s k = Some (Inr (s', k, b + 8)) \<and> got n s A E s' b) \<or>
    (\<forall>x \<in> F. units s x < n) \<and> malloc_loop bound cur n (freep s) (ptr_of s (freep s)) s k = grow bound cur n s k"
proof -
  have c: "um_core s E A F {}" and f: "freep s \<in> F" using ok by (simp_all add: um_ok_def)
  have r: "ring F (ptr_of s)" using um_coreD(5) [OF c] .
  from malloc_walk [OF r f f refl, of n bound cur k] show ?thesis
  proof (elim disjE exE conjE)
    fix prev assume w: "prev \<in> F" "n \<le> units s (ptr_of s prev)"
      "malloc_loop bound cur n (freep s) (ptr_of s (freep s)) s k = Some (let (s1, a) = take_block n prev (ptr_of s prev) s in Inr (s1, k, a))"
    obtain s' b where "take_block n prev (ptr_of s prev) s = (s', b + 8)" "got n s A E s' b"
      using take_block_spec [OF ok w(1) refl n w(2)] unfolding got_def by blast
    then show ?thesis using w(3) by (intro disjI1 exI [of _ s'] exI [of _ b]) simp
  next
    assume "\<forall>x \<in> arc F (ptr_of s (freep s)) (freep s). units s x < n"
      "malloc_loop bound cur n (freep s) (ptr_of s (freep s)) s k = grow bound cur n s k"
    then show ?thesis unfolding arc_self [OF r f] by simp
  qed
qed

lemma alloc_spec:
  assumes ok: "um_ok s E A F" and n: "0 < n" "8 * max n 4096 < 2 ^ 31" and E: "E \<le> prog_end cur k" and sz: "prog_end cur k < 2 ^ 31"
    and cur: "cur < length (ptab k)" and k: "sbrk bound cur (int (8 * max n 4096)) k = Inr (k', r)"
  shows "\<exists>s' k1 E' a. malloc_loop bound cur n (freep s) (ptr_of s (freep s)) s k = Some (Inr (s', k1, a)) \<and> (k1 = k \<and> E' = E \<and> a \<noteq> 0 \<or> (\<forall>x \<in> F. units s x < n) \<and> k1 = k' \<and> E' = prog_end cur k' \<and>
        (r \<noteq> None \<longrightarrow> a \<noteq> 0 \<and> E \<le> prog_end cur k' \<and> prog_end cur k' < 2 ^ 31 \<and> length (ptab k') = length (ptab k))) \<and>
      (a = 0 \<and> r = None \<and> s' = s \<or> (\<exists>b. a = b + 8 \<and> got n s A E' s' b))"
proof -
  consider (first) s' b where "malloc_loop bound cur n (freep s) (ptr_of s (freep s)) s k = Some (Inr (s', k, b + 8))" "got n s A E s' b"
    | (grow) "\<forall>x \<in> F. units s x < n" "malloc_loop bound cur n (freep s) (ptr_of s (freep s)) s k = grow bound cur n s k"
    using first_round [OF ok n(1), of bound cur k] by blast
  then show ?thesis
  proof cases
    case first
    then show ?thesis by (intro exI [of _ s'] exI [of _ k] exI [of _ E] exI [of _ "b + 8"]) simp
  next
    case grow
    from morecore_spec [OF ok E sz cur n(2) k] show ?thesis
    proof (elim disjE exE conjE)
      assume m: "r = None" "morecore bound cur n s k = Inr (s, k', 0)"
      then have "grow bound cur n s k = Some (Inr (s, k', 0))" by (simp add: grow_def)
      then show ?thesis using grow m(1) by (intro exI [of _ s] exI [of _ k'] exI [of _ "prog_end cur k'"] exI [of _ 0]) simp
    next
      fix s1 F1 assume m: "morecore bound cur n s k = Inr (s1, k', freep s1)" "um_ok s1 (prog_end cur k') A F1" "prog_end cur k \<le> prog_end cur k'"
        "prog_end cur k' < 2 ^ 31" "length (ptab k') = length (ptab k)" "um_base s1 = um_base s" "\<forall>a \<in> A. units s1 a = units s a" "\<exists>x \<in> F1. n \<le> units s1 x"
      have "freep s1 \<noteq> 0"
      proof -
        have c1: "um_core s1 (prog_end cur k') A F1 {}" "freep s1 \<in> F1" using m(2) by (simp_all add: um_ok_def)
        then show ?thesis using base_le [OF c1(1), of "freep s1"] um_coreD(2) [OF c1(1)] by simp
      qed
      then have g: "grow bound cur n s k = malloc_loop bound cur n (freep s1) (ptr_of s1 (freep s1)) s1 k'" by (simp add: grow_def m(1))
      obtain s' b where "malloc_loop bound cur n (freep s1) (ptr_of s1 (freep s1)) s1 k' = Some (Inr (s', k', b + 8))" "got n s1 A (prog_end cur k') s' b"
        using first_round [OF m(2) n(1), of bound cur k'] m(8) by (meson not_le)
      then show ?thesis using grow g m(3-7) E
        by (intro exI [of _ s'] exI [of _ k'] exI [of _ "prog_end cur k'"] exI [of _ "b + 8"]) (simp add: got_def)
    qed
  qed
qed

end
