(* ===== verification/VM_Grow.thy ===== *)
theory VM_Grow
  imports VM_Claims Process
begin

text \<open>
  Growth of a process: with enough free pages \<open>allocuvm\<close> maps fresh pages for the whole of the new memory.
\<close>

lemma tables_card: "pt_ok bound k ps d \<Longrightarrow> card (tables k d) = card {i. i < 1024 \<and> present k d i}"
proof -
  assume ok: "pt_ok bound k ps d"
  have "tables k d = table k d ` {i. i < 1024 \<and> present k d i}" by (auto simp: tables_def)
  moreover have "inj_on (table k d) {i. i < 1024 \<and> present k d i}" using ok by (auto simp: inj_on_def pt_ok_def)
  ultimately show ?thesis by (simp add: card_image)
qed

text \<open>The number of free pages after some have become tables.\<close>

lemma grown_count:
  assumes k: "pt_ok bound k ps d" and k': "pt_ok bound k' ps' d" and g: "grown k d ps k' ps'"
    and p: "\<And>i. i < 1024 \<Longrightarrow> present k' d i \<Longrightarrow> present k d i \<or> i \<in> I" and I: "finite I"
  shows "length ps \<le> length ps' + card I"
proof -
  have fin: "finite {i. i < 1024 \<and> present k d i}" "finite (tables k d)" "finite (tables k' d)" by (simp_all add: tables_def)
  have "card (tables k' d) \<le> card ({i. i < 1024 \<and> present k d i} \<union> I)"
    unfolding tables_card [OF k'] by (rule card_mono) (use p fin I in auto)
  also have "\<dots> \<le> card (tables k d) + card I" unfolding tables_card [OF k] by (rule card_Un_le)
  finally have c: "card (tables k' d) \<le> card (tables k d) + card I" .
  have "tables k d \<inter> set ps = {}" "tables k' d \<inter> set ps' = {}" "distinct ps" "distinct ps'" using k k' by (auto simp: pt_ok_def km_ok_def)
  then have "card (tables k d) + length ps = card (tables k d \<union> set ps)" "card (tables k' d) + length ps' = card (tables k' d \<union> set ps')"
    using fin by (simp_all add: card_Un_disjoint distinct_card)
  then show ?thesis using c g by (simp add: grown_def)
qed

text \<open>A fresh page is cleared: it is no table, so the translation stays.\<close>

lemma fresh_page:
  assumes ok: "pt_ok bound k (p # ps) d"
  shows "\<exists>k1 k2. kalloc k = Inr (k1, p) \<and> p \<noteq> 0 \<and> clear_page k1 p = Inr k2 \<and> pt_ok bound k2 ps d \<and> vpte k2 d = vpte k d \<and>
    (\<forall>i. i < 1024 \<longrightarrow> present k2 d i = present k d i)"
proof -
  have km: "km_ok bound k (p # ps)" and len: "\<forall>q \<in> set (p # ps). length (pmem k q) = PGSIZE" and pd: "p \<noteq> d" "p \<notin> set ps"
    and pt: "\<forall>t \<in> tables k d. t \<noteq> p" using ok by (auto simp: pt_ok_def km_ok_def)
  obtain k1 where k1: "kalloc k = Inr (k1, p)" "km_ok bound k1 ps" "pmem k1 = pmem k"
    using kalloc_spec [OF km] by (auto simp: first_or_null_def)
  let ?k2 = "k1\<lparr>pmem := (pmem k1)(p := replicate PGSIZE 0)\<rparr>"
  have c: "clear_page k1 p = Inr ?k2" using len k1(3) by (intro clear_page_spec) simp
  have e: "entry ?k2 d i = entry k d i" for i using pd k1(3) by (simp add: entry_def)
  have P: "present ?k2 d i = present k d i" "table ?k2 d i = table k d i" for i by (simp_all add: present_def table_def e)
  have T: "tables ?k2 d = tables k d" by (simp add: tables_def P)
  have "vpte ?k2 d a = vpte k d a" for a
  proof (cases "present k d (pdx a)")
    case True
    then have "table k d (pdx a) \<noteq> p" using pt table_in by auto
    then show ?thesis unfolding vpte_def P using True k1(3) by (simp add: entry_def)
  next
    case False
    then show ?thesis unfolding vpte_def P by simp
  qed
  moreover have "km_ok bound ?k2 ps" using k1(2) pd(2) by (simp add: km_ok_def free_chain_other)
  then have "pt_ok bound ?k2 ps d" using ok k1(3) pd unfolding pt_ok_def T P by auto
  moreover have "p \<noteq> 0" using km by (simp add: km_ok_def page_ok_def)
  ultimately show ?thesis using k1(1) c P by (intro exI [of _ k1] exI [of _ ?k2]) auto
qed

lemma alloc_loop_grows:
  assumes "pt_ok bound k ps d" and "a AND 0xFFF = 0" and "2 * n \<le> length ps" and "n < fuel" and "unat a + 4096 * n < 2 ^ 32"
    and "\<And>i. i < n \<Longrightarrow> vpte k d (a + 4096 * of_nat i) AND PTE_P = 0" and "unat newsz \<le> unat a + 4096 * n" and "n = 0 \<or> unat a + 4096 * (n - 1) < unat newsz"
  shows "\<exists>k' ps'. alloc_loop fuel bound d a oldsz newsz k = Inr (k', newsz) \<and> pt_ok bound k' ps' d \<and> length ps \<le> length ps' + 2 * n \<and>
    (\<forall>i < n. vpte k' d (a + 4096 * of_nat i) AND (PTE_P OR PTE_W OR PTE_U) = PTE_P OR PTE_W OR PTE_U) \<and>
    (\<forall>x. (\<forall>i < n. page_of x \<noteq> a + 4096 * of_nat i) \<longrightarrow> vpte k' d x = vpte k d x)"
  using assms
proof (induction n arbitrary: k ps a fuel)
  case 0
  then obtain f where "fuel = Suc f" by (cases fuel) auto
  then show ?case using 0 by (auto simp: word_less_nat_alt)
next
  case (Suc n)
  obtain f where f: "fuel = Suc f" using Suc.prems(4) by (cases fuel) auto
  obtain p qs where ps: "ps = p # qs" using Suc.prems(3) by (cases ps) auto
  obtain k1 k2 where k2: "kalloc k = Inr (k1, p)" "p \<noteq> 0" "clear_page k1 p = Inr k2" "pt_ok bound k2 qs d" "vpte k2 d = vpte k d"
    using fresh_page Suc.prems(1) ps by blast
  have free: "vpte k2 d (a + 4096 * of_nat i) AND PTE_P = 0" if "i < 1" for i using Suc.prems(6) [of i] that k2(5) by simp
  obtain k3 r ps3 m where mp: "mappages d a (of_nat (4096 * 1)) (V2P p) (PTE_W OR PTE_U) k2 = Inr (k3, r)" "pt_ok bound k3 ps3 d"
    "grown k2 d qs k3 ps3" "mapped (vpte k2 d) a (V2P p) (PTE_W OR PTE_U) m (vpte k3 d)"
    "\<forall>i < 1024. present k3 d i \<longrightarrow> present k2 d i \<or> (\<exists>j < 1. i = pdx (a + 4096 * of_nat j))"
    "r = 0 \<and> m = 1 \<or> r = -1 \<and> m < 1 \<and> ps3 = [] \<and> \<not> present k3 d (pdx (a + 4096 * of_nat m))"
    using mappages_base [OF k2(4) Suc.prems(2), of 1 "V2P p" "PTE_W OR PTE_U"] free by fastforce
  have r0: "r = 0 \<and> m = 1"
  proof (rule ccontr)
    assume h: "\<not> (r = 0 \<and> m = 1)"
    then have "m = 0" "ps3 = []" "\<not> present k3 d (pdx a)" using mp(6) by auto
    then have "length qs \<le> length ps3" using grown_count [OF k2(4) mp(2,3), of "{}"] mp(5) by auto
    then show False using \<open>ps3 = []\<close> Suc.prems(3) ps by simp
  qed
  have cnt: "length qs \<le> length ps3 + 1"
    using grown_count [OF k2(4) mp(2,3), of "{pdx a}"] mp(5) by auto
  have ua: "unat (a + 4096) = unat a + 4096" using Suc.prems(5) unat_plus_small [of a 4096] by simp
  have alt: "unat a < unat newsz" using Suc.prems(8) by simp
  have step: "a + 4096 + 4096 * of_nat i = a + 4096 * of_nat (Suc i)" for i by (simp add: algebra_simps)
  have pg: "page_of (a + 4096 * of_nat i) = a + 4096 * of_nat i" if "i \<le> n" for i
  proof (rule aligned_page_of)
    show "(a + 4096 * of_nat i) AND 0xFFF = 0" using that
    proof (induction i)
      case (Suc i)
      then show ?case using page_step [of "a + 4096 * of_nat i"] by (simp add: algebra_simps)
    qed (use Suc.prems(2) in simp)
  qed
  have apart: "a + 4096 * of_nat i \<noteq> a" if "0 < i" "i \<le> n" for i using page_apart [of i a] that Suc.prems(5) by simp
  have v3: "vpte k3 d x = (if page_of x = a then V2P p OR (PTE_W OR PTE_U) OR PTE_P else vpte k d x)" for x
    using mp(4) r0 k2(5) unfolding mapped_def by auto
  have "\<exists>k' ps'. alloc_loop f bound d (a + 4096) oldsz newsz k3 = Inr (k', newsz) \<and> pt_ok bound k' ps' d \<and> length ps3 \<le> length ps' + 2 * n \<and>
    (\<forall>i < n. vpte k' d (a + 4096 + 4096 * of_nat i) AND (PTE_P OR PTE_W OR PTE_U) = PTE_P OR PTE_W OR PTE_U) \<and>
    (\<forall>x. (\<forall>i < n. page_of x \<noteq> a + 4096 + 4096 * of_nat i) \<longrightarrow> vpte k' d x = vpte k3 d x)"
  proof (rule Suc.IH [OF mp(2)])
    show "(a + 4096) AND 0xFFF = 0" using page_step Suc.prems(2) by simp
    show "2 * n \<le> length ps3" using cnt Suc.prems(3) ps by simp
    show "n < f" using Suc.prems(4) f by simp
    show "unat (a + 4096) + 4096 * n < 2 ^ 32" using ua Suc.prems(5) by simp
    show "vpte k3 d (a + 4096 + 4096 * of_nat i) AND PTE_P = 0" if "i < n" for i
      using Suc.prems(6) [of "Suc i"] pg [of "Suc i"] apart [of "Suc i"] that unfolding v3 step by simp
    show "unat newsz \<le> unat (a + 4096) + 4096 * n" using ua Suc.prems(7) by simp
    show "n = 0 \<or> unat (a + 4096) + 4096 * (n - 1) < unat newsz" using ua Suc.prems(8) by (cases n) simp_all
  qed
  then obtain k' ps' where IH: "alloc_loop f bound d (a + 4096) oldsz newsz k3 = Inr (k', newsz)" "pt_ok bound k' ps' d" "length ps3 \<le> length ps' + 2 * n"
    "\<And>i. i < n \<Longrightarrow> vpte k' d (a + 4096 * of_nat (Suc i)) AND (PTE_P OR PTE_W OR PTE_U) = PTE_P OR PTE_W OR PTE_U"
    "\<And>x. (\<And>i. i < n \<Longrightarrow> page_of x \<noteq> a + 4096 * of_nat (Suc i)) \<Longrightarrow> vpte k' d x = vpte k3 d x" unfolding step by blast
  have run: "alloc_loop fuel bound d a oldsz newsz k = Inr (k', newsz)"
    using alt k2 mp(1) r0 IH(1) by (simp add: f word_less_nat_alt)
  have "vpte k' d (a + 4096 * of_nat i) AND (PTE_P OR PTE_W OR PTE_U) = PTE_P OR PTE_W OR PTE_U" if i: "i < Suc n" for i
  proof (cases i)
    case 0
    have "page_of a = a" using pg [of 0] by simp
    moreover have "a + 4096 * of_nat (Suc j) \<noteq> a" if "j < n" for j using apart [of "Suc j"] that by simp
    ultimately have "vpte k' d a = vpte k3 d a" using IH(5) [of a] by metis
    then have "vpte k' d a = V2P p OR (PTE_W OR PTE_U) OR PTE_P" using \<open>page_of a = a\<close> by (simp add: v3)
    moreover have "(V2P p OR (PTE_W OR PTE_U) OR PTE_P) AND (PTE_P OR PTE_W OR PTE_U) = PTE_P OR PTE_W OR PTE_U" by (rule bit_word_eqI) (auto simp: bit_simps)
    ultimately show ?thesis using 0 by simp
  next
    case (Suc j)
    then show ?thesis using IH(4) i by simp
  qed
  moreover have "vpte k' d x = vpte k d x" if h: "\<forall>i < Suc n. page_of x \<noteq> a + 4096 * of_nat i" for x
  proof -
    have "vpte k' d x = vpte k3 d x" by (rule IH(5)) (use h in blast)
    then show ?thesis using h [rule_format, of 0] by (simp add: v3)
  qed
  moreover have "length ps \<le> length ps' + 2 * Suc n" using IH(3) cnt ps by simp
  ultimately show ?case using run IH(2) by blast
qed

text \<open>
  C18 (allocuvm_grows): with two free pages for every new page of the process (one for the page, one for a page table that it may need),
  \<open>allocuvm\<close> succeeds, every page between the old and the new size is mapped for the user to write, and no other translation changes.
\<close>

theorem allocuvm_grows:
  assumes "pt_ok bound k ps d" and "oldsz \<le> newsz" and "newsz < KERNBASE" and "n = (unat newsz + 4095 - unat (PGROUNDUP oldsz)) div 4096" and "2 * n \<le> length ps"
    and "\<And>i. i < n \<Longrightarrow> vpte k d (PGROUNDUP oldsz + 4096 * of_nat i) AND PTE_P = 0"
  shows "\<exists>k' ps'. allocuvm bound d oldsz newsz k = Inr (k', newsz) \<and> pt_ok bound k' ps' d \<and> length ps \<le> length ps' + 2 * n \<and>
    (\<forall>i < n. vpte k' d (PGROUNDUP oldsz + 4096 * of_nat i) AND (PTE_P OR PTE_W OR PTE_U) = PTE_P OR PTE_W OR PTE_U) \<and>
    (\<forall>x. (\<forall>i < n. page_of x \<noteq> PGROUNDUP oldsz + 4096 * of_nat i) \<longrightarrow> vpte k' d x = vpte k d x)"
proof -
  let ?a = "PGROUNDUP oldsz"
  have nk: "unat newsz < 0x80000000" "unat oldsz \<le> unat newsz" using assms(2,3) by (simp_all add: KERNBASE_def word_less_nat_alt word_le_nat_alt)
  have up: "?a = page_of (oldsz + 4095)" by (simp add: PGROUNDUP_def page_of_def add.commute)
  have o: "unat (oldsz + 4095) = unat oldsz + 4095" using unat_plus_small [of oldsz 4095] nk by simp
  have ua: "unat ?a = 4096 * ((unat oldsz + 4095) div 4096)" unfolding up unat_page_of o ..
  have al: "?a AND 0xFFF = 0"
  proof -
    have "unat (?a AND 0xFFF) = unat ?a mod 4096" by (rule unat_offset_mod)
    then show ?thesis using ua by (simp add: unat_eq_0)
  qed
  have le: "unat ?a \<le> unat oldsz + 4095" using ua by simp
  have "allocuvm bound d oldsz newsz k = alloc_loop (2 ^ 20 + 1) bound d ?a oldsz newsz k"
    unfolding allocuvm_def if_not_P [OF not_le [THEN iffD2, OF assms(3)]] if_not_P [OF not_less [THEN iffD2, OF assms(2)]] ..
  moreover have "n < 2 ^ 20 + 1" using assms(4) nk by simp
  moreover have "unat ?a + 4096 * n < 2 ^ 32" using assms(4) nk le by simp
  moreover have "unat newsz \<le> unat ?a + 4096 * n"
  proof -
    have "unat newsz + 4095 - unat ?a < 4096 * n + 4096" unfolding assms(4) by (rule dividend_less_times_div [of 4096, THEN order_less_le_trans]) simp_all
    then show ?thesis by simp
  qed
  moreover have "n = 0 \<or> unat ?a + 4096 * (n - 1) < unat newsz"
  proof (cases n)
    case (Suc m)
    have "4096 * n \<le> unat newsz + 4095 - unat ?a" unfolding assms(4) by simp
    then show ?thesis using Suc by simp
  qed simp
  ultimately show ?thesis using alloc_loop_grows [OF assms(1) al assms(5), of "2 ^ 20 + 1" newsz oldsz] assms(6) by simp
qed

subsection \<open>A directory and seventeen free pages\<close>

lemma length_pages_from: "length (pages_from p n) = n"
  by (induction n arbitrary: p) simp_all

lemma demo_large:
  "\<exists>k d ps. pt_ok 0x80100400 k ps d \<and> length ps = 17 \<and> (\<forall>a. vpte k d a = 0)"
proof -
  have range: "good_range 0x80100400 0x80100401 0x80113000" by (simp add: good_range_def KERNBASE_def PGROUNDUP_def P2V_def PHYSTOP_def)
  have "PGROUNDUP 0x80100401 = 0x80101000" by (simp add: PGROUNDUP_def)
  then have len: "length (rev (range_pages 0x80100401 0x80113000)) = 18" by (simp add: range_pages_def page_count_def length_pages_from)
  then obtain d ps where ps: "rev (range_pages 0x80100401 0x80113000) = d # ps" by (cases "rev (range_pages 0x80100401 0x80113000)") auto
  obtain k0 where k0: "km_ok 0x80100400 k0 (d # ps)" "\<forall>v. length (pmem k0 v) = PGSIZE"
    using kinit1_spec [OF range, of demo_mem] by (auto simp: demo_mem_def ps)
  obtain k2 where "pt_ok 0x80100400 k2 ps d" "\<forall>a. vpte k2 d a = 0" using blank_directory [OF k0(1)] k0(2) by blast
  then show ?thesis using len ps by auto
qed

lemma allocuvm_grows_witness:
  "\<exists>k d k'. allocuvm 0x80100400 d 0x1000 0x9000 k = Inr (k', 0x9000) \<and> vpte k' d 0x8000 AND (PTE_P OR PTE_W OR PTE_U) = PTE_P OR PTE_W OR PTE_U"
proof -
  obtain k d ps where k: "pt_ok 0x80100400 k ps d" "length ps = 17" "\<forall>a. vpte k d a = 0" using demo_large by blast
  have up: "PGROUNDUP 0x1000 = 0x1000" by (simp add: PGROUNDUP_def)
  have "(0x1000 :: addr) \<le> 0x9000" "(0x9000 :: addr) < KERNBASE" "8 = (unat (0x9000 :: addr) + 4095 - unat (PGROUNDUP 0x1000)) div 4096" "2 * 8 \<le> length ps"
    using k(2) by (simp_all add: up KERNBASE_def)
  note g = allocuvm_grows [OF k(1) this, unfolded up]
  obtain k' where k': "allocuvm 0x80100400 d 0x1000 0x9000 k = Inr (k', 0x9000)"
    "\<forall>i < 8. vpte k' d (0x1000 + 4096 * of_nat i) AND (PTE_P OR PTE_W OR PTE_U) = PTE_P OR PTE_W OR PTE_U"
    using g k(3) by (elim meta_impE) (simp, blast)
  then show ?thesis using k'(2) [rule_format, of 7] by auto
qed

end
