(* ===== verification/Malloc_Claims.thy ===== *)
theory Malloc_Claims
  imports Malloc_Correct VM_Grow
begin

text \<open>
  The user allocator over all histories of a program that calls \<open>malloc\<close> and \<open>free\<close>, with blocks that are outstanding.
\<close>

subsection \<open>One call\<close>

definition um_inv :: "um \<Rightarrow> nat \<Rightarrow> nat set \<Rightarrow> bool" where
  "um_inv s E A \<longleftrightarrow> freep s = 0 \<and> A = {} \<and> 0 < um_base s \<and> um_base s + 8 \<le> E \<or> (\<exists>F. um_ok s E A F)"

lemma um_ok_mono:
  assumes ok: "um_ok s E A F" and le: "E \<le> E'"
  shows "um_ok s E' A F"
proof -
  have c: "um_core s E A F {}" using ok by (simp add: um_ok_def)
  note d = um_coreD [OF c]
  have "b + 8 * units s b \<le> E' \<and> (b \<noteq> um_base s \<longrightarrow> um_base s + 8 \<le> b \<and> 0 < units s b)" if "b \<in> A \<union> F" for b
    using d(6,7) [OF that] le by simp
  moreover have "um_base s + 8 \<le> E'" using d(10) le by simp
  ultimately show ?thesis using ok unfolding um_ok_def um_core_def by simp
qed

lemma um_inv_mono: "um_inv s E A \<Longrightarrow> E \<le> E' \<Longrightarrow> um_inv s E' A"
  unfolding um_inv_def using um_ok_mono by fastforce

lemma um_ok_freep: "um_ok s E A F \<Longrightarrow> freep s \<noteq> 0"
  using base_le [of s E A F "{}" "freep s"] by (auto simp: um_ok_def dest: um_coreD(2))

definition ready :: "um \<Rightarrow> um" where
  "ready s = (if freep s = 0 then set_units (um_base s) 0 (set_ptr (um_base s) (um_base s) (s\<lparr>freep := um_base s\<rparr>)) else s)"

lemma ready_ok:
  assumes "um_inv s E A"
  shows "\<exists>F. um_ok (ready s) E A F" and "um_base (ready s) = um_base s" and "a \<in> A \<Longrightarrow> units (ready s) a = units s a"
proof -
  show "um_base (ready s) = um_base s" by (simp add: ready_def)
  consider (new) "freep s = 0" "A = {}" "0 < um_base s" "um_base s + 8 \<le> E" | (old) F where "um_ok s E A F" "freep s \<noteq> 0"
    using assms by (fastforce simp: um_inv_def dest: um_ok_freep)
  then have "(\<exists>F. um_ok (ready s) E A F) \<and> (a \<in> A \<longrightarrow> units (ready s) a = units s a)"
  proof cases
    case new
    have "ring {um_base s} (ptr_of (ready s))" using new by (simp add: ready_def ring_def next_in_def)
    then have "um_ok (ready s) E A {um_base s}" using new by (simp add: um_ok_def um_core_def ready_def)
    then show ?thesis using new by blast
  qed (auto simp: ready_def)
  then show "\<exists>F. um_ok (ready s) E A F" "a \<in> A \<Longrightarrow> units (ready s) a = units s a" by simp_all
qed

lemma malloc_ready:
  "malloc bound cur nbytes s k =
     (case malloc_loop bound cur (nunits nbytes) (freep (ready s)) (ptr_of (ready s) (freep (ready s))) (ready s) k of None \<Rightarrow> Inl Hang | Some r \<Rightarrow> r)"
  by (simp add: malloc_def ready_def Let_def)

lemma nunits_bounds: "nbytes < 2 ^ 31 - 15 \<Longrightarrow> 0 < nunits nbytes \<and> 8 * max (nunits nbytes) 4096 < 2 ^ 31 \<and> nbytes + 8 \<le> 8 * nunits nbytes"
  by (simp add: nunits_def) linarith

lemma sbrk_fails: "sbrk bound cur n k = Inr (k', None) \<Longrightarrow> ptab k' = ptab k"
  by (auto simp: sbrk_def growproc_def Let_def rbind_eq_Inr split: if_splits)

lemma malloc_run:
  assumes inv: "um_inv s (prog_end cur k) A" and n: "nbytes < 2 ^ 31 - 15" and sz: "prog_end cur k < 2 ^ 31" and cur: "cur < length (ptab k)"
    and run: "malloc bound cur nbytes s k = Inr (s', k', a)"
  shows "um_base s' = um_base s \<and> prog_end cur k \<le> prog_end cur k' \<and> prog_end cur k' < 2 ^ 31 \<and> length (ptab k') = length (ptab k) \<and> (\<forall>x \<in> A. units s' x = units s x) \<and>
    (a = 0 \<and> um_inv s' (prog_end cur k') A \<or>
     (\<exists>b. a = b + 8 \<and> b \<notin> A \<and> b \<noteq> 0 \<and> um_inv s' (prog_end cur k') (insert b A) \<and> units s' b = nunits nbytes))"
proof -
  let ?n = "nunits nbytes"
  note nb = nunits_bounds [OF n]
  obtain F where ok: "um_ok (ready s) (prog_end cur k) A F" using ready_ok(1) [OF inv] by blast
  note rd = ready_ok(2,3) [OF inv]
  have got: "um_base s' = um_base s \<and> (\<forall>x \<in> A. units s' x = units s x) \<and>
      (\<exists>b. a = b + 8 \<and> b \<notin> A \<and> b \<noteq> 0 \<and> um_inv s' E' (insert b A) \<and> units s' b = ?n)" if "a = b + 8" "got ?n (ready s) A E' s' b" for b E'
    using that rd unfolding got_def um_inv_def by auto
  consider (first) s1 b where "malloc_loop bound cur ?n (freep (ready s)) (ptr_of (ready s) (freep (ready s))) (ready s) k = Some (Inr (s1, k, b + 8))"
      "got ?n (ready s) A (prog_end cur k) s1 b"
    | (grow) "malloc_loop bound cur ?n (freep (ready s)) (ptr_of (ready s) (freep (ready s))) (ready s) k = grow bound cur ?n (ready s) k"
    using first_round [OF ok conjunct1 [OF nb], of bound cur k] by blast
  then show ?thesis
  proof cases
    case first
    then have "s1 = s'" "k = k'" "a = b + 8" using run by (simp_all add: malloc_ready)
    then show ?thesis using got first(2) sz by auto
  next
    case grow
    have "\<exists>k1 r. sbrk bound cur (int (8 * max ?n 4096)) k = Inr (k1, r)"
    proof (cases "sbrk bound cur (int (8 * max ?n 4096)) k")
      case (Inl e)
      have "sint (of_nat (max ?n 4096 * 8) :: addr) = int (8 * max ?n 4096)" using sint_small [of "max ?n 4096 * 8"] nb by (simp add: mult.commute)
      then have "morecore bound cur ?n (ready s) k = Inl e" using Inl unfolding morecore_def Let_def by simp
      then show ?thesis using run grow by (simp add: malloc_ready grow_def)
    qed auto
    then obtain k1 r where k1: "sbrk bound cur (int (8 * max ?n 4096)) k = Inr (k1, r)" by blast
    obtain s2 k2 E2 a2 where al: "malloc_loop bound cur ?n (freep (ready s)) (ptr_of (ready s) (freep (ready s))) (ready s) k = Some (Inr (s2, k2, a2))"
      "k2 = k \<and> E2 = prog_end cur k \<and> a2 \<noteq> 0 \<or> (\<forall>x \<in> F. units (ready s) x < ?n) \<and> k2 = k1 \<and> E2 = prog_end cur k1 \<and>
        (r \<noteq> None \<longrightarrow> a2 \<noteq> 0 \<and> prog_end cur k \<le> prog_end cur k1 \<and> prog_end cur k1 < 2 ^ 31 \<and> length (ptab k1) = length (ptab k))"
      "a2 = 0 \<and> r = None \<and> s2 = ready s \<or> (\<exists>b. a2 = b + 8 \<and> got ?n (ready s) A E2 s2 b)"
      using alloc_spec [OF ok conjunct1 [OF nb] conjunct1 [OF conjunct2 [OF nb]] order_refl sz cur k1] by blast
    have e: "s2 = s'" "k2 = k'" "a2 = a" using run al(1) by (simp_all add: malloc_ready)
    have k': "prog_end cur k \<le> prog_end cur k' \<and> prog_end cur k' < 2 ^ 31 \<and> length (ptab k') = length (ptab k) \<and> E2 = prog_end cur k'"
    proof (cases "k2 = k1 \<and> r = None")
      case True
      then have "ptab k' = ptab k" using sbrk_fails [of bound cur _ k k1] k1 e by simp
      then show ?thesis using al(2) e sz True by (auto simp: prog_end_def)
    qed (use al(2) e sz in auto)
    show ?thesis
      using al(3)
    proof (elim disjE exE conjE)
      assume z: "a2 = 0" "s2 = ready s"
      have "um_ok s' (prog_end cur k') A F" using um_ok_mono [OF ok] k' z e by simp
      then show ?thesis using z e k' rd by (auto simp: um_inv_def)
    next
      fix b assume b: "a2 = b + 8" "got ?n (ready s) A E2 s2 b"
      then show ?thesis using got [of b E2] k' e by auto
    qed
  qed
qed

lemma malloc_total:
  assumes inv: "um_inv s (prog_end cur k) A" and n: "nbytes < 2 ^ 31 - 15" and sz: "prog_end cur k < 2 ^ 31" and cur: "cur < length (ptab k)"
    and k: "sbrk bound cur (int (8 * max (nunits nbytes) 4096)) k = Inr r"
  shows "\<exists>r'. malloc bound cur nbytes s k = Inr r'"
proof -
  obtain F where ok: "um_ok (ready s) (prog_end cur k) A F" using ready_ok(1) [OF inv] by blast
  obtain k1 r1 where "r = (k1, r1)" by fastforce
  then have "sbrk bound cur (int (8 * max (nunits nbytes) 4096)) k = Inr (k1, r1)" using k by simp
  note al = alloc_spec [OF ok conjunct1 [OF nunits_bounds [OF n]] conjunct1 [OF conjunct2 [OF nunits_bounds [OF n]]] order_refl sz cur this]
  obtain s' k2 a where
    "malloc_loop bound cur (nunits nbytes) (freep (ready s)) (ptr_of (ready s) (freep (ready s))) (ready s) k = Some (Inr (s', k2, a))" using al by blast
  then show ?thesis by (simp add: malloc_ready)
qed

lemma free_run:
  assumes inv: "um_inv s E (insert b A)" and b: "b \<notin> A"
  shows "\<exists>s'. free (b + 8) s = Inr s' \<and> um_inv s' E A \<and> um_base s' = um_base s \<and> (\<forall>x \<in> A. units s' x = units s x) \<and>
    (\<exists>F'. um_ok s' E A F' \<and> (\<exists>x \<in> F'. units s b \<le> units s' x))"
proof -
  obtain F where "um_ok s E (insert b A) F" using inv by (auto simp: um_inv_def)
  from free_spec [OF this b] show ?thesis unfolding um_inv_def by blast
qed

subsection \<open>Histories\<close>

text \<open>
  The last component maps the outstanding blocks to the number of bytes requested. \<open>um_kernel\<close> is any change of the kernel
  that does not shrink the program: other processes, or its own calls of \<open>sbrk\<close>.
\<close>

type_synonym 'e um_hist = "um \<times> 'e kern \<times> (nat \<rightharpoonup> nat)"

inductive um_step :: "addr \<Rightarrow> nat \<Rightarrow> 'e um_hist \<Rightarrow> 'e um_hist \<Rightarrow> bool" for bound cur where
  um_malloc: "n < 2 ^ 31 - 15 \<Longrightarrow> malloc bound cur n s k = Inr (s', k', a) \<Longrightarrow>
    um_step bound cur (s, k, M) (s', k', if a = 0 then M else M(a \<mapsto> n))"
| um_free: "M a = Some n \<Longrightarrow> free a s = Inr s' \<Longrightarrow> um_step bound cur (s, k, M) (s', k, M(a := None))"
| um_kernel: "prog_end cur k \<le> prog_end cur k' \<Longrightarrow> prog_end cur k' < 2 ^ 31 \<Longrightarrow> length (ptab k') = length (ptab k) \<Longrightarrow>
    um_step bound cur (s, k, M) (s, k', M)"

definition headers :: "(nat \<rightharpoonup> nat) \<Rightarrow> nat set" where
  "headers M = (\<lambda>a. a - 8) ` dom M"

definition hist_ok :: "nat \<Rightarrow> 'e um_hist \<Rightarrow> bool" where
  "hist_ok cur = (\<lambda>(s, k, M). um_inv s (prog_end cur k) (headers M) \<and> (\<forall>a n. M a = Some n \<longrightarrow> 8 < a \<and> n + 8 \<le> 8 * units s (a - 8)) \<and>
     prog_end cur k < 2 ^ 31 \<and> cur < length (ptab k))"

lemma headers_upd: "a = b + 8 \<Longrightarrow> headers (M(a \<mapsto> n)) = insert b (headers M)"
  by (simp add: headers_def)

lemma headers_del:
  assumes M: "\<And>x n. M x = Some n \<Longrightarrow> 8 < x" and a: "M a = Some n"
  shows "headers M = insert (a - 8) (headers (M(a := None)))" and "a - 8 \<notin> headers (M(a := None))"
proof -
  show "headers M = insert (a - 8) (headers (M(a := None)))" using a by (auto simp: headers_def image_def)
  show "a - 8 \<notin> headers (M(a := None))"
  proof
    assume "a - 8 \<in> headers (M(a := None))"
    then obtain x m where "a - 8 = x - 8" "x \<noteq> a" "M x = Some m" by (auto simp: headers_def split: if_splits)
    then show False using M [of x m] M [OF a] by simp
  qed
qed

lemma free_outstanding:
  assumes ok: "hist_ok cur (s, k, M)" and a: "M a = Some n"
  shows "\<exists>s'. free a s = Inr s' \<and> hist_ok cur (s', k, M(a := None)) \<and> um_base s' = um_base s \<and>
    (\<exists>F'. um_ok s' (prog_end cur k) (headers (M(a := None))) F' \<and> (\<exists>x \<in> F'. units s (a - 8) \<le> units s' x))"
proof -
  have M: "\<And>x m. M x = Some m \<Longrightarrow> 8 < x \<and> m + 8 \<le> 8 * units s (x - 8)" and inv: "um_inv s (prog_end cur k) (headers M)"
    using ok by (auto simp: hist_ok_def)
  have M8: "\<And>x m. M x = Some m \<Longrightarrow> 8 < x" using M by blast
  have h: "headers M = insert (a - 8) (headers (M(a := None)))" "a - 8 \<notin> headers (M(a := None))"
    using headers_del [of M a n] M8 a by blast+
  obtain s' where s': "free (a - 8 + 8) s = Inr s'" "um_inv s' (prog_end cur k) (headers (M(a := None)))" "um_base s' = um_base s"
    "\<forall>x \<in> headers (M(a := None)). units s' x = units s x"
    "\<exists>F'. um_ok s' (prog_end cur k) (headers (M(a := None))) F' \<and> (\<exists>x \<in> F'. units s (a - 8) \<le> units s' x)"
    using free_run [OF inv [unfolded h(1)] h(2)] by blast
  have u: "units s' (x - 8) = units s (x - 8)" if "(M(a := None)) x = Some m" for x m
  proof -
    have "x - 8 \<in> headers (M(a := None))" using that unfolding headers_def by blast
    then show ?thesis using s'(4) by blast
  qed
  have "8 < x \<and> m + 8 \<le> 8 * units s' (x - 8)" if h: "(M(a := None)) x = Some m" for x m
  proof -
    have "M x = Some m" using h by (simp split: if_splits)
    then show ?thesis using M u [OF h] by simp
  qed
  then have "hist_ok cur (s', k, M(a := None))" using s'(2) ok by (simp add: hist_ok_def)
  moreover have "a - 8 + 8 = a" using M8 [OF a] by simp
  ultimately show ?thesis using s' by (intro exI [of _ s']) simp
qed

lemma um_step_ok:
  assumes "um_step bound cur h h'" and "hist_ok cur h"
  shows "hist_ok cur h' \<and> um_base (fst h') = um_base (fst h)"
  using assms
proof cases
  case (um_malloc n s k s' k' a M)
  have ok: "hist_ok cur (s, k, M)" using assms(2) um_malloc by simp
  then have inv: "um_inv s (prog_end cur k) (headers M)" and sz: "prog_end cur k < 2 ^ 31" "cur < length (ptab k)"
    and M: "\<And>x m. M x = Some m \<Longrightarrow> 8 < x \<and> m + 8 \<le> 8 * units s (x - 8)" by (auto simp: hist_ok_def)
  note r = malloc_run [OF inv um_malloc(3) sz um_malloc(4)]
  have mem: "M x = Some m \<Longrightarrow> x - 8 \<in> headers M" for x m unfolding headers_def by blast
  have keep: "8 < x \<and> m + 8 \<le> 8 * units s' (x - 8)" if "M x = Some m" for x m using M [OF that] r mem [OF that] by simp
  show ?thesis
  proof (cases "a = 0")
    case True
    then show ?thesis using um_malloc r sz keep by (auto simp: hist_ok_def)
  next
    case False
    then obtain b where b: "a = b + 8" "b \<noteq> 0" "um_inv s' (prog_end cur k') (insert b (headers M))" "units s' b = nunits n" using r by auto
    have "n + 8 \<le> 8 * units s' (a - 8)" using nunits_bounds [OF um_malloc(3)] b by simp
    then show ?thesis using um_malloc r sz keep b False by (simp add: hist_ok_def headers_upd)
  qed
next
  case (um_free M a n s s' k)
  then show ?thesis using free_outstanding [of cur s k M a n] assms(2) by auto
next
  case (um_kernel k k' s M)
  then show ?thesis using assms(2) um_inv_mono by (auto simp: hist_ok_def)
qed

definition um_start :: "nat \<Rightarrow> um \<Rightarrow> 'e kern \<Rightarrow> bool" where
  "um_start cur s k \<longleftrightarrow> freep s = 0 \<and> 0 < um_base s \<and> um_base s + 8 \<le> prog_end cur k \<and> prog_end cur k < 2 ^ 31 \<and> cur < length (ptab k)"

lemma um_reach_ok:
  assumes "um_start cur s0 k0" and "(um_step bound cur)\<^sup>*\<^sup>* (s0, k0, Map.empty) h"
  shows "hist_ok cur h \<and> um_base (fst h) = um_base s0"
  using assms(2)
proof (induction rule: rtranclp_induct)
  case base
  then show ?case using assms(1) by (simp add: hist_ok_def um_start_def um_inv_def headers_def)
next
  case (step h h')
  then show ?case using um_step_ok by metis
qed

lemma outstanding_disjoint:
  assumes ok: "hist_ok cur (s, k, M)" and a: "M a = Some n"
  shows "um_base s + 16 \<le> a \<and> a + n \<le> prog_end cur k" and "M b = Some m \<Longrightarrow> a < b \<Longrightarrow> a + n + 8 \<le> b"
proof -
  have M: "\<And>x m. M x = Some m \<Longrightarrow> 8 < x \<and> m + 8 \<le> 8 * units s (x - 8)" and inv: "um_inv s (prog_end cur k) (headers M)"
    using ok by (auto simp: hist_ok_def)
  have mem: "M x = Some m \<Longrightarrow> x - 8 \<in> headers M" for x m unfolding headers_def by blast
  obtain F where F: "um_core s (prog_end cur k) (headers M) F {}" using inv mem [OF a] by (auto simp: um_inv_def um_ok_def)
  note d = um_coreD [OF F]
  have "a - 8 \<noteq> um_base s" using mem [OF a] d(1,4) by auto
  then show "um_base s + 16 \<le> a \<and> a + n \<le> prog_end cur k" using d(6,7) [of "a - 8"] mem [OF a] M [OF a] by auto
  assume b: "M b = Some m" "a < b"
  then have "a - 8 < b - 8" using M [OF a] by auto
  then have "a - 8 + 8 * units s (a - 8) \<le> b - 8" using d(8) mem [OF a] mem [OF b(1)] by simp
  then show "a + n + 8 \<le> b" using M [OF a] M [OF b(1)] by auto
qed

text \<open>
  C22 (user_heap_safe): in every history of \<open>malloc\<close> and \<open>free\<close> the outstanding blocks lie inside the memory of the program, behind the
  header of the list, and do not overlap each other or their headers; freeing an outstanding block always ends; and a \<open>malloc\<close> of fewer than
  2 ^ 31 - 15 bytes ends unless the kernel fails in the one \<open>sbrk\<close> that it may need.
\<close>

theorem user_heap_safe:
  assumes "um_start cur s0 k0" and "(um_step bound cur)\<^sup>*\<^sup>* (s0, k0, Map.empty) (s, k, M)"
  shows "(\<forall>a n. M a = Some n \<longrightarrow> um_base s0 + 16 \<le> a \<and> a + n \<le> prog_end cur k \<and> (\<exists>s'. free a s = Inr s')) \<and>
    (\<forall>a n b m. M a = Some n \<longrightarrow> M b = Some m \<longrightarrow> a < b \<longrightarrow> a + n + 8 \<le> b) \<and>
    (\<forall>n r. n < 2 ^ 31 - 15 \<longrightarrow> sbrk bound cur (int (8 * max (nunits n) 4096)) k = Inr r \<longrightarrow> (\<exists>r'. malloc bound cur n s k = Inr r'))"
proof -
  have ok: "hist_ok cur (s, k, M)" and base: "um_base s = um_base s0" using um_reach_ok [OF assms] by simp_all
  have "\<exists>r'. malloc bound cur n s k = Inr r'" if "n < 2 ^ 31 - 15" "sbrk bound cur (int (8 * max (nunits n) 4096)) k = Inr r" for n r
    using malloc_total [of s cur k "headers M" n bound r] that ok by (simp add: hist_ok_def)
  then show ?thesis using outstanding_disjoint [OF ok] free_outstanding [OF ok] unfolding base by blast
qed

text \<open>
  C23 (freed_memory_reused): after a block has been freed, a request that is not larger succeeds without asking the kernel for memory,
  whatever other blocks are outstanding.
\<close>

theorem freed_memory_reused:
  assumes "um_start cur s0 k0" and "(um_step bound cur)\<^sup>*\<^sup>* (s0, k0, Map.empty) (s, k, M)" and "M a = Some n" and "m \<le> n" and "n < 2 ^ 31 - 15"
  shows "\<exists>s1 s2 b. free a s = Inr s1 \<and> malloc bound cur m s1 k = Inr (s2, k, b) \<and> b \<noteq> 0"
proof -
  have ok: "hist_ok cur (s, k, M)" using um_reach_ok [OF assms(1,2)] by simp
  have u: "n + 8 \<le> 8 * units s (a - 8)" using ok assms(3) by (auto simp: hist_ok_def)
  obtain s1 F x where s1: "free a s = Inr s1" "um_ok s1 (prog_end cur k) (headers (M(a := None))) F" "x \<in> F" "units s (a - 8) \<le> units s1 x"
    using free_outstanding [OF ok assms(3)] by blast
  have "nunits m \<le> units s1 x" using u s1(4) assms(4,5) by (simp add: nunits_def)
  then have nb: "\<not> (\<forall>x \<in> F. units s1 x < nunits m)" using s1(3) not_le by blast
  have pos: "0 < nunits m" by (simp add: nunits_def)
  obtain s2 b where m: "malloc_loop bound cur (nunits m) (freep s1) (ptr_of s1 (freep s1)) s1 k = Some (Inr (s2, k, b + 8))"
    using first_round [OF s1(2) pos, of bound cur k] nb by blast
  have "ready s1 = s1" using um_ok_freep [OF s1(2)] by (simp add: ready_def)
  then have "malloc bound cur m s1 k = Inr (s2, k, b + 8)" using m by (simp add: malloc_ready)
  then show ?thesis using s1(1) by (intro exI [of _ s1] exI [of _ s2] exI [of _ "b + 8"]) simp
qed

text \<open>Requests near the end of the range wrap around to one header without any byte.\<close>

lemma huge_request: "2 ^ 32 - 7 \<le> n \<Longrightarrow> n < 2 ^ 32 \<Longrightarrow> nunits n = 1"
proof -
  assume n: "2 ^ 32 - 7 \<le> n" "n < 2 ^ 32"
  then obtain j where "n + 7 = 2 ^ 32 + j" "j < 7" by (metis (no_types, lifting) add_diff_cancel_left' le_add_diff_inverse nat_add_left_cancel_less add.commute le_diff_conv)
  then show ?thesis by (simp add: nunits_def)
qed

subsection \<open>A program with memory\<close>

lemma malloc_granted:
  assumes inv: "um_inv s (prog_end cur k) A" and n: "nbytes < 2 ^ 31 - 15" and sz: "prog_end cur k < 2 ^ 31" and cur: "cur < length (ptab k)"
    and k: "sbrk bound cur (int (8 * max (nunits nbytes) 4096)) k = Inr (k1, Some hp)"
  shows "\<exists>s' k' a. malloc bound cur nbytes s k = Inr (s', k', a) \<and> a \<noteq> 0"
proof -
  obtain F where ok: "um_ok (ready s) (prog_end cur k) A F" using ready_ok(1) [OF inv] by blast
  note al = alloc_spec [OF ok conjunct1 [OF nunits_bounds [OF n]] conjunct1 [OF conjunct2 [OF nunits_bounds [OF n]]] order_refl sz cur k]
  obtain s' k2 a where
    "malloc_loop bound cur (nunits nbytes) (freep (ready s)) (ptr_of (ready s) (freep (ready s))) (ready s) k = Some (Inr (s', k2, a))" "a \<noteq> 0"
    using al by blast
  then show ?thesis by (simp add: malloc_ready)
qed

definition demo_heap :: um where
  "demo_heap = \<lparr>um_base = 0x800, hdr = (\<lambda>_. \<lparr>h_ptr = 0, h_size = 0\<rparr>), freep = 0\<rparr>"

definition demo_program :: "addr \<Rightarrow> kmem \<Rightarrow> unit kern" where
  "demo_program d m = \<lparr>km = m, ptab = [\<lparr>p_sz = 0x1000, p_pgdir = d, p_kstack = 0, p_state = RUNNING, p_pid = 1, p_parent = 0,
     p_tf = \<lparr>tf_eax = 0, tf_cs = 0, tf_ds = 0, tf_es = 0, tf_ss = 0, tf_eflags = 0, tf_esp = 0, tf_eip = 0, tf_rest = []\<rparr>,
     p_chan = NoChan, p_killed = 0, p_ofile = [], p_cwd = 0, p_name = [], p_np = -1\<rparr>], nextpid = 2, initproc = 0, cpus = [], env = ()\<rparr>"

lemma demo_malloc:
  "\<exists>k s' k' a. um_start 0 demo_heap k \<and> malloc 0x80100400 0 10 demo_heap (k :: unit kern) = Inr (s', k', a) \<and> a \<noteq> 0"
proof -
  obtain m d ps where m: "pt_ok 0x80100400 m ps d" "length ps = 17" "\<forall>a. vpte m d a = 0" using demo_large by blast
  have up: "PGROUNDUP 0x1000 = 0x1000" by (simp add: PGROUNDUP_def)
  have "\<exists>m' ps'. alloc_loop (2 ^ 20 + 1) 0x80100400 d 0x1000 0x1000 0x9000 m = Inr (m', 0x9000) \<and> pt_ok 0x80100400 m' ps' d \<and> length ps \<le> length ps' + 2 * 8 \<and>
    (\<forall>i < 8. vpte m' d (0x1000 + 4096 * of_nat i) AND (PTE_P OR PTE_W OR PTE_U) = PTE_P OR PTE_W OR PTE_U) \<and>
    (\<forall>x. (\<forall>i < 8. page_of x \<noteq> 0x1000 + 4096 * of_nat i) \<longrightarrow> vpte m' d x = vpte m d x)"
    by (rule alloc_loop_grows [OF m(1)]) (simp_all add: m)
  then obtain m' where "alloc_loop (2 ^ 20 + 1) 0x80100400 d 0x1000 0x1000 0x9000 m = Inr (m', 0x9000)" by blast
  then have g: "allocuvm 0x80100400 d 0x1000 0x9000 m = Inr (m', 0x9000)" by (simp add: allocuvm_def up KERNBASE_def)
  let ?k = "demo_program d m"
  have nu: "nunits 10 = 3" by (simp add: nunits_def)
  have "\<exists>k1. sbrk 0x80100400 0 (int (8 * max (nunits 10) 4096)) ?k = Inr (k1, Some 0x1000)"
    using g by (simp add: sbrk_def growproc_def nu demo_program_def)
  then obtain k1 where k1: "sbrk 0x80100400 0 (int (8 * max (nunits 10) 4096)) ?k = Inr (k1, Some 0x1000)" by blast
  have start: "um_start 0 demo_heap ?k" by (simp add: um_start_def demo_heap_def demo_program_def prog_end_def)
  then have "um_inv demo_heap (prog_end 0 ?k) {}" "prog_end 0 ?k < 2 ^ 31" "0 < length (ptab ?k)" by (simp_all add: um_start_def um_inv_def)
  from malloc_granted [OF this(1) _ this(2,3) k1] start show ?thesis by auto
qed

lemma user_heap_safe_witness:
  "\<exists>k s' k' a s''. malloc 0x80100400 0 10 demo_heap (k :: unit kern) = Inr (s', k', a) \<and> 0x810 \<le> a \<and> a + 10 \<le> prog_end 0 k' \<and> free a s' = Inr s''"
proof -
  obtain k s' k' a where d: "um_start 0 demo_heap k" "malloc 0x80100400 0 10 demo_heap (k :: unit kern) = Inr (s', k', a)" "a \<noteq> 0"
    using demo_malloc by blast
  have "um_step 0x80100400 0 (demo_heap, k, Map.empty) (s', k', if a = 0 then Map.empty else Map.empty(a \<mapsto> 10))"
    by (rule um_malloc [OF _ d(2)]) simp
  then have r: "(um_step 0x80100400 0)\<^sup>*\<^sup>* (demo_heap, k, Map.empty) (s', k', [a \<mapsto> 10])" using d(3) by simp
  have "um_base demo_heap + 16 \<le> a \<and> a + 10 \<le> prog_end 0 k' \<and> (\<exists>s''. free a s' = Inr s'')"
    using user_heap_safe [OF d(1) r, THEN conjunct1, rule_format, of a 10] by simp
  moreover have "um_base demo_heap + 16 = 0x810" by (simp add: demo_heap_def)
  ultimately have "0x810 \<le> a" "a + 10 \<le> prog_end 0 k'" "\<exists>s''. free a s' = Inr s''" by simp_all
  then show ?thesis using d(2) by blast
qed

lemma freed_memory_reused_witness:
  "\<exists>k s' k' a s1 s2 b. malloc 0x80100400 0 10 demo_heap (k :: unit kern) = Inr (s', k', a) \<and> free a s' = Inr s1 \<and>
     malloc 0x80100400 0 4 s1 k' = Inr (s2, k', b) \<and> b \<noteq> 0"
proof -
  obtain k s' k' a where d: "um_start 0 demo_heap k" "malloc 0x80100400 0 10 demo_heap (k :: unit kern) = Inr (s', k', a)" "a \<noteq> 0"
    using demo_malloc by blast
  have "um_step 0x80100400 0 (demo_heap, k, Map.empty) (s', k', if a = 0 then Map.empty else Map.empty(a \<mapsto> 10))"
    by (rule um_malloc [OF _ d(2)]) simp
  then have r: "(um_step 0x80100400 0)\<^sup>*\<^sup>* (demo_heap, k, Map.empty) (s', k', [a \<mapsto> 10])" using d(3) by simp
  have "\<exists>s1 s2 b. free a s' = Inr s1 \<and> malloc 0x80100400 0 4 s1 k' = Inr (s2, k', b) \<and> b \<noteq> 0"
    by (rule freed_memory_reused [OF d(1) r, of a 10]) simp_all
  then show ?thesis using d(2) by blast
qed

end
