(* ===== verification/Console.thy ===== *)
theory Console
  imports Queues
begin

text \<open>
  The console (console.c) and the formatted output of user programs (printf.c): numbers, format strings, the text
  screen with its cursor, and the line editor of the keyboard.
\<close>

unbundle bit_operations_syntax

subsection \<open>Numbers\<close>

text \<open>The loop of \<open>printint\<close>: the digits from the last one on. It is only called with the bases 10 and 16.\<close>

function digits_loop :: "byte list \<Rightarrow> nat \<Rightarrow> nat \<Rightarrow> byte list" where
  "digits_loop digits base x =
     digits ! (x mod base) # (if x div base \<noteq> 0 \<and> 1 < base then digits_loop digits base (x div base) else [])"
  by pat_completeness auto
termination
  by (relation "measure (\<lambda>(d, b, x). x)") (auto simp: div_greater_zero_iff)

declare digits_loop.simps [simp del]

definition printint :: "byte list \<Rightarrow> u32 \<Rightarrow> nat \<Rightarrow> bool \<Rightarrow> byte list" where
  "printint digits xx base signed_p =
     (let neg = signed_p \<and> sint xx < 0; x = unat (if neg then - xx else xx);
          buf = digits_loop digits base x @ (if neg then [45] else [])
      in rev buf)"

definition digits_lower :: "byte list" where
  "digits_lower = [48, 49, 50, 51, 52, 53, 54, 55, 56, 57, 97, 98, 99, 100, 101, 102]"

definition digits_upper :: "byte list" where
  "digits_upper = [48, 49, 50, 51, 52, 53, 54, 55, 56, 57, 65, 66, 67, 68, 69, 70]"

subsection \<open>Format strings\<close>

text \<open>
  The arguments are the words behind \<open>fmt\<close> on the stack; reading more of them than there are is \<open>OutOfBounds\<close>. \<open>str a\<close> is the string at
  the address \<open>a\<close>, without its NUL. The result is the output; \<open>pct\<close> is the state after a percent sign.
\<close>

definition str_arg :: "(u32 \<Rightarrow> byte list) \<Rightarrow> u32 \<Rightarrow> byte list" where
  "str_arg str a = (if a = 0 then [40, 110, 117, 108, 108, 41] else str a)"

fun printf_loop :: "(u32 \<Rightarrow> byte list) \<Rightarrow> bool \<Rightarrow> byte list \<Rightarrow> u32 list \<Rightarrow> byte list res" where
  "printf_loop str pct [] args = Inl OutOfBounds"
| "printf_loop str pct (c # fmt) args =
     (if c = 0 then Inr []
      else if \<not> pct then
        if c = 37 then printf_loop str True fmt args
        else rbind (printf_loop str False fmt args) (\<lambda>out. Inr (c # out))
      else if c = 100 \<or> c = 120 \<or> c = 112 \<or> c = 115 \<or> c = 99 then
        case args of
          [] \<Rightarrow> Inl OutOfBounds
        | a # rest \<Rightarrow> rbind (printf_loop str False fmt rest) (\<lambda>out. Inr (
            (if c = 100 then printint digits_upper a 10 True
             else if c = 120 \<or> c = 112 then printint digits_upper a 16 False
             else if c = 115 then str_arg str a
             else [ucast a]) @ out))
      else if c = 37 then rbind (printf_loop str False fmt args) (\<lambda>out. Inr (37 # out))
      else rbind (printf_loop str False fmt args) (\<lambda>out. Inr (37 # c # out)))"

definition printf :: "(u32 \<Rightarrow> byte list) \<Rightarrow> byte list \<Rightarrow> u32 list \<Rightarrow> byte list res" where
  "printf str fmt args = printf_loop str False fmt args"

fun cprintf_loop :: "(u32 \<Rightarrow> byte list) \<Rightarrow> byte list \<Rightarrow> u32 list \<Rightarrow> byte list res" where
  "cprintf_loop str [] args = Inl OutOfBounds"
| "cprintf_loop str (c # fmt) args =
     (if c = 0 then Inr []
      else if c \<noteq> 37 then rbind (cprintf_loop str fmt args) (\<lambda>out. Inr (c # out))
      else case fmt of
        [] \<Rightarrow> Inl OutOfBounds
      | d # fmt1 \<Rightarrow>
          if d = 0 then Inr []
          else if d = 100 \<or> d = 120 \<or> d = 112 \<or> d = 115 then
            case args of
              [] \<Rightarrow> Inl OutOfBounds
            | a # rest \<Rightarrow> rbind (cprintf_loop str fmt1 rest) (\<lambda>out. Inr (
                (if d = 100 then printint digits_lower a 10 True
                 else if d = 120 \<or> d = 112 then printint digits_lower a 16 False
                 else str_arg str a) @ out))
          else if d = 37 then rbind (cprintf_loop str fmt1 args) (\<lambda>out. Inr (37 # out))
          else rbind (cprintf_loop str fmt1 args) (\<lambda>out. Inr (37 # d # out)))"

definition cprintf :: "(u32 \<Rightarrow> byte list) \<Rightarrow> byte list option \<Rightarrow> u32 list \<Rightarrow> byte list res" where
  "cprintf str fmt args = (case fmt of None \<Rightarrow> Inl (Panic ''null fmt'') | Some f \<Rightarrow> cprintf_loop str f args)"

subsection \<open>The text screen\<close>

text \<open>\<open>crt\<close> is the text memory, \<open>pos\<close> the cursor, kept by the display controller. A character is an int; \<open>BACKSPACE\<close> is none.\<close>

definition BACKSPACE :: int where "BACKSPACE = 0x100"

record cga =
  crt :: "16 word list"
  pos :: int

definition crt_cell :: "int \<Rightarrow> 16 word" where
  "crt_cell c = word_of_int c AND 0xFF OR 0x0700"

definition cgaputc :: "int \<Rightarrow> cga \<Rightarrow> cga res" where
  "cgaputc c s =
     rbind (if c = 10 then Inr (s\<lparr>pos := pos s + (80 - pos s mod 80)\<rparr>)
            else if c = BACKSPACE then Inr (if pos s > 0 then s\<lparr>pos := pos s - 1\<rparr> else s)
            else rbind (arr_set (crt s) (pos s) (crt_cell c)) (\<lambda>m. Inr (s\<lparr>crt := m, pos := pos s + 1\<rparr>))) (\<lambda>s1.
     if pos s1 < 0 \<or> pos s1 > 25 * 80 then Inl (Panic ''pos under/overflow'')
     else
       rbind (if pos s1 div 80 \<ge> 24 then
           rbind (if 24 * 80 \<le> length (crt s1) then Inr (take (23 * 80) (drop 80 (crt s1)) @ drop (23 * 80) (crt s1)) else Inl OutOfBounds) (\<lambda>m.
           let p = pos s1 - 80 in
           if nat (24 * 80 - p) + nat p \<le> length m
           then Inr \<lparr>crt = take (nat p) m @ replicate (nat (24 * 80 - p)) 0 @ drop (24 * 80) m, pos = p\<rparr> else Inl OutOfBounds)
         else Inr s1) (\<lambda>s2.
       rbind (arr_set (crt s2) (pos s2) (crt_cell 32)) (\<lambda>m. Inr (s2\<lparr>crt := m\<rparr>))))"

text \<open>\<open>consputc\<close> writes to the serial line, too; here is the screen.\<close>

fun consputs :: "int list \<Rightarrow> cga \<Rightarrow> cga res" where
  "consputs [] s = Inr s"
| "consputs (c # cs) s = rbind (cgaputc c s) (consputs cs)"

subsection \<open>Input\<close>

text \<open>
  The ring of typed characters with its free-running counters: read up to \<open>i_w\<close>, edited up to \<open>i_e\<close>. A step of
  \<open>consoleintr\<close> gives the characters echoed, and whether readers are woken.
\<close>

definition INPUT_BUF :: u32 where "INPUT_BUF = 128"

record input =
  ibuf :: "byte list"
  i_r :: u32
  i_w :: u32
  i_e :: u32

function kill_line :: "input \<Rightarrow> (input \<times> int list) res" where
  "kill_line s =
     (if i_e s = i_w s then Inr (s, [])
      else rbind (arr_get (ibuf s) (uint ((i_e s - 1) mod INPUT_BUF))) (\<lambda>c.
        if c = 10 then Inr (s, [])
        else rbind (kill_line (s\<lparr>i_e := i_e s - 1\<rparr>)) (\<lambda>(s1, out). Inr (s1, BACKSPACE # out))))"
  by pat_completeness auto
termination
proof (relation "measure (\<lambda>s. unat (i_e s - i_w s))", simp, clarsimp)
  fix s :: input
  assume "i_e s \<noteq> i_w s"
  then have "i_e s - i_w s \<noteq> 0" by simp
  then have "unat (i_e s - i_w s - 1) < unat (i_e s - i_w s)" by (simp add: unat_minus_one unat_gt_0)
  then show "unat (i_e s - 1 - i_w s) < unat (i_e s - i_w s)" by (simp add: algebra_simps)
qed

declare kill_line.simps [simp del]

definition console_char :: "int \<Rightarrow> input \<Rightarrow> (input \<times> int list \<times> bool) res" where
  "console_char c s =
     (if c = 16 then Inr (s, [], False)
      else if c = 21 then rbind (kill_line s) (\<lambda>(s1, out). Inr (s1, out, False))
      else if c = 8 \<or> c = 127 then
        Inr (if i_e s \<noteq> i_w s then (s\<lparr>i_e := i_e s - 1\<rparr>, [BACKSPACE], False) else (s, [], False))
      else if c \<noteq> 0 \<and> i_e s - i_r s < INPUT_BUF then
        let c1 = (if c = 13 then 10 else c) in
        rbind (arr_set (ibuf s) (uint (i_e s mod INPUT_BUF)) (word_of_int c1)) (\<lambda>b.
        let s1 = s\<lparr>ibuf := b, i_e := i_e s + 1\<rparr> in
        Inr (if c1 = 10 \<or> c1 = 4 \<or> i_e s1 = i_r s1 + INPUT_BUF then (s1\<lparr>i_w := i_e s1\<rparr>, [c1], True) else (s1, [c1], False)))
      else Inr (s, [], False))"

text \<open>\<open>consoleintr\<close> on the characters that \<open>getc\<close> gives; the last component says that processes are to be listed.\<close>

fun consoleintr :: "int list \<Rightarrow> input \<Rightarrow> (input \<times> int list \<times> bool) res" where
  "consoleintr [] s = Inr (s, [], False)"
| "consoleintr (c # cs) s =
     (if c < 0 then Inr (s, [], False)
      else rbind (console_char c s) (\<lambda>(s1, out, w).
        rbind (consoleintr cs s1) (\<lambda>(s2, out2, d). Inr (s2, out @ out2, c = 16 \<or> d))))"

text \<open>
  \<open>consoleread\<close> from a point where it holds the lock, with \<open>n\<close> bytes still to be read of \<open>target\<close>, to its return or its next \<open>sleep\<close>.
  It gives the bytes it has copied meanwhile.
\<close>

datatype con_stop = CDone | CFail | CSleep nat

fun consoleread :: "bool \<Rightarrow> nat \<Rightarrow> nat \<Rightarrow> input \<Rightarrow> (input \<times> byte list \<times> con_stop) res" where
  "consoleread killed target 0 s = Inr (s, [], CDone)"
| "consoleread killed target (Suc n) s =
     (if i_r s = i_w s then Inr (s, [], if killed then CFail else CSleep (Suc n))
      else
        rbind (arr_get (ibuf s) (uint (i_r s mod INPUT_BUF))) (\<lambda>c.
        let s1 = s\<lparr>i_r := i_r s + 1\<rparr> in
        if c = 4 then Inr (if Suc n < target then s else s1, [], CDone)
        else if c = 10 then Inr (s1, [c], CDone)
        else rbind (consoleread killed target n s1) (\<lambda>(s2, out, r). Inr (s2, c # out, r))))"

text \<open>\<open>consolewrite\<close> prints the bytes and returns their number.\<close>

definition consolewrite :: "byte list \<Rightarrow> cga \<Rightarrow> (cga \<times> int) res" where
  "consolewrite bs s = rbind (consputs (map uint bs) s) (\<lambda>s1. Inr (s1, int (length bs)))"

end
