(* ===== verification/Console_Correct.thy ===== *)
theory Console_Correct
  imports Console CString
begin

text \<open>
  Numbers printed and read back, the text screen, and the keyboard's line editor as two lists of characters: those that readers get,
  and the line being edited.
\<close>

subsection \<open>Numbers\<close>

lemma digits_length: "x < base ^ k \<Longrightarrow> 0 < k \<Longrightarrow> 1 < base \<Longrightarrow> length (digits_loop ds base x) \<le> k"
proof (induction ds base x arbitrary: k rule: digits_loop.induct)
  case (1 ds base x)
  show ?case
  proof (cases "x div base = 0")
    case True
    then show ?thesis using 1 by (subst digits_loop.simps) simp
  next
    case False
    obtain j where j: "k = Suc j" using 1 by (cases k) auto
    have "x div base < base ^ j" using 1 j by (simp add: less_mult_imp_div_less mult.commute)
    moreover have "0 < j"
    proof (rule ccontr)
      assume "\<not> 0 < j"
      then show False using calculation False by simp
    qed
    ultimately have "length (digits_loop ds base (x div base)) \<le> j" using 1 False by simp
    then show ?thesis using 1 False j by (subst digits_loop.simps) simp
  qed
qed

lemma digit_upper: "i < 10 \<Longrightarrow> uint (digits_upper ! i) = 48 + int i \<and> 48 \<le> digits_upper ! i \<and> digits_upper ! i \<le> 57"
proof -
  assume "i < 10"
  then have "i = 0 \<or> i = 1 \<or> i = 2 \<or> i = 3 \<or> i = 4 \<or> i = 5 \<or> i = 6 \<or> i = 7 \<or> i = 8 \<or> i = 9" by presburger
  then show ?thesis by (elim disjE) (simp_all add: digits_upper_def)
qed

lemma atoi_digits: "\<exists>m. atoi_from acc (rev (digits_loop digits_upper 10 x) @ s) = atoi_from (acc * 10 ^ m + int x) s"
proof (induction x arbitrary: s rule: less_induct)
  case (less x)
  let ?d = "digits_upper ! (x mod 10)"
  have d: "uint ?d = 48 + int (x mod 10)" "48 \<le> ?d" "?d \<le> 57" using digit_upper [of "x mod 10"] by simp_all
  then have one: "atoi_from n (?d # s) = atoi_from (n * 10 + int (x mod 10)) s" for n by simp
  show ?case
  proof (cases "x div 10 = 0")
    case True
    then have "x mod 10 = x" by simp
    then show ?thesis using True one [of acc] by (subst digits_loop.simps) (auto intro!: exI [of _ 1])
  next
    case False
    then have "x div 10 < x" by (intro div_less_dividend) auto
    from less [OF this, of "?d # s"] obtain m where
      m: "atoi_from acc (rev (digits_loop digits_upper 10 (x div 10)) @ ?d # s) = atoi_from (acc * 10 ^ m + int (x div 10)) (?d # s)" by blast
    have "int x = int (x div 10) * 10 + int (x mod 10)" by (simp add: zdiv_int zmod_int)
    then have "atoi_from (acc * 10 ^ m + int (x div 10)) (?d # s) = atoi_from (acc * 10 ^ Suc m + int x) s"
      unfolding one by (simp add: algebra_simps)
    then show ?thesis using False m by (subst digits_loop.simps) (auto intro!: exI [of _ "Suc m"] simp del: atoi_from.simps)
  qed
qed

lemma printint_length: "1 < base \<Longrightarrow> base ^ k \<ge> 2 ^ 32 \<Longrightarrow> 0 < k \<Longrightarrow> length (printint ds xx base sg) \<le> k + 1"
proof -
  assume b: "1 < base" "base ^ k \<ge> 2 ^ 32" "0 < k"
  have "unat w < 2 ^ 32" for w :: u32 using unsigned_less [of w] by simp
  then have "unat w < base ^ k" for w :: u32 using b(2) by (rule order_less_le_trans)
  then have "length (digits_loop ds base (unat w)) \<le> k" for w :: u32 using digits_length b(1,3) by blast
  from this [of "- xx"] this [of xx] show ?thesis unfolding printint_def Let_def by simp
qed

lemma atoi_printint: "0 \<le> sint n \<Longrightarrow> atoi (printint digits_upper n 10 True @ 0 # rest) = Inr (sint n)"
proof -
  assume n: "0 \<le> sint n"
  moreover have "sint n < 2 ^ 31" using sint_lt [of n] by simp
  ultimately have u: "uint n = sint n" by (simp add: uint_sint take_bit_int_eq_self)
  have p: "printint digits_upper n 10 True = rev (digits_loop digits_upper 10 (unat n))" using n by (simp add: printint_def Let_def)
  obtain m where "atoi_from 0 (rev (digits_loop digits_upper 10 (unat n)) @ 0 # rest) = atoi_from (0 * 10 ^ m + int (unat n)) (0 # rest)"
    using atoi_digits by blast
  then show ?thesis unfolding p atoi_def by (simp add: u)
qed

subsection \<open>The screen\<close>

definition cga_ok :: "cga \<Rightarrow> bool" where
  "cga_ok s \<longleftrightarrow> 25 * 80 \<le> length (crt s) \<and> 0 \<le> pos s \<and> pos s < 24 * 80"

text \<open>The lines move up by one when the cursor reaches the last line.\<close>

definition settle :: "cga \<Rightarrow> cga" where
  "settle s = (let s2 = (if pos s < 24 * 80 then s
       else \<lparr>crt = take (nat (pos s - 80)) (take (23 * 80) (drop 80 (crt s)) @ drop (23 * 80) (crt s)) @ replicate (nat (25 * 80 - pos s)) 0 @ drop (24 * 80) (crt s),
         pos = pos s - 80\<rparr>)
     in s2\<lparr>crt := (crt s2)[nat (pos s2) := crt_cell 32]\<rparr>)"

lemma settle_ok:
  assumes l: "25 * 80 \<le> length (crt s)" and p: "0 \<le> pos s" "pos s \<le> 24 * 80"
  shows "cga_ok (settle s) \<and> length (crt (settle s)) = length (crt s)"
  using assms by (auto simp: cga_ok_def settle_def Let_def)

lemma cgaputc_settle:
  assumes ok: "cga_ok s"
  shows "cgaputc c s = Inr (settle (if c = 10 then s\<lparr>pos := pos s + (80 - pos s mod 80)\<rparr>
      else if c = BACKSPACE then s\<lparr>pos := max 0 (pos s - 1)\<rparr>
      else s\<lparr>crt := (crt s)[nat (pos s) := crt_cell c], pos := pos s + 1\<rparr>))"
    (is "_ = Inr (settle ?s)")
proof -
  have first: "(if c = 10 then Inr (s\<lparr>pos := pos s + (80 - pos s mod 80)\<rparr>)
            else if c = BACKSPACE then Inr (if pos s > 0 then s\<lparr>pos := pos s - 1\<rparr> else s)
            else rbind (arr_set (crt s) (pos s) (crt_cell c)) (\<lambda>m. Inr (s\<lparr>crt := m, pos := pos s + 1\<rparr>))) = (Inr ?s :: cga res)"
    using ok by (auto simp: cga_ok_def arr_set_def in_range_def max_def)
  have l: "25 * 80 \<le> length (crt ?s)" using ok by (simp add: cga_ok_def)
  have "pos s + (80 - pos s mod 80) = 80 * (pos s div 80) + 80" by (simp add: minus_mod_eq_mult_div [symmetric])
  moreover have "pos s div 80 < 24" using ok unfolding cga_ok_def by linarith
  ultimately have p: "0 \<le> pos ?s" "pos ?s \<le> 24 * 80" using ok by (auto simp: cga_ok_def)
  have d: "24 \<le> pos ?s div 80 \<longleftrightarrow> \<not> pos ?s < 24 * 80" by linarith
  have np: "\<not> (pos ?s < 0 \<or> pos ?s > 25 * 80)" using p by linarith
  have run: "cgaputc c s = rbind (if 24 \<le> pos ?s div 80 then
           rbind (if 24 * 80 \<le> length (crt ?s) then Inr (take (23 * 80) (drop 80 (crt ?s)) @ drop (23 * 80) (crt ?s)) else Inl OutOfBounds) (\<lambda>m.
           let p = pos ?s - 80 in
           if nat (24 * 80 - p) + nat p \<le> length m
           then Inr \<lparr>crt = take (nat p) m @ replicate (nat (24 * 80 - p)) 0 @ drop (24 * 80) m, pos = p\<rparr> else Inl OutOfBounds)
         else Inr ?s) (\<lambda>s2. rbind (arr_set (crt s2) (pos s2) (crt_cell 32)) (\<lambda>m. Inr (s2\<lparr>crt := m\<rparr>)))"
    unfolding cgaputc_def first rbind_Inr if_not_P [OF np] ..
  show ?thesis
  proof (cases "pos ?s < 24 * 80")
    case True
    then show ?thesis unfolding run d settle_def using l p by (simp add: arr_set_def in_range_def Let_def)
  next
    case False
    define m where "m = take (23 * 80) (drop 80 (crt ?s)) @ drop (23 * 80) (crt ?s)"
    have lm: "length m = length (crt ?s)" using l by (simp add: m_def)
    have "drop (24 * 80) m = drop (24 * 80) (crt ?s)" using l by (simp add: m_def)
    then show ?thesis unfolding run d settle_def m_def [symmetric] using False l p lm
      by (simp add: arr_set_def in_range_def Let_def)
  qed
qed

lemma cgaputc_ok:
  assumes ok: "cga_ok s"
  shows "\<exists>s'. cgaputc c s = Inr s' \<and> cga_ok s' \<and> length (crt s') = length (crt s)"
proof -
  have "pos s + (80 - pos s mod 80) = 80 * (pos s div 80) + 80" by (simp add: minus_mod_eq_mult_div [symmetric])
  moreover have "pos s div 80 < 24" using ok unfolding cga_ok_def by linarith
  ultimately have p: "0 \<le> pos s + (80 - pos s mod 80)" "pos s + (80 - pos s mod 80) \<le> 24 * 80" using ok by (auto simp: cga_ok_def)
  have l: "25 * 80 \<le> length (crt s)" "0 \<le> pos s" "pos s < 24 * 80" using ok by (simp_all add: cga_ok_def)
  let ?s = "if c = 10 then s\<lparr>pos := pos s + (80 - pos s mod 80)\<rparr> else if c = BACKSPACE then s\<lparr>pos := max 0 (pos s - 1)\<rparr>
      else s\<lparr>crt := (crt s)[nat (pos s) := crt_cell c], pos := pos s + 1\<rparr>"
  have "25 * 80 \<le> length (crt ?s)" "0 \<le> pos ?s" "pos ?s \<le> 24 * 80" "length (crt ?s) = length (crt s)" using l p by auto
  then show ?thesis using settle_ok [of ?s] cgaputc_settle [OF ok, of c] by (intro exI [of _ "settle ?s"]) simp
qed

lemma consputs_ok: "cga_ok s \<Longrightarrow> \<exists>s'. consputs cs s = Inr s' \<and> cga_ok s' \<and> length (crt s') = length (crt s)"
proof (induction cs arbitrary: s)
  case (Cons c cs)
  obtain s1 where s1: "cgaputc c s = Inr s1" "cga_ok s1" "length (crt s1) = length (crt s)" using cgaputc_ok [OF Cons.prems] by blast
  then show ?case using Cons.IH [OF s1(2)] by auto
qed simp

text \<open>The character printed stands before the cursor, and everything before it stays, one line higher if the screen has scrolled.\<close>

lemma cgaputc_shows:
  assumes ok: "cga_ok s" and c: "c \<noteq> 10" "c \<noteq> BACKSPACE"
  shows "\<exists>s'. cgaputc c s = Inr s' \<and> (let up = (if pos s + 1 = 24 * 80 then 80 else 0) in
    pos s' = pos s + 1 - up \<and> crt s' ! nat (pos s - up) = crt_cell c \<and> (\<forall>i. up \<le> i \<longrightarrow> i < pos s \<longrightarrow> crt s' ! nat (i - up) = crt s ! nat i))"
proof -
  let ?s = "s\<lparr>crt := (crt s)[nat (pos s) := crt_cell c], pos := pos s + 1\<rparr>"
  have l: "25 * 80 \<le> length (crt s)" "0 \<le> pos s" "pos s < 24 * 80" using ok by (simp_all add: cga_ok_def)
  have run: "cgaputc c s = Inr (settle ?s)" using cgaputc_settle [OF ok, of c] c by simp
  show ?thesis
  proof (cases "pos s + 1 = 24 * 80")
    case True
    then have p: "pos s = 1919" by simp
    have e: "settle ?s = s\<lparr>crt := (take 1840 (take 1840 (drop 80 ((crt s)[1919 := crt_cell c])) @ drop 1840 ((crt s)[1919 := crt_cell c])) @
        replicate 80 0 @ drop 1920 ((crt s)[1919 := crt_cell c]))[1840 := crt_cell 32], pos := 1840\<rparr>"
      using p by (cases s) (simp add: settle_def Let_def)
    have n: "crt (settle ?s) ! j = ((crt s)[1919 := crt_cell c]) ! (80 + j)" if "j < 1840" for j
      using that l by (simp add: e nth_append)
    have "crt (settle ?s) ! nat (pos s - 80) = crt_cell c" using n [of 1839] l p by simp
    moreover have "crt (settle ?s) ! nat (i - 80) = crt s ! nat i" if "80 \<le> i" "i < pos s" for i
      using n [of "nat (i - 80)"] that p by (simp add: nat_diff_distrib')
    moreover have "pos (settle ?s) = 1840" unfolding e by simp
    ultimately show ?thesis using True p unfolding run by (intro exI [of _ "settle ?s"]) (simp add: Let_def)
  next
    case False
    then have lt: "pos s + 1 < 24 * 80" using l by simp
    have e: "settle ?s = s\<lparr>crt := (crt s)[nat (pos s) := crt_cell c, nat (pos s + 1) := crt_cell 32], pos := pos s + 1\<rparr>"
      using lt by (simp add: settle_def Let_def)
    have "nat (pos s + 1) \<noteq> nat (pos s)" "nat (pos s) < length (crt s)" using l by simp_all
    then have "crt (settle ?s) ! nat (pos s) = crt_cell c" by (simp add: e)
    moreover have "crt (settle ?s) ! nat i = crt s ! nat i" if "0 \<le> i" "i < pos s" for i
      using that l by (simp add: e nat_eq_iff2)
    ultimately show ?thesis using run False by (simp add: e Let_def)
  qed
qed

subsection \<open>The line editor\<close>

text \<open>\<open>q\<close> are the characters for readers, \<open>ed\<close> the line being edited.\<close>

definition con_rel :: "input \<Rightarrow> byte list \<Rightarrow> byte list \<Rightarrow> bool" where
  "con_rel s q ed \<longleftrightarrow> length (ibuf s) = 128 \<and> i_w s = i_r s + of_nat (length q) \<and> i_e s = i_w s + of_nat (length ed) \<and> length q + length ed \<le> 128 \<and>
     ring (ibuf s) (unat (i_r s)) (length q + length ed) = q @ ed \<and> 10 \<notin> set ed"

lemma index_128: "uint ((r + of_nat k :: u32) mod INPUT_BUF) = int ((unat r + k) mod 128)"
proof -
  have "unat (r + of_nat k :: u32) = unat (of_nat (unat r + k) :: u32)" by simp
  also have "\<dots> = (unat r + k) mod 2 ^ 32" unfolding unat_of_nat by simp
  finally have "unat (r + of_nat k :: u32) mod 128 = (unat r + k) mod 2 ^ 32 mod 128" by simp
  also have "\<dots> = (unat r + k) mod 128" by (rule mod_mod_cancel) simp
  finally have "int (unat (r + of_nat k :: u32) mod 128) = int ((unat r + k) mod 128)" by simp
  then show ?thesis by (simp add: INPUT_BUF_def uint_mod_distrib zmod_int)
qed

lemma small_eq: "m \<le> 128 \<Longrightarrow> n \<le> 128 \<Longrightarrow> (of_nat m :: u32) = of_nat n \<longleftrightarrow> m = n"
  by (simp add: word_of_nat_eq_iff take_bit_nat_eq_self)

lemma small_less: "m \<le> 128 \<Longrightarrow> (of_nat m :: u32) < INPUT_BUF \<longleftrightarrow> m < 128"
  by (simp add: INPUT_BUF_def word_less_nat_alt unat_of_nat)

lemma con_rel_end: "con_rel s q ed \<Longrightarrow> i_e s = i_r s + of_nat (length q + length ed)"
  by (simp add: con_rel_def)

lemma ring_nth: "k < c \<Longrightarrow> ring xs f c ! k = xs ! ((f + k) mod length xs)"
  by (simp add: ring_def)

lemma ring_take: "k \<le> c \<Longrightarrow> ring xs f k = take k (ring xs f c)"
  by (simp add: ring_def take_map)

lemma con_at:
  assumes "con_rel s q ed" and "k < length q + length ed"
  shows "arr_get (ibuf s) (uint ((i_r s + of_nat k) mod INPUT_BUF)) = Inr ((q @ ed) ! k)"
proof -
  have "ring (ibuf s) (unat (i_r s)) (length q + length ed) = q @ ed" "length (ibuf s) = 128" using assms(1) by (simp_all add: con_rel_def)
  then have "(q @ ed) ! k = ibuf s ! ((unat (i_r s) + k) mod 128)" using ring_nth [OF assms(2), of "ibuf s" "unat (i_r s)"] by metis
  then show ?thesis using \<open>length (ibuf s) = 128\<close> unfolding index_128 by (simp add: arr_get_def in_range_def)
qed

lemma con_edit_empty: "con_rel s q ed \<Longrightarrow> i_e s = i_w s \<longleftrightarrow> ed = []"
  using small_eq [of "length ed" 0] by (auto simp: con_rel_def)

lemma con_back:
  assumes r: "con_rel s q ed" and e: "ed \<noteq> []"
  shows "con_rel (s\<lparr>i_e := i_e s - 1\<rparr>) q (butlast ed)" and "arr_get (ibuf s) (uint ((i_e s - 1) mod INPUT_BUF)) = Inr (last ed)"
proof -
  let ?c = "length q + length ed"
  have l: "ed = butlast ed @ [last ed]" "length ed = Suc (length (butlast ed))" "length q + length (butlast ed) = ?c - 1" using e by (cases ed, simp_all)+
  have p: "i_e s - 1 = i_r s + of_nat (?c - 1)" using con_rel_end [OF r] e by (simp add: of_nat_diff Suc_le_eq)
  have "(q @ ed) ! (?c - 1) = last ed" using last_conv_nth [of "q @ ed"] e by simp
  then show "arr_get (ibuf s) (uint ((i_e s - 1) mod INPUT_BUF)) = Inr (last ed)" unfolding p using con_at [OF r, of "?c - 1"] e by simp
  have "ring (ibuf s) (unat (i_r s)) (?c - 1) = take (?c - 1) (q @ ed)"
    using ring_take [of "?c - 1" ?c "ibuf s" "unat (i_r s)"] r by (simp add: con_rel_def)
  also have "\<dots> = q @ butlast ed" using e by (cases ed rule: rev_cases) simp_all
  finally have ring: "ring (ibuf s) (unat (i_r s)) (length q + length (butlast ed)) = q @ butlast ed" unfolding l(3) .
  have n: "(of_nat (length ed) :: u32) = of_nat (length (butlast ed)) + 1" "length (butlast ed) \<le> length ed" by (subst l(2), simp, simp)
  have "i_e s = i_w s + of_nat (length ed)" using r by (simp add: con_rel_def)
  then have "i_e s - 1 = i_w s + of_nat (length (butlast ed))" unfolding n(1) by simp
  moreover have "10 \<notin> set (butlast ed)" using r by (auto simp: con_rel_def dest: in_set_butlastD)
  ultimately show "con_rel (s\<lparr>i_e := i_e s - 1\<rparr>) q (butlast ed)" using r ring n(2) unfolding con_rel_def by (simp del: length_butlast)
qed

lemma kill_line_spec:
  "con_rel s q ed \<Longrightarrow> \<exists>s'. kill_line s = Inr (s', replicate (length ed) BACKSPACE) \<and> con_rel s' q [] \<and> i_r s' = i_r s"
proof (induction ed arbitrary: s rule: length_induct)
  case (1 ed)
  show ?case
  proof (cases "ed = []")
    case True
    then have "i_e s = i_w s" using con_edit_empty [OF 1(2)] by simp
    then show ?thesis using True 1(2) by (subst kill_line.simps) simp
  next
    case False
    note b = con_back [OF 1(2) False]
    have "length (butlast ed) < length ed" using False by simp
    then obtain s' where s': "kill_line (s\<lparr>i_e := i_e s - 1\<rparr>) = Inr (s', replicate (length (butlast ed)) BACKSPACE)" "con_rel s' q []" "i_r s' = i_r s"
      using 1(1) [rule_format, OF \<open>length (butlast ed) < length ed\<close> b(1)] by auto
    have "last ed \<noteq> 10" using 1(2) last_in_set [OF False] by (auto simp: con_rel_def)
    moreover have "i_e s \<noteq> i_w s" using con_edit_empty [OF 1(2)] False by simp
    moreover have "BACKSPACE # replicate (length (butlast ed)) BACKSPACE = replicate (length ed) BACKSPACE" using False by (cases ed) simp_all
    ultimately show ?thesis using b(2) s' by (subst kill_line.simps) simp
  qed
qed

text \<open>One typed character, on the abstract editor; \<open>0 \<le> c < 256\<close>.\<close>

definition edit_char :: "int \<Rightarrow> byte list \<times> byte list \<Rightarrow> byte list \<times> byte list" where
  "edit_char c = (\<lambda>(q, ed).
     if c = 21 then (q, [])
     else if c = 8 \<or> c = 127 then (q, butlast ed)
     else if c = 16 \<or> c = 0 \<or> 128 \<le> length q + length ed then (q, ed)
     else
       let b = (if c = 13 then 10 else word_of_int c) in
       if b = 10 \<or> b = 4 \<or> length q + length ed = 127 then (q @ ed @ [b], []) else (q, ed @ [b]))"

lemma con_put:
  assumes r: "con_rel s q ed" and room: "length q + length ed < 128"
  shows "\<exists>d. arr_set (ibuf s) (uint (i_e s mod INPUT_BUF)) b = Inr d \<and> length d = 128 \<and> ring d (unat (i_r s)) (Suc (length q + length ed)) = q @ ed @ [b]"
proof -
  let ?c = "length q + length ed" and ?d = "(ibuf s)[(unat (i_r s) + (length q + length ed)) mod 128 := b]"
  have l: "length (ibuf s) = 128" using r by (simp add: con_rel_def)
  have "arr_set (ibuf s) (uint (i_e s mod INPUT_BUF)) b = Inr ?d"
    unfolding con_rel_end [OF r] index_128 by (simp add: arr_set_def in_range_def l)
  moreover have "ring ?d (unat (i_r s)) (Suc ?c) = q @ ed @ [b]"
    using ring_enq [of ?c "ibuf s" "unat (i_r s)" b] room r by (simp add: l con_rel_def)
  ultimately show ?thesis by (simp add: l)
qed

lemma console_char_spec:
  assumes r: "con_rel s q ed" and c: "0 \<le> c" "c < 256"
  shows "\<exists>s' out w q' ed'. console_char c s = Inr (s', out, w) \<and> edit_char c (q, ed) = (q', ed') \<and> con_rel s' q' ed' \<and> i_r s' = i_r s \<and> (w \<longleftrightarrow> q' \<noteq> q)"
proof -
  consider (dump) "c = 16" | (kill) "c = 21" | (del) "c = 8 \<or> c = 127" | (ignore) "c \<notin> {16, 21, 8, 127}" "c = 0 \<or> 128 \<le> length q + length ed"
    | (put) "c \<notin> {16, 21, 8, 127}" "c \<noteq> 0" "length q + length ed < 128" by fastforce
  then show ?thesis
  proof cases
    case dump
    then show ?thesis using r by (auto simp: console_char_def edit_char_def)
  next
    case kill
    obtain s' where s': "kill_line s = Inr (s', replicate (length ed) BACKSPACE)" "con_rel s' q []" "i_r s' = i_r s" using kill_line_spec [OF r] by blast
    then show ?thesis using s' kill by (auto simp: console_char_def edit_char_def)
  next
    case del
    then show ?thesis using con_back(1) [OF r] con_edit_empty [OF r] r by (auto simp: console_char_def edit_char_def)
  next
    case ignore
    have "\<not> i_e s - i_r s < INPUT_BUF" if "128 \<le> length q + length ed"
      using small_less [of "length q + length ed"] r that unfolding con_rel_end [OF r] by (simp add: con_rel_def)
    then show ?thesis using ignore r by (auto simp: console_char_def edit_char_def)
  next
    case put
    let ?c1 = "if c = 13 then 10 else c" and ?b = "if c = 13 then 10 else word_of_int c :: byte"
    have b: "?b = word_of_int ?c1" by simp
    obtain d where d: "arr_set (ibuf s) (uint (i_e s mod INPUT_BUF)) ?b = Inr d" "length d = 128"
      "ring d (unat (i_r s)) (Suc (length q + length ed)) = q @ ed @ [?b]" using con_put [OF r put(3), of ?b] by blast
    let ?s = "s\<lparr>ibuf := d, i_e := i_e s + 1\<rparr>"
    have lt: "i_e s - i_r s < INPUT_BUF" using small_less [of "length q + length ed"] put(3) unfolding con_rel_end [OF r] by simp
    have full: "i_e ?s = i_r ?s + INPUT_BUF \<longleftrightarrow> length q + length ed = 127"
    proof -
      have "i_e ?s = i_r ?s + of_nat (Suc (length q + length ed))" using con_rel_end [OF r] by simp
      then have "i_e ?s = i_r ?s + INPUT_BUF \<longleftrightarrow> (of_nat (Suc (length q + length ed)) :: u32) = of_nat 128" by (simp add: INPUT_BUF_def)
      also have "\<dots> \<longleftrightarrow> Suc (length q + length ed) = 128" by (rule small_eq) (use put(3) in simp_all)
      finally show ?thesis by simp
    qed
    have val: "?b = 10 \<longleftrightarrow> ?c1 = 10" "?b = 4 \<longleftrightarrow> ?c1 = 4" 
    proof -
      have "uint ?b = ?c1" using c by (simp add: uint_word_of_int_eq take_bit_int_eq_self)
      then show "?b = 10 \<longleftrightarrow> ?c1 = 10" "?b = 4 \<longleftrightarrow> ?c1 = 4" by (simp_all add: word_uint_eq_iff)
    qed
    have run: "console_char c s = Inr (if ?c1 = 10 \<or> ?c1 = 4 \<or> i_e ?s = i_r ?s + INPUT_BUF then (?s\<lparr>i_w := i_e ?s\<rparr>, [?c1], True) else (?s, [?c1], False))"
      using put lt d(1) b by (simp add: console_char_def Let_def)
    have "con_rel (?s\<lparr>i_w := i_e ?s\<rparr>) (q @ ed @ [?b]) []"
      using r d put(3) con_rel_end [OF r] by (simp add: con_rel_def)
    moreover have "con_rel ?s q (ed @ [?b])" if "?b \<noteq> 10" using r d put(3) that by (simp add: con_rel_def)
    moreover have "edit_char c (q, ed) = (if ?b = 10 \<or> ?b = 4 \<or> length q + length ed = 127 then (q @ ed @ [?b], []) else (q, ed @ [?b]))"
      using put by (simp add: edit_char_def Let_def)
    ultimately show ?thesis unfolding run full val by auto
  qed
qed

lemma consoleintr_spec:
  "con_rel s q ed \<Longrightarrow> \<forall>c \<in> set cs. 0 \<le> c \<and> c < 256 \<Longrightarrow>
   \<exists>s' out d q' ed'. consoleintr cs s = Inr (s', out, d) \<and> fold edit_char cs (q, ed) = (q', ed') \<and> con_rel s' q' ed'"
proof (induction cs arbitrary: s q ed)
  case (Cons c cs)
  have c: "0 \<le> c" "c < 256" using Cons.prems(2) by simp_all
  obtain s1 out w q1 ed1 where s1: "console_char c s = Inr (s1, out, w)" "edit_char c (q, ed) = (q1, ed1)" "con_rel s1 q1 ed1"
    using console_char_spec [OF Cons.prems(1) c] by blast
  obtain s2 out2 d q2 ed2 where "consoleintr cs s1 = Inr (s2, out2, d)" "fold edit_char cs (q1, ed1) = (q2, ed2)" "con_rel s2 q2 ed2"
    using Cons.IH [OF s1(3)] Cons.prems(2) by auto
  then show ?case using s1 c by simp
qed auto

text \<open>What a reader of \<open>n\<close> characters takes from \<open>q\<close>: a line, up to \<open>n\<close> characters, or up to an end of file that stays for the next reader.\<close>

fun read_chars :: "nat \<Rightarrow> nat \<Rightarrow> byte list \<Rightarrow> byte list \<times> byte list \<times> bool" where
  "read_chars target 0 q = ([], q, True)"
| "read_chars target (Suc n) [] = ([], [], False)"
| "read_chars target (Suc n) (c # q) =
     (if c = 4 then ([], if Suc n < target then c # q else q, True)
      else if c = 10 then ([c], q, True)
      else let (bs, q', fin) = read_chars target n q in (c # bs, q', fin))"

lemma con_take:
  assumes r: "con_rel s (c # q) ed"
  shows "arr_get (ibuf s) (uint (i_r s mod INPUT_BUF)) = Inr c" and "i_r s \<noteq> i_w s" and "con_rel (s\<lparr>i_r := i_r s + 1\<rparr>) q ed"
proof -
  show "arr_get (ibuf s) (uint (i_r s mod INPUT_BUF)) = Inr c" using con_at [OF r, of 0] by simp
  have len: "length (c # q) \<le> 128" "length (ibuf s) = 128" using r by (auto simp: con_rel_def)
  have "(of_nat (length (c # q)) :: u32) \<noteq> of_nat 0" using small_eq [of "length (c # q)" 0] len by simp
  then show "i_r s \<noteq> i_w s" using r by (simp add: con_rel_def)
  have "ring (ibuf s) (unat (i_r s)) (Suc (length q + length ed)) = c # q @ ed" using r by (simp add: con_rel_def)
  then have t: "ring (ibuf s) (Suc (unat (i_r s))) (length q + length ed) = q @ ed" unfolding ring_deq by simp
  have m: "unat (i_r s + 1) mod 128 = Suc (unat (i_r s)) mod 128"
  proof -
    have "int (unat (i_r s + 1) mod 128) = int ((unat (i_r s) + 1) mod 128)"
      using index_128 [of "i_r s" 1] by (simp add: INPUT_BUF_def uint_mod_distrib zmod_int)
    then show ?thesis by simp
  qed
  have "ring (ibuf s) (unat (i_r s + 1)) (length q + length ed) = ring (ibuf s) (unat (i_r s + 1) mod 128) (length q + length ed)"
    using ring_mod [of "ibuf s"] len by metis
  also have "\<dots> = ring (ibuf s) (Suc (unat (i_r s))) (length q + length ed)" unfolding m using ring_mod [of "ibuf s"] len by metis
  finally have "ring (ibuf s) (unat (i_r s + 1)) (length q + length ed) = q @ ed" using t by simp
  then show "con_rel (s\<lparr>i_r := i_r s + 1\<rparr>) q ed" using r by (simp add: con_rel_def)
qed

lemma consoleread_spec:
  "con_rel s q ed \<Longrightarrow> read_chars target n q = (bs, q', fin) \<Longrightarrow>
   \<exists>s' r. consoleread killed target n s = Inr (s', bs, r) \<and> con_rel s' q' ed \<and> (fin \<longleftrightarrow> r = CDone) \<and> (\<not> fin \<longrightarrow> q' = [] \<and> r = (if killed then CFail else CSleep (n - length bs)))"
proof (induction target n q arbitrary: s bs q' fin rule: read_chars.induct)
  case (1 target q)
  then show ?case by auto
next
  case (2 target n)
  have "i_r s = i_w s" using 2(1) by (simp add: con_rel_def)
  then show ?case using 2 by auto
next
  case (3 target n c q)
  note t = con_take [OF 3(2)]
  show ?case
  proof (cases "c = 4 \<or> c = 10")
    case True
    then show ?thesis using 3(2,3) t by (auto simp: Let_def)
  next
    case False
    obtain bs1 where b: "read_chars target n q = (bs1, q', fin)" "bs = c # bs1" using 3(3) False by (auto split: prod.splits)
    obtain s' r where "consoleread killed target n (s\<lparr>i_r := i_r s + 1\<rparr>) = Inr (s', bs1, r)" "con_rel s' q' ed" "fin \<longleftrightarrow> r = CDone"
      "\<not> fin \<longrightarrow> q' = [] \<and> r = (if killed then CFail else CSleep (n - length bs1))"
      using 3(1) [OF _ _ t(3) b(1)] False by blast
    then show ?thesis using False t b(2) by (cases killed) (auto simp: Let_def)
  qed
qed

text \<open>A line, as the one who types it corrects it.\<close>

fun typed :: "int list \<Rightarrow> byte list \<Rightarrow> byte list" where
  "typed [] ed = ed"
| "typed (c # cs) ed = typed cs (if c = 21 then [] else if c = 8 \<or> c = 127 then butlast ed else if c = 0 \<or> c = 16 then ed else ed @ [word_of_int c])"

lemma fold_typed:
  "\<forall>c \<in> set cs. 0 \<le> c \<and> c < 256 \<and> c \<notin> {4, 10, 13} \<Longrightarrow> length ed + length cs < 127 \<Longrightarrow> {4, 10} \<inter> set ed = {} \<Longrightarrow>
   fold edit_char cs ([], ed) = ([], typed cs ed) \<and> length (typed cs ed) \<le> length ed + length cs \<and> {4, 10} \<inter> set (typed cs ed) = {}"
proof (induction cs arbitrary: ed)
  case (Cons c cs)
  let ?ed = "if c = 21 then [] else if c = 8 \<or> c = 127 then butlast ed else if c = 0 \<or> c = 16 then ed else ed @ [word_of_int c]"
  have c: "0 \<le> c" "c < 256" "c \<notin> {4, 10, 13}" using Cons.prems(1) by simp_all
  have "uint (word_of_int c :: byte) = c" using c by (simp add: uint_word_of_int_eq take_bit_int_eq_self)
  then have b: "(word_of_int c :: byte) \<noteq> 4" "(word_of_int c :: byte) \<noteq> 10" using c(3) by (auto simp: word_uint_eq_iff)
  have e: "edit_char c ([], ed) = ([], ?ed)" using Cons.prems(2) c b by (simp add: edit_char_def Let_def)
  have l: "length ?ed + length cs < 127" "length ?ed \<le> Suc (length ed)" using Cons.prems(2) by auto
  have "{4, 10} \<inter> set ?ed = {}" using Cons.prems(3) b by (auto dest: in_set_butlastD)
  then show ?case using Cons.IH [of ?ed] Cons.prems(1) e l by simp
qed simp

lemma read_line: "{4, 10} \<inter> set l = {} \<Longrightarrow> length l < n \<Longrightarrow> read_chars t n (l @ [10]) = (l @ [10], [], True)"
proof (induction l arbitrary: n)
  case Nil
  then show ?case by (cases n) simp_all
next
  case (Cons c l)
  then show ?case by (cases n) auto
qed

subsection \<open>Claims\<close>

text \<open>
  C34 (typed_line): a line of fewer than 127 key strokes typed at an empty console, with erased characters and erased lines, and ended
  by Enter is read, by a reader with room for it, exactly as corrected, with its newline; and the console is empty again.
\<close>

theorem typed_line:
  assumes "con_rel s [] []" and "\<forall>c \<in> set cs. 0 \<le> c \<and> c < 256 \<and> c \<notin> {4, 10, 13}" and "length cs < 127" and "length (typed cs []) < n"
  shows "\<exists>s1 out d s2. consoleintr (cs @ [13]) s = Inr (s1, out, d) \<and> consoleread killed n n s1 = Inr (s2, typed cs [] @ [10], CDone) \<and> con_rel s2 [] []"
proof -
  have f: "fold edit_char cs ([], []) = ([], typed cs [])" "length (typed cs []) < 127" "{4, 10} \<inter> set (typed cs []) = {}"
    using fold_typed [OF assms(2), of "[]"] assms(3) by auto
  have "edit_char 13 ([], typed cs []) = (typed cs [] @ [10], [])" using f(2) by (simp add: edit_char_def)
  then have "fold edit_char (cs @ [13]) ([], []) = (typed cs [] @ [10], [])" using f(1) by simp
  moreover have "\<forall>c \<in> set (cs @ [13]). 0 \<le> c \<and> c < 256" using assms(2) by auto
  moreover note consoleintr_spec [OF assms(1), of "cs @ [13]"]
  ultimately obtain s1 out d where s1: "consoleintr (cs @ [13]) s = Inr (s1, out, d)" "con_rel s1 (typed cs [] @ [10]) []"
    by auto
  obtain s2 r where "consoleread killed n n s1 = Inr (s2, typed cs [] @ [10], r)" "con_rel s2 [] []" "r = CDone"
    using consoleread_spec [OF s1(2) read_line [OF f(3) assms(4), of n], of killed] by auto
  then show ?thesis using s1(1) by blast
qed

definition demo_input :: input where
  "demo_input = \<lparr>ibuf = replicate 128 0, i_r = 0xFFFFFFFE, i_w = 0xFFFFFFFE, i_e = 0xFFFFFFFE\<rparr>"

lemma typed_line_witness:
  "\<exists>s1 out d s2. consoleintr [108, 120, 8, 115, 13] demo_input = Inr (s1, out, d) \<and> consoleread False 100 100 s1 = Inr (s2, [108, 115, 10], CDone)"
proof -
  have "con_rel demo_input [] []" by (simp add: con_rel_def demo_input_def ring_def)
  note line = typed_line [OF this, of "[108, 120, 8, 115]" 100 False]
  have t: "typed [108, 120, 8, 115] [] = [108, 115]" by simp
  have "\<exists>s1 out d s2. consoleintr ([108, 120, 8, 115] @ [13]) demo_input = Inr (s1, out, d) \<and>
      consoleread False 100 100 s1 = Inr (s2, [108, 115] @ [10], CDone) \<and> con_rel s2 [] []"
    using line [unfolded t] by (simp del: consoleintr.simps consoleread.simps)
  then show ?thesis unfolding append.simps by blast
qed

text \<open>
  (print_parse): the output of \<open>printf("%d", n)\<close> for a non-negative number, followed by a NUL, is read back by \<open>atoi\<close> as the number; and the digits of
  any number fit the buffer of 16 bytes in both bases.
\<close>

theorem print_parse:
  "(0 \<le> sint n \<longrightarrow> (\<exists>out. printf str [37, 100, 0] [n] = Inr out \<and> atoi (out @ 0 # rest) = Inr (sint n))) \<and>
   (base = 10 \<or> base = 16 \<longrightarrow> length (printint digits xx base sg) \<le> 16)"
proof (intro conjI impI)
  show "\<exists>out. printf str [37, 100, 0] [n] = Inr out \<and> atoi (out @ 0 # rest) = Inr (sint n)" if "0 \<le> sint n"
    using atoi_printint [OF that, of rest] by (simp add: printf_def)
  show "length (printint digits xx base sg) \<le> 16" if "base = 10 \<or> base = 16"
    using that printint_length [of base 10 digits xx sg] by auto
qed

lemma print_parse_witness:
  "\<exists>out. printf (\<lambda>_. []) [37, 100, 0] [1234] = Inr out \<and> atoi (out @ [0]) = Inr 1234 \<and> length (printint digits_lower (- 1) 16 False) \<le> 16"
  using print_parse [of 1234 "\<lambda>_. []" "[]" 16 digits_lower "- 1" False] by simp

text \<open>
  (screen_shows): a printed character appears before the cursor and what stood before it stays, moved up one line when the screen scrolls; and
  any output whatever keeps the cursor on the screen, without a panic or an access outside the text memory.
\<close>

theorem screen_shows:
  assumes "cga_ok s"
  shows "(\<exists>s'. consputs cs s = Inr s' \<and> cga_ok s') \<and>
    (c \<noteq> 10 \<longrightarrow> c \<noteq> BACKSPACE \<longrightarrow> (\<exists>s'. cgaputc c s = Inr s' \<and> (let up = (if pos s + 1 = 24 * 80 then 80 else 0) in
      pos s' = pos s + 1 - up \<and> crt s' ! nat (pos s - up) = crt_cell c \<and> (\<forall>i. up \<le> i \<longrightarrow> i < pos s \<longrightarrow> crt s' ! nat (i - up) = crt s ! nat i))))"
  using consputs_ok [OF assms] cgaputc_shows [OF assms] by blast

lemma screen_shows_witness:
  "\<exists>s'. cgaputc 65 \<lparr>crt = replicate 2000 0, pos = 1919\<rparr> = Inr s' \<and> pos s' = 1840 \<and> crt s' ! 1839 = 0x741"
proof -
  have "cga_ok \<lparr>crt = replicate 2000 0, pos = 1919\<rparr>" by (simp add: cga_ok_def)
  from screen_shows [OF this, of "[]" 65] show ?thesis by (auto simp: BACKSPACE_def crt_cell_def Let_def)
qed

end
