(* ===== verification/Drivers.thy ===== *)
theory Drivers
  imports WindowManager
begin

text \<open>
  The drivers of keyboard (kbd.c, kbd.h) and mouse (mouse.c): they decode the bytes that the controller delivers into the messages
  passed to \<open>handleMessage\<close> (msg.c), which hands them on to \<open>wmHandleMessage\<close>. A step takes one byte and gives the messages in order.
\<close>

unbundle bit_operations_syntax

subsection \<open>Keyboard\<close>

definition SHIFT :: u32 where "SHIFT = 1"
definition CTL :: u32 where "CTL = 2"
definition ALT :: u32 where "ALT = 4"
definition CAPSLOCK :: u32 where "CAPSLOCK = 8"
definition NUMLOCK :: u32 where "NUMLOCK = 16"
definition SCROLLLOCK :: u32 where "SCROLLLOCK = 32"
definition E0ESC :: u32 where "E0ESC = 64"

definition shiftcode :: "nat \<Rightarrow> u32" where
  "shiftcode d = (if d = 0x1D \<or> d = 0x9D then CTL else if d = 0x2A \<or> d = 0x36 then SHIFT else if d = 0x38 \<or> d = 0xB8 then ALT else 0)"

definition togglecode :: "nat \<Rightarrow> u32" where
  "togglecode d = (if d = 0x3A then CAPSLOCK else if d = 0x45 then NUMLOCK else if d = 0x46 then SCROLLLOCK else 0)"

text \<open>A table of characters: the first entries, and single entries behind them; the others are 0.\<close>

definition keymap :: "nat list \<Rightarrow> (nat \<times> nat) list \<Rightarrow> nat \<Rightarrow> nat" where
  "keymap xs ys d = (case map_of ys d of Some c \<Rightarrow> c | None \<Rightarrow> if d < length xs then xs ! d else 0)"

definition normalmap :: "nat \<Rightarrow> nat" where
  "normalmap = keymap
    [0, 27, 49, 50, 51, 52, 53, 54, 55, 56, 57, 48, 45, 61, 8, 9, 113, 119, 101, 114, 116, 121, 117, 105, 111, 112, 91, 93, 10, 0,
     97, 115, 100, 102, 103, 104, 106, 107, 108, 59, 39, 96, 0, 92, 122, 120, 99, 118, 98, 110, 109, 44, 46, 47, 0, 42, 0, 32,
     0, 0, 0, 0, 0, 0, 0, 0, 0, 0, 0, 0, 0, 55, 56, 57, 45, 52, 53, 54, 43, 49, 50, 51, 48, 46, 0, 0, 0, 0]
    [(0x9C, 10), (0xB5, 47), (0xC8, 0xE2), (0xD0, 0xE3), (0xC9, 0xE6), (0xD1, 0xE7), (0xCB, 0xE4), (0xCD, 0xE5), (0xC7, 0xE0), (0xCF, 0xE1),
     (0xD2, 0xE8), (0xD3, 0xE9)]"

definition shiftmap :: "nat \<Rightarrow> nat" where
  "shiftmap = keymap
    [0, 27, 33, 64, 35, 36, 37, 94, 38, 42, 40, 41, 95, 43, 8, 9, 81, 87, 69, 82, 84, 89, 85, 73, 79, 80, 123, 125, 10, 0,
     65, 83, 68, 70, 71, 72, 74, 75, 76, 58, 34, 126, 0, 124, 90, 88, 67, 86, 66, 78, 77, 60, 62, 63, 0, 42, 0, 32,
     0, 0, 0, 0, 0, 0, 0, 0, 0, 0, 0, 0, 0, 55, 56, 57, 45, 52, 53, 54, 43, 49, 50, 51, 48, 46, 0, 0, 0, 0]
    [(0x9C, 10), (0xB5, 47), (0xC8, 0xE2), (0xD0, 0xE3), (0xC9, 0xE6), (0xD1, 0xE7), (0xCB, 0xE4), (0xCD, 0xE5), (0xC7, 0xE0), (0xCF, 0xE1),
     (0xD2, 0xE8), (0xD3, 0xE9)]"

definition ctlmap :: "nat \<Rightarrow> nat" where
  "ctlmap = keymap
    [0, 0, 0, 0, 0, 0, 0, 0, 0, 0, 0, 0, 0, 0, 0, 0, 17, 23, 5, 18, 20, 25, 21, 9, 15, 16, 0, 0, 13, 0,
     1, 19, 4, 6, 7, 8, 10, 11, 12, 0, 0, 0, 0, 28, 26, 24, 3, 22, 2, 14, 13, 0, 0, 239, 0, 0]
    [(0x9C, 13), (0xB5, 239), (0xC8, 0xE2), (0xD0, 0xE3), (0xC9, 0xE6), (0xD1, 0xE7), (0xCB, 0xE4), (0xCD, 0xE5), (0x47, 0xE0), (0xCF, 0xE1),
     (0xD2, 0xE8), (0xD3, 0xE9)]"

text \<open>A message whose other parameters are the uninitialised bytes \<open>junk\<close> of the stack.\<close>

definition key_message :: "message \<Rightarrow> int \<Rightarrow> nat \<Rightarrow> u32 \<Rightarrow> message" where
  "key_message junk ty c shift = junk\<lparr>msg_type := ty, params := (params junk)(0 := int c, 1 := uint shift)\<rparr>"

text \<open>\<open>kbdgetc\<close> on a byte: the modifiers, its result and its message.\<close>

definition kbd_letter :: "u32 \<Rightarrow> nat \<Rightarrow> nat" where
  "kbd_letter shift data =
     (let mods = shift AND (CTL OR SHIFT);
          c = (if mods = 0 then normalmap else if mods = SHIFT then shiftmap else ctlmap) data
      in if shift AND CAPSLOCK \<noteq> 0 then
           if 97 \<le> c \<and> c \<le> 122 then c - 32 else if 65 \<le> c \<and> c \<le> 90 then c + 32 else c
         else c)"

definition kbdgetc :: "message \<Rightarrow> byte \<Rightarrow> u32 \<Rightarrow> u32 \<times> nat \<times> message list" where
  "kbdgetc junk b shift =
     (let data = unat b in
      if data = 0xE0 then (shift OR E0ESC, 0, [])
      else if data \<ge> 0x80 then
        let data = (if shift AND E0ESC \<noteq> 0 then data else data - 0x80);
            shift = shift AND NOT (shiftcode data OR E0ESC)
        in (shift, 0, [key_message junk M_KEY_UP (normalmap data) shift])
      else
        let data = (if shift AND E0ESC \<noteq> 0 then data + 0x80 else data);
            shift = (shift AND NOT E0ESC OR shiftcode data) XOR togglecode data
        in (shift, kbd_letter shift data, [key_message junk M_KEY_DOWN (normalmap data) shift]))"

text \<open>The interrupts of the keyboard: one byte each.\<close>

fun kbdintr :: "message \<Rightarrow> byte list \<Rightarrow> u32 \<Rightarrow> u32 \<times> message list" where
  "kbdintr junk [] shift = (shift, [])"
| "kbdintr junk (b # bs) shift =
     (let (shift1, _, ms) = kbdgetc junk b shift; (shift2, ms2) = kbdintr junk bs shift1 in (shift2, ms @ ms2))"

subsection \<open>Mouse\<close>

text \<open>The tick counts are compared as unsigned numbers. The times \<open>lastdowntick\<close> and \<open>lastclicktick\<close> are the C ints as words.\<close>

record mouse =
  x_sgn :: bool
  y_sgn :: bool
  x_mov :: int
  y_mov :: int
  l_btn :: int
  r_btn :: int
  m_btn :: int
  x_overflow :: bool
  y_overflow :: bool
  tick :: u32
  m_count :: int
  recovery :: int
  lastbtn :: int
  lastdowntick :: u32
  lastclicktick :: u32

definition genMouseUpMessage :: "message \<Rightarrow> int \<Rightarrow> message" where
  "genMouseUpMessage junk btns = junk\<lparr>msg_type := M_MOUSE_UP, params := (params junk)(0 := btns)\<rparr>"

definition signed9 :: "bool \<Rightarrow> int \<Rightarrow> int" where
  "signed9 neg m = (if neg then sint (0xFFFFFF00 OR (word_of_int m AND 0xFF) :: u32) else sint (word_of_int m AND 0xFF :: u32))"

definition genMouseMessage :: "message \<Rightarrow> mouse \<Rightarrow> mouse \<times> message list" where
  "genMouseMessage junk s =
     (if x_overflow s \<or> y_overflow s then (s, [])
      else
        let s1 = s\<lparr>x_mov := signed9 (x_sgn s) (x_mov s), y_mov := signed9 (y_sgn s) (y_mov s)\<rparr>;
            btns = l_btn s + 2 * r_btn s + 4 * m_btn s
        in if x_mov s1 \<noteq> 0 \<or> y_mov s1 \<noteq> 0 then
             (s1\<lparr>lastdowntick := -1000, lastclicktick := -1000, lastbtn := btns\<rparr>,
              (if btns \<noteq> lastbtn s1 then [genMouseUpMessage junk btns] else []) @
              [junk\<lparr>msg_type := M_MOUSE_MOVE, params := (params junk)(0 := x_mov s1, 1 := y_mov s1, 2 := btns)\<rparr>])
           else if btns \<noteq> 0 then
             (s1\<lparr>lastdowntick := tick s1, lastbtn := btns\<rparr>, [junk\<lparr>msg_type := M_MOUSE_DOWN, params := (params junk)(0 := btns)\<rparr>])
           else if tick s1 - lastdowntick s1 < 30 then
             if tick s1 - lastclicktick s1 < 60 then (s1\<lparr>lastclicktick := -1000, lastbtn := btns\<rparr>, [junk\<lparr>msg_type := M_MOUSE_DBCLICK\<rparr>])
             else (s1\<lparr>lastclicktick := tick s1, lastbtn := btns\<rparr>,
                   [junk\<lparr>msg_type := if lastbtn s1 mod 2 = 1 then M_MOUSE_LEFT_CLICK else M_MOUSE_RIGHT_CLICK\<rparr>])
           else (s1\<lparr>lastbtn := btns\<rparr>, [genMouseUpMessage junk btns, junk]))"

definition bit_int :: "byte \<Rightarrow> nat \<Rightarrow> int" where
  "bit_int b n = of_bool (bit b n)"

text \<open>One turn of the loop of \<open>mouseintr\<close> on a byte.\<close>

definition mouse_byte :: "message \<Rightarrow> u32 \<Rightarrow> byte \<Rightarrow> mouse \<Rightarrow> mouse \<times> message list" where
  "mouse_byte junk now b s =
     (let rec = (if recovery s = 0 \<and> b = 0 then 1 else if recovery s = 1 \<and> b = 0 then 2 else if b = 12 then 0 else -1);
          s1 = s\<lparr>m_count := m_count s + 1, recovery := rec\<rparr>;
          s2 = (if m_count s1 = 1 then
                  if bit b 3 then s1\<lparr>y_overflow := bit b 7, x_overflow := bit b 6, y_sgn := bit b 5, x_sgn := bit b 4,
                    m_btn := bit_int b 2, r_btn := bit_int b 1, l_btn := bit_int b 0\<rparr>
                  else s1\<lparr>m_count := 0\<rparr>
                else if m_count s1 = 2 then s1\<lparr>x_mov := uint b\<rparr>
                else if m_count s1 = 3 then s1\<lparr>y_mov := uint b, tick := now\<rparr>
                else s1\<lparr>m_count := 0\<rparr>)
      in if recovery s2 = 2 then (s2\<lparr>m_count := 0, recovery := -1\<rparr>, [])
         else if m_count s2 = 3 then genMouseMessage junk (s2\<lparr>m_count := 0\<rparr>)
         else (s2, []))"

fun mouseintr :: "message \<Rightarrow> u32 \<Rightarrow> byte list \<Rightarrow> mouse \<Rightarrow> mouse \<times> message list" where
  "mouseintr junk now [] s = (s, [])"
| "mouseintr junk now (b # bs) s =
     (let (s1, ms) = mouse_byte junk now b s; (s2, ms2) = mouseintr junk now bs s1 in (s2, ms @ ms2))"

end
