(* ===== verification/Drivers_Correct.thy ===== *)
theory Drivers_Correct
  imports Drivers
begin

text \<open>
  The decoding of keys and mouse packets: the bytes that a device sends for an event give its message.
\<close>

subsection \<open>Keys\<close>

text \<open>A key of the first or the extended (\<open>0xE0\<close>) block that is pressed or released.\<close>

datatype key_event = Key (k_ext: bool) (k_code: nat) (k_down: bool)

definition key_bytes :: "key_event \<Rightarrow> byte list" where
  "key_bytes e = (if k_ext e then [0xE0] else []) @ [of_nat (if k_down e then k_code e else k_code e + 128)]"

definition key_ok :: "key_event \<Rightarrow> bool" where
  "key_ok e \<longleftrightarrow> k_code e < 128 \<and> k_code e \<noteq> 0x60"

definition key_index :: "key_event \<Rightarrow> nat" where
  "key_index e = (if k_ext e then k_code e + 128 else k_code e)"

definition mods_after :: "key_event \<Rightarrow> u32 \<Rightarrow> u32" where
  "mods_after e m = (if k_down e then (m OR shiftcode (key_index e)) XOR togglecode (key_index e) else m AND NOT (shiftcode (key_index e)))"

definition event_message :: "message \<Rightarrow> key_event \<Rightarrow> u32 \<Rightarrow> message" where
  "event_message junk e m = key_message junk (if k_down e then M_KEY_DOWN else M_KEY_UP) (normalmap (key_index e)) (mods_after e m)"

fun event_messages :: "message \<Rightarrow> key_event list \<Rightarrow> u32 \<Rightarrow> message list" where
  "event_messages junk [] m = []"
| "event_messages junk (e # es) m = event_message junk e m # event_messages junk es (mods_after e m)"

lemma esc_bits:
  fixes m :: u32
  assumes "m AND E0ESC = 0"
  shows "m AND NOT E0ESC = m" and "m AND NOT (x OR E0ESC) = m AND NOT x" and "(m OR E0ESC) AND NOT E0ESC = m"
    and "(m OR E0ESC) AND NOT x AND NOT E0ESC = m AND NOT x" and "m AND NOT x AND NOT E0ESC = m AND NOT x" and "E0ESC \<noteq> 0"
proof -
  have b: "bit m n \<Longrightarrow> \<not> bit E0ESC n" for n using assms bit_and_iff [of m E0ESC n] by auto
  show "m AND NOT E0ESC = m" "m AND NOT (x OR E0ESC) = m AND NOT x" "(m OR E0ESC) AND NOT E0ESC = m"
    "(m OR E0ESC) AND NOT x AND NOT E0ESC = m AND NOT x" "m AND NOT x AND NOT E0ESC = m AND NOT x"
    by (rule bit_word_eqI, use b in \<open>auto simp: bit_simps\<close>)+
  show "E0ESC \<noteq> 0" by (simp add: E0ESC_def)
qed

lemma codes_esc: "shiftcode d AND E0ESC = 0" "togglecode d AND E0ESC = 0"
  by (simp_all add: shiftcode_def togglecode_def E0ESC_def CTL_def SHIFT_def ALT_def CAPSLOCK_def NUMLOCK_def SCROLLLOCK_def)

lemma mods_after_esc: "m AND E0ESC = 0 \<Longrightarrow> mods_after e m AND E0ESC = 0"
proof -
  assume m: "m AND E0ESC = 0"
  have b: "\<not> (bit m n \<and> bit E0ESC n)" "\<not> (bit (shiftcode d) n \<and> bit E0ESC n)" "\<not> (bit (togglecode d) n \<and> bit E0ESC n)" for n d
    using m codes_esc bit_and_iff [of _ E0ESC n] by (metis bit_0_eq bot_apply bot_bool_def)+
  show ?thesis by (rule bit_word_eqI) (use b in \<open>auto simp: mods_after_def bit_simps\<close>)
qed

lemma kbdintr_append: "kbdintr junk (xs @ ys) m = (let (m1, a) = kbdintr junk xs m; (m2, b) = kbdintr junk ys m1 in (m2, a @ b))"
  by (induction xs arbitrary: m) (auto simp: Let_def split: prod.splits)

lemma kbd_one:
  assumes m: "m AND E0ESC = 0" and e: "key_ok e"
  shows "kbdintr junk (key_bytes e) m = (mods_after e m, [event_message junk e m])"
proof -
  have c: "k_code e < 128" "k_code e \<noteq> 0x60" using e by (simp_all add: key_ok_def)
  have u: "unat (of_nat (k_code e) :: byte) = k_code e" "unat (of_nat (k_code e + 128) :: byte) = k_code e + 128"
    unfolding unat_of_nat using c by simp_all
  note b = esc_bits [OF m]
  show ?thesis
    using c by (cases "k_ext e"; cases "k_down e")
      (simp_all add: key_bytes_def kbdgetc_def Let_def u [simplified] u b m mods_after_def event_message_def key_index_def del: of_nat_add)
qed

lemma kbd_all:
  "m AND E0ESC = 0 \<Longrightarrow> \<forall>e \<in> set es. key_ok e \<Longrightarrow>
   kbdintr junk (concat (map key_bytes es)) m = (fold mods_after es m, event_messages junk es m)"
proof (induction es arbitrary: m)
  case (Cons e es)
  have "kbdintr junk (key_bytes e) m = (mods_after e m, [event_message junk e m])" using kbd_one Cons.prems by simp
  moreover have "kbdintr junk (concat (map key_bytes es)) (mods_after e m) = (fold mods_after es (mods_after e m), event_messages junk es (mods_after e m))"
    using Cons.IH [OF mods_after_esc] Cons.prems by simp
  ultimately show ?case by (simp add: kbdintr_append Let_def)
qed simp

subsection \<open>Mouse packets\<close>

lemma signed9_table:
  "\<forall>k \<in> set [0..<256]. sint (0xFFFFFF00 OR (word_of_int (int k) AND 0xFF) :: u32) = int k - 256 \<and> sint (word_of_int (int k) AND 0xFF :: u32) = int k"
  by code_simp

lemma signed9_value:
  assumes "- 256 \<le> d" and "d < 256"
  shows "signed9 (d < 0) (uint (word_of_int d :: byte)) = d"
proof -
  have u: "uint (word_of_int d :: byte) = d mod 256" by (simp add: uint_word_of_int)
  define k where "k = nat (d mod 256)"
  have k: "d mod 256 = int k" "k \<in> set [0..<256]" by (simp_all add: k_def nat_less_iff)
  note t = signed9_table [rule_format, OF k(2)]
  show ?thesis
  proof (cases "d < 0")
    case True
    have "(d + 256) mod 256 = d mod 256" by simp
    moreover have "(d + 256) mod 256 = d + 256" using True assms by (simp only: mod_pos_pos_trivial)
    ultimately have "int k - 256 = d" using k(1) by simp
    then show ?thesis unfolding signed9_def u k(1) if_P [OF True] using t by metis
  next
    case False
    then have "int k = d" using k(1) assms by simp
    then show ?thesis unfolding signed9_def u k(1) if_not_P [OF False] using t by metis
  qed
qed

text \<open>The packet of a movement by \<open>dx\<close> and \<open>dy\<close> with the buttons.\<close>

definition packet_bytes :: "int \<Rightarrow> int \<Rightarrow> bool \<Rightarrow> bool \<Rightarrow> bool \<Rightarrow> byte list" where
  "packet_bytes dx dy l r m =
     [8 + of_bool l + 2 * of_bool r + 4 * of_bool m + 16 * of_bool (dx < 0) + 32 * of_bool (dy < 0), word_of_int dx, word_of_int dy]"

definition buttons :: "bool \<Rightarrow> bool \<Rightarrow> bool \<Rightarrow> int" where
  "buttons l r m = of_bool l + 2 * of_bool r + 4 * of_bool m"

lemma packet_head:
  fixes b :: byte
  assumes "b = 8 + of_bool l + 2 * of_bool r + 4 * of_bool m + 16 * of_bool x + 32 * of_bool y"
  shows "bit b 0 = l" "bit b 1 = r" "bit b 2 = m" "bit b 3" "bit b 4 = x" "bit b 5 = y" "\<not> bit b 6" "\<not> bit b 7" "b \<noteq> 0"
    "b = 12 \<longleftrightarrow> m \<and> \<not> l \<and> \<not> r \<and> \<not> x \<and> \<not> y"
  unfolding assms by (cases l; cases r; cases m; cases x; cases y; simp)+

text \<open>Three bytes that are not the sign of a lost synchronisation make one call of \<open>genMouseMessage\<close>.\<close>

lemma packet_decodes:
  assumes c: "m_count s = 0" and d: "- 256 \<le> dx" "dx < 256" "- 256 \<le> dy" "dy < 256"
    and live: "\<not> (m \<and> \<not> l \<and> \<not> r \<and> dx = 0 \<and> dy = 0)"
  shows "\<exists>s1. mouseintr junk now (packet_bytes dx dy l r m) s = genMouseMessage junk s1 \<and> m_count s1 = 0 \<and> x_overflow s1 = False \<and> y_overflow s1 = False \<and>
    x_sgn s1 = (dx < 0) \<and> y_sgn s1 = (dy < 0) \<and> x_mov s1 = uint (word_of_int dx :: byte) \<and> y_mov s1 = uint (word_of_int dy :: byte) \<and>
    l_btn s1 + 2 * r_btn s1 + 4 * m_btn s1 = buttons l r m \<and> tick s1 = now \<and> lastbtn s1 = lastbtn s \<and> lastdowntick s1 = lastdowntick s \<and> lastclicktick s1 = lastclicktick s"
proof -
  define b1 :: byte where "b1 = 8 + of_bool l + 2 * of_bool r + 4 * of_bool m + 16 * of_bool (dx < 0) + 32 * of_bool (dy < 0)"
  define b2 :: byte where "b2 = word_of_int dx"
  define b3 :: byte where "b3 = word_of_int dy"
  note h = packet_head [OF b1_def]
  have z: "(word_of_int x :: byte) = 0 \<longleftrightarrow> x = 0 \<or> x = -256" if "- 256 \<le> x" "x < 256" for x
  proof -
    have "(word_of_int x :: byte) = 0 \<longleftrightarrow> x mod 256 = 0" by (simp add: word_uint_eq_iff uint_word_of_int)
    then show ?thesis using that by presburger
  qed
  have nr: "\<not> (b1 = 12 \<and> b2 = 0 \<and> b3 = 0)" 
  proof
    assume a: "b1 = 12 \<and> b2 = 0 \<and> b3 = 0"
    then have "m" "\<not> l" "\<not> r" "\<not> dx < 0" "\<not> dy < 0" using h(10) by simp_all
    moreover have "dx = 0 \<or> dx = -256" "dy = 0 \<or> dy = -256" using a z [OF d(1,2)] z [OF d(3,4)] by (simp_all add: b2_def b3_def)
    ultimately show False using live by simp
  qed
  define r1 :: int where "r1 = (if b1 = 12 then 0 else -1)"
  define r2 :: int where "r2 = (if r1 = 0 \<and> b2 = 0 then 1 else if b2 = 12 then 0 else -1)"
  define r3 :: int where "r3 = (if r2 = 0 \<and> b3 = 0 then 1 else if r2 = 1 \<and> b3 = 0 then 2 else if b3 = 12 then 0 else -1)"
  define t1 where "t1 = s\<lparr>m_count := 1, recovery := r1, y_overflow := False, x_overflow := False, y_sgn := dy < 0, x_sgn := dx < 0,
      m_btn := of_bool m, r_btn := of_bool r, l_btn := of_bool l\<rparr>"
  have s1: "mouse_byte junk now b1 s = (t1, [])"
    using c h by (simp add: mouse_byte_def Let_def t1_def r1_def bit_int_def)
  define t2 where "t2 = t1\<lparr>m_count := 2, recovery := r2, x_mov := uint b2\<rparr>"
  have f1: "recovery t1 = r1" "m_count t1 = 1" by (simp_all add: t1_def)
  have e2: "(if r1 = 0 \<and> b2 = 0 then 1 else if r1 = 1 \<and> b2 = 0 then 2 else if b2 = 12 then 0 else -1) = r2" and n2: "r2 \<noteq> 2"
    by (simp_all add: r2_def r1_def)
  have s2: "mouse_byte junk now b2 t1 = (t2, [])"
    unfolding mouse_byte_def Let_def f1 e2 using n2 by (simp add: t2_def)
  define t3 where "t3 = t2\<lparr>recovery := r3, y_mov := uint b3, tick := now, m_count := 0\<rparr>"
  have f2: "recovery t2 = r2" "m_count t2 = 2" by (simp_all add: t2_def)
  have n3: "r3 \<noteq> 2"
  proof
    assume "r3 = 2"
    then have "r2 = 1 \<and> b3 = 0" by (simp add: r3_def split: if_splits)
    then have "b1 = 12 \<and> b2 = 0 \<and> b3 = 0" by (simp add: r2_def r1_def split: if_splits)
    then show False using nr by blast
  qed
  have s3: "mouse_byte junk now b3 t2 = genMouseMessage junk t3"
    unfolding mouse_byte_def Let_def f2 r3_def [symmetric] using n3 by (simp add: t3_def)
  have "mouseintr junk now (packet_bytes dx dy l r m) s = genMouseMessage junk t3"
    unfolding packet_bytes_def b1_def [symmetric] b2_def [symmetric] b3_def [symmetric] by (simp add: s1 s2 s3 case_prod_unfold Let_def)
  then show ?thesis
    by (intro exI [of _ t3]) (simp add: t3_def t2_def t1_def b2_def b3_def buttons_def)
qed

subsection \<open>Claims\<close>

text \<open>
  C31 (keys_decode): the scan codes of any sequence of key presses and releases, of the plain and of the extended keys, give one message for
  each, in order, with its key and with the modifiers at that moment: those of keys held, and the locks toggled.
\<close>

theorem keys_decode:
  assumes "\<forall>e \<in> set es. key_ok e" and "m AND E0ESC = 0"
  shows "kbdintr junk (concat (map key_bytes es)) m = (fold mods_after es m, event_messages junk es m)"
  using kbd_all assms by blast

lemma keys_decode_witness:
  "kbdintr \<lparr>msg_type = 0, params = (\<lambda>_. 0)\<rparr> [0x2A, 0x1E, 0xE0, 0xC8] 0 = (SHIFT, event_messages \<lparr>msg_type = 0, params = (\<lambda>_. 0)\<rparr>
     [Key False 0x2A True, Key False 0x1E True, Key True 0x48 False] 0)"
  using keys_decode [of "[Key False 0x2A True, Key False 0x1E True, Key True 0x48 False]" 0 "\<lparr>msg_type = 0, params = (\<lambda>_. 0)\<rparr>"]
  by (simp add: key_ok_def key_bytes_def mods_after_def key_index_def shiftcode_def togglecode_def del: event_messages.simps)

text \<open>
  C32 (packets_decode): the packet of a movement is decoded to a message with exactly that movement and the buttons, after a message of
  the buttons if they have changed; without a movement a pressed button gives its message, except for the middle button alone, whose packet is
  taken for a loss of synchronisation and dropped.
\<close>

theorem packets_decode:
  assumes "m_count s = 0" and "- 256 \<le> dx" and "dx < 256" and "- 256 \<le> dy" and "dy < 256"
  shows "(dx \<noteq> 0 \<or> dy \<noteq> 0 \<longrightarrow> (\<exists>s'. m_count s' = 0 \<and> mouseintr junk now (packet_bytes dx dy l r m) s = (s',
      (if buttons l r m \<noteq> lastbtn s then [genMouseUpMessage junk (buttons l r m)] else []) @
      [junk\<lparr>msg_type := M_MOUSE_MOVE, params := (params junk)(0 := dx, 1 := dy, 2 := buttons l r m)\<rparr>]))) \<and>
    (l \<or> r \<longrightarrow> (\<exists>s'. m_count s' = 0 \<and> mouseintr junk now (packet_bytes 0 0 l r m) s = (s',
      [junk\<lparr>msg_type := M_MOUSE_DOWN, params := (params junk)(0 := buttons l r m)\<rparr>]))) \<and>
    (\<exists>s'. m_count s' = 0 \<and> mouseintr junk now (packet_bytes 0 0 False False True) s = (s', []))"
proof (intro conjI impI)
  assume d: "dx \<noteq> 0 \<or> dy \<noteq> 0"
  obtain s1 where s1: "mouseintr junk now (packet_bytes dx dy l r m) s = genMouseMessage junk s1" "m_count s1 = 0" "x_overflow s1 = False" "y_overflow s1 = False"
    "x_sgn s1 = (dx < 0)" "y_sgn s1 = (dy < 0)" "x_mov s1 = uint (word_of_int dx :: byte)" "y_mov s1 = uint (word_of_int dy :: byte)"
    "l_btn s1 + 2 * r_btn s1 + 4 * m_btn s1 = buttons l r m" "lastbtn s1 = lastbtn s"
    using packet_decodes [OF assms, of m l r junk now] d by blast
  show "\<exists>s'. m_count s' = 0 \<and> mouseintr junk now (packet_bytes dx dy l r m) s = (s',
      (if buttons l r m \<noteq> lastbtn s then [genMouseUpMessage junk (buttons l r m)] else []) @
      [junk\<lparr>msg_type := M_MOUSE_MOVE, params := (params junk)(0 := dx, 1 := dy, 2 := buttons l r m)\<rparr>])"
    unfolding s1(1) genMouseMessage_def Let_def s1(5-9) signed9_value [OF assms(2,3)] signed9_value [OF assms(4,5)]
    using d s1(2-4,10) by simp
next
  assume b: "l \<or> r"
  obtain s1 where s1: "mouseintr junk now (packet_bytes 0 0 l r m) s = genMouseMessage junk s1" "m_count s1 = 0" "x_overflow s1 = False" "y_overflow s1 = False"
    "x_sgn s1 = False" "y_sgn s1 = False" "x_mov s1 = 0" "y_mov s1 = 0"
    "l_btn s1 + 2 * r_btn s1 + 4 * m_btn s1 = buttons l r m"
    using packet_decodes [OF assms(1), of 0 0 m l r junk now] b by auto
  have "signed9 False 0 = 0" using signed9_value [of 0] by simp
  moreover have "buttons l r m \<noteq> 0" using b by (cases l; cases r; cases m) (simp_all add: buttons_def)
  ultimately show "\<exists>s'. m_count s' = 0 \<and> mouseintr junk now (packet_bytes 0 0 l r m) s = (s',
      [junk\<lparr>msg_type := M_MOUSE_DOWN, params := (params junk)(0 := buttons l r m)\<rparr>])"
    unfolding s1(1) genMouseMessage_def Let_def s1(9) using s1(2-8) by simp
next
  show "\<exists>s'. m_count s' = 0 \<and> mouseintr junk now (packet_bytes 0 0 False False True) s = (s', [])"
    using assms(1) by (simp add: packet_bytes_def mouse_byte_def Let_def)
qed

definition demo_mouse :: mouse where
  "demo_mouse = \<lparr>x_sgn = False, y_sgn = False, x_mov = 0, y_mov = 0, l_btn = 0, r_btn = 0, m_btn = 0, x_overflow = False, y_overflow = False, tick = 0,
     m_count = 0, recovery = 0, lastbtn = 0, lastdowntick = - 1000, lastclicktick = - 1000\<rparr>"

lemma packets_decode_witness:
  "\<exists>s'. mouseintr \<lparr>msg_type = 0, params = (\<lambda>_. 0)\<rparr> 7 [0x18, 0xFB, 3] demo_mouse = (s', [\<lparr>msg_type = M_MOUSE_MOVE, params = (\<lambda>_. 0)(0 := -5, 1 := 3, 2 := 0)\<rparr>])"
proof -
  let ?j = "\<lparr>msg_type = 0, params = (\<lambda>_. 0)\<rparr> :: message"
  have p: "packet_bytes (-5) 3 False False False = [0x18, 0xFB, 3]" "buttons False False False = 0" by (simp_all add: packet_bytes_def buttons_def)
  have d: "m_count demo_mouse = 0" "lastbtn demo_mouse = 0" by (simp_all add: demo_mouse_def)
  have "\<exists>s'. m_count s' = 0 \<and> mouseintr ?j 7 (packet_bytes (-5) 3 False False False) demo_mouse = (s',
      (if buttons False False False \<noteq> lastbtn demo_mouse then [genMouseUpMessage ?j (buttons False False False)] else []) @
      [?j\<lparr>msg_type := M_MOUSE_MOVE, params := (params ?j)(0 := -5, 1 := 3, 2 := buttons False False False)\<rparr>])"
    by (rule packets_decode [OF d(1), of "-5" 3, THEN conjunct1, rule_format]) simp_all
  then show ?thesis unfolding p d(2) by auto
qed

end
