(* ===== verification/Exec.thy ===== *)
theory Exec
  imports SysFile
begin

text \<open>
  \<open>exec\<close> (exec.c): a new address space is built from an ELF file and takes the place of the old one. Its state is the file
  system, from which it reads, and the kernel of \<open>Process\<close>; the address space is given up on every failure. \<open>switchuvm\<close>, which loads the registers of the processor, changes no state of the model. \<open>elf\<close> and \<open>ph\<close> are
  the bytes of the two headers (elf.h), read word by word.
\<close>

definition ELF_MAGIC :: addr where "ELF_MAGIC = 0x464C457F"
definition ELF_PROG_LOAD :: addr where "ELF_PROG_LOAD = 1"

record elfhdr =
  magic :: addr
  e_entry :: addr
  phoff :: addr
  phnum :: nat

record proghdr =
  ph_type :: addr
  ph_off :: addr
  vaddr :: addr
  filesz :: addr
  memsz :: addr

definition get16 :: "byte list \<Rightarrow> nat \<Rightarrow> nat" where
  "get16 m i = unat (m ! i) + 256 * unat (m ! (i + 1))"

definition elfhdr_of :: "byte list \<Rightarrow> elfhdr" where
  "elfhdr_of b = \<lparr>magic = get32 b 0, e_entry = get32 b 24, phoff = get32 b 28, phnum = get16 b 44\<rparr>"

definition proghdr_of :: "byte list \<Rightarrow> proghdr" where
  "proghdr_of b = \<lparr>ph_type = get32 b 0, ph_off = get32 b 4, vaddr = get32 b 8, filesz = get32 b 16, memsz = get32 b 20\<rparr>"

text \<open>The read of a part of the file for \<open>loaduvm\<close>.\<close>

definition read_part :: "'a fs_state_scheme dev_read \<Rightarrow> int \<Rightarrow> nat \<Rightarrow> nat \<Rightarrow> 'a fs_state_scheme \<Rightarrow> ('a fs_state_scheme \<times> byte list) res" where
  "read_part dr ip off n s = rbind (readi dr s ip (u32 (int off)) (int n)) (\<lambda>(s1, _, bs). Inr (s1, bs))"

text \<open>The loop over the program headers, from the \<open>i\<close>-th at \<open>off\<close> on: the new size, or \<open>None\<close> for \<open>goto bad\<close>.\<close>

fun load_segments :: "'a fs_state_scheme dev_read \<Rightarrow> addr \<Rightarrow> int \<Rightarrow> addr \<Rightarrow> nat \<Rightarrow> addr \<Rightarrow> addr \<Rightarrow> 'a fs_state_scheme \<Rightarrow> kmem \<Rightarrow>
    ('a fs_state_scheme \<times> kmem \<times> addr option) res" where
  "load_segments dr bound ip pgdir 0 off sz s m = Inr (s, m, Some sz)"
| "load_segments dr bound ip pgdir (Suc n) off sz s m =
     rbind (readi dr s ip (uint off) 32) (\<lambda>(s1, r, b).
     if r \<noteq> 32 then Inr (s1, m, None)
     else
       let ph = proghdr_of b in
       if ph_type ph \<noteq> ELF_PROG_LOAD then load_segments dr bound ip pgdir n (off + 32) sz s1 m
       else if memsz ph < filesz ph then Inr (s1, m, None)
       else if vaddr ph + memsz ph < vaddr ph then Inr (s1, m, None)
       else
         rbind (allocuvm bound pgdir sz (vaddr ph + memsz ph) m) (\<lambda>(m1, sz1).
         if sz1 = 0 then Inr (s1, m1, None)
         else if vaddr ph mod 4096 \<noteq> 0 then Inr (s1, m1, None)
         else
           rbind (loaduvm (read_part dr ip) pgdir (vaddr ph) (unat (ph_off ph)) (unat (filesz ph)) s1 m1) (\<lambda>(s2, m2, r2).
           if r2 < 0 then Inr (s2, m2, None) else load_segments dr bound ip pgdir n (off + 32) sz1 s2 m2)))"

text \<open>The argument strings, each with its NUL, go on the stack from \<open>sp\<close> down; the addresses are collected in \<open>ustack\<close>.\<close>

fun push_args :: "addr \<Rightarrow> nat \<Rightarrow> byte list list \<Rightarrow> addr \<Rightarrow> addr list \<Rightarrow> kmem \<Rightarrow> (kmem \<times> (addr \<times> addr list) option) res" where
  "push_args pgdir argc [] sp us m = Inr (m, Some (sp, us))"
| "push_args pgdir argc (a # args) sp us m =
     (if argc \<ge> MAXARG then Inr (m, None)
      else
        let sp1 = (sp - of_nat (length a)) AND NOT 3 in
        rbind (copyout pgdir sp1 a m) (\<lambda>(m1, r).
        if r < 0 then Inr (m1, None) else push_args pgdir (argc + 1) args sp1 (us @ [sp1]) m1))"

definition word_bytes :: "addr \<Rightarrow> byte list" where
  "word_bytes w = [ucast w, ucast (drop_bit 8 w), ucast (drop_bit 16 w), ucast (drop_bit 24 w)]"

text \<open>The part of a path name behind the last slash.\<close>

fun last_elem :: "byte list \<Rightarrow> byte list \<Rightarrow> byte list" where
  "last_elem lst [] = lst"
| "last_elem lst (c # cs) = (if c = 0 then lst else if c = 47 then last_elem cs cs else last_elem lst cs)"

text \<open>The failures: \<open>bad_image\<close> while the file is open, \<open>bad_stack\<close> afterwards.\<close>

definition bad_stack :: "addr \<Rightarrow> addr \<Rightarrow> 'a fs_state_scheme \<Rightarrow> kmem \<Rightarrow> 'e kern \<Rightarrow> ('a fs_state_scheme \<times> 'e kern \<times> int) res" where
  "bad_stack bound pgdir s m k =
     rbind (if pgdir \<noteq> 0 then freevm bound pgdir m else Inr m) (\<lambda>m1. Inr (s, k\<lparr>km := m1\<rparr>, -1))"

definition bad_image :: "addr \<Rightarrow> addr \<Rightarrow> int \<Rightarrow> 'a fs_state_scheme \<Rightarrow> kmem \<Rightarrow> 'e kern \<Rightarrow> ('a fs_state_scheme \<times> 'e kern \<times> int) res" where
  "bad_image bound pgdir ip s m k =
     rbind (bad_stack bound pgdir s m k) (\<lambda>(s1, k1, r).
     rbind (iunlockput s1 ip) (\<lambda>s2. rbind (end_op s2) (\<lambda>s3. Inr (s3, k1, r))))"

text \<open>The second half: the stack and the change to the new image.\<close>

definition exec_stack :: "addr \<Rightarrow> nat \<Rightarrow> byte list \<Rightarrow> byte list list \<Rightarrow> addr \<Rightarrow> addr \<Rightarrow> addr \<Rightarrow> 'a fs_state_scheme \<Rightarrow> kmem \<Rightarrow> 'e kern \<Rightarrow>
    ('a fs_state_scheme \<times> 'e kern \<times> int) res" where
  "exec_stack bound cur path argv pgdir entry sz0 s m k =
     (let sz1 = PGROUNDUP sz0 in
      rbind (allocuvm bound pgdir sz1 (sz1 + 8192) m) (\<lambda>(m1, sz).
      if sz = 0 then bad_stack bound pgdir s m1 k
      else
        rbind (clearpteu pgdir (sz - 8192) m1) (\<lambda>m2.
        rbind (push_args pgdir 0 argv sz [] m2) (\<lambda>(m3, r).
        case r of
          None \<Rightarrow> bad_stack bound pgdir s m3 k
        | Some (sp, us) \<Rightarrow>
            let argc = length argv;
                ustack = [0xFFFFFFFF, of_nat argc, sp - (of_nat argc + 1) * 4] @ us @ [0];
                sp1 = sp - (3 + of_nat argc + 1) * 4 in
            rbind (copyout pgdir sp1 (concat (map word_bytes ustack)) m3) (\<lambda>(m4, r1).
            if r1 < 0 then bad_stack bound pgdir s m4 k
            else
              rbind (safestrcpy (p_name (ptab k ! cur)) 0 (last_elem path path) 16) (\<lambda>nm.
              let old = p_pgdir (ptab k ! cur) in
              rbind (freevm bound old m4) (\<lambda>m5.
              Inr (s, (upd_proc cur (\<lambda>p. p\<lparr>p_name := nm, p_pgdir := pgdir, p_sz := sz,
                p_tf := (p_tf p)\<lparr>tf_eip := entry, tf_esp := sp1\<rparr>\<rparr>) k)\<lparr>km := m5\<rparr>, 0))))))))"

definition exec :: "'a fs_state_scheme dev_read \<Rightarrow> addr \<Rightarrow> addr \<Rightarrow> nat \<Rightarrow> byte list \<Rightarrow> byte list list \<Rightarrow> 'a fs_state_scheme \<Rightarrow> 'e kern \<Rightarrow>
    ('a fs_state_scheme \<times> 'e kern \<times> int) res" where
  "exec dr bound dataseg cur path argv s k =
     rbind (begin_op s) (\<lambda>s1.
     rbind (namei dr s1 path) (\<lambda>(s2, ip).
     if ip = -1 then rbind (end_op s2) (\<lambda>s3. Inr (s3, k, -1))
     else
       rbind (ilock s2 ip) (\<lambda>s3.
       rbind (readi dr s3 ip 0 52) (\<lambda>(s4, r, b).
       if r \<noteq> 52 then bad_image bound 0 ip s4 (km k) k
       else if magic (elfhdr_of b) \<noteq> ELF_MAGIC then bad_image bound 0 ip s4 (km k) k
       else
         rbind (setupkvm bound dataseg (km k)) (\<lambda>(m1, pgdir).
         if pgdir = 0 then bad_image bound 0 ip s4 m1 k
         else
           rbind (load_segments dr bound ip pgdir (phnum (elfhdr_of b)) (phoff (elfhdr_of b)) 0 s4 m1) (\<lambda>(s5, m2, szo).
           case szo of
             None \<Rightarrow> bad_image bound pgdir ip s5 m2 k
           | Some sz0 \<Rightarrow>
               rbind (iunlockput s5 ip) (\<lambda>s6.
               rbind (end_op s6) (\<lambda>s7. exec_stack bound cur path argv pgdir (e_entry (elfhdr_of b)) sz0 s7 m2 k))))))))"

text \<open>\<open>sys_exec\<close>, with \<open>exec_args\<close> as its first half.\<close>

definition sys_exec :: "'a fs_state_scheme dev_read \<Rightarrow> addr \<Rightarrow> addr \<Rightarrow> nat \<Rightarrow> uctx \<Rightarrow> 'a fs_state_scheme \<Rightarrow> 'e kern \<Rightarrow>
    ('a fs_state_scheme \<times> 'e kern \<times> int) res" where
  "sys_exec dr bound dataseg cur u s k =
     (case exec_args u of None \<Rightarrow> Inr (s, k, -1) | Some (path, argv) \<Rightarrow> exec dr bound dataseg cur path argv s k)"

subsection \<open>All or nothing\<close>

lemma bad_stack_table: "bad_stack bound d s m k = Inr (s', k', r) \<Longrightarrow> r = -1 \<and> s' = s \<and> k' = k\<lparr>km := km k'\<rparr>"
  by (auto simp: bad_stack_def rbind_eq_Inr split: if_splits)

lemma bad_image_table: "bad_image bound d ip s m k = Inr (s', k', r) \<Longrightarrow> r = -1 \<and> k' = k\<lparr>km := km k'\<rparr>"
  by (auto simp: bad_image_def rbind_eq_Inr dest: bad_stack_table)

lemma push_args_sp: "push_args d argc args sp us m = Inr (m', Some (sp', us')) \<Longrightarrow> sp AND 3 = 0 \<Longrightarrow> sp' AND 3 = 0"
proof (induction d argc args sp us m rule: push_args.induct)
  case (2 d argc a args sp us m)
  have "((sp - of_nat (length a)) AND NOT 3) AND 3 = 0" by (rule bit_word_eqI) (auto simp: bit_simps)
  then show ?case using 2 by (auto simp: rbind_eq_Inr Let_def split: if_splits)
qed simp

lemma exec_stack_spec:
  assumes run: "exec_stack bound cur path argv d entry sz0 s m k = Inr (s', k', r)"
  shows "r = -1 \<and> k' = k\<lparr>km := km k'\<rparr> \<or>
    r = 0 \<and> (\<exists>nm sz sp. k' = (upd_proc cur (\<lambda>p. p\<lparr>p_name := nm, p_pgdir := d, p_sz := sz,
      p_tf := (p_tf p)\<lparr>tf_eip := entry, tf_esp := sp\<rparr>\<rparr>) k)\<lparr>km := km k'\<rparr> \<and> sz \<noteq> 0)"
proof -
  from run obtain m1 sz where a: "(if sz = 0 then bad_stack bound d s m1 k
      else
        rbind (clearpteu d (sz - 8192) m1) (\<lambda>m2.
        rbind (push_args d 0 argv sz [] m2) (\<lambda>(m3, r).
        case r of
          None \<Rightarrow> bad_stack bound d s m3 k
        | Some (sp, us) \<Rightarrow>
            let argc = length argv;
                ustack = [0xFFFFFFFF, of_nat argc, sp - (of_nat argc + 1) * 4] @ us @ [0];
                sp1 = sp - (3 + of_nat argc + 1) * 4 in
            rbind (copyout d sp1 (concat (map word_bytes ustack)) m3) (\<lambda>(m4, r1).
            if r1 < 0 then bad_stack bound d s m4 k
            else
              rbind (safestrcpy (p_name (ptab k ! cur)) 0 (last_elem path path) 16) (\<lambda>nm.
              let old = p_pgdir (ptab k ! cur) in
              rbind (freevm bound old m4) (\<lambda>m5.
              Inr (s, (upd_proc cur (\<lambda>p. p\<lparr>p_name := nm, p_pgdir := d, p_sz := sz,
                p_tf := (p_tf p)\<lparr>tf_eip := entry, tf_esp := sp1\<rparr>\<rparr>) k)\<lparr>km := m5\<rparr>, 0)))))))
      = Inr (s', k', r)"
    unfolding exec_stack_def Let_def rbind_eq_Inr by auto
  show ?thesis
  proof (cases "sz = 0")
    case True
    with a show ?thesis by (auto dest: bad_stack_table)
  next
    case False
    show ?thesis using a by (auto simp: rbind_eq_Inr Let_def dest!: bad_stack_table split: if_splits option.splits) blast+
  qed
qed

lemma exec_all_or_nothing:
  assumes run: "exec dr bound dataseg cur path argv s k = Inr (s', k', r)"
  shows "r = -1 \<and> k' = k\<lparr>km := km k'\<rparr> \<or>
    r = 0 \<and> (\<exists>nm d entry sz sp. k' = (upd_proc cur (\<lambda>p. p\<lparr>p_name := nm, p_pgdir := d, p_sz := sz,
      p_tf := (p_tf p)\<lparr>tf_eip := entry, tf_esp := sp\<rparr>\<rparr>) k)\<lparr>km := km k'\<rparr> \<and> sz \<noteq> 0 \<and> d \<noteq> 0)"
proof -
  define P where "P \<longleftrightarrow> ?thesis"
  have e: "exec_stack bound cur path argv d e sz0 s7 m2 k = Inr (s', k', r) \<Longrightarrow> d \<noteq> 0 \<Longrightarrow> P" for d e sz0 s7 m2
    unfolding P_def using exec_stack_spec [of bound cur path argv d e sz0 s7 m2 k s' k' r] by blast
  have b: "bad_image bound d ip s7 m2 k = Inr (s', k', r) \<Longrightarrow> P" for d ip s7 m2
    unfolding P_def using bad_image_table [of bound d ip s7 m2 k s' k' r] by blast
  have n: "k = k' \<and> - 1 = r \<Longrightarrow> P" unfolding P_def by auto
  have "P" using run e b n unfolding exec_def
    by (auto simp: rbind_eq_Inr Let_def split: if_split_asm option.split_asm)
  then show ?thesis unfolding P_def .
qed

end
