(* ===== verification/Spec2Isabelle.thy ===== *)
theory Spec2Isabelle
  imports WM_Safety Compositor UserGui CString WG_Correct FS_Claims Handlers Grep VM_Claims Proc_Claims Shell_Claims Files_Claims Malloc_Claims Console_Correct Drivers_Correct Exec
begin

text \<open>
  Verification development for xv6-gui: the xv6 teaching kernel for the x86 with a window system in the kernel
  and a library of widgets for its user programs.

  \<^bold>\<open>The program and its parts.\<close> The kernel has a disk (memide.c), a buffer cache (bio.c) whose buffers carry
  sleep locks (sleeplock.c), a redo log (log.c) that groups the block writes of concurrent system calls into
  atomic transactions, and the file system over it (fs.c); pipes (pipe.c) connect processes. Pages of
  memory (kalloc.c) hold page tables and user memory (vm.c) of the processes (proc.c). Its window manager
  (window_manager.c) gets the messages that the drivers of mouse and keyboard make, moves them through per-window
  queues to the programs, and paints the screen with the drawing library (gui.c). A user program keeps a window of
  widgets (user_window.c), draws into its own pixel buffer (user_gui.c) and edits text fields (user_handler.c); the
  user library has its own string routines (ulib.c), as the kernel has (string.c). grep.c is one of the
  user programs.

  \<^bold>\<open>Theories and the code they model.\<close>
  \<^item> Prelude: results of code that may fail, checked array accesses, loops. Links: doubly linked lists kept by
    index, as a locale over the cells, interpreted for the kernel's windows (Windows) and a window's widgets (Widgets).
  \<^item> Queues: the message queue of a window (window_manager.c) and the byte ring of a pipe (pipe.c), two
    interpretations of one locale of bounded queues.
  \<^item> Windows, WindowManager: data and operations of window_manager.c; WM_Correct, WM_Safety: its invariant
    \<open>wm_ok\<close>, what every event does to the stack of windows and to the queues, and the reachable states \<open>wm_reach\<close>,
    in which polls may be under way.
  \<^item> Raster, Draw, Compositor: pixels, gui.c, and the painting of the screen, with the relation \<open>painted\<close>
    between the canvas before and after a step; \<open>layers\<close> are the pictures on the screen, and \<open>covers\<close> the points that one can touch. UserGui: user_gui.c on the same relation.
  \<^item> Widgets, WG_Correct: user_window.c and the effect of its operations on the list of widgets. Handlers:
    user_handler.c and the text of an input field as an abstract editor.
  \<^item> CString: string.c and ulib.c. Grep: grep.c and the meaning of its patterns.
  \<^item> BlockCache, BC_Correct: bio.c, sleeplock.c and memide.c; \<open>ring\<close> relates the linked buffers to their order
    of use, \<open>view\<close> is the content of a block that readers see. Bytes: words inside blocks.
  \<^item> Log: log.c. Log_Correct, Log_Crash, Log_Recovery, Transactions, CrashSafe: what a commit writes and in which
    order, what recovery makes of the disk after a crash between any two of those writes, and the transition
    system of concurrent system calls; LogClaims states the results.
  \<^item> FileSys, Directories: fs.c. FS_Alloc, FS_Inodes, FS_Paths: the block allocator over the log, the format and
    the cache of inodes, path names; FS_Claims states the results.
  \<^item> Kalloc: kalloc.c, the free list inside the free pages. VM, VM_Correct, VM_Claims: vm.c, two-level page tables over the
    pages, \<open>pte_at\<close> the entry of an address, and user memory through it.
  \<^item> Process, Proc_Correct, Proc_Claims: proc.c, the invariant \<open>pt_inv\<close> of the process table and the CPUs, and all
    histories (\<open>pstep\<close>, \<open>history\<close>) of processes, interrupts and schedulers.
  \<^item> Shell, Shell_Correct, Shell_Claims: the parser of sh.c over positions in the line; \<open>good_cmd\<close> is a well-formed command over
    words of the line, \<open>unparse\<close> writes a command.
  \<^item> Syscall: the arguments of system calls (syscall.c) and sysproc.c over the registers and memory of a user process. Files,
    Files_Correct: file.c, pipealloc and the calls of sysfile.c on descriptors, with the invariant \<open>ft_inv\<close> of reference counts and
    pipes. SysFile: the calls of sysfile.c on path names. Files_Claims: all histories (\<open>io_step\<close>) of calls on files.
  \<^item> VM_Grow: the growth of a process by \<open>allocuvm\<close>. Malloc, Malloc_Correct, Malloc_Claims: umalloc.c, the ring of free blocks as a set
    with its successor function, over \<open>growproc\<close>.
  \<^item> Exec: exec.c; \<open>exec_all_or_nothing\<close> says what it changes of the process table, in success and in failure.
  \<^item> Console, Console_Correct: console.c and printf.c. The ring of typed characters is two lists, \<open>con_rel\<close>: those for readers
    and the line being edited. Drivers, Drivers_Correct: kbd.c and mouse.c, from the bytes of the devices to messages.
  \<^bold>\<open>How the code is read.\<close> A C struct is a record, a pointer into an array the index, an array a list whose accesses
  are checked: an access outside it is the error \<open>OutOfBounds\<close>. A call of \<open>panic\<close> is \<open>Panic\<close>, a loop that would not
  end is \<open>Hang\<close>, and a process that would wait for another ends the run with \<open>Sleeps\<close>. A C \<open>int\<close> is an integer where
  its range does not matter; bytes, flags and on-disk words have their width. The sections of code under one spin
  lock are single steps. A poll of a window queue tests the count outside the lock, in a step of its own
  (sys_GUI_getMessage, sys_GUI_getPopupMessage), and removes the message later (\<open>take_message\<close>). \<open>fork\<close> is two
  steps, with the new slot in state \<open>EMBRYO\<close> in between, and \<open>nextpid\<close> wraps at 32 bits (\<open>wrap32\<close>). \<open>log_write\<close> is
  one step, though its two tests come before its lock: a race of two calls at the very limit of the log is not modelled.
  Uninitialised memory that the code reads or sends is a parameter (\<open>junk\<close>).
  The blending of colours is floating-point arithmetic and the tables of glyphs and icons are data: both are
  parameters of the drawing code (\<open>mix\<close>, \<open>font\<close>). \<open>disk_writes\<close> is a ghost list of the blocks written, with which
  crashes are stated. The devices of \<open>devsw\<close> are parameters of the file system, and so are the handlers of widgets.

  \<^bold>\<open>Bounds and fuel.\<close> A loop along links gets as fuel the number of cells of its array (50 windows, 50 widgets, 30
  buffers): a list of distinct cells is never longer, so that running out of fuel means a cycle, and the lemmas
  show that it does not happen on the well-formed states (and \<open>close_bottom_hangs\<close> where it does). The other loops
  are structural or have a termination proof (path names, directories, patterns, reads of a file).
  The loops of kalloc.c and vm.c over a range of addresses get \<open>2^20\<close>, the number of pages of the address space, as fuel:
  the address moves by a page in every turn.
  The grammar of the shell calls itself with four units of fuel for every byte of the line (\<open>parse_safe\<close>).
  \<^bold>\<open>What the lemmas show.\<close> Each component has an invariant or representation relation, lemmas for every operation on
  every branch over it, and the claims, numbered in the order of their importance: crash atomicity and safety of
  the log first, then the file system, the cache, files and pipes, memory, processes, the window manager, the queues and pipes, drawing, widgets, text
  fields, user programs and string routines. Several claims state what the code does on inputs where it goes
  wrong (\<open>close_bottom_hangs\<close>, \<open>key_routing\<close>, \<open>remove_back_widget\<close>,
  \<open>reservation_short\<close>): the theorems say exactly when.

  \<^bold>\<open>Not modelled.\<close> Assembly and boot code (bootmain.c, entry, trap vectors, swtch), the drivers of real devices
  (ide.c, uart.c, lapic.c, ioapic.c, picirq.c, mp.c, timer), the tests (usertests.c, forktest.c, stressfs.c), mkfs.c, which runs on
  the build host, the data tables of glyphs and icons, and the graphical programs, which only arrange widgets. Spin locks and
  the interrupt flag are not states of their own: a locked section is a step. The graphical shell
  (shell.c) repeats the parser of sh.c, which is modelled, and otherwise arranges widgets and passes bytes through pipes.
\<close>

end
